(* ===== verification/Prelude.thy ===== *)
theory Prelude
  imports Main "HOL-Library.Word"
begin

text \<open>
  What every theory of the development shares: the names of the machine types
  of the C sources (\<open>uint8_t\<close>, \<open>uint32_t\<close>, \<open>uint64_t\<close>), byte strings as lists
  of bytes, the return codes of \<^verbatim>\<open>engine/src/util/status.h\<close>, in-place writes to
  a byte array, and the generic lemmas on words and lists that carry the proofs
  of the components.  The collection \<open>wire_simps\<close> gathers the round-trip facts
  of the encoders, \<open>len_simps\<close> the facts on the length of encodings.
\<close>

unbundle bit_operations_syntax

type_synonym byte = "8 word"
type_synonym bytes = "byte list"
type_synonym u32 = "32 word"
type_synonym u64 = "64 word"

named_theorems wire_simps "decoding what an encoder wrote"
named_theorems len_simps "lengths of encodings"

section \<open>Return codes\<close>

text \<open>The \<open>LDB_\<dots>\<close> constants of \<^verbatim>\<open>status.h\<close>; \<open>IOERR\<close> also stands for the \<open>errno\<close> values without a name here.\<close>

datatype status = OK | NOTFOUND | CORRUPTION | NOSUPPORT | INVALID | IOERR | ENOENT | EINVAL | EEXIST | ENOLCK

section \<open>Writing into a byte array\<close>

text \<open>\<open>memcpy(data + off, src, n)\<close> on an array that is large enough.\<close>

definition put_at :: "nat \<Rightarrow> 'a list \<Rightarrow> 'a list \<Rightarrow> 'a list" where
  "put_at off src dst = take off dst @ src @ drop (off + length src) dst"

lemma length_put_at [simp]:
  "off + length src \<le> length dst \<Longrightarrow> length (put_at off src dst) = length dst"
  by (simp add: put_at_def)

lemma take_put_at [simp]: "n \<le> off \<Longrightarrow> off \<le> length dst \<Longrightarrow> take n (put_at off src dst) = take n dst"
  by (simp add: put_at_def min_def)

lemma drop_put_at [simp]:
  "off + length src \<le> n \<Longrightarrow> off + length src \<le> length dst \<Longrightarrow> drop n (put_at off src dst) = drop n dst"
  by (simp add: put_at_def)

lemma take_drop_put_at [simp]:
  "off + length src \<le> length dst \<Longrightarrow> take (length src) (drop off (put_at off src dst)) = src"
  by (simp add: put_at_def)

section \<open>Words\<close>

lemma not_bit_of_less:
  fixes x :: "'a::len word"
  assumes "unat x < 2 ^ k" and "k \<le> n"
  shows "\<not> bit x n"
proof
  assume "bit x n"
  then have "bit (unat x) n" by (simp add: bit_unsigned_iff)
  moreover have "take_bit k (unat x) = unat x" using assms(1) by (simp add: take_bit_nat_eq_self_iff)
  ultimately show False using assms(2) by (metis bit_take_bit_iff not_le)
qed

lemma unat_of_nat_small [simp]: "n < 2 ^ LENGTH('a) \<Longrightarrow> unat (word_of_nat n :: 'a::len word) = n"
  by (simp add: unat_of_nat take_bit_nat_eq_self)

lemma unat_drop_bit_word: "unat (drop_bit n x) = unat x div 2 ^ n"
  for x :: "'a::len word"
proof -
  have "unat (drop_bit n x) = drop_bit n (unat x)"
    by (rule bit_eqI) (auto simp: bit_simps dest: bit_imp_le_length)
  then show ?thesis by (simp add: drop_bit_eq_div)
qed

lemma unat_byte_bound [simp]: "unat (x :: byte) < 256"
  using unsigned_less [of x] by simp

lemma unat_u32_bound: "unat (x :: u32) < 2 ^ 32" and unat_u64_bound: "unat (y :: u64) < 2 ^ 64"
  using unsigned_less [of x] unsigned_less [of y] by simp_all

lemma not_bit_byte [simp]: "8 \<le> n \<Longrightarrow> \<not> bit (b :: byte) n"
  by (auto dest: bit_imp_le_length)

lemma and_128_iff: "x AND 128 = 0 \<longleftrightarrow> \<not> bit x 7" for x :: byte
  using and_exp_eq_0_iff_not_bit [of x 7] by simp

lemma byte_not_high_iff: "x AND 128 = 0 \<longleftrightarrow> unat x < 128" for x :: byte
proof -
  have "bit x 7 \<longleftrightarrow> odd (unat x div 128)"
    by (simp add: bit_unsigned_iff flip: bit_iff_odd [of "unat x" 7, simplified])
  moreover have "odd (unat x div 128) \<longleftrightarrow> \<not> unat x < 128"
  proof (cases "unat x < 128")
    case False
    then have "unat x div 128 = 1" using unat_byte_bound [of x] by linarith
    with False show ?thesis by simp
  qed simp
  ultimately show ?thesis by (simp add: and_128_iff)
qed

section \<open>Lists\<close>

lemma take_length_append [simp]: "take (length xs) (xs @ ys) = xs"
  by simp

lemma sorted_wrt_map_nth:
  "sorted_wrt P xs \<Longrightarrow> i < j \<Longrightarrow> j < length xs \<Longrightarrow> P (xs ! i) (xs ! j)"
  by (rule sorted_wrt_nth_less)

lemma dropWhile_all: "\<forall>x \<in> set xs. P x \<Longrightarrow> dropWhile P (xs @ ys) = dropWhile P ys"
  by (induction xs) auto

lemma sorted_dropWhile_not:
  assumes "sorted_wrt R xs" "\<And>x y. R x y \<Longrightarrow> P y \<Longrightarrow> P x"
  shows "\<forall>x \<in> set (dropWhile P xs). \<not> P x"
  using assms(1) by (induction xs) (auto dest: assms(2))

lemma length_takeWhile_less_iff:
  assumes "sorted_wrt R xs" "\<And>x y. R x y \<Longrightarrow> P y \<Longrightarrow> P x"
  shows "i < length xs \<Longrightarrow> i < length (takeWhile P xs) \<longleftrightarrow> P (xs ! i)"
  using assms(1) by (induction xs arbitrary: i) (auto simp: nth_Cons split: nat.splits dest: assms(2) nth_mem)

text \<open>Where a cut through a concatenation falls.\<close>

lemma append_cut:
  assumes "p @ q = x @ y"
  obtains (inside) r where "p @ r = x" "r \<noteq> []" "q = r @ y" | (past) r where "p = x @ r" "r @ q = y"
proof -
  consider us where "p = x @ us" "us @ q = y" | us where "p @ us = x" "q = us @ y"
    using assms by (auto simp: append_eq_append_conv2)
  then show thesis
  proof cases
    case (2 us)
    then show thesis using inside past by (cases "us = []") auto
  qed (rule past)
qed

end
