(* ===== verification/Coding.thy ===== *)
theory Coding
  imports Prelude
begin

text \<open>
  The wire encodings of \<^verbatim>\<open>engine/src/util/coding.h\<close> and the length-prefixed
  slices of \<^verbatim>\<open>engine/src/util/slice.c\<close>.  A writer that fills memory at \<open>zp\<close> and
  returns the advanced pointer is the list of bytes it writes; a reader that
  advances \<open>*xp\<close>, \<open>*xn\<close> is a function on the bytes that are left, with \<open>None\<close> for
  the return value 0 (every caller then gives up, so the cursor is not used
  again).  \<open>leb128\<close> is the reference definition both varint writers are shown to
  implement, and \<open>wire_codec\<close> is the contract between an encoder and its decoder
  that the record formats of the engine rest on.
\<close>

section \<open>Fixed-width integers\<close>

definition ldb_fixed32_encode :: "u32 \<Rightarrow> bytes" where
  "ldb_fixed32_encode x =
     [ucast x, ucast (drop_bit 8 x), ucast (drop_bit 16 x), ucast (drop_bit 24 x)]"

definition ldb_fixed32_decode :: "bytes \<Rightarrow> u32" where
  "ldb_fixed32_decode xp =
     ucast (xp ! 0) OR push_bit 8 (ucast (xp ! 1)) OR push_bit 16 (ucast (xp ! 2))
     OR push_bit 24 (ucast (xp ! 3))"

definition ldb_fixed64_encode :: "u64 \<Rightarrow> bytes" where
  "ldb_fixed64_encode x =
     [ucast x, ucast (drop_bit 8 x), ucast (drop_bit 16 x), ucast (drop_bit 24 x),
      ucast (drop_bit 32 x), ucast (drop_bit 40 x), ucast (drop_bit 48 x),
      ucast (drop_bit 56 x)]"

definition ldb_fixed64_decode :: "bytes \<Rightarrow> u64" where
  "ldb_fixed64_decode xp =
     ucast (xp ! 0) OR push_bit 8 (ucast (xp ! 1)) OR push_bit 16 (ucast (xp ! 2))
     OR push_bit 24 (ucast (xp ! 3)) OR push_bit 32 (ucast (xp ! 4))
     OR push_bit 40 (ucast (xp ! 5)) OR push_bit 48 (ucast (xp ! 6))
     OR push_bit 56 (ucast (xp ! 7))"

definition ldb_fixed32_write :: "u32 \<Rightarrow> bytes" where
  "ldb_fixed32_write x =
     [ucast x, ucast (drop_bit 8 x), ucast (drop_bit 16 x), ucast (drop_bit 24 x)]"

definition ldb_fixed32_read :: "bytes \<Rightarrow> (u32 \<times> bytes) option" where
  "ldb_fixed32_read xs =
     (if length xs < 4 then None else Some (ldb_fixed32_decode xs, drop 4 xs))"

definition ldb_fixed64_write :: "u64 \<Rightarrow> bytes" where
  "ldb_fixed64_write x =
     [ucast x, ucast (drop_bit 8 x), ucast (drop_bit 16 x), ucast (drop_bit 24 x),
      ucast (drop_bit 32 x), ucast (drop_bit 40 x), ucast (drop_bit 48 x),
      ucast (drop_bit 56 x)]"

definition ldb_fixed64_read :: "bytes \<Rightarrow> (u64 \<times> bytes) option" where
  "ldb_fixed64_read xs =
     (if length xs < 8 then None else Some (ldb_fixed64_decode xs, drop 8 xs))"

section \<open>Varints\<close>

definition ldb_varint32_size :: "u32 \<Rightarrow> nat" where
  "ldb_varint32_size x =
     (if x < 2 ^ 7 then 1 else if x < 2 ^ 14 then 2 else if x < 2 ^ 21 then 3
      else if x < 2 ^ 28 then 4 else 5)"

definition ldb_varint32_write :: "u32 \<Rightarrow> bytes" where
  "ldb_varint32_write x =
     (if x < 2 ^ 7 then [ucast x]
      else if x < 2 ^ 14 then [ucast (x OR 128), ucast (drop_bit 7 x)]
      else if x < 2 ^ 21 then
        [ucast (x OR 128), ucast (drop_bit 7 x OR 128), ucast (drop_bit 14 x)]
      else if x < 2 ^ 28 then
        [ucast (x OR 128), ucast (drop_bit 7 x OR 128), ucast (drop_bit 14 x OR 128),
         ucast (drop_bit 21 x)]
      else
        [ucast (x OR 128), ucast (drop_bit 7 x OR 128), ucast (drop_bit 14 x OR 128),
         ucast (drop_bit 21 x OR 128), ucast (drop_bit 28 x)])"

text \<open>
  The loop \<open>for (shift = 0; shift <= max && *xn > 0; shift += 7)\<close> that both readers
  run, on a \<open>uint32_t\<close> with \<open>max\<close> 28 and on a \<open>uint64_t\<close> with \<open>max\<close> 63.
\<close>

fun varint_loop :: "nat \<Rightarrow> nat \<Rightarrow> 'a::len word \<Rightarrow> bytes \<Rightarrow> ('a word \<times> bytes) option" where
  "varint_loop lim shift result [] = None"
| "varint_loop lim shift result (b # xs) =
     (if shift \<le> lim then
        (if (ucast b :: 'a word) AND 128 \<noteq> 0 then
           varint_loop lim (shift + 7) (result OR push_bit shift (ucast b AND 127)) xs
         else Some (result OR push_bit shift (ucast b), xs))
      else None)"

definition ldb_varint32_read :: "bytes \<Rightarrow> (u32 \<times> bytes) option" where
  "ldb_varint32_read xs =
     (if xs \<noteq> [] \<and> (ucast (hd xs) :: u32) AND 128 = 0 then Some (ucast (hd xs), tl xs)
      else varint_loop 28 0 0 xs)"

function ldb_varint64_size_from :: "nat \<Rightarrow> u64 \<Rightarrow> nat" where
  "ldb_varint64_size_from len x =
     (if 128 \<le> x then ldb_varint64_size_from (len + 1) (drop_bit 7 x) else len)"
  by pat_completeness auto
termination
proof (relation "measure (\<lambda>(len, x). unat x)")
  fix len :: nat and x :: u64
  assume "128 \<le> x"
  then have "128 \<le> unat x" by (simp add: word_le_nat_alt)
  then show "((len + 1, drop_bit 7 x), (len, x)) \<in> measure (\<lambda>(len, x). unat x)"
    by (simp add: unat_drop_bit_word)
qed simp

definition ldb_varint64_size :: "u64 \<Rightarrow> nat" where
  "ldb_varint64_size x = ldb_varint64_size_from 1 x"

function ldb_varint64_write :: "u64 \<Rightarrow> bytes" where
  "ldb_varint64_write x =
     (if 128 \<le> x then ucast (x OR 128) # ldb_varint64_write (drop_bit 7 x) else [ucast x])"
  by pat_completeness auto
termination
proof (relation "measure unat")
  fix x :: u64
  assume "128 \<le> x"
  then have "128 \<le> unat x" by (simp add: word_le_nat_alt)
  then show "(drop_bit 7 x, x) \<in> measure unat"
    by (simp add: unat_drop_bit_word)
qed simp

declare ldb_varint64_size_from.simps [simp del] ldb_varint64_write.simps [simp del]

definition ldb_varint64_read :: "bytes \<Rightarrow> (u64 \<times> bytes) option" where
  "ldb_varint64_read xs = varint_loop 63 0 0 xs"

section \<open>Raw bytes and slices\<close>

definition ldb_raw_write :: "bytes \<Rightarrow> bytes" where
  "ldb_raw_write xp = xp"

definition ldb_zraw_read :: "nat \<Rightarrow> bytes \<Rightarrow> (bytes \<times> bytes) option" where
  "ldb_zraw_read zn xs = (if length xs < zn then None else Some (take zn xs, drop zn xs))"

definition ldb_slice_eat :: "bytes \<Rightarrow> nat \<Rightarrow> bytes" where
  "ldb_slice_eat z xn = drop xn z"

definition ldb_slice_equal :: "bytes \<Rightarrow> bytes \<Rightarrow> bool" where
  "ldb_slice_equal x y =
     (if length x \<noteq> length y then False else if length x = 0 then True
      else list_all2 (=) x (take (length y) y))"

definition ldb_slice_size :: "bytes \<Rightarrow> nat" where
  "ldb_slice_size x = ldb_varint32_size (word_of_nat (length x)) + length x"

definition ldb_slice_write :: "bytes \<Rightarrow> bytes" where
  "ldb_slice_write x = ldb_varint32_write (word_of_nat (length x)) @ ldb_raw_write x"

definition ldb_slice_export :: "bytes \<Rightarrow> bytes \<Rightarrow> bytes" where
  "ldb_slice_export z x = z @ ldb_slice_write x"

definition ldb_slice_read :: "bytes \<Rightarrow> (bytes \<times> bytes) option" where
  "ldb_slice_read xs =
     (case ldb_varint32_read xs of None \<Rightarrow> None
      | Some (zn, ys) \<Rightarrow> ldb_zraw_read (unat zn) ys)"

definition ldb_slice_slurp :: "bytes \<Rightarrow> (bytes \<times> bytes) option" where
  "ldb_slice_slurp x = ldb_slice_read x"

definition ldb_slice_import :: "bytes \<Rightarrow> bytes option" where
  "ldb_slice_import x = map_option fst (ldb_slice_slurp x)"

text \<open>
  \<open>ldb_slice_decode\<close> reads a slice whose length is known to be well-formed from a
  bare pointer: at most five bytes of length, then that many bytes of data.  The
  argument is the memory from the pointer on.  \<open>None\<close> is the assertion that fails.
\<close>

definition ldb_slice_decode :: "bytes \<Rightarrow> bytes option" where
  "ldb_slice_decode xp =
     (case ldb_varint32_read (take 5 xp) of None \<Rightarrow> None
      | Some (zn, rest) \<Rightarrow>
          Some (take (unat zn) (drop (length (take 5 xp) - length rest) xp)))"

text \<open>The memory after such a slice, \<open>z.data + z.size\<close>.\<close>

definition slice_after :: "bytes \<Rightarrow> bytes" where
  "slice_after xp =
     (case ldb_varint32_read (take 5 xp) of None \<Rightarrow> []
      | Some (zn, rest) \<Rightarrow> drop (length (take 5 xp) - length rest + unat zn) xp)"

section \<open>The reference encoding\<close>

fun leb128 :: "nat \<Rightarrow> bytes" where
  "leb128 n = (if n < 128 then [word_of_nat n]
               else word_of_nat (n mod 128 + 128) # leb128 (n div 128))"

declare leb128.simps [simp del]

section \<open>Round trips of the fixed-width integers\<close>

lemma ldb_fixed32_write_eq: "ldb_fixed32_write x = ldb_fixed32_encode x"
  by (simp add: ldb_fixed32_write_def ldb_fixed32_encode_def)

lemma ldb_fixed64_write_eq: "ldb_fixed64_write x = ldb_fixed64_encode x"
  by (simp add: ldb_fixed64_write_def ldb_fixed64_encode_def)

lemma length_fixed [len_simps, simp]:
  "length (ldb_fixed32_write x) = 4" "length (ldb_fixed32_encode x) = 4"
  "length (ldb_fixed64_write y) = 8" "length (ldb_fixed64_encode y) = 8"
  by (simp_all add: ldb_fixed32_write_def ldb_fixed32_encode_def
      ldb_fixed64_write_def ldb_fixed64_encode_def)

lemma ldb_fixed32_decode_append:
  "4 \<le> length xs \<Longrightarrow> ldb_fixed32_decode (xs @ ys) = ldb_fixed32_decode xs"
  by (cases xs) (auto simp: ldb_fixed32_decode_def nth_append)

lemma ldb_fixed64_decode_append:
  "8 \<le> length xs \<Longrightarrow> ldb_fixed64_decode (xs @ ys) = ldb_fixed64_decode xs"
  by (cases xs) (auto simp: ldb_fixed64_decode_def nth_append)

lemma bit_byte_of:
  "bit (ucast (ucast x :: byte) :: 'a::len word) n \<longleftrightarrow> n < 8 \<and> bit x n" for x :: "'a::len word"
  by (auto simp: bit_simps dest: bit_imp_le_length)

lemma bit_shifted_byte_of:
  "bit (push_bit k (ucast (ucast (drop_bit k x) :: byte) :: 'a::len word)) n \<longleftrightarrow>
   k \<le> n \<and> n < k + 8 \<and> bit x n" for x :: "'a::len word"
  by (auto simp: bit_simps dest: bit_imp_le_length)

lemma ldb_fixed32_decode_encode [wire_simps, simp]:
  "ldb_fixed32_decode (ldb_fixed32_encode x) = x"
proof (rule bit_word_eqI)
  fix n assume "n < LENGTH(32)"
  then show "bit (ldb_fixed32_decode (ldb_fixed32_encode x)) n = bit x n"
    by (simp add: ldb_fixed32_decode_def ldb_fixed32_encode_def bit_or_iff bit_byte_of
        bit_shifted_byte_of) arith
qed

lemma ldb_fixed64_decode_encode [wire_simps, simp]:
  "ldb_fixed64_decode (ldb_fixed64_encode x) = x"
proof (rule bit_word_eqI)
  fix n assume "n < LENGTH(64)"
  then show "bit (ldb_fixed64_decode (ldb_fixed64_encode x)) n = bit x n"
    by (simp add: ldb_fixed64_decode_def ldb_fixed64_encode_def bit_or_iff bit_byte_of
        bit_shifted_byte_of) arith
qed

lemma ldb_fixed32_read_write [wire_simps]:
  "ldb_fixed32_read (ldb_fixed32_write x @ rest) = Some (x, rest)"
  by (simp add: ldb_fixed32_read_def ldb_fixed32_write_eq ldb_fixed32_decode_append)

lemma ldb_fixed64_read_write [wire_simps]:
  "ldb_fixed64_read (ldb_fixed64_write x @ rest) = Some (x, rest)"
  by (simp add: ldb_fixed64_read_def ldb_fixed64_write_eq ldb_fixed64_decode_append)

section \<open>Both varint writers are LEB128\<close>

lemma ucast_eq_word_of_nat: "ucast x = (word_of_nat (unat x) :: 'b::len word)" for x :: "'a::len word"
  by simp

lemma bit_128_iff: "bit (128 :: 'a::len word) n \<longleftrightarrow> n = 7 \<and> 7 < LENGTH('a)"
proof -
  have "(128 :: 'a word) = 2 ^ 7" by simp
  then show ?thesis by (auto simp only: bit_exp_iff possible_bit_word)
qed

lemma bit_127_iff: "bit (127 :: 'a::len word) n \<longleftrightarrow> n < 7 \<and> n < LENGTH('a)"
proof -
  have "(127 :: 'a word) = mask 7" by (simp add: mask_eq_exp_minus_1)
  then show ?thesis by (auto simp only: bit_mask_iff possible_bit_word)
qed

lemma bit_128_ring: "bit (128 :: nat) n \<longleftrightarrow> n = 7" "bit (128 :: int) n \<longleftrightarrow> n = 7"
  using bit_exp_iff [of 7 n, where 'a = nat] bit_exp_iff [of 7 n, where 'a = int] by auto

lemma bit_127_ring: "bit (127 :: nat) n \<longleftrightarrow> n < 7" "bit (127 :: int) n \<longleftrightarrow> n < 7"
  using bit_mask_iff [of 7 n, where 'a = nat] bit_mask_iff [of 7 n, where 'a = int]
  by (auto simp: mask_eq_exp_minus_1)

lemmas bit_flag_simps = bit_128_iff bit_127_iff bit_128_ring bit_127_ring

lemma byte_with_flag:
  fixes x :: "'a::len word"
  assumes "8 \<le> LENGTH('a)"
  shows "(ucast (x OR 128) :: byte) = word_of_nat (unat x mod 128 + 128)"
proof -
  have "take_bit 7 (unat x) + 128 = (take_bit 7 (unat x) OR 128 :: nat)"
    by (rule disjunctive_add) (auto simp: bit_simps bit_flag_simps)
  then have "unat x mod 128 + 128 = (take_bit 7 (unat x) OR 128 :: nat)"
    by (simp add: take_bit_eq_mod)
  then show ?thesis using assms
    by (intro bit_word_eqI) (auto simp: bit_simps bit_flag_simps)
qed

lemma leb128_small: "n < 128 \<Longrightarrow> leb128 n = [word_of_nat n]"
  by (simp add: leb128.simps)

lemma leb128_large: "128 \<le> n \<Longrightarrow> leb128 n = word_of_nat (n mod 128 + 128) # leb128 (n div 128)"
  by (simp add: leb128.simps [of n])

lemma varint64_write_leb128: "ldb_varint64_write x = leb128 (unat x)"
proof (induction x rule: ldb_varint64_write.induct)
  case (1 x)
  show ?case
  proof (cases "128 \<le> x")
    case True
    then have "128 \<le> unat x" by (simp add: word_le_nat_alt)
    then show ?thesis using True 1
      by (simp add: ldb_varint64_write.simps [of x] leb128_large byte_with_flag unat_drop_bit_word)
  next
    case False
    then have "unat x < 128" by (simp add: word_le_nat_alt)
    then show ?thesis using False by (simp add: ldb_varint64_write.simps [of x] leb128_small)
  qed
qed

lemma varint32_write_leb128: "ldb_varint32_write x = leb128 (unat x)"
proof -
  have *: "x < 2 ^ 7 \<longleftrightarrow> unat x < 2 ^ 7" "x < 2 ^ 14 \<longleftrightarrow> unat x < 2 ^ 14"
    "x < 2 ^ 21 \<longleftrightarrow> unat x < 2 ^ 21" "x < 2 ^ 28 \<longleftrightarrow> unat x < 2 ^ 28"
    by (simp_all only: word_less_nat_alt) simp_all
  have d: "(ucast (drop_bit k x) :: byte) = word_of_nat (unat x div 2 ^ k)" for k
    by (simp add: ucast_eq_word_of_nat unat_drop_bit_word del: of_nat_unat)
  have "unat x < 2 ^ 32" using unsigned_less [of x] by simp
  then show ?thesis
    unfolding ldb_varint32_write_def *
    by (auto simp: leb128_small leb128_large byte_with_flag unat_drop_bit_word d
        div_mult2_eq [symmetric] not_less div_le_mono)
qed


section \<open>Reading a varint\<close>

lemma or_push_bit_disjoint:
  fixes r :: "'a::len word"
  assumes "unat r < 2 ^ s"
  shows "r OR push_bit s (word_of_nat k) = word_of_nat (unat r + k * 2 ^ s)"
proof -
  have "r + push_bit s (word_of_nat k) = r OR push_bit s (word_of_nat k)"
    by (rule disjunctive_add) (use not_bit_of_less [OF assms] in \<open>auto simp: bit_push_bit_iff\<close>)
  then show ?thesis by (simp add: push_bit_eq_mult)
qed

lemma byte_flag_nat:
  assumes "8 \<le> LENGTH('a::len)" and "k < 128"
  shows "(ucast (word_of_nat (k + 128) :: byte) :: 'a word) AND 128 \<noteq> 0"
    and "(ucast (word_of_nat (k + 128) :: byte) :: 'a word) AND 127 = word_of_nat k"
    and "(word_of_nat k :: 'a word) AND 128 = 0"
    and "(ucast (word_of_nat k :: byte) :: 'a word) = word_of_nat k"
proof -
  have "take_bit 7 k = k" using assms(2) by (simp add: take_bit_eq_mod)
  then have k: "n < 7" if "bit k n" for n using that by (metis bit_take_bit_iff)
  then have kp: "k + 128 = (k OR 128)" by (intro disjunctive_add) (auto simp: bit_flag_simps)
  have k8: "n < 8" if "bit k n" for n using k [OF that] by simp
  have "bit ((ucast (word_of_nat (k + 128) :: byte) :: 'a word) AND 128) 7"
    using assms(1) by (auto simp: bit_simps kp bit_flag_simps)
  then show "(ucast (word_of_nat (k + 128) :: byte) :: 'a word) AND 128 \<noteq> 0" by fastforce
  show "(ucast (word_of_nat (k + 128) :: byte) :: 'a word) AND 127 = word_of_nat k"
    by (rule bit_word_eqI) (auto simp: bit_simps kp bit_flag_simps dest: k k8)
  show "(word_of_nat k :: 'a word) AND 128 = 0"
    by (rule bit_word_eqI) (auto simp: bit_simps bit_flag_simps dest: k)
  show "(ucast (word_of_nat k :: byte) :: 'a word) = word_of_nat k"
    by (rule bit_word_eqI) (auto simp: bit_simps dest: k8)
qed

lemma varint_loop_leb128:
  fixes result :: "'a::len word"
  assumes "8 \<le> LENGTH('a)" and lim: "\<And>s. 7 dvd s \<Longrightarrow> s < LENGTH('a) \<Longrightarrow> s \<le> lim"
    and "unat result < 2 ^ shift" and "unat result + m * 2 ^ shift < 2 ^ LENGTH('a)"
    and "shift < LENGTH('a)" and "7 dvd shift"
  shows "varint_loop lim shift result (leb128 m @ rest) =
    Some (word_of_nat (unat result + m * 2 ^ shift), rest)"
  using assms(3-)
proof (induction m arbitrary: shift result rule: leb128.induct)
  case (1 m)
  show ?case
  proof (cases "m < 128")
    case True
    with 1 lim show ?thesis
      by (simp add: leb128_small byte_flag_nat [OF assms(1) True] or_push_bit_disjoint)
  next
    case False
    let ?r = "result OR push_bit shift (word_of_nat (m mod 128))"
    have r: "?r = word_of_nat (unat result + m mod 128 * 2 ^ shift)"
      using 1 by (simp add: or_push_bit_disjoint)
    have s128: "128 * 2 ^ shift = (2 :: nat) ^ (shift + 7)" by (simp add: power_add)
    have split: "unat result + m mod 128 * 2 ^ shift + m div 128 * 2 ^ (shift + 7) =
      unat result + m * 2 ^ shift"
    proof -
      have "m * 2 ^ shift = (m mod 128 + 128 * (m div 128)) * 2 ^ shift" by simp
      also have "\<dots> = m mod 128 * 2 ^ shift + m div 128 * 2 ^ (shift + 7)"
        unfolding distrib_right power_add by simp
      finally show ?thesis by simp
    qed
    then have ur: "unat ?r = unat result + m mod 128 * 2 ^ shift"
      unfolding r using "1.prems"(2) by (intro unat_of_nat_small) linarith
    have "m mod 128 * 2 ^ shift \<le> 127 * 2 ^ shift" by simp
    then have lt: "unat ?r < 2 ^ (shift + 7)" using ur "1.prems"(1) s128 by linarith
    have "128 * 2 ^ shift \<le> m * 2 ^ shift" using False by simp
    then have "(2 :: nat) ^ (shift + 7) < 2 ^ LENGTH('a)" using "1.prems"(2) s128 by linarith
    then have sh: "shift + 7 < LENGTH('a)" by (simp add: power_strict_increasing_iff)
    then have "varint_loop lim (shift + 7) ?r (leb128 (m div 128) @ rest) =
        Some (word_of_nat (unat ?r + m div 128 * 2 ^ (shift + 7)), rest)"
      using False lt "1.prems"(2,4) split ur by (intro "1.IH") simp_all
    moreover have "m mod 128 < 128" by simp
    ultimately show ?thesis
      using False lim [OF "1.prems"(4,3)] byte_flag_nat [OF assms(1), of "m mod 128"]
      by (simp add: leb128_large ur split)
  qed
qed

lemma varint32_read_leb128:
  assumes "m < 2 ^ 32"
  shows "ldb_varint32_read (leb128 m @ rest) = Some (word_of_nat m, rest)"
proof -
  have loop: "varint_loop 28 0 (0 :: u32) (leb128 m @ rest) = Some (word_of_nat m, rest)"
  proof -
    have "s \<le> 28" if "7 dvd s" "s < 32" for s :: nat using that by presburger
    then show ?thesis using varint_loop_leb128 [of 28 "0 :: u32" 0 m rest] assms by simp
  qed
  show ?thesis
  proof (cases "m < 128")
    case True
    then show ?thesis
      using byte_flag_nat [of m, where 'a = 32] by (simp add: ldb_varint32_read_def leb128_small)
  next
    case False
    have "m mod 128 < 128" by simp
    with False show ?thesis
      using loop byte_flag_nat(1) [of "m mod 128", where 'a = 32]
      by (simp add: ldb_varint32_read_def leb128_large)
  qed
qed

lemma ldb_varint32_read_write [wire_simps]:
  "ldb_varint32_read (ldb_varint32_write x @ rest) = Some (x, rest)"
  using varint32_read_leb128 [of "unat x" rest] unsigned_less [of x]
  by (simp add: varint32_write_leb128)

lemma ldb_varint64_read_write [wire_simps]:
  "ldb_varint64_read (ldb_varint64_write x @ rest) = Some (x, rest)"
  using varint_loop_leb128 [of 63 "0 :: u64" 0 "unat x" rest] unsigned_less [of x]
  by (simp add: varint64_write_leb128 ldb_varint64_read_def less_Suc_eq_le)


section \<open>What a reader consumes\<close>

lemma varint_loop_prefix:
  "varint_loop lim shift result xs = Some (z, ys) \<Longrightarrow>
   \<exists>p. xs = p @ ys \<and> p \<noteq> [] \<and> shift + 7 * (length p - 1) \<le> lim"
proof (induction xs arbitrary: shift result)
  case (Cons b xs)
  show ?case
  proof (cases "(ucast b :: 'a word) AND 128 \<noteq> 0")
    case True
    with Cons.prems have le: "shift \<le> lim" and rec:
      "varint_loop lim (shift + 7) (result OR push_bit shift (ucast b AND 127)) xs = Some (z, ys)"
      by (auto split: if_splits)
    from Cons.IH [OF rec] obtain p where
      p: "xs = p @ ys" "p \<noteq> []" "shift + 7 + 7 * (length p - 1) \<le> lim" by auto
    then have "shift + 7 * (length (b # p) - 1) \<le> lim" by (cases p) auto
    with p show ?thesis by (intro exI [of _ "b # p"]) auto
  next
    case False
    with Cons.prems show ?thesis by (intro exI [of _ "[b]"]) (auto split: if_splits)
  qed
qed simp

lemma varint32_read_prefix:
  assumes "ldb_varint32_read xs = Some (z, ys)"
  shows "\<exists>p. xs = p @ ys \<and> p \<noteq> [] \<and> length p \<le> 5"
proof (cases "xs \<noteq> [] \<and> (ucast (hd xs) :: u32) AND 128 = 0")
  case True
  with assms show ?thesis
    by (intro exI [of _ "[hd xs]"]) (auto simp: ldb_varint32_read_def)
next
  case False
  with assms have "varint_loop 28 0 0 xs = Some (z, ys)" by (auto simp: ldb_varint32_read_def)
  from varint_loop_prefix [OF this] show ?thesis by fastforce
qed

lemma varint64_read_prefix:
  assumes "ldb_varint64_read xs = Some (z, ys)"
  shows "\<exists>p. xs = p @ ys \<and> p \<noteq> [] \<and> length p \<le> 10"
  using varint_loop_prefix [OF assms [unfolded ldb_varint64_read_def]] by fastforce

lemma slice_read_prefix:
  assumes "ldb_slice_read xs = Some (z, ys)"
  shows "\<exists>p. xs = p @ z @ ys \<and> p \<noteq> [] \<and> length p \<le> 5"
proof -
  obtain zn rest where v: "ldb_varint32_read xs = Some (zn, rest)"
    and z: "ldb_zraw_read (unat zn) rest = Some (z, ys)"
    using assms by (auto simp: ldb_slice_read_def split: option.splits)
  then have "rest = z @ ys" by (auto simp: ldb_zraw_read_def split: if_splits)
  with varint32_read_prefix [OF v] show ?thesis by auto
qed

section \<open>Slices\<close>

lemma ldb_slice_equal_iff [simp]: "ldb_slice_equal x y \<longleftrightarrow> x = y"
  by (auto simp: ldb_slice_equal_def list.rel_eq)

lemma ldb_slice_read_write [wire_simps]:
  assumes "length x < 2 ^ 32"
  shows "ldb_slice_read (ldb_slice_write x @ rest) = Some (x, rest)"
  using assms
  by (simp add: ldb_slice_read_def ldb_slice_write_def ldb_varint32_read_write
      ldb_zraw_read_def ldb_raw_write_def)

lemma ldb_varint32_size_eq [len_simps]: "length (ldb_varint32_write x) = ldb_varint32_size x"
  by (simp add: ldb_varint32_write_def ldb_varint32_size_def)

lemma ldb_varint32_size_bounds: "1 \<le> ldb_varint32_size x" "ldb_varint32_size x \<le> 5"
  by (simp_all add: ldb_varint32_size_def)

lemma ldb_slice_size_eq [len_simps]: "length (ldb_slice_write x) = ldb_slice_size x"
  by (simp add: ldb_slice_write_def ldb_slice_size_def ldb_raw_write_def ldb_varint32_size_eq)

lemma varint64_size_from_eq:
  "ldb_varint64_size_from len x + 1 = len + length (ldb_varint64_write x)"
proof (induction len x rule: ldb_varint64_size_from.induct)
  case (1 len x)
  then show ?case
    by (simp add: ldb_varint64_size_from.simps [of len x] ldb_varint64_write.simps [of x])
qed

lemma ldb_varint64_size_eq [len_simps]: "length (ldb_varint64_write x) = ldb_varint64_size x"
  using varint64_size_from_eq [of 1 x] by (simp add: ldb_varint64_size_def)

lemma ldb_slice_decode_write:
  assumes "length x < 2 ^ 32"
  shows "ldb_slice_decode (ldb_slice_write x @ rest) = Some x"
    "slice_after (ldb_slice_write x @ rest) = rest"
proof -
  let ?w = "ldb_varint32_write (word_of_nat (length x))"
  have w5: "length ?w \<le> 5" using ldb_varint32_size_bounds by (simp add: len_simps)
  have "take 5 (?w @ x @ rest) = ?w @ take (5 - length ?w) (x @ rest)" using w5 by simp
  then show "ldb_slice_decode (ldb_slice_write x @ rest) = Some x"
    "slice_after (ldb_slice_write x @ rest) = rest"
    using assms w5
    by (simp_all add: ldb_slice_decode_def slice_after_def ldb_slice_write_def ldb_raw_write_def
        ldb_varint32_read_write)
qed

section \<open>Decoders do not look behind what they consume\<close>

lemma varint_loop_extend:
  "varint_loop lim shift result xs = Some (z, ys) \<Longrightarrow>
   varint_loop lim shift result (xs @ q) = Some (z, ys @ q)"
  by (induction lim shift result xs rule: varint_loop.induct) (auto split: if_splits)

lemma fixed_read_extend:
  "ldb_fixed32_read xs = Some (z, ys) \<Longrightarrow> ldb_fixed32_read (xs @ q) = Some (z, ys @ q)"
  "ldb_fixed64_read xs = Some (w, ys) \<Longrightarrow> ldb_fixed64_read (xs @ q) = Some (w, ys @ q)"
  by (auto simp: ldb_fixed32_read_def ldb_fixed64_read_def ldb_fixed32_decode_append
      ldb_fixed64_decode_append split: if_splits)

lemma varint_read_extend:
  "ldb_varint32_read xs = Some (z, ys) \<Longrightarrow> ldb_varint32_read (xs @ q) = Some (z, ys @ q)"
  "ldb_varint64_read xs = Some (w, ys) \<Longrightarrow> ldb_varint64_read (xs @ q) = Some (w, ys @ q)"
  by (cases xs; auto simp: ldb_varint32_read_def ldb_varint64_read_def varint_loop_extend split: if_splits)+

lemma slice_read_extend:
  "ldb_slice_read xs = Some (z, ys) \<Longrightarrow> ldb_slice_read (xs @ q) = Some (z, ys @ q)"
  by (auto simp: ldb_slice_read_def ldb_zraw_read_def varint_read_extend split: option.splits if_splits)

section \<open>The contract between an encoder and its decoder\<close>

locale wire_codec =
  fixes valid :: "'a \<Rightarrow> bool" and enc :: "'a \<Rightarrow> bytes" and dec :: "bytes \<Rightarrow> ('a \<times> bytes) option"
  assumes dec_enc: "valid x \<Longrightarrow> dec (enc x @ rest) = Some (x, rest)"
    and dec_consumes: "dec xs = Some (x, ys) \<Longrightarrow> \<exists>p. xs = p @ ys \<and> p \<noteq> []"
    and dec_extend: "dec xs = Some (x, ys) \<Longrightarrow> dec (xs @ q) = Some (x, ys @ q)"
begin

lemma dec_truncated:
  assumes "valid x" "p @ q = enc x" "q \<noteq> []"
  shows "dec p = None"
proof (cases "dec p")
  case (Some r)
  then show ?thesis
    using dec_extend [of p "fst r" "snd r" q] dec_enc [OF assms(1), of "[]"] assms by (cases r) auto
qed simp

lemma enc_not_Nil: "valid x \<Longrightarrow> enc x \<noteq> []"
  using dec_enc [of x "[]"] dec_consumes [of "enc x" x "[]"] by auto

lemma enc_prefix_free: "valid x \<Longrightarrow> valid y \<Longrightarrow> enc x @ r = enc y @ s \<Longrightarrow> x = y \<and> r = s"
  by (metis dec_enc option.inject prod.inject)

lemma dec_shrinks: "dec xs = Some (x, ys) \<Longrightarrow> length ys < length xs"
  using dec_consumes by fastforce

end

interpretation fixed32: wire_codec "\<lambda>_. True" ldb_fixed32_write ldb_fixed32_read
proof unfold_locales
  fix xs x ys assume "ldb_fixed32_read xs = Some (x, ys)"
  then show "\<exists>p. xs = p @ ys \<and> p \<noteq> []"
    by (intro exI [of _ "take 4 xs"]) (auto simp: ldb_fixed32_read_def split: if_splits)
qed (simp_all add: ldb_fixed32_read_write fixed_read_extend)

interpretation fixed64: wire_codec "\<lambda>_. True" ldb_fixed64_write ldb_fixed64_read
proof unfold_locales
  fix xs x ys assume "ldb_fixed64_read xs = Some (x, ys)"
  then show "\<exists>p. xs = p @ ys \<and> p \<noteq> []"
    by (intro exI [of _ "take 8 xs"]) (auto simp: ldb_fixed64_read_def split: if_splits)
qed (simp_all add: ldb_fixed64_read_write fixed_read_extend)

interpretation varint32: wire_codec "\<lambda>_. True" ldb_varint32_write ldb_varint32_read
  by unfold_locales (auto simp: ldb_varint32_read_write varint_read_extend dest: varint32_read_prefix)

interpretation varint64: wire_codec "\<lambda>_. True" ldb_varint64_write ldb_varint64_read
  by unfold_locales (auto simp: ldb_varint64_read_write varint_read_extend dest: varint64_read_prefix)

interpretation slice: wire_codec "\<lambda>x. length x < 2 ^ 32" ldb_slice_write ldb_slice_read
proof unfold_locales
  fix xs x ys assume "ldb_slice_read xs = Some (x, ys)"
  then show "\<exists>p. xs = p @ ys \<and> p \<noteq> []" using slice_read_prefix by fastforce
qed (rule ldb_slice_read_write slice_read_extend; assumption)+

section \<open>Properties\<close>

text \<open>The two varint encoders write the little-endian base-128 encoding of their argument
  and the decoders read it back from the front of any buffer, leaving exactly the rest.\<close>

lemma varint_codec:
  "ldb_varint32_write x = leb128 (unat x) \<and> ldb_varint32_read (ldb_varint32_write x @ rest) = Some (x, rest) \<and>
   ldb_varint64_write y = leb128 (unat y) \<and> ldb_varint64_read (ldb_varint64_write y @ rest) = Some (y, rest) \<and>
   length (ldb_varint32_write x) = ldb_varint32_size x \<and> length (ldb_varint64_write y) = ldb_varint64_size y"
  by (simp add: varint32_write_leb128 [symmetric] varint64_write_leb128 [symmetric] ldb_varint32_read_write
      ldb_varint64_read_write ldb_varint32_size_eq ldb_varint64_size_eq)

text \<open>A length-prefixed slice is read back whole, and a buffer that ends inside a
  slice is refused, wherever it is cut.\<close>

lemma slice_codec:
  assumes "length x < 2 ^ 32" "n < length (ldb_slice_write x)"
  shows "ldb_slice_read (ldb_slice_write x @ rest) = Some (x, rest) \<and>
    ldb_slice_read (take n (ldb_slice_write x)) = None"
  using slice.dec_enc [OF assms(1)] slice.dec_truncated [OF assms(1) append_take_drop_id] assms(2) by simp

end
