(* ===== verification/Comparator.thy ===== *)
theory Comparator
  imports Coding "HOL-Library.List_Lexorder"
begin

text \<open>
  Key comparators: the \<open>ldb_comparator_t\<close> interface of
  \<^verbatim>\<open>engine/src/util/comparator.h\<close> and the bytewise comparator of
  \<^verbatim>\<open>engine/src/util/comparator.c\<close>.  A comparator is a value with its functions
  as components; \<open>cmp_user\<close> is the \<open>user_comparator\<close> field, which only the
  internal key comparator sets.  The locale \<open>comparator\<close> states what the
  engine needs of a comparison function, \<open>separating_comparator\<close> what the table
  builder needs of the two key-shortening functions; both are interpreted on the
  bytewise comparator.
\<close>

datatype ldb_comparator = Comparator
  (cmp_name: string)
  (cmp_compare: "bytes \<Rightarrow> bytes \<Rightarrow> int")
  (cmp_shortest_separator: "(bytes \<Rightarrow> bytes \<Rightarrow> bytes) option")
  (cmp_short_successor: "(bytes \<Rightarrow> bytes) option")
  (cmp_user: "ldb_comparator option")

definition ldb_compare :: "ldb_comparator \<Rightarrow> bytes \<Rightarrow> bytes \<Rightarrow> int" where
  "ldb_compare c x y = cmp_compare c x y"

text \<open>\<open>memcmp\<close> of the C library on the first \<open>n\<close> bytes; only its sign is used.\<close>

fun memcmp :: "bytes \<Rightarrow> bytes \<Rightarrow> nat \<Rightarrow> int" where
  "memcmp (x # xs) (y # ys) (Suc n) =
     (if x < y then -1 else if y < x then 1 else memcmp xs ys n)"
| "memcmp xs ys n = 0"

definition slice_compare :: "bytes \<Rightarrow> bytes \<Rightarrow> int" where
  "slice_compare x y =
     (let n = min (length x) (length y);
          r = (if n \<noteq> 0 then memcmp x y n else 0)
      in if r = 0 then
           (if length x < length y then -1 else if length y < length x then 1 else r)
         else r)"

text \<open>The loop \<open>while (i < min_length && x[i] == y[i]) i++\<close>.\<close>

function scan_shared :: "bytes \<Rightarrow> bytes \<Rightarrow> nat \<Rightarrow> nat" where
  "scan_shared x y i =
     (if i < min (length x) (length y) \<and> x ! i = y ! i then scan_shared x y (i + 1) else i)"
  by pat_completeness auto
termination by (relation "measure (\<lambda>(x, y, i). length x - i)") auto

declare scan_shared.simps [simp del]

definition shortest_separator :: "bytes \<Rightarrow> bytes \<Rightarrow> bytes" where
  "shortest_separator start limit =
     (let min_length = min (length start) (length limit);
          diff_index = scan_shared start limit 0
      in if min_length \<le> diff_index then start
         else let diff_byte = start ! diff_index
              in if diff_byte < 255 \<and> unat diff_byte + 1 < unat (limit ! diff_index)
                 then take (diff_index + 1) (start[diff_index := diff_byte + 1])
                 else start)"

function short_successor_from :: "nat \<Rightarrow> bytes \<Rightarrow> bytes" where
  "short_successor_from i key =
     (if i < length key then
        (if key ! i \<noteq> 255 then take (i + 1) (key[i := key ! i + 1])
         else short_successor_from (i + 1) key)
      else key)"
  by pat_completeness auto
termination by (relation "measure (\<lambda>(i, key). length key - i)") auto

declare short_successor_from.simps [simp del]

definition short_successor :: "bytes \<Rightarrow> bytes" where
  "short_successor key = short_successor_from 0 key"

definition bytewise_comparator :: ldb_comparator where
  "bytewise_comparator =
     Comparator ''leveldb.BytewiseComparator'' slice_compare
       (Some shortest_separator) (Some short_successor) None"

section \<open>What a comparison function promises\<close>

locale comparator =
  fixes cmp :: "'k \<Rightarrow> 'k \<Rightarrow> int" and valid :: "'k \<Rightarrow> bool"
  assumes cmp_antisym: "valid x \<Longrightarrow> valid y \<Longrightarrow> sgn (cmp y x) = - sgn (cmp x y)"
    and cmp_trans: "valid x \<Longrightarrow> valid y \<Longrightarrow> valid z \<Longrightarrow> cmp x y \<le> 0 \<Longrightarrow> cmp y z \<le> 0 \<Longrightarrow> cmp x z \<le> 0"
begin

lemma cmp_refl: "valid x \<Longrightarrow> cmp x x = 0"
  using cmp_antisym [of x x] by (auto simp: sgn_if split: if_splits)

lemma cmp_gt_iff: "valid x \<Longrightarrow> valid y \<Longrightarrow> 0 < cmp y x \<longleftrightarrow> cmp x y < 0"
  using cmp_antisym [of x y] by (auto simp: sgn_if split: if_splits)

lemma cmp_eq_sym: "valid x \<Longrightarrow> valid y \<Longrightarrow> cmp y x = 0 \<longleftrightarrow> cmp x y = 0"
  using cmp_antisym [of x y] by (auto simp: sgn_if split: if_splits)

lemma cmp_ge_iff: "valid x \<Longrightarrow> valid y \<Longrightarrow> 0 \<le> cmp y x \<longleftrightarrow> cmp x y \<le> 0"
  using cmp_gt_iff [of y x] by auto

lemma cmp_le_less_trans:
  assumes v: "valid x" "valid y" "valid z" and "cmp x y \<le> 0" "cmp y z < 0"
  shows "cmp x z < 0"
proof (rule ccontr)
  assume "\<not> cmp x z < 0"
  then have "cmp z x \<le> 0" using v cmp_ge_iff [of z x] by simp
  with cmp_trans [of z x y] v assms(4) have "cmp z y \<le> 0" by simp
  with v assms(5) cmp_gt_iff [of y z] show False by simp
qed

lemma cmp_less_le_trans:
  assumes v: "valid x" "valid y" "valid z" and "cmp x y < 0" "cmp y z \<le> 0"
  shows "cmp x z < 0"
proof (rule ccontr)
  assume "\<not> cmp x z < 0"
  then have "cmp z x \<le> 0" using v cmp_ge_iff [of z x] by simp
  with cmp_trans [of y z x] v assms(5) have "cmp y x \<le> 0" by simp
  with v assms(4) cmp_gt_iff [of x y] show False by simp
qed

lemma cmp_less_trans:
  "valid x \<Longrightarrow> valid y \<Longrightarrow> valid z \<Longrightarrow> cmp x y < 0 \<Longrightarrow> cmp y z < 0 \<Longrightarrow> cmp x z < 0"
  using cmp_less_le_trans [of x y z] by simp

lemma cmp_eq_cong:
  assumes v: "valid x" "valid y" "valid z" and "cmp x y = 0"
  shows "cmp x z < 0 \<longleftrightarrow> cmp y z < 0" and "cmp x z = 0 \<longleftrightarrow> cmp y z = 0"
    and "cmp z x < 0 \<longleftrightarrow> cmp z y < 0"
proof -
  have yx: "cmp y x = 0" using assms cmp_eq_sym by blast
  show lt: "cmp x z < 0 \<longleftrightarrow> cmp y z < 0"
    using cmp_le_less_trans [of x y z] cmp_le_less_trans [of y x z] assms yx by auto
  show gt: "cmp z x < 0 \<longleftrightarrow> cmp z y < 0"
    using cmp_less_le_trans [of z x y] cmp_less_le_trans [of z y x] assms yx by auto
  show "cmp x z = 0 \<longleftrightarrow> cmp y z = 0"
    using lt gt cmp_gt_iff [of z x] cmp_gt_iff [of z y] v by linarith
qed

end

text \<open>Keys that a comparator identifies are equal; the bytewise orders have this.\<close>

locale strict_comparator = comparator +
  assumes cmp_eq_imp_eq: "valid x \<Longrightarrow> valid y \<Longrightarrow> cmp x y = 0 \<Longrightarrow> x = y"
begin

lemma cmp_eq_iff: "valid x \<Longrightarrow> valid y \<Longrightarrow> cmp x y = 0 \<longleftrightarrow> x = y"
  using cmp_eq_imp_eq cmp_refl by blast

end

locale separating_comparator = comparator cmp "\<lambda>_. True" for cmp :: "bytes \<Rightarrow> bytes \<Rightarrow> int" +
  fixes sep :: "bytes \<Rightarrow> bytes \<Rightarrow> bytes" and succ :: "bytes \<Rightarrow> bytes"
  assumes sep_ge: "cmp s l < 0 \<Longrightarrow> cmp s (sep s l) \<le> 0"
    and sep_less: "cmp s l < 0 \<Longrightarrow> cmp (sep s l) l < 0"
    and sep_none: "\<not> cmp s l < 0 \<Longrightarrow> sep s l = s"
    and succ_ge: "cmp k (succ k) \<le> 0"

section \<open>The bytewise comparator is the lexicographic order\<close>

lemma memcmp_0 [simp]: "memcmp x y 0 = 0"
  by (cases x; cases y) simp_all

lemma slice_compare_rec:
  "slice_compare [] [] = 0" "slice_compare [] (y # ys) = -1" "slice_compare (x # xs) [] = 1"
  "slice_compare (x # xs) (y # ys) =
     (if x < y then -1 else if y < x then 1 else slice_compare xs ys)"
  by (simp_all add: slice_compare_def Let_def)

lemma slice_compare_lex: "slice_compare x y = (if x < y then -1 else if y < x then 1 else 0)"
  by (induction x y rule: list_induct2') (auto simp: slice_compare_rec)

lemma slice_compare_signs [simp]:
  "slice_compare x y < 0 \<longleftrightarrow> x < y" "0 < slice_compare x y \<longleftrightarrow> y < x"
  "slice_compare x y = 0 \<longleftrightarrow> x = y" "slice_compare x y \<le> 0 \<longleftrightarrow> x \<le> y"
  "0 \<le> slice_compare x y \<longleftrightarrow> y \<le> x"
  by (auto simp: slice_compare_lex)

section \<open>Separators and successors\<close>

lemma scan_shared_bounds:
  "i \<le> min (length x) (length y) \<Longrightarrow> take i x = take i y \<Longrightarrow>
   (let j = scan_shared x y i in i \<le> j \<and> j \<le> min (length x) (length y) \<and> take j x = take j y \<and>
      (j < min (length x) (length y) \<longrightarrow> x ! j \<noteq> y ! j))"
proof (induction x y i rule: scan_shared.induct)
  case (1 x y i)
  show ?case
  proof (cases "i < min (length x) (length y) \<and> x ! i = y ! i")
    case True
    then have "take (i + 1) x = take (i + 1) y" using "1.prems" by (simp add: take_Suc_conv_app_nth)
    with True 1 show ?thesis by (simp add: scan_shared.simps [of x y i] Let_def)
  next
    case False
    with "1.prems" show ?thesis by (auto simp: scan_shared.simps [of x y i])
  qed
qed

lemma lex_append_iff [simp]: "(p @ x < p @ y) = (x < (y :: bytes))"
  by (induction p) auto

lemma list_update_take_drop:
  "i < length xs \<Longrightarrow> take (Suc i) (xs[i := v]) = take i xs @ [v]"
  by (simp add: take_Suc_conv_app_nth)

lemma diff_split:
  assumes "d < length x" "d < length y" "take d x = take d y"
  shows "x = take d x @ x ! d # drop (d + 1) x" "y = take d x @ y ! d # drop (d + 1) y"
  using assms id_take_nth_drop [of d x] id_take_nth_drop [of d y] by simp_all

lemma byte_succ_less: "b < (255 :: byte) \<Longrightarrow> b < b + 1 \<and> unat (b + 1) = unat b + 1"
proof -
  assume "b < 255"
  then have "unat b < 255" by (simp add: word_less_nat_alt)
  then have "unat (b + 1) = unat b + 1" by (simp add: unat_word_ariths)
  then show ?thesis by (simp add: word_less_nat_alt)
qed

lemma shortest_separator_between:
  assumes "start < limit"
  shows "start \<le> shortest_separator start limit \<and> shortest_separator start limit < limit
    \<and> length (shortest_separator start limit) \<le> length start"
proof -
  let ?d = "scan_shared start limit 0" and ?m = "min (length start) (length limit)"
  have d: "?d \<le> ?m" "take ?d start = take ?d limit"
    using scan_shared_bounds [of 0 start limit] by (auto simp: Let_def)
  show ?thesis
  proof (cases "?d < ?m \<and> start ! ?d < 255 \<and> unat (start ! ?d) + 1 < unat (limit ! ?d)")
    case True
    then have sep: "shortest_separator start limit = take ?d start @ [start ! ?d + 1]"
      by (auto simp: shortest_separator_def Let_def list_update_take_drop)
    have b: "start ! ?d < start ! ?d + 1" "start ! ?d + 1 < limit ! ?d"
      using True byte_succ_less [of "start ! ?d"] by (auto simp: word_less_nat_alt)
    have s: "start = take ?d start @ start ! ?d # drop (?d + 1) start"
      and l: "limit = take ?d start @ limit ! ?d # drop (?d + 1) limit"
      using diff_split [of ?d start limit] d True by auto
    have "start < shortest_separator start limit"
      unfolding sep by (subst s) (use b in simp)
    moreover have "shortest_separator start limit < limit"
      unfolding sep by (subst l) (use b in simp)
    moreover have "length (shortest_separator start limit) \<le> length start"
      unfolding sep using True by simp
    ultimately show ?thesis by simp
  next
    case False
    then have "shortest_separator start limit = start"
      using d by (auto simp: shortest_separator_def Let_def not_less)
    then show ?thesis using assms by simp
  qed
qed

lemma shortest_separator_none:
  assumes "\<not> start < limit"
  shows "shortest_separator start limit = start"
proof (rule ccontr)
  let ?d = "scan_shared start limit 0"
  have d: "?d \<le> min (length start) (length limit)" "take ?d start = take ?d limit"
    using scan_shared_bounds [of 0 start limit] by (auto simp: Let_def)
  assume "shortest_separator start limit \<noteq> start"
  then have c: "?d < length start" "?d < length limit" "start ! ?d < limit ! ?d"
    by (auto simp: shortest_separator_def Let_def word_less_nat_alt split: if_splits)
  then have s: "start = take ?d start @ start ! ?d # drop (?d + 1) start"
    and l: "limit = take ?d start @ limit ! ?d # drop (?d + 1) limit"
    using diff_split [of ?d start limit] d by auto
  have "start < limit" by (subst s, subst l) (use c in simp)
  with assms show False by simp
qed

lemma short_successor_from_ge:
  "i \<le> length key \<Longrightarrow> key \<le> short_successor_from i key \<and> length (short_successor_from i key) \<le> length key"
proof (induction i key rule: short_successor_from.induct)
  case (1 i key)
  show ?case
  proof (cases "i < length key \<and> key ! i \<noteq> 255")
    case True
    then have eq: "short_successor_from i key = take i key @ [key ! i + 1]"
      by (simp add: short_successor_from.simps [of i key] list_update_take_drop)
    have "key ! i \<le> 255" by (simp add: word_le_nat_alt) (use unat_byte_bound [of "key ! i"] in linarith)
    with True have "key ! i < 255" by (simp add: order.strict_iff_order)
    then have "key ! i < key ! i + 1" using byte_succ_less by blast
    then have "key < take i key @ [key ! i + 1]"
      by (subst id_take_nth_drop [of i key]) (use True in auto)
    then show ?thesis using eq True by simp
  next
    case False
    with 1 show ?thesis by (auto simp: short_successor_from.simps [of i key])
  qed
qed

lemma short_successor_ge: "key \<le> short_successor key" "length (short_successor key) \<le> length key"
  using short_successor_from_ge [of 0 key] by (simp_all add: short_successor_def)

interpretation bytewise: strict_comparator slice_compare "\<lambda>_. True"
proof unfold_locales
  show "sgn (slice_compare y x) = - sgn (slice_compare x y)" for x y
    by (simp add: slice_compare_lex)
qed auto

interpretation bytewise_sep: separating_comparator slice_compare shortest_separator short_successor
  by unfold_locales (simp_all add: shortest_separator_between shortest_separator_none short_successor_ge)

section \<open>Properties\<close>

text \<open>C39: the order of the bytewise comparator is the lexicographic order of unsigned bytes, with no two
  keys equal in it but the same; the separator it computes for an index block lies between the
  two keys, the lower bound included, and the successor is not below its key.\<close>

theorem bytewise_separators:
  assumes "slice_compare start limit < 0"
  shows "slice_compare start (shortest_separator start limit) \<le> 0 \<and>
    slice_compare (shortest_separator start limit) limit < 0 \<and>
    slice_compare start (short_successor start) \<le> 0 \<and>
    (\<forall>x y. slice_compare x y =
      (if (x, y) \<in> lexord {(a, b). a < b} then -1 else if (y, x) \<in> lexord {(a, b). a < b} then 1 else 0)) \<and>
    (\<forall>x y. (slice_compare x y = 0) = (x = y))"
proof -
  have "slice_compare x y =
      (if (x, y) \<in> lexord {(a, b). a < b} then -1 else if (y, x) \<in> lexord {(a, b). a < b} then 1 else 0)" for x y
    using slice_compare_lex [of x y] unfolding list_less_def .
  moreover have "(slice_compare x y = 0) = (x = y)" for x y by (rule slice_compare_signs(3))
  ultimately show ?thesis using bytewise_sep.sep_ge bytewise_sep.sep_less [OF assms] bytewise_sep.succ_ge assms by blast
qed

theorem bytewise_separators_witness:
  "slice_compare [97, 98, 99] (shortest_separator [97, 98, 99] [97, 120]) \<le> 0 \<and>
   slice_compare (shortest_separator [97, 98, 99] [97, 120]) [97, 120] < 0"
  using bytewise_separators [of "[97, 98, 99]" "[97, 120]"] by (simp add: slice_compare_def lexord_cons_cons)

end
