(* ===== verification/Dbformat.thy ===== *)
theory Dbformat
  imports Comparator
begin

text \<open>
  Internal keys (\<^verbatim>\<open>engine/src/dbformat.h\<close>, \<^verbatim>\<open>dbformat.c\<close>): a user key followed by
  eight bytes that pack a sequence number and a value type.  The record
  \<open>ldb_pkey\<close> is a parsed internal key, an \<open>ldb_ikey_t\<close> is its encoding (bytes),
  \<open>ldb_lkey\<close> the lookup key that is a memtable key and contains an internal key.
  The internal key comparator orders by user key and then by descending sequence
  number; the locale \<open>comparator\<close> is inherited from the user's comparator.
\<close>

datatype ldb_valtype = TYPE_DELETION | TYPE_VALUE

definition valtype_code :: "ldb_valtype \<Rightarrow> u64" where
  "valtype_code t = (case t of TYPE_DELETION \<Rightarrow> 0 | TYPE_VALUE \<Rightarrow> 1)"

definition VALTYPE_SEEK :: ldb_valtype where
  "VALTYPE_SEEK = TYPE_VALUE"

definition MAX_SEQUENCE :: u64 where
  "MAX_SEQUENCE = push_bit 56 1 - 1"

record ldb_pkey =
  pk_user_key :: bytes
  pk_sequence :: u64
  pk_type :: ldb_valtype

definition ldb_extract_user_key :: "bytes \<Rightarrow> bytes" where
  "ldb_extract_user_key x = take (length x - 8) x"

text \<open>The tag \<open>ldb_fixed64_decode(x->data + x->size - 8)\<close>.\<close>

definition ikey_tag :: "bytes \<Rightarrow> u64" where
  "ikey_tag x = ldb_fixed64_decode (drop (length x - 8) x)"

definition pack_seqtype :: "u64 \<Rightarrow> ldb_valtype \<Rightarrow> u64" where
  "pack_seqtype sequence type = push_bit 8 sequence OR valtype_code type"

definition ldb_pkey_init :: "bytes \<Rightarrow> u64 \<Rightarrow> ldb_valtype \<Rightarrow> ldb_pkey" where
  "ldb_pkey_init user_key sequence type =
     \<lparr>pk_user_key = user_key, pk_sequence = sequence, pk_type = type\<rparr>"

definition ldb_pkey_size :: "ldb_pkey \<Rightarrow> nat" where
  "ldb_pkey_size x = length (pk_user_key x) + 8"

definition ldb_pkey_write :: "ldb_pkey \<Rightarrow> bytes" where
  "ldb_pkey_write x =
     ldb_raw_write (pk_user_key x) @ ldb_fixed64_write (pack_seqtype (pk_sequence x) (pk_type x))"

definition ldb_pkey_export :: "bytes \<Rightarrow> ldb_pkey \<Rightarrow> bytes" where
  "ldb_pkey_export z x = z @ ldb_pkey_write x"

definition ldb_pkey_import :: "bytes \<Rightarrow> ldb_pkey option" where
  "ldb_pkey_import x =
     (let xn = length x in
      if xn < 8 then None
      else let num = ldb_fixed64_decode (drop (xn - 8) x); type = num AND 255
           in if type > 1 then None
              else Some \<lparr>pk_user_key = take (xn - 8) x, pk_sequence = drop_bit 8 num,
                         pk_type = (if type = 0 then TYPE_DELETION else TYPE_VALUE)\<rparr>)"

definition ldb_ikey_set :: "bytes \<Rightarrow> u64 \<Rightarrow> ldb_valtype \<Rightarrow> bytes" where
  "ldb_ikey_set user_key sequence type =
     ldb_pkey_export [] (ldb_pkey_init user_key sequence type)"

section \<open>Lookup keys\<close>

text \<open>
  \<open>lk_data\<close> is the memory from \<open>start\<close> to \<open>end\<close>, \<open>lk_kstart\<close> the offset of \<open>kstart\<close>
  and \<open>lk_heap\<close> tells whether \<open>start\<close> points to a heap block and not to \<open>space\<close>.
\<close>

record ldb_lkey =
  lk_data :: bytes
  lk_kstart :: nat
  lk_heap :: bool

definition ldb_lkey_init :: "bytes \<Rightarrow> u64 \<Rightarrow> ldb_lkey" where
  "ldb_lkey_init user_key sequence =
     (let usize = length user_key; needed = usize + 13;
          len = ldb_varint32_write (word_of_nat (usize + 8))
      in \<lparr>lk_data = len @ ldb_raw_write user_key @
             ldb_fixed64_write (pack_seqtype sequence VALTYPE_SEEK),
          lk_kstart = length len, lk_heap = (needed > 200)\<rparr>)"

definition ldb_lkey_memtable_key :: "ldb_lkey \<Rightarrow> bytes" where
  "ldb_lkey_memtable_key k = lk_data k"

definition ldb_lkey_internal_key :: "ldb_lkey \<Rightarrow> bytes" where
  "ldb_lkey_internal_key k = drop (lk_kstart k) (lk_data k)"

definition ldb_lkey_user_key :: "ldb_lkey \<Rightarrow> bytes" where
  "ldb_lkey_user_key k = take (length (lk_data k) - lk_kstart k - 8) (drop (lk_kstart k) (lk_data k))"

section \<open>The internal key comparator\<close>

definition ldb_ikc_compare :: "ldb_comparator \<Rightarrow> bytes \<Rightarrow> bytes \<Rightarrow> int" where
  "ldb_ikc_compare uc x y =
     (let xk = ldb_extract_user_key x; yk = ldb_extract_user_key y;
          r = ldb_compare uc xk yk
      in if r = 0 then
           (let xn = ikey_tag x; yn = ikey_tag y
            in if xn > yn then -1 else if xn < yn then 1 else r)
         else r)"

definition ldb_ikc_shortest_separator :: "ldb_comparator \<Rightarrow> bytes \<Rightarrow> bytes \<Rightarrow> bytes" where
  "ldb_ikc_shortest_separator uc start limit =
     (let user_start = ldb_extract_user_key start; user_limit = ldb_extract_user_key limit;
          tmp = (case cmp_shortest_separator uc of None \<Rightarrow> user_start
                 | Some f \<Rightarrow> f user_start user_limit)
      in if length tmp < length user_start \<and> ldb_compare uc user_start tmp < 0
         then tmp @ ldb_fixed64_write (pack_seqtype MAX_SEQUENCE VALTYPE_SEEK)
         else start)"

definition ldb_ikc_short_successor :: "ldb_comparator \<Rightarrow> bytes \<Rightarrow> bytes" where
  "ldb_ikc_short_successor uc key =
     (let user_key = ldb_extract_user_key key;
          tmp = (case cmp_short_successor uc of None \<Rightarrow> user_key | Some f \<Rightarrow> f user_key)
      in if length tmp < length user_key \<and> ldb_compare uc user_key tmp < 0
         then tmp @ ldb_fixed64_write (pack_seqtype MAX_SEQUENCE VALTYPE_SEEK)
         else key)"

definition ldb_ikc_init :: "ldb_comparator \<Rightarrow> ldb_comparator" where
  "ldb_ikc_init uc =
     Comparator ''leveldb.InternalKeyComparator'' (ldb_ikc_compare uc)
       (if cmp_shortest_separator uc \<noteq> None then Some (ldb_ikc_shortest_separator uc) else None)
       (if cmp_short_successor uc \<noteq> None then Some (ldb_ikc_short_successor uc) else None)
       (Some uc)"

section \<open>Packing sequence numbers\<close>

lemma valtype_code_small: "unat (valtype_code t) < 2 ^ 8"
  by (cases t) (simp_all add: valtype_code_def)

lemma MAX_SEQUENCE_eq: "unat MAX_SEQUENCE = 2 ^ 56 - 1"
  by (simp add: MAX_SEQUENCE_def)

lemma pack_seqtype_unat:
  assumes "s \<le> MAX_SEQUENCE"
  shows "unat (pack_seqtype s t) = unat s * 256 + unat (valtype_code t)"
proof -
  have s: "unat s < 2 ^ 56" using assms MAX_SEQUENCE_eq by (simp add: word_le_nat_alt)
  have "valtype_code t OR push_bit 8 (word_of_nat (unat s)) =
      word_of_nat (unat (valtype_code t) + unat s * 2 ^ 8)"
    by (rule or_push_bit_disjoint) (rule valtype_code_small)
  then have "pack_seqtype s t = word_of_nat (unat (valtype_code t) + unat s * 256)"
    by (simp add: pack_seqtype_def or.commute)
  moreover have "unat (valtype_code t) + unat s * 256 < 2 ^ 64"
    using s valtype_code_small [of t] by simp
  ultimately show ?thesis
    using unat_of_nat_small [where 'a = 64, of "unat (valtype_code t) + unat s * 256"] by simp
qed

lemma drop_bit_pack_seqtype: "s \<le> MAX_SEQUENCE \<Longrightarrow> drop_bit 8 (pack_seqtype s t) = s"
  using valtype_code_small [of t]
  by (simp add: word_unat_eq_iff unat_drop_bit_word pack_seqtype_unat)

lemma and_255_eq: "unat (x AND 255) = unat x mod 256" for x :: u64
proof -
  have "x AND 255 = take_bit 8 x" by (simp add: take_bit_eq_mask mask_eq_exp_minus_1)
  then have "unat (x AND 255) = take_bit 8 (unat x)" by (simp only: unsigned_take_bit_eq)
  then show ?thesis by (simp only: take_bit_eq_mod) simp
qed

lemma type_pack_seqtype: "s \<le> MAX_SEQUENCE \<Longrightarrow> pack_seqtype s t AND 255 = valtype_code t"
  using valtype_code_small [of t]
  by (simp add: word_unat_eq_iff and_255_eq pack_seqtype_unat)

lemma pack_seqtype_less_iff:
  assumes "s \<le> MAX_SEQUENCE" "s' \<le> MAX_SEQUENCE"
  shows "pack_seqtype s t < pack_seqtype s' t' \<longleftrightarrow>
    s < s' \<or> (s = s' \<and> t = TYPE_DELETION \<and> t' = TYPE_VALUE)"
  using assms
  by (cases t; cases t')
     (auto simp: word_less_nat_alt word_unat_eq_iff pack_seqtype_unat valtype_code_def)

lemma pack_seqtype_eq_iff:
  assumes "s \<le> MAX_SEQUENCE" "s' \<le> MAX_SEQUENCE"
  shows "pack_seqtype s t = pack_seqtype s' t' \<longleftrightarrow> s = s' \<and> t = t'"
proof
  assume eq: "pack_seqtype s t = pack_seqtype s' t'"
  then have "s = s'" using assms drop_bit_pack_seqtype by metis
  moreover have "valtype_code t = valtype_code t'" using eq assms type_pack_seqtype by metis
  ultimately show "s = s' \<and> t = t'" by (cases t; cases t') (simp_all add: valtype_code_def)
qed simp

section \<open>Internal keys as user key and tag\<close>

lemma ikey_parts [simp]:
  "ldb_extract_user_key (uk @ ldb_fixed64_write n) = uk" "ikey_tag (uk @ ldb_fixed64_write n) = n"
  by (simp_all add: ldb_extract_user_key_def ikey_tag_def ldb_fixed64_write_eq)

lemma ldb_pkey_write_parts [simp]:
  "ldb_extract_user_key (ldb_pkey_write k) = pk_user_key k"
  "ikey_tag (ldb_pkey_write k) = pack_seqtype (pk_sequence k) (pk_type k)"
  by (simp_all add: ldb_pkey_write_def ldb_raw_write_def)

lemma length_ldb_pkey_write [len_simps, simp]: "length (ldb_pkey_write k) = ldb_pkey_size k"
  by (simp add: ldb_pkey_write_def ldb_pkey_size_def ldb_raw_write_def)

lemma ikey_set_parts:
  "ldb_extract_user_key (ldb_ikey_set k s t) = k" "ikey_tag (ldb_ikey_set k s t) = pack_seqtype s t"
  "length (ldb_ikey_set k s t) = length k + 8"
  by (simp_all add: ldb_ikey_set_def ldb_pkey_export_def ldb_pkey_init_def ldb_pkey_size_def)

lemma ldb_pkey_import_parts:
  "8 \<le> length x \<Longrightarrow> ldb_pkey_import x =
     (if ikey_tag x AND 255 > 1 then None
      else Some \<lparr>pk_user_key = ldb_extract_user_key x, pk_sequence = drop_bit 8 (ikey_tag x),
                 pk_type = (if ikey_tag x AND 255 = 0 then TYPE_DELETION else TYPE_VALUE)\<rparr>)"
  by (simp add: ldb_pkey_import_def ldb_extract_user_key_def ikey_tag_def Let_def)

lemma ldb_pkey_import_write [wire_simps]:
  assumes "pk_sequence k \<le> MAX_SEQUENCE"
  shows "ldb_pkey_import (ldb_pkey_write k) = Some k"
proof -
  have "8 \<le> length (ldb_pkey_write k)" by (simp add: ldb_pkey_size_def)
  then show ?thesis
    using assms
    by (cases "pk_type k")
       (simp_all add: ldb_pkey_import_parts type_pack_seqtype drop_bit_pack_seqtype valtype_code_def)
qed

lemma bit_fixed64_decode:
  assumes "i < 8" and "r < 8"
  shows "bit (ldb_fixed64_decode xs) (8 * i + r) = bit (xs ! i) r"
proof -
  consider "i = 0" | "i = 1" | "i = 2" | "i = 3" | "i = 4" | "i = 5" | "i = 6" | "i = 7"
    using assms(1) by linarith
  then show ?thesis
    by cases (use assms(2) in \<open>simp_all add: ldb_fixed64_decode_def bit_or_iff bit_push_bit_iff
        bit_unsigned_iff\<close>)
qed

lemma ldb_fixed64_encode_decode:
  assumes "length xs = 8"
  shows "ldb_fixed64_encode (ldb_fixed64_decode xs) = xs"
proof -
  have byte: "ucast (drop_bit (8 * i) (ldb_fixed64_decode xs)) = xs ! i" if "i < 8" for i
    by (rule bit_word_eqI) (use that in \<open>simp add: bit_unsigned_iff bit_drop_bit_eq bit_fixed64_decode\<close>)
  have "xs = [xs ! 0, xs ! 1, xs ! 2, xs ! 3, xs ! 4, xs ! 5, xs ! 6, xs ! 7]"
    using assms by (auto simp: numeral_eq_Suc length_Suc_conv)
  then show ?thesis
    using byte [of 0] byte [of 1] byte [of 2] byte [of 3] byte [of 4] byte [of 5] byte [of 6] byte [of 7]
    by (simp add: ldb_fixed64_encode_def)
qed

lemma ikey_split: "8 \<le> length x \<Longrightarrow> x = ldb_extract_user_key x @ ldb_fixed64_write (ikey_tag x)"
  by (simp add: ldb_extract_user_key_def ikey_tag_def ldb_fixed64_write_eq ldb_fixed64_encode_decode)

lemma ikey_eqI:
  "8 \<le> length x \<Longrightarrow> 8 \<le> length y \<Longrightarrow> ldb_extract_user_key x = ldb_extract_user_key y \<Longrightarrow>
   ikey_tag x = ikey_tag y \<Longrightarrow> x = y"
  by (metis ikey_split)

lemma ldb_pkey_write_import:
  assumes "ldb_pkey_import x = Some k"
  shows "ldb_pkey_write k = x \<and> pk_sequence k \<le> MAX_SEQUENCE"
proof -
  have len: "8 \<le> length x" using assms by (simp add: ldb_pkey_import_def Let_def split: if_splits)
  let ?n = "ikey_tag x"
  have t: "\<not> ?n AND 255 > 1" and k: "k = \<lparr>pk_user_key = ldb_extract_user_key x,
      pk_sequence = drop_bit 8 ?n, pk_type = (if ?n AND 255 = 0 then TYPE_DELETION else TYPE_VALUE)\<rparr>"
    using assms by (auto simp: ldb_pkey_import_parts [OF len] split: if_splits)
  have m: "unat (drop_bit 8 ?n) \<le> 2 ^ 56 - 1"
    using unat_u64_bound [of ?n] by (simp add: unat_drop_bit_word)
  then have seq: "drop_bit 8 ?n \<le> MAX_SEQUENCE"
    using MAX_SEQUENCE_eq by (simp add: word_le_nat_alt)
  have "unat (valtype_code (pk_type k)) = unat ?n mod 256"
    using t by (auto simp: k valtype_code_def and_255_eq word_less_nat_alt word_unat_eq_iff)
  then have "unat (pack_seqtype (pk_sequence k) (pk_type k)) = unat ?n"
    using seq by (simp add: k pack_seqtype_unat unat_drop_bit_word)
  then have "pack_seqtype (pk_sequence k) (pk_type k) = ?n" by (simp add: word_unat_eq_iff)
  then show ?thesis
    using ikey_split [OF len] seq by (simp add: ldb_pkey_write_def ldb_raw_write_def k)
qed

section \<open>Lookup keys\<close>

lemma ldb_lkey_parts:
  "ldb_lkey_user_key (ldb_lkey_init uk s) = uk"
  "ldb_lkey_internal_key (ldb_lkey_init uk s) = ldb_ikey_set uk s VALTYPE_SEEK"
  by (simp_all add: ldb_lkey_user_key_def ldb_lkey_internal_key_def ldb_lkey_init_def Let_def
      ldb_raw_write_def ldb_ikey_set_def ldb_pkey_export_def ldb_pkey_write_def ldb_pkey_init_def)

lemma ldb_lkey_memtable_key_eq:
  "ldb_lkey_memtable_key (ldb_lkey_init uk s) = ldb_slice_write (ldb_ikey_set uk s VALTYPE_SEEK)"
  by (simp add: ldb_lkey_memtable_key_def ldb_lkey_init_def Let_def ldb_raw_write_def
      ldb_slice_write_def ldb_ikey_set_def ldb_pkey_export_def ldb_pkey_write_def ldb_pkey_init_def)

text \<open>A key that the iterators over internal keys may be asked for: with a tag, and shorter than 4 GB.\<close>

abbreviation ikey_target :: "bytes \<Rightarrow> bool" where
  "ikey_target t \<equiv> 8 \<le> length t \<and> length t < 2 ^ 32"

lemma ikc_compare_eq: "ldb_compare (ldb_ikc_init uc) = ldb_ikc_compare uc"
  by (simp add: ldb_compare_def ldb_ikc_init_def fun_eq_iff)

lemma pkey_import_user_key: "ldb_pkey_import x = Some pk \<Longrightarrow> pk_user_key pk = ldb_extract_user_key x"
  by (auto simp: ldb_pkey_import_def ldb_extract_user_key_def Let_def split: if_splits)

section \<open>The internal key order\<close>

locale user_comparator = comparator "ldb_compare uc" "\<lambda>_. True" for uc :: ldb_comparator
begin

lemma ikc_less_iff:
  "ldb_ikc_compare uc x y < 0 \<longleftrightarrow>
   ldb_compare uc (ldb_extract_user_key x) (ldb_extract_user_key y) < 0 \<or>
   (ldb_compare uc (ldb_extract_user_key x) (ldb_extract_user_key y) = 0 \<and> ikey_tag y < ikey_tag x)"
  by (auto simp: ldb_ikc_compare_def Let_def)

lemma ikc_eq_iff:
  "ldb_ikc_compare uc x y = 0 \<longleftrightarrow>
   ldb_compare uc (ldb_extract_user_key x) (ldb_extract_user_key y) = 0 \<and> ikey_tag x = ikey_tag y"
  by (auto simp: ldb_ikc_compare_def Let_def)

lemma ikc_le_iff:
  "ldb_ikc_compare uc x y \<le> 0 \<longleftrightarrow>
   ldb_compare uc (ldb_extract_user_key x) (ldb_extract_user_key y) < 0 \<or>
   (ldb_compare uc (ldb_extract_user_key x) (ldb_extract_user_key y) = 0 \<and> ikey_tag y \<le> ikey_tag x)"
  using ikc_less_iff [of x y] ikc_eq_iff [of x y] by (auto simp: order.order_iff_strict)

lemma ikc_antisym: "sgn (ldb_ikc_compare uc y x) = - sgn (ldb_ikc_compare uc x y)"
proof -
  let ?c = "ldb_compare uc (ldb_extract_user_key x) (ldb_extract_user_key y)"
  let ?d = "ldb_compare uc (ldb_extract_user_key y) (ldb_extract_user_key x)"
  have "sgn ?d = - sgn ?c" by (rule cmp_antisym) simp_all
  then show ?thesis
    by (auto simp: ldb_ikc_compare_def Let_def sgn_if split: if_splits)
qed

lemma ikc_trans:
  "ldb_ikc_compare uc x y \<le> 0 \<Longrightarrow> ldb_ikc_compare uc y z \<le> 0 \<Longrightarrow> ldb_ikc_compare uc x z \<le> 0"
  unfolding ikc_le_iff
  using cmp_less_trans [of "ldb_extract_user_key x" "ldb_extract_user_key y" "ldb_extract_user_key z"]
    cmp_eq_cong [of "ldb_extract_user_key x" "ldb_extract_user_key y" "ldb_extract_user_key z"]
    cmp_eq_cong [of "ldb_extract_user_key z" "ldb_extract_user_key y" "ldb_extract_user_key x"]
    cmp_eq_sym [of "ldb_extract_user_key y" "ldb_extract_user_key z"]
  by auto

end

sublocale user_comparator \<subseteq> ikc: comparator "ldb_ikc_compare uc" "\<lambda>_. True"
  by unfold_locales (use ikc_antisym ikc_trans in blast)+

locale user_separators = user_comparator uc + separating_comparator "ldb_compare uc" sep succ
  for uc :: ldb_comparator and sep succ +
  assumes uc_sep: "cmp_shortest_separator uc = Some sep" and uc_succ: "cmp_short_successor uc = Some succ"
begin

lemma ikc_separator_between:
  assumes "ldb_ikc_compare uc start limit < 0"
  shows "ldb_ikc_compare uc start (ldb_ikc_shortest_separator uc start limit) \<le> 0 \<and>
    ldb_ikc_compare uc (ldb_ikc_shortest_separator uc start limit) limit < 0"
proof -
  let ?s = "ldb_extract_user_key start" and ?l = "ldb_extract_user_key limit"
  let ?t = "sep ?s ?l"
  show ?thesis
  proof (cases "length ?t < length ?s \<and> ldb_compare uc ?s ?t < 0")
    case True
    then have "ldb_compare uc ?s ?l < 0" using sep_none by (metis less_irrefl)
    then have "ldb_compare uc ?t ?l < 0" by (rule sep_less)
    with True show ?thesis by (simp add: ldb_ikc_shortest_separator_def uc_sep Let_def ikc_less_iff ikc_le_iff)
  next
    case False
    then have "ldb_ikc_shortest_separator uc start limit = start"
      by (auto simp: ldb_ikc_shortest_separator_def uc_sep Let_def)
    then show ?thesis using assms ikc.cmp_refl by simp
  qed
qed

lemma ikc_successor_ge: "ldb_ikc_compare uc key (ldb_ikc_short_successor uc key) \<le> 0"
  by (auto simp: ldb_ikc_short_successor_def uc_succ Let_def ikc_le_iff cmp_refl)

end

interpretation bytewise_uc: user_separators bytewise_comparator shortest_separator short_successor
proof unfold_locales
  show "sgn (ldb_compare bytewise_comparator y x) = - sgn (ldb_compare bytewise_comparator x y)" for x y
    by (simp add: ldb_compare_def bytewise_comparator_def slice_compare_lex)
qed (auto simp: ldb_compare_def bytewise_comparator_def shortest_separator_between
      shortest_separator_none short_successor_ge)

lemma ldb_compare_bytewise [simp]: "ldb_compare bytewise_comparator = slice_compare"
  by (simp add: fun_eq_iff ldb_compare_def bytewise_comparator_def)

interpretation bytewise_ikc: strict_comparator "ldb_ikc_compare bytewise_comparator" "\<lambda>k. 8 \<le> length k"
proof unfold_locales
  fix x y :: bytes
  show "sgn (ldb_ikc_compare bytewise_comparator y x) = - sgn (ldb_ikc_compare bytewise_comparator x y)"
    by (rule bytewise_uc.ikc_antisym)
  show "8 \<le> length x \<Longrightarrow> 8 \<le> length y \<Longrightarrow> ldb_ikc_compare bytewise_comparator x y = 0 \<Longrightarrow> x = y"
    by (rule ikey_eqI) (simp_all add: bytewise_uc.ikc_eq_iff)
qed (rule bytewise_uc.ikc_trans)

section \<open>Properties\<close>

text \<open>C37: for every lawful user comparator the internal key order sorts by user key
  ascending and then by sequence number and type descending, so that the newest
  version of a key comes first.\<close>

theorem internal_key_order:
  assumes "user_comparator uc" "pk_sequence x \<le> MAX_SEQUENCE" "pk_sequence y \<le> MAX_SEQUENCE"
  shows "ldb_ikc_compare uc (ldb_pkey_write x) (ldb_pkey_write y) < 0 \<longleftrightarrow>
    ldb_compare uc (pk_user_key x) (pk_user_key y) < 0 \<or>
    (ldb_compare uc (pk_user_key x) (pk_user_key y) = 0 \<and>
     (pk_sequence y < pk_sequence x \<or>
      (pk_sequence x = pk_sequence y \<and> pk_type y = TYPE_DELETION \<and> pk_type x = TYPE_VALUE)))"
  using assms(2,3) user_comparator.ikc_less_iff [OF assms(1)] by (auto simp: pack_seqtype_less_iff)

theorem internal_key_order_witness:
  "ldb_ikc_compare bytewise_comparator (ldb_pkey_write (ldb_pkey_init [97] 7 TYPE_VALUE))
     (ldb_pkey_write (ldb_pkey_init [97] 5 TYPE_DELETION)) < 0"
  using internal_key_order [OF bytewise_uc.user_comparator_axioms, of "ldb_pkey_init [97] 7 TYPE_VALUE"
      "ldb_pkey_init [97] 5 TYPE_DELETION"]
  by (simp add: ldb_pkey_init_def MAX_SEQUENCE_def)

text \<open>Encoding a parsed key and parsing an encoded key are inverse to each other; what the
  parser accepts are exactly the encodings of keys with 56-bit sequence numbers.\<close>

lemma parsed_key_codec:
  "ldb_pkey_import x = Some k \<longleftrightarrow> x = ldb_pkey_write k \<and> pk_sequence k \<le> MAX_SEQUENCE"
  using ldb_pkey_import_write ldb_pkey_write_import by metis

text \<open>C38: shortening an internal key for an index entry keeps it in the half-open interval
  between its two neighbours, for the bytewise user comparator.\<close>

theorem internal_separator_between:
  assumes "ldb_ikc_compare bytewise_comparator start limit < 0"
  shows "ldb_ikc_compare bytewise_comparator start
      (ldb_ikc_shortest_separator bytewise_comparator start limit) \<le> 0 \<and>
    ldb_ikc_compare bytewise_comparator (ldb_ikc_shortest_separator bytewise_comparator start limit) limit < 0 \<and>
    ldb_ikc_compare bytewise_comparator start (ldb_ikc_short_successor bytewise_comparator start) \<le> 0"
  using bytewise_uc.ikc_separator_between [OF assms] bytewise_uc.ikc_successor_ge by simp

theorem internal_separator_between_witness:
  "ldb_ikc_compare bytewise_comparator (ldb_ikc_shortest_separator bytewise_comparator
     (ldb_ikey_set [97, 97, 97] 7 TYPE_VALUE) (ldb_ikey_set [99] 3 TYPE_VALUE)) (ldb_ikey_set [99] 3 TYPE_VALUE) < 0"
proof -
  have "ldb_ikc_compare bytewise_comparator (ldb_ikey_set [97, 97, 97] 7 TYPE_VALUE) (ldb_ikey_set [99] 3 TYPE_VALUE) < 0"
    by (simp add: bytewise_uc.ikc_less_iff ldb_ikey_set_def ldb_pkey_export_def ldb_pkey_init_def)
  then show ?thesis using internal_separator_between by blast
qed

end
