(* ===== verification/Random_Gen.thy ===== *)
theory Random_Gen
  imports Prelude
begin

text \<open>
  The pseudo-random generator of \<^verbatim>\<open>engine/src/util/random.c\<close>, at its machine
  widths.  Its state \<open>ldb_rand_t\<close> is the 32-bit seed.  The division-free step is
  shown to be multiplication by 16807 modulo \<open>2^31 - 1\<close>, and the seed to stay
  within \<open>[1, 2^31 - 2]\<close>.
\<close>

definition ldb_rand_init :: "u32 \<Rightarrow> u32" where
  "ldb_rand_init seed =
     (let s = seed AND 0x7fffffff in if s = 0 \<or> s = 2147483647 then 1 else s)"

text \<open>Returns the number drawn, which is also the new seed.\<close>

definition ldb_rand_next :: "u32 \<Rightarrow> u32" where
  "ldb_rand_next seed =
     (let product = (ucast seed :: u64) * 16807;
          s = (ucast (drop_bit 31 product + (product AND 2147483647)) :: u32)
      in if s > 2147483647 then s - 2147483647 else s)"

definition ldb_rand_uniform :: "u32 \<Rightarrow> u32 \<Rightarrow> u32 \<times> u32" where
  "ldb_rand_uniform seed n =
     (if n = 0 then (0, seed) else let s = ldb_rand_next seed in (s mod n, s))"

definition ldb_rand_one_in :: "u32 \<Rightarrow> u32 \<Rightarrow> bool \<times> u32" where
  "ldb_rand_one_in seed n = (let (r, s) = ldb_rand_uniform seed n in (r = 0, s))"

definition ldb_rand_skewed :: "u32 \<Rightarrow> int \<Rightarrow> u32 \<times> u32" where
  "ldb_rand_skewed seed max_log =
     (let (shift, s) = ldb_rand_uniform seed (word_of_int (max_log + 1))
      in ldb_rand_uniform s (push_bit (unat shift) 1))"

definition seed_ok :: "u32 \<Rightarrow> bool" where
  "seed_ok s \<longleftrightarrow> 0 < unat s \<and> unat s < 2147483647"

lemma mersenne_fold:
  fixes p :: nat
  shows "(p div 2147483648 + p mod 2147483648) mod 2147483647 = p mod 2147483647"
proof -
  let ?q = "p div 2147483648" and ?r = "p mod 2147483648"
  have "p = 2147483648 * ?q + ?r" by (rule mult_div_mod_eq [symmetric])
  then have "p = (?q + ?r) + 2147483647 * ?q" by linarith
  then have "p mod 2147483647 = ((?q + ?r) + 2147483647 * ?q) mod 2147483647" by (rule arg_cong)
  then show ?thesis by (simp only: mod_mult_self2)
qed

lemma not_dvd_times_16807:
  assumes "0 < n" "n < (2147483647 :: nat)"
  shows "\<not> 2147483647 dvd n * 16807"
proof
  assume "2147483647 dvd n * 16807"
  moreover have "coprime (2147483647 :: nat) 16807"
    by (simp add: coprime_iff_gcd_eq_1 gcd_non_0_nat)
  ultimately have "2147483647 dvd n" by (simp add: coprime_dvd_mult_left_iff)
  with assms show False by (auto dest: dvd_imp_le)
qed

lemma ldb_rand_next_unat:
  assumes "seed_ok s"
  shows "unat (ldb_rand_next s) = unat s * 16807 mod 2147483647"
proof -
  let ?p = "unat s * 16807"
  have s: "0 < unat s" "unat s < 2147483647" using assms by (simp_all add: seed_ok_def)
  have p: "?p < 2 ^ 46" using s by simp
  have up: "unat ((ucast s :: u64) * 16807) = ?p"
    using p by (simp add: unat_word_ariths unsigned_ucast_eq take_bit_nat_eq_self)
  let ?sum = "drop_bit 31 ((ucast s :: u64) * 16807) + (((ucast s :: u64) * 16807) AND 2147483647)"
  have m: "((ucast s :: u64) * 16807) AND 2147483647 = take_bit 31 ((ucast s :: u64) * 16807)"
    by (simp add: take_bit_eq_mask mask_eq_exp_minus_1)
  have um: "unat (((ucast s :: u64) * 16807) AND 2147483647) = ?p mod 2 ^ 31"
    unfolding m by (simp only: unsigned_take_bit_eq up) (simp only: take_bit_eq_mod)
  have dq: "?p div 2 ^ 31 < 2 ^ 15" using p by (simp add: less_mult_imp_div_less)
  have mr: "?p mod 2 ^ 31 < 2 ^ 31" by simp
  have usum: "unat ?sum = ?p div 2 ^ 31 + ?p mod 2 ^ 31"
    using dq mr by (subst unat_word_ariths) (simp add: unat_drop_bit_word up um)
  have u32: "unat (ucast ?sum :: u32) = ?p div 2 ^ 31 + ?p mod 2 ^ 31"
    using usum dq mr by (simp add: unsigned_ucast_eq take_bit_nat_eq_self)
  let ?t = "?p div 2 ^ 31 + ?p mod 2 ^ 31"
  have t: "?t mod 2147483647 = ?p mod 2147483647" using mersenne_fold [of ?p] by simp
  have nz: "?p mod 2147483647 \<noteq> 0" using not_dvd_times_16807 [OF s] by (simp add: dvd_eq_mod_eq_0)
  then have neq: "?t \<noteq> 2147483647" using t by (metis mod_self)
  show ?thesis
  proof (cases "?t < 2147483647")
    case True
    then have "\<not> (ucast ?sum :: u32) > 2147483647"
      by (simp only: word_less_nat_alt u32) simp
    then have "ldb_rand_next s = ucast ?sum" unfolding ldb_rand_next_def Let_def by (rule if_not_P)
    then show ?thesis using t u32 True by simp
  next
    case False
    then have gt: "2147483647 < ?t" using neq by simp
    have le: "?t < 2 * 2147483647" using dq mr by simp
    have big: "(ucast ?sum :: u32) > 2147483647" using gt by (simp only: word_less_nat_alt u32) simp
    then have "ldb_rand_next s = ucast ?sum - 2147483647"
      unfolding ldb_rand_next_def Let_def by (rule if_P)
    then have "unat (ldb_rand_next s) = ?t - 2147483647"
      using unat_sub [OF less_imp_le [OF big]] u32 by simp
    also have "\<dots> = ?t mod 2147483647" 
    proof -
      have "?t mod 2147483647 = (?t - 2147483647) mod 2147483647"
        using gt by (intro le_mod_geq) linarith
      also have "\<dots> = ?t - 2147483647" using le by (intro mod_less) linarith
      finally show ?thesis by (rule sym)
    qed
    finally show ?thesis using t by simp
  qed
qed

lemma ldb_rand_next_ok: "seed_ok s \<Longrightarrow> seed_ok (ldb_rand_next s)"
  using not_dvd_times_16807 [of "unat s"]
  by (auto simp: ldb_rand_next_unat seed_ok_def dvd_eq_mod_eq_0)

lemma ldb_rand_init_ok: "seed_ok (ldb_rand_init seed)"
proof -
  have "seed AND 0x7fffffff = take_bit 31 seed" by (simp add: take_bit_eq_mask mask_eq_exp_minus_1)
  then have "unat (seed AND 0x7fffffff) < 2 ^ 31"
    by (simp only: unsigned_take_bit_eq) (simp add: take_bit_eq_mod)
  then show ?thesis
    by (auto simp: ldb_rand_init_def Let_def seed_ok_def word_unat_eq_iff)
qed

lemma ldb_rand_one_in_ok: "seed_ok s \<Longrightarrow> seed_ok (snd (ldb_rand_one_in s n))"
  by (auto simp: ldb_rand_one_in_def ldb_rand_uniform_def Let_def ldb_rand_next_ok)

section \<open>Properties\<close>

text \<open>The generator, which reduces modulo \<open>2^31 - 1\<close> with shifts and a single conditional
  subtraction, computes the Lehmer sequence exactly and keeps its seed in range.\<close>

lemma rand_next_lehmer:
  assumes "seed_ok s"
  shows "unat (ldb_rand_next s) = unat s * 16807 mod (2 ^ 31 - 1) \<and> seed_ok (ldb_rand_next s)"
  using ldb_rand_next_unat [OF assms] ldb_rand_next_ok [OF assms] by simp

end
