(* ===== verification/Skiplist.thy ===== *)
theory Skiplist
  imports Dbformat Random_Gen
begin

text \<open>
  The skip list of \<^verbatim>\<open>engine/src/skiplist.c\<close> as linked nodes in memory.  The arena
  is the list of the nodes allocated so far and an address is an index into it
  (nodes are never freed); the head is node 0.  A node has its key, a pointer to
  a length-prefixed entry (the bytes found there), and one next pointer per
  level.  The acquire and release variants of the accessors read and write the
  same pointers.  \<open>skip_repr\<close> is the representation invariant; it relates the
  memory to the list of node addresses in key order, and every level is the
  sublist of the nodes that are tall enough.
\<close>

type_synonym addr = nat

record skipnode =
  sn_key :: bytes
  sn_next :: "addr option list"

record ldb_skiplist =
  sl_comparator :: ldb_comparator
  sl_arena :: "skipnode list"
  sl_head :: addr
  sl_max_height :: nat
  sl_rnd :: u32

definition MAX_HEIGHT :: nat where
  "MAX_HEIGHT = 12"

definition ldb_skipnode_next :: "ldb_skiplist \<Rightarrow> addr \<Rightarrow> nat \<Rightarrow> addr option" where
  "ldb_skipnode_next list node n = sn_next (sl_arena list ! node) ! n"

definition ldb_skipnode_set :: "ldb_skiplist \<Rightarrow> addr \<Rightarrow> nat \<Rightarrow> addr option \<Rightarrow> ldb_skiplist" where
  "ldb_skipnode_set list node n x =
     list\<lparr>sl_arena := (sl_arena list)
       [node := (sl_arena list ! node)\<lparr>sn_next := (sn_next (sl_arena list ! node))[n := x]\<rparr>]\<rparr>"

text \<open>The next pointers of a fresh node are indeterminate; every one is written before it is read.\<close>

definition ldb_skipnode_create :: "ldb_skiplist \<Rightarrow> bytes \<Rightarrow> nat \<Rightarrow> addr \<times> ldb_skiplist" where
  "ldb_skipnode_create list key height =
     (length (sl_arena list),
      list\<lparr>sl_arena := sl_arena list @ [\<lparr>sn_key = key, sn_next = replicate height None\<rparr>]\<rparr>)"

definition ldb_skiplist_init :: "ldb_comparator \<Rightarrow> ldb_skiplist" where
  "ldb_skiplist_init cmp =
     (let list = \<lparr>sl_comparator = cmp, sl_arena = [], sl_head = 0, sl_max_height = 1,
                  sl_rnd = ldb_rand_init 0xdeadbeef\<rparr>;
          (h, list) = ldb_skipnode_create list [] MAX_HEIGHT;
          list = list\<lparr>sl_head := h\<rparr>
      in fold (\<lambda>i list. ldb_skipnode_set list (sl_head list) i None) [0..<MAX_HEIGHT] list)"

definition ldb_skiplist_compare :: "ldb_skiplist \<Rightarrow> bytes \<Rightarrow> bytes \<Rightarrow> int" where
  "ldb_skiplist_compare list xp yp =
     ldb_compare (sl_comparator list) (the (ldb_slice_decode xp)) (the (ldb_slice_decode yp))"

definition ldb_skiplist_equal :: "ldb_skiplist \<Rightarrow> bytes \<Rightarrow> bytes \<Rightarrow> bool" where
  "ldb_skiplist_equal list xp yp \<longleftrightarrow> ldb_skiplist_compare list xp yp = 0"

function rand_height_from :: "nat \<Rightarrow> u32 \<Rightarrow> nat \<times> u32" where
  "rand_height_from height rnd =
     (if height < MAX_HEIGHT then
        (case ldb_rand_one_in rnd 4 of
           (True, rnd') \<Rightarrow> rand_height_from (height + 1) rnd'
         | (False, rnd') \<Rightarrow> (height, rnd'))
      else (height, rnd))"
  by pat_completeness auto
termination by (relation "measure (\<lambda>(height, rnd). MAX_HEIGHT - height)") auto

declare rand_height_from.simps [simp del]

definition ldb_skiplist_randheight :: "ldb_skiplist \<Rightarrow> nat \<times> ldb_skiplist" where
  "ldb_skiplist_randheight list =
     (case rand_height_from 1 (sl_rnd list) of (height, rnd) \<Rightarrow> (height, list\<lparr>sl_rnd := rnd\<rparr>))"

definition ldb_skiplist_key_after_node :: "ldb_skiplist \<Rightarrow> bytes \<Rightarrow> addr option \<Rightarrow> bool" where
  "ldb_skiplist_key_after_node list key node \<longleftrightarrow>
     (case node of None \<Rightarrow> False
      | Some a \<Rightarrow> ldb_skiplist_compare list (sn_key (sl_arena list ! a)) key < 0)"

text \<open>
  The loop of \<open>find_ge\<close>, \<open>find_lt\<close> and \<open>find_last\<close>: follow the level while \<open>adv\<close> holds of
  the next node, otherwise note \<open>prev[level]\<close> and go one level down.  The result
  is the last node visited, its successor on level 0 and the \<open>prev\<close> array.
\<close>

partial_function (option) skip_descend ::
  "ldb_skiplist \<Rightarrow> (addr option \<Rightarrow> bool) \<Rightarrow> nat \<Rightarrow> addr \<Rightarrow> (nat \<Rightarrow> addr option) \<Rightarrow>
   (addr \<times> addr option \<times> (nat \<Rightarrow> addr option)) option" where
  "skip_descend list adv level x prev =
     (let next = ldb_skipnode_next list x level in
      if adv next then skip_descend list adv level (the next) prev
      else let prev = prev(level := Some x) in
           if level = 0 then Some (x, next, prev)
           else skip_descend list adv (level - 1) x prev)"

declare skip_descend.simps [code]

definition ldb_skiplist_find_ge ::
  "ldb_skiplist \<Rightarrow> bytes \<Rightarrow> (addr option \<times> (nat \<Rightarrow> addr option)) option" where
  "ldb_skiplist_find_ge list key =
     map_option (\<lambda>(x, next, prev). (next, prev))
       (skip_descend list (ldb_skiplist_key_after_node list key) (sl_max_height list - 1)
          (sl_head list) (\<lambda>_. None))"

definition ldb_skiplist_find_lt :: "ldb_skiplist \<Rightarrow> bytes \<Rightarrow> addr option" where
  "ldb_skiplist_find_lt list key =
     map_option fst
       (skip_descend list
          (\<lambda>next. \<not> (next = None \<or>
             ldb_skiplist_compare list (sn_key (sl_arena list ! the next)) key \<ge> 0))
          (sl_max_height list - 1) (sl_head list) (\<lambda>_. None))"

definition ldb_skiplist_find_last :: "ldb_skiplist \<Rightarrow> addr option" where
  "ldb_skiplist_find_last list =
     map_option fst
       (skip_descend list (\<lambda>next. next \<noteq> None) (sl_max_height list - 1) (sl_head list) (\<lambda>_. None))"

definition skip_link :: "(nat \<Rightarrow> addr option) \<Rightarrow> addr \<Rightarrow> nat \<Rightarrow> ldb_skiplist \<Rightarrow> ldb_skiplist" where
  "skip_link prev x i list =
     (let p = the (prev i);
          list = ldb_skipnode_set list x i (ldb_skipnode_next list p i)
      in ldb_skipnode_set list p i (Some x))"

definition ldb_skiplist_insert :: "ldb_skiplist \<Rightarrow> bytes \<Rightarrow> ldb_skiplist option" where
  "ldb_skiplist_insert list key =
     (case ldb_skiplist_find_ge list key of
        None \<Rightarrow> None
      | Some (x, prev) \<Rightarrow>
          let (height, list) = ldb_skiplist_randheight list;
              (prev, list) =
                (if height > sl_max_height list then
                   (fold (\<lambda>i prev. prev(i := Some (sl_head list))) [sl_max_height list..<height] prev,
                    list\<lparr>sl_max_height := height\<rparr>)
                 else (prev, list));
              (x, list) = ldb_skipnode_create list key height
          in Some (fold (skip_link prev x) [0..<height] list))"

definition ldb_skiplist_contains :: "ldb_skiplist \<Rightarrow> bytes \<Rightarrow> bool option" where
  "ldb_skiplist_contains list key =
     (case ldb_skiplist_find_ge list key of
        None \<Rightarrow> None
      | Some (x, prev) \<Rightarrow>
          Some (case x of None \<Rightarrow> False
                | Some a \<Rightarrow> ldb_skiplist_equal list key (sn_key (sl_arena list ! a))))"

section \<open>Iterators\<close>

record ldb_skipiter =
  si_list :: ldb_skiplist
  si_node :: "addr option"

definition ldb_skipiter_init :: "ldb_skiplist \<Rightarrow> ldb_skipiter" where
  "ldb_skipiter_init list = \<lparr>si_list = list, si_node = None\<rparr>"

definition ldb_skipiter_valid :: "ldb_skipiter \<Rightarrow> bool" where
  "ldb_skipiter_valid iter \<longleftrightarrow> si_node iter \<noteq> None"

definition ldb_skipiter_key :: "ldb_skipiter \<Rightarrow> bytes" where
  "ldb_skipiter_key iter = sn_key (sl_arena (si_list iter) ! the (si_node iter))"

definition ldb_skipiter_next :: "ldb_skipiter \<Rightarrow> ldb_skipiter" where
  "ldb_skipiter_next iter =
     iter\<lparr>si_node := ldb_skipnode_next (si_list iter) (the (si_node iter)) 0\<rparr>"

definition skipiter_place :: "ldb_skipiter \<Rightarrow> addr \<Rightarrow> ldb_skipiter" where
  "skipiter_place iter x =
     iter\<lparr>si_node := (if x = sl_head (si_list iter) then None else Some x)\<rparr>"

definition ldb_skipiter_prev :: "ldb_skipiter \<Rightarrow> ldb_skipiter option" where
  "ldb_skipiter_prev iter =
     map_option (skipiter_place iter)
       (ldb_skiplist_find_lt (si_list iter) (ldb_skipiter_key iter))"

definition ldb_skipiter_seek :: "ldb_skipiter \<Rightarrow> bytes \<Rightarrow> ldb_skipiter option" where
  "ldb_skipiter_seek iter target =
     map_option (\<lambda>(x, prev). iter\<lparr>si_node := x\<rparr>) (ldb_skiplist_find_ge (si_list iter) target)"

definition ldb_skipiter_first :: "ldb_skipiter \<Rightarrow> ldb_skipiter" where
  "ldb_skipiter_first iter =
     iter\<lparr>si_node := ldb_skipnode_next (si_list iter) (sl_head (si_list iter)) 0\<rparr>"

definition ldb_skipiter_last :: "ldb_skipiter \<Rightarrow> ldb_skipiter option" where
  "ldb_skipiter_last iter =
     map_option (skipiter_place iter) (ldb_skiplist_find_last (si_list iter))"

section \<open>The representation invariant\<close>

definition node_height :: "ldb_skiplist \<Rightarrow> addr \<Rightarrow> nat" where
  "node_height list a = length (sn_next (sl_arena list ! a))"

definition node_key :: "ldb_skiplist \<Rightarrow> addr \<Rightarrow> bytes" where
  "node_key list a = the (ldb_slice_decode (sn_key (sl_arena list ! a)))"

fun skip_chain :: "ldb_skiplist \<Rightarrow> nat \<Rightarrow> addr \<Rightarrow> addr list \<Rightarrow> bool" where
  "skip_chain list i a [] \<longleftrightarrow> ldb_skipnode_next list a i = None"
| "skip_chain list i a (b # bs) \<longleftrightarrow> ldb_skipnode_next list a i = Some b \<and> skip_chain list i b bs"

definition level_nodes :: "ldb_skiplist \<Rightarrow> nat \<Rightarrow> addr list \<Rightarrow> addr list" where
  "level_nodes list i ns = filter (\<lambda>a. i < node_height list a) ns"

definition skip_repr :: "ldb_skiplist \<Rightarrow> addr list \<Rightarrow> bool" where
  "skip_repr list ns \<longleftrightarrow>
     sl_head list = 0 \<and> sl_arena list \<noteq> [] \<and> node_height list 0 = MAX_HEIGHT \<and>
     1 \<le> sl_max_height list \<and> sl_max_height list \<le> MAX_HEIGHT \<and> seed_ok (sl_rnd list) \<and>
     distinct (0 # ns) \<and>
     (\<forall>a \<in> set ns. a < length (sl_arena list) \<and> 1 \<le> node_height list a \<and>
        node_height list a \<le> sl_max_height list) \<and>
     (\<forall>i < MAX_HEIGHT. skip_chain list i 0 (level_nodes list i ns)) \<and>
     sorted_wrt (\<lambda>a b. ldb_compare (sl_comparator list) (node_key list a) (node_key list b) < 0) ns"

text \<open>The nodes in front of a search predicate that holds on a prefix of the list.\<close>

definition level_pred :: "ldb_skiplist \<Rightarrow> nat \<Rightarrow> addr list \<Rightarrow> addr" where
  "level_pred list i us = last (0 # level_nodes list i us)"

definition head_opt :: "'a list \<Rightarrow> 'a option" where
  "head_opt xs = (case xs of [] \<Rightarrow> None | x # _ \<Rightarrow> Some x)"

lemma head_opt_simps [simp]: "head_opt [] = None" "head_opt (x # xs) = Some x"
  by (simp_all add: head_opt_def)

lemma level_nodes_append [simp]: "level_nodes l i (xs @ ys) = level_nodes l i xs @ level_nodes l i ys"
  by (simp add: level_nodes_def)

lemma skip_chain_next:
  "skip_chain l i a (us @ vs) \<Longrightarrow> ldb_skipnode_next l (last (a # us)) i = head_opt vs"
  by (induction us arbitrary: a) (cases vs; force)+

lemma skip_reprD:
  assumes "skip_repr l ns"
  shows "sl_head l = 0" "sl_arena l \<noteq> []" "node_height l 0 = MAX_HEIGHT"
    "1 \<le> sl_max_height l" "sl_max_height l \<le> MAX_HEIGHT" "seed_ok (sl_rnd l)" "distinct (0 # ns)"
    "\<And>a. a \<in> set ns \<Longrightarrow> a < length (sl_arena l) \<and> 1 \<le> node_height l a \<and> node_height l a \<le> sl_max_height l"
    "\<And>i. i < MAX_HEIGHT \<Longrightarrow> skip_chain l i 0 (level_nodes l i ns)"
    "sorted_wrt (\<lambda>a b. ldb_compare (sl_comparator l) (node_key l a) (node_key l b) < 0) ns"
  using assms by (auto simp: skip_repr_def)

lemma level_nodes_0: "\<forall>a \<in> set vs. 1 \<le> node_height l a \<Longrightarrow> level_nodes l 0 vs = vs"
  by (simp add: level_nodes_def Suc_le_eq)

lemma level_pred_below:
  "\<exists>xs ys. level_nodes l k us = xs @ ys \<and> level_pred l (Suc k) us = last (0 # xs)"
proof (cases "level_nodes l (Suc k) us = []")
  case True
  then have "level_pred l (Suc k) us = last [0]" by (simp add: level_pred_def)
  then show ?thesis by fastforce
next
  case False
  let ?x = "level_pred l (Suc k) us"
  have x: "?x = last (level_nodes l (Suc k) us)" using False by (simp add: level_pred_def)
  then have "?x \<in> set (level_nodes l (Suc k) us)" using False by (metis last_in_set)
  then have "?x \<in> set (level_nodes l k us)" by (simp add: level_nodes_def)
  then obtain xs ys where "level_nodes l k us = xs @ ?x # ys" by (meson split_list)
  then have "level_nodes l k us = (xs @ [?x]) @ ys \<and> ?x = last (0 # xs @ [?x])" by simp
  then show ?thesis by blast
qed

text \<open>
  \<open>split_at list us vs adv\<close>: the search predicate holds on the first nodes \<open>us\<close> and
  fails on the rest \<open>vs\<close> (and at the end of a level).
\<close>

definition split_at :: "ldb_skiplist \<Rightarrow> addr list \<Rightarrow> addr list \<Rightarrow> (addr option \<Rightarrow> bool) \<Rightarrow> bool" where
  "split_at list us vs adv \<longleftrightarrow>
     skip_repr list (us @ vs) \<and> (\<forall>a \<in> set us. adv (Some a)) \<and> (\<forall>a \<in> set vs. \<not> adv (Some a)) \<and> \<not> adv None"

lemma skip_descend_along:
  assumes split: "split_at l us vs adv" and "level < MAX_HEIGHT"
  shows "level_nodes l level us = xs @ ys \<Longrightarrow> x = last (0 # xs) \<Longrightarrow>
    skip_descend l adv level x prev =
      (let x = level_pred l level us; prev = prev(level := Some x)
       in if level = 0 then Some (x, head_opt vs, prev) else skip_descend l adv (level - 1) x prev)"
proof (induction ys arbitrary: xs x)
  case (Cons y ys)
  have chain: "skip_chain l level 0 (level_nodes l level (us @ vs))"
    using split assms(2) skip_reprD(9) unfolding split_at_def by blast
  then have next_y: "ldb_skipnode_next l x level = Some y"
    using skip_chain_next [of l level 0 xs "y # ys @ level_nodes l level vs"] Cons.prems by simp
  have "y \<in> set us" using Cons.prems(1) by (metis filter_is_subset in_set_conv_decomp level_nodes_def subsetD)
  then have "skip_descend l adv level x prev = skip_descend l adv level y prev"
    using split by (subst skip_descend.simps) (simp add: next_y split_at_def)
  with Cons.IH [of "xs @ [y]"] Cons.prems show ?case by simp
next
  case Nil
  have x: "x = level_pred l level us" using Nil by (simp add: level_pred_def)
  have "skip_chain l level 0 (xs @ level_nodes l level vs)"
    using split assms(2) Nil(1) skip_reprD(9) [of l "us @ vs" level] unfolding split_at_def by simp
  then have nx: "ldb_skipnode_next l x level = head_opt (level_nodes l level vs)"
    using skip_chain_next Nil(2) by fastforce
  have stop: "\<not> adv (head_opt (level_nodes l level vs))"
    using split by (cases "level_nodes l level vs") (auto simp: split_at_def level_nodes_def filter_eq_Cons_iff)
  have "level_nodes l 0 vs = vs"
    using split skip_reprD(8) unfolding split_at_def by (intro level_nodes_0) (metis Un_iff set_append)
  with stop nx x show ?case by (subst skip_descend.simps) (simp add: Let_def)
qed

lemma skip_descend_correct:
  assumes split: "split_at l us vs adv"
  shows "level < MAX_HEIGHT \<Longrightarrow> level_nodes l level us = xs @ ys \<Longrightarrow> x = last (0 # xs) \<Longrightarrow>
    skip_descend l adv level x prev =
      Some (level_pred l 0 us, head_opt vs, \<lambda>i. if i \<le> level then Some (level_pred l i us) else prev i)"
proof (induction level arbitrary: x prev xs ys)
  case 0
  then show ?case by (auto simp: skip_descend_along [OF split] Let_def fun_eq_iff)
next
  case (Suc k)
  let ?x = "level_pred l (Suc k) us"
  obtain xs' ys' where "level_nodes l k us = xs' @ ys'" "?x = last (0 # xs')"
    using level_pred_below by blast
  then have "skip_descend l adv k ?x (prev(Suc k := Some ?x)) =
      Some (level_pred l 0 us, head_opt vs,
        \<lambda>i. if i \<le> k then Some (level_pred l i us) else (prev(Suc k := Some ?x)) i)"
    using Suc.prems(1) by (intro Suc.IH) simp_all
  moreover have "skip_descend l adv (Suc k) x prev = skip_descend l adv k ?x (prev(Suc k := Some ?x))"
    by (subst skip_descend_along [OF split Suc.prems]) (simp add: Let_def)
  ultimately show ?case by (auto simp: fun_eq_iff le_Suc_eq)
qed

text \<open>The first \<open>prev[level]\<close> entries a search fills in, from the head down.\<close>

definition prev_array :: "ldb_skiplist \<Rightarrow> addr list \<Rightarrow> nat \<Rightarrow> addr option" where
  "prev_array l us i = (if i < sl_max_height l then Some (level_pred l i us) else None)"

lemma skip_search:
  assumes "split_at l us vs adv"
  shows "skip_descend l adv (sl_max_height l - 1) (sl_head l) (\<lambda>_. None) =
    Some (level_pred l 0 us, head_opt vs, prev_array l us)"
proof -
  have r: "skip_repr l (us @ vs)" using assms by (simp add: split_at_def)
  have "skip_descend l adv (sl_max_height l - 1) (last (0 # [])) (\<lambda>_. None) =
    Some (level_pred l 0 us, head_opt vs,
      \<lambda>i. if i \<le> sl_max_height l - 1 then Some (level_pred l i us) else None)"
    using skip_reprD(4,5) [OF r] by (intro skip_descend_correct [OF assms]) auto
  moreover have "i \<le> sl_max_height l - 1 \<longleftrightarrow> i < sl_max_height l" for i
    using skip_reprD(4) [OF r] by auto
  ultimately show ?thesis using skip_reprD(1) [OF r] by (simp add: prev_array_def fun_eq_iff)
qed

section \<open>Linking a node into its levels\<close>

lemma skipnode_set_fields [simp]:
  "sl_comparator (ldb_skipnode_set l a n v) = sl_comparator l"
  "sl_head (ldb_skipnode_set l a n v) = sl_head l"
  "sl_max_height (ldb_skipnode_set l a n v) = sl_max_height l"
  "sl_rnd (ldb_skipnode_set l a n v) = sl_rnd l"
  "length (sl_arena (ldb_skipnode_set l a n v)) = length (sl_arena l)"
  by (simp_all add: ldb_skipnode_set_def)

lemma skipnode_set_nodes [simp]:
  "sn_key (sl_arena (ldb_skipnode_set l a n v) ! b) = sn_key (sl_arena l ! b)"
  "node_height (ldb_skipnode_set l a n v) b = node_height l b"
  by (cases "a < length (sl_arena l)";
      auto simp: ldb_skipnode_set_def node_height_def nth_list_update not_less list_update_beyond)+

lemma skipnode_next_set:
  assumes "a < length (sl_arena l)" "n < node_height l a"
  shows "ldb_skipnode_next (ldb_skipnode_set l a n v) b m =
    (if b = a \<and> m = n then v else ldb_skipnode_next l b m)"
  using assms by (auto simp: ldb_skipnode_next_def ldb_skipnode_set_def node_height_def nth_list_update)

lemma skip_link_fields [simp]:
  "sl_comparator (skip_link prev x i l) = sl_comparator l" "sl_head (skip_link prev x i l) = sl_head l"
  "sl_max_height (skip_link prev x i l) = sl_max_height l" "sl_rnd (skip_link prev x i l) = sl_rnd l"
  "length (sl_arena (skip_link prev x i l)) = length (sl_arena l)"
  "sn_key (sl_arena (skip_link prev x i l) ! b) = sn_key (sl_arena l ! b)"
  "node_height (skip_link prev x i l) b = node_height l b"
  by (simp_all add: skip_link_def Let_def)

lemma fold_skip_link_fields [simp]:
  "sl_comparator (fold (skip_link prev x) is l) = sl_comparator l"
  "sl_head (fold (skip_link prev x) is l) = sl_head l"
  "sl_max_height (fold (skip_link prev x) is l) = sl_max_height l"
  "sl_rnd (fold (skip_link prev x) is l) = sl_rnd l"
  "length (sl_arena (fold (skip_link prev x) is l)) = length (sl_arena l)"
  "sn_key (sl_arena (fold (skip_link prev x) is l) ! b) = sn_key (sl_arena l ! b)"
  "node_height (fold (skip_link prev x) is l) b = node_height l b"
  by (induction "is" arbitrary: l) simp_all

lemma skip_link_next:
  assumes "prev i = Some p" "p < length (sl_arena l)" "i < node_height l p"
    "x < length (sl_arena l)" "i < node_height l x" "p \<noteq> x"
  shows "ldb_skipnode_next (skip_link prev x i l) a j =
    (if j = i \<and> a = x then ldb_skipnode_next l p i else if j = i \<and> a = p then Some x
     else ldb_skipnode_next l a j)"
  using assms by (auto simp: skip_link_def Let_def skipnode_next_set)

lemma fold_skip_link_next:
  assumes "\<And>i. i < h \<Longrightarrow> \<exists>p. prev i = Some p \<and> p < length (sl_arena l) \<and> i < node_height l p \<and> p \<noteq> x"
    and "x < length (sl_arena l)" "h \<le> node_height l x"
  shows "k \<le> h \<Longrightarrow> ldb_skipnode_next (fold (skip_link prev x) [0..<k] l) a j =
    (if j < k \<and> a = x then ldb_skipnode_next l (the (prev j)) j
     else if j < k \<and> a = the (prev j) then Some x else ldb_skipnode_next l a j)"
proof (induction k arbitrary: a j)
  case (Suc k)
  obtain p where p: "prev k = Some p" "p < length (sl_arena l)" "k < node_height l p" "p \<noteq> x"
    using assms(1) [of k] Suc.prems by auto
  have "ldb_skipnode_next (skip_link prev x k (fold (skip_link prev x) [0..<k] l)) a j =
    (if j = k \<and> a = x then ldb_skipnode_next (fold (skip_link prev x) [0..<k] l) p k
     else if j = k \<and> a = p then Some x else ldb_skipnode_next (fold (skip_link prev x) [0..<k] l) a j)"
    using p assms(2,3) Suc.prems by (intro skip_link_next) simp_all
  with Suc p show ?case by (auto simp: less_Suc_eq)
qed simp

lemma skip_chain_cong:
  "(\<And>b. b \<in> set (a # bs) \<Longrightarrow> ldb_skipnode_next l' b i = ldb_skipnode_next l b i) \<Longrightarrow>
   skip_chain l' i a bs = skip_chain l i a bs"
  by (induction bs arbitrary: a) auto

lemma skip_chain_insert:
  assumes "skip_chain l i a (us @ vs)" "distinct (a # us @ vs)" "x \<notin> set (a # us @ vs)"
    and "p = last (a # us)" "ldb_skipnode_next l' p i = Some x"
    "ldb_skipnode_next l' x i = ldb_skipnode_next l p i"
    "\<And>b. b \<in> set (a # us @ vs) \<Longrightarrow> b \<noteq> p \<Longrightarrow> ldb_skipnode_next l' b i = ldb_skipnode_next l b i"
  shows "skip_chain l' i a (us @ x # vs)"
  using assms(1-4,7)
proof (induction us arbitrary: a)
  case Nil
  show ?case
  proof (cases vs)
    case (Cons v ws)
    have "skip_chain l' i v ws = skip_chain l i v ws"
      by (rule skip_chain_cong, rule Nil.prems(5)) (use Cons Nil.prems(1-4) in auto)
    then show ?thesis using Nil.prems assms(5,6) Cons by simp
  qed (use Nil.prems assms(5,6) in simp)
next
  case (Cons b us)
  have "p \<in> set (b # us)" using Cons.prems(4) by simp
  then have "a \<noteq> p" using Cons.prems(2) by auto
  then have "ldb_skipnode_next l' a i = ldb_skipnode_next l a i" using Cons.prems(5) by auto
  moreover have "skip_chain l' i b (us @ x # vs)" using Cons.prems by (intro Cons.IH) auto
  ultimately show ?case using Cons.prems(1) by simp
qed

lemma rand_height_bounds:
  "1 \<le> h \<Longrightarrow> h \<le> MAX_HEIGHT \<Longrightarrow> seed_ok rnd \<Longrightarrow>
   (case rand_height_from h rnd of (h', rnd') \<Rightarrow> h \<le> h' \<and> h' \<le> MAX_HEIGHT \<and> seed_ok rnd')"
proof (induction h rnd rule: rand_height_from.induct)
  case (1 h rnd)
  obtain b rnd' where o: "ldb_rand_one_in rnd 4 = (b, rnd')" by (cases "ldb_rand_one_in rnd 4")
  have ok: "seed_ok rnd'" using ldb_rand_one_in_ok [OF "1.prems"(3), of 4] o by simp
  consider "h < MAX_HEIGHT" "b" | "rand_height_from h rnd = (h, rnd')" | "rand_height_from h rnd = (h, rnd)"
    using o by (cases "h < MAX_HEIGHT"; cases b) (simp_all add: rand_height_from.simps [of h rnd])
  then show ?case
  proof cases
    case 1
    then have "rand_height_from h rnd = rand_height_from (h + 1) rnd'"
      using o by (simp add: rand_height_from.simps [of h rnd])
    moreover have "case rand_height_from (h + 1) rnd' of
        (h', rnd') \<Rightarrow> h + 1 \<le> h' \<and> h' \<le> MAX_HEIGHT \<and> seed_ok rnd'"
      using "1.IH" 1 o ok by fastforce
    ultimately show ?thesis by auto
  qed (use "1.prems" ok in auto)
qed

section \<open>Inserting a node\<close>

lemma level_pred_props:
  assumes "skip_repr l (us @ vs)" "i < MAX_HEIGHT"
  shows "level_pred l i us < length (sl_arena l)" "i < node_height l (level_pred l i us)"
    "level_pred l i us \<in> set (0 # us)"
proof -
  have "level_pred l i us \<in> set (0 # level_nodes l i us)" by (simp add: level_pred_def)
  then consider "level_pred l i us = 0" | "level_pred l i us \<in> set us" "i < node_height l (level_pred l i us)"
    by (auto simp: level_nodes_def)
  then show "level_pred l i us < length (sl_arena l)" "i < node_height l (level_pred l i us)"
    "level_pred l i us \<in> set (0 # us)"
    using skip_reprD(2,3) [OF assms(1)] skip_reprD(8) [OF assms(1)] assms(2) by (cases; auto)+
qed

lemma level_pred_high:
  assumes "skip_repr l (us @ vs)" "sl_max_height l \<le> i"
  shows "level_pred l i us = 0"
proof -
  have "level_nodes l i us = []"
    using skip_reprD(8) [OF assms(1)] assms(2) by (force simp: level_nodes_def filter_empty_conv)
  then show ?thesis by (simp add: level_pred_def)
qed

lemma fold_prev_head:
  "fold (\<lambda>i prev. prev(i := Some a)) [m..<h] prev = (\<lambda>i. if m \<le> i \<and> i < h then Some a else prev i)"
  by (induction h) (auto simp: fun_eq_iff)

text \<open>The memory after the new node \<open>x\<close> of height \<open>h\<close> is allocated and linked after \<open>us\<close>.\<close>

definition linked_after :: "ldb_skiplist \<Rightarrow> bytes \<Rightarrow> addr list \<Rightarrow> nat \<Rightarrow> u32 \<Rightarrow> ldb_skiplist" where
  "linked_after l key us h rnd =
     fold (skip_link (\<lambda>i. if i < h then Some (level_pred l i us) else prev_array l us i)
             (length (sl_arena l))) [0..<h]
       (snd (ldb_skipnode_create
          (l\<lparr>sl_rnd := rnd, sl_max_height := max (sl_max_height l) h\<rparr>) key h))"

lemma ldb_skiplist_insert_eq:
  assumes "split_at l us vs (ldb_skiplist_key_after_node l key)"
    and rh: "rand_height_from (Suc 0) (sl_rnd l) = (h, rnd)"
  shows "ldb_skiplist_insert l key = Some (linked_after l key us h rnd)"
proof -
  have r: "skip_repr l (us @ vs)" using assms(1) by (simp add: split_at_def)
  have ge: "ldb_skiplist_find_ge l key = Some (head_opt vs, prev_array l us)"
    by (simp only: ldb_skiplist_find_ge_def skip_search [OF assms(1)] option.map prod.case)
  show ?thesis
  proof (cases "h > sl_max_height l")
    case True
    have "(\<lambda>i. if sl_max_height l \<le> i \<and> i < h then Some 0 else prev_array l us i) =
      (\<lambda>i. if i < h then Some (level_pred l i us) else prev_array l us i)"
      using level_pred_high [OF r] by (auto simp: fun_eq_iff prev_array_def)
    with True ge show ?thesis
      using skip_reprD(1) [OF r]
      by (simp add: ldb_skiplist_insert_def ldb_skiplist_randheight_def rh linked_after_def
          ldb_skipnode_create_def fold_prev_head max_def Let_def)
  next
    case False
    then have "(\<lambda>i. if i < h then Some (level_pred l i us) else prev_array l us i) = prev_array l us"
      by (auto simp: fun_eq_iff prev_array_def)
    with False ge show ?thesis
      by (simp add: ldb_skiplist_insert_def ldb_skiplist_randheight_def rh linked_after_def
          ldb_skipnode_create_def max_def Let_def)
  qed
qed

lemma linked_after_fields:
  "sl_comparator (linked_after l key us h rnd) = sl_comparator l"
  "sl_head (linked_after l key us h rnd) = sl_head l"
  "sl_max_height (linked_after l key us h rnd) = max (sl_max_height l) h"
  "sl_rnd (linked_after l key us h rnd) = rnd"
  "length (sl_arena (linked_after l key us h rnd)) = Suc (length (sl_arena l))"
  "a < length (sl_arena l) \<Longrightarrow> sn_key (sl_arena (linked_after l key us h rnd) ! a) = sn_key (sl_arena l ! a)"
  "sn_key (sl_arena (linked_after l key us h rnd) ! length (sl_arena l)) = key"
  "a < length (sl_arena l) \<Longrightarrow> node_height (linked_after l key us h rnd) a = node_height l a"
  "node_height (linked_after l key us h rnd) (length (sl_arena l)) = h"
  by (simp_all add: linked_after_def ldb_skipnode_create_def) (simp_all add: node_height_def nth_append)

lemma linked_after_next:
  assumes r: "skip_repr l (us @ vs)" and h: "h \<le> MAX_HEIGHT" and a: "a \<le> length (sl_arena l)"
  shows "ldb_skipnode_next (linked_after l key us h rnd) a i =
    (if i < h \<and> a = length (sl_arena l) then ldb_skipnode_next l (level_pred l i us) i
     else if i < h \<and> a = level_pred l i us then Some (length (sl_arena l))
     else if a < length (sl_arena l) then ldb_skipnode_next l a i else replicate h None ! i)"
proof -
  let ?x = "length (sl_arena l)"
  let ?prev = "\<lambda>i. if i < h then Some (level_pred l i us) else prev_array l us i"
  let ?l = "snd (ldb_skipnode_create
          (l\<lparr>sl_rnd := rnd, sl_max_height := max (sl_max_height l) h\<rparr>) key h)"
  have old: "ldb_skipnode_next ?l b j = ldb_skipnode_next l b j" if "b < ?x" for b j
    using that by (simp add: ldb_skipnode_create_def ldb_skipnode_next_def nth_append)
  have hgt: "node_height ?l b = node_height l b" if "b < ?x" for b
    using that by (simp add: ldb_skipnode_create_def node_height_def nth_append)
  have "\<exists>p. ?prev j = Some p \<and> p < length (sl_arena ?l) \<and> j < node_height ?l p \<and> p \<noteq> ?x" if "j < h" for j
    using that h level_pred_props(1,2) [OF r, of j] hgt by (auto simp: ldb_skipnode_create_def)
  then have eq: "ldb_skipnode_next (linked_after l key us h rnd) a i =
    (if i < h \<and> a = ?x then ldb_skipnode_next ?l (the (?prev i)) i
     else if i < h \<and> a = the (?prev i) then Some ?x else ldb_skipnode_next ?l a i)"
    unfolding linked_after_def
    by (intro fold_skip_link_next [where h = h]) (auto simp: ldb_skipnode_create_def node_height_def)
  have new: "ldb_skipnode_next ?l ?x i = replicate h None ! i"
    by (simp add: ldb_skipnode_create_def ldb_skipnode_next_def)
  show ?thesis
  proof (cases "i < h")
    case True
    then have "ldb_skipnode_next ?l (level_pred l i us) i = ldb_skipnode_next l (level_pred l i us) i"
      using old level_pred_props(1) [OF r] h by simp
    with True eq show ?thesis using a old [of a i] by (auto simp: le_less)
  next
    case False
    with eq new show ?thesis
      using a old [of a i] by (auto simp: le_less)
  qed
qed

lemma linked_after_chain:
  assumes r: "skip_repr l (us @ vs)" and h: "h \<le> MAX_HEIGHT" and i: "i < MAX_HEIGHT"
  shows "skip_chain (linked_after l key us h rnd) i 0
    (level_nodes l i us @ (if i < h then [length (sl_arena l)] else []) @ level_nodes l i vs)"
proof -
  let ?x = "length (sl_arena l)" and ?l = "linked_after l key us h rnd"
  have lt: "b < ?x" if "b \<in> set (0 # us @ vs)" for b
    using that skip_reprD(2) [OF r] skip_reprD(8) [OF r] by auto
  have chain: "skip_chain l i 0 (level_nodes l i us @ level_nodes l i vs)"
    using skip_reprD(9) [OF r i] by simp
  have sub: "set (0 # level_nodes l i us @ level_nodes l i vs) \<subseteq> set (0 # us @ vs)"
    by (auto simp: level_nodes_def)
  have dist: "distinct (0 # level_nodes l i us @ level_nodes l i vs)"
    using skip_reprD(7) [OF r] by (auto simp: level_nodes_def)
  have nx: "ldb_skipnode_next ?l b i = ldb_skipnode_next l b i"
    if "b \<in> set (0 # us @ vs)" "\<not> i < h \<or> b \<noteq> level_pred l i us" for b
    using that(2) lt [OF that(1)] by (auto simp: linked_after_next [OF r h])
  show ?thesis
  proof (cases "i < h")
    case True
    have "skip_chain ?l i 0 (level_nodes l i us @ ?x # level_nodes l i vs)"
    proof (rule skip_chain_insert [OF chain dist])
      show "?x \<notin> set (0 # level_nodes l i us @ level_nodes l i vs)" using sub lt by blast
      show "level_pred l i us = last (0 # level_nodes l i us)" by (simp add: level_pred_def)
      show "ldb_skipnode_next ?l b i = ldb_skipnode_next l b i"
        if "b \<in> set (0 # level_nodes l i us @ level_nodes l i vs)" "b \<noteq> level_pred l i us" for b
        using nx sub that by blast
    qed (use True level_pred_props(1) [OF r i] in \<open>simp_all add: linked_after_next [OF r h]\<close>)
    then show ?thesis using True by simp
  next
    case False
    have "skip_chain ?l i 0 (level_nodes l i us @ level_nodes l i vs)"
      using chain by (subst skip_chain_cong [where l = l]) (use nx sub False in blast)+
    then show ?thesis using False by simp
  qed
qed

lemma linked_after_repr:
  assumes r: "skip_repr l (us @ vs)" and h: "1 \<le> h" "h \<le> MAX_HEIGHT" and rnd: "seed_ok rnd"
    and us: "\<forall>a \<in> set us. ldb_compare (sl_comparator l) (node_key l a) (the (ldb_slice_decode key)) < 0"
    and vs: "\<forall>a \<in> set vs. ldb_compare (sl_comparator l) (the (ldb_slice_decode key)) (node_key l a) < 0"
  shows "skip_repr (linked_after l key us h rnd) (us @ length (sl_arena l) # vs)"
proof -
  let ?x = "length (sl_arena l)" and ?l = "linked_after l key us h rnd"
  have lt: "b < ?x" if "b \<in> set (0 # us @ vs)" for b
    using that skip_reprD(2) [OF r] skip_reprD(8) [OF r] by auto
  have hgt: "node_height ?l b = node_height l b" if "b \<in> set (0 # us @ vs)" for b
    using lt [OF that] by (simp add: linked_after_fields)
  have key: "node_key ?l b = node_key l b" if "b \<in> set (0 # us @ vs)" for b
    using lt [OF that] by (simp add: linked_after_fields node_key_def)
  have keyx: "node_key ?l ?x = the (ldb_slice_decode key)"
    by (simp add: linked_after_fields node_key_def)
  have lev: "level_nodes ?l i us = level_nodes l i us" "level_nodes ?l i vs = level_nodes l i vs" for i
    unfolding level_nodes_def by (rule filter_cong; use hgt in auto)+
  have chain: "skip_chain ?l i 0 (level_nodes ?l i (us @ ?x # vs))" if "i < MAX_HEIGHT" for i
    using linked_after_chain [OF r h(2) that, of key rnd] lev [of i] linked_after_fields(9)
    by (cases "i < h") (simp_all add: level_nodes_def)
  have sorted: "sorted_wrt (\<lambda>a b. ldb_compare (sl_comparator l) (node_key ?l a) (node_key ?l b) < 0) (us @ ?x # vs)"
  proof -
    have "sorted_wrt (\<lambda>a b. ldb_compare (sl_comparator l) (node_key ?l a) (node_key ?l b) < 0) (us @ vs)"
      by (rule sorted_wrt_mono_rel [OF _ skip_reprD(10) [OF r]]) (simp add: key)
    then show ?thesis using us vs key keyx by (auto simp: sorted_wrt_append)
  qed
  have heights: "\<forall>a \<in> set (us @ ?x # vs). a < length (sl_arena ?l) \<and> 1 \<le> node_height ?l a \<and>
      node_height ?l a \<le> sl_max_height ?l"
    using skip_reprD(8) [OF r] hgt h lt by (auto simp: linked_after_fields less_Suc_eq max.coboundedI1)
  show ?thesis
    unfolding skip_repr_def
    using skip_reprD(1-7) [OF r] hgt [of 0] h rnd lt chain sorted heights
    by (auto simp: linked_after_fields simp flip: length_greater_0_conv)
qed

section \<open>The skip list as an ordered collection of entries\<close>

definition skip_less :: "ldb_comparator \<Rightarrow> bytes \<Rightarrow> bytes \<Rightarrow> bool" where
  "skip_less c e f \<longleftrightarrow> ldb_compare c (the (ldb_slice_decode e)) (the (ldb_slice_decode f)) < 0"

definition skip_entries :: "ldb_skiplist \<Rightarrow> addr list \<Rightarrow> bytes list" where
  "skip_entries l ns = map (\<lambda>a. sn_key (sl_arena l ! a)) ns"

definition skip_holds :: "ldb_comparator \<Rightarrow> ldb_skiplist \<Rightarrow> bytes list \<Rightarrow> bool" where
  "skip_holds c l es \<longleftrightarrow> sl_comparator l = c \<and> (\<exists>ns. skip_repr l ns \<and> es = skip_entries l ns)"

text \<open>An iterator at position \<open>k\<close> of the entries; past the end it is not valid.\<close>

definition skipiter_at :: "ldb_comparator \<Rightarrow> ldb_skipiter \<Rightarrow> bytes list \<Rightarrow> nat \<Rightarrow> bool" where
  "skipiter_at c it es k \<longleftrightarrow> sl_comparator (si_list it) = c \<and>
     (\<exists>ns. skip_repr (si_list it) ns \<and> es = skip_entries (si_list it) ns \<and>
        si_node it = (if k < length ns then Some (ns ! k) else None))"

lemma fold_skipnode_set_fields [simp]:
  "sl_comparator (fold (\<lambda>i l. ldb_skipnode_set l (sl_head l) i None) is l) = sl_comparator l"
  "sl_head (fold (\<lambda>i l. ldb_skipnode_set l (sl_head l) i None) is l) = sl_head l"
  "sl_max_height (fold (\<lambda>i l. ldb_skipnode_set l (sl_head l) i None) is l) = sl_max_height l"
  "sl_rnd (fold (\<lambda>i l. ldb_skipnode_set l (sl_head l) i None) is l) = sl_rnd l"
  "length (sl_arena (fold (\<lambda>i l. ldb_skipnode_set l (sl_head l) i None) is l)) = length (sl_arena l)"
  "node_height (fold (\<lambda>i l. ldb_skipnode_set l (sl_head l) i None) is l) b = node_height l b"
  by (induction "is" arbitrary: l) simp_all

lemma fold_skipnode_set_next:
  assumes "sl_head l < length (sl_arena l)" "\<forall>i \<in> set is. i < node_height l (sl_head l)"
  shows "ldb_skipnode_next (fold (\<lambda>i l. ldb_skipnode_set l (sl_head l) i None) is l) (sl_head l) n =
    (if n \<in> set is then None else ldb_skipnode_next l (sl_head l) n)"
  using assms
proof (induction "is" arbitrary: l)
  case (Cons i "is")
  then show ?case
    using Cons.IH [of "ldb_skipnode_set l (sl_head l) i None"] by (simp add: skipnode_next_set)
qed simp

lemma skip_init_nodes:
  assumes "n < MAX_HEIGHT"
  shows "ldb_skipnode_next (ldb_skiplist_init c) 0 n = None"
  using assms fold_skipnode_set_next [of "\<lparr>sl_comparator = c,
      sl_arena = [\<lparr>sn_key = [], sn_next = replicate MAX_HEIGHT None\<rparr>], sl_head = 0, sl_max_height = 1,
      sl_rnd = ldb_rand_init 0xdeadbeef\<rparr>" "[0..<MAX_HEIGHT]" n]
  by (simp add: ldb_skiplist_init_def ldb_skipnode_create_def node_height_def)

lemma skip_init_fields:
  "sl_comparator (ldb_skiplist_init c) = c" "sl_head (ldb_skiplist_init c) = 0"
  "sl_max_height (ldb_skiplist_init c) = 1" "sl_rnd (ldb_skiplist_init c) = ldb_rand_init 0xdeadbeef"
  "length (sl_arena (ldb_skiplist_init c)) = 1" "node_height (ldb_skiplist_init c) 0 = MAX_HEIGHT"
  by (simp_all add: ldb_skiplist_init_def ldb_skipnode_create_def) (simp add: node_height_def)

lemma skip_init_holds: "skip_holds c (ldb_skiplist_init c) []"
proof -
  have "skip_repr (ldb_skiplist_init c) []"
    unfolding skip_repr_def using skip_init_nodes [of _ c] skip_init_fields [of c] ldb_rand_init_ok
    by (auto simp: level_nodes_def MAX_HEIGHT_def simp flip: length_greater_0_conv)
  then show ?thesis by (auto simp: skip_holds_def skip_entries_def skip_init_fields)
qed

text \<open>
  What a client of an ordered collection relies on: insertion never fails and
  puts a fresh entry at its place, seeking stops at the first entry that is not
  before the target.
\<close>

locale ordered_store =
  fixes before :: "'e \<Rightarrow> 'e \<Rightarrow> bool" and holds :: "'l \<Rightarrow> 'e list \<Rightarrow> bool"
    and ins :: "'l \<Rightarrow> 'e \<Rightarrow> 'l option" and at :: "'i \<Rightarrow> 'e list \<Rightarrow> nat \<Rightarrow> bool"
    and seek :: "'l \<Rightarrow> 'e \<Rightarrow> 'i option" and cur :: "'i \<Rightarrow> 'e" and ok :: "'i \<Rightarrow> bool"
  assumes before_trans: "before x y \<Longrightarrow> before y z \<Longrightarrow> before x z"
    and holds_sorted: "holds l es \<Longrightarrow> sorted_wrt before es"
    and ins_holds: "holds l es \<Longrightarrow> (\<And>x. x \<in> set es \<Longrightarrow> before x e \<or> before e x) \<Longrightarrow>
      \<exists>l'. ins l e = Some l' \<and>
        holds l' (takeWhile (\<lambda>x. before x e) es @ e # dropWhile (\<lambda>x. before x e) es)"
    and seek_at: "holds l es \<Longrightarrow>
      \<exists>it. seek l t = Some it \<and> at it es (length (takeWhile (\<lambda>x. before x t) es))"
    and at_cur: "at it es k \<Longrightarrow> k < length es \<Longrightarrow> cur it = es ! k"
    and at_ok: "at it es k \<Longrightarrow> ok it \<longleftrightarrow> k < length es"
begin

definition ins_all :: "'e list \<Rightarrow> 'l \<Rightarrow> 'l option" where
  "ins_all es l = fold (\<lambda>e l. Option.bind l (\<lambda>l. ins l e)) es (Some l)"

lemma ins_set:
  assumes "holds l es" "\<And>x. x \<in> set es \<Longrightarrow> before x e \<or> before e x"
  shows "\<exists>l' es'. ins l e = Some l' \<and> holds l' es' \<and> set es' = insert e (set es)"
proof -
  have "set es = set (takeWhile (\<lambda>x. before x e) es) \<union> set (dropWhile (\<lambda>x. before x e) es)"
    by (metis set_append takeWhile_dropWhile_id)
  then have "set (takeWhile (\<lambda>x. before x e) es @ e # dropWhile (\<lambda>x. before x e) es) = insert e (set es)"
    by simp
  then show ?thesis using ins_holds [OF assms] by blast
qed

lemma ins_all_set:
  assumes "holds l es" "distinct xs" "\<And>x y. x \<in> set es \<union> set xs \<Longrightarrow> y \<in> set xs \<Longrightarrow> x \<noteq> y \<Longrightarrow> before x y \<or> before y x"
    "set xs \<inter> set es = {}"
  shows "\<exists>l' es'. ins_all xs l = Some l' \<and> holds l' es' \<and> set es' = set es \<union> set xs"
  using assms
proof (induction xs arbitrary: l es)
  case (Cons x xs)
  have "before y x \<or> before x y" if "y \<in> set es" for y
    using that Cons.prems(3) [of y x] Cons.prems(4) by auto
  then obtain l1 es1 where 1: "ins l x = Some l1" "holds l1 es1" "set es1 = insert x (set es)"
    using ins_set [OF Cons.prems(1)] by blast
  have "\<exists>l' es'. ins_all xs l1 = Some l' \<and> holds l' es' \<and> set es' = set es1 \<union> set xs"
    using Cons.prems 1 by (intro Cons.IH) auto
  with 1 show ?case by (auto simp: ins_all_def)
qed (auto simp: ins_all_def)

lemma seek_first:
  assumes "holds l es"
  obtains (found) it k where "seek l t = Some it" "ok it" "k < length es" "cur it = es ! k" "\<not> before (es ! k) t"
    "\<And>i. i < k \<Longrightarrow> before (es ! i) t"
  | (none) it where "seek l t = Some it" "\<not> ok it" "\<And>x. x \<in> set es \<Longrightarrow> before x t"
proof -
  let ?k = "length (takeWhile (\<lambda>x. before x t) es)"
  obtain it where it: "seek l t = Some it" "at it es ?k" using seek_at [OF assms] by blast
  show thesis
  proof (cases "?k < length es")
    case True
    have "before (es ! i) t" if "i < ?k" for i
      using that set_takeWhileD [of "es ! i" "\<lambda>x. before x t" es] by (metis nth_mem takeWhile_nth)
    moreover have "\<not> before (es ! ?k) t" using True by (rule nth_length_takeWhile)
    ultimately show ?thesis using found it True at_ok at_cur by blast
  next
    case False
    then have "takeWhile (\<lambda>x. before x t) es = es"
      by (metis length_takeWhile_le linorder_not_less takeWhile_eq_take take_all)
    then show ?thesis using none it False at_ok by (metis takeWhile_eq_all_conv)
  qed
qed

end

locale skip_order = comparator "ldb_compare c" "\<lambda>_. True" for c :: ldb_comparator
begin

lemma skip_less_mono:
  "skip_less c e f \<Longrightarrow> skip_less c f g \<Longrightarrow> skip_less c e g"
  using cmp_less_trans by (auto simp: skip_less_def)

lemma skip_split:
  assumes r: "skip_repr l ns" and c: "sl_comparator l = c"
    and bef: "bef = (\<lambda>a. skip_less c (sn_key (sl_arena l ! a)) key)"
  shows "split_at l (takeWhile bef ns) (dropWhile bef ns) (ldb_skiplist_key_after_node l key)"
proof -
  have "\<forall>a \<in> set (dropWhile bef ns). \<not> bef a"
    by (rule sorted_dropWhile_not [OF skip_reprD(10) [OF r, unfolded c]])
      (auto simp: bef skip_less_def node_key_def intro: cmp_less_trans)
  moreover have "\<forall>a \<in> set (takeWhile bef ns). bef a" using set_takeWhileD by fastforce
  moreover have "ldb_skiplist_key_after_node l key (Some a) \<longleftrightarrow> bef a" for a
    using c by (simp add: bef skip_less_def ldb_skiplist_key_after_node_def ldb_skiplist_compare_def)
  ultimately show ?thesis
    using r by (simp add: split_at_def ldb_skiplist_key_after_node_def)
qed

lemma skip_holds_sorted: "skip_holds c l es \<Longrightarrow> sorted_wrt (skip_less c) es"
  by (auto simp: skip_holds_def skip_repr_def skip_entries_def sorted_wrt_map skip_less_def node_key_def)

lemma skip_insert:
  assumes "skip_holds c l es" and fresh: "\<And>e. e \<in> set es \<Longrightarrow> skip_less c e key \<or> skip_less c key e"
  shows "\<exists>l'. ldb_skiplist_insert l key = Some l' \<and>
    skip_holds c l' (takeWhile (\<lambda>e. skip_less c e key) es @ key # dropWhile (\<lambda>e. skip_less c e key) es)"
proof -
  obtain ns where r: "skip_repr l ns" and c: "sl_comparator l = c" and es: "es = skip_entries l ns"
    using assms(1) by (auto simp: skip_holds_def)
  define bef where "bef = (\<lambda>a. skip_less c (sn_key (sl_arena l ! a)) key)"
  define us vs where uv: "us = takeWhile bef ns" "vs = dropWhile bef ns"
  have sp: "split_at l us vs (ldb_skiplist_key_after_node l key)"
    using skip_split [OF r c bef_def] by (simp add: uv)
  have ru: "skip_repr l (us @ vs)" using r by (simp add: uv)
  obtain h rnd where h: "rand_height_from (Suc 0) (sl_rnd l) = (h, rnd)"
    by (cases "rand_height_from (Suc 0) (sl_rnd l)")
  have hb: "1 \<le> h" "h \<le> MAX_HEIGHT" "seed_ok rnd"
    using rand_height_bounds [of "Suc 0" "sl_rnd l"] h skip_reprD(6) [OF r] by (auto simp: MAX_HEIGHT_def)
  have bef: "\<forall>a \<in> set us. bef a" "\<forall>a \<in> set vs. \<not> bef a"
    using sp c by (auto simp: split_at_def bef_def skip_less_def ldb_skiplist_key_after_node_def ldb_skiplist_compare_def)
  have rep: "skip_repr (linked_after l key us h rnd) (us @ length (sl_arena l) # vs)"
  proof (rule linked_after_repr [OF ru hb])
    show "\<forall>a \<in> set us. ldb_compare (sl_comparator l) (node_key l a) (the (ldb_slice_decode key)) < 0"
      using bef(1) c by (simp add: bef_def skip_less_def node_key_def)
    have "sn_key (sl_arena l ! a) \<in> set es" if "a \<in> set vs" for a
      using that uv(2) es set_dropWhileD by (force simp: skip_entries_def)
    then show "\<forall>a \<in> set vs. ldb_compare (sl_comparator l) (the (ldb_slice_decode key)) (node_key l a) < 0"
      using bef(2) fresh c by (auto simp: bef_def skip_less_def node_key_def)
  qed
  have "sn_key (sl_arena (linked_after l key us h rnd) ! a) = sn_key (sl_arena l ! a)"
    if "a \<in> set us \<or> a \<in> set vs" for a
    using skip_reprD(8) [OF ru, of a] that by (simp add: linked_after_fields)
  then have ent: "skip_entries (linked_after l key us h rnd) (us @ length (sl_arena l) # vs) =
      takeWhile (\<lambda>e. skip_less c e key) es @ key # dropWhile (\<lambda>e. skip_less c e key) es"
    by (simp add: skip_entries_def linked_after_fields(7) es takeWhile_map dropWhile_map comp_def
        uv [unfolded bef_def, symmetric])
  show ?thesis
    using ldb_skiplist_insert_eq [OF sp h] rep ent c by (auto simp: skip_holds_def linked_after_fields)
qed

lemma skip_lt_adv:
  assumes "sl_comparator l = c"
  shows "(\<lambda>next. \<not> (next = None \<or> ldb_skiplist_compare l (sn_key (sl_arena l ! the next)) key \<ge> 0)) =
    ldb_skiplist_key_after_node l key"
  by (auto simp: fun_eq_iff ldb_skiplist_key_after_node_def not_le split: option.splits)

lemma level_pred_0: "skip_repr l (us @ vs) \<Longrightarrow> level_pred l 0 us = last (0 # us)"
  using level_nodes_0 [of us l] skip_reprD(8) [of l "us @ vs"] by (simp add: level_pred_def)

lemma head_opt_drop: "head_opt (drop k ns) = (if k < length ns then Some (ns ! k) else None)"
  by (cases "k < length ns") (simp_all flip: Cons_nth_drop_Suc)

lemma takeWhile_entries:
  "length (takeWhile (\<lambda>a. skip_less c (sn_key (sl_arena l ! a)) key) ns) =
   length (takeWhile (\<lambda>e. skip_less c e key) (skip_entries l ns))"
  by (simp add: skip_entries_def takeWhile_map comp_def)

lemma skipiter_seek_at:
  assumes "skip_holds c (si_list it) es"
  shows "\<exists>it'. ldb_skipiter_seek it key = Some it' \<and>
    skipiter_at c it' es (length (takeWhile (\<lambda>e. skip_less c e key) es))"
proof -
  let ?l = "si_list it"
  obtain ns where r: "skip_repr ?l ns" and c: "sl_comparator ?l = c" and es: "es = skip_entries ?l ns"
    using assms by (auto simp: skip_holds_def)
  let ?P = "\<lambda>a. skip_less c (sn_key (sl_arena ?l ! a)) key"
  have "ldb_skiplist_find_ge ?l key = Some (head_opt (dropWhile ?P ns), prev_array ?l (takeWhile ?P ns))"
    by (simp only: ldb_skiplist_find_ge_def skip_search [OF skip_split [OF r c refl]] option.map prod.case)
  then show ?thesis
    using r c es by (auto simp: ldb_skipiter_seek_def skipiter_at_def dropWhile_eq_drop head_opt_drop takeWhile_entries)
qed

lemma skipiter_prev_at:
  assumes "skipiter_at c it es k" "k < length es"
  shows "\<exists>it'. ldb_skipiter_prev it = Some it' \<and>
    skipiter_at c it' es (if k = 0 then length es else k - 1)"
proof -
  let ?l = "si_list it"
  obtain ns where r: "skip_repr ?l ns" and c: "sl_comparator ?l = c" and es: "es = skip_entries ?l ns"
    and node: "si_node it = Some (ns ! k)" and k: "k < length ns"
    using assms by (auto simp: skipiter_at_def skip_entries_def split: if_splits)
  let ?P = "\<lambda>a. skip_less c (sn_key (sl_arena ?l ! a)) (ldb_skipiter_key it)"
  have key: "ldb_skipiter_key it = sn_key (sl_arena ?l ! (ns ! k))" by (simp add: ldb_skipiter_key_def node)
  have s: "sorted_wrt (\<lambda>a b. skip_less c (sn_key (sl_arena ?l ! a)) (sn_key (sl_arena ?l ! b))) ns"
    using skip_reprD(10) [OF r] c by (simp add: skip_less_def node_key_def)
  have "takeWhile ?P ns = take k ns"
    by (rule takeWhile_eq_take_P_nth)
      (use s k in \<open>auto simp: key sorted_wrt_iff_nth_less skip_less_def cmp_refl\<close>)
  moreover have "ldb_skiplist_find_lt ?l (ldb_skipiter_key it) = Some (level_pred ?l 0 (takeWhile ?P ns))"
    by (simp only: ldb_skiplist_find_lt_def skip_lt_adv [OF c] skip_search [OF skip_split [OF r c refl]]
        option.map fst_conv)
  moreover have "level_pred ?l 0 (take k ns) = last (0 # take k ns)"
    using level_pred_0 [of ?l "take k ns" "drop k ns"] r by simp
  ultimately have lt: "ldb_skiplist_find_lt ?l (ldb_skipiter_key it) =
      Some (if k = 0 then 0 else ns ! (k - 1))"
    using k by (auto simp: last_conv_nth)
  have "0 \<notin> set ns" using skip_reprD(7) [OF r] by simp
  then have "ns ! (k - 1) \<noteq> 0" using k nth_mem [of "k - 1" ns] by (metis less_imp_diff_less)
  with lt show ?thesis
    using r c es k skip_reprD(1) [OF r]
    by (auto simp: ldb_skipiter_prev_def skipiter_place_def skipiter_at_def skip_entries_def)
qed

lemma skipiter_next_at:
  assumes "skipiter_at c it es k" "k < length es"
  shows "skipiter_at c (ldb_skipiter_next it) es (Suc k)"
proof -
  let ?l = "si_list it"
  obtain ns where r: "skip_repr ?l ns" and c: "sl_comparator ?l = c" and es: "es = skip_entries ?l ns"
    and node: "si_node it = Some (ns ! k)" and k: "k < length ns"
    using assms by (auto simp: skipiter_at_def skip_entries_def split: if_splits)
  have "level_nodes ?l 0 ns = ns" using skip_reprD(8) [OF r] by (simp add: level_nodes_0)
  then have "skip_chain ?l 0 0 (take (Suc k) ns @ drop (Suc k) ns)"
    using skip_reprD(9) [OF r, of 0] by (simp add: MAX_HEIGHT_def)
  then have "ldb_skipnode_next ?l (ns ! k) 0 = head_opt (drop (Suc k) ns)"
    using skip_chain_next k by (fastforce simp: take_Suc_conv_app_nth)
  then show ?thesis
    using r c es node by (auto simp: ldb_skipiter_next_def skipiter_at_def head_opt_drop)
qed

lemma skipiter_first_at:
  assumes "skip_holds c (si_list it) es"
  shows "skipiter_at c (ldb_skipiter_first it) es 0"
proof -
  let ?l = "si_list it"
  obtain ns where r: "skip_repr ?l ns" and c: "sl_comparator ?l = c" and es: "es = skip_entries ?l ns"
    using assms by (auto simp: skip_holds_def)
  have "level_nodes ?l 0 ns = ns" using skip_reprD(8) [OF r] by (simp add: level_nodes_0)
  then have "ldb_skipnode_next ?l 0 0 = head_opt ns"
    using skip_chain_next [of ?l 0 0 "[]" ns] skip_reprD(9) [OF r, of 0] by (simp add: MAX_HEIGHT_def)
  then have "ldb_skipnode_next ?l 0 0 = (if 0 < length ns then Some (ns ! 0) else None)"
    using head_opt_drop [of 0 ns] by simp
  then show ?thesis
    using r c es skip_reprD(1) [OF r]
    unfolding ldb_skipiter_first_def skipiter_at_def by (intro conjI exI [of _ ns]) simp_all
qed

lemma skipiter_last_at:
  assumes "skip_holds c (si_list it) es"
  shows "\<exists>it'. ldb_skipiter_last it = Some it' \<and>
    skipiter_at c it' es (if es = [] then 0 else length es - 1)"
proof -
  let ?l = "si_list it"
  obtain ns where r: "skip_repr ?l ns" and c: "sl_comparator ?l = c" and es: "es = skip_entries ?l ns"
    using assms by (auto simp: skip_holds_def)
  have "split_at ?l ns [] (\<lambda>next. next \<noteq> None)" using r by (simp add: split_at_def)
  then have "ldb_skiplist_find_last ?l = Some (last (0 # ns))"
    using level_pred_0 [of ?l ns "[]"] r
    by (simp only: ldb_skiplist_find_last_def skip_search option.map fst_conv) simp
  moreover have "last (0 # ns) = 0 \<longleftrightarrow> ns = []"
    using skip_reprD(7) [OF r] last_in_set [of ns] by (cases "ns = []") (simp, metis distinct.simps(2) last_ConsR)
  ultimately show ?thesis
    using r c es skip_reprD(1) [OF r]
    by (auto simp: ldb_skipiter_last_def skipiter_place_def skipiter_at_def skip_entries_def last_conv_nth)
qed

lemma skipiter_at_key: "skipiter_at c it es k \<Longrightarrow> k < length es \<Longrightarrow> ldb_skipiter_key it = es ! k"
  by (auto simp: skipiter_at_def ldb_skipiter_key_def skip_entries_def)

lemma skipiter_at_valid: "skipiter_at c it es k \<Longrightarrow> ldb_skipiter_valid it \<longleftrightarrow> k < length es"
  by (auto simp: skipiter_at_def ldb_skipiter_valid_def skip_entries_def split: if_splits)

lemma skip_contains:
  assumes "skip_holds c l es"
  shows "ldb_skiplist_contains l key =
    Some (\<exists>e \<in> set es. ldb_compare c (the (ldb_slice_decode key)) (the (ldb_slice_decode e)) = 0)"
proof -
  obtain ns where r: "skip_repr l ns" and c: "sl_comparator l = c" and es: "es = skip_entries l ns"
    using assms by (auto simp: skip_holds_def)
  let ?K = "the (ldb_slice_decode key)"
  let ?P = "\<lambda>a. skip_less c (sn_key (sl_arena l ! a)) key"
  have ge: "ldb_skiplist_find_ge l key = Some (head_opt (dropWhile ?P ns), prev_array l (takeWhile ?P ns))"
    by (simp only: ldb_skiplist_find_ge_def skip_search [OF skip_split [OF r c refl]] option.map prod.case)
  have eq: "e \<in> set es \<and> ldb_compare c ?K (the (ldb_slice_decode e)) = 0 \<Longrightarrow>
      \<not> skip_less c e key" for e
    using cmp_eq_sym [of ?K "the (ldb_slice_decode e)"] by (auto simp: skip_less_def)
  have ent: "set es = (\<lambda>a. sn_key (sl_arena l ! a)) ` set (takeWhile ?P ns) \<union>
      (\<lambda>a. sn_key (sl_arena l ! a)) ` set (dropWhile ?P ns)"
    unfolding es skip_entries_def by (metis image_Un list.set_map set_append takeWhile_dropWhile_id)
  show ?thesis
  proof (cases "dropWhile ?P ns")
    case Nil
    then have "\<forall>e \<in> set es. skip_less c e key" by (auto simp: es skip_entries_def)
    then have "\<not> (\<exists>e \<in> set es. ldb_compare c ?K (the (ldb_slice_decode e)) = 0)" using eq by blast
    moreover have "ldb_skiplist_find_ge l key = Some (None, prev_array l (takeWhile ?P ns))"
      unfolding ge Nil by simp
    ultimately show ?thesis by (simp add: ldb_skiplist_contains_def)
  next
    case (Cons b bs)
    have s: "sorted_wrt (\<lambda>a b. ldb_compare c (node_key l a) (node_key l b) < 0) (b # bs)"
      using sorted_wrt_drop [OF skip_reprD(10) [OF r]] c Cons by (metis dropWhile_eq_drop)
    have nb: "\<not> ?P b" using Cons by (simp add: dropWhile_eq_Cons_conv)
    have ne: "ldb_compare c ?K (node_key l a) \<noteq> 0" if "a \<in> set bs" for a
    proof -
      have "ldb_compare c ?K (node_key l b) \<le> 0"
        using nb cmp_gt_iff [of ?K "node_key l b"] by (auto simp: skip_less_def node_key_def)
      then show ?thesis
        using s that cmp_le_less_trans [of ?K "node_key l b" "node_key l a"] by auto
    qed
    have "(\<exists>e \<in> set es. ldb_compare c ?K (the (ldb_slice_decode e)) = 0) \<longleftrightarrow>
        ldb_compare c ?K (node_key l b) = 0"
      (is "?L \<longleftrightarrow> ?R")
    proof -
      have "e = sn_key (sl_arena l ! b)" if "e \<in> set es" "ldb_compare c ?K (the (ldb_slice_decode e)) = 0" for e
        using eq [of e] that ent ne Cons by (auto simp: node_key_def dest: set_takeWhileD)
      moreover have "sn_key (sl_arena l ! b) \<in> set es" using ent Cons by simp
      ultimately show ?thesis by (auto simp: node_key_def)
    qed
    with Cons ge show ?thesis
      using c by (simp add: ldb_skiplist_contains_def ldb_skiplist_equal_def ldb_skiplist_compare_def node_key_def)
  qed
qed

end

sublocale skip_order \<subseteq> store: ordered_store "skip_less c" "skip_holds c" ldb_skiplist_insert
  "skipiter_at c" "\<lambda>l. ldb_skipiter_seek (ldb_skipiter_init l)" ldb_skipiter_key ldb_skipiter_valid
proof unfold_locales
  show "\<exists>it. ldb_skipiter_seek (ldb_skipiter_init l) t = Some it \<and>
      skipiter_at c it es (length (takeWhile (\<lambda>x. skip_less c x t) es))"
    if "skip_holds c l es" for l es t
    using skipiter_seek_at [of "ldb_skipiter_init l" es t] that by (simp add: ldb_skipiter_init_def)
qed (fact skip_less_mono skip_holds_sorted skip_insert skipiter_at_key skipiter_at_valid)+

sublocale user_comparator \<subseteq> mem: skip_order "ldb_ikc_init uc"
proof unfold_locales
  show "sgn (ldb_compare (ldb_ikc_init uc) y x) = - sgn (ldb_compare (ldb_ikc_init uc) x y)" for x y
    by (simp only: ldb_compare_def ldb_ikc_init_def ldb_comparator.sel) (rule ikc_antisym)
  show "ldb_compare (ldb_ikc_init uc) x z \<le> 0"
    if "ldb_compare (ldb_ikc_init uc) x y \<le> 0" "ldb_compare (ldb_ikc_init uc) y z \<le> 0" for x y z
    using that by (simp only: ldb_compare_def ldb_ikc_init_def ldb_comparator.sel) (rule ikc_trans)
qed

interpretation bytewise_skip: skip_order bytewise_comparator
  by unfold_locales

section \<open>Properties\<close>

text \<open>C19: inserting an entry whose key no entry has returns, and the linked structure of the
  result is again a skip list: every level is sorted and a sublist of the level
  below, and the entries are the old ones with the new one at its place.\<close>

theorem skiplist_insert_ok:
  assumes "skip_order c" "skip_holds c l es"
    "\<forall>e \<in> set es. ldb_compare c (the (ldb_slice_decode e)) (the (ldb_slice_decode key)) \<noteq> 0"
  shows "\<exists>l'. ldb_skiplist_insert l key = Some l' \<and>
    skip_holds c l' (takeWhile (\<lambda>e. skip_less c e key) es @ key # dropWhile (\<lambda>e. skip_less c e key) es)"
proof (rule skip_order.skip_insert [OF assms(1,2)])
  show "skip_less c e key \<or> skip_less c key e" if "e \<in> set es" for e
    using assms(3) that comparator.cmp_gt_iff [of "ldb_compare c" "\<lambda>_. True" "the (ldb_slice_decode key)" "the (ldb_slice_decode e)"]
      assms(1) by (auto simp: skip_less_def skip_order_def linorder_neq_iff)
qed

theorem skiplist_insert_ok_witness:
  "\<exists>l'. ldb_skiplist_insert (ldb_skiplist_init bytewise_comparator) [1, 97] = Some l' \<and>
    skip_holds bytewise_comparator l' [[1, 97]]"
  using skiplist_insert_ok [OF bytewise_skip.skip_order_axioms skip_init_holds, of "[1, 97]"] by simp

text \<open>C20: seeking returns and stops at the first entry that is not before the target, or at the
  end; the membership test finds a key exactly when some entry has it.\<close>

theorem skiplist_search_ok:
  assumes "skip_order c" "skip_holds c l es"
  shows "(\<exists>it. ldb_skipiter_seek (ldb_skipiter_init l) key = Some it \<and>
      (case find (\<lambda>e. \<not> skip_less c e key) es of
         None \<Rightarrow> \<not> ldb_skipiter_valid it
       | Some e \<Rightarrow> ldb_skipiter_valid it \<and> ldb_skipiter_key it = e)) \<and>
    ldb_skiplist_contains l key =
      Some (\<exists>e \<in> set es. ldb_compare c (the (ldb_slice_decode key)) (the (ldb_slice_decode e)) = 0)"
proof -
  let ?k = "length (takeWhile (\<lambda>e. skip_less c e key) es)"
  have find: "find (\<lambda>e. \<not> skip_less c e key) es = (if ?k < length es then Some (es ! ?k) else None)"
    by (induction es) auto
  obtain it where "ldb_skipiter_seek (ldb_skipiter_init l) key = Some it" "skipiter_at c it es ?k"
    using skip_order.skipiter_seek_at [OF assms(1), of "ldb_skipiter_init l" es key] assms(2)
    by (auto simp: ldb_skipiter_init_def)
  then show ?thesis
    using find skip_order.skipiter_at_valid [OF assms(1)] skip_order.skipiter_at_key [OF assms(1)]
      skip_order.skip_contains [OF assms] by auto
qed

theorem skiplist_search_ok_witness:
  "ldb_skiplist_contains (ldb_skiplist_init bytewise_comparator) [1, 97] = Some False"
  using skiplist_search_ok [OF bytewise_skip.skip_order_axioms skip_init_holds, of "[1, 97]"] by simp

end
