(* ===== verification/Iterator.thy ===== *)
theory Iterator
  imports Comparator
begin

text \<open>
  The contract of the iterator interface of \<^verbatim>\<open>engine/src/table/iterator.h\<close>, the vtable
  \<open>ldb_itertbl\<close> that memtables, blocks, file lists and the merging iterator all
  implement.  \<open>at it es k\<close> says that the iterator walks the key-value list \<open>es\<close> and
  stands at position \<open>k\<close>, \<open>target\<close> that a key may be sought; it is not valid at position \<open>length es\<close>.  An operation
  that returns \<open>None\<close> does not return.  The lemmas of the locale are what every
  client of an iterator uses.
\<close>

text \<open>The entries met by at most \<open>n\<close> moves from where the iterator stands.\<close>

fun iter_scan :: "('i \<Rightarrow> bool) \<Rightarrow> ('i \<Rightarrow> bytes) \<Rightarrow> ('i \<Rightarrow> bytes) \<Rightarrow> ('i \<Rightarrow> 'i option) \<Rightarrow> nat \<Rightarrow> 'i \<Rightarrow>
    (bytes \<times> bytes) list option" where
  "iter_scan valid key val move 0 it = Some []"
| "iter_scan valid key val move (Suc n) it =
     (if valid it then Option.bind (move it)
        (\<lambda>it'. map_option (Cons (key it, val it)) (iter_scan valid key val move n it'))
      else Some [])"

text \<open>
  A program of moves, on an iterator and on a cursor in the sorted list it walks.  Next and
  prev are only defined on an entry, as the assertions of the implementations demand.
\<close>

datatype iter_move = To_First | To_Last | To_Next | To_Prev | To_Seek bytes

fun cursor_move :: "(bytes \<Rightarrow> bytes \<Rightarrow> bool) \<Rightarrow> (bytes \<times> bytes) list \<Rightarrow> iter_move \<Rightarrow> nat \<Rightarrow> nat option" where
  "cursor_move before es To_First k = Some 0"
| "cursor_move before es To_Last k = Some (if es = [] then 0 else length es - 1)"
| "cursor_move before es To_Next k = (if k < length es then Some (Suc k) else None)"
| "cursor_move before es To_Prev k = (if k < length es then Some (if k = 0 then length es else k - 1) else None)"
| "cursor_move before es (To_Seek t) k = Some (length (takeWhile (\<lambda>e. before (fst e) t) es))"

fun iter_apply :: "('i \<Rightarrow> 'i option) \<Rightarrow> ('i \<Rightarrow> 'i option) \<Rightarrow> ('i \<Rightarrow> 'i option) \<Rightarrow> ('i \<Rightarrow> 'i option) \<Rightarrow>
    ('i \<Rightarrow> bytes \<Rightarrow> 'i option) \<Rightarrow> iter_move \<Rightarrow> 'i \<Rightarrow> 'i option" where
  "iter_apply first final step bwd seek To_First it = first it"
| "iter_apply first final step bwd seek To_Last it = final it"
| "iter_apply first final step bwd seek To_Next it = step it"
| "iter_apply first final step bwd seek To_Prev it = bwd it"
| "iter_apply first final step bwd seek (To_Seek t) it = seek it t"

fun run_moves :: "('m \<Rightarrow> 's \<Rightarrow> 's option) \<Rightarrow> 'm list \<Rightarrow> 's \<Rightarrow> 's option" where
  "run_moves f [] s = Some s"
| "run_moves f (m # ms) s = Option.bind (f m s) (run_moves f ms)"

text \<open>The keys a program seeks.\<close>

fun move_ok :: "(bytes \<Rightarrow> bool) \<Rightarrow> iter_move \<Rightarrow> bool" where
  "move_ok target (To_Seek t) = target t"
| "move_ok target _ = True"

text \<open>What a client sees: no entry, or the key and the value.\<close>

definition iter_entry :: "('i \<Rightarrow> bool) \<Rightarrow> ('i \<Rightarrow> bytes) \<Rightarrow> ('i \<Rightarrow> bytes) \<Rightarrow> 'i \<Rightarrow> (bytes \<times> bytes) option" where
  "iter_entry valid key val it = (if valid it then Some (key it, val it) else None)"

definition cursor_entry :: "(bytes \<times> bytes) list \<Rightarrow> nat \<Rightarrow> (bytes \<times> bytes) option" where
  "cursor_entry es k = (if k < length es then Some (es ! k) else None)"

locale iter_contract =
  fixes before :: "bytes \<Rightarrow> bytes \<Rightarrow> bool"
    and at :: "'i \<Rightarrow> (bytes \<times> bytes) list \<Rightarrow> nat \<Rightarrow> bool"
    and valid :: "'i \<Rightarrow> bool" and key :: "'i \<Rightarrow> bytes" and val :: "'i \<Rightarrow> bytes"
    and first :: "'i \<Rightarrow> 'i option" and final :: "'i \<Rightarrow> 'i option"
    and step :: "'i \<Rightarrow> 'i option" and bwd :: "'i \<Rightarrow> 'i option"
    and seek :: "'i \<Rightarrow> bytes \<Rightarrow> 'i option" and target :: "bytes \<Rightarrow> bool"
  assumes at_valid: "at it es k \<Longrightarrow> valid it \<longleftrightarrow> k < length es"
    and at_entry: "at it es k \<Longrightarrow> k < length es \<Longrightarrow> (key it, val it) = es ! k"
    and at_first: "at it es k \<Longrightarrow> \<exists>it'. first it = Some it' \<and> at it' es 0"
    and at_final: "at it es k \<Longrightarrow> \<exists>it'. final it = Some it' \<and> at it' es (if es = [] then 0 else length es - 1)"
    and at_step: "at it es k \<Longrightarrow> k < length es \<Longrightarrow> \<exists>it'. step it = Some it' \<and> at it' es (Suc k)"
    and at_back: "at it es k \<Longrightarrow> k < length es \<Longrightarrow>
      \<exists>it'. bwd it = Some it' \<and> at it' es (if k = 0 then length es else k - 1)"
    and at_seek: "at it es k \<Longrightarrow> target t \<Longrightarrow>
      \<exists>it'. seek it t = Some it' \<and> at it' es (length (takeWhile (\<lambda>e. before (fst e) t) es))"
begin

lemma scan_from: "at it es k \<Longrightarrow> iter_scan valid key val step n it = Some (take n (drop k es))"
proof (induction n arbitrary: it k)
  case (Suc n)
  show ?case
  proof (cases "k < length es")
    case True
    then obtain it' where "step it = Some it'" "at it' es (Suc k)" using at_step Suc.prems by blast
    moreover have "(key it, val it) = es ! k" using at_entry Suc.prems True by blast
    ultimately show ?thesis
      using Suc True at_valid by (auto simp flip: Cons_nth_drop_Suc)
  qed (use Suc.prems at_valid in auto)
qed simp

lemma scan_back_from:
  "at it es k \<Longrightarrow> k < length es \<Longrightarrow> iter_scan valid key val bwd n it = Some (take n (rev (take (Suc k) es)))"
proof (induction n arbitrary: it k)
  case (Suc n)
  obtain it' where it': "bwd it = Some it'" "at it' es (if k = 0 then length es else k - 1)"
    using at_back Suc.prems by blast
  have e: "(key it, val it) = es ! k" using at_entry Suc.prems by blast
  have "iter_scan valid key val bwd n it' = Some (take n (rev (take k es)))"
  proof (cases k)
    case 0
    then have "\<not> valid it'" using it' at_valid by auto
    then show ?thesis using 0 by (cases n) simp_all
  next
    case (Suc j)
    then show ?thesis using Suc.IH [of it' j] Suc.prems it' by simp
  qed
  with it' e show ?case
    using Suc.prems at_valid by (simp add: take_Suc_conv_app_nth)
qed simp

lemma scan_all:
  assumes "at it es k" "length es \<le> n"
  shows "Option.bind (first it) (iter_scan valid key val step n) = Some es"
  using at_first [OF assms(1)] scan_from [of _ es 0 n] assms(2) by auto

lemma scan_back_all:
  assumes "at it es k" "length es \<le> n"
  shows "Option.bind (final it) (iter_scan valid key val bwd n) = Some (rev es)"
proof (cases "es = []")
  case True
  then show ?thesis using at_final [OF assms(1)] at_valid by (cases n) auto
next
  case False
  then show ?thesis
    using at_final [OF assms(1)] scan_back_from [of _ es "length es - 1" n] assms(2) by auto
qed

lemma seek_entry:
  assumes "at it es k" "target t"
  shows "\<exists>it'. seek it t = Some it' \<and>
    (if \<exists>e \<in> set es. \<not> before (fst e) t
     then valid it' \<and> Some (key it', val it') = find (\<lambda>e. \<not> before (fst e) t) es
     else \<not> valid it')"
proof -
  let ?k = "length (takeWhile (\<lambda>e. before (fst e) t) es)"
  obtain it' where it': "seek it t = Some it'" "at it' es ?k" using at_seek [OF assms] by blast
  have "(\<exists>e \<in> set es. \<not> before (fst e) t) \<longleftrightarrow> ?k < length es"
    by (induction es) auto
  moreover have "find (\<lambda>e. \<not> before (fst e) t) es = Some (es ! ?k)" if "?k < length es"
    using that by (induction es) auto
  ultimately show ?thesis using it' at_valid at_entry by fastforce
qed

lemma move_refines:
  assumes "at it es k" "cursor_move before es m k = Some k'" "move_ok target m"
  shows "\<exists>it'. iter_apply first final step bwd seek m it = Some it' \<and> at it' es k'"
  using assms at_first [OF assms(1)] at_final [OF assms(1)] at_step [OF assms(1)] at_back [OF assms(1)] at_seek [OF assms(1)]
  by (cases m) (auto split: if_splits)

lemma run_refines:
  assumes "at it es k" "run_moves (cursor_move before es) ms k = Some k'" "\<forall>m \<in> set ms. move_ok target m"
  shows "\<exists>it'. run_moves (iter_apply first final step bwd seek) ms it = Some it' \<and> at it' es k'"
  using assms
proof (induction ms arbitrary: it k)
  case (Cons m ms)
  then obtain k1 where k1: "cursor_move before es m k = Some k1" "run_moves (cursor_move before es) ms k1 = Some k'"
    by (auto split: bind_splits)
  then obtain it1 where "iter_apply first final step bwd seek m it = Some it1" "at it1 es k1"
    using move_refines [OF Cons.prems(1)] Cons.prems(3) by force
  then show ?case using Cons.IH [OF _ k1(2)] Cons.prems(3) by simp
qed simp

lemma entry_refines: "at it es k \<Longrightarrow> iter_entry valid key val it = cursor_entry es k"
  using at_valid at_entry by (auto simp: iter_entry_def cursor_entry_def)

lemma observe_refines:
  assumes "at it es k" "run_moves (cursor_move before es) ms k = Some k'" "\<forall>m \<in> set ms. move_ok target m"
  shows "\<exists>it'. run_moves (iter_apply first final step bwd seek) ms it = Some it' \<and>
    iter_entry valid key val it' = cursor_entry es k'"
  using run_refines [OF assms] entry_refines by blast

end

end
