(* ===== verification/Memtable.thy ===== *)
theory Memtable
  imports Skiplist Iterator
begin

text \<open>
  The memtable of \<^verbatim>\<open>engine/src/memtable.c\<close>: entries that concatenate an internal key
  and a value, both length-prefixed, kept in a skip list ordered by the internal
  key comparator.  Its specification is the list of the updates added so far:
  a lookup at a snapshot returns the newest update of the key that the snapshot
  sees (\<open>mem_newest\<close>).
\<close>

record ldb_memtable =
  mt_comparator :: ldb_comparator
  mt_refs :: int
  mt_table :: ldb_skiplist

definition ldb_memtable_init :: "ldb_comparator \<Rightarrow> ldb_memtable" where
  "ldb_memtable_init cmp =
     \<lparr>mt_comparator = cmp, mt_refs = 0, mt_table = ldb_skiplist_init cmp\<rparr>"

definition ldb_memtable_create :: "ldb_comparator \<Rightarrow> ldb_memtable" where
  "ldb_memtable_create cmp = ldb_memtable_init cmp"

definition ldb_memtable_ref :: "ldb_memtable \<Rightarrow> ldb_memtable" where
  "ldb_memtable_ref mt = mt\<lparr>mt_refs := mt_refs mt + 1\<rparr>"

text \<open>Dropping the last reference destroys the table: \<open>None\<close>.\<close>

definition ldb_memtable_unref :: "ldb_memtable \<Rightarrow> ldb_memtable option" where
  "ldb_memtable_unref mt =
     (let mt = mt\<lparr>mt_refs := mt_refs mt - 1\<rparr> in if mt_refs mt \<le> 0 then None else Some mt)"

definition memtable_entry :: "u64 \<Rightarrow> ldb_valtype \<Rightarrow> bytes \<Rightarrow> bytes \<Rightarrow> bytes" where
  "memtable_entry sequence type key value =
     ldb_varint32_write (word_of_nat (length key + 8)) @ ldb_raw_write key @
     ldb_fixed64_write (push_bit 8 sequence OR valtype_code type) @
     ldb_varint32_write (word_of_nat (length value)) @ ldb_raw_write value"

definition ldb_memtable_add ::
  "ldb_memtable \<Rightarrow> u64 \<Rightarrow> ldb_valtype \<Rightarrow> bytes \<Rightarrow> bytes \<Rightarrow> ldb_memtable option" where
  "ldb_memtable_add mt sequence type key value =
     map_option (\<lambda>table. mt\<lparr>mt_table := table\<rparr>)
       (ldb_skiplist_insert (mt_table mt) (memtable_entry sequence type key value))"

text \<open>
  The return value, the buffer \<open>value\<close> (\<open>None\<close> when the caller passes NULL) and
  \<open>*status\<close> after the call.
\<close>

definition ldb_memtable_get ::
  "ldb_memtable \<Rightarrow> ldb_lkey \<Rightarrow> bytes option \<Rightarrow> status \<Rightarrow> (bool \<times> bytes option \<times> status) option" where
  "ldb_memtable_get mt key value st =
     (case ldb_skipiter_seek (ldb_skipiter_init (mt_table mt)) (ldb_lkey_memtable_key key) of
        None \<Rightarrow> None
      | Some iter \<Rightarrow>
          if ldb_skipiter_valid iter then
            (let cmp = the (cmp_user (mt_comparator mt));
                 entry = ldb_skipiter_key iter;
                 ikey = the (ldb_slice_decode entry);
                 rest = slice_after entry;
                 okey = take (length ikey - 8) ikey;
                 ukey = ldb_lkey_user_key key
             in if ldb_compare cmp okey ukey = 0 then
                  (let type = ldb_fixed64_decode (drop (length ikey - 8) ikey) AND 255
                   in if type = valtype_code TYPE_VALUE then
                        Some (True, map_option (\<lambda>_. the (ldb_slice_decode rest)) value, st)
                      else if type = valtype_code TYPE_DELETION then Some (True, value, NOTFOUND)
                      else Some (False, value, st))
                else Some (False, value, st))
          else Some (False, value, st))"

section \<open>Iterators\<close>

record ldb_memiter =
  mi_iter :: ldb_skipiter
  mi_tmp :: bytes

definition ldb_memiter_init :: "ldb_skiplist \<Rightarrow> ldb_memiter" where
  "ldb_memiter_init table = \<lparr>mi_iter = ldb_skipiter_init table, mi_tmp = []\<rparr>"

definition ldb_memiter_valid :: "ldb_memiter \<Rightarrow> bool" where
  "ldb_memiter_valid iter = ldb_skipiter_valid (mi_iter iter)"

definition ldb_memiter_seek :: "ldb_memiter \<Rightarrow> bytes \<Rightarrow> ldb_memiter option" where
  "ldb_memiter_seek iter key =
     (let tmp = ldb_slice_export [] key
      in map_option (\<lambda>it. \<lparr>mi_iter = it, mi_tmp = tmp\<rparr>) (ldb_skipiter_seek (mi_iter iter) tmp))"

definition ldb_memiter_first :: "ldb_memiter \<Rightarrow> ldb_memiter" where
  "ldb_memiter_first iter = iter\<lparr>mi_iter := ldb_skipiter_first (mi_iter iter)\<rparr>"

definition ldb_memiter_last :: "ldb_memiter \<Rightarrow> ldb_memiter option" where
  "ldb_memiter_last iter =
     map_option (\<lambda>it. iter\<lparr>mi_iter := it\<rparr>) (ldb_skipiter_last (mi_iter iter))"

definition ldb_memiter_next :: "ldb_memiter \<Rightarrow> ldb_memiter" where
  "ldb_memiter_next iter = iter\<lparr>mi_iter := ldb_skipiter_next (mi_iter iter)\<rparr>"

definition ldb_memiter_prev :: "ldb_memiter \<Rightarrow> ldb_memiter option" where
  "ldb_memiter_prev iter =
     map_option (\<lambda>it. iter\<lparr>mi_iter := it\<rparr>) (ldb_skipiter_prev (mi_iter iter))"

definition ldb_memiter_key :: "ldb_memiter \<Rightarrow> bytes" where
  "ldb_memiter_key iter = the (ldb_slice_decode (ldb_skipiter_key (mi_iter iter)))"

definition ldb_memiter_value :: "ldb_memiter \<Rightarrow> bytes" where
  "ldb_memiter_value iter =
     the (ldb_slice_decode (slice_after (ldb_skipiter_key (mi_iter iter))))"

section \<open>Specification: the updates of a memtable\<close>

record mem_update =
  mu_seq :: u64
  mu_type :: ldb_valtype
  mu_key :: bytes
  mu_value :: bytes

definition update_entry :: "mem_update \<Rightarrow> bytes" where
  "update_entry u = memtable_entry (mu_seq u) (mu_type u) (mu_key u) (mu_value u)"

definition update_ikey :: "mem_update \<Rightarrow> bytes" where
  "update_ikey u = ldb_ikey_set (mu_key u) (mu_seq u) (mu_type u)"

definition update_ok :: "mem_update \<Rightarrow> bool" where
  "update_ok u \<longleftrightarrow> mu_seq u \<le> MAX_SEQUENCE \<and> length (mu_key u) + 8 < 2 ^ 32 \<and> length (mu_value u) < 2 ^ 32"

definition mem_visible :: "ldb_comparator \<Rightarrow> bytes \<Rightarrow> u64 \<Rightarrow> mem_update \<Rightarrow> bool" where
  "mem_visible uc k s u \<longleftrightarrow> ldb_compare uc (mu_key u) k = 0 \<and> mu_seq u \<le> s"

fun mem_newest :: "ldb_comparator \<Rightarrow> mem_update list \<Rightarrow> bytes \<Rightarrow> u64 \<Rightarrow> mem_update option" where
  "mem_newest uc [] k s = None"
| "mem_newest uc (u # us) k s =
     (case mem_newest uc us k s of
        None \<Rightarrow> if mem_visible uc k s u then Some u else None
      | Some v \<Rightarrow> if mem_visible uc k s u \<and> mu_seq v \<le> mu_seq u then Some u else Some v)"

definition mem_lookup ::
  "ldb_comparator \<Rightarrow> mem_update list \<Rightarrow> bytes \<Rightarrow> u64 \<Rightarrow> bytes option \<Rightarrow> status \<Rightarrow> bool \<times> bytes option \<times> status" where
  "mem_lookup uc us k s value st =
     (case mem_newest uc us k s of
        None \<Rightarrow> (False, value, st)
      | Some u \<Rightarrow>
          (case mu_type u of
             TYPE_VALUE \<Rightarrow> (True, map_option (\<lambda>_. mu_value u) value, st)
           | TYPE_DELETION \<Rightarrow> (True, value, NOTFOUND)))"

definition updates_ok :: "mem_update list \<Rightarrow> bool" where
  "updates_ok us \<longleftrightarrow> (\<forall>u \<in> set us. update_ok u) \<and> distinct (map mu_seq us)"

definition mem_holds :: "ldb_comparator \<Rightarrow> ldb_memtable \<Rightarrow> mem_update list \<Rightarrow> bool" where
  "mem_holds uc mt us \<longleftrightarrow> mt_comparator mt = ldb_ikc_init uc \<and> updates_ok us \<and>
     (\<exists>es. skip_holds (ldb_ikc_init uc) (mt_table mt) es \<and> set es = update_entry ` set us)"

section \<open>Entries\<close>

lemma update_entry_eq: "update_entry u = ldb_slice_write (update_ikey u) @ ldb_slice_write (mu_value u)"
  by (simp add: update_entry_def memtable_entry_def update_ikey_def ldb_slice_write_def ldb_ikey_set_def
      ldb_pkey_export_def ldb_pkey_write_def ldb_pkey_init_def ldb_raw_write_def pack_seqtype_def)

declare ikey_set_parts [simp]

lemma update_entry_decode:
  assumes "update_ok u"
  shows "ldb_slice_decode (update_entry u) = Some (update_ikey u)"
    "ldb_slice_decode (slice_after (update_entry u)) = Some (mu_value u)"
proof -
  have k: "length (update_ikey u) < 2 ^ 32" and v: "length (mu_value u) < 2 ^ 32"
    using assms by (simp_all add: update_ok_def update_ikey_def)
  show "ldb_slice_decode (update_entry u) = Some (update_ikey u)"
    "ldb_slice_decode (slice_after (update_entry u)) = Some (mu_value u)"
    using ldb_slice_decode_write [OF k] ldb_slice_decode_write(1) [OF v, of "[]"]
    by (simp_all add: update_entry_eq)
qed

lemma lookup_key_decode:
  "length k + 8 < 2 ^ 32 \<Longrightarrow>
   ldb_slice_decode (ldb_lkey_memtable_key (ldb_lkey_init k s)) = Some (ldb_ikey_set k s VALTYPE_SEEK)"
  using ldb_slice_decode_write(1) [of "ldb_ikey_set k s VALTYPE_SEEK" "[]"]
  by (simp add: ldb_lkey_memtable_key_eq)

lemma updates_ok_eq:
  "updates_ok us \<Longrightarrow> u \<in> set us \<Longrightarrow> v \<in> set us \<Longrightarrow> mu_seq u = mu_seq v \<Longrightarrow> u = v"
  by (auto simp: updates_ok_def distinct_map dest: inj_onD)

lemma mem_newest_None: "mem_newest uc us k s = None \<longleftrightarrow> (\<forall>v \<in> set us. \<not> mem_visible uc k s v)"
  by (induction us) (auto split: option.splits)

lemma mem_newest_Some:
  "mem_newest uc us k s = Some u \<Longrightarrow>
   u \<in> set us \<and> mem_visible uc k s u \<and> (\<forall>v \<in> set us. mem_visible uc k s v \<longrightarrow> mu_seq v \<le> mu_seq u)"
proof (induction us arbitrary: u)
  case (Cons a us)
  show ?case
  proof (cases "mem_newest uc us k s")
    case None
    then show ?thesis using Cons.prems mem_newest_None by (fastforce split: if_splits)
  next
    case (Some v)
    then show ?thesis using Cons.prems Cons.IH [OF Some] by (force split: if_splits)
  qed
qed simp

lemma mem_newest_eqI:
  assumes "updates_ok us" "u \<in> set us" "mem_visible uc k s u"
    "\<And>v. v \<in> set us \<Longrightarrow> mem_visible uc k s v \<Longrightarrow> mu_seq v \<le> mu_seq u"
  shows "mem_newest uc us k s = Some u"
proof (cases "mem_newest uc us k s")
  case (Some v)
  then have "v \<in> set us" "mu_seq v = mu_seq u"
    using mem_newest_Some [OF Some] assms(2-4) by (auto intro: antisym)
  then show ?thesis using updates_ok_eq [OF assms(1,2)] Some by force
qed (use assms(2,3) mem_newest_None in blast)

section \<open>Memtables with a lawful comparator\<close>

context user_comparator
begin

lemma entry_before:
  assumes "update_ok u" "update_ok v" "mu_seq u \<noteq> mu_seq v"
  shows "skip_less (ldb_ikc_init uc) (update_entry u) (update_entry v) \<longleftrightarrow>
    ldb_compare uc (mu_key u) (mu_key v) < 0 \<or>
    (ldb_compare uc (mu_key u) (mu_key v) = 0 \<and> mu_seq v < mu_seq u)"
  using assms ikc_less_iff [of "update_ikey u" "update_ikey v"]
  by (auto simp: skip_less_def update_entry_decode ldb_compare_def ldb_ikc_init_def update_ikey_def
      update_ok_def pack_seqtype_less_iff)

lemma entry_before_lookup:
  assumes "update_ok u" "length k + 8 < 2 ^ 32" "s \<le> MAX_SEQUENCE"
  shows "skip_less (ldb_ikc_init uc) (update_entry u) (ldb_lkey_memtable_key (ldb_lkey_init k s)) \<longleftrightarrow>
    ldb_compare uc (mu_key u) k < 0 \<or> (ldb_compare uc (mu_key u) k = 0 \<and> s < mu_seq u)"
  using assms ikc_less_iff [of "update_ikey u" "ldb_ikey_set k s VALTYPE_SEEK"]
  by (auto simp: skip_less_def update_entry_decode lookup_key_decode ldb_compare_def ldb_ikc_init_def
      update_ikey_def update_ok_def pack_seqtype_less_iff VALTYPE_SEEK_def)

lemma mem_init: "mem_holds uc (ldb_memtable_create (ldb_ikc_init uc)) []"
  using skip_init_holds [of "ldb_ikc_init uc"]
  by (auto simp: mem_holds_def ldb_memtable_create_def ldb_memtable_init_def updates_ok_def)

lemma mem_add:
  assumes "mem_holds uc mt us" "update_ok u" "mu_seq u \<notin> mu_seq ` set us"
  shows "\<exists>mt'. ldb_memtable_add mt (mu_seq u) (mu_type u) (mu_key u) (mu_value u) = Some mt' \<and>
    mem_holds uc mt' (us @ [u])"
proof -
  obtain es where es: "skip_holds (ldb_ikc_init uc) (mt_table mt) es" "set es = update_entry ` set us"
    and ok: "updates_ok us" and c: "mt_comparator mt = ldb_ikc_init uc"
    using assms(1) by (auto simp: mem_holds_def)
  have "skip_less (ldb_ikc_init uc) e (update_entry u) \<or> skip_less (ldb_ikc_init uc) (update_entry u) e"
    if e: "e \<in> set es" for e
  proof -
    obtain v where v: "v \<in> set us" "e = update_entry v" using e es(2) by auto
    then have "update_ok v" "mu_seq v \<noteq> mu_seq u" using ok assms(3) by (auto simp: updates_ok_def intro: rev_image_eqI)
    then show ?thesis
      using assms(2) v cmp_gt_iff [of "mu_key u" "mu_key v"] cmp_eq_sym [of "mu_key u" "mu_key v"]
      by (auto simp: entry_before)
  qed
  then obtain l' es' where l': "ldb_skiplist_insert (mt_table mt) (update_entry u) = Some l'"
    "skip_holds (ldb_ikc_init uc) l' es'" "set es' = insert (update_entry u) (set es)"
    using mem.store.ins_set [OF es(1)] by metis
  have "updates_ok (us @ [u])" using ok assms(2,3) by (auto simp: updates_ok_def)
  then show ?thesis
    using l' es(2) c by (auto simp: ldb_memtable_add_def update_entry_def mem_holds_def)
qed

lemma mem_get_hit:
  assumes "update_ok u"
    and "ldb_skipiter_seek (ldb_skipiter_init (mt_table mt)) (ldb_lkey_memtable_key (ldb_lkey_init k s)) = Some it"
    and "ldb_skipiter_valid it" "ldb_skipiter_key it = update_entry u" "mt_comparator mt = ldb_ikc_init uc"
  shows "ldb_memtable_get mt (ldb_lkey_init k s) value st =
    Some (if ldb_compare uc (mu_key u) k = 0 then
            (case mu_type u of TYPE_VALUE \<Rightarrow> (True, map_option (\<lambda>_. mu_value u) value, st)
             | TYPE_DELETION \<Rightarrow> (True, value, NOTFOUND))
          else (False, value, st))"
proof -
  have tag: "ldb_fixed64_decode (drop (length (update_ikey u) - 8) (update_ikey u)) AND 255 = valtype_code (mu_type u)"
  proof -
    have "ikey_tag (update_ikey u) AND 255 = valtype_code (mu_type u)"
      using assms(1) type_pack_seqtype by (simp add: update_ikey_def update_ok_def)
    then show ?thesis by (simp only: ikey_tag_def)
  qed
  have key: "take (length (update_ikey u) - 8) (update_ikey u) = mu_key u"
    using ikey_set_parts(1) by (simp only: update_ikey_def ldb_extract_user_key_def)
  show ?thesis
    using assms tag key
    by (cases "mu_type u") (simp_all add: ldb_memtable_get_def update_entry_decode Let_def
        ldb_lkey_parts ldb_ikc_init_def valtype_code_def)
qed

lemma entries_in_order:
  assumes ok: "updates_ok us" and sorted: "sorted_wrt (skip_less (ldb_ikc_init uc)) es"
    and u: "u \<in> set us" and v: "v \<in> set us"
    and ij: "i \<le> j" "j < length es" "es ! i = update_entry u" "es ! j = update_entry v"
  shows "v = u \<or> ldb_compare uc (mu_key u) (mu_key v) < 0 \<or>
    (ldb_compare uc (mu_key u) (mu_key v) = 0 \<and> mu_seq v < mu_seq u)"
proof (cases "mu_seq v = mu_seq u")
  case True
  then show ?thesis using updates_ok_eq [OF ok v u] by simp
next
  case False
  have uv: "update_ok u" "update_ok v" using ok u v by (simp_all add: updates_ok_def)
  consider "j = i" | "skip_less (ldb_ikc_init uc) (update_entry u) (update_entry v)"
    using sorted ij by (metis le_neq_implies_less sorted_wrt_nth_less)
  then show ?thesis
  proof cases
    case 1
    then have "update_ikey u = update_ikey v"
      using ij update_entry_decode(1) uv by (metis option.inject)
    then have "pack_seqtype (mu_seq u) (mu_type u) = pack_seqtype (mu_seq v) (mu_type v)"
      by (metis ikey_set_parts(2) update_ikey_def)
    then show ?thesis using False uv by (simp add: pack_seqtype_eq_iff update_ok_def)
  qed (use False entry_before [OF uv] in auto)
qed

lemma mem_get:
  assumes "mem_holds uc mt us" "length k + 8 < 2 ^ 32" "s \<le> MAX_SEQUENCE"
  shows "ldb_memtable_get mt (ldb_lkey_init k s) value st = Some (mem_lookup uc us k s value st)"
proof -
  let ?c = "ldb_ikc_init uc" and ?m = "ldb_lkey_memtable_key (ldb_lkey_init k s)"
  obtain es where es: "skip_holds ?c (mt_table mt) es" "set es = update_entry ` set us"
    and ok: "updates_ok us" and c: "mt_comparator mt = ?c"
    using assms(1) by (auto simp: mem_holds_def)
  have okD: "update_ok v" if "v \<in> set us" for v using ok that by (simp add: updates_ok_def)
  have bef: "skip_less ?c (update_entry v) ?m \<longleftrightarrow>
      ldb_compare uc (mu_key v) k < 0 \<or> (ldb_compare uc (mu_key v) k = 0 \<and> s < mu_seq v)"
    if "v \<in> set us" for v using entry_before_lookup [OF okD [OF that] assms(2,3)] .
  show ?thesis
  proof (cases rule: mem.store.seek_first [OF es(1), of ?m, case_names found none])
    case (found it i)
    obtain u where u: "u \<in> set us" "es ! i = update_entry u" using es(2) nth_mem [OF found(3)] by auto
    have later: "v = u \<or> ldb_compare uc (mu_key u) (mu_key v) < 0 \<or>
        (ldb_compare uc (mu_key u) (mu_key v) = 0 \<and> mu_seq v < mu_seq u)"
      if v: "v \<in> set us" "\<not> skip_less ?c (update_entry v) ?m" for v
    proof -
      obtain j where j: "j < length es" "es ! j = update_entry v"
        using v(1) es(2) by (metis image_eqI in_set_conv_nth)
      moreover have "i \<le> j" using found(6) [of j] v(2) j(2) by (metis not_le)
      ultimately show ?thesis
        using entries_in_order [OF ok mem.skip_holds_sorted [OF es(1)] u(1) v(1)] u(2) by blast
    qed
    have get: "ldb_memtable_get mt (ldb_lkey_init k s) value st =
      Some (if ldb_compare uc (mu_key u) k = 0 then
              (case mu_type u of TYPE_VALUE \<Rightarrow> (True, map_option (\<lambda>_. mu_value u) value, st)
               | TYPE_DELETION \<Rightarrow> (True, value, NOTFOUND))
            else (False, value, st))"
      using mem_get_hit [OF okD [OF u(1)] found(1,2)] found(4) u(2) c by simp
    show ?thesis
    proof (cases "ldb_compare uc (mu_key u) k = 0")
      case True
      have "mem_newest uc us k s = Some u"
      proof (rule mem_newest_eqI [OF ok u(1)])
        show "mem_visible uc k s u" using True found(5) u bef [OF u(1)] by (auto simp: mem_visible_def)
        show "mu_seq v \<le> mu_seq u" if "v \<in> set us" "mem_visible uc k s v" for v
          using later [OF that(1)] bef [OF that(1)] that True
            cmp_eq_cong [of "mu_key u" k "mu_key v"] cmp_eq_sym [of "mu_key v" k]
          by (auto simp: mem_visible_def)
      qed
      with True get show ?thesis by (simp add: mem_lookup_def)
    next
      case False
      have "\<not> mem_visible uc k s v" if "v \<in> set us" for v
        using later [OF that] bef [OF that] False bef [OF u(1)] found(5) u(2)
          cmp_eq_cong [of "mu_key v" k "mu_key u"] cmp_gt_iff [of "mu_key u" "mu_key v"]
          cmp_gt_iff [of "mu_key u" k] cmp_eq_sym [of "mu_key u" "mu_key v"]
        by (auto simp: mem_visible_def)
      with False get show ?thesis by (simp add: mem_lookup_def mem_newest_None [THEN iffD2])
    qed
  next
    case (none it)
    have "\<not> mem_visible uc k s v" if "v \<in> set us" for v
      using none(3) [of "update_entry v"] es(2) that bef [OF that] by (auto simp: mem_visible_def)
    then show ?thesis
      using none(1,2) by (simp add: ldb_memtable_get_def mem_lookup_def mem_newest_None [THEN iffD2])
  qed
qed

end

section \<open>The memtable iterator meets the iterator contract\<close>

definition memiter_at :: "ldb_comparator \<Rightarrow> ldb_memiter \<Rightarrow> (bytes \<times> bytes) list \<Rightarrow> nat \<Rightarrow> bool" where
  "memiter_at uc it es k \<longleftrightarrow>
     (\<exists>us. (\<forall>u \<in> set us. update_ok u) \<and> es = map (\<lambda>u. (update_ikey u, mu_value u)) us \<and>
        skipiter_at (ldb_ikc_init uc) (mi_iter it) (map update_entry us) k)"

lemma skipiter_at_holds: "skipiter_at c it es k \<Longrightarrow> skip_holds c (si_list it) es"
  by (auto simp: skipiter_at_def skip_holds_def)

lemma skipiter_init_at: "skip_holds c l es \<Longrightarrow> skipiter_at c (ldb_skipiter_init l) es (length es)"
  by (force simp: skipiter_at_def skip_holds_def ldb_skipiter_init_def skip_entries_def)

lemma memiter_atE:
  assumes "memiter_at uc it es k"
  obtains us where "\<And>u. u \<in> set us \<Longrightarrow> update_ok u" "es = map (\<lambda>u. (update_ikey u, mu_value u)) us"
    "skipiter_at (ldb_ikc_init uc) (mi_iter it) (map update_entry us) k"
    "skip_holds (ldb_ikc_init uc) (si_list (mi_iter it)) (map update_entry us)"
  using assms skipiter_at_holds unfolding memiter_at_def by blast

lemma memiter_atI:
  "skipiter_at (ldb_ikc_init uc) (mi_iter it) (map update_entry us) k \<Longrightarrow> (\<And>u. u \<in> set us \<Longrightarrow> update_ok u) \<Longrightarrow>
   memiter_at uc it (map (\<lambda>u. (update_ikey u, mu_value u)) us) k"
  by (auto simp: memiter_at_def)

context user_comparator
begin

lemma memiter_seek_at:
  assumes "memiter_at uc it es k" "length t < 2 ^ 32"
  shows "\<exists>it'. ldb_memiter_seek it t = Some it' \<and>
    memiter_at uc it' es (length (takeWhile (\<lambda>e. ldb_ikc_compare uc (fst e) t < 0) es))"
proof -
  obtain us where us: "\<And>u. u \<in> set us \<Longrightarrow> update_ok u" "es = map (\<lambda>u. (update_ikey u, mu_value u)) us"
    "skipiter_at (ldb_ikc_init uc) (mi_iter it) (map update_entry us) k"
    "skip_holds (ldb_ikc_init uc) (si_list (mi_iter it)) (map update_entry us)"
    using memiter_atE [OF assms(1)] by blast
  let ?tmp = "ldb_slice_export [] t"
  have dec: "ldb_slice_decode ?tmp = Some t"
    using ldb_slice_decode_write(1) [OF assms(2), of "[]"] by (simp add: ldb_slice_export_def)
  have "length (takeWhile (\<lambda>e. skip_less (ldb_ikc_init uc) e ?tmp) (map update_entry us)) =
      length (takeWhile (\<lambda>u. skip_less (ldb_ikc_init uc) (update_entry u) ?tmp) us)"
    by (simp add: takeWhile_map comp_def)
  also have "takeWhile (\<lambda>u. skip_less (ldb_ikc_init uc) (update_entry u) ?tmp) us =
      takeWhile (\<lambda>u. ldb_ikc_compare uc (update_ikey u) t < 0) us"
    by (rule takeWhile_cong) (simp_all add: skip_less_def dec update_entry_decode us(1) ldb_compare_def ldb_ikc_init_def)
  also have "length \<dots> = length (takeWhile (\<lambda>e. ldb_ikc_compare uc (fst e) t < 0) es)"
    by (simp add: us(2) takeWhile_map comp_def)
  finally have len: "length (takeWhile (\<lambda>e. skip_less (ldb_ikc_init uc) e ?tmp) (map update_entry us)) =
      length (takeWhile (\<lambda>e. ldb_ikc_compare uc (fst e) t < 0) es)" .
  obtain it' where "ldb_skipiter_seek (mi_iter it) ?tmp = Some it'"
    "skipiter_at (ldb_ikc_init uc) it' (map update_entry us)
       (length (takeWhile (\<lambda>e. ldb_ikc_compare uc (fst e) t < 0) es))"
    using mem.skipiter_seek_at [OF us(4), of ?tmp] len by auto
  then show ?thesis
    using memiter_atI [of uc "\<lparr>mi_iter = it', mi_tmp = ?tmp\<rparr>" us] us(1)
    by (simp add: ldb_memiter_seek_def Let_def us(2))
qed

lemma memiter_entry:
  assumes "memiter_at uc it es k" "k < length es"
  shows "(ldb_memiter_key it, ldb_memiter_value it) = es ! k"
  using assms by (elim memiter_atE)
    (simp add: ldb_memiter_key_def ldb_memiter_value_def mem.skipiter_at_key update_entry_decode)

end

sublocale user_comparator \<subseteq> memiter: iter_contract "\<lambda>x y. ldb_ikc_compare uc x y < 0" "memiter_at uc"
  ldb_memiter_valid ldb_memiter_key ldb_memiter_value "\<lambda>it. Some (ldb_memiter_first it)" ldb_memiter_last
  "\<lambda>it. Some (ldb_memiter_next it)" ldb_memiter_prev ldb_memiter_seek "\<lambda>t. length t < 2 ^ 32"
proof (unfold_locales, goal_cases)
  case (1 it es k)
  then show ?case
    by (elim memiter_atE) (simp add: ldb_memiter_valid_def mem.skipiter_at_valid)
next
  case (2 it es k)
  then show ?case by (rule memiter_entry)
next
  case (3 it es k)
  then show ?case
    by (elim memiter_atE) (auto simp: ldb_memiter_first_def intro!: memiter_atI mem.skipiter_first_at)
next
  case (4 it es k)
  then obtain us where us: "\<And>u. u \<in> set us \<Longrightarrow> update_ok u" "es = map (\<lambda>u. (update_ikey u, mu_value u)) us"
    "skipiter_at (ldb_ikc_init uc) (mi_iter it) (map update_entry us) k"
    "skip_holds (ldb_ikc_init uc) (si_list (mi_iter it)) (map update_entry us)"
    using memiter_atE by blast
  obtain it' where "ldb_skipiter_last (mi_iter it) = Some it'"
    "skipiter_at (ldb_ikc_init uc) it' (map update_entry us) (if es = [] then 0 else length es - 1)"
    using mem.skipiter_last_at [OF us(4)] us(2) by (auto cong: if_cong)
  then show ?case
    using memiter_atI [of uc "it\<lparr>mi_iter := it'\<rparr>" us] us(1) by (simp add: ldb_memiter_last_def us(2) cong: if_cong)
next
  case (5 it es k)
  then show ?case
    by (elim memiter_atE) (auto simp: ldb_memiter_next_def intro!: memiter_atI mem.skipiter_next_at)
next
  case (6 it es k)
  then obtain us where us: "\<And>u. u \<in> set us \<Longrightarrow> update_ok u" "es = map (\<lambda>u. (update_ikey u, mu_value u)) us"
    "skipiter_at (ldb_ikc_init uc) (mi_iter it) (map update_entry us) k"
    "skip_holds (ldb_ikc_init uc) (si_list (mi_iter it)) (map update_entry us)"
    using memiter_atE by blast
  obtain it' where "ldb_skipiter_prev (mi_iter it) = Some it'"
    "skipiter_at (ldb_ikc_init uc) it' (map update_entry us) (if k = 0 then length es else k - 1)"
    using mem.skipiter_prev_at [OF us(3)] us(2) 6(2) by (auto cong: if_cong)
  then show ?case
    using memiter_atI [of uc "it\<lparr>mi_iter := it'\<rparr>" us] us(1) by (simp add: ldb_memiter_prev_def us(2) cong: if_cong)
next
  case (7 it es k t)
  then show ?case by (rule memiter_seek_at)
qed

context user_comparator
begin

lemmas memiter_contract = memiter.iter_contract_axioms

end

section \<open>Properties\<close>

lemma map_choice: "set es \<subseteq> f ` A \<Longrightarrow> \<exists>us. es = map f us \<and> set us \<subseteq> A"
proof (induction es)
  case (Cons e es)
  then obtain us u where "es = map f us" "set us \<subseteq> A" "u \<in> A" "e = f u" by auto
  then have "e # es = map f (u # us) \<and> set (u # us) \<subseteq> A" by simp
  then show ?case by (rule exI)
qed simp

text \<open>The iterator over a memtable starts with every update in internal key order.\<close>

context user_comparator
begin

lemma memiter_starts:
  assumes "mem_holds uc mt us"
  shows "\<exists>es. memiter_at uc (ldb_memiter_init (mt_table mt)) es (length es) \<and>
    set es = (\<lambda>u. (update_ikey u, mu_value u)) ` set us \<and>
    sorted_wrt (\<lambda>x y. ldb_ikc_compare uc (fst x) (fst y) < 0) es"
proof -
  obtain ents where ents: "skip_holds (ldb_ikc_init uc) (mt_table mt) ents" "set ents = update_entry ` set us"
    and ok: "updates_ok us" using assms by (auto simp: mem_holds_def)
  obtain us' where us': "ents = map update_entry us'" "set us' \<subseteq> set us"
    using map_choice [of ents update_entry "set us"] ents(2) by auto
  let ?es = "map (\<lambda>u. (update_ikey u, mu_value u)) us'"
  have ok': "update_ok u" if "u \<in> set us" for u using ok that by (simp add: updates_ok_def)
  define g where "g = (\<lambda>e. (the (ldb_slice_decode e), the (ldb_slice_decode (slice_after e))))"
  have g: "g (update_entry u) = (update_ikey u, mu_value u)" if "u \<in> set us" for u
    using update_entry_decode [OF ok' [OF that]] by (simp add: g_def)
  have "set ?es = g ` set ents" using us' g by (force simp: image_image intro!: image_cong)
  also have "\<dots> = (\<lambda>u. (update_ikey u, mu_value u)) ` set us"
    using ents(2) g by (force simp: image_image intro!: image_cong)
  finally have "set ?es = (\<lambda>u. (update_ikey u, mu_value u)) ` set us" .
  moreover have "sorted_wrt (\<lambda>x y. ldb_ikc_compare uc (fst x) (fst y) < 0) ?es"
  proof -
    have "sorted_wrt (\<lambda>u v. skip_less (ldb_ikc_init uc) (update_entry u) (update_entry v)) us'"
      using mem.skip_holds_sorted [OF ents(1)]
      by (simp add: us' sorted_wrt_map)
    then show ?thesis
      unfolding sorted_wrt_map by (rule sorted_wrt_mono_rel [rotated])
        (use us'(2) ok' in \<open>auto simp: skip_less_def update_entry_decode ldb_compare_def ldb_ikc_init_def subset_iff\<close>)
  qed
  moreover have "memiter_at uc (ldb_memiter_init (mt_table mt)) ?es (length ents)"
    using skipiter_init_at [OF ents(1)] us' ok'
    by (intro memiter_atI) (auto simp: ldb_memiter_init_def subset_iff)
  ultimately show ?thesis using us'(1) by (intro exI [of _ ?es]) simp
qed

end

text \<open>C21: adding an update with a fresh sequence number returns, and the memtable then holds the
  old updates and the new one.\<close>

theorem memtable_add_ok:
  assumes "user_comparator uc" "mem_holds uc mt us" "update_ok u" "mu_seq u \<notin> mu_seq ` set us"
  shows "\<exists>mt'. ldb_memtable_add mt (mu_seq u) (mu_type u) (mu_key u) (mu_value u) = Some mt' \<and>
    mem_holds uc mt' (us @ [u])"
  using user_comparator.mem_add [OF assms] .

theorem memtable_add_ok_witness:
  "\<exists>mt'. ldb_memtable_add (ldb_memtable_create (ldb_ikc_init bytewise_comparator)) 4 TYPE_VALUE [97] [1, 2] = Some mt' \<and>
    mem_holds bytewise_comparator mt' [\<lparr>mu_seq = 4, mu_type = TYPE_VALUE, mu_key = [97], mu_value = [1, 2]\<rparr>]"
  using memtable_add_ok [OF bytewise_uc.user_comparator_axioms bytewise_uc.mem_init,
      of "\<lparr>mu_seq = 4, mu_type = TYPE_VALUE, mu_key = [97], mu_value = [1, 2]\<rparr>"]
  by (simp add: update_ok_def MAX_SEQUENCE_def)

text \<open>C17: a lookup at a snapshot returns and gives exactly the newest update of the key whose
  sequence number the snapshot sees: its value, or not found for a deletion; without
  such an update it reports that the table does not decide.\<close>

theorem memtable_get_newest:
  assumes "user_comparator uc" "mem_holds uc mt us" "length k + 8 < 2 ^ 32" "s \<le> MAX_SEQUENCE"
  shows "ldb_memtable_get mt (ldb_lkey_init k s) value st = Some (mem_lookup uc us k s value st)"
  using user_comparator.mem_get [OF assms] .

theorem memtable_get_newest_witness:
  "ldb_memtable_get (ldb_memtable_create (ldb_ikc_init bytewise_comparator)) (ldb_lkey_init [97] 9) (Some []) OK =
     Some (False, Some [], OK)"
  using memtable_get_newest [OF bytewise_uc.user_comparator_axioms bytewise_uc.mem_init, of "[97]" 9 "Some []" OK]
  by (simp add: mem_lookup_def MAX_SEQUENCE_def)

text \<open>C22: a scan of a memtable from its first entry returns and lists every update once, in
  internal key order, and a scan from the last entry lists them in reverse.\<close>

theorem memtable_scan_ok:
  assumes "user_comparator uc" "mem_holds uc mt us"
  shows "\<exists>es. set es = (\<lambda>u. (update_ikey u, mu_value u)) ` set us \<and>
    sorted_wrt (\<lambda>x y. ldb_ikc_compare uc (fst x) (fst y) < 0) es \<and>
    (\<forall>n \<ge> length es.
       iter_scan ldb_memiter_valid ldb_memiter_key ldb_memiter_value (\<lambda>it. Some (ldb_memiter_next it)) n
         (ldb_memiter_first (ldb_memiter_init (mt_table mt))) = Some es \<and>
       Option.bind (ldb_memiter_last (ldb_memiter_init (mt_table mt)))
         (iter_scan ldb_memiter_valid ldb_memiter_key ldb_memiter_value ldb_memiter_prev n) = Some (rev es))"
proof -
  obtain es where es: "memiter_at uc (ldb_memiter_init (mt_table mt)) es (length es)"
    "set es = (\<lambda>u. (update_ikey u, mu_value u)) ` set us"
    "sorted_wrt (\<lambda>x y. ldb_ikc_compare uc (fst x) (fst y) < 0) es"
    using user_comparator.memiter_starts [OF assms] by blast
  have it: "iter_contract (\<lambda>x y. ldb_ikc_compare uc x y < 0) (memiter_at uc)
      ldb_memiter_valid ldb_memiter_key ldb_memiter_value (\<lambda>it. Some (ldb_memiter_first it)) ldb_memiter_last
      (\<lambda>it. Some (ldb_memiter_next it)) ldb_memiter_prev ldb_memiter_seek (\<lambda>t. length t < 2 ^ 32)"
    using user_comparator.memiter_contract [OF assms(1)] .
  show ?thesis
    using es iter_contract.scan_all [OF it es(1)] iter_contract.scan_back_all [OF it es(1)]
    by (intro exI [of _ es]) simp
qed

theorem memtable_scan_ok_witness:
  "\<exists>es. set es = {} \<and>
    iter_scan ldb_memiter_valid ldb_memiter_key ldb_memiter_value (\<lambda>it. Some (ldb_memiter_next it)) 5
      (ldb_memiter_first (ldb_memiter_init (mt_table (ldb_memtable_create (ldb_ikc_init bytewise_comparator))))) = Some es"
proof -
  obtain es where "set es = {}" "\<forall>n \<ge> length es.
    iter_scan ldb_memiter_valid ldb_memiter_key ldb_memiter_value (\<lambda>it. Some (ldb_memiter_next it)) n
      (ldb_memiter_first (ldb_memiter_init (mt_table (ldb_memtable_create (ldb_ikc_init bytewise_comparator))))) = Some es"
    using memtable_scan_ok [OF bytewise_uc.user_comparator_axioms bytewise_uc.mem_init] by auto
  then show ?thesis by (intro exI [of _ es]) simp
qed

end
