(* ===== verification/Write_Batch.thy ===== *)
theory Write_Batch
  imports Memtable
begin

text \<open>
  Write batches, \<^verbatim>\<open>engine/src/write_batch.c\<close>: a header of a sequence number and a
  count, then one record per update.  A batch represents a list of operations
  (\<open>batch_repr\<close>); decoding calls the handler once per operation, in order.  Inserting a
  batch into a memtable adds its operations with consecutive sequence numbers.
\<close>

record ldb_batch =
  wb_rep :: bytes

record 's ldb_handler =
  h_put :: "'s \<Rightarrow> bytes \<Rightarrow> bytes \<Rightarrow> 's"
  h_del :: "'s \<Rightarrow> bytes \<Rightarrow> 's"

definition LDB_HEADER :: nat where
  "LDB_HEADER = 12"

definition ldb_batch_count :: "ldb_batch \<Rightarrow> int" where
  "ldb_batch_count batch = sint (ldb_fixed32_decode (drop 8 (wb_rep batch)))"

definition ldb_batch_set_count :: "ldb_batch \<Rightarrow> int \<Rightarrow> ldb_batch" where
  "ldb_batch_set_count batch count =
     batch\<lparr>wb_rep := put_at 8 (ldb_fixed32_write (word_of_int count)) (wb_rep batch)\<rparr>"

definition ldb_batch_sequence :: "ldb_batch \<Rightarrow> u64" where
  "ldb_batch_sequence batch = ldb_fixed64_decode (wb_rep batch)"

definition ldb_batch_set_sequence :: "ldb_batch \<Rightarrow> u64 \<Rightarrow> ldb_batch" where
  "ldb_batch_set_sequence batch seq =
     batch\<lparr>wb_rep := put_at 0 (ldb_fixed64_write seq) (wb_rep batch)\<rparr>"

text \<open>\<open>ldb_buffer_resize\<close> to the header size and \<open>memset\<close>: every byte of the result is 0.\<close>

definition ldb_batch_reset :: "ldb_batch \<Rightarrow> ldb_batch" where
  "ldb_batch_reset batch = batch\<lparr>wb_rep := replicate LDB_HEADER 0\<rparr>"

definition ldb_batch_init :: ldb_batch where
  "ldb_batch_init = ldb_batch_reset \<lparr>wb_rep = []\<rparr>"

definition ldb_batch_approximate_size :: "ldb_batch \<Rightarrow> nat" where
  "ldb_batch_approximate_size batch = length (wb_rep batch)"

text \<open>The loop of \<open>ldb_batch_iterate\<close>; the second component tells whether and how often it got to the end.\<close>

function batch_loop :: "'s ldb_handler \<Rightarrow> bytes \<Rightarrow> 's \<Rightarrow> int \<Rightarrow> (status \<times> int) \<times> 's" where
  "batch_loop handler [] s found = ((OK, found), s)"
| "batch_loop handler (tag # input) s found =
     (if tag = 1 then
        (case ldb_slice_slurp input of None \<Rightarrow> ((CORRUPTION, found + 1), s)
         | Some (key, input') \<Rightarrow>
             (case ldb_slice_slurp input' of None \<Rightarrow> ((CORRUPTION, found + 1), s)
              | Some (value, input'') \<Rightarrow>
                  batch_loop handler input'' (h_put handler s key value) (found + 1)))
      else if tag = 0 then
        (case ldb_slice_slurp input of None \<Rightarrow> ((CORRUPTION, found + 1), s)
         | Some (key, input') \<Rightarrow> batch_loop handler input' (h_del handler s key) (found + 1))
      else ((CORRUPTION, found + 1), s))"
  by pat_completeness auto
termination
  by (relation "measure (\<lambda>(handler, input, s, found). length input)")
    (auto simp: ldb_slice_slurp_def dest!: slice.dec_shrinks)

definition ldb_batch_iterate :: "ldb_batch \<Rightarrow> 's ldb_handler \<Rightarrow> 's \<Rightarrow> status \<times> 's" where
  "ldb_batch_iterate batch handler s =
     (let input = wb_rep batch in
      if length input < LDB_HEADER then (CORRUPTION, s)
      else case batch_loop handler (ldb_slice_eat input LDB_HEADER) s 0 of
             ((rc, found), s') \<Rightarrow>
               if rc \<noteq> OK then (rc, s')
               else if found \<noteq> ldb_batch_count batch then (CORRUPTION, s') else (OK, s'))"

definition ldb_batch_put :: "ldb_batch \<Rightarrow> bytes \<Rightarrow> bytes \<Rightarrow> ldb_batch" where
  "ldb_batch_put batch key value =
     (let batch = ldb_batch_set_count batch (ldb_batch_count batch + 1);
          rep = wb_rep batch @ [1];
          rep = ldb_slice_export rep key
      in batch\<lparr>wb_rep := ldb_slice_export rep value\<rparr>)"

definition ldb_batch_del :: "ldb_batch \<Rightarrow> bytes \<Rightarrow> ldb_batch" where
  "ldb_batch_del batch key =
     (let batch = ldb_batch_set_count batch (ldb_batch_count batch + 1);
          rep = wb_rep batch @ [0]
      in batch\<lparr>wb_rep := ldb_slice_export rep key\<rparr>)"

definition ldb_batch_append :: "ldb_batch \<Rightarrow> ldb_batch \<Rightarrow> ldb_batch" where
  "ldb_batch_append dst src =
     (let dst = ldb_batch_set_count dst (ldb_batch_count dst + ldb_batch_count src)
      in dst\<lparr>wb_rep := wb_rep dst @ drop LDB_HEADER (wb_rep src)\<rparr>)"

text \<open>The memtable handler: its state is the table and \<open>handler->number\<close>.\<close>

definition memtable_put :: "ldb_memtable option \<times> u64 \<Rightarrow> bytes \<Rightarrow> bytes \<Rightarrow> ldb_memtable option \<times> u64" where
  "memtable_put h key value =
     (case h of (table, seq) \<Rightarrow>
        (Option.bind table (\<lambda>t. ldb_memtable_add t seq TYPE_VALUE key value), seq + 1))"

definition memtable_del :: "ldb_memtable option \<times> u64 \<Rightarrow> bytes \<Rightarrow> ldb_memtable option \<times> u64" where
  "memtable_del h key =
     (case h of (table, seq) \<Rightarrow>
        (Option.bind table (\<lambda>t. ldb_memtable_add t seq TYPE_DELETION key []), seq + 1))"

definition ldb_batch_insert_into :: "ldb_batch \<Rightarrow> ldb_memtable \<Rightarrow> status \<times> ldb_memtable option" where
  "ldb_batch_insert_into batch table =
     (case ldb_batch_iterate batch \<lparr>h_put = memtable_put, h_del = memtable_del\<rparr>
             (Some table, ldb_batch_sequence batch) of
        (rc, table', number) \<Rightarrow> (rc, table'))"

definition ldb_batch_set_contents :: "ldb_batch \<Rightarrow> bytes \<Rightarrow> ldb_batch" where
  "ldb_batch_set_contents batch contents = batch\<lparr>wb_rep := contents\<rparr>"

definition ldb_batch_contents :: "ldb_batch \<Rightarrow> bytes" where
  "ldb_batch_contents batch = wb_rep batch"

section \<open>The operations a batch represents\<close>

datatype batch_op = Put bytes bytes | Del bytes

fun op_ok :: "batch_op \<Rightarrow> bool" where
  "op_ok (Put k v) \<longleftrightarrow> length k + 8 < 2 ^ 32 \<and> length v < 2 ^ 32"
| "op_ok (Del k) \<longleftrightarrow> length k + 8 < 2 ^ 32"

fun op_record :: "batch_op \<Rightarrow> bytes" where
  "op_record (Put k v) = 1 # ldb_slice_write k @ ldb_slice_write v"
| "op_record (Del k) = 0 # ldb_slice_write k"

fun op_apply :: "'s ldb_handler \<Rightarrow> batch_op \<Rightarrow> 's \<Rightarrow> 's" where
  "op_apply h (Put k v) s = h_put h s k v"
| "op_apply h (Del k) s = h_del h s k"

definition batch_bytes :: "u64 \<Rightarrow> batch_op list \<Rightarrow> bytes" where
  "batch_bytes seq ops =
     ldb_fixed64_write seq @ ldb_fixed32_write (word_of_nat (length ops)) @ concat (map op_record ops)"

definition batch_repr :: "ldb_batch \<Rightarrow> u64 \<Rightarrow> batch_op list \<Rightarrow> bool" where
  "batch_repr batch seq ops \<longleftrightarrow>
     wb_rep batch = batch_bytes seq ops \<and> (\<forall>op \<in> set ops. op_ok op) \<and> length ops < 2 ^ 31"

lemma batch_bytes_header:
  "length (ldb_fixed64_write seq) = 8"
  "drop 8 (batch_bytes seq ops) = ldb_fixed32_write (word_of_nat (length ops)) @ concat (map op_record ops)"
  "drop LDB_HEADER (batch_bytes seq ops) = concat (map op_record ops)"
  "ldb_fixed64_decode (batch_bytes seq ops) = seq"
  by (simp_all add: batch_bytes_def LDB_HEADER_def ldb_fixed64_decode_append ldb_fixed64_write_eq)

lemma sint_small: "n < 2 ^ 31 \<Longrightarrow> sint (word_of_nat n :: u32) = int n"
  by (simp add: signed_of_nat signed_take_bit_int_eq_self)

lemma batch_repr_count:
  "batch_repr batch seq ops \<Longrightarrow> ldb_batch_count batch = int (length ops)"
  by (simp add: batch_repr_def ldb_batch_count_def batch_bytes_header ldb_fixed32_write_eq
      ldb_fixed32_decode_append sint_small)

lemma batch_repr_set_count:
  "batch_repr batch seq ops \<Longrightarrow> wb_rep (ldb_batch_set_count batch (int n)) =
     ldb_fixed64_write seq @ ldb_fixed32_write (word_of_nat n) @ concat (map op_record ops)"
  by (simp add: batch_repr_def ldb_batch_set_count_def batch_bytes_def put_at_def)

lemma batch_repr_init: "batch_repr ldb_batch_init 0 []"
proof -
  have "replicate 12 (0 :: byte) = replicate (8 + 4) 0" by simp
  then have "replicate 12 (0 :: byte) = ldb_fixed64_write 0 @ ldb_fixed32_write 0"
    by (simp only: replicate_add) (simp add: ldb_fixed64_write_def ldb_fixed32_write_def eval_nat_numeral)
  then show ?thesis
    by (simp add: batch_repr_def ldb_batch_init_def ldb_batch_reset_def batch_bytes_def LDB_HEADER_def)
qed

lemma batch_repr_put:
  assumes "batch_repr batch seq ops" "op_ok (Put k v)" "length ops + 1 < 2 ^ 31"
  shows "batch_repr (ldb_batch_put batch k v) seq (ops @ [Put k v])"
  using assms batch_repr_count [OF assms(1)] batch_repr_set_count [OF assms(1), of "Suc (length ops)"]
  by (simp add: ldb_batch_put_def Let_def batch_repr_def batch_bytes_def ldb_slice_export_def add.commute)

lemma batch_repr_del:
  assumes "batch_repr batch seq ops" "op_ok (Del k)" "length ops + 1 < 2 ^ 31"
  shows "batch_repr (ldb_batch_del batch k) seq (ops @ [Del k])"
  using assms batch_repr_count [OF assms(1)] batch_repr_set_count [OF assms(1), of "Suc (length ops)"]
  by (simp add: ldb_batch_del_def Let_def batch_repr_def batch_bytes_def ldb_slice_export_def add.commute)

lemma batch_repr_append:
  assumes "batch_repr dst seq ops" "batch_repr src seq' ops'" "length ops + length ops' < 2 ^ 31"
  shows "batch_repr (ldb_batch_append dst src) seq (ops @ ops')"
  using assms batch_repr_count [OF assms(1)] batch_repr_count [OF assms(2)]
    batch_repr_set_count [OF assms(1), of "length ops + length ops'"]
  by (auto simp: ldb_batch_append_def Let_def batch_repr_def batch_bytes_def LDB_HEADER_def)

lemma batch_repr_set_sequence:
  "batch_repr batch seq ops \<Longrightarrow> batch_repr (ldb_batch_set_sequence batch seq') seq' ops"
  by (simp add: batch_repr_def ldb_batch_set_sequence_def batch_bytes_def put_at_def)

section \<open>Decoding\<close>

lemma batch_loop_records:
  "\<forall>op \<in> set ops. op_ok op \<Longrightarrow>
   batch_loop h (concat (map op_record ops) @ rest) s n =
     batch_loop h rest (fold (op_apply h) ops s) (n + int (length ops))"
proof (induction ops arbitrary: s n)
  case (Cons op ops)
  then show ?case
    by (cases op) (simp_all add: ldb_slice_slurp_def ldb_slice_read_write algebra_simps)
qed simp

lemma batch_iterate:
  assumes "batch_repr batch seq ops"
  shows "ldb_batch_iterate batch h s = (OK, fold (op_apply h) ops s)"
proof -
  have "LDB_HEADER \<le> length (wb_rep batch)" using assms by (simp add: batch_repr_def batch_bytes_def LDB_HEADER_def)
  moreover have "batch_loop h (drop LDB_HEADER (wb_rep batch)) s 0 =
      ((OK, int (length ops)), fold (op_apply h) ops s)"
    using assms batch_loop_records [of ops h "[]" s 0] by (simp add: batch_repr_def batch_bytes_header)
  ultimately show ?thesis
    using batch_repr_count [OF assms] by (simp add: ldb_batch_iterate_def Let_def ldb_slice_eat_def)
qed

lemma op_record_truncated:
  assumes "op_ok op" "p @ q = op_record op" "p \<noteq> []" "q \<noteq> []"
  shows "\<exists>n' s'. batch_loop h p s n = ((CORRUPTION, n'), s')"
proof (cases op)
  case (Del k)
  obtain p' where p': "p = 0 # p'" "p' @ q = ldb_slice_write k" using assms Del by (cases p) auto
  then have "ldb_slice_read p' = None" using slice.dec_truncated [OF _ p'(2) assms(4)] assms(1) Del by simp
  then show ?thesis using p'(1) by (simp add: ldb_slice_slurp_def)
next
  case (Put k v)
  obtain p' where p': "p = 1 # p'" "p' @ q = ldb_slice_write k @ ldb_slice_write v"
    using assms Put by (cases p) auto
  have ok: "length k < 2 ^ 32" "length v < 2 ^ 32" using assms(1) Put by simp_all
  from p'(2) show ?thesis
  proof (cases rule: append_cut)
    case (inside r)
    then have "ldb_slice_read p' = None" using slice.dec_truncated [OF ok(1) inside(1,2)] by simp
    then show ?thesis using p'(1) by (simp add: ldb_slice_slurp_def)
  next
    case (past r)
    then have "ldb_slice_read r = None" using slice.dec_truncated [OF ok(2) past(2) assms(4)] by simp
    then show ?thesis using p'(1) past ok(1) by (simp add: ldb_slice_slurp_def ldb_slice_read_write)
  qed
qed

lemma batch_loop_truncated:
  assumes "\<forall>op \<in> set ops. op_ok op" "p @ q = concat (map op_record ops)" "q \<noteq> []"
  shows "\<exists>rc m s'. batch_loop h p s n = ((rc, m), s') \<and> (rc = CORRUPTION \<or> rc = OK \<and> m < n + int (length ops))"
  using assms
proof (induction ops arbitrary: p s n)
  case (Cons op ops)
  have "p @ q = op_record op @ concat (map op_record ops)" using Cons.prems(2) by simp
  then show ?case
  proof (cases rule: append_cut)
    case (inside r)
    then show ?thesis using op_record_truncated [of op p r h s n] Cons.prems(1) by (cases "p = []") auto
  next
    case (past r)
    have "batch_loop h p s n = batch_loop h r (op_apply h op s) (n + 1)"
      using batch_loop_records [of "[op]" h r s n] past(1) Cons.prems(1) by simp
    with Cons.IH [OF _ past(2) Cons.prems(3), of "op_apply h op s" "n + 1"] Cons.prems(1)
    show ?thesis by auto
  qed
qed simp

lemma batch_iterate_truncated:
  assumes "batch_repr batch seq ops" "n < length (wb_rep batch)"
  shows "fst (ldb_batch_iterate (batch\<lparr>wb_rep := take n (wb_rep batch)\<rparr>) h s) = CORRUPTION"
proof (cases "n < LDB_HEADER")
  case True
  then show ?thesis by (simp add: ldb_batch_iterate_def Let_def min.strict_coboundedI2)
next
  case False
  let ?recs = "concat (map op_record ops)"
  have rep: "wb_rep batch = batch_bytes seq ops" and ok: "\<forall>op \<in> set ops. op_ok op" and len: "length ops < 2 ^ 31"
    using assms(1) by (simp_all add: batch_repr_def)
  have drop: "drop LDB_HEADER (take n (wb_rep batch)) = take (n - LDB_HEADER) ?recs"
    by (simp only: drop_take rep batch_bytes_header)
  have "n - LDB_HEADER < length ?recs"
    using False assms(2) unfolding rep by (simp add: batch_bytes_def LDB_HEADER_def)
  then have "drop (n - LDB_HEADER) ?recs \<noteq> []" by simp
  then obtain rc m s' where loop: "batch_loop h (take (n - LDB_HEADER) ?recs) s 0 = ((rc, m), s')"
    "rc = CORRUPTION \<or> rc = OK \<and> m < int (length ops)"
    using batch_loop_truncated [OF ok append_take_drop_id, of "n - LDB_HEADER" h s 0] by auto
  have "ldb_batch_count (batch\<lparr>wb_rep := take n (wb_rep batch)\<rparr>) = int (length ops)"
    using False len unfolding rep
    by (simp add: ldb_batch_count_def batch_bytes_def LDB_HEADER_def take_append drop_append
        ldb_fixed32_write_eq ldb_fixed32_decode_append sint_small)
  then show ?thesis
    using False loop assms(2) by (auto simp: ldb_batch_iterate_def Let_def ldb_slice_eat_def drop)
qed

section \<open>Inserting a batch into a memtable\<close>

fun op_updates :: "u64 \<Rightarrow> batch_op list \<Rightarrow> mem_update list" where
  "op_updates seq [] = []"
| "op_updates seq (Put k v # ops) =
     \<lparr>mu_seq = seq, mu_type = TYPE_VALUE, mu_key = k, mu_value = v\<rparr> # op_updates (seq + 1) ops"
| "op_updates seq (Del k # ops) =
     \<lparr>mu_seq = seq, mu_type = TYPE_DELETION, mu_key = k, mu_value = []\<rparr> # op_updates (seq + 1) ops"

lemma memtable_handler:
  "memtable_put (Some t, seq) k v = (ldb_memtable_add t seq TYPE_VALUE k v, seq + 1)"
  "memtable_del (Some t, seq) k = (ldb_memtable_add t seq TYPE_DELETION k [], seq + 1)"
  by (simp_all add: memtable_put_def memtable_del_def)

context user_comparator
begin

lemma mem_apply_ops:
  assumes "mem_holds uc mt us" "\<forall>op \<in> set ops. op_ok op" "\<forall>u \<in> set us. unat (mu_seq u) < unat seq"
    "unat seq + length ops \<le> 2 ^ 56"
  shows "\<exists>mt' n. fold (op_apply \<lparr>h_put = memtable_put, h_del = memtable_del\<rparr>) ops (Some mt, seq) = (Some mt', n) \<and>
    mem_holds uc mt' (us @ op_updates seq ops)"
  using assms
proof (induction ops arbitrary: mt us seq)
  case (Cons op ops)
  define u where "u = (case op of Put k v \<Rightarrow> \<lparr>mu_seq = seq, mu_type = TYPE_VALUE, mu_key = k, mu_value = v\<rparr>
    | Del k \<Rightarrow> \<lparr>mu_seq = seq, mu_type = TYPE_DELETION, mu_key = k, mu_value = []\<rparr>)"
  have seq: "mu_seq u = seq" by (simp add: u_def split: batch_op.splits)
  have "seq \<le> MAX_SEQUENCE" using Cons.prems(4) MAX_SEQUENCE_eq by (simp add: word_le_nat_alt)
  then have "update_ok u" using Cons.prems(2) by (auto simp: u_def update_ok_def split: batch_op.splits)
  moreover have "mu_seq u \<notin> mu_seq ` set us" using Cons.prems(3) by (auto simp: seq)
  ultimately obtain mt1 where mt1: "ldb_memtable_add mt seq (mu_type u) (mu_key u) (mu_value u) = Some mt1"
    "mem_holds uc mt1 (us @ [u])"
    using mem_add [OF Cons.prems(1)] seq by metis
  have "unat (seq + 1) = unat seq + 1" using Cons.prems(4) by (simp add: unat_word_ariths)
  then have "\<exists>mt' n. fold (op_apply \<lparr>h_put = memtable_put, h_del = memtable_del\<rparr>) ops (Some mt1, seq + 1) = (Some mt', n) \<and>
      mem_holds uc mt' ((us @ [u]) @ op_updates (seq + 1) ops)"
    using Cons.prems seq by (intro Cons.IH [OF mt1(2)]) auto
  with mt1(1) show ?case
    by (cases op) (simp_all add: u_def memtable_handler)
qed simp

lemma batch_insert:
  assumes "mem_holds uc mt us" "batch_repr batch seq ops" "\<forall>u \<in> set us. mu_seq u < seq"
    "unat seq + length ops \<le> 2 ^ 56"
  shows "\<exists>mt'. ldb_batch_insert_into batch mt = (OK, Some mt') \<and> mem_holds uc mt' (us @ op_updates seq ops)"
proof -
  have "ldb_batch_sequence batch = seq"
    using assms(2) by (simp add: ldb_batch_sequence_def batch_repr_def batch_bytes_header)
  moreover have "\<forall>u \<in> set us. unat (mu_seq u) < unat seq" using assms(3) by (simp add: word_less_nat_alt)
  ultimately show ?thesis
    using mem_apply_ops [OF assms(1) _ _ assms(4)] assms(2)
    by (auto simp: ldb_batch_insert_into_def batch_iterate [OF assms(2)] batch_repr_def split: prod.splits)
qed

end

section \<open>Properties\<close>

text \<open>Batches as clients build them, with the operations put into them so far.\<close>

inductive batch_built :: "ldb_batch \<Rightarrow> batch_op list \<Rightarrow> bool" where
  init: "batch_built ldb_batch_init []"
| reset: "batch_built batch ops \<Longrightarrow> batch_built (ldb_batch_reset batch) []"
| put: "batch_built batch ops \<Longrightarrow> batch_built (ldb_batch_put batch k v) (ops @ [Put k v])"
| del: "batch_built batch ops \<Longrightarrow> batch_built (ldb_batch_del batch k) (ops @ [Del k])"
| append: "batch_built batch ops \<Longrightarrow> batch_built src ops' \<Longrightarrow> batch_built (ldb_batch_append batch src) (ops @ ops')"
| set_sequence: "batch_built batch ops \<Longrightarrow> batch_built (ldb_batch_set_sequence batch seq) ops"

lemma batch_built_repr:
  "batch_built batch ops \<Longrightarrow> \<forall>op \<in> set ops. op_ok op \<Longrightarrow> length ops < 2 ^ 31 \<Longrightarrow> \<exists>seq. batch_repr batch seq ops"
proof (induction rule: batch_built.induct)
  case (reset batch ops)
  then show ?case using batch_repr_init by (auto simp: ldb_batch_init_def ldb_batch_reset_def batch_repr_def)
next
  case (put batch ops k v)
  then show ?case using batch_repr_put [of batch _ ops k v] by auto
next
  case (del batch ops k)
  then show ?case using batch_repr_del [of batch _ ops k] by auto
next
  case (append batch ops src ops')
  then show ?case using batch_repr_append [of batch _ ops src _ ops'] by auto
next
  case (set_sequence batch ops seq)
  then show ?case using batch_repr_set_sequence by blast
qed (use batch_repr_init in blast)

text \<open>C23: a batch that is built by any sequence of puts, deletions, appends of other batches, resets and
  changes of its sequence number, in any order and nesting, represents exactly the operations put
  into it: its count is their number, and iterating it succeeds and calls the handler once per
  operation, in order.\<close>

theorem batch_iterate_ok:
  assumes "batch_built batch ops" "\<forall>op \<in> set ops. op_ok op" "length ops < 2 ^ 31"
  shows "ldb_batch_iterate batch h s = (OK, fold (op_apply h) ops s) \<and> ldb_batch_count batch = int (length ops)"
proof -
  obtain seq where "batch_repr batch seq ops" using batch_built_repr [OF assms] by blast
  from batch_iterate [OF this] batch_repr_count [OF this] show ?thesis by simp
qed

theorem batch_iterate_ok_witness:
  "ldb_batch_iterate (ldb_batch_append (ldb_batch_del (ldb_batch_put ldb_batch_init [97] [1]) [97]) (ldb_batch_put ldb_batch_init [98] []))
     \<lparr>h_put = \<lambda>s k v. s @ [(k, Some v)], h_del = \<lambda>s k. s @ [(k, None)]\<rparr> [] =
   (OK, [([97], Some [1]), ([97], None), ([98], Some [])])"
proof -
  have "batch_built (ldb_batch_append (ldb_batch_del (ldb_batch_put ldb_batch_init [97] [1]) [97]) (ldb_batch_put ldb_batch_init [98] []))
      ((([] @ [Put [97] [1]]) @ [Del [97]]) @ ([] @ [Put [98] []]))"
    by (intro batch_built.intros)
  from batch_iterate_ok [OF this, of "\<lparr>h_put = \<lambda>s k v. s @ [(k, Some v)], h_del = \<lambda>s k. s @ [(k, None)]\<rparr>" "[]"]
  show ?thesis by simp
qed

text \<open>C24: a batch that was cut short anywhere, in its header, inside a record or between two
  records, is reported as corrupt.\<close>

theorem batch_truncation_detected:
  assumes "batch_repr batch seq ops" "n < length (wb_rep batch)"
  shows "fst (ldb_batch_iterate (batch\<lparr>wb_rep := take n (wb_rep batch)\<rparr>) h s) = CORRUPTION"
  using batch_iterate_truncated [OF assms] .

theorem batch_truncation_detected_witness:
  "fst (ldb_batch_iterate (ldb_batch_init\<lparr>wb_rep := take 11 (wb_rep ldb_batch_init)\<rparr>)
     \<lparr>h_put = \<lambda>s k v. s @ [k], h_del = \<lambda>s k. s @ [k]\<rparr> []) = CORRUPTION"
  using batch_truncation_detected [OF batch_repr_init, of 11]
  by (simp add: ldb_batch_init_def ldb_batch_reset_def LDB_HEADER_def)

text \<open>C18: inserting a batch into a memtable whose updates are all older succeeds and adds exactly
  the operations of the batch, in order, with consecutive sequence numbers from the
  batch's own.\<close>

theorem batch_insert_into_ok:
  assumes "user_comparator uc" "mem_holds uc mt us" "batch_repr batch seq ops" "\<forall>u \<in> set us. mu_seq u < seq"
    "unat seq + length ops \<le> 2 ^ 56"
  shows "\<exists>mt'. ldb_batch_insert_into batch mt = (OK, Some mt') \<and> mem_holds uc mt' (us @ op_updates seq ops)"
  using user_comparator.batch_insert [OF assms] .

theorem batch_insert_into_ok_witness:
  "\<exists>mt'. ldb_batch_insert_into (ldb_batch_put ldb_batch_init [97] [1])
      (ldb_memtable_create (ldb_ikc_init bytewise_comparator)) = (OK, Some mt') \<and>
    mem_holds bytewise_comparator mt' [\<lparr>mu_seq = 0, mu_type = TYPE_VALUE, mu_key = [97], mu_value = [1]\<rparr>]"
proof -
  have "batch_repr (ldb_batch_put ldb_batch_init [97] [1]) 0 [Put [97] [1]]"
    using batch_repr_put [OF batch_repr_init, of "[97]" "[1]"] by simp
  from batch_insert_into_ok [OF bytewise_uc.user_comparator_axioms bytewise_uc.mem_init this] show ?thesis by simp
qed

end
