(* ===== verification/Log.thy ===== *)
theory Log
  imports Crc32c
begin

text \<open>
  The write-ahead log: \<^verbatim>\<open>engine/src/log_format.h\<close>, \<^verbatim>\<open>log_writer.c\<close> and \<^verbatim>\<open>log_reader.c\<close>.  A
  logical record is cut into physical records that never cross a 32768-byte block;
  a block's trailer too short for a header is filled with zeroes.  Writer and
  reader run on a buffer (\<open>dst\<close>, \<open>src\<close>) or on a file whose operations are
  arguments.  The main result is what recovery relies on: reading any prefix of a
  log returns exactly the records that are completely in it and reports nothing.
\<close>

definition LDB_TYPE_ZERO :: nat where "LDB_TYPE_ZERO = 0"
definition LDB_TYPE_FULL :: nat where "LDB_TYPE_FULL = 1"
definition LDB_TYPE_FIRST :: nat where "LDB_TYPE_FIRST = 2"
definition LDB_TYPE_MIDDLE :: nat where "LDB_TYPE_MIDDLE = 3"
definition LDB_TYPE_LAST :: nat where "LDB_TYPE_LAST = 4"
definition LDB_MAX_RECTYPE :: nat where "LDB_MAX_RECTYPE = LDB_TYPE_LAST"
definition LDB_EOF :: nat where "LDB_EOF = LDB_MAX_RECTYPE + 1"
definition LDB_BAD_RECORD :: nat where "LDB_BAD_RECORD = LDB_MAX_RECTYPE + 2"
definition LDB_BLOCK_SIZE :: nat where "LDB_BLOCK_SIZE = 32768"
definition LDB_HEADER_SIZE :: nat where "LDB_HEADER_SIZE = 7"

lemmas log_consts = LDB_TYPE_ZERO_def LDB_TYPE_FULL_def LDB_TYPE_FIRST_def LDB_TYPE_MIDDLE_def
  LDB_TYPE_LAST_def LDB_MAX_RECTYPE_def LDB_EOF_def LDB_BAD_RECORD_def

lemmas log_sizes = LDB_BLOCK_SIZE_def LDB_HEADER_SIZE_def

section \<open>The writer\<close>

text \<open>The operations of a writable file: \<open>ldb_wfile_append\<close> and \<open>ldb_wfile_flush\<close>.\<close>

record 'f wfile_ops =
  wf_append :: "'f \<Rightarrow> bytes \<Rightarrow> status \<times> 'f"
  wf_flush :: "'f \<Rightarrow> status \<times> 'f"

record 'f ldb_writer =
  lw_file :: 'f
  lw_dst :: "bytes option"
  lw_block_offset :: nat
  lw_type_crc :: "u32 list"

definition init_type_crc :: "u32 list" where
  "init_type_crc = map (\<lambda>i. ldb_crc32c_value [word_of_nat i]) [0..<LDB_MAX_RECTYPE + 1]"

definition ldb_writer_init :: "'f \<Rightarrow> u64 \<Rightarrow> 'f ldb_writer" where
  "ldb_writer_init file len =
     \<lparr>lw_file = file, lw_dst = None, lw_block_offset = unat len mod LDB_BLOCK_SIZE, lw_type_crc = init_type_crc\<rparr>"

definition record_header :: "u32 list \<Rightarrow> nat \<Rightarrow> bytes \<Rightarrow> bytes" where
  "record_header type_crc type ptr =
     (let crc = ldb_crc32c_mask (ldb_crc32c_extend (type_crc ! type) ptr)
      in ldb_fixed32_write crc @ [word_of_nat (length ptr), word_of_nat (length ptr div 256), word_of_nat type])"

definition emit_physical_record ::
  "'f wfile_ops \<Rightarrow> 'f ldb_writer \<Rightarrow> nat \<Rightarrow> bytes \<Rightarrow> status \<times> 'f ldb_writer" where
  "emit_physical_record ops lw type ptr =
     (let buf = record_header (lw_type_crc lw) type ptr;
          (rc, lw) =
            (case lw_dst lw of
               Some dst \<Rightarrow> (OK, lw\<lparr>lw_dst := Some (dst @ buf @ ptr)\<rparr>)
             | None \<Rightarrow>
                 (case wf_append ops (lw_file lw) buf of
                    (rc, file) \<Rightarrow>
                      if rc = OK then
                        (case wf_append ops file ptr of
                           (rc, file) \<Rightarrow>
                             if rc = OK then
                               (case wf_flush ops file of (rc, file) \<Rightarrow> (rc, lw\<lparr>lw_file := file\<rparr>))
                             else (rc, lw\<lparr>lw_file := file\<rparr>))
                      else (rc, lw\<lparr>lw_file := file\<rparr>)))
      in (rc, lw\<lparr>lw_block_offset := lw_block_offset lw + LDB_HEADER_SIZE + length ptr\<rparr>))"

text \<open>The start of the loop body: fill a trailer that has no room for a header.\<close>

definition switch_block :: "'f wfile_ops \<Rightarrow> 'f ldb_writer \<Rightarrow> 'f ldb_writer" where
  "switch_block ops lw =
     (let leftover = LDB_BLOCK_SIZE - lw_block_offset lw in
      if leftover < LDB_HEADER_SIZE then
        (let padding = replicate leftover 0;
             lw = (if leftover > 0 then
                     (case lw_dst lw of
                        Some dst \<Rightarrow> lw\<lparr>lw_dst := Some (dst @ padding)\<rparr>
                      | None \<Rightarrow> lw\<lparr>lw_file := snd (wf_append ops (lw_file lw) padding)\<rparr>)
                   else lw)
         in lw\<lparr>lw_block_offset := 0\<rparr>)
      else lw)"

definition record_type :: "bool \<Rightarrow> bool \<Rightarrow> nat" where
  "record_type beg end =
     (if beg \<and> end then LDB_TYPE_FULL else if beg then LDB_TYPE_FIRST
      else if end then LDB_TYPE_LAST else LDB_TYPE_MIDDLE)"

lemma emit_physical_record_offset [simp]:
  "lw_block_offset (snd (emit_physical_record ops lw type ptr)) =
     lw_block_offset lw + LDB_HEADER_SIZE + length ptr"
  by (simp add: emit_physical_record_def Let_def split: option.splits prod.splits)

lemma switch_block_offset [simp]:
  "lw_block_offset (switch_block ops lw) =
     (if LDB_BLOCK_SIZE - lw_block_offset lw < LDB_HEADER_SIZE then 0 else lw_block_offset lw)"
  by (simp add: switch_block_def Let_def)

function add_record_loop :: "'f wfile_ops \<Rightarrow> 'f ldb_writer \<Rightarrow> bytes \<Rightarrow> bool \<Rightarrow> status \<times> 'f ldb_writer" where
  "add_record_loop ops lw ptr beg =
     (let lw = switch_block ops lw;
          avail = LDB_BLOCK_SIZE - lw_block_offset lw - LDB_HEADER_SIZE;
          fragment_length = (if length ptr < avail then length ptr else avail);
          end = (length ptr = fragment_length)
      in case emit_physical_record ops lw (record_type beg end) (take fragment_length ptr) of
           (rc, lw) \<Rightarrow>
             if rc = OK \<and> length ptr - fragment_length > 0
             then add_record_loop ops lw (drop fragment_length ptr) False
             else (rc, lw))"
  by pat_completeness auto
termination
proof (relation "measure (\<lambda>(ops, lw, ptr, beg).
    2 * length ptr + (if LDB_BLOCK_SIZE - lw_block_offset lw = LDB_HEADER_SIZE then 1 else 0))", simp, goal_cases)
  case (1 ops lw ptr beg lw1 avail frag fin rc lw2)
  have "lw_block_offset lw2 = lw_block_offset lw1 + LDB_HEADER_SIZE + length (take frag ptr)"
    using 1 emit_physical_record_offset by (metis snd_conv)
  then show ?case using 1 by (auto simp: log_sizes split: if_splits)
qed

declare add_record_loop.simps [simp del]

definition ldb_writer_add_record :: "'f wfile_ops \<Rightarrow> 'f ldb_writer \<Rightarrow> bytes \<Rightarrow> status \<times> 'f ldb_writer" where
  "ldb_writer_add_record ops lw data = add_record_loop ops lw data True"

section \<open>The reader\<close>

text \<open>The operations of a sequential file: \<open>ldb_rfile_read\<close> and \<open>ldb_rfile_skip\<close>.\<close>

record 'f rfile_ops =
  rf_read :: "'f \<Rightarrow> nat \<Rightarrow> status \<times> bytes \<times> 'f"
  rf_skip :: "'f \<Rightarrow> u64 \<Rightarrow> status \<times> 'f"

text \<open>
  \<open>lr_reporter\<close> is \<open>None\<close> without a reporter and otherwise the reports made so far,
  the number of dropped bytes and the status.
\<close>

record 'f ldb_reader =
  lr_file :: 'f
  lr_src :: "bytes option"
  lr_error :: status
  lr_reporter :: "(u64 \<times> status) list option"
  lr_checksum :: bool
  lr_buffer :: bytes
  lr_eof :: bool
  lr_last_offset :: u64
  lr_end_offset :: u64
  lr_initial_offset :: u64
  lr_resyncing :: bool

definition ldb_reader_init :: "'f \<Rightarrow> (u64 \<times> status) list option \<Rightarrow> bool \<Rightarrow> u64 \<Rightarrow> 'f ldb_reader" where
  "ldb_reader_init file reporter checksum initial_offset =
     \<lparr>lr_file = file, lr_src = None, lr_error = OK, lr_reporter = reporter, lr_checksum = checksum,
      lr_buffer = [], lr_eof = False, lr_last_offset = 0, lr_end_offset = 0,
      lr_initial_offset = initial_offset, lr_resyncing = (initial_offset > 0)\<rparr>"

definition report_drop :: "'f ldb_reader \<Rightarrow> u64 \<Rightarrow> status \<Rightarrow> 'f ldb_reader" where
  "report_drop lr n reason =
     (case lr_reporter lr of
        Some reports \<Rightarrow>
          if lr_end_offset lr - word_of_nat (length (lr_buffer lr)) - n \<ge> lr_initial_offset lr
          then lr\<lparr>lr_reporter := Some (reports @ [(n, reason)])\<rparr> else lr
      | None \<Rightarrow> lr)"

definition report_corruption :: "'f ldb_reader \<Rightarrow> u64 \<Rightarrow> 'f ldb_reader" where
  "report_corruption lr n = report_drop lr n CORRUPTION"

definition read_block :: "'f rfile_ops \<Rightarrow> 'f ldb_reader \<Rightarrow> status \<times> 'f ldb_reader" where
  "read_block ops lr =
     (let lr = lr\<lparr>lr_buffer := []\<rparr> in
      if lr_error lr \<noteq> OK then (lr_error lr, lr)
      else case lr_src lr of
             Some src \<Rightarrow>
               (let nread = min LDB_BLOCK_SIZE (length src)
                in (OK, lr\<lparr>lr_buffer := take nread src, lr_src := Some (drop nread src)\<rparr>))
           | None \<Rightarrow>
               (case rf_read ops (lr_file lr) LDB_BLOCK_SIZE of
                  (rc, buf, file) \<Rightarrow> (rc, lr\<lparr>lr_buffer := buf, lr_file := file\<rparr>)))"

text \<open>
  The loop of \<open>read_physical_record\<close>.  The result is the type or one of the special
  values, the fragment when it is set, and the reader.
\<close>

function read_physical_record :: "'f rfile_ops \<Rightarrow> 'f ldb_reader \<Rightarrow> nat \<times> bytes option \<times> 'f ldb_reader" where
  "read_physical_record ops lr =
     (if length (lr_buffer lr) < LDB_HEADER_SIZE then
        (if \<not> lr_eof lr then
           (case read_block ops lr of
              (rc, lr) \<Rightarrow>
                let lr = lr\<lparr>lr_end_offset := lr_end_offset lr + word_of_nat (length (lr_buffer lr))\<rparr> in
                if rc \<noteq> OK then
                  (LDB_EOF, None,
                   (report_drop (lr\<lparr>lr_buffer := []\<rparr>) (word_of_nat LDB_BLOCK_SIZE) rc)\<lparr>lr_eof := True\<rparr>)
                else if length (lr_buffer lr) < LDB_BLOCK_SIZE
                then read_physical_record ops (lr\<lparr>lr_eof := True\<rparr>)
                else read_physical_record ops lr)
         else (LDB_EOF, None, lr\<lparr>lr_buffer := []\<rparr>))
      else
        (let header = lr_buffer lr;
             type = unat (header ! 6);
             len = unat (header ! 4) + unat (header ! 5) * 256
         in if LDB_HEADER_SIZE + len > length (lr_buffer lr) then
              (let drop_size = word_of_nat (length (lr_buffer lr)); lr = lr\<lparr>lr_buffer := []\<rparr>
               in if \<not> lr_eof lr then (LDB_BAD_RECORD, None, report_corruption lr drop_size)
                  else (LDB_EOF, None, lr))
            else if type = LDB_TYPE_ZERO \<and> len = 0 then (LDB_BAD_RECORD, None, lr\<lparr>lr_buffer := []\<rparr>)
            else if lr_checksum lr \<and>
                    ldb_crc32c_value (take (1 + len) (drop 6 header)) \<noteq>
                    ldb_crc32c_unmask (ldb_fixed32_decode header) then
              (let drop_size = word_of_nat (length (lr_buffer lr)); lr = lr\<lparr>lr_buffer := []\<rparr>
               in (LDB_BAD_RECORD, None, report_corruption lr drop_size))
            else
              (let lr = lr\<lparr>lr_buffer := ldb_slice_eat (lr_buffer lr) (LDB_HEADER_SIZE + len)\<rparr>
               in if lr_end_offset lr - word_of_nat (length (lr_buffer lr)) - word_of_nat LDB_HEADER_SIZE
                     - word_of_nat len < lr_initial_offset lr
                  then (LDB_BAD_RECORD, Some [], lr)
                  else (type, Some (take len (drop LDB_HEADER_SIZE header)), lr))))"
  by pat_completeness auto
termination
  by (relation "measure (\<lambda>(ops, lr). if lr_eof lr then 0
        else if length (lr_buffer lr) < LDB_HEADER_SIZE then 2 else 1)")
    (auto simp: log_sizes)

declare read_physical_record.simps [simp del]

definition skip_to_initial_block :: "'f rfile_ops \<Rightarrow> 'f ldb_reader \<Rightarrow> bool \<times> 'f ldb_reader" where
  "skip_to_initial_block ops lr =
     (let offset_in_block = lr_initial_offset lr mod word_of_nat LDB_BLOCK_SIZE;
          block_start = lr_initial_offset lr - offset_in_block;
          block_start = (if offset_in_block > word_of_nat LDB_BLOCK_SIZE - 6
                         then block_start + word_of_nat LDB_BLOCK_SIZE else block_start);
          lr = lr\<lparr>lr_end_offset := block_start\<rparr>
      in if block_start > 0 then
           (case (case lr_src lr of
                    Some src \<Rightarrow> (OK, lr\<lparr>lr_src := Some (drop (min (unat block_start) (length src)) src)\<rparr>)
                  | None \<Rightarrow> (case rf_skip ops (lr_file lr) block_start of
                               (rc, file) \<Rightarrow> (rc, lr\<lparr>lr_file := file\<rparr>))) of
              (rc, lr) \<Rightarrow> if rc \<noteq> OK then (False, report_drop lr block_start rc) else (True, lr))
         else (True, lr))"

text \<open>
  The loop of \<open>ldb_reader_read_record\<close>: \<open>Some record\<close> for 1, \<open>None\<close> for 0.  The offset of the
  fragment, \<open>physical_offset\<close>, is only used where the fragment is set.
\<close>

definition physical_offset :: "'f ldb_reader \<Rightarrow> bytes \<Rightarrow> u64" where
  "physical_offset lr fragment =
     lr_end_offset lr - word_of_nat (length (lr_buffer lr)) - word_of_nat LDB_HEADER_SIZE
       - word_of_nat (length fragment)"

partial_function (option) read_record_loop ::
  "'f rfile_ops \<Rightarrow> 'f ldb_reader \<Rightarrow> u64 \<Rightarrow> bool \<Rightarrow> bytes \<Rightarrow> (bytes option \<times> 'f ldb_reader) option" where
  "read_record_loop ops lr prospective_offset in_fragmented scratch =
     (case read_physical_record ops lr of
        (rtype, frag, lr) \<Rightarrow>
          let fragment = the frag; resync = lr_resyncing lr;
              lr = (if resync \<and> rtype \<noteq> LDB_TYPE_MIDDLE then lr\<lparr>lr_resyncing := False\<rparr> else lr)
          in if resync \<and> (rtype = LDB_TYPE_MIDDLE \<or> rtype = LDB_TYPE_LAST) then
               read_record_loop ops lr prospective_offset in_fragmented scratch
             else if rtype = LDB_TYPE_FULL then
               (let lr = (if in_fragmented \<and> scratch \<noteq> []
                          then report_corruption lr (word_of_nat (length scratch)) else lr)
                in Some (Some fragment, lr\<lparr>lr_last_offset := physical_offset lr fragment\<rparr>))
             else if rtype = LDB_TYPE_FIRST then
               (let lr = (if in_fragmented \<and> scratch \<noteq> []
                          then report_corruption lr (word_of_nat (length scratch)) else lr)
                in read_record_loop ops lr (physical_offset lr fragment) True fragment)
             else if rtype = LDB_TYPE_MIDDLE then
               (if \<not> in_fragmented
                then read_record_loop ops (report_corruption lr (word_of_nat (length fragment)))
                       prospective_offset in_fragmented scratch
                else read_record_loop ops lr prospective_offset in_fragmented (scratch @ fragment))
             else if rtype = LDB_TYPE_LAST then
               (if \<not> in_fragmented
                then read_record_loop ops (report_corruption lr (word_of_nat (length fragment)))
                       prospective_offset in_fragmented scratch
                else Some (Some (scratch @ fragment), lr\<lparr>lr_last_offset := prospective_offset\<rparr>))
             else if rtype = LDB_EOF then Some (None, lr)
             else if rtype = LDB_BAD_RECORD then
               (if in_fragmented
                then read_record_loop ops (report_corruption lr (word_of_nat (length scratch)))
                       prospective_offset False []
                else read_record_loop ops lr prospective_offset in_fragmented scratch)
             else
               read_record_loop ops
                 (report_corruption lr (word_of_nat (length fragment + (if in_fragmented then length scratch else 0))))
                 prospective_offset False [])"

declare read_record_loop.simps [code]

definition ldb_reader_read_record :: "'f rfile_ops \<Rightarrow> 'f ldb_reader \<Rightarrow> (bytes option \<times> 'f ldb_reader) option" where
  "ldb_reader_read_record ops lr =
     (if lr_last_offset lr < lr_initial_offset lr then
        (case skip_to_initial_block ops lr of
           (ok, lr) \<Rightarrow> if \<not> ok then Some (None, lr) else read_record_loop ops lr 0 False [])
      else read_record_loop ops lr 0 False [])"

section \<open>The byte stream the writer produces\<close>

text \<open>A physical record, and the padding and offset in front of it at block offset \<open>off\<close>.\<close>

definition phys_bytes :: "nat \<Rightarrow> bytes \<Rightarrow> bytes" where
  "phys_bytes type d = record_header init_type_crc type d @ d"

definition block_pad :: "nat \<Rightarrow> bytes" where
  "block_pad off = (if LDB_BLOCK_SIZE - off < LDB_HEADER_SIZE then replicate (LDB_BLOCK_SIZE - off) 0 else [])"

definition block_start :: "nat \<Rightarrow> nat" where
  "block_start off = (if LDB_BLOCK_SIZE - off < LDB_HEADER_SIZE then 0 else off)"

definition frag_len :: "nat \<Rightarrow> bytes \<Rightarrow> nat" where
  "frag_len off d = min (length d) (LDB_BLOCK_SIZE - block_start off - LDB_HEADER_SIZE)"

text \<open>The bytes of a logical record and the block offset after it.\<close>

function rec_bytes :: "nat \<Rightarrow> bool \<Rightarrow> bytes \<Rightarrow> bytes" where
  "rec_bytes off beg d =
     (let n = frag_len off d; fin = (length d = n);
          now = block_pad off @ phys_bytes (record_type beg fin) (take n d)
      in if fin then now else now @ rec_bytes (block_start off + LDB_HEADER_SIZE + n) False (drop n d))"
  by pat_completeness auto
termination
  by (relation "measure (\<lambda>(off, beg, d). 2 * length d + (if LDB_BLOCK_SIZE - off = LDB_HEADER_SIZE then 1 else 0))")
    (auto simp: log_sizes frag_len_def block_start_def split: if_splits)

function rec_end :: "nat \<Rightarrow> bytes \<Rightarrow> nat" where
  "rec_end off d =
     (let n = frag_len off d; off' = block_start off + LDB_HEADER_SIZE + n
      in if length d = n then off' else rec_end off' (drop n d))"
  by pat_completeness auto
termination
  by (relation "measure (\<lambda>(off, d). 2 * length d + (if LDB_BLOCK_SIZE - off = LDB_HEADER_SIZE then 1 else 0))")
    (auto simp: log_sizes frag_len_def block_start_def split: if_splits)

declare rec_bytes.simps [simp del] rec_end.simps [simp del]

fun log_bytes :: "nat \<Rightarrow> bytes list \<Rightarrow> bytes" where
  "log_bytes off [] = []"
| "log_bytes off (d # ds) = rec_bytes off True d @ log_bytes (rec_end off d) ds"

lemma block_start_bound: "off \<le> LDB_BLOCK_SIZE \<Longrightarrow> block_start off + LDB_HEADER_SIZE \<le> LDB_BLOCK_SIZE"
  by (auto simp: block_start_def log_sizes)

lemma frag_fits: "off \<le> LDB_BLOCK_SIZE \<Longrightarrow> block_start off + LDB_HEADER_SIZE + frag_len off d \<le> LDB_BLOCK_SIZE"
  using block_start_bound [of off] by (auto simp: frag_len_def)

lemma length_record_header [simp]: "length (record_header c t d) = LDB_HEADER_SIZE"
  by (simp add: record_header_def Let_def LDB_HEADER_SIZE_def)

lemma length_phys_bytes [simp]: "length (phys_bytes t d) = LDB_HEADER_SIZE + length d"
  by (simp add: phys_bytes_def)

section \<open>Writing\<close>

text \<open>What the writer has put out so far.\<close>

definition log_output :: "('f \<Rightarrow> bytes) \<Rightarrow> 'f ldb_writer \<Rightarrow> bytes" where
  "log_output content lw = (case lw_dst lw of Some dst \<Rightarrow> dst | None \<Rightarrow> content (lw_file lw))"

text \<open>
  What the log writer relies on of a file: an append that succeeds adds the data
  at the end, flushing changes nothing a reader of the whole file sees.  A reliable
  file never fails.
\<close>

locale reliable_file =
  fixes ops :: "'f wfile_ops" and content :: "'f \<Rightarrow> bytes"
  assumes append_ok: "wf_append ops f d = (rc, f') \<Longrightarrow> rc = OK \<and> content f' = content f @ d"
    and flush_ok: "wf_flush ops f = (rc, f') \<Longrightarrow> rc = OK \<and> content f' = content f"
begin

lemma emit_ok:
  assumes "lw_type_crc lw = init_type_crc"
  shows "\<exists>lw'. emit_physical_record ops lw t d = (OK, lw') \<and> lw_type_crc lw' = init_type_crc \<and>
    log_output content lw' = log_output content lw @ phys_bytes t d \<and>
    lw_block_offset lw' = lw_block_offset lw + LDB_HEADER_SIZE + length d"
proof (cases "lw_dst lw")
  case None
  obtain r1 f1 where 1: "wf_append ops (lw_file lw) (record_header (lw_type_crc lw) t d) = (r1, f1)" by fastforce
  obtain r2 f2 where 2: "wf_append ops f1 d = (r2, f2)" by fastforce
  obtain r3 f3 where 3: "wf_flush ops f2 = (r3, f3)" by fastforce
  show ?thesis
    using None assms 1 2 3 append_ok [OF 1] append_ok [OF 2] flush_ok [OF 3]
    by (simp add: emit_physical_record_def Let_def log_output_def phys_bytes_def)
qed (simp add: emit_physical_record_def Let_def log_output_def phys_bytes_def assms)

lemma switch_ok:
  "lw_type_crc (switch_block ops lw) = lw_type_crc lw \<and>
   log_output content (switch_block ops lw) = log_output content lw @ block_pad (lw_block_offset lw) \<and>
   lw_block_offset (switch_block ops lw) = block_start (lw_block_offset lw)"
proof -
  obtain rc f' where f': "wf_append ops (lw_file lw) (replicate (LDB_BLOCK_SIZE - lw_block_offset lw) 0) = (rc, f')"
    by fastforce
  then show ?thesis
    using append_ok [OF f']
    by (auto simp: switch_block_def block_pad_def block_start_def log_output_def Let_def split: option.splits)
qed

lemma add_record_loop_ok:
  "lw_type_crc lw = init_type_crc \<Longrightarrow>
   \<exists>lw'. add_record_loop ops lw d beg = (OK, lw') \<and> lw_type_crc lw' = init_type_crc \<and>
     log_output content lw' = log_output content lw @ rec_bytes (lw_block_offset lw) beg d \<and>
     lw_block_offset lw' = rec_end (lw_block_offset lw) d"
proof (induction "2 * length d + (if LDB_BLOCK_SIZE - lw_block_offset lw = LDB_HEADER_SIZE then 1 else 0 :: nat)"
    arbitrary: lw d beg rule: less_induct)
  case less
  let ?off = "lw_block_offset lw" and ?sw = "switch_block ops lw"
  let ?n = "frag_len ?off d"
  have sw: "lw_type_crc ?sw = init_type_crc" "log_output content ?sw = log_output content lw @ block_pad ?off"
    "lw_block_offset ?sw = block_start ?off" using switch_ok [of lw] less.prems by auto
  have n: "(if length d < LDB_BLOCK_SIZE - block_start ?off - LDB_HEADER_SIZE then length d
      else LDB_BLOCK_SIZE - block_start ?off - LDB_HEADER_SIZE) = ?n"
    by (simp add: frag_len_def)
  obtain lw' where lw': "emit_physical_record ops ?sw (record_type beg (length d = ?n)) (take ?n d) = (OK, lw')"
    "lw_type_crc lw' = init_type_crc"
    "log_output content lw' = log_output content lw @ block_pad ?off @ phys_bytes (record_type beg (length d = ?n)) (take ?n d)"
    "lw_block_offset lw' = block_start ?off + LDB_HEADER_SIZE + ?n"
    using emit_ok [OF sw(1), of "record_type beg (length d = ?n)" "take ?n d"] sw
    by (auto simp: frag_len_def)
  have step: "add_record_loop ops lw d beg =
      (if length d = ?n then (OK, lw') else add_record_loop ops lw' (drop ?n d) False)"
  proof -
    have cond: "(OK = OK \<and> 0 < length d - ?n) = (\<not> length d = ?n)" by (auto simp: frag_len_def)
    show ?thesis
      by (subst add_record_loop.simps) (simp only: Let_def sw(3) n lw'(1) prod.case cond if_not_P if_P split: if_split, simp)
  qed
  show ?case
  proof (cases "length d = ?n")
    case True
    then show ?thesis
      using step lw' by (simp add: rec_bytes.simps [of ?off] rec_end.simps [of ?off] Let_def)
  next
    case False
    have "\<exists>lw2. add_record_loop ops lw' (drop ?n d) False = (OK, lw2) \<and> lw_type_crc lw2 = init_type_crc \<and>
        log_output content lw2 = log_output content lw' @ rec_bytes (lw_block_offset lw') False (drop ?n d) \<and>
        lw_block_offset lw2 = rec_end (lw_block_offset lw') (drop ?n d)"
      using False lw'(4)
      by (intro less.hyps lw'(2)) (auto simp: frag_len_def block_start_def log_sizes split: if_splits)
    then show ?thesis
      using False step lw' by (auto simp: rec_bytes.simps [of ?off] rec_end.simps [of ?off] Let_def)
  qed
qed

end

interpretation buffer_file: reliable_file
  "\<lparr>wf_append = \<lambda>f d. (OK, f @ d), wf_flush = \<lambda>f. (OK, f)\<rparr>" "\<lambda>f :: bytes. f"
  by unfold_locales auto

section \<open>Reading one physical record\<close>

lemma header_fields:
  assumes "take LDB_HEADER_SIZE h = record_header c t d" "length d < 65536" "t < 256"
  shows "unat (h ! 4) + unat (h ! 5) * 256 = length d" "unat (h ! 6) = t"
proof -
  have nth: "h ! i = record_header c t d ! i" if "i < LDB_HEADER_SIZE" for i
    using assms(1) that by (metis nth_take)
  have "h ! 4 = word_of_nat (length d)" "h ! 5 = word_of_nat (length d div 256)" "h ! 6 = word_of_nat t"
    using nth [of 4] nth [of 5] nth [of 6]
    by (simp_all add: record_header_def Let_def nth_append LDB_HEADER_SIZE_def)
  then show "unat (h ! 4) + unat (h ! 5) * 256 = length d" "unat (h ! 6) = t"
    using assms(2,3) by (simp_all add: unsigned_of_nat take_bit_eq_mod)
qed

lemma phys_checksum:
  assumes "t \<le> LDB_MAX_RECTYPE"
  shows "ldb_crc32c_value (take (1 + length d) (drop 6 (phys_bytes t d @ post))) =
    ldb_crc32c_unmask (ldb_fixed32_decode (phys_bytes t d @ post))"
proof -
  have "init_type_crc ! t = ldb_crc32c_value [word_of_nat t]"
    using assms by (simp add: init_type_crc_def nth_map_upt del: upt_Suc)
  moreover have "take (1 + length d) (drop 6 (phys_bytes t d @ post)) = [word_of_nat t] @ d"
    by (simp add: phys_bytes_def record_header_def Let_def)
  ultimately show ?thesis
    using crc32c_extend_append [of 0 "[word_of_nat t]" d]
    by (simp add: phys_bytes_def record_header_def Let_def ldb_fixed32_write_eq ldb_fixed32_decode_append
        crc32c_unmask_mask ldb_crc32c_value_def)
qed

lemma read_phys_hit:
  assumes "lr_buffer lr = phys_bytes t d @ post" "1 \<le> t" "t \<le> LDB_MAX_RECTYPE" "length d < 65536"
    and "lr_initial_offset lr = 0"
  shows "read_physical_record ops lr = (t, Some d, lr\<lparr>lr_buffer := post\<rparr>)"
proof -
  let ?h = "phys_bytes t d @ post"
  have "take LDB_HEADER_SIZE ?h = record_header init_type_crc t d" by (simp add: phys_bytes_def)
  moreover have "t < 256" using assms(3) by (simp add: log_consts)
  ultimately have f: "unat (?h ! 4) + unat (?h ! 5) * 256 = length d" "unat (?h ! 6) = t"
    using header_fields assms(4) by blast+
  have d: "take (length d) (drop LDB_HEADER_SIZE ?h) = d" "drop (LDB_HEADER_SIZE + length d) ?h = post"
    by (simp_all add: phys_bytes_def)
  show ?thesis
    using assms(2,5) phys_checksum [OF assms(3), of d post]
    by (subst read_physical_record.simps)
      (simp add: assms(1) f d Let_def LDB_TYPE_ZERO_def ldb_slice_eat_def del: take_append drop_append)
qed

lemma read_phys_cut:
  assumes "lr_buffer lr @ q = phys_bytes t d" "q \<noteq> []" "lr_eof lr" "t < 256" "length d < 65536"
  shows "read_physical_record ops lr = (LDB_EOF, None, lr\<lparr>lr_buffer := []\<rparr>)"
proof (cases "length (lr_buffer lr) < LDB_HEADER_SIZE")
  case False
  let ?h = "lr_buffer lr"
  have "take LDB_HEADER_SIZE ?h = take LDB_HEADER_SIZE (?h @ q)" using False by simp
  then have "take LDB_HEADER_SIZE ?h = record_header init_type_crc t d"
    by (simp only: assms(1)) (simp add: phys_bytes_def)
  then have f: "unat (?h ! 4) + unat (?h ! 5) * 256 = length d" using header_fields assms(4,5) by blast
  have "length ?h < LDB_HEADER_SIZE + length d" using assms(1,2) by (metis length_append length_phys_bytes less_add_same_cancel1 length_greater_0_conv)
  then show ?thesis using False assms(3) by (subst read_physical_record.simps) (simp add: f Let_def)
qed (use assms(3) in \<open>subst read_physical_record.simps, simp\<close>)

section \<open>What is left to read\<close>

text \<open>
  What the log reader relies on of a file that is read from the front: a read returns the next bytes, and all
  that is left when there are not enough.
\<close>

locale sequential_file =
  fixes ops :: "'f rfile_ops" and good :: "'f \<Rightarrow> bool" and left :: "'f \<Rightarrow> bytes"
  assumes read_ok: "good f \<Longrightarrow> rf_read ops f n = (rc, d, f') \<Longrightarrow> rc = OK \<and> d = take n (left f) \<and> left f' = drop n (left f) \<and> good f'"

definition log_left :: "('f \<Rightarrow> bool) \<Rightarrow> ('f \<Rightarrow> bytes) \<Rightarrow> 'f ldb_reader \<Rightarrow> bytes \<Rightarrow> bool" where
  "log_left good left lr src \<longleftrightarrow>
     (case lr_src lr of Some s \<Rightarrow> src = s | None \<Rightarrow> good (lr_file lr) \<and> src = left (lr_file lr))"

lemma log_left_simps [simp]:
  "log_left good left (lr\<lparr>lr_buffer := b\<rparr>) = log_left good left lr" "log_left good left (lr\<lparr>lr_eof := e\<rparr>) = log_left good left lr"
  "log_left good left (lr\<lparr>lr_end_offset := n\<rparr>) = log_left good left lr" "log_left good left (lr\<lparr>lr_last_offset := n\<rparr>) = log_left good left lr"
  by (auto simp: log_left_def fun_eq_iff split: option.splits)

interpretation buffer_read: sequential_file "\<lparr>rf_read = \<lambda>f n. (OK, take n f, drop n f), rf_skip = \<lambda>f n. (OK, drop (unat n) f)\<rparr>" "\<lambda>_. True" "\<lambda>f. f"
  by unfold_locales auto

context sequential_file
begin

lemma read_block_ok:
  assumes "log_left good left lr src" "lr_error lr = OK"
  shows "\<exists>lr'. read_block ops lr = (OK, lr') \<and> lr_buffer lr' = take LDB_BLOCK_SIZE src \<and> log_left good left lr' (drop LDB_BLOCK_SIZE src) \<and>
    lr_error lr' = OK \<and> lr_reporter lr' = lr_reporter lr \<and> lr_eof lr' = lr_eof lr \<and> lr_end_offset lr' = lr_end_offset lr \<and>
    lr_initial_offset lr' = lr_initial_offset lr \<and> lr_resyncing lr' = lr_resyncing lr"
proof (cases "lr_src lr")
  case None
  obtain rc d f' where r: "rf_read ops (lr_file lr) LDB_BLOCK_SIZE = (rc, d, f')" by (metis prod_cases3)
  show ?thesis using read_ok [OF _ r] r None assms by (simp add: read_block_def log_left_def)
next
  case (Some s)
  have "take (min LDB_BLOCK_SIZE (length src)) src = take LDB_BLOCK_SIZE src"
    "drop (min LDB_BLOCK_SIZE (length src)) src = drop LDB_BLOCK_SIZE src" by (simp_all add: min_def)
  then show ?thesis using Some assms by (simp add: read_block_def log_left_def Let_def)
qed

lemma read_phys_refill:
  assumes "length (lr_buffer lr) < LDB_HEADER_SIZE" "\<not> lr_eof lr" "log_left good left lr src" "lr_error lr = OK"
  shows "\<exists>lr'. read_physical_record ops lr = read_physical_record ops lr' \<and> lr_buffer lr' = take LDB_BLOCK_SIZE src \<and>
    log_left good left lr' (drop LDB_BLOCK_SIZE src) \<and> lr_error lr' = OK \<and> lr_reporter lr' = lr_reporter lr \<and>
    (lr_eof lr' \<longleftrightarrow> length src < LDB_BLOCK_SIZE) \<and> lr_initial_offset lr' = lr_initial_offset lr \<and> lr_resyncing lr' = lr_resyncing lr"
proof -
  obtain lr1 where b: "read_block ops lr = (OK, lr1)" "lr_buffer lr1 = take LDB_BLOCK_SIZE src" "log_left good left lr1 (drop LDB_BLOCK_SIZE src)"
    "lr_error lr1 = OK" "lr_reporter lr1 = lr_reporter lr" "lr_eof lr1 = lr_eof lr" "lr_initial_offset lr1 = lr_initial_offset lr"
    "lr_resyncing lr1 = lr_resyncing lr" using read_block_ok [OF assms(3,4)] by blast
  let ?lr = "lr1\<lparr>lr_end_offset := lr_end_offset lr1 + word_of_nat (length (lr_buffer lr1))\<rparr>"
  show ?thesis
  proof (cases "length src < LDB_BLOCK_SIZE")
    case True
    have "read_physical_record ops lr = read_physical_record ops (?lr\<lparr>lr_eof := True\<rparr>)"
      using True assms(1,2) b(2) by (subst read_physical_record.simps) (simp add: b(1) Let_def)
    then show ?thesis using True b by (intro exI [of _ "?lr\<lparr>lr_eof := True\<rparr>"]) simp
  next
    case False
    have "read_physical_record ops lr = read_physical_record ops ?lr"
      using False assms(1,2) b(2) by (subst read_physical_record.simps) (simp add: b(1) Let_def)
    then show ?thesis using False b assms(2) by (intro exI [of _ ?lr]) simp
  qed
qed

end

section \<open>The reader on a stream of records\<close>

text \<open>The reader stands at block offset \<open>off\<close> of a buffer or a file; \<open>s\<close> is what is left of it.\<close>

definition reads :: "('f \<Rightarrow> bool) \<Rightarrow> ('f \<Rightarrow> bytes) \<Rightarrow> 'f ldb_reader \<Rightarrow> nat \<Rightarrow> bytes \<Rightarrow> bool" where
  "reads good left lr off s \<longleftrightarrow>
     off \<le> LDB_BLOCK_SIZE \<and> lr_error lr = OK \<and> lr_initial_offset lr = 0 \<and> \<not> lr_resyncing lr \<and>
     (\<exists>src. log_left good left lr src \<and> s = lr_buffer lr @ src \<and>
        (if lr_eof lr then src = [] \<and> off + length (lr_buffer lr) \<le> LDB_BLOCK_SIZE
         else off + length (lr_buffer lr) = LDB_BLOCK_SIZE))"

definition rec_fits :: "nat \<Rightarrow> nat \<Rightarrow> bytes \<Rightarrow> bool" where
  "rec_fits off t d \<longleftrightarrow> 1 \<le> t \<and> t \<le> LDB_MAX_RECTYPE \<and>
     block_start off + LDB_HEADER_SIZE + length d \<le> LDB_BLOCK_SIZE"

lemma block_pad_cases:
  assumes "off \<le> LDB_BLOCK_SIZE"
  obtains (trailer) "LDB_BLOCK_SIZE - off < LDB_HEADER_SIZE" "block_pad off = replicate (LDB_BLOCK_SIZE - off) 0" "block_start off = 0"
  | (room) "LDB_HEADER_SIZE \<le> LDB_BLOCK_SIZE - off" "block_pad off = []" "block_start off = off"
  by (cases "LDB_BLOCK_SIZE - off < LDB_HEADER_SIZE") (auto simp: block_pad_def block_start_def)

context sequential_file
begin

lemma read_phys_stream:
  assumes r: "reads good left lr off (block_pad off @ phys_bytes t d @ rest)" and fits: "rec_fits off t d"
  shows "\<exists>lr'. read_physical_record ops lr = (t, Some d, lr') \<and> lr_reporter lr' = lr_reporter lr \<and>
    reads good left lr' (block_start off + LDB_HEADER_SIZE + length d) rest"
proof -
  have t: "1 \<le> t" "t \<le> LDB_MAX_RECTYPE" and len: "block_start off + LDB_HEADER_SIZE + length d \<le> LDB_BLOCK_SIZE"
    using fits by (simp_all add: rec_fits_def)
  have d: "length d < 65536" using len by (simp add: log_sizes)
  obtain src where src: "log_left good left lr src" "block_pad off @ phys_bytes t d @ rest = lr_buffer lr @ src"
    and off: "off \<le> LDB_BLOCK_SIZE" and misc: "lr_error lr = OK" "lr_initial_offset lr = 0" "\<not> lr_resyncing lr"
    and eof: "if lr_eof lr then src = [] \<and> off + length (lr_buffer lr) \<le> LDB_BLOCK_SIZE
      else off + length (lr_buffer lr) = LDB_BLOCK_SIZE"
    using r by (auto simp: reads_def)
  from off show ?thesis
  proof (cases rule: block_pad_cases)
    case room
    have "length (phys_bytes t d) \<le> length (lr_buffer lr)"
      using eof len room src(2) by (auto split: if_splits dest!: arg_cong [where f = length])
    then obtain post where post: "lr_buffer lr = phys_bytes t d @ post" "rest = post @ src"
      using src(2) room(2) by (metis append.left_neutral append_eq_append_conv_if append_eq_conv_conj append_take_drop_id)
    show ?thesis
      using read_phys_hit [OF post(1) t d misc(2), of ops] post eof misc src(1) len room(3)
      by (auto simp: reads_def split: if_splits)
  next
    case trailer
    have small: "length (lr_buffer lr) < LDB_HEADER_SIZE" using eof trailer(1) off by (auto split: if_splits)
    have neof: "\<not> lr_eof lr"
    proof
      assume "lr_eof lr"
      then have "lr_buffer lr = block_pad off @ phys_bytes t d @ rest" using eof src(2) by simp
      then show False using small by (auto dest!: arg_cong [where f = length])
    qed
    then have "length (lr_buffer lr) = length (block_pad off)" using eof trailer off by simp
    then have srceq: "src = phys_bytes t d @ rest" using src(2) by (metis append_eq_append_conv)
    define post where "post = take (LDB_BLOCK_SIZE - (LDB_HEADER_SIZE + length d)) rest"
    have post: "take LDB_BLOCK_SIZE src = phys_bytes t d @ post" "rest = post @ drop LDB_BLOCK_SIZE src"
      using len trailer(3) by (simp_all add: srceq post_def)
    then have plen: "LDB_HEADER_SIZE + length d + length post = min (length src) LDB_BLOCK_SIZE"
      by (metis length_append length_phys_bytes length_take)
    obtain lr' where lr': "read_physical_record ops lr = read_physical_record ops lr'" "lr_buffer lr' = take LDB_BLOCK_SIZE src"
      "log_left good left lr' (drop LDB_BLOCK_SIZE src)" "lr_error lr' = OK" "lr_reporter lr' = lr_reporter lr"
      "lr_eof lr' \<longleftrightarrow> length src < LDB_BLOCK_SIZE" "lr_initial_offset lr' = 0" "\<not> lr_resyncing lr'"
      using read_phys_refill [OF small neof src(1) misc(1)] misc by auto
    have "read_physical_record ops lr = (t, Some d, lr'\<lparr>lr_buffer := post\<rparr>)"
      unfolding lr'(1) using lr'(2,7) post(1) t d by (intro read_phys_hit) simp_all
    then show ?thesis
      using lr'(3-8) post(2) plen len trailer(3) by (auto simp: reads_def)
  qed
qed

lemma read_phys_stream_cut:
  assumes r: "reads good left lr off s" and fits: "rec_fits off t d"
    and cut: "s @ q = block_pad off @ phys_bytes t d" "q \<noteq> []"
  shows "\<exists>lr'. read_physical_record ops lr = (LDB_EOF, None, lr') \<and> lr_reporter lr' = lr_reporter lr"
proof -
  have len: "block_start off + LDB_HEADER_SIZE + length d \<le> LDB_BLOCK_SIZE" "t < 256" "length d < 65536"
    using fits by (auto simp: rec_fits_def log_consts log_sizes)
  obtain src where src: "log_left good left lr src" "s = lr_buffer lr @ src"
    and off: "off \<le> LDB_BLOCK_SIZE" and misc: "lr_error lr = OK"
    and eof: "if lr_eof lr then src = [] \<and> off + length (lr_buffer lr) \<le> LDB_BLOCK_SIZE
      else off + length (lr_buffer lr) = LDB_BLOCK_SIZE"
    using r by (auto simp: reads_def)
  from off show ?thesis
  proof (cases rule: block_pad_cases)
    case room
    have "length s < LDB_HEADER_SIZE + length d"
      using arg_cong [OF cut(1), of length] cut(2) room(2) by (cases q) simp_all
    then have "lr_eof lr" "src = []" using eof src(2) len room by (auto split: if_splits)
    then show ?thesis using read_phys_cut [of lr q t d ops] cut room(2) src(2) len by simp
  next
    case trailer
    have small: "length (lr_buffer lr) < LDB_HEADER_SIZE" using eof trailer(1) off by (auto split: if_splits)
    show ?thesis
    proof (cases "lr_eof lr")
      case True
      then show ?thesis using small by (subst read_physical_record.simps) simp
    next
      case False
      then have "length (lr_buffer lr) = length (block_pad off)" using eof trailer off by simp
      then have srceq: "src @ q = phys_bytes t d" using cut(1) src(2) by (metis append.assoc append_eq_append_conv)
      then have "length src < LDB_HEADER_SIZE + length d"
        using cut(2) by (metis length_append length_greater_0_conv length_phys_bytes less_add_same_cancel1)
      then have short: "length src < LDB_BLOCK_SIZE" "take LDB_BLOCK_SIZE src = src" using len(1) by simp_all
      obtain lr' where lr': "read_physical_record ops lr = read_physical_record ops lr'" "lr_buffer lr' = src"
        "lr_reporter lr' = lr_reporter lr" "lr_eof lr'"
        using read_phys_refill [OF small False src(1) misc] short by auto
      have "read_physical_record ops lr' = (LDB_EOF, None, lr'\<lparr>lr_buffer := []\<rparr>)"
        using lr'(2,4) srceq cut(2) len by (intro read_phys_cut [where t = t and d = d and q = q]) simp_all
      then show ?thesis using lr'(1,3) by simp
    qed
  qed
qed

end

section \<open>Reading a logical record\<close>

lemma record_type_bounds: "1 \<le> record_type beg fin" "record_type beg fin \<le> LDB_MAX_RECTYPE"
  by (simp_all add: record_type_def log_consts)

lemma rec_fits_frag:
  assumes "off \<le> LDB_BLOCK_SIZE"
  shows "rec_fits off (record_type beg fin) (take (frag_len off d) d)"
proof -
  have "length (take (frag_len off d) d) = frag_len off d" by (simp add: frag_len_def)
  then show ?thesis using frag_fits [OF assms] record_type_bounds by (simp add: rec_fits_def)
qed

text \<open>The loop around one fragment: the last one ends the record, another one is collected.\<close>

lemma read_loop_frag:
  assumes "read_physical_record ops lr = (record_type beg fin, Some d, lr')" "\<not> lr_resyncing lr'"
    and "beg \<Longrightarrow> scratch = []" "infrag \<longleftrightarrow> \<not> beg"
  shows "\<exists>po po'. read_record_loop ops lr po0 infrag scratch =
    (if fin then Some (Some (scratch @ d), lr'\<lparr>lr_last_offset := po\<rparr>)
     else read_record_loop ops lr' po' True (scratch @ d))"
  using assms
  by (subst read_record_loop.simps) (cases beg; cases fin; auto simp: record_type_def log_consts Let_def)

lemma reads_last_offset [simp]: "reads good left (lr\<lparr>lr_last_offset := po\<rparr>) off s = reads good left lr off s"
  by (simp add: reads_def)

lemma reads_not_resyncing: "reads good left lr off s \<Longrightarrow> \<not> lr_resyncing lr"
  by (simp add: reads_def)

context sequential_file
begin

lemma read_record_stream:
  "reads good left lr off (rec_bytes off beg d @ rest) \<Longrightarrow> off \<le> LDB_BLOCK_SIZE \<Longrightarrow> (beg \<Longrightarrow> scratch = []) \<Longrightarrow>
   \<exists>lr'. read_record_loop ops lr po (\<not> beg) scratch = Some (Some (scratch @ d), lr') \<and>
     lr_reporter lr' = lr_reporter lr \<and> reads good left lr' (rec_end off d) rest"
proof (induction off beg d arbitrary: lr po scratch rule: rec_bytes.induct)
  case (1 off beg d)
  let ?n = "frag_len off d"
  let ?fin = "length d = ?n" and ?off = "block_start off + LDB_HEADER_SIZE + ?n"
  let ?rest = "(if ?fin then [] else rec_bytes ?off False (drop ?n d)) @ rest"
  have "rec_bytes off beg d @ rest = block_pad off @ phys_bytes (record_type beg ?fin) (take ?n d) @ ?rest"
    by (subst rec_bytes.simps) (simp add: Let_def)
  then have "reads good left lr off (block_pad off @ phys_bytes (record_type beg ?fin) (take ?n d) @ ?rest)"
    using "1.prems"(1) by simp
  from read_phys_stream [OF this rec_fits_frag [OF "1.prems"(2)]] obtain lr' where
    lr': "read_physical_record ops lr = (record_type beg ?fin, Some (take ?n d), lr')"
    "lr_reporter lr' = lr_reporter lr" "reads good left lr' ?off ?rest"
    by (auto simp: frag_len_def)
  obtain po1 po2 where loop: "read_record_loop ops lr po (\<not> beg) scratch =
      (if ?fin then Some (Some (scratch @ take ?n d), lr'\<lparr>lr_last_offset := po1\<rparr>)
       else read_record_loop ops lr' po2 True (scratch @ take ?n d))"
    using read_loop_frag [OF lr'(1) reads_not_resyncing [OF lr'(3)] "1.prems"(3) refl] by blast
  show ?case
  proof (cases ?fin)
    case True
    then show ?thesis
      using loop lr' by (simp add: rec_end.simps [of off d] Let_def)
  next
    case False
    have "reads good left lr' ?off (rec_bytes ?off False (drop ?n d) @ rest)" using lr'(3) False by simp
    then obtain lr2 where "read_record_loop ops lr' po2 True (scratch @ take ?n d) =
        Some (Some ((scratch @ take ?n d) @ drop ?n d), lr2)"
      "lr_reporter lr2 = lr_reporter lr'" "reads good left lr2 (rec_end ?off (drop ?n d)) rest"
      using "1.IH" [OF refl refl refl False, of lr' "scratch @ take ?n d" po2] frag_fits [OF "1.prems"(2)] by auto
    then show ?thesis
      using loop lr'(2) False by (simp add: rec_end.simps [of off d] Let_def)
  qed
qed

lemma read_record_cut:
  "reads good left lr off s \<Longrightarrow> off \<le> LDB_BLOCK_SIZE \<Longrightarrow> (beg \<Longrightarrow> scratch = []) \<Longrightarrow>
   s @ q = rec_bytes off beg d \<Longrightarrow> q \<noteq> [] \<Longrightarrow>
   \<exists>lr'. read_record_loop ops lr po (\<not> beg) scratch = Some (None, lr') \<and> lr_reporter lr' = lr_reporter lr"
proof (induction off beg d arbitrary: lr s po scratch rule: rec_bytes.induct)
  case (1 off beg d)
  let ?n = "frag_len off d"
  let ?fin = "length d = ?n" and ?off = "block_start off + LDB_HEADER_SIZE + ?n"
  let ?now = "block_pad off @ phys_bytes (record_type beg ?fin) (take ?n d)"
  have "s @ q = ?now @ (if ?fin then [] else rec_bytes ?off False (drop ?n d))"
    using "1.prems"(4) by (subst (asm) rec_bytes.simps) (simp add: Let_def)
  then show ?case
  proof (cases rule: append_cut)
    case (inside r)
    obtain lr' where "read_physical_record ops lr = (LDB_EOF, None, lr')" "lr_reporter lr' = lr_reporter lr"
      using read_phys_stream_cut [OF "1.prems"(1) rec_fits_frag [OF "1.prems"(2)] inside(1,2)] by blast
    then show ?thesis by (subst read_record_loop.simps) (simp add: log_consts Let_def)
  next
    case (past r)
    then have nfin: "\<not> ?fin" and r: "r @ q = rec_bytes ?off False (drop ?n d)"
      using "1.prems"(5) by (auto split: if_splits)
    have "reads good left lr off (block_pad off @ phys_bytes (record_type beg ?fin) (take ?n d) @ r)"
      using "1.prems"(1) past(1) by simp
    from read_phys_stream [OF this rec_fits_frag [OF "1.prems"(2)]] obtain lr' where
      lr': "read_physical_record ops lr = (record_type beg ?fin, Some (take ?n d), lr')"
      "lr_reporter lr' = lr_reporter lr" "reads good left lr' ?off r"
      by (auto simp: frag_len_def)
    obtain po1 po2 where loop: "read_record_loop ops lr po (\<not> beg) scratch =
        (if ?fin then Some (Some (scratch @ take ?n d), lr'\<lparr>lr_last_offset := po1\<rparr>)
         else read_record_loop ops lr' po2 True (scratch @ take ?n d))"
      using read_loop_frag [OF lr'(1) reads_not_resyncing [OF lr'(3)] "1.prems"(3) refl] by blast
    then show ?thesis
      using "1.IH" [OF refl refl refl nfin lr'(3) _ _ r "1.prems"(5), of "scratch @ take ?n d" po2]
        frag_fits [OF "1.prems"(2)] lr'(2) nfin by auto
  qed
qed

end

section \<open>Whole logs\<close>

fun add_records :: "'f wfile_ops \<Rightarrow> 'f ldb_writer \<Rightarrow> bytes list \<Rightarrow> status \<times> 'f ldb_writer" where
  "add_records ops lw [] = (OK, lw)"
| "add_records ops lw (d # ds) =
     (case ldb_writer_add_record ops lw d of
        (rc, lw) \<Rightarrow> if rc = OK then add_records ops lw ds else (rc, lw))"

fun read_all :: "'f rfile_ops \<Rightarrow> nat \<Rightarrow> 'f ldb_reader \<Rightarrow> (bytes list \<times> 'f ldb_reader) option" where
  "read_all ops 0 lr = Some ([], lr)"
| "read_all ops (Suc m) lr =
     (case ldb_reader_read_record ops lr of
        None \<Rightarrow> None
      | Some (None, lr) \<Rightarrow> Some ([], lr)
      | Some (Some d, lr) \<Rightarrow> map_option (\<lambda>(ds, lr). (d # ds, lr)) (read_all ops m lr))"

context reliable_file
begin

lemma add_records_ok:
  "lw_type_crc lw = init_type_crc \<Longrightarrow>
   \<exists>lw'. add_records ops lw ds = (OK, lw') \<and>
     log_output content lw' = log_output content lw @ log_bytes (lw_block_offset lw) ds"
proof (induction ds arbitrary: lw)
  case (Cons d ds)
  obtain lw' where lw': "add_record_loop ops lw d True = (OK, lw')" "lw_type_crc lw' = init_type_crc"
    "log_output content lw' = log_output content lw @ rec_bytes (lw_block_offset lw) True d"
    "lw_block_offset lw' = rec_end (lw_block_offset lw) d"
    using add_record_loop_ok [OF Cons.prems, of d True] by blast
  from Cons.IH [OF lw'(2)] show ?case
    using lw' by (auto simp: ldb_writer_add_record_def)
qed simp

end

lemma rec_end_bound: "off \<le> LDB_BLOCK_SIZE \<Longrightarrow> rec_end off d \<le> LDB_BLOCK_SIZE"
proof (induction off d rule: rec_end.induct)
  case (1 off d)
  then show ?case using frag_fits [OF "1.prems", of d] by (subst rec_end.simps) (simp add: Let_def)
qed

lemma rec_bytes_not_Nil: "rec_bytes off beg d \<noteq> []"
proof -
  have "phys_bytes t x \<noteq> []" for t x
    using length_phys_bytes [of t x] by (metis LDB_HEADER_SIZE_def add_is_0 list.size(3) zero_neq_numeral)
  then show ?thesis by (subst rec_bytes.simps) (simp add: Let_def)
qed

lemma read_record_loop_start:
  "reads good left lr off s \<Longrightarrow> ldb_reader_read_record ops lr = read_record_loop ops lr 0 False []"
  by (simp add: ldb_reader_read_record_def reads_def)

context sequential_file
begin

lemma read_all_prefix:
  "reads good left lr off s \<Longrightarrow> off \<le> LDB_BLOCK_SIZE \<Longrightarrow> s @ q = log_bytes off ds \<Longrightarrow> length ds < m \<Longrightarrow>
   \<exists>k lr'. k \<le> length ds \<and> read_all ops m lr = Some (take k ds, lr') \<and> lr_reporter lr' = lr_reporter lr \<and>
     length (log_bytes off (take k ds)) \<le> length s \<and>
     (k < length ds \<longrightarrow> length s < length (log_bytes off (take (Suc k) ds)))"
proof (induction ds arbitrary: lr off s m)
  case Nil
  obtain m' where m: "m = Suc m'" using Nil.prems(4) by (cases m) auto
  have "s = []" using Nil.prems(3) by simp
  then obtain lr' where "read_record_loop ops lr 0 False [] = Some (None, lr')" "lr_reporter lr' = lr_reporter lr"
    using read_record_cut [of lr off s True "[]" "rec_bytes off True []" "[]" 0] Nil.prems rec_bytes_not_Nil by auto
  then show ?case using read_record_loop_start [OF Nil.prems(1), of ops] m by simp
next
  case (Cons d ds)
  obtain m' where m: "m = Suc m'" "length ds < m'" using Cons.prems(4) by (cases m) auto
  have "s @ q = rec_bytes off True d @ log_bytes (rec_end off d) ds" using Cons.prems(3) by simp
  then show ?case
  proof (cases rule: append_cut)
    case (inside r)
    obtain lr' where "read_record_loop ops lr 0 False [] = Some (None, lr')" "lr_reporter lr' = lr_reporter lr"
      using read_record_cut [OF Cons.prems(1,2) _ inside(1,2), of "[]" 0] by auto
    moreover have "length s < length (rec_bytes off True d)" using inside(1,2) by (metis length_append length_greater_0_conv less_add_same_cancel1)
    ultimately show ?thesis
      using read_record_loop_start [OF Cons.prems(1), of ops] m(1) by (intro exI [of _ 0]) simp
  next
    case (past r)
    obtain lr' where lr': "read_record_loop ops lr 0 False [] = Some (Some d, lr')" "lr_reporter lr' = lr_reporter lr"
      "reads good left lr' (rec_end off d) r"
      using read_record_stream [of lr off True d r "[]" 0] Cons.prems(1,2) past(1) by auto
    from Cons.IH [OF lr'(3) rec_end_bound [OF Cons.prems(2)] past(2) m(2)] obtain k lr2 where
      "k \<le> length ds" "read_all ops m' lr' = Some (take k ds, lr2)" "lr_reporter lr2 = lr_reporter lr'"
      "length (log_bytes (rec_end off d) (take k ds)) \<le> length r"
      "k < length ds \<longrightarrow> length r < length (log_bytes (rec_end off d) (take (Suc k) ds))" by blast
    then show ?thesis
      using lr' read_record_loop_start [OF Cons.prems(1), of ops] m(1) past(1)
      by (intro exI [of _ "Suc k"] exI [of _ lr2]) simp
  qed
qed

end

lemma rec_start_block: "rec_bytes 0 beg d = rec_bytes LDB_BLOCK_SIZE beg d" "rec_end 0 d = rec_end LDB_BLOCK_SIZE d"
proof -
  have "frag_len 0 d = frag_len LDB_BLOCK_SIZE d" "block_start 0 = block_start LDB_BLOCK_SIZE"
    "block_pad 0 = block_pad LDB_BLOCK_SIZE"
    by (simp_all add: frag_len_def block_start_def block_pad_def log_sizes)
  then show "rec_bytes 0 beg d = rec_bytes LDB_BLOCK_SIZE beg d" "rec_end 0 d = rec_end LDB_BLOCK_SIZE d"
    by (simp_all only: rec_bytes.simps [of 0] rec_bytes.simps [of LDB_BLOCK_SIZE] rec_end.simps [of 0]
        rec_end.simps [of LDB_BLOCK_SIZE])
qed

lemma log_start_block: "log_bytes 0 ds = log_bytes LDB_BLOCK_SIZE ds"
  by (cases ds) (simp_all add: rec_start_block)

lemma log_bytes_take_le: "length (log_bytes off (take k ds)) \<le> length (log_bytes off ds)"
proof (induction ds arbitrary: off k)
  case (Cons d ds)
  then show ?case by (cases k) simp_all
qed simp

text \<open>A writer on a file stays on the file.\<close>

lemma emit_dst: "lw_dst lw = None \<Longrightarrow> lw_dst (snd (emit_physical_record ops lw t d)) = None"
  by (simp add: emit_physical_record_def Let_def split: prod.splits)

lemma switch_dst: "lw_dst lw = None \<Longrightarrow> lw_dst (switch_block ops lw) = None"
  by (simp add: switch_block_def Let_def)

lemma add_record_dst: "lw_dst lw = None \<Longrightarrow> lw_dst (snd (add_record_loop ops lw d beg)) = None"
proof (induction ops lw d beg rule: add_record_loop.induct)
  case (1 ops lw d beg)
  let ?lw = "switch_block ops lw"
  obtain avail where avail: "avail = LDB_BLOCK_SIZE - lw_block_offset ?lw - LDB_HEADER_SIZE" by simp
  obtain n where n: "n = (if length d < avail then length d else avail)" by simp
  obtain rc lw2 where e: "emit_physical_record ops ?lw (record_type beg (length d = n)) (take n d) = (rc, lw2)"
    by (metis surj_pair)
  have dst: "lw_dst lw2 = None" using emit_dst [OF switch_dst [OF "1.prems"]] e by (metis snd_conv)
  have eq: "add_record_loop ops lw d beg =
      (if rc = OK \<and> 0 < length d - n then add_record_loop ops lw2 (drop n d) False else (rc, lw2))"
    by (subst add_record_loop.simps) (simp only: Let_def avail [symmetric] n [symmetric] e prod.case)
  show ?case
    using dst "1.IH" [OF refl avail n refl e [symmetric] _ dst] by (simp only: eq split: if_split) simp
qed

lemma add_records_dst: "lw_dst lw = None \<Longrightarrow> lw_dst (snd (add_records ops lw ds)) = None"
proof (induction ds arbitrary: lw)
  case (Cons d ds)
  then show ?case
    using add_record_dst [OF Cons.prems, of ops d True]
    by (auto simp: ldb_writer_add_record_def split: prod.splits)
qed simp

text \<open>The reader that recovery opens on a log.\<close>

lemma reads_start: "good f \<Longrightarrow> reads good left (ldb_reader_init f reporter checksum 0) LDB_BLOCK_SIZE (left f)"
  by (simp add: reads_def log_left_def ldb_reader_init_def)

section \<open>Properties\<close>

text \<open>C7: writing records to an empty log and reading it back from a file, or any prefix of it as left by
  a crash, returns exactly the records that are completely contained in the prefix, in
  order, then the end of the log, and reports no corruption, with checksums
  verified or not.\<close>

theorem log_recovery:
  assumes "reliable_file ops content" "content f = []" "sequential_file rops good left"
  shows "\<exists>lw. add_records ops (ldb_writer_init f 0) ds = (OK, lw) \<and>
    (\<forall>n rf checksum. good rf \<longrightarrow> left rf = take n (content (lw_file lw)) \<longrightarrow> (\<exists>k lr. k \<le> length ds \<and>
       read_all rops (Suc (length ds)) (ldb_reader_init rf (Some []) checksum 0) = Some (take k ds, lr) \<and>
       lr_reporter lr = Some [] \<and>
       length (log_bytes 0 (take k ds)) \<le> n \<and>
       (n < length (content (lw_file lw)) \<longrightarrow> n < length (log_bytes 0 (take (Suc k) ds))) \<and>
       (length (content (lw_file lw)) \<le> n \<longrightarrow> k = length ds)))"
proof -
  let ?lw = "ldb_writer_init f 0"
  have init: "lw_type_crc ?lw = init_type_crc" "lw_block_offset ?lw = 0" "log_output content ?lw = []" "lw_dst ?lw = None"
    using assms(2) by (simp_all add: ldb_writer_init_def log_output_def)
  obtain lw where lw: "add_records ops ?lw ds = (OK, lw)" "log_output content lw = log_bytes 0 ds"
    using reliable_file.add_records_ok [OF assms(1) init(1), of ds] init by auto
  have "content (lw_file lw) = log_bytes 0 ds"
    using lw add_records_dst [of ?lw ops ds] init(4) by (simp add: log_output_def)
  moreover have "\<exists>k lr. k \<le> length ds \<and>
       read_all rops (Suc (length ds)) (ldb_reader_init rf (Some []) checksum 0) = Some (take k ds, lr) \<and>
       lr_reporter lr = Some [] \<and> length (log_bytes 0 (take k ds)) \<le> n \<and>
       (n < length (log_bytes 0 ds) \<longrightarrow> n < length (log_bytes 0 (take (Suc k) ds))) \<and>
       (length (log_bytes 0 ds) \<le> n \<longrightarrow> k = length ds)" if rf: "good rf" "left rf = take n (log_bytes 0 ds)" for n rf checksum
  proof -
    let ?s = "take n (log_bytes LDB_BLOCK_SIZE ds)"
    obtain k lr where k: "k \<le> length ds"
      "read_all rops (Suc (length ds)) (ldb_reader_init rf (Some []) checksum 0) = Some (take k ds, lr)"
      "lr_reporter lr = Some []"
      "length (log_bytes LDB_BLOCK_SIZE (take k ds)) \<le> length ?s"
      "k < length ds \<longrightarrow> length ?s < length (log_bytes LDB_BLOCK_SIZE (take (Suc k) ds))"
      using sequential_file.read_all_prefix [OF assms(3) reads_start [where good = good, OF rf(1)] order_refl, of "drop n (log_bytes LDB_BLOCK_SIZE ds)" ds "Suc (length ds)" "Some []" checksum]
        rf(2) by (auto simp: log_start_block ldb_reader_init_def)
    have "k = length ds" if "length (log_bytes LDB_BLOCK_SIZE ds) \<le> n"
    proof (rule ccontr)
      assume "k \<noteq> length ds"
      then have "length (log_bytes LDB_BLOCK_SIZE ds) < length (log_bytes LDB_BLOCK_SIZE (take (Suc k) ds))"
        using k(1,5) that by simp
      then show False using log_bytes_take_le [of LDB_BLOCK_SIZE "Suc k" ds] by simp
    qed
    then show ?thesis
      using k by (intro exI [of _ k] exI [of _ lr]) (auto simp: log_start_block)
  qed
  ultimately show ?thesis using lw(1) by auto
qed

theorem log_recovery_witness:
  "\<exists>lw lr. add_records \<lparr>wf_append = \<lambda>f d. (OK, f @ d), wf_flush = \<lambda>f. (OK, f)\<rparr> (ldb_writer_init [] 0) [[1, 2, 3], []] = (OK, lw) \<and>
    read_all \<lparr>rf_read = \<lambda>f n. (OK, take n f, drop n f), rf_skip = \<lambda>f n. (OK, drop (unat n) f)\<rparr> 3
      (ldb_reader_init (lw_file lw) (Some []) True 0) = Some ([[1, 2, 3], []], lr)"
proof -
  let ?ops = "\<lparr>wf_append = \<lambda>f d. (OK, f @ d), wf_flush = \<lambda>f. (OK, f)\<rparr> :: bytes wfile_ops"
  let ?rops = "\<lparr>rf_read = \<lambda>f n. (OK, take n f, drop n f), rf_skip = \<lambda>f n. (OK, drop (unat n) f)\<rparr> :: bytes rfile_ops"
  let ?ds = "[[1, 2, 3], []] :: bytes list"
  define ds where "ds = ?ds"
  obtain lw where lw: "add_records ?ops (ldb_writer_init [] 0) ds = (OK, lw)"
    "\<And>n rf checksum. rf = take n (lw_file lw) \<Longrightarrow> \<exists>k lr.
       read_all ?rops (Suc (length ds)) (ldb_reader_init rf (Some []) checksum 0) = Some (take k ds, lr) \<and>
       (length (lw_file lw) \<le> n \<longrightarrow> k = length ds)"
    using log_recovery [OF buffer_file.reliable_file_axioms refl buffer_read.sequential_file_axioms, of ds] by (simp del: read_all.simps) blast
  obtain k lr where k: "read_all ?rops (Suc (length ds)) (ldb_reader_init (lw_file lw) (Some []) True 0) = Some (take k ds, lr)"
    "length (lw_file lw) \<le> length (lw_file lw) \<longrightarrow> k = length ds"
    using lw(2) [of "lw_file lw" "length (lw_file lw)" True] by fastforce
  have three: "Suc (length ds) = 3" "take k ds = ds" using k(2) by (simp_all add: ds_def)
  have "read_all ?rops 3 (ldb_reader_init (lw_file lw) (Some []) True 0) = Some (ds, lr)" using k(1) unfolding three .
  with lw(1) show ?thesis unfolding ds_def by blast
qed

end
