(* ===== verification/Iter_Wrapper.thy ===== *)
theory Iter_Wrapper
  imports Iterator
begin

text \<open>
  The function table of an iterator, \<open>ldb_itertbl_t\<close> of \<^verbatim>\<open>engine/src/table/iterator.h\<close>, and the
  wrapper of \<^verbatim>\<open>engine/src/table/iterator_wrapper.h\<close> that caches \<open>valid\<close> and \<open>key\<close>.  A wrapped
  iterator meets the iterator contract when the iterator does: the cache is never stale.
  An operation that returns \<open>None\<close> fails its assertion or does not return.
\<close>

record 'i ldb_itertbl =
  tb_valid :: "'i \<Rightarrow> bool"
  tb_first :: "'i \<Rightarrow> 'i option"
  tb_last :: "'i \<Rightarrow> 'i option"
  tb_seek :: "'i \<Rightarrow> bytes \<Rightarrow> 'i option"
  tb_next :: "'i \<Rightarrow> 'i option"
  tb_prev :: "'i \<Rightarrow> 'i option"
  tb_key :: "'i \<Rightarrow> bytes"
  tb_value :: "'i \<Rightarrow> bytes"
  tb_status :: "'i \<Rightarrow> status"

record 'i ldb_wrapiter =
  wi_iter :: "'i option"
  wi_valid :: bool
  wi_key :: bytes

definition ldb_wrapiter_update :: "'i ldb_itertbl \<Rightarrow> 'i ldb_wrapiter \<Rightarrow> 'i \<Rightarrow> 'i ldb_wrapiter" where
  "ldb_wrapiter_update T wrap it =
     (let wrap = wrap\<lparr>wi_iter := Some it, wi_valid := tb_valid T it\<rparr>
      in if wi_valid wrap then wrap\<lparr>wi_key := tb_key T it\<rparr> else wrap)"

definition ldb_wrapiter_init :: "'i ldb_itertbl \<Rightarrow> 'i option \<Rightarrow> 'i ldb_wrapiter" where
  "ldb_wrapiter_init T iter =
     (let wrap = \<lparr>wi_iter = iter, wi_valid = False, wi_key = []\<rparr>
      in case iter of None \<Rightarrow> wrap | Some it \<Rightarrow> ldb_wrapiter_update T wrap it)"

definition ldb_wrapiter_set :: "'i ldb_itertbl \<Rightarrow> 'i ldb_wrapiter \<Rightarrow> 'i option \<Rightarrow> 'i ldb_wrapiter" where
  "ldb_wrapiter_set T wrap iter =
     (let wrap = wrap\<lparr>wi_iter := iter, wi_valid := False\<rparr>
      in case iter of None \<Rightarrow> wrap | Some it \<Rightarrow> ldb_wrapiter_update T wrap it)"

definition ldb_wrapiter_valid :: "'i ldb_wrapiter \<Rightarrow> bool" where
  "ldb_wrapiter_valid wrap = wi_valid wrap"

definition wrapiter_call :: "'i ldb_itertbl \<Rightarrow> ('i \<Rightarrow> 'i option) \<Rightarrow> 'i ldb_wrapiter \<Rightarrow> 'i ldb_wrapiter option" where
  "wrapiter_call T f wrap =
     (case wi_iter wrap of None \<Rightarrow> None | Some it \<Rightarrow> map_option (ldb_wrapiter_update T wrap) (f it))"

definition ldb_wrapiter_seek :: "'i ldb_itertbl \<Rightarrow> 'i ldb_wrapiter \<Rightarrow> bytes \<Rightarrow> 'i ldb_wrapiter option" where
  "ldb_wrapiter_seek T wrap k = wrapiter_call T (\<lambda>it. tb_seek T it k) wrap"

definition ldb_wrapiter_first :: "'i ldb_itertbl \<Rightarrow> 'i ldb_wrapiter \<Rightarrow> 'i ldb_wrapiter option" where
  "ldb_wrapiter_first T wrap = wrapiter_call T (tb_first T) wrap"

definition ldb_wrapiter_last :: "'i ldb_itertbl \<Rightarrow> 'i ldb_wrapiter \<Rightarrow> 'i ldb_wrapiter option" where
  "ldb_wrapiter_last T wrap = wrapiter_call T (tb_last T) wrap"

definition ldb_wrapiter_next :: "'i ldb_itertbl \<Rightarrow> 'i ldb_wrapiter \<Rightarrow> 'i ldb_wrapiter option" where
  "ldb_wrapiter_next T wrap = wrapiter_call T (tb_next T) wrap"

definition ldb_wrapiter_prev :: "'i ldb_itertbl \<Rightarrow> 'i ldb_wrapiter \<Rightarrow> 'i ldb_wrapiter option" where
  "ldb_wrapiter_prev T wrap = wrapiter_call T (tb_prev T) wrap"

definition ldb_wrapiter_key :: "'i ldb_wrapiter \<Rightarrow> bytes" where
  "ldb_wrapiter_key wrap = wi_key wrap"

text \<open>With no iterator the assertion fails; there is no value then.\<close>

definition ldb_wrapiter_value :: "'i ldb_itertbl \<Rightarrow> 'i ldb_wrapiter \<Rightarrow> bytes" where
  "ldb_wrapiter_value T wrap = (case wi_iter wrap of None \<Rightarrow> [] | Some it \<Rightarrow> tb_value T it)"

definition ldb_wrapiter_status :: "'i ldb_itertbl \<Rightarrow> 'i ldb_wrapiter \<Rightarrow> status option" where
  "ldb_wrapiter_status T wrap = map_option (tb_status T) (wi_iter wrap)"

section \<open>Tables that meet the contract\<close>

locale iter_table =
  tbl: iter_contract before at "tb_valid T" "tb_key T" "tb_value T" "tb_first T" "tb_last T" "tb_next T" "tb_prev T"
    "tb_seek T" target
  for before at target and T :: "'i ldb_itertbl"

definition wrap_at :: "('i \<Rightarrow> (bytes \<times> bytes) list \<Rightarrow> nat \<Rightarrow> bool) \<Rightarrow> 'i ldb_itertbl \<Rightarrow> 'i ldb_wrapiter \<Rightarrow>
    (bytes \<times> bytes) list \<Rightarrow> nat \<Rightarrow> bool" where
  "wrap_at at T w es k \<longleftrightarrow>
     (\<exists>it. wi_iter w = Some it \<and> at it es k \<and> wi_valid w = tb_valid T it \<and> (wi_valid w \<longrightarrow> wi_key w = tb_key T it))"

lemma wrap_at_update: "at it es k \<Longrightarrow> wrap_at at T (ldb_wrapiter_update T w it) es k"
  by (simp add: wrap_at_def ldb_wrapiter_update_def Let_def)

lemma wrap_at_call:
  assumes "wrap_at at T w es k" "\<And>it. at it es k \<Longrightarrow> \<exists>it'. f it = Some it' \<and> at it' es k'"
  shows "\<exists>w'. wrapiter_call T f w = Some w' \<and> wrap_at at T w' es k'"
proof -
  obtain it where it: "wi_iter w = Some it" "at it es k" using assms(1) by (auto simp: wrap_at_def)
  obtain it' where "f it = Some it'" "at it' es k'" using assms(2) [OF it(2)] by blast
  then show ?thesis using it(1) wrap_at_update [of at it' es k' T w] by (simp add: wrapiter_call_def)
qed

sublocale iter_table \<subseteq> wrap: iter_contract before "wrap_at at T" ldb_wrapiter_valid ldb_wrapiter_key
  "ldb_wrapiter_value T" "ldb_wrapiter_first T" "ldb_wrapiter_last T" "ldb_wrapiter_next T" "ldb_wrapiter_prev T"
  "ldb_wrapiter_seek T" target
proof (unfold_locales, goal_cases)
  case (1 w es k)
  then show ?case using tbl.at_valid by (auto simp: wrap_at_def ldb_wrapiter_valid_def)
next
  case (2 w es k)
  then show ?case
    using tbl.at_valid tbl.at_entry by (auto simp: wrap_at_def ldb_wrapiter_key_def ldb_wrapiter_value_def)
next
  case (3 w es k)
  show ?case unfolding ldb_wrapiter_first_def using tbl.at_first by (rule wrap_at_call [OF 3])
next
  case (4 w es k)
  show ?case unfolding ldb_wrapiter_last_def using tbl.at_final by (rule wrap_at_call [OF 4])
next
  case (5 w es k)
  show ?case unfolding ldb_wrapiter_next_def using tbl.at_step 5(2) by (intro wrap_at_call [OF 5(1)]) blast
next
  case (6 w es k)
  show ?case unfolding ldb_wrapiter_prev_def using tbl.at_back 6(2) by (intro wrap_at_call [OF 6(1)]) blast
next
  case (7 w es k t)
  show ?case unfolding ldb_wrapiter_seek_def using tbl.at_seek 7(2) by (intro wrap_at_call [OF 7(1)]) blast
qed

lemma wrap_at_init: "at it es k \<Longrightarrow> wrap_at at T (ldb_wrapiter_init T (Some it)) es k"
  by (simp add: ldb_wrapiter_init_def Let_def wrap_at_update)

lemma wrap_at_set: "at it es k \<Longrightarrow> wrap_at at T (ldb_wrapiter_set T w (Some it)) es k"
  by (simp add: ldb_wrapiter_set_def Let_def wrap_at_update)

end
