(* ===== verification/Merger.thy ===== *)
theory Merger
  imports Iter_Wrapper
begin

text \<open>
  The merging iterator, \<^verbatim>\<open>engine/src/table/merger.c\<close>, which presents several sorted children as
  one sorted iterator and may change direction at any entry.  The children share a
  function table; \<open>current\<close> is the index of a child.  The theory shows that the merging
  iterator meets the iterator contract whenever its children do and no key occurs twice.
\<close>

datatype ldb_direction = LDB_FORWARD | LDB_REVERSE

record 'i ldb_mergeiter =
  mi_comparator :: ldb_comparator
  mi_children :: "'i ldb_wrapiter list"
  mi_current :: "nat option"
  mi_direction :: ldb_direction

definition ldb_mergeiter_init :: "'i ldb_itertbl \<Rightarrow> ldb_comparator \<Rightarrow> 'i list \<Rightarrow> 'i ldb_mergeiter" where
  "ldb_mergeiter_init T cmp children =
     \<lparr>mi_comparator = cmp, mi_children = map (\<lambda>it. ldb_wrapiter_init T (Some it)) children,
      mi_current = None, mi_direction = LDB_FORWARD\<rparr>"

definition ldb_mergeiter_valid :: "'i ldb_mergeiter \<Rightarrow> bool" where
  "ldb_mergeiter_valid mi \<longleftrightarrow> mi_current mi \<noteq> None"

text \<open>Without a current child the assertion fails; the result is then arbitrary.\<close>

definition ldb_mergeiter_key :: "'i ldb_mergeiter \<Rightarrow> bytes" where
  "ldb_mergeiter_key mi =
     (case mi_current mi of None \<Rightarrow> [] | Some i \<Rightarrow> ldb_wrapiter_key (mi_children mi ! i))"

definition ldb_mergeiter_value :: "'i ldb_itertbl \<Rightarrow> 'i ldb_mergeiter \<Rightarrow> bytes" where
  "ldb_mergeiter_value T mi =
     (case mi_current mi of None \<Rightarrow> [] | Some i \<Rightarrow> ldb_wrapiter_value T (mi_children mi ! i))"

fun mergeiter_status_from :: "'i ldb_itertbl \<Rightarrow> 'i ldb_wrapiter list \<Rightarrow> status option" where
  "mergeiter_status_from T [] = Some OK"
| "mergeiter_status_from T (w # ws) =
     (case ldb_wrapiter_status T w of None \<Rightarrow> None
      | Some rc \<Rightarrow> if rc \<noteq> OK then Some rc else mergeiter_status_from T ws)"

definition ldb_mergeiter_status :: "'i ldb_itertbl \<Rightarrow> 'i ldb_mergeiter \<Rightarrow> status option" where
  "ldb_mergeiter_status T mi = mergeiter_status_from T (mi_children mi)"

text \<open>The scan of both searches: the valid child that no later one in the scan replaces.\<close>

fun pick_child :: "(bytes \<Rightarrow> bytes \<Rightarrow> bool) \<Rightarrow> 'i ldb_wrapiter list \<Rightarrow> nat list \<Rightarrow> nat option \<Rightarrow> nat option" where
  "pick_child better ch [] best = best"
| "pick_child better ch (i # is) best =
     pick_child better ch is
       (if ldb_wrapiter_valid (ch ! i) then
          (case best of None \<Rightarrow> Some i
           | Some j \<Rightarrow> if better (ldb_wrapiter_key (ch ! i)) (ldb_wrapiter_key (ch ! j)) then Some i else best)
        else best)"

definition ldb_mergeiter_find_smallest :: "'i ldb_mergeiter \<Rightarrow> 'i ldb_mergeiter" where
  "ldb_mergeiter_find_smallest mi =
     mi\<lparr>mi_current := pick_child (\<lambda>x y. ldb_compare (mi_comparator mi) x y < 0) (mi_children mi)
                       [0..<length (mi_children mi)] None\<rparr>"

definition ldb_mergeiter_find_largest :: "'i ldb_mergeiter \<Rightarrow> 'i ldb_mergeiter" where
  "ldb_mergeiter_find_largest mi =
     mi\<lparr>mi_current := pick_child (\<lambda>x y. ldb_compare (mi_comparator mi) x y > 0) (mi_children mi)
                       (rev [0..<length (mi_children mi)]) None\<rparr>"

text \<open>The loops over the children; \<open>None\<close> if an operation of a child does not return.\<close>

definition each_child :: "(nat \<Rightarrow> 'i ldb_wrapiter \<Rightarrow> 'i ldb_wrapiter option) \<Rightarrow> 'i ldb_mergeiter \<Rightarrow> 'i ldb_mergeiter option" where
  "each_child f mi =
     map_option (\<lambda>ch. mi\<lparr>mi_children := ch\<rparr>)
       (those (map (\<lambda>i. f i (mi_children mi ! i)) [0..<length (mi_children mi)]))"

definition ldb_mergeiter_first :: "'i ldb_itertbl \<Rightarrow> 'i ldb_mergeiter \<Rightarrow> 'i ldb_mergeiter option" where
  "ldb_mergeiter_first T mi =
     map_option (\<lambda>mi. (ldb_mergeiter_find_smallest mi)\<lparr>mi_direction := LDB_FORWARD\<rparr>)
       (each_child (\<lambda>_. ldb_wrapiter_first T) mi)"

definition ldb_mergeiter_last :: "'i ldb_itertbl \<Rightarrow> 'i ldb_mergeiter \<Rightarrow> 'i ldb_mergeiter option" where
  "ldb_mergeiter_last T mi =
     map_option (\<lambda>mi. (ldb_mergeiter_find_largest mi)\<lparr>mi_direction := LDB_REVERSE\<rparr>)
       (each_child (\<lambda>_. ldb_wrapiter_last T) mi)"

definition ldb_mergeiter_seek :: "'i ldb_itertbl \<Rightarrow> 'i ldb_mergeiter \<Rightarrow> bytes \<Rightarrow> 'i ldb_mergeiter option" where
  "ldb_mergeiter_seek T mi target =
     map_option (\<lambda>mi. (ldb_mergeiter_find_smallest mi)\<lparr>mi_direction := LDB_FORWARD\<rparr>)
       (each_child (\<lambda>_ child. ldb_wrapiter_seek T child target) mi)"

text \<open>Positioning a child that is not current after, or before, the key of the iterator.\<close>

definition child_after :: "'i ldb_itertbl \<Rightarrow> ldb_comparator \<Rightarrow> bytes \<Rightarrow> 'i ldb_wrapiter \<Rightarrow> 'i ldb_wrapiter option" where
  "child_after T cmp mi_key child =
     Option.bind (ldb_wrapiter_seek T child mi_key) (\<lambda>child.
       if ldb_wrapiter_valid child then
         if ldb_compare cmp mi_key (ldb_wrapiter_key child) = 0 then ldb_wrapiter_next T child else Some child
       else Some child)"

definition child_before :: "'i ldb_itertbl \<Rightarrow> bytes \<Rightarrow> 'i ldb_wrapiter \<Rightarrow> 'i ldb_wrapiter option" where
  "child_before T mi_key child =
     Option.bind (ldb_wrapiter_seek T child mi_key) (\<lambda>child.
       if ldb_wrapiter_valid child then ldb_wrapiter_prev T child else ldb_wrapiter_last T child)"

definition move_current :: "('i ldb_wrapiter \<Rightarrow> 'i ldb_wrapiter option) \<Rightarrow> 'i ldb_mergeiter \<Rightarrow> 'i ldb_mergeiter option" where
  "move_current f mi =
     (case mi_current mi of None \<Rightarrow> None
      | Some i \<Rightarrow> map_option (\<lambda>w. mi\<lparr>mi_children := (mi_children mi)[i := w]\<rparr>) (f (mi_children mi ! i)))"

definition ldb_mergeiter_next :: "'i ldb_itertbl \<Rightarrow> 'i ldb_mergeiter \<Rightarrow> 'i ldb_mergeiter option" where
  "ldb_mergeiter_next T mi =
     Option.bind
       (if mi_direction mi \<noteq> LDB_FORWARD then
          map_option (\<lambda>mi. mi\<lparr>mi_direction := LDB_FORWARD\<rparr>)
            (each_child (\<lambda>i child. if Some i \<noteq> mi_current mi
                                   then child_after T (mi_comparator mi) (ldb_mergeiter_key mi) child
                                   else Some child) mi)
        else Some mi)
       (\<lambda>mi. map_option ldb_mergeiter_find_smallest (move_current (ldb_wrapiter_next T) mi))"

definition ldb_mergeiter_prev :: "'i ldb_itertbl \<Rightarrow> 'i ldb_mergeiter \<Rightarrow> 'i ldb_mergeiter option" where
  "ldb_mergeiter_prev T mi =
     Option.bind
       (if mi_direction mi \<noteq> LDB_REVERSE then
          map_option (\<lambda>mi. mi\<lparr>mi_direction := LDB_REVERSE\<rparr>)
            (each_child (\<lambda>i child. if Some i \<noteq> mi_current mi
                                   then child_before T (ldb_mergeiter_key mi) child
                                   else Some child) mi)
        else Some mi)
       (\<lambda>mi. map_option ldb_mergeiter_find_largest (move_current (ldb_wrapiter_prev T) mi))"

text \<open>No child gives the empty iterator, one child is returned as it is.\<close>

datatype 'i merged = Empty_Iter status | Only_Child 'i | Merged "'i ldb_mergeiter"

definition ldb_mergeiter_create :: "'i ldb_itertbl \<Rightarrow> ldb_comparator \<Rightarrow> 'i list \<Rightarrow> 'i merged" where
  "ldb_mergeiter_create T cmp children =
     (if length children = 0 then Empty_Iter OK
      else if length children = 1 then Only_Child (children ! 0)
      else Merged (ldb_mergeiter_init T cmp children))"

section \<open>Interleavings\<close>

text \<open>
  The merged list as entries tagged with their child, the entries of child \<open>i\<close>, and the
  positions of child \<open>i\<close> when the merged iterator stands at \<open>k\<close>: at its first entry from
  \<open>k\<close> on, or at its last entry before \<open>k\<close>.
\<close>

type_synonym entry = "bytes \<times> bytes"

definition child_es :: "(nat \<times> entry) list \<Rightarrow> nat \<Rightarrow> entry list" where
  "child_es ts i = map snd (filter (\<lambda>t. fst t = i) ts)"

definition fpos :: "(nat \<times> entry) list \<Rightarrow> nat \<Rightarrow> nat \<Rightarrow> nat" where
  "fpos ts i k = length (filter (\<lambda>t. fst t = i) (take k ts))"

definition rpos :: "(nat \<times> entry) list \<Rightarrow> nat \<Rightarrow> nat \<Rightarrow> nat" where
  "rpos ts i k = (if fpos ts i k = 0 then length (child_es ts i) else fpos ts i k - 1)"

lemma fpos_0 [simp]: "fpos ts i 0 = 0"
  by (simp add: fpos_def)

lemma fpos_length: "fpos ts i (length ts) = length (child_es ts i)"
  by (simp add: fpos_def child_es_def)

lemma fpos_Suc: "k < length ts \<Longrightarrow> fpos ts i (Suc k) = fpos ts i k + (if fst (ts ! k) = i then 1 else 0)"
  by (simp add: fpos_def take_Suc_conv_app_nth)

lemma child_es_split: "child_es ts i = child_es (take k ts) i @ child_es (drop k ts) i"
  unfolding child_es_def map_append [symmetric] filter_append [symmetric] append_take_drop_id ..

lemma fpos_take: "fpos ts i k = length (child_es (take k ts) i)"
  by (simp add: fpos_def child_es_def)

lemma fpos_le: "fpos ts i k \<le> length (child_es ts i)"
  using child_es_split [of ts i k] by (simp add: fpos_take)

text \<open>The entry of child \<open>i\<close> at \<open>fpos\<close> is the first of its entries from \<open>k\<close> on.\<close>

lemma fpos_entry:
  assumes "fpos ts i k < length (child_es ts i)"
  obtains j where "k \<le> j" "j < length ts" "fst (ts ! j) = i" "child_es ts i ! fpos ts i k = snd (ts ! j)"
proof -
  have ne: "filter (\<lambda>t. fst t = i) (drop k ts) \<noteq> []"
    using assms arg_cong [OF child_es_split [of ts i k], of length] by (auto simp: fpos_take child_es_def)
  have e: "child_es ts i ! fpos ts i k = snd (hd (filter (\<lambda>t. fst t = i) (drop k ts)))"
    using ne by (subst child_es_split [of ts i k]) (simp add: fpos_take child_es_def nth_append hd_map hd_conv_nth)
  have "hd (filter (\<lambda>t. fst t = i) (drop k ts)) \<in> set (filter (\<lambda>t. fst t = i) (drop k ts))"
    using ne by (rule hd_in_set)
  then obtain j where "j < length (drop k ts)" "drop k ts ! j = hd (filter (\<lambda>t. fst t = i) (drop k ts))"
      "fst (hd (filter (\<lambda>t. fst t = i) (drop k ts))) = i"
    by (auto simp: in_set_conv_nth)
  then show thesis using e by (intro that [of "k + j"]) auto
qed

lemma fpos_current:
  assumes "k < length ts"
  shows "fpos ts (fst (ts ! k)) k < length (child_es ts (fst (ts ! k)))"
    "child_es ts (fst (ts ! k)) ! fpos ts (fst (ts ! k)) k = snd (ts ! k)"
proof -
  let ?i = "fst (ts ! k)"
  have "child_es (drop k ts) ?i = snd (ts ! k) # child_es (drop (Suc k) ts) ?i"
    using assms by (simp add: child_es_def flip: Cons_nth_drop_Suc)
  then show "fpos ts ?i k < length (child_es ts ?i)" "child_es ts ?i ! fpos ts ?i k = snd (ts ! k)"
    using child_es_split [of ts ?i k] by (simp_all add: fpos_take nth_append)
qed

lemma rpos_entry:
  assumes "rpos ts i k < length (child_es ts i)"
  obtains j where "j < k" "j < length ts" "fst (ts ! j) = i" "child_es ts i ! rpos ts i k = snd (ts ! j)"
proof -
  have pos: "fpos ts i k \<noteq> 0" using assms by (auto simp: rpos_def split: if_splits)
  let ?f = "filter (\<lambda>t. fst t = i) (take k ts)"
  have "child_es ts i ! rpos ts i k = snd (?f ! (length ?f - 1))"
    using pos by (subst child_es_split [of ts i k]) (simp add: rpos_def fpos_def nth_append child_es_def)
  moreover have "?f ! (length ?f - 1) \<in> set ?f" using pos by (intro nth_mem) (simp add: fpos_def)
  ultimately show thesis using that by (auto simp: in_set_conv_nth)
qed

lemma rpos_current:
  assumes "k < length ts"
  shows "rpos ts (fst (ts ! k)) (Suc k) = fpos ts (fst (ts ! k)) k"
    "i \<noteq> fst (ts ! k) \<Longrightarrow> rpos ts i (Suc k) = rpos ts i k"
  using assms by (simp_all add: rpos_def fpos_Suc)

lemma pick_child_best:
  assumes "m \<in> set is \<and> (best = None \<or> (\<exists>j. best = Some j \<and> better (key m) (key j))) \<or> best = Some m"
    and "ldb_wrapiter_valid (ch ! m)"
    and "\<And>i. i \<in> set is \<Longrightarrow> ldb_wrapiter_valid (ch ! i) \<Longrightarrow> i \<noteq> m \<Longrightarrow> better (key m) (key i) \<and> \<not> better (key i) (key m)"
    and "\<not> better (key m) (key m)"
    and key: "\<And>i. key i = ldb_wrapiter_key (ch ! i)"
  shows "pick_child better ch is best = Some m"
  using assms(1,3)
proof (induction "is" arbitrary: best)
  case (Cons i "is")
  let ?b = "if ldb_wrapiter_valid (ch ! i) then
      (case best of None \<Rightarrow> Some i | Some j \<Rightarrow> if better (key i) (key j) then Some i else best) else best"
  have "m \<in> set is \<and> (?b = None \<or> (\<exists>j. ?b = Some j \<and> better (key m) (key j))) \<or> ?b = Some m"
    using Cons.prems(1) Cons.prems(2) [of i] assms(2,4) by (cases best) auto
  then have "pick_child better ch is ?b = Some m" by (rule Cons.IH) (simp add: Cons.prems(2))
  then show ?case unfolding key pick_child.simps .
qed auto

lemma pick_child_none:
  "\<forall>i \<in> set is. \<not> ldb_wrapiter_valid (ch ! i) \<Longrightarrow> pick_child better ch is best = best"
  by (induction "is") simp_all

lemma those_map_Some: "(\<And>x. x \<in> set xs \<Longrightarrow> f x = Some (g x)) \<Longrightarrow> those (map f xs) = Some (map g xs)"
  by (induction xs) simp_all

lemma each_child_map:
  assumes "\<And>i. i < length (mi_children mi) \<Longrightarrow> \<exists>w. f i (mi_children mi ! i) = Some w \<and> P i w"
  obtains ch where "each_child f mi = Some (mi\<lparr>mi_children := ch\<rparr>)" "length ch = length (mi_children mi)"
    "\<And>i. i < length ch \<Longrightarrow> P i (ch ! i)"
proof -
  define g where "g i = the (f i (mi_children mi ! i))" for i
  have g: "f i (mi_children mi ! i) = Some (g i) \<and> P i (g i)" if "i < length (mi_children mi)" for i
    using assms [OF that] by (auto simp: g_def)
  have "those (map (\<lambda>i. f i (mi_children mi ! i)) [0..<length (mi_children mi)]) = Some (map g [0..<length (mi_children mi)])"
    using g by (intro those_map_Some) simp
  then show thesis using g by (intro that [of "map g [0..<length (mi_children mi)]"]) (simp_all add: each_child_def)
qed

section \<open>The merging iterator over a table\<close>

definition children_at :: "('i ldb_wrapiter \<Rightarrow> entry list \<Rightarrow> nat \<Rightarrow> bool) \<Rightarrow> (nat \<times> entry) list \<Rightarrow>
    'i ldb_wrapiter list \<Rightarrow> (nat \<Rightarrow> nat) \<Rightarrow> bool" where
  "children_at wat ts ch pos \<longleftrightarrow> (\<forall>i < length ch. wat (ch ! i) (child_es ts i) (pos i))"

text \<open>The merged list is strictly sorted, belongs to the children and may be sought.\<close>

definition merge_lists :: "ldb_comparator \<Rightarrow> (bytes \<Rightarrow> bool) \<Rightarrow> (nat \<times> entry) list \<Rightarrow> nat \<Rightarrow> bool" where
  "merge_lists c target ts n \<longleftrightarrow>
     sorted_wrt (\<lambda>x y. ldb_compare c (fst (snd x)) (fst (snd y)) < 0) ts \<and>
     (\<forall>t \<in> set ts. fst t < n \<and> target (fst (snd t)))"

definition mergeiter_on :: "ldb_comparator \<Rightarrow> ('i ldb_wrapiter \<Rightarrow> entry list \<Rightarrow> nat \<Rightarrow> bool) \<Rightarrow> (bytes \<Rightarrow> bool) \<Rightarrow>
    'i ldb_mergeiter \<Rightarrow> (nat \<times> entry) list \<Rightarrow> nat \<Rightarrow> bool" where
  "mergeiter_on c wat target mi ts k \<longleftrightarrow> mi_comparator mi = c \<and> k \<le> length ts \<and>
     merge_lists c target ts (length (mi_children mi)) \<and> (\<exists>pos. children_at wat ts (mi_children mi) pos) \<and>
     mi_current mi = (if k < length ts then Some (fst (ts ! k)) else None) \<and>
     (k < length ts \<longrightarrow> children_at wat ts (mi_children mi)
        (if mi_direction mi = LDB_FORWARD then (\<lambda>i. fpos ts i k) else (\<lambda>i. rpos ts i (Suc k))))"

definition mergeiter_at where
  "mergeiter_at c wat target mi es k \<longleftrightarrow> (\<exists>ts. es = map snd ts \<and> mergeiter_on c wat target mi ts k)"

locale merging = comparator "ldb_compare c" "\<lambda>_. True" + iter_table "\<lambda>x y. ldb_compare c x y < 0" at target T
  for c :: ldb_comparator and at target and T :: "'i ldb_itertbl"
begin

lemma sorted_key_less:
  assumes "sorted_wrt (\<lambda>x y. ldb_compare c (fst (snd x)) (fst (snd y)) < 0) ts" "i < length ts" "j < length ts"
  shows "ldb_compare c (fst (snd (ts ! i))) (fst (snd (ts ! j))) < 0 \<longleftrightarrow> i < j"
proof (cases i j rule: linorder_cases)
  case less
  then show ?thesis using assms sorted_wrt_nth_less by fastforce
next
  case equal
  then show ?thesis using cmp_refl by simp
next
  case greater
  then have "ldb_compare c (fst (snd (ts ! j))) (fst (snd (ts ! i))) < 0" using assms sorted_wrt_nth_less by fastforce
  then show ?thesis using greater cmp_gt_iff [of "fst (snd (ts ! j))" "fst (snd (ts ! i))"] by simp
qed

text \<open>Seeking in a child counts its entries before the place of the target in the merged list.\<close>

lemma child_seek_pos:
  assumes "sorted_wrt (\<lambda>x y. ldb_compare c (fst (snd x)) (fst (snd y)) < 0) ts"
  shows "length (takeWhile (\<lambda>e. ldb_compare c (fst e) t < 0) (child_es ts i)) =
    fpos ts i (length (takeWhile (\<lambda>e. ldb_compare c (fst e) t < 0) (map snd ts)))"
  using assms
proof (induction ts)
  case (Cons x ts)
  show ?case
  proof (cases "ldb_compare c (fst (snd x)) t < 0")
    case True
    then show ?thesis using Cons by (simp add: child_es_def fpos_def)
  next
    case False
    have "\<not> ldb_compare c (fst (snd y)) t < 0" if "y \<in> set ts" for y
      using False Cons.prems that cmp_less_trans [of "fst (snd x)" "fst (snd y)" t] by auto
    then have "\<forall>e \<in> set (child_es (x # ts) i). \<not> ldb_compare c (fst e) t < 0"
      using False by (auto simp: child_es_def)
    then have "takeWhile (\<lambda>e. ldb_compare c (fst e) t < 0) (child_es (x # ts) i) = []"
      by (cases "child_es (x # ts) i") auto
    then show ?thesis using False by simp
  qed
qed (simp add: child_es_def fpos_def)

lemma seek_own_key:
  assumes "sorted_wrt (\<lambda>x y. ldb_compare c (fst (snd x)) (fst (snd y)) < 0) ts" "k < length ts"
  shows "length (takeWhile (\<lambda>e. ldb_compare c (fst e) (fst (snd (ts ! k))) < 0) (map snd ts)) = k"
proof -
  have "takeWhile (\<lambda>e. ldb_compare c (fst e) (fst (snd (ts ! k))) < 0) (map snd ts) = take k (map snd ts)"
    by (rule takeWhile_eq_take_P_nth) (use assms(2) sorted_key_less [OF assms(1)] in auto)
  then show ?thesis using assms(2) by simp
qed

lemma wrap_entry:
  assumes "wrap_at at T w es p"
  shows "ldb_wrapiter_valid w \<longleftrightarrow> p < length es" "p < length es \<Longrightarrow> ldb_wrapiter_key w = fst (es ! p)"
    "p < length es \<Longrightarrow> ldb_wrapiter_value T w = snd (es ! p)"
  using wrap.at_valid [OF assms] wrap.at_entry [OF assms] by (auto dest: sym)

lemma pick_smallest:
  assumes m: "merge_lists c target ts (length ch)" and ch: "children_at (wrap_at at T) ts ch (\<lambda>i. fpos ts i k)"
    and "k \<le> length ts"
  shows "pick_child (\<lambda>x y. ldb_compare c x y < 0) ch [0..<length ch] None =
    (if k < length ts then Some (fst (ts ! k)) else None)"
proof -
  have w: "wrap_at at T (ch ! i) (child_es ts i) (fpos ts i k)" if "i < length ch" for i
    using ch that by (simp add: children_at_def)
  have s: "sorted_wrt (\<lambda>x y. ldb_compare c (fst (snd x)) (fst (snd y)) < 0) ts" using m by (simp add: merge_lists_def)
  show ?thesis
  proof (cases "k < length ts")
    case True
    let ?m = "fst (ts ! k)"
    have own: "?m < length ch" using m True by (auto simp: merge_lists_def)
    note cur = wrap_entry [OF w [OF own]] fpos_current [OF True]
    have "pick_child (\<lambda>x y. ldb_compare c x y < 0) ch [0..<length ch] None = Some ?m"
    proof (rule pick_child_best [of _ _ _ _ "\<lambda>i. ldb_wrapiter_key (ch ! i)"])
      fix i assume i: "i \<in> set [0..<length ch]" "ldb_wrapiter_valid (ch ! i)" "i \<noteq> ?m"
      then have wi: "wrap_at at T (ch ! i) (child_es ts i) (fpos ts i k)" using w by simp
      with i have "fpos ts i k < length (child_es ts i)" using wrap_entry(1) by blast
      then obtain j where j: "k \<le> j" "j < length ts" "fst (ts ! j) = i" "child_es ts i ! fpos ts i k = snd (ts ! j)"
        by (rule fpos_entry)
      then have "k < j" using i(3) by (cases "j = k") auto
      then show "ldb_compare c (ldb_wrapiter_key (ch ! ?m)) (ldb_wrapiter_key (ch ! i)) < 0 \<and>
          \<not> ldb_compare c (ldb_wrapiter_key (ch ! i)) (ldb_wrapiter_key (ch ! ?m)) < 0"
        using cur wrap_entry(2) [OF wi] \<open>fpos ts i k < length (child_es ts i)\<close> j sorted_key_less [OF s] True by simp
    qed (use own cur cmp_refl in simp_all)
    then show ?thesis using True by simp
  next
    case False
    then have "k = length ts" using assms(3) by simp
    then show ?thesis using pick_child_none [of "[0..<length ch]" ch] wrap_entry(1) [OF w] fpos_length [of ts] by simp
  qed
qed

lemma pick_largest:
  assumes m: "merge_lists c target ts (length ch)" and ch: "children_at (wrap_at at T) ts ch (\<lambda>i. rpos ts i k)"
    and "k \<le> length ts"
  shows "pick_child (\<lambda>x y. ldb_compare c x y > 0) ch (rev [0..<length ch]) None =
    (if 0 < k then Some (fst (ts ! (k - 1))) else None)"
proof -
  have w: "wrap_at at T (ch ! i) (child_es ts i) (rpos ts i k)" if "i < length ch" for i
    using ch that by (simp add: children_at_def)
  have s: "sorted_wrt (\<lambda>x y. ldb_compare c (fst (snd x)) (fst (snd y)) < 0) ts" using m by (simp add: merge_lists_def)
  show ?thesis
  proof (cases k)
    case (Suc l)
    then have l: "l < length ts" using assms(3) by simp
    let ?m = "fst (ts ! l)"
    have own: "?m < length ch" using m l by (auto simp: merge_lists_def)
    note cur = wrap_entry [OF w [OF own], unfolded Suc rpos_current(1) [OF l]] fpos_current [OF l]
    have "pick_child (\<lambda>x y. ldb_compare c x y > 0) ch (rev [0..<length ch]) None = Some ?m"
    proof (rule pick_child_best [of _ _ _ _ "\<lambda>i. ldb_wrapiter_key (ch ! i)"])
      fix i assume i: "i \<in> set (rev [0..<length ch])" "ldb_wrapiter_valid (ch ! i)" "i \<noteq> ?m"
      then have wi: "wrap_at at T (ch ! i) (child_es ts i) (rpos ts i k)" using w by simp
      with i have v: "rpos ts i k < length (child_es ts i)" using wrap_entry(1) by blast
      then obtain j where j: "j < k" "j < length ts" "fst (ts ! j) = i" "child_es ts i ! rpos ts i k = snd (ts ! j)"
        by (rule rpos_entry)
      then have "j < l" using i(3) Suc by (cases "j = l") auto
      then show "0 < ldb_compare c (ldb_wrapiter_key (ch ! ?m)) (ldb_wrapiter_key (ch ! i)) \<and>
          \<not> 0 < ldb_compare c (ldb_wrapiter_key (ch ! i)) (ldb_wrapiter_key (ch ! ?m))"
        using cur wrap_entry(2) [OF wi v] j sorted_key_less [OF s] l cmp_gt_iff by simp
    qed (use own cur cmp_refl in simp_all)
    then show ?thesis using Suc by simp
  next
    case 0
    then show ?thesis using pick_child_none [of "rev [0..<length ch]" ch] wrap_entry(1) [OF w] by (simp add: rpos_def)
  qed
qed

lemma smallest_at:
  assumes "mi_comparator mi = c" "merge_lists c target ts (length (mi_children mi))" "k \<le> length ts"
    "children_at (wrap_at at T) ts (mi_children mi) (\<lambda>i. fpos ts i k)" "mi_direction mi = LDB_FORWARD"
  shows "mergeiter_on c (wrap_at at T) target (ldb_mergeiter_find_smallest mi) ts k"
  using assms pick_smallest [OF assms(2,4,3)]
  by (auto simp: mergeiter_on_def ldb_mergeiter_find_smallest_def)

lemma largest_at:
  assumes "mi_comparator mi = c" "merge_lists c target ts (length (mi_children mi))" "k \<le> length ts"
    "children_at (wrap_at at T) ts (mi_children mi) (\<lambda>i. rpos ts i k)" "mi_direction mi = LDB_REVERSE"
  shows "mergeiter_on c (wrap_at at T) target (ldb_mergeiter_find_largest mi) ts (if k = 0 then length ts else k - 1)"
  using assms pick_largest [OF assms(2,4,3)]
  by (auto simp: mergeiter_on_def ldb_mergeiter_find_largest_def)

lemma mergeiter_onD:
  assumes "mergeiter_on c (wrap_at at T) target mi ts k"
  shows "mi_comparator mi = c" "k \<le> length ts" "merge_lists c target ts (length (mi_children mi))"
    "sorted_wrt (\<lambda>x y. ldb_compare c (fst (snd x)) (fst (snd y)) < 0) ts"
    "\<And>i. i < length (mi_children mi) \<Longrightarrow> \<exists>p. wrap_at at T (mi_children mi ! i) (child_es ts i) p"
    "k < length ts \<Longrightarrow> mi_current mi = Some (fst (ts ! k))" "k < length ts \<Longrightarrow> fst (ts ! k) < length (mi_children mi)"
    "k < length ts \<Longrightarrow> target (fst (snd (ts ! k)))"
  using assms by (auto simp: mergeiter_on_def merge_lists_def children_at_def)

lemma on_positions:
  assumes "mergeiter_on c (wrap_at at T) target mi ts k" "k < length ts"
  shows "mi_direction mi = LDB_FORWARD \<Longrightarrow> children_at (wrap_at at T) ts (mi_children mi) (\<lambda>i. fpos ts i k)"
    "mi_direction mi \<noteq> LDB_FORWARD \<Longrightarrow> children_at (wrap_at at T) ts (mi_children mi) (\<lambda>i. rpos ts i (Suc k))"
    "wrap_at at T (mi_children mi ! fst (ts ! k)) (child_es ts (fst (ts ! k))) (fpos ts (fst (ts ! k)) k)"
  using assms mergeiter_onD(7) [OF assms(1)] rpos_current(1) [OF assms(2)]
  by (auto simp: mergeiter_on_def children_at_def split: if_splits)

lemma on_entry:
  assumes "mergeiter_on c (wrap_at at T) target mi ts k" "k < length ts"
  shows "ldb_mergeiter_key mi = fst (snd (ts ! k))" "ldb_mergeiter_value T mi = snd (snd (ts ! k))"
  using wrap_entry [OF on_positions(3) [OF assms]] fpos_current [OF assms(2)] mergeiter_onD(6) [OF assms(1)] assms(2)
  by (simp_all add: ldb_mergeiter_key_def ldb_mergeiter_value_def)

lemma on_each:
  assumes on: "mergeiter_on c (wrap_at at T) target mi ts k"
    and f: "\<And>i. i < length (mi_children mi) \<Longrightarrow> \<exists>w'. f i (mi_children mi ! i) = Some w' \<and> wrap_at at T w' (child_es ts i) (pos i)"
  shows "\<exists>mi'. each_child f mi = Some mi' \<and> mi_comparator mi' = c \<and> mi_current mi' = mi_current mi \<and>
    merge_lists c target ts (length (mi_children mi')) \<and> children_at (wrap_at at T) ts (mi_children mi') pos"
proof (rule each_child_map [of mi f "\<lambda>i w'. wrap_at at T w' (child_es ts i) (pos i)"])
  fix ch assume "each_child f mi = Some (mi\<lparr>mi_children := ch\<rparr>)" "length ch = length (mi_children mi)"
    "\<And>i. i < length ch \<Longrightarrow> wrap_at at T (ch ! i) (child_es ts i) (pos i)"
  then show ?thesis using mergeiter_onD(1,3) [OF on] by (simp add: children_at_def)
qed (rule f)

lemma on_first:
  assumes "mergeiter_on c (wrap_at at T) target mi ts k"
  shows "\<exists>mi'. ldb_mergeiter_first T mi = Some mi' \<and> mergeiter_on c (wrap_at at T) target mi' ts 0"
proof -
  obtain mi' where mi': "each_child (\<lambda>_. ldb_wrapiter_first T) mi = Some mi'" "mi_comparator mi' = c"
      "merge_lists c target ts (length (mi_children mi'))" "children_at (wrap_at at T) ts (mi_children mi') (\<lambda>i. fpos ts i 0)"
    using on_each [OF assms, of "\<lambda>_. ldb_wrapiter_first T" "\<lambda>i. fpos ts i 0"] wrap.at_first mergeiter_onD(5) [OF assms]
    by (metis fpos_0)
  have "(ldb_mergeiter_find_smallest mi')\<lparr>mi_direction := LDB_FORWARD\<rparr> =
      ldb_mergeiter_find_smallest (mi'\<lparr>mi_direction := LDB_FORWARD\<rparr>)"
    by (simp add: ldb_mergeiter_find_smallest_def)
  then show ?thesis
    using mi' smallest_at [of "mi'\<lparr>mi_direction := LDB_FORWARD\<rparr>" ts 0] by (simp add: ldb_mergeiter_first_def)
qed

lemma on_seek:
  assumes "mergeiter_on c (wrap_at at T) target mi ts k" "target t"
  shows "\<exists>mi'. ldb_mergeiter_seek T mi t = Some mi' \<and> mergeiter_on c (wrap_at at T) target mi' ts
    (length (takeWhile (\<lambda>e. ldb_compare c (fst e) t < 0) (map snd ts)))"
proof -
  let ?l = "length (takeWhile (\<lambda>e. ldb_compare c (fst e) t < 0) (map snd ts))"
  note pos = child_seek_pos [OF mergeiter_onD(4) [OF assms(1)], of t]
  have "\<exists>w'. ldb_wrapiter_seek T (mi_children mi ! i) t = Some w' \<and> wrap_at at T w' (child_es ts i) (fpos ts i ?l)"
    if "i < length (mi_children mi)" for i
    using wrap.at_seek [OF _ assms(2)] mergeiter_onD(5) [OF assms(1) that] unfolding pos [symmetric] by blast
  note each = on_each [OF assms(1), of "\<lambda>_ w. ldb_wrapiter_seek T w t", OF this]
  obtain mi' where mi': "each_child (\<lambda>_ w. ldb_wrapiter_seek T w t) mi = Some mi'" "mi_comparator mi' = c"
      "merge_lists c target ts (length (mi_children mi'))" "children_at (wrap_at at T) ts (mi_children mi') (\<lambda>i. fpos ts i ?l)"
    using each by blast
  have "(ldb_mergeiter_find_smallest mi')\<lparr>mi_direction := LDB_FORWARD\<rparr> =
      ldb_mergeiter_find_smallest (mi'\<lparr>mi_direction := LDB_FORWARD\<rparr>)"
    by (simp add: ldb_mergeiter_find_smallest_def)
  moreover have "?l \<le> length ts" using length_takeWhile_le [of _ "map snd ts"] by simp
  ultimately show ?thesis
    using mi' smallest_at [of "mi'\<lparr>mi_direction := LDB_FORWARD\<rparr>" ts ?l] by (simp add: ldb_mergeiter_seek_def)
qed

lemma rpos_final: "(if child_es ts i = [] then 0 else length (child_es ts i) - 1) = rpos ts i (length ts)"
  by (simp add: rpos_def fpos_length)

lemma on_last:
  assumes "mergeiter_on c (wrap_at at T) target mi ts k"
  shows "\<exists>mi'. ldb_mergeiter_last T mi = Some mi' \<and>
    mergeiter_on c (wrap_at at T) target mi' ts (if ts = [] then 0 else length ts - 1)"
proof -
  have "\<exists>w'. ldb_wrapiter_last T (mi_children mi ! i) = Some w' \<and> wrap_at at T w' (child_es ts i) (rpos ts i (length ts))"
    if "i < length (mi_children mi)" for i
    using wrap.at_final mergeiter_onD(5) [OF assms(1) that] unfolding rpos_final [symmetric] by blast
  note each = on_each [OF assms(1), of "\<lambda>_. ldb_wrapiter_last T", OF this]
  obtain mi' where mi': "each_child (\<lambda>_. ldb_wrapiter_last T) mi = Some mi'" "mi_comparator mi' = c"
      "merge_lists c target ts (length (mi_children mi'))"
      "children_at (wrap_at at T) ts (mi_children mi') (\<lambda>i. rpos ts i (length ts))"
    using each by blast
  have "(ldb_mergeiter_find_largest mi')\<lparr>mi_direction := LDB_REVERSE\<rparr> =
      ldb_mergeiter_find_largest (mi'\<lparr>mi_direction := LDB_REVERSE\<rparr>)"
    by (simp add: ldb_mergeiter_find_largest_def)
  then show ?thesis
    using mi' largest_at [of "mi'\<lparr>mi_direction := LDB_REVERSE\<rparr>" ts "length ts"]
    by (simp add: ldb_mergeiter_last_def split: if_splits)
qed

lemma turn_forward:
  assumes on: "mergeiter_on c (wrap_at at T) target mi ts k" and k: "k < length ts"
    and i: "i < length (mi_children mi)"
  shows "\<exists>w'. (if Some i \<noteq> mi_current mi then child_after T (mi_comparator mi) (ldb_mergeiter_key mi) (mi_children mi ! i)
      else Some (mi_children mi ! i)) = Some w' \<and> wrap_at at T w' (child_es ts i) (fpos ts i k)"
proof (cases "i = fst (ts ! k)")
  case True
  then show ?thesis using mergeiter_onD(6) [OF on k] on_positions(3) [OF on k] by simp
next
  case False
  note s = mergeiter_onD(4) [OF on] and key = on_entry(1) [OF on k]
  obtain p where p: "wrap_at at T (mi_children mi ! i) (child_es ts i) p" using mergeiter_onD(5) [OF on i] by blast
  obtain w where w: "ldb_wrapiter_seek T (mi_children mi ! i) (ldb_mergeiter_key mi) = Some w"
      "wrap_at at T w (child_es ts i) (fpos ts i k)"
    using wrap.at_seek [OF p mergeiter_onD(8) [OF on k]] child_seek_pos [OF s] seek_own_key [OF s k] key by auto
  have "ldb_compare c (ldb_mergeiter_key mi) (ldb_wrapiter_key w) \<noteq> 0" if v: "fpos ts i k < length (child_es ts i)"
  proof -
    obtain j where j: "k \<le> j" "j < length ts" "fst (ts ! j) = i" "child_es ts i ! fpos ts i k = snd (ts ! j)"
      using v by (rule fpos_entry)
    then have "k < j" using False by (cases "j = k") auto
    then show ?thesis using wrap_entry(2) [OF w(2) v] j key sorted_key_less [OF s k j(2)] by simp
  qed
  then show ?thesis
    using w wrap_entry(1) [OF w(2)] False mergeiter_onD(1,6) [OF on] k by (simp add: child_after_def)
qed

lemma turn_reverse:
  assumes on: "mergeiter_on c (wrap_at at T) target mi ts k" and k: "k < length ts"
    and i: "i < length (mi_children mi)"
  shows "\<exists>w'. (if Some i \<noteq> mi_current mi then child_before T (ldb_mergeiter_key mi) (mi_children mi ! i)
      else Some (mi_children mi ! i)) = Some w' \<and> wrap_at at T w' (child_es ts i) (rpos ts i (Suc k))"
proof (cases "i = fst (ts ! k)")
  case True
  then show ?thesis using mergeiter_onD(6) [OF on k] on_positions(3) [OF on k] rpos_current(1) [OF k] by simp
next
  case False
  note s = mergeiter_onD(4) [OF on] and key = on_entry(1) [OF on k]
  obtain p where p: "wrap_at at T (mi_children mi ! i) (child_es ts i) p" using mergeiter_onD(5) [OF on i] by blast
  obtain w where w: "ldb_wrapiter_seek T (mi_children mi ! i) (ldb_mergeiter_key mi) = Some w"
      "wrap_at at T w (child_es ts i) (fpos ts i k)"
    using wrap.at_seek [OF p mergeiter_onD(8) [OF on k]] child_seek_pos [OF s] seek_own_key [OF s k] key by auto
  have r: "rpos ts i (Suc k) = rpos ts i k" using rpos_current(2) [OF k] False by simp
  show ?thesis
  proof (cases "fpos ts i k < length (child_es ts i)")
    case True
    then show ?thesis
      using w(1) wrap_entry(1) [OF w(2)] wrap.at_back [OF w(2) True] mergeiter_onD(6) [OF on k] False
      unfolding r by (simp add: child_before_def rpos_def)
  next
    case outside: False
    then have "fpos ts i k = length (child_es ts i)" using fpos_le [of ts i k] by simp
    then have "(if child_es ts i = [] then 0 else length (child_es ts i) - 1) = rpos ts i k" by (simp add: rpos_def)
    then show ?thesis
      using w(1) wrap_entry(1) [OF w(2)] wrap.at_final [OF w(2)] mergeiter_onD(6) [OF on k] False outside
      unfolding r by (simp add: child_before_def)
  qed
qed

lemma move_at:
  assumes "children_at (wrap_at at T) ts (mi_children mi) pos" "mi_current mi = Some m" "m < length (mi_children mi)"
    "\<exists>w. f (mi_children mi ! m) = Some w \<and> wrap_at at T w (child_es ts m) p"
    "pos' m = p" "\<And>i. i \<noteq> m \<Longrightarrow> pos' i = pos i"
  shows "\<exists>mi'. move_current f mi = Some mi' \<and> children_at (wrap_at at T) ts (mi_children mi') pos' \<and>
    length (mi_children mi') = length (mi_children mi) \<and> mi_comparator mi' = mi_comparator mi \<and>
    mi_direction mi' = mi_direction mi"
  using assms by (auto simp: move_current_def children_at_def nth_list_update)

lemma on_next:
  assumes on: "mergeiter_on c (wrap_at at T) target mi ts k" and k: "k < length ts"
  shows "\<exists>mi'. ldb_mergeiter_next T mi = Some mi' \<and> mergeiter_on c (wrap_at at T) target mi' ts (Suc k)"
proof -
  let ?turn = "if mi_direction mi \<noteq> LDB_FORWARD then map_option (\<lambda>mi. mi\<lparr>mi_direction := LDB_FORWARD\<rparr>)
      (each_child (\<lambda>i child. if Some i \<noteq> mi_current mi
         then child_after T (mi_comparator mi) (ldb_mergeiter_key mi) child else Some child) mi) else Some mi"
  obtain m where m: "?turn = Some m" "mi_comparator m = c" "mi_current m = Some (fst (ts ! k))"
      "merge_lists c target ts (length (mi_children m))" "children_at (wrap_at at T) ts (mi_children m) (\<lambda>i. fpos ts i k)"
      "mi_direction m = LDB_FORWARD"
  proof (cases "mi_direction mi = LDB_FORWARD")
    case True
    then show ?thesis using that [of mi] mergeiter_onD [OF on] on_positions(1) [OF on k] k by simp
  next
    case False
    let ?f = "\<lambda>i child. if Some i \<noteq> mi_current mi
        then child_after T (mi_comparator mi) (ldb_mergeiter_key mi) child else Some child"
    obtain m where "each_child ?f mi = Some m" "mi_comparator m = c" "mi_current m = mi_current mi"
        "merge_lists c target ts (length (mi_children m))" "children_at (wrap_at at T) ts (mi_children m) (\<lambda>i. fpos ts i k)"
      using on_each [OF on, of ?f "\<lambda>i. fpos ts i k"] turn_forward [OF on k] by blast
    then show ?thesis
      using that [of "m\<lparr>mi_direction := LDB_FORWARD\<rparr>"] mergeiter_onD(6) [OF on k] False by simp
  qed
  have own: "fst (ts ! k) < length (mi_children m)" using m(4) k by (auto simp: merge_lists_def)
  have "wrap_at at T (mi_children m ! fst (ts ! k)) (child_es ts (fst (ts ! k))) (fpos ts (fst (ts ! k)) k)"
    using m(5) own by (simp add: children_at_def)
  note mv = move_at [OF m(5,3) own, of "ldb_wrapiter_next T", OF wrap.at_step [OF this fpos_current(1) [OF k]],
      of "\<lambda>i. fpos ts i (Suc k)"]
  obtain m' where m': "move_current (ldb_wrapiter_next T) m = Some m'"
      "children_at (wrap_at at T) ts (mi_children m') (\<lambda>i. fpos ts i (Suc k))"
      "length (mi_children m') = length (mi_children m)" "mi_comparator m' = c" "mi_direction m' = LDB_FORWARD"
    using mv m(2,6) by (auto simp: fpos_Suc [OF k])
  then have "mergeiter_on c (wrap_at at T) target (ldb_mergeiter_find_smallest m') ts (Suc k)"
    using m(4) k by (intro smallest_at) simp_all
  then show ?thesis unfolding ldb_mergeiter_next_def m(1) using m'(1) by simp
qed

lemma on_prev:
  assumes on: "mergeiter_on c (wrap_at at T) target mi ts k" and k: "k < length ts"
  shows "\<exists>mi'. ldb_mergeiter_prev T mi = Some mi' \<and>
    mergeiter_on c (wrap_at at T) target mi' ts (if k = 0 then length ts else k - 1)"
proof -
  let ?turn = "if mi_direction mi \<noteq> LDB_REVERSE then map_option (\<lambda>mi. mi\<lparr>mi_direction := LDB_REVERSE\<rparr>)
      (each_child (\<lambda>i child. if Some i \<noteq> mi_current mi
         then child_before T (ldb_mergeiter_key mi) child else Some child) mi) else Some mi"
  obtain m where m: "?turn = Some m" "mi_comparator m = c" "mi_current m = Some (fst (ts ! k))"
      "merge_lists c target ts (length (mi_children m))" "children_at (wrap_at at T) ts (mi_children m) (\<lambda>i. rpos ts i (Suc k))"
      "mi_direction m = LDB_REVERSE"
  proof (cases "mi_direction mi = LDB_REVERSE")
    case True
    then show ?thesis using that [of mi] mergeiter_onD [OF on] on_positions(2) [OF on k] k by simp
  next
    case False
    let ?f = "\<lambda>i child. if Some i \<noteq> mi_current mi
        then child_before T (ldb_mergeiter_key mi) child else Some child"
    obtain m where "each_child ?f mi = Some m" "mi_comparator m = c" "mi_current m = mi_current mi"
        "merge_lists c target ts (length (mi_children m))" "children_at (wrap_at at T) ts (mi_children m) (\<lambda>i. rpos ts i (Suc k))"
      using on_each [OF on, of ?f "\<lambda>i. rpos ts i (Suc k)"] turn_reverse [OF on k] by blast
    then show ?thesis
      using that [of "m\<lparr>mi_direction := LDB_REVERSE\<rparr>"] mergeiter_onD(6) [OF on k] False by simp
  qed
  have own: "fst (ts ! k) < length (mi_children m)" using m(4) k by (auto simp: merge_lists_def)
  have "wrap_at at T (mi_children m ! fst (ts ! k)) (child_es ts (fst (ts ! k))) (fpos ts (fst (ts ! k)) k)"
    using m(5) own rpos_current(1) [OF k] by (auto simp: children_at_def)
  note mv = move_at [OF m(5,3) own, of "ldb_wrapiter_prev T", OF wrap.at_back [OF this fpos_current(1) [OF k]],
      of "\<lambda>i. rpos ts i k"]
  obtain m' where m': "move_current (ldb_wrapiter_prev T) m = Some m'"
      "children_at (wrap_at at T) ts (mi_children m') (\<lambda>i. rpos ts i k)"
      "length (mi_children m') = length (mi_children m)" "mi_comparator m' = c" "mi_direction m' = LDB_REVERSE"
    using mv m(2,6) rpos_current(2) [OF k] by (auto simp: rpos_def)
  then have "mergeiter_on c (wrap_at at T) target (ldb_mergeiter_find_largest m') ts (if k = 0 then length ts else k - 1)"
    using m(4) k by (intro largest_at) simp_all
  then show ?thesis unfolding ldb_mergeiter_prev_def m(1) using m'(1) by simp
qed

end

sublocale merging \<subseteq> merged: iter_contract "\<lambda>x y. ldb_compare c x y < 0" "mergeiter_at c (wrap_at at T) target"
  ldb_mergeiter_valid ldb_mergeiter_key "ldb_mergeiter_value T" "ldb_mergeiter_first T" "ldb_mergeiter_last T"
  "ldb_mergeiter_next T" "ldb_mergeiter_prev T" "ldb_mergeiter_seek T" target
proof (unfold_locales, goal_cases)
  case (1 mi es k)
  then show ?case by (auto simp: mergeiter_at_def mergeiter_on_def ldb_mergeiter_valid_def split: if_splits)
next
  case (2 mi es k)
  then show ?case using on_entry by (auto simp: mergeiter_at_def)
next
  case (3 mi es k)
  then show ?case using on_first unfolding mergeiter_at_def by blast
next
  case (4 mi es k)
  then obtain ts where "es = map snd ts" "mergeiter_on c (wrap_at at T) target mi ts k" by (auto simp: mergeiter_at_def)
  then show ?case using on_last unfolding mergeiter_at_def by fastforce
next
  case (5 mi es k)
  then show ?case using on_next unfolding mergeiter_at_def by fastforce
next
  case (6 mi es k)
  then obtain ts where "es = map snd ts" "mergeiter_on c (wrap_at at T) target mi ts k" by (auto simp: mergeiter_at_def)
  then show ?case using on_prev 6(2) unfolding mergeiter_at_def by fastforce
next
  case (7 mi es k t)
  then show ?case using on_seek unfolding mergeiter_at_def by blast
qed

context merging
begin

lemmas merged_contract = merged.iter_contract_axioms

end

section \<open>Merging given lists\<close>

fun merge_tagged :: "ldb_comparator \<Rightarrow> (nat \<times> entry) list \<Rightarrow> (nat \<times> entry) list \<Rightarrow> (nat \<times> entry) list" where
  "merge_tagged c (x # xs) (y # ys) =
     (if ldb_compare c (fst (snd x)) (fst (snd y)) < 0 then x # merge_tagged c xs (y # ys)
      else y # merge_tagged c (x # xs) ys)"
| "merge_tagged c xs [] = xs"
| "merge_tagged c [] ys = ys"

fun interleave :: "ldb_comparator \<Rightarrow> nat \<Rightarrow> entry list list \<Rightarrow> (nat \<times> entry) list" where
  "interleave c i [] = []"
| "interleave c i (es # ess) = merge_tagged c (map (Pair i) es) (interleave c (Suc i) ess)"

lemma set_merge_tagged [simp]: "set (merge_tagged c xs ys) = set xs \<union> set ys"
  by (induction c xs ys rule: merge_tagged.induct) auto

lemma filter_merge_tagged:
  "\<forall>y \<in> set ys. \<not> P y \<Longrightarrow> filter P (merge_tagged c xs ys) = filter P xs"
  "\<forall>x \<in> set xs. \<not> P x \<Longrightarrow> filter P (merge_tagged c xs ys) = filter P ys"
  by (induction c xs ys rule: merge_tagged.induct) auto

lemma interleave_tags: "t \<in> set (interleave c i ess) \<Longrightarrow> i \<le> fst t \<and> fst t < i + length ess"
  by (induction c i ess rule: interleave.induct) auto

lemma interleave_child: "j < length ess \<Longrightarrow> child_es (interleave c i ess) (i + j) = ess ! j"
proof (induction c i ess arbitrary: j rule: interleave.induct)
  case (2 c i es ess)
  show ?case
  proof (cases j)
    case 0
    have "\<forall>t \<in> set (interleave c (Suc i) ess). fst t \<noteq> i" using interleave_tags [of _ c "Suc i" ess] by fastforce
    then show ?thesis using 0 by (simp add: child_es_def filter_merge_tagged(1) filter_map comp_def)
  next
    case (Suc l)
    then show ?thesis using 2 by (simp add: child_es_def filter_merge_tagged(2))
  qed
qed simp

lemma interleave_set: "snd ` set (interleave c i ess) = \<Union> (set ` set ess)"
  by (induction c i ess rule: interleave.induct) (auto simp: image_Un image_image)

text \<open>Sorted lists in which no key occurs twice.\<close>

fun lists_apart :: "ldb_comparator \<Rightarrow> entry list list \<Rightarrow> bool" where
  "lists_apart c [] = True"
| "lists_apart c (es # ess) \<longleftrightarrow> sorted_wrt (\<lambda>x y. ldb_compare c (fst x) (fst y) < 0) es \<and> lists_apart c ess \<and>
     (\<forall>e \<in> set es. \<forall>es' \<in> set ess. \<forall>e' \<in> set es'. ldb_compare c (fst e) (fst e') \<noteq> 0)"

context merging
begin

lemma merge_tagged_sorted:
  assumes "sorted_wrt (\<lambda>x y. ldb_compare c (fst (snd x)) (fst (snd y)) < 0) xs"
    "sorted_wrt (\<lambda>x y. ldb_compare c (fst (snd x)) (fst (snd y)) < 0) ys"
    "\<forall>x \<in> set xs. \<forall>y \<in> set ys. ldb_compare c (fst (snd x)) (fst (snd y)) \<noteq> 0"
  shows "sorted_wrt (\<lambda>x y. ldb_compare c (fst (snd x)) (fst (snd y)) < 0) (merge_tagged c xs ys)"
  using assms
proof (induction xs arbitrary: ys)
  case (Cons x xs)
  note xs_IH = Cons.IH and x_prems = Cons.prems(1)
  from Cons.prems(2,3) show ?case
  proof (induction ys)
    case Nil
    then show ?case using x_prems by simp
  next
    case (Cons y ys)
    show ?case
    proof (cases "ldb_compare c (fst (snd x)) (fst (snd y)) < 0")
      case True
      have "ldb_compare c (fst (snd x)) (fst (snd z)) < 0" if "z \<in> set xs \<union> set (y # ys)" for z
        using that x_prems Cons.prems(1) True cmp_less_trans [of "fst (snd x)" "fst (snd y)" "fst (snd z)"] by auto
      then show ?thesis using True xs_IH [of "y # ys"] x_prems Cons.prems by simp
    next
      case False
      then have lt: "ldb_compare c (fst (snd y)) (fst (snd x)) < 0"
        using Cons.prems(2) cmp_gt_iff [of "fst (snd x)" "fst (snd y)"] by simp
      have "ldb_compare c (fst (snd y)) (fst (snd z)) < 0" if "z \<in> set (x # xs) \<union> set ys" for z
        using that x_prems Cons.prems(1) lt cmp_less_trans [of "fst (snd y)" "fst (snd x)" "fst (snd z)"] by auto
      then show ?thesis using False Cons.IH Cons.prems by simp
    qed
  qed
next
  case Nil
  then show ?case by (cases ys) simp_all
qed

lemma interleave_sorted:
  "lists_apart c ess \<Longrightarrow> sorted_wrt (\<lambda>x y. ldb_compare c (fst (snd x)) (fst (snd y)) < 0) (interleave c i ess)"
proof (induction ess arbitrary: i)
  case (Cons es ess)
  have "\<exists>es' \<in> set ess. snd y \<in> set es'" if "y \<in> set (interleave c (Suc i) ess)" for y
    using interleave_set [of c "Suc i" ess] that by blast
  then show ?case
    unfolding interleave.simps using Cons.prems
    by (intro merge_tagged_sorted) (simp_all add: sorted_wrt_map Cons.IH, blast)
qed simp

text \<open>A new merging iterator over lists without a common key walks their merge.\<close>

lemma merge_starts:
  assumes "length its = length ess" "\<And>i. i < length its \<Longrightarrow> \<exists>p. at (its ! i) (ess ! i) p"
    "lists_apart c ess" "\<forall>es \<in> set ess. \<forall>e \<in> set es. target (fst e)"
  shows "mergeiter_at c (wrap_at at T) target (ldb_mergeiter_init T c its) (map snd (interleave c 0 ess))
    (length (map snd (interleave c 0 ess)))"
proof -
  let ?ts = "interleave c 0 ess"
  obtain pos where pos: "\<And>i. i < length its \<Longrightarrow> at (its ! i) (ess ! i) (pos i)" using assms(2) by metis
  have "merge_lists c target ?ts (length its)"
    unfolding merge_lists_def
  proof (intro conjI ballI)
    fix t assume t: "t \<in> set ?ts"
    show "fst t < length its" using interleave_tags [OF t] assms(1) by simp
    have "snd t \<in> \<Union> (set ` set ess)" using t interleave_set [of c 0 ess] by blast
    then show "target (fst (snd t))" using assms(4) by blast
  qed (rule interleave_sorted [OF assms(3)])
  moreover have "children_at (wrap_at at T) ?ts (mi_children (ldb_mergeiter_init T c its)) pos"
    using pos interleave_child [of _ ess c 0] assms(1)
    by (auto simp: children_at_def ldb_mergeiter_init_def intro!: wrap_at_init)
  ultimately have "mergeiter_on c (wrap_at at T) target (ldb_mergeiter_init T c its) ?ts (length ?ts)"
    by (auto simp: mergeiter_on_def ldb_mergeiter_init_def)
  then show ?thesis unfolding mergeiter_at_def by auto
qed

end

end
