(* ===== verification/Db_Iter.thy ===== *)
theory Db_Iter
  imports Merger Random_Gen Dbformat
begin

text \<open>
  The database iterator, \<^verbatim>\<open>engine/src/db_iter.c\<close>: over an internal iterator, whose entries are
  keyed by user key, sequence number and type, it shows each user key once, with its newest
  value as of a sequence number, and hides deleted keys.  The calls of
  \<open>ldb_record_read_sample\<close> are recorded as the list of their keys; the count of bytes until the
  next one is a natural number.  The theory shows that the iterator meets the iterator
  contract over the view of the snapshot, and that the sampling loop ends.
\<close>

definition LDB_READ_BYTES_PERIOD :: u32 where
  "LDB_READ_BYTES_PERIOD = 1048576"

record 'i ldb_dbiter =
  di_ucmp :: ldb_comparator
  di_iter :: 'i
  di_sequence :: u64
  di_status :: status
  di_saved_key :: bytes
  di_saved_value :: bytes
  di_direction :: ldb_direction
  di_valid :: bool
  di_rnd :: u32
  di_bytes :: nat
  di_samples :: "bytes list"

definition random_compaction_period :: "'i ldb_dbiter \<Rightarrow> nat \<times> 'i ldb_dbiter" where
  "random_compaction_period iter =
     (let (n, seed) = ldb_rand_uniform (di_rnd iter) (2 * LDB_READ_BYTES_PERIOD)
      in (unat n, iter\<lparr>di_rnd := seed\<rparr>))"

partial_function (option) sample_reads :: "bytes \<Rightarrow> nat \<Rightarrow> 'i ldb_dbiter \<Rightarrow> 'i ldb_dbiter option" where
  "sample_reads k bytes_read iter =
     (if di_bytes iter < bytes_read then
        (let (n, iter) = random_compaction_period iter
         in sample_reads k bytes_read
              (iter\<lparr>di_bytes := di_bytes iter + n, di_samples := di_samples iter @ [k]\<rparr>))
      else Some iter)"

declare sample_reads.simps [code]

definition parse_key :: "'i ldb_itertbl \<Rightarrow> 'i ldb_dbiter \<Rightarrow> ('i ldb_dbiter \<times> ldb_pkey option) option" where
  "parse_key T iter =
     (let k = tb_key T (di_iter iter); v = tb_value T (di_iter iter); bytes_read = length k + length v
      in Option.bind (sample_reads k bytes_read iter) (\<lambda>iter.
           let iter = iter\<lparr>di_bytes := di_bytes iter - bytes_read\<rparr>
           in case ldb_pkey_import k of
                None \<Rightarrow> Some (iter\<lparr>di_status := CORRUPTION\<rparr>, None)
              | Some ikey \<Rightarrow> Some (iter, Some ikey)))"

definition clear_saved_value :: "'i ldb_dbiter \<Rightarrow> 'i ldb_dbiter" where
  "clear_saved_value iter = iter\<lparr>di_saved_value := []\<rparr>"

text \<open>
  One entry of the forward search: \<open>None\<close> when it is the one to yield, otherwise whether
  entries up to \<open>saved_key\<close> (the argument \<open>skip\<close> of every call) are to be skipped.
\<close>

definition next_visit :: "'i ldb_dbiter \<Rightarrow> bool \<Rightarrow> ldb_pkey option \<Rightarrow> (bool \<times> 'i ldb_dbiter) option" where
  "next_visit iter skipping r =
     (case r of
        None \<Rightarrow> Some (skipping, iter)
      | Some ikey \<Rightarrow>
          if pk_sequence ikey \<le> di_sequence iter then
            (case pk_type ikey of
               TYPE_DELETION \<Rightarrow> Some (True, iter\<lparr>di_saved_key := pk_user_key ikey\<rparr>)
             | TYPE_VALUE \<Rightarrow>
                 if skipping \<and> ldb_compare (di_ucmp iter) (pk_user_key ikey) (di_saved_key iter) \<le> 0
                 then Some (skipping, iter) else None)
          else Some (skipping, iter))"

partial_function (option) find_next_user_entry :: "'i ldb_itertbl \<Rightarrow> 'i ldb_dbiter \<Rightarrow> bool \<Rightarrow> 'i ldb_dbiter option" where
  "find_next_user_entry T iter skipping =
     Option.bind (parse_key T iter) (\<lambda>(iter, r).
       case next_visit iter skipping r of
         None \<Rightarrow> Some (iter\<lparr>di_valid := True, di_saved_key := []\<rparr>)
       | Some (skipping, iter) \<Rightarrow>
           Option.bind (tb_next T (di_iter iter)) (\<lambda>it.
             if tb_valid T it then find_next_user_entry T (iter\<lparr>di_iter := it\<rparr>) skipping
             else Some (iter\<lparr>di_iter := it, di_saved_key := [], di_valid := False\<rparr>)))"

declare find_next_user_entry.simps [code]

text \<open>One entry of the backward search: \<open>None\<close> is the break.\<close>

definition prev_visit :: "'i ldb_itertbl \<Rightarrow> 'i ldb_dbiter \<Rightarrow> ldb_valtype \<Rightarrow> ldb_pkey option \<Rightarrow>
    (ldb_valtype \<times> 'i ldb_dbiter) option" where
  "prev_visit T iter value_type r =
     (case r of
        None \<Rightarrow> Some (value_type, iter)
      | Some ikey \<Rightarrow>
          if pk_sequence ikey \<le> di_sequence iter then
            if value_type \<noteq> TYPE_DELETION \<and>
               ldb_compare (di_ucmp iter) (pk_user_key ikey) (di_saved_key iter) < 0 then None
            else if pk_type ikey = TYPE_DELETION
            then Some (TYPE_DELETION, clear_saved_value (iter\<lparr>di_saved_key := []\<rparr>))
            else Some (pk_type ikey,
              iter\<lparr>di_saved_key := ldb_extract_user_key (tb_key T (di_iter iter)),
                   di_saved_value := tb_value T (di_iter iter)\<rparr>)
          else Some (value_type, iter))"

partial_function (option) prev_entries :: "'i ldb_itertbl \<Rightarrow> 'i ldb_dbiter \<Rightarrow> ldb_valtype \<Rightarrow>
    ('i ldb_dbiter \<times> ldb_valtype) option" where
  "prev_entries T iter value_type =
     Option.bind (parse_key T iter) (\<lambda>(iter, r).
       case prev_visit T iter value_type r of
         None \<Rightarrow> Some (iter, value_type)
       | Some (value_type, iter) \<Rightarrow>
           Option.bind (tb_prev T (di_iter iter)) (\<lambda>it.
             if tb_valid T it then prev_entries T (iter\<lparr>di_iter := it\<rparr>) value_type
             else Some (iter\<lparr>di_iter := it\<rparr>, value_type)))"

declare prev_entries.simps [code]

definition find_prev_user_entry :: "'i ldb_itertbl \<Rightarrow> 'i ldb_dbiter \<Rightarrow> 'i ldb_dbiter option" where
  "find_prev_user_entry T iter =
     map_option (\<lambda>(iter, value_type).
         if value_type = TYPE_DELETION
         then (clear_saved_value (iter\<lparr>di_valid := False, di_saved_key := []\<rparr>))\<lparr>di_direction := LDB_FORWARD\<rparr>
         else iter\<lparr>di_valid := True\<rparr>)
       (if tb_valid T (di_iter iter) then prev_entries T iter TYPE_DELETION else Some (iter, TYPE_DELETION))"

definition ldb_dbiter_init :: "ldb_comparator \<Rightarrow> 'i \<Rightarrow> u64 \<Rightarrow> u32 \<Rightarrow> 'i ldb_dbiter" where
  "ldb_dbiter_init ucmp internal_iter sequence seed =
     (let iter = \<lparr>di_ucmp = ucmp, di_iter = internal_iter, di_sequence = sequence, di_status = OK,
            di_saved_key = [], di_saved_value = [], di_direction = LDB_FORWARD, di_valid = False,
            di_rnd = ldb_rand_init seed, di_bytes = 0, di_samples = []\<rparr>;
          (n, iter) = random_compaction_period iter
      in iter\<lparr>di_bytes := n\<rparr>)"

definition ldb_dbiter_valid :: "'i ldb_dbiter \<Rightarrow> bool" where
  "ldb_dbiter_valid iter = di_valid iter"

definition ldb_dbiter_key :: "'i ldb_itertbl \<Rightarrow> 'i ldb_dbiter \<Rightarrow> bytes" where
  "ldb_dbiter_key T iter =
     (if di_direction iter = LDB_FORWARD then ldb_extract_user_key (tb_key T (di_iter iter)) else di_saved_key iter)"

definition ldb_dbiter_value :: "'i ldb_itertbl \<Rightarrow> 'i ldb_dbiter \<Rightarrow> bytes" where
  "ldb_dbiter_value T iter =
     (if di_direction iter = LDB_FORWARD then tb_value T (di_iter iter) else di_saved_value iter)"

definition ldb_dbiter_status :: "'i ldb_itertbl \<Rightarrow> 'i ldb_dbiter \<Rightarrow> status" where
  "ldb_dbiter_status T iter = (if di_status iter = OK then tb_status T (di_iter iter) else di_status iter)"

definition ldb_dbiter_next :: "'i ldb_itertbl \<Rightarrow> 'i ldb_dbiter \<Rightarrow> 'i ldb_dbiter option" where
  "ldb_dbiter_next T iter =
     Option.bind
       (if di_direction iter = LDB_REVERSE then
          map_option (\<lambda>it. iter\<lparr>di_direction := LDB_FORWARD, di_iter := it\<rparr>)
            (if \<not> tb_valid T (di_iter iter) then tb_first T (di_iter iter) else tb_next T (di_iter iter))
        else
          map_option (\<lambda>it. iter\<lparr>di_saved_key := ldb_extract_user_key (tb_key T (di_iter iter)), di_iter := it\<rparr>)
            (tb_next T (di_iter iter)))
       (\<lambda>iter. if \<not> tb_valid T (di_iter iter) then Some (iter\<lparr>di_valid := False, di_saved_key := []\<rparr>)
               else find_next_user_entry T iter True)"

text \<open>The loop of \<open>ldb_dbiter_prev\<close> that leaves the entries of the current key; \<open>False\<close> when there is none before.\<close>

partial_function (option) leave_key :: "'i ldb_itertbl \<Rightarrow> 'i ldb_dbiter \<Rightarrow> (bool \<times> 'i ldb_dbiter) option" where
  "leave_key T iter =
     Option.bind (tb_prev T (di_iter iter)) (\<lambda>it.
       let iter = iter\<lparr>di_iter := it\<rparr> in
       if \<not> tb_valid T it then Some (False, iter)
       else if ldb_compare (di_ucmp iter) (ldb_extract_user_key (tb_key T it)) (di_saved_key iter) < 0
       then Some (True, iter)
       else leave_key T iter)"

declare leave_key.simps [code]

definition ldb_dbiter_prev :: "'i ldb_itertbl \<Rightarrow> 'i ldb_dbiter \<Rightarrow> 'i ldb_dbiter option" where
  "ldb_dbiter_prev T iter =
     (if di_direction iter = LDB_FORWARD then
        Option.bind (leave_key T (iter\<lparr>di_saved_key := ldb_extract_user_key (tb_key T (di_iter iter))\<rparr>))
          (\<lambda>(found, iter).
             if found then find_prev_user_entry T (iter\<lparr>di_direction := LDB_REVERSE\<rparr>)
             else Some (clear_saved_value (iter\<lparr>di_valid := False, di_saved_key := []\<rparr>)))
      else find_prev_user_entry T iter)"

definition ldb_dbiter_seek :: "'i ldb_itertbl \<Rightarrow> 'i ldb_dbiter \<Rightarrow> bytes \<Rightarrow> 'i ldb_dbiter option" where
  "ldb_dbiter_seek T iter target =
     (let iter = (clear_saved_value (iter\<lparr>di_direction := LDB_FORWARD\<rparr>))\<lparr>di_saved_key := []\<rparr>;
          pkey = ldb_pkey_init target (di_sequence iter) VALTYPE_SEEK;
          iter = iter\<lparr>di_saved_key := ldb_pkey_export (di_saved_key iter) pkey\<rparr>
      in Option.bind (tb_seek T (di_iter iter) (di_saved_key iter)) (\<lambda>it.
           if tb_valid T it then find_next_user_entry T (iter\<lparr>di_iter := it\<rparr>) False
           else Some (iter\<lparr>di_iter := it, di_valid := False\<rparr>)))"

definition ldb_dbiter_first :: "'i ldb_itertbl \<Rightarrow> 'i ldb_dbiter \<Rightarrow> 'i ldb_dbiter option" where
  "ldb_dbiter_first T iter =
     (let iter = clear_saved_value (iter\<lparr>di_direction := LDB_FORWARD\<rparr>)
      in Option.bind (tb_first T (di_iter iter)) (\<lambda>it.
           if tb_valid T it then find_next_user_entry T (iter\<lparr>di_iter := it\<rparr>) False
           else Some (iter\<lparr>di_iter := it, di_valid := False\<rparr>)))"

definition ldb_dbiter_last :: "'i ldb_itertbl \<Rightarrow> 'i ldb_dbiter \<Rightarrow> 'i ldb_dbiter option" where
  "ldb_dbiter_last T iter =
     (let iter = clear_saved_value (iter\<lparr>di_direction := LDB_REVERSE\<rparr>)
      in Option.bind (tb_last T (di_iter iter)) (\<lambda>it. find_prev_user_entry T (iter\<lparr>di_iter := it\<rparr>)))"

section \<open>The sampling loop ends\<close>

text \<open>Two draws in a row from the generator are not both multiples of the period.\<close>

lemma period_not_zero_twice:
  assumes "seed_ok s" "unat (ldb_rand_next s) mod 2097152 = 0"
  shows "unat (ldb_rand_next (ldb_rand_next s)) mod 2097152 \<noteq> 0"
proof
  define x where "x = ldb_rand_next s"
  assume "unat (ldb_rand_next (ldb_rand_next s)) mod 2097152 = 0"
  then obtain b where b: "unat (ldb_rand_next x) = 2097152 * b" by (auto simp: x_def)
  obtain a where a: "unat x = 2097152 * a" using assms(2) by (auto simp: x_def)
  have x: "seed_ok x" using ldb_rand_next_ok [OF assms(1)] by (simp add: x_def)
  then have pos: "0 < a" "a < 1024" using a by (auto simp: seed_ok_def)
  have "b < 1024" using ldb_rand_next_ok [OF x] b by (auto simp: seed_ok_def)
  have "2097152 * b = 2097152 * (a * 16807) mod 2147483647"
    using ldb_rand_next_unat [OF x] a b by (simp add: ac_simps)
  then have "2097152 * (a * 16807) mod 2147483647 = 2097152 * b mod 2147483647" using \<open>b < 1024\<close> by simp
  moreover have "b \<le> a * 16807" using pos \<open>b < 1024\<close> by simp
  ultimately have "2147483647 dvd 2097152 * (a * 16807) - 2097152 * b"
    by (subst mod_eq_dvd_iff_nat [symmetric]) (simp_all only: mult_le_mono2)
  then have "2147483647 dvd 2097152 * (a * 16807 - b)" by (simp only: diff_mult_distrib2)
  moreover have "coprime (2147483647 :: nat) 2097152" by (simp add: coprime_iff_gcd_eq_1 gcd_non_0_nat)
  ultimately have "2147483647 dvd a * 16807 - b" by (simp only: coprime_dvd_mult_right_iff)
  moreover have "0 < a * 16807 - b" "a * 16807 - b < 2147483647" using pos \<open>b < 1024\<close> by simp_all
  ultimately show False by (auto dest: dvd_imp_le)
qed

lemma period_draw:
  assumes "seed_ok (di_rnd iter)"
  shows "random_compaction_period iter =
      (unat (ldb_rand_next (di_rnd iter)) mod 2097152, iter\<lparr>di_rnd := ldb_rand_next (di_rnd iter)\<rparr>)"
proof -
  have "2 * LDB_READ_BYTES_PERIOD = 2097152" by (simp add: LDB_READ_BYTES_PERIOD_def)
  then show ?thesis by (simp add: random_compaction_period_def ldb_rand_uniform_def Let_def unat_mod)
qed

text \<open>The part of the state that sampling changes.\<close>

definition sampled :: "'i ldb_dbiter \<Rightarrow> 'i ldb_dbiter \<Rightarrow> bool" where
  "sampled iter iter' \<longleftrightarrow>
     di_ucmp iter' = di_ucmp iter \<and> di_iter iter' = di_iter iter \<and> di_sequence iter' = di_sequence iter \<and>
     di_status iter' = di_status iter \<and> di_saved_key iter' = di_saved_key iter \<and>
     di_saved_value iter' = di_saved_value iter \<and> di_direction iter' = di_direction iter \<and>
     di_valid iter' = di_valid iter \<and> (seed_ok (di_rnd iter) \<longrightarrow> seed_ok (di_rnd iter'))"

lemma sampled_trans: "sampled a b \<Longrightarrow> sampled b c \<Longrightarrow> sampled a c"
  by (simp add: sampled_def)

lemma sampled_bytes: "sampled a b \<Longrightarrow> sampled a (b\<lparr>di_bytes := n\<rparr>)"
  by (simp add: sampled_def)

lemma sample_step:
  fixes iter :: "'i ldb_dbiter" and k :: bytes and m :: nat
  assumes "seed_ok (di_rnd iter)" "di_bytes iter < m"
  defines "s \<equiv> ldb_rand_next (di_rnd iter)"
  defines "iter' \<equiv> iter\<lparr>di_rnd := s, di_bytes := di_bytes iter + unat s mod 2097152, di_samples := di_samples iter @ [k]\<rparr>"
  shows "sample_reads k m iter = sample_reads k m iter'" "sampled iter iter'" "seed_ok (di_rnd iter')"
proof -
  show "sample_reads k m iter = sample_reads k m iter'"
    using assms(2) by (subst sample_reads.simps) (simp add: period_draw [OF assms(1)] iter'_def s_def)
  show ok: "seed_ok (di_rnd iter')" using ldb_rand_next_ok [OF assms(1)] by (simp add: iter'_def s_def)
  show "sampled iter iter'" unfolding sampled_def using ok by (simp add: iter'_def)
qed

lemma sample_returns:
  "seed_ok (di_rnd iter) \<Longrightarrow> \<exists>iter'. sample_reads k m iter = Some iter' \<and> sampled iter iter'"
proof (induction "m - di_bytes iter" arbitrary: iter rule: less_induct)
  case less
  show ?case
  proof (cases "di_bytes iter < m")
    case True
    let ?s = "ldb_rand_next (di_rnd iter)"
    let ?i = "iter\<lparr>di_rnd := ?s, di_bytes := di_bytes iter + unat ?s mod 2097152, di_samples := di_samples iter @ [k]\<rparr>"
    note one = sample_step [OF less.prems True, of k]
    show ?thesis
    proof (cases "unat ?s mod 2097152 = 0")
      case False
      then have "m - di_bytes ?i < m - di_bytes iter" using True by simp
      from less.hyps [OF this one(3)] obtain iter' where
        "sample_reads k m ?i = Some iter'" "sampled ?i iter'" by blast
      then show ?thesis using one(1) sampled_trans [OF one(2)] by auto
    next
      case zero: True
      let ?s' = "ldb_rand_next (di_rnd ?i)"
      let ?j = "?i\<lparr>di_rnd := ?s', di_bytes := di_bytes ?i + unat ?s' mod 2097152, di_samples := di_samples ?i @ [k]\<rparr>"
      have "di_bytes ?i < m" using True zero by simp
      note two = sample_step [OF one(3) this, of k]
      have "unat ?s' mod 2097152 \<noteq> 0" using period_not_zero_twice [OF less.prems zero] by simp
      then have "m - di_bytes ?j < m - di_bytes iter" using True zero by simp
      from less.hyps [OF this two(3)] obtain iter' where
        "sample_reads k m ?j = Some iter'" "sampled ?j iter'" by blast
      then show ?thesis using one(1) two(1) sampled_trans [OF one(2) sampled_trans [OF two(2)]] by auto
    qed
  next
    case False
    have "sampled iter iter" by (simp add: sampled_def)
    then show ?thesis using False by (subst sample_reads.simps) simp
  qed
qed

lemma parse_key_ok:
  assumes "seed_ok (di_rnd iter)" "ldb_pkey_import (tb_key T (di_iter iter)) = Some pk"
  shows "\<exists>iter'. parse_key T iter = Some (iter', Some pk) \<and> sampled iter iter'"
  using sample_returns [OF assms(1), of "tb_key T (di_iter iter)" "length (tb_key T (di_iter iter)) + length (tb_value T (di_iter iter))"]
    sampled_bytes assms(2) by (auto simp: parse_key_def Let_def)

section \<open>The view of a snapshot\<close>

definition epk :: "entry list \<Rightarrow> nat \<Rightarrow> ldb_pkey" where
  "epk es j = the (ldb_pkey_import (fst (es ! j)))"

abbreviation uk :: "entry list \<Rightarrow> nat \<Rightarrow> bytes" where
  "uk es j \<equiv> pk_user_key (epk es j)"

definition visible :: "u64 \<Rightarrow> entry list \<Rightarrow> nat \<Rightarrow> bool" where
  "visible s es j \<longleftrightarrow> pk_sequence (epk es j) \<le> s"

text \<open>An entry is shown when it is the newest visible one of its user key, and a value.\<close>

definition shown :: "ldb_comparator \<Rightarrow> u64 \<Rightarrow> entry list \<Rightarrow> nat \<Rightarrow> bool" where
  "shown uc s es j \<longleftrightarrow> visible s es j \<and> pk_type (epk es j) = TYPE_VALUE \<and>
     (\<forall>i < j. visible s es i \<longrightarrow> ldb_compare uc (uk es i) (uk es j) \<noteq> 0)"

definition snapshot_view :: "ldb_comparator \<Rightarrow> u64 \<Rightarrow> entry list \<Rightarrow> entry list" where
  "snapshot_view uc s es = map (\<lambda>j. (uk es j, snd (es ! j))) (filter (shown uc s es) [0..<length es])"

definition vpos :: "ldb_comparator \<Rightarrow> u64 \<Rightarrow> entry list \<Rightarrow> nat \<Rightarrow> nat" where
  "vpos uc s es k = length (filter (shown uc s es) [0..<k])"

definition entries_ok :: "ldb_comparator \<Rightarrow> entry list \<Rightarrow> bool" where
  "entries_ok uc es \<longleftrightarrow> sorted_wrt (\<lambda>x y. ldb_ikc_compare uc (fst x) (fst y) < 0) es \<and>
     (\<forall>e \<in> set es. ldb_pkey_import (fst e) \<noteq> None)"

lemma upt_split: "k \<le> n \<Longrightarrow> [0..<n] = [0..<k] @ [k..<n]"
  using upt_add_eq_append [of 0 k "n - k"] by simp

lemma vpos_length: "vpos uc s es (length es) = length (snapshot_view uc s es)"
  by (simp add: vpos_def snapshot_view_def)

lemma vpos_none:
  assumes "k \<le> k'" "\<And>j. k \<le> j \<Longrightarrow> j < k' \<Longrightarrow> \<not> shown uc s es j"
  shows "vpos uc s es k' = vpos uc s es k"
  using assms by (simp add: vpos_def upt_split [OF assms(1)] filter_empty_conv)

lemma vpos_Suc: "vpos uc s es (Suc k) = vpos uc s es k + (if shown uc s es k then 1 else 0)"
  by (simp add: vpos_def)

lemma vpos_view:
  assumes "shown uc s es j" "j < length es"
  shows "vpos uc s es j < length (snapshot_view uc s es)"
    "snapshot_view uc s es ! vpos uc s es j = (uk es j, snd (es ! j))"
proof -
  have "[0..<length es] = [0..<j] @ j # [Suc j..<length es]"
    using assms(2) upt_split [of j "length es"] by (simp add: upt_conv_Cons)
  then have "snapshot_view uc s es = map (\<lambda>j. (uk es j, snd (es ! j))) (filter (shown uc s es) [0..<j]) @
      (uk es j, snd (es ! j)) # map (\<lambda>j. (uk es j, snd (es ! j))) (filter (shown uc s es) [Suc j..<length es])"
    using assms(1) by (simp add: snapshot_view_def)
  then show "vpos uc s es j < length (snapshot_view uc s es)"
    "snapshot_view uc s es ! vpos uc s es j = (uk es j, snd (es ! j))"
    by (simp_all add: vpos_def nth_append)
qed

lemma view_takeWhile:
  assumes "k \<le> length es" "\<And>j. j < k \<Longrightarrow> shown uc s es j \<Longrightarrow> P (uk es j, snd (es ! j))"
    "\<And>j. k \<le> j \<Longrightarrow> j < length es \<Longrightarrow> shown uc s es j \<Longrightarrow> \<not> P (uk es j, snd (es ! j))"
  shows "length (takeWhile P (snapshot_view uc s es)) = vpos uc s es k"
proof -
  let ?f = "\<lambda>j. (uk es j, snd (es ! j))"
  have "takeWhile P (map ?f (filter (shown uc s es) [k..<length es])) = []"
  proof (cases "filter (shown uc s es) [k..<length es]")
    case (Cons j js)
    then have "j \<in> set (filter (shown uc s es) [k..<length es])" by simp
    then have "k \<le> j" "j < length es" "shown uc s es j" by auto
    then show ?thesis using assms(3) Cons by simp
  qed simp
  then have "takeWhile P (snapshot_view uc s es) = map ?f (filter (shown uc s es) [0..<k])"
    unfolding snapshot_view_def upt_split [OF assms(1)] using assms(2) by (auto simp: takeWhile_append)
  then show ?thesis by (simp add: vpos_def)
qed

locale snapshot = user_comparator uc + iter_table "\<lambda>x y. ldb_compare (ldb_ikc_init uc) x y < 0" at ikey_target T
  for uc :: ldb_comparator and at and T :: "'i ldb_itertbl" +
  fixes s :: u64
  assumes s_max: "s \<le> MAX_SEQUENCE"
begin

lemma entry_parsed:
  assumes "entries_ok uc es" "j < length es"
  shows "ldb_pkey_import (fst (es ! j)) = Some (epk es j)" "ldb_extract_user_key (fst (es ! j)) = uk es j"
proof -
  show p: "ldb_pkey_import (fst (es ! j)) = Some (epk es j)" using assms by (auto simp: entries_ok_def epk_def)
  show "ldb_extract_user_key (fst (es ! j)) = uk es j" using pkey_import_user_key [OF p] by simp
qed

lemma uk_mono:
  assumes "entries_ok uc es" "i \<le> j" "j < length es"
  shows "ldb_compare uc (uk es i) (uk es j) \<le> 0"
proof (cases "i = j")
  case True
  then show ?thesis using cmp_refl by simp
next
  case False
  then have "ldb_ikc_compare uc (fst (es ! i)) (fst (es ! j)) < 0"
    using assms sorted_wrt_nth_less [of "\<lambda>x y. ldb_ikc_compare uc (fst x) (fst y) < 0" es i j] by (simp add: entries_ok_def)
  then show ?thesis using entry_parsed(2) [OF assms(1)] assms(2,3) by (auto simp: ikc_less_iff)
qed

lemma uk_less_index:
  assumes "entries_ok uc es" "i < length es" "j < length es" "ldb_compare uc (uk es i) (uk es j) < 0"
  shows "i < j"
proof (rule ccontr)
  assume "\<not> i < j"
  then have "ldb_compare uc (uk es j) (uk es i) \<le> 0" using uk_mono assms by simp
  then show False using assms(4) cmp_gt_iff [of "uk es j" "uk es i"] by simp
qed

lemma shown_later:
  assumes "entries_ok uc es" "visible s es k" "shown uc s es j" "k < j" "j < length es"
  shows "ldb_compare uc (uk es k) (uk es j) < 0"
  using uk_mono [OF assms(1), of k j] assms by (auto simp: shown_def less_le)

definition base :: "'i ldb_dbiter \<Rightarrow> entry list \<Rightarrow> nat \<Rightarrow> bool" where
  "base iter es k \<longleftrightarrow> di_ucmp iter = uc \<and> di_sequence iter = s \<and> di_status iter = OK \<and> seed_ok (di_rnd iter) \<and>
     at (di_iter iter) es k"

lemma base_parse:
  assumes "base iter es k" "k < length es" "entries_ok uc es"
  obtains iter' where "parse_key T iter = Some (iter', Some (epk es k))" "sampled iter iter'" "base iter' es k"
proof -
  have "tb_key T (di_iter iter) = fst (es ! k)"
    using tbl.at_entry [of "di_iter iter" es k] assms by (metis base_def fst_conv)
  then have imp: "ldb_pkey_import (tb_key T (di_iter iter)) = Some (epk es k)" using entry_parsed(1) [OF assms(3,2)] by simp
  have ok: "seed_ok (di_rnd iter)" using assms(1) by (simp add: base_def)
  obtain iter' where "parse_key T iter = Some (iter', Some (epk es k))" "sampled iter iter'"
    using parse_key_ok [of iter T, OF ok imp] by blast
  then show thesis using that [of iter'] assms(1) by (auto simp: base_def sampled_def)
qed

lemma base_valid: "base iter es k \<Longrightarrow> tb_valid T (di_iter iter) \<longleftrightarrow> k < length es"
  using tbl.at_valid by (simp add: base_def)

lemma base_next:
  assumes "base iter es k" "k < length es"
  obtains it where "tb_next T (di_iter iter) = Some it" "at it es (Suc k)" "tb_valid T it \<longleftrightarrow> Suc k < length es"
  using tbl.at_step [of "di_iter iter" es k] assms tbl.at_valid unfolding base_def by blast

lemma base_prev:
  assumes "base iter es k" "k < length es"
  obtains it where "tb_prev T (di_iter iter) = Some it" "at it es (if k = 0 then length es else k - 1)"
    "tb_valid T it \<longleftrightarrow> 0 < k"
proof -
  obtain it where "tb_prev T (di_iter iter) = Some it" "at it es (if k = 0 then length es else k - 1)"
    using tbl.at_back [of "di_iter iter" es k] assms unfolding base_def by blast
  then show thesis using that [of it] tbl.at_valid [of it es "if k = 0 then length es else k - 1"] assms(2)
    by (cases "k = 0") auto
qed

text \<open>
  The forward search: at entry \<open>k\<close> with what is to be skipped, visible entries from \<open>k\<close> on
  are not before the skipped key, and those whose key has been seen are to be skipped.
\<close>

definition hidden :: "bool \<Rightarrow> bytes \<Rightarrow> entry list \<Rightarrow> nat \<Rightarrow> bool" where
  "hidden skipping skip es j \<longleftrightarrow> skipping \<and> ldb_compare uc (uk es j) skip \<le> 0"

definition search_ok :: "entry list \<Rightarrow> nat \<Rightarrow> bool \<Rightarrow> bytes \<Rightarrow> bool" where
  "search_ok es k skipping skip \<longleftrightarrow> (\<forall>j. k \<le> j \<longrightarrow> j < length es \<longrightarrow> visible s es j \<longrightarrow>
     (skipping \<longrightarrow> ldb_compare uc skip (uk es j) \<le> 0) \<and>
     ((\<exists>i < k. visible s es i \<and> ldb_compare uc (uk es i) (uk es j) = 0) \<longrightarrow> hidden skipping skip es j))"

lemma search_after:
  assumes "entries_ok uc es" "k < length es"
  shows "search_ok es (Suc k) True (uk es k)"
  unfolding search_ok_def hidden_def
proof (intro allI impI conjI, goal_cases)
  case (1 j)
  then show ?case using uk_mono [OF assms(1), of k j] by simp
next
  case (3 j)
  then obtain i where "i \<le> k" "ldb_compare uc (uk es i) (uk es j) = 0" by (auto simp: less_Suc_eq_le)
  then have "ldb_compare uc (uk es j) (uk es i) \<le> 0" using cmp_eq_sym [of "uk es i" "uk es j"] by simp
  then show ?case using uk_mono [OF assms(1) \<open>i \<le> k\<close> assms(2)] cmp_trans by blast
qed simp

lemma search_skip:
  assumes "search_ok es k skipping skip" "\<not> visible s es k \<or> hidden skipping skip es k" "k < length es"
  shows "search_ok es (Suc k) skipping skip"
  unfolding search_ok_def
proof (intro allI impI conjI, goal_cases)
  case (1 j)
  then show ?case using assms(1) by (simp add: search_ok_def)
next
  case (2 j)
  then obtain i where i: "i < Suc k" "visible s es i" "ldb_compare uc (uk es i) (uk es j) = 0" by blast
  show ?case
  proof (cases "i = k")
    case True
    then have h: "skipping" "ldb_compare uc (uk es k) skip \<le> 0" using assms(2) i(2) by (auto simp: hidden_def)
    have "ldb_compare uc (uk es j) (uk es k) \<le> 0" using i(3) True cmp_eq_sym [of "uk es k" "uk es j"] by simp
    then show ?thesis using h cmp_trans unfolding hidden_def by blast
  next
    case False
    then have "i < k" "k \<le> j" using i(1) 2(1) by simp_all
    then show ?thesis using assms(1) 2(2,3) i(2,3) unfolding search_ok_def by blast
  qed
qed

lemma search_yield:
  assumes "search_ok es k skipping skip" "visible s es k" "pk_type (epk es k) = TYPE_VALUE"
    "\<not> hidden skipping skip es k" "k < length es"
  shows "shown uc s es k"
  using assms unfolding search_ok_def shown_def by blast

lemma search_deletion:
  assumes "entries_ok uc es" "search_ok es k skipping skip" "visible s es k" "k < j" "j < length es" "shown uc s es j"
  shows "\<not> hidden True (uk es k) es j" "\<not> hidden skipping skip es j"
proof -
  have lt: "ldb_compare uc (uk es k) (uk es j) < 0" using shown_later [OF assms(1,3,6,4,5)] .
  then show "\<not> hidden True (uk es k) es j" using cmp_gt_iff [of "uk es j" "uk es k"] by (simp add: hidden_def not_le)
  have "ldb_compare uc skip (uk es k) \<le> 0" if skipping
    using assms(2-5) that by (auto simp: search_ok_def)
  then have "ldb_compare uc skip (uk es j) < 0" if skipping using that lt cmp_le_less_trans by blast
  then show "\<not> hidden skipping skip es j" using cmp_gt_iff [of "uk es j" skip] by (auto simp: hidden_def not_le)
qed

definition found_next :: "entry list \<Rightarrow> nat \<Rightarrow> bool \<Rightarrow> bytes \<Rightarrow> 'i ldb_dbiter option \<Rightarrow> bool" where
  "found_next es k skipping skip r \<longleftrightarrow> (\<exists>iter' k'. r = Some iter' \<and> base iter' es k' \<and>
    di_direction iter' = LDB_FORWARD \<and> k \<le> k' \<and> k' \<le> length es \<and> (di_valid iter' \<longleftrightarrow> k' < length es) \<and>
    (k' < length es \<longrightarrow> shown uc s es k' \<and> \<not> hidden skipping skip es k') \<and>
    (\<forall>j. k \<le> j \<longrightarrow> j < k' \<longrightarrow> shown uc s es j \<longrightarrow> hidden skipping skip es j))"

lemma found_next_step:
  assumes "found_next es (Suc k) sk skip' r" "\<not> shown uc s es k \<or> hidden skipping skip es k"
    "\<And>j. k < j \<Longrightarrow> j < length es \<Longrightarrow> shown uc s es j \<Longrightarrow> hidden sk skip' es j \<longleftrightarrow> hidden skipping skip es j"
  shows "found_next es k skipping skip r"
proof -
  obtain iter' k' where r: "r = Some iter'" "base iter' es k'" "di_direction iter' = LDB_FORWARD" "Suc k \<le> k'"
      "k' \<le> length es" "di_valid iter' \<longleftrightarrow> k' < length es"
      "k' < length es \<longrightarrow> shown uc s es k' \<and> \<not> hidden sk skip' es k'"
      "\<And>j. Suc k \<le> j \<Longrightarrow> j < k' \<Longrightarrow> shown uc s es j \<Longrightarrow> hidden sk skip' es j"
    using assms(1) unfolding found_next_def by blast
  have "hidden skipping skip es j" if "k \<le> j" "j < k'" "shown uc s es j" for j
    using that assms(2) assms(3) [of j] r(5) r(8) [of j] by (cases "j = k") auto
  then show ?thesis
    unfolding found_next_def using r assms(3) [of k'] by (intro exI [of _ iter'] exI [of _ k']) auto
qed

lemma find_next_ok:
  assumes "entries_ok uc es" "base iter es k" "k < length es" "di_direction iter = LDB_FORWARD"
    "search_ok es k skipping (di_saved_key iter)"
  shows "found_next es k skipping (di_saved_key iter) (find_next_user_entry T iter skipping)"
  using assms(2-5)
proof (induction "length es - k" arbitrary: k iter skipping rule: less_induct)
  case less
  note ok = assms(1) and k = less.prems(2)
  obtain i1 where p: "parse_key T iter = Some (i1, Some (epk es k))" "sampled iter i1" "base i1 es k"
    using base_parse [OF less.prems(1) k ok] .
  have eqs: "di_saved_key i1 = di_saved_key iter" "di_sequence i1 = s" "di_ucmp i1 = uc" "di_direction i1 = LDB_FORWARD"
    using p(2,3) less.prems(3) by (simp_all add: sampled_def base_def)
  show ?case
  proof (cases "next_visit i1 skipping (Some (epk es k))")
    case None
    then have y: "visible s es k" "pk_type (epk es k) = TYPE_VALUE" "\<not> hidden skipping (di_saved_key iter) es k"
      using eqs by (auto simp: next_visit_def visible_def hidden_def split: if_splits ldb_valtype.splits)
    have "find_next_user_entry T iter skipping = Some (i1\<lparr>di_valid := True, di_saved_key := []\<rparr>)"
      by (subst find_next_user_entry.simps) (simp add: p(1) None)
    moreover have "base (i1\<lparr>di_valid := True, di_saved_key := []\<rparr>) es k" using p(3) by (simp add: base_def)
    ultimately show ?thesis
      unfolding found_next_def
      using y search_yield [OF less.prems(4) y k] k eqs(4) by (intro exI [of _ "i1\<lparr>di_valid := True, di_saved_key := []\<rparr>"] exI [of _ k]) simp
  next
    case (Some r)
    obtain sk i2 where r: "r = (sk, i2)" by (cases r)
    have i2: "base i2 es k" "di_direction i2 = LDB_FORWARD"
      using Some r p(3) eqs by (auto simp: next_visit_def base_def split: if_splits ldb_valtype.splits)
    consider (skip) "i2 = i1" "sk = skipping" "\<not> visible s es k \<or> hidden skipping (di_saved_key iter) es k"
      | (deletion) "sk" "di_saved_key i2 = uk es k" "visible s es k" "pk_type (epk es k) = TYPE_DELETION"
      using Some r eqs by (auto simp: next_visit_def visible_def hidden_def split: if_splits ldb_valtype.splits)
    note visit = this
    have not_k: "\<not> shown uc s es k \<or> hidden skipping (di_saved_key iter) es k"
      using visit by cases (auto simp: shown_def)
    have search: "search_ok es (Suc k) sk (di_saved_key i2)"
      using visit by cases (use search_skip [OF less.prems(4) _ k] search_after [OF ok k] eqs in auto)
    have same: "hidden sk (di_saved_key i2) es j \<longleftrightarrow> hidden skipping (di_saved_key iter) es j"
      if "k < j" "j < length es" "shown uc s es j" for j
      using visit by cases (use search_deletion [OF ok less.prems(4) _ that] eqs in \<open>auto\<close>)
    obtain it where it: "tb_next T (di_iter i2) = Some it" "at it es (Suc k)" "tb_valid T it \<longleftrightarrow> Suc k < length es"
      using base_next [OF i2(1) k] .
    have step: "find_next_user_entry T iter skipping =
        (if tb_valid T it then find_next_user_entry T (i2\<lparr>di_iter := it\<rparr>) sk
         else Some (i2\<lparr>di_iter := it, di_saved_key := [], di_valid := False\<rparr>))"
      by (subst find_next_user_entry.simps) (simp add: p(1) Some r it(1))
    show ?thesis
    proof (cases "Suc k < length es")
      case True
      have "base (i2\<lparr>di_iter := it\<rparr>) es (Suc k)" using i2(1) it(2) by (simp add: base_def)
      moreover have "length es - Suc k < length es - k" using k by simp
      ultimately have "found_next es (Suc k) sk (di_saved_key i2) (find_next_user_entry T (i2\<lparr>di_iter := it\<rparr>) sk)"
        using less.hyps [of "Suc k" "i2\<lparr>di_iter := it\<rparr>" sk] True i2(2) search by simp
      then show ?thesis using found_next_step [OF _ not_k same] step it(3) True by simp
    next
      case False
      then have n: "length es = Suc k" using k by simp
      let ?i = "i2\<lparr>di_iter := it, di_saved_key := [], di_valid := False\<rparr>"
      have "base ?i es (Suc k)" using i2(1) it(2) by (simp add: base_def)
      then show ?thesis
        unfolding found_next_def using step it(3) False i2(2) n not_k
        by (intro exI [of _ ?i] exI [of _ "Suc k"]) (auto simp: less_Suc_eq)
    qed
  qed
qed

text \<open>
  Where the internal iterator stands when the iterator shows entry \<open>j\<close> in reverse: on the
  last visible entry of a smaller user key, or on none.
\<close>

definition rev_at :: "entry list \<Rightarrow> nat \<Rightarrow> nat \<Rightarrow> bool" where
  "rev_at es k j \<longleftrightarrow> k \<le> length es \<and>
     (k < length es \<longrightarrow> visible s es k \<and> ldb_compare uc (uk es k) (uk es j) < 0) \<and>
     (\<forall>i < length es. visible s es i \<longrightarrow> ldb_compare uc (uk es i) (uk es j) < 0 \<longrightarrow> k < length es \<and> i \<le> k)"

text \<open>The backward search with \<open>p\<close> entries left: nothing kept, or the lowest visible entry so far.\<close>

definition kept :: "entry list \<Rightarrow> nat \<Rightarrow> 'i ldb_dbiter \<Rightarrow> bool" where
  "kept es j iter \<longleftrightarrow> di_saved_key iter = uk es j \<and> di_saved_value iter = snd (es ! j)"

definition prev_state :: "entry list \<Rightarrow> nat \<Rightarrow> ldb_valtype \<Rightarrow> 'i ldb_dbiter \<Rightarrow> nat \<Rightarrow> bool" where
  "prev_state es p vt iter m \<longleftrightarrow> vt = TYPE_DELETION \<and> m = p \<or>
     vt = TYPE_VALUE \<and> (\<exists>j. m = Suc j \<and> p \<le> j \<and> j < length es \<and> visible s es j \<and>
       pk_type (epk es j) = TYPE_VALUE \<and> kept es j iter \<and> (\<forall>i. p \<le> i \<longrightarrow> i < j \<longrightarrow> \<not> visible s es i))"

lemma prev_state_cases [consumes 1, case_names none some]:
  assumes "prev_state es p vt iter m"
  obtains "vt = TYPE_DELETION" "m = p"
  | j where "vt = TYPE_VALUE" "m = Suc j" "p \<le> j" "j < length es" "visible s es j" "pk_type (epk es j) = TYPE_VALUE"
      "kept es j iter" "\<And>i. p \<le> i \<Longrightarrow> i < j \<Longrightarrow> \<not> visible s es i"
  using assms unfolding prev_state_def by blast

definition found_prev :: "entry list \<Rightarrow> nat \<Rightarrow> ('i ldb_dbiter \<times> ldb_valtype) option \<Rightarrow> bool" where
  "found_prev es m r \<longleftrightarrow> (\<exists>iter' vt k'. r = Some (iter', vt) \<and> base iter' es k' \<and> di_direction iter' = LDB_REVERSE \<and>
     ((\<exists>j < m. j < length es \<and> shown uc s es j \<and> (\<forall>i. j < i \<longrightarrow> i < m \<longrightarrow> \<not> shown uc s es i) \<and> vt = TYPE_VALUE \<and>
         kept es j iter' \<and> rev_at es k' j) \<or>
      (\<forall>i < m. \<not> shown uc s es i) \<and> vt = TYPE_DELETION))"

lemma found_prev_extend:
  assumes "found_prev es m' r" "m' \<le> m" "\<And>i. m' \<le> i \<Longrightarrow> i < m \<Longrightarrow> \<not> shown uc s es i"
  shows "found_prev es m r"
proof -
  have ext: "\<forall>i. l < i \<longrightarrow> i < m \<longrightarrow> \<not> shown uc s es i" if "\<forall>i. l < i \<longrightarrow> i < m' \<longrightarrow> \<not> shown uc s es i" for l
    using that assms(3) by (meson not_le)
  have all: "\<forall>i < m. \<not> shown uc s es i" if "\<forall>i < m'. \<not> shown uc s es i" using that assms(3) by (meson not_le)
  obtain iter' vt k' where r: "r = Some (iter', vt)" "base iter' es k'" "di_direction iter' = LDB_REVERSE"
    and c: "(\<exists>j < m'. j < length es \<and> shown uc s es j \<and> (\<forall>i. j < i \<longrightarrow> i < m' \<longrightarrow> \<not> shown uc s es i) \<and> vt = TYPE_VALUE \<and>
         kept es j iter' \<and> rev_at es k' j) \<or> (\<forall>i < m'. \<not> shown uc s es i) \<and> vt = TYPE_DELETION"
    using assms(1) unfolding found_prev_def by blast
  from c show ?thesis
  proof
    assume "\<exists>j < m'. j < length es \<and> shown uc s es j \<and> (\<forall>i. j < i \<longrightarrow> i < m' \<longrightarrow> \<not> shown uc s es i) \<and> vt = TYPE_VALUE \<and>
         kept es j iter' \<and> rev_at es k' j"
    then obtain j where j: "j < m'" "j < length es" "shown uc s es j" "\<forall>i. j < i \<longrightarrow> i < m' \<longrightarrow> \<not> shown uc s es i"
        "vt = TYPE_VALUE" "kept es j iter'" "rev_at es k' j" by blast
    then have "j < m" using assms(2) by simp
    then show ?thesis unfolding found_prev_def using r j ext [OF j(4)] by blast
  next
    assume "(\<forall>i < m'. \<not> shown uc s es i) \<and> vt = TYPE_DELETION"
    then show ?thesis unfolding found_prev_def using r all by blast
  qed
qed

lemma equal_not_shown:
  assumes "visible s es k" "k < j" "\<not> ldb_compare uc (uk es k) (uk es j) < 0" "entries_ok uc es" "j < length es"
  shows "\<not> shown uc s es j"
  using uk_mono [OF assms(4), of k j] assms by (auto simp: shown_def)

lemma prev_visit_ok:
  assumes ok: "entries_ok uc es" and b: "base iter es k" and k: "k < length es"
    and st: "prev_state es (Suc k) vt iter m" and v: "prev_visit T iter vt (Some (epk es k)) = Some (vt', iter')"
  shows "\<exists>m' \<le> m. prev_state es k vt' iter' m' \<and> (\<forall>i. m' \<le> i \<longrightarrow> i < m \<longrightarrow> \<not> shown uc s es i) \<and>
    base iter' es k \<and> di_direction iter' = di_direction iter"
proof -
  have eqs: "di_sequence iter = s" "di_ucmp iter = uc" using b by (simp_all add: base_def)
  have "(tb_key T (di_iter iter), tb_value T (di_iter iter)) = es ! k"
    using tbl.at_entry [of "di_iter iter" es k] b k by (simp add: base_def)
  then have e: "tb_key T (di_iter iter) = fst (es ! k)" "tb_value T (di_iter iter) = snd (es ! k)"
    by (simp_all add: prod_eq_iff)
  show ?thesis
  proof (cases "visible s es k")
    case False
    then have r: "vt' = vt" "iter' = iter" using v eqs by (auto simp: prev_visit_def visible_def)
    have h: "\<not> shown uc s es k" using False by (simp add: shown_def)
    from st show ?thesis
    proof (cases rule: prev_state_cases)
      case none
      then show ?thesis using r b h by (intro exI [of _ k]) (auto simp: less_Suc_eq prev_state_def)
    next
      case (some j)
      then have "\<And>i. k \<le> i \<Longrightarrow> i < j \<Longrightarrow> \<not> visible s es i" using False by (metis le_antisym not_less_eq_eq)
      then have "prev_state es k vt' iter' m" unfolding prev_state_def using some r by (intro disjI2) auto
      then show ?thesis using r b by (intro exI [of _ m]) auto
    qed
  next
    case True
    have above: "\<not> shown uc s es i" if "Suc k \<le> i" "i < m" for i
      using st
    proof (cases rule: prev_state_cases)
      case (some j)
      have "\<not> ldb_compare uc (uk es k) (uk es j) < 0"
        using v True eqs some(1,7) by (auto simp: prev_visit_def visible_def kept_def)
      then show ?thesis
        using equal_not_shown [OF True _ _ ok, of j] some(2-4,8) that by (cases "i = j") (auto simp: shown_def)
    qed (use that in simp)
    have le: "Suc k \<le> m" using st by (auto simp: prev_state_def)
    show ?thesis
    proof (cases "pk_type (epk es k)")
      case TYPE_DELETION
      then have r: "vt' = TYPE_DELETION" "iter' = clear_saved_value (iter\<lparr>di_saved_key := []\<rparr>)" "\<not> shown uc s es k"
        using v True eqs by (auto simp: prev_visit_def visible_def shown_def split: if_splits)
      have "\<not> shown uc s es i" if "k \<le> i" "i < m" for i using above [of i] r(3) that by (cases "i = k") auto
      then show ?thesis
        using b r le by (intro exI [of _ k]) (auto simp: prev_state_def base_def clear_saved_value_def)
    next
      case TYPE_VALUE
      then have r: "vt' = TYPE_VALUE" "iter' = iter\<lparr>di_saved_key := ldb_extract_user_key (tb_key T (di_iter iter)),
            di_saved_value := tb_value T (di_iter iter)\<rparr>"
        using v True eqs by (auto simp: prev_visit_def visible_def split: if_splits)
      then have "kept es k iter'" using e entry_parsed(2) [OF ok k] by (simp add: kept_def)
      then show ?thesis
        using r b above le k True TYPE_VALUE by (intro exI [of _ "Suc k"]) (auto simp: prev_state_def base_def)
    qed
  qed
qed

lemma prev_done:
  assumes "prev_state es 0 vt iter m" "base iter es (length es)" "di_direction iter = LDB_REVERSE" "entries_ok uc es"
  shows "found_prev es m (Some (iter, vt))"
  using assms(1)
proof (cases rule: prev_state_cases)
  case none
  then show ?thesis using assms(2,3) by (auto simp: found_prev_def)
next
  case j: (some j)
  have "shown uc s es j" using j by (simp add: shown_def)
  moreover have "rev_at es (length es) j"
    using j(8) uk_less_index [OF assms(4) _ j(4)] by (auto simp: rev_at_def)
  ultimately show ?thesis
    unfolding found_prev_def using assms(2,3) j by (intro exI [of _ iter] exI [of _ vt] exI [of _ "length es"]) auto
qed

lemma prev_break:
  assumes ok: "entries_ok uc es" and b: "base iter es k" and d: "di_direction iter = LDB_REVERSE" and k: "k < length es"
    and st: "prev_state es (Suc k) vt iter m" and v: "prev_visit T iter vt (Some (epk es k)) = None"
  shows "found_prev es m (Some (iter, vt))"
proof -
  have "vt \<noteq> TYPE_DELETION" "visible s es k" "ldb_compare uc (uk es k) (di_saved_key iter) < 0"
    using v b by (auto simp: prev_visit_def visible_def base_def split: if_splits)
  with st obtain j where j: "vt = TYPE_VALUE" "m = Suc j" "Suc k \<le> j" "j < length es" "visible s es j"
      "pk_type (epk es j) = TYPE_VALUE" "kept es j iter" "\<forall>i. Suc k \<le> i \<longrightarrow> i < j \<longrightarrow> \<not> visible s es i"
      and lt: "visible s es k" "ldb_compare uc (uk es k) (uk es j) < 0"
    unfolding prev_state_def kept_def by auto
  have low: "i \<le> k" if "visible s es i" "i < j" for i using j(8) that by (metis not_less_eq_eq)
  have "ldb_compare uc (uk es i) (uk es j) < 0" if "visible s es i" "i < j" for i
    using cmp_le_less_trans [OF _ _ _ uk_mono [OF ok low [OF that] k] lt(2)] by simp
  then have "shown uc s es j" using j(5,6) by (fastforce simp: shown_def)
  moreover have "rev_at es k j"
    using lt k low uk_less_index [OF ok _ j(4)] by (auto simp: rev_at_def)
  ultimately show ?thesis
    unfolding found_prev_def using b d j by (intro exI [of _ iter] exI [of _ vt] exI [of _ k]) auto
qed

lemma prev_entries_ok:
  assumes "entries_ok uc es" "base iter es k" "k < length es" "di_direction iter = LDB_REVERSE"
    "prev_state es (Suc k) vt iter m"
  shows "found_prev es m (prev_entries T iter vt)"
  using assms(2-5)
proof (induction k arbitrary: iter vt m rule: less_induct)
  case (less k)
  note ok = assms(1) and k = less.prems(2)
  obtain i1 where p: "parse_key T iter = Some (i1, Some (epk es k))" "sampled iter i1" "base i1 es k"
    using base_parse [OF less.prems(1) k ok] .
  have d: "di_direction i1 = LDB_REVERSE" and st: "prev_state es (Suc k) vt i1 m"
    using p(2) less.prems(3,4) by (simp_all add: sampled_def prev_state_def kept_def)
  show ?case
  proof (cases "prev_visit T i1 vt (Some (epk es k))")
    case None
    then have "prev_entries T iter vt = Some (i1, vt)" by (subst prev_entries.simps) (simp add: p(1))
    then show ?thesis using prev_break [OF ok p(3) d k st None] by simp
  next
    case (Some r)
    obtain vt' i2 where r: "r = (vt', i2)" by (cases r)
    obtain m' where m': "m' \<le> m" "prev_state es k vt' i2 m'" "\<And>i. m' \<le> i \<Longrightarrow> i < m \<Longrightarrow> \<not> shown uc s es i"
        "base i2 es k" "di_direction i2 = LDB_REVERSE"
      using prev_visit_ok [OF ok p(3) k st] Some r d by auto
    obtain it where it: "tb_prev T (di_iter i2) = Some it" "at it es (if k = 0 then length es else k - 1)"
        "tb_valid T it \<longleftrightarrow> 0 < k"
      using base_prev [OF m'(4) k] .
    have step: "prev_entries T iter vt =
        (if tb_valid T it then prev_entries T (i2\<lparr>di_iter := it\<rparr>) vt' else Some (i2\<lparr>di_iter := it\<rparr>, vt'))"
      by (subst prev_entries.simps) (simp add: p(1) Some r it(1))
    have st': "prev_state es k vt' (i2\<lparr>di_iter := it\<rparr>) m'" using m'(2) by (simp add: prev_state_def kept_def)
    have b': "base (i2\<lparr>di_iter := it\<rparr>) es (if k = 0 then length es else k - 1)" using m'(4) it(2) by (simp add: base_def)
    have "found_prev es m' (prev_entries T iter vt)"
    proof (cases k)
      case 0
      then show ?thesis using prev_done [of es vt' "i2\<lparr>di_iter := it\<rparr>" m'] st' b' m'(5) ok step it(3) by simp
    next
      case (Suc l)
      then show ?thesis
        using less.IH [of l "i2\<lparr>di_iter := it\<rparr>" vt' m'] st' b' m'(5) step it(3) k by simp
    qed
    then show ?thesis using found_prev_extend m'(1,3) by blast
  qed
qed

definition dbiter_at :: "'i ldb_dbiter \<Rightarrow> entry list \<Rightarrow> nat \<Rightarrow> bool" where
  "dbiter_at iter view p \<longleftrightarrow> (\<exists>es k. entries_ok uc es \<and> view = snapshot_view uc s es \<and> base iter es k \<and>
     p \<le> length view \<and> (di_valid iter \<longleftrightarrow> p < length view) \<and>
     (p < length view \<longrightarrow>
        (if di_direction iter = LDB_FORWARD then k < length es \<and> shown uc s es k \<and> vpos uc s es k = p
         else \<exists>j < length es. shown uc s es j \<and> vpos uc s es j = p \<and> kept es j iter \<and> rev_at es k j)))"

lemma found_next_at:
  assumes "entries_ok uc es" "found_next es k skipping skip r"
    "\<And>k'. k \<le> k' \<Longrightarrow> k' \<le> length es \<Longrightarrow> (k' < length es \<Longrightarrow> shown uc s es k' \<and> \<not> hidden skipping skip es k') \<Longrightarrow>
      (\<And>j. k \<le> j \<Longrightarrow> j < k' \<Longrightarrow> shown uc s es j \<Longrightarrow> hidden skipping skip es j) \<Longrightarrow> vpos uc s es k' = p"
  shows "\<exists>iter'. r = Some iter' \<and> dbiter_at iter' (snapshot_view uc s es) p"
proof -
  obtain iter' k' where r: "r = Some iter'" "base iter' es k'" "di_direction iter' = LDB_FORWARD" "k \<le> k'"
      "k' \<le> length es" "di_valid iter' \<longleftrightarrow> k' < length es"
      "k' < length es \<Longrightarrow> shown uc s es k' \<and> \<not> hidden skipping skip es k'"
      "\<And>j. k \<le> j \<Longrightarrow> j < k' \<Longrightarrow> shown uc s es j \<Longrightarrow> hidden skipping skip es j"
    using assms(2) unfolding found_next_def by blast
  have p: "vpos uc s es k' = p" using assms(3) [OF r(4,5,7,8)] .
  have "p < length (snapshot_view uc s es) \<longleftrightarrow> k' < length es" "p \<le> length (snapshot_view uc s es)"
    using vpos_view(1) [of uc s es k'] vpos_length [of uc s es] r(5,7) p by (cases "k' < length es"; auto)+
  then show ?thesis
    unfolding dbiter_at_def using r p assms(1) by (intro exI [of _ iter'] conjI exI [of _ es] exI [of _ k']) auto
qed

lemma find_prev_at:
  assumes ok: "entries_ok uc es" and b: "base iter es k" and k: "k \<le> length es" and d: "di_direction iter = LDB_REVERSE"
  defines "m \<equiv> if k < length es then Suc k else 0"
  shows "\<exists>iter'. find_prev_user_entry T iter = Some iter' \<and> dbiter_at iter' (snapshot_view uc s es)
    (if vpos uc s es m = 0 then length (snapshot_view uc s es) else vpos uc s es m - 1)"
proof -
  let ?r = "if tb_valid T (di_iter iter) then prev_entries T iter TYPE_DELETION else Some (iter, TYPE_DELETION)"
  have "found_prev es m ?r"
  proof (cases "k < length es")
    case True
    then show ?thesis
      using prev_entries_ok [OF ok b True d, of TYPE_DELETION m] base_valid [OF b] by (simp add: prev_state_def m_def)
  next
    case False
    then show ?thesis using base_valid [OF b] b d by (auto simp: found_prev_def m_def)
  qed
  then obtain i1 vt k1 where r: "?r = Some (i1, vt)" "base i1 es k1" "di_direction i1 = LDB_REVERSE"
    and c: "(\<exists>j < m. j < length es \<and> shown uc s es j \<and> (\<forall>i. j < i \<longrightarrow> i < m \<longrightarrow> \<not> shown uc s es i) \<and> vt = TYPE_VALUE \<and>
         kept es j i1 \<and> rev_at es k1 j) \<or> (\<forall>i < m. \<not> shown uc s es i) \<and> vt = TYPE_DELETION"
    unfolding found_prev_def by blast
  from c show ?thesis
  proof
    assume "\<exists>j < m. j < length es \<and> shown uc s es j \<and> (\<forall>i. j < i \<longrightarrow> i < m \<longrightarrow> \<not> shown uc s es i) \<and> vt = TYPE_VALUE \<and>
         kept es j i1 \<and> rev_at es k1 j"
    then obtain j where j: "j < m" "j < length es" "shown uc s es j" "\<And>i. j < i \<Longrightarrow> i < m \<Longrightarrow> \<not> shown uc s es i"
        "vt = TYPE_VALUE" "kept es j i1" "rev_at es k1 j" by blast
    have "vpos uc s es m = vpos uc s es (Suc j)" using j by (intro vpos_none) auto
    then have pos: "vpos uc s es m = vpos uc s es j + 1" using j(3) by (simp add: vpos_Suc)
    let ?i = "i1\<lparr>di_valid := True\<rparr>"
    have "base ?i es k1" "kept es j ?i" using r(2) j(6) by (simp_all add: base_def kept_def)
    then have "dbiter_at ?i (snapshot_view uc s es) (vpos uc s es j)"
      unfolding dbiter_at_def using ok r(3) j vpos_view(1) [OF j(3,2)]
      by (intro exI [of _ es] exI [of _ k1]) auto
    then show ?thesis unfolding find_prev_user_entry_def r(1) using j(5) pos by simp
  next
    assume none: "(\<forall>i < m. \<not> shown uc s es i) \<and> vt = TYPE_DELETION"
    then have "vpos uc s es m = 0" by (simp add: vpos_def filter_empty_conv)
    let ?i = "(clear_saved_value (i1\<lparr>di_valid := False, di_saved_key := []\<rparr>))\<lparr>di_direction := LDB_FORWARD\<rparr>"
    have "base ?i es k1" using r(2) by (simp add: base_def clear_saved_value_def)
    then have "dbiter_at ?i (snapshot_view uc s es) (length (snapshot_view uc s es))"
      unfolding dbiter_at_def using ok by (intro exI [of _ es] exI [of _ k1]) (auto simp: clear_saved_value_def)
    then show ?thesis unfolding find_prev_user_entry_def r(1) using none \<open>vpos uc s es m = 0\<close> by simp
  qed
qed

lemma base_key: "base iter es k \<Longrightarrow> k < length es \<Longrightarrow> entries_ok uc es \<Longrightarrow>
    ldb_extract_user_key (tb_key T (di_iter iter)) = uk es k \<and> tb_value T (di_iter iter) = snd (es ! k)"
  using tbl.at_entry [of "di_iter iter" es k] entry_parsed(2) [of es k] by (auto simp: base_def dest: sym)

lemma leave_key_ok:
  assumes "entries_ok uc es" "base iter es k" "k < length es" "di_saved_key iter = u"
  shows "\<exists>found it k'. leave_key T iter = Some (found, iter\<lparr>di_iter := it\<rparr>) \<and> base (iter\<lparr>di_iter := it\<rparr>) es k' \<and>
    (if found then k' < k \<and> ldb_compare uc (uk es k') u < 0 \<and> (\<forall>i. k' < i \<longrightarrow> i < k \<longrightarrow> \<not> ldb_compare uc (uk es i) u < 0)
     else \<forall>i < k. \<not> ldb_compare uc (uk es i) u < 0)"
  using assms(2-4)
proof (induction k arbitrary: iter)
  case 0
  obtain it where it: "tb_prev T (di_iter iter) = Some it" "at it es (length es)" "\<not> tb_valid T it"
    using base_prev [OF 0(1,2)] by auto
  then have "leave_key T iter = Some (False, iter\<lparr>di_iter := it\<rparr>)" by (subst leave_key.simps) simp
  moreover have "base (iter\<lparr>di_iter := it\<rparr>) es (length es)" using 0(1) it(2) by (simp add: base_def)
  ultimately show ?case by (intro exI [of _ False] exI [of _ it] exI [of _ "length es"]) simp
next
  case (Suc k)
  obtain it where it: "tb_prev T (di_iter iter) = Some it" "at it es k" "tb_valid T it"
    using base_prev [OF Suc.prems(1,2)] by auto
  let ?i = "iter\<lparr>di_iter := it\<rparr>"
  have b: "base ?i es k" using Suc.prems(1) it(2) by (simp add: base_def)
  have uc: "di_ucmp iter = uc" using Suc.prems(1) by (simp add: base_def)
  have key: "ldb_extract_user_key (tb_key T it) = uk es k" using base_key [OF b _ assms(1)] Suc.prems(2) by simp
  show ?case
  proof (cases "ldb_compare uc (uk es k) u < 0")
    case True
    then have "leave_key T iter = Some (True, ?i)"
      using it key uc Suc.prems(3) by (subst leave_key.simps) (simp add: Let_def)
    then show ?thesis using b True by (intro exI [of _ True] exI [of _ it] exI [of _ k]) auto
  next
    case False
    then have step: "leave_key T iter = leave_key T ?i"
      using it key uc Suc.prems(3) by (subst leave_key.simps) (simp add: Let_def)
    obtain found it' k' where r: "leave_key T ?i = Some (found, ?i\<lparr>di_iter := it'\<rparr>)" "base (?i\<lparr>di_iter := it'\<rparr>) es k'"
        "if found then k' < k \<and> ldb_compare uc (uk es k') u < 0 \<and> (\<forall>i. k' < i \<longrightarrow> i < k \<longrightarrow> \<not> ldb_compare uc (uk es i) u < 0)
         else \<forall>i < k. \<not> ldb_compare uc (uk es i) u < 0"
      using Suc.IH [OF b] Suc.prems(2,3) by auto
    then show ?thesis
      using step False by (intro exI [of _ found] exI [of _ it'] exI [of _ k']) (auto simp: less_Suc_eq split: if_splits)
  qed
qed

lemma base_cong:
  "base iter es k \<Longrightarrow> di_ucmp iter' = di_ucmp iter \<Longrightarrow> di_sequence iter' = di_sequence iter \<Longrightarrow> di_status iter' = di_status iter \<Longrightarrow>
   di_rnd iter' = di_rnd iter \<Longrightarrow> at (di_iter iter') es k' \<Longrightarrow> base iter' es k'"
  by (simp add: base_def)

lemma dbiter_atD:
  assumes "dbiter_at iter view p"
  obtains es k where "entries_ok uc es" "view = snapshot_view uc s es" "base iter es k"
  using assms by (auto simp: dbiter_at_def)

lemma dbiter_at_none:
  assumes "entries_ok uc es" "base iter es k" "\<not> di_valid iter"
  shows "dbiter_at iter (snapshot_view uc s es) (length (snapshot_view uc s es))"
  using assms unfolding dbiter_at_def by (intro exI [of _ es] exI [of _ k]) simp

lemma dbiter_first_at:
  assumes "dbiter_at iter view p"
  shows "\<exists>iter'. ldb_dbiter_first T iter = Some iter' \<and> dbiter_at iter' view 0"
proof -
  obtain es k where es: "entries_ok uc es" "view = snapshot_view uc s es" "base iter es k" using assms by (rule dbiter_atD)
  obtain it where it: "tb_first T (di_iter iter) = Some it" "at it es 0"
    using tbl.at_first es(3) unfolding base_def by blast
  let ?i = "(clear_saved_value (iter\<lparr>di_direction := LDB_FORWARD\<rparr>))\<lparr>di_iter := it\<rparr>"
  have b: "base ?i es 0" using es(3) it(2) by (simp add: base_def clear_saved_value_def)
  show ?thesis
  proof (cases "0 < length es")
    case True
    have "search_ok es 0 False (di_saved_key ?i)" by (simp add: search_ok_def)
    then have "found_next es 0 False (di_saved_key ?i) (find_next_user_entry T ?i False)"
      using find_next_ok [OF es(1) b True] by (simp add: clear_saved_value_def)
    then have "\<exists>iter'. find_next_user_entry T ?i False = Some iter' \<and> dbiter_at iter' view 0"
      unfolding es(2) by (rule found_next_at [OF es(1)]) (auto simp: vpos_def filter_empty_conv hidden_def)
    then show ?thesis
      using it(1) base_valid [OF b] True by (simp add: ldb_dbiter_first_def Let_def clear_saved_value_def)
  next
    case False
    then have "dbiter_at (?i\<lparr>di_valid := False\<rparr>) view 0"
      using dbiter_at_none [OF es(1), of "?i\<lparr>di_valid := False\<rparr>" 0] b es(2)
      by (simp add: base_def snapshot_view_def)
    then show ?thesis
      using it(1) base_valid [OF b] False by (simp add: ldb_dbiter_first_def Let_def clear_saved_value_def)
  qed
qed

lemma dbiter_last_at:
  assumes "dbiter_at iter view p"
  shows "\<exists>iter'. ldb_dbiter_last T iter = Some iter' \<and> dbiter_at iter' view (if view = [] then 0 else length view - 1)"
proof -
  obtain es k where es: "entries_ok uc es" "view = snapshot_view uc s es" "base iter es k" using assms by (rule dbiter_atD)
  let ?k = "if es = [] then 0 else length es - 1"
  obtain it where it: "tb_last T (di_iter iter) = Some it" "at it es ?k"
    using tbl.at_final es(3) unfolding base_def by blast
  let ?i = "(clear_saved_value (iter\<lparr>di_direction := LDB_REVERSE\<rparr>))\<lparr>di_iter := it\<rparr>"
  have b: "base ?i es ?k" using es(3) it(2) by (simp add: base_def clear_saved_value_def)
  have m: "(if ?k < length es then Suc ?k else 0) = length es" by (cases es) simp_all
  have "\<exists>iter'. find_prev_user_entry T ?i = Some iter' \<and> dbiter_at iter' view (if length view = 0 then length view else length view - 1)"
    using find_prev_at [OF es(1) b] unfolding m vpos_length es(2) by (simp add: clear_saved_value_def)
  then show ?thesis using it(1) by (auto simp: ldb_dbiter_last_def Let_def clear_saved_value_def split: if_splits)
qed

lemma seek_split:
  fixes target :: bytes
  assumes "entries_ok uc es" "j < length es"
  defines "t \<equiv> ldb_pkey_export [] (ldb_pkey_init target s VALTYPE_SEEK)"
  shows "ldb_compare (ldb_ikc_init uc) (fst (es ! j)) t < 0 \<longleftrightarrow>
    ldb_compare uc (uk es j) target < 0 \<or> ldb_compare uc (uk es j) target = 0 \<and> \<not> visible s es j"
proof -
  let ?e = "epk es j"
  have w: "ldb_pkey_write ?e = fst (es ! j)" "pk_sequence ?e \<le> MAX_SEQUENCE"
    using ldb_pkey_write_import [OF entry_parsed(1) [OF assms(1,2)]] by auto
  have t: "t = ldb_pkey_write (ldb_pkey_init target s VALTYPE_SEEK)" by (simp add: t_def ldb_pkey_export_def)
  have "pack_seqtype s VALTYPE_SEEK < pack_seqtype (pk_sequence ?e) (pk_type ?e) \<longleftrightarrow> s < pk_sequence ?e"
    using pack_seqtype_less_iff [OF s_max w(2)] by (simp add: VALTYPE_SEEK_def)
  then show ?thesis
    unfolding ikc_compare_eq ikc_less_iff t w(1) [symmetric] ldb_pkey_write_parts
    by (auto simp: ldb_pkey_init_def visible_def)
qed

lemma dbiter_seek_at:
  assumes "dbiter_at iter view p" "length t + 8 < 2 ^ 32"
  shows "\<exists>iter'. ldb_dbiter_seek T iter t = Some iter' \<and>
    dbiter_at iter' view (length (takeWhile (\<lambda>e. ldb_compare uc (fst e) t < 0) view))"
proof -
  obtain es k0 where es: "entries_ok uc es" "view = snapshot_view uc s es" "base iter es k0" using assms(1) by (rule dbiter_atD)
  let ?t = "ldb_pkey_export [] (ldb_pkey_init t s VALTYPE_SEEK)"
  let ?before = "\<lambda>e. ldb_compare (ldb_ikc_init uc) (fst e) ?t < 0"
  define k where "k = length (takeWhile ?before es)"
  have "ikey_target ?t" using assms(2) by (simp add: ldb_pkey_export_def ldb_pkey_size_def ldb_pkey_init_def)
  then obtain it where it: "tb_seek T (di_iter iter) ?t = Some it" "at it es k"
    using tbl.at_seek es(3) unfolding base_def k_def by blast
  let ?i = "(clear_saved_value (iter\<lparr>di_direction := LDB_FORWARD\<rparr>))\<lparr>di_saved_key := ?t, di_iter := it\<rparr>"
  have b: "base ?i es k" using es(3) it(2) by (simp add: base_def clear_saved_value_def)
  have k: "k \<le> length es" unfolding k_def by (rule length_takeWhile_le)
  have cut: "j < k \<longleftrightarrow> ?before (es ! j)" if "j < length es" for j
    unfolding k_def
    by (rule length_takeWhile_less_iff [of "\<lambda>x y. ldb_compare (ldb_ikc_init uc) (fst x) (fst y) < 0"])
      (use es(1) that ikc.cmp_less_trans in \<open>auto simp: entries_ok_def ikc_compare_eq\<close>)
  have low: "ldb_compare uc (uk es j) t < 0" if "j < k" "visible s es j" for j
    using cut [of j] seek_split [OF es(1), of j] that k by simp
  have high: "\<not> ldb_compare uc (uk es j) t < 0" if "k \<le> j" "j < length es" for j
    using cut [of j] seek_split [OF es(1), of j] that by simp
  have pos: "length (takeWhile (\<lambda>e. ldb_compare uc (fst e) t < 0) view) = vpos uc s es k"
    unfolding es(2) by (rule view_takeWhile [OF k]) (use low high in \<open>auto simp: shown_def\<close>)
  have seek: "ldb_dbiter_seek T iter t =
      (if tb_valid T it then find_next_user_entry T ?i False else Some (?i\<lparr>di_valid := False\<rparr>))"
    using it(1) es(3) by (simp add: ldb_dbiter_seek_def Let_def clear_saved_value_def base_def)
  show ?thesis
  proof (cases "k < length es")
    case True
    have "ldb_compare uc (uk es i) (uk es j) \<noteq> 0" if "i < k" "visible s es i" "k \<le> j" "j < length es" for i j
      using low [OF that(1,2)] high [OF that(3,4)] cmp_eq_cong(1) [of "uk es i" "uk es j" t] by auto
    then have "search_ok es k False (di_saved_key ?i)" by (auto simp: search_ok_def)
    then have "found_next es k False (di_saved_key ?i) (find_next_user_entry T ?i False)"
      using find_next_ok [OF es(1) b True] by (simp add: clear_saved_value_def)
    then have "\<exists>iter'. find_next_user_entry T ?i False = Some iter' \<and> dbiter_at iter' view (vpos uc s es k)"
      unfolding es(2) by (rule found_next_at [OF es(1)]) (intro vpos_none, auto simp: hidden_def)
    then show ?thesis using seek base_valid [OF b] True pos by simp
  next
    case False
    then have "vpos uc s es k = length view" using k vpos_length [of uc s es] es(2) by simp
    moreover have "base (?i\<lparr>di_valid := False\<rparr>) es k" using b by (simp add: base_def)
    ultimately show ?thesis
      using seek base_valid [OF b] False pos dbiter_at_none [OF es(1), of "?i\<lparr>di_valid := False\<rparr>" k] es(2) by simp
  qed
qed

lemma dbiter_at_valid:
  assumes "dbiter_at iter view p" "p < length view"
  obtains (forward) es k where "entries_ok uc es" "view = snapshot_view uc s es" "base iter es k" "di_direction iter = LDB_FORWARD"
      "k < length es" "shown uc s es k" "vpos uc s es k = p"
  | (reverse) es k j where "entries_ok uc es" "view = snapshot_view uc s es" "base iter es k" "di_direction iter = LDB_REVERSE"
      "j < length es" "shown uc s es j" "vpos uc s es j = p" "kept es j iter" "rev_at es k j"
  using assms unfolding dbiter_at_def by (cases "di_direction iter") fastforce+

lemma dbiter_entry_at:
  assumes "dbiter_at iter view p" "p < length view"
  shows "(ldb_dbiter_key T iter, ldb_dbiter_value T iter) = view ! p"
  using assms
proof (cases rule: dbiter_at_valid)
  case (forward es k)
  then show ?thesis
    using base_key [OF forward(3,5,1)] vpos_view(2) [OF forward(6,5)] by (simp add: ldb_dbiter_key_def ldb_dbiter_value_def)
next
  case (reverse es k j)
  then show ?thesis
    using vpos_view(2) [OF reverse(6,5)] by (simp add: ldb_dbiter_key_def ldb_dbiter_value_def kept_def)
qed

lemma next_from:
  assumes ok: "entries_ok uc es" and b: "base iter es k" and k: "k \<le> length es" and d: "di_direction iter = LDB_FORWARD"
    and s: "k < length es \<Longrightarrow> search_ok es k True (di_saved_key iter)"
    and j: "j < length es" "shown uc s es j" "k \<le> Suc j" "di_saved_key iter = uk es j"
  shows "\<exists>iter'. (if \<not> tb_valid T (di_iter iter) then Some (iter\<lparr>di_valid := False, di_saved_key := []\<rparr>)
      else find_next_user_entry T iter True) = Some iter' \<and> dbiter_at iter' (snapshot_view uc s es) (Suc (vpos uc s es j))"
proof -
  have vj: "visible s es j" using j(2) by (simp add: shown_def)
  have after: "vpos uc s es k' = Suc (vpos uc s es j)"
    if k': "k' \<le> length es" "k' < length es \<Longrightarrow> shown uc s es k' \<and> \<not> hidden True (uk es j) es k'"
      "\<And>i. k \<le> i \<Longrightarrow> i < k' \<Longrightarrow> shown uc s es i \<Longrightarrow> hidden True (uk es j) es i" for k'
  proof -
    have "\<not> k' \<le> j" 
    proof
      assume "k' \<le> j"
      then have "\<not> ldb_compare uc (uk es k') (uk es j) \<le> 0" using k'(2) j(1) by (simp add: hidden_def)
      then show False using uk_mono [OF ok \<open>k' \<le> j\<close> j(1)] by simp
    qed
    then have "Suc j \<le> k'" by simp
    moreover have "\<not> shown uc s es i" if i: "Suc j \<le> i" "i < k'" for i
    proof
      assume sh: "shown uc s es i"
      have "ldb_compare uc (uk es j) (uk es i) < 0" using shown_later [OF ok vj sh] i k'(1) by simp
      moreover have "hidden True (uk es j) es i" using k'(3) [of i] i j(3) sh by simp
      ultimately show False using cmp_gt_iff [of "uk es i" "uk es j"] by (simp add: hidden_def)
    qed
    ultimately show ?thesis using vpos_none [of "Suc j" k' uc s es] j(2) by (simp add: vpos_Suc)
  qed
  show ?thesis
  proof (cases "k < length es")
    case True
    have "\<exists>iter'. find_next_user_entry T iter True = Some iter' \<and> dbiter_at iter' (snapshot_view uc s es) (Suc (vpos uc s es j))"
      by (rule found_next_at [OF ok find_next_ok [OF ok b True d s [OF True]]]) (use after j(4) in auto)
    then show ?thesis using base_valid [OF b] True by simp
  next
    case False
    then have "k = length es" "k = Suc j" using k j(1,3) by simp_all
    then have "Suc (vpos uc s es j) = length (snapshot_view uc s es)" using j(2) vpos_length [of uc s es] vpos_Suc [of uc s es j] by simp
    moreover have "base (iter\<lparr>di_valid := False, di_saved_key := []\<rparr>) es k" using b by (simp add: base_def)
    ultimately show ?thesis
      using dbiter_at_none [OF ok, of "iter\<lparr>di_valid := False, di_saved_key := []\<rparr>" k] base_valid [OF b] False by simp
  qed
qed

lemma rev_search:
  assumes "entries_ok uc es" "rev_at es k j" "j < length es" "k0 = (if k < length es then Suc k else 0)"
  shows "search_ok es k0 True (uk es j)" "k0 \<le> j"
proof -
  have kj: "k < j" if "k < length es" using uk_less_index [OF assms(1) that assms(3)] assms(2) that by (simp add: rev_at_def)
  then show "k0 \<le> j" using assms(4) by (simp split: if_splits)
  have a: "ldb_compare uc (uk es j) (uk es i) \<le> 0" if "k0 \<le> i" "i < length es" "visible s es i" for i
  proof -
    have "\<not> ldb_compare uc (uk es i) (uk es j) < 0" using assms(2,4) that by (auto simp: rev_at_def split: if_splits)
    then show ?thesis using cmp_ge_iff [of "uk es i" "uk es j"] by simp
  qed
  have b: "ldb_compare uc (uk es l) (uk es j) \<le> 0"
    if "i < k0" "ldb_compare uc (uk es i) (uk es l) = 0" for i l
  proof -
    have "k < length es" "i \<le> k" using that(1) assms(4) by (auto split: if_splits)
    then have "ldb_compare uc (uk es i) (uk es j) < 0"
      using cmp_le_less_trans [OF _ _ _ uk_mono [OF assms(1) \<open>i \<le> k\<close> \<open>k < length es\<close>]] assms(2) by (simp add: rev_at_def)
    then show ?thesis using cmp_eq_cong(1) [of "uk es i" "uk es l" "uk es j"] that(2) by simp
  qed
  show "search_ok es k0 True (uk es j)" using a b by (auto simp: search_ok_def hidden_def)
qed

lemma dbiter_next_at:
  assumes "dbiter_at iter view p" "p < length view"
  shows "\<exists>iter'. ldb_dbiter_next T iter = Some iter' \<and> dbiter_at iter' view (Suc p)"
  using assms
proof (cases rule: dbiter_at_valid)
  case (forward es k)
  obtain it where it: "tb_next T (di_iter iter) = Some it" "at it es (Suc k)"
    using base_next [OF forward(3,5)] .
  let ?i = "iter\<lparr>di_saved_key := uk es k, di_iter := it\<rparr>"
  have "base ?i es (Suc k)" using forward(3) it(2) by (simp add: base_def)
  from next_from [OF forward(1) this, of k] have "\<exists>iter'.
      (if \<not> tb_valid T (di_iter ?i) then Some (?i\<lparr>di_valid := False, di_saved_key := []\<rparr>)
       else find_next_user_entry T ?i True) = Some iter' \<and> dbiter_at iter' view (Suc p)"
    using forward search_after [OF forward(1,5)] by simp
  then show ?thesis
    using it(1) forward(4) base_key [OF forward(3,5,1)] by (simp add: ldb_dbiter_next_def)
next
  case (reverse es k j)
  let ?k = "if k < length es then Suc k else 0"
  obtain it where it: "(if \<not> tb_valid T (di_iter iter) then tb_first T (di_iter iter) else tb_next T (di_iter iter)) = Some it"
      "at it es ?k"
  proof (cases "k < length es")
    case True
    then show ?thesis using base_next [OF reverse(3) True] base_valid [OF reverse(3)] that by auto
  next
    case False
    then show ?thesis
      using tbl.at_first [of "di_iter iter" es k] reverse(3) base_valid [OF reverse(3)] that by (auto simp: base_def)
  qed
  let ?i = "iter\<lparr>di_direction := LDB_FORWARD, di_iter := it\<rparr>"
  have b: "base ?i es ?k" using reverse(3) it(2) by (simp add: base_def)
  note rs = rev_search [OF reverse(1,9,5) refl]
  from next_from [OF reverse(1) b, of j] have "\<exists>iter'.
      (if \<not> tb_valid T (di_iter ?i) then Some (?i\<lparr>di_valid := False, di_saved_key := []\<rparr>)
       else find_next_user_entry T ?i True) = Some iter' \<and> dbiter_at iter' view (Suc p)"
    using reverse rs by (simp add: kept_def)
  then show ?thesis using it(1) reverse(4) unfolding ldb_dbiter_next_def by simp
qed

lemma dbiter_prev_at:
  assumes "dbiter_at iter view p" "p < length view"
  shows "\<exists>iter'. ldb_dbiter_prev T iter = Some iter' \<and> dbiter_at iter' view (if p = 0 then length view else p - 1)"
  using assms
proof (cases rule: dbiter_at_valid)
  case (forward es k)
  let ?i = "iter\<lparr>di_saved_key := uk es k\<rparr>"
  have "base ?i es k" using forward(3) by (simp add: base_def)
  from leave_key_ok [OF forward(1) this forward(5), of "uk es k"] obtain found it k' where
    r: "leave_key T ?i = Some (found, ?i\<lparr>di_iter := it\<rparr>)" "base (?i\<lparr>di_iter := it\<rparr>) es k'"
      "if found then k' < k \<and> ldb_compare uc (uk es k') (uk es k) < 0 \<and>
         (\<forall>i. k' < i \<longrightarrow> i < k \<longrightarrow> \<not> ldb_compare uc (uk es i) (uk es k) < 0)
       else \<forall>i < k. \<not> ldb_compare uc (uk es i) (uk es k) < 0"
    by auto
  have same: "\<not> shown uc s es i" if "i < k" "\<not> ldb_compare uc (uk es i) (uk es k) < 0" for i
    using uk_mono [OF forward(1), of i k] that forward(5,6) by (auto simp: shown_def)
  have prev: "ldb_dbiter_prev T iter = (if found then find_prev_user_entry T (?i\<lparr>di_iter := it, di_direction := LDB_REVERSE\<rparr>)
      else Some (clear_saved_value (?i\<lparr>di_iter := it, di_valid := False, di_saved_key := []\<rparr>)))"
    using forward(4) base_key [OF forward(3,5,1)] r(1) by (simp add: ldb_dbiter_prev_def)
  show ?thesis
  proof (cases found)
    case True
    then have k': "k' < length es" using r(3) forward(5) by simp
    have b: "base (?i\<lparr>di_iter := it, di_direction := LDB_REVERSE\<rparr>) es k'" using r(2) by (simp add: base_def)
    have "vpos uc s es k = vpos uc s es (Suc k')" using r(3) True same by (intro vpos_none) auto
    then show ?thesis
      using find_prev_at [OF forward(1) b] prev True k' forward(2,7) unfolding if_P [OF k'] by auto
  next
    case False
    then have "p = 0" using forward(7) r(3) same by (auto simp: vpos_def filter_empty_conv)
    moreover have "base (clear_saved_value (?i\<lparr>di_iter := it, di_valid := False, di_saved_key := []\<rparr>)) es k'"
      using r(2) by (simp add: base_def clear_saved_value_def)
    ultimately show ?thesis
      using dbiter_at_none [OF forward(1)] prev False forward(2) by (simp add: clear_saved_value_def)
  qed
next
  case (reverse es k j)
  let ?m = "if k < length es then Suc k else 0"
  note rs = rev_search [OF reverse(1,9,5) refl]
  have "\<not> shown uc s es i" if "?m \<le> i" "i < j" for i
  proof
    assume sh: "shown uc s es i"
    have "ldb_compare uc (uk es i) (uk es j) < 0"
      using shown_later [OF reverse(1) _ reverse(6) that(2) reverse(5)] sh by (simp add: shown_def)
    moreover have "i < length es" "visible s es i" using that(2) reverse(5) sh by (simp_all add: shown_def)
    ultimately have "k < length es \<and> i \<le> k" using reverse(9) unfolding rev_at_def by blast
    then show False using that(1) by simp
  qed
  then have pos: "vpos uc s es ?m = p" using vpos_none [OF rs(2), of uc s es] reverse(7) by simp
  have "k \<le> length es" using reverse(9) by (simp add: rev_at_def)
  from find_prev_at [OF reverse(1,3) this reverse(4)] show ?thesis
    unfolding pos using reverse(2,4) by (auto simp: ldb_dbiter_prev_def)
qed

end

sublocale snapshot \<subseteq> db: iter_contract "\<lambda>x y. ldb_compare uc x y < 0" dbiter_at ldb_dbiter_valid "ldb_dbiter_key T"
  "ldb_dbiter_value T" "ldb_dbiter_first T" "ldb_dbiter_last T" "ldb_dbiter_next T" "ldb_dbiter_prev T" "ldb_dbiter_seek T"
  "\<lambda>t. length t + 8 < 2 ^ 32"
  by unfold_locales
    (use dbiter_entry_at dbiter_first_at dbiter_last_at dbiter_next_at dbiter_prev_at dbiter_seek_at in
      \<open>auto simp: dbiter_at_def ldb_dbiter_valid_def\<close>)

section \<open>A new iterator\<close>

context snapshot
begin

lemma dbiter_init_at:
  assumes "at it es k" "entries_ok uc es"
  shows "dbiter_at (ldb_dbiter_init uc it s seed) (snapshot_view uc s es) (length (snapshot_view uc s es))"
proof -
  obtain r n where "ldb_dbiter_init uc it s seed =
      \<lparr>di_ucmp = uc, di_iter = it, di_sequence = s, di_status = OK, di_saved_key = [], di_saved_value = [],
       di_direction = LDB_FORWARD, di_valid = False, di_rnd = r, di_bytes = n, di_samples = []\<rparr>" "seed_ok r"
    using ldb_rand_next_ok [OF ldb_rand_init_ok [of seed]]
    by (simp add: ldb_dbiter_init_def Let_def period_draw ldb_rand_init_ok)
  then show ?thesis using assms by (intro dbiter_at_none [of es _ k]) (simp_all add: base_def)
qed

lemmas dbiter_contract = db.iter_contract_axioms

end

section \<open>The view by keys\<close>

text \<open>
  A value of the snapshot: an entry that is a value, not newer than the snapshot, and such
  that no entry of its user key as of the snapshot comes before it.
\<close>

definition snapshot_value :: "ldb_comparator \<Rightarrow> u64 \<Rightarrow> entry list \<Rightarrow> entry \<Rightarrow> bool" where
  "snapshot_value uc s es e \<longleftrightarrow>
     (\<exists>pk. ldb_pkey_import (fst e) = Some pk \<and> pk_sequence pk \<le> s \<and> pk_type pk = TYPE_VALUE \<and>
        (\<forall>e' \<in> set es. \<forall>pk'. ldb_pkey_import (fst e') = Some pk' \<longrightarrow> pk_sequence pk' \<le> s \<longrightarrow>
           ldb_compare uc (pk_user_key pk') (pk_user_key pk) = 0 \<longrightarrow> ldb_ikc_compare uc (fst e) (fst e') \<le> 0))"

context snapshot
begin

lemma ikc_index:
  assumes "entries_ok uc es" "i < length es" "j < length es"
  shows "ldb_ikc_compare uc (fst (es ! i)) (fst (es ! j)) \<le> 0 \<longleftrightarrow> i \<le> j"
proof -
  have lt: "ldb_ikc_compare uc (fst (es ! a)) (fst (es ! b)) < 0" if "a < b" "b < length es" for a b
    using assms(1) that sorted_wrt_nth_less [of "\<lambda>x y. ldb_ikc_compare uc (fst x) (fst y) < 0" es a b]
    by (simp add: entries_ok_def)
  show ?thesis
  proof (cases i j rule: linorder_cases)
    case less
    then show ?thesis using lt [of i j] assms(3) by simp
  next
    case equal
    then show ?thesis using ikc.cmp_refl by simp
  next
    case greater
    then have "ldb_ikc_compare uc (fst (es ! j)) (fst (es ! i)) < 0" using lt assms(2) by simp
    then show ?thesis using greater ikc.cmp_gt_iff [of "fst (es ! i)" "fst (es ! j)"] by simp
  qed
qed

lemma shown_iff:
  assumes "entries_ok uc es" "j < length es"
  shows "shown uc s es j \<longleftrightarrow> snapshot_value uc s es (es ! j)"
proof -
  note pj = entry_parsed(1) [OF assms]
  have at_i: "(\<forall>pk'. ldb_pkey_import (fst (es ! i)) = Some pk' \<longrightarrow> pk_sequence pk' \<le> s \<longrightarrow>
      ldb_compare uc (pk_user_key pk') (uk es j) = 0 \<longrightarrow> ldb_ikc_compare uc (fst (es ! j)) (fst (es ! i)) \<le> 0) \<longleftrightarrow>
      (visible s es i \<longrightarrow> ldb_compare uc (uk es i) (uk es j) = 0 \<longrightarrow> j \<le> i)" if "i < length es" for i
    using ikc_index [OF assms(1,2) that] entry_parsed(1) [OF assms(1) that] by (simp add: visible_def)
  have "(\<forall>i < j. visible s es i \<longrightarrow> ldb_compare uc (uk es i) (uk es j) \<noteq> 0) \<longleftrightarrow>
    (\<forall>i < length es. visible s es i \<longrightarrow> ldb_compare uc (uk es i) (uk es j) = 0 \<longrightarrow> j \<le> i)"
  proof (intro iffI allI impI)
    fix i assume *: "\<forall>i < j. visible s es i \<longrightarrow> ldb_compare uc (uk es i) (uk es j) \<noteq> 0"
      and "visible s es i" "ldb_compare uc (uk es i) (uk es j) = 0"
    then show "j \<le> i" by (meson not_le)
  next
    fix i assume *: "\<forall>i < length es. visible s es i \<longrightarrow> ldb_compare uc (uk es i) (uk es j) = 0 \<longrightarrow> j \<le> i"
      and "i < j" "visible s es i"
    then show "ldb_compare uc (uk es i) (uk es j) \<noteq> 0" using less_trans [OF \<open>i < j\<close> assms(2)] by (meson not_le)
  qed
  also have "\<dots> \<longleftrightarrow> (\<forall>e' \<in> set es. \<forall>pk'. ldb_pkey_import (fst e') = Some pk' \<longrightarrow> pk_sequence pk' \<le> s \<longrightarrow>
      ldb_compare uc (pk_user_key pk') (uk es j) = 0 \<longrightarrow> ldb_ikc_compare uc (fst (es ! j)) (fst e') \<le> 0)"
    unfolding all_set_conv_all_nth using at_i by simp
  finally show ?thesis using pj by (simp add: shown_def snapshot_value_def visible_def)
qed

lemma view_set:
  assumes "entries_ok uc es"
  shows "set (snapshot_view uc s es) = (\<lambda>e. (ldb_extract_user_key (fst e), snd e)) ` {e \<in> set es. snapshot_value uc s es e}"
proof -
  have "set (snapshot_view uc s es) =
      (\<lambda>j. (ldb_extract_user_key (fst (es ! j)), snd (es ! j))) ` {j. j < length es \<and> snapshot_value uc s es (es ! j)}"
    unfolding snapshot_view_def using shown_iff [OF assms] entry_parsed(2) [OF assms] by force
  also have "\<dots> = (\<lambda>e. (ldb_extract_user_key (fst e), snd e)) ` {e \<in> set es. snapshot_value uc s es e}"
  proof -
    have "{e \<in> set es. snapshot_value uc s es e} = (!) es ` {j. j < length es \<and> snapshot_value uc s es (es ! j)}"
      by (force simp: in_set_conv_nth image_iff)
    then show ?thesis by (simp add: image_image)
  qed
  finally show ?thesis .
qed

lemma view_sorted:
  assumes "entries_ok uc es"
  shows "sorted_wrt (\<lambda>x y. ldb_compare uc (fst x) (fst y) < 0) (snapshot_view uc s es)"
proof -
  have "sorted_wrt (\<lambda>i j. i < j \<and> shown uc s es i \<and> shown uc s es j \<and> j < length es) (filter (shown uc s es) [0..<length es])"
    by (rule sorted_wrt_mono_rel [of _ "(<)"]) (auto simp: sorted_wrt_filter sorted_wrt_upt)
  then have "sorted_wrt (\<lambda>i j. ldb_compare uc (uk es i) (uk es j) < 0) (filter (shown uc s es) [0..<length es])"
    by (rule sorted_wrt_mono_rel [rotated]) (use shown_later [OF assms] in \<open>auto simp: shown_def\<close>)
  then show ?thesis by (simp add: snapshot_view_def sorted_wrt_map)
qed

end

section \<open>Properties\<close>

text \<open>C40: the loop that draws sampling periods until the bytes read are accounted for always
  ends: the generator does not draw two empty periods in a row. The count afterwards
  covers the bytes, and nothing but the sampling state has changed.\<close>

theorem read_sampling_terminates:
  assumes "seed_ok (di_rnd iter)"
  shows "\<exists>iter'. sample_reads k bytes_read iter = Some iter' \<and> bytes_read \<le> di_bytes iter' \<and> sampled iter iter'"
proof -
  obtain iter' where iter': "sample_reads k bytes_read iter = Some iter'" "sampled iter iter'"
    using sample_returns [OF assms] by blast
  have "bytes_read \<le> di_bytes x" if "sample_reads k bytes_read i = Some x" for i x :: "'a ldb_dbiter"
    using that by (rule sample_reads.raw_induct [rotated]) (auto simp: Let_def split: if_splits prod.splits)
  then show ?thesis using iter' by blast
qed

theorem read_sampling_terminates_witness:
  "\<exists>iter'. sample_reads [97] 100 (ldb_dbiter_init bytewise_comparator () 5 7) = Some iter' \<and> 100 \<le> di_bytes iter'"
proof -
  have "seed_ok (di_rnd (ldb_dbiter_init bytewise_comparator () 5 7))"
    using ldb_rand_next_ok [OF ldb_rand_init_ok [of 7]]
    by (simp add: ldb_dbiter_init_def Let_def period_draw ldb_rand_init_ok)
  from read_sampling_terminates [OF this, of "[97]" 100] show ?thesis by blast
qed

end
