(* ===== verification/Block.thy ===== *)
theory Block
  imports Iterator Dbformat
begin

text \<open>
  Table blocks: the builder \<^verbatim>\<open>engine/src/table/block_builder.c\<close>, which prefix-compresses
  sorted entries between restart points, and the block with its iterator,
  \<^verbatim>\<open>engine/src/table/block.c\<close>.  The \<open>uint32_t\<close> offsets and indices are natural numbers: the theorems are about
  data shorter than 4 GB, and there no sum or product of them wraps, as a number of restart points
  that does not fit the data is refused first and the lengths of an entry are added in 64 bits.  \<open>block_layout\<close> describes a well-formed block and the entries it holds; the
  builder produces one, and on one the iterator meets the contract of theory
  Iterator.
\<close>

section \<open>The block builder\<close>

record ldb_blockgen =
  bb_interval :: nat
  bb_buffer :: bytes
  bb_restarts :: "nat list"
  bb_counter :: nat
  bb_finished :: bool
  bb_last_key :: bytes

definition ldb_blockgen_init :: "nat \<Rightarrow> ldb_blockgen" where
  "ldb_blockgen_init block_restart_interval =
     \<lparr>bb_interval = block_restart_interval, bb_buffer = [], bb_restarts = [0], bb_counter = 0,
      bb_finished = False, bb_last_key = []\<rparr>"

definition ldb_blockgen_reset :: "ldb_blockgen \<Rightarrow> ldb_blockgen" where
  "ldb_blockgen_reset bb =
     bb\<lparr>bb_buffer := [], bb_restarts := [] @ [0], bb_counter := 0, bb_finished := False, bb_last_key := []\<rparr>"

definition ldb_blockgen_empty :: "ldb_blockgen \<Rightarrow> bool" where
  "ldb_blockgen_empty bb \<longleftrightarrow> length (bb_buffer bb) = 0"

fun shared_prefix :: "bytes \<Rightarrow> bytes \<Rightarrow> nat" where
  "shared_prefix (x # xs) (y # ys) = (if x = y then Suc (shared_prefix xs ys) else 0)"
| "shared_prefix _ _ = 0"

definition ldb_blockgen_add :: "ldb_blockgen \<Rightarrow> bytes \<Rightarrow> bytes \<Rightarrow> ldb_blockgen" where
  "ldb_blockgen_add bb key value =
     (let last = bb_last_key bb;
          (shared, bb) =
            (if bb_counter bb < bb_interval bb then (shared_prefix last key, bb)
             else (0, bb\<lparr>bb_restarts := bb_restarts bb @ [length (bb_buffer bb)], bb_counter := 0\<rparr>));
          non_shared = length key - shared;
          delta = drop shared key;
          buffer = bb_buffer bb @ ldb_varint32_write (word_of_nat shared)
                     @ ldb_varint32_write (word_of_nat non_shared)
                     @ ldb_varint32_write (word_of_nat (length value)) @ delta @ value
      in bb\<lparr>bb_buffer := buffer, bb_last_key := take shared last @ delta, bb_counter := bb_counter bb + 1\<rparr>)"

definition ldb_blockgen_finish :: "ldb_blockgen \<Rightarrow> bytes \<times> ldb_blockgen" where
  "ldb_blockgen_finish bb =
     (let buffer = fold (\<lambda>r buffer. buffer @ ldb_fixed32_write (word_of_nat r)) (bb_restarts bb) (bb_buffer bb);
          buffer = buffer @ ldb_fixed32_write (word_of_nat (length (bb_restarts bb)));
          bb = bb\<lparr>bb_buffer := buffer, bb_finished := True\<rparr>
      in (bb_buffer bb, bb))"

definition ldb_blockgen_size_estimate :: "ldb_blockgen \<Rightarrow> nat" where
  "ldb_blockgen_size_estimate bb = length (bb_buffer bb) + length (bb_restarts bb) * 4 + 4"

section \<open>Blocks\<close>

record ldb_block =
  bl_data :: bytes
  bl_size :: nat
  bl_restart_offset :: nat

definition ldb_block_restarts :: "bytes \<Rightarrow> nat \<Rightarrow> nat" where
  "ldb_block_restarts data sz = unat (ldb_fixed32_decode (drop (sz - 4) data))"

definition ldb_block_init :: "bytes \<Rightarrow> ldb_block" where
  "ldb_block_init data =
     (let sz = length data in
      if sz < 4 then \<lparr>bl_data = data, bl_size = 0, bl_restart_offset = 0\<rparr>
      else let max_restarts_allowed = (sz - 4) div 4 in
           if ldb_block_restarts data sz > max_restarts_allowed
           then \<lparr>bl_data = data, bl_size = 0, bl_restart_offset = 0\<rparr>
           else \<lparr>bl_data = data, bl_size = sz,
                 bl_restart_offset = sz - (1 + ldb_block_restarts data sz) * 4\<rparr>)"

text \<open>
  \<open>decode_entry data p limit\<close> is \<open>decode_entry(&shared, &non_shared, &value_length, p, limit)\<close>:
  the three lengths and the offset of the key delta, or \<open>None\<close> for NULL.
\<close>

definition decode_entry :: "bytes \<Rightarrow> nat \<Rightarrow> nat \<Rightarrow> (nat \<times> nat \<times> nat \<times> nat) option" where
  "decode_entry data p limit =
     (let xp = take (limit - p) (drop p data) in
      if limit < p \<or> length xp < 3 then None
      else
        (case (if ((ucast (xp ! 0) :: u32) OR ucast (xp ! 1) OR ucast (xp ! 2)) < 128
               then Some (unat (xp ! 0), unat (xp ! 1), unat (xp ! 2), drop 3 xp)
               else
                 (case ldb_varint32_read xp of None \<Rightarrow> None
                  | Some (shared, xp) \<Rightarrow>
                      (case ldb_varint32_read xp of None \<Rightarrow> None
                       | Some (non_shared, xp) \<Rightarrow>
                           (case ldb_varint32_read xp of None \<Rightarrow> None
                            | Some (value_length, xp) \<Rightarrow>
                                Some (unat shared, unat non_shared, unat value_length, xp))))) of
           None \<Rightarrow> None
         | Some (shared, non_shared, value_length, xp) \<Rightarrow>
             if length xp < non_shared + value_length then None
             else Some (shared, non_shared, value_length, limit - length xp)))"

section \<open>The block iterator\<close>

text \<open>The slice \<open>value\<close> is an offset into the data and a size.\<close>

record ldb_blockiter =
  bi_comparator :: ldb_comparator
  bi_data :: bytes
  bi_restarts :: nat
  bi_num_restarts :: nat
  bi_current :: nat
  bi_restart_index :: nat
  bi_key :: bytes
  bi_value :: "nat \<times> nat"
  bi_status :: status

definition next_entry_offset :: "ldb_blockiter \<Rightarrow> nat" where
  "next_entry_offset iter = fst (bi_value iter) + snd (bi_value iter)"

definition get_restart_point :: "ldb_blockiter \<Rightarrow> nat \<Rightarrow> nat" where
  "get_restart_point iter index =
     (let offset = unat (ldb_fixed32_decode (drop (bi_restarts iter + index * 4) (bi_data iter)))
      in if offset > bi_restarts iter then bi_restarts iter else offset)"

definition seek_to_restart_point :: "ldb_blockiter \<Rightarrow> nat \<Rightarrow> ldb_blockiter" where
  "seek_to_restart_point iter index =
     iter\<lparr>bi_key := [], bi_restart_index := index, bi_value := (get_restart_point iter index, 0)\<rparr>"

definition ldb_blockiter_init :: "ldb_comparator \<Rightarrow> bytes \<Rightarrow> nat \<Rightarrow> nat \<Rightarrow> ldb_blockiter" where
  "ldb_blockiter_init cmp data restarts num_restarts =
     \<lparr>bi_comparator = cmp, bi_data = data, bi_restarts = restarts, bi_num_restarts = num_restarts,
      bi_current = restarts, bi_restart_index = num_restarts, bi_key = [], bi_value = (0, 0), bi_status = OK\<rparr>"

definition ldb_blockiter_corruption :: "ldb_blockiter \<Rightarrow> ldb_blockiter" where
  "ldb_blockiter_corruption iter =
     iter\<lparr>bi_current := bi_restarts iter, bi_restart_index := bi_num_restarts iter,
          bi_status := CORRUPTION, bi_key := [], bi_value := (0, 0)\<rparr>"

definition ldb_blockiter_valid :: "ldb_blockiter \<Rightarrow> bool" where
  "ldb_blockiter_valid iter \<longleftrightarrow> bi_current iter < bi_restarts iter"

definition ldb_blockiter_key :: "ldb_blockiter \<Rightarrow> bytes" where
  "ldb_blockiter_key iter = bi_key iter"

definition ldb_blockiter_value :: "ldb_blockiter \<Rightarrow> bytes" where
  "ldb_blockiter_value iter = take (snd (bi_value iter)) (drop (fst (bi_value iter)) (bi_data iter))"

definition is_internal :: "ldb_blockiter \<Rightarrow> bool" where
  "is_internal iter \<longleftrightarrow> cmp_user (bi_comparator iter) \<noteq> None"

function advance_restart :: "ldb_blockiter \<Rightarrow> nat \<Rightarrow> nat" where
  "advance_restart iter i =
     (if i + 1 < bi_num_restarts iter \<and> get_restart_point iter (i + 1) < bi_current iter
      then advance_restart iter (i + 1) else i)"
  by pat_completeness auto
termination by (relation "measure (\<lambda>(iter, i). bi_num_restarts iter - i)") auto

declare advance_restart.simps [simp del]

definition parse_next_key :: "ldb_blockiter \<Rightarrow> bool \<times> ldb_blockiter" where
  "parse_next_key iter =
     (let iter = iter\<lparr>bi_current := next_entry_offset iter\<rparr>;
          p = bi_current iter; limit = bi_restarts iter
      in if p \<ge> limit then
           (False, iter\<lparr>bi_current := bi_restarts iter, bi_restart_index := bi_num_restarts iter\<rparr>)
         else
           (case decode_entry (bi_data iter) p limit of
              None \<Rightarrow> (False, ldb_blockiter_corruption iter)
            | Some (shared, non_shared, value_length, p) \<Rightarrow>
                if length (bi_key iter) < shared then (False, ldb_blockiter_corruption iter)
                else if is_internal iter \<and> shared + non_shared < 8 then (False, ldb_blockiter_corruption iter)
                else
                  let iter = iter\<lparr>bi_key := take shared (bi_key iter) @ take non_shared (drop p (bi_data iter)),
                                  bi_value := (p + non_shared, value_length)\<rparr>
                  in (True, iter\<lparr>bi_restart_index := advance_restart iter (bi_restart_index iter)\<rparr>)))"

definition ldb_blockiter_next :: "ldb_blockiter \<Rightarrow> ldb_blockiter" where
  "ldb_blockiter_next iter = snd (parse_next_key iter)"

text \<open>An entry is at least three bytes long, so parsing makes progress towards the limit.\<close>

lemma decode_entry_bounds:
  assumes "decode_entry data p limit = Some (s, n, v, q)"
  shows "p + 3 \<le> q \<and> q + n + v \<le> limit"
proof -
  define xp where "xp = take (limit - p) (drop p data)"
  have len: "length xp \<le> limit - p" by (simp add: xp_def)
  have vr: "length ys < length xs" if "ldb_varint32_read xs = Some (z, ys)" for xs z ys
    using varint32.dec_shrinks [OF that] .
  show ?thesis
    using assms len unfolding decode_entry_def xp_def [symmetric] Let_def
    by (auto split: if_splits option.splits dest!: vr) linarith+
qed

lemma parse_next_key_progress:
  assumes "parse_next_key iter = (True, iter')"
  shows "next_entry_offset iter < next_entry_offset iter' \<and> next_entry_offset iter' \<le> bi_restarts iter \<and>
    bi_restarts iter' = bi_restarts iter"
  using assms
  by (auto simp: parse_next_key_def Let_def next_entry_offset_def ldb_blockiter_corruption_def
      split: if_splits option.splits dest!: decode_entry_bounds)

text \<open>\<open>do \<dots> while (parse_next_key(iter) && next_entry_offset(iter) < limit)\<close>\<close>

function parse_until :: "nat \<Rightarrow> ldb_blockiter \<Rightarrow> ldb_blockiter" where
  "parse_until limit iter =
     (case parse_next_key iter of
        (ok, iter') \<Rightarrow> if ok \<and> next_entry_offset iter' < limit then parse_until limit iter' else iter')"
  by pat_completeness auto
termination
  by (relation "measure (\<lambda>(limit, iter). bi_restarts iter - next_entry_offset iter)")
    (auto dest!: sym [of "(True, _)"] parse_next_key_progress)

declare parse_until.simps [simp del]

text \<open>The backward scan over restart points; \<open>None\<close> when there is no entry before.\<close>

fun restart_before :: "ldb_blockiter \<Rightarrow> nat \<Rightarrow> nat \<Rightarrow> nat option" where
  "restart_before iter original i =
     (if get_restart_point iter i \<ge> original then
        (case i of 0 \<Rightarrow> None | Suc j \<Rightarrow> restart_before iter original j)
      else Some i)"

declare restart_before.simps [simp del]

definition ldb_blockiter_prev :: "ldb_blockiter \<Rightarrow> ldb_blockiter" where
  "ldb_blockiter_prev iter =
     (let original = bi_current iter in
      case restart_before iter original (bi_restart_index iter) of
        None \<Rightarrow> iter\<lparr>bi_current := bi_restarts iter, bi_restart_index := bi_num_restarts iter\<rparr>
      | Some i \<Rightarrow> parse_until original (seek_to_restart_point iter i))"

text \<open>The binary search over restart points; \<open>None\<close> when an entry is corrupt.\<close>

function restart_search :: "ldb_blockiter \<Rightarrow> bytes \<Rightarrow> nat \<Rightarrow> nat \<Rightarrow> nat option" where
  "restart_search iter target left right =
     (if left < right then
        (let mid = (left + right + 1) div 2; region_offset = get_restart_point iter mid in
         case decode_entry (bi_data iter) region_offset (bi_restarts iter) of
           None \<Rightarrow> None
         | Some (shared, non_shared, value_length, key_ptr) \<Rightarrow>
             if shared \<noteq> 0 then None
             else if is_internal iter \<and> non_shared < 8 then None
             else
               (let mid_key = take non_shared (drop key_ptr (bi_data iter)) in
                if ldb_compare (bi_comparator iter) mid_key target < 0
                then restart_search iter target mid right
                else restart_search iter target left (mid - 1)))
      else Some left)"
  by pat_completeness auto
termination by (relation "measure (\<lambda>(iter, target, left, right). right - left)") auto

declare restart_search.simps [simp del]

function linear_search :: "bytes \<Rightarrow> ldb_blockiter \<Rightarrow> ldb_blockiter" where
  "linear_search target iter =
     (case parse_next_key iter of
        (ok, iter') \<Rightarrow>
          if \<not> ok then iter'
          else if ldb_compare (bi_comparator iter') (bi_key iter') target \<ge> 0 then iter'
          else linear_search target iter')"
  by pat_completeness auto
termination
  by (relation "measure (\<lambda>(target, iter). bi_restarts iter - next_entry_offset iter)")
    (auto dest!: sym [of "(True, _)"] parse_next_key_progress)

declare linear_search.simps [simp del]

definition ldb_blockiter_seek :: "ldb_blockiter \<Rightarrow> bytes \<Rightarrow> ldb_blockiter" where
  "ldb_blockiter_seek iter target =
     (if is_internal iter \<and> length target < 8 then ldb_blockiter_corruption iter
      else
        (let current_key_compare =
               (if ldb_blockiter_valid iter then ldb_compare (bi_comparator iter) (bi_key iter) target else 0)
         in if ldb_blockiter_valid iter \<and> current_key_compare = 0 then iter
            else
              (let left = (if current_key_compare < 0 then bi_restart_index iter else 0);
                   right = (if current_key_compare > 0 then bi_restart_index iter else bi_num_restarts iter - 1)
               in case restart_search iter target left right of
                    None \<Rightarrow> ldb_blockiter_corruption iter
                  | Some left \<Rightarrow>
                      let skip_seek = (left = bi_restart_index iter \<and> current_key_compare < 0)
                      in linear_search target (if skip_seek then iter else seek_to_restart_point iter left))))"

definition ldb_blockiter_first :: "ldb_blockiter \<Rightarrow> ldb_blockiter" where
  "ldb_blockiter_first iter = snd (parse_next_key (seek_to_restart_point iter 0))"

definition ldb_blockiter_last :: "ldb_blockiter \<Rightarrow> ldb_blockiter" where
  "ldb_blockiter_last iter =
     parse_until (bi_restarts iter) (seek_to_restart_point iter (bi_num_restarts iter - 1))"

text \<open>A block whose contents are bad, or without restart points, gives an empty iterator with that status.\<close>

definition ldb_blockiter_create :: "ldb_block \<Rightarrow> ldb_comparator \<Rightarrow> status + ldb_blockiter" where
  "ldb_blockiter_create block cmp =
     (if bl_size block < 4 then Inl CORRUPTION
      else let num_restarts = ldb_block_restarts (bl_data block) (bl_size block) in
           if num_restarts = 0 then Inl OK
           else Inr (ldb_blockiter_init cmp (bl_data block) (bl_restart_offset block) num_restarts))"

section \<open>Well-formed blocks\<close>

text \<open>
  \<open>block_layout c data restarts es offs ridx\<close>: entry \<open>i\<close> of \<open>es\<close> is stored at \<open>offs ! i\<close>
  and the restart point \<open>j\<close> is entry \<open>ridx ! j\<close>.
\<close>

definition entry_at :: "bytes \<Rightarrow> nat \<Rightarrow> bytes \<Rightarrow> bytes \<times> bytes \<Rightarrow> nat \<Rightarrow> nat \<Rightarrow> bool" where
  "entry_at data restarts prev e off off' \<longleftrightarrow>
     (\<exists>s p. decode_entry data off restarts = Some (s, length (fst e) - s, length (snd e), p) \<and>
        s \<le> length prev \<and> s \<le> length (fst e) \<and> take s prev = take s (fst e) \<and>
        take (length (fst e) - s) (drop p data) = drop s (fst e) \<and>
        take (length (snd e)) (drop (p + (length (fst e) - s)) data) = snd e \<and>
        off' = p + (length (fst e) - s) + length (snd e))"

definition block_layout ::
  "ldb_comparator \<Rightarrow> bytes \<Rightarrow> nat \<Rightarrow> nat \<Rightarrow> (bytes \<times> bytes) list \<Rightarrow> nat list \<Rightarrow> nat list \<Rightarrow> bool" where
  "block_layout c data restarts num es offs ridx \<longleftrightarrow>
     length offs = Suc (length es) \<and> offs ! 0 = 0 \<and> offs ! length es = restarts \<and>
     (\<forall>i < length es. offs ! i < offs ! Suc i \<and>
        entry_at data restarts (if i = 0 then [] else fst (es ! (i - 1))) (es ! i) (offs ! i) (offs ! Suc i)) \<and>
     length ridx = num \<and> 0 < num \<and> ridx ! 0 = 0 \<and>
     (\<forall>j. Suc j < num \<longrightarrow> ridx ! j < ridx ! Suc j \<and> ridx ! Suc j < length es) \<and>
     (\<forall>j < num. unat (ldb_fixed32_decode (drop (restarts + j * 4) data)) = offs ! (ridx ! j)) \<and>
     (\<forall>j < num. ridx ! j < length es \<longrightarrow>
        entry_at data restarts [] (es ! (ridx ! j)) (offs ! (ridx ! j)) (offs ! Suc (ridx ! j))) \<and>
     (cmp_user c \<noteq> None \<longrightarrow> (\<forall>e \<in> set es. 8 \<le> length (fst e))) \<and>
     sorted_wrt (\<lambda>x y. ldb_compare c (fst x) (fst y) < 0) es"

lemma block_layoutD:
  assumes "block_layout c data restarts num es offs ridx"
  shows "length offs = Suc (length es)" "offs ! 0 = 0" "offs ! length es = restarts"
    "\<And>i. i < length es \<Longrightarrow> offs ! i < offs ! Suc i"
    "\<And>i. i < length es \<Longrightarrow> entry_at data restarts (if i = 0 then [] else fst (es ! (i - 1))) (es ! i) (offs ! i) (offs ! Suc i)"
    "length ridx = num" "0 < num" "ridx ! 0 = 0"
    "\<And>j. Suc j < num \<Longrightarrow> ridx ! j < ridx ! Suc j" "\<And>j. Suc j < num \<Longrightarrow> ridx ! Suc j < length es"
    "\<And>j. j < num \<Longrightarrow> unat (ldb_fixed32_decode (drop (restarts + j * 4) data)) = offs ! (ridx ! j)"
    "\<And>j. j < num \<Longrightarrow> ridx ! j < length es \<Longrightarrow>
      entry_at data restarts [] (es ! (ridx ! j)) (offs ! (ridx ! j)) (offs ! Suc (ridx ! j))"
    "\<And>e. cmp_user c \<noteq> None \<Longrightarrow> e \<in> set es \<Longrightarrow> 8 \<le> length (fst e)"
    "sorted_wrt (\<lambda>x y. ldb_compare c (fst x) (fst y) < 0) es"
  using assms by (simp_all add: block_layout_def)

lemma layout_offs_mono:
  assumes "block_layout c data restarts num es offs ridx"
  shows "i < k \<Longrightarrow> k \<le> length es \<Longrightarrow> offs ! i < offs ! k"
proof (induction k)
  case (Suc k)
  then show ?case using block_layoutD(4) [OF assms, of k] by (cases "i = k") auto
qed simp

lemma layout_offs_less_iff:
  assumes "block_layout c data restarts num es offs ridx" "i \<le> length es" "k \<le> length es"
  shows "offs ! i < offs ! k \<longleftrightarrow> i < k" "offs ! i \<le> offs ! k \<longleftrightarrow> i \<le> k"
  using layout_offs_mono [OF assms(1), of i k] layout_offs_mono [OF assms(1), of k i] assms(2,3)
  by (cases i k rule: linorder_cases; simp)+

lemma layout_ridx_le:
  assumes "block_layout c data restarts num es offs ridx" "j < num"
  shows "ridx ! j \<le> length es"
  using block_layoutD(8,10) [OF assms(1)] assms(2) by (cases j) (auto intro: less_imp_le)

lemma layout_ridx_less:
  assumes "block_layout c data restarts num es offs ridx" "0 < length es" "j < num"
  shows "ridx ! j < length es"
  using block_layoutD(8,10) [OF assms(1)] assms(2,3) by (cases j) auto

lemma layout_ridx_mono:
  assumes "block_layout c data restarts num es offs ridx"
  shows "i \<le> j \<Longrightarrow> j < num \<Longrightarrow> ridx ! i \<le> ridx ! j"
proof (induction j)
  case (Suc j)
  then show ?case using block_layoutD(9) [OF assms, of j] by (cases "i = Suc j") auto
qed simp

section \<open>Positions of the iterator\<close>

definition blockiter_on :: "ldb_blockiter \<Rightarrow> (bytes \<times> bytes) list \<Rightarrow> nat list \<Rightarrow> nat list \<Rightarrow> bool" where
  "blockiter_on it es offs ridx \<longleftrightarrow> bi_status it = OK \<and>
     block_layout (bi_comparator it) (bi_data it) (bi_restarts it) (bi_num_restarts it) es offs ridx"

text \<open>Parsing from here reads entry \<open>k\<close>, with restart index at most the right one.\<close>

definition ready :: "ldb_blockiter \<Rightarrow> (bytes \<times> bytes) list \<Rightarrow> nat list \<Rightarrow> nat list \<Rightarrow> nat \<Rightarrow> bool" where
  "ready it es offs ridx k \<longleftrightarrow> blockiter_on it es offs ridx \<and> k \<le> length es \<and> next_entry_offset it = offs ! k \<and>
     bi_restart_index it < bi_num_restarts it \<and> ridx ! bi_restart_index it \<le> k \<and>
     (bi_key it = (if k = 0 then [] else fst (es ! (k - 1))) \<or>
      bi_key it = [] \<and> k = ridx ! bi_restart_index it)"

definition blockiter_pos :: "ldb_blockiter \<Rightarrow> (bytes \<times> bytes) list \<Rightarrow> nat list \<Rightarrow> nat list \<Rightarrow> nat \<Rightarrow> bool" where
  "blockiter_pos it es offs ridx k \<longleftrightarrow> blockiter_on it es offs ridx \<and> k \<le> length es \<and> bi_current it = offs ! k \<and>
     (if k < length es then
        bi_key it = fst (es ! k) \<and> ldb_blockiter_value it = snd (es ! k) \<and> next_entry_offset it = offs ! Suc k \<and>
        bi_restart_index it < bi_num_restarts it \<and> ridx ! bi_restart_index it \<le> k \<and>
        (Suc (bi_restart_index it) < bi_num_restarts it \<longrightarrow> k \<le> ridx ! Suc (bi_restart_index it))
      else bi_restart_index it = bi_num_restarts it)"

lemma get_restart_point_layout:
  assumes "blockiter_on it es offs ridx" "j < bi_num_restarts it"
  shows "get_restart_point it j = offs ! (ridx ! j)"
proof -
  have L: "block_layout (bi_comparator it) (bi_data it) (bi_restarts it) (bi_num_restarts it) es offs ridx"
    using assms(1) by (simp add: blockiter_on_def)
  have "offs ! (ridx ! j) \<le> offs ! length es"
    using layout_offs_less_iff(2) [OF L, of "ridx ! j" "length es"] layout_ridx_le [OF L assms(2)] by simp
  then show ?thesis
    using block_layoutD(3) [OF L] block_layoutD(11) [OF L assms(2)]
    by (simp add: get_restart_point_def Let_def)
qed

lemma advance_restart_layout:
  assumes on: "blockiter_on it es offs ridx" and cur: "bi_current it = offs ! k" "k < length es"
  shows "i < bi_num_restarts it \<Longrightarrow> ridx ! i \<le> k \<Longrightarrow>
    advance_restart it i < bi_num_restarts it \<and> ridx ! advance_restart it i \<le> k \<and>
    (Suc (advance_restart it i) < bi_num_restarts it \<longrightarrow> k \<le> ridx ! Suc (advance_restart it i))"
proof (induction "bi_num_restarts it - i" arbitrary: i rule: less_induct)
  case less
  have L: "block_layout (bi_comparator it) (bi_data it) (bi_restarts it) (bi_num_restarts it) es offs ridx"
    using on by (simp add: blockiter_on_def)
  have next_iff: "get_restart_point it (i + 1) < bi_current it \<longleftrightarrow> ridx ! (i + 1) < k" if "i + 1 < bi_num_restarts it"
    using get_restart_point_layout [OF on that] layout_offs_less_iff(1) [OF L layout_ridx_le [OF L that], of k] cur by simp
  show ?case
  proof (cases "i + 1 < bi_num_restarts it \<and> get_restart_point it (i + 1) < bi_current it")
    case True
    then have "advance_restart it i = advance_restart it (i + 1)" by (subst advance_restart.simps) (rule if_P)
    moreover have "bi_num_restarts it - (i + 1) < bi_num_restarts it - i" using True by linarith
    ultimately show ?thesis using less.hyps [of "i + 1"] True next_iff by simp
  next
    case False
    then have "advance_restart it i = i" by (subst advance_restart.simps) (rule if_not_P)
    with False next_iff less.prems show ?thesis by (auto simp: not_less)
  qed
qed

lemma parse_at_end:
  assumes "ready it es offs ridx (length es)"
  shows "\<exists>it'. parse_next_key it = (False, it') \<and> blockiter_pos it' es offs ridx (length es)"
proof -
  have on: "blockiter_on it es offs ridx" using assms by (simp add: ready_def)
  then have end_off: "offs ! length es = bi_restarts it"
    using block_layoutD(3) unfolding blockiter_on_def by blast
  then have "next_entry_offset it = bi_restarts it" using assms by (simp add: ready_def)
  then show ?thesis
    using on end_off by (auto simp: parse_next_key_def Let_def next_entry_offset_def blockiter_pos_def blockiter_on_def)
qed

lemma parse_entry:
  assumes "ready it es offs ridx k" "k < length es"
  shows "\<exists>it'. parse_next_key it = (True, it') \<and> blockiter_pos it' es offs ridx k"
proof -
  let ?e = "es ! k"
  have on: "blockiter_on it es offs ridx" and off: "next_entry_offset it = offs ! k"
    and ri: "bi_restart_index it < bi_num_restarts it" "ridx ! bi_restart_index it \<le> k"
    using assms(1) by (simp_all add: ready_def)
  have L: "block_layout (bi_comparator it) (bi_data it) (bi_restarts it) (bi_num_restarts it) es offs ridx"
    using on by (simp add: blockiter_on_def)
  have lim: "offs ! k < bi_restarts it"
    using layout_offs_mono [OF L assms(2)] block_layoutD(3) [OF L] by simp
  have "entry_at (bi_data it) (bi_restarts it) (bi_key it) ?e (offs ! k) (offs ! Suc k)"
    using assms block_layoutD(5) [OF L, of k] block_layoutD(12) [OF L ri(1)] by (auto simp: ready_def split: if_splits)
  then obtain s p where e: "decode_entry (bi_data it) (offs ! k) (bi_restarts it) = Some (s, length (fst ?e) - s, length (snd ?e), p)"
    "s \<le> length (bi_key it)" "s \<le> length (fst ?e)" "take s (bi_key it) = take s (fst ?e)"
    "take (length (fst ?e) - s) (drop p (bi_data it)) = drop s (fst ?e)"
    "take (length (snd ?e)) (drop (p + (length (fst ?e) - s)) (bi_data it)) = snd ?e"
    "offs ! Suc k = p + (length (fst ?e) - s) + length (snd ?e)"
    by (auto simp: entry_at_def)
  have int: "is_internal it \<longrightarrow> 8 \<le> length (fst ?e)"
    using block_layoutD(13) [OF L] assms(2) by (auto simp: is_internal_def)
  let ?it = "it\<lparr>bi_current := offs ! k, bi_key := fst ?e, bi_value := (p + (length (fst ?e) - s), length (snd ?e))\<rparr>"
  have on': "blockiter_on ?it es offs ridx" using on by (simp add: blockiter_on_def)
  have "parse_next_key it = (True, ?it\<lparr>bi_restart_index := advance_restart ?it (bi_restart_index it)\<rparr>)"
    using lim int e(1-5) by (auto simp: parse_next_key_def Let_def off is_internal_def)
  moreover have "blockiter_pos (?it\<lparr>bi_restart_index := advance_restart ?it (bi_restart_index it)\<rparr>) es offs ridx k"
    using advance_restart_layout [OF on' _ assms(2), of "bi_restart_index it"] ri on assms(2) e(6,7)
    by (simp add: blockiter_pos_def blockiter_on_def ldb_blockiter_value_def next_entry_offset_def)
  ultimately show ?thesis by blast
qed

lemma pos_ready:
  assumes "blockiter_pos it es offs ridx k" "k < length es"
  shows "ready it es offs ridx (Suc k)"
  using assms by (simp add: blockiter_pos_def ready_def le_SucI)

lemma restart_ready:
  assumes "blockiter_on it es offs ridx" "j < bi_num_restarts it"
  shows "ready (seek_to_restart_point it j) es offs ridx (ridx ! j)"
  using assms get_restart_point_layout [OF assms] layout_ridx_le
  by (auto simp: ready_def blockiter_on_def seek_to_restart_point_def next_entry_offset_def)

lemma parse_ready:
  assumes "ready it es offs ridx k"
  shows "\<exists>it'. parse_next_key it = (k < length es, it') \<and> blockiter_pos it' es offs ridx k"
proof (cases "k < length es")
  case False
  then have "k = length es" using assms by (simp add: ready_def)
  then show ?thesis using parse_at_end assms by simp
qed (use parse_entry assms in auto)

lemma blockiter_pos_on: "blockiter_pos it es offs ridx k \<Longrightarrow> blockiter_on it es offs ridx"
  by (simp add: blockiter_pos_def)

lemma blockiter_next_pos:
  assumes "blockiter_pos it es offs ridx k" "k < length es"
  shows "blockiter_pos (ldb_blockiter_next it) es offs ridx (Suc k)"
  using parse_ready [OF pos_ready [OF assms]] by (auto simp: ldb_blockiter_next_def)

lemma blockiter_first_pos:
  assumes "blockiter_on it es offs ridx"
  shows "blockiter_pos (ldb_blockiter_first it) es offs ridx 0"
proof -
  have "0 < bi_num_restarts it" "ridx ! 0 = 0"
    using assms block_layoutD(7,8) by (auto simp: blockiter_on_def)
  then show ?thesis
    using parse_ready [OF restart_ready [OF assms, of 0]] by (auto simp: ldb_blockiter_first_def)
qed

lemma parse_until_pos:
  assumes "m \<le> length es" "0 < m"
  shows "ready it es offs ridx k \<Longrightarrow> k < m \<Longrightarrow> blockiter_pos (parse_until (offs ! m) it) es offs ridx (m - 1)"
proof (induction "m - k" arbitrary: it k rule: less_induct)
  case less
  obtain it' where it': "parse_next_key it = (True, it')" "blockiter_pos it' es offs ridx k"
    using parse_ready [OF less.prems(1)] less.prems(2) assms(1) by auto
  have L: "block_layout (bi_comparator it') (bi_data it') (bi_restarts it') (bi_num_restarts it') es offs ridx"
    using it'(2) by (simp add: blockiter_pos_def blockiter_on_def)
  have "next_entry_offset it' = offs ! Suc k"
    using it'(2) less.prems(2) assms(1) by (simp add: blockiter_pos_def)
  then have iff: "next_entry_offset it' < offs ! m \<longleftrightarrow> Suc k < m"
    using layout_offs_less_iff(1) [OF L, of "Suc k" m] less.prems(2) assms(1) by simp
  show ?case
  proof (cases "Suc k < m")
    case True
    then have "parse_until (offs ! m) it = parse_until (offs ! m) it'"
      using it'(1) iff by (simp add: parse_until.simps [of _ it])
    then show ?thesis
      using less.hyps [of "Suc k" it'] pos_ready [OF it'(2)] True assms(1) by simp
  next
    case False
    then have "parse_until (offs ! m) it = it'" "k = m - 1"
      using it'(1) iff less.prems(2) by (simp_all add: parse_until.simps [of _ it])
    then show ?thesis using it'(2) by simp
  qed
qed

lemma restart_before_layout:
  assumes on: "blockiter_on it es offs ridx" and k: "k \<le> length es"
  shows "i < bi_num_restarts it \<Longrightarrow>
    (case restart_before it (offs ! k) i of
       None \<Rightarrow> k = 0 | Some j \<Rightarrow> j < bi_num_restarts it \<and> ridx ! j < k)"
proof -
  have L: "block_layout (bi_comparator it) (bi_data it) (bi_restarts it) (bi_num_restarts it) es offs ridx"
    using on by (simp add: blockiter_on_def)
  have iff: "get_restart_point it i \<ge> offs ! k \<longleftrightarrow> k \<le> ridx ! i" if "i < bi_num_restarts it" for i
    using get_restart_point_layout [OF on that] layout_offs_less_iff(2) [OF L k layout_ridx_le [OF L that]] by simp
  show "i < bi_num_restarts it \<Longrightarrow> ?thesis"
  proof (induction i)
    case 0
    then show ?case
      using iff [of 0] block_layoutD(8) [OF L] by (auto simp: restart_before.simps [of it _ 0])
  next
    case (Suc i)
    then show ?case
      using iff [of "Suc i"] by (auto simp: restart_before.simps [of it _ "Suc i"])
  qed
qed

lemma blockiter_prev_pos:
  assumes pos: "blockiter_pos it es offs ridx k" and k: "k < length es"
  shows "blockiter_pos (ldb_blockiter_prev it) es offs ridx (if k = 0 then length es else k - 1)"
proof -
  have on: "blockiter_on it es offs ridx" and cur: "bi_current it = offs ! k" and ri: "bi_restart_index it < bi_num_restarts it"
    using assms by (simp_all add: blockiter_pos_def)
  have rb: "case restart_before it (offs ! k) (bi_restart_index it) of
      None \<Rightarrow> k = 0 | Some j \<Rightarrow> j < bi_num_restarts it \<and> ridx ! j < k"
    using restart_before_layout [OF on _ ri, of k] k by simp
  show ?thesis
  proof (cases "restart_before it (offs ! k) (bi_restart_index it)")
    case None
    moreover have "offs ! length es = bi_restarts it" using on block_layoutD(3) unfolding blockiter_on_def by blast
    ultimately show ?thesis
      using rb on cur by (simp add: ldb_blockiter_prev_def Let_def blockiter_pos_def blockiter_on_def)
  next
    case (Some j)
    then have "ready (seek_to_restart_point it j) es offs ridx (ridx ! j)" "ridx ! j < k"
      using restart_ready [OF on] rb by auto
    then show ?thesis
      using parse_until_pos [of k es] k Some cur by (auto simp: ldb_blockiter_prev_def Let_def)
  qed
qed

lemma blockiter_last_pos:
  assumes on: "blockiter_on it es offs ridx"
  shows "blockiter_pos (ldb_blockiter_last it) es offs ridx (if es = [] then 0 else length es - 1)"
proof -
  have L: "block_layout (bi_comparator it) (bi_data it) (bi_restarts it) (bi_num_restarts it) es offs ridx"
    using on by (simp add: blockiter_on_def)
  let ?j = "bi_num_restarts it - 1"
  have j: "?j < bi_num_restarts it" using block_layoutD(7) [OF L] by simp
  have ready: "ready (seek_to_restart_point it ?j) es offs ridx (ridx ! ?j)" by (rule restart_ready [OF on j])
  show ?thesis
  proof (cases "es = []")
    case True
    then have "ridx ! ?j = 0" using layout_ridx_le [OF L j] by simp
    then obtain it' where "parse_next_key (seek_to_restart_point it ?j) = (False, it')" "blockiter_pos it' es offs ridx 0"
      using parse_ready [OF ready] True by auto
    then show ?thesis
      using True by (simp only: ldb_blockiter_last_def parse_until.simps [of _ "seek_to_restart_point it ?j"]) simp
  next
    case False
    then show ?thesis
      using parse_until_pos [OF order_refl _ ready] layout_ridx_less [OF L _ j] block_layoutD(3) [OF L]
      by (simp add: ldb_blockiter_last_def)
  qed
qed

section \<open>Seeking\<close>

text \<open>The number of entries before a target, and what it means to be the first one not before it.\<close>

definition seek_pos :: "ldb_comparator \<Rightarrow> bytes \<Rightarrow> (bytes \<times> bytes) list \<Rightarrow> nat" where
  "seek_pos c t es = length (takeWhile (\<lambda>e. ldb_compare c (fst e) t < 0) es)"

locale block_order = comparator "ldb_compare c" "\<lambda>_. True" for c :: ldb_comparator
begin

lemma seek_pos_iff:
  assumes "block_layout c data restarts num es offs ridx" "i < length es"
  shows "ldb_compare c (fst (es ! i)) t < 0 \<longleftrightarrow> i < seek_pos c t es"
  unfolding seek_pos_def
  by (rule length_takeWhile_less_iff [OF block_layoutD(14) [OF assms(1)] _ assms(2), symmetric])
    (auto intro: cmp_less_trans)

lemma seek_pos_le: "seek_pos c t es \<le> length es"
  unfolding seek_pos_def by (rule length_takeWhile_le)

lemma linear_search_pos:
  assumes "bi_comparator it = c"
  shows "ready it es offs ridx k \<Longrightarrow> k \<le> seek_pos c t es \<Longrightarrow>
    blockiter_pos (linear_search t it) es offs ridx (seek_pos c t es)"
  using assms
proof (induction "length es - k" arbitrary: it k rule: less_induct)
  case less
  obtain it' where it': "parse_next_key it = (k < length es, it')" "blockiter_pos it' es offs ridx k"
    using parse_ready [OF less.prems(1)] by blast
  have c: "bi_comparator it' = c"
    using it'(1) less.prems(3) by (auto simp: parse_next_key_def Let_def ldb_blockiter_corruption_def
        split: if_splits option.splits)
  have L: "block_layout c (bi_data it') (bi_restarts it') (bi_num_restarts it') es offs ridx"
    using it'(2) c by (simp add: blockiter_pos_def blockiter_on_def)
  show ?case
  proof (cases "k < length es")
    case True
    have key: "bi_key it' = fst (es ! k)" using it'(2) True by (simp add: blockiter_pos_def)
    show ?thesis
    proof (cases "k < seek_pos c t es")
      case lt: True
      then have "linear_search t it = linear_search t it'"
        using True it'(1) c key seek_pos_iff [OF L True, of t] by (simp add: linear_search.simps [of t it])
      moreover have "blockiter_pos (linear_search t it') es offs ridx (seek_pos c t es)"
        using less.hyps [OF _ pos_ready [OF it'(2) True] _ c] lt True by simp
      ultimately show ?thesis by simp
    next
      case False
      then have "linear_search t it = it'" "k = seek_pos c t es"
        using True it'(1) c key seek_pos_iff [OF L True, of t] less.prems(2)
        by (simp_all add: linear_search.simps [of t it])
      then show ?thesis using it'(2) by simp
    qed
  next
    case False
    then have "linear_search t it = it'" using it'(1) by (simp add: linear_search.simps [of t it])
    moreover have "k = seek_pos c t es" using False less.prems(2) seek_pos_le [of t es] by simp
    ultimately show ?thesis using it'(2) by simp
  qed
qed

lemma restart_key:
  assumes on: "blockiter_on it es offs ridx" and j: "j < bi_num_restarts it" "ridx ! j < length es"
  shows "\<exists>v p. decode_entry (bi_data it) (get_restart_point it j) (bi_restarts it) =
      Some (0, length (fst (es ! (ridx ! j))), v, p) \<and>
    take (length (fst (es ! (ridx ! j)))) (drop p (bi_data it)) = fst (es ! (ridx ! j))"
proof -
  have L: "block_layout (bi_comparator it) (bi_data it) (bi_restarts it) (bi_num_restarts it) es offs ridx"
    using on by (simp add: blockiter_on_def)
  show ?thesis
    using block_layoutD(12) [OF L j] get_restart_point_layout [OF on j(1)] by (auto simp: entry_at_def)
qed

lemma restart_search_layout:
  assumes on: "blockiter_on it es offs ridx" and c: "bi_comparator it = c"
  shows "left \<le> right \<Longrightarrow> right < bi_num_restarts it \<Longrightarrow>
    left = 0 \<or> ridx ! left < seek_pos c t es \<Longrightarrow>
    Suc right < bi_num_restarts it \<longrightarrow> seek_pos c t es \<le> ridx ! Suc right \<Longrightarrow>
    \<exists>j. restart_search it t left right = Some j \<and> left \<le> j \<and> j \<le> right \<and> (j = 0 \<or> ridx ! j < seek_pos c t es)"
proof (induction "right - left" arbitrary: left right rule: less_induct)
  case less
  have L: "block_layout c (bi_data it) (bi_restarts it) (bi_num_restarts it) es offs ridx"
    using on c by (simp add: blockiter_on_def)
  show ?case
  proof (cases "left < right")
    case True
    let ?mid = "(left + right + 1) div 2"
    have mid: "left < ?mid" "?mid \<le> right" using True by auto
    then obtain m where m: "?mid = Suc m" by (cases ?mid) auto
    then have j: "?mid < bi_num_restarts it" "ridx ! ?mid < length es"
      using less.prems(2) mid block_layoutD(10) [OF L, of m] by auto
    obtain v p where dec: "decode_entry (bi_data it) (get_restart_point it ?mid) (bi_restarts it) =
        Some (0, length (fst (es ! (ridx ! ?mid))), v, p)"
      "take (length (fst (es ! (ridx ! ?mid)))) (drop p (bi_data it)) = fst (es ! (ridx ! ?mid))"
      using restart_key [OF on j] by blast
    have int: "\<not> (is_internal it \<and> length (fst (es ! (ridx ! ?mid))) < 8)"
      using block_layoutD(13) [OF L _ nth_mem [OF j(2)]] c unfolding is_internal_def by fastforce
    have step: "restart_search it t left right =
        (if ridx ! ?mid < seek_pos c t es then restart_search it t ?mid right else restart_search it t left (?mid - 1))"
      using True dec int c seek_pos_iff [OF L j(2), of t]
      by (subst restart_search.simps) (auto simp: Let_def)
    show ?thesis
    proof (cases "ridx ! ?mid < seek_pos c t es")
      case lt: True
      have "right - ?mid < right - left" using mid by linarith
      from less.hyps [OF this mid(2) less.prems(2) _ less.prems(4)] lt step mid show ?thesis by auto
    next
      case False
      have "?mid - 1 - left < right - left" "left \<le> ?mid - 1" "?mid - 1 < bi_num_restarts it" "Suc (?mid - 1) = ?mid"
        using mid less.prems(2) by linarith+
      from less.hyps [OF this(1-3) less.prems(3)] this(4) False step mid show ?thesis by auto
    qed
  next
    case False
    then have "restart_search it t left right = Some left" by (subst restart_search.simps) simp
    then show ?thesis using less.prems by auto
  qed
qed

lemma seek_from_restart:
  assumes on: "blockiter_on it es offs ridx" and c: "bi_comparator it = c" and j: "j < bi_num_restarts it"
    and le: "j = 0 \<or> ridx ! j < seek_pos c t es"
  shows "blockiter_pos (linear_search t (seek_to_restart_point it j)) es offs ridx (seek_pos c t es)"
proof (rule linear_search_pos)
  have L: "block_layout c (bi_data it) (bi_restarts it) (bi_num_restarts it) es offs ridx"
    using on c by (simp add: blockiter_on_def)
  show "bi_comparator (seek_to_restart_point it j) = c" using c by (simp add: seek_to_restart_point_def)
  show "ready (seek_to_restart_point it j) es offs ridx (ridx ! j)" by (rule restart_ready [OF on j])
  show "ridx ! j \<le> seek_pos c t es" using le block_layoutD(8) [OF L] by auto
qed

lemma blockiter_seek_pos:
  assumes pos: "blockiter_pos it es offs ridx k" and c: "bi_comparator it = c"
    and t: "cmp_user c \<noteq> None \<longrightarrow> 8 \<le> length t"
  shows "blockiter_pos (ldb_blockiter_seek it t) es offs ridx (seek_pos c t es)"
proof -
  have on: "blockiter_on it es offs ridx" using pos by (rule blockiter_pos_on)
  have L: "block_layout c (bi_data it) (bi_restarts it) (bi_num_restarts it) es offs ridx"
    using on c by (simp add: blockiter_on_def)
  have int: "\<not> (is_internal it \<and> length t < 8)" using t c by (auto simp: is_internal_def)
  have valid: "ldb_blockiter_valid it \<longleftrightarrow> k < length es"
    using pos layout_offs_less_iff(1) [OF L _ order_refl, of k] block_layoutD(3) [OF L]
    by (auto simp: ldb_blockiter_valid_def blockiter_pos_def)
  define cc where "cc = (if k < length es then ldb_compare c (bi_key it) t else 0)"
  let ?ri = "bi_restart_index it" and ?num = "bi_num_restarts it"
  let ?left = "if cc < 0 then ?ri else 0" and ?right = "if cc > 0 then ?ri else ?num - 1"
  have seek: "ldb_blockiter_seek it t =
      (if k < length es \<and> cc = 0 then it
       else case restart_search it t ?left ?right of None \<Rightarrow> ldb_blockiter_corruption it
         | Some j \<Rightarrow> linear_search t (if j = ?ri \<and> cc < 0 then it else seek_to_restart_point it j))"
    using int by (simp only: ldb_blockiter_seek_def Let_def valid c cc_def [symmetric] if_False)
  have at: "bi_key it = fst (es ! k)" "?ri < ?num" "ridx ! ?ri \<le> k"
    "Suc ?ri < ?num \<longrightarrow> k \<le> ridx ! Suc ?ri" if "k < length es"
    using pos that by (simp_all add: blockiter_pos_def)
  have before: "cc < 0 \<longrightarrow> k < length es \<and> k < seek_pos c t es" "cc > 0 \<longrightarrow> k < length es \<and> seek_pos c t es \<le> k"
    using seek_pos_iff [OF L, of k t] at(1) by (auto simp: cc_def not_less split: if_splits)
  show ?thesis
  proof (cases "k < length es \<and> cc = 0")
    case True
    then have key: "ldb_compare c (fst (es ! k)) t = 0" using at(1) by (auto simp: cc_def)
    then have "seek_pos c t es \<le> k" using seek_pos_iff [OF L, of k t] True by auto
    moreover have "\<not> seek_pos c t es < k"
    proof
      assume lt: "seek_pos c t es < k"
      then have "ldb_compare c (fst (es ! seek_pos c t es)) (fst (es ! k)) < 0"
        using block_layoutD(14) [OF L] True by (simp add: sorted_wrt_iff_nth_less)
      then have "ldb_compare c (fst (es ! seek_pos c t es)) t < 0"
        using cmp_less_le_trans [of "fst (es ! seek_pos c t es)" "fst (es ! k)" t] key by simp
      then show False using seek_pos_iff [OF L, of "seek_pos c t es" t] lt True by simp
    qed
    ultimately show ?thesis using True pos seek by simp
  next
    case False
    have num: "0 < ?num" using block_layoutD(7) [OF L] .
    have "\<exists>j. restart_search it t ?left ?right = Some j \<and> ?left \<le> j \<and> j \<le> ?right \<and> (j = 0 \<or> ridx ! j < seek_pos c t es)"
    proof (rule restart_search_layout [OF on c])
      show "?left \<le> ?right" "?right < ?num" using before at(2) num by auto
      show "?left = 0 \<or> ridx ! ?left < seek_pos c t es" using before at(3) by auto
      show "Suc ?right < ?num \<longrightarrow> seek_pos c t es \<le> ridx ! Suc ?right" using before at(4) by auto
    qed
    then obtain j where j: "restart_search it t ?left ?right = Some j" "j \<le> ?right" "j = 0 \<or> ridx ! j < seek_pos c t es"
      by blast
    have jn: "j < ?num" using j(2) before at(2) num by (auto split: if_splits)
    show ?thesis
    proof (cases "j = ?ri \<and> cc < 0")
      case True
      then have "blockiter_pos (linear_search t it) es offs ridx (seek_pos c t es)"
        using linear_search_pos [OF c pos_ready [OF pos]] before by simp
      then show ?thesis using True False j(1) seek by simp
    next
      case skip: False
      have eq: "ldb_blockiter_seek it t = linear_search t (seek_to_restart_point it j)"
        by (simp only: seek if_not_P [OF False] j(1) option.case if_not_P [OF skip])
      show ?thesis unfolding eq by (rule seek_from_restart [OF on c jn j(3)])
    qed
  qed
qed

end

section \<open>The block iterator meets the iterator contract\<close>

definition blockiter_at :: "ldb_comparator \<Rightarrow> ldb_blockiter \<Rightarrow> (bytes \<times> bytes) list \<Rightarrow> nat \<Rightarrow> bool" where
  "blockiter_at c it es k \<longleftrightarrow> bi_comparator it = c \<and> (\<exists>offs ridx. blockiter_pos it es offs ridx k)"

lemma parse_comparator: "bi_comparator (snd (parse_next_key it)) = bi_comparator it"
  by (auto simp: parse_next_key_def Let_def ldb_blockiter_corruption_def split: option.splits)

lemma parse_until_comparator: "bi_comparator (parse_until limit it) = bi_comparator it"
proof (induction limit it rule: parse_until.induct)
  case (1 limit it)
  obtain ok it' where p: "parse_next_key it = (ok, it')" by fastforce
  then have "bi_comparator it' = bi_comparator it" using parse_comparator [of it] by simp
  then show ?case using 1 [OF p [symmetric]] p by (simp add: parse_until.simps [of limit it])
qed

lemma linear_search_comparator: "bi_comparator (linear_search t it) = bi_comparator it"
proof (induction t it rule: linear_search.induct)
  case (1 t it)
  obtain ok it' where p: "parse_next_key it = (ok, it')" by fastforce
  then have "bi_comparator it' = bi_comparator it" using parse_comparator [of it] by simp
  then show ?case using 1 [OF p [symmetric]] p by (simp add: linear_search.simps [of t it])
qed

lemma seek_restart_comparator [simp]: "bi_comparator (seek_to_restart_point it j) = bi_comparator it"
  by (simp add: seek_to_restart_point_def)

lemma blockiter_comparators:
  "bi_comparator (ldb_blockiter_first it) = bi_comparator it" "bi_comparator (ldb_blockiter_last it) = bi_comparator it"
  "bi_comparator (ldb_blockiter_next it) = bi_comparator it" "bi_comparator (ldb_blockiter_prev it) = bi_comparator it"
  "bi_comparator (ldb_blockiter_seek it t) = bi_comparator it"
  by (simp_all add: ldb_blockiter_first_def ldb_blockiter_last_def ldb_blockiter_next_def ldb_blockiter_prev_def
      ldb_blockiter_seek_def parse_comparator parse_until_comparator linear_search_comparator Let_def
      ldb_blockiter_corruption_def split: option.splits)

sublocale block_order \<subseteq> iter: iter_contract "\<lambda>x y. ldb_compare c x y < 0" "blockiter_at c"
  ldb_blockiter_valid ldb_blockiter_key ldb_blockiter_value "\<lambda>it. Some (ldb_blockiter_first it)"
  "\<lambda>it. Some (ldb_blockiter_last it)" "\<lambda>it. Some (ldb_blockiter_next it)" "\<lambda>it. Some (ldb_blockiter_prev it)"
  "\<lambda>it t. Some (ldb_blockiter_seek it t)" "\<lambda>t. cmp_user c \<noteq> None \<longrightarrow> 8 \<le> length t"
proof (unfold_locales, goal_cases)
  case (1 it es k)
  then obtain offs ridx where pos: "blockiter_pos it es offs ridx k" by (auto simp: blockiter_at_def)
  then have L: "block_layout (bi_comparator it) (bi_data it) (bi_restarts it) (bi_num_restarts it) es offs ridx"
    by (simp add: blockiter_pos_def blockiter_on_def)
  show ?case
    using pos layout_offs_less_iff(1) [OF L _ order_refl, of k] block_layoutD(3) [OF L]
    by (auto simp: ldb_blockiter_valid_def blockiter_pos_def)
next
  case (2 it es k)
  then show ?case by (auto simp: blockiter_at_def blockiter_pos_def ldb_blockiter_key_def)
next
  case (3 it es k)
  then show ?case using blockiter_first_pos blockiter_pos_on by (fastforce simp: blockiter_at_def blockiter_comparators)
next
  case (4 it es k)
  then show ?case using blockiter_last_pos blockiter_pos_on by (fastforce simp: blockiter_at_def blockiter_comparators)
next
  case (5 it es k)
  then show ?case using blockiter_next_pos by (fastforce simp: blockiter_at_def blockiter_comparators)
next
  case (6 it es k)
  then show ?case using blockiter_prev_pos by (fastforce simp: blockiter_at_def blockiter_comparators)
next
  case (7 it es k t)
  then show ?case
    using blockiter_seek_pos unfolding seek_pos_def by (fastforce simp: blockiter_at_def blockiter_comparators)
qed

context block_order
begin

lemmas blockiter_contract = iter.iter_contract_axioms

end

section \<open>Decoding what the builder writes\<close>

lemma byte_or_small:
  "((ucast a :: u32) OR ucast b OR ucast c) < 128 \<longleftrightarrow> unat a < 128 \<and> unat b < 128 \<and> unat c < 128"
  for a b c :: byte
proof -
  have small: "w < 128 \<longleftrightarrow> drop_bit 7 w = 0" for w :: u32
    by (simp add: word_less_nat_alt word_unat_eq_iff unat_drop_bit_word div_eq_0_iff)
  have "unat (ucast x :: u32) = unat x" for x :: byte
    unfolding unsigned_ucast_eq by (rule take_bit_nat_eq_self, rule less_trans [OF unat_byte_bound]) simp
  then have "unat x < 128 \<longleftrightarrow> (ucast x :: u32) < 128" for x :: byte
    by (simp add: word_less_nat_alt)
  then show ?thesis unfolding small by (simp add: drop_bit_or or_eq_0_iff)
qed

lemma varint32_first_small:
  assumes "unat (ldb_varint32_write x ! 0) < 128"
  shows "ldb_varint32_write x = [ucast x]" "unat x < 128"
proof -
  have small: "unat x < 128"
  proof (rule ccontr)
    assume "\<not> unat x < 128"
    then have "ldb_varint32_write x ! 0 = word_of_nat (unat x mod 128 + 128)"
      by (simp add: varint32_write_leb128 leb128_large)
    moreover have "unat (word_of_nat (unat x mod 128 + 128) :: byte) = unat x mod 128 + 128"
      by (rule unat_of_nat_small) simp
    ultimately have "unat (ldb_varint32_write x ! 0) = unat x mod 128 + 128" by (simp only:)
    with assms show False by simp
  qed
  then show "ldb_varint32_write x = [ucast x]" "unat x < 128"
    by (simp_all add: varint32_write_leb128 leb128_small)
qed

lemma decode_entry_encoded:
  assumes xp: "take (limit - off) (drop off data) =
      ldb_varint32_write s @ ldb_varint32_write n @ ldb_varint32_write v @ rest"
    and "off \<le> limit" "unat n + unat v \<le> length rest"
  shows "decode_entry data off limit = Some (unat s, unat n, unat v, limit - length rest)"
proof -
  let ?xp = "ldb_varint32_write s @ ldb_varint32_write n @ ldb_varint32_write v @ rest"
  have ne: "1 \<le> length (ldb_varint32_write x)" for x using ldb_varint32_size_bounds(1) [of x] by (simp add: len_simps)
  then have len: "\<not> length ?xp < 3" using ne [of s] ne [of n] ne [of v] unfolding length_append by linarith
  have nonempty: "ldb_varint32_write x \<noteq> []" for x using ne [of x] by auto
  show ?thesis
  proof (cases "((ucast (?xp ! 0) :: u32) OR ucast (?xp ! 1) OR ucast (?xp ! 2)) < 128")
    case True
    then have b: "unat (?xp ! 0) < 128" "unat (?xp ! 1) < 128" "unat (?xp ! 2) < 128" by (simp_all only: byte_or_small)
    have s: "ldb_varint32_write s = [ucast s]" "unat s < 128"
      using varint32_first_small [of s] b(1) nonempty [of s] by (auto simp: nth_append)
    then have n: "ldb_varint32_write n = [ucast n]" "unat n < 128"
      using varint32_first_small [of n] b(2) nonempty [of n] by (auto simp: nth_append)
    then have v: "ldb_varint32_write v = [ucast v]" "unat v < 128"
      using varint32_first_small [of v] b(3) nonempty [of v] s by (auto simp: nth_append)
    have u: "unat (ucast x :: byte) = unat x" if "unat x < 128" for x :: u32
      using that by (simp add: unsigned_ucast_eq take_bit_nat_eq_self_iff)
    show ?thesis
      using assms(2,3) True len s n v u by (simp add: decode_entry_def Let_def xp)
  next
    case False
    have "decode_entry data off limit =
      (case ldb_varint32_read ?xp of None \<Rightarrow> None
       | Some (shared, xp) \<Rightarrow>
           (case ldb_varint32_read xp of None \<Rightarrow> None
            | Some (non_shared, xp) \<Rightarrow>
                (case ldb_varint32_read xp of None \<Rightarrow> None
                 | Some (value_length, xp) \<Rightarrow>
                     if length xp < unat non_shared + unat value_length then None
                     else Some (unat shared, unat non_shared, unat value_length, limit - length xp))))"
      using assms(2) False len unfolding decode_entry_def xp Let_def by (auto split: option.splits)
    then show ?thesis using assms(3) by (simp add: ldb_varint32_read_write)
  qed
qed

text \<open>An entry as the builder leaves it in the buffer.\<close>

definition raw_entry :: "bytes \<Rightarrow> bytes \<Rightarrow> bytes \<times> bytes \<Rightarrow> nat \<Rightarrow> nat \<Rightarrow> bool" where
  "raw_entry buf prev e off off' \<longleftrightarrow>
     (\<exists>s rest. drop off buf = ldb_varint32_write (word_of_nat s) @ ldb_varint32_write (word_of_nat (length (fst e) - s)) @
          ldb_varint32_write (word_of_nat (length (snd e))) @ drop s (fst e) @ snd e @ rest \<and>
        off \<le> length buf \<and> off' + length rest = length buf \<and>
        s \<le> length prev \<and> s \<le> length (fst e) \<and> take s prev = take s (fst e)) \<and> length (fst e) < 2 ^ 32"

lemma raw_entry_extend: "raw_entry buf prev e off off' \<Longrightarrow> raw_entry (buf @ post) prev e off off'"
  unfolding raw_entry_def
  by (elim exE conjE, rule conjI, rule_tac x = s in exI, rule_tac x = "rest @ post" in exI) simp_all

lemma raw_entry_at:
  assumes "raw_entry buf prev e off off'" "length buf < 2 ^ 32"
  shows "entry_at (buf @ post) (length buf) prev e off off'"
proof -
  obtain s rest where r: "drop off buf = ldb_varint32_write (word_of_nat s) @
      ldb_varint32_write (word_of_nat (length (fst e) - s)) @ ldb_varint32_write (word_of_nat (length (snd e))) @
      drop s (fst e) @ snd e @ rest" (is "_ = ?h1 @ ?h2 @ ?h3 @ _")
    "off \<le> length buf" "off' + length rest = length buf" "s \<le> length prev" "s \<le> length (fst e)"
    "take s prev = take s (fst e)"
    using assms(1) by (auto simp: raw_entry_def)
  have len: "length buf - off = length (?h1 @ ?h2 @ ?h3) + (length (fst e) - s) + length (snd e) + length rest"
    using arg_cong [OF r(1), of length] r(2) by simp
  have small: "length (fst e) - s < 2 ^ 32" "length (snd e) < 2 ^ 32" using len assms(2) by linarith+
  have "s < 2 ^ 32" using assms(1) r(5) by (auto simp: raw_entry_def)
  let ?q = "length buf - length (drop s (fst e) @ snd e @ rest)"
  have un: "unat (word_of_nat s :: u32) = s" "unat (word_of_nat (length (fst e) - s) :: u32) = length (fst e) - s"
    "unat (word_of_nat (length (snd e)) :: u32) = length (snd e)"
    using small \<open>s < 2 ^ 32\<close> by (auto intro!: unat_of_nat_small)
  have "take (length buf - off) (drop off (buf @ post)) = drop off buf" using r(2) by simp
  note xp = trans [OF this r(1)]
  have "decode_entry (buf @ post) off (length buf) = Some (s, length (fst e) - s, length (snd e), ?q)"
    using decode_entry_encoded [OF xp r(2)] unfolding un by simp
  moreover have "drop ?q (buf @ post) = drop s (fst e) @ snd e @ rest @ post"
  proof -
    have "?q = off + length (?h1 @ ?h2 @ ?h3)" using len r(2) by simp
    then have "drop ?q (buf @ post) = drop (length (?h1 @ ?h2 @ ?h3)) (drop off buf @ post)"
      using r(2) by (simp add: add.commute)
    also have "\<dots> = drop s (fst e) @ snd e @ rest @ post" unfolding r(1) by simp
    finally show ?thesis .
  qed
  moreover have "?q + (length (fst e) - s) + length (snd e) = off'" using len r(2,3) by simp
  ultimately obtain q where q: "decode_entry (buf @ post) off (length buf) = Some (s, length (fst e) - s, length (snd e), q)"
      "drop q (buf @ post) = drop s (fst e) @ snd e @ rest @ post" "q + (length (fst e) - s) + length (snd e) = off'"
    by blast
  have "drop (q + (length (fst e) - s)) (buf @ post) = drop (length (fst e) - s) (drop q (buf @ post))"
    by (simp only: drop_drop add.commute)
  also have "\<dots> = snd e @ rest @ post" unfolding q(2) by simp
  finally show ?thesis
    unfolding entry_at_def using q r(4-6) by (intro exI [of _ s] exI [of _ q]) (simp del: drop_append)
qed

section \<open>The invariant of the builder\<close>

definition prev_key :: "(bytes \<times> bytes) list \<Rightarrow> bytes" where
  "prev_key es = (if es = [] then [] else fst (last es))"

definition entries_in :: "bytes \<Rightarrow> (bytes \<times> bytes) list \<Rightarrow> nat list \<Rightarrow> bool" where
  "entries_in buf es offs \<longleftrightarrow> length offs = Suc (length es) \<and> offs ! 0 = 0 \<and> offs ! length es = length buf \<and>
     (\<forall>i < length es. offs ! i < offs ! Suc i \<and>
        raw_entry buf (if i = 0 then [] else fst (es ! (i - 1))) (es ! i) (offs ! i) (offs ! Suc i))"

definition restarts_in :: "bytes \<Rightarrow> (bytes \<times> bytes) list \<Rightarrow> nat list \<Rightarrow> nat list \<Rightarrow> bool" where
  "restarts_in buf es offs ridx \<longleftrightarrow> ridx \<noteq> [] \<and> ridx ! 0 = 0 \<and> sorted_wrt (<) ridx \<and>
     (\<forall>r \<in> set ridx. r = 0 \<or> r < length es) \<and>
     (\<forall>r \<in> set ridx. r < length es \<longrightarrow> raw_entry buf [] (es ! r) (offs ! r) (offs ! Suc r))"

definition build_inv :: "ldb_blockgen \<Rightarrow> (bytes \<times> bytes) list \<Rightarrow> nat list \<Rightarrow> nat list \<Rightarrow> bool" where
  "build_inv bb es offs ridx \<longleftrightarrow> 0 < bb_interval bb \<and> entries_in (bb_buffer bb) es offs \<and>
     restarts_in (bb_buffer bb) es offs ridx \<and> bb_restarts bb = map ((!) offs) ridx \<and>
     bb_last_key bb = prev_key es \<and> last ridx + bb_counter bb = length es"

lemma entries_snoc:
  assumes "entries_in buf es offs" "raw_entry (buf @ x) (prev_key es) e (length buf) (length (buf @ x))" "x \<noteq> []"
  shows "entries_in (buf @ x) (es @ [e]) (offs @ [length (buf @ x)])"
proof -
  have "(offs @ [length (buf @ x)]) ! i < (offs @ [length (buf @ x)]) ! Suc i \<and>
      raw_entry (buf @ x) (if i = 0 then [] else fst ((es @ [e]) ! (i - 1))) ((es @ [e]) ! i)
        ((offs @ [length (buf @ x)]) ! i) ((offs @ [length (buf @ x)]) ! Suc i)" if "i < length (es @ [e])" for i
  proof (cases "i < length es")
    case True
    then show ?thesis
      using assms(1) raw_entry_extend [of buf _ "es ! i" "offs ! i" "offs ! Suc i" x]
      by (auto simp: entries_in_def nth_append)
  next
    case False
    then have "i = length es" using that by simp
    then show ?thesis
      using assms by (cases es rule: rev_cases) (auto simp: entries_in_def nth_append prev_key_def)
  qed
  then show ?thesis using assms(1) by (simp add: entries_in_def nth_append)
qed

lemma restarts_extend:
  assumes "entries_in buf es offs" "restarts_in buf es offs ridx"
    "es = [] \<Longrightarrow> raw_entry (buf @ x) [] e (length buf) (length (buf @ x))"
  shows "restarts_in (buf @ x) (es @ [e]) (offs @ [length (buf @ x)]) ridx"
proof -
  have "raw_entry (buf @ x) [] ((es @ [e]) ! r) ((offs @ [length (buf @ x)]) ! r) ((offs @ [length (buf @ x)]) ! Suc r)"
    if "r \<in> set ridx" for r
  proof (cases "r < length es")
    case True
    then show ?thesis
      using assms(1,2) that raw_entry_extend [of buf "[]" "es ! r" "offs ! r" "offs ! Suc r" x]
      by (simp add: entries_in_def restarts_in_def nth_append)
  next
    case False
    then have "r = 0" "es = []" using assms(2) that by (auto simp: restarts_in_def)
    moreover have "offs ! 0 = length buf" "length offs = 1" using assms(1) \<open>es = []\<close> unfolding entries_in_def by auto
    ultimately show ?thesis using assms(3) by (simp add: nth_append)
  qed
  then show ?thesis using assms(2) by (auto simp: restarts_in_def)
qed

lemma restarts_push:
  assumes "entries_in buf es offs" "restarts_in buf es offs ridx" "last ridx < length es"
    "raw_entry (buf @ x) [] e (length buf) (length (buf @ x))"
  shows "restarts_in (buf @ x) (es @ [e]) (offs @ [length (buf @ x)]) (ridx @ [length es])"
proof -
  have old: "restarts_in (buf @ x) (es @ [e]) (offs @ [length (buf @ x)]) ridx"
    using restarts_extend [OF assms(1,2)] assms(4) by blast
  have "\<forall>r \<in> set ridx. r < length es" using assms(2,3) by (auto simp: restarts_in_def)
  moreover have "offs ! length es = length buf" "length offs = Suc (length es)"
    using assms(1) by (simp_all add: entries_in_def)
  ultimately show ?thesis
    using old assms(4) by (auto simp: restarts_in_def sorted_wrt_append nth_append)
qed

lemma shared_prefix_take:
  "shared_prefix xs ys \<le> length xs \<and> shared_prefix xs ys \<le> length ys \<and>
   take (shared_prefix xs ys) xs = take (shared_prefix xs ys) ys"
  by (induction xs ys rule: shared_prefix.induct) auto

lemma build_inv_init: "0 < n \<Longrightarrow> build_inv (ldb_blockgen_init n) [] [0] [0]"
  by (simp add: build_inv_def entries_in_def restarts_in_def ldb_blockgen_init_def prev_key_def)

lemma build_inv_reset: "build_inv bb es offs ridx \<Longrightarrow> build_inv (ldb_blockgen_reset bb) [] [0] [0]"
  by (simp add: build_inv_def entries_in_def restarts_in_def ldb_blockgen_reset_def prev_key_def)

lemma build_inv_add:
  assumes inv: "build_inv bb es offs ridx" and key: "length key < 2 ^ 32"
  obtains offs' ridx' where "build_inv (ldb_blockgen_add bb key value) (es @ [(key, value)]) offs' ridx'"
proof -
  define b where "b \<longleftrightarrow> bb_counter bb < bb_interval bb"
  define s where "s = (if b then shared_prefix (prev_key es) key else 0)"
  define x where "x = ldb_varint32_write (word_of_nat s) @ ldb_varint32_write (word_of_nat (length key - s)) @
      ldb_varint32_write (word_of_nat (length value)) @ drop s key @ value"
  let ?buf = "bb_buffer bb"
  let ?offs = "offs @ [length (?buf @ x)]"
  note I = inv [unfolded build_inv_def]
  have s: "s \<le> length (prev_key es)" "s \<le> length key" "take s (prev_key es) = take s key"
    using shared_prefix_take [of "prev_key es" key] by (auto simp: s_def)
  have "ldb_varint32_write (word_of_nat s) \<noteq> []"
    using ldb_varint32_size_bounds(1) [of "word_of_nat s"] by (auto simp flip: length_greater_0_conv simp: len_simps)
  then have ne: "x \<noteq> []" by (simp add: x_def)
  have raw: "raw_entry (?buf @ x) p (key, value) (length ?buf) (length (?buf @ x))"
    if "s \<le> length p" "take s p = take s key" for p
    unfolding raw_entry_def
    by (intro conjI exI [of _ s] exI [of _ "[]"]) (use that s(2) key in \<open>simp_all add: x_def\<close>)
  have E: "entries_in (?buf @ x) (es @ [(key, value)]) ?offs"
    using entries_snoc [OF _ raw ne] I s by blast
  have upd: "bb_buffer (ldb_blockgen_add bb key value) = ?buf @ x"
    "bb_interval (ldb_blockgen_add bb key value) = bb_interval bb"
    using I unfolding s_def x_def b_def by (simp_all add: ldb_blockgen_add_def Let_def)
  have "bb_last_key (ldb_blockgen_add bb key value) = take s (prev_key es) @ drop s key"
    using I unfolding s_def b_def by (simp add: ldb_blockgen_add_def Let_def)
  then have lk: "bb_last_key (ldb_blockgen_add bb key value) = key" using s(3) by simp
  have len: "length offs = Suc (length es)" "offs ! length es = length ?buf" using I by (simp_all add: entries_in_def)
  show thesis
  proof (cases b)
    case True
    have "raw_entry (?buf @ x) [] (key, value) (length ?buf) (length (?buf @ x))" if "es = []"
      using raw [of "[]"] that s(1) by (simp add: prev_key_def)
    then have "restarts_in (?buf @ x) (es @ [(key, value)]) ?offs ridx"
      using restarts_extend [of ?buf es offs ridx x] I by blast
    moreover have "map ((!) ?offs) ridx = map ((!) offs) ridx"
      using I len by (auto simp: restarts_in_def nth_append)
    moreover have "bb_restarts (ldb_blockgen_add bb key value) = bb_restarts bb"
      "bb_counter (ldb_blockgen_add bb key value) = bb_counter bb + 1"
      using True by (simp_all add: ldb_blockgen_add_def Let_def b_def)
    ultimately have "build_inv (ldb_blockgen_add bb key value) (es @ [(key, value)]) ?offs ridx"
      using I E upd lk by (simp add: build_inv_def prev_key_def)
    then show ?thesis by (rule that)
  next
    case False
    then have "s = 0" "last ridx < length es" using I by (auto simp: s_def b_def)
    then have "restarts_in (?buf @ x) (es @ [(key, value)]) ?offs (ridx @ [length es])"
      using restarts_push [of ?buf es offs ridx x] raw [of "[]"] I by simp
    moreover have "map ((!) ?offs) (ridx @ [length es]) = map ((!) offs) ridx @ [length ?buf]"
      using I len by (auto simp: restarts_in_def nth_append)
    moreover have "bb_restarts (ldb_blockgen_add bb key value) = bb_restarts bb @ [length ?buf]"
      "bb_counter (ldb_blockgen_add bb key value) = 1"
      using False by (simp_all add: ldb_blockgen_add_def Let_def b_def)
    ultimately have "build_inv (ldb_blockgen_add bb key value) (es @ [(key, value)]) ?offs (ridx @ [length es])"
      using I E upd lk by (simp add: build_inv_def prev_key_def)
    then show ?thesis by (rule that)
  qed
qed

section \<open>Finished blocks\<close>

definition trailer :: "nat list \<Rightarrow> bytes" where
  "trailer rs = concat (map (\<lambda>r. ldb_fixed32_write (word_of_nat r)) rs) @ ldb_fixed32_write (word_of_nat (length rs))"

lemma fold_fixed32_append:
  "fold (\<lambda>r buffer. buffer @ ldb_fixed32_write (word_of_nat r)) rs buf =
   buf @ concat (map (\<lambda>r. ldb_fixed32_write (word_of_nat r)) rs)"
  by (induction rs arbitrary: buf) simp_all

lemma finish_data: "fst (ldb_blockgen_finish bb) = bb_buffer bb @ trailer (bb_restarts bb)"
  by (simp add: ldb_blockgen_finish_def Let_def fold_fixed32_append trailer_def)

lemma length_trailer: "length (trailer rs) = 4 * Suc (length rs)"
  by (induction rs) (simp_all add: trailer_def len_simps)

lemma finish_size: "length (fst (ldb_blockgen_finish bb)) = ldb_blockgen_size_estimate bb"
  by (simp add: finish_data length_trailer ldb_blockgen_size_estimate_def)

lemma concat_fixed32_drop:
  "j < length rs \<Longrightarrow> drop (j * 4) (concat (map (\<lambda>r. ldb_fixed32_write (word_of_nat r)) rs) @ post) =
     ldb_fixed32_write (word_of_nat (rs ! j)) @ drop (Suc j * 4) (concat (map (\<lambda>r. ldb_fixed32_write (word_of_nat r)) rs) @ post)"
proof (induction rs arbitrary: j)
  case (Cons r rs)
  show ?case
  proof (cases j)
    case 0
    then show ?thesis by (simp add: len_simps)
  next
    case (Suc i)
    then have "drop (i * 4) (concat (map (\<lambda>r. ldb_fixed32_write (word_of_nat r)) rs) @ post) =
        ldb_fixed32_write (word_of_nat (rs ! i)) @ drop (Suc i * 4) (concat (map (\<lambda>r. ldb_fixed32_write (word_of_nat r)) rs) @ post)"
      using Cons by simp
    then show ?thesis using Suc by (simp add: len_simps)
  qed
qed simp

lemma fixed32_decode_write: "ldb_fixed32_decode (ldb_fixed32_write x @ ys) = x"
  by (simp add: ldb_fixed32_write_eq ldb_fixed32_decode_append)

lemma trailer_restart:
  "j < length rs \<Longrightarrow> rs ! j < 2 ^ 32 \<Longrightarrow> unat (ldb_fixed32_decode (drop (j * 4) (trailer rs))) = rs ! j"
  using concat_fixed32_drop [of j rs "ldb_fixed32_write (word_of_nat (length rs))"]
  by (simp add: trailer_def fixed32_decode_write)

lemma trailer_count:
  "length rs < 2 ^ 32 \<Longrightarrow> unat (ldb_fixed32_decode (drop (4 * length rs) (trailer rs))) = length rs"
proof -
  have "length (concat (map (\<lambda>r. ldb_fixed32_write (word_of_nat r)) rs)) = 4 * length rs"
    by (induction rs) (simp_all add: len_simps)
  then show "length rs < 2 ^ 32 \<Longrightarrow> ?thesis"
    using fixed32_decode_write [of "word_of_nat (length rs)" "[]"] by (simp add: trailer_def)
qed

lemma finished_block:
  assumes "length (fst (ldb_blockgen_finish bb)) < 2 ^ 32"
  defines "data \<equiv> fst (ldb_blockgen_finish bb)"
  shows "ldb_block_restarts data (length data) = length (bb_restarts bb)"
    "ldb_block_init data = \<lparr>bl_data = data, bl_size = length data, bl_restart_offset = length (bb_buffer bb)\<rparr>"
proof -
  have len: "length data = length (bb_buffer bb) + 4 * length (bb_restarts bb) + 4"
    by (simp add: data_def finish_data length_trailer)
  then have "length (bb_restarts bb) < 2 ^ 32" using assms(1) unfolding data_def by linarith
  moreover have "drop (length data - 4) data = drop (4 * length (bb_restarts bb)) (trailer (bb_restarts bb))"
    unfolding len by (simp add: data_def finish_data)
  ultimately show restarts: "ldb_block_restarts data (length data) = length (bb_restarts bb)"
    using trailer_count by (simp add: ldb_block_restarts_def)
  show "ldb_block_init data = \<lparr>bl_data = data, bl_size = length data, bl_restart_offset = length (bb_buffer bb)\<rparr>"
    unfolding ldb_block_init_def Let_def restarts by (simp add: len)
qed

lemma finished_layout:
  assumes inv: "build_inv bb es offs ridx" and len: "length (fst (ldb_blockgen_finish bb)) < 2 ^ 32"
    and keys: "cmp_user c \<noteq> None \<longrightarrow> (\<forall>e \<in> set es. 8 \<le> length (fst e))"
    and sorted: "sorted_wrt (\<lambda>x y. ldb_compare c (fst x) (fst y) < 0) es"
  shows "block_layout c (fst (ldb_blockgen_finish bb)) (length (bb_buffer bb)) (length ridx) es offs ridx"
proof -
  note I = inv [unfolded build_inv_def]
  have E: "entries_in (bb_buffer bb) es offs" and R: "restarts_in (bb_buffer bb) es offs ridx"
    and rs: "bb_restarts bb = map ((!) offs) ridx" using I by blast+
  have buf: "length (bb_buffer bb) < 2 ^ 32" using len by (simp add: finish_data)
  note at = raw_entry_at [OF _ buf, of _ _ _ _ "trailer (bb_restarts bb)", folded finish_data]
  have off: "offs ! i \<le> length (bb_buffer bb)" if "i \<le> length es" for i
  proof (cases "i = length es")
    case True
    then show ?thesis using E by (simp add: entries_in_def)
  next
    case False
    then have "raw_entry (bb_buffer bb) (if i = 0 then [] else fst (es ! (i - 1))) (es ! i) (offs ! i) (offs ! Suc i)"
      using E that by (simp add: entries_in_def)
    then show ?thesis by (auto simp: raw_entry_def)
  qed
  have ridx: "r \<le> length es" if "r \<in> set ridx" for r using R that by (auto simp: restarts_in_def)
  have "unat (ldb_fixed32_decode (drop (length (bb_buffer bb) + j * 4) (fst (ldb_blockgen_finish bb)))) = offs ! (ridx ! j)"
    if "j < length ridx" for j
    using trailer_restart [of j "bb_restarts bb"] that off [OF ridx] buf
    by (simp add: finish_data rs) (meson le_less_trans nth_mem)
  moreover have "ridx ! j < ridx ! Suc j \<and> ridx ! Suc j < length es" if "Suc j < length ridx" for j
  proof -
    have "ridx ! j < ridx ! Suc j" using R that by (simp add: restarts_in_def sorted_wrt_iff_nth_less)
    moreover have "ridx ! Suc j = 0 \<or> ridx ! Suc j < length es" using R that by (simp add: restarts_in_def)
    ultimately show ?thesis by auto
  qed
  ultimately show ?thesis
    using E R keys sorted at unfolding block_layout_def entries_in_def restarts_in_def by simp
qed

definition build_block :: "nat \<Rightarrow> (bytes \<times> bytes) list \<Rightarrow> bytes" where
  "build_block interval es =
     fst (ldb_blockgen_finish (fold (\<lambda>(k, v) bb. ldb_blockgen_add bb k v) es (ldb_blockgen_init interval)))"

lemma build_inv_fold:
  assumes "build_inv bb es offs ridx" "\<forall>e \<in> set es'. length (fst e) < 2 ^ 32"
  shows "\<exists>offs ridx. build_inv (fold (\<lambda>(k, v) bb. ldb_blockgen_add bb k v) es' bb) (es @ es') offs ridx"
  using assms
proof (induction es' arbitrary: bb es offs ridx)
  case (Cons e es')
  obtain offs' ridx' where "build_inv (ldb_blockgen_add bb (fst e) (snd e)) (es @ [e]) offs' ridx'"
    using build_inv_add [OF Cons.prems(1), of "fst e" "snd e"] Cons.prems(2) by auto
  from Cons.IH [OF this] show ?case using Cons.prems(2) by (simp add: case_prod_beta)
qed auto

lemma build_block_at:
  assumes "0 < interval" "\<forall>e \<in> set es. length (fst e) < 2 ^ 32" "length (build_block interval es) < 2 ^ 32"
    "cmp_user c \<noteq> None \<longrightarrow> (\<forall>e \<in> set es. 8 \<le> length (fst e))"
    "sorted_wrt (\<lambda>x y. ldb_compare c (fst x) (fst y) < 0) es"
  obtains it where "ldb_blockiter_create (ldb_block_init (build_block interval es)) c = Inr it"
    "blockiter_at c it es (length es)"
proof -
  define bb where "bb = fold (\<lambda>(k, v) bb. ldb_blockgen_add bb k v) es (ldb_blockgen_init interval)"
  obtain offs ridx where inv: "build_inv bb es offs ridx"
    using build_inv_fold [OF build_inv_init [OF assms(1)] assms(2)] by (auto simp: bb_def)
  let ?data = "fst (ldb_blockgen_finish bb)" and ?r = "length (bb_buffer bb)"
  have data: "build_block interval es = ?data" by (simp add: build_block_def bb_def)
  have len: "length ?data < 2 ^ 32" using assms(3) data by simp
  have L: "block_layout c ?data ?r (length ridx) es offs ridx"
    using finished_layout [OF inv len assms(4,5)] .
  have rs: "length (bb_restarts bb) = length ridx" using inv by (simp add: build_inv_def)
  have "ldb_blockiter_create (ldb_block_init ?data) c = Inr (ldb_blockiter_init c ?data ?r (length ridx))"
    using finished_block [OF len] block_layoutD(7) [OF L] rs
    by (simp add: ldb_blockiter_create_def Let_def finish_data length_trailer)
  moreover have "blockiter_at c (ldb_blockiter_init c ?data ?r (length ridx)) es (length es)"
    unfolding blockiter_at_def
    by (intro conjI exI [of _ offs] exI [of _ ridx])
      (use L block_layoutD(3) [OF L] in \<open>simp_all add: blockiter_pos_def blockiter_on_def ldb_blockiter_init_def\<close>)
  ultimately show thesis using that data by simp
qed

sublocale user_comparator \<subseteq> blk: block_order "ldb_ikc_init uc"
proof unfold_locales
  show "sgn (ldb_compare (ldb_ikc_init uc) y x) = - sgn (ldb_compare (ldb_ikc_init uc) x y)" for x y
    by (simp only: ldb_compare_def ldb_ikc_init_def ldb_comparator.sel) (rule ikc_antisym)
  show "ldb_compare (ldb_ikc_init uc) x y \<le> 0 \<Longrightarrow> ldb_compare (ldb_ikc_init uc) y z \<le> 0 \<Longrightarrow>
      ldb_compare (ldb_ikc_init uc) x z \<le> 0" for x y z
    by (simp only: ldb_compare_def ldb_ikc_init_def ldb_comparator.sel) (rule ikc_trans)
qed

interpretation bytewise_block: block_order bytewise_comparator
  by unfold_locales

section \<open>Properties\<close>

text \<open>C8: the block the builder finishes from sorted entries, shorter than 4 GB, opens without
  error; the iterator on it lists exactly the entries in order from the first one and in
  reverse from the last one.  Any program of moves on it, seeks among them from wherever the iterator
  stands, shows the entry that a cursor in the list of entries shows, and a seek from there finds the first
  entry not before the target or is not valid when there is none.  For internal keys, entries and targets
  hold at least the 8 byte tag.\<close>

theorem block_roundtrip:
  assumes "block_order c" "0 < interval"
    "sorted_wrt (\<lambda>x y. ldb_compare c (fst x) (fst y) < 0) es"
    "\<forall>e \<in> set es. length (fst e) < 2 ^ 32" "length (build_block interval es) < 2 ^ 32"
    "cmp_user c \<noteq> None \<longrightarrow> (\<forall>e \<in> set es. 8 \<le> length (fst e))"
  shows "\<exists>it. ldb_blockiter_create (ldb_block_init (build_block interval es)) c = Inr it \<and>
    (\<forall>n \<ge> length es.
       iter_scan ldb_blockiter_valid ldb_blockiter_key ldb_blockiter_value (\<lambda>it. Some (ldb_blockiter_next it)) n
         (ldb_blockiter_first it) = Some es \<and>
       iter_scan ldb_blockiter_valid ldb_blockiter_key ldb_blockiter_value (\<lambda>it. Some (ldb_blockiter_prev it)) n
         (ldb_blockiter_last it) = Some (rev es)) \<and>
    (\<forall>ms k. (\<forall>m \<in> set ms. move_ok (\<lambda>t. cmp_user c \<noteq> None \<longrightarrow> 8 \<le> length t) m) \<longrightarrow>
       run_moves (cursor_move (\<lambda>x y. ldb_compare c x y < 0) es) ms (length es) = Some k \<longrightarrow>
       (\<exists>it1. run_moves (iter_apply (\<lambda>it. Some (ldb_blockiter_first it)) (\<lambda>it. Some (ldb_blockiter_last it))
            (\<lambda>it. Some (ldb_blockiter_next it)) (\<lambda>it. Some (ldb_blockiter_prev it)) (\<lambda>it t. Some (ldb_blockiter_seek it t))) ms it = Some it1 \<and>
          iter_entry ldb_blockiter_valid ldb_blockiter_key ldb_blockiter_value it1 = cursor_entry es k \<and>
          (\<forall>t. (cmp_user c \<noteq> None \<longrightarrow> 8 \<le> length t) \<longrightarrow>
             (let it' = ldb_blockiter_seek it1 t in
              if \<exists>e \<in> set es. \<not> ldb_compare c (fst e) t < 0
              then ldb_blockiter_valid it' \<and>
                Some (ldb_blockiter_key it', ldb_blockiter_value it') = find (\<lambda>e. \<not> ldb_compare c (fst e) t < 0) es
              else \<not> ldb_blockiter_valid it'))))"
proof -
  note contract = block_order.blockiter_contract [OF assms(1)]
  obtain it where it: "ldb_blockiter_create (ldb_block_init (build_block interval es)) c = Inr it"
    "blockiter_at c it es (length es)"
    using build_block_at [OF assms(2,4,5,6,3)] .
  show ?thesis
  proof (rule exI [of _ it], intro conjI allI impI)
    fix ms k
    assume ok: "\<forall>m \<in> set ms. move_ok (\<lambda>t. cmp_user c \<noteq> None \<longrightarrow> 8 \<le> length t) m"
      and run: "run_moves (cursor_move (\<lambda>x y. ldb_compare c x y < 0) es) ms (length es) = Some k"
    obtain it1 where it1: "run_moves (iter_apply (\<lambda>it. Some (ldb_blockiter_first it)) (\<lambda>it. Some (ldb_blockiter_last it))
        (\<lambda>it. Some (ldb_blockiter_next it)) (\<lambda>it. Some (ldb_blockiter_prev it)) (\<lambda>it t. Some (ldb_blockiter_seek it t))) ms it = Some it1"
      "blockiter_at c it1 es k"
      using iter_contract.run_refines [OF contract it(2) run ok] by blast
    then show "\<exists>it1. run_moves (iter_apply (\<lambda>it. Some (ldb_blockiter_first it)) (\<lambda>it. Some (ldb_blockiter_last it))
            (\<lambda>it. Some (ldb_blockiter_next it)) (\<lambda>it. Some (ldb_blockiter_prev it)) (\<lambda>it t. Some (ldb_blockiter_seek it t))) ms it = Some it1 \<and>
          iter_entry ldb_blockiter_valid ldb_blockiter_key ldb_blockiter_value it1 = cursor_entry es k \<and>
          (\<forall>t. (cmp_user c \<noteq> None \<longrightarrow> 8 \<le> length t) \<longrightarrow>
             (let it' = ldb_blockiter_seek it1 t in
              if \<exists>e \<in> set es. \<not> ldb_compare c (fst e) t < 0
              then ldb_blockiter_valid it' \<and>
                Some (ldb_blockiter_key it', ldb_blockiter_value it') = find (\<lambda>e. \<not> ldb_compare c (fst e) t < 0) es
              else \<not> ldb_blockiter_valid it'))"
      using iter_contract.entry_refines [OF contract it1(2)] iter_contract.seek_entry [OF contract it1(2)]
      by (intro exI [of _ it1]) (simp add: Let_def)
  qed (use it(1) iter_contract.scan_all [OF contract it(2)] iter_contract.scan_back_all [OF contract it(2)] in simp_all)
qed

theorem block_roundtrip_witness:
  "\<exists>it it1. ldb_blockiter_create (ldb_block_init (build_block 1 [([97], [1]), ([98], [2])])) bytewise_comparator = Inr it \<and>
    iter_scan ldb_blockiter_valid ldb_blockiter_key ldb_blockiter_value (\<lambda>it. Some (ldb_blockiter_next it)) 2
      (ldb_blockiter_first it) = Some [([97], [1]), ([98], [2])] \<and>
    it1 = ldb_blockiter_seek (ldb_blockiter_last it) [97] \<and>
    iter_entry ldb_blockiter_valid ldb_blockiter_key ldb_blockiter_value it1 = Some ([97], [1])"
proof -
  define es :: "(bytes \<times> bytes) list" where "es = [([97], [1]), ([98], [2])]"
  have len: "length (build_block 1 es) < 2 ^ 32"
    by (simp add: es_def build_block_def finish_size ldb_blockgen_size_estimate_def ldb_blockgen_add_def
        ldb_blockgen_init_def Let_def len_simps ldb_varint32_size_def)
  have less: "ldb_compare bytewise_comparator [97] [98] < 0" "cmp_user bytewise_comparator = None"
    "\<not> ldb_compare bytewise_comparator [97] [97] < 0"
    by (simp_all add: ldb_compare_def bytewise_comparator_def slice_compare_def)
  have prems: "sorted_wrt (\<lambda>x y. ldb_compare bytewise_comparator (fst x) (fst y) < 0) es" "\<forall>e \<in> set es. length (fst e) < 2 ^ 32"
    "cmp_user bytewise_comparator \<noteq> None \<longrightarrow> (\<forall>e \<in> set es. 8 \<le> length (fst e))" "(0 :: nat) < 1"
    using less by (simp_all add: es_def)
  obtain it where it: "ldb_blockiter_create (ldb_block_init (build_block 1 es)) bytewise_comparator = Inr it"
    and scan: "\<forall>n \<ge> length es. iter_scan ldb_blockiter_valid ldb_blockiter_key ldb_blockiter_value (\<lambda>it. Some (ldb_blockiter_next it)) n
      (ldb_blockiter_first it) = Some es"
    and run: "\<forall>ms k. (\<forall>m \<in> set ms. move_ok (\<lambda>t. cmp_user bytewise_comparator \<noteq> None \<longrightarrow> 8 \<le> length t) m) \<longrightarrow>
       run_moves (cursor_move (\<lambda>x y. ldb_compare bytewise_comparator x y < 0) es) ms (length es) = Some k \<longrightarrow>
       (\<exists>it1. run_moves (iter_apply (\<lambda>it. Some (ldb_blockiter_first it)) (\<lambda>it. Some (ldb_blockiter_last it))
            (\<lambda>it. Some (ldb_blockiter_next it)) (\<lambda>it. Some (ldb_blockiter_prev it)) (\<lambda>it t. Some (ldb_blockiter_seek it t))) ms it = Some it1 \<and>
          iter_entry ldb_blockiter_valid ldb_blockiter_key ldb_blockiter_value it1 = cursor_entry es k)"
    using block_roundtrip [OF bytewise_block.block_order_axioms prems(4,1,2) len prems(3)] by blast
  have "run_moves (cursor_move (\<lambda>x y. ldb_compare bytewise_comparator x y < 0) es) [To_Last, To_Seek [97]] (length es) = Some 0"
    using less by (simp add: es_def)
  moreover have "\<forall>m \<in> set [To_Last, To_Seek [97]]. move_ok (\<lambda>t. cmp_user bytewise_comparator \<noteq> None \<longrightarrow> 8 \<le> length t) m"
    using less by simp
  ultimately obtain it1 where "run_moves (iter_apply (\<lambda>it. Some (ldb_blockiter_first it)) (\<lambda>it. Some (ldb_blockiter_last it))
        (\<lambda>it. Some (ldb_blockiter_next it)) (\<lambda>it. Some (ldb_blockiter_prev it)) (\<lambda>it t. Some (ldb_blockiter_seek it t))) [To_Last, To_Seek [97]] it = Some it1"
    "iter_entry ldb_blockiter_valid ldb_blockiter_key ldb_blockiter_value it1 = cursor_entry es 0"
    using run by blast
  then have "iter_entry ldb_blockiter_valid ldb_blockiter_key ldb_blockiter_value (ldb_blockiter_seek (ldb_blockiter_last it) [97]) = Some ([97], [1])"
    by (simp add: cursor_entry_def es_def)
  moreover have "length es \<le> 2" by (simp add: es_def)
  ultimately show ?thesis using it scan unfolding es_def by blast
qed

section \<open>Reading untrusted blocks\<close>

text \<open>
  Where the iterator may read: entries end at \<open>restarts\<close>, the restart array and its
  length follow within the data, and an iterator on an entry has the index of a restart
  point.  No order of the keys is assumed.
\<close>

definition blockiter_safe :: "ldb_blockiter \<Rightarrow> bool" where
  "blockiter_safe it \<longleftrightarrow> 0 < bi_num_restarts it \<and>
     bi_restarts it + 4 * bi_num_restarts it + 4 \<le> length (bi_data it) \<and> next_entry_offset it \<le> bi_restarts it \<and>
     (ldb_blockiter_valid it \<longrightarrow> bi_restart_index it < bi_num_restarts it)"

lemma advance_restart_bound:
  "i < bi_num_restarts it \<Longrightarrow> advance_restart it i < bi_num_restarts it"
proof (induction it i rule: advance_restart.induct)
  case (1 it i)
  then show ?case by (subst advance_restart.simps) simp
qed

lemma parse_safe:
  assumes "blockiter_safe it" "bi_restart_index it < bi_num_restarts it"
  shows "blockiter_safe (snd (parse_next_key it)) \<and>
    (fst (parse_next_key it) \<longrightarrow>
       bi_restart_index (snd (parse_next_key it)) < bi_num_restarts (snd (parse_next_key it)))"
proof -
  have adv: "advance_restart it' i < bi_num_restarts it"
    if "bi_num_restarts it' = bi_num_restarts it" "i = bi_restart_index it" for it' i
    using advance_restart_bound [of i it'] that assms(2) by simp
  show ?thesis
    using assms
    by (auto simp: parse_next_key_def Let_def blockiter_safe_def next_entry_offset_def ldb_blockiter_valid_def
        ldb_blockiter_corruption_def adv add.assoc split: option.split dest!: decode_entry_bounds)
qed

lemma restart_point_safe:
  "blockiter_safe it \<Longrightarrow> j < bi_num_restarts it \<Longrightarrow>
   blockiter_safe (seek_to_restart_point it j) \<and> bi_restart_index (seek_to_restart_point it j) < bi_num_restarts it"
  by (auto simp: seek_to_restart_point_def blockiter_safe_def next_entry_offset_def get_restart_point_def Let_def
      ldb_blockiter_valid_def)

lemma parse_until_safe:
  "blockiter_safe it \<Longrightarrow> bi_restart_index it < bi_num_restarts it \<Longrightarrow> blockiter_safe (parse_until limit it)"
proof (induction limit it rule: parse_until.induct)
  case (1 limit it)
  obtain ok it' where p: "parse_next_key it = (ok, it')" by (metis surj_pair)
  then show ?case using 1 parse_safe [OF "1.prems"] by (subst parse_until.simps) simp
qed

lemma linear_search_safe:
  "blockiter_safe it \<Longrightarrow> bi_restart_index it < bi_num_restarts it \<Longrightarrow> blockiter_safe (linear_search t it)"
proof (induction t it rule: linear_search.induct)
  case (1 t it)
  obtain ok it' where p: "parse_next_key it = (ok, it')" by (metis surj_pair)
  then show ?case using 1 parse_safe [OF "1.prems"] by (subst linear_search.simps) simp
qed

lemma restart_search_step:
  assumes "restart_search it t l r = Some m" "l < r"
  shows "restart_search it t ((l + r + 1) div 2) r = Some m \<or> restart_search it t l ((l + r + 1) div 2 - 1) = Some m"
  using assms(1) unfolding restart_search.simps [of it t l r] Let_def if_P [OF assms(2)]
  by (simp split: option.splits prod.splits if_splits)

lemma restart_search_bound: "restart_search it t l r = Some m \<Longrightarrow> l \<le> r \<Longrightarrow> l \<le> m \<and> m \<le> r"
proof (induction "r - l" arbitrary: l r rule: less_induct)
  case less
  show ?case
  proof (cases "l < r")
    case True
    let ?mid = "(l + r + 1) div 2"
    have mid: "l \<le> ?mid - 1" "?mid \<le> r" "r - ?mid < r - l" "?mid - 1 - l < r - l" using True by linarith+
    from restart_search_step [OF less.prems(1) True] show ?thesis
      using less.hyps [of r ?mid] less.hyps [of "?mid - 1" l] mid by auto
  next
    case False
    then show ?thesis using less.prems by (simp add: restart_search.simps)
  qed
qed

lemma restart_before_bound: "restart_before it orig i = Some j \<Longrightarrow> j \<le> i"
proof (induction it orig i rule: restart_before.induct)
  case (1 it orig i)
  then show ?case
    by (subst (asm) (2) restart_before.simps) (fastforce split: nat.splits if_splits intro: le_SucI)
qed

lemma corruption_safe: "blockiter_safe it \<Longrightarrow> blockiter_safe (ldb_blockiter_corruption it)"
  by (simp add: blockiter_safe_def ldb_blockiter_corruption_def next_entry_offset_def ldb_blockiter_valid_def)

lemma seek_safe:
  assumes "blockiter_safe it"
  shows "blockiter_safe (ldb_blockiter_seek it t)"
proof -
  define cc where "cc = (if ldb_blockiter_valid it then ldb_compare (bi_comparator it) (bi_key it) t else 0)"
  define l where "l = (if cc < 0 then bi_restart_index it else 0)"
  define r where "r = (if cc > 0 then bi_restart_index it else bi_num_restarts it - 1)"
  have b: "l \<le> r" "r < bi_num_restarts it" "cc < 0 \<Longrightarrow> bi_restart_index it < bi_num_restarts it"
    using assms by (auto simp: blockiter_safe_def cc_def l_def r_def split: if_splits)
  have "blockiter_safe (linear_search t (if m = bi_restart_index it \<and> cc < 0 then it else seek_to_restart_point it m))"
    if "restart_search it t l r = Some m" for m
  proof -
    have "m < bi_num_restarts it" using restart_search_bound [OF that b(1)] b(2) by simp
    then show ?thesis
      using linear_search_safe [OF assms b(3)] restart_point_safe [OF assms, of m]
        linear_search_safe [of "seek_to_restart_point it m"] by (auto simp: seek_to_restart_point_def)
  qed
  then show ?thesis
    using assms corruption_safe [OF assms]
    unfolding ldb_blockiter_seek_def Let_def cc_def [symmetric] l_def [symmetric] r_def [symmetric]
    by (simp split: option.split)
qed

text \<open>No operation changes the data, or where the restart array is.\<close>

definition same_block :: "ldb_blockiter \<Rightarrow> ldb_blockiter \<Rightarrow> bool" where
  "same_block it it' \<longleftrightarrow> bi_data it' = bi_data it \<and> bi_restarts it' = bi_restarts it \<and> bi_num_restarts it' = bi_num_restarts it"

lemma parse_same: "same_block it (snd (parse_next_key it))"
  by (auto simp: parse_next_key_def Let_def ldb_blockiter_corruption_def same_block_def split: option.splits)

lemma parse_until_same: "same_block it (parse_until limit it)"
proof (induction limit it rule: parse_until.induct)
  case (1 limit it)
  obtain ok it' where p: "parse_next_key it = (ok, it')" by (metis surj_pair)
  then show ?case using 1 parse_same [of it] by (subst parse_until.simps) (auto simp: same_block_def)
qed

lemma linear_search_same: "same_block it (linear_search t it)"
proof (induction t it rule: linear_search.induct)
  case (1 t it)
  obtain ok it' where p: "parse_next_key it = (ok, it')" by (metis surj_pair)
  then show ?case using 1 parse_same [of it] by (subst linear_search.simps) (auto simp: same_block_def)
qed

lemma blockiter_same:
  "same_block it (ldb_blockiter_first it)" "same_block it (ldb_blockiter_last it)" "same_block it (ldb_blockiter_next it)"
  "same_block it (ldb_blockiter_prev it)" "same_block it (ldb_blockiter_seek it t)"
proof -
  have start: "same_block it (seek_to_restart_point it j)" for j by (simp add: same_block_def seek_to_restart_point_def)
  have trans: "same_block it it' \<Longrightarrow> same_block it' it'' \<Longrightarrow> same_block it it''" for it' it'' by (simp add: same_block_def)
  show "same_block it (ldb_blockiter_first it)" unfolding ldb_blockiter_first_def using trans [OF start parse_same] .
  show "same_block it (ldb_blockiter_last it)" unfolding ldb_blockiter_last_def using trans [OF start parse_until_same] .
  show "same_block it (ldb_blockiter_next it)" unfolding ldb_blockiter_next_def using parse_same .
  show "same_block it (ldb_blockiter_prev it)"
    using trans [OF start parse_until_same] by (auto simp: ldb_blockiter_prev_def Let_def same_block_def split: option.splits)
  show "same_block it (ldb_blockiter_seek it t)"
    using trans [OF start linear_search_same] linear_search_same
    by (auto simp: ldb_blockiter_seek_def Let_def same_block_def ldb_blockiter_corruption_def split: option.splits)
qed

lemma blockiter_ops_safe:
  assumes "blockiter_safe it"
  shows "blockiter_safe (ldb_blockiter_first it)" "blockiter_safe (ldb_blockiter_last it)"
    "ldb_blockiter_valid it \<Longrightarrow> blockiter_safe (ldb_blockiter_next it)" "ldb_blockiter_valid it \<Longrightarrow> blockiter_safe (ldb_blockiter_prev it)"
proof -
  have last: "bi_num_restarts it - 1 < bi_num_restarts it" "0 < bi_num_restarts it"
    using assms by (simp_all add: blockiter_safe_def)
  note start = restart_point_safe [OF assms last(2)] and stop = restart_point_safe [OF assms last(1)]
  show "blockiter_safe (ldb_blockiter_first it)"
    using parse_safe [of "seek_to_restart_point it 0"] start
    by (simp add: ldb_blockiter_first_def seek_to_restart_point_def)
  show "blockiter_safe (ldb_blockiter_last it)"
    using parse_until_safe stop by (simp add: ldb_blockiter_last_def seek_to_restart_point_def)
  assume "ldb_blockiter_valid it"
  then have idx: "bi_restart_index it < bi_num_restarts it" using assms by (simp add: blockiter_safe_def)
  show "blockiter_safe (ldb_blockiter_next it)"
    using parse_safe [OF assms idx] by (simp add: ldb_blockiter_next_def)
  have "blockiter_safe (parse_until (bi_current it) (seek_to_restart_point it j))"
    if "restart_before it (bi_current it) (bi_restart_index it) = Some j" for j
    using restart_before_bound [OF that] idx restart_point_safe [OF assms, of j]
    by (intro parse_until_safe) (auto simp: seek_to_restart_point_def)
  moreover have "blockiter_safe (it\<lparr>bi_current := bi_restarts it, bi_restart_index := bi_num_restarts it\<rparr>)"
    using assms by (simp add: blockiter_safe_def next_entry_offset_def ldb_blockiter_valid_def)
  ultimately show "blockiter_safe (ldb_blockiter_prev it)"
    by (auto simp: ldb_blockiter_prev_def Let_def split: option.split)
qed

text \<open>A program of moves in which next and prev are only called on a valid iterator, as their assertions demand.\<close>

abbreviation guarded_moves :: "iter_move list \<Rightarrow> ldb_blockiter \<Rightarrow> ldb_blockiter option" where
  "guarded_moves \<equiv> run_moves (iter_apply (\<lambda>it. Some (ldb_blockiter_first it)) (\<lambda>it. Some (ldb_blockiter_last it))
     (\<lambda>it. if ldb_blockiter_valid it then Some (ldb_blockiter_next it) else None)
     (\<lambda>it. if ldb_blockiter_valid it then Some (ldb_blockiter_prev it) else None) (\<lambda>it t. Some (ldb_blockiter_seek it t)))"

lemma guarded_moves_safe:
  "blockiter_safe it \<Longrightarrow> guarded_moves ms it = Some it' \<Longrightarrow> blockiter_safe it' \<and> same_block it it'"
proof (induction ms arbitrary: it)
  case (Cons m ms)
  obtain it1 where it1: "iter_apply (\<lambda>it. Some (ldb_blockiter_first it)) (\<lambda>it. Some (ldb_blockiter_last it))
      (\<lambda>it. if ldb_blockiter_valid it then Some (ldb_blockiter_next it) else None)
      (\<lambda>it. if ldb_blockiter_valid it then Some (ldb_blockiter_prev it) else None) (\<lambda>it t. Some (ldb_blockiter_seek it t)) m it = Some it1"
    "guarded_moves ms it1 = Some it'"
    using Cons.prems(2) by (auto split: bind_splits)
  have "blockiter_safe it1 \<and> same_block it it1"
    using it1(1) blockiter_ops_safe [OF Cons.prems(1)] seek_safe [OF Cons.prems(1)] blockiter_same
    by (cases m) (auto split: if_splits)
  then show ?case using Cons.IH [OF _ it1(2)] by (simp add: same_block_def)
qed (simp add: same_block_def)

text \<open>C31: an iterator on any byte string whatever, shorter than 4 GB, stays inside it: once created and after any
  operations (next and prev on a valid iterator, as their assertions demand), the data and the restart array are the
  same, the entry it has read ends before the restart array, which is within the data with its length, and on an entry it
  has the index of a restart point that exists.\<close>

theorem block_iter_safe:
  assumes "length data < 2 ^ 32" "ldb_blockiter_create (ldb_block_init data) c = Inr it" "guarded_moves ms it = Some it'"
  shows "bi_data it' = data \<and> 0 < bi_num_restarts it' \<and>
    bi_restarts it' + 4 * bi_num_restarts it' + 4 = length data \<and>
    fst (bi_value it') + snd (bi_value it') \<le> bi_restarts it' \<and>
    (ldb_blockiter_valid it' \<longrightarrow> bi_restart_index it' < bi_num_restarts it')"
proof -
  have it: "blockiter_safe it" "bi_data it = data" "bi_restarts it + 4 * bi_num_restarts it + 4 = length data"
    using assms(2)
    by (auto simp: ldb_blockiter_create_def ldb_block_init_def Let_def blockiter_safe_def ldb_blockiter_init_def
        next_entry_offset_def ldb_blockiter_valid_def split: if_splits)
  show ?thesis
    using guarded_moves_safe [OF it(1) assms(3)] it(2,3) by (auto simp: same_block_def blockiter_safe_def next_entry_offset_def)
qed

theorem block_iter_safe_witness:
  "\<exists>it it'. ldb_blockiter_create (ldb_block_init [255, 0, 0, 0, 0, 0, 1, 0, 0, 0]) bytewise_comparator = Inr it \<and>
    it' = ldb_blockiter_seek (ldb_blockiter_first it) [97] \<and> fst (bi_value it') + snd (bi_value it') \<le> 2"
proof -
  define data :: bytes where "data = [255, 0, 0, 0, 0, 0, 1, 0, 0, 0]"
  have data: "length data = 10" "ldb_block_restarts data 10 = 1" by (simp add: data_def, unfold data_def, code_simp)
  then obtain it where it: "ldb_blockiter_create (ldb_block_init data) bytewise_comparator = Inr it"
    by (simp add: ldb_blockiter_create_def ldb_block_init_def Let_def)
  have "guarded_moves [To_First, To_Seek [97]] it = Some (ldb_blockiter_seek (ldb_blockiter_first it) [97])" by simp
  from block_iter_safe [OF _ it this] data(1) have "fst (bi_value (ldb_blockiter_seek (ldb_blockiter_first it) [97])) +
      snd (bi_value (ldb_blockiter_seek (ldb_blockiter_first it) [97])) \<le> 2" by simp
  with it show ?thesis unfolding data_def by blast
qed

end
