(* ===== verification/Iter_Tables.thy ===== *)
theory Iter_Tables
  imports Merger Memtable Block
begin

text \<open>
  The function tables of the iterators (the \<open>LDB_ITERATOR_FUNCTIONS\<close> lines of
  \<^verbatim>\<open>memtable.c\<close> and \<^verbatim>\<open>block.c\<close>) and the dispatch of \<^verbatim>\<open>table/iterator.c\<close>: an iterator
  is one of several kinds with its table.  The tables meet the iterator contract, so
  every client proved over the contract runs on memtables, on blocks and on both together.
\<close>

definition ldb_memiter_table :: "ldb_memiter ldb_itertbl" where
  "ldb_memiter_table =
     \<lparr>tb_valid = ldb_memiter_valid, tb_first = (\<lambda>it. Some (ldb_memiter_first it)), tb_last = ldb_memiter_last,
      tb_seek = ldb_memiter_seek, tb_next = (\<lambda>it. Some (ldb_memiter_next it)), tb_prev = ldb_memiter_prev,
      tb_key = ldb_memiter_key, tb_value = ldb_memiter_value, tb_status = (\<lambda>_. OK)\<rparr>"

definition ldb_blockiter_table :: "ldb_blockiter ldb_itertbl" where
  "ldb_blockiter_table =
     \<lparr>tb_valid = ldb_blockiter_valid, tb_first = (\<lambda>it. Some (ldb_blockiter_first it)),
      tb_last = (\<lambda>it. Some (ldb_blockiter_last it)), tb_seek = (\<lambda>it t. Some (ldb_blockiter_seek it t)),
      tb_next = (\<lambda>it. Some (ldb_blockiter_next it)), tb_prev = (\<lambda>it. Some (ldb_blockiter_prev it)),
      tb_key = ldb_blockiter_key, tb_value = ldb_blockiter_value, tb_status = bi_status\<rparr>"

text \<open>An \<open>ldb_iter_t\<close> of one of two kinds: each operation goes through the table of its kind.\<close>

definition call_either :: "('a \<Rightarrow> 'a option) \<Rightarrow> ('b \<Rightarrow> 'b option) \<Rightarrow> 'a + 'b \<Rightarrow> ('a + 'b) option" where
  "call_either f g it = (case it of Inl x \<Rightarrow> map_option Inl (f x) | Inr y \<Rightarrow> map_option Inr (g y))"

definition either_table :: "'a ldb_itertbl \<Rightarrow> 'b ldb_itertbl \<Rightarrow> ('a + 'b) ldb_itertbl" where
  "either_table A B =
     \<lparr>tb_valid = case_sum (tb_valid A) (tb_valid B), tb_first = call_either (tb_first A) (tb_first B),
      tb_last = call_either (tb_last A) (tb_last B),
      tb_seek = (\<lambda>it t. call_either (\<lambda>x. tb_seek A x t) (\<lambda>y. tb_seek B y t) it),
      tb_next = call_either (tb_next A) (tb_next B), tb_prev = call_either (tb_prev A) (tb_prev B),
      tb_key = case_sum (tb_key A) (tb_key B), tb_value = case_sum (tb_value A) (tb_value B),
      tb_status = case_sum (tb_status A) (tb_status B)\<rparr>"

lemma call_either_at:
  assumes "case_sum (\<lambda>x. atA x es k) (\<lambda>y. atB y es k) it"
    "\<And>x. atA x es k \<Longrightarrow> \<exists>x'. f x = Some x' \<and> atA x' es k'" "\<And>y. atB y es k \<Longrightarrow> \<exists>y'. g y = Some y' \<and> atB y' es k'"
  shows "\<exists>it'. call_either f g it = Some it' \<and> case_sum (\<lambda>x. atA x es k') (\<lambda>y. atB y es k') it'"
  using assms by (cases it) (force simp: call_either_def)+

locale two_tables = a: iter_table before atA target A + b: iter_table before atB target B
  for before atA atB target and A :: "'a ldb_itertbl" and B :: "'b ldb_itertbl"

sublocale two_tables \<subseteq> either: iter_table before "\<lambda>it es k. case_sum (\<lambda>x. atA x es k) (\<lambda>y. atB y es k) it" target
  "either_table A B"
proof (unfold_locales, goal_cases)
  case (1 it es k)
  then show ?case using a.tbl.at_valid b.tbl.at_valid by (cases it) (auto simp: either_table_def)
next
  case (2 it es k)
  then show ?case using a.tbl.at_entry b.tbl.at_entry by (cases it) (auto simp: either_table_def)
next
  case (3 it es k)
  show ?case
    using a.tbl.at_first b.tbl.at_first call_either_at [of atA es k atB, OF 3] unfolding either_table_def by simp
next
  case (4 it es k)
  show ?case
    using a.tbl.at_final b.tbl.at_final call_either_at [of atA es k atB, OF 4] unfolding either_table_def by simp
next
  case (5 it es k)
  show ?case
    using a.tbl.at_step b.tbl.at_step 5(2) call_either_at [of atA es k atB, OF 5(1)] unfolding either_table_def by simp
next
  case (6 it es k)
  show ?case
    using a.tbl.at_back b.tbl.at_back 6(2) call_either_at [of atA es k atB, OF 6(1)] unfolding either_table_def by simp
next
  case (7 it es k t)
  show ?case
    using a.tbl.at_seek b.tbl.at_seek 7(2) call_either_at [of atA es k atB, OF 7(1)] unfolding either_table_def by simp
qed

section \<open>The iterators over internal keys\<close>

lemma iter_contract_weaken:
  assumes "iter_contract before at valid key val first final step bwd seek target" "\<And>t. target' t \<Longrightarrow> target t"
  shows "iter_contract before at valid key val first final step bwd seek target'"
  using assms(1) unfolding iter_contract_def by (simp add: assms(2))

context user_comparator
begin

lemma memiter_table: "iter_table (\<lambda>x y. ldb_compare (ldb_ikc_init uc) x y < 0) (memiter_at uc) ikey_target ldb_memiter_table"
  unfolding iter_table_def ldb_memiter_table_def ikc_compare_eq
  by (simp, rule iter_contract_weaken [OF memiter_contract]) simp

lemma blockiter_table: "iter_table (\<lambda>x y. ldb_compare (ldb_ikc_init uc) x y < 0) (blockiter_at (ldb_ikc_init uc)) ikey_target ldb_blockiter_table"
  unfolding iter_table_def ldb_blockiter_table_def
  by (simp, rule iter_contract_weaken [OF blk.blockiter_contract]) simp

lemma ikc_comparator: "comparator (ldb_compare (ldb_ikc_init uc)) (\<lambda>_. True)"
  using ikc.comparator_axioms unfolding ikc_compare_eq .

end

text \<open>The children that \<open>ldb_db_internal_iterator\<close> merges: memtables, and blocks of tables.\<close>

sublocale user_comparator \<subseteq> sources: two_tables "\<lambda>x y. ldb_compare (ldb_ikc_init uc) x y < 0" "memiter_at uc"
  "blockiter_at (ldb_ikc_init uc)" ikey_target ldb_memiter_table ldb_blockiter_table
  unfolding two_tables_def using memiter_table blockiter_table by blast

sublocale user_comparator \<subseteq> srcmerge: merging "ldb_ikc_init uc"
  "\<lambda>it es k. case_sum (\<lambda>x. memiter_at uc x es k) (\<lambda>y. blockiter_at (ldb_ikc_init uc) y es k) it" ikey_target
  "either_table ldb_memiter_table ldb_blockiter_table"
  unfolding merging_def using ikc_comparator sources.either.iter_table_axioms by blast

sublocale block_order \<subseteq> blkmerge: merging c "blockiter_at c" "\<lambda>t. cmp_user c \<noteq> None \<longrightarrow> 8 \<le> length t"
  ldb_blockiter_table
  unfolding merging_def iter_table_def ldb_blockiter_table_def
  using comparator_axioms blockiter_contract by simp

context block_order
begin

lemmas block_merging = blkmerge.merging_axioms

end

section \<open>Properties\<close>

text \<open>C25: over two or more iterators on sorted lists without a common key, created by
  \<open>ldb_mergeiter_create\<close>, any program of moves that starts with one that positions the
  iterator, with any changes of direction, returns and shows the entry that a cursor
  in the merge of the lists shows; the merge is sorted and has exactly the entries of
  the lists.\<close>

theorem mergeiter_refines_cursor:
  assumes "merging c at target T" "length its = length ess" "2 \<le> length its"
    "\<forall>i < length its. \<exists>p. at (its ! i) (ess ! i) p" "lists_apart c ess"
    "\<forall>es \<in> set ess. \<forall>e \<in> set es. target (fst e)" "\<forall>m \<in> set ms. move_ok target m"
  shows "\<exists>mi es. ldb_mergeiter_create T c its = Merged mi \<and> set es = \<Union> (set ` set ess) \<and>
    sorted_wrt (\<lambda>x y. ldb_compare c (fst x) (fst y) < 0) es \<and>
    (\<forall>k. run_moves (cursor_move (\<lambda>x y. ldb_compare c x y < 0) es) ms (length es) = Some k \<longrightarrow>
      (\<exists>mi'. run_moves (iter_apply (ldb_mergeiter_first T) (ldb_mergeiter_last T) (ldb_mergeiter_next T)
           (ldb_mergeiter_prev T) (ldb_mergeiter_seek T)) ms mi = Some mi' \<and>
         iter_entry ldb_mergeiter_valid ldb_mergeiter_key (ldb_mergeiter_value T) mi' = cursor_entry es k))"
proof -
  let ?es = "map snd (interleave c 0 ess)"
  note contract = merging.merged_contract [OF assms(1)]
  have at: "mergeiter_at c (wrap_at at T) target (ldb_mergeiter_init T c its) ?es (length ?es)"
    using merging.merge_starts [OF assms(1,2) _ assms(5,6)] assms(4) by blast
  have "set ?es = \<Union> (set ` set ess)" using interleave_set [of c 0 ess] by simp
  moreover have "sorted_wrt (\<lambda>x y. ldb_compare c (fst x) (fst y) < 0) ?es"
    using merging.interleave_sorted [OF assms(1,5)] by (simp add: sorted_wrt_map)
  moreover have "ldb_mergeiter_create T c its = Merged (ldb_mergeiter_init T c its)"
    using assms(3) by (auto simp: ldb_mergeiter_create_def)
  ultimately show ?thesis
    using iter_contract.observe_refines [OF contract at _ assms(7)] by blast
qed

lemma block_starts:
  assumes "0 < interval" "length k < 2 ^ 32" "length (build_block interval [(k, v)]) < 2 ^ 32" "cmp_user c = None"
  obtains it where "ldb_blockiter_create (ldb_block_init (build_block interval [(k, v)])) c = Inr it"
    "blockiter_at c it [(k, v)] 1"
  using build_block_at [OF assms(1), of "[(k, v)]" c] assms(2-4) by auto

theorem mergeiter_refines_cursor_witness:
  "\<exists>a b mi mi'. ldb_blockiter_create (ldb_block_init (build_block 1 [([97], [1])])) bytewise_comparator = Inr a \<and>
     ldb_blockiter_create (ldb_block_init (build_block 1 [([98], [2])])) bytewise_comparator = Inr b \<and>
     ldb_mergeiter_create ldb_blockiter_table bytewise_comparator [b, a] = Merged mi \<and>
     run_moves (iter_apply (ldb_mergeiter_first ldb_blockiter_table) (ldb_mergeiter_last ldb_blockiter_table)
       (ldb_mergeiter_next ldb_blockiter_table) (ldb_mergeiter_prev ldb_blockiter_table)
       (ldb_mergeiter_seek ldb_blockiter_table)) [To_First, To_Next, To_Prev] mi = Some mi' \<and>
     ldb_mergeiter_valid mi'"
proof -
  have len: "length (build_block 1 [([97], [1])]) < 2 ^ 32" "length (build_block 1 [([98], [2])]) < 2 ^ 32"
    by (simp_all add: build_block_def finish_size ldb_blockgen_size_estimate_def ldb_blockgen_add_def
        ldb_blockgen_init_def Let_def len_simps ldb_varint32_size_def)
  have cmp: "ldb_compare bytewise_comparator [98] [97] = 1" "cmp_user bytewise_comparator = None"
    by (simp_all add: ldb_compare_def bytewise_comparator_def slice_compare_def memcmp.simps)
  obtain a where a: "ldb_blockiter_create (ldb_block_init (build_block 1 [([97], [1])])) bytewise_comparator = Inr a"
    "blockiter_at bytewise_comparator a [([97], [1])] 1" by (rule block_starts [OF _ _ len(1) cmp(2)]) simp_all
  obtain b where b: "ldb_blockiter_create (ldb_block_init (build_block 1 [([98], [2])])) bytewise_comparator = Inr b"
    "blockiter_at bytewise_comparator b [([98], [2])] 1" by (rule block_starts [OF _ _ len(2) cmp(2)]) simp_all
  obtain mi es where m: "ldb_mergeiter_create ldb_blockiter_table bytewise_comparator [b, a] = Merged mi"
      "set es = {([97], [1]), ([98], [2])}" "sorted_wrt (\<lambda>x y. ldb_compare bytewise_comparator (fst x) (fst y) < 0) es"
      "\<And>k. run_moves (cursor_move (\<lambda>x y. ldb_compare bytewise_comparator x y < 0) es) [To_First, To_Next, To_Prev] (length es) = Some k \<Longrightarrow>
         \<exists>mi'. run_moves (iter_apply (ldb_mergeiter_first ldb_blockiter_table) (ldb_mergeiter_last ldb_blockiter_table)
           (ldb_mergeiter_next ldb_blockiter_table) (ldb_mergeiter_prev ldb_blockiter_table)
           (ldb_mergeiter_seek ldb_blockiter_table)) [To_First, To_Next, To_Prev] mi = Some mi' \<and>
         iter_entry ldb_mergeiter_valid ldb_mergeiter_key (ldb_mergeiter_value ldb_blockiter_table) mi' = cursor_entry es k"
    using mergeiter_refines_cursor [OF bytewise_block.block_merging, of "[b, a]" "[[([98], [2])], [([97], [1])]]"
        "[To_First, To_Next, To_Prev]"] a(2) b(2) cmp by (auto simp: less_Suc_eq)
  have "card (set es) = 2" using m(2) by simp
  then have es: "es \<noteq> []" "Suc 0 < length es" using card_length [of es] by auto
  from m(4) [of 0] obtain mi' where "run_moves (iter_apply (ldb_mergeiter_first ldb_blockiter_table)
      (ldb_mergeiter_last ldb_blockiter_table) (ldb_mergeiter_next ldb_blockiter_table)
      (ldb_mergeiter_prev ldb_blockiter_table) (ldb_mergeiter_seek ldb_blockiter_table)) [To_First, To_Next, To_Prev] mi = Some mi'"
      "iter_entry ldb_mergeiter_valid ldb_mergeiter_key (ldb_mergeiter_value ldb_blockiter_table) mi' = cursor_entry es 0"
    using es by (auto simp del: iter_apply.simps)
  then show ?thesis
    using m(1) a(1) b(1) es(1) by (auto simp: iter_entry_def cursor_entry_def split: if_splits)
qed

end
