(* ===== verification/Db_Read.thy ===== *)
theory Db_Read
  imports Db_Iter Iter_Tables
begin

text \<open>
  Reading the database at a snapshot: the database iterator of \<^verbatim>\<open>db_iter.c\<close> over the merging
  iterator of \<^verbatim>\<open>merger.c\<close> over the iterators of the memtables and of table blocks.  The theory
  composes the contracts of the parts.
\<close>

definition ldb_mergeiter_table :: "'i ldb_itertbl \<Rightarrow> 'i ldb_mergeiter ldb_itertbl" where
  "ldb_mergeiter_table T =
     \<lparr>tb_valid = ldb_mergeiter_valid, tb_first = ldb_mergeiter_first T, tb_last = ldb_mergeiter_last T,
      tb_seek = ldb_mergeiter_seek T, tb_next = ldb_mergeiter_next T, tb_prev = ldb_mergeiter_prev T,
      tb_key = ldb_mergeiter_key, tb_value = ldb_mergeiter_value T,
      tb_status = (\<lambda>mi. case ldb_mergeiter_status T mi of None \<Rightarrow> OK | Some rc \<Rightarrow> rc)\<rparr>"

context merging
begin

lemma mergeiter_table:
  "iter_table (\<lambda>x y. ldb_compare c x y < 0) (mergeiter_at c (wrap_at at T) target) target (ldb_mergeiter_table T)"
  unfolding iter_table_def ldb_mergeiter_table_def using merged_contract by simp

end

abbreviation source_table :: "(ldb_memiter + ldb_blockiter) ldb_itertbl" where
  "source_table \<equiv> either_table ldb_memiter_table ldb_blockiter_table"

definition source_at :: "ldb_comparator \<Rightarrow> ldb_memiter + ldb_blockiter \<Rightarrow> entry list \<Rightarrow> nat \<Rightarrow> bool" where
  "source_at uc it es k = case_sum (\<lambda>x. memiter_at uc x es k) (\<lambda>y. blockiter_at (ldb_ikc_init uc) y es k) it"

abbreviation sources_at where
  "sources_at uc \<equiv> mergeiter_at (ldb_ikc_init uc) (wrap_at (source_at uc) source_table) ikey_target"

context user_comparator
begin

lemma source_merging: "merging (ldb_ikc_init uc) (source_at uc) ikey_target source_table"
  using srcmerge.merging_axioms unfolding source_at_def .

lemma source_snapshot:
  assumes "s \<le> MAX_SEQUENCE"
  shows "snapshot uc (sources_at uc) (ldb_mergeiter_table source_table) s"
  unfolding snapshot_def snapshot_axioms_def
  using user_comparator_axioms merging.mergeiter_table [OF source_merging] assms by simp

end

section \<open>Views of updates\<close>

lemma update_import: "update_ok u \<Longrightarrow> ldb_pkey_import (update_ikey u) = Some (ldb_pkey_init (mu_key u) (mu_seq u) (mu_type u))"
  using ldb_pkey_import_write [of "ldb_pkey_init (mu_key u) (mu_seq u) (mu_type u)"]
  by (simp add: update_ok_def update_ikey_def ldb_ikey_set_def ldb_pkey_export_def ldb_pkey_init_def)

definition update_kv :: "mem_update \<Rightarrow> entry" where
  "update_kv u = (update_ikey u, mu_value u)"

lemma newest_iff:
  assumes "updates_ok us"
  shows "mem_newest uc us k s = Some u \<longleftrightarrow>
    u \<in> set us \<and> mem_visible uc k s u \<and> (\<forall>u' \<in> set us. mem_visible uc k s u' \<longrightarrow> mu_seq u' \<le> mu_seq u)"
  using mem_newest_Some [of uc us k s u] mem_newest_eqI [OF assms, of u uc k s] by blast

context snapshot
begin

text \<open>The entries of a set of updates, wherever they are stored.\<close>

lemma updates_entries_ok:
  assumes "\<forall>u \<in> set us. update_ok u" "set es = update_kv ` set us"
    "sorted_wrt (\<lambda>x y. ldb_compare (ldb_ikc_init uc) (fst x) (fst y) < 0) es"
  shows "entries_ok uc es"
  using assms update_import unfolding entries_ok_def ikc_compare_eq by (fastforce simp: update_kv_def)

lemma update_value:
  assumes ok: "updates_ok us" and es: "set es = update_kv ` set us" and u: "u \<in> set us"
  shows "snapshot_value uc s es (update_kv u) \<longleftrightarrow> mu_type u = TYPE_VALUE \<and> mem_newest uc us (mu_key u) s = Some u"
proof -
  have imp: "ldb_pkey_import (update_ikey v) = Some (ldb_pkey_init (mu_key v) (mu_seq v) (mu_type v))" if "v \<in> set us" for v
    using update_import that ok by (simp add: updates_ok_def)
  have le: "ldb_ikc_compare uc (update_ikey u) (update_ikey v) \<le> 0 \<longleftrightarrow> mu_seq v \<le> mu_seq u"
    if v: "v \<in> set us" "ldb_compare uc (mu_key v) (mu_key u) = 0" for v
  proof (cases "v = u")
    case True
    then show ?thesis using ikc.cmp_refl by simp
  next
    case False
    then have "mu_seq v \<noteq> mu_seq u" using ok u v(1) by (auto simp: updates_ok_def distinct_map inj_on_def)
    moreover have "mu_seq u \<le> MAX_SEQUENCE" "mu_seq v \<le> MAX_SEQUENCE"
      using ok u v(1) by (auto simp: updates_ok_def update_ok_def)
    moreover have "ldb_compare uc (mu_key u) (mu_key v) = 0" using v(2) cmp_eq_sym by blast
    ultimately show ?thesis
      unfolding ikc_le_iff by (simp add: update_ikey_def order.order_iff_strict pack_seqtype_less_iff pack_seqtype_eq_iff)
  qed
  have "snapshot_value uc s es (update_kv u) \<longleftrightarrow> mu_type u = TYPE_VALUE \<and> mu_seq u \<le> s \<and>
      (\<forall>v \<in> set us. mu_seq v \<le> s \<longrightarrow> ldb_compare uc (mu_key v) (mu_key u) = 0 \<longrightarrow> mu_seq v \<le> mu_seq u)"
    unfolding snapshot_value_def es using imp u le by (auto simp: update_kv_def ldb_pkey_init_def)
  also have "\<dots> \<longleftrightarrow> mu_type u = TYPE_VALUE \<and> mem_newest uc us (mu_key u) s = Some u"
    using newest_iff [OF ok] u cmp_refl by (auto simp: mem_visible_def)
  finally show ?thesis .
qed

lemma updates_view:
  assumes "updates_ok us" "set es = update_kv ` set us" "entries_ok uc es"
  shows "set (snapshot_view uc s es) =
    {(mu_key u, mu_value u) |u. mu_type u = TYPE_VALUE \<and> mem_newest uc us (mu_key u) s = Some u}"
proof -
  have "{e \<in> set es. snapshot_value uc s es e} =
      update_kv ` {u \<in> set us. mu_type u = TYPE_VALUE \<and> mem_newest uc us (mu_key u) s = Some u}"
    using update_value [OF assms(1,2)] unfolding assms(2) by auto
  moreover have "u \<in> set us" if "mem_newest uc us (mu_key u) s = Some u" for u
    using that newest_iff [OF assms(1)] by blast
  ultimately show ?thesis
    unfolding view_set [OF assms(3)] by (force simp: update_kv_def update_ikey_def image_iff)
qed

end

section \<open>Two memtables at a snapshot\<close>

context user_comparator
begin

lemma updates_apart:
  assumes "updates_ok (us @ us')" "u \<in> set us" "u' \<in> set us'"
  shows "ldb_compare (ldb_ikc_init uc) (update_ikey u) (update_ikey u') \<noteq> 0"
proof -
  have "mu_seq u \<noteq> mu_seq u'" using assms by (auto simp: updates_ok_def)
  moreover have "mu_seq u \<le> MAX_SEQUENCE" "mu_seq u' \<le> MAX_SEQUENCE"
    using assms by (auto simp: updates_ok_def update_ok_def)
  ultimately show ?thesis
    unfolding ikc_compare_eq ikc_eq_iff by (simp add: update_ikey_def pack_seqtype_eq_iff)
qed

lemma update_target: "update_ok u \<Longrightarrow> ikey_target (fst (update_kv u))"
  by (simp add: update_kv_def update_ok_def update_ikey_def)

text \<open>The merge of two memtables walks the entries of all their updates.\<close>

lemma memtables_merged:
  assumes "mem_holds uc mt us" "mem_holds uc mt' us'" "updates_ok (us @ us')"
  defines "mi \<equiv> ldb_mergeiter_init source_table (ldb_ikc_init uc)
      [Inl (ldb_memiter_init (mt_table mt)), Inl (ldb_memiter_init (mt_table mt'))]"
  shows "\<exists>es. sources_at uc mi es (length es) \<and> set es = update_kv ` set (us @ us') \<and>
    sorted_wrt (\<lambda>x y. ldb_compare (ldb_ikc_init uc) (fst x) (fst y) < 0) es"
proof -
  let ?c = "ldb_ikc_init uc"
  obtain es where es: "memiter_at uc (ldb_memiter_init (mt_table mt)) es (length es)" "set es = update_kv ` set us"
    "sorted_wrt (\<lambda>x y. ldb_compare ?c (fst x) (fst y) < 0) es"
    using memiter_starts [OF assms(1)] unfolding update_kv_def ikc_compare_eq by blast
  obtain es' where es': "memiter_at uc (ldb_memiter_init (mt_table mt')) es' (length es')" "set es' = update_kv ` set us'"
    "sorted_wrt (\<lambda>x y. ldb_compare ?c (fst x) (fst y) < 0) es'"
    using memiter_starts [OF assms(2)] unfolding update_kv_def ikc_compare_eq by blast
  have apart: "lists_apart ?c [es, es']"
    using es(2,3) es'(2,3) updates_apart [OF assms(3)] by (auto simp: update_kv_def)
  have "\<exists>p. source_at uc ([Inl (ldb_memiter_init (mt_table mt)), Inl (ldb_memiter_init (mt_table mt'))] ! i) ([es, es'] ! i) p"
    if "i < 2" for i
    using es(1) es'(1) that by (auto simp: source_at_def less_2_cases_iff)
  moreover have "\<forall>l \<in> set [es, es']. \<forall>e \<in> set l. ikey_target (fst e)"
    using es(2) es'(2) update_target assms(3) by (auto simp: updates_ok_def)
  ultimately have "sources_at uc mi (map snd (interleave ?c 0 [es, es'])) (length (map snd (interleave ?c 0 [es, es'])))"
    unfolding mi_def using apart by (intro merging.merge_starts [OF source_merging]) simp_all
  moreover have "set (map snd (interleave ?c 0 [es, es'])) = update_kv ` set (us @ us')"
    using interleave_set [of ?c 0 "[es, es']"] es(2) es'(2) by (simp add: image_Un)
  moreover have "sorted_wrt (\<lambda>x y. ldb_compare ?c (fst x) (fst y) < 0) (map snd (interleave ?c 0 [es, es']))"
    using merging.interleave_sorted [OF source_merging apart, of 0] unfolding sorted_wrt_map .
  ultimately show ?thesis by blast
qed

end

section \<open>Properties\<close>

text \<open>C2: over any internal iterator that meets its contract, the database iterator at sequence
  number \<open>s\<close> shows a sorted list without repeated user keys, which has exactly the values
  of the snapshot; every program of moves and turns returns, and shows what a cursor
  in that list shows.\<close>

theorem dbiter_refines_view:
  assumes "snapshot uc at T s" "at it es k" "entries_ok uc es" "\<forall>m \<in> set ms. move_ok (\<lambda>t. length t + 8 < 2 ^ 32) m"
  shows "\<exists>view. sorted_wrt (\<lambda>x y. ldb_compare uc (fst x) (fst y) < 0) view \<and>
    set view = (\<lambda>e. (ldb_extract_user_key (fst e), snd e)) ` {e \<in> set es. snapshot_value uc s es e} \<and>
    (\<forall>p. run_moves (cursor_move (\<lambda>x y. ldb_compare uc x y < 0) view) ms (length view) = Some p \<longrightarrow>
      (\<exists>iter. run_moves (iter_apply (ldb_dbiter_first T) (ldb_dbiter_last T) (ldb_dbiter_next T) (ldb_dbiter_prev T)
           (ldb_dbiter_seek T)) ms (ldb_dbiter_init uc it s seed) = Some iter \<and>
         iter_entry ldb_dbiter_valid (ldb_dbiter_key T) (ldb_dbiter_value T) iter = cursor_entry view p))"
  using snapshot.view_sorted [OF assms(1,3)] snapshot.view_set [OF assms(1,3)]
    iter_contract.observe_refines [OF snapshot.dbiter_contract [OF assms(1)] snapshot.dbiter_init_at [OF assms(1-3)] _ assms(4)]
  by blast

theorem dbiter_refines_view_witness:
  "\<exists>view. set view = {} \<and>
    (\<exists>iter. run_moves (iter_apply (ldb_dbiter_first ldb_memiter_table) (ldb_dbiter_last ldb_memiter_table)
        (ldb_dbiter_next ldb_memiter_table) (ldb_dbiter_prev ldb_memiter_table) (ldb_dbiter_seek ldb_memiter_table))
        [To_Seek [97], To_Last]
        (ldb_dbiter_init bytewise_comparator
           (ldb_memiter_init (mt_table (ldb_memtable_create (ldb_ikc_init bytewise_comparator)))) 9 301) = Some iter)"
proof -
  have sn: "snapshot bytewise_comparator (memiter_at bytewise_comparator) ldb_memiter_table 9"
    unfolding snapshot_def snapshot_axioms_def
    using bytewise_uc.user_comparator_axioms bytewise_uc.memiter_table by (simp add: MAX_SEQUENCE_def)
  obtain es where es: "memiter_at bytewise_comparator
      (ldb_memiter_init (mt_table (ldb_memtable_create (ldb_ikc_init bytewise_comparator)))) es (length es)" "set es = {}"
    using bytewise_uc.memiter_starts [OF bytewise_uc.mem_init] by auto
  have "entries_ok bytewise_comparator es" using es(2) by (simp add: entries_ok_def)
  from dbiter_refines_view [OF sn es(1) this, of "[To_Seek [97], To_Last]" 301] show ?thesis
    using es(2) by auto
qed

text \<open>C1: the database iterator over the merged iterators of two memtables, as the database opens
  them on the current and the immutable one, shows at a snapshot exactly the keys whose
  newest update as of the snapshot is a value, with that value: the answers of lookups.
  Every program of moves and turns returns.\<close>

theorem db_reads_memtables:
  assumes "user_comparator uc" "mem_holds uc mem us" "mem_holds uc imm us'" "updates_ok (us @ us')" "s \<le> MAX_SEQUENCE"
    "\<forall>m \<in> set ms. move_ok (\<lambda>t. length t + 8 < 2 ^ 32) m"
  shows "\<exists>mi view. ldb_mergeiter_create source_table (ldb_ikc_init uc)
        [Inl (ldb_memiter_init (mt_table mem)), Inl (ldb_memiter_init (mt_table imm))] = Merged mi \<and>
    sorted_wrt (\<lambda>x y. ldb_compare uc (fst x) (fst y) < 0) view \<and>
    set view = {(mu_key u, mu_value u) |u. mu_type u = TYPE_VALUE \<and> mem_newest uc (us @ us') (mu_key u) s = Some u} \<and>
    (\<forall>p. run_moves (cursor_move (\<lambda>x y. ldb_compare uc x y < 0) view) ms (length view) = Some p \<longrightarrow>
      (let T = ldb_mergeiter_table source_table in
       \<exists>iter. run_moves (iter_apply (ldb_dbiter_first T) (ldb_dbiter_last T) (ldb_dbiter_next T) (ldb_dbiter_prev T)
           (ldb_dbiter_seek T)) ms (ldb_dbiter_init uc mi s seed) = Some iter \<and>
         iter_entry ldb_dbiter_valid (ldb_dbiter_key T) (ldb_dbiter_value T) iter = cursor_entry view p))"
proof -
  let ?mi = "ldb_mergeiter_init source_table (ldb_ikc_init uc)
      [Inl (ldb_memiter_init (mt_table mem)), Inl (ldb_memiter_init (mt_table imm))]"
  note sn = user_comparator.source_snapshot [OF assms(1,5)]
  obtain es where es: "sources_at uc ?mi es (length es)" "set es = update_kv ` set (us @ us')"
    "sorted_wrt (\<lambda>x y. ldb_compare (ldb_ikc_init uc) (fst x) (fst y) < 0) es"
    using user_comparator.memtables_merged [OF assms(1-4)] by blast
  have ok: "entries_ok uc es"
    using snapshot.updates_entries_ok [OF sn _ es(2,3)] assms(4) by (simp add: updates_ok_def)
  note view = snapshot.view_sorted [OF sn ok] snapshot.updates_view [OF sn assms(4) es(2) ok]
  note refine = iter_contract.observe_refines [OF snapshot.dbiter_contract [OF sn] snapshot.dbiter_init_at [OF sn es(1) ok] _ assms(6)]
  have "ldb_mergeiter_create source_table (ldb_ikc_init uc)
      [Inl (ldb_memiter_init (mt_table mem)), Inl (ldb_memiter_init (mt_table imm))] = Merged ?mi"
    by (simp add: ldb_mergeiter_create_def)
  then show ?thesis
    using view refine unfolding Let_def by (intro exI [of _ ?mi] exI [of _ "snapshot_view uc s es"]) blast
qed

theorem db_reads_memtables_witness:
  "\<exists>mem mi iter. ldb_memtable_add (ldb_memtable_create (ldb_ikc_init bytewise_comparator)) 4 TYPE_VALUE [97] [1] = Some mem \<and>
    ldb_mergeiter_create source_table (ldb_ikc_init bytewise_comparator)
      [Inl (ldb_memiter_init (mt_table mem)),
       Inl (ldb_memiter_init (mt_table (ldb_memtable_create (ldb_ikc_init bytewise_comparator))))] = Merged mi \<and>
    (let T = ldb_mergeiter_table source_table in
     run_moves (iter_apply (ldb_dbiter_first T) (ldb_dbiter_last T) (ldb_dbiter_next T) (ldb_dbiter_prev T)
       (ldb_dbiter_seek T)) [To_First] (ldb_dbiter_init bytewise_comparator mi 9 301) = Some iter \<and>
     iter_entry ldb_dbiter_valid (ldb_dbiter_key T) (ldb_dbiter_value T) iter = Some ([97], [1]))"
proof -
  let ?u = "\<lparr>mu_seq = 4, mu_type = TYPE_VALUE, mu_key = [97], mu_value = [1]\<rparr>"
  let ?e = "ldb_memtable_create (ldb_ikc_init bytewise_comparator)"
  have ok: "updates_ok [?u]" by (simp add: updates_ok_def update_ok_def MAX_SEQUENCE_def)
  then obtain mem where mem: "ldb_memtable_add ?e 4 TYPE_VALUE [97] [1] = Some mem" "mem_holds bytewise_comparator mem [?u]"
    using bytewise_uc.mem_add [OF bytewise_uc.mem_init, of ?u] by (auto simp: updates_ok_def)
  have vis: "mem_visible bytewise_comparator [97] 9 ?u"
    using bytewise_uc.cmp_refl by (simp add: mem_visible_def)
  obtain mi view where m: "ldb_mergeiter_create source_table (ldb_ikc_init bytewise_comparator)
        [Inl (ldb_memiter_init (mt_table mem)), Inl (ldb_memiter_init (mt_table ?e))] = Merged mi"
      "sorted_wrt (\<lambda>x y. ldb_compare bytewise_comparator (fst x) (fst y) < 0) view"
      "set view = {(mu_key u, mu_value u) |u. mu_type u = TYPE_VALUE \<and> mem_newest bytewise_comparator ([?u] @ []) (mu_key u) 9 = Some u}"
      "\<forall>p. run_moves (cursor_move (\<lambda>x y. ldb_compare bytewise_comparator x y < 0) view) [To_First] (length view) = Some p \<longrightarrow>
      (let T = ldb_mergeiter_table source_table in
       \<exists>iter. run_moves (iter_apply (ldb_dbiter_first T) (ldb_dbiter_last T) (ldb_dbiter_next T) (ldb_dbiter_prev T)
           (ldb_dbiter_seek T)) [To_First] (ldb_dbiter_init bytewise_comparator mi 9 301) = Some iter \<and>
         iter_entry ldb_dbiter_valid (ldb_dbiter_key T) (ldb_dbiter_value T) iter = cursor_entry view p)"
    using db_reads_memtables [OF bytewise_uc.user_comparator_axioms mem(2) bytewise_uc.mem_init, of 9 "[To_First]" 301] ok
    by (simp add: MAX_SEQUENCE_def) blast
  have "mem_newest bytewise_comparator ([?u] @ []) k 9 = Some u \<longleftrightarrow> u = ?u \<and> mem_visible bytewise_comparator k 9 ?u" for k u
    by auto
  then have "set view = {([97], [1])}" unfolding m(3) using vis by auto
  then have "view ! 0 = ([97], [1])" "0 < length view" by (metis length_pos_if_in_set nth_mem singletonD singletonI)+
  then show ?thesis using mem(1) m(1,4) by (auto simp: cursor_entry_def Let_def)
qed

end
