(* ===== verification/Snappy.thy ===== *)
theory Snappy
  imports Coding "HOL-Library.Monad_Syntax"
begin

text \<open>
  The compressor of \<^verbatim>\<open>engine/src/util/snappy.c\<close>.  A function that writes at \<open>zp\<close> and
  returns the advanced pointer is the list of bytes it writes.  The match finder keeps
  its hash table of 16-bit positions; the search loop is a partial function, shown to
  return, and a \<open>goto finish\<close> is the result \<open>None\<close> of the loop it leaves.  The decoder
  works on arbitrary input and keeps the bytes written so far and the number of bytes
  that are still allowed.
\<close>

section \<open>Encoding\<close>

definition MAX_TABLE_SIZE :: nat where
  "MAX_TABLE_SIZE = 2 ^ 11"

definition INPUT_MARGIN :: nat where
  "INPUT_MARGIN = 16 - 1"

definition MIN_BLOCK_SIZE :: nat where
  "MIN_BLOCK_SIZE = 1 + 1 + INPUT_MARGIN"

definition MAX_BLOCK_SIZE :: nat where
  "MAX_BLOCK_SIZE = 65536"

definition TAG_LITERAL :: byte where
  "TAG_LITERAL = 0"

definition TAG_COPY1 :: byte where
  "TAG_COPY1 = 1"

definition TAG_COPY2 :: byte where
  "TAG_COPY2 = 2"

definition TAG_COPY4 :: byte where
  "TAG_COPY4 = 3"

lemmas snappy_tags = TAG_LITERAL_def TAG_COPY1_def TAG_COPY2_def TAG_COPY4_def

definition load32 :: "bytes \<Rightarrow> nat \<Rightarrow> u32" where
  "load32 xp i = ldb_fixed32_decode (drop i xp)"

definition load64 :: "bytes \<Rightarrow> nat \<Rightarrow> u64" where
  "load64 xp i = ldb_fixed64_decode (drop i xp)"

definition hash32 :: "u32 \<Rightarrow> nat \<Rightarrow> u32" where
  "hash32 x shift = drop_bit shift (x * 0x1e35a7bd)"

definition emit_literal :: "bytes \<Rightarrow> bytes" where
  "emit_literal xp =
     (let n = length xp - 1 in
      (if n < 60 then [push_bit 2 (word_of_nat n) OR TAG_LITERAL]
       else if n < 2 ^ 8 then [push_bit 2 60 OR TAG_LITERAL, word_of_nat n]
       else [push_bit 2 61 OR TAG_LITERAL, word_of_nat n, word_of_nat (drop_bit 8 n)]) @ xp)"

function emit_copy :: "nat \<Rightarrow> nat \<Rightarrow> bytes" where
  "emit_copy off len =
     (if len \<ge> 68 then
        [push_bit 2 63 OR TAG_COPY2, word_of_nat off, word_of_nat (drop_bit 8 off)] @ emit_copy off (len - 64)
      else
        (let (zp, len) =
           (if len > 64 then
              ([push_bit 2 59 OR TAG_COPY2, word_of_nat off, word_of_nat (drop_bit 8 off)], len - 60)
            else ([], len))
         in zp @ (if len \<ge> 12 \<or> off \<ge> 2048
                  then [push_bit 2 (word_of_nat (len - 1)) OR TAG_COPY2, word_of_nat off, word_of_nat (drop_bit 8 off)]
                  else [push_bit 5 (word_of_nat (drop_bit 8 off)) OR push_bit 2 (word_of_nat (len - 4)) OR TAG_COPY1,
                        word_of_nat off])))"
  by pat_completeness auto
termination
  by (relation "measure snd") auto

declare emit_copy.simps [simp del]

text \<open>The search for four bytes that occurred before; \<open>None\<close> when the input ends first.\<close>

type_synonym hash_table = "16 word list"

partial_function (option) find_match ::
  "bytes \<Rightarrow> nat \<Rightarrow> nat \<Rightarrow> nat \<Rightarrow> nat \<Rightarrow> u32 \<Rightarrow> hash_table \<Rightarrow> (nat \<times> nat \<times> u32 \<times> hash_table) option option" where
  "find_match xp limit shift skip npos next table =
     (let pos = npos;
          npos = pos + drop_bit 5 skip;
          skip = skip + drop_bit 5 skip
      in if npos > limit then Some None
         else
           (let cand = unat (table ! unat next);
                table = table[unat next := word_of_nat pos];
                next = hash32 (load32 xp npos) shift
            in if load32 xp pos = load32 xp cand then Some (Some (pos, cand, next, table))
               else find_match xp limit shift skip npos next table))"

text \<open>\<open>while (pos < xn && xp[chk] == xp[pos]) chk++, pos++;\<close>\<close>

function match_end :: "bytes \<Rightarrow> nat \<Rightarrow> nat \<Rightarrow> nat" where
  "match_end xp chk pos =
     (if pos < length xp \<and> xp ! chk = xp ! pos then match_end xp (chk + 1) (pos + 1) else pos)"
  by pat_completeness auto
termination
  by (relation "measure (\<lambda>(xp, chk, pos). length xp - pos)") auto

declare match_end.simps [simp del]

lemma match_end_ge: "pos \<le> match_end xp chk pos"
  by (induction xp chk pos rule: match_end.induct) (subst match_end.simps, auto)

text \<open>
  The inner loop: copies as long as the position after a copy starts another one.  The
  result has the bytes written, the position they reach, and the state the search goes
  on with, unless the margin of the input is reached.
\<close>

function copy_loop :: "bytes \<Rightarrow> nat \<Rightarrow> nat \<Rightarrow> nat \<Rightarrow> nat \<Rightarrow> hash_table \<Rightarrow> bytes \<times> nat \<times> (nat \<times> u32 \<times> hash_table) option" where
  "copy_loop xp limit shift cand pos table =
     (let base = pos;
          pos = match_end xp (cand + 4) (pos + 4);
          zp = emit_copy (base - cand) (pos - base);
          emit = pos
      in if pos \<ge> limit then (zp, emit, None)
         else
           (let x = load64 xp (pos - 1);
                prev = hash32 (ucast x) shift;
                table = table[unat prev := word_of_nat (pos - 1)];
                cur = hash32 (ucast (drop_bit 8 x)) shift;
                cand = unat (table ! unat cur);
                table = table[unat cur := word_of_nat pos]
            in if drop_bit 8 x \<noteq> ucast (load32 xp cand) then
                 (zp, emit, Some (pos + 1, hash32 (ucast (drop_bit 16 x)) shift, table))
               else
                 (case copy_loop xp limit shift cand pos table of
                    (zp', emit, r) \<Rightarrow> (zp @ zp', emit, r))))"
  by pat_completeness auto
termination
proof (relation "measure (\<lambda>(xp, limit, shift, cand, pos, table). limit - pos)", goal_cases)
  case (2 xp limit shift cand pos table)
  then show ?case using match_end_ge [of "pos + 4" xp "cand + 4"] by simp
qed simp

declare copy_loop.simps [simp del]

partial_function (option) encode_loop ::
  "bytes \<Rightarrow> nat \<Rightarrow> nat \<Rightarrow> nat \<Rightarrow> nat \<Rightarrow> u32 \<Rightarrow> hash_table \<Rightarrow> (bytes \<times> nat) option" where
  "encode_loop xp limit shift emit pos next table =
     Option.bind (find_match xp limit shift 32 pos next table) (\<lambda>found.
       case found of
         None \<Rightarrow> Some ([], emit)
       | Some (pos, cand, next, table) \<Rightarrow>
           let zp = emit_literal (take (pos - emit) (drop emit xp)) in
           case copy_loop xp limit shift cand pos table of
             (zp', emit, None) \<Rightarrow> Some (zp @ zp', emit)
           | (zp', emit, Some (pos, next, table)) \<Rightarrow>
               Option.bind (encode_loop xp limit shift emit pos next table) (\<lambda>(zp'', emit).
                 Some (zp @ zp' @ zp'', emit)))"

declare find_match.simps [code] encode_loop.simps [code]

text \<open>
  \<open>while (size < MAX_TABLE_SIZE && size < xn) { size *= 2; shift--; }\<close>, with the size as
  \<open>2 ^ k\<close> and the shift as \<open>32 - k\<close>.
\<close>

function table_size :: "nat \<Rightarrow> nat \<Rightarrow> nat \<times> nat" where
  "table_size xn k =
     (if (2::nat) ^ k < MAX_TABLE_SIZE \<and> 2 ^ k < xn then table_size xn (k + 1) else (2 ^ k, 32 - k))"
  by pat_completeness auto
termination
  by (relation "measure (\<lambda>(xn, k). xn - 2 ^ k)") (auto simp: diff_less_mono2)

declare table_size.simps [simp del]

definition encode_block :: "bytes \<Rightarrow> bytes option" where
  "encode_block xp =
     (let xn = length xp;
          limit = xn - INPUT_MARGIN;
          (sz, shift) = table_size xn 8;
          table = replicate sz 0;
          pos = 1;
          next = hash32 (load32 xp pos) shift
      in Option.bind (encode_loop xp limit shift 0 pos next table) (\<lambda>(zp, emit).
           Some (zp @ (if emit < xn then emit_literal (drop emit xp) else []))))"

function encode_blocks :: "bytes \<Rightarrow> bytes option" where
  "encode_blocks xp =
     (if length xp \<ge> MAX_BLOCK_SIZE then
        Option.bind (encode_block (take MAX_BLOCK_SIZE xp)) (\<lambda>z.
          Option.bind (encode_blocks (drop MAX_BLOCK_SIZE xp)) (\<lambda>zs. Some (z @ zs)))
      else if length xp > 0 then
        (if length xp \<ge> MIN_BLOCK_SIZE then encode_block xp else Some (emit_literal xp))
      else Some [])"
  by pat_completeness auto
termination
  by (relation "measure length") (auto simp: MAX_BLOCK_SIZE_def)

declare encode_blocks.simps [simp del]

definition snappy_encode_size :: "nat \<Rightarrow> nat option" where
  "snappy_encode_size xn =
     (let n = xn in
      if n > 0x7fffffff then None
      else (let n = 32 + n + n div 6 in if n > 0x7fffffff then None else Some n))"

definition snappy_encode :: "bytes \<Rightarrow> bytes option" where
  "snappy_encode xp =
     map_option (\<lambda>zp. ldb_varint32_write (word_of_nat (length xp)) @ zp) (encode_blocks xp)"

section \<open>Decoding\<close>

text \<open>The length of a literal, from the upper bits of its tag and up to four bytes.\<close>

definition le_bytes :: "bytes \<Rightarrow> u32" where
  "le_bytes xs = foldr (\<lambda>b r. ucast b OR push_bit 8 r) xs 0"

definition literal_size :: "nat \<Rightarrow> bytes \<Rightarrow> (nat \<times> bytes) option" where
  "literal_size x xp =
     (if x < 60 then Some (x, xp)
      else if x = 60 then if length xp < 1 then None else Some (unat (le_bytes (take 1 xp)), drop 1 xp)
      else if x = 61 then if length xp < 2 then None else Some (unat (le_bytes (take 2 xp)), drop 2 xp)
      else if x = 62 then if length xp < 3 then None else Some (unat (le_bytes (take 3 xp)), drop 3 xp)
      else if x = 63 then if length xp < 4 then None else Some (unat (le_bytes (take 4 xp)), drop 4 xp)
      else Some (x, xp))"

text \<open>The three kinds of copies: length, distance and the rest of the input.\<close>

definition copy_args :: "bytes \<Rightarrow> (nat \<times> nat \<times> bytes) option" where
  "copy_args xp =
     (let tag = xp ! 0 AND 3 in
      if tag = TAG_COPY1 then
        if length xp < 2 then None
        else Some (4 + unat (drop_bit 2 (xp ! 0) AND 7),
                   unat (push_bit 3 (ucast (xp ! 0 AND 0xe0)) OR ucast (xp ! 1) :: u32), drop 2 xp)
      else if tag = TAG_COPY2 then
        if length xp < 3 then None
        else Some (1 + unat (drop_bit 2 (xp ! 0)), unat (le_bytes [xp ! 1, xp ! 2]), drop 3 xp)
      else
        if length xp < 5 then None
        else Some (1 + unat (drop_bit 2 (xp ! 0)), unat (le_bytes [xp ! 1, xp ! 2, xp ! 3, xp ! 4]), drop 5 xp))"

primrec copy_bytes :: "nat \<Rightarrow> nat \<Rightarrow> bytes \<Rightarrow> bytes" where
  "copy_bytes 0 off out = out"
| "copy_bytes (Suc len) off out = copy_bytes len off (out @ [out ! (length out - off)])"

definition expand_copy :: "nat \<Rightarrow> nat \<Rightarrow> bytes \<Rightarrow> bytes" where
  "expand_copy off len out =
     (if off \<ge> len then out @ take len (drop (length out - off) out) else copy_bytes len off out)"

lemma literal_size_shrinks: "literal_size x xp = Some (n, ys) \<Longrightarrow> length ys \<le> length xp"
  by (auto simp: literal_size_def split: if_splits)

lemma copy_args_shrinks: "copy_args xp = Some (len, off, ys) \<Longrightarrow> length ys < length xp"
  by (auto simp: copy_args_def Let_def split: if_splits)

function decode_blocks :: "bytes \<Rightarrow> nat \<Rightarrow> bytes \<Rightarrow> bytes option" where
  "decode_blocks out zn xp =
     (if xp = [] then if zn \<noteq> 0 then None else Some out
      else if xp ! 0 AND 3 = TAG_LITERAL then
        (case literal_size (unat (drop_bit 2 (xp ! 0))) (drop 1 xp) of
           None \<Rightarrow> None
         | Some (x, xp) \<Rightarrow>
             if x \<ge> 0x7fffffff then None
             else (let len = x + 1 in
                   if len > zn \<or> len > length xp then None
                   else decode_blocks (out @ take len xp) (zn - len) (drop len xp)))
      else
        (case copy_args xp of
           None \<Rightarrow> None
         | Some (len, off, xp) \<Rightarrow>
             if off = 0 \<or> off \<ge> 0x80000000 then None
             else if length out < off \<or> len > zn then None
             else decode_blocks (expand_copy off len out) (zn - len) xp))"
  by pat_completeness auto
termination
proof (relation "measure (\<lambda>(out, zn, xp). length xp)", goal_cases)
  case (2 out zn xp a n ys)
  then show ?case using literal_size_shrinks [of "unat (drop_bit 2 (xp ! 0))" "drop 1 xp" n ys] by (cases xp) auto
next
  case (3 out zn xp a len b off ys)
  then show ?case using copy_args_shrinks by auto
qed simp

declare decode_blocks.simps [simp del]

definition snappy_decode_size :: "bytes \<Rightarrow> nat option" where
  "snappy_decode_size xp =
     (case ldb_varint32_read xp of None \<Rightarrow> None
      | Some (n, xp) \<Rightarrow> if n > 0x7fffffff then None else Some (unat n))"

definition snappy_decode :: "bytes \<Rightarrow> bytes option" where
  "snappy_decode xp =
     (case ldb_varint32_read xp of None \<Rightarrow> None
      | Some (zn, xp) \<Rightarrow> if zn > 0x7fffffff then None else decode_blocks [] (unat zn) xp)"

section \<open>Bytes of the format\<close>

lemma or_push_bit_unat:
  fixes r :: "'a::len word"
  assumes "unat r < 2 ^ s" "unat r + k * 2 ^ s < 2 ^ LENGTH('a)"
  shows "unat (r OR push_bit s (word_of_nat k)) = unat r + k * 2 ^ s"
  by (subst or_push_bit_disjoint [OF assms(1)], rule unat_of_nat_small [OF assms(2)])

lemma tag_byte:
  assumes "n < 64" "k < 4"
  shows "unat (push_bit 2 (word_of_nat n) OR word_of_nat k :: byte) = 4 * n + k"
  using or_push_bit_unat [of "word_of_nat k :: byte" 2 n] assms by (simp add: or.commute)

lemma byte_and_3: "t AND 3 = word_of_nat (unat t mod 4)" for t :: byte
proof -
  have "t AND 3 = take_bit 2 t" by (simp add: take_bit_eq_mask mask_eq_exp_minus_1)
  also have "\<dots> = word_of_nat (unat (take_bit 2 t))" by simp
  also have "unat (take_bit 2 t) = unat t mod 4"
    unfolding unsigned_take_bit_eq by (simp add: take_bit_eq_mod)
  finally show ?thesis .
qed

lemma tag_parts:
  assumes "n < 64" "k < 4" and "t = push_bit 2 (word_of_nat n) OR word_of_nat k"
  shows "t AND 3 = (word_of_nat k :: byte)" "unat (drop_bit 2 t) = n"
proof -
  have "unat t = 4 * n + k" using tag_byte [OF assms(1,2)] assms(3) by simp
  then show "t AND 3 = word_of_nat k" "unat (drop_bit 2 t) = n"
    using assms(2) by (simp_all add: byte_and_3 unat_drop_bit_word)
qed

lemma le_bytes_Cons:
  assumes "length bs \<le> 3" "unat (le_bytes bs) < 2 ^ (8 * length bs)"
  shows "unat (le_bytes (b # bs)) = unat b + 256 * unat (le_bytes bs)"
proof -
  have b: "unat (ucast b :: u32) = unat b"
    using less_trans [OF unat_byte_bound [of b], of "2 ^ 32"] by (simp add: unsigned_ucast_eq take_bit_nat_eq_self)
  have "(2::nat) ^ (8 * length bs) \<le> 2 ^ 24" using assms(1) by (intro power_increasing) auto
  then have "unat b + unat (le_bytes bs) * 2 ^ 8 < 2 ^ 32"
    using assms(2) unat_byte_bound [of b] by (simp del: unat_byte_bound)
  then have "unat (ucast b OR push_bit 8 (word_of_nat (unat (le_bytes bs))) :: u32) = unat b + unat (le_bytes bs) * 2 ^ 8"
    using or_push_bit_unat [of "ucast b :: u32" 8 "unat (le_bytes bs)"] b unat_byte_bound [of b] by simp
  then show ?thesis by (simp add: le_bytes_def)
qed

lemma le_bytes_2: "n < 65536 \<Longrightarrow> unat (le_bytes [word_of_nat n, word_of_nat (drop_bit 8 n)]) = n"
proof -
  assume n: "n < 65536"
  have one: "unat (le_bytes [b]) = unat b" for b using le_bytes_Cons [of "[]" b] by (simp add: le_bytes_def)
  have "unat (le_bytes [word_of_nat n, word_of_nat (drop_bit 8 n)]) =
      unat (word_of_nat n :: byte) + 256 * unat (word_of_nat (drop_bit 8 n) :: byte)"
    by (subst le_bytes_Cons) (simp_all add: one)
  also have "\<dots> = n mod 256 + 256 * (n div 256)"
    using n by (simp add: drop_bit_eq_div unat_of_nat take_bit_eq_mod)
  finally show ?thesis by simp
qed

lemma le_bytes_1: "unat (le_bytes [b]) = unat b"
  using le_bytes_Cons [of "[]" b] by (simp add: le_bytes_def)

section \<open>Decoding what was emitted\<close>

lemma decode_literal:
  assumes "xs \<noteq> []" "length xs \<le> 65536"
  shows "decode_blocks out (zn + length xs) (emit_literal xs @ rest) = decode_blocks (out @ xs) zn rest"
proof -
  define n where "n = length xs - 1"
  have n: "length xs = n + 1" "n < 65536" using assms by (auto simp: n_def Suc_le_eq)
  have "\<exists>t pre. emit_literal xs @ rest = t # pre @ xs @ rest \<and> t AND 3 = 0 \<and>
      literal_size (unat (drop_bit 2 t)) (pre @ xs @ rest) = Some (n, xs @ rest)"
  proof (cases "n < 60")
    case True
    then show ?thesis using tag_parts [of n 0] n
      by (intro exI [of _ "push_bit 2 (word_of_nat n)"] exI [of _ "[]"])
        (simp add: emit_literal_def Let_def snappy_tags literal_size_def)
  next
    case big: False
    show ?thesis
    proof (cases "n < 256")
      case True
      then show ?thesis using tag_parts [of 60 0] n big
        by (intro exI [of _ "push_bit 2 60"] exI [of _ "[word_of_nat n]"])
          (simp add: emit_literal_def Let_def snappy_tags literal_size_def le_bytes_1)
    next
      case False
      then show ?thesis using tag_parts [of 61 0] n big
        by (intro exI [of _ "push_bit 2 61"] exI [of _ "[word_of_nat n, word_of_nat (drop_bit 8 n)]"])
          (simp add: emit_literal_def Let_def snappy_tags literal_size_def le_bytes_2)
    qed
  qed
  then obtain t pre where e: "emit_literal xs @ rest = t # pre @ xs @ rest" "t AND 3 = 0"
    "literal_size (unat (drop_bit 2 t)) (pre @ xs @ rest) = Some (n, xs @ rest)" by blast
  show ?thesis
    unfolding e(1) using e(2,3) n by (subst decode_blocks.simps) (simp add: snappy_tags)
qed

lemma length_copy_bytes [simp]: "length (copy_bytes len off out) = length out + len"
  by (induction len arbitrary: out) auto

lemma copy_bytes_add: "copy_bytes (m + n) off out = copy_bytes n off (copy_bytes m off out)"
  by (induction m arbitrary: out) auto

lemma copy_bytes_far: "len \<le> off \<Longrightarrow> off \<le> length out \<Longrightarrow>
    copy_bytes len off (out @ take k (drop (length out - off) out)) = out @ take (k + len) (drop (length out - off) out)"
  if "k + len \<le> off"
  using that
proof (induction len arbitrary: k)
  case (Suc len)
  have "(out @ take k (drop (length out - off) out)) ! (length out + k - off) = drop (length out - off) out ! k"
    using Suc.prems by (simp add: nth_append)
  moreover have "take (Suc k) (drop (length out - off) out) = take k (drop (length out - off) out) @ [drop (length out - off) out ! k]"
    using Suc.prems by (intro take_Suc_conv_app_nth) simp
  ultimately show ?case using Suc.IH [of "Suc k"] Suc.prems by (simp add: min_def)
qed simp

lemma expand_copy_eq: "0 < off \<Longrightarrow> off \<le> length out \<Longrightarrow> expand_copy off len out = copy_bytes len off out"
  using copy_bytes_far [of 0 len off out] by (simp add: expand_copy_def)

text \<open>The memory copy and the byte loop agree; a copy then is a step of the decoder.\<close>

lemma decode_copy:
  assumes "copy_args xs = Some (len, off, rest)" "xs \<noteq> []" "xs ! 0 AND 3 \<noteq> 0" "0 < off" "off < 65536" "off \<le> length out"
  shows "decode_blocks out (zn + len) xs = decode_blocks (copy_bytes len off out) zn rest"
  using assms by (subst decode_blocks.simps) (simp add: snappy_tags expand_copy_eq)

lemma decode_copy2:
  assumes "0 < len" "len \<le> 64" "0 < off" "off < 65536" "off \<le> length out"
  shows "decode_blocks out (zn + len)
      ((push_bit 2 (word_of_nat (len - 1)) OR TAG_COPY2) # word_of_nat off # word_of_nat (drop_bit 8 off) # rest) =
    decode_blocks (copy_bytes len off out) zn rest"
proof -
  let ?t = "push_bit 2 (word_of_nat (len - 1)) OR word_of_nat 2 :: byte"
  have t: "?t AND 3 = 2" "unat (drop_bit 2 ?t) = len - 1" using tag_parts [of "len - 1" 2 ?t] assms by simp_all
  show ?thesis
    using t assms by (intro decode_copy) (simp_all add: copy_args_def snappy_tags Let_def le_bytes_2)
qed

lemma unat_of_nat_id_byte: "word_of_nat (unat t) = t" for t :: byte
  by simp

lemma byte_and_e0: "t AND 0xe0 = push_bit 5 (drop_bit 5 t)" for t :: byte
proof -
  have "(0xe0 :: byte) = push_bit 5 (mask 3)" by (simp add: mask_eq_exp_minus_1)
  then show ?thesis by (intro bit_word_eqI) (auto simp only: bit_and_iff bit_push_bit_iff bit_mask_iff bit_drop_bit_eq possible_bit_word, auto)
qed

lemma copy1_offset:
  assumes "off < 2048" "m < 8"
  defines "t \<equiv> push_bit 5 (word_of_nat (drop_bit 8 off)) OR push_bit 2 (word_of_nat m) OR 1 :: byte"
  shows "t AND 3 = 1" "unat (drop_bit 2 t AND 7) = m"
    "unat (push_bit 3 (ucast (t AND 0xe0)) OR ucast (word_of_nat off :: byte) :: u32) = off"
proof -
  define a where "a = off div 256"
  have a: "a < 8" using assms(1) by (simp add: a_def)
  have low: "unat (push_bit 2 (word_of_nat m) OR 1 :: byte) = 4 * m + 1" using tag_byte [of m 1] assms(2) by simp
  then have t: "unat t = 4 * m + 1 + a * 32"
    using or_push_bit_unat [of "push_bit 2 (word_of_nat m) OR 1 :: byte" 5 a] assms(2) a
    by (simp add: t_def a_def drop_bit_eq_div or.commute or.left_commute)
  have "(4 * m + 1 + a * 32) mod 4 = 1" by presburger
  then show "t AND 3 = 1" using t by (simp add: byte_and_3)
  have "drop_bit 2 t AND 7 = take_bit 3 (drop_bit 2 t)" by (simp add: take_bit_eq_mask mask_eq_exp_minus_1)
  moreover have "unat (take_bit 3 (drop_bit 2 t)) = (unat t div 4) mod 8"
    unfolding unsigned_take_bit_eq by (simp add: take_bit_eq_mod unat_drop_bit_word)
  moreover have "(4 * m + 1 + a * 32) div 4 = m + a * 8" by presburger
  ultimately show "unat (drop_bit 2 t AND 7) = m" using t assms(2) by simp
  have "unat (drop_bit 5 t) = a" using t assms(2) by (simp add: unat_drop_bit_word)
  then have "t AND 0xe0 = push_bit 5 (word_of_nat a)" using byte_and_e0 [of t] by (metis unat_of_nat_id_byte)
  then have "unat (t AND 0xe0) = a * 32" using or_push_bit_unat [of "0 :: byte" 5 a] a by simp
  then have e0: "ucast (t AND 0xe0) = (word_of_nat (a * 32) :: u32)" by (metis ucast_eq_word_of_nat)
  have lo: "unat (ucast (word_of_nat off :: byte) :: u32) = off mod 256"
    by (simp add: unsigned_ucast_eq unat_of_nat take_bit_eq_mod)
  have "unat (ucast (word_of_nat off :: byte) OR push_bit 8 (word_of_nat a) :: u32) = off mod 256 + a * 256"
    using or_push_bit_unat [of "ucast (word_of_nat off :: byte) :: u32" 8 a] lo a by simp
  moreover have "push_bit 3 (word_of_nat (a * 32)) = (push_bit 8 (word_of_nat a) :: u32)"
    by (simp add: push_bit_eq_mult mult.commute)
  ultimately show "unat (push_bit 3 (ucast (t AND 0xe0)) OR ucast (word_of_nat off :: byte) :: u32) = off"
    unfolding e0 by (simp add: or.commute a_def)
qed

lemma decode_copy1:
  assumes "4 \<le> len" "len < 12" "0 < off" "off < 2048" "off \<le> length out"
  shows "decode_blocks out (zn + len)
      ((push_bit 5 (word_of_nat (drop_bit 8 off)) OR push_bit 2 (word_of_nat (len - 4)) OR TAG_COPY1) # word_of_nat off # rest) =
    decode_blocks (copy_bytes len off out) zn rest"
  using copy1_offset [of off "len - 4"] assms
  by (intro decode_copy) (simp_all add: copy_args_def snappy_tags Let_def)

lemma decode_emit_copy:
  assumes "4 \<le> len" "0 < off" "off < 65536" "off \<le> length out"
  shows "decode_blocks out (zn + len) (emit_copy off len @ rest) = decode_blocks (copy_bytes len off out) zn rest"
  using assms
proof (induction off len arbitrary: out rule: emit_copy.induct)
  case (1 off len)
  show ?case
  proof (cases "len \<ge> 68")
    case True
    have "decode_blocks out ((zn + (len - 64)) + 64) ((push_bit 2 (word_of_nat (64 - 1)) OR TAG_COPY2) # word_of_nat off #
        word_of_nat (drop_bit 8 off) # emit_copy off (len - 64) @ rest) =
      decode_blocks (copy_bytes 64 off out) (zn + (len - 64)) (emit_copy off (len - 64) @ rest)"
      using "1.prems" by (intro decode_copy2) auto
    also have "\<dots> = decode_blocks (copy_bytes (len - 64) off (copy_bytes 64 off out)) zn rest"
      using "1.prems" True by (intro "1.IH") auto
    finally show ?thesis using True by (subst emit_copy.simps) (simp flip: copy_bytes_add)
  next
    case small: False
    have last: "decode_blocks out (zn + len) ((if len \<ge> 12 \<or> off \<ge> 2048
        then [push_bit 2 (word_of_nat (len - 1)) OR TAG_COPY2, word_of_nat off, word_of_nat (drop_bit 8 off)]
        else [push_bit 5 (word_of_nat (drop_bit 8 off)) OR push_bit 2 (word_of_nat (len - 4)) OR TAG_COPY1, word_of_nat off])
          @ rest) = decode_blocks (copy_bytes len off out) zn rest"
      if "4 \<le> len" "len \<le> 64" "off \<le> length out" for len out
      using that "1.prems" decode_copy2 [of len off out zn rest] decode_copy1 [of len off out zn rest] by auto
    show ?thesis
    proof (cases "len > 64")
      case True
      have "decode_blocks out ((zn + (len - 60)) + 60) ((push_bit 2 (word_of_nat (60 - 1)) OR TAG_COPY2) # word_of_nat off #
          word_of_nat (drop_bit 8 off) # zs @ rest) =
        decode_blocks (copy_bytes 60 off out) (zn + (len - 60)) (zs @ rest)" for zs
        using "1.prems" by (intro decode_copy2) auto
      then show ?thesis
        using small True last [of "len - 60" "copy_bytes 60 off out"] "1.prems"
        by (subst emit_copy.simps) (simp flip: copy_bytes_add)
    next
      case False
      then show ?thesis using small last [of len out] "1.prems" by (subst emit_copy.simps) simp
    qed
  qed
qed

lemma length_emit_copy: "4 \<le> len \<Longrightarrow> length (emit_copy off len) + 1 \<le> len"
proof (induction off len rule: emit_copy.induct)
  case (1 off len)
  show ?case
  proof (cases "len \<ge> 68")
    case True
    then have "length (emit_copy off (len - 64)) + 1 \<le> len - 64" using "1.IH" by simp
    then show ?thesis using True by (subst emit_copy.simps) simp
  qed (use "1.prems" in \<open>subst emit_copy.simps, auto\<close>)
qed

lemma length_emit_literal:
  "length (emit_literal xs) = length xs + (if length xs \<le> 60 then 1 else if length xs \<le> 256 then 2 else 3)"
  by (auto simp: emit_literal_def Let_def)

section \<open>Matches\<close>

lemma drop_4: "i + 4 \<le> length xs \<Longrightarrow> \<exists>ys. drop i xs = xs ! i # xs ! (i + 1) # xs ! (i + 2) # xs ! (i + 3) # ys"
  by (simp add: Cons_nth_drop_Suc [symmetric] eval_nat_numeral)

lemma unat_le_bytes_4:
  "unat (le_bytes [a, b, c, d]) = unat a + 256 * (unat b + 256 * (unat c + 256 * unat d))"
proof -
  have 1: "unat (le_bytes [d]) < 2 ^ 8" by (simp add: le_bytes_1)
  have b2: "unat (le_bytes [c, d]) = unat c + 256 * unat d" using 1 by (subst le_bytes_Cons) (simp_all add: le_bytes_1)
  then have 2: "unat (le_bytes [c, d]) < 2 ^ 16"
    using unat_byte_bound [of c] unat_byte_bound [of d] by (simp del: unat_byte_bound)
  have b3: "unat (le_bytes [b, c, d]) = unat b + 256 * (unat c + 256 * unat d)"
    using 2 b2 by (subst le_bytes_Cons) simp_all
  then have 3: "unat (le_bytes [b, c, d]) < 2 ^ 24"
    using unat_byte_bound [of b] unat_byte_bound [of c] unat_byte_bound [of d] by (simp del: unat_byte_bound)
  show ?thesis using 3 b3 by (subst le_bytes_Cons) simp_all
qed

lemma digit_256_eq: "a + 256 * b = c + 256 * d \<Longrightarrow> a < 256 \<Longrightarrow> c < 256 \<Longrightarrow> a = c \<and> b = d" for a b c d :: nat
proof -
  assume eq: "a + 256 * b = c + 256 * d" and "a < 256" "c < 256"
  have "a = (a + 256 * b) mod 256" using \<open>a < 256\<close> by simp
  also have "\<dots> = (c + 256 * d) mod 256" by (simp only: eq)
  also have "\<dots> = c" using \<open>c < 256\<close> by simp
  finally have "a = c" .
  then show ?thesis using eq by simp
qed

lemma le_bytes_4_inject:
  assumes "le_bytes [a, b, c, d] = le_bytes [a', b', c', d']"
  shows "a = a' \<and> b = b' \<and> c = c' \<and> d = d'"
proof -
  have eq: "unat a + 256 * (unat b + 256 * (unat c + 256 * unat d)) =
      unat a' + 256 * (unat b' + 256 * (unat c' + 256 * unat d'))"
    using arg_cong [OF assms, of unat] by (simp only: unat_le_bytes_4)
  note 1 = digit_256_eq [OF eq unat_byte_bound unat_byte_bound]
  note 2 = digit_256_eq [OF conjunct2 [OF 1] unat_byte_bound unat_byte_bound]
  note 3 = digit_256_eq [OF conjunct2 [OF 2] unat_byte_bound unat_byte_bound]
  show ?thesis using 1 2 3 by (simp add: word_unat_eq_iff)
qed

lemma load32_le_bytes:
  "i + 4 \<le> length xp \<Longrightarrow> load32 xp i = le_bytes [xp ! i, xp ! (i + 1), xp ! (i + 2), xp ! (i + 3)]"
  using drop_4 [of i xp] by (auto simp: load32_def ldb_fixed32_decode_def le_bytes_def push_bit_or)

lemma load32_eqD:
  assumes "load32 xp i = load32 xp j" "i + 4 \<le> length xp" "j + 4 \<le> length xp" "k < 4"
  shows "xp ! (i + k) = xp ! (j + k)"
proof -
  have "xp ! i = xp ! j \<and> xp ! (i + 1) = xp ! (j + 1) \<and> xp ! (i + 2) = xp ! (j + 2) \<and> xp ! (i + 3) = xp ! (j + 3)"
    using assms(1) load32_le_bytes [OF assms(2)] load32_le_bytes [OF assms(3)] by (intro le_bytes_4_inject) simp
  moreover have "k = 0 \<or> k = 1 \<or> k = 2 \<or> k = 3" using assms(4) by auto
  ultimately show ?thesis by auto
qed

lemma drop_byte_64:
  "ucast (drop_bit 8 (ucast (a::byte) OR push_bit 8 (ucast (b::byte)) OR push_bit 16 (ucast (c::byte)) OR push_bit 24 (ucast (d::byte))
     OR push_bit 32 (ucast (e::byte)) OR push_bit 40 (ucast (f::byte)) OR push_bit 48 (ucast (g::byte)) OR push_bit 56 (ucast (h::byte)) :: u64)) =
   (ucast b OR push_bit 8 (ucast c) OR push_bit 16 (ucast d) OR push_bit 24 (ucast e) :: u32)" (is "?l = ?r")
proof (rule bit_word_eqI)
  fix n assume n: "n < LENGTH(32)"
  have "bit ?l n \<longleftrightarrow> bit b n \<or> 8 \<le> n \<and> bit c (n - 8) \<or> 16 \<le> n \<and> bit d (n - 16) \<or> 24 \<le> n \<and> bit e (n - 24)"
    using n by (auto simp: bit_simps)
  moreover have "bit ?r n \<longleftrightarrow> bit b n \<or> 8 \<le> n \<and> bit c (n - 8) \<or> 16 \<le> n \<and> bit d (n - 16) \<or> 24 \<le> n \<and> bit e (n - 24)"
    using n by (auto simp: bit_simps)
  ultimately show "bit ?l n = bit ?r n" by simp
qed

lemma load64_shift:
  assumes "i + 7 \<le> length xp" "0 < i"
  shows "ucast (drop_bit 8 (load64 xp (i - 1))) = load32 xp i"
proof -
  have "drop (i - 1) xp = xp ! (i - 1) # drop i xp"
    using assms Cons_nth_drop_Suc [of "i - 1" xp] by simp
  then have "ldb_fixed64_decode (drop (i - 1) xp) =
      ucast (xp ! (i - 1)) OR push_bit 8 (ucast (xp ! i)) OR push_bit 16 (ucast (xp ! (i + 1)))
      OR push_bit 24 (ucast (xp ! (i + 2))) OR push_bit 32 (ucast (xp ! (i + 3))) OR push_bit 40 (ucast (xp ! (i + 4)))
      OR push_bit 48 (ucast (xp ! (i + 5))) OR push_bit 56 (ucast (xp ! (i + 6)))"
    using assms by (simp add: ldb_fixed64_decode_def)
  moreover have "ldb_fixed32_decode (drop i xp) = ucast (xp ! i) OR push_bit 8 (ucast (xp ! (i + 1)))
      OR push_bit 16 (ucast (xp ! (i + 2))) OR push_bit 24 (ucast (xp ! (i + 3)))"
    using assms by (simp add: ldb_fixed32_decode_def)
  ultimately show ?thesis by (simp only: load64_def load32_def drop_byte_64)
qed

text \<open>The bytes at \<open>pos\<close> and at the distance repeat the candidate, as far as the match goes.\<close>

lemma match_end_spec:
  assumes "pos \<le> length xp" "chk < pos"
  shows "match_end xp chk pos \<le> length xp \<and>
    (\<forall>i. pos \<le> i \<and> i < match_end xp chk pos \<longrightarrow> xp ! (i - (pos - chk)) = xp ! i)"
  using assms
proof (induction xp chk pos rule: match_end.induct)
  case (1 xp chk pos)
  show ?case
  proof (cases "pos < length xp \<and> xp ! chk = xp ! pos")
    case True
    then have IH: "match_end xp (chk + 1) (pos + 1) \<le> length xp"
      "\<And>i. pos + 1 \<le> i \<Longrightarrow> i < match_end xp (chk + 1) (pos + 1) \<Longrightarrow> xp ! (i - (pos - chk)) = xp ! i"
      using 1 by auto
    have "xp ! (i - (pos - chk)) = xp ! i" if "pos \<le> i" "i < match_end xp (chk + 1) (pos + 1)" for i
      using that IH(2) [of i] True "1.prems" by (cases "i = pos") auto
    then show ?thesis using IH(1) True by (subst (1 2) match_end.simps) simp
  next
    case False
    then show ?thesis using "1.prems" by (subst (1 2) match_end.simps) auto
  qed
qed

lemma copy_bytes_match:
  assumes "cand < base" "base + len \<le> length xs" "\<And>i. i < len \<Longrightarrow> xs ! (cand + i) = xs ! (base + i)"
  shows "copy_bytes len (base - cand) (p @ take base xs) = p @ take (base + len) xs"
  using assms
proof (induction len arbitrary: cand base)
  case (Suc len)
  have "(p @ take base xs) ! (length (p @ take base xs) - (base - cand)) = xs ! cand"
    using Suc.prems(1,2) by (simp add: nth_append min_def)
  also have "\<dots> = xs ! base" using Suc.prems(3) [of 0] by simp
  finally have "copy_bytes (Suc len) (base - cand) (p @ take base xs) =
      copy_bytes len (Suc base - Suc cand) (p @ take (Suc base) xs)"
    using Suc.prems(2) by (simp add: take_Suc_conv_app_nth)
  also have "\<dots> = p @ take (Suc base + len) xs"
    using Suc.prems(1,2) Suc.prems(3) [of "Suc i" for i] by (intro Suc.IH) auto
  finally show ?case by simp
qed simp

section \<open>Emitted parts of the input\<close>

text \<open>
  \<open>emits zp xs i j\<close>: the bytes \<open>zp\<close> make the decoder go from the first \<open>i\<close> to the first
  \<open>j\<close> bytes of the block \<open>xs\<close>, after whatever it wrote before.
\<close>

definition emits :: "bytes \<Rightarrow> bytes \<Rightarrow> nat \<Rightarrow> nat \<Rightarrow> bool" where
  "emits zp xs i j \<longleftrightarrow> i \<le> j \<and> j \<le> length xs \<and>
     (\<forall>p zn rest. decode_blocks (p @ take i xs) (zn + (j - i)) (zp @ rest) = decode_blocks (p @ take j xs) zn rest)"

lemma emits_refl: "i \<le> length xs \<Longrightarrow> emits [] xs i i"
  by (simp add: emits_def)

lemma emits_trans: "emits zp xs i j \<Longrightarrow> emits zp' xs j k \<Longrightarrow> emits (zp @ zp') xs i k"
proof -
  assume *: "emits zp xs i j" "emits zp' xs j k"
  have "decode_blocks (p @ take i xs) (zn + (k - i)) (zp @ zp' @ rest) = decode_blocks (p @ take k xs) zn rest" for p zn rest
  proof -
    have "zn + (k - i) = (zn + (k - j)) + (j - i)" using * by (auto simp: emits_def)
    then show ?thesis using * unfolding emits_def by presburger
  qed
  then show ?thesis using * by (auto simp: emits_def)
qed

lemma emits_literal:
  assumes "i < j" "j \<le> length xs" "length xs \<le> 65536"
  shows "emits (emit_literal (take (j - i) (drop i xs))) xs i j"
proof -
  let ?l = "take (j - i) (drop i xs)"
  have l: "?l \<noteq> []" "length ?l = j - i" using assms by auto
  have "take i xs @ ?l = take j xs" using assms by (metis add_diff_inverse_nat less_imp_le not_less take_add)
  then show ?thesis
    using assms decode_literal [OF l(1)] unfolding l(2) by (simp add: emits_def)
qed

lemma emits_copy:
  assumes "cand < base" "base + 4 \<le> e" "e \<le> length xs" "length xs \<le> 65536"
    and "\<And>i. base \<le> i \<Longrightarrow> i < e \<Longrightarrow> xs ! (i - (base - cand)) = xs ! i"
  shows "emits (emit_copy (base - cand) (e - base)) xs base e"
proof -
  have "xs ! (cand + i) = xs ! (base + i)" if "i < e - base" for i
    using assms(5) [of "base + i"] assms(1) that by (simp add: add.commute)
  then have "copy_bytes (e - base) (base - cand) (p @ take base xs) = p @ take e xs" for p
    using copy_bytes_match [of cand base "e - base" xs p] assms(1-3) by simp
  then show ?thesis
    using assms decode_emit_copy [of "e - base" "base - cand"] by (simp add: emits_def)
qed

section \<open>The match finder\<close>

text \<open>The hash table has one slot for every hash and holds positions before \<open>p\<close>.\<close>

definition table_ok :: "hash_table \<Rightarrow> nat \<Rightarrow> nat \<Rightarrow> bool" where
  "table_ok table shift p \<longleftrightarrow> shift < 32 \<and> length table = 2 ^ (32 - shift) \<and> (\<forall>e \<in> set table. unat e < p)"

lemma hash32_bound: "shift < 32 \<Longrightarrow> unat (hash32 x shift) < 2 ^ (32 - shift)"
proof -
  assume "shift < 32"
  then have "(2::nat) ^ 32 = 2 ^ (32 - shift) * 2 ^ shift" by (simp flip: power_add)
  then show ?thesis
    using unat_u32_bound [of "x * 0x1e35a7bd"] by (simp add: hash32_def unat_drop_bit_word less_mult_imp_div_less)
qed

lemma table_ok_update:
  assumes "table_ok table shift p" "p' < p''" "p \<le> p''" "p' < 65536"
  shows "table_ok (table[i := word_of_nat p']) shift p''"
proof -
  have "unat (word_of_nat p' :: 16 word) = p'" using assms(4) by simp
  then show ?thesis
    using assms(1-3) by (auto simp: table_ok_def dest!: set_update_subset_insert [THEN subsetD] intro: less_le_trans)
qed

lemma table_ok_nth: "table_ok table shift p \<Longrightarrow> unat (table ! unat (hash32 x shift)) < p"
  using hash32_bound [of shift x] by (auto simp: table_ok_def)

lemma find_match_spec:
  assumes "length xp \<le> 65536" "limit + 15 = length xp" "32 \<le> skip" "0 < npos"
    and "table_ok table shift npos" "next = hash32 x shift"
  shows "\<exists>r. find_match xp limit shift skip npos next table = Some r \<and>
    (case r of None \<Rightarrow> True
     | Some (pos, cand, next', table') \<Rightarrow>
         npos \<le> pos \<and> pos < limit \<and> cand < pos \<and> (\<forall>k < 4. xp ! (cand + k) = xp ! (pos + k)) \<and>
         table_ok table' shift (pos + 1) \<and> (\<exists>y. next' = hash32 y shift))"
  using assms(3-)
proof (induction "limit - npos" arbitrary: skip npos "next" table x rule: less_induct)
  case less
  define step where "step = drop_bit 5 skip"
  have step: "0 < step" using less.prems(1) by (simp add: step_def drop_bit_eq_div)
  define cand where "cand = unat (table ! unat next)"
  define table' where "table' = table[unat next := word_of_nat npos]"
  show ?case
  proof (cases "npos + step > limit")
    case True
    then show ?thesis by (subst find_match.simps) (simp add: Let_def step_def)
  next
    case False
    then have in_range: "npos + 4 \<le> length xp" "npos < limit" "npos < 65536" using assms(1,2) step by auto
    have cand: "cand < npos" using table_ok_nth [OF less.prems(3)] less.prems(4) by (simp add: cand_def)
    have table': "table_ok table' shift (npos + 1)"
      unfolding table'_def using less.prems(3) in_range by (intro table_ok_update) auto
    show ?thesis
    proof (cases "load32 xp npos = load32 xp cand")
      case True
      then have "\<forall>k < 4. xp ! (cand + k) = xp ! (npos + k)"
        using load32_eqD [of xp cand npos] cand in_range by auto
      then show ?thesis
        using True False cand in_range table'
        by (subst find_match.simps) (auto simp: Let_def step_def cand_def table'_def)
    next
      case False': False
      have "table_ok table' shift (npos + step)" using table' step by (auto simp: table_ok_def)
      then obtain r where "find_match xp limit shift (skip + step) (npos + step) (hash32 (load32 xp (npos + step)) shift) table' = Some r"
        "case r of None \<Rightarrow> True
         | Some (pos, cand, next', table') \<Rightarrow>
             npos + step \<le> pos \<and> pos < limit \<and> cand < pos \<and> (\<forall>k < 4. xp ! (cand + k) = xp ! (pos + k)) \<and>
             table_ok table' shift (pos + 1) \<and> (\<exists>y. next' = hash32 y shift)"
        using less.hyps [of "npos + step" "skip + step" table' "hash32 (load32 xp (npos + step)) shift"] less.prems step in_range
        by (metis (no_types, lifting) False add_gr_0 diff_less_mono2 less_add_same_cancel1 trans_le_add1)
      then show ?thesis
        using False False' step
        by (subst find_match.simps) (auto simp: Let_def step_def cand_def table'_def split: option.splits)
    qed
  qed
qed

lemma copy_emitted:
  assumes "length xp \<le> 65536" "pos + 4 \<le> length xp" "cand < pos" "\<forall>k < 4. xp ! (cand + k) = xp ! (pos + k)"
  defines "e \<equiv> match_end xp (cand + 4) (pos + 4)"
  shows "pos + 4 \<le> e \<and> e \<le> length xp \<and> emits (emit_copy (pos - cand) (e - pos)) xp pos e \<and>
    length (emit_copy (pos - cand) (e - pos)) + 1 \<le> e - pos"
proof -
  have ge: "pos + 4 \<le> e" unfolding e_def by (rule match_end_ge)
  have me: "e \<le> length xp" "\<And>i. pos + 4 \<le> i \<Longrightarrow> i < e \<Longrightarrow> xp ! (i - (pos - cand)) = xp ! i"
    using match_end_spec [of "pos + 4" xp "cand + 4"] assms(2,3) by (auto simp: e_def)
  have "xp ! (i - (pos - cand)) = xp ! i" if "pos \<le> i" "i < e" for i
  proof (cases "pos + 4 \<le> i")
    case False
    then have "i - pos < 4" using that by simp
    then have "xp ! (cand + (i - pos)) = xp ! (pos + (i - pos))" using assms(4) by blast
    moreover have "cand + (i - pos) = i - (pos - cand)" using that assms(3) by simp
    ultimately show ?thesis using that by simp
  qed (use me(2) that in blast)
  then show ?thesis using emits_copy [OF assms(3) ge me(1) assms(1)] length_emit_copy ge me(1) by auto
qed

lemma load64_match:
  assumes "drop_bit 8 (load64 xp (pos - 1)) = ucast (load32 xp cand)" "0 < pos" "pos + 7 \<le> length xp" "cand < pos"
  shows "\<forall>k < 4. xp ! (cand + k) = xp ! (pos + k)"
proof -
  have "load32 xp pos = ucast (ucast (load32 xp cand) :: u64)"
    using load64_shift [OF assms(3,2)] assms(1) by simp
  then have "load32 xp cand = load32 xp pos" by (intro bit_word_eqI) (simp add: bit_simps)
  then show ?thesis using load32_eqD [of xp cand pos] assms(3,4) by auto
qed

lemma copy_loop_spec:
  assumes "length xp \<le> 65536" "limit + 15 = length xp"
    and "pos < limit" "cand < pos" "\<forall>k < 4. xp ! (cand + k) = xp ! (pos + k)" "table_ok table shift (pos + 1)"
    and "copy_loop xp limit shift cand pos table = (zp, emit, r)"
  shows "emits zp xp pos emit \<and> length zp + 1 \<le> emit - pos \<and> pos + 4 \<le> emit \<and>
    (case r of None \<Rightarrow> True
     | Some (pos', next', table') \<Rightarrow>
         pos' = emit + 1 \<and> emit < limit \<and> table_ok table' shift pos' \<and> (\<exists>y. next' = hash32 y shift))"
  using assms(3-)
proof (induction "limit - pos" arbitrary: cand pos table zp emit r rule: less_induct)
  case less
  define e where "e = match_end xp (cand + 4) (pos + 4)"
  define zc where "zc = emit_copy (pos - cand) (e - pos)"
  have zc: "pos + 4 \<le> e" "e \<le> length xp" "emits zc xp pos e" "length zc + 1 \<le> e - pos"
    using copy_emitted [OF assms(1) _ less.prems(2,3)] less.prems(1) assms(2) by (auto simp: e_def zc_def)
  show ?case
  proof (cases "e \<ge> limit")
    case True
    then have "zp = zc \<and> emit = e \<and> r = None"
      using less.prems(5) by (subst (asm) copy_loop.simps) (simp add: Let_def flip: e_def zc_def)
    then show ?thesis using zc by simp
  next
    case False
    define x where "x = load64 xp (e - 1)"
    define t1 where "t1 = table[unat (hash32 (ucast x) shift) := word_of_nat (e - 1)]"
    define cand' where "cand' = unat (t1 ! unat (hash32 (ucast (drop_bit 8 x)) shift))"
    define t2 where "t2 = t1[unat (hash32 (ucast (drop_bit 8 x)) shift) := word_of_nat e]"
    have "e < 65536" using zc(2) assms(1,2) False by simp
    then have t1: "table_ok t1 shift e" unfolding t1_def
      using zc(1) by (intro table_ok_update [OF less.prems(4)]) auto
    have t2: "table_ok t2 shift (e + 1)" unfolding t2_def using t1 \<open>e < 65536\<close> by (intro table_ok_update) auto
    have cand': "cand' < e" unfolding cand'_def by (rule table_ok_nth [OF t1])
    have unfold: "(if drop_bit 8 x \<noteq> ucast (load32 xp cand')
        then (zc, e, Some (e + 1, hash32 (ucast (drop_bit 16 x)) shift, t2))
        else (case copy_loop xp limit shift cand' e t2 of (zp', emit, r) \<Rightarrow> (zc @ zp', emit, r))) = (zp, emit, r)"
      using less.prems(5) False unfolding zc_def x_def t2_def cand'_def t1_def
      by (subst (asm) copy_loop.simps) (simp only: Let_def e_def [symmetric] if_False)
    show ?thesis
    proof (cases "drop_bit 8 x = ucast (load32 xp cand')")
      case True
      obtain zp' emit' r' where rec: "copy_loop xp limit shift cand' e t2 = (zp', emit', r')" by (metis surj_pair)
      have m: "\<forall>k < 4. xp ! (cand' + k) = xp ! (e + k)"
        using load64_match [of xp e cand'] True cand' False assms(2) zc(1) by (simp add: x_def)
      have IH: "emits zp' xp e emit' \<and> length zp' + 1 \<le> emit' - e \<and> e + 4 \<le> emit' \<and>
        (case r' of None \<Rightarrow> True | Some (pos', next', table') \<Rightarrow>
           pos' = emit' + 1 \<and> emit' < limit \<and> table_ok table' shift pos' \<and> (\<exists>y. next' = hash32 y shift))"
        using less.hyps [OF _ _ cand' m t2 rec] False zc(1) less.prems(1) by simp
      moreover have "zp = zc @ zp'" "emit = emit'" "r = r'" using unfold True rec by auto
      ultimately show ?thesis using emits_trans [OF zc(3)] zc(1,4) by auto
    next
      case False'': False
      then show ?thesis using unfold zc t2 False by auto
    qed
  qed
qed

section \<open>Blocks\<close>

text \<open>
  The main loop returns, what it writes covers the input up to \<open>emit\<close>, and a literal
  costs at most one byte in 64 more than it and the copy after it take.
\<close>

lemma emits_bounds: "emits zp xs i j \<Longrightarrow> i \<le> j \<and> j \<le> length xs"
  by (simp add: emits_def)

lemma encode_loop_spec:
  assumes "length xp \<le> 65536" "limit + 15 = length xp"
    and "emit < pos" "table_ok table shift pos" "next = hash32 x shift"
  shows "\<exists>zp emit'. encode_loop xp limit shift emit pos next table = Some (zp, emit') \<and>
    (emit \<le> length xp \<longrightarrow> emits zp xp emit emit' \<and> 64 * length zp \<le> 65 * (emit' - emit))"
  using assms(3-)
proof (induction "limit - pos" arbitrary: emit pos "next" table x rule: less_induct)
  case less
  obtain found where found: "find_match xp limit shift 32 pos next table = Some found"
    "case found of None \<Rightarrow> True
     | Some (pos', cand, next', table') \<Rightarrow>
         pos \<le> pos' \<and> pos' < limit \<and> cand < pos' \<and> (\<forall>k < 4. xp ! (cand + k) = xp ! (pos' + k)) \<and>
         table_ok table' shift (pos' + 1) \<and> (\<exists>y. next' = hash32 y shift)"
    using find_match_spec [OF assms(1,2), of 32 pos table shift "next" x] less.prems by auto
  show ?case
  proof (cases found)
    case None
    then show ?thesis using found(1) emits_refl [of emit xp] by (subst encode_loop.simps) simp
  next
    case (Some f)
    obtain pos' cand next' table' where f: "f = (pos', cand, next', table')" by (cases f)
    with found(2) Some have m: "pos \<le> pos'" "pos' < limit" "cand < pos'" "\<forall>k < 4. xp ! (cand + k) = xp ! (pos' + k)"
      "table_ok table' shift (pos' + 1)" by auto
    define zl where "zl = emit_literal (take (pos' - emit) (drop emit xp))"
    obtain zc e r where cl: "copy_loop xp limit shift cand pos' table' = (zc, e, r)" by (metis surj_pair)
    note c = copy_loop_spec [OF assms(1,2) m(2-5) cl]
    have ll: "emits zl xp emit pos'" "length zl = (pos' - emit) +
        (if pos' - emit \<le> 60 then 1 else if pos' - emit \<le> 256 then 2 else 3)"
      using emits_literal [of emit pos' xp] less.prems(1) m(1,2) assms(1,2)
      by (auto simp: zl_def length_emit_literal)
    have both: "emits (zl @ zc) xp emit e" using ll(1) c emits_trans by blast
    have cost: "64 * length (zl @ zc) \<le> 65 * (e - emit)"
    proof -
      have "emit < pos'" "pos' + 4 \<le> e" "length zc + 1 \<le> e - pos'" using less.prems(1) m(1) c by auto
      then show ?thesis using ll(2) by (auto split: if_splits)
    qed
    show ?thesis
    proof (cases r)
      case None
      then show ?thesis
        using found(1) Some f cl both cost by (subst encode_loop.simps) (simp add: Let_def flip: zl_def)
    next
      case (Some s)
      obtain pos'' next'' table'' where s: "s = (pos'', next'', table'')" by (cases s)
      with Some c have c': "pos'' = e + 1" "e < limit" "table_ok table'' shift pos''" "\<exists>y. next'' = hash32 y shift" by auto
      obtain y where y: "next'' = hash32 y shift" using c'(4) by blast
      have closer: "limit - pos'' < limit - pos" using c'(1,2) m(1,2) c by auto
      obtain zp emit' where IH: "encode_loop xp limit shift e pos'' next'' table'' = Some (zp, emit')"
        "e \<le> length xp \<longrightarrow> emits zp xp e emit' \<and> 64 * length zp \<le> 65 * (emit' - e)"
        using less.hyps [OF closer, of e table'' next'' y] c' y by auto
      have e: "e \<le> length xp" "emit \<le> e" using emits_bounds [OF both] by auto
      then have em: "emits zp xp e emit'" "64 * length zp \<le> 65 * (emit' - e)" using IH(2) by auto
      have "emits ((zl @ zc) @ zp) xp emit emit'" using emits_trans [OF both em(1)] .
      moreover have "64 * length ((zl @ zc) @ zp) \<le> 65 * (emit' - emit)"
        using cost em(2) e(2) emits_bounds [OF em(1), THEN conjunct1] by simp
      ultimately show ?thesis
        using found(1) \<open>found = Some f\<close> f cl Some s IH(1)
        by (subst encode_loop.simps) (simp add: Let_def flip: zl_def)
    qed
  qed
qed

lemma table_size_spec: "k \<le> 11 \<Longrightarrow> \<exists>k'. k \<le> k' \<and> k' \<le> 11 \<and> table_size xn k = (2 ^ k', 32 - k')"
proof (induction xn k rule: table_size.induct)
  case (1 xn k)
  show ?case
  proof (cases "(2::nat) ^ k < MAX_TABLE_SIZE \<and> 2 ^ k < xn")
    case True
    then have "k < 11" by (metis MAX_TABLE_SIZE_def nat_power_less_imp_less zero_less_numeral)
    then obtain k' where "k + 1 \<le> k'" "k' \<le> 11" "table_size xn (k + 1) = (2 ^ k', 32 - k')" using 1 True by auto
    then show ?thesis using True by (intro exI [of _ k']) (subst table_size.simps, simp)
  next
    case False
    then show ?thesis using "1.prems" by (intro exI [of _ k]) (subst table_size.simps, auto)
  qed
qed

lemma encode_block_spec:
  assumes "MIN_BLOCK_SIZE \<le> length xp" "length xp \<le> 65536"
  shows "\<exists>zp. encode_block xp = Some zp \<and> emits zp xp 0 (length xp) \<and> 64 * length zp \<le> 65 * length xp + 192"
proof -
  obtain k where k: "8 \<le> k" "k \<le> 11" "table_size (length xp) 8 = (2 ^ k, 32 - k)"
    using table_size_spec [of 8 "length xp"] by auto
  have "length xp - INPUT_MARGIN + 15 = length xp" using assms(1) by (simp add: INPUT_MARGIN_def MIN_BLOCK_SIZE_def)
  moreover have "table_ok (replicate (2 ^ k) 0) (32 - k) 1" using k by (simp add: table_ok_def)
  ultimately obtain zp emit where el: "encode_loop xp (length xp - INPUT_MARGIN) (32 - k) 0 1
      (hash32 (load32 xp 1) (32 - k)) (replicate (2 ^ k) 0) = Some (zp, emit)"
    "emits zp xp 0 emit" "64 * length zp \<le> 65 * emit"
    using encode_loop_spec [OF assms(2), of "length xp - INPUT_MARGIN" 0 1] by fastforce
  define z where "z = zp @ (if emit < length xp then emit_literal (drop emit xp) else [])"
  have block: "encode_block xp = Some z" using el(1) k(3) by (simp add: encode_block_def z_def)
  have emit: "emit \<le> length xp" using emits_bounds [OF el(2)] by simp
  show ?thesis
  proof (cases "emit < length xp")
    case True
    have "emits (emit_literal (drop emit xp)) xp emit (length xp)"
      using emits_literal [OF True order_refl assms(2)] by simp
    then have "emits z xp 0 (length xp)" using emits_trans [OF el(2)] True by (simp add: z_def)
    moreover have "64 * length z \<le> 65 * length xp + 192"
    proof -
      obtain d where "length xp = emit + d" using emit le_iff_add by blast
      then show ?thesis using el(3) True by (auto simp: z_def length_emit_literal)
    qed
    ultimately show ?thesis using block by simp
  next
    case False
    then show ?thesis using block el emit by (simp add: z_def)
  qed
qed

lemma encode_blocks_spec:
  "\<exists>zp. encode_blocks xp = Some zp \<and> 6 * length zp \<le> 7 * length xp + 18 \<and>
     (\<forall>p zn rest. decode_blocks p (zn + length xp) (zp @ rest) = decode_blocks (p @ xp) zn rest)"
proof (induction xp rule: encode_blocks.induct)
  case (1 xp)
  have block: "\<exists>zp. encode_block ys = Some zp \<and> 64 * length zp \<le> 65 * length ys + 192 \<and>
      (\<forall>p zn rest. decode_blocks p (zn + length ys) (zp @ rest) = decode_blocks (p @ ys) zn rest)"
    if "MIN_BLOCK_SIZE \<le> length ys" "length ys \<le> 65536" for ys
    using encode_block_spec [OF that] by (auto simp: emits_def)
  consider "MAX_BLOCK_SIZE \<le> length xp" | "length xp < MAX_BLOCK_SIZE" "MIN_BLOCK_SIZE \<le> length xp"
    | "length xp < MIN_BLOCK_SIZE" "xp \<noteq> []" | "xp = []" by fastforce
  then show ?case
  proof cases
    case 1
    define ys zs where "ys = take MAX_BLOCK_SIZE xp" and "zs = drop MAX_BLOCK_SIZE xp"
    have len: "length ys = 65536" "length xp = length ys + length zs" "xp = ys @ zs"
      using 1 by (auto simp: ys_def zs_def MAX_BLOCK_SIZE_def)
    obtain zy where zy: "encode_block ys = Some zy" "64 * length zy \<le> 65 * length ys + 192"
      "\<And>p zn rest. decode_blocks p (zn + length ys) (zy @ rest) = decode_blocks (p @ ys) zn rest"
      using block [of ys] len by (auto simp: MIN_BLOCK_SIZE_def INPUT_MARGIN_def)
    obtain zz where zz: "encode_blocks zs = Some zz" "6 * length zz \<le> 7 * length zs + 18"
      "\<And>p zn rest. decode_blocks p (zn + length zs) (zz @ rest) = decode_blocks (p @ zs) zn rest"
      using "1.IH" 1 zy(1) by (auto simp: ys_def zs_def)
    have "encode_blocks xp = Some (zy @ zz)"
      using 1 zy(1) zz(1) by (subst encode_blocks.simps) (simp add: ys_def zs_def)
    moreover have "decode_blocks p (zn + length xp) ((zy @ zz) @ rest) = decode_blocks (p @ xp) zn rest" for p zn rest
      using zy(3) [of p "zn + length zs" "zz @ rest"] zz(3) [of "p @ ys" zn rest] len(3) by (simp add: ac_simps)
    ultimately show ?thesis using zy(2) zz(2) len by (intro exI [of _ "zy @ zz"]) simp
  next
    case 2
    then show ?thesis
      using block [of xp] by (subst encode_blocks.simps) (auto simp: MAX_BLOCK_SIZE_def)
  next
    case 3
    then show ?thesis
      using decode_literal [of xp]
      by (subst encode_blocks.simps) (auto simp: MAX_BLOCK_SIZE_def MIN_BLOCK_SIZE_def INPUT_MARGIN_def length_emit_literal)
  next
    case 4
    then show ?thesis by (subst encode_blocks.simps) (simp add: MAX_BLOCK_SIZE_def)
  qed
qed

lemma decode_blocks_length: "decode_blocks out zn xp = Some z \<Longrightarrow> length z = length out + zn"
proof (induction out zn xp rule: decode_blocks.induct)
  case (1 out zn xp)
  have len: "length (expand_copy off len out) = length out + len" if "0 < off" "off \<le> length out" for off len
    using that by (simp add: expand_copy_eq)
  consider "xp = []" | n ys where "xp \<noteq> []" "xp ! 0 AND 3 = TAG_LITERAL"
      "literal_size (unat (drop_bit 2 (xp ! 0))) (drop 1 xp) = Some (n, ys)" "n < 0x7fffffff" "n + 1 \<le> zn" "n + 1 \<le> length ys"
      "decode_blocks (out @ take (n + 1) ys) (zn - (n + 1)) (drop (n + 1) ys) = Some z"
    | len off ys where "xp \<noteq> []" "xp ! 0 AND 3 \<noteq> TAG_LITERAL" "copy_args xp = Some (len, off, ys)"
      "0 < off" "off < 0x80000000" "off \<le> length out" "len \<le> zn" "decode_blocks (expand_copy off len out) (zn - len) ys = Some z"
    using 1(3) by (subst (asm) decode_blocks.simps) (auto simp: Let_def not_le not_less split: if_splits option.splits)
  then show ?case
  proof cases
    case 1
    then show ?thesis using "1.prems" by (subst (asm) decode_blocks.simps) (auto split: if_splits)
  next
    case 2
    then show ?thesis using "1.IH"(1) [OF 2(1-3) refl _ refl] by simp
  next
    case 3
    then show ?thesis using "1.IH"(2) [OF 3(1-3) refl refl] len [of off len] by simp
  qed
qed

lemma snappy_decoded_size: "snappy_decode xs = Some z \<Longrightarrow> snappy_decode_size xs = Some (length z)"
  using decode_blocks_length
  by (auto simp: snappy_decode_def snappy_decode_size_def split: option.splits if_splits)

lemma snappy_encode_decode:
  assumes "length xs \<le> 0x7fffffff"
  shows "\<exists>z. snappy_encode xs = Some z \<and> snappy_decode z = Some xs \<and> snappy_decode_size z = Some (length xs)"
proof -
  obtain zp where zp: "encode_blocks xs = Some zp"
    "\<And>p zn rest. decode_blocks p (zn + length xs) (zp @ rest) = decode_blocks (p @ xs) zn rest"
    using encode_blocks_spec [of xs] by blast
  have "decode_blocks [] (length xs) zp = Some xs"
    using zp(2) [of "[]" 0 "[]"] by (simp add: decode_blocks.simps)
  moreover have n: "unat (word_of_nat (length xs) :: u32) = length xs" using assms by simp
  ultimately show ?thesis
    using assms zp(1)
    by (simp add: snappy_encode_def snappy_decode_def snappy_decode_size_def wire_simps word_less_nat_alt)
qed

section \<open>Properties\<close>

text \<open>C9: compression loses nothing: for every input within the limits of the format the compressor
  returns, and the decompressor maps its output back to the input and announces its exact size.\<close>

theorem snappy_roundtrip:
  assumes "length xs \<le> 0x7fffffff"
  shows "\<exists>z. snappy_encode xs = Some z \<and> snappy_decode z = Some xs \<and> snappy_decode_size z = Some (length xs)"
  using assms by (rule snappy_encode_decode)

theorem snappy_roundtrip_witness:
  "\<exists>z. snappy_encode (replicate 100 7) = Some z \<and> snappy_decode z = Some (replicate 100 7) \<and>
     snappy_decode_size z = Some (length (replicate 100 (7::byte)))"
  by (rule snappy_roundtrip) simp

text \<open>C32: the compressor never writes past the buffer that its callers size with
  \<^verbatim>\<open>snappy_encode_size\<close>.\<close>

theorem snappy_encode_fits:
  assumes "snappy_encode_size (length xs) = Some n"
  shows "\<exists>z. snappy_encode xs = Some z \<and> length z \<le> n"
proof -
  obtain zp where "encode_blocks xs = Some zp" "6 * length zp \<le> 7 * length xs + 18"
    using encode_blocks_spec [of xs] by blast
  moreover have "length (ldb_varint32_write (word_of_nat (length xs))) \<le> 5"
    by (simp add: len_simps ldb_varint32_size_bounds)
  moreover have "n = 32 + length xs + length xs div 6" using assms by (auto simp: snappy_encode_size_def Let_def split: if_splits)
  ultimately show ?thesis by (auto simp: snappy_encode_def)
qed

theorem snappy_encode_fits_witness:
  "\<exists>z. snappy_encode (replicate 100 7) = Some z \<and> length z \<le> 148"
  by (rule snappy_encode_fits) (simp add: snappy_encode_size_def Let_def)

text \<open>C33: on arbitrary input, a successful decompression fills exactly the number of bytes that
  \<^verbatim>\<open>snappy_decode_size\<close> announced and the caller allocated.\<close>

theorem snappy_decode_exact:
  assumes "snappy_decode xs = Some z"
  shows "snappy_decode_size xs = Some (length z)"
  using assms by (rule snappy_decoded_size)

theorem snappy_decode_exact_witness: "snappy_decode_size [3, 8, 97, 98, 99] = Some (length ([97, 98, 99] :: bytes))"
proof (rule snappy_decode_exact)
  have "decode_blocks [] 3 (emit_literal [97, 98, 99] @ []) = decode_blocks [97, 98, 99] 0 []"
    using decode_literal [of "[97, 98, 99]" "[]" 0 "[]"] by (simp add: numeral_3_eq_3)
  also have "\<dots> = Some [97, 98, 99]" by (subst decode_blocks.simps) simp
  finally have "decode_blocks [] 3 [8, 97, 98, 99] = Some [97, 98, 99]"
    by (simp add: emit_literal_def snappy_tags)
  then show "snappy_decode [3, 8, 97, 98, 99] = Some [97, 98, 99]"
    by (simp add: snappy_decode_def ldb_varint32_read_def)
qed

end
