(* ===== verification/Table_Format.thy ===== *)
theory Table_Format
  imports Snappy Crc32c
begin

text \<open>
  The parts of a table file, \<^verbatim>\<open>engine/src/table/format.c\<close>: block handles, the footer, and
  the blocks with their trailer of type and checksum.  A file that is read at random
  offsets is the function \<open>ldb_rfile_pread\<close> of its implementation with the file already
  given, and whether it is mapped into memory; a buffer for the data is always
  available.  \<open>stored_block\<close> is what the table builder writes for a block.
\<close>

section \<open>Block handles\<close>

definition LDB_HANDLE_SIZE :: nat where
  "LDB_HANDLE_SIZE = 10 + 10"

definition LDB_FOOTER_SIZE :: nat where
  "LDB_FOOTER_SIZE = 2 * LDB_HANDLE_SIZE + 8"

definition LDB_TRAILER_SIZE :: nat where
  "LDB_TRAILER_SIZE = 5"

definition LDB_TABLE_MAGIC :: u64 where
  "LDB_TABLE_MAGIC = 0xdb4775248b80fb57"

record ldb_handle =
  h_offset :: u64
  h_size :: u64

definition ldb_handle_init :: ldb_handle where
  "ldb_handle_init = \<lparr>h_offset = NOT 0, h_size = NOT 0\<rparr>"

definition ldb_handle_size :: "ldb_handle \<Rightarrow> nat" where
  "ldb_handle_size x = ldb_varint64_size (h_offset x) + ldb_varint64_size (h_size x)"

definition ldb_handle_write :: "ldb_handle \<Rightarrow> bytes" where
  "ldb_handle_write x = ldb_varint64_write (h_offset x) @ ldb_varint64_write (h_size x)"

definition ldb_handle_export :: "bytes \<Rightarrow> ldb_handle \<Rightarrow> bytes" where
  "ldb_handle_export z x = z @ ldb_handle_write x"

definition ldb_handle_read :: "bytes \<Rightarrow> (ldb_handle \<times> bytes) option" where
  "ldb_handle_read xs =
     Option.bind (ldb_varint64_read xs) (\<lambda>(offset, xs).
       Option.bind (ldb_varint64_read xs) (\<lambda>(sz, xs).
         Some (\<lparr>h_offset = offset, h_size = sz\<rparr>, xs)))"

definition ldb_handle_import :: "bytes \<Rightarrow> ldb_handle option" where
  "ldb_handle_import x = map_option fst (ldb_handle_read x)"

section \<open>The footer\<close>

record ldb_footer =
  ft_metaindex_handle :: ldb_handle
  ft_index_handle :: ldb_handle

definition ldb_footer_init :: ldb_footer where
  "ldb_footer_init = \<lparr>ft_metaindex_handle = ldb_handle_init, ft_index_handle = ldb_handle_init\<rparr>"

definition ldb_footer_write :: "ldb_footer \<Rightarrow> bytes" where
  "ldb_footer_write x =
     (let zp = ldb_handle_write (ft_metaindex_handle x) @ ldb_handle_write (ft_index_handle x);
          pad = 2 * LDB_HANDLE_SIZE - length zp
      in zp @ replicate pad 0 @ ldb_fixed64_write LDB_TABLE_MAGIC)"

definition ldb_footer_export :: "bytes \<Rightarrow> ldb_footer \<Rightarrow> bytes" where
  "ldb_footer_export z x = z @ ldb_footer_write x"

definition ldb_footer_read :: "bytes \<Rightarrow> (ldb_footer \<times> bytes) option" where
  "ldb_footer_read xs =
     (if length xs < LDB_FOOTER_SIZE then None
      else if ldb_fixed64_decode (drop (LDB_FOOTER_SIZE - 8) xs) \<noteq> LDB_TABLE_MAGIC then None
      else
        Option.bind (ldb_handle_read xs) (\<lambda>(metaindex_handle, ys).
          Option.bind (ldb_handle_read ys) (\<lambda>(index_handle, ys).
            Some (\<lparr>ft_metaindex_handle = metaindex_handle, ft_index_handle = index_handle\<rparr>, drop LDB_FOOTER_SIZE xs))))"

definition ldb_footer_import :: "bytes \<Rightarrow> ldb_footer option" where
  "ldb_footer_import x = map_option fst (ldb_footer_read x)"

section \<open>Reading a block\<close>

datatype ldb_compression = LDB_NO_COMPRESSION | LDB_SNAPPY_COMPRESSION

definition compression_code :: "ldb_compression \<Rightarrow> byte" where
  "compression_code type = (case type of LDB_NO_COMPRESSION \<Rightarrow> 0 | LDB_SNAPPY_COMPRESSION \<Rightarrow> 1)"

record ldb_contents =
  ct_data :: bytes
  ct_cachable :: bool
  ct_heap_allocated :: bool

definition ldb_contents_init :: ldb_contents where
  "ldb_contents_init = \<lparr>ct_data = [], ct_cachable = False, ct_heap_allocated = False\<rparr>"

record ldb_rfile =
  pf_mapped :: bool
  pf_pread :: "nat \<Rightarrow> nat \<Rightarrow> status \<times> bytes"

record ldb_readopt =
  ro_verify_checksums :: bool
  ro_fill_cache :: bool

definition ldb_readopt_default :: ldb_readopt where
  "ldb_readopt_default = \<lparr>ro_verify_checksums = False, ro_fill_cache = True\<rparr>"

definition ldb_read_block :: "ldb_rfile \<Rightarrow> ldb_readopt \<Rightarrow> ldb_handle \<Rightarrow> status + ldb_contents" where
  "ldb_read_block file options handle =
     (let result = ldb_contents_init in
      if unat (h_size handle) > 2 ^ 64 - 1 - LDB_TRAILER_SIZE then Inl CORRUPTION
      else
        (let n = unat (h_size handle); len = n + LDB_TRAILER_SIZE;
             (rc, contents) = pf_pread file len (unat (h_offset handle))
         in if rc \<noteq> OK then Inl rc
            else if length contents \<noteq> len then Inl IOERR
            else
              (let data = contents;
                   crc = ldb_crc32c_unmask (ldb_fixed32_decode (drop (n + 1) data));
                   actual = ldb_crc32c_value (take (n + 1) data)
               in if ro_verify_checksums options \<and> crc \<noteq> actual then Inl CORRUPTION
                  else if data ! n = compression_code LDB_NO_COMPRESSION then
                    (if pf_mapped file
                     then Inr (result\<lparr>ct_data := take n data, ct_heap_allocated := False, ct_cachable := False\<rparr>)
                     else Inr (result\<lparr>ct_data := take n data, ct_heap_allocated := True, ct_cachable := True\<rparr>))
                  else if data ! n = compression_code LDB_SNAPPY_COMPRESSION then
                    (case snappy_decode_size (take n data) of
                       None \<Rightarrow> Inl CORRUPTION
                     | Some ulength \<Rightarrow>
                         (case snappy_decode (take n data) of
                            None \<Rightarrow> Inl CORRUPTION
                          | Some ubuf \<Rightarrow>
                              Inr (result\<lparr>ct_data := take ulength ubuf, ct_heap_allocated := True, ct_cachable := True\<rparr>)))
                  else Inl CORRUPTION)))"

section \<open>Handles and footers round trip\<close>

lemma handle_read_write [wire_simps]: "ldb_handle_read (ldb_handle_write x @ rest) = Some (x, rest)"
  by (simp add: ldb_handle_read_def ldb_handle_write_def wire_simps)

lemma handle_import_export [wire_simps]: "ldb_handle_import (ldb_handle_export [] x) = Some x"
  using handle_read_write [of x "[]"] by (simp add: ldb_handle_import_def ldb_handle_export_def)

lemma varint64_size_le: "ldb_varint64_size x \<le> 10"
proof -
  have "unat x < 2 ^ (7 * k) \<Longrightarrow> 0 < k \<Longrightarrow> ldb_varint64_size_from n x < n + k" for k n and x :: u64
  proof (induction k arbitrary: x n)
    case (Suc k)
    show ?case
    proof (cases "128 \<le> x")
      case True
      have "unat x \<ge> 128" using True by (simp add: word_le_nat_alt)
      have "k \<noteq> 0"
      proof
        assume "k = 0"
        then show False using Suc.prems(1) \<open>unat x \<ge> 128\<close> by simp
      qed
      moreover have "unat (drop_bit 7 x) < 2 ^ (7 * k)"
        using Suc.prems(1) by (simp add: unat_drop_bit_word less_mult_imp_div_less power_add mult.commute)
      ultimately have "ldb_varint64_size_from (n + 1) (drop_bit 7 x) < n + 1 + k" using Suc.IH by blast
      then show ?thesis using True by (subst ldb_varint64_size_from.simps) simp
    next
      case False
      then show ?thesis by (subst ldb_varint64_size_from.simps) simp
    qed
  qed simp
  from this [of x 10 1] show ?thesis
    using less_trans [OF unat_u64_bound [of x], of "2 ^ 70"] by (simp add: ldb_varint64_size_def)
qed

lemma handle_write_length: "length (ldb_handle_write x) \<le> LDB_HANDLE_SIZE"
  using varint64_size_le [of "h_offset x"] varint64_size_le [of "h_size x"]
  by (simp add: ldb_handle_write_def len_simps LDB_HANDLE_SIZE_def)

lemma footer_write_length [len_simps]: "length (ldb_footer_write x) = LDB_FOOTER_SIZE"
  using handle_write_length [of "ft_metaindex_handle x"] handle_write_length [of "ft_index_handle x"]
  by (simp add: ldb_footer_write_def Let_def LDB_FOOTER_SIZE_def)

lemma footer_read_write [wire_simps]: "ldb_footer_read (ldb_footer_write x @ rest) = Some (x, rest)"
proof -
  have "drop (LDB_FOOTER_SIZE - 8) (ldb_footer_write x @ rest) = ldb_fixed64_write LDB_TABLE_MAGIC @ rest"
    using handle_write_length [of "ft_metaindex_handle x"] handle_write_length [of "ft_index_handle x"]
    by (simp add: ldb_footer_write_def Let_def LDB_FOOTER_SIZE_def)
  moreover have "length (ldb_footer_write x @ rest) = LDB_FOOTER_SIZE + length rest"
    by (simp add: footer_write_length)
  ultimately show ?thesis
    by (simp add: ldb_footer_read_def ldb_fixed64_write_eq ldb_fixed64_decode_append footer_write_length)
      (simp add: ldb_footer_write_def Let_def wire_simps)
qed

section \<open>Blocks in the file\<close>

definition block_trailer :: "bytes \<Rightarrow> ldb_compression \<Rightarrow> bytes" where
  "block_trailer data type = compression_code type #
     ldb_fixed32_write (ldb_crc32c_mask (ldb_crc32c_extend (ldb_crc32c_value data) [compression_code type]))"

definition stored_block :: "bytes \<Rightarrow> ldb_compression \<Rightarrow> bytes" where
  "stored_block data type = data @ block_trailer data type"

lemma length_stored_block [len_simps]: "length (stored_block data type) = length data + LDB_TRAILER_SIZE"
  by (simp add: stored_block_def block_trailer_def LDB_TRAILER_SIZE_def)

text \<open>A file whose reads return what is in it.\<close>

definition file_holds :: "ldb_rfile \<Rightarrow> bytes \<Rightarrow> bool" where
  "file_holds file content \<longleftrightarrow> (\<forall>len off. off \<le> length content \<longrightarrow> pf_pread file len off = (OK, take len (drop off content)))"

text \<open>The file over a byte list.\<close>

definition file_of :: "bytes \<Rightarrow> ldb_rfile" where
  "file_of content = \<lparr>pf_mapped = False, pf_pread = (\<lambda>len off. (OK, take len (drop off content)))\<rparr>"

lemma file_holds_file_of [simp]: "file_holds (file_of content) content"
  by (simp add: file_holds_def file_of_def)

lemma file_holds_part:
  assumes "file_holds file (pre @ part @ post)"
  shows "pf_pread file (length part) (length pre) = (OK, part)"
  using assms by (simp add: file_holds_def)

definition uncompressed :: "bytes \<Rightarrow> ldb_compression \<Rightarrow> bytes option" where
  "uncompressed data type =
     (case type of LDB_NO_COMPRESSION \<Rightarrow> Some data | LDB_SNAPPY_COMPRESSION \<Rightarrow> snappy_decode data)"

lemma read_stored_block:
  assumes "file_holds file (pre @ stored_block data type @ post)" "uncompressed data type = Some raw"
    and "length pre < 2 ^ 64" "length data + LDB_TRAILER_SIZE < 2 ^ 64"
    and "h = \<lparr>h_offset = word_of_nat (length pre), h_size = word_of_nat (length data)\<rparr>"
  shows "\<exists>contents. ldb_read_block file options h = Inr contents \<and> ct_data contents = raw"
proof -
  let ?s = "stored_block data type"
  have off: "unat (h_offset h) = length pre" and n: "unat (h_size h) = length data"
    using assms(3-5) by (simp_all add: LDB_TRAILER_SIZE_def)
  have read: "pf_pread file (length data + LDB_TRAILER_SIZE) (length pre) = (OK, ?s)"
    using file_holds_part [OF assms(1)] by (simp add: length_stored_block)
  have crc: "ldb_crc32c_unmask (ldb_fixed32_decode (drop (length data + 1) ?s)) = ldb_crc32c_value (take (length data + 1) ?s)"
    by (simp add: stored_block_def block_trailer_def ldb_fixed32_write_eq crc32c_unmask_mask ldb_crc32c_value_def crc32c_extend_append)
  have parts: "?s ! length data = compression_code type" "take (length data) ?s = data"
    by (simp_all add: stored_block_def block_trailer_def)
  have size_ok: "length data \<le> 2 ^ 64 - 1 - LDB_TRAILER_SIZE" using assms(4) by (simp add: LDB_TRAILER_SIZE_def)
  have size: "snappy_decode_size data = Some (length raw)" if "type = LDB_SNAPPY_COMPRESSION"
    using assms(2) that snappy_decoded_size by (simp add: uncompressed_def)
  show ?thesis
    using read crc parts size_ok assms(2) size
    by (cases type) (auto simp: ldb_read_block_def off n Let_def length_stored_block compression_code_def uncompressed_def)
qed

section \<open>Properties\<close>

lemma read_changed_block:
  assumes "file_holds file (pre @ (stored_block data type)[i := b] @ post)" "ro_verify_checksums options"
    and "i < length data + LDB_TRAILER_SIZE" "b \<noteq> stored_block data type ! i"
    and "length pre < 2 ^ 64" "length data + LDB_TRAILER_SIZE < 2 ^ 64"
    and "h = \<lparr>h_offset = word_of_nat (length pre), h_size = word_of_nat (length data)\<rparr>"
  shows "ldb_read_block file options h = Inl CORRUPTION"
proof -
  let ?s = "stored_block data type" and ?n = "length data"
  let ?t = "?s[i := b]"
  have off: "unat (h_offset h) = length pre" and n: "unat (h_size h) = ?n"
    using assms(5-7) by (simp_all add: LDB_TRAILER_SIZE_def)
  have len: "length ?t = ?n + LDB_TRAILER_SIZE" by (simp add: length_stored_block)
  have read: "pf_pread file (?n + LDB_TRAILER_SIZE) (length pre) = (OK, ?t)"
    using file_holds_part [OF assms(1)] unfolding len .
  have crc: "ldb_crc32c_unmask (ldb_fixed32_decode (drop (?n + 1) ?s)) = ldb_crc32c_value (take (?n + 1) ?s)"
    by (simp add: stored_block_def block_trailer_def ldb_fixed32_write_eq crc32c_unmask_mask ldb_crc32c_value_def crc32c_extend_append)
  have wrong: "ldb_crc32c_unmask (ldb_fixed32_decode (drop (?n + 1) ?t)) \<noteq> ldb_crc32c_value (take (?n + 1) ?t)"
  proof (cases "i < ?n + 1")
    case True
    then have "drop (?n + 1) ?t = drop (?n + 1) ?s" "take (?n + 1) ?t = (take (?n + 1) ?s)[i := b]"
      by (simp_all add: take_update_swap)
    moreover have "ldb_crc32c_value ((take (?n + 1) ?s)[i := b]) \<noteq> ldb_crc32c_value (take (?n + 1) ?s)"
      using True assms(4) by (intro crc32c_one_byte) (simp_all add: length_stored_block LDB_TRAILER_SIZE_def)
    ultimately show ?thesis using crc by simp
  next
    case False
    then have "drop (?n + 1) ?t = (drop (?n + 1) ?s)[i - (?n + 1) := b]" "take (?n + 1) ?t = take (?n + 1) ?s"
      by (simp_all add: drop_update_swap)
    moreover have "ldb_fixed32_decode ((drop (?n + 1) ?s)[i - (?n + 1) := b]) \<noteq> ldb_fixed32_decode (drop (?n + 1) ?s)"
      using False assms(3,4) by (intro fixed32_one_byte) (simp_all add: length_stored_block LDB_TRAILER_SIZE_def)
    ultimately show ?thesis using crc crc32c_mask_unmask by metis
  qed
  have small: "\<not> 2 ^ 64 - 1 - LDB_TRAILER_SIZE < ?n" using assms(6) by (simp add: LDB_TRAILER_SIZE_def)
  show ?thesis
    unfolding ldb_read_block_def off n Let_def read using wrong
    by (simp only: small len assms(2) prod.case fst_conv snd_conv if_True if_False refl not_True_eq_False simp_thms)
qed

lemma read_cut_block:
  assumes "file_holds file (take m (pre @ stored_block data type @ post))" "length pre \<le> m" "m < length pre + length data + LDB_TRAILER_SIZE"
    and "length pre < 2 ^ 64" "length data + LDB_TRAILER_SIZE < 2 ^ 64"
    and "h = \<lparr>h_offset = word_of_nat (length pre), h_size = word_of_nat (length data)\<rparr>"
  shows "ldb_read_block file options h = Inl IOERR"
proof -
  let ?c = "take m (pre @ stored_block data type @ post)"
  have off: "unat (h_offset h) = length pre" and n: "unat (h_size h) = length data"
    using assms(4-6) by (simp_all add: LDB_TRAILER_SIZE_def)
  have "length pre \<le> length ?c" using assms(2) by simp
  then have read: "pf_pread file (length data + LDB_TRAILER_SIZE) (length pre) = (OK, take (length data + LDB_TRAILER_SIZE) (drop (length pre) ?c))"
    using assms(1) by (simp add: file_holds_def)
  define got where "got = take (length data + LDB_TRAILER_SIZE) (drop (length pre) ?c)"
  have short: "length got \<noteq> length data + LDB_TRAILER_SIZE"
    using assms(2,3) by (simp add: got_def length_stored_block)
  have small: "\<not> 2 ^ 64 - 1 - LDB_TRAILER_SIZE < length data" using assms(5) by (simp add: LDB_TRAILER_SIZE_def)
  show ?thesis
    unfolding ldb_read_block_def off n Let_def read [folded got_def] using short
    by (simp only: small prod.case if_True if_False refl not_True_eq_False not_False_eq_True)
qed

text \<open>C16: a stored block is protected by its checksum trailer.  With every read option, and compressed or not,
  reading at the handle of the block in a file that holds it returns the original contents.  When any one byte of the
  block, its type or its checksum is another, reading with verification reports corruption; and when the
  file ends before the trailer does, every read fails.\<close>

theorem stored_block_roundtrip:
  assumes "file_holds file (pre @ stored_block data type @ post)" "uncompressed data type = Some raw"
    and "length pre < 2 ^ 64" "length data + LDB_TRAILER_SIZE < 2 ^ 64"
    and "h = \<lparr>h_offset = word_of_nat (length pre), h_size = word_of_nat (length data)\<rparr>"
  shows "(\<exists>contents. ldb_read_block file options h = Inr contents \<and> ct_data contents = raw) \<and>
    (\<forall>changed i b. i < length (stored_block data type) \<and> b \<noteq> stored_block data type ! i \<and> ro_verify_checksums options \<and>
       file_holds changed (pre @ (stored_block data type)[i := b] @ post) \<longrightarrow>
       ldb_read_block changed options h = Inl CORRUPTION) \<and>
    (\<forall>cut m. length pre \<le> m \<and> m < length pre + length (stored_block data type) \<and>
       file_holds cut (take m (pre @ stored_block data type @ post)) \<longrightarrow>
       ldb_read_block cut options h = Inl IOERR)"
  using read_stored_block [OF assms] read_changed_block [OF _ _ _ _ assms(3-5)] read_cut_block [OF _ _ _ assms(3-5)]
  unfolding length_stored_block add.assoc by blast

theorem stored_block_roundtrip_witness:
  "let stored = stored_block [1, 2, 3] LDB_NO_COMPRESSION; h = \<lparr>h_offset = 0, h_size = 3\<rparr>; verify = ldb_readopt_default\<lparr>ro_verify_checksums := True\<rparr>
   in (\<exists>contents. ldb_read_block (file_of stored) verify h = Inr contents \<and> ct_data contents = [1, 2, 3]) \<and>
      ldb_read_block (file_of (stored[1 := 7])) verify h = Inl CORRUPTION \<and>
      ldb_read_block (file_of (take 7 stored)) verify h = Inl IOERR"
proof -
  define stored where "stored = stored_block [1, 2, 3] LDB_NO_COMPRESSION"
  define verify where "verify = ldb_readopt_default\<lparr>ro_verify_checksums := True\<rparr>"
  have at: "stored ! 1 = 2" "length stored = 8" "ro_verify_checksums verify"
    by (simp_all add: stored_def stored_block_def block_trailer_def verify_def)
  have "(\<exists>contents. ldb_read_block (file_of stored) verify \<lparr>h_offset = 0, h_size = 3\<rparr> = Inr contents \<and> ct_data contents = [1, 2, 3]) \<and>
    (\<forall>changed i b. i < length stored \<and> b \<noteq> stored ! i \<and> ro_verify_checksums verify \<and> file_holds changed ([] @ stored[i := b] @ []) \<longrightarrow>
       ldb_read_block changed verify \<lparr>h_offset = 0, h_size = 3\<rparr> = Inl CORRUPTION) \<and>
    (\<forall>cut m. length ([] :: bytes) \<le> m \<and> m < length ([] :: bytes) + length stored \<and> file_holds cut (take m ([] @ stored @ [])) \<longrightarrow>
       ldb_read_block cut verify \<lparr>h_offset = 0, h_size = 3\<rparr> = Inl IOERR)"
    unfolding stored_def by (rule stored_block_roundtrip) (simp_all add: uncompressed_def LDB_TRAILER_SIZE_def)
  moreover have "file_holds (file_of (stored[1 := 7])) ([] @ stored[1 := 7] @ [])" "file_holds (file_of (take 7 stored)) (take 7 ([] @ stored @ []))"
    by (simp_all add: file_holds_file_of)
  moreover have "1 < length stored" "(7 :: byte) \<noteq> stored ! 1" "length ([] :: bytes) \<le> 7" "7 < length ([] :: bytes) + length stored"
    using at by simp_all
  ultimately have "(\<exists>contents. ldb_read_block (file_of stored) verify \<lparr>h_offset = 0, h_size = 3\<rparr> = Inr contents \<and> ct_data contents = [1, 2, 3])"
    "ldb_read_block (file_of (stored[1 := 7])) verify \<lparr>h_offset = 0, h_size = 3\<rparr> = Inl CORRUPTION"
    "ldb_read_block (file_of (take 7 stored)) verify \<lparr>h_offset = 0, h_size = 3\<rparr> = Inl IOERR"
    using at(3) by blast+
  then show ?thesis unfolding Let_def stored_def verify_def by blast
qed

text \<open>Handles and footers survive encoding, the footer has its fixed size, and both ignore what
  follows them.\<close>

lemma footer_codec:
  "ldb_handle_read (ldb_handle_write h @ rest) = Some (h, rest) \<and>
   ldb_footer_read (ldb_footer_write f @ rest) = Some (f, rest) \<and> length (ldb_footer_write f) = LDB_FOOTER_SIZE"
  by (simp add: handle_read_write footer_read_write footer_write_length)

end
