(* ===== verification/Bloom.thy ===== *)
theory Bloom
  imports Dbformat
begin

text \<open>
  The hash function of \<^verbatim>\<open>engine/src/util/hash.c\<close>, the bloom filter policy of
  \<^verbatim>\<open>engine/src/util/bloom.c\<close> and the filter policy for internal keys of
  \<^verbatim>\<open>engine/src/dbformat.c\<close>.  The two methods of a policy receive the policy itself
  in the C code; here they receive its numeric members, and the policy for internal
  keys closes over the user policy it wraps.  \<open>filter_policy\<close> is the contract the
  filter blocks rely on: a filter is appended to the output and matches every key it
  was built from.
\<close>

section \<open>The hash function\<close>

fun hash_words :: "u32 \<Rightarrow> bytes \<Rightarrow> u32 \<times> bytes" where
  "hash_words h (a # b # c # d # data) =
     (let w = ldb_fixed32_decode [a, b, c, d];
          h = (h + w) * 0xc6a4a793
      in hash_words (h XOR drop_bit 16 h) data)"
| "hash_words h data = (h, data)"

definition ldb_hash :: "bytes \<Rightarrow> u32 \<Rightarrow> u32" where
  "ldb_hash data seed =
     (let m = 0xc6a4a793; r = 24;
          (h, data) = hash_words (seed XOR word_of_nat (length data) * m) data;
          h = (if length data = 3 then h + push_bit 16 (ucast (data ! 2)) else h);
          h = (if length data = 3 \<or> length data = 2 then h + push_bit 8 (ucast (data ! 1)) else h)
      in if length data = 3 \<or> length data = 2 \<or> length data = 1
         then (let h = (h + ucast (data ! 0)) * m in h XOR drop_bit r h)
         else h)"

section \<open>The bloom filter\<close>

record bloom_params =
  bl_bits_per_key :: nat
  bl_k :: nat

record ldb_bloom = bloom_params +
  bl_name :: string
  bl_build :: "bloom_params \<Rightarrow> bytes \<Rightarrow> bytes list \<Rightarrow> bytes"
  bl_match :: "bloom_params \<Rightarrow> bytes \<Rightarrow> bytes \<Rightarrow> bool"

definition bloom_hash :: "bytes \<Rightarrow> u32" where
  "bloom_hash key = ldb_hash key 0xbc9f1d34"

text \<open>The size in bytes; \<open>size_t\<close> has 64 bits.\<close>

definition bloom_size :: "bloom_params \<Rightarrow> nat \<Rightarrow> nat" where
  "bloom_size bloom n =
     (let bits = n * bl_bits_per_key bloom mod 2 ^ 64;
          bits = (if bits < 64 then 64 else bits)
      in (bits + 7) mod 2 ^ 64 div 8)"

definition bloom_delta :: "u32 \<Rightarrow> u32" where
  "bloom_delta hash = drop_bit 17 hash OR push_bit 15 hash"

primrec bloom_set :: "nat \<Rightarrow> u32 \<Rightarrow> u32 \<Rightarrow> nat \<Rightarrow> bytes \<Rightarrow> bytes" where
  "bloom_set 0 hash delta bits data = data"
| "bloom_set (Suc k) hash delta bits data =
     (let pos = unat hash mod bits
      in bloom_set k (hash + delta) delta bits
           (data[pos div 8 := data ! (pos div 8) OR push_bit (pos mod 8) 1]))"

definition bloom_add :: "bloom_params \<Rightarrow> nat \<Rightarrow> bytes \<Rightarrow> bytes \<Rightarrow> bytes" where
  "bloom_add bloom bits key data =
     (let hash = bloom_hash key; delta = bloom_delta hash
      in bloom_set (bl_k bloom) hash delta bits data)"

definition bloom_build :: "bloom_params \<Rightarrow> bytes \<Rightarrow> bytes list \<Rightarrow> bytes" where
  "bloom_build bloom dst keys =
     (let bytes = bloom_size bloom (length keys);
          bits = bytes * 8;
          data = replicate (bytes + 1) 0;
          data = fold (bloom_add bloom bits) keys data
      in dst @ data[bytes := word_of_nat (bl_k bloom)])"

primrec bloom_test :: "nat \<Rightarrow> u32 \<Rightarrow> u32 \<Rightarrow> nat \<Rightarrow> bytes \<Rightarrow> bool" where
  "bloom_test 0 hash delta bits data = True"
| "bloom_test (Suc k) hash delta bits data =
     (let pos = unat hash mod bits
      in if data ! (pos div 8) AND push_bit (pos mod 8) 1 = 0 then False
         else bloom_test k (hash + delta) delta bits data)"

definition bloom_match :: "bloom_params \<Rightarrow> bytes \<Rightarrow> bytes \<Rightarrow> bool" where
  "bloom_match bloom flt key =
     (let data = flt; len = length flt
      in if len < 2 then False
         else (let bits = (len - 1) * 8; k = unat (data ! (len - 1))
               in if k > 30 then True
                  else (let hash = bloom_hash key; delta = bloom_delta hash
                        in bloom_test k hash delta bits data)))"

definition bloom_default :: ldb_bloom where
  "bloom_default = \<lparr>bl_bits_per_key = 10, bl_k = 6, bl_name = ''leveldb.BuiltinBloomFilter2'',
     bl_build = bloom_build, bl_match = bloom_match\<rparr>"

text \<open>
  The product with 0.69 is truncated to an integer.  A negative argument has no
  defined conversion to \<open>size_t\<close>, so the argument is a natural number; from 44 on
  the upper limit applies, and below it no product is within a rounding error of
  an integer.
\<close>

definition ldb_bloom_init :: "nat \<Rightarrow> ldb_bloom" where
  "ldb_bloom_init bits_per_key =
     (let k = bits_per_key * 69 div 100;
          k = (if k < 1 then 1 else k);
          k = (if k > 30 then 30 else k)
      in \<lparr>bl_bits_per_key = bits_per_key, bl_k = k, bl_name = bl_name bloom_default,
          bl_build = bl_build bloom_default, bl_match = bl_match bloom_default\<rparr>)"

text \<open>The name of the meta index entry, when it fits in the buffer of the caller.\<close>

definition ldb_bloom_name :: "nat \<Rightarrow> ldb_bloom \<Rightarrow> string option" where
  "ldb_bloom_name sz bloom =
     (let name = bl_name bloom; len = length name
      in if 7 + len + 1 > sz then None else Some (''filter.'' @ name))"

definition ldb_bloom_build :: "ldb_bloom \<Rightarrow> bytes \<Rightarrow> bytes list \<Rightarrow> bytes" where
  "ldb_bloom_build bloom dst keys = bl_build bloom (bloom_params.truncate bloom) dst keys"

definition ldb_bloom_match :: "ldb_bloom \<Rightarrow> bytes \<Rightarrow> bytes \<Rightarrow> bool" where
  "ldb_bloom_match bloom flt key = bl_match bloom (bloom_params.truncate bloom) flt key"

section \<open>The policy for internal keys\<close>

definition ldb_ifp_build :: "ldb_bloom \<Rightarrow> bytes \<Rightarrow> bytes list \<Rightarrow> bytes" where
  "ldb_ifp_build user_policy dst keys =
     ldb_bloom_build user_policy dst (map (\<lambda>k. take (length k - 8) k) keys)"

definition ldb_ifp_match :: "ldb_bloom \<Rightarrow> bytes \<Rightarrow> bytes \<Rightarrow> bool" where
  "ldb_ifp_match user_policy flt key =
     (let k = ldb_extract_user_key key in ldb_bloom_match user_policy flt k)"

definition ldb_ifp_init :: "ldb_bloom \<Rightarrow> ldb_bloom" where
  "ldb_ifp_init user_policy =
     \<lparr>bl_bits_per_key = 0, bl_k = 0, bl_name = bl_name user_policy,
      bl_build = \<lambda>_. ldb_ifp_build user_policy, bl_match = \<lambda>_. ldb_ifp_match user_policy\<rparr>"

section \<open>Probes\<close>

text \<open>The bit at a position of a bit array, and the positions a key is mapped to.\<close>

definition bit_at :: "bytes \<Rightarrow> nat \<Rightarrow> bool" where
  "bit_at data p = bit (data ! (p div 8)) (p mod 8)"

primrec probe_list :: "nat \<Rightarrow> u32 \<Rightarrow> u32 \<Rightarrow> nat \<Rightarrow> nat list" where
  "probe_list 0 hash delta bits = []"
| "probe_list (Suc k) hash delta bits = unat hash mod bits # probe_list k (hash + delta) delta bits"

definition bloom_probes :: "nat \<Rightarrow> nat \<Rightarrow> bytes \<Rightarrow> nat set" where
  "bloom_probes k bits key = set (probe_list k (bloom_hash key) (bloom_delta (bloom_hash key)) bits)"

lemma and_one_bit: "x AND 2 ^ n = 0 \<longleftrightarrow> \<not> bit x n" for x :: byte
  by (rule and_exp_eq_0_iff_not_bit)

lemma bit_at_update:
  assumes "q < 8 * length data"
  shows "bit_at (data[q div 8 := data ! (q div 8) OR 2 ^ (q mod 8)]) p \<longleftrightarrow> bit_at data p \<or> p = q"
proof (cases "p div 8 = q div 8")
  case True
  have "q div 8 < length data" using assms by (simp add: less_mult_imp_div_less mult.commute)
  moreover have "p mod 8 = q mod 8 \<longleftrightarrow> p = q" using True by (metis mod_div_mult_eq)
  ultimately show ?thesis
    using True by (auto simp: bit_at_def bit_or_iff bit_exp_iff)
qed (auto simp: bit_at_def)

lemma probe_list_bound: "0 < bits \<Longrightarrow> p \<in> set (probe_list k hash delta bits) \<Longrightarrow> p < bits"
  by (induction k arbitrary: hash) auto

lemma length_bloom_set [simp]: "length (bloom_set k hash delta bits data) = length data"
  by (induction k arbitrary: hash data) (auto simp: Let_def)

lemma bit_at_bloom_set:
  "0 < bits \<Longrightarrow> bits \<le> 8 * length data \<Longrightarrow>
   bit_at (bloom_set k hash delta bits data) p \<longleftrightarrow> bit_at data p \<or> p \<in> set (probe_list k hash delta bits)"
proof (induction k arbitrary: hash data)
  case (Suc k)
  have "unat hash mod bits < 8 * length data" using Suc.prems mod_less_divisor [of bits] by (meson less_le_trans)
  then show ?case using Suc by (auto simp: Let_def bit_at_update)
qed simp

lemma bloom_test_iff:
  "bloom_test k hash delta bits data \<longleftrightarrow> (\<forall>p \<in> set (probe_list k hash delta bits). bit_at data p)"
  by (induction k arbitrary: hash) (auto simp: Let_def and_one_bit bit_at_def)

lemma bloom_add_keys:
  assumes "0 < bits" "bits \<le> 8 * length data"
  shows "length (fold (bloom_add bloom bits) keys data) = length data"
    and "bit_at (fold (bloom_add bloom bits) keys data) p \<longleftrightarrow>
           bit_at data p \<or> (\<exists>key \<in> set keys. p \<in> bloom_probes (bl_k bloom) bits key)"
  using assms
  by (induction keys arbitrary: data)
    (auto simp: bloom_add_def Let_def bit_at_bloom_set bloom_probes_def)

section \<open>What a filter matches\<close>

lemma bloom_size_pos:
  assumes "n * bl_bits_per_key bloom + 7 < 2 ^ 64"
  shows "8 \<le> bloom_size bloom n"
  using assms by (auto simp: bloom_size_def Let_def)

lemma bloom_build_appends: "bloom_build bloom dst keys = dst @ bloom_build bloom [] keys"
  by (simp add: bloom_build_def Let_def)

lemma length_bloom_build:
  "length keys * bl_bits_per_key bloom + 7 < 2 ^ 64 \<Longrightarrow> length (bloom_build bloom dst keys) = length dst + bloom_size bloom (length keys) + 1"
  using bloom_size_pos [of "length keys" bloom] by (simp add: bloom_build_def Let_def bloom_add_keys(1))

lemma bloom_match_build:
  assumes "length keys * bl_bits_per_key bloom + 7 < 2 ^ 64" "bl_k bloom \<le> 30"
  shows "bloom_match b (bloom_build bloom [] keys) key \<longleftrightarrow>
    bloom_probes (bl_k bloom) (8 * bloom_size bloom (length keys)) key \<subseteq>
      (\<Union>k \<in> set keys. bloom_probes (bl_k bloom) (8 * bloom_size bloom (length keys)) k)"
proof -
  define n where "n = bloom_size bloom (length keys)"
  define bits where "bits = n * 8"
  define data where "data = fold (bloom_add bloom bits) keys (replicate (n + 1) 0)"
  define flt where "flt = data[n := word_of_nat (bl_k bloom)]"
  have n: "8 \<le> n" using bloom_size_pos [OF assms(1)] by (simp add: n_def)
  then have bits: "0 < bits" "bits \<le> 8 * length (replicate (n + 1) (0::byte))" by (auto simp: bits_def)
  have len: "length data = n + 1" unfolding data_def using bloom_add_keys(1) [OF bits] by simp
  have build: "bloom_build bloom [] keys = flt"
    by (simp add: bloom_build_def Let_def flt_def data_def bits_def n_def)
  have k: "unat (flt ! n) = bl_k bloom" using assms(2) len by (simp add: flt_def)
  have at: "bit_at flt p \<longleftrightarrow> (\<exists>k \<in> set keys. p \<in> bloom_probes (bl_k bloom) bits k)" if "p < bits" for p
  proof -
    have "p div 8 < n" using that by (simp add: bits_def less_mult_imp_div_less)
    then have "bit_at flt p \<longleftrightarrow> bit_at data p" by (simp add: bit_at_def flt_def)
    also have "\<dots> \<longleftrightarrow> (\<exists>k \<in> set keys. p \<in> bloom_probes (bl_k bloom) bits k)"
      unfolding data_def bloom_add_keys(2) [OF bits] using that \<open>p div 8 < n\<close> by (simp add: bit_at_def del: replicate_Suc)
    finally show ?thesis .
  qed
  have "bloom_match b flt key \<longleftrightarrow> (\<forall>p \<in> bloom_probes (bl_k bloom) bits key. bit_at flt p)"
    using n len k assms(2)
    by (simp add: bloom_match_def Let_def bloom_test_iff bloom_probes_def bits_def flt_def)
  also have "\<dots> \<longleftrightarrow> bloom_probes (bl_k bloom) bits key \<subseteq> (\<Union>k \<in> set keys. bloom_probes (bl_k bloom) bits k)"
    using at probe_list_bound [OF bits(1)] by (auto simp: bloom_probes_def)
  finally show ?thesis by (simp add: build bits_def n_def mult.commute)
qed

section \<open>The contract of a policy\<close>

text \<open>The filter of a list of keys; a block without keys has an empty one.\<close>

definition policy_filter :: "ldb_bloom \<Rightarrow> bytes list \<Rightarrow> bytes" where
  "policy_filter policy keys = (if keys = [] then [] else ldb_bloom_build policy [] keys)"

locale filter_policy =
  fixes policy :: ldb_bloom and keys_ok :: "bytes list \<Rightarrow> bool"
  assumes build_appends: "ldb_bloom_build policy dst keys = dst @ ldb_bloom_build policy [] keys"
    and build_matches: "keys_ok keys \<Longrightarrow> key \<in> set keys \<Longrightarrow> ldb_bloom_match policy (ldb_bloom_build policy [] keys) key"
    and keys_ok_part: "keys_ok (xs @ ys @ zs) \<Longrightarrow> keys_ok ys"
begin

lemma filter_matches: "keys_ok keys \<Longrightarrow> key \<in> set keys \<Longrightarrow> ldb_bloom_match policy (policy_filter policy keys) key"
  using build_matches by (auto simp: policy_filter_def)

lemma filter_appended: "keys \<noteq> [] \<Longrightarrow> ldb_bloom_build policy dst keys = dst @ policy_filter policy keys"
  by (subst build_appends) (simp add: policy_filter_def)

end

definition bloom_keys_ok :: "nat \<Rightarrow> bytes list \<Rightarrow> bool" where
  "bloom_keys_ok bits_per_key keys \<longleftrightarrow> length keys * bits_per_key + 7 < 2 ^ 64"

lemma bloom_init_params:
  "bl_bits_per_key (ldb_bloom_init n) = n" "1 \<le> bl_k (ldb_bloom_init n)" "bl_k (ldb_bloom_init n) \<le> 30"
  by (simp_all add: ldb_bloom_init_def Let_def)

interpretation bloom_policy: filter_policy "ldb_bloom_init n" "bloom_keys_ok n" for n
proof
  show "ldb_bloom_build (ldb_bloom_init n) dst keys = dst @ ldb_bloom_build (ldb_bloom_init n) [] keys" for dst keys
    by (simp add: ldb_bloom_build_def ldb_bloom_init_def bloom_default_def Let_def flip: bloom_build_appends)
next
  fix keys key assume *: "bloom_keys_ok n keys" "key \<in> set keys"
  let ?p = "bloom_params.truncate (ldb_bloom_init n)"
  have "ldb_bloom_match (ldb_bloom_init n) (ldb_bloom_build (ldb_bloom_init n) [] keys) key =
      bloom_match ?p (bloom_build ?p [] keys) key"
    by (simp add: ldb_bloom_build_def ldb_bloom_match_def ldb_bloom_init_def bloom_default_def Let_def)
  also have "\<dots>"
    using * bloom_init_params [of n]
    by (subst bloom_match_build) (auto simp: bloom_keys_ok_def bloom_params.truncate_def)
  finally show "ldb_bloom_match (ldb_bloom_init n) (ldb_bloom_build (ldb_bloom_init n) [] keys) key" .
qed (simp add: bloom_keys_ok_def algebra_simps)

definition ikeys_ok :: "(bytes list \<Rightarrow> bool) \<Rightarrow> bytes list \<Rightarrow> bool" where
  "ikeys_ok keys_ok keys \<longleftrightarrow> (\<forall>k \<in> set keys. 8 \<le> length k) \<and> keys_ok (map ldb_extract_user_key keys)"

text \<open>Wrapping a policy for internal keys keeps the contract.\<close>

lemma internal_filter_policy:
  assumes "filter_policy p ok"
  shows "filter_policy (ldb_ifp_init p) (ikeys_ok ok)"
proof -
  have build: "ldb_bloom_build (ldb_ifp_init p) dst keys = ldb_bloom_build p dst (map ldb_extract_user_key keys)" for dst keys
    by (simp add: ldb_bloom_build_def ldb_ifp_init_def ldb_ifp_build_def ldb_extract_user_key_def [abs_def])
  have match: "ldb_bloom_match (ldb_ifp_init p) f key = ldb_bloom_match p f (ldb_extract_user_key key)" for f key
    by (simp add: ldb_bloom_match_def ldb_ifp_init_def ldb_ifp_match_def)
  show ?thesis
  proof
    show "ldb_bloom_build (ldb_ifp_init p) dst keys = dst @ ldb_bloom_build (ldb_ifp_init p) [] keys" for dst keys
      unfolding build by (rule filter_policy.build_appends [OF assms])
  qed (auto simp: build match ikeys_ok_def intro!: filter_policy.build_matches [OF assms]
      dest: filter_policy.keys_ok_part [OF assms])
qed

interpretation internal_bloom: filter_policy "ldb_ifp_init (ldb_bloom_init n)" "ikeys_ok (bloom_keys_ok n)" for n
  by (rule internal_filter_policy [OF bloom_policy.filter_policy_axioms])

section \<open>Properties\<close>

text \<open>C34: a bloom filter matches a key exactly when every probe position of the key is a probe
  position of one of the keys the filter was built from; in particular it matches each of these keys.\<close>

theorem bloom_filter_exact:
  assumes "bloom_keys_ok n keys"
  shows "ldb_bloom_match (ldb_bloom_init n) (ldb_bloom_build (ldb_bloom_init n) [] keys) key \<longleftrightarrow>
    (let k = bl_k (ldb_bloom_init n); bits = length (ldb_bloom_build (ldb_bloom_init n) [] keys) * 8 - 8
     in bloom_probes k bits key \<subseteq> (\<Union>k' \<in> set keys. bloom_probes k bits k'))"
proof -
  let ?p = "bloom_params.truncate (ldb_bloom_init n)"
  have ok: "length keys * bl_bits_per_key ?p + 7 < 2 ^ 64" "bl_k ?p \<le> 30"
    using assms bloom_init_params [of n] by (auto simp: bloom_keys_ok_def bloom_params.truncate_def)
  have build: "ldb_bloom_build (ldb_bloom_init n) [] keys = bloom_build ?p [] keys"
    by (simp add: ldb_bloom_build_def ldb_bloom_init_def bloom_default_def Let_def)
  have "length (bloom_build ?p [] keys) = bloom_size ?p (length keys) + 1"
    using length_bloom_build [OF ok(1)] by simp
  moreover have "ldb_bloom_match (ldb_bloom_init n) f key = bloom_match ?p f key" for f
    by (simp add: ldb_bloom_match_def ldb_bloom_init_def bloom_default_def Let_def)
  moreover have "bl_k ?p = bl_k (ldb_bloom_init n)" by (simp add: bloom_params.truncate_def)
  ultimately show ?thesis using bloom_match_build [OF ok] by (simp add: build Let_def mult.commute)
qed

theorem bloom_filter_exact_witness:
  "ldb_bloom_match (ldb_bloom_init 10) (ldb_bloom_build (ldb_bloom_init 10) [] [[104], [105]]) [105]"
  using bloom_filter_exact [of 10 "[[104], [105]]" "[105]"] by (auto simp: bloom_keys_ok_def Let_def)

end
