(* ===== verification/Filter_Block.thy ===== *)
theory Filter_Block
  imports Bloom
begin

text \<open>
  The filter blocks of \<^verbatim>\<open>engine/src/table/filter_block.c\<close>: a table keeps one filter for
  every 2 KB of its data, indexed by the offset of the data block.  The builder state
  is followed by two lists of key lists, the filters generated so far and the keys that
  wait for the next one; a reader then finds, for each block offset, a filter built
  from the keys of the block.  The scratch array \<open>tmp_keys\<close> of the builder is a local
  value.
\<close>

section \<open>The builder\<close>

definition LDB_FILTER_BASE_LG :: nat where
  "LDB_FILTER_BASE_LG = 11"

definition LDB_FILTER_BASE :: nat where
  "LDB_FILTER_BASE = 2 ^ LDB_FILTER_BASE_LG"

record ldb_filtergen =
  fb_policy :: ldb_bloom
  fb_keys :: bytes
  fb_start :: "nat list"
  fb_result :: bytes
  fb_filter_offsets :: "nat list"

definition ldb_filtergen_init :: "ldb_bloom \<Rightarrow> ldb_filtergen" where
  "ldb_filtergen_init policy =
     \<lparr>fb_policy = policy, fb_keys = [], fb_start = [], fb_result = [], fb_filter_offsets = []\<rparr>"

definition ldb_filtergen_generate :: "ldb_filtergen \<Rightarrow> ldb_filtergen" where
  "ldb_filtergen_generate fb =
     (let num_keys = length (fb_start fb) in
      if num_keys = 0 then fb\<lparr>fb_filter_offsets := fb_filter_offsets fb @ [length (fb_result fb)]\<rparr>
      else
        (let start = fb_start fb @ [length (fb_keys fb)];
             tmp_keys = map (\<lambda>i. take (start ! (i + 1) - start ! i) (drop (start ! i) (fb_keys fb))) [0..<num_keys]
         in fb\<lparr>fb_filter_offsets := fb_filter_offsets fb @ [length (fb_result fb)],
               fb_result := ldb_bloom_build (fb_policy fb) (fb_result fb) tmp_keys,
               fb_keys := [], fb_start := []\<rparr>))"

text \<open>The loop of \<open>ldb_filtergen_start_block\<close>.\<close>

lemma generate_offsets [simp]:
  "length (fb_filter_offsets (ldb_filtergen_generate fb)) = length (fb_filter_offsets fb) + 1"
  by (simp add: ldb_filtergen_generate_def Let_def)

function start_block_loop :: "nat \<Rightarrow> ldb_filtergen \<Rightarrow> ldb_filtergen" where
  "start_block_loop filter_index fb =
     (if filter_index > length (fb_filter_offsets fb)
      then start_block_loop filter_index (ldb_filtergen_generate fb) else fb)"
  by pat_completeness auto
termination
  by (relation "measure (\<lambda>(filter_index, fb). filter_index - length (fb_filter_offsets fb))") auto

declare start_block_loop.simps [simp del]

definition ldb_filtergen_start_block :: "ldb_filtergen \<Rightarrow> nat \<Rightarrow> ldb_filtergen" where
  "ldb_filtergen_start_block fb block_offset = start_block_loop (block_offset div LDB_FILTER_BASE) fb"

definition ldb_filtergen_add_key :: "ldb_filtergen \<Rightarrow> bytes \<Rightarrow> ldb_filtergen" where
  "ldb_filtergen_add_key fb key =
     fb\<lparr>fb_start := fb_start fb @ [length (fb_keys fb)], fb_keys := fb_keys fb @ key\<rparr>"

definition ldb_filtergen_finish :: "ldb_filtergen \<Rightarrow> bytes \<times> ldb_filtergen" where
  "ldb_filtergen_finish fb =
     (let fb = (if length (fb_start fb) > 0 then ldb_filtergen_generate fb else fb);
          array_offset = word_of_nat (length (fb_result fb));
          result = fold (\<lambda>x result. result @ ldb_fixed32_write (word_of_nat x)) (fb_filter_offsets fb) (fb_result fb);
          result = result @ ldb_fixed32_write array_offset;
          result = result @ [word_of_nat LDB_FILTER_BASE_LG]
      in (result, fb\<lparr>fb_result := result\<rparr>))"

section \<open>The reader\<close>

text \<open>\<open>fr_offset\<close> is the distance of the C pointers \<open>offset\<close> and \<open>data\<close>.\<close>

record ldb_filter =
  fr_policy :: ldb_bloom
  fr_data :: bytes
  fr_offset :: nat
  fr_num :: nat
  fr_base_lg :: nat

definition ldb_filter_init :: "ldb_bloom \<Rightarrow> bytes \<Rightarrow> ldb_filter" where
  "ldb_filter_init policy contents =
     (let fr = \<lparr>fr_policy = policy, fr_data = [], fr_offset = 0, fr_num = 0, fr_base_lg = 0\<rparr>;
          n = length contents
      in if n < 5 then fr
         else (let fr = fr\<lparr>fr_base_lg := unat (contents ! (n - 1) AND 63)\<rparr>;
                   last_word = unat (ldb_fixed32_decode (drop (n - 5) contents))
               in if last_word > n - 5 then fr
                  else fr\<lparr>fr_data := contents, fr_offset := last_word, fr_num := (n - 5 - last_word) div 4\<rparr>))"

definition ldb_filter_matches :: "ldb_filter \<Rightarrow> nat \<Rightarrow> bytes \<Rightarrow> bool" where
  "ldb_filter_matches fr block_offset key =
     (let index = drop_bit (fr_base_lg fr) block_offset in
      if index < fr_num fr then
        (let start = unat (ldb_fixed32_decode (drop (fr_offset fr + index * 4) (fr_data fr)));
             limit = unat (ldb_fixed32_decode (drop (fr_offset fr + index * 4 + 4) (fr_data fr)))
         in if start \<le> limit \<and> limit \<le> fr_offset fr
            then ldb_bloom_match (fr_policy fr) (take (limit - start) (drop start (fr_data fr))) key
            else if start = limit then False else True)
      else True)"

section \<open>Offsets of the parts of a concatenation\<close>

definition part_offsets :: "'a list list \<Rightarrow> nat list" where
  "part_offsets xss = map (\<lambda>i. length (concat (take i xss))) [0..<length xss]"

lemma part_offsets_Nil [simp]: "part_offsets [] = []"
  by (simp add: part_offsets_def)

lemma length_part_offsets [simp]: "length (part_offsets xss) = length xss"
  by (simp add: part_offsets_def)

lemma part_offsets_snoc: "part_offsets (xss @ [xs]) = part_offsets xss @ [length (concat xss)]"
  by (simp add: part_offsets_def)

lemma part_offsets_nth:
  "i \<le> length xss \<Longrightarrow> (part_offsets xss @ [length (concat xss)]) ! i = length (concat (take i xss))"
  by (auto simp: part_offsets_def nth_append)

lemma concat_part:
  assumes "i < length xss"
  shows "take (length (concat (take (Suc i) xss)) - length (concat (take i xss)))
    (drop (length (concat (take i xss))) (concat xss @ ys)) = xss ! i"
proof -
  have "concat xss = concat (take i xss) @ xss ! i @ concat (drop (Suc i) xss)"
    using assms by (metis concat.simps(2) concat_append id_take_nth_drop)
  then show ?thesis by (simp add: take_Suc_conv_app_nth [OF assms])
qed

lemma concat_take_le: "length (concat (take i xss)) \<le> length (concat xss)"
  by (metis append_take_drop_id concat_append le_add1 length_append)

lemma concat_take_mono: "i \<le> j \<Longrightarrow> length (concat (take i xss)) \<le> length (concat (take j xss))"
  using concat_take_le [of i "take j xss"] by (simp add: min_def)

lemma fold_append_concat: "fold (\<lambda>x z. z @ f x) xs z = z @ concat (map f xs)"
  by (induction xs arbitrary: z) auto

lemma fixed32_array_nth:
  assumes "i < length xs"
  shows "ldb_fixed32_decode (drop (4 * i) (concat (map (\<lambda>x. ldb_fixed32_write (word_of_nat x)) xs) @ ys)) =
    word_of_nat (xs ! i)"
  using assms
proof (induction xs arbitrary: i)
  case (Cons x xs)
  show ?case
  proof (cases i)
    case 0
    then show ?thesis by (simp add: ldb_fixed32_write_eq ldb_fixed32_decode_append)
  next
    case (Suc j)
    then show ?thesis using Cons by (simp add: ldb_fixed32_write_eq)
  qed
qed simp

section \<open>What the builder holds\<close>

definition filtergen_holds :: "ldb_bloom \<Rightarrow> ldb_filtergen \<Rightarrow> bytes list list \<Rightarrow> bytes list \<Rightarrow> bool" where
  "filtergen_holds policy fb done_ks pending \<longleftrightarrow>
     fb_policy fb = policy \<and>
     fb_keys fb = concat pending \<and> fb_start fb = part_offsets pending \<and>
     fb_result fb = concat (map (policy_filter policy) done_ks) \<and>
     fb_filter_offsets fb = part_offsets (map (policy_filter policy) done_ks)"

lemma filtergen_holds_init [simp]: "filtergen_holds policy (ldb_filtergen_init policy) [] []"
  by (simp add: filtergen_holds_def ldb_filtergen_init_def part_offsets_def)

lemma filtergen_holds_add:
  "filtergen_holds policy fb done_ks pending \<Longrightarrow> filtergen_holds policy (ldb_filtergen_add_key fb key) done_ks (pending @ [key])"
  by (simp add: filtergen_holds_def ldb_filtergen_add_key_def part_offsets_snoc)

lemma generate_keys:
  "map (\<lambda>i. take ((part_offsets xss @ [length (concat xss)]) ! (i + 1) - (part_offsets xss @ [length (concat xss)]) ! i)
     (drop ((part_offsets xss @ [length (concat xss)]) ! i) (concat xss))) [0..<length xss] = xss"
proof (rule nth_equalityI)
  fix i assume "i < length (map (\<lambda>i. take ((part_offsets xss @ [length (concat xss)]) ! (i + 1) -
      (part_offsets xss @ [length (concat xss)]) ! i)
      (drop ((part_offsets xss @ [length (concat xss)]) ! i) (concat xss))) [0..<length xss])"
  then have i: "i < length xss" by simp
  then show "map (\<lambda>i. take ((part_offsets xss @ [length (concat xss)]) ! (i + 1) -
      (part_offsets xss @ [length (concat xss)]) ! i)
      (drop ((part_offsets xss @ [length (concat xss)]) ! i) (concat xss))) [0..<length xss] ! i = xss ! i"
    using concat_part [OF i, of "[]"] by (simp add: part_offsets_nth del: concat_append)
qed simp

text \<open>The calls for one data block and for a sequence of blocks, \<open>(start_block add_key*)*\<close>.\<close>

definition filtergen_block :: "nat \<times> bytes list \<Rightarrow> ldb_filtergen \<Rightarrow> ldb_filtergen" where
  "filtergen_block b fb =
     fold (\<lambda>key fb. ldb_filtergen_add_key fb key) (snd b) (ldb_filtergen_start_block fb (fst b))"

definition filtergen_blocks :: "ldb_bloom \<Rightarrow> (nat \<times> bytes list) list \<Rightarrow> ldb_filtergen" where
  "filtergen_blocks policy bs = fold filtergen_block bs (ldb_filtergen_init policy)"

context filter_policy
begin

lemma holds_generate:
  assumes "filtergen_holds policy fb done_ks pending"
  shows "filtergen_holds policy (ldb_filtergen_generate fb) (done_ks @ [pending]) []"
proof (cases "pending = []")
  case True
  then show ?thesis
    using assms by (simp add: filtergen_holds_def ldb_filtergen_generate_def part_offsets_snoc policy_filter_def)
next
  case False
  then show ?thesis
    using assms generate_keys [of pending]
    by (simp add: filtergen_holds_def ldb_filtergen_generate_def part_offsets_snoc filter_appended Let_def)
qed

lemma holds_start_block:
  assumes "filtergen_holds policy fb done_ks pending" "length done_ks \<le> off div LDB_FILTER_BASE"
  shows "\<exists>done' pending'. filtergen_holds policy (ldb_filtergen_start_block fb off) done' pending' \<and>
    length done' = off div LDB_FILTER_BASE \<and>
    done' @ [pending'] = (done_ks @ [pending]) @ replicate (off div LDB_FILTER_BASE - length done_ks) []"
proof -
  have "filtergen_holds policy fb done_ks pending \<Longrightarrow> length done_ks \<le> n \<Longrightarrow>
     \<exists>done' pending'. filtergen_holds policy (start_block_loop n fb) done' pending' \<and> length done' = n \<and>
       done' @ [pending'] = (done_ks @ [pending]) @ replicate (n - length done_ks) []" for n
  proof (induction n fb arbitrary: done_ks pending rule: start_block_loop.induct)
    case (1 n fb)
    have len: "length (fb_filter_offsets fb) = length done_ks" using 1(2) by (simp add: filtergen_holds_def)
    show ?case
    proof (cases "length done_ks < n")
      case True
      then have "\<exists>done' pending'. filtergen_holds policy (start_block_loop n (ldb_filtergen_generate fb)) done' pending' \<and>
          length done' = n \<and> done' @ [pending'] = ((done_ks @ [pending]) @ [[]]) @ replicate (n - length (done_ks @ [pending])) []"
        using 1(1) [OF _ holds_generate [OF 1(2)]] len by simp
      moreover have "[[]] @ replicate (n - length (done_ks @ [pending])) [] = replicate (n - length done_ks) []"
        using True by (simp add: Suc_diff_Suc flip: replicate_Suc)
      moreover have "start_block_loop n fb = start_block_loop n (ldb_filtergen_generate fb)"
        using True len by (subst start_block_loop.simps) simp
      ultimately show ?thesis by (metis append.assoc)
    next
      case False
      then show ?thesis using 1(2,3) len by (subst start_block_loop.simps) auto
    qed
  qed
  from this [OF assms] show ?thesis unfolding ldb_filtergen_start_block_def by auto
qed

lemma holds_add_keys:
  "filtergen_holds policy fb done_ks pending \<Longrightarrow>
   filtergen_holds policy (fold (\<lambda>key fb. ldb_filtergen_add_key fb key) keys fb) done_ks (pending @ keys)"
proof (induction keys arbitrary: fb pending)
  case (Cons key keys)
  then show ?case using Cons.IH [OF filtergen_holds_add [OF Cons.prems]] by simp
qed simp

text \<open>One data block: its start, then its keys.\<close>

lemma holds_block:
  assumes "filtergen_holds policy fb done_ks pending" "length done_ks \<le> off div LDB_FILTER_BASE"
  shows "\<exists>done' pending'. filtergen_holds policy (filtergen_block (off, keys) fb) done' pending' \<and>
    length done' = off div LDB_FILTER_BASE \<and> set keys \<subseteq> set pending' \<and>
    concat (done' @ [pending']) = concat (done_ks @ [pending]) @ keys \<and>
    (\<forall>i \<le> length done_ks. set ((done_ks @ [pending]) ! i) \<subseteq> set ((done' @ [pending']) ! i))"
proof -
  obtain d p where holds: "filtergen_holds policy (ldb_filtergen_start_block fb off) d p"
    and len: "length d = off div LDB_FILTER_BASE"
    and eq: "d @ [p] = (done_ks @ [pending]) @ replicate (off div LDB_FILTER_BASE - length done_ks) []"
    using holds_start_block [OF assms] by blast
  have "set ((done_ks @ [pending]) ! i) \<subseteq> set ((d @ [p @ keys]) ! i)" if i: "i \<le> length done_ks" for i
  proof -
    have "(d @ [p]) ! i = (done_ks @ [pending]) ! i"
      unfolding eq using i by (subst nth_append_left) auto
    moreover have "set ((d @ [p]) ! i) \<subseteq> set ((d @ [p @ keys]) ! i)"
      using i assms(2) len by (auto simp: nth_append)
    ultimately show ?thesis by simp
  qed
  moreover have "concat (d @ [p @ keys]) = concat (done_ks @ [pending]) @ keys"
    using arg_cong [OF eq, of concat] by (simp add: concat_replicate_trivial)
  ultimately show ?thesis
    using holds_add_keys [OF holds, of keys] len assms(2)
    by (intro exI [of _ d] exI [of _ "p @ keys"]) (auto simp: filtergen_block_def)
qed

lemma holds_blocks:
  assumes "sorted (map fst bs)"
  shows "\<exists>done_ks pending. filtergen_holds policy (filtergen_blocks policy bs) done_ks pending \<and>
    (\<forall>b \<in> set bs. length done_ks \<ge> fst b div LDB_FILTER_BASE \<and>
       set (snd b) \<subseteq> set ((done_ks @ [pending]) ! (fst b div LDB_FILTER_BASE))) \<and>
    concat (done_ks @ [pending]) = concat (map snd bs) \<and>
    (bs = [] \<longrightarrow> done_ks = []) \<and> (bs \<noteq> [] \<longrightarrow> length done_ks = fst (last bs) div LDB_FILTER_BASE)"
  using assms
proof (induction bs rule: rev_induct)
  case Nil
  then show ?case by (intro exI [of _ "[]"]) (simp add: filtergen_blocks_def)
next
  case (snoc b bs)
  then obtain d p where IH: "filtergen_holds policy (filtergen_blocks policy bs) d p"
      "\<forall>b \<in> set bs. fst b div LDB_FILTER_BASE \<le> length d \<and> set (snd b) \<subseteq> set ((d @ [p]) ! (fst b div LDB_FILTER_BASE))"
      "concat (d @ [p]) = concat (map snd bs)" "bs = [] \<longrightarrow> d = []" "bs \<noteq> [] \<longrightarrow> length d = fst (last bs) div LDB_FILTER_BASE"
    by (auto simp: sorted_append)
  have "length d \<le> fst b div LDB_FILTER_BASE"
    using IH(4,5) snoc.prems by (cases "bs = []") (auto simp: sorted_append intro!: div_le_mono)
  from holds_block [OF IH(1) this, of "snd b"]
  obtain d' p' where new: "filtergen_holds policy (filtergen_block b (filtergen_blocks policy bs)) d' p'"
      "length d' = fst b div LDB_FILTER_BASE" "set (snd b) \<subseteq> set p'"
      "concat (d' @ [p']) = concat (d @ [p]) @ snd b"
      "\<forall>i \<le> length d. set ((d @ [p]) ! i) \<subseteq> set ((d' @ [p']) ! i)"
    by (metis prod.collapse)
  have "fst x div LDB_FILTER_BASE \<le> length d' \<and> set (snd x) \<subseteq> set ((d' @ [p']) ! (fst x div LDB_FILTER_BASE))"
    if "x \<in> set (bs @ [b])" for x
  proof (cases "x \<in> set bs")
    case True
    then have le: "fst x div LDB_FILTER_BASE \<le> length d"
      and sub: "set (snd x) \<subseteq> set ((d @ [p]) ! (fst x div LDB_FILTER_BASE))" using IH(2) by auto
    then have "set (snd x) \<subseteq> set ((d' @ [p']) ! (fst x div LDB_FILTER_BASE))" using new(5) by (meson subset_trans)
    then show ?thesis using le new(2) \<open>length d \<le> fst b div LDB_FILTER_BASE\<close> by linarith
  next
    case False
    then have "x = b" using that by simp
    then show ?thesis using new(2,3) by (metis dual_order.refl nth_append_length)
  qed
  then show ?case
    using new IH(3) by (intro exI [of _ d'] exI [of _ p']) (simp add: filtergen_blocks_def)
qed

end

section \<open>What the reader finds\<close>

lemma filter_reader:
  assumes "fb_filter_offsets fb = part_offsets fs" "fb_result fb = concat fs" "fb_start fb = []"
    and small: "length (fst (ldb_filtergen_finish fb)) < 2 ^ 32" and i: "i < length fs" "off div LDB_FILTER_BASE = i"
  shows "ldb_filter_matches (ldb_filter_init policy (fst (ldb_filtergen_finish fb))) off key =
    ldb_bloom_match policy (fs ! i) key"
proof -
  define contents where "contents = fst (ldb_filtergen_finish fb)"
  let ?w = "\<lambda>x. ldb_fixed32_write (word_of_nat x)"
  let ?offs = "part_offsets fs @ [length (concat fs)]"
  have contents: "contents = concat fs @ concat (map ?w ?offs) @ [11]"
    using assms(1-3) by (simp add: contents_def ldb_filtergen_finish_def Let_def fold_append_concat LDB_FILTER_BASE_LG_def)
  have lw: "length (concat (map ?w xs)) = 4 * length xs" for xs
    by (induction xs) (simp_all add: ldb_fixed32_write_eq)
  have n: "length contents = length (concat fs) + 4 * length fs + 5" by (simp only: contents length_append lw) simp
  have off: "unat (ldb_fixed32_decode (drop (length (concat fs) + 4 * j) contents)) = length (concat (take j fs))"
    if "j \<le> length fs" for j
  proof -
    have "length (concat (take j fs)) < 2 ^ 32"
      using concat_take_le [of j fs] small n by (simp add: contents_def)
    moreover have "drop (length (concat fs) + 4 * j) contents = drop (4 * j) (concat (map ?w ?offs) @ [11])"
      unfolding contents by simp
    moreover have "ldb_fixed32_decode (drop (4 * j) (concat (map ?w ?offs) @ [11])) = word_of_nat (?offs ! j)"
      by (rule fixed32_array_nth) (use that in simp)
    ultimately show ?thesis using that by (simp add: part_offsets_nth)
  qed
  have fr: "ldb_filter_init policy contents =
    \<lparr>fr_policy = policy, fr_data = contents, fr_offset = length (concat fs), fr_num = length fs, fr_base_lg = 11\<rparr>"
  proof -
    have "contents ! (length contents - 1) = 11" unfolding contents by (simp add: nth_append lw)
    moreover have "unat (ldb_fixed32_decode (drop (length contents - 5) contents)) = length (concat fs)"
      using off [of "length fs"] n by simp
    ultimately show ?thesis using n by (simp add: ldb_filter_init_def Let_def)
  qed
  have "take (length (concat (take (Suc i) fs)) - length (concat (take i fs)))
      (drop (length (concat (take i fs))) contents) = fs ! i"
    unfolding contents by (rule concat_part [OF i(1)])
  moreover have "drop_bit 11 off = i" using i(2) by (simp add: drop_bit_eq_div LDB_FILTER_BASE_def LDB_FILTER_BASE_LG_def)
  ultimately show ?thesis
    using i off [of i] off [of "Suc i"] concat_take_mono [of i "Suc i" fs] concat_take_le [of "Suc i" fs]
    unfolding contents_def [symmetric] fr ldb_filter_matches_def
    by (simp add: Let_def mult.commute add.assoc add.left_commute add.commute)
qed

context filter_policy
begin

lemma finish_generated:
  assumes "filtergen_holds policy fb done_ks pending"
  shows "\<exists>fb' ks. fst (ldb_filtergen_finish fb) = fst (ldb_filtergen_finish fb') \<and> filtergen_holds policy fb' ks [] \<and>
    ks = done_ks @ (if pending = [] then [] else [pending])"
proof (cases "pending = []")
  case False
  have gen: "filtergen_holds policy (ldb_filtergen_generate fb) (done_ks @ [pending]) []"
    by (rule holds_generate [OF assms])
  then have "fb_start (ldb_filtergen_generate fb) = []" by (simp add: filtergen_holds_def)
  moreover have "fb_start fb \<noteq> []" using assms False by (auto simp: filtergen_holds_def part_offsets_def)
  ultimately have "fst (ldb_filtergen_finish fb) = fst (ldb_filtergen_finish (ldb_filtergen_generate fb))"
    by (simp add: ldb_filtergen_finish_def Let_def)
  then show ?thesis using gen False by auto
qed (use assms in auto)

lemma blocks_match:
  assumes "sorted (map fst bs)" "keys_ok (concat (map snd bs))" "(off, keys) \<in> set bs" "key \<in> set keys"
    and small: "length (fst (ldb_filtergen_finish (filtergen_blocks policy bs))) < 2 ^ 32"
  shows "ldb_filter_matches (ldb_filter_init policy (fst (ldb_filtergen_finish (filtergen_blocks policy bs)))) off key"
proof -
  let ?i = "off div LDB_FILTER_BASE"
  obtain d p where dp: "filtergen_holds policy (filtergen_blocks policy bs) d p"
      "?i \<le> length d" "set keys \<subseteq> set ((d @ [p]) ! ?i)" "concat (d @ [p]) = concat (map snd bs)"
    using holds_blocks [OF assms(1)] assms(3) by fastforce
  obtain fb ks where fb: "fst (ldb_filtergen_finish (filtergen_blocks policy bs)) = fst (ldb_filtergen_finish fb)"
      "filtergen_holds policy fb ks []" "ks = d @ (if p = [] then [] else [p])"
    using finish_generated [OF dp(1)] by blast
  have "p \<noteq> []" if "?i = length d" using that dp(3) assms(4) by auto
  then have i: "?i < length ks" using dp(2) fb(3) by (cases "?i = length d") auto
  have ki: "(d @ [p]) ! ?i = ks ! ?i" using i fb(3) by (auto simp: nth_append)
  have "concat ks = concat (map snd bs)" using fb(3) dp(4) by (auto split: if_splits)
  then have "keys_ok (concat (take ?i ks) @ ks ! ?i @ concat (drop (Suc ?i) ks))"
    using assms(2) i by (metis concat.simps(2) concat_append id_take_nth_drop)
  then have ok: "keys_ok (ks ! ?i)" by (rule keys_ok_part)
  have "key \<in> set (ks ! ?i)" using dp(3) ki assms(4) by auto
  then have m: "ldb_bloom_match policy (policy_filter policy (ks ! ?i)) key" by (rule filter_matches [OF ok])
  have "ldb_filter_matches (ldb_filter_init policy (fst (ldb_filtergen_finish fb))) off key =
      ldb_bloom_match policy (map (policy_filter policy) ks ! ?i) key"
    using fb(2) small i unfolding fb(1) by (intro filter_reader) (auto simp: filtergen_holds_def)
  then show ?thesis using m i fb(1) by simp
qed

end

section \<open>Properties\<close>

text \<open>C10: a filter block never rules out a key that is in the table: for every data block that was
  started at its offset and given its keys, with the blocks in the order of their offsets, the reader of the
  finished filter block matches each of the keys at the offset of the block, for every policy that
  meets the contract.\<close>

theorem filter_block_no_false_negative:
  assumes "filter_policy policy keys_ok"
    and "sorted (map fst bs)" "keys_ok (concat (map snd bs))" "(off, keys) \<in> set bs" "key \<in> set keys"
    and "length (fst (ldb_filtergen_finish (filtergen_blocks policy bs))) < 2 ^ 32"
  shows "ldb_filter_matches (ldb_filter_init policy (fst (ldb_filtergen_finish (filtergen_blocks policy bs)))) off key"
  using filter_policy.blocks_match [OF assms] .

lemma ifp_build_length:
  "length (ldb_bloom_build (ldb_ifp_init (ldb_bloom_init 10)) dst [key]) = length dst + 9"
  by (simp add: ldb_bloom_build_def ldb_ifp_init_def ldb_ifp_build_def length_bloom_build bloom_size_def
      ldb_bloom_init_def bloom_default_def bloom_params.truncate_def Let_def)

theorem filter_block_no_false_negative_witness:
  "(let policy = ldb_ifp_init (ldb_bloom_init 10); bs = [(0, [replicate 9 97]), (5000, [replicate 9 98])]
    in ldb_filter_matches (ldb_filter_init policy (fst (ldb_filtergen_finish (filtergen_blocks policy bs)))) 5000 (replicate 9 98))"
proof -
  let ?p = "ldb_ifp_init (ldb_bloom_init 10)"
  let ?bs = "[(0, [replicate 9 97]), (5000, [replicate 9 98])] :: (nat \<times> bytes list) list"
  have "length (fst (ldb_filtergen_finish (filtergen_blocks ?p ?bs))) < 2 ^ 32"
    by (simp add: filtergen_blocks_def filtergen_block_def ldb_filtergen_init_def ldb_filtergen_start_block_def
        start_block_loop.simps ldb_filtergen_add_key_def ldb_filtergen_generate_def ldb_filtergen_finish_def
        LDB_FILTER_BASE_def LDB_FILTER_BASE_LG_def Let_def ifp_build_length)
  then show ?thesis
    using filter_block_no_false_negative [OF internal_bloom.filter_policy_axioms, of ?bs 10 5000 "[replicate 9 98]" "replicate 9 98"]
    by (simp add: ikeys_ok_def bloom_keys_ok_def Let_def)
qed

end
