(* ===== verification/Table_Builder.thy ===== *)
theory Table_Builder
  imports Table_Format Filter_Block Block Log
begin

text \<open>
  The table builder, \<^verbatim>\<open>engine/src/table/table_builder.c\<close>.  Sorted entries are collected in
  data blocks; each full block is written with its trailer and gets an entry in the index
  block, under a key that separates it from the next block.  The operations of the file
  are an argument.  \<open>None\<close> is a call of \<open>abort\<close>.  The options of the index block are
  shared with the block builder by pointer, so its restart interval is the 1 that is set
  after its initialisation.
\<close>

section \<open>Options\<close>

record ldb_dbopt =
  op_comparator :: ldb_comparator
  op_paranoid_checks :: bool
  op_block_size :: nat
  op_block_restart_interval :: nat
  op_compression :: ldb_compression
  op_filter_policy :: "ldb_bloom option"
  op_max_file_size :: nat

definition ldb_shortest_separator :: "ldb_comparator \<Rightarrow> bytes \<Rightarrow> bytes \<Rightarrow> bytes" where
  "ldb_shortest_separator cmp start limit =
     (case cmp_shortest_separator cmp of None \<Rightarrow> start | Some f \<Rightarrow> f start limit)"

definition ldb_short_successor :: "ldb_comparator \<Rightarrow> bytes \<Rightarrow> bytes" where
  "ldb_short_successor cmp key = (case cmp_short_successor cmp of None \<Rightarrow> key | Some f \<Rightarrow> f key)"

text \<open>\<open>ldb_slice_set_str\<close>\<close>

definition ldb_slice_set_str :: "string \<Rightarrow> bytes" where
  "ldb_slice_set_str xs = map of_char xs"

section \<open>The builder\<close>

record 'f ldb_tablegen =
  tg_options :: ldb_dbopt
  tg_file :: 'f
  tg_offset :: nat
  tg_status :: status
  tg_data_block :: ldb_blockgen
  tg_index_block :: ldb_blockgen
  tg_last_key :: bytes
  tg_num_entries :: nat
  tg_closed :: bool
  tg_filter_block :: "ldb_filtergen option"
  tg_pending_index_entry :: bool
  tg_pending_handle :: ldb_handle

definition ldb_tablegen_init :: "ldb_dbopt \<Rightarrow> 'f \<Rightarrow> 'f ldb_tablegen" where
  "ldb_tablegen_init options file =
     \<lparr>tg_options = options, tg_file = file, tg_offset = 0, tg_status = OK,
      tg_data_block = ldb_blockgen_init (op_block_restart_interval options),
      tg_index_block = ldb_blockgen_init 1,
      tg_last_key = [], tg_num_entries = 0, tg_closed = False,
      tg_filter_block = map_option (\<lambda>policy. ldb_filtergen_start_block (ldb_filtergen_init policy) 0)
        (op_filter_policy options),
      tg_pending_index_entry = False, tg_pending_handle = ldb_handle_init\<rparr>"

definition ldb_tablegen_create :: "ldb_dbopt \<Rightarrow> 'f \<Rightarrow> 'f ldb_tablegen" where
  "ldb_tablegen_create options file = ldb_tablegen_init options file"

definition ldb_tablegen_write_raw_block :: "'f wfile_ops \<Rightarrow> 'f ldb_tablegen \<Rightarrow> bytes \<Rightarrow> ldb_compression \<Rightarrow>
    ldb_handle \<times> 'f ldb_tablegen" where
  "ldb_tablegen_write_raw_block ops tb block_contents type =
     (let handle = \<lparr>h_offset = word_of_nat (tg_offset tb), h_size = word_of_nat (length block_contents)\<rparr>;
          (rc, file) = wf_append ops (tg_file tb) block_contents;
          tb = tb\<lparr>tg_file := file, tg_status := rc\<rparr>
      in if rc = OK then
           (let crc = ldb_crc32c_value block_contents;
                crc = ldb_crc32c_extend crc [compression_code type];
                trailer = compression_code type # ldb_fixed32_write (ldb_crc32c_mask crc);
                (rc, file) = wf_append ops (tg_file tb) trailer;
                tb = tb\<lparr>tg_file := file, tg_status := rc\<rparr>
            in (handle, if rc = OK then tb\<lparr>tg_offset := tg_offset tb + length block_contents + length trailer\<rparr> else tb))
         else (handle, tb))"

text \<open>The bytes that are stored for a block, and their type.\<close>

definition block_contents :: "ldb_compression \<Rightarrow> bytes \<Rightarrow> (bytes \<times> ldb_compression) option" where
  "block_contents type raw =
     (case type of
        LDB_NO_COMPRESSION \<Rightarrow> Some (raw, LDB_NO_COMPRESSION)
      | LDB_SNAPPY_COMPRESSION \<Rightarrow>
          Option.bind (snappy_encode_size (length raw)) (\<lambda>_.
            Option.bind (snappy_encode raw) (\<lambda>compressed.
              if length compressed < length raw - length raw div 8
              then Some (compressed, LDB_SNAPPY_COMPRESSION) else Some (raw, LDB_NO_COMPRESSION))))"

definition ldb_tablegen_write_block :: "'f wfile_ops \<Rightarrow> 'f ldb_tablegen \<Rightarrow> ldb_blockgen \<Rightarrow>
    (ldb_handle \<times> 'f ldb_tablegen \<times> ldb_blockgen) option" where
  "ldb_tablegen_write_block ops tb block =
     (let (raw, block) = ldb_blockgen_finish block in
      Option.bind (block_contents (op_compression (tg_options tb)) raw) (\<lambda>(contents, type).
        let (handle, tb) = ldb_tablegen_write_raw_block ops tb contents type
        in Some (handle, tb, ldb_blockgen_reset block)))"

definition ldb_tablegen_flush :: "'f wfile_ops \<Rightarrow> 'f ldb_tablegen \<Rightarrow> 'f ldb_tablegen option" where
  "ldb_tablegen_flush ops tb =
     (if tg_status tb \<noteq> OK then Some tb
      else if ldb_blockgen_empty (tg_data_block tb) then Some tb
      else Option.bind (ldb_tablegen_write_block ops tb (tg_data_block tb)) (\<lambda>(handle, tb, block).
        let tb = tb\<lparr>tg_pending_handle := handle, tg_data_block := block\<rparr>;
            tb = (if tg_status tb = OK then
                    (case wf_flush ops (tg_file tb) of
                       (rc, file) \<Rightarrow> tb\<lparr>tg_pending_index_entry := True, tg_file := file, tg_status := rc\<rparr>)
                  else tb)
        in Some (tb\<lparr>tg_filter_block :=
             map_option (\<lambda>fb. ldb_filtergen_start_block fb (tg_offset tb)) (tg_filter_block tb)\<rparr>)))"

text \<open>The index entry of the block that was written last.\<close>

definition add_index_entry :: "'f ldb_tablegen \<Rightarrow> bytes \<Rightarrow> 'f ldb_tablegen" where
  "add_index_entry tb key =
     (let handle_encoding = ldb_handle_export [] (tg_pending_handle tb)
      in tb\<lparr>tg_last_key := key, tg_index_block := ldb_blockgen_add (tg_index_block tb) key handle_encoding,
            tg_pending_index_entry := False\<rparr>)"

definition ldb_tablegen_add :: "'f wfile_ops \<Rightarrow> 'f ldb_tablegen \<Rightarrow> bytes \<Rightarrow> bytes \<Rightarrow> 'f ldb_tablegen option" where
  "ldb_tablegen_add ops tb key val =
     (if tg_status tb \<noteq> OK then Some tb
      else
        (let tb = (if tg_pending_index_entry tb
                   then add_index_entry tb (ldb_shortest_separator (op_comparator (tg_options tb)) (tg_last_key tb) key)
                   else tb);
             tb = tb\<lparr>tg_filter_block := map_option (\<lambda>fb. ldb_filtergen_add_key fb key) (tg_filter_block tb),
                     tg_last_key := key, tg_num_entries := tg_num_entries tb + 1,
                     tg_data_block := ldb_blockgen_add (tg_data_block tb) key val\<rparr>;
             estimated_block_size = ldb_blockgen_size_estimate (tg_data_block tb)
         in if estimated_block_size \<ge> op_block_size (tg_options tb) then ldb_tablegen_flush ops tb else Some tb))"

text \<open>The meta index block: the filter under its name; \<open>None\<close> when the name does not fit in 72 bytes.\<close>

definition metaindex_block :: "ldb_dbopt \<Rightarrow> ldb_handle option \<Rightarrow> ldb_blockgen option" where
  "metaindex_block options filter_handle =
     (let metaindex = ldb_blockgen_init (op_block_restart_interval options) in
      case (op_filter_policy options, filter_handle) of
        (Some policy, Some handle) \<Rightarrow>
          (case ldb_bloom_name 72 policy of
             None \<Rightarrow> None
           | Some name \<Rightarrow> Some (ldb_blockgen_add metaindex (ldb_slice_set_str name) (ldb_handle_export [] handle)))
      | _ \<Rightarrow> Some metaindex)"

text \<open>Filter block.\<close>

definition finish_filter :: "'f wfile_ops \<Rightarrow> 'f ldb_tablegen \<Rightarrow> ldb_handle option \<times> 'f ldb_tablegen" where
  "finish_filter ops tb =
     (if tg_status tb = OK then
        (case tg_filter_block tb of
           None \<Rightarrow> (None, tb)
         | Some fb \<Rightarrow>
             (case ldb_filtergen_finish fb of
                (contents, fb) \<Rightarrow>
                  (case ldb_tablegen_write_raw_block ops (tb\<lparr>tg_filter_block := Some fb\<rparr>) contents LDB_NO_COMPRESSION of
                     (handle, tb) \<Rightarrow> (Some handle, tb))))
      else (None, tb))"

text \<open>Index block.\<close>

definition finish_index :: "'f wfile_ops \<Rightarrow> 'f ldb_tablegen \<Rightarrow> (ldb_handle \<times> 'f ldb_tablegen) option" where
  "finish_index ops tb =
     (if tg_status tb = OK then
        (let tb = (if tg_pending_index_entry tb
                   then add_index_entry tb (ldb_short_successor (op_comparator (tg_options tb)) (tg_last_key tb))
                   else tb)
         in Option.bind (ldb_tablegen_write_block ops tb (tg_index_block tb)) (\<lambda>(handle, tb, block).
              Some (handle, tb\<lparr>tg_index_block := block\<rparr>)))
      else Some (\<lparr>h_offset = 0, h_size = 0\<rparr>, tb))"

text \<open>Footer.\<close>

definition finish_footer :: "'f wfile_ops \<Rightarrow> 'f ldb_tablegen \<Rightarrow> ldb_footer \<Rightarrow> 'f ldb_tablegen" where
  "finish_footer ops tb footer =
     (if tg_status tb = OK then
        (let footer_encoding = ldb_footer_export [] footer;
             (rc, file) = wf_append ops (tg_file tb) footer_encoding;
             tb = tb\<lparr>tg_file := file, tg_status := rc\<rparr>
         in if rc = OK then tb\<lparr>tg_offset := tg_offset tb + length footer_encoding\<rparr> else tb)
      else tb)"

definition ldb_tablegen_finish :: "'f wfile_ops \<Rightarrow> 'f ldb_tablegen \<Rightarrow> (status \<times> 'f ldb_tablegen) option" where
  "ldb_tablegen_finish ops tb =
     Option.bind (ldb_tablegen_flush ops tb) (\<lambda>tb.
       let tb = tb\<lparr>tg_closed := True\<rparr>;
           (filter_handle, tb) = finish_filter ops tb
       in if tg_status tb = OK then
            (case metaindex_block (tg_options tb) filter_handle of
               None \<Rightarrow> Some (INVALID, tb)
             | Some metaindex \<Rightarrow>
                 Option.bind (ldb_tablegen_write_block ops tb metaindex) (\<lambda>(metaindex_handle, tb, _).
                   Option.bind (finish_index ops tb) (\<lambda>(index_handle, tb).
                     let tb = finish_footer ops tb \<lparr>ft_metaindex_handle = metaindex_handle, ft_index_handle = index_handle\<rparr>
                     in Some (tg_status tb, tb))))
          else Some (tg_status tb, tb))"

definition ldb_tablegen_abandon :: "'f ldb_tablegen \<Rightarrow> 'f ldb_tablegen" where
  "ldb_tablegen_abandon tb = tb\<lparr>tg_closed := True\<rparr>"

definition ldb_tablegen_status :: "'f ldb_tablegen \<Rightarrow> status" where
  "ldb_tablegen_status tb = tg_status tb"

definition ldb_tablegen_entries :: "'f ldb_tablegen \<Rightarrow> nat" where
  "ldb_tablegen_entries tb = tg_num_entries tb"

definition ldb_tablegen_size :: "'f ldb_tablegen \<Rightarrow> nat" where
  "ldb_tablegen_size tb = tg_offset tb"

section \<open>Blocks under construction\<close>

definition bb_of :: "nat \<Rightarrow> (bytes \<times> bytes) list \<Rightarrow> ldb_blockgen" where
  "bb_of interval es = fold (\<lambda>(k, v) bb. ldb_blockgen_add bb k v) es (ldb_blockgen_init interval)"

lemma bb_of_Nil [simp]: "bb_of interval [] = ldb_blockgen_init interval"
  by (simp add: bb_of_def)

lemma bb_of_snoc: "bb_of interval (es @ [(k, v)]) = ldb_blockgen_add (bb_of interval es) k v"
  by (simp add: bb_of_def)

lemma build_block_bb_of: "build_block interval es = fst (ldb_blockgen_finish (bb_of interval es))"
  by (simp add: build_block_def bb_of_def)

lemma blockgen_add_interval [simp]: "bb_interval (ldb_blockgen_add bb k v) = bb_interval bb"
  by (simp add: ldb_blockgen_add_def Let_def)

lemma bb_of_interval [simp]: "bb_interval (bb_of interval es) = interval"
  by (induction es rule: rev_induct) (auto simp: bb_of_snoc ldb_blockgen_init_def)

lemma reset_finished: "ldb_blockgen_reset (snd (ldb_blockgen_finish (bb_of interval es))) = ldb_blockgen_init interval"
  using bb_of_interval [of interval es]
  by (simp add: ldb_blockgen_reset_def ldb_blockgen_finish_def ldb_blockgen_init_def Let_def)

lemma blockgen_add_grows:
  "bb_buffer (ldb_blockgen_add bb k v) \<noteq> []"
  "length (bb_buffer (ldb_blockgen_add bb k v)) \<le> length (bb_buffer bb) + 15 + length k + length v"
  "length (bb_restarts (ldb_blockgen_add bb k v)) \<le> length (bb_restarts bb) + 1"
proof -
  have v: "length (ldb_varint32_write x) \<le> 5" "ldb_varint32_write x \<noteq> []" for x
    using ldb_varint32_size_bounds [of x] ldb_varint32_size_eq [of x] by auto
  show "bb_buffer (ldb_blockgen_add bb k v) \<noteq> []" using v(2) by (simp add: ldb_blockgen_add_def Let_def)
  define s where "s = (if bb_counter bb < bb_interval bb then shared_prefix (bb_last_key bb) k else 0)"
  have "length (bb_buffer (ldb_blockgen_add bb k v)) = length (bb_buffer bb) + length (ldb_varint32_write (word_of_nat s)) +
      length (ldb_varint32_write (word_of_nat (length k - s))) + length (ldb_varint32_write (word_of_nat (length v))) +
      (length k - s) + length v"
    by (simp add: ldb_blockgen_add_def Let_def s_def)
  then show "length (bb_buffer (ldb_blockgen_add bb k v)) \<le> length (bb_buffer bb) + 15 + length k + length v"
    using v(1) [of "word_of_nat s"] v(1) [of "word_of_nat (length k - s)"] v(1) [of "word_of_nat (length v)"] by linarith
  show "length (bb_restarts (ldb_blockgen_add bb k v)) \<le> length (bb_restarts bb) + 1"
    by (simp add: ldb_blockgen_add_def Let_def)
qed

lemma bb_of_empty: "ldb_blockgen_empty (bb_of interval es) \<longleftrightarrow> es = []"
proof (cases es rule: rev_cases)
  case (snoc ys e)
  then show ?thesis using blockgen_add_grows(1) by (cases e) (auto simp: bb_of_snoc ldb_blockgen_empty_def)
qed (simp add: ldb_blockgen_empty_def ldb_blockgen_init_def)

text \<open>A bound for the size of the blocks of a table.\<close>

definition entries_size :: "(bytes \<times> bytes) list \<Rightarrow> nat" where
  "entries_size es = (\<Sum>e\<leftarrow>es. length (fst e) + length (snd e) + 64)"

lemma entries_size_append [simp]: "entries_size (xs @ ys) = entries_size xs + entries_size ys"
  by (simp add: entries_size_def)

lemma entries_size_simps [simp]:
  "entries_size [] = 0" "entries_size (e # es) = length (fst e) + length (snd e) + 64 + entries_size es"
  by (simp_all add: entries_size_def)

lemma bb_of_length:
  "length (bb_buffer (bb_of interval es)) + 4 * length (bb_restarts (bb_of interval es)) + 44 * length es \<le> entries_size es + 4"
proof (induction es rule: rev_induct)
  case (snoc e es)
  then show ?case
    using blockgen_add_grows(2,3) [of "bb_of interval es" "fst e" "snd e"] by (cases e) (simp add: bb_of_snoc)
qed (simp add: ldb_blockgen_init_def)

lemma build_block_length: "length (build_block interval es) + 44 * length es \<le> entries_size es + 8"
proof -
  have "length (fold (\<lambda>r buffer. buffer @ ldb_fixed32_write (word_of_nat r)) rs buf) = length buf + 4 * length rs" for rs buf
    by (induction rs arbitrary: buf) simp_all
  then have "length (build_block interval es) =
      length (bb_buffer (bb_of interval es)) + 4 * length (bb_restarts (bb_of interval es)) + 4"
    by (simp add: build_block_bb_of ldb_blockgen_finish_def Let_def)
  then show ?thesis using bb_of_length [of interval es] by simp
qed

section \<open>Writing blocks\<close>

lemma block_contents_ok:
  assumes "length raw < 2 ^ 30"
  shows "\<exists>data ty. block_contents type raw = Some (data, ty) \<and> uncompressed data ty = Some raw \<and> length data \<le> length raw"
proof (cases type)
  case LDB_SNAPPY_COMPRESSION
  obtain z where z: "snappy_encode raw = Some z" "snappy_decode z = Some raw"
    using snappy_encode_decode [of raw] assms by auto
  moreover have "\<exists>n. snappy_encode_size (length raw) = Some n"
    using assms by (auto simp: snappy_encode_size_def Let_def)
  ultimately show ?thesis
    using LDB_SNAPPY_COMPRESSION by (auto simp: block_contents_def uncompressed_def)
qed (simp add: block_contents_def uncompressed_def)

context reliable_file
begin

lemma write_raw_ok:
  "\<exists>f. ldb_tablegen_write_raw_block ops tb data ty =
     (\<lparr>h_offset = word_of_nat (tg_offset tb), h_size = word_of_nat (length data)\<rparr>,
      tb\<lparr>tg_file := f, tg_status := OK, tg_offset := tg_offset tb + length (stored_block data ty)\<rparr>) \<and>
     content f = content (tg_file tb) @ stored_block data ty"
proof -
  obtain r1 f1 where 1: "wf_append ops (tg_file tb) data = (r1, f1)" by fastforce
  obtain r2 f2 where 2: "wf_append ops f1 (block_trailer data ty) = (r2, f2)" by fastforce
  show ?thesis
    using append_ok [OF 1] append_ok [OF 2] 1 2
    by (intro exI [of _ f2]) (simp add: ldb_tablegen_write_raw_block_def Let_def stored_block_def block_trailer_def)
qed

lemma write_block_ok:
  assumes "length (fst (ldb_blockgen_finish block)) < 2 ^ 30"
  shows "\<exists>f data ty. ldb_tablegen_write_block ops tb block = Some
       (\<lparr>h_offset = word_of_nat (tg_offset tb), h_size = word_of_nat (length data)\<rparr>,
        tb\<lparr>tg_file := f, tg_status := OK, tg_offset := tg_offset tb + length (stored_block data ty)\<rparr>,
        ldb_blockgen_reset (snd (ldb_blockgen_finish block))) \<and>
     content f = content (tg_file tb) @ stored_block data ty \<and>
     uncompressed data ty = Some (fst (ldb_blockgen_finish block)) \<and> length data \<le> length (fst (ldb_blockgen_finish block))"
proof -
  obtain raw block' where fin: "ldb_blockgen_finish block = (raw, block')" by fastforce
  obtain data ty where d: "block_contents (op_compression (tg_options tb)) raw = Some (data, ty)"
    "uncompressed data ty = Some raw" "length data \<le> length raw"
    using block_contents_ok [of raw "op_compression (tg_options tb)"] assms fin by auto
  obtain f where "ldb_tablegen_write_raw_block ops tb data ty =
       (\<lparr>h_offset = word_of_nat (tg_offset tb), h_size = word_of_nat (length data)\<rparr>,
        tb\<lparr>tg_file := f, tg_status := OK, tg_offset := tg_offset tb + length (stored_block data ty)\<rparr>)"
     "content f = content (tg_file tb) @ stored_block data ty" using write_raw_ok by blast
  then show ?thesis
    using d fin by (intro exI [of _ f] exI [of _ data] exI [of _ ty]) (simp add: ldb_tablegen_write_block_def)
qed

end

section \<open>What the builder holds\<close>

text \<open>A written data block: its entries, the stored bytes and their type.\<close>

type_synonym table_part = "(bytes \<times> bytes) list \<times> bytes \<times> ldb_compression"

definition part_bytes :: "table_part \<Rightarrow> bytes" where
  "part_bytes p = stored_block (fst (snd p)) (snd (snd p))"

definition parts_image :: "table_part list \<Rightarrow> bytes" where
  "parts_image ps = concat (map part_bytes ps)"

definition part_handle :: "table_part list \<Rightarrow> nat \<Rightarrow> ldb_handle" where
  "part_handle ps i = \<lparr>h_offset = word_of_nat (length (parts_image (take i ps))), h_size = word_of_nat (length (fst (snd (ps ! i))))\<rparr>"

definition part_ok :: "nat \<Rightarrow> table_part \<Rightarrow> bool" where
  "part_ok interval p \<longleftrightarrow> fst p \<noteq> [] \<and> uncompressed (fst (snd p)) (snd (snd p)) = Some (build_block interval (fst p)) \<and>
     length (fst (snd p)) \<le> length (build_block interval (fst p))"

definition index_entries :: "table_part list \<Rightarrow> bytes list \<Rightarrow> (bytes \<times> bytes) list" where
  "index_entries ps ks = map (\<lambda>i. (ks ! i, ldb_handle_export [] (part_handle ps i))) [0..<length ks]"

definition filter_parts :: "table_part list \<Rightarrow> (nat \<times> bytes list) list" where
  "filter_parts ps = map (\<lambda>i. (length (parts_image (take i ps)), map fst (fst (ps ! i)))) [0..<length ps]"

text \<open>Keys for the same record: internal keys with one user key.\<close>

definition same_key :: "ldb_comparator \<Rightarrow> bytes \<Rightarrow> bytes \<Rightarrow> bool" where
  "same_key c x y \<longleftrightarrow>
     (case cmp_user c of None \<Rightarrow> ldb_compare c x y = 0
      | Some uc \<Rightarrow> ldb_compare uc (ldb_extract_user_key x) (ldb_extract_user_key y) = 0)"

text \<open>
  A separator \<open>s\<close> after the last key \<open>l\<close> of its block is before a later key \<open>k\<close>, and it is
  \<open>l\<close> itself when \<open>k\<close> is for the same record.
\<close>

definition apart :: "ldb_comparator \<Rightarrow> bytes \<Rightarrow> bytes \<Rightarrow> bytes \<Rightarrow> bool" where
  "apart c l s k \<longleftrightarrow> ldb_compare c s k < 0 \<and> (same_key c s k \<longrightarrow> s = l)"

text \<open>The separators: not before the keys of their block, before every later key.\<close>

definition separators :: "ldb_comparator \<Rightarrow> (bytes \<times> bytes) list list \<Rightarrow> bytes list \<Rightarrow> bool" where
  "separators c bs ks \<longleftrightarrow>
     (\<forall>i < length ks. i < length bs \<longrightarrow> (\<forall>e \<in> set (bs ! i). ldb_compare c (fst e) (ks ! i) \<le> 0)) \<and>
     (\<forall>i < length ks. \<forall>j < length bs. i < j \<longrightarrow> (\<forall>e \<in> set (bs ! j). apart c (fst (last (bs ! i))) (ks ! i) (fst e)))"

text \<open>Keys that may stand in a block; internal keys end with their tag.\<close>

definition table_key :: "ldb_comparator \<Rightarrow> bytes \<Rightarrow> bool" where
  "table_key c k \<longleftrightarrow> (cmp_user c \<noteq> None \<longrightarrow> 8 \<le> length k)"

definition index_keys_ok :: "ldb_comparator \<Rightarrow> table_part list \<Rightarrow> bytes list \<Rightarrow> bool" where
  "index_keys_ok c ps ks \<longleftrightarrow>
     (\<forall>i < length ks. table_key c (ks ! i) \<and> length (ks ! i) \<le> length (fst (last (fst (ps ! i)))))"

definition tablegen_holds :: "ldb_dbopt \<Rightarrow> ('f \<Rightarrow> bytes) \<Rightarrow> 'f ldb_tablegen \<Rightarrow> table_part list \<Rightarrow> (bytes \<times> bytes) list \<Rightarrow>
    bytes list \<Rightarrow> bool" where
  "tablegen_holds options content tb ps cur ks \<longleftrightarrow>
     tg_options tb = options \<and> tg_status tb = OK \<and>
     content (tg_file tb) = parts_image ps \<and> tg_offset tb = length (parts_image ps) \<and>
     (\<forall>p \<in> set ps. part_ok (op_block_restart_interval options) p) \<and>
     tg_data_block tb = bb_of (op_block_restart_interval options) cur \<and>
     tg_index_block tb = bb_of 1 (index_entries ps ks) \<and>
     tg_filter_block tb = map_option (\<lambda>policy. filtergen_blocks policy (filter_parts ps @ [(length (parts_image ps), map fst cur)]))
       (op_filter_policy options) \<and>
     (if tg_pending_index_entry tb
      then cur = [] \<and> length ps = length ks + 1 \<and> tg_pending_handle tb = part_handle ps (length ks)
      else length ps = length ks \<and> (cur = [] \<longrightarrow> ps = [])) \<and>
     (concat (map fst ps) @ cur \<noteq> [] \<longrightarrow> tg_last_key tb = fst (last (concat (map fst ps) @ cur))) \<and>
     separators (op_comparator options) (map fst ps @ [cur]) ks \<and> index_keys_ok (op_comparator options) ps ks"

lemma part_handle_append: "i < length ps \<Longrightarrow> part_handle (ps @ qs) i = part_handle ps i"
  by (simp add: part_handle_def nth_append)

lemma index_entries_append: "length ks \<le> length ps \<Longrightarrow> index_entries (ps @ qs) ks = index_entries ps ks"
  by (simp add: index_entries_def part_handle_append)

lemma index_keys_ok_append: "length ks \<le> length ps \<Longrightarrow> index_keys_ok c (ps @ qs) ks = index_keys_ok c ps ks"
  by (auto simp: index_keys_ok_def nth_append)

lemma index_entries_snoc:
  "length ks < length ps \<Longrightarrow>
   index_entries ps (ks @ [k]) = index_entries ps ks @ [(k, ldb_handle_export [] (part_handle ps (length ks)))]"
  by (simp add: index_entries_def nth_append)

lemma filter_parts_snoc: "filter_parts (ps @ [p]) = filter_parts ps @ [(length (parts_image ps), map fst (fst p))]"
  by (simp add: filter_parts_def nth_append)

lemma parts_image_snoc: "parts_image (ps @ [p]) = parts_image ps @ part_bytes p"
  by (simp add: parts_image_def)

lemma filtergen_blocks_snoc: "filtergen_blocks policy (bs @ [b]) = filtergen_block b (filtergen_blocks policy bs)"
  by (simp add: filtergen_blocks_def)

lemma filtergen_blocks_snoc2:
  "filtergen_blocks policy (bs @ [a, b]) = filtergen_block b (filtergen_blocks policy (bs @ [a]))"
  by (simp add: filtergen_blocks_def)

lemma filtergen_block_add_key:
  "ldb_filtergen_add_key (filtergen_block (off, keys) fb) key = filtergen_block (off, keys @ [key]) fb"
  by (simp add: filtergen_block_def)

lemma filtergen_block_start: "ldb_filtergen_start_block fb off = filtergen_block (off, []) fb"
  by (simp add: filtergen_block_def)

lemma tablegen_init_holds:
  assumes "content file = []"
  shows "tablegen_holds options content (ldb_tablegen_init options file) [] [] []"
  using assms
  by (auto simp: tablegen_holds_def ldb_tablegen_init_def parts_image_def index_entries_def filter_parts_def separators_def index_keys_ok_def
      filtergen_blocks_def filtergen_block_start split: option.splits)

section \<open>Separators\<close>

locale table_order = block_order c for c :: ldb_comparator +
  assumes separator_between: "table_key c x \<Longrightarrow> table_key c y \<Longrightarrow> ldb_compare c x y < 0 \<Longrightarrow>
      ldb_compare c x (ldb_shortest_separator c x y) \<le> 0 \<and> ldb_compare c (ldb_shortest_separator c x y) y < 0"
    and separator_key: "table_key c x \<Longrightarrow> table_key c (ldb_shortest_separator c x y) \<and> length (ldb_shortest_separator c x y) \<le> length x"
    and successor_after: "table_key c x \<Longrightarrow> ldb_compare c x (ldb_short_successor c x) \<le> 0"
    and separator_apart: "table_key c x \<Longrightarrow> table_key c y \<Longrightarrow> ldb_compare c x y < 0 \<Longrightarrow>
      same_key c (ldb_shortest_separator c x y) y \<Longrightarrow> ldb_shortest_separator c x y = x"
    and same_convex: "same_key c x z \<Longrightarrow> ldb_compare c x y \<le> 0 \<Longrightarrow> ldb_compare c y z \<le> 0 \<Longrightarrow> same_key c x y"
    and same_euclid: "same_key c x y \<Longrightarrow> same_key c x z \<Longrightarrow> same_key c y z"
    and successor_key: "table_key c x \<Longrightarrow> table_key c (ldb_short_successor c x) \<and> length (ldb_short_successor c x) \<le> length x"

lemma separatorsD:
  assumes "separators c bs ks" "i < length ks"
  shows "i < length bs \<Longrightarrow> e \<in> set (bs ! i) \<Longrightarrow> ldb_compare c (fst e) (ks ! i) \<le> 0"
    and "j < length bs \<Longrightarrow> i < j \<Longrightarrow> e \<in> set (bs ! j) \<Longrightarrow> apart c (fst (last (bs ! i))) (ks ! i) (fst e)"
  using assms by (auto simp: separators_def)

lemma separators_Nil: "separators c bs ks \<Longrightarrow> separators c (bs @ [[]]) ks"
  by (auto simp: separators_def nth_append less_Suc_eq)

lemma separators_prefix:
  assumes "separators c (bs @ [b]) ks"
  shows "separators c bs ks"
proof -
  have "ldb_compare c (fst e) (ks ! i) \<le> 0" if "i < length ks" "i < length bs" "e \<in> set (bs ! i)" for i e
    using separatorsD(1) [OF assms that(1), of e] that by (simp add: nth_append)
  moreover have "apart c (fst (last (bs ! i))) (ks ! i) (fst e)" if "i < length ks" "j < length bs" "i < j" "e \<in> set (bs ! j)" for i j e
    using separatorsD(2) [OF assms that(1), of j e] that by (simp add: nth_append)
  ultimately show ?thesis by (simp add: separators_def)
qed

context block_order
begin

lemma sorted_last_le:
  assumes "sorted_wrt (\<lambda>x y. ldb_compare c (fst x) (fst y) < 0) es" "e \<in> set es"
  shows "ldb_compare c (fst e) (fst (last es)) \<le> 0"
proof -
  have ne: "es \<noteq> []" using assms(2) by auto
  obtain i where i: "i < length es" "es ! i = e" using assms(2) by (auto simp: in_set_conv_nth)
  show ?thesis
  proof (cases "i = length es - 1")
    case True
    then show ?thesis using i ne cmp_refl by (simp add: last_conv_nth)
  next
    case False
    then have "ldb_compare c (fst (es ! i)) (fst (es ! (length es - 1))) < 0"
      using i ne sorted_wrt_nth_less [OF assms(1), of i "length es - 1"] by simp
    then show ?thesis using i ne by (simp add: last_conv_nth)
  qed
qed

end

context table_order
begin

lemma apart_later: "apart c l s y \<Longrightarrow> ldb_compare c y k < 0 \<Longrightarrow> apart c l s k"
  using cmp_less_trans [of s y k] same_convex [of s k y] by (auto simp: apart_def)

lemma separators_pending:
  assumes "separators c (bs @ [[]]) ks" "length bs = length ks + 1" "\<forall>b \<in> set bs. b \<noteq> []"
    and "sorted_wrt (\<lambda>x y. ldb_compare c (fst x) (fst y) < 0) (concat bs @ [e])"
    and "ldb_compare c (fst (last (concat bs))) s \<le> 0" "apart c (fst (last (bs ! length ks))) s (fst e)"
  shows "separators c (bs @ [[e]]) (ks @ [s])"
proof -
  have sorted: "sorted_wrt (\<lambda>x y. ldb_compare c (fst x) (fst y) < 0) (concat bs)"
    and less: "\<And>x. x \<in> set (concat bs) \<Longrightarrow> ldb_compare c (fst x) (fst e) < 0"
    using assms(4) by (auto simp: sorted_wrt_append)
  have upto: "ldb_compare c (fst x) ((ks @ [s]) ! i) \<le> 0" if "i < length (ks @ [s])" "x \<in> set (bs ! i)" for i x
  proof (cases "i < length ks")
    case True
    then show ?thesis using assms(1,2) that(2) by (auto simp: separators_def nth_append)
  next
    case False
    then have i: "i = length ks" using that(1) by simp
    then have "x \<in> set (concat bs)" using that(2) assms(2) by auto
    then show ?thesis
      using sorted_last_le [OF sorted] assms(5) i cmp_trans [of "fst x" "fst (last (concat bs))" s] by simp
  qed
  have past: "apart c (fst (last ((bs @ [[e]]) ! i))) ((ks @ [s]) ! i) (fst x)"
    if "i < length (ks @ [s])" "j < length (bs @ [[e]])" "i < j" "x \<in> set ((bs @ [[e]]) ! j)" for i j x
  proof (cases "i < length ks")
    case i: True
    show ?thesis
    proof (cases "j < length bs")
      case True
      then show ?thesis using separatorsD(2) [OF assms(1) i, of j x] that i by (simp add: nth_append)
    next
      case False
      then have x: "x = e" using that(2,4) by (simp add: nth_append)
      obtain y where y: "y \<in> set (bs ! length ks)" using assms(2,3) nth_mem [of "length ks" bs] by (metis hd_in_set less_add_one)
      then have "apart c (fst (last (bs ! i))) (ks ! i) (fst y)"
        using separatorsD(2) [OF assms(1) i, of "length ks" y] assms(2) i by (simp add: nth_append)
      moreover have "ldb_compare c (fst y) (fst e) < 0" using y assms(2) by (intro less) auto
      ultimately show ?thesis using x i apart_later [of _ "ks ! i" "fst y" "fst e"] assms(2) by (simp add: nth_append)
    qed
  next
    case False
    then have "i = length ks" using that(1) by simp
    moreover have "x = e" using that calculation assms(2) by (simp add: nth_append split: if_splits)
    ultimately show ?thesis using assms(2,6) by (simp add: nth_append)
  qed
  show ?thesis
    unfolding separators_def using upto past assms(2) by (auto simp: nth_append)
qed

lemma separators_extend:
  assumes "separators c (bs @ [cur]) ks" "length bs = length ks" "cur \<noteq> [] \<or> ks = []"
    and "sorted_wrt (\<lambda>x y. ldb_compare c (fst x) (fst y) < 0) (concat bs @ cur @ [e])"
  shows "separators c (bs @ [cur @ [e]]) ks"
proof (cases "ks = []")
  case False
  then obtain y where y: "y \<in> set cur" using assms(3) by (cases cur) auto
  then have "ldb_compare c (fst y) (fst e) < 0" using assms(4) by (auto simp: sorted_wrt_append)
  moreover have "apart c (fst (last (bs ! i))) (ks ! i) (fst y)" if "i < length ks" for i
    using separatorsD(2) [OF assms(1) that, of "length bs" y] assms(2) that y by (simp add: nth_append)
  ultimately have "apart c (fst (last (bs ! i))) (ks ! i) (fst e)" if "i < length ks" for i
    using that apart_later [of _ "ks ! i" "fst y" "fst e"] by blast
  then show ?thesis
    using assms(1,2) unfolding separators_def by (auto simp: nth_append less_Suc_eq)
qed (simp add: separators_def)

end

section \<open>Adding entries\<close>

lemma concat_part_ne:
  "(\<forall>p \<in> set ps. part_ok n p) \<Longrightarrow> \<forall>b \<in> set (map fst ps). b \<noteq> []"
  by (auto simp: part_ok_def)

context reliable_file
begin

lemma flush_holds:
  assumes "tablegen_holds options content tb ps cur ks" "cur \<noteq> []" "entries_size cur + 8 < 2 ^ 30"
  shows "\<exists>tb' p. ldb_tablegen_flush ops tb = Some tb' \<and> tablegen_holds options content tb' (ps @ [p]) [] ks \<and>
    fst p = cur \<and> tg_pending_index_entry tb' \<and> tg_num_entries tb' = tg_num_entries tb"
proof -
  let ?n = "op_block_restart_interval options"
  have h: "tg_options tb = options" "tg_status tb = OK" "content (tg_file tb) = parts_image ps" "tg_offset tb = length (parts_image ps)"
    "tg_data_block tb = bb_of ?n cur" "\<not> tg_pending_index_entry tb" "length ps = length ks"
    using assms(1,2) by (auto simp: tablegen_holds_def split: if_splits)
  have "length (fst (ldb_blockgen_finish (bb_of ?n cur))) < 2 ^ 30"
    using build_block_length [of ?n cur] assms(3) by (simp add: build_block_bb_of)
  then obtain f data ty where w: "ldb_tablegen_write_block ops tb (bb_of ?n cur) = Some
       (\<lparr>h_offset = word_of_nat (tg_offset tb), h_size = word_of_nat (length data)\<rparr>,
        tb\<lparr>tg_file := f, tg_status := OK, tg_offset := tg_offset tb + length (stored_block data ty)\<rparr>,
        ldb_blockgen_reset (snd (ldb_blockgen_finish (bb_of ?n cur))))"
     "content f = content (tg_file tb) @ stored_block data ty"
     "uncompressed data ty = Some (fst (ldb_blockgen_finish (bb_of ?n cur)))"
     "length data \<le> length (fst (ldb_blockgen_finish (bb_of ?n cur)))"
    using write_block_ok by blast
  obtain rc f' where fl: "wf_flush ops f = (rc, f')" by fastforce
  define p where "p = (cur, data, ty)"
  define tb' where "tb' = tb\<lparr>tg_file := f', tg_status := OK, tg_offset := tg_offset tb + length (stored_block data ty),
      tg_pending_handle := \<lparr>h_offset = word_of_nat (tg_offset tb), h_size = word_of_nat (length data)\<rparr>,
      tg_data_block := ldb_blockgen_init ?n, tg_pending_index_entry := True,
      tg_filter_block := map_option (\<lambda>fb. ldb_filtergen_start_block fb (tg_offset tb + length (stored_block data ty))) (tg_filter_block tb)\<rparr>"
  have "ldb_tablegen_flush ops tb = Some tb'"
    using h(2,5) w(1) fl flush_ok [OF fl] assms(2)
    by (simp add: ldb_tablegen_flush_def bb_of_empty reset_finished Let_def tb'_def)
  moreover have "part_handle (ps @ [p]) (length ks) = \<lparr>h_offset = word_of_nat (tg_offset tb), h_size = word_of_nat (length data)\<rparr>"
    using h(4,7) by (simp add: part_handle_def p_def nth_append)
  moreover have "part_ok ?n p" using w(3,4) assms(2) by (simp add: part_ok_def p_def build_block_bb_of)
  moreover have "separators (op_comparator options) (map fst (ps @ [p]) @ [[]]) ks"
    using assms(1) separators_Nil [of "op_comparator options" "map fst ps @ [cur]" ks] by (simp add: tablegen_holds_def p_def)
  ultimately show ?thesis
    using assms(1,2) h w(2) flush_ok [OF fl]
    by (intro exI [of _ tb'] exI [of _ p])
      (auto simp: tablegen_holds_def tb'_def p_def parts_image_snoc part_bytes_def index_entries_append index_keys_ok_append filter_parts_snoc
        filtergen_blocks_snoc2 filtergen_block_start option.map_comp comp_def)
qed

lemma flush_nothing:
  assumes "tablegen_holds options content tb ps [] ks"
  shows "ldb_tablegen_flush ops tb = Some tb"
  using assms bb_of_empty [of "op_block_restart_interval options" "[]"]
  by (simp add: tablegen_holds_def ldb_tablegen_flush_def)

end

context table_order
begin

lemma pending_last:
  assumes "tablegen_holds options content tb ps [] ks" "tg_pending_index_entry tb"
  shows "length ps = length ks + 1" "tg_pending_handle tb = part_handle ps (length ks)"
    "concat (map fst ps) \<noteq> []" "last (concat (map fst ps)) = last (fst (ps ! length ks))"
    "tg_last_key tb = fst (last (concat (map fst ps)))" "\<forall>b \<in> set (map fst ps). b \<noteq> []"
proof -
  show len: "length ps = length ks + 1" and "tg_pending_handle tb = part_handle ps (length ks)"
    using assms by (auto simp: tablegen_holds_def)
  show ne: "\<forall>b \<in> set (map fst ps). b \<noteq> []" using assms(1) by (auto simp: tablegen_holds_def part_ok_def)
  obtain qs q where q: "ps = qs @ [q]" using len by (metis length_0_conv rev_exhaust add_is_0 one_neq_zero)
  then have qs: "length qs = length ks" "fst q \<noteq> []" using len ne by simp_all
  show last: "concat (map fst ps) \<noteq> []" and "last (concat (map fst ps)) = last (fst (ps ! length ks))"
    using q qs by (simp_all add: nth_append)
  show "tg_last_key tb = fst (last (concat (map fst ps)))" using assms(1) last by (simp add: tablegen_holds_def)
qed

lemma pending_holds:
  assumes "op_comparator options = c" "tablegen_holds options content tb ps [] ks" "tg_pending_index_entry tb"
    and "sorted_wrt (\<lambda>x y. ldb_compare c (fst x) (fst y) < 0) (concat (map fst ps) @ [(k, v)])"
    and "\<forall>e \<in> set (concat (map fst ps) @ [(k, v)]). table_key c (fst e)"
  defines "s \<equiv> ldb_shortest_separator c (tg_last_key tb) k"
  shows "separators c (map fst ps @ [[(k, v)]]) (ks @ [s])"
    and "index_keys_ok c ps (ks @ [s])"
    and "tg_index_block (add_index_entry tb s) = bb_of 1 (index_entries ps (ks @ [s]))"
proof -
  let ?bs = "map fst ps"
  have h: "separators c (?bs @ [[]]) ks" "index_keys_ok c ps ks" "tg_index_block tb = bb_of 1 (index_entries ps ks)"
    using assms(1-3) by (auto simp: tablegen_holds_def)
  note l = pending_last [OF assms(2,3)]
  have "last (concat ?bs) \<in> set (concat ?bs)" using l(3) last_in_set by blast
  then have less: "ldb_compare c (tg_last_key tb) k < 0" and key: "table_key c (tg_last_key tb)"
    using assms(4,5) l(5) by (auto simp: sorted_wrt_append)
  have tk: "table_key c k" using assms(5) by simp
  note sep = separator_between [OF key tk less] separator_key [OF key, of k] separator_apart [OF key tk less]
  show "separators c (?bs @ [[(k, v)]]) (ks @ [s])"
    using separators_pending [OF h(1) _ l(6) assms(4)] l(1,4,5) sep by (simp add: s_def apart_def)
  show "index_keys_ok c ps (ks @ [s])"
    using h(2) sep(2) l(4,5) by (auto simp: index_keys_ok_def nth_append less_Suc_eq s_def)
  show "tg_index_block (add_index_entry tb s) = bb_of 1 (index_entries ps (ks @ [s]))"
    using h(3) l(1,2) by (simp add: add_index_entry_def Let_def index_entries_snoc bb_of_snoc)
qed

text \<open>The entry is in the current block before the block is flushed.\<close>

lemma entry_holds:
  assumes "op_comparator options = c" "tablegen_holds options content tb ps cur ks"
    and "sorted_wrt (\<lambda>x y. ldb_compare c (fst x) (fst y) < 0) (concat (map fst ps) @ cur @ [(k, v)])"
    and "\<forall>e \<in> set (concat (map fst ps) @ cur @ [(k, v)]). table_key c (fst e)"
  defines "tb1 \<equiv> (if tg_pending_index_entry tb
      then add_index_entry tb (ldb_shortest_separator c (tg_last_key tb) k) else tb)"
  shows "\<exists>ks'. tablegen_holds options content
     (tb1\<lparr>tg_filter_block := map_option (\<lambda>fb. ldb_filtergen_add_key fb k) (tg_filter_block tb1),
          tg_last_key := k, tg_num_entries := tg_num_entries tb1 + 1,
          tg_data_block := ldb_blockgen_add (tg_data_block tb1) k v\<rparr>) ps (cur @ [(k, v)]) ks'"
proof (cases "tg_pending_index_entry tb")
  case True
  then have cur: "cur = []" using assms(2) by (auto simp: tablegen_holds_def)
  note p = pending_holds [OF assms(1) assms(2) [unfolded cur] True, of k v]
  show ?thesis
    using assms p True cur
    by (intro exI [of _ "ks @ [ldb_shortest_separator c (tg_last_key tb) k]"])
      (auto simp: tablegen_holds_def add_index_entry_def Let_def bb_of_snoc [of _ "[]", simplified] filtergen_blocks_snoc
        filtergen_block_add_key option.map_comp comp_def)
next
  case False
  then have "cur \<noteq> [] \<or> ks = []" using assms(2) by (auto simp: tablegen_holds_def)
  then have "separators c (map fst ps @ [cur @ [(k, v)]]) ks"
    using separators_extend [of "map fst ps" cur ks "(k, v)"] assms(1-3) False by (auto simp: tablegen_holds_def)
  then show ?thesis
    using assms False
    by (intro exI [of _ ks])
      (auto simp: tablegen_holds_def bb_of_snoc filtergen_blocks_snoc filtergen_block_add_key option.map_comp comp_def)
qed

end

text \<open>A sequence of calls of \<open>ldb_tablegen_add\<close>.\<close>

definition tablegen_add_all :: "'f wfile_ops \<Rightarrow> 'f ldb_tablegen \<Rightarrow> (bytes \<times> bytes) list \<Rightarrow> 'f ldb_tablegen option" where
  "tablegen_add_all ops tb es = fold (\<lambda>(k, v) r. Option.bind r (\<lambda>tb. ldb_tablegen_add ops tb k v)) es (Some tb)"

lemma tablegen_add_all_snoc:
  "tablegen_add_all ops tb (es @ [(k, v)]) = Option.bind (tablegen_add_all ops tb es) (\<lambda>tb. ldb_tablegen_add ops tb k v)"
  by (simp add: tablegen_add_all_def)

context reliable_file
begin

lemma add_holds:
  assumes "table_order c" "op_comparator options = c" "tablegen_holds options content tb ps cur ks"
    and "sorted_wrt (\<lambda>x y. ldb_compare c (fst x) (fst y) < 0) (concat (map fst ps) @ cur @ [(k, v)])"
    and "\<forall>e \<in> set (concat (map fst ps) @ cur @ [(k, v)]). table_key c (fst e)"
    and "entries_size (cur @ [(k, v)]) + 8 < 2 ^ 30"
  shows "\<exists>tb' ps' cur' ks'. ldb_tablegen_add ops tb k v = Some tb' \<and> tablegen_holds options content tb' ps' cur' ks' \<and>
    concat (map fst ps') @ cur' = concat (map fst ps) @ cur @ [(k, v)] \<and> tg_num_entries tb' = tg_num_entries tb + 1"
proof -
  define tb1 where "tb1 = (if tg_pending_index_entry tb
      then add_index_entry tb (ldb_shortest_separator c (tg_last_key tb) k) else tb)"
  define tb2 where "tb2 = tb1\<lparr>tg_filter_block := map_option (\<lambda>fb. ldb_filtergen_add_key fb k) (tg_filter_block tb1),
          tg_last_key := k, tg_num_entries := tg_num_entries tb1 + 1,
          tg_data_block := ldb_blockgen_add (tg_data_block tb1) k v\<rparr>"
  obtain ks' where h: "tablegen_holds options content tb2 ps (cur @ [(k, v)]) ks'"
    using table_order.entry_holds [OF assms(1-5)] unfolding tb2_def tb1_def by blast
  have n: "tg_num_entries tb2 = tg_num_entries tb + 1" by (simp add: tb2_def tb1_def add_index_entry_def Let_def)
  have st: "tg_status tb = OK" "tg_options tb = options" using assms(3) by (auto simp: tablegen_holds_def)
  have add: "ldb_tablegen_add ops tb k v =
      (if ldb_blockgen_size_estimate (tg_data_block tb2) \<ge> op_block_size (tg_options tb2) then ldb_tablegen_flush ops tb2 else Some tb2)"
    using st assms(2) by (simp add: ldb_tablegen_add_def Let_def tb1_def tb2_def)
  show ?thesis
  proof (cases "ldb_blockgen_size_estimate (tg_data_block tb2) \<ge> op_block_size (tg_options tb2)")
    case True
    then obtain tb' p where "ldb_tablegen_flush ops tb2 = Some tb'" "tablegen_holds options content tb' (ps @ [p]) [] ks'"
      "fst p = cur @ [(k, v)]" "tg_num_entries tb' = tg_num_entries tb2"
      using flush_holds [OF h _ assms(6)] by auto
    then show ?thesis
      using True add n by (intro exI [of _ tb'] exI [of _ "ps @ [p]"] exI [of _ "[]"] exI [of _ ks']) simp
  next
    case False
    then show ?thesis
      using add h n by (intro exI [of _ tb2] exI [of _ ps] exI [of _ "cur @ [(k, v)]"] exI [of _ ks']) simp
  qed
qed

lemma add_all_holds:
  assumes "table_order c" "op_comparator options = c" "tablegen_holds options content tb [] [] []" "tg_num_entries tb = 0"
    and "sorted_wrt (\<lambda>x y. ldb_compare c (fst x) (fst y) < 0) es" "\<forall>e \<in> set es. table_key c (fst e)"
    and "entries_size es + 8 < 2 ^ 30"
  shows "\<exists>tb' ps cur ks. tablegen_add_all ops tb es = Some tb' \<and> tablegen_holds options content tb' ps cur ks \<and>
    concat (map fst ps) @ cur = es \<and> tg_num_entries tb' = length es"
  using assms(5-)
proof (induction es rule: rev_induct)
  case Nil
  then show ?case
    using assms(3,4) by (intro exI [of _ tb] exI [of _ "[]"]) (simp add: tablegen_add_all_def)
next
  case (snoc e es)
  obtain k v where e: "e = (k, v)" by (cases e)
  have "sorted_wrt (\<lambda>x y. ldb_compare c (fst x) (fst y) < 0) es" "\<forall>e \<in> set es. table_key c (fst e)" "entries_size es + 8 < 2 ^ 30"
    using snoc.prems by (auto simp: sorted_wrt_append)
  then obtain tb' ps cur ks where IH: "tablegen_add_all ops tb es = Some tb'" "tablegen_holds options content tb' ps cur ks"
    "concat (map fst ps) @ cur = es" "tg_num_entries tb' = length es"
    using snoc.IH by blast
  have "entries_size (cur @ [(k, v)]) + 8 < 2 ^ 30" using snoc.prems(3) IH(3) e by auto
  moreover have "sorted_wrt (\<lambda>x y. ldb_compare c (fst x) (fst y) < 0) (concat (map fst ps) @ cur @ [(k, v)])"
    "\<forall>e \<in> set (concat (map fst ps) @ cur @ [(k, v)]). table_key c (fst e)"
    using snoc.prems(1,2) unfolding IH(3) [symmetric] e by (simp_all only: append_assoc)
  ultimately obtain tb'' ps' cur' ks' where "ldb_tablegen_add ops tb' k v = Some tb''" "tablegen_holds options content tb'' ps' cur' ks'"
    "concat (map fst ps') @ cur' = concat (map fst ps) @ cur @ [(k, v)]" "tg_num_entries tb'' = tg_num_entries tb' + 1"
    using add_holds [OF assms(1,2) IH(2)] by blast
  then show ?case
    using IH e by (intro exI [of _ tb''] exI [of _ ps'] exI [of _ cur'] exI [of _ ks']) (auto simp: tablegen_add_all_snoc)
qed

end

section \<open>Finished tables\<close>

text \<open>
  The layout of a table file: the data blocks, the filter block, the meta index, the index
  and the footer, which finds the two indexes.
\<close>

definition handle_at :: "nat \<Rightarrow> bytes \<Rightarrow> ldb_handle" where
  "handle_at off data = \<lparr>h_offset = word_of_nat off, h_size = word_of_nat (length data)\<rparr>"

definition filter_data :: "ldb_bloom \<Rightarrow> table_part list \<Rightarrow> bytes" where
  "filter_data policy ps =
     fst (ldb_filtergen_finish (filtergen_blocks policy (filter_parts ps @ [(length (parts_image ps), [])])))"

definition filter_section :: "ldb_dbopt \<Rightarrow> table_part list \<Rightarrow> bytes" where
  "filter_section options ps =
     (case op_filter_policy options of None \<Rightarrow> []
      | Some policy \<Rightarrow> stored_block (filter_data policy ps) LDB_NO_COMPRESSION)"

definition meta_entries :: "ldb_dbopt \<Rightarrow> table_part list \<Rightarrow> (bytes \<times> bytes) list" where
  "meta_entries options ps =
     (case op_filter_policy options of None \<Rightarrow> []
      | Some policy \<Rightarrow>
          [(ldb_slice_set_str (the (ldb_bloom_name 72 policy)),
            ldb_handle_export [] (handle_at (length (parts_image ps)) (filter_data policy ps)))])"

definition table_layout :: "ldb_dbopt \<Rightarrow> bytes \<Rightarrow> table_part list \<Rightarrow> bytes list \<Rightarrow> bytes \<times> ldb_compression \<Rightarrow>
    bytes \<times> ldb_compression \<Rightarrow> bool" where
  "table_layout options content ps ks m x \<longleftrightarrow>
     (\<forall>p \<in> set ps. part_ok (op_block_restart_interval options) p) \<and> length ks = length ps \<and>
     separators (op_comparator options) (map fst ps) ks \<and> index_keys_ok (op_comparator options) ps ks \<and>
     uncompressed (fst m) (snd m) = Some (build_block (op_block_restart_interval options) (meta_entries options ps)) \<and>
     uncompressed (fst x) (snd x) = Some (build_block 1 (index_entries ps ks)) \<and>
     length (fst m) \<le> length (build_block (op_block_restart_interval options) (meta_entries options ps)) \<and>
     length (fst x) \<le> length (build_block 1 (index_entries ps ks)) \<and>
     content = parts_image ps @ filter_section options ps @ stored_block (fst m) (snd m) @ stored_block (fst x) (snd x) @
       ldb_footer_write
         \<lparr>ft_metaindex_handle = handle_at (length (parts_image ps @ filter_section options ps)) (fst m),
          ft_index_handle = handle_at (length (parts_image ps @ filter_section options ps @ stored_block (fst m) (snd m))) (fst x)\<rparr>"

definition name_fits :: "ldb_dbopt \<Rightarrow> bool" where
  "name_fits options \<longleftrightarrow> (\<forall>policy. op_filter_policy options = Some policy \<longrightarrow> ldb_bloom_name 72 policy \<noteq> None)"

lemma handle_export_length: "length (ldb_handle_export [] h) \<le> 20"
  using handle_write_length [of h] by (simp add: ldb_handle_export_def LDB_HANDLE_SIZE_def)

text \<open>One key per block: the index is not larger than the data.\<close>

lemma entries_size_member: "e \<in> set es \<Longrightarrow> length (fst e) + 64 \<le> entries_size es"
  by (induction es) auto

lemma index_entries_size:
  assumes "\<forall>p \<in> set ps. part_ok n p" "index_keys_ok c ps ks" "length ks \<le> length ps"
  shows "entries_size (index_entries ps ks) \<le> entries_size (concat (map fst ps)) + 20 * length ks"
proof -
  have "entries_size (index_entries ps ks) \<le> entries_size (concat (map fst (take (length ks) ps))) + 20 * length ks"
    using assms(2,3)
  proof (induction ks rule: rev_induct)
    case (snoc k ks)
    let ?i = "length ks"
    have i: "?i < length ps" using snoc.prems(2) by simp
    have "fst (ps ! ?i) \<noteq> []" using assms(1) i by (simp add: part_ok_def)
    then have "length k + 64 \<le> entries_size (fst (ps ! ?i))"
      using snoc.prems(1) entries_size_member [OF last_in_set, of "fst (ps ! ?i)"]
      by (auto simp: index_keys_ok_def dest!: spec [of _ ?i])
    moreover have "index_keys_ok c ps ks" using snoc.prems(1) by (auto simp: index_keys_ok_def nth_append split: if_splits)
    then have "entries_size (index_entries ps ks) \<le> entries_size (concat (map fst (take ?i ps))) + 20 * ?i"
      using snoc.IH i by simp
    ultimately show ?case
      using i handle_export_length [of "part_handle ps ?i"]
      by (simp add: index_entries_snoc take_Suc_conv_app_nth)
  qed (simp add: index_entries_def)
  moreover have "entries_size (concat (map fst (take (length ks) ps))) \<le> entries_size (concat (map fst ps))"
    by (metis append_take_drop_id concat_append entries_size_append le_add1 map_append)
  ultimately show ?thesis by linarith
qed

context reliable_file
begin

lemma finish_filter_ok:
  assumes "tg_status tb = OK" "tg_offset tb = length (parts_image ps)" "content (tg_file tb) = parts_image ps"
    and "tg_filter_block tb = map_option (\<lambda>policy. filtergen_blocks policy (filter_parts ps @ [(length (parts_image ps), [])]))
       (op_filter_policy options)"
  shows "\<exists>f fb. finish_filter ops tb =
      (map_option (\<lambda>policy. handle_at (length (parts_image ps)) (filter_data policy ps)) (op_filter_policy options),
       tb\<lparr>tg_filter_block := fb, tg_file := f, tg_status := OK, tg_offset := length (parts_image ps @ filter_section options ps)\<rparr>) \<and>
     content f = parts_image ps @ filter_section options ps"
proof (cases "op_filter_policy options")
  case None
  then show ?thesis
    using assms by (intro exI [of _ "tg_file tb"] exI [of _ None]) (simp add: finish_filter_def filter_section_def)
next
  case (Some policy)
  let ?fb = "filtergen_blocks policy (filter_parts ps @ [(length (parts_image ps), [])])"
  let ?tb = "tb\<lparr>tg_filter_block := Some (snd (ldb_filtergen_finish ?fb))\<rparr>"
  obtain f where f: "ldb_tablegen_write_raw_block ops ?tb (filter_data policy ps) LDB_NO_COMPRESSION =
      (handle_at (length (parts_image ps)) (filter_data policy ps),
       ?tb\<lparr>tg_file := f, tg_status := OK, tg_offset := tg_offset tb + length (stored_block (filter_data policy ps) LDB_NO_COMPRESSION)\<rparr>)"
     "content f = content (tg_file tb) @ stored_block (filter_data policy ps) LDB_NO_COMPRESSION"
    using write_raw_ok [of ?tb "filter_data policy ps" LDB_NO_COMPRESSION] assms(2) by (auto simp: handle_at_def)
  show ?thesis
    using f assms Some
    by (intro exI [of _ f] exI [of _ "Some (snd (ldb_filtergen_finish ?fb))"])
      (simp add: finish_filter_def filter_section_def filter_data_def case_prod_beta)
qed

lemma metaindex_ok:
  assumes "name_fits options"
  shows "metaindex_block options (map_option (\<lambda>policy. handle_at (length (parts_image ps)) (filter_data policy ps))
      (op_filter_policy options)) = Some (bb_of (op_block_restart_interval options) (meta_entries options ps))"
    and "length (build_block (op_block_restart_interval options) (meta_entries options ps)) < 2 ^ 30"
proof -
  show "metaindex_block options (map_option (\<lambda>policy. handle_at (length (parts_image ps)) (filter_data policy ps))
      (op_filter_policy options)) = Some (bb_of (op_block_restart_interval options) (meta_entries options ps))"
    using assms bb_of_snoc [of "op_block_restart_interval options" "[]"]
    by (auto simp: metaindex_block_def meta_entries_def name_fits_def Let_def split: option.splits)
  have "length (the (ldb_bloom_name 72 policy)) \<le> 72" if "op_filter_policy options = Some policy" for policy
    using assms that by (auto simp: name_fits_def ldb_bloom_name_def Let_def split: if_splits)
  moreover have "length (ldb_handle_export [] h) \<le> 20" for h by (rule handle_export_length)
  ultimately have "length (the (ldb_bloom_name 72 policy)) +
      length (ldb_handle_export [] (handle_at (length (parts_image ps)) (filter_data policy ps))) \<le> 72 + 20"
    if "op_filter_policy options = Some policy" for policy
    using that by (intro add_mono) auto
  then have "entries_size (meta_entries options ps) \<le> 156"
    by (cases "op_filter_policy options") (simp_all add: meta_entries_def ldb_slice_set_str_def)
  then show "length (build_block (op_block_restart_interval options) (meta_entries options ps)) < 2 ^ 30"
    using build_block_length [of "op_block_restart_interval options" "meta_entries options ps"] by simp
qed

end

context table_order
begin

lemma last_entry_holds:
  assumes "op_comparator options = c" "tablegen_holds options content tb ps [] ks"
    and "\<forall>e \<in> set (concat (map fst ps)). table_key c (fst e)"
    and "sorted_wrt (\<lambda>x y. ldb_compare c (fst x) (fst y) < 0) (concat (map fst ps))"
  defines "tb1 \<equiv> (if tg_pending_index_entry tb then add_index_entry tb (ldb_short_successor c (tg_last_key tb)) else tb)"
  shows "\<exists>ks'. tg_index_block tb1 = bb_of 1 (index_entries ps ks') \<and> length ks' = length ps \<and>
    separators c (map fst ps) ks' \<and> index_keys_ok c ps ks'"
proof (cases "tg_pending_index_entry tb")
  case False
  then have "ps = []" "ks = []" "tg_index_block tb1 = bb_of 1 (index_entries ps ks)"
    using assms(2) by (auto simp: tablegen_holds_def tb1_def)
  then show ?thesis by (intro exI [of _ "[]"]) (simp add: separators_def index_keys_ok_def)
next
  case True
  define s where "s = ldb_short_successor c (tg_last_key tb)"
  have h: "separators c (map fst ps) ks" "index_keys_ok c ps ks" "tg_index_block tb = bb_of 1 (index_entries ps ks)"
    using assms(1,2) by (auto simp: tablegen_holds_def dest: separators_prefix)
  note l = pending_last [OF assms(2) True]
  have key: "table_key c (tg_last_key tb)" using l(3,5) assms(3) last_in_set by metis
  have "ldb_compare c (fst e) s \<le> 0" if "e \<in> set (fst (ps ! length ks))" for e
  proof -
    have "e \<in> set (concat (map fst ps))" using that l(1) by auto
    then have "ldb_compare c (fst e) (tg_last_key tb) \<le> 0" using sorted_last_le [OF assms(4)] l(5) by simp
    then show ?thesis using successor_after [OF key] cmp_trans [of "fst e" "tg_last_key tb" s] by (simp add: s_def)
  qed
  then have "separators c (map fst ps) (ks @ [s])"
    using h(1) l(1) unfolding separators_def by (auto simp: nth_append less_Suc_eq)
  moreover have "index_keys_ok c ps (ks @ [s])"
    using h(2) successor_key [OF key] l(4,5) by (auto simp: index_keys_ok_def nth_append less_Suc_eq s_def)
  moreover have "tg_index_block tb1 = bb_of 1 (index_entries ps (ks @ [s]))"
    using True h(3) l(1,2) by (simp add: tb1_def s_def add_index_entry_def Let_def index_entries_snoc bb_of_snoc)
  ultimately show ?thesis using l(1) by (intro exI [of _ "ks @ [s]"]) simp
qed

end

context reliable_file
begin

lemma write_bb_ok:
  assumes "length (build_block n es) < 2 ^ 30"
  shows "\<exists>f d. ldb_tablegen_write_block ops tb (bb_of n es) =
       Some (handle_at (tg_offset tb) (fst d),
         tb\<lparr>tg_file := f, tg_status := OK, tg_offset := tg_offset tb + length (stored_block (fst d) (snd d))\<rparr>, ldb_blockgen_init n) \<and>
     content f = content (tg_file tb) @ stored_block (fst d) (snd d) \<and> uncompressed (fst d) (snd d) = Some (build_block n es) \<and>
     length (fst d) \<le> length (build_block n es)"
  using write_block_ok [of "bb_of n es" tb] assms
  by (auto simp: handle_at_def reset_finished simp flip: build_block_bb_of)

lemma finish_ok:
  assumes "table_order c" "op_comparator options = c" "name_fits options" "tablegen_holds options content tb ps cur ks"
    and "concat (map fst ps) @ cur = es" "sorted_wrt (\<lambda>x y. ldb_compare c (fst x) (fst y) < 0) es"
    and "\<forall>e \<in> set es. table_key c (fst e)" "entries_size es + 8 < 2 ^ 30"
  shows "\<exists>tb' ps ks m x. ldb_tablegen_finish ops tb = Some (OK, tb') \<and> concat (map fst ps) = es \<and>
    table_layout options (content (tg_file tb')) ps ks m x \<and> tg_offset tb' = length (content (tg_file tb')) \<and>
    tg_num_entries tb' = tg_num_entries tb"
proof -
  let ?n = "op_block_restart_interval options"
  obtain tb1 ps1 where 1: "ldb_tablegen_flush ops tb = Some tb1" "tablegen_holds options content tb1 ps1 [] ks"
    "concat (map fst ps1) = es" "tg_num_entries tb1 = tg_num_entries tb"
  proof (cases "cur = []")
    case True
    then show ?thesis using that [of tb ps] flush_nothing assms(4,5) by simp
  next
    case False
    have "entries_size cur + 8 < 2 ^ 30" using assms(5,8) by auto
    then show ?thesis using flush_holds [OF assms(4) False] that assms(5) by fastforce
  qed
  have h: "tg_options tb1 = options" "tg_status tb1 = OK" "content (tg_file tb1) = parts_image ps1"
    "tg_offset tb1 = length (parts_image ps1)" "\<forall>p \<in> set ps1. part_ok ?n p"
    "tg_filter_block tb1 = map_option (\<lambda>policy. filtergen_blocks policy (filter_parts ps1 @ [(length (parts_image ps1), [])]))
       (op_filter_policy options)"
    using 1(2) by (auto simp: tablegen_holds_def)
  obtain f2 fb where 2: "finish_filter ops (tb1\<lparr>tg_closed := True\<rparr>) =
      (map_option (\<lambda>policy. handle_at (length (parts_image ps1)) (filter_data policy ps1)) (op_filter_policy options),
       tb1\<lparr>tg_closed := True, tg_filter_block := fb, tg_file := f2, tg_status := OK,
           tg_offset := length (parts_image ps1 @ filter_section options ps1)\<rparr>)"
     "content f2 = parts_image ps1 @ filter_section options ps1"
    using finish_filter_ok [of "tb1\<lparr>tg_closed := True\<rparr>" ps1 options] h by auto
  define tb2 where "tb2 = tb1\<lparr>tg_closed := True, tg_filter_block := fb, tg_file := f2, tg_status := OK,
           tg_offset := length (parts_image ps1 @ filter_section options ps1)\<rparr>"
  note meta = metaindex_ok [OF assms(3), of ps1]
  obtain f3 m where 3: "ldb_tablegen_write_block ops tb2 (bb_of ?n (meta_entries options ps1)) =
       Some (handle_at (tg_offset tb2) (fst m),
         tb2\<lparr>tg_file := f3, tg_status := OK, tg_offset := tg_offset tb2 + length (stored_block (fst m) (snd m))\<rparr>, ldb_blockgen_init ?n)"
     "content f3 = content (tg_file tb2) @ stored_block (fst m) (snd m)"
     "uncompressed (fst m) (snd m) = Some (build_block ?n (meta_entries options ps1))"
     "length (fst m) \<le> length (build_block ?n (meta_entries options ps1))"
    using write_bb_ok [OF meta(2)] by blast
  define tb3 where "tb3 = tb2\<lparr>tg_file := f3, tg_status := OK, tg_offset := tg_offset tb2 + length (stored_block (fst m) (snd m))\<rparr>"
  define tb4 where "tb4 = (if tg_pending_index_entry tb3
      then add_index_entry tb3 (ldb_short_successor c (tg_last_key tb3)) else tb3)"
  obtain ks' where 4: "tg_index_block tb4 = bb_of 1 (index_entries ps1 ks')" "length ks' = length ps1"
    "separators c (map fst ps1) ks'" "index_keys_ok c ps1 ks'"
    using table_order.last_entry_holds [OF assms(1,2) 1(2)] assms(6,7) 1(3)
    unfolding tb4_def tb3_def tb2_def by (auto simp: add_index_entry_def Let_def split: if_splits)
  have same: "tg_offset tb4 = tg_offset tb3" "tg_file tb4 = tg_file tb3" "tg_num_entries tb4 = tg_num_entries tb"
    using 1(4) by (simp_all add: tb4_def tb3_def tb2_def add_index_entry_def Let_def)
  have "length (build_block 1 (index_entries ps1 ks')) < 2 ^ 30"
    using build_block_length [of 1 "index_entries ps1 ks'"] index_entries_size [OF h(5) 4(4)] 4(2) 1(3) assms(8)
    by (simp add: index_entries_def)
  then obtain f5 x where 5: "ldb_tablegen_write_block ops tb4 (bb_of 1 (index_entries ps1 ks')) =
       Some (handle_at (tg_offset tb4) (fst x),
         tb4\<lparr>tg_file := f5, tg_status := OK, tg_offset := tg_offset tb4 + length (stored_block (fst x) (snd x))\<rparr>, ldb_blockgen_init 1)"
     "content f5 = content (tg_file tb4) @ stored_block (fst x) (snd x)"
     "uncompressed (fst x) (snd x) = Some (build_block 1 (index_entries ps1 ks'))"
     "length (fst x) \<le> length (build_block 1 (index_entries ps1 ks'))"
    using write_bb_ok by blast
  define footer where "footer = \<lparr>ft_metaindex_handle = handle_at (tg_offset tb2) (fst m), ft_index_handle = handle_at (tg_offset tb4) (fst x)\<rparr>"
  define tb5 where "tb5 = tb4\<lparr>tg_file := f5, tg_status := OK, tg_offset := tg_offset tb4 + length (stored_block (fst x) (snd x)),
      tg_index_block := ldb_blockgen_init 1\<rparr>"
  obtain r6 f6 where 6: "wf_append ops f5 (ldb_footer_write footer) = (r6, f6)" by fastforce
  note f6 = append_ok [OF 6]
  have index: "finish_index ops tb3 = Some (handle_at (tg_offset tb4) (fst x), tb5)"
    using 5(1) 4(1) assms(2) h(1) unfolding finish_index_def tb4_def [unfolded assms(2) [symmetric]] tb5_def
    by (auto simp: tb3_def tb2_def Let_def tb4_def)
  have foot: "finish_footer ops tb5 footer = tb5\<lparr>tg_file := f6, tg_offset := tg_offset tb5 + LDB_FOOTER_SIZE\<rparr>"
    using 6 f6 by (simp add: finish_footer_def tb5_def ldb_footer_export_def footer_write_length)
  have "ldb_tablegen_finish ops tb = Some (OK, finish_footer ops tb5 footer)"
    using 1(1) 2(1) 3(1) meta(1) index h(1) foot
    by (simp add: ldb_tablegen_finish_def Let_def tb2_def [symmetric] tb3_def [symmetric] footer_def)
      (simp add: tb2_def tb3_def tb5_def)
  moreover have "content f6 = parts_image ps1 @ filter_section options ps1 @ stored_block (fst m) (snd m) @ stored_block (fst x) (snd x) @
       ldb_footer_write footer"
    using f6 5(2) 3(2) 2(2) same(2) by (simp add: tb3_def tb2_def)
  moreover have "tg_offset tb2 = length (parts_image ps1 @ filter_section options ps1)"
    "tg_offset tb4 = length (parts_image ps1 @ filter_section options ps1 @ stored_block (fst m) (snd m))"
    using same(1) by (simp_all add: tb3_def tb2_def)
  ultimately show ?thesis
    using 1(3) h(5) 4 3(3,4) 5(3,4) same(3) assms(2) unfolding foot
    by (intro exI [of _ "tb5\<lparr>tg_file := f6, tg_offset := tg_offset tb5 + LDB_FOOTER_SIZE\<rparr>"] exI [of _ ps1] exI [of _ ks'] exI [of _ m] exI [of _ x])
      (simp add: table_layout_def footer_def tb5_def footer_write_length)
qed

lemma build_ok:
  assumes "table_order c" "op_comparator options = c" "name_fits options" "content file = []"
    and "sorted_wrt (\<lambda>x y. ldb_compare c (fst x) (fst y) < 0) es" "\<forall>e \<in> set es. table_key c (fst e)"
    and "entries_size es + 8 < 2 ^ 30"
  shows "\<exists>tb tb' ps ks m x. tablegen_add_all ops (ldb_tablegen_create options file) es = Some tb \<and>
    ldb_tablegen_finish ops tb = Some (OK, tb') \<and> concat (map fst ps) = es \<and>
    table_layout options (content (tg_file tb')) ps ks m x \<and> ldb_tablegen_size tb' = length (content (tg_file tb')) \<and>
    ldb_tablegen_entries tb' = length es"
proof -
  have init: "tablegen_holds options content (ldb_tablegen_create options file) [] [] []"
    using tablegen_init_holds [where content = content, OF assms(4)] by (simp add: ldb_tablegen_create_def)
  have "tg_num_entries (ldb_tablegen_create options file) = 0" by (simp add: ldb_tablegen_create_def ldb_tablegen_init_def)
  then obtain tb ps cur ks where b: "tablegen_add_all ops (ldb_tablegen_create options file) es = Some tb"
    "tablegen_holds options content tb ps cur ks" "concat (map fst ps) @ cur = es" "tg_num_entries tb = length es"
    using add_all_holds [OF assms(1,2) init _ assms(5-7)] by blast
  show ?thesis
    using finish_ok [OF assms(1-3) b(2,3) assms(5-7)] b(1,4)
    by (auto simp: ldb_tablegen_size_def ldb_tablegen_entries_def)
qed

end

section \<open>Comparators for tables\<close>

interpretation bytewise_table: table_order bytewise_comparator
proof unfold_locales
  have len: "length (shortest_separator x y) \<le> length x" for x y
    using shortest_separator_between [of x y] shortest_separator_none [of x y] by (cases "x < y") auto
  show "table_key bytewise_comparator (ldb_shortest_separator bytewise_comparator x y) \<and>
      length (ldb_shortest_separator bytewise_comparator x y) \<le> length x" for x y
    using len by (simp add: table_key_def ldb_shortest_separator_def bytewise_comparator_def)
  show "ldb_compare bytewise_comparator x y < 0 \<Longrightarrow> same_key bytewise_comparator (ldb_shortest_separator bytewise_comparator x y) y \<Longrightarrow>
      ldb_shortest_separator bytewise_comparator x y = x" for x y
    using shortest_separator_between [of x y]
    by (auto simp: same_key_def ldb_shortest_separator_def bytewise_comparator_def ldb_compare_def)
qed (auto simp: table_key_def ldb_shortest_separator_def ldb_short_successor_def bytewise_comparator_def
      ldb_compare_def same_key_def shortest_separator_between short_successor_ge)

lemma ikc_sep_length:
  assumes "8 \<le> length x"
  shows "8 \<le> length (ldb_ikc_shortest_separator uc x y) \<and> length (ldb_ikc_shortest_separator uc x y) \<le> length x"
    "8 \<le> length (ldb_ikc_short_successor uc x) \<and> length (ldb_ikc_short_successor uc x) \<le> length x"
  using assms by (simp_all add: ldb_ikc_shortest_separator_def ldb_ikc_short_successor_def Let_def ldb_extract_user_key_def; linarith)+

lemma same_ikc:
  "same_key (ldb_ikc_init uc) x y \<longleftrightarrow> ldb_compare uc (ldb_extract_user_key x) (ldb_extract_user_key y) = 0"
  by (simp add: same_key_def ldb_ikc_init_def)

context user_separators
begin

lemma ikc_separator_same:
  assumes "ldb_ikc_compare uc x y < 0"
    and "ldb_compare uc (ldb_extract_user_key (ldb_ikc_shortest_separator uc x y)) (ldb_extract_user_key y) = 0"
  shows "ldb_ikc_shortest_separator uc x y = x"
proof -
  let ?s = "ldb_extract_user_key x" and ?l = "ldb_extract_user_key y"
  have "\<not> (length (sep ?s ?l) < length ?s \<and> ldb_compare uc ?s (sep ?s ?l) < 0)"
  proof
    assume *: "length (sep ?s ?l) < length ?s \<and> ldb_compare uc ?s (sep ?s ?l) < 0"
    then have "ldb_compare uc ?s ?l < 0" using sep_none by (metis less_irrefl)
    then have "ldb_compare uc (sep ?s ?l) ?l < 0" by (rule sep_less)
    then show False using * assms(2) by (simp add: ldb_ikc_shortest_separator_def uc_sep Let_def)
  qed
  then show ?thesis by (auto simp: ldb_ikc_shortest_separator_def uc_sep Let_def)
qed

end

sublocale user_separators \<subseteq> ikt: table_order "ldb_ikc_init uc"
proof unfold_locales
  have cmp: "ldb_compare (ldb_ikc_init uc) = ldb_ikc_compare uc"
    "ldb_shortest_separator (ldb_ikc_init uc) = ldb_ikc_shortest_separator uc"
    "ldb_short_successor (ldb_ikc_init uc) = ldb_ikc_short_successor uc"
    "table_key (ldb_ikc_init uc) k \<longleftrightarrow> 8 \<le> length k" for k
    by (simp_all only: ikc_compare_eq) (simp_all add: fun_eq_iff ldb_shortest_separator_def ldb_short_successor_def ldb_ikc_init_def
        uc_sep uc_succ table_key_def)
  fix x y
  assume x: "table_key (ldb_ikc_init uc) x"
  show "ldb_compare (ldb_ikc_init uc) x y < 0 \<Longrightarrow>
      ldb_compare (ldb_ikc_init uc) x (ldb_shortest_separator (ldb_ikc_init uc) x y) \<le> 0 \<and>
      ldb_compare (ldb_ikc_init uc) (ldb_shortest_separator (ldb_ikc_init uc) x y) y < 0"
    unfolding cmp by (rule ikc_separator_between)
  show "ldb_compare (ldb_ikc_init uc) x y < 0 \<Longrightarrow> same_key (ldb_ikc_init uc) (ldb_shortest_separator (ldb_ikc_init uc) x y) y \<Longrightarrow>
      ldb_shortest_separator (ldb_ikc_init uc) x y = x"
    unfolding cmp same_ikc by (rule ikc_separator_same)
  show "table_key (ldb_ikc_init uc) (ldb_shortest_separator (ldb_ikc_init uc) x y) \<and>
      length (ldb_shortest_separator (ldb_ikc_init uc) x y) \<le> length x"
    "table_key (ldb_ikc_init uc) (ldb_short_successor (ldb_ikc_init uc) x) \<and>
      length (ldb_short_successor (ldb_ikc_init uc) x) \<le> length x"
    using x unfolding cmp by (simp_all add: ikc_sep_length)
  show "ldb_compare (ldb_ikc_init uc) x (ldb_short_successor (ldb_ikc_init uc) x) \<le> 0"
    unfolding cmp by (rule ikc_successor_ge)
next
  fix x y z
  show "same_key (ldb_ikc_init uc) x z \<Longrightarrow> ldb_compare (ldb_ikc_init uc) x y \<le> 0 \<Longrightarrow>
      ldb_compare (ldb_ikc_init uc) y z \<le> 0 \<Longrightarrow> same_key (ldb_ikc_init uc) x y"
    using cmp_less_le_trans [of "ldb_extract_user_key x" "ldb_extract_user_key y" "ldb_extract_user_key z"]
    unfolding same_ikc ikc_compare_eq ikc_le_iff by auto
  show "same_key (ldb_ikc_init uc) x y \<Longrightarrow> same_key (ldb_ikc_init uc) x z \<Longrightarrow> same_key (ldb_ikc_init uc) y z"
    unfolding same_ikc using cmp_eq_cong(2) [of "ldb_extract_user_key x" "ldb_extract_user_key y" "ldb_extract_user_key z"] by simp
qed

end
