(* ===== verification/Two_Level.thy ===== *)
theory Two_Level
  imports Iter_Wrapper
begin

text \<open>
  The two-level iterator of \<^verbatim>\<open>engine/src/table/two_level_iterator.c\<close>: an index iterator
  whose values name blocks, and the iterator of the current block.  The function that
  opens a block is a member of the iterator, as in the code; its argument and the read
  options are already applied.  The function reads and changes what it shares with others, the
  block cache: its state \<open>ti_world\<close>.  With the iterator of a block it registers a cleanup,
  which runs when that iterator is destroyed: \<open>ti_cleanup\<close> is the argument of the cleanup of the
  current block iterator, and \<open>ti_release\<close> its function.  When the index and the block iterators
  meet the iterator contract and the index keys separate the blocks, the two-level iterator meets
  the contract for the concatenation of the blocks, empty blocks included.
\<close>

section \<open>The iterator\<close>

record ('w, 'h, 'x, 'd) ldb_twoiter =
  ti_block_function :: "'w \<Rightarrow> bytes \<Rightarrow> ('d \<times> 'h) \<times> 'w"
  ti_release :: "'w \<Rightarrow> 'h \<Rightarrow> 'w"
  ti_world :: 'w
  ti_cleanup :: "'h option"
  ti_status :: status
  ti_index_iter :: "'x ldb_wrapiter"
  ti_data_iter :: "'d ldb_wrapiter"
  ti_data_block_handle :: bytes

definition ldb_twoiter_valid :: "('w, 'h, 'x, 'd) ldb_twoiter \<Rightarrow> bool" where
  "ldb_twoiter_valid iter = ldb_wrapiter_valid (ti_data_iter iter)"

definition ldb_twoiter_key :: "('w, 'h, 'x, 'd) ldb_twoiter \<Rightarrow> bytes" where
  "ldb_twoiter_key iter = ldb_wrapiter_key (ti_data_iter iter)"

definition ldb_twoiter_value :: "'d ldb_itertbl \<Rightarrow> ('w, 'h, 'x, 'd) ldb_twoiter \<Rightarrow> bytes" where
  "ldb_twoiter_value TD iter = ldb_wrapiter_value TD (ti_data_iter iter)"

text \<open>The index iterator is never null.\<close>

definition ldb_twoiter_status :: "'x ldb_itertbl \<Rightarrow> 'd ldb_itertbl \<Rightarrow> ('w, 'h, 'x, 'd) ldb_twoiter \<Rightarrow> status" where
  "ldb_twoiter_status TX TD iter =
     (let rc = (case ldb_wrapiter_status TX (ti_index_iter iter) of None \<Rightarrow> OK | Some rc \<Rightarrow> rc) in
      if rc \<noteq> OK then rc
      else (case ldb_wrapiter_status TD (ti_data_iter iter) of
              None \<Rightarrow> ti_status iter
            | Some rc \<Rightarrow> if rc \<noteq> OK then rc else ti_status iter))"

definition ldb_twoiter_saverr :: "('w, 'h, 'x, 'd) ldb_twoiter \<Rightarrow> status \<Rightarrow> ('w, 'h, 'x, 'd) ldb_twoiter" where
  "ldb_twoiter_saverr iter status =
     (if ti_status iter = OK \<and> status \<noteq> OK then iter\<lparr>ti_status := status\<rparr> else iter)"

definition ldb_twoiter_init :: "'x ldb_itertbl \<Rightarrow> 'd ldb_itertbl \<Rightarrow> 'x \<Rightarrow> ('w \<Rightarrow> bytes \<Rightarrow> ('d \<times> 'h) \<times> 'w) \<Rightarrow>
    ('w \<Rightarrow> 'h \<Rightarrow> 'w) \<Rightarrow> 'w \<Rightarrow> ('w, 'h, 'x, 'd) ldb_twoiter" where
  "ldb_twoiter_init TX TD index_iter block_function release world =
     \<lparr>ti_block_function = block_function, ti_release = release, ti_world = world, ti_cleanup = None, ti_status = OK,
      ti_index_iter = ldb_wrapiter_init TX (Some index_iter), ti_data_iter = ldb_wrapiter_init TD None,
      ti_data_block_handle = []\<rparr>"

text \<open>The cleanup of the current block iterator runs.\<close>

definition run_cleanup :: "('w, 'h, 'x, 'd) ldb_twoiter \<Rightarrow> 'w \<Rightarrow> 'w" where
  "run_cleanup iter w = (case ti_cleanup iter of None \<Rightarrow> w | Some h \<Rightarrow> ti_release iter w h)"

text \<open>What is left of the shared state when the iterator is destroyed.\<close>

definition ldb_twoiter_clear :: "('w, 'h, 'x, 'd) ldb_twoiter \<Rightarrow> 'w" where
  "ldb_twoiter_clear iter = run_cleanup iter (ti_world iter)"

definition ldb_twoiter_set_data_iter :: "'d ldb_itertbl \<Rightarrow> ('w, 'h, 'x, 'd) ldb_twoiter \<Rightarrow> ('d \<times> 'h) option \<Rightarrow>
    ('w, 'h, 'x, 'd) ldb_twoiter" where
  "ldb_twoiter_set_data_iter TD iter data_iter =
     (let iter = (case ldb_wrapiter_status TD (ti_data_iter iter) of
                    None \<Rightarrow> iter | Some rc \<Rightarrow> ldb_twoiter_saverr iter rc)
      in iter\<lparr>ti_world := run_cleanup iter (ti_world iter), ti_cleanup := map_option snd data_iter,
           ti_data_iter := ldb_wrapiter_set TD (ti_data_iter iter) (map_option fst data_iter)\<rparr>)"

definition ldb_twoiter_init_data_block :: "'x ldb_itertbl \<Rightarrow> 'd ldb_itertbl \<Rightarrow> ('w, 'h, 'x, 'd) ldb_twoiter \<Rightarrow> ('w, 'h, 'x, 'd) ldb_twoiter" where
  "ldb_twoiter_init_data_block TX TD iter =
     (if \<not> ldb_wrapiter_valid (ti_index_iter iter) then ldb_twoiter_set_data_iter TD iter None
      else
        (let handle = ldb_wrapiter_value TX (ti_index_iter iter) in
         if wi_iter (ti_data_iter iter) \<noteq> None \<and> ldb_slice_equal handle (ti_data_block_handle iter) then iter
         else (case ti_block_function iter (ti_world iter) handle of
                 (data_iter, world) \<Rightarrow>
                   (let iter = iter\<lparr>ti_world := world, ti_data_block_handle := handle\<rparr>
                    in ldb_twoiter_set_data_iter TD iter (Some data_iter)))))"

text \<open>\<open>if (iter->data_iter.iter != NULL)\<close> move it.\<close>

definition move_data :: "('d ldb_wrapiter \<Rightarrow> 'd ldb_wrapiter option) \<Rightarrow> ('w, 'h, 'x, 'd) ldb_twoiter \<Rightarrow> ('w, 'h, 'x, 'd) ldb_twoiter option" where
  "move_data f iter =
     (if wi_iter (ti_data_iter iter) \<noteq> None
      then map_option (\<lambda>d. iter\<lparr>ti_data_iter := d\<rparr>) (f (ti_data_iter iter)) else Some iter)"

partial_function (option) ldb_twoiter_skip_forward ::
  "'x ldb_itertbl \<Rightarrow> 'd ldb_itertbl \<Rightarrow> ('w, 'h, 'x, 'd) ldb_twoiter \<Rightarrow> ('w, 'h, 'x, 'd) ldb_twoiter option" where
  "ldb_twoiter_skip_forward TX TD iter =
     (if wi_iter (ti_data_iter iter) = None \<or> \<not> ldb_wrapiter_valid (ti_data_iter iter) then
        if \<not> ldb_wrapiter_valid (ti_index_iter iter) then Some (ldb_twoiter_set_data_iter TD iter None)
        else Option.bind (ldb_wrapiter_next TX (ti_index_iter iter)) (\<lambda>ix.
               let iter = ldb_twoiter_init_data_block TX TD (iter\<lparr>ti_index_iter := ix\<rparr>)
               in Option.bind (move_data (ldb_wrapiter_first TD) iter) (ldb_twoiter_skip_forward TX TD))
      else Some iter)"

partial_function (option) ldb_twoiter_skip_backward ::
  "'x ldb_itertbl \<Rightarrow> 'd ldb_itertbl \<Rightarrow> ('w, 'h, 'x, 'd) ldb_twoiter \<Rightarrow> ('w, 'h, 'x, 'd) ldb_twoiter option" where
  "ldb_twoiter_skip_backward TX TD iter =
     (if wi_iter (ti_data_iter iter) = None \<or> \<not> ldb_wrapiter_valid (ti_data_iter iter) then
        if \<not> ldb_wrapiter_valid (ti_index_iter iter) then Some (ldb_twoiter_set_data_iter TD iter None)
        else Option.bind (ldb_wrapiter_prev TX (ti_index_iter iter)) (\<lambda>ix.
               let iter = ldb_twoiter_init_data_block TX TD (iter\<lparr>ti_index_iter := ix\<rparr>)
               in Option.bind (move_data (ldb_wrapiter_last TD) iter) (ldb_twoiter_skip_backward TX TD))
      else Some iter)"

declare ldb_twoiter_skip_forward.simps [code] ldb_twoiter_skip_backward.simps [code]

text \<open>The common shape of seek, first and last.\<close>

definition move_both :: "'x ldb_itertbl \<Rightarrow> 'd ldb_itertbl \<Rightarrow> ('x ldb_wrapiter \<Rightarrow> 'x ldb_wrapiter option) \<Rightarrow>
    ('d ldb_wrapiter \<Rightarrow> 'd ldb_wrapiter option) \<Rightarrow> ('w, 'h, 'x, 'd) ldb_twoiter \<Rightarrow> ('w, 'h, 'x, 'd) ldb_twoiter option" where
  "move_both TX TD f g iter =
     Option.bind (f (ti_index_iter iter)) (\<lambda>ix.
       let iter = ldb_twoiter_init_data_block TX TD (iter\<lparr>ti_index_iter := ix\<rparr>) in move_data g iter)"

definition ldb_twoiter_seek :: "'x ldb_itertbl \<Rightarrow> 'd ldb_itertbl \<Rightarrow> ('w, 'h, 'x, 'd) ldb_twoiter \<Rightarrow> bytes \<Rightarrow> ('w, 'h, 'x, 'd) ldb_twoiter option" where
  "ldb_twoiter_seek TX TD iter t =
     Option.bind (move_both TX TD (\<lambda>ix. ldb_wrapiter_seek TX ix t) (\<lambda>d. ldb_wrapiter_seek TD d t) iter)
       (ldb_twoiter_skip_forward TX TD)"

definition ldb_twoiter_first :: "'x ldb_itertbl \<Rightarrow> 'd ldb_itertbl \<Rightarrow> ('w, 'h, 'x, 'd) ldb_twoiter \<Rightarrow> ('w, 'h, 'x, 'd) ldb_twoiter option" where
  "ldb_twoiter_first TX TD iter =
     Option.bind (move_both TX TD (ldb_wrapiter_first TX) (ldb_wrapiter_first TD) iter) (ldb_twoiter_skip_forward TX TD)"

definition ldb_twoiter_last :: "'x ldb_itertbl \<Rightarrow> 'd ldb_itertbl \<Rightarrow> ('w, 'h, 'x, 'd) ldb_twoiter \<Rightarrow> ('w, 'h, 'x, 'd) ldb_twoiter option" where
  "ldb_twoiter_last TX TD iter =
     Option.bind (move_both TX TD (ldb_wrapiter_last TX) (ldb_wrapiter_last TD) iter) (ldb_twoiter_skip_backward TX TD)"

definition ldb_twoiter_next :: "'x ldb_itertbl \<Rightarrow> 'd ldb_itertbl \<Rightarrow> ('w, 'h, 'x, 'd) ldb_twoiter \<Rightarrow> ('w, 'h, 'x, 'd) ldb_twoiter option" where
  "ldb_twoiter_next TX TD iter =
     Option.bind (ldb_wrapiter_next TD (ti_data_iter iter)) (\<lambda>d.
       ldb_twoiter_skip_forward TX TD (iter\<lparr>ti_data_iter := d\<rparr>))"

definition ldb_twoiter_prev :: "'x ldb_itertbl \<Rightarrow> 'd ldb_itertbl \<Rightarrow> ('w, 'h, 'x, 'd) ldb_twoiter \<Rightarrow> ('w, 'h, 'x, 'd) ldb_twoiter option" where
  "ldb_twoiter_prev TX TD iter =
     Option.bind (ldb_wrapiter_prev TD (ti_data_iter iter)) (\<lambda>d.
       ldb_twoiter_skip_backward TX TD (iter\<lparr>ti_data_iter := d\<rparr>))"

text \<open>The table of the \<open>LDB_ITERATOR_FUNCTIONS(ldb_twoiter)\<close> line.\<close>

definition ldb_twoiter_table :: "'x ldb_itertbl \<Rightarrow> 'd ldb_itertbl \<Rightarrow> ('w, 'h, 'x, 'd) ldb_twoiter ldb_itertbl" where
  "ldb_twoiter_table TX TD =
     \<lparr>tb_valid = ldb_twoiter_valid, tb_first = ldb_twoiter_first TX TD, tb_last = ldb_twoiter_last TX TD,
      tb_seek = ldb_twoiter_seek TX TD, tb_next = ldb_twoiter_next TX TD, tb_prev = ldb_twoiter_prev TX TD,
      tb_key = ldb_twoiter_key, tb_value = ldb_twoiter_value TD, tb_status = ldb_twoiter_status TX TD\<rparr>"

section \<open>Blocks and their offsets\<close>

text \<open>
  \<open>ixs\<close> are the entries of the index, \<open>blk\<close> the entries of the block behind a handle.  An
  index key is not before any key of its block and before every key of the later blocks.
\<close>

definition blocks :: "(bytes \<times> bytes) list \<Rightarrow> (bytes \<Rightarrow> (bytes \<times> bytes) list) \<Rightarrow> (bytes \<times> bytes) list list" where
  "blocks ixs blk = map (\<lambda>e. blk (snd e)) ixs"

definition index_ok :: "(bytes \<Rightarrow> bytes \<Rightarrow> bool) \<Rightarrow> (bytes \<times> bytes) list \<Rightarrow> (bytes \<Rightarrow> (bytes \<times> bytes) list) \<Rightarrow> bool" where
  "index_ok before ixs blk \<longleftrightarrow>
     (\<forall>i < length ixs. \<forall>e \<in> set (blk (snd (ixs ! i))). \<not> before (fst (ixs ! i)) (fst e)) \<and>
     (\<forall>i < length ixs. \<forall>j < length ixs. i < j \<longrightarrow> (\<forall>e \<in> set (blk (snd (ixs ! j))). before (fst (ixs ! i)) (fst e)))"

definition part_start :: "'a list list \<Rightarrow> nat \<Rightarrow> nat" where
  "part_start xss i = length (concat (take i xss))"

lemma part_start_simps [simp]:
  "part_start xss 0 = 0" "part_start xss (length xss) = length (concat xss)"
  by (simp_all add: part_start_def)

lemma part_start_Suc: "i < length xss \<Longrightarrow> part_start xss (Suc i) = part_start xss i + length (xss ! i)"
  by (simp add: part_start_def take_Suc_conv_app_nth)

lemma part_start_le: "part_start xss i \<le> length (concat xss)"
  by (metis append_take_drop_id part_start_def concat_append le_add1 length_append)

lemma part_start_nth:
  assumes "i < length xss" "j < length (xss ! i)"
  shows "part_start xss i + j < length (concat xss)" "concat xss ! (part_start xss i + j) = xss ! i ! j"
proof -
  have split: "concat xss = concat (take i xss) @ xss ! i @ concat (drop (Suc i) xss)"
    using assms(1) by (metis concat.simps(2) concat_append id_take_nth_drop)
  show "part_start xss i + j < length (concat xss)"
    using assms(2) by (subst split) (simp add: part_start_def)
  show "concat xss ! (part_start xss i + j) = xss ! i ! j"
    using assms(2) by (subst split) (simp add: part_start_def nth_append)
qed

lemma takeWhile_concat:
  assumes "i < length xss" "\<And>j x. j < i \<Longrightarrow> x \<in> set (xss ! j) \<Longrightarrow> P x"
    and "\<And>j x. i < j \<Longrightarrow> j < length xss \<Longrightarrow> x \<in> set (xss ! j) \<Longrightarrow> \<not> P x"
  shows "length (takeWhile P (concat xss)) = part_start xss i + length (takeWhile P (xss ! i))"
proof -
  have split: "concat xss = concat (take i xss) @ xss ! i @ concat (drop (Suc i) xss)"
    using assms(1) by (metis concat.simps(2) concat_append id_take_nth_drop)
  have all: "\<forall>x \<in> set (concat (take i xss)). P x" using assms(1,2) by (auto simp: in_set_conv_nth [of _ "take i xss"])
  have "\<not> P x" if "x \<in> set ys" "ys \<in> set (drop (Suc i) xss)" for x ys
  proof -
    obtain k where "k < length (drop (Suc i) xss)" "drop (Suc i) xss ! k = ys" using \<open>ys \<in> _\<close> by (auto simp: in_set_conv_nth)
    then show ?thesis using assms(3) [of "Suc i + k" x] that(1) by simp
  qed
  then have none: "\<forall>x \<in> set (concat (drop (Suc i) xss)). \<not> P x" by auto
  then have "takeWhile P (concat (drop (Suc i) xss)) = []"
    by (metis takeWhile_eq_Nil_iff hd_in_set)
  then have "takeWhile P (xss ! i @ concat (drop (Suc i) xss)) = takeWhile P (xss ! i)"
    by (simp add: takeWhile_append) (metis takeWhile_eq_all_conv)
  moreover have "takeWhile P (concat (take i xss) @ ys) = concat (take i xss) @ takeWhile P ys" for ys
    by (rule takeWhile_append2) (use all in blast)
  ultimately show ?thesis by (subst split) (simp add: part_start_def)
qed

section \<open>Positions\<close>

text \<open>
  \<open>winv\<close> relates the shared state to the cleanup of the current block iterator: while it holds, the block
  function finds the right block and, once the former block iterator is destroyed, it holds again.
\<close>

definition block_fun_ok :: "('h option \<Rightarrow> 'w \<Rightarrow> bool) \<Rightarrow> ('d \<Rightarrow> (bytes \<times> bytes) list \<Rightarrow> nat \<Rightarrow> bool) \<Rightarrow> ('w \<Rightarrow> bytes \<Rightarrow> ('d \<times> 'h) \<times> 'w) \<Rightarrow>
    ('w \<Rightarrow> 'h \<Rightarrow> 'w) \<Rightarrow> (bytes \<times> bytes) list \<Rightarrow> (bytes \<Rightarrow> (bytes \<times> bytes) list) \<Rightarrow> bool" where
  "block_fun_ok winv atd block_function release ixs blk \<longleftrightarrow>
     (\<forall>e \<in> set ixs. \<forall>h w. winv h w \<longrightarrow> (case block_function w (snd e) of
        ((d, h'), w') \<Rightarrow> (\<exists>j. atd d (blk (snd e)) j) \<and>
          winv (Some h') (case h of None \<Rightarrow> w' | Some h \<Rightarrow> release w' h))) \<and>
     (\<forall>h w. winv (Some h) w \<longrightarrow> winv None (release w h))"

text \<open>
  Between two steps: the index stands at \<open>i\<close>, and the block iterator, when there is one,
  walks the block that its handle names.
\<close>

definition two_mid :: "('h option \<Rightarrow> 'w \<Rightarrow> bool) \<Rightarrow> ('x \<Rightarrow> (bytes \<times> bytes) list \<Rightarrow> nat \<Rightarrow> bool) \<Rightarrow>
    ('d \<Rightarrow> (bytes \<times> bytes) list \<Rightarrow> nat \<Rightarrow> bool) \<Rightarrow> 'x ldb_itertbl \<Rightarrow> 'd ldb_itertbl \<Rightarrow> (bytes \<times> bytes) list \<Rightarrow>
    (bytes \<Rightarrow> (bytes \<times> bytes) list) \<Rightarrow> ('w, 'h, 'x, 'd) ldb_twoiter \<Rightarrow> nat \<Rightarrow> bool" where
  "two_mid winv atx atd TX TD ixs blk it i \<longleftrightarrow>
     block_fun_ok winv atd (ti_block_function it) (ti_release it) ixs blk \<and> winv (ti_cleanup it) (ti_world it) \<and>
     wrap_at atx TX (ti_index_iter it) ixs i \<and>
     (if wi_iter (ti_data_iter it) = None then \<not> wi_valid (ti_data_iter it)
      else \<exists>j. wrap_at atd TD (ti_data_iter it) (blk (ti_data_block_handle it)) j)"

text \<open>The block iterator stands at \<open>j\<close> in the block of the index entry \<open>i\<close>, or there is none.\<close>

definition two_pos :: "('h option \<Rightarrow> 'w \<Rightarrow> bool) \<Rightarrow> ('x \<Rightarrow> (bytes \<times> bytes) list \<Rightarrow> nat \<Rightarrow> bool) \<Rightarrow> ('d \<Rightarrow> (bytes \<times> bytes) list \<Rightarrow> nat \<Rightarrow> bool) \<Rightarrow>
    'x ldb_itertbl \<Rightarrow> 'd ldb_itertbl \<Rightarrow> (bytes \<times> bytes) list \<Rightarrow> (bytes \<Rightarrow> (bytes \<times> bytes) list) \<Rightarrow> ('w, 'h, 'x, 'd) ldb_twoiter \<Rightarrow> nat \<Rightarrow> nat \<Rightarrow> bool" where
  "two_pos winv atx atd TX TD ixs blk it i j \<longleftrightarrow>
     two_mid winv atx atd TX TD ixs blk it i \<and>
     (if i < length ixs
      then ti_data_block_handle it = snd (ixs ! i) \<and> wrap_at atd TD (ti_data_iter it) (blk (snd (ixs ! i))) j
      else wi_iter (ti_data_iter it) = None)"

definition two_at :: "('h option \<Rightarrow> 'w \<Rightarrow> bool) \<Rightarrow> (bytes \<Rightarrow> bytes \<Rightarrow> bool) \<Rightarrow> ('x \<Rightarrow> (bytes \<times> bytes) list \<Rightarrow> nat \<Rightarrow> bool) \<Rightarrow> ('d \<Rightarrow> (bytes \<times> bytes) list \<Rightarrow> nat \<Rightarrow> bool) \<Rightarrow>
    'x ldb_itertbl \<Rightarrow> 'd ldb_itertbl \<Rightarrow> ('w, 'h, 'x, 'd) ldb_twoiter \<Rightarrow> (bytes \<times> bytes) list \<Rightarrow> nat \<Rightarrow> bool" where
  "two_at winv before atx atd TX TD it es k \<longleftrightarrow>
     (\<exists>ixs blk i. index_ok before ixs blk \<and> es = concat (blocks ixs blk) \<and> two_mid winv atx atd TX TD ixs blk it i \<and>
        (if k < length es
         then \<exists>j. two_pos winv atx atd TX TD ixs blk it i j \<and> i < length ixs \<and> j < length (blk (snd (ixs ! i))) \<and>
              k = part_start (blocks ixs blk) i + j
         else k = length es \<and> wi_iter (ti_data_iter it) = None))"

lemma set_data_iter_None:
  "wi_iter (ti_data_iter (ldb_twoiter_set_data_iter TD it None)) = None"
  "\<not> wi_valid (ti_data_iter (ldb_twoiter_set_data_iter TD it None))"
  by (simp_all add: ldb_twoiter_set_data_iter_def ldb_twoiter_saverr_def ldb_wrapiter_set_def Let_def split: option.splits)

lemma set_data_iter_keeps:
  "ti_block_function (ldb_twoiter_set_data_iter TD it d) = ti_block_function it"
  "ti_release (ldb_twoiter_set_data_iter TD it d) = ti_release it"
  "ti_index_iter (ldb_twoiter_set_data_iter TD it d) = ti_index_iter it"
  "ti_data_block_handle (ldb_twoiter_set_data_iter TD it d) = ti_data_block_handle it"
  "ti_cleanup (ldb_twoiter_set_data_iter TD it d) = map_option snd d"
  "ti_world (ldb_twoiter_set_data_iter TD it d) = run_cleanup it (ti_world it)"
  by (simp_all add: ldb_twoiter_set_data_iter_def ldb_twoiter_saverr_def run_cleanup_def Let_def split: option.splits)

lemma set_data_iter_Some:
  "atd (fst d) es j \<Longrightarrow> wrap_at atd TD (ti_data_iter (ldb_twoiter_set_data_iter TD it (Some d))) es j"
  by (simp add: ldb_twoiter_set_data_iter_def ldb_twoiter_saverr_def Let_def wrap_at_set split: option.splits)

lemma cleanup_winv:
  "block_fun_ok winv atd f (ti_release it) ixs blk \<Longrightarrow> winv (ti_cleanup it) w \<Longrightarrow> winv None (run_cleanup it w)"
  by (auto simp: block_fun_ok_def run_cleanup_def split: option.split)

lemma two_mid_cleanup:
  assumes "two_mid winv atx atd TX TD ixs blk it i"
  shows "winv None (run_cleanup it (ti_world it))"
proof -
  have "block_fun_ok winv atd (ti_block_function it) (ti_release it) ixs blk" "winv (ti_cleanup it) (ti_world it)"
    using assms by (simp_all add: two_mid_def)
  then show ?thesis by (rule cleanup_winv)
qed

lemma two_mid_none:
  assumes "two_mid winv atx atd TX TD ixs blk it i"
  shows "two_mid winv atx atd TX TD ixs blk (ldb_twoiter_set_data_iter TD it None) i"
proof -
  have "winv None (run_cleanup it (ti_world it))" by (rule two_mid_cleanup [OF assms])
  then show ?thesis using assms by (simp add: two_mid_def set_data_iter_keeps set_data_iter_None)
qed

lemma wrap_at_not_null: "wrap_at at T w es k \<Longrightarrow> wi_iter w \<noteq> None"
  by (auto simp: wrap_at_def)

lemma two_mid_index:
  "two_mid winv atx atd TX TD ixs blk it i \<Longrightarrow> wrap_at atx TX ix ixs i' \<Longrightarrow>
   two_mid winv atx atd TX TD ixs blk (it\<lparr>ti_index_iter := ix\<rparr>) i'"
  by (simp add: two_mid_def)

lemma two_pos_data:
  "two_pos winv atx atd TX TD ixs blk it i j \<Longrightarrow> i < length ixs \<Longrightarrow> wrap_at atd TD d (blk (snd (ixs ! i))) j' \<Longrightarrow>
   two_pos winv atx atd TX TD ixs blk (it\<lparr>ti_data_iter := d\<rparr>) i j'"
  by (auto simp: two_pos_def two_mid_def dest: wrap_at_not_null)

section \<open>The contract\<close>

locale two_level = comparator "ldb_compare c" "\<lambda>_. True"
  + ix: iter_table "\<lambda>x y. ldb_compare c x y < 0" atx target TX + da: iter_table "\<lambda>x y. ldb_compare c x y < 0" atd target TD
  for c :: ldb_comparator and atx atd target and TX :: "'x ldb_itertbl" and TD :: "'d ldb_itertbl" +
  fixes winv :: "'h option \<Rightarrow> 'w \<Rightarrow> bool"
begin

lemma init_data_block:
  assumes "two_mid winv atx atd TX TD ixs blk it i"
  shows "\<exists>j. two_pos winv atx atd TX TD ixs blk (ldb_twoiter_init_data_block TX TD it) i j"
proof (cases "i < length ixs")
  case False
  then have "\<not> ldb_wrapiter_valid (ti_index_iter it)" using assms ix.wrap.at_valid by (auto simp: two_mid_def)
  then show ?thesis
    using False two_mid_none [OF assms] set_data_iter_None(1) [of TD it]
    by (simp add: ldb_twoiter_init_data_block_def two_pos_def)
next
  case True
  have w: "wrap_at atx TX (ti_index_iter it) ixs i" using assms by (simp add: two_mid_def)
  have valid: "ldb_wrapiter_valid (ti_index_iter it)" using ix.wrap.at_valid [OF w] True by simp
  have handle: "ldb_wrapiter_value TX (ti_index_iter it) = snd (ixs ! i)"
    using ix.wrap.at_entry [OF w True] by (metis snd_conv)
  show ?thesis
  proof (cases "wi_iter (ti_data_iter it) \<noteq> None \<and> snd (ixs ! i) = ti_data_block_handle it")
    case reuse: True
    then show ?thesis
      using assms True valid handle by (auto simp: ldb_twoiter_init_data_block_def two_pos_def two_mid_def)
  next
    case fresh: False
    let ?h = "snd (ixs ! i)"
    have ok: "block_fun_ok winv atd (ti_block_function it) (ti_release it) ixs blk" "winv (ti_cleanup it) (ti_world it)"
      using assms by (simp_all add: two_mid_def)
    obtain d h' w' where f: "ti_block_function it (ti_world it) ?h = ((d, h'), w')" by (metis surj_pair)
    have "ixs ! i \<in> set ixs" using True by simp
    then have j: "\<exists>j. atd d (blk ?h) j" and inv: "winv (Some h') (run_cleanup it w')"
      using ok f unfolding block_fun_ok_def run_cleanup_def by fastforce+
    let ?it = "it\<lparr>ti_world := w', ti_data_block_handle := ?h\<rparr>"
    have eq: "ldb_twoiter_init_data_block TX TD it = ldb_twoiter_set_data_iter TD ?it (Some (d, h'))"
      using fresh valid handle f by (auto simp: ldb_twoiter_init_data_block_def Let_def)
    obtain j where d: "wrap_at atd TD (ti_data_iter (ldb_twoiter_init_data_block TX TD it)) (blk ?h) j"
      unfolding eq using set_data_iter_Some [of atd "(d, h')"] j by fastforce
    have "run_cleanup ?it w' = run_cleanup it w'" by (simp add: run_cleanup_def split: option.split)
    then show ?thesis
      using assms True wrap_at_not_null [OF d] inv d
      by (intro exI [of _ j]) (auto simp: two_pos_def two_mid_def eq set_data_iter_keeps)
  qed
qed

lemma move_data_pos:
  assumes "two_pos winv atx atd TX TD ixs blk it i j"
    and "\<And>w j. i < length ixs \<Longrightarrow> wrap_at atd TD w (blk (snd (ixs ! i))) j \<Longrightarrow>
      \<exists>w'. g w = Some w' \<and> wrap_at atd TD w' (blk (snd (ixs ! i))) j'"
  shows "\<exists>it'. move_data g it = Some it' \<and> two_pos winv atx atd TX TD ixs blk it' i j'"
proof (cases "i < length ixs")
  case True
  then have w: "wrap_at atd TD (ti_data_iter it) (blk (snd (ixs ! i))) j" using assms(1) by (simp add: two_pos_def)
  obtain w' where "g (ti_data_iter it) = Some w'" "wrap_at atd TD w' (blk (snd (ixs ! i))) j'"
    using assms(2) [OF True w] by blast
  then show ?thesis using two_pos_data [OF assms(1) True] wrap_at_not_null [OF w] by (simp add: move_data_def)
qed (use assms(1) in \<open>auto simp: move_data_def two_pos_def\<close>)

lemma move_both_pos:
  assumes "two_mid winv atx atd TX TD ixs blk it i"
    and "\<And>w. wrap_at atx TX w ixs i \<Longrightarrow> \<exists>w'. f w = Some w' \<and> wrap_at atx TX w' ixs i'"
    and "\<And>w j. i' < length ixs \<Longrightarrow> wrap_at atd TD w (blk (snd (ixs ! i'))) j \<Longrightarrow>
      \<exists>w'. g w = Some w' \<and> wrap_at atd TD w' (blk (snd (ixs ! i'))) j'"
  shows "\<exists>it'. move_both TX TD f g it = Some it' \<and> two_pos winv atx atd TX TD ixs blk it' i' j'"
proof -
  obtain w where w: "f (ti_index_iter it) = Some w" "wrap_at atx TX w ixs i'"
    using assms(1,2) by (auto simp: two_mid_def)
  obtain j where j: "two_pos winv atx atd TX TD ixs blk (ldb_twoiter_init_data_block TX TD (it\<lparr>ti_index_iter := w\<rparr>)) i' j"
    using init_data_block [OF two_mid_index [OF assms(1) w(2)]] by blast
  show ?thesis using w(1) move_data_pos [OF j assms(3)] by (simp add: move_both_def)
qed

text \<open>Where a position in the middle ends up when it is past the end of its block.\<close>

lemma at_pos:
  assumes "index_ok (\<lambda>x y. ldb_compare c x y < 0) ixs blk" "two_pos winv atx atd TX TD ixs blk it i j"
    and "i < length ixs" "j < length (blk (snd (ixs ! i)))"
  shows "two_at winv (\<lambda>x y. ldb_compare c x y < 0) atx atd TX TD it (concat (blocks ixs blk)) (part_start (blocks ixs blk) i + j)"
proof -
  have "part_start (blocks ixs blk) i + j < length (concat (blocks ixs blk))"
    using part_start_nth(1) [of i "blocks ixs blk" j] assms(3,4) by (simp add: blocks_def)
  then show ?thesis
    using assms unfolding two_at_def by (intro exI [of _ ixs] exI [of _ blk] exI [of _ i]) (auto simp: two_pos_def)
qed

lemma at_end:
  assumes "index_ok (\<lambda>x y. ldb_compare c x y < 0) ixs blk" "two_mid winv atx atd TX TD ixs blk it i"
  shows "two_at winv (\<lambda>x y. ldb_compare c x y < 0) atx atd TX TD (ldb_twoiter_set_data_iter TD it None)
    (concat (blocks ixs blk)) (length (concat (blocks ixs blk)))"
  using assms(1) two_mid_none [OF assms(2)] set_data_iter_None [of TD it] unfolding two_at_def
  by (intro exI [of _ ixs] exI [of _ blk] exI [of _ i]) simp

lemma data_valid:
  assumes "two_pos winv atx atd TX TD ixs blk it i j"
  shows "\<not> (wi_iter (ti_data_iter it) = None \<or> \<not> ldb_wrapiter_valid (ti_data_iter it)) \<longleftrightarrow>
    i < length ixs \<and> j < length (blk (snd (ixs ! i)))"
    and "ldb_wrapiter_valid (ti_index_iter it) \<longleftrightarrow> i < length ixs"
  using assms da.wrap.at_valid [of "ti_data_iter it"] ix.wrap.at_valid [of "ti_index_iter it"]
  by (auto simp: two_pos_def two_mid_def dest: wrap_at_not_null split: if_splits)

lemma skip_forward_at:
  assumes "index_ok (\<lambda>x y. ldb_compare c x y < 0) ixs blk" "two_pos winv atx atd TX TD ixs blk it i j"
    and "i < length ixs \<Longrightarrow> j \<le> length (blk (snd (ixs ! i)))"
  shows "\<exists>it'. ldb_twoiter_skip_forward TX TD it = Some it' \<and>
    two_at winv (\<lambda>x y. ldb_compare c x y < 0) atx atd TX TD it' (concat (blocks ixs blk))
      (if i < length ixs then part_start (blocks ixs blk) i + j else length (concat (blocks ixs blk)))"
  using assms(2,3)
proof (induction "length ixs - i" arbitrary: it i j rule: less_induct)
  case less
  note pos = less.prems(1)
  show ?case
  proof (cases "i < length ixs \<and> j < length (blk (snd (ixs ! i)))")
    case True
    then show ?thesis
      using data_valid(1) [OF pos] at_pos [OF assms(1) pos] by (subst ldb_twoiter_skip_forward.simps) auto
  next
    case exhausted: False
    show ?thesis
    proof (cases "i < length ixs")
      case False
      have "two_mid winv atx atd TX TD ixs blk it i" using pos by (simp add: two_pos_def)
      then show ?thesis
        using False data_valid [OF pos] at_end [OF assms(1)] by (subst ldb_twoiter_skip_forward.simps) auto
    next
      case True
      have mid: "two_mid winv atx atd TX TD ixs blk it i" using pos by (simp add: two_pos_def)
      obtain it' where it': "move_both TX TD (ldb_wrapiter_next TX) (ldb_wrapiter_first TD) it = Some it'"
        "two_pos winv atx atd TX TD ixs blk it' (Suc i) 0"
        using move_both_pos [OF mid, of "ldb_wrapiter_next TX" "Suc i" "ldb_wrapiter_first TD" 0]
          ix.wrap.at_step [OF _ True] da.wrap.at_first by blast
      have "part_start (blocks ixs blk) (Suc i) = part_start (blocks ixs blk) i + j"
        using True exhausted less.prems(2) part_start_Suc [of i "blocks ixs blk"] by (simp add: blocks_def)
      moreover have "part_start (blocks ixs blk) (Suc i) = length (concat (blocks ixs blk))" if "\<not> Suc i < length ixs"
        using that True by (metis Suc_lessI blocks_def part_start_simps(2) length_map)
      ultimately have target: "(if Suc i < length ixs then part_start (blocks ixs blk) (Suc i) + 0
          else length (concat (blocks ixs blk))) = part_start (blocks ixs blk) i + j" by simp
      have "ldb_twoiter_skip_forward TX TD it = ldb_twoiter_skip_forward TX TD it'"
        using it'(1) data_valid [OF pos] exhausted True
        by (subst ldb_twoiter_skip_forward.simps) (auto simp: move_both_def Let_def split: bind_splits)
      then show ?thesis
        using less.hyps [OF _ it'(2)] True unfolding target by simp
    qed
  qed
qed

lemma skip_backward_at:
  assumes "index_ok (\<lambda>x y. ldb_compare c x y < 0) ixs blk" "two_pos winv atx atd TX TD ixs blk it i j"
  shows "\<exists>it'. ldb_twoiter_skip_backward TX TD it = Some it' \<and>
    two_at winv (\<lambda>x y. ldb_compare c x y < 0) atx atd TX TD it' (concat (blocks ixs blk))
      (if i < length ixs \<and> j < length (blk (snd (ixs ! i))) then part_start (blocks ixs blk) i + j
       else if i < length ixs \<and> 0 < part_start (blocks ixs blk) i then part_start (blocks ixs blk) i - 1
       else length (concat (blocks ixs blk)))"
  using assms(2)
proof (induction "if i < length ixs then Suc i else 0" arbitrary: it i j rule: less_induct)
  case less
  note pos = less.prems(1)
  have mid: "two_mid winv atx atd TX TD ixs blk it i" using pos by (simp add: two_pos_def)
  show ?case
  proof (cases "i < length ixs \<and> j < length (blk (snd (ixs ! i)))")
    case True
    then show ?thesis
      using data_valid(1) [OF pos] at_pos [OF assms(1) pos] by (subst ldb_twoiter_skip_backward.simps) auto
  next
    case exhausted: False
    show ?thesis
    proof (cases "i < length ixs")
      case False
      then show ?thesis
        using data_valid [OF pos] at_end [OF assms(1) mid] by (subst ldb_twoiter_skip_backward.simps) auto
    next
      case True
      define i' where "i' = (if i = 0 then length ixs else i - 1)"
      define j' where "j' = (if blk (snd (ixs ! i')) = [] then 0 else length (blk (snd (ixs ! i'))) - 1)"
      obtain it' where it': "move_both TX TD (ldb_wrapiter_prev TX) (ldb_wrapiter_last TD) it = Some it'"
        "two_pos winv atx atd TX TD ixs blk it' i' j'"
        using move_both_pos [OF mid, of "ldb_wrapiter_prev TX" i' "ldb_wrapiter_last TD" j']
          ix.wrap.at_back [OF _ True] da.wrap.at_final unfolding i'_def j'_def by blast
      have step: "ldb_twoiter_skip_backward TX TD it = ldb_twoiter_skip_backward TX TD it'"
        using it'(1) data_valid [OF pos] exhausted True
        by (subst ldb_twoiter_skip_backward.simps) (auto simp: move_both_def Let_def split: bind_splits)
      have "part_start (blocks ixs blk) i = part_start (blocks ixs blk) (i - 1) + length (blk (snd (ixs ! (i - 1))))" if "0 < i"
        using that True part_start_Suc [of "i - 1" "blocks ixs blk"] by (simp add: blocks_def)
      then have "(if i' < length ixs \<and> j' < length (blk (snd (ixs ! i'))) then part_start (blocks ixs blk) i' + j'
          else if i' < length ixs \<and> 0 < part_start (blocks ixs blk) i' then part_start (blocks ixs blk) i' - 1
          else length (concat (blocks ixs blk))) =
        (if 0 < part_start (blocks ixs blk) i then part_start (blocks ixs blk) i - 1 else length (concat (blocks ixs blk)))"
        using True by (cases "i = 0"; cases "blk (snd (ixs ! (i - 1)))") (auto simp: i'_def j'_def)
      moreover have "(if i' < length ixs then Suc i' else 0) < (if i < length ixs then Suc i else 0)"
        using True by (auto simp: i'_def)
      ultimately show ?thesis
        using less.hyps [OF _ it'(2)] True exhausted step by simp
    qed
  qed
qed

lemma two_seek_pos:
  fixes t
  assumes "index_ok (\<lambda>x y. ldb_compare c x y < 0) ixs blk"
  defines "i \<equiv> length (takeWhile (\<lambda>e. ldb_compare c (fst e) t < 0) ixs)"
  shows "length (takeWhile (\<lambda>e. ldb_compare c (fst e) t < 0) (concat (blocks ixs blk))) =
    (if i < length ixs
     then part_start (blocks ixs blk) i + length (takeWhile (\<lambda>e. ldb_compare c (fst e) t < 0) (blk (snd (ixs ! i))))
     else length (concat (blocks ixs blk)))"
proof -
  have before: "ldb_compare c (fst e) t < 0" if j: "j < i" "j < length ixs" and e: "e \<in> set (blk (snd (ixs ! j)))" for j e
  proof -
    have "ldb_compare c (fst (ixs ! j)) t < 0"
      using j(1) nth_mem [of j "takeWhile (\<lambda>e. ldb_compare c (fst e) t < 0) ixs"]
      by (metis (no_types, lifting) i_def set_takeWhileD takeWhile_nth)
    moreover have "\<not> ldb_compare c (fst (ixs ! j)) (fst e) < 0" using assms(1) j e by (simp add: index_ok_def)
    ultimately show ?thesis
      using cmp_le_less_trans [of "fst e" "fst (ixs ! j)" t] cmp_ge_iff [of "fst (ixs ! j)" "fst e"] by simp
  qed
  show ?thesis
  proof (cases "i < length ixs")
    case True
    have at: "\<not> ldb_compare c (fst (ixs ! i)) t < 0" using True nth_length_takeWhile [of "\<lambda>e. ldb_compare c (fst e) t < 0" ixs] by (simp add: i_def)
    have after: "\<not> ldb_compare c (fst e) t < 0" if j: "i < j" "j < length ixs" and e: "e \<in> set (blk (snd (ixs ! j)))" for j e
    proof
      assume "ldb_compare c (fst e) t < 0"
      moreover have "ldb_compare c (fst (ixs ! i)) (fst e) < 0" using assms(1) j e True by (simp add: index_ok_def)
      ultimately have "ldb_compare c (fst (ixs ! i)) t < 0" using cmp_le_less_trans [of "fst (ixs ! i)" "fst e" t] by simp
      then show False using at by simp
    qed
    show ?thesis
      using True takeWhile_concat [of i "blocks ixs blk" "\<lambda>e. ldb_compare c (fst e) t < 0"] before after
      by (simp add: blocks_def)
  next
    case False
    then have "i = length ixs" using length_takeWhile_le [of _ ixs] by (simp add: i_def le_antisym not_less)
    then have "\<forall>e \<in> set (concat (blocks ixs blk)). ldb_compare c (fst e) t < 0"
      using before by (auto simp: blocks_def in_set_conv_nth [of _ ixs])
    then show ?thesis using False by (simp add: takeWhile_eq_all_conv [THEN iffD2])
  qed
qed

lemma two_atE:
  assumes "two_at winv (\<lambda>x y. ldb_compare c x y < 0) atx atd TX TD it es k"
  obtains ixs blk i where "index_ok (\<lambda>x y. ldb_compare c x y < 0) ixs blk" "es = concat (blocks ixs blk)"
    "two_mid winv atx atd TX TD ixs blk it i"
  using assms unfolding two_at_def by blast

lemma two_at_entryE:
  assumes "two_at winv (\<lambda>x y. ldb_compare c x y < 0) atx atd TX TD it es k" "k < length es"
  obtains ixs blk i j where "index_ok (\<lambda>x y. ldb_compare c x y < 0) ixs blk" "es = concat (blocks ixs blk)"
    "two_pos winv atx atd TX TD ixs blk it i j" "i < length ixs" "j < length (blk (snd (ixs ! i)))"
    "k = part_start (blocks ixs blk) i + j" "wrap_at atd TD (ti_data_iter it) (blk (snd (ixs ! i))) j"
  using assms unfolding two_at_def by (auto simp: two_pos_def)

end

sublocale two_level \<subseteq> two: iter_contract "\<lambda>x y. ldb_compare c x y < 0" "two_at winv (\<lambda>x y. ldb_compare c x y < 0) atx atd TX TD"
  ldb_twoiter_valid ldb_twoiter_key "ldb_twoiter_value TD" "ldb_twoiter_first TX TD" "ldb_twoiter_last TX TD"
  "ldb_twoiter_next TX TD" "ldb_twoiter_prev TX TD" "ldb_twoiter_seek TX TD" target
proof (unfold_locales, goal_cases)
  case (1 it es k)
  show ?case
  proof (cases "k < length es")
    case True
    obtain ixs blk i j where p: "index_ok (\<lambda>x y. ldb_compare c x y < 0) ixs blk" "es = concat (blocks ixs blk)"
    "two_pos winv atx atd TX TD ixs blk it i j" "i < length ixs" "j < length (blk (snd (ixs ! i)))"
    "k = part_start (blocks ixs blk) i + j" "wrap_at atd TD (ti_data_iter it) (blk (snd (ixs ! i))) j"
      using two_at_entryE [OF 1 True] .
    then show ?thesis using True da.wrap.at_valid by (simp add: ldb_twoiter_valid_def)
  next
    case False
    then have "\<not> wi_valid (ti_data_iter it)" using 1 by (auto simp: two_at_def two_mid_def)
    then show ?thesis using False by (simp add: ldb_twoiter_valid_def ldb_wrapiter_valid_def)
  qed
next
  case (2 it es k)
  obtain ixs blk i j where p: "index_ok (\<lambda>x y. ldb_compare c x y < 0) ixs blk" "es = concat (blocks ixs blk)"
    "two_pos winv atx atd TX TD ixs blk it i j" "i < length ixs" "j < length (blk (snd (ixs ! i)))"
    "k = part_start (blocks ixs blk) i + j" "wrap_at atd TD (ti_data_iter it) (blk (snd (ixs ! i))) j"
    using two_at_entryE [OF 2] .
  have "es ! k = blk (snd (ixs ! i)) ! j"
    using part_start_nth(2) [of i "blocks ixs blk" j] p(2,4-6) by (simp add: blocks_def)
  then show ?case using da.wrap.at_entry [OF p(7,5)] by (simp add: ldb_twoiter_key_def ldb_twoiter_value_def)
next
  case (3 it es k)
  then obtain ixs blk i where p: "index_ok (\<lambda>x y. ldb_compare c x y < 0) ixs blk" "es = concat (blocks ixs blk)"
    "two_mid winv atx atd TX TD ixs blk it i" by (rule two_atE)
  obtain it' where it': "move_both TX TD (ldb_wrapiter_first TX) (ldb_wrapiter_first TD) it = Some it'"
    "two_pos winv atx atd TX TD ixs blk it' 0 0"
    using move_both_pos [OF p(3), of "ldb_wrapiter_first TX" 0 "ldb_wrapiter_first TD" 0]
      ix.wrap.at_first da.wrap.at_first by blast
  moreover have "(if 0 < length ixs then part_start (blocks ixs blk) 0 + 0 else length (concat (blocks ixs blk))) = 0"
    by (simp add: blocks_def)
  ultimately show ?case
    using skip_forward_at [OF p(1) it'(2)] p(2) by (auto simp: ldb_twoiter_first_def)
next
  case (4 it es k)
  then obtain ixs blk i where p: "index_ok (\<lambda>x y. ldb_compare c x y < 0) ixs blk" "es = concat (blocks ixs blk)"
    "two_mid winv atx atd TX TD ixs blk it i" by (rule two_atE)
  define i' where "i' = (if ixs = [] then 0 else length ixs - 1)"
  define j' where "j' = (if blk (snd (ixs ! i')) = [] then 0 else length (blk (snd (ixs ! i'))) - 1)"
  obtain it' where it': "move_both TX TD (ldb_wrapiter_last TX) (ldb_wrapiter_last TD) it = Some it'"
    "two_pos winv atx atd TX TD ixs blk it' i' j'"
    using move_both_pos [OF p(3), of "ldb_wrapiter_last TX" i' "ldb_wrapiter_last TD" j']
      ix.wrap.at_final da.wrap.at_final unfolding i'_def j'_def by blast
  have "length es = part_start (blocks ixs blk) i' + length (blk (snd (ixs ! i')))" if "ixs \<noteq> []"
    using that part_start_Suc [of i' "blocks ixs blk"] part_start_simps(2) [of "blocks ixs blk"] p(2)
    by (simp add: i'_def blocks_def)
  moreover have "ixs = [] \<Longrightarrow> es = []" using p(2) by (simp add: blocks_def)
  ultimately have target: "(if i' < length ixs \<and> j' < length (blk (snd (ixs ! i'))) then part_start (blocks ixs blk) i' + j'
       else if i' < length ixs \<and> 0 < part_start (blocks ixs blk) i' then part_start (blocks ixs blk) i' - 1
       else length es) = (if es = [] then 0 else length es - 1)"
    by (cases "ixs = []"; cases "blk (snd (ixs ! i'))"; cases es) (auto simp: i'_def j'_def)
  show ?case
    using skip_backward_at [OF p(1) it'(2)] it'(1) unfolding p(2) [symmetric] target by (auto simp: ldb_twoiter_last_def)
next
  case (5 it es k)
  obtain ixs blk i j where p: "index_ok (\<lambda>x y. ldb_compare c x y < 0) ixs blk" "es = concat (blocks ixs blk)"
    "two_pos winv atx atd TX TD ixs blk it i j" "i < length ixs" "j < length (blk (snd (ixs ! i)))"
    "k = part_start (blocks ixs blk) i + j" "wrap_at atd TD (ti_data_iter it) (blk (snd (ixs ! i))) j"
    using two_at_entryE [OF 5] .
  obtain d where d: "ldb_wrapiter_next TD (ti_data_iter it) = Some d" "wrap_at atd TD d (blk (snd (ixs ! i))) (Suc j)"
    using da.wrap.at_step [OF p(7,5)] by blast
  show ?case
    using skip_forward_at [OF p(1) two_pos_data [OF p(3,4) d(2)]] d(1) p(2,4,5,6) by (simp add: ldb_twoiter_next_def)
next
  case (6 it es k)
  obtain ixs blk i j where p: "index_ok (\<lambda>x y. ldb_compare c x y < 0) ixs blk" "es = concat (blocks ixs blk)"
    "two_pos winv atx atd TX TD ixs blk it i j" "i < length ixs" "j < length (blk (snd (ixs ! i)))"
    "k = part_start (blocks ixs blk) i + j" "wrap_at atd TD (ti_data_iter it) (blk (snd (ixs ! i))) j"
    using two_at_entryE [OF 6] .
  obtain d where d: "ldb_wrapiter_prev TD (ti_data_iter it) = Some d"
    "wrap_at atd TD d (blk (snd (ixs ! i))) (if j = 0 then length (blk (snd (ixs ! i))) else j - 1)"
    using da.wrap.at_back [OF p(7,5)] by blast
  show ?case
    using skip_backward_at [OF p(1) two_pos_data [OF p(3,4) d(2)]] d(1) p(2,4,5,6)
    by (cases "j = 0") (auto simp: ldb_twoiter_prev_def split: if_splits)
next
  case (7 it es k t)
  then obtain ixs blk i where p: "index_ok (\<lambda>x y. ldb_compare c x y < 0) ixs blk" "es = concat (blocks ixs blk)"
    "two_mid winv atx atd TX TD ixs blk it i" by (auto elim: two_atE)
  define i' where "i' = length (takeWhile (\<lambda>e. ldb_compare c (fst e) t < 0) ixs)"
  define j' where "j' = length (takeWhile (\<lambda>e. ldb_compare c (fst e) t < 0) (blk (snd (ixs ! i'))))"
  obtain it' where it': "move_both TX TD (\<lambda>x. ldb_wrapiter_seek TX x t) (\<lambda>d. ldb_wrapiter_seek TD d t) it = Some it'"
    "two_pos winv atx atd TX TD ixs blk it' i' j'"
    using move_both_pos [OF p(3), of "\<lambda>x. ldb_wrapiter_seek TX x t" i' "\<lambda>d. ldb_wrapiter_seek TD d t" j']
      ix.wrap.at_seek [OF _ 7(2)] da.wrap.at_seek [OF _ 7(2)] unfolding i'_def j'_def by blast
  have target: "length (takeWhile (\<lambda>e. ldb_compare c (fst e) t < 0) es) =
      (if i' < length ixs then part_start (blocks ixs blk) i' + j' else length es)"
    unfolding p(2) i'_def j'_def by (rule two_seek_pos [OF p(1)])
  have "j' \<le> length (blk (snd (ixs ! i')))" by (simp add: j'_def length_takeWhile_le)
  then show ?case
    using skip_forward_at [OF p(1) it'(2)] it'(1) unfolding p(2) [symmetric] target [symmetric]
    by (auto simp: ldb_twoiter_seek_def)
qed

context two_level
begin

lemma two_table: "iter_table (\<lambda>x y. ldb_compare c x y < 0) (two_at winv (\<lambda>x y. ldb_compare c x y < 0) atx atd TX TD) target
    (ldb_twoiter_table TX TD)"
  unfolding iter_table_def ldb_twoiter_table_def using two.iter_contract_axioms by simp

lemma two_at_init:
  assumes "index_ok (\<lambda>x y. ldb_compare c x y < 0) ixs blk" "atx index_iter ixs k"
    and "block_fun_ok winv atd block_function release ixs blk" "winv None world"
  shows "two_at winv (\<lambda>x y. ldb_compare c x y < 0) atx atd TX TD (ldb_twoiter_init TX TD index_iter block_function release world)
    (concat (blocks ixs blk)) (length (concat (blocks ixs blk)))"
  unfolding two_at_def
  using assms by (intro exI [of _ ixs] exI [of _ blk] exI [of _ k])
    (simp add: two_mid_def ldb_twoiter_init_def wrap_at_init, simp add: ldb_wrapiter_init_def)

text \<open>Others may change the shared state, and the end of the iterator runs the last cleanup.\<close>

lemma two_at_world:
  assumes "two_at winv (\<lambda>x y. ldb_compare c x y < 0) atx atd TX TD it es k"
  shows "winv (ti_cleanup it) (ti_world it)" "winv None (ldb_twoiter_clear it)"
    "winv (ti_cleanup it) w \<Longrightarrow> two_at winv (\<lambda>x y. ldb_compare c x y < 0) atx atd TX TD (it\<lparr>ti_world := w\<rparr>) es k"
proof -
  have mid: "two_mid winv atx atd TX TD ixs blk (it\<lparr>ti_world := w\<rparr>) i"
    if "two_mid winv atx atd TX TD ixs blk it i" "winv (ti_cleanup it) w" for ixs blk i using that by (simp add: two_mid_def)
  obtain ixs blk i where m: "two_mid winv atx atd TX TD ixs blk it i" using assms by (rule two_atE)
  show "winv (ti_cleanup it) (ti_world it)" using m by (simp add: two_mid_def)
  show "winv None (ldb_twoiter_clear it)" unfolding ldb_twoiter_clear_def by (rule two_mid_cleanup [OF m])
  show "two_at winv (\<lambda>x y. ldb_compare c x y < 0) atx atd TX TD (it\<lparr>ti_world := w\<rparr>) es k" if "winv (ti_cleanup it) w"
  proof -
    obtain ixs blk i where a: "index_ok (\<lambda>x y. ldb_compare c x y < 0) ixs blk" "es = concat (blocks ixs blk)"
      "two_mid winv atx atd TX TD ixs blk it i"
      "if k < length es
         then \<exists>j. two_pos winv atx atd TX TD ixs blk it i j \<and> i < length ixs \<and> j < length (blk (snd (ixs ! i))) \<and>
              k = part_start (blocks ixs blk) i + j
         else k = length es \<and> wi_iter (ti_data_iter it) = None"
      using assms unfolding two_at_def by blast
    have "two_pos winv atx atd TX TD ixs blk it i j \<Longrightarrow> two_pos winv atx atd TX TD ixs blk (it\<lparr>ti_world := w\<rparr>) i j" for j
      using mid [OF _ that] by (auto simp: two_pos_def)
    then show ?thesis
      using a mid [OF a(3) that] unfolding two_at_def
      by (intro exI [of _ ixs] exI [of _ blk] exI [of _ i]) (auto split: if_splits)
  qed
qed

end

end
