(* ===== verification/Table.thy ===== *)
theory Table
  imports Table_Builder Two_Level Iter_Tables
begin

text \<open>
  Sorted tables, \<^verbatim>\<open>engine/src/table/table.c\<close>, and the empty iterator of
  \<^verbatim>\<open>engine/src/table/iterator.c\<close>.  A table is opened from a file that is read at random
  offsets; its iterator is a two-level iterator over the index block and the data blocks.
  The block cache is an argument: its operations and its state, or \<open>None\<close> when the
  options have none.  A block that comes from the cache comes with a handle, which is released when
  the iterator over the block is destroyed; the memory of the other blocks is not part of the model.
\<close>

section \<open>The empty iterator\<close>

type_synonym ldb_emptyiter = status

definition ldb_emptyiter_valid :: "ldb_emptyiter \<Rightarrow> bool" where
  "ldb_emptyiter_valid iter = False"

definition ldb_emptyiter_seek :: "ldb_emptyiter \<Rightarrow> bytes \<Rightarrow> ldb_emptyiter" where
  "ldb_emptyiter_seek iter t = iter"

definition ldb_emptyiter_first :: "ldb_emptyiter \<Rightarrow> ldb_emptyiter" where
  "ldb_emptyiter_first iter = iter"

definition ldb_emptyiter_last :: "ldb_emptyiter \<Rightarrow> ldb_emptyiter" where
  "ldb_emptyiter_last iter = iter"

definition ldb_emptyiter_next :: "ldb_emptyiter \<Rightarrow> ldb_emptyiter" where
  "ldb_emptyiter_next iter = iter"

definition ldb_emptyiter_prev :: "ldb_emptyiter \<Rightarrow> ldb_emptyiter" where
  "ldb_emptyiter_prev iter = iter"

definition ldb_emptyiter_key :: "ldb_emptyiter \<Rightarrow> bytes" where
  "ldb_emptyiter_key iter = []"

definition ldb_emptyiter_value :: "ldb_emptyiter \<Rightarrow> bytes" where
  "ldb_emptyiter_value iter = []"

definition ldb_emptyiter_status :: "ldb_emptyiter \<Rightarrow> status" where
  "ldb_emptyiter_status iter = iter"

definition ldb_emptyiter_table :: "ldb_emptyiter ldb_itertbl" where
  "ldb_emptyiter_table =
     \<lparr>tb_valid = ldb_emptyiter_valid, tb_first = (\<lambda>it. Some (ldb_emptyiter_first it)),
      tb_last = (\<lambda>it. Some (ldb_emptyiter_last it)), tb_seek = (\<lambda>it t. Some (ldb_emptyiter_seek it t)),
      tb_next = (\<lambda>it. Some (ldb_emptyiter_next it)), tb_prev = (\<lambda>it. Some (ldb_emptyiter_prev it)),
      tb_key = ldb_emptyiter_key, tb_value = ldb_emptyiter_value, tb_status = ldb_emptyiter_status\<rparr>"

definition ldb_emptyiter_create :: "status \<Rightarrow> ldb_emptyiter" where
  "ldb_emptyiter_create status = status"

lemmas emptyiter_defs = ldb_emptyiter_valid_def ldb_emptyiter_seek_def ldb_emptyiter_first_def ldb_emptyiter_last_def
  ldb_emptyiter_next_def ldb_emptyiter_prev_def ldb_emptyiter_table_def

text \<open>What \<open>ldb_blockiter_create\<close> returns is an empty iterator or a block iterator.\<close>

type_synonym ldb_biter = "ldb_emptyiter + ldb_blockiter"

definition biter_table :: "ldb_biter ldb_itertbl" where
  "biter_table = either_table ldb_emptyiter_table ldb_blockiter_table"

section \<open>Opening a table\<close>

record ldb_table =
  tt_options :: ldb_dbopt
  tt_status :: status
  tt_file :: ldb_rfile
  tt_cache_id :: u64
  tt_filter :: "ldb_filter option"
  tt_metaindex_handle :: ldb_handle
  tt_index_block :: ldb_block

definition open_readopt :: "ldb_dbopt \<Rightarrow> ldb_readopt" where
  "open_readopt options =
     (if op_paranoid_checks options then ldb_readopt_default\<lparr>ro_verify_checksums := True\<rparr> else ldb_readopt_default)"

text \<open>\<open>policy\<close> is the filter policy of the options, which is not null here.\<close>

definition ldb_table_read_filter :: "ldb_table \<Rightarrow> ldb_bloom \<Rightarrow> bytes \<Rightarrow> ldb_table" where
  "ldb_table_read_filter table policy filter_handle_value =
     (case ldb_handle_import filter_handle_value of
        None \<Rightarrow> table
      | Some filter_handle \<Rightarrow>
          (case ldb_read_block (tt_file table) (open_readopt (tt_options table)) filter_handle of
             Inl _ \<Rightarrow> table
           | Inr block \<Rightarrow> table\<lparr>tt_filter := Some (ldb_filter_init policy (ct_data block))\<rparr>))"

definition ldb_table_read_meta :: "ldb_table \<Rightarrow> ldb_footer \<Rightarrow> ldb_table option" where
  "ldb_table_read_meta table footer =
     (case op_filter_policy (tt_options table) of
        None \<Rightarrow> Some table
      | Some policy \<Rightarrow>
          (case ldb_bloom_name 72 policy of
             None \<Rightarrow> Some table
           | Some name \<Rightarrow>
               (case ldb_read_block (tt_file table) (open_readopt (tt_options table)) (ft_metaindex_handle footer) of
                  Inl _ \<Rightarrow> Some table
                | Inr contents \<Rightarrow>
                    (let meta = ldb_block_init (ct_data contents);
                         iter = ldb_blockiter_create meta bytewise_comparator;
                         key = ldb_slice_set_str name
                     in Option.bind (tb_seek biter_table iter key) (\<lambda>iter.
                          if tb_valid biter_table iter \<and> ldb_slice_equal (tb_key biter_table iter) key
                          then Some (ldb_table_read_filter table policy (tb_value biter_table iter))
                          else Some table)))))"

text \<open>\<open>new_id\<close> is the id that \<open>ldb_lru_id\<close> draws when the options have a block cache.\<close>

definition ldb_table_open :: "ldb_dbopt \<Rightarrow> ldb_rfile \<Rightarrow> nat \<Rightarrow> u64 option \<Rightarrow> (status + ldb_table) option" where
  "ldb_table_open options file sz new_id =
     (if sz < LDB_FOOTER_SIZE then Some (Inl CORRUPTION)
      else
        (case pf_pread file LDB_FOOTER_SIZE (sz - LDB_FOOTER_SIZE) of
           (rc, input) \<Rightarrow>
             if rc \<noteq> OK then Some (Inl rc)
             else
               (case ldb_footer_import input of
                  None \<Rightarrow> Some (Inl CORRUPTION)
                | Some footer \<Rightarrow>
                    (case ldb_read_block file (open_readopt options) (ft_index_handle footer) of
                       Inl rc \<Rightarrow> Some (Inl rc)
                     | Inr contents \<Rightarrow>
                         (let tbl = \<lparr>tt_options = options, tt_status = OK, tt_file = file,
                                     tt_cache_id = (case new_id of None \<Rightarrow> 0 | Some i \<Rightarrow> i), tt_filter = None,
                                     tt_metaindex_handle = ft_metaindex_handle footer,
                                     tt_index_block = ldb_block_init (ct_data contents)\<rparr>
                          in map_option Inr (ldb_table_read_meta tbl footer))))))"

section \<open>Reading blocks\<close>

text \<open>
  The block cache, as far as a table uses it: a lookup gives a block and the handle to it, an
  insertion with a charge a handle, and handles are released.
\<close>

record ('c, 'h) block_cache =
  bc_lookup :: "'c \<Rightarrow> bytes \<Rightarrow> (ldb_block \<times> 'h) option \<times> 'c"
  bc_insert :: "'c \<Rightarrow> bytes \<Rightarrow> ldb_block \<Rightarrow> nat \<Rightarrow> 'h \<times> 'c"
  bc_release :: "'c \<Rightarrow> 'h \<Rightarrow> 'c"

definition cache_key :: "ldb_table \<Rightarrow> ldb_handle \<Rightarrow> bytes" where
  "cache_key table handle = ldb_fixed64_write (tt_cache_id table) @ ldb_fixed64_write (h_offset handle)"

text \<open>The block behind a handle, from the cache or from the file, with the cache handle if there is one.\<close>

definition read_cached :: "('c, 'h) block_cache \<Rightarrow> ldb_table \<Rightarrow> ldb_readopt \<Rightarrow> 'c option \<Rightarrow> ldb_handle \<Rightarrow>
    (status + ldb_block \<times> 'h option) \<times> 'c option" where
  "read_cached ops table options block_cache handle =
     (case block_cache of
        None \<Rightarrow>
          (map_sum id (\<lambda>contents. (ldb_block_init (ct_data contents), None)) (ldb_read_block (tt_file table) options handle), None)
      | Some cache \<Rightarrow>
          (let key = cache_key table handle in
           case bc_lookup ops cache key of
             (Some (block, cache_handle), cache) \<Rightarrow> (Inr (block, Some cache_handle), Some cache)
           | (None, cache) \<Rightarrow>
               (case ldb_read_block (tt_file table) options handle of
                  Inl rc \<Rightarrow> (Inl rc, Some cache)
                | Inr contents \<Rightarrow>
                    (let block = ldb_block_init (ct_data contents) in
                     if ct_cachable contents \<and> ro_fill_cache options
                     then (case bc_insert ops cache key block (bl_size block) of
                             (cache_handle, cache) \<Rightarrow> (Inr (block, Some cache_handle), Some cache))
                     else (Inr (block, None), Some cache)))))"

text \<open>The iterator over a block, and the argument of the cleanup that is registered with it.\<close>

definition ldb_table_blockreader :: "('c, 'h) block_cache \<Rightarrow> ldb_table \<Rightarrow> ldb_readopt \<Rightarrow> 'c option \<Rightarrow> bytes \<Rightarrow>
    (ldb_biter \<times> 'h option) \<times> 'c option" where
  "ldb_table_blockreader ops table options block_cache index_value =
     (case ldb_handle_import index_value of
        None \<Rightarrow> ((Inl (ldb_emptyiter_create CORRUPTION), None), block_cache)
      | Some handle \<Rightarrow>
          (case read_cached ops table options block_cache handle of
             (Inl rc, block_cache) \<Rightarrow> ((Inl (ldb_emptyiter_create rc), None), block_cache)
           | (Inr (block, cache_handle), block_cache) \<Rightarrow>
               ((ldb_blockiter_create block (op_comparator (tt_options table)), cache_handle), block_cache)))"

text \<open>The cleanup: \<open>release_block\<close> for a block of the cache, \<open>delete_block\<close> for another.\<close>

definition release_block :: "('c, 'h) block_cache \<Rightarrow> 'c option \<Rightarrow> 'h option \<Rightarrow> 'c option" where
  "release_block ops block_cache cache_handle =
     (case cache_handle of None \<Rightarrow> block_cache | Some h \<Rightarrow> map_option (\<lambda>cache. bc_release ops cache h) block_cache)"

type_synonym ('c, 'h) ldb_tableiter = "('c option, 'h option, ldb_biter, ldb_biter) ldb_twoiter"

definition ldb_tableiter_create :: "('c, 'h) block_cache \<Rightarrow> ldb_table \<Rightarrow> ldb_readopt \<Rightarrow> 'c option \<Rightarrow> ('c, 'h) ldb_tableiter" where
  "ldb_tableiter_create ops table options block_cache =
     ldb_twoiter_init biter_table biter_table
       (ldb_blockiter_create (tt_index_block table) (op_comparator (tt_options table)))
       (ldb_table_blockreader ops table options) (release_block ops) block_cache"

text \<open>No block cache.\<close>

definition no_cache :: "(unit, unit) block_cache" where
  "no_cache = \<lparr>bc_lookup = \<lambda>c _. (None, c), bc_insert = \<lambda>c _ _ _. ((), c), bc_release = \<lambda>c _. c\<rparr>"

text \<open>The status and the entry that \<open>handle_result\<close> is called with, if it is.\<close>

definition ldb_table_internal_get :: "('c, 'h) block_cache \<Rightarrow> ldb_table \<Rightarrow> ldb_readopt \<Rightarrow> 'c option \<Rightarrow> bytes \<Rightarrow>
    (status \<times> (bytes \<times> bytes) option \<times> 'c option) option" where
  "ldb_table_internal_get ops table options block_cache k =
     Option.bind (tb_seek biter_table (ldb_blockiter_create (tt_index_block table) (op_comparator (tt_options table))) k)
       (\<lambda>index_iter.
        Option.bind
          (if tb_valid biter_table index_iter then
             (let iter_value = tb_value biter_table index_iter in
              if (case (tt_filter table, ldb_handle_import iter_value) of
                    (Some flt, Some handle) \<Rightarrow> \<not> ldb_filter_matches flt (unat (h_offset handle)) k
                  | _ \<Rightarrow> False)
              then Some (OK, None, block_cache)
              else
                (case ldb_table_blockreader ops table options block_cache iter_value of
                   ((block_iter, cache_handle), block_cache) \<Rightarrow>
                     Option.bind (tb_seek biter_table block_iter k) (\<lambda>block_iter.
                       Some (tb_status biter_table block_iter,
                         (if tb_valid biter_table block_iter
                          then Some (tb_key biter_table block_iter, tb_value biter_table block_iter) else None),
                         release_block ops block_cache cache_handle))))
           else Some (OK, None, block_cache))
          (\<lambda>(rc, result, block_cache).
             Some (if rc = OK then tb_status biter_table index_iter else rc, result, block_cache)))"

definition ldb_table_approximate_offset :: "ldb_table \<Rightarrow> bytes \<Rightarrow> u64 option" where
  "ldb_table_approximate_offset table key =
     Option.bind (tb_seek biter_table (ldb_blockiter_create (tt_index_block table) (op_comparator (tt_options table))) key)
       (\<lambda>index_iter. Some
          (if tb_valid biter_table index_iter then
             (case ldb_handle_import (tb_value biter_table index_iter) of
                Some handle \<Rightarrow> h_offset handle
              | None \<Rightarrow> h_offset (tt_metaindex_handle table))
           else h_offset (tt_metaindex_handle table)))"

section \<open>Iterators of blocks and tables\<close>

definition emptyiter_at :: "ldb_emptyiter \<Rightarrow> (bytes \<times> bytes) list \<Rightarrow> nat \<Rightarrow> bool" where
  "emptyiter_at it es k \<longleftrightarrow> it = OK \<and> es = [] \<and> k = 0"

lemma emptyiter_iter_table: "iter_table before emptyiter_at target ldb_emptyiter_table"
  by unfold_locales (simp_all add: emptyiter_at_def emptyiter_defs)

definition biter_at :: "ldb_comparator \<Rightarrow> ldb_biter \<Rightarrow> (bytes \<times> bytes) list \<Rightarrow> nat \<Rightarrow> bool" where
  "biter_at c it es k = case_sum (\<lambda>x. emptyiter_at x es k) (\<lambda>y. blockiter_at c y es k) it"

sublocale block_order \<subseteq> bit: two_tables "\<lambda>x y. ldb_compare c x y < 0" emptyiter_at "blockiter_at c" "table_key c"
  ldb_emptyiter_table ldb_blockiter_table
  unfolding two_tables_def iter_table_def [of _ "blockiter_at c"] ldb_blockiter_table_def table_key_def [abs_def]
  using emptyiter_iter_table blockiter_contract by simp

context block_order
begin

lemma biter_iter_table: "iter_table (\<lambda>x y. ldb_compare c x y < 0) (biter_at c) (table_key c) biter_table"
  using bit.either.iter_table_axioms unfolding biter_at_def [abs_def] biter_table_def .

end

sublocale block_order \<subseteq> tabiter: two_level c "biter_at c" "biter_at c" "table_key c" biter_table biter_table winv
  for winv :: "'h option \<Rightarrow> 'w \<Rightarrow> bool"
  unfolding two_level_def using comparator_axioms biter_iter_table by blast

context block_order
begin

lemmas tableiter_contract = tabiter.two.iter_contract_axioms

end

section \<open>Opening a finished table\<close>

lemma read_part:
  assumes "file_holds file content" "content = pre @ stored_block data type @ post" "uncompressed data type = Some raw"
    and "length content < 2 ^ 64"
  shows "\<exists>contents. ldb_read_block file options (handle_at (length pre) data) = Inr contents \<and> ct_data contents = raw"
  using read_stored_block [of "file" pre data type post raw, OF _ assms(3)] assms(1,2,4)
  by (auto simp: handle_at_def length_stored_block)

lemma table_layoutD:
  assumes "table_layout options content ps ks m x"
  shows "\<And>p. p \<in> set ps \<Longrightarrow> part_ok (op_block_restart_interval options) p" "length ks = length ps"
    "separators (op_comparator options) (map fst ps) ks" "index_keys_ok (op_comparator options) ps ks"
    "uncompressed (fst m) (snd m) = Some (build_block (op_block_restart_interval options) (meta_entries options ps))"
    "uncompressed (fst x) (snd x) = Some (build_block 1 (index_entries ps ks))"
    "content = parts_image ps @ filter_section options ps @ stored_block (fst m) (snd m) @ stored_block (fst x) (snd x) @
       ldb_footer_write
         \<lparr>ft_metaindex_handle = handle_at (length (parts_image ps @ filter_section options ps)) (fst m),
          ft_index_handle = handle_at (length (parts_image ps @ filter_section options ps @ stored_block (fst m) (snd m))) (fst x)\<rparr>"
  using assms by (auto simp: table_layout_def)

lemma read_index:
  assumes "table_layout options content ps ks m x" "file_holds file content" "length content < 2 ^ 64"
  shows "\<exists>contents. ldb_read_block file ro
      (handle_at (length (parts_image ps @ filter_section options ps @ stored_block (fst m) (snd m))) (fst x)) = Inr contents \<and>
      ct_data contents = build_block 1 (index_entries ps ks)"
  by (rule read_part [OF assms(2) _ table_layoutD(6) [OF assms(1)] assms(3)])
    (subst table_layoutD(7) [OF assms(1)], simp only: append_assoc)

lemma read_metaindex:
  assumes "table_layout options content ps ks m x" "file_holds file content" "length content < 2 ^ 64"
  shows "\<exists>contents. ldb_read_block file ro (handle_at (length (parts_image ps @ filter_section options ps)) (fst m)) = Inr contents \<and>
      ct_data contents = build_block (op_block_restart_interval options) (meta_entries options ps)"
  by (rule read_part [OF assms(2) _ table_layoutD(5) [OF assms(1)] assms(3)])
    (subst table_layoutD(7) [OF assms(1)], simp only: append_assoc)

lemma read_filter:
  assumes "table_layout options content ps ks m x" "file_holds file content" "length content < 2 ^ 64"
    and "op_filter_policy options = Some policy"
  shows "\<exists>contents. ldb_read_block file ro (handle_at (length (parts_image ps)) (filter_data policy ps)) = Inr contents \<and>
      ct_data contents = filter_data policy ps"
  by (rule read_part [OF assms(2) _ _ assms(3), where type = LDB_NO_COMPRESSION])
    (subst table_layoutD(7) [OF assms(1)], simp add: filter_section_def assms(4), simp add: uncompressed_def)

lemma read_data:
  assumes "table_layout options content ps ks m x" "file_holds file content" "length content < 2 ^ 64" "i < length ps"
  shows "\<exists>contents. ldb_read_block file ro (part_handle ps i) = Inr contents \<and>
      ct_data contents = build_block (op_block_restart_interval options) (fst (ps ! i))"
proof -
  have "parts_image ps = parts_image (take i ps) @ part_bytes (ps ! i) @ parts_image (drop (Suc i) ps)"
    unfolding parts_image_def using arg_cong [OF id_take_nth_drop [OF assms(4)], of "\<lambda>ps. concat (map part_bytes ps)"] by simp
  moreover have "part_handle ps i = handle_at (length (parts_image (take i ps))) (fst (snd (ps ! i)))"
    by (simp add: part_handle_def handle_at_def)
  moreover have "part_ok (op_block_restart_interval options) (ps ! i)" using table_layoutD(1) [OF assms(1)] assms(4) by simp
  ultimately show ?thesis
    using table_layoutD(7) [OF assms(1)] read_part [OF assms(2) _ _ assms(3), of "parts_image (take i ps)" "fst (snd (ps ! i))"
        "snd (snd (ps ! i))"] by (simp add: part_bytes_def part_ok_def)
qed

text \<open>The reader finds the filter that the builder wrote.\<close>

lemma read_meta_ok:
  assumes "table_layout options content ps ks m x" "file_holds file content" "length content < 2 ^ 64"
    and "name_fits options" "0 < op_block_restart_interval options" "tt_options table = options" "tt_file table = file"
    and "ft_metaindex_handle footer = handle_at (length (parts_image ps @ filter_section options ps)) (fst m)" "tt_filter table = None"
  shows "ldb_table_read_meta table footer =
    Some (table\<lparr>tt_filter := map_option (\<lambda>policy. ldb_filter_init policy (filter_data policy ps)) (op_filter_policy options)\<rparr>)"
proof (cases "op_filter_policy options")
  case (Some policy)
  obtain name where name: "ldb_bloom_name 72 policy = Some name" using assms(4) Some by (auto simp: name_fits_def)
  then have len: "length name \<le> 72" by (auto simp: ldb_bloom_name_def Let_def split: if_splits)
  let ?h = "handle_at (length (parts_image ps)) (filter_data policy ps)" and ?key = "ldb_slice_set_str name"
  let ?es = "[(?key, ldb_handle_export [] ?h)]" and ?ro = "open_readopt options"
  have es: "meta_entries options ps = ?es" using Some name by (simp add: meta_entries_def)
  obtain contents where c: "ldb_read_block file ?ro (ft_metaindex_handle footer) = Inr contents"
    "ct_data contents = build_block (op_block_restart_interval options) ?es"
    using read_metaindex [OF assms(1-3), of ?ro] assms(8) es by auto
  have small: "length (build_block (op_block_restart_interval options) ?es) < 2 ^ 32"
    using buffer_file.metaindex_ok(2) [OF assms(4), of ps] es by simp
  obtain it where it: "ldb_blockiter_create (ldb_block_init (ct_data contents)) bytewise_comparator = Inr it"
    "blockiter_at bytewise_comparator it ?es 1"
    using build_block_at [OF assms(5) _ small, of bytewise_comparator] c(2) len
    by (auto simp: bytewise_comparator_def ldb_slice_set_str_def)
  note T = bytewise_block.biter_iter_table
  have at: "biter_at bytewise_comparator (Inr it) ?es 1" using it(2) by (simp add: biter_at_def)
  have key: "table_key bytewise_comparator ?key" by (simp add: table_key_def bytewise_comparator_def)
  obtain it' where it': "tb_seek biter_table (Inr it) ?key = Some it'" "biter_at bytewise_comparator it' ?es 0"
    using iter_contract.at_seek [OF iter_table.axioms [OF T] at key] bytewise.cmp_refl by auto
  have v: "tb_valid biter_table it'" "(tb_key biter_table it', tb_value biter_table it') = ?es ! 0"
    using iter_contract.at_valid [OF iter_table.axioms [OF T] it'(2)] iter_contract.at_entry [OF iter_table.axioms [OF T] it'(2)]
    by simp_all
  obtain fc where "ldb_read_block file ?ro ?h = Inr fc" "ct_data fc = filter_data policy ps"
    using read_filter [OF assms(1-3) Some] by blast
  then show ?thesis
    using Some name c(1) it(1) it'(1) v assms(6,7)
    by (simp add: ldb_table_read_meta_def Let_def ldb_table_read_filter_def wire_simps)
qed (use assms in \<open>simp add: ldb_table_read_meta_def\<close>)

lemma table_open_ok:
  assumes "table_layout options content ps ks m x" "file_holds file content" "length content < 2 ^ 64"
    and "name_fits options" "0 < op_block_restart_interval options"
  shows "ldb_table_open options file (length content) new_id = Some (Inr
    \<lparr>tt_options = options, tt_status = OK, tt_file = file, tt_cache_id = (case new_id of None \<Rightarrow> 0 | Some i \<Rightarrow> i),
     tt_filter = map_option (\<lambda>policy. ldb_filter_init policy (filter_data policy ps)) (op_filter_policy options),
     tt_metaindex_handle = handle_at (length (parts_image ps @ filter_section options ps)) (fst m),
     tt_index_block = ldb_block_init (build_block 1 (index_entries ps ks))\<rparr>)"
proof -
  define footer where "footer = \<lparr>ft_metaindex_handle = handle_at (length (parts_image ps @ filter_section options ps)) (fst m),
          ft_index_handle = handle_at (length (parts_image ps @ filter_section options ps @ stored_block (fst m) (snd m))) (fst x)\<rparr>"
  obtain pre where pre: "content = pre @ ldb_footer_write footer"
    using table_layoutD(7) [OF assms(1)] unfolding footer_def by (metis append_assoc)
  then have len: "length content = length pre + LDB_FOOTER_SIZE" by (simp add: footer_write_length)
  have read: "pf_pread file LDB_FOOTER_SIZE (length content - LDB_FOOTER_SIZE) = (OK, ldb_footer_write footer)"
    using file_holds_part [of "file" pre "ldb_footer_write footer" "[]"] assms(2) pre len by (simp add: footer_write_length)
  have import: "ldb_footer_import (ldb_footer_write footer) = Some footer"
    using footer_read_write [of footer "[]"] by (simp add: ldb_footer_import_def)
  obtain contents where c: "ldb_read_block file (open_readopt options) (ft_index_handle footer) = Inr contents"
    "ct_data contents = build_block 1 (index_entries ps ks)" using read_index [OF assms(1-3)] by (auto simp: footer_def)
  have h: "ft_metaindex_handle footer = handle_at (length (parts_image ps @ filter_section options ps)) (fst m)"
    by (simp add: footer_def)
  show ?thesis
    unfolding ldb_table_open_def using len read import c h by (simp add: Let_def read_meta_ok [OF assms _ _ h])
qed

section \<open>The iterator of a finished table\<close>

text \<open>The entries behind an index value.\<close>

definition handle_entries :: "table_part list \<Rightarrow> bytes \<Rightarrow> (bytes \<times> bytes) list" where
  "handle_entries ps h =
     (case find (\<lambda>i. ldb_handle_export [] (part_handle ps i) = h) [0..<length ps] of None \<Rightarrow> [] | Some i \<Rightarrow> fst (ps ! i))"

lemma handle_export_inj: "ldb_handle_export [] h = ldb_handle_export [] h' \<longleftrightarrow> h = h'"
  by (metis handle_import_export option.inject)

lemma parts_image_strict:
  assumes "i < j" "j \<le> length ps"
  shows "length (parts_image (take i ps)) < length (parts_image (take j ps))"
proof -
  obtain d where d: "j = i + Suc d" using assms(1) less_imp_Suc_add by fastforce
  have "drop i ps = ps ! i # drop (Suc i) ps" using assms by (simp add: Cons_nth_drop_Suc)
  then have "take j ps = take i ps @ ps ! i # take d (drop (Suc i) ps)" unfolding d by (simp only: take_add take_Suc_Cons)
  then show ?thesis by (simp add: parts_image_def part_bytes_def length_stored_block LDB_TRAILER_SIZE_def)
qed

lemma part_offset_distinct:
  assumes "length (parts_image ps) < 2 ^ 64" "i < length ps" "j < length ps" "h_offset (part_handle ps i) = h_offset (part_handle ps j)"
  shows "i = j"
proof (rule ccontr)
  assume "i \<noteq> j"
  have small: "length (parts_image (take k ps)) < 2 ^ 64" if "k < length ps" for k
    using parts_image_strict [OF that order_refl] assms(1) by simp
  have "length (parts_image (take i ps)) = length (parts_image (take j ps))"
    using arg_cong [OF assms(4), of unat] small [OF assms(2)] small [OF assms(3)]
    by (simp add: part_handle_def)
  then show False
    using parts_image_strict [of i j ps] parts_image_strict [of j i ps] assms(2,3) \<open>i \<noteq> j\<close> by (auto simp: nat_neq_iff)
qed

lemma handle_entries_part:
  assumes "length (parts_image ps) < 2 ^ 64" "i < length ps"
  shows "handle_entries ps (ldb_handle_export [] (part_handle ps i)) = fst (ps ! i)"
proof -
  have "find (\<lambda>j. ldb_handle_export [] (part_handle ps j) = ldb_handle_export [] (part_handle ps i)) [0..<length ps] = Some i"
    unfolding find_Some_iff handle_export_inj
    using part_offset_distinct [OF assms(1) _ assms(2)] assms(2) by (auto intro!: exI [of _ i]) (metis less_irrefl less_trans)
  then show ?thesis by (simp add: handle_entries_def)
qed

lemma length_index_entries [simp]: "length (index_entries ps ks) = length ks"
  by (simp add: index_entries_def)

lemma nth_index_entries [simp]: "i < length ks \<Longrightarrow> index_entries ps ks ! i = (ks ! i, ldb_handle_export [] (part_handle ps i))"
  by (simp add: index_entries_def)

lemma index_blocks:
  assumes "length (parts_image ps) < 2 ^ 64" "length ks = length ps"
  shows "blocks (index_entries ps ks) (handle_entries ps) = map fst ps"
  using handle_entries_part [OF assms(1)] assms(2) by (auto simp: blocks_def list_eq_iff_nth_eq)

context table_order
begin

lemma part_subset: "i < length ps \<Longrightarrow> set (fst (ps ! i)) \<subseteq> set (concat (map fst ps))"
  by fastforce

lemma part_sorted:
  assumes "sorted_wrt R (concat (map fst ps))" "i < length ps"
  shows "sorted_wrt R (fst (ps ! i))"
proof -
  have "concat (map fst ps) = concat (map fst (take i ps)) @ fst (ps ! i) @ concat (map fst (drop (Suc i) ps))"
    using arg_cong [OF id_take_nth_drop [OF assms(2)], of "\<lambda>ps. concat (map fst ps)"] by simp
  then show ?thesis using assms(1) by (metis sorted_wrt_append)
qed

lemma index_sorted:
  assumes "\<forall>p \<in> set ps. fst p \<noteq> []" "length ks = length ps" "separators c (map fst ps) ks"
  shows "sorted_wrt (\<lambda>x y. ldb_compare c (fst x) (fst y) < 0) (index_entries ps ks)"
proof (subst sorted_wrt_iff_nth_less, intro allI impI)
  fix i j assume ij: "i < j" "j < length (index_entries ps ks)"
  then obtain e where e: "e \<in> set (fst (ps ! j))" using assms(1,2) by (metis length_index_entries nth_mem last_in_set)
  have "ldb_compare c (ks ! i) (fst e) < 0"
    using separatorsD(2) [OF assms(3), of i j e] ij e assms(2) by (simp add: apart_def)
  moreover have "ldb_compare c (fst e) (ks ! j) \<le> 0"
    using separatorsD(1) [OF assms(3), of j e] ij e assms(2) by simp
  ultimately show "ldb_compare c (fst (index_entries ps ks ! i)) (fst (index_entries ps ks ! j)) < 0"
    using cmp_less_le_trans [of "ks ! i" "fst e" "ks ! j"] ij by simp
qed

lemma index_index_ok:
  assumes "length (parts_image ps) < 2 ^ 64" "length ks = length ps" "separators c (map fst ps) ks"
  shows "index_ok (\<lambda>x y. ldb_compare c x y < 0) (index_entries ps ks) (handle_entries ps)"
proof -
  have blk: "handle_entries ps (snd (index_entries ps ks ! i)) = fst (ps ! i)" if "i < length ps" for i
    using handle_entries_part [OF assms(1) that] that assms(2) by simp
  have "\<not> ldb_compare c (ks ! i) (fst e) < 0" if "i < length ps" "e \<in> set (fst (ps ! i))" for i e
    using separatorsD(1) [OF assms(3), of i e] that assms(2) cmp_gt_iff [of "ks ! i" "fst e"] cmp_gt_iff [of "fst e" "ks ! i"] by auto
  moreover have "ldb_compare c (ks ! i) (fst e) < 0" if "i < j" "j < length ps" "e \<in> set (fst (ps ! j))" for i j e
    using separatorsD(2) [OF assms(3), of i j e] that assms(2) by (simp add: apart_def)
  ultimately show ?thesis
    unfolding index_ok_def using blk assms(2) by simp
qed

lemma block_at_entries:
  assumes "0 < n" "entries_size es + 8 < 2 ^ 31" "sorted_wrt (\<lambda>x y. ldb_compare c (fst x) (fst y) < 0) es"
    and "\<forall>e \<in> set es. table_key c (fst e)"
  shows "biter_at c (ldb_blockiter_create (ldb_block_init (build_block n es)) c) es (length es)"
proof -
  have "length (fst e) < 2 ^ 32" if "e \<in> set es" for e using entries_size_member [OF that] assms(2) by simp
  moreover have "length (build_block n es) < 2 ^ 32" using build_block_length [of n es] assms(2) by simp
  ultimately obtain it where "ldb_blockiter_create (ldb_block_init (build_block n es)) c = Inr it" "blockiter_at c it es (length es)"
    using build_block_at [OF assms(1) _ _ _ assms(3)] assms(4) unfolding table_key_def by blast
  then show ?thesis by (simp add: biter_at_def)
qed

end

text \<open>The table that is opened from a finished file.\<close>

definition opened :: "ldb_dbopt \<Rightarrow> ldb_rfile \<Rightarrow> u64 option \<Rightarrow> table_part list \<Rightarrow> bytes list \<Rightarrow> bytes \<times> ldb_compression \<Rightarrow> ldb_table" where
  "opened options file new_id ps ks m =
     \<lparr>tt_options = options, tt_status = OK, tt_file = file, tt_cache_id = (case new_id of None \<Rightarrow> 0 | Some i \<Rightarrow> i),
      tt_filter = map_option (\<lambda>policy. ldb_filter_init policy (filter_data policy ps)) (op_filter_policy options),
      tt_metaindex_handle = handle_at (length (parts_image ps @ filter_section options ps)) (fst m),
      tt_index_block = ldb_block_init (build_block 1 (index_entries ps ks))\<rparr>"

text \<open>A table with the entries \<open>es\<close> in a file.\<close>

definition table_file :: "ldb_dbopt \<Rightarrow> ldb_rfile \<Rightarrow> bytes \<Rightarrow> (bytes \<times> bytes) list \<Rightarrow> table_part list \<Rightarrow> bytes list \<Rightarrow>
    bytes \<times> ldb_compression \<Rightarrow> bytes \<times> ldb_compression \<Rightarrow> bool" where
  "table_file options file content es ps ks m x \<longleftrightarrow>
     table_layout options content ps ks m x \<and> file_holds file content \<and> length content < 2 ^ 64 \<and>
     0 < op_block_restart_interval options \<and> concat (map fst ps) = es \<and>
     sorted_wrt (\<lambda>x y. ldb_compare (op_comparator options) (fst x) (fst y) < 0) es \<and>
     (\<forall>e \<in> set es. table_key (op_comparator options) (fst e)) \<and> entries_size es + 8 < 2 ^ 30"

lemma entries_size_count: "64 * length es \<le> entries_size es"
  by (induction es) simp_all

lemma parts_count: "\<forall>p \<in> set ps. fst p \<noteq> [] \<Longrightarrow> length ps \<le> length (concat (map fst ps))"
proof (induction ps)
  case (Cons p ps)
  then show ?case by (cases "fst p") auto
qed simp

lemma table_fileD:
  assumes "table_file options file content es ps ks m x"
  shows "table_layout options content ps ks m x" "file_holds file content" "length content < 2 ^ 64"
    "0 < op_block_restart_interval options" "concat (map fst ps) = es"
    "sorted_wrt (\<lambda>x y. ldb_compare (op_comparator options) (fst x) (fst y) < 0) es"
    "\<forall>e \<in> set es. table_key (op_comparator options) (fst e)" "entries_size es + 8 < 2 ^ 30"
    "length (parts_image ps) < 2 ^ 64" "\<forall>p \<in> set ps. fst p \<noteq> []" "length ks = length ps"
    "separators (op_comparator options) (map fst ps) ks" "index_keys_ok (op_comparator options) ps ks"
  using assms table_layoutD(7) [of options content ps ks m x]
  by (auto simp: table_file_def table_layout_def part_ok_def)

section \<open>Cached blocks\<close>

text \<open>
  What a table needs of its block cache: a lookup returns a block that was inserted under
  the key.  \<open>held\<close> are the blocks that may be found.  \<open>cinv n cache H\<close> says that the cache can give out
  \<open>n\<close> more handles while the handles \<open>H\<close> are in use.
\<close>

locale block_store =
  fixes ops :: "('c, 'h) block_cache" and cinv :: "nat \<Rightarrow> 'c \<Rightarrow> 'h list \<Rightarrow> bool" and held :: "'c \<Rightarrow> (bytes \<times> ldb_block) set"
  assumes lookup_held: "cinv (Suc n) cache H \<Longrightarrow> bc_lookup ops cache k = (r, cache') \<Longrightarrow> held cache' \<subseteq> held cache \<and>
      (case r of None \<Rightarrow> cinv (Suc n) cache' H | Some (b, h) \<Rightarrow> cinv n cache' (h # H) \<and> (k, b) \<in> held cache)"
    and insert_held: "cinv (Suc n) cache H \<Longrightarrow> bc_insert ops cache k b charge = (h, cache') \<Longrightarrow>
      cinv n cache' (h # H) \<and> held cache' \<subseteq> insert (k, b) (held cache)"
    and release_held: "cinv n cache H \<Longrightarrow> h \<in> set H \<Longrightarrow>
      cinv (Suc n) (bc_release ops cache h) (remove1 h H) \<and> held (bc_release ops cache h) \<subseteq> held cache"

text \<open>The cache holds the right blocks of a table.\<close>

definition cache_right :: "('c \<Rightarrow> (bytes \<times> ldb_block) set) \<Rightarrow> ldb_table \<Rightarrow> table_part list \<Rightarrow> 'c \<Rightarrow> bool" where
  "cache_right held table ps cache \<longleftrightarrow>
     (\<forall>i < length ps. \<forall>b. (cache_key table (part_handle ps i), b) \<in> held cache \<longrightarrow>
        b = ldb_block_init (build_block (op_block_restart_interval (tt_options table)) (fst (ps ! i))))"

lemma cache_key_offset: "cache_key table h = cache_key table h' \<Longrightarrow> h_offset h = h_offset h'"
  unfolding cache_key_def using fixed64.enc_prefix_free [of _ "[]" _ "[]"] by auto

lemma cache_right_less: "cache_right held table ps cache \<Longrightarrow> held cache' \<subseteq> held cache \<Longrightarrow> cache_right held table ps cache'"
  unfolding cache_right_def by blast

lemma cache_right_insert:
  assumes "table_file options file content es ps ks m x" "i < length ps" "cache_right held (opened options file new_id ps ks m) ps cache"
    and "held cache' \<subseteq> insert (cache_key (opened options file new_id ps ks m) (part_handle ps i),
      ldb_block_init (build_block (op_block_restart_interval options) (fst (ps ! i)))) (held cache)"
  shows "cache_right held (opened options file new_id ps ks m) ps cache'"
  unfolding cache_right_def
proof (intro allI impI)
  let ?T = "opened options file new_id ps ks m"
  fix j b assume j: "j < length ps" "(cache_key ?T (part_handle ps j), b) \<in> held cache'"
  have T: "tt_options ?T = options" by (simp add: opened_def)
  show "b = ldb_block_init (build_block (op_block_restart_interval (tt_options ?T)) (fst (ps ! j)))"
  proof (cases "(cache_key ?T (part_handle ps j), b) \<in> held cache")
    case True
    then show ?thesis using assms(3) j(1) unfolding cache_right_def by blast
  next
    case False
    then have b: "cache_key ?T (part_handle ps j) = cache_key ?T (part_handle ps i)"
      "b = ldb_block_init (build_block (op_block_restart_interval options) (fst (ps ! i)))" using assms(4) j(2) by auto
    then have "j = i" using part_offset_distinct [OF table_fileD(9) [OF assms(1)] j(1) assms(2)] cache_key_offset by blast
    then show ?thesis using b(2) T by simp
  qed
qed

text \<open>The block cache of a table, if there is one, with room for \<open>n\<close> handles.\<close>

definition world_ok :: "(nat \<Rightarrow> 'c \<Rightarrow> 'h list \<Rightarrow> bool) \<Rightarrow> ('c \<Rightarrow> (bytes \<times> ldb_block) set) \<Rightarrow> ldb_table \<Rightarrow> table_part list \<Rightarrow>
    nat \<Rightarrow> 'h list \<Rightarrow> 'c option \<Rightarrow> bool" where
  "world_ok cinv held table ps n H cache \<longleftrightarrow> (\<forall>c. cache = Some c \<longrightarrow> cinv n c H \<and> cache_right held table ps c)"

context block_store
begin

lemma release_world:
  assumes "world_ok cinv held table ps n H cache" "h \<in> set H"
  shows "world_ok cinv held table ps (Suc n) (remove1 h H) (release_block ops cache (Some h))"
  using assms release_held cache_right_less by (fastforce simp: world_ok_def release_block_def)

text \<open>The blocks the reader finds.\<close>

lemma blockreader_world:
  assumes "table_file options file content es ps ks m x" "i < length ps"
    and "world_ok cinv held (opened options file new_id ps ks m) ps (Suc n) H cache"
  shows "\<exists>h cache'. ldb_table_blockreader ops (opened options file new_id ps ks m) ro cache (ldb_handle_export [] (part_handle ps i)) =
      ((ldb_blockiter_create (ldb_block_init (build_block (op_block_restart_interval options) (fst (ps ! i)))) (op_comparator options), h), cache') \<and>
      (case h of None \<Rightarrow> world_ok cinv held (opened options file new_id ps ks m) ps (Suc n) H cache'
       | Some h \<Rightarrow> world_ok cinv held (opened options file new_id ps ks m) ps n (h # H) cache')"
proof -
  let ?T = "opened options file new_id ps ks m" and ?h = "part_handle ps i"
  let ?b = "ldb_block_init (build_block (op_block_restart_interval options) (fst (ps ! i)))"
  obtain contents where c: "ldb_read_block file ro ?h = Inr contents" "ldb_block_init (ct_data contents) = ?b"
    using read_data [OF table_fileD(1-3) [OF assms(1)] assms(2)] by metis
  have T: "tt_file ?T = file" "tt_options ?T = options" by (simp_all add: opened_def)
  note defs = ldb_table_blockreader_def wire_simps read_cached_def Let_def T c world_ok_def
  show ?thesis
  proof (cases cache)
    case (Some cc)
    have cc: "cinv (Suc n) cc H" "cache_right held ?T ps cc" using assms(3) Some by (simp_all add: world_ok_def)
    obtain r cache1 where l: "bc_lookup ops cc (cache_key ?T ?h) = (r, cache1)" by fastforce
    note found = lookup_held [OF cc(1) l]
    have right: "cache_right held ?T ps cache1" using cache_right_less [OF cc(2)] found by blast
    show ?thesis
    proof (cases r)
      case (Some bh)
      obtain b h where bh: "bh = (b, h)" by fastforce
      then have "b = ?b" "cinv n cache1 (h # H)" using found Some assms(2) cc(2) T by (auto simp: cache_right_def)
      then show ?thesis using Some \<open>cache = Some cc\<close> l bh right by (simp add: defs)
    next
      case None
      obtain h cache2 where i: "bc_insert ops cache1 (cache_key ?T ?h) ?b (bl_size ?b) = (h, cache2)" by fastforce
      have c1: "cinv (Suc n) cache1 H" using found None by simp
      note ins = insert_held [OF c1 i]
      have "cache_right held ?T ps cache2" by (rule cache_right_insert [OF assms(1,2) right]) (use ins in blast)
      then show ?thesis
        using None \<open>cache = Some cc\<close> l i ins c1 right by (cases "ct_cachable contents \<and> ro_fill_cache ro") (auto simp: defs)
    qed
  qed (simp add: defs)
qed

end

context table_order
begin

lemma index_at:
  assumes "table_file options file content es ps ks m x" "op_comparator options = c"
  shows "biter_at c (ldb_blockiter_create (ldb_block_init (build_block 1 (index_entries ps ks))) c) (index_entries ps ks) (length ks)"
proof -
  note t = table_fileD [OF assms(1), unfolded assms(2)]
  have "entries_size (index_entries ps ks) \<le> entries_size es + 20 * length ks"
    using index_entries_size [of ps "op_block_restart_interval options" c ks] table_layoutD(1) [OF t(1)] t(5,11,13) by simp
  moreover have "64 * length ks \<le> entries_size es"
    using entries_size_count [of es] parts_count [OF t(10)] t(5,11) by simp
  ultimately have "entries_size (index_entries ps ks) + 8 < 2 ^ 31" using t(8) by simp
  moreover have "\<forall>e \<in> set (index_entries ps ks). table_key c (fst e)"
    using t(13) by (auto simp: index_entries_def index_keys_ok_def)
  ultimately show ?thesis using block_at_entries [OF _ _ index_sorted [OF t(10-12)], of 1] by simp
qed

lemma part_at:
  assumes "table_file options file content es ps ks m x" "op_comparator options = c" "i < length ps"
  shows "biter_at c (ldb_blockiter_create (ldb_block_init (build_block (op_block_restart_interval options) (fst (ps ! i)))) c)
    (fst (ps ! i)) (length (fst (ps ! i)))"
proof -
  note t = table_fileD [OF assms(1), unfolded assms(2)]
  have "entries_size (fst (ps ! i)) \<le> entries_size (concat (map fst ps))"
    using arg_cong [OF id_take_nth_drop [OF assms(3)], of "\<lambda>ps. entries_size (concat (map fst ps))"] by simp
  then have "entries_size (fst (ps ! i)) + 8 < 2 ^ 31" using t(5,8) by simp
  moreover have "\<forall>e \<in> set (fst (ps ! i)). table_key c (fst e)" using part_subset [OF assms(3)] t(5,7) by blast
  ultimately show ?thesis using block_at_entries [OF t(4) _ part_sorted [OF _ assms(3)]] t(5,6) by simp
qed

end

text \<open>The iterator holds the handle of its current block, and needs room for that of the next one.\<close>

definition table_winv :: "(nat \<Rightarrow> 'c \<Rightarrow> 'h list \<Rightarrow> bool) \<Rightarrow> ('c \<Rightarrow> (bytes \<times> ldb_block) set) \<Rightarrow> ldb_table \<Rightarrow> table_part list \<Rightarrow>
    'h option option \<Rightarrow> 'c option \<Rightarrow> bool" where
  "table_winv cinv held table ps h cache \<longleftrightarrow>
     (case h of Some (Some h) \<Rightarrow> world_ok cinv held table ps 1 [h] cache | _ \<Rightarrow> world_ok cinv held table ps 2 [] cache)"

context table_order
begin

lemma block_fun:
  assumes "table_file options file content es ps ks m x" "op_comparator options = c" "block_store ops cinv held"
  shows "block_fun_ok (table_winv cinv held (opened options file new_id ps ks m) ps) (biter_at c)
    (ldb_table_blockreader ops (opened options file new_id ps ks m) ro) (release_block ops) (index_entries ps ks) (handle_entries ps)"
  unfolding block_fun_ok_def
proof (intro conjI ballI allI impI)
  let ?T = "opened options file new_id ps ks m"
  note t = table_fileD [OF assms(1), unfolded assms(2)]
  let ?W = "world_ok cinv held ?T ps"
  note rel = block_store.release_world [OF assms(3), of ?T ps]
  show "table_winv cinv held ?T ps None (release_block ops w h)" if "table_winv cinv held ?T ps (Some h) w" for h w
    using that rel [of 1 "[the h]" w "the h"] by (cases h) (simp_all add: table_winv_def release_block_def numeral_2_eq_2)
  fix e h w assume e: "e \<in> set (index_entries ps ks)" and w: "table_winv cinv held ?T ps h w"
  obtain i where i: "i < length ps" "snd e = ldb_handle_export [] (part_handle ps i)"
    using e t(11) by (auto simp: index_entries_def)
  define H where "H = (case h of Some (Some x) \<Rightarrow> [x] | _ \<Rightarrow> [])"
  define n where "n = (case h of Some (Some _) \<Rightarrow> 0 | _ \<Rightarrow> Suc 0)"
  have "?W (Suc n) H w" using w by (auto simp: table_winv_def H_def n_def numeral_2_eq_2 split: option.splits)
  then obtain h' w' where rd: "ldb_table_blockreader ops ?T ro w (snd e) =
      ((ldb_blockiter_create (ldb_block_init (build_block (op_block_restart_interval options) (fst (ps ! i)))) c, h'), w')"
    and w': "case h' of None \<Rightarrow> ?W (Suc n) H w' | Some x \<Rightarrow> ?W n (x # H) w'"
    using block_store.blockreader_world [OF assms(3,1) i(1), of new_id n H w ro] assms(2) i(2) by auto
  have blk: "handle_entries ps (snd e) = fst (ps ! i)" using handle_entries_part [OF t(9) i(1)] i(2) by simp
  have "table_winv cinv held ?T ps (Some h') (case h of None \<Rightarrow> w' | Some x \<Rightarrow> release_block ops w' x)"
  proof (cases "h = None \<or> h = Some None")
    case True
    then show ?thesis
      using w' by (auto simp: table_winv_def H_def n_def numeral_2_eq_2 release_block_def split: option.splits)
  next
    case False
    then obtain y where y: "h = Some (Some y)" by (metis not_Some_eq)
    then have H: "H = [y]" "n = 0" by (simp_all add: H_def n_def)
    show ?thesis
    proof (cases h')
      case None
      then show ?thesis using w' rel [of 1 "[y]" w' y] y H by (simp add: table_winv_def numeral_2_eq_2)
    next
      case (Some z)
      have "remove1 y [z, y] = [z]" by simp
      then show ?thesis using Some w' rel [of 0 "[z, y]" w' y] y H by (simp add: table_winv_def)
    qed
  qed
  then show "case ldb_table_blockreader ops ?T ro w (snd e) of
      ((d, h'), w') \<Rightarrow> (\<exists>j. biter_at c d (handle_entries ps (snd e)) j) \<and>
        table_winv cinv held ?T ps (Some h') (case h of None \<Rightarrow> w' | Some h \<Rightarrow> release_block ops w' h)"
    using part_at [OF assms(1,2) i(1)] rd blk by auto
qed

lemma tableiter_at:
  assumes "table_file options file content es ps ks m x" "op_comparator options = c" "block_store ops cinv held"
    and "world_ok cinv held (opened options file new_id ps ks m) ps 2 [] cache"
  shows "two_at (table_winv cinv held (opened options file new_id ps ks m) ps) (\<lambda>x y. ldb_compare c x y < 0) (biter_at c) (biter_at c)
    biter_table biter_table (ldb_tableiter_create ops (opened options file new_id ps ks m) ro cache) es (length es)"
proof -
  note t = table_fileD [OF assms(1), unfolded assms(2)]
  have ok: "index_ok (\<lambda>x y. ldb_compare c x y < 0) (index_entries ps ks) (handle_entries ps)"
    using index_index_ok t(9,11,12) by blast
  have "table_winv cinv held (opened options file new_id ps ks m) ps None cache" using assms(4) by (simp add: table_winv_def)
  then show ?thesis
    using tabiter.two_at_init [OF ok index_at [OF assms(1,2)] block_fun [OF assms(1-3)]] index_blocks [OF t(9,11)] t(5) assms(2)
    by (simp add: ldb_tableiter_create_def opened_def)
qed

end

section \<open>Point lookups\<close>

lemma biter_status: "biter_at c it es k \<Longrightarrow> tb_status biter_table it = OK"
  by (cases it) (auto simp: biter_at_def emptyiter_at_def biter_table_def either_table_def ldb_emptyiter_table_def
      ldb_emptyiter_status_def ldb_blockiter_table_def blockiter_at_def blockiter_pos_def blockiter_on_def)

text \<open>What a lookup finds: the first entry not before the key in the block the index leads to, unless the filter rules the key out.\<close>

definition part_found :: "ldb_comparator \<Rightarrow> ldb_filter option \<Rightarrow> table_part list \<Rightarrow> bytes list \<Rightarrow> bytes \<Rightarrow> (bytes \<times> bytes) option" where
  "part_found c flt ps ks k =
     (let i = length (takeWhile (\<lambda>s. ldb_compare c s k < 0) ks) in
      if i < length ks \<and> (case flt of None \<Rightarrow> True | Some fr \<Rightarrow> ldb_filter_matches fr (length (parts_image (take i ps))) k)
      then find (\<lambda>e. \<not> ldb_compare c (fst e) k < 0) (fst (ps ! i)) else None)"

lemma find_cursor:
  "find (\<lambda>e. \<not> P e) es = cursor_entry es (length (takeWhile P es))"
  by (induction es) (auto simp: cursor_entry_def)

lemma length_takeWhile_eqI:
  "i < length xs \<Longrightarrow> (\<And>j. j < i \<Longrightarrow> P (xs ! j)) \<Longrightarrow> \<not> P (xs ! i) \<Longrightarrow> length (takeWhile P xs) = i"
  by (subst takeWhile_eq_take_P_nth [of i]) simp_all

lemma takeWhile_index: "length (takeWhile (\<lambda>e. P (fst e)) (index_entries ps ks)) = length (takeWhile P ks)"
proof -
  have "takeWhile P ks = map fst (takeWhile (P \<circ> fst) (index_entries ps ks))"
    by (subst takeWhile_map [symmetric]) (simp add: index_entries_def comp_def map_nth)
  then show ?thesis by (simp add: comp_def)
qed

context table_order
begin

lemma get_part:
  assumes "table_file options file content es ps ks m x" "op_comparator options = c" "table_key c k" "good cache"
    and reader: "\<And>i. i < length ps \<Longrightarrow> \<exists>it h cache' j.
      ldb_table_blockreader ops (opened options file new_id ps ks m) ro cache (ldb_handle_export [] (part_handle ps i)) = ((it, h), cache') \<and>
      biter_at c it (fst (ps ! i)) j \<and> good (release_block ops cache' h)"
  shows "\<exists>cache'. ldb_table_internal_get ops (opened options file new_id ps ks m) ro cache k =
    Some (OK, part_found c (tt_filter (opened options file new_id ps ks m)) ps ks k, cache') \<and> good cache'"
proof -
  note t = table_fileD [OF assms(1), unfolded assms(2)]
  note con = iter_table.axioms [OF biter_iter_table]
  let ?T = "opened options file new_id ps ks m" and ?i = "length (takeWhile (\<lambda>s. ldb_compare c s k < 0) ks)"
  obtain ix where ix: "tb_seek biter_table (ldb_blockiter_create (tt_index_block ?T) (op_comparator (tt_options ?T))) k = Some ix"
    "biter_at c ix (index_entries ps ks) ?i"
    using iter_contract.at_seek [OF con index_at [OF assms(1,2)] assms(3)] assms(2)
    unfolding takeWhile_index [of "\<lambda>s. ldb_compare c s k < 0"] by (auto simp: opened_def)
  have valid: "tb_valid biter_table ix \<longleftrightarrow> ?i < length ks" using iter_contract.at_valid [OF con ix(2)] by simp
  have st: "tb_status biter_table ix = OK" using biter_status [OF ix(2)] .
  show ?thesis
  proof (cases "?i < length ks")
    case False
    then show ?thesis
      using ix(1) valid st assms(4) by (simp add: ldb_table_internal_get_def part_found_def Let_def)
  next
    case True
    then have i: "?i < length ps" using t(11) by simp
    have val: "tb_value biter_table ix = ldb_handle_export [] (part_handle ps ?i)"
      using iter_contract.at_entry [OF con ix(2)] True by simp
    have "length (parts_image (take ?i ps)) < 2 ^ 64" using parts_image_strict [OF i order_refl] t(9) by simp
    then have off: "unat (h_offset (part_handle ps ?i)) = length (parts_image (take ?i ps))" by (simp add: part_handle_def)
    obtain it h cache' j where rd: "ldb_table_blockreader ops ?T ro cache (ldb_handle_export [] (part_handle ps ?i)) = ((it, h), cache')"
      "biter_at c it (fst (ps ! ?i)) j" "good (release_block ops cache' h)" using reader [OF i] by blast
    obtain it' where it': "tb_seek biter_table it k = Some it'"
      "biter_at c it' (fst (ps ! ?i)) (length (takeWhile (\<lambda>e. ldb_compare c (fst e) k < 0) (fst (ps ! ?i))))"
      using iter_contract.at_seek [OF con rd(2) assms(3)] by blast
    have found: "(if tb_valid biter_table it' then Some (tb_key biter_table it', tb_value biter_table it') else None) =
        find (\<lambda>e. \<not> ldb_compare c (fst e) k < 0) (fst (ps ! ?i))"
      using iter_contract.entry_refines [OF con it'(2)] unfolding find_cursor iter_entry_def .
    show ?thesis
      using ix(1) valid st True val off rd it'(1) biter_status [OF it'(2)] found assms(4)
      by (cases "tt_filter ?T") (simp_all add: ldb_table_internal_get_def part_found_def Let_def wire_simps)
  qed
qed

text \<open>The block before the one the index leads to holds no entry that is not before the key.\<close>

lemma found_part:
  assumes "separators c (map fst ps) ks" "length ks = length ps" "i < length ps"
    and "\<And>j. j < i \<Longrightarrow> ldb_compare c (ks ! j) k < 0" "e \<in> set (concat (map fst (take i ps)))"
  shows "ldb_compare c (fst e) k < 0"
proof -
  obtain p where p: "p \<in> set (take i ps)" "e \<in> set (fst p)" using assms(5) by auto
  then obtain j where j: "j < i" "e \<in> set (fst (ps ! j))" using assms(3) by (auto simp: in_set_conv_nth [of p])
  then show ?thesis
    using separatorsD(1) [OF assms(1), of j e] assms(2-4) cmp_le_less_trans [of "fst e" "ks ! j" k] by simp
qed

lemma concat_around:
  assumes "i < length ps"
  shows "concat (map fst ps) = concat (map fst (take i ps)) @ fst (ps ! i) @ concat (map fst (drop (Suc i) ps))"
  using arg_cong [OF id_take_nth_drop [OF assms], of "\<lambda>ps. concat (map fst ps)"] by simp

lemma find_append_none: "(\<And>e. e \<in> set xs \<Longrightarrow> \<not> P e) \<Longrightarrow> find P (xs @ ys) = find P ys"
  by (induction xs) auto

lemma find_append_some: "find P xs = Some e \<Longrightarrow> find P (xs @ ys) = Some e"
  by (induction xs) (auto split: if_splits)

lemma part_found_sound:
  assumes "table_file options file content es ps ks m x" "op_comparator options = c" "part_found c flt ps ks k = Some e"
  shows "find (\<lambda>e. \<not> ldb_compare c (fst e) k < 0) es = Some e"
proof -
  note t = table_fileD [OF assms(1), unfolded assms(2)]
  let ?i = "length (takeWhile (\<lambda>s. ldb_compare c s k < 0) ks)"
  have i: "?i < length ps" and f: "find (\<lambda>e. \<not> ldb_compare c (fst e) k < 0) (fst (ps ! ?i)) = Some e"
    using assms(3) t(11) by (auto simp: part_found_def Let_def split: if_splits)
  have before: "ldb_compare c (ks ! j) k < 0" if "j < ?i" for j using that nth_length_takeWhile takeWhile_nth set_takeWhileD nth_mem by metis
  show ?thesis
    unfolding t(5) [symmetric] concat_around [OF i]
    using find_append_none [of "concat (map fst (take ?i ps))" "\<lambda>e. \<not> ldb_compare c (fst e) k < 0"]
      found_part [OF t(12,11) i before] find_append_some [OF f] by simp
qed

text \<open>The first entry not before the key, when it is for the same record, is in that block.\<close>

lemma found_index:
  assumes "table_file options file content es ps ks m x" "op_comparator options = c"
    and "find (\<lambda>e. \<not> ldb_compare c (fst e) k < 0) es = Some e" "same_key c k (fst e)" "i < length ps" "e \<in> set (fst (ps ! i))"
  shows "length (takeWhile (\<lambda>s. ldb_compare c s k < 0) ks) = i"
proof -
  note t = table_fileD [OF assms(1), unfolded assms(2)]
  have "\<not> ldb_compare c (fst e) k < 0" using assms(3) by (auto simp: find_Some_iff)
  then have ge: "ldb_compare c k (fst e) \<le> 0" using cmp_ge_iff [of "fst e" k] by simp
  have first: "ldb_compare c (fst e') k < 0" if e': "e' \<in> set es" "ldb_compare c (fst e') (fst e) < 0" for e'
  proof -
    obtain p where p: "p < length es" "es ! p = e" "\<And>q. q < p \<Longrightarrow> ldb_compare c (fst (es ! q)) k < 0"
      using assms(3) by (auto simp: find_Some_iff)
    obtain q where q: "q < length es" "es ! q = e'" using e'(1) by (auto simp: in_set_conv_nth)
    have "\<not> p \<le> q"
      using sorted_wrt_nth_less [OF t(6), of p q] p(1,2) q e'(2) cmp_refl [of "fst e"] cmp_gt_iff [of "fst e'" "fst e"]
      by (cases "p = q") auto
    then show ?thesis using p(3) [of q] q by simp
  qed
  have "ldb_compare c (ks ! j) k < 0" if j: "j < i" for j
  proof (rule ccontr)
    assume not: "\<not> ldb_compare c (ks ! j) k < 0"
    have a: "apart c (fst (last (fst (ps ! j)))) (ks ! j) (fst e)"
      using separatorsD(2) [OF t(12), of j i e] j assms(5,6) t(11) by simp
    have "ldb_compare c k (ks ! j) \<le> 0" using not cmp_ge_iff [of "ks ! j" k] by simp
    then have "same_key c k (ks ! j)" using same_convex [OF assms(4)] a by (simp add: apart_def)
    then have "ks ! j = fst (last (fst (ps ! j)))" using same_euclid [OF _ assms(4)] a by (simp add: apart_def)
    moreover have "last (fst (ps ! j)) \<in> set (fst (ps ! j))" using t(10) j assms(5) by simp
    then have "last (fst (ps ! j)) \<in> set es" using part_subset [of j ps] t(5) j assms(5) by auto
    ultimately show False using first [of "last (fst (ps ! j))"] a not by (simp add: apart_def)
  qed
  moreover have "\<not> ldb_compare c (ks ! i) k < 0"
    using separatorsD(1) [OF t(12), of i e] assms(5,6) t(11) ge cmp_trans [of k "fst e" "ks ! i"] cmp_ge_iff [of "ks ! i" k] by simp
  ultimately show ?thesis using assms(5) t(11) by (intro length_takeWhile_eqI) simp_all
qed

lemma part_found_complete:
  assumes "table_file options file content es ps ks m x" "op_comparator options = c"
    and "find (\<lambda>e. \<not> ldb_compare c (fst e) k < 0) es = Some e" "same_key c k (fst e)"
    and "\<And>fr i. flt = Some fr \<Longrightarrow> i < length ps \<Longrightarrow> e \<in> set (fst (ps ! i)) \<Longrightarrow> ldb_filter_matches fr (length (parts_image (take i ps))) k"
  shows "part_found c flt ps ks k = Some e"
proof -
  note t = table_fileD [OF assms(1), unfolded assms(2)]
  have "e \<in> set es" using assms(3) by (auto simp: find_Some_iff)
  then obtain p where p: "p \<in> set ps" "e \<in> set (fst p)" using t(5) by auto
  then obtain i where i: "i < length ps" "e \<in> set (fst (ps ! i))" by (auto simp: in_set_conv_nth [of p])
  note ix = found_index [OF assms(1-4) i]
  have before: "ldb_compare c (ks ! j) k < 0" if "j < i" for j
    using that ix nth_length_takeWhile takeWhile_nth set_takeWhileD nth_mem by metis
  have "find (\<lambda>e. \<not> ldb_compare c (fst e) k < 0) (fst (ps ! i) @ concat (map fst (drop (Suc i) ps))) = Some e"
    using assms(3) found_part [OF t(12,11) i(1) before]
    unfolding t(5) [symmetric] concat_around [OF i(1)] by (subst (asm) find_append_none) auto
  moreover have "\<exists>e \<in> set (fst (ps ! i)). \<not> ldb_compare c (fst e) k < 0" using i(2) assms(3) by (auto simp: find_Some_iff)
  then obtain e' where "find (\<lambda>e. \<not> ldb_compare c (fst e) k < 0) (fst (ps ! i)) = Some e'"
    by (cases "find (\<lambda>e. \<not> ldb_compare c (fst e) k < 0) (fst (ps ! i))") (auto simp: find_None_iff)
  ultimately show ?thesis
    using find_append_some [of _ "fst (ps ! i)" e'] assms(5) [OF _ i] ix i(1) t(11)
    by (auto simp: part_found_def Let_def split: option.splits)
qed

end

text \<open>The filter lets the keys of the table pass.\<close>

lemma filter_matches_cong:
  "(\<And>f. ldb_bloom_match (fr_policy fr) f x = ldb_bloom_match (fr_policy fr) f y) \<Longrightarrow>
   ldb_filter_matches fr off x = ldb_filter_matches fr off y"
  by (simp add: ldb_filter_matches_def)

lemma filter_init_policy [simp]: "fr_policy (ldb_filter_init policy contents) = policy"
  by (simp add: ldb_filter_init_def Let_def)

lemma filter_parts_sorted: "sorted (map fst (filter_parts ps @ [(length (parts_image ps), [])]))"
proof -
  have "length (parts_image (take i ps)) \<le> length (parts_image (take j ps))" if "i \<le> j" "j \<le> length ps" for i j
    using parts_image_strict [of i j ps] that by (cases "i = j") auto
  then show ?thesis
    by (auto simp: filter_parts_def sorted_append sorted_iff_nth_mono [of "map _ _"])
      (metis less_imp_le_nat order_refl take_all)
qed

lemma filter_parts_keys:
  "concat (map snd (filter_parts ps @ [(length (parts_image ps), [])])) = map fst (concat (map fst ps))"
proof -
  have "map snd (filter_parts ps) = map (\<lambda>p. map fst (fst p)) ps"
    by (rule nth_equalityI) (simp_all add: filter_parts_def)
  then show ?thesis by (simp add: map_concat comp_def)
qed

text \<open>The policy tells only records apart.\<close>

definition policy_respects :: "ldb_comparator \<Rightarrow> ldb_bloom \<Rightarrow> bool" where
  "policy_respects c policy \<longleftrightarrow> (\<forall>x y f. same_key c x y \<longrightarrow> ldb_bloom_match policy f x = ldb_bloom_match policy f y)"

lemma table_filter_matches:
  assumes "filter_policy policy keys_ok" "policy_respects c policy" "keys_ok (map fst (concat (map fst ps)))"
    and "length (filter_data policy ps) < 2 ^ 32" "i < length ps" "e \<in> set (fst (ps ! i))" "same_key c k (fst e)"
  shows "ldb_filter_matches (ldb_filter_init policy (filter_data policy ps)) (length (parts_image (take i ps))) k"
proof -
  have "ldb_filter_matches (ldb_filter_init policy (filter_data policy ps)) (length (parts_image (take i ps))) (fst e)"
    unfolding filter_data_def
  proof (rule filter_policy.blocks_match [OF assms(1) filter_parts_sorted])
    show "(length (parts_image (take i ps)), map fst (fst (ps ! i))) \<in> set (filter_parts ps @ [(length (parts_image ps), [])])"
      using assms(5) by (simp add: filter_parts_def)
  qed (use assms(3,4,6) in \<open>simp_all only: filter_parts_keys filter_data_def, simp_all\<close>)
  then show ?thesis
    using filter_matches_cong [of "ldb_filter_init policy (filter_data policy ps)" k "fst e"] assms(2,7)
    by (simp add: policy_respects_def)
qed

section \<open>Tables that were built\<close>

lemma table_file_built:
  assumes "table_layout options content ps ks m x" "concat (map fst ps) = es" "file_holds file content" "length content < 2 ^ 64"
    and "0 < op_block_restart_interval options"
    and "sorted_wrt (\<lambda>x y. ldb_compare (op_comparator options) (fst x) (fst y) < 0) es"
    and "\<forall>e \<in> set es. table_key (op_comparator options) (fst e)" "entries_size es + 8 < 2 ^ 30"
  shows "table_file options file content es ps ks m x"
  using assms by (simp add: table_file_def)

lemma table_opened:
  assumes "table_file options file content es ps ks m x" "name_fits options"
  shows "ldb_table_open options file (length content) new_id = Some (Inr (opened options file new_id ps ks m))"
  using table_open_ok [OF table_fileD(1-3) [OF assms(1)] assms(2) table_fileD(4) [OF assms(1)]] by (simp add: opened_def)

text \<open>Without a filter a table is not much larger than its entries.\<close>

lemma parts_image_length:
  "\<forall>p \<in> set ps. part_ok n p \<Longrightarrow> length (parts_image ps) \<le> entries_size (concat (map fst ps))"
proof (induction ps)
  case (Cons p ps)
  then have "length (parts_image ps) \<le> entries_size (concat (map fst ps))" by simp
  moreover have "length (fst (snd p)) \<le> length (build_block n (fst p))" "fst p \<noteq> []" using Cons.prems by (auto simp: part_ok_def)
  then have "length (part_bytes p) \<le> entries_size (fst p)"
    using build_block_length [of n "fst p"] by (cases "fst p") (auto simp: part_bytes_def length_stored_block LDB_TRAILER_SIZE_def)
  ultimately show ?case by (simp add: parts_image_def)
qed (simp add: parts_image_def)

lemma finished_size:
  assumes "table_layout options content ps ks m x" "op_filter_policy options = None"
  shows "length content \<le> 3 * entries_size (concat (map fst ps)) + 100"
proof -
  let ?es = "concat (map fst ps)" and ?n = "op_block_restart_interval options"
  note l = table_layoutD [OF assms(1)]
  have ne: "\<forall>p \<in> set ps. part_ok ?n p" "\<forall>p \<in> set ps. fst p \<noteq> []" using l(1) by (auto simp: part_ok_def)
  have "length (fst m) \<le> length (build_block ?n (meta_entries options ps))" "length (fst x) \<le> length (build_block 1 (index_entries ps ks))"
    using assms(1) by (auto simp: table_layout_def)
  moreover have "meta_entries options ps = []" "filter_section options ps = []"
    using assms(2) by (simp_all add: meta_entries_def filter_section_def)
  moreover have "entries_size (index_entries ps ks) \<le> entries_size ?es + 20 * length ks"
    using index_entries_size [OF ne(1) l(4)] l(2) by simp
  moreover have "64 * length ks \<le> entries_size ?es" using entries_size_count [of ?es] parts_count [OF ne(2)] l(2) by simp
  ultimately show ?thesis
    using parts_image_length [OF ne(1)] build_block_length [of ?n "[]"] build_block_length [of 1 "index_entries ps ks"] l(2)
    by (subst l(7)) (simp add: length_stored_block footer_write_length LDB_TRAILER_SIZE_def LDB_FOOTER_SIZE_def LDB_HANDLE_SIZE_def)
qed

text \<open>Lookups one after the other, with the same cache.\<close>

primrec table_gets :: "('c, 'h) block_cache \<Rightarrow> ldb_table \<Rightarrow> ldb_readopt \<Rightarrow> 'c option \<Rightarrow> bytes list \<Rightarrow>
    (status \<times> (bytes \<times> bytes) option) list option" where
  "table_gets ops table options cache [] = Some []"
| "table_gets ops table options cache (k # ks) =
     Option.bind (ldb_table_internal_get ops table options cache k) (\<lambda>(rc, r, cache).
       map_option (Cons (rc, r)) (table_gets ops table options cache ks))"

text \<open>A cache that has nothing under the id of the table.\<close>

definition fresh_cache :: "('c \<Rightarrow> 'h list \<Rightarrow> bool) \<Rightarrow> ('c \<Rightarrow> (bytes \<times> ldb_block) set) \<Rightarrow> u64 option \<Rightarrow> 'c option \<Rightarrow> bool" where
  "fresh_cache cinv held new_id cache \<longleftrightarrow>
     (\<forall>c. cache = Some c \<longrightarrow> cinv c [] \<and> (\<forall>i off b. new_id = Some i \<longrightarrow> (ldb_fixed64_write i @ off, b) \<notin> held c) \<and> new_id \<noteq> None)"

text \<open>The answer to a lookup: nothing but the first entry not before the key, and that one if it is for the same record.\<close>

definition answers :: "ldb_comparator \<Rightarrow> (bytes \<times> bytes) list \<Rightarrow> bytes \<Rightarrow> (bytes \<times> bytes) option \<Rightarrow> bool" where
  "answers c es k r \<longleftrightarrow>
     (\<forall>e. r = Some e \<longrightarrow> find (\<lambda>e. \<not> ldb_compare c (fst e) k < 0) es = Some e) \<and>
     (\<forall>e. find (\<lambda>e. \<not> ldb_compare c (fst e) k < 0) es = Some e \<longrightarrow> same_key c k (fst e) \<longrightarrow> r = Some e)"

context table_order
begin

lemma gets_answered:
  assumes tf: "table_file options file content es ps ks m x" and oc: "op_comparator options = c"
    and flt: "\<And>policy. op_filter_policy options = Some policy \<Longrightarrow> filter_policy policy keys_ok \<and> policy_respects c policy \<and>
      keys_ok (map fst es) \<and> length (filter_data policy ps) < 2 ^ 32"
    and store: "block_store ops cinv held"
    and cache: "world_ok cinv held (opened options file new_id ps ks m) ps 1 [] cache"
    and keys: "\<forall>k \<in> set qs. table_key c k"
  shows "\<exists>rs. table_gets ops (opened options file new_id ps ks m) ro cache qs = Some rs \<and>
    list_all2 (\<lambda>k (rc, r). rc = OK \<and> answers c es k r) qs rs"
  using cache keys
proof (induction qs arbitrary: cache)
  case (Cons k qs)
  let ?T = "opened options file new_id ps ks m"
  let ?good = "world_ok cinv held ?T ps (Suc 0) []"
  have "\<exists>it h cache' j. ldb_table_blockreader ops ?T ro cache (ldb_handle_export [] (part_handle ps i)) = ((it, h), cache') \<and>
      biter_at c it (fst (ps ! i)) j \<and> ?good (release_block ops cache' h)" if i: "i < length ps" for i
  proof -
    obtain h cache' where rd: "ldb_table_blockreader ops ?T ro cache (ldb_handle_export [] (part_handle ps i)) =
        ((ldb_blockiter_create (ldb_block_init (build_block (op_block_restart_interval options) (fst (ps ! i)))) c, h), cache')"
      "case h of None \<Rightarrow> ?good cache' | Some h \<Rightarrow> world_ok cinv held ?T ps 0 [h] cache'"
      using block_store.blockreader_world [OF store tf i, of new_id 0 "[]" cache ro] Cons.prems(1) oc by auto
    then have "?good (release_block ops cache' h)"
      using block_store.release_world [OF store, of ?T ps 0 "[the h]" cache' "the h"]
      by (cases h) (simp_all add: release_block_def)
    then show ?thesis using rd part_at [OF tf oc i] by blast
  qed
  then obtain cache' where g: "ldb_table_internal_get ops ?T ro cache k = Some (OK, part_found c (tt_filter ?T) ps ks k, cache')" "?good cache'"
    using get_part [OF tf oc _ , of k ?good cache ops new_id ro] Cons.prems by auto
  have "answers c es k (part_found c (tt_filter ?T) ps ks k)"
    unfolding answers_def
  proof (intro conjI allI impI)
    show "part_found c (tt_filter ?T) ps ks k = Some e \<Longrightarrow> find (\<lambda>e. \<not> ldb_compare c (fst e) k < 0) es = Some e" for e
      by (rule part_found_sound [OF tf oc])
    fix e assume e: "find (\<lambda>e. \<not> ldb_compare c (fst e) k < 0) es = Some e" "same_key c k (fst e)"
    show "part_found c (tt_filter ?T) ps ks k = Some e"
    proof (rule part_found_complete [OF tf oc e])
      fix fr i assume fr: "tt_filter ?T = Some fr" "i < length ps" "e \<in> set (fst (ps ! i))"
      then obtain policy where p: "op_filter_policy options = Some policy" "fr = ldb_filter_init policy (filter_data policy ps)"
        by (auto simp: opened_def)
      show "ldb_filter_matches fr (length (parts_image (take i ps))) k"
        unfolding p(2) using flt [OF p(1)] fr e(2) table_fileD(5) [OF tf] by (intro table_filter_matches [of policy keys_ok]) auto
    qed
  qed
  then show ?case using g Cons.IH [of cache'] Cons.prems(2) by auto
qed simp

end

text \<open>
  A program of moves of the iterator of a table, and what the iterator shows.  Before each move others
  use the block cache.
\<close>

fun tableiter_step :: "('c \<Rightarrow> 'c) \<times> iter_move \<Rightarrow> ('c, 'h) ldb_tableiter \<Rightarrow> ('c, 'h) ldb_tableiter option" where
  "tableiter_step (others, m) it =
     iter_apply (ldb_twoiter_first biter_table biter_table) (ldb_twoiter_last biter_table biter_table)
       (ldb_twoiter_next biter_table biter_table) (ldb_twoiter_prev biter_table biter_table)
       (ldb_twoiter_seek biter_table biter_table) m (it\<lparr>ti_world := map_option others (ti_world it)\<rparr>)"

definition tableiter_run :: "(('c \<Rightarrow> 'c) \<times> iter_move) list \<Rightarrow> ('c, 'h) ldb_tableiter \<Rightarrow> ('c, 'h) ldb_tableiter option" where
  "tableiter_run = run_moves tableiter_step"

definition tableiter_entry :: "('c, 'h) ldb_tableiter \<Rightarrow> (bytes \<times> bytes) option" where
  "tableiter_entry = iter_entry ldb_twoiter_valid ldb_twoiter_key (ldb_twoiter_value biter_table)"

text \<open>Others leave the handles in use and the room alone, and bring nothing new under the id of the table.\<close>

definition others_ok :: "(nat \<Rightarrow> 'c \<Rightarrow> 'h list \<Rightarrow> bool) \<Rightarrow> ('c \<Rightarrow> (bytes \<times> ldb_block) set) \<Rightarrow> u64 option \<Rightarrow> ('c \<Rightarrow> 'c) \<Rightarrow> bool" where
  "others_ok cinv held new_id others \<longleftrightarrow>
     (\<forall>n c H. cinv n c H \<longrightarrow> cinv n (others c) H \<and>
        (\<forall>off b. (ldb_fixed64_write (case new_id of None \<Rightarrow> 0 | Some i \<Rightarrow> i) @ off, b) \<in> held (others c) \<longrightarrow>
           (ldb_fixed64_write (case new_id of None \<Rightarrow> 0 | Some i \<Rightarrow> i) @ off, b) \<in> held c))"

lemma fresh_world:
  assumes "fresh_cache (cinv n) held new_id cache"
  shows "world_ok cinv held (opened options file new_id ps ks m) ps n [] cache"
  using assms by (auto simp: fresh_cache_def world_ok_def cache_right_def cache_key_def opened_def)

lemma others_world:
  assumes "others_ok cinv held new_id others" "table_winv cinv held (opened options file new_id ps ks m) ps h cache"
  shows "table_winv cinv held (opened options file new_id ps ks m) ps h (map_option others cache)"
proof -
  let ?T = "opened options file new_id ps ks m"
  have "world_ok cinv held ?T ps n H (map_option others cache)" if "world_ok cinv held ?T ps n H cache" for n H
  proof (cases cache)
    case (Some c)
    let ?id = "case new_id of None \<Rightarrow> 0 | Some i \<Rightarrow> i"
    have c: "cinv n c H" "cache_right held ?T ps c" using that Some by (simp_all add: world_ok_def)
    then have new: "cinv n (others c) H" "\<And>off b. (ldb_fixed64_write ?id @ off, b) \<in> held (others c) \<Longrightarrow> (ldb_fixed64_write ?id @ off, b) \<in> held c"
      using assms(1) unfolding others_ok_def by blast+
    then show ?thesis using c(2) Some by (simp add: world_ok_def cache_right_def cache_key_def opened_def)
  qed (simp add: world_ok_def)
  then show ?thesis using assms(2) by (simp add: table_winv_def split: option.splits)
qed

context table_order
begin

lemma tableiter_run_at:
  assumes tf: "table_file options file content es ps ks m x" and oc: "op_comparator options = c" and store: "block_store ops cinv held"
    and others: "\<forall>f \<in> fst ` set steps. others_ok cinv held new_id f"
    and moves: "run_moves (cursor_move (\<lambda>x y. ldb_compare c x y < 0) es) (map snd steps) k = Some k'"
      "\<forall>mv \<in> snd ` set steps. move_ok (table_key c) mv"
    and at: "two_at (table_winv cinv held (opened options file new_id ps ks m) ps) (\<lambda>x y. ldb_compare c x y < 0) (biter_at c) (biter_at c)
      biter_table biter_table it es k"
  shows "\<exists>it'. tableiter_run steps it = Some it' \<and> tableiter_entry it' = cursor_entry es k' \<and>
    world_ok cinv held (opened options file new_id ps ks m) ps 2 [] (ldb_twoiter_clear it')"
  using moves others at
proof (induction steps arbitrary: it k)
  case Nil
  have "tableiter_entry it = cursor_entry es k" unfolding tableiter_entry_def by (rule tabiter.two.entry_refines [OF Nil(4)])
  then show ?case using Nil tabiter.two_at_world(2) [OF Nil(4)] by (simp add: tableiter_run_def table_winv_def)
next
  case (Cons s steps)
  obtain f mv where s: "s = (f, mv)" by fastforce
  obtain k1 where k1: "cursor_move (\<lambda>x y. ldb_compare c x y < 0) es mv k = Some k1"
    "run_moves (cursor_move (\<lambda>x y. ldb_compare c x y < 0) es) (map snd steps) k1 = Some k'"
    using Cons.prems(1) s by (auto split: bind_splits)
  let ?it = "it\<lparr>ti_world := map_option f (ti_world it)\<rparr>"
  have "others_ok cinv held new_id f" using Cons.prems(3) s by simp
  then have "table_winv cinv held (opened options file new_id ps ks m) ps (ti_cleanup it) (map_option f (ti_world it))"
    using others_world tabiter.two_at_world(1) [OF Cons.prems(4)] by blast
  then have at1: "two_at (table_winv cinv held (opened options file new_id ps ks m) ps) (\<lambda>x y. ldb_compare c x y < 0) (biter_at c) (biter_at c)
      biter_table biter_table ?it es k" by (rule tabiter.two_at_world(3) [OF Cons.prems(4)])
  have mv: "move_ok (table_key c) mv" using Cons.prems(2) s by simp
  obtain it1 where it1: "tableiter_step s it = Some it1"
    "two_at (table_winv cinv held (opened options file new_id ps ks m) ps) (\<lambda>x y. ldb_compare c x y < 0) (biter_at c) (biter_at c)
      biter_table biter_table it1 es k1"
    using tabiter.two.move_refines [OF at1 k1(1) mv] s by auto
  show ?case using Cons.IH [OF k1(2) _ _ it1(2)] Cons.prems(2,3) it1(1) by (simp add: tableiter_run_def)
qed

end

section \<open>Finished tables\<close>

text \<open>Options with a block for every entry.\<close>

definition small_blocks :: "ldb_comparator \<Rightarrow> ldb_dbopt" where
  "small_blocks c = \<lparr>op_comparator = c, op_paranoid_checks = True, op_block_size = 1, op_block_restart_interval = 16,
     op_compression = LDB_SNAPPY_COMPRESSION, op_filter_policy = None, op_max_file_size = 2097152\<rparr>"

lemma small_blocks_simps [simp]:
  "op_comparator (small_blocks c) = c" "op_filter_policy (small_blocks c) = None" "op_block_restart_interval (small_blocks c) = 16"
  "name_fits (small_blocks c)"
  by (simp_all add: small_blocks_def name_fits_def)

lemma two_keys:
  "sorted_wrt (\<lambda>x y. ldb_compare bytewise_comparator (fst x) (fst y) < 0) [([97], [1]), ([98], [2])]"
  "table_key bytewise_comparator k"
  by (simp_all add: table_key_def bytewise_comparator_def ldb_compare_def)

text \<open>Lookups in a finished table, through any block store.\<close>

lemma finished_gets:
  assumes "reliable_file ops content" "table_order c" "op_comparator options = c" "name_fits options"
    and "0 < op_block_restart_interval options" "content file = []"
    and "sorted_wrt (\<lambda>x y. ldb_compare c (fst x) (fst y) < 0) es" "\<forall>e \<in> set es. table_key c (fst e)"
    and "entries_size es + 8 < 2 ^ 30"
    and "\<forall>policy. op_filter_policy options = Some policy \<longrightarrow> filter_policy policy keys_ok \<and> policy_respects c policy \<and> keys_ok (map fst es)"
    and "block_store cops cinv held" "\<forall>k \<in> set qs. table_key c k"
  shows "\<exists>tb tb'. tablegen_add_all ops (ldb_tablegen_create options file) es = Some tb \<and>
    ldb_tablegen_finish ops tb = Some (OK, tb') \<and>
    (op_filter_policy options = None \<longrightarrow> ldb_tablegen_size tb' \<le> 3 * entries_size es + 100) \<and>
    (\<forall>rf new_id ro cache. file_holds rf (content (tg_file tb')) \<longrightarrow> ldb_tablegen_size tb' < 2 ^ 32 \<longrightarrow> fresh_cache (cinv 1) held new_id cache \<longrightarrow>
       (\<exists>table rs. ldb_table_open options rf (ldb_tablegen_size tb') new_id = Some (Inr table) \<and>
          table_gets cops table ro cache qs = Some rs \<and> list_all2 (\<lambda>k (rc, r). rc = OK \<and> answers c es k r) qs rs))"
proof -
  obtain tb tb' ps ks m x where b: "tablegen_add_all ops (ldb_tablegen_create options file) es = Some tb"
    "ldb_tablegen_finish ops tb = Some (OK, tb')" "concat (map fst ps) = es"
    "table_layout options (content (tg_file tb')) ps ks m x" "ldb_tablegen_size tb' = length (content (tg_file tb'))"
    using reliable_file.build_ok [OF assms(1-4,6-9)] by blast
  have reads: "\<exists>table rs. ldb_table_open options rf (ldb_tablegen_size tb') new_id = Some (Inr table) \<and>
          table_gets cops table ro cache qs = Some rs \<and> list_all2 (\<lambda>k (rc, r). rc = OK \<and> answers c es k r) qs rs"
    if "file_holds rf (content (tg_file tb'))" "ldb_tablegen_size tb' < 2 ^ 32" "fresh_cache (cinv 1) held new_id cache" for rf new_id ro cache
  proof -
    have tf: "table_file options rf (content (tg_file tb')) es ps ks m x"
      using table_file_built [OF b(4,3)] that assms(3,5,7-9) b(5) by simp
    have small: "length (filter_data policy ps) < 2 ^ 32" if "op_filter_policy options = Some policy" for policy
      using arg_cong [OF table_layoutD(7) [OF b(4)], of length] \<open>ldb_tablegen_size tb' < 2 ^ 32\<close> b(5) that
      by (simp add: filter_section_def length_stored_block)
    have "\<exists>rs. table_gets cops (opened options rf new_id ps ks m) ro cache qs = Some rs \<and>
        list_all2 (\<lambda>k (rc, r). rc = OK \<and> answers c es k r) qs rs"
      by (rule table_order.gets_answered [OF assms(2) tf assms(3) _ assms(11) _ assms(12), of keys_ok])
        (use assms(10) small fresh_world [where cinv = cinv and n = 1, OF that(3)] in auto)
    then show ?thesis using table_opened [OF tf assms(4), of new_id] b(5) by auto
  qed
  have "op_filter_policy options = None \<longrightarrow> ldb_tablegen_size tb' \<le> 3 * entries_size es + 100"
    using finished_size [OF b(4)] b(3,5) by simp
  then show ?thesis
    using b reads by (intro exI [of _ tb] exI [of _ tb'] conjI allI impI) simp_all
qed

lemma no_cache_store: "block_store no_cache (\<lambda>_ _ _. True) (\<lambda>_. {})"
  by unfold_locales (auto simp: no_cache_def)

lemma internal_bloom_respects:
  "policy_respects (ldb_ikc_init bytewise_comparator) (ldb_ifp_init p)"
  by (auto simp: policy_respects_def same_ikc ldb_bloom_match_def ldb_ifp_init_def ldb_ifp_match_def)

end
