(* ===== verification/Lru_Cache.thy ===== *)
theory Lru_Cache
  imports Bloom
begin

text \<open>
  The sharded LRU cache of \<^verbatim>\<open>engine/src/util/cache.c\<close>.  The entries of a shard live in a store
  from addresses to entries; the two circular lists are lists of addresses, the oldest entry
  first, and the chains of the hash table are lists of addresses.  A mutex makes every
  operation of a shard atomic.  A call of a deleter is recorded in \<open>sh_deleted\<close>, with the
  address of the entry that is freed.  Reference counts are 32-bit and charges, usage and
  capacity 64-bit words that wrap as in the code.  An assertion that fails, or an access to an
  entry that was freed, sets a flag, \<open>sh_fault\<close> of the shard or \<open>lt_fault\<close> of its table.  The
  two counters of the hash table, \<^verbatim>\<open>uint32_t\<close> in the code, are numbers: what is shown of runs
  has insertions only into shards with less than \<open>2 ^ 31\<close> entries, so that neither counter wraps.
\<close>

section \<open>Entries\<close>

record 'v lru_handle =
  lh_value :: 'v
  lh_charge :: u64
  lh_key :: bytes
  lh_in_cache :: bool
  lh_refs :: u32
  lh_hash :: u32

type_synonym 'v lru_heap = "nat \<Rightarrow> 'v lru_handle option"

definition lru_handle_equal :: "'v lru_handle \<Rightarrow> bytes \<Rightarrow> bool" where
  "lru_handle_equal x y \<longleftrightarrow> length (lh_key x) = length y \<and> lh_key x = y"

section \<open>The hash table\<close>

record lru_table =
  lt_length :: nat
  lt_elems :: nat
  lt_list :: "nat list list"
  lt_fault :: bool

definition bucket_of :: "nat \<Rightarrow> u32 \<Rightarrow> nat" where
  "bucket_of len hash = unat (hash AND word_of_nat (len - 1))"

definition slot_match :: "'v lru_heap \<Rightarrow> bytes \<Rightarrow> u32 \<Rightarrow> nat \<Rightarrow> bool" where
  "slot_match heap key hash e =
     (case heap e of None \<Rightarrow> False | Some h \<Rightarrow> lh_hash h = hash \<and> lru_handle_equal h key)"

text \<open>The position of the slot in its chain; the length of the chain is the trailing slot.\<close>

definition lru_table_find :: "'v lru_heap \<Rightarrow> lru_table \<Rightarrow> bytes \<Rightarrow> u32 \<Rightarrow> nat" where
  "lru_table_find heap tbl key hash =
     length (takeWhile (\<lambda>e. \<not> slot_match heap key hash e) (lt_list tbl ! bucket_of (lt_length tbl) hash))"

function grow_length :: "nat \<Rightarrow> nat \<Rightarrow> nat" where
  "grow_length new_length elems =
     (if 0 < new_length \<and> new_length < elems then grow_length (new_length * 2) elems else new_length)"
  by pat_completeness auto
termination
  by (relation "measure (\<lambda>(n, elems). elems - n)") auto

declare grow_length.simps [simp del]

definition heap_hash :: "'v lru_heap \<Rightarrow> nat \<Rightarrow> u32" where
  "heap_hash heap e = (case heap e of None \<Rightarrow> 0 | Some h \<Rightarrow> lh_hash h)"

definition rehash :: "'v lru_heap \<Rightarrow> nat \<Rightarrow> nat \<Rightarrow> nat list list \<Rightarrow> nat list list" where
  "rehash heap new_length e new_list =
     (let b = bucket_of new_length (heap_hash heap e) in new_list[b := e # new_list ! b])"

definition lru_table_resize :: "'v lru_heap \<Rightarrow> lru_table \<Rightarrow> lru_table" where
  "lru_table_resize heap tbl =
     (let new_length = grow_length 4 (lt_elems tbl);
          new_list = fold (\<lambda>chain nl. fold (rehash heap new_length) chain nl) (lt_list tbl) (replicate new_length []);
          count = length (concat (lt_list tbl))
      in tbl\<lparr>lt_list := new_list, lt_length := new_length, lt_fault := lt_fault tbl \<or> lt_elems tbl \<noteq> count\<rparr>)"

definition lru_table_init :: "'v lru_heap \<Rightarrow> lru_table" where
  "lru_table_init heap = lru_table_resize heap \<lparr>lt_length = 0, lt_elems = 0, lt_list = [], lt_fault = False\<rparr>"

definition lru_table_lookup :: "'v lru_heap \<Rightarrow> lru_table \<Rightarrow> bytes \<Rightarrow> u32 \<Rightarrow> nat option" where
  "lru_table_lookup heap tbl key hash =
     (let chain = lt_list tbl ! bucket_of (lt_length tbl) hash; i = lru_table_find heap tbl key hash
      in if i < length chain then Some (chain ! i) else None)"

text \<open>\<open>key\<close> and \<open>hash\<close> are those of the entry \<open>h\<close>.\<close>

definition lru_table_insert :: "'v lru_heap \<Rightarrow> lru_table \<Rightarrow> bytes \<Rightarrow> u32 \<Rightarrow> nat \<Rightarrow> nat option \<times> lru_table" where
  "lru_table_insert heap tbl key hash h =
     (let b = bucket_of (lt_length tbl) hash; chain = lt_list tbl ! b;
          i = lru_table_find heap tbl key hash;
          old = lru_table_lookup heap tbl key hash;
          tbl = tbl\<lparr>lt_list := (lt_list tbl)[b := take i chain @ [h] @ drop (i + 1) chain]\<rparr>
      in if old = None then
           (let tbl = tbl\<lparr>lt_elems := lt_elems tbl + 1\<rparr>
            in (old, if lt_elems tbl > lt_length tbl then lru_table_resize heap tbl else tbl))
         else (old, tbl))"

definition lru_table_remove :: "'v lru_heap \<Rightarrow> lru_table \<Rightarrow> bytes \<Rightarrow> u32 \<Rightarrow> nat option \<times> lru_table" where
  "lru_table_remove heap tbl key hash =
     (let b = bucket_of (lt_length tbl) hash; chain = lt_list tbl ! b;
          i = lru_table_find heap tbl key hash;
          result = lru_table_lookup heap tbl key hash
      in if result \<noteq> None
         then (result, tbl\<lparr>lt_list := (lt_list tbl)[b := take i chain @ drop (i + 1) chain], lt_elems := lt_elems tbl - 1\<rparr>)
         else (result, tbl))"

section \<open>A shard\<close>

record 'v lru_shard =
  sh_capacity :: u64
  sh_usage :: u64
  sh_list :: "nat list"
  sh_in_use :: "nat list"
  sh_table :: lru_table
  sh_heap :: "'v lru_heap"
  sh_next :: nat
  sh_deleted :: "(nat \<times> bytes \<times> 'v) list"
  sh_fault :: bool

definition lru_assert :: "bool \<Rightarrow> 'v lru_shard \<Rightarrow> 'v lru_shard" where
  "lru_assert b lru = lru\<lparr>sh_fault := sh_fault lru \<or> \<not> b\<rparr>"


text \<open>\<open>lru_shard_remove\<close> unlinks an entry from the list it is in, \<open>lru_shard_append\<close> makes it the newest.\<close>

definition lru_shard_remove :: "'v lru_shard \<Rightarrow> nat \<Rightarrow> 'v lru_shard" where
  "lru_shard_remove lru e = lru\<lparr>sh_list := remove1 e (sh_list lru), sh_in_use := remove1 e (sh_in_use lru)\<rparr>"

definition append_list :: "'v lru_shard \<Rightarrow> nat \<Rightarrow> 'v lru_shard" where
  "append_list lru e = lru\<lparr>sh_list := sh_list lru @ [e]\<rparr>"

definition append_in_use :: "'v lru_shard \<Rightarrow> nat \<Rightarrow> 'v lru_shard" where
  "append_in_use lru e = lru\<lparr>sh_in_use := sh_in_use lru @ [e]\<rparr>"

definition put_entry :: "'v lru_shard \<Rightarrow> nat \<Rightarrow> 'v lru_handle \<Rightarrow> 'v lru_shard" where
  "put_entry lru e h = lru\<lparr>sh_heap := (sh_heap lru)(e \<mapsto> h)\<rparr>"

definition lru_shard_ref :: "'v lru_shard \<Rightarrow> nat \<Rightarrow> 'v lru_shard" where
  "lru_shard_ref lru e =
     (case sh_heap lru e of
        None \<Rightarrow> lru_assert False lru
      | Some h \<Rightarrow>
          (let lru = (if lh_refs h = 1 \<and> lh_in_cache h then append_in_use (lru_shard_remove lru e) e else lru)
           in put_entry lru e (h\<lparr>lh_refs := lh_refs h + 1\<rparr>)))"

definition lru_shard_unref :: "'v lru_shard \<Rightarrow> nat \<Rightarrow> 'v lru_shard" where
  "lru_shard_unref lru e =
     (case sh_heap lru e of
        None \<Rightarrow> lru_assert False lru
      | Some h \<Rightarrow>
          (let lru = lru_assert (lh_refs h > 0) lru; h = h\<lparr>lh_refs := lh_refs h - 1\<rparr>; lru = put_entry lru e h
           in if lh_refs h = 0
              then (lru_assert (\<not> lh_in_cache h) lru)
                \<lparr>sh_deleted := sh_deleted lru @ [(e, lh_key h, lh_value h)], sh_heap := (sh_heap lru)(e := None)\<rparr>
              else if lh_in_cache h \<and> lh_refs h = 1 then append_list (lru_shard_remove lru e) e
              else lru))"

definition lru_shard_init :: "u64 \<Rightarrow> 'v lru_shard" where
  "lru_shard_init capacity =
     \<lparr>sh_capacity = capacity, sh_usage = 0, sh_list = [], sh_in_use = [],
      sh_table = lru_table_init (\<lambda>_. None :: 'v lru_handle option), sh_heap = (\<lambda>_. None), sh_next = 0, sh_deleted = [], sh_fault = False\<rparr>"

definition lru_shard_clear :: "'v lru_shard \<Rightarrow> 'v lru_shard" where
  "lru_shard_clear lru =
     fold (\<lambda>e lru. case sh_heap lru e of
             None \<Rightarrow> lru_assert False lru
           | Some h \<Rightarrow> lru_shard_unref (put_entry (lru_assert (lh_in_cache h \<and> lh_refs h = 1) lru) e (h\<lparr>lh_in_cache := False\<rparr>)) e)
       (sh_list lru) (lru_assert (sh_in_use lru = []) lru)"

definition lru_shard_lookup :: "'v lru_shard \<Rightarrow> bytes \<Rightarrow> u32 \<Rightarrow> nat option \<times> 'v lru_shard" where
  "lru_shard_lookup lru key hash =
     (case lru_table_lookup (sh_heap lru) (sh_table lru) key hash of
        None \<Rightarrow> (None, lru)
      | Some e \<Rightarrow> (Some e, lru_shard_ref lru e))"

definition lru_shard_release :: "'v lru_shard \<Rightarrow> nat \<Rightarrow> 'v lru_shard" where
  "lru_shard_release lru handle = lru_shard_unref lru handle"

definition lru_shard_finish :: "'v lru_shard \<Rightarrow> nat option \<Rightarrow> bool \<times> 'v lru_shard" where
  "lru_shard_finish lru e =
     (case e of
        None \<Rightarrow> (False, lru)
      | Some e \<Rightarrow>
          (True,
           case sh_heap lru e of
             None \<Rightarrow> lru_assert False lru
           | Some h \<Rightarrow>
               (let lru = lru_shard_remove (lru_assert (lh_in_cache h) lru) e;
                    lru = put_entry lru e (h\<lparr>lh_in_cache := False\<rparr>);
                    lru = lru\<lparr>sh_usage := sh_usage lru - lh_charge h\<rparr>
                in lru_shard_unref lru e)))"

definition lru_shard_erase :: "'v lru_shard \<Rightarrow> bytes \<Rightarrow> u32 \<Rightarrow> 'v lru_shard" where
  "lru_shard_erase lru key hash =
     (case lru_table_remove (sh_heap lru) (sh_table lru) key hash of
        (e, tbl) \<Rightarrow> snd (lru_shard_finish (lru\<lparr>sh_table := tbl\<rparr>) e))"

text \<open>The body of the loops that remove the oldest entry of \<open>list\<close>.\<close>

definition remove_oldest :: "'v lru_shard \<Rightarrow> 'v lru_shard" where
  "remove_oldest lru =
     (case sh_list lru of
        [] \<Rightarrow> lru
      | e # _ \<Rightarrow>
          (case sh_heap lru e of
             None \<Rightarrow> lru_assert False lru
           | Some h \<Rightarrow> lru_shard_erase (lru_assert (lh_refs h = 1) lru) (lh_key h) (lh_hash h)))"

text \<open>The loops; every round shortens the list, so that its length bounds the rounds.\<close>

fun prune_loop :: "nat \<Rightarrow> 'v lru_shard \<Rightarrow> 'v lru_shard" where
  "prune_loop 0 lru = lru"
| "prune_loop (Suc n) lru = (if sh_list lru \<noteq> [] then prune_loop n (remove_oldest lru) else lru)"

definition lru_shard_prune :: "'v lru_shard \<Rightarrow> 'v lru_shard" where
  "lru_shard_prune lru = prune_loop (length (sh_list lru)) lru"

fun evict_loop :: "nat \<Rightarrow> 'v lru_shard \<Rightarrow> 'v lru_shard" where
  "evict_loop 0 lru = lru"
| "evict_loop (Suc n) lru =
     (if sh_usage lru > sh_capacity lru \<and> sh_list lru \<noteq> [] then evict_loop n (remove_oldest lru) else lru)"

definition lru_shard_insert :: "'v lru_shard \<Rightarrow> bytes \<Rightarrow> u32 \<Rightarrow> 'v \<Rightarrow> u64 \<Rightarrow> nat \<times> 'v lru_shard" where
  "lru_shard_insert lru key hash value charge =
     (let e = sh_next lru;
          h = \<lparr>lh_value = value, lh_charge = charge, lh_key = key, lh_in_cache = False, lh_refs = 1, lh_hash = hash\<rparr>;
          lru = (put_entry lru e h)\<lparr>sh_next := e + 1\<rparr>;
          lru = (if sh_capacity lru > 0 then
                   (let lru = put_entry lru e (h\<lparr>lh_refs := lh_refs h + 1, lh_in_cache := True\<rparr>);
                        lru = append_in_use lru e;
                        lru = lru\<lparr>sh_usage := sh_usage lru + charge\<rparr>
                    in case lru_table_insert (sh_heap lru) (sh_table lru) key hash e of
                         (old, tbl) \<Rightarrow> snd (lru_shard_finish (lru\<lparr>sh_table := tbl\<rparr>) old))
                 else lru)
      in (e, evict_loop (length (sh_list lru)) lru))"

section \<open>The cache\<close>

definition LDB_SHARD_BITS :: nat where
  "LDB_SHARD_BITS = 4"

definition LDB_SHARDS :: nat where
  "LDB_SHARDS = 2 ^ LDB_SHARD_BITS"

record 'v ldb_lru =
  lr_shard :: "'v lru_shard list"
  lr_last_id :: u64

text \<open>A handle: the hash of its entry, which chooses the shard, and the address.\<close>

type_synonym ldb_entry = "u32 \<times> nat"

definition ldb_lru_hash :: "bytes \<Rightarrow> u32" where
  "ldb_lru_hash s = ldb_hash s 0"

definition ldb_lru_shard :: "u32 \<Rightarrow> nat" where
  "ldb_lru_shard hash = unat (drop_bit (32 - LDB_SHARD_BITS) hash)"

definition ldb_lru_create :: "u64 \<Rightarrow> 'v ldb_lru" where
  "ldb_lru_create capacity =
     (let per_shard = (capacity + word_of_nat LDB_SHARDS - 1) div word_of_nat LDB_SHARDS
      in \<lparr>lr_shard = replicate LDB_SHARDS (lru_shard_init per_shard), lr_last_id = 0\<rparr>)"

definition ldb_lru_destroy :: "'v ldb_lru \<Rightarrow> 'v ldb_lru" where
  "ldb_lru_destroy lru = lru\<lparr>lr_shard := map lru_shard_clear (lr_shard lru)\<rparr>"

definition ldb_lru_insert :: "'v ldb_lru \<Rightarrow> bytes \<Rightarrow> 'v \<Rightarrow> u64 \<Rightarrow> ldb_entry \<times> 'v ldb_lru" where
  "ldb_lru_insert lru key value charge =
     (let hash = ldb_lru_hash key; i = ldb_lru_shard hash
      in case lru_shard_insert (lr_shard lru ! i) key hash value charge of
           (e, shard) \<Rightarrow> ((hash, e), lru\<lparr>lr_shard := (lr_shard lru)[i := shard]\<rparr>))"

definition ldb_lru_lookup :: "'v ldb_lru \<Rightarrow> bytes \<Rightarrow> ldb_entry option \<times> 'v ldb_lru" where
  "ldb_lru_lookup lru key =
     (let hash = ldb_lru_hash key; i = ldb_lru_shard hash
      in case lru_shard_lookup (lr_shard lru ! i) key hash of
           (e, shard) \<Rightarrow> (map_option (Pair hash) e, lru\<lparr>lr_shard := (lr_shard lru)[i := shard]\<rparr>))"

definition ldb_lru_release :: "'v ldb_lru \<Rightarrow> ldb_entry \<Rightarrow> 'v ldb_lru" where
  "ldb_lru_release lru handle =
     (let i = ldb_lru_shard (fst handle)
      in lru\<lparr>lr_shard := (lr_shard lru)[i := lru_shard_release (lr_shard lru ! i) (snd handle)]\<rparr>)"

definition ldb_lru_erase :: "'v ldb_lru \<Rightarrow> bytes \<Rightarrow> 'v ldb_lru" where
  "ldb_lru_erase lru key =
     (let hash = ldb_lru_hash key; i = ldb_lru_shard hash
      in lru\<lparr>lr_shard := (lr_shard lru)[i := lru_shard_erase (lr_shard lru ! i) key hash]\<rparr>)"

definition ldb_lru_value :: "'v ldb_lru \<Rightarrow> ldb_entry \<Rightarrow> 'v option" where
  "ldb_lru_value lru handle =
     map_option lh_value (sh_heap (lr_shard lru ! ldb_lru_shard (fst handle)) (snd handle))"

definition ldb_lru_id :: "'v ldb_lru \<Rightarrow> u64 \<times> 'v ldb_lru" where
  "ldb_lru_id lru = (let id = lr_last_id lru + 1 in (id, lru\<lparr>lr_last_id := id\<rparr>))"

definition ldb_lru_prune :: "'v ldb_lru \<Rightarrow> 'v ldb_lru" where
  "ldb_lru_prune lru = lru\<lparr>lr_shard := map lru_shard_prune (lr_shard lru)\<rparr>"


section \<open>What the hash table holds\<close>

definition buckets_hold :: "'v lru_heap \<Rightarrow> nat list list \<Rightarrow> nat \<Rightarrow> nat set \<Rightarrow> bool" where
  "buckets_hold heap list len A \<longleftrightarrow>
     length list = len \<and> (\<exists>k. len = 2 ^ k) \<and> A = (\<Union>b < len. set (list ! b)) \<and>
     (\<forall>b < len. distinct (list ! b) \<and> (\<forall>e \<in> set (list ! b). bucket_of len (heap_hash heap e) = b))"

text \<open>The entries are in the store, their hash is that of their key, and no key is there twice.\<close>

definition keys_hold :: "'v lru_heap \<Rightarrow> nat set \<Rightarrow> bool" where
  "keys_hold heap A \<longleftrightarrow>
     (\<forall>e \<in> A. \<exists>h. heap e = Some h \<and> lh_hash h = ldb_lru_hash (lh_key h)) \<and>
     (\<forall>e \<in> A. \<forall>e' \<in> A. \<forall>h h'. heap e = Some h \<longrightarrow> heap e' = Some h' \<longrightarrow> lh_key h = lh_key h' \<longrightarrow> e = e')"

definition table_holds :: "'v lru_heap \<Rightarrow> lru_table \<Rightarrow> nat set \<Rightarrow> bool" where
  "table_holds heap tbl A \<longleftrightarrow>
     buckets_hold heap (lt_list tbl) (lt_length tbl) A \<and> keys_hold heap A \<and> lt_elems tbl = card A \<and> lt_elems tbl \<le> lt_length tbl \<and>
     \<not> lt_fault tbl"

lemma bucket_of_less: "len = 2 ^ k \<Longrightarrow> bucket_of len hash < len"
proof -
  assume len: "len = 2 ^ k"
  have "word_of_nat (len - 1) = (mask k :: u32)" unfolding len by (simp add: of_nat_diff mask_eq_exp_minus_1)
  then have "bucket_of len hash = unat (take_bit k hash)" by (simp add: bucket_of_def take_bit_eq_mask)
  also have "\<dots> = take_bit k (unat hash)" by (simp add: unsigned_take_bit_eq)
  also have "\<dots> < 2 ^ k" by (simp add: take_bit_nat_less_exp)
  finally show ?thesis unfolding len .
qed

lemma buckets_chain:
  assumes "buckets_hold heap list len A" "e \<in> A"
  shows "e \<in> set (list ! bucket_of len (heap_hash heap e))"
proof -
  obtain b where "b < len" "e \<in> set (list ! b)" using assms by (auto simp: buckets_hold_def)
  then show ?thesis using assms(1) by (auto simp: buckets_hold_def)
qed

lemma buckets_finite: "buckets_hold heap list len A \<Longrightarrow> finite A"
  by (auto simp: buckets_hold_def)

lemma takeWhile_stops: "x \<in> set xs \<Longrightarrow> \<not> P x \<Longrightarrow> length (takeWhile P xs) < length xs"
  by (induction xs) auto

lemma slot_match_iff:
  "slot_match heap key hash e \<longleftrightarrow> (\<exists>h. heap e = Some h \<and> lh_hash h = hash \<and> lh_key h = key)"
  by (auto simp: slot_match_def lru_handle_equal_def split: option.splits)

lemma heap_hash_Some [simp]: "heap e = Some h \<Longrightarrow> heap_hash heap e = lh_hash h"
  by (simp add: heap_hash_def)

lemma table_lookup_iff:
  assumes "buckets_hold heap (lt_list tbl) (lt_length tbl) A" "keys_hold heap A"
  shows "lru_table_lookup heap tbl key (ldb_lru_hash key) = Some e \<longleftrightarrow> e \<in> A \<and> (\<exists>h. heap e = Some h \<and> lh_key h = key)"
proof -
  let ?hash = "ldb_lru_hash key" and ?b = "bucket_of (lt_length tbl) (ldb_lru_hash key)"
  let ?chain = "lt_list tbl ! ?b" and ?i = "lru_table_find heap tbl key (ldb_lru_hash key)"
  have b: "?b < length (lt_list tbl)" using assms(1) bucket_of_less by (auto simp: buckets_hold_def)
  have sub: "set ?chain \<subseteq> A" using assms(1) b by (auto simp: buckets_hold_def)
  have hit: "slot_match heap key ?hash (?chain ! ?i)" if "?i < length ?chain"
    using nth_length_takeWhile [of "\<lambda>e. \<not> slot_match heap key ?hash e" ?chain] that by (simp add: lru_table_find_def)
  show ?thesis
  proof
    assume "lru_table_lookup heap tbl key ?hash = Some e"
    then have "?i < length ?chain" "e = ?chain ! ?i" by (auto simp: lru_table_lookup_def Let_def split: if_splits)
    then show "e \<in> A \<and> (\<exists>h. heap e = Some h \<and> lh_key h = key)" using hit sub by (auto simp: slot_match_iff)
  next
    assume e: "e \<in> A \<and> (\<exists>h. heap e = Some h \<and> lh_key h = key)"
    then obtain h where h: "heap e = Some h" "lh_key h = key" "lh_hash h = ?hash" using assms(2) by (auto simp: keys_hold_def)
    then have "e \<in> set ?chain" using buckets_chain [OF assms(1), of e] e by simp
    moreover have "slot_match heap key ?hash e" using h by (simp add: slot_match_iff)
    ultimately have i: "?i < length ?chain" unfolding lru_table_find_def by (intro takeWhile_stops) auto
    obtain h' where h': "heap (?chain ! ?i) = Some h'" "lh_key h' = key" using hit [OF i] by (auto simp: slot_match_iff)
    have "?chain ! ?i \<in> A" using sub i by auto
    then have "?chain ! ?i = e" using assms(2) e h h' unfolding keys_hold_def by blast
    then show "lru_table_lookup heap tbl key ?hash = Some e" using i by (simp add: lru_table_lookup_def Let_def)
  qed
qed

lemma distinct_remove_nth:
  assumes "distinct xs" "i < length xs"
  shows "distinct (take i xs @ drop (i + 1) xs)" "set (take i xs @ drop (i + 1) xs) = set xs - {xs ! i}"
proof -
  have "distinct (take i xs @ xs ! i # drop (Suc i) xs)" "set xs = set (take i xs @ xs ! i # drop (Suc i) xs)"
    using assms id_take_nth_drop [OF assms(2)] by simp_all
  then show "distinct (take i xs @ drop (i + 1) xs)" "set (take i xs @ drop (i + 1) xs) = set xs - {xs ! i}" by auto
qed

lemma buckets_update:
  assumes "buckets_hold heap list len A" "b < len" "distinct chain"
    and "\<forall>e \<in> set chain. bucket_of len (heap_hash heap e) = b"
  shows "buckets_hold heap (list[b := chain]) len ((A - set (list ! b)) \<union> set chain)"
proof -
  have len: "length list = len" using assms(1) by (simp add: buckets_hold_def)
  have "e \<notin> set (list ! b)" if "e \<in> set (list ! j)" "j < len" "j \<noteq> b" for e j
  proof
    assume "e \<in> set (list ! b)"
    then have "bucket_of len (heap_hash heap e) = b" using assms(1,2) unfolding buckets_hold_def by blast
    moreover have "bucket_of len (heap_hash heap e) = j" using assms(1) that(1,2) unfolding buckets_hold_def by blast
    ultimately show False using that(3) by simp
  qed
  then have "(\<Union>j < len. set (list[b := chain] ! j)) = (A - set (list ! b)) \<union> set chain"
    using assms(1,2) len by (fastforce simp: buckets_hold_def nth_list_update split: if_splits)
  then show ?thesis using assms len by (auto simp: buckets_hold_def nth_list_update)
qed

lemma keys_subset: "keys_hold heap A \<Longrightarrow> B \<subseteq> A \<Longrightarrow> keys_hold heap B"
  unfolding keys_hold_def by blast

lemma table_holdsD:
  assumes "table_holds heap tbl A"
  shows "buckets_hold heap (lt_list tbl) (lt_length tbl) A" "keys_hold heap A" "lt_elems tbl = card A" "lt_elems tbl \<le> lt_length tbl" "\<not> lt_fault tbl" "finite A"
  using assms buckets_finite by (auto simp: table_holds_def)

lemma lookup_position:
  assumes "lru_table_lookup heap tbl key hash = Some e"
  shows "lru_table_find heap tbl key hash < length (lt_list tbl ! bucket_of (lt_length tbl) hash)"
    "lt_list tbl ! bucket_of (lt_length tbl) hash ! lru_table_find heap tbl key hash = e"
  using assms by (auto simp: lru_table_lookup_def Let_def split: if_splits)

lemma table_remove_holds:
  assumes "table_holds heap tbl A" "lru_table_lookup heap tbl key (ldb_lru_hash key) = Some e"
  shows "\<exists>tbl'. lru_table_remove heap tbl key (ldb_lru_hash key) = (Some e, tbl') \<and> table_holds heap tbl' (A - {e})"
proof -
  note t = table_holdsD [OF assms(1)] and l = lookup_position [OF assms(2)]
  let ?b = "bucket_of (lt_length tbl) (ldb_lru_hash key)" and ?i = "lru_table_find heap tbl key (ldb_lru_hash key)"
  let ?chain = "lt_list tbl ! ?b"
  let ?new = "take ?i ?chain @ drop (?i + 1) ?chain"
  have e: "e \<in> A" using assms(2) table_lookup_iff [OF t(1,2)] by blast
  have b: "?b < lt_length tbl" using t(1) bucket_of_less by (auto simp: buckets_hold_def)
  have chain: "distinct ?chain" "\<forall>e \<in> set ?chain. bucket_of (lt_length tbl) (heap_hash heap e) = ?b" "set ?chain \<subseteq> A"
    using t(1) b by (auto simp: buckets_hold_def)
  note d = distinct_remove_nth [OF chain(1) l(1)]
  have "buckets_hold heap ((lt_list tbl)[?b := ?new]) (lt_length tbl) ((A - set ?chain) \<union> set ?new)"
    using buckets_update [OF t(1) b d(1)] chain(2) d(2) by simp
  moreover have "(A - set ?chain) \<union> set ?new = A - {e}" using d(2) l chain(3) nth_mem [OF l(1)] by auto
  moreover have "keys_hold heap (A - {e})" using keys_subset [OF t(2)] by blast
  moreover have "card (A - {e}) = lt_elems tbl - 1" using t(3,6) e by simp
  ultimately show ?thesis
    using assms(2) t(4,5) by (simp add: lru_table_remove_def Let_def table_holds_def)
qed

lemma table_remove_none:
  "lru_table_lookup heap tbl key hash = None \<Longrightarrow> lru_table_remove heap tbl key hash = (None, tbl)"
  by (simp add: lru_table_remove_def Let_def)

text \<open>Resizing keeps the entries.\<close>

lemma grow_length_ok: "\<exists>k'. grow_length (2 ^ k) elems = 2 ^ k' \<and> elems \<le> 2 ^ k'"
proof (induction "elems - 2 ^ k" arbitrary: k rule: less_induct)
  case less
  show ?case
  proof (cases "2 ^ k < elems")
    case True
    have "elems - 2 ^ Suc k < elems - 2 ^ k" using True by (simp add: diff_less_mono2)
    then have "\<exists>k'. grow_length (2 ^ Suc k) elems = 2 ^ k' \<and> elems \<le> 2 ^ k'" by (rule less)
    then show ?thesis using True by (simp add: grow_length.simps [of "2 ^ k"] mult.commute)
  next
    case False
    then show ?thesis by (intro exI [of _ k]) (simp add: grow_length.simps [of "2 ^ k"])
  qed
qed

lemma fold_nested: "fold (\<lambda>chain nl. fold f chain nl) xss nl = fold f (concat xss) nl"
  by (induction xss arbitrary: nl) simp_all

lemma rehash_holds:
  assumes "buckets_hold heap nl len A" "e \<notin> A"
  shows "buckets_hold heap (rehash heap len e nl) len (insert e A)"
proof -
  let ?b = "bucket_of len (heap_hash heap e)"
  have b: "?b < len" using assms(1) bucket_of_less by (auto simp: buckets_hold_def)
  have sub: "set (nl ! ?b) \<subseteq> A" and chain: "distinct (nl ! ?b)" "\<forall>e \<in> set (nl ! ?b). bucket_of len (heap_hash heap e) = ?b"
    using assms(1) b by (auto simp: buckets_hold_def)
  have "buckets_hold heap (nl[?b := e # nl ! ?b]) len ((A - set (nl ! ?b)) \<union> set (e # nl ! ?b))"
  proof (rule buckets_update [OF assms(1) b])
    show "distinct (e # nl ! ?b)" using chain(1) sub assms(2) by auto
    show "\<forall>x \<in> set (e # nl ! ?b). bucket_of len (heap_hash heap x) = ?b" using chain(2) by simp
  qed
  moreover have "(A - set (nl ! ?b)) \<union> set (e # nl ! ?b) = insert e A" using sub by auto
  ultimately show ?thesis by (simp add: rehash_def Let_def)
qed

lemma rehash_all:
  "buckets_hold heap nl len A \<Longrightarrow> distinct es \<Longrightarrow> set es \<inter> A = {} \<Longrightarrow>
   buckets_hold heap (fold (rehash heap len) es nl) len (set es \<union> A)"
proof (induction es arbitrary: nl A)
  case (Cons e es)
  have "buckets_hold heap (rehash heap len e nl) len (insert e A)" using rehash_holds [of heap nl len A e] Cons.prems by simp
  then have "buckets_hold heap (fold (rehash heap len) es (rehash heap len e nl)) len (set es \<union> insert e A)"
    using Cons.IH [of "rehash heap len e nl" "insert e A"] Cons.prems by simp
  then show ?case by simp
qed simp

lemma buckets_distinct:
  assumes "buckets_hold heap list len A"
  shows "distinct (concat list)" "set (concat list) = A"
proof -
  have len: "length list = len" using assms by (simp add: buckets_hold_def)
  have "distinct (concat (take n list))" if "n \<le> len" for n
    using that
  proof (induction n)
    case (Suc n)
    have "set (concat (take n list)) \<inter> set (list ! n) = {}"
    proof (rule ccontr)
      assume "set (concat (take n list)) \<inter> set (list ! n) \<noteq> {}"
      then obtain e where e: "e \<in> set (concat (take n list))" "e \<in> set (list ! n)" by blast
      then obtain j where j: "j < n" "e \<in> set (list ! j)" using Suc.prems len by (auto simp: set_conv_nth [of "take n list"])
      then show False using assms e(2) Suc.prems unfolding buckets_hold_def by (metis Suc_le_lessD less_trans nat_neq_iff)
    qed
    then show ?case using Suc assms len by (simp add: take_Suc_conv_app_nth buckets_hold_def)
  qed simp
  from this [of len] show "distinct (concat list)" using len by simp
  show "set (concat list) = A" using assms len by (auto simp: buckets_hold_def set_conv_nth [of list])
qed

lemma resize_holds:
  assumes "buckets_hold heap (lt_list tbl) (lt_length tbl) A \<or> lt_list tbl = [] \<and> A = {}" "keys_hold heap A" "lt_elems tbl = card A"
    and "\<not> lt_fault tbl"
  shows "table_holds heap (lru_table_resize heap tbl) A"
proof -
  obtain k where k: "grow_length 4 (lt_elems tbl) = 2 ^ k" "lt_elems tbl \<le> 2 ^ k"
    using grow_length_ok [of 2 "lt_elems tbl"] by auto
  have d: "distinct (concat (lt_list tbl))" "set (concat (lt_list tbl)) = A" using assms(1) buckets_distinct [of heap "lt_list tbl" "lt_length tbl" A] by auto
  have count: "length (concat (lt_list tbl)) = card A" using distinct_card [OF d(1)] d(2) by simp
  have "buckets_hold heap (replicate (2 ^ k) []) (2 ^ k) {}" by (auto simp: buckets_hold_def)
  from rehash_all [OF this d(1)] show ?thesis
    using count assms(2-4) k d(2) by (simp add: lru_table_resize_def Let_def fold_nested table_holds_def)
qed

lemma table_init_holds: "table_holds heap (lru_table_init heap) {}"
  unfolding lru_table_init_def by (rule resize_holds) (simp_all add: keys_hold_def)

lemma find_trailing:
  "lru_table_lookup heap tbl key hash = None \<Longrightarrow>
   lru_table_find heap tbl key hash = length (lt_list tbl ! bucket_of (lt_length tbl) hash)"
  using length_takeWhile_le [of "\<lambda>e. \<not> slot_match heap key hash e" "lt_list tbl ! bucket_of (lt_length tbl) hash"]
  by (auto simp: lru_table_lookup_def lru_table_find_def Let_def split: if_splits)

lemma table_insert_holds:
  assumes "buckets_hold heap (lt_list tbl) (lt_length tbl) A" "keys_hold heap A" "lt_elems tbl = card A" "lt_elems tbl \<le> lt_length tbl"
    and "e \<notin> A" "heap e = Some h" "lh_key h = key" "lh_hash h = ldb_lru_hash key" "\<not> lt_fault tbl"
  shows "\<exists>tbl'. lru_table_insert heap tbl key (ldb_lru_hash key) e = (lru_table_lookup heap tbl key (ldb_lru_hash key), tbl') \<and>
    table_holds heap tbl' (insert e (A - set_option (lru_table_lookup heap tbl key (ldb_lru_hash key))))"
proof -
  let ?b = "bucket_of (lt_length tbl) (ldb_lru_hash key)" and ?i = "lru_table_find heap tbl key (ldb_lru_hash key)"
  let ?chain = "lt_list tbl ! ?b" and ?old = "lru_table_lookup heap tbl key (ldb_lru_hash key)"
  define nw where "nw = take ?i ?chain @ [e] @ drop (?i + 1) ?chain"
  let ?A = "insert e (A - set_option ?old)"
  have b: "?b < lt_length tbl" using assms(1) bucket_of_less by (auto simp: buckets_hold_def)
  have chain: "distinct ?chain" "\<forall>e \<in> set ?chain. bucket_of (lt_length tbl) (heap_hash heap e) = ?b" "set ?chain \<subseteq> A"
    using assms(1) b by (auto simp: buckets_hold_def)
  have new: "distinct nw" "set nw = insert e (set ?chain - set_option ?old)" "set_option ?old \<subseteq> set ?chain"
  proof -
    have "distinct (take ?i ?chain @ drop (?i + 1) ?chain) \<and> set (take ?i ?chain @ drop (?i + 1) ?chain) = set ?chain - set_option ?old \<and>
        set_option ?old \<subseteq> set ?chain"
    proof (cases ?old)
      case None
      then show ?thesis using find_trailing [OF None] chain(1) by simp
    next
      case (Some o')
      then show ?thesis using distinct_remove_nth [OF chain(1)] lookup_position [OF Some] nth_mem by fastforce
    qed
    then show "distinct nw" "set nw = insert e (set ?chain - set_option ?old)" "set_option ?old \<subseteq> set ?chain"
      using chain(3) assms(5) by (auto simp: nw_def)
  qed
  have hash: "bucket_of (lt_length tbl) (heap_hash heap e) = ?b" using assms(6,8) by simp
  have bu: "buckets_hold heap ((lt_list tbl)[?b := nw]) (lt_length tbl) ?A"
  proof -
    have "(A - set ?chain) \<union> set nw = ?A" using new(2,3) chain(3) by auto
    then show ?thesis using buckets_update [OF assms(1) b new(1)] new(2) chain(2) hash by simp
  qed
  have keys: "keys_hold heap ?A"
    unfolding keys_hold_def
  proof (intro conjI ballI allI impI)
    show "\<exists>h. heap e' = Some h \<and> lh_hash h = ldb_lru_hash (lh_key h)" if "e' \<in> ?A" for e'
      using that assms(2,6-8) by (auto simp: keys_hold_def)
    have other: "lh_key h' \<noteq> key" if "e' \<in> A - set_option ?old" "heap e' = Some h'" for e' h'
      using that table_lookup_iff [OF assms(1,2), of key e'] by auto
    show "e1 = e2" if "e1 \<in> ?A" "e2 \<in> ?A" "heap e1 = Some h1" "heap e2 = Some h2" "lh_key h1 = lh_key h2" for e1 e2 h1 h2
      using that assms(2,6,7) other [of e1 h1] other [of e2 h2] unfolding keys_hold_def by (cases "e1 = e"; cases "e2 = e") auto
  qed
  have fin: "finite A" using buckets_finite [OF assms(1)] .
  show ?thesis
  proof (cases ?old)
    case None
    then have card: "card ?A = lt_elems tbl + 1" using assms(3,5) fin by simp
    show ?thesis
    proof (cases "lt_elems tbl + 1 > lt_length tbl")
      case True
      let ?tbl = "tbl\<lparr>lt_list := (lt_list tbl)[?b := nw], lt_elems := lt_elems tbl + 1\<rparr>"
      have "table_holds heap (lru_table_resize heap ?tbl) ?A" using resize_holds [of heap ?tbl ?A] bu keys card assms(9) by simp
      then show ?thesis using True None by (simp add: lru_table_insert_def Let_def nw_def)
    next
      case False
      then show ?thesis using None bu keys card assms(9) by (simp add: lru_table_insert_def Let_def table_holds_def nw_def)
    qed
  next
    case (Some old)
    then have "old \<in> A" using new(3) chain(3) by auto
    then have "card ?A = lt_elems tbl" using card.remove [OF fin \<open>old \<in> A\<close>] assms(3,5) fin Some by simp
    then show ?thesis using Some bu keys assms(4,9) by (simp add: lru_table_insert_def Let_def table_holds_def nw_def)
  qed
qed

section \<open>What a shard holds\<close>

text \<open>
  \<open>cl e\<close> is the number of handles to the entry \<open>e\<close> that clients have and did not release.
  An entry is in the store as long as it is cached or a client has a handle; every entry that
  was ever inserted and is not in the store was passed to its deleter exactly once.
\<close>

definition cached_set :: "'v lru_shard \<Rightarrow> nat set" where
  "cached_set s = set (sh_list s) \<union> set (sh_in_use s)"

definition charge_of :: "'v lru_heap \<Rightarrow> nat \<Rightarrow> u64" where
  "charge_of heap e = (case heap e of None \<Rightarrow> 0 | Some h \<Rightarrow> lh_charge h)"

definition shard_core :: "'v lru_shard \<Rightarrow> (nat \<Rightarrow> nat) \<Rightarrow> bool" where
  "shard_core s cl \<longleftrightarrow>
     distinct (sh_list s @ sh_in_use s) \<and> (\<forall>e \<in> set (sh_list s). cl e = 0) \<and> (\<forall>e \<in> set (sh_in_use s). 0 < cl e) \<and>
     (\<forall>e h. sh_heap s e = Some h \<longrightarrow> (lh_in_cache h \<longleftrightarrow> e \<in> cached_set s) \<and>
        unat (lh_refs h) = cl e + (if e \<in> cached_set s then 1 else 0) \<and> (e \<in> cached_set s \<or> 0 < cl e) \<and> e < sh_next s) \<and>
     (\<forall>e. e \<in> cached_set s \<or> 0 < cl e \<longrightarrow> sh_heap s e \<noteq> None) \<and>
     sh_usage s = (\<Sum>e \<in> cached_set s. charge_of (sh_heap s) e) \<and>
     distinct (map fst (sh_deleted s)) \<and>
     (\<forall>e. e \<in> fst ` set (sh_deleted s) \<longleftrightarrow> e < sh_next s \<and> sh_heap s e = None) \<and> \<not> sh_fault s"

definition shard_inv :: "'v lru_shard \<Rightarrow> (nat \<Rightarrow> nat) \<Rightarrow> bool" where
  "shard_inv s cl \<longleftrightarrow> shard_core s cl \<and> table_holds (sh_heap s) (sh_table s) (cached_set s)"

lemma table_holds_cong:
  assumes "table_holds heap tbl A"
    and "\<And>e. e \<in> A \<Longrightarrow> map_option (\<lambda>h. (lh_key h, lh_hash h)) (heap' e) = map_option (\<lambda>h. (lh_key h, lh_hash h)) (heap e)"
  shows "table_holds heap' tbl A"
proof -
  have eq: "(\<exists>h'. heap' e = Some h' \<and> lh_key h' = lh_key h \<and> lh_hash h' = lh_hash h)" if "e \<in> A" "heap e = Some h" for e h
    using assms(2) [OF that(1)] that(2) by (cases "heap' e") auto
  note t = table_holdsD [OF assms(1)]
  have st: "heap e \<noteq> None" if "e \<in> A" for e using t(2) that by (auto simp: keys_hold_def)
  have hash: "heap_hash heap' e = heap_hash heap e" if "e \<in> A" for e
    using eq [OF that] st [OF that] by (auto simp: heap_hash_def)
  have "heap_hash heap' e = heap_hash heap e" if "b < lt_length tbl" "e \<in> set (lt_list tbl ! b)" for b e
    using t(1) that by (intro hash) (auto simp: buckets_hold_def)
  then have "buckets_hold heap' (lt_list tbl) (lt_length tbl) A" using t(1) unfolding buckets_hold_def by simp
  moreover have "keys_hold heap' A"
    unfolding keys_hold_def
  proof (intro conjI ballI allI impI)
    show "\<exists>h. heap' e = Some h \<and> lh_hash h = ldb_lru_hash (lh_key h)" if "e \<in> A" for e
      using t(2) that eq [OF that] unfolding keys_hold_def by metis
    show "e1 = e2" if "e1 \<in> A" "e2 \<in> A" "heap' e1 = Some h1" "heap' e2 = Some h2" "lh_key h1 = lh_key h2" for e1 e2 h1 h2
    proof -
      have "heap e1 \<noteq> None" "heap e2 \<noteq> None" using st that(1,2) by blast+
      then obtain g1 g2 where g: "heap e1 = Some g1" "heap e2 = Some g2" by blast
      then have "lh_key g1 = lh_key g2" using eq [OF that(1) g(1)] eq [OF that(2) g(2)] that by auto
      then show ?thesis using t(2) that(1,2) g unfolding keys_hold_def by blast
    qed
  qed
  ultimately show ?thesis using t(3-5) by (simp add: table_holds_def)
qed

lemma shard_coreD:
  assumes "shard_core s cl"
  shows "distinct (sh_list s)" "distinct (sh_in_use s)" "set (sh_list s) \<inter> set (sh_in_use s) = {}"
    "\<And>e. e \<in> set (sh_list s) \<Longrightarrow> cl e = 0" "\<And>e. e \<in> set (sh_in_use s) \<Longrightarrow> 0 < cl e"
    "\<And>e h. sh_heap s e = Some h \<Longrightarrow> lh_in_cache h \<longleftrightarrow> e \<in> cached_set s"
    "\<And>e h. sh_heap s e = Some h \<Longrightarrow> unat (lh_refs h) = cl e + (if e \<in> cached_set s then 1 else 0)"
    "\<And>e h. sh_heap s e = Some h \<Longrightarrow> e \<in> cached_set s \<or> 0 < cl e" "\<And>e h. sh_heap s e = Some h \<Longrightarrow> e < sh_next s"
    "\<And>e. e \<in> cached_set s \<Longrightarrow> \<exists>h. sh_heap s e = Some h" "\<And>e. 0 < cl e \<Longrightarrow> \<exists>h. sh_heap s e = Some h"
    "sh_usage s = (\<Sum>e \<in> cached_set s. charge_of (sh_heap s) e)" "distinct (map fst (sh_deleted s))"
    "\<And>e. e \<in> fst ` set (sh_deleted s) \<longleftrightarrow> e < sh_next s \<and> sh_heap s e = None" "finite (cached_set s)" "\<not> sh_fault s"
  using assms by (simp_all add: shard_core_def) (auto simp: cached_set_def)

lemma cached_charge_cong:
  "(\<And>e. e \<in> A \<Longrightarrow> map_option lh_charge (heap' e) = map_option lh_charge (heap e)) \<Longrightarrow>
   (\<Sum>e \<in> A. charge_of heap' e) = (\<Sum>e \<in> A. charge_of heap e)"
proof (rule sum.cong [OF refl])
  fix e assume *: "\<And>e. e \<in> A \<Longrightarrow> map_option lh_charge (heap' e) = map_option lh_charge (heap e)" "e \<in> A"
  from *(1) [OF *(2)] show "charge_of heap' e = charge_of heap e"
    by (cases "heap e"; cases "heap' e") (auto simp: charge_of_def)
qed

text \<open>Reference counts as numbers.\<close>

lemma refs_eq: "w = 1 \<longleftrightarrow> unat w = 1" "w = 0 \<longleftrightarrow> unat w = 0" "0 < w \<longleftrightarrow> 0 < unat w" for w :: u32
  by (simp_all add: word_unat_eq_iff word_less_nat_alt)

lemma refs_inc: "unat w + 1 < 2 ^ 32 \<Longrightarrow> unat (w + 1) = unat w + 1" for w :: u32
  by (simp add: unat_word_ariths)

lemma refs_dec: "0 < unat w \<Longrightarrow> unat (w - 1) = unat w - 1" for w :: u32
  by (simp add: unat_sub word_le_nat_alt)

lemma ref_core:
  assumes "shard_core s cl" "e \<in> cached_set s" "cl e + 2 < 2 ^ 32"
  shows "shard_core (lru_shard_ref s e) (cl(e := cl e + 1)) \<and> cached_set (lru_shard_ref s e) = cached_set s \<and>
    sh_table (lru_shard_ref s e) = sh_table s \<and> sh_capacity (lru_shard_ref s e) = sh_capacity s \<and>
    (\<forall>e'. map_option (\<lambda>h. (lh_key h, lh_hash h, lh_value h)) (sh_heap (lru_shard_ref s e) e') =
       map_option (\<lambda>h. (lh_key h, lh_hash h, lh_value h)) (sh_heap s e'))"
proof -
  note c = shard_coreD [OF assms(1)]
  obtain h where h: "sh_heap s e = Some h" using c(10) [OF assms(2)] by blast
  define s' where "s' = lru_shard_ref s e"
  have lists: "set (sh_list s') = set (sh_list s) - {e}" "set (sh_in_use s') = insert e (set (sh_in_use s))"
    "distinct (sh_list s')" "distinct (sh_in_use s')"
  proof -
    have "lh_refs h = 1 \<and> lh_in_cache h \<longleftrightarrow> e \<in> set (sh_list s)"
      using c(4,5,6,7) [of e] h assms(2) by (auto simp: cached_set_def refs_eq(1))
    then show "set (sh_list s') = set (sh_list s) - {e}" "set (sh_in_use s') = insert e (set (sh_in_use s))"
      "distinct (sh_list s')" "distinct (sh_in_use s')"
      using h c(1-3) assms(2)
      by (auto simp: s'_def lru_shard_ref_def Let_def put_entry_def append_in_use_def lru_shard_remove_def cached_set_def remove1_idem)
  qed
  have same: "sh_heap s' = (sh_heap s)(e \<mapsto> h\<lparr>lh_refs := lh_refs h + 1\<rparr>)" "sh_usage s' = sh_usage s" "sh_next s' = sh_next s"
    "sh_deleted s' = sh_deleted s" "sh_table s' = sh_table s" "sh_capacity s' = sh_capacity s" "sh_fault s' = sh_fault s"
    using h by (simp_all add: s'_def lru_shard_ref_def Let_def put_entry_def append_in_use_def lru_shard_remove_def)
  have set: "cached_set s' = cached_set s" using lists assms(2) by (auto simp: cached_set_def)
  have inc: "unat (lh_refs h + 1) = unat (lh_refs h) + 1" using c(7) [OF h] assms(2,3) by (intro refs_inc) simp
  have usage: "(\<Sum>e \<in> cached_set s. charge_of (sh_heap s') e) = sh_usage s"
    using cached_charge_cong [of "cached_set s" "sh_heap s'" "sh_heap s"] same(1) h c(12) by simp
  have "shard_core s' (cl(e := cl e + 1))"
    unfolding shard_core_def
  proof (intro conjI)
    show "distinct (sh_list s' @ sh_in_use s')" using lists c(3) by auto
    show "\<forall>e' h'. sh_heap s' e' = Some h' \<longrightarrow> (lh_in_cache h' \<longleftrightarrow> e' \<in> cached_set s') \<and>
        unat (lh_refs h') = (cl(e := cl e + 1)) e' + (if e' \<in> cached_set s' then 1 else 0) \<and> (e' \<in> cached_set s' \<or> 0 < (cl(e := cl e + 1)) e') \<and> e' < sh_next s'"
      using c(6-9) h set assms(2) same inc by auto
    show "\<forall>e'. e' \<in> cached_set s' \<or> 0 < (cl(e := cl e + 1)) e' \<longrightarrow> sh_heap s' e' \<noteq> None"
      using c(10,11) set same(1) by auto
    show "\<forall>e'. e' \<in> fst ` set (sh_deleted s') \<longleftrightarrow> e' < sh_next s' \<and> sh_heap s' e' = None" using c(14) same h by auto
  qed (use lists c(4,5,13,16) same set usage in auto)
  then show ?thesis using set same h unfolding s'_def [symmetric] by simp
qed

text \<open>An operation leaves the cached entries and their values as they are.\<close>

definition keeps_entries :: "'v lru_shard \<Rightarrow> 'v lru_shard \<Rightarrow> bool" where
  "keeps_entries s s' \<longleftrightarrow>
     (\<forall>e. sh_heap s' e \<noteq> None \<longrightarrow> map_option (\<lambda>h. (lh_key h, lh_hash h, lh_value h)) (sh_heap s' e) =
        map_option (\<lambda>h. (lh_key h, lh_hash h, lh_value h)) (sh_heap s e)) \<and> sh_capacity s' = sh_capacity s"

lemma drop_handle_core:
  assumes "shard_core s cl" "0 < cl e" "sh_heap s e = Some h"
    and same: "sh_usage s' = sh_usage s" "sh_next s' = sh_next s" "cached_set s' = cached_set s" "\<not> sh_fault s'"
    and lists: "distinct (sh_list s' @ sh_in_use s')" "\<forall>x \<in> set (sh_list s'). x \<noteq> e \<longrightarrow> x \<in> set (sh_list s)"
      "\<forall>x \<in> set (sh_in_use s'). x \<noteq> e \<longrightarrow> x \<in> set (sh_in_use s)" "e \<in> set (sh_list s') \<longrightarrow> cl e = 1" "e \<in> set (sh_in_use s') \<longrightarrow> 1 < cl e"
    and heap: "if lh_refs h = 1 then sh_heap s' = (sh_heap s)(e := None) \<and> sh_deleted s' = sh_deleted s @ [(e, lh_key h, lh_value h)]
       else sh_heap s' = (sh_heap s)(e \<mapsto> h\<lparr>lh_refs := lh_refs h - 1\<rparr>) \<and> sh_deleted s' = sh_deleted s"
  shows "shard_core s' (cl(e := cl e - 1))"
proof -
  note c = shard_coreD [OF assms(1)]
  have refs: "unat (lh_refs h) = cl e + (if e \<in> cached_set s then 1 else 0)" using c(7) [OF assms(3)] .
  have gone: "e \<notin> cached_set s \<and> cl e = 1" if "lh_refs h = 1" using refs assms(2) that by (cases "e \<in> cached_set s") simp_all
  have dec: "unat (lh_refs h - 1) = unat (lh_refs h) - 1" using refs assms(2) by (intro refs_dec) simp
  have notdel: "e \<notin> fst ` set (sh_deleted s)" using c(14) assms(3) by auto
  show ?thesis
    unfolding shard_core_def
  proof (intro conjI)
    show "\<forall>x \<in> set (sh_list s'). (cl(e := cl e - 1)) x = 0"
    proof
      fix x assume "x \<in> set (sh_list s')"
      then show "(cl(e := cl e - 1)) x = 0" using lists(2,4) c(4) [of x] by (cases "x = e") auto
    qed
    show "\<forall>x \<in> set (sh_in_use s'). 0 < (cl(e := cl e - 1)) x"
    proof
      fix x assume "x \<in> set (sh_in_use s')"
      then show "0 < (cl(e := cl e - 1)) x" using lists(3,5) c(5) [of x] by (cases "x = e") auto
    qed
    show "\<forall>x g. sh_heap s' x = Some g \<longrightarrow> (lh_in_cache g \<longleftrightarrow> x \<in> cached_set s') \<and>
        unat (lh_refs g) = (cl(e := cl e - 1)) x + (if x \<in> cached_set s' then 1 else 0) \<and>
        (x \<in> cached_set s' \<or> 0 < (cl(e := cl e - 1)) x) \<and> x < sh_next s'"
    proof (intro allI impI)
      fix x g assume g: "sh_heap s' x = Some g"
      show "(lh_in_cache g \<longleftrightarrow> x \<in> cached_set s') \<and>
        unat (lh_refs g) = (cl(e := cl e - 1)) x + (if x \<in> cached_set s' then 1 else 0) \<and>
        (x \<in> cached_set s' \<or> 0 < (cl(e := cl e - 1)) x) \<and> x < sh_next s'"
      proof (cases "x = e")
        case True
        then have "lh_refs h \<noteq> 1" "g = h\<lparr>lh_refs := lh_refs h - 1\<rparr>" using g heap by (auto split: if_splits)
        then show ?thesis using True same refs c(6,9) [OF assms(3)] assms(2) dec by (auto split: if_splits simp: refs_eq)
      next
        case False
        then have "sh_heap s x = Some g" using g heap by (auto split: if_splits)
        then show ?thesis using False same c(6-9) [of x g] by simp
      qed
    qed
    show "\<forall>x. x \<in> cached_set s' \<or> 0 < (cl(e := cl e - 1)) x \<longrightarrow> sh_heap s' x \<noteq> None"
      using c(10,11) same heap gone by (cases "lh_refs h = 1") auto
    have "\<And>x. x \<in> cached_set s \<Longrightarrow> map_option lh_charge (sh_heap s' x) = map_option lh_charge (sh_heap s x)"
      using heap gone assms(3) by (cases "lh_refs h = 1") auto
    then show "sh_usage s' = (\<Sum>x \<in> cached_set s'. charge_of (sh_heap s') x)"
      using cached_charge_cong [of "cached_set s" "sh_heap s'" "sh_heap s"] same c(12) by simp
    show "distinct (map fst (sh_deleted s'))" using heap c(13) notdel by (cases "lh_refs h = 1") auto
    show "\<forall>x. x \<in> fst ` set (sh_deleted s') \<longleftrightarrow> x < sh_next s' \<and> sh_heap s' x = None"
      using heap c(9,14) same(2) assms(3) by (cases "lh_refs h = 1") auto
  qed (rule lists(1), rule same(4))
qed

lemma release_core:
  assumes "shard_core s cl" "0 < cl e"
  shows "shard_core (lru_shard_unref s e) (cl(e := cl e - 1)) \<and> cached_set (lru_shard_unref s e) = cached_set s \<and>
    sh_table (lru_shard_unref s e) = sh_table s \<and> keeps_entries s (lru_shard_unref s e)"
proof -
  note c = shard_coreD [OF assms(1)]
  obtain h where h: "sh_heap s e = Some h" using c(11) [OF assms(2)] by blast
  define s' where "s' = lru_shard_unref s e"
  have refs: "unat (lh_refs h) = cl e + (if e \<in> cached_set s then 1 else 0)" and ic: "lh_in_cache h \<longleftrightarrow> e \<in> cached_set s"
    using c(6,7) [OF h] by auto
  have notlist: "e \<notin> set (sh_list s)" using c(4) [of e] assms(2) by auto
  have dec: "unat (lh_refs h - 1) = unat (lh_refs h) - 1" using refs assms(2) by (intro refs_dec) simp
  have gone: "\<not> lh_in_cache h" if "lh_refs h - 1 = 0" using that dec refs ic assms(2) by (cases "e \<in> cached_set s") (simp_all add: refs_eq)
  note defs = lru_shard_unref_def Let_def put_entry_def append_list_def lru_shard_remove_def lru_assert_def
  have same: "sh_usage s' = sh_usage s" "sh_next s' = sh_next s" "sh_table s' = sh_table s" "sh_capacity s' = sh_capacity s"
    using h by (simp_all add: s'_def defs)
  have fault: "\<not> sh_fault s'" using h c(16) refs assms(2) gone by (auto simp: s'_def defs refs_eq(3))
  have heap: "if lh_refs h = 1 then sh_heap s' = (sh_heap s)(e := None) \<and> sh_deleted s' = sh_deleted s @ [(e, lh_key h, lh_value h)]
       else sh_heap s' = (sh_heap s)(e \<mapsto> h\<lparr>lh_refs := lh_refs h - 1\<rparr>) \<and> sh_deleted s' = sh_deleted s"
    using h refs assms(2) by (auto simp: s'_def defs)
  have set: "cached_set s' = cached_set s \<and> distinct (sh_list s' @ sh_in_use s') \<and> (\<forall>x \<in> set (sh_list s'). x \<noteq> e \<longrightarrow> x \<in> set (sh_list s)) \<and>
      (\<forall>x \<in> set (sh_in_use s'). x \<noteq> e \<longrightarrow> x \<in> set (sh_in_use s)) \<and> (e \<in> set (sh_list s') \<longrightarrow> cl e = 1) \<and> (e \<in> set (sh_in_use s') \<longrightarrow> 1 < cl e)"
  proof (cases "e \<in> cached_set s \<and> cl e = 1")
    case True
    then have "lh_refs h - 1 = 1" "lh_in_cache h" "lh_refs h \<noteq> 1" using refs ic dec by (auto simp: refs_eq)
    then have "sh_list s' = sh_list s @ [e]" "sh_in_use s' = remove1 e (sh_in_use s)"
      using h notlist by (auto simp: s'_def defs remove1_idem)
    then show ?thesis using c(1-3) notlist True by (auto simp: cached_set_def)
  next
    case False
    then have "\<not> (lh_in_cache h \<and> lh_refs h - 1 = 1)" using refs ic dec by (auto simp: refs_eq)
    then have l: "sh_list s' = sh_list s" "sh_in_use s' = sh_in_use s"
      using h by (auto simp: s'_def defs)
    moreover have "e \<in> set (sh_in_use s) \<longrightarrow> 1 < cl e" using False assms(2) by (auto simp: cached_set_def)
    ultimately show ?thesis using c(1-3) notlist by (auto simp: cached_set_def)
  qed
  then have "shard_core s' (cl(e := cl e - 1))" using drop_handle_core [OF assms h same(1,2) _ fault] heap by blast
  moreover have "keeps_entries s s'" using heap h same(4) by (auto simp: keeps_entries_def split: if_splits)
  ultimately show ?thesis using set same unfolding s'_def by blast
qed

lemma finish_core:
  assumes "shard_core s cl" "e \<in> cached_set s"
  shows "shard_core (snd (lru_shard_finish s (Some e))) cl \<and> cached_set (snd (lru_shard_finish s (Some e))) = cached_set s - {e} \<and>
    sh_table (snd (lru_shard_finish s (Some e))) = sh_table s \<and> keeps_entries s (snd (lru_shard_finish s (Some e))) \<and>
    sh_list (snd (lru_shard_finish s (Some e))) = remove1 e (sh_list s)"
proof -
  note c = shard_coreD [OF assms(1)]
  obtain h where h: "sh_heap s e = Some h" using c(10) [OF assms(2)] by blast
  define s' where "s' = snd (lru_shard_finish s (Some e))"
  have refs: "unat (lh_refs h) = cl e + 1" and ic: "lh_in_cache h" using c(6,7) [OF h] assms(2) by simp_all
  have dec: "unat (lh_refs h - 1) = cl e" using refs refs_dec [of "lh_refs h"] by simp
  then have zero: "lh_refs h - 1 = 0 \<longleftrightarrow> cl e = 0" by (simp add: refs_eq)
  note defs = lru_shard_finish_def lru_shard_unref_def Let_def put_entry_def append_list_def lru_shard_remove_def lru_assert_def
  have same: "sh_usage s' = sh_usage s - lh_charge h" "sh_next s' = sh_next s" "sh_table s' = sh_table s" "sh_capacity s' = sh_capacity s"
    "sh_list s' = remove1 e (sh_list s)" "sh_in_use s' = remove1 e (sh_in_use s)"
    using h by (simp_all add: s'_def defs)
  have fault: "\<not> sh_fault s'" using h c(16) refs ic by (simp add: s'_def defs refs_eq(3))
  have heap: "if cl e = 0 then sh_heap s' = (sh_heap s)(e := None) \<and> sh_deleted s' = sh_deleted s @ [(e, lh_key h, lh_value h)]
       else sh_heap s' = (sh_heap s)(e \<mapsto> h\<lparr>lh_in_cache := False, lh_refs := lh_refs h - 1\<rparr>) \<and> sh_deleted s' = sh_deleted s"
    using h zero by (auto simp: s'_def defs)
  have set: "cached_set s' = cached_set s - {e}" using c(1,2) same by (auto simp: cached_set_def)
  have notdel: "e \<notin> fst ` set (sh_deleted s)" using c(14) h by auto
  have "shard_core s' cl"
    unfolding shard_core_def
  proof (intro conjI)
    show "distinct (sh_list s' @ sh_in_use s')" using same c(1-3) by (auto dest: notin_set_remove1)
    show "\<forall>x \<in> set (sh_list s'). cl x = 0" "\<forall>x \<in> set (sh_in_use s'). 0 < cl x" using same c(1,2,4,5) by auto
    show "\<forall>x g. sh_heap s' x = Some g \<longrightarrow> (lh_in_cache g \<longleftrightarrow> x \<in> cached_set s') \<and>
        unat (lh_refs g) = cl x + (if x \<in> cached_set s' then 1 else 0) \<and> (x \<in> cached_set s' \<or> 0 < cl x) \<and> x < sh_next s'"
      using c(6-9) heap same(2) set h dec by (cases "cl e = 0") (auto split: if_splits)
    show "\<forall>x. x \<in> cached_set s' \<or> 0 < cl x \<longrightarrow> sh_heap s' x \<noteq> None" using c(10,11) set heap by (cases "cl e = 0") auto
    have "(\<Sum>x \<in> cached_set s'. charge_of (sh_heap s') x) = (\<Sum>x \<in> cached_set s - {e}. charge_of (sh_heap s) x)"
      unfolding set by (rule cached_charge_cong) (use heap in \<open>cases "cl e = 0"; simp\<close>)
    also have "\<dots> = sh_usage s - lh_charge h"
      using sum.remove [OF c(15) assms(2), of "charge_of (sh_heap s)"] c(12) h by (simp add: charge_of_def)
    finally show "sh_usage s' = (\<Sum>x \<in> cached_set s'. charge_of (sh_heap s') x)" using same by simp
    show "distinct (map fst (sh_deleted s'))" using heap c(13) notdel by (cases "cl e = 0") auto
    show "\<forall>x. x \<in> fst ` set (sh_deleted s') \<longleftrightarrow> x < sh_next s' \<and> sh_heap s' x = None"
      using heap c(9,14) same(2) h by (cases "cl e = 0") auto
  qed (rule fault)
  moreover have "keeps_entries s s'" using heap h same(4) by (auto simp: keeps_entries_def split: if_splits)
  ultimately show ?thesis using set same unfolding s'_def by blast
qed

section \<open>Operations of a shard\<close>

lemma lru_assert_True [simp]: "lru_assert True s = s"
  by (simp add: lru_assert_def)

text \<open>What a lookup finds.\<close>

definition shard_map :: "'v lru_shard \<Rightarrow> bytes \<Rightarrow> 'v option" where
  "shard_map s k =
     Option.bind (lru_table_lookup (sh_heap s) (sh_table s) k (ldb_lru_hash k)) (\<lambda>e. map_option lh_value (sh_heap s e))"

lemma shard_lookup_iff:
  assumes "shard_inv s cl"
  shows "lru_table_lookup (sh_heap s) (sh_table s) k (ldb_lru_hash k) = Some e \<longleftrightarrow>
    e \<in> cached_set s \<and> (\<exists>h. sh_heap s e = Some h \<and> lh_key h = k)"
  using table_lookup_iff [of "sh_heap s" "sh_table s" "cached_set s" k e] assms by (simp add: shard_inv_def table_holds_def)

lemma shard_map_iff:
  assumes "shard_inv s cl"
  shows "shard_map s k = Some v \<longleftrightarrow> (\<exists>e \<in> cached_set s. \<exists>h. sh_heap s e = Some h \<and> lh_key h = k \<and> lh_value h = v)"
proof
  assume "shard_map s k = Some v"
  then obtain e h where "lru_table_lookup (sh_heap s) (sh_table s) k (ldb_lru_hash k) = Some e" "sh_heap s e = Some h" "lh_value h = v"
    by (auto simp: shard_map_def bind_eq_Some_conv)
  then show "\<exists>e \<in> cached_set s. \<exists>h. sh_heap s e = Some h \<and> lh_key h = k \<and> lh_value h = v"
    using shard_lookup_iff [OF assms] by auto
next
  assume "\<exists>e \<in> cached_set s. \<exists>h. sh_heap s e = Some h \<and> lh_key h = k \<and> lh_value h = v"
  then obtain e h where e: "e \<in> cached_set s" "sh_heap s e = Some h" "lh_key h = k" "lh_value h = v" by blast
  then show "shard_map s k = Some v" using shard_lookup_iff [OF assms, of k e] by (simp add: shard_map_def)
qed

lemma keeps_entriesD:
  assumes "keeps_entries s s'" "sh_heap s' e = Some h"
  shows "\<exists>g. sh_heap s e = Some g \<and> lh_key g = lh_key h \<and> lh_hash g = lh_hash h \<and> lh_value g = lh_value h"
proof -
  have "map_option (\<lambda>h. (lh_key h, lh_hash h, lh_value h)) (sh_heap s' e) = map_option (\<lambda>h. (lh_key h, lh_hash h, lh_value h)) (sh_heap s e)"
    using assms unfolding keeps_entries_def by blast
  then show ?thesis using assms(2) by (cases "sh_heap s e") auto
qed

lemma keeps_entries_trans: "keeps_entries s s' \<Longrightarrow> keeps_entries s' s'' \<Longrightarrow> keeps_entries s s''"
  unfolding keeps_entries_def
proof (intro conjI allI impI)
  let ?f = "map_option (\<lambda>h :: 'a lru_handle. (lh_key h, lh_hash h, lh_value h))"
  assume *: "(\<forall>e. sh_heap s' e \<noteq> None \<longrightarrow> ?f (sh_heap s' e) = ?f (sh_heap s e)) \<and> sh_capacity s' = sh_capacity s"
    "(\<forall>e. sh_heap s'' e \<noteq> None \<longrightarrow> ?f (sh_heap s'' e) = ?f (sh_heap s' e)) \<and> sh_capacity s'' = sh_capacity s'"
  then show "sh_capacity s'' = sh_capacity s" by simp
  fix e assume e: "sh_heap s'' e \<noteq> None"
  then have "?f (sh_heap s'' e) = ?f (sh_heap s' e)" using * by blast
  moreover from this e have "sh_heap s' e \<noteq> None" by (cases "sh_heap s' e") auto
  ultimately show "?f (sh_heap s'' e) = ?f (sh_heap s e)" using * by auto
qed

lemma keeps_entries_refl [simp]: "keeps_entries s s"
  by (simp add: keeps_entries_def)

lemma keeps_table:
  assumes "table_holds (sh_heap s) tbl A" "keeps_entries s s'" "shard_core s' cl'" "A \<subseteq> cached_set s'"
  shows "table_holds (sh_heap s') tbl A"
proof (rule table_holds_cong [OF assms(1)])
  fix e assume "e \<in> A"
  then obtain h where h: "sh_heap s' e = Some h" using shard_coreD(10) [OF assms(3)] assms(4) by blast
  then show "map_option (\<lambda>h. (lh_key h, lh_hash h)) (sh_heap s' e) = map_option (\<lambda>h. (lh_key h, lh_hash h)) (sh_heap s e)"
    using keeps_entriesD [OF assms(2) h] by auto
qed

lemma shard_map_kept:
  assumes "shard_inv s cl" "shard_inv s' cl'" "keeps_entries s s'" "cached_set s' \<subseteq> cached_set s"
  shows "shard_map s' \<subseteq>\<^sub>m shard_map s"
    and "e \<in> cached_set s' \<Longrightarrow> sh_heap s' e = Some h \<Longrightarrow> shard_map s' (lh_key h) = shard_map s (lh_key h)"
    and "cached_set s' = cached_set s \<Longrightarrow> shard_map s' = shard_map s"
proof -
  have down: "shard_map s k = Some v" if v: "shard_map s' k = Some v" for k v
  proof -
    obtain e h where e: "e \<in> cached_set s'" "sh_heap s' e = Some h" "lh_key h = k" "lh_value h = v"
      using v shard_map_iff [OF assms(2)] by blast
    then show ?thesis using keeps_entriesD [OF assms(3) e(2)] assms(4) shard_map_iff [OF assms(1), of k v] by fastforce
  qed
  then show "shard_map s' \<subseteq>\<^sub>m shard_map s" by (auto simp: map_le_def)
  show one: "shard_map s' (lh_key h) = shard_map s (lh_key h)" if "e \<in> cached_set s'" "sh_heap s' e = Some h" for e h
    using shard_map_iff [OF assms(2), of "lh_key h" "lh_value h"] that down by metis
  show "shard_map s' = shard_map s" if eq: "cached_set s' = cached_set s"
  proof
    fix k
    show "shard_map s' k = shard_map s k"
    proof (cases "shard_map s k")
      case None
      then show ?thesis using down by (cases "shard_map s' k") auto
    next
      case (Some v)
      then obtain e h where e: "e \<in> cached_set s" "sh_heap s e = Some h" "lh_key h = k" using shard_map_iff [OF assms(1)] by blast
      obtain h' where h': "sh_heap s' e = Some h'" using shard_coreD(10) e(1) eq assms(2) unfolding shard_inv_def by blast
      then have "lh_key h' = k" using keeps_entriesD [OF assms(3) h'] e by auto
      then show ?thesis using one [OF _ h'] e(1) eq by auto
    qed
  qed
qed

lemma shard_init_inv: "shard_inv (lru_shard_init capacity) (\<lambda>_. 0)"
  by (simp add: shard_inv_def shard_core_def lru_shard_init_def cached_set_def table_init_holds)

lemma shard_lookup_ok:
  assumes "shard_inv s cl" "\<And>e. cl e + 2 < 2 ^ 32"
  shows "case lru_shard_lookup s k (ldb_lru_hash k) of
     (None, s') \<Rightarrow> s' = s \<and> shard_map s k = None
   | (Some e, s') \<Rightarrow> shard_inv s' (cl(e := cl e + 1)) \<and> shard_map s' = shard_map s \<and>
       shard_map s k = map_option lh_value (sh_heap s' e) \<and> shard_map s k \<noteq> None \<and> keeps_entries s s' \<and> cached_set s' = cached_set s"
proof (cases "lru_table_lookup (sh_heap s) (sh_table s) k (ldb_lru_hash k)")
  case None
  then show ?thesis by (simp add: lru_shard_lookup_def shard_map_def)
next
  case (Some e)
  then obtain h where e: "e \<in> cached_set s" "sh_heap s e = Some h" "lh_key h = k" using shard_lookup_iff [OF assms(1)] by blast
  have core: "shard_core s cl" "table_holds (sh_heap s) (sh_table s) (cached_set s)" using assms by (simp_all add: shard_inv_def)
  let ?s = "lru_shard_ref s e"
  note r = ref_core [OF core(1) e(1) assms(2)]
  have keep: "keeps_entries s ?s" using r by (simp add: keeps_entries_def)
  have inv: "shard_inv ?s (cl(e := cl e + 1))" using r keeps_table [OF core(2) keep] by (auto simp: shard_inv_def)
  obtain h' where h': "sh_heap ?s e = Some h'" using shard_coreD(10) [of ?s] r e(1) by blast
  then have "lh_value h' = lh_value h" using keeps_entriesD [OF keep h'] e(2) by auto
  then show ?thesis
    using Some inv shard_map_kept(3) [OF assms(1) inv keep] r h' e(2) keep by (simp add: lru_shard_lookup_def shard_map_def)
qed

lemma shard_release_ok:
  assumes "shard_inv s cl" "0 < cl e"
  shows "shard_inv (lru_shard_release s e) (cl(e := cl e - 1)) \<and> shard_map (lru_shard_release s e) = shard_map s \<and>
    keeps_entries s (lru_shard_release s e) \<and> cached_set (lru_shard_release s e) = cached_set s"
proof -
  have core: "shard_core s cl" "table_holds (sh_heap s) (sh_table s) (cached_set s)" using assms(1) by (simp_all add: shard_inv_def)
  note r = release_core [OF core(1) assms(2)]
  have inv: "shard_inv (lru_shard_unref s e) (cl(e := cl e - 1))" using r keeps_table [OF core(2)] by (auto simp: shard_inv_def)
  then show ?thesis using r shard_map_kept(3) [OF assms(1) inv] by (simp add: lru_shard_release_def)
qed

lemma finish_inv:
  assumes "shard_core s cl" "table_holds (sh_heap s) (sh_table s) (cached_set s - {e})" "e \<in> cached_set s"
  shows "shard_inv (snd (lru_shard_finish s (Some e))) cl"
proof -
  note f = finish_core [OF assms(1,3)]
  have "table_holds (sh_heap (snd (lru_shard_finish s (Some e)))) (sh_table s) (cached_set s - {e})"
    using keeps_table [OF assms(2)] f by blast
  then show ?thesis using f by (simp add: shard_inv_def)
qed

lemma shard_erase_ok:
  assumes "shard_inv s cl"
  shows "shard_inv (lru_shard_erase s k (ldb_lru_hash k)) cl \<and> keeps_entries s (lru_shard_erase s k (ldb_lru_hash k)) \<and>
    (case lru_table_lookup (sh_heap s) (sh_table s) k (ldb_lru_hash k) of
       None \<Rightarrow> lru_shard_erase s k (ldb_lru_hash k) = s
     | Some e \<Rightarrow> cached_set (lru_shard_erase s k (ldb_lru_hash k)) = cached_set s - {e} \<and>
         sh_list (lru_shard_erase s k (ldb_lru_hash k)) = remove1 e (sh_list s))"
proof (cases "lru_table_lookup (sh_heap s) (sh_table s) k (ldb_lru_hash k)")
  case None
  then show ?thesis using assms by (simp add: lru_shard_erase_def table_remove_none lru_shard_finish_def)
next
  case (Some e)
  have t: "table_holds (sh_heap s) (sh_table s) (cached_set s)" using assms by (simp add: shard_inv_def)
  obtain tbl where tbl: "lru_table_remove (sh_heap s) (sh_table s) k (ldb_lru_hash k) = (Some e, tbl)"
    "table_holds (sh_heap s) tbl (cached_set s - {e})" using table_remove_holds [OF t Some] by blast
  let ?s = "s\<lparr>sh_table := tbl\<rparr>"
  have set: "cached_set ?s = cached_set s" by (simp add: cached_set_def)
  have core: "shard_core ?s cl" using assms by (simp add: shard_inv_def shard_core_def cached_set_def)
  have e: "e \<in> cached_set s" using Some shard_lookup_iff [OF assms] by blast
  have "keeps_entries s ?s" by (simp add: keeps_entries_def)
  then have "keeps_entries s (snd (lru_shard_finish ?s (Some e)))" using finish_core [OF core] e set keeps_entries_trans by blast
  then show ?thesis
    using Some tbl finish_inv [OF core] finish_core [OF core] e set by (simp add: lru_shard_erase_def)
qed

lemma remove_oldest_ok:
  assumes "shard_inv s cl" "sh_list s = e # es"
  shows "shard_inv (remove_oldest s) cl \<and> keeps_entries s (remove_oldest s) \<and> cached_set (remove_oldest s) = cached_set s - {e} \<and>
    sh_list (remove_oldest s) = es"
proof -
  have e: "e \<in> cached_set s" using assms(2) by (simp add: cached_set_def)
  have core: "shard_core s cl" and t: "keys_hold (sh_heap s) (cached_set s)"
    using assms(1) by (simp_all add: shard_inv_def table_holds_def)
  obtain h where h: "sh_heap s e = Some h" "lh_hash h = ldb_lru_hash (lh_key h)" using t e by (auto simp: keys_hold_def)
  have "lru_table_lookup (sh_heap s) (sh_table s) (lh_key h) (ldb_lru_hash (lh_key h)) = Some e"
    using shard_lookup_iff [OF assms(1)] e h(1) by blast
  moreover have "lh_refs h = 1" using shard_coreD(4) [OF core, of e] shard_coreD(7) [OF core h(1)] e assms(2) by (simp add: refs_eq(1))
  then have "lru_assert (lh_refs h = 1) s = s" by simp
  ultimately show ?thesis
    using shard_erase_ok [OF assms(1), of "lh_key h"] assms(2) h by (simp add: remove_oldest_def)
qed

lemma remove_keeps_others:
  assumes "shard_inv s cl" "sh_list s = e # es"
  shows "set (sh_in_use s) \<subseteq> cached_set (remove_oldest s)"
  using remove_oldest_ok [OF assms] assms shard_coreD(3) [of s cl] by (auto simp: shard_inv_def cached_set_def)

text \<open>Entries are evicted from the oldest one on, as long as the shard is too full.\<close>

lemma evict_ok:
  assumes "shard_inv s cl" "length (sh_list s) \<le> n"
  shows "shard_inv (evict_loop n s) cl \<and> keeps_entries s (evict_loop n s) \<and> cached_set (evict_loop n s) \<subseteq> cached_set s \<and>
    set (sh_in_use s) \<subseteq> cached_set (evict_loop n s) \<and>
    (sh_usage (evict_loop n s) \<le> sh_capacity s \<or> sh_list (evict_loop n s) = []) \<and>
    (\<exists>m. sh_list (evict_loop n s) = drop m (sh_list s)) \<and> (sh_usage s \<le> sh_capacity s \<longrightarrow> evict_loop n s = s)"
  using assms
proof (induction n arbitrary: s)
  case 0
  then show ?case by (auto simp: cached_set_def)
next
  case (Suc n)
  show ?case
  proof (cases "sh_usage s > sh_capacity s \<and> sh_list s \<noteq> []")
    case True
    then obtain e es where es: "sh_list s = e # es" by (cases "sh_list s") auto
    let ?s = "remove_oldest s"
    note r = remove_oldest_ok [OF Suc.prems(1) es]
    have cap: "sh_capacity ?s = sh_capacity s" using r by (simp add: keeps_entries_def)
    have IH: "shard_inv (evict_loop n ?s) cl \<and> keeps_entries ?s (evict_loop n ?s) \<and> cached_set (evict_loop n ?s) \<subseteq> cached_set ?s \<and>
      set (sh_in_use ?s) \<subseteq> cached_set (evict_loop n ?s) \<and>
      (sh_usage (evict_loop n ?s) \<le> sh_capacity ?s \<or> sh_list (evict_loop n ?s) = []) \<and>
      (\<exists>m. sh_list (evict_loop n ?s) = drop m (sh_list ?s))"
      using Suc.IH [of ?s] r Suc.prems(2) es by simp
    have "set (sh_in_use s) \<subseteq> set (sh_in_use ?s)"
      using remove_keeps_others [OF Suc.prems(1) es] r es shard_coreD(3) [of s cl] Suc.prems(1)
      by (auto simp: cached_set_def shard_inv_def)
    moreover have "\<exists>m. drop k es = drop m (sh_list s)" for k using es by (intro exI [of _ "Suc k"]) simp
    moreover have "evict_loop (Suc n) s = evict_loop n ?s" using True by simp
    moreover have "keeps_entries s (evict_loop n ?s)" using r IH keeps_entries_trans by blast
    ultimately show ?thesis using IH r cap True by auto
  next
    case False
    then show ?thesis using Suc.prems(1) by (auto simp: cached_set_def intro: exI [of _ 0])
  qed
qed

lemma prune_ok:
  assumes "shard_inv s cl" "length (sh_list s) \<le> n"
  shows "shard_inv (prune_loop n s) cl \<and> keeps_entries s (prune_loop n s) \<and> cached_set (prune_loop n s) = set (sh_in_use s) \<and>
    sh_list (prune_loop n s) = []"
  using assms
proof (induction n arbitrary: s)
  case 0
  then show ?case by (auto simp: cached_set_def)
next
  case (Suc n)
  show ?case
  proof (cases "sh_list s")
    case (Cons e es)
    let ?s = "remove_oldest s"
    note r = remove_oldest_ok [OF Suc.prems(1) Cons]
    have core: "shard_core s cl" "shard_core ?s cl" using Suc.prems(1) r by (simp_all add: shard_inv_def)
    have "set (sh_in_use ?s) = cached_set ?s - set (sh_list ?s)" "set (sh_in_use s) = cached_set s - set (sh_list s)"
      using shard_coreD(3) [OF core(1)] shard_coreD(3) [OF core(2)] by (auto simp: cached_set_def)
    then have "set (sh_in_use ?s) = set (sh_in_use s)" using r Cons by auto
    moreover have "prune_loop (Suc n) s = prune_loop n ?s" using Cons by simp
    moreover have "shard_inv (prune_loop n ?s) cl \<and> keeps_entries ?s (prune_loop n ?s) \<and> cached_set (prune_loop n ?s) = set (sh_in_use ?s) \<and>
        sh_list (prune_loop n ?s) = []" using Suc.IH [of ?s] r Suc.prems(2) Cons by simp
    ultimately show ?thesis using r keeps_entries_trans by metis
  qed (use Suc.prems(1) in \<open>simp add: cached_set_def\<close>)
qed

lemma new_entry_core:
  assumes "shard_core s cl" "s1 = s\<lparr>sh_heap := (sh_heap s)(sh_next s \<mapsto> h), sh_next := sh_next s + 1,
      sh_in_use := sh_in_use s @ (if cached then [sh_next s] else []), sh_usage := sh_usage s + (if cached then lh_charge h else 0)\<rparr>"
    and "lh_in_cache h = cached" "lh_refs h = (if cached then 2 else 1)"
  shows "shard_core s1 (cl(sh_next s := 1)) \<and> cached_set s1 = cached_set s \<union> (if cached then {sh_next s} else {})"
proof -
  note c = shard_coreD [OF assms(1)]
  let ?e = "sh_next s"
  have new: "sh_heap s ?e = None" using c(9) by (cases "sh_heap s ?e") auto
  have fresh: "?e \<notin> cached_set s" "cl ?e = 0" "?e \<notin> fst ` set (sh_deleted s)"
    using c(10) [of ?e] c(11) [of ?e] c(14) [of ?e] new by auto
  have set: "cached_set s1 = cached_set s \<union> (if cached then {?e} else {})" using assms(2) by (auto simp: cached_set_def)
  have "shard_core s1 (cl(?e := 1))"
    unfolding shard_core_def
  proof (intro conjI)
    show "distinct (sh_list s1 @ sh_in_use s1)" using c(1-3) fresh(1) assms(2) by (auto simp: cached_set_def)
    show "\<forall>x \<in> set (sh_list s1). (cl(?e := 1)) x = 0" using c(4) fresh(1) assms(2) by (auto simp: cached_set_def)
    show "\<forall>x \<in> set (sh_in_use s1). 0 < (cl(?e := 1)) x" using c(5) assms(2) by auto
    show "\<forall>x g. sh_heap s1 x = Some g \<longrightarrow> (lh_in_cache g \<longleftrightarrow> x \<in> cached_set s1) \<and>
        unat (lh_refs g) = (cl(?e := 1)) x + (if x \<in> cached_set s1 then 1 else 0) \<and> (x \<in> cached_set s1 \<or> 0 < (cl(?e := 1)) x) \<and> x < sh_next s1"
    proof (intro allI impI)
      fix x g assume g: "sh_heap s1 x = Some g"
      show "(lh_in_cache g \<longleftrightarrow> x \<in> cached_set s1) \<and> unat (lh_refs g) = (cl(?e := 1)) x + (if x \<in> cached_set s1 then 1 else 0) \<and>
        (x \<in> cached_set s1 \<or> 0 < (cl(?e := 1)) x) \<and> x < sh_next s1"
      proof (cases "x = ?e")
        case True
        then show ?thesis using g assms(2-4) set fresh(1) by auto
      next
        case False
        then have g': "sh_heap s x = Some g" using g assms(2) by simp
        show ?thesis using False c(6-9) [OF g'] set assms(2) by auto
      qed
    qed
    show "\<forall>x. x \<in> cached_set s1 \<or> 0 < (cl(?e := 1)) x \<longrightarrow> sh_heap s1 x \<noteq> None"
      using c(10,11) set assms(2) by (auto split: if_splits)
    have "(\<Sum>x \<in> cached_set s. charge_of (sh_heap s1) x) = sh_usage s"
      unfolding c(12) by (rule cached_charge_cong) (use fresh(1) assms(2) in auto)
    then show "sh_usage s1 = (\<Sum>x \<in> cached_set s1. charge_of (sh_heap s1) x)"
      using set fresh(1) c(15) assms(2) by (auto simp: charge_of_def)
    show "\<forall>x. x \<in> fst ` set (sh_deleted s1) \<longleftrightarrow> x < sh_next s1 \<and> sh_heap s1 x = None"
      using c(14) fresh(3) assms(2) by (auto simp: less_Suc_eq)
  qed (use c(13,16) assms(2) in simp_all)
  then show ?thesis using set by simp
qed

lemma table_holds_new:
  assumes "shard_inv s cl"
  shows "table_holds ((sh_heap s)(sh_next s \<mapsto> h)) (sh_table s) (cached_set s)" "sh_next s \<notin> cached_set s"
proof -
  show e: "sh_next s \<notin> cached_set s" using shard_coreD(9,10) [of s cl] assms unfolding shard_inv_def by fastforce
  have "table_holds (sh_heap s) (sh_table s) (cached_set s)" using assms by (simp add: shard_inv_def)
  then show "table_holds ((sh_heap s)(sh_next s \<mapsto> h)) (sh_table s) (cached_set s)"
    by (rule table_holds_cong) (use e in auto)
qed

lemma cached_set_table [simp]: "cached_set (s\<lparr>sh_table := tbl\<rparr>) = cached_set s"
  by (simp add: cached_set_def)

lemma shard_core_table [simp]: "shard_core (s\<lparr>sh_table := tbl\<rparr>) cl = shard_core s cl"
  by (simp add: shard_core_def)

text \<open>An entry is linked into the cache in place of the one of its key.\<close>

lemma link_entry:
  assumes "shard_inv s cl" "s1 = s\<lparr>sh_heap := (sh_heap s)(sh_next s \<mapsto> h), sh_next := sh_next s + 1,
      sh_in_use := sh_in_use s @ [sh_next s], sh_usage := sh_usage s + lh_charge h\<rparr>"
    and "lh_in_cache h" "lh_refs h = 2" "lh_hash h = ldb_lru_hash (lh_key h)"
    and "lru_table_insert (sh_heap s1) (sh_table s1) (lh_key h) (ldb_lru_hash (lh_key h)) (sh_next s) = (old, tbl)"
    and "s2 = snd (lru_shard_finish (s1\<lparr>sh_table := tbl\<rparr>) old)"
  shows "shard_inv s2 (cl(sh_next s := 1))" "keeps_entries s1 s2" "cached_set s2 \<subseteq> insert (sh_next s) (cached_set s)"
    "sh_next s \<in> set (sh_in_use s2)"
proof -
  let ?e = "sh_next s" and ?cl = "cl(sh_next s := 1)" and ?t = "s1\<lparr>sh_table := tbl\<rparr>"
  have inv: "shard_core s cl" using assms(1) by (simp add: shard_inv_def)
  have core1: "shard_core s1 ?cl \<and> cached_set s1 = cached_set s \<union> {?e}"
    using new_entry_core [OF inv, of s1 True h] assms(2-4) by simp
  note e = table_holds_new(2) [OF assms(1)]
  have "table_holds (sh_heap s1) (sh_table s1) (cached_set s)" using table_holds_new(1) [OF assms(1), of h] assms(2) by simp
  note t = table_holdsD [OF this]
  have tbl: "table_holds (sh_heap s1) tbl (insert ?e (cached_set s - set_option old))"
    using table_insert_holds [OF t(1-4) e, of h "lh_key h"] assms(2,5,6) t(5) by auto
  have old: "old = lru_table_lookup (sh_heap s1) (sh_table s1) (lh_key h) (ldb_lru_hash (lh_key h))"
    using table_insert_holds [OF t(1-4) e, of h "lh_key h"] assms(2,5,6) t(5) by auto
  have core: "shard_core ?t ?cl" "cached_set ?t = insert ?e (cached_set s)" using core1 by simp_all
  have keep: "keeps_entries s1 ?t" by (simp add: keeps_entries_def)
  have "shard_inv s2 ?cl \<and> keeps_entries s1 s2 \<and> cached_set s2 \<subseteq> insert ?e (cached_set s) \<and> ?e \<in> cached_set s2"
  proof (cases old)
    case None
    then have "s2 = ?t" using assms(7) by (simp add: lru_shard_finish_def)
    then show ?thesis using core tbl None keep by (simp add: shard_inv_def)
  next
    case (Some x)
    then have x: "x \<in> cached_set s" using old table_lookup_iff [OF t(1,2)] by metis
    then have "cached_set ?t - {x} = insert ?e (cached_set s - {x})" using core(2) e by auto
    then have "shard_inv s2 ?cl" using finish_inv [OF core(1), of x] tbl Some x assms(7) core(2) by simp
    moreover have "cached_set s2 = cached_set ?t - {x}" "keeps_entries ?t s2"
      using finish_core [OF core(1), of x] x core(2) Some assms(7) by simp_all
    ultimately show ?thesis using core(2) x e keep keeps_entries_trans by blast
  qed
  moreover from this have "?e \<notin> set (sh_list s2)" using shard_coreD(4) [of s2 ?cl ?e] by (auto simp: shard_inv_def)
  ultimately show "shard_inv s2 ?cl" "keeps_entries s1 s2" "cached_set s2 \<subseteq> insert ?e (cached_set s)" "?e \<in> set (sh_in_use s2)"
    by (auto simp: cached_set_def)
qed

lemma shard_insert_ok:
  assumes "shard_inv s cl" "lru_shard_insert s k (ldb_lru_hash k) v n = (e, s')"
  shows "e = sh_next s \<and> shard_inv s' (cl(e := 1)) \<and> sh_capacity s' = sh_capacity s \<and>
    map_option lh_value (sh_heap s' e) = Some v \<and> (sh_usage s' \<le> sh_capacity s \<or> sh_list s' = []) \<and>
    (if 0 < sh_capacity s then shard_map s' k = Some v \<and> shard_map s' \<subseteq>\<^sub>m (shard_map s)(k \<mapsto> v) else shard_map s' \<subseteq>\<^sub>m shard_map s) \<and>
    (\<forall>x f. x \<noteq> e \<longrightarrow> sh_heap s' x = Some f \<longrightarrow> map_option lh_value (sh_heap s x) = Some (lh_value f))"
proof -
  let ?e = "sh_next s" and ?cl = "cl(sh_next s := 1)"
  define cached where "cached = (0 < sh_capacity s)"
  define h where "h = \<lparr>lh_value = v, lh_charge = n, lh_key = k, lh_in_cache = cached, lh_refs = (if cached then 2 else 1), lh_hash = ldb_lru_hash k\<rparr>"
  define s1 where "s1 = s\<lparr>sh_heap := (sh_heap s)(?e \<mapsto> h), sh_next := ?e + 1,
      sh_in_use := sh_in_use s @ (if cached then [?e] else []), sh_usage := sh_usage s + (if cached then lh_charge h else 0)\<rparr>"
  obtain old tbl where ins: "lru_table_insert (sh_heap s1) (sh_table s1) k (ldb_lru_hash k) ?e = (old, tbl)" by fastforce
  define s2 where "s2 = (if cached then snd (lru_shard_finish (s1\<lparr>sh_table := tbl\<rparr>) old) else s1)"
  have run: "e = ?e" "s' = evict_loop (length (sh_list s2)) s2"
  proof -
    have "sh_heap s1 = (sh_heap s)(?e \<mapsto> h)" by (simp add: s1_def)
    then show "e = ?e" "s' = evict_loop (length (sh_list s2)) s2"
      using assms(2) ins unfolding lru_shard_insert_def Let_def s2_def
      by (cases s; auto simp: s1_def h_def cached_def put_entry_def append_in_use_def numeral_2_eq_2 split: if_splits)+
  qed
  have two: "shard_inv s2 ?cl \<and> keeps_entries s1 s2 \<and> cached_set s2 \<subseteq> cached_set s \<union> (if cached then {?e} else {}) \<and>
    (if cached then ?e \<in> set (sh_in_use s2) else ?e \<notin> cached_set s2)"
  proof (cases cached)
    case True
    then have s1: "s1 = s\<lparr>sh_heap := (sh_heap s)(?e \<mapsto> h), sh_next := ?e + 1, sh_in_use := sh_in_use s @ [?e], sh_usage := sh_usage s + lh_charge h\<rparr>"
      by (simp add: s1_def)
    show ?thesis using link_entry [OF assms(1) s1 _ _ _ _ refl, of old tbl] ins True by (simp add: h_def s2_def)
  next
    case False
    have inv: "shard_core s cl" using assms(1) by (simp add: shard_inv_def)
    have core: "shard_core s1 ?cl" "cached_set s1 = cached_set s"
      using new_entry_core [OF inv s1_def] False by (simp_all add: h_def)
    have "table_holds (sh_heap s1) (sh_table s1) (cached_set s)" using table_holds_new(1) [OF assms(1), of h] by (simp add: s1_def)
    then show ?thesis using core False table_holds_new(2) [OF assms(1)] by (simp add: s2_def shard_inv_def)
  qed
  then have inv2: "shard_inv s2 ?cl" by simp
  note ev = evict_ok [OF inv2 order.refl, folded run(2)]
  have keep: "keeps_entries s1 s'" using two ev keeps_entries_trans by blast
  have cap: "sh_capacity s' = sh_capacity s" "sh_capacity s2 = sh_capacity s" using keep two by (simp_all add: keeps_entries_def s1_def)
  have inv': "shard_inv s' ?cl" using ev by simp
  obtain g where g: "sh_heap s' ?e = Some g" using shard_coreD(11) [of s' ?cl ?e] inv' by (auto simp: shard_inv_def)
  have gv: "lh_value g = v" "lh_key g = k" using keeps_entriesD [OF keep g] by (auto simp: s1_def h_def)
  have here: "shard_map s' k = Some v" if cached
    using shard_map_iff [OF inv', of k v] g gv two ev that by auto
  have out: "?e \<notin> cached_set s'" if "\<not> cached" using two ev that by auto
  have sub: "cached_set s' \<subseteq> cached_set s \<union> {?e}" using two ev by (auto split: if_splits)
  have le: "shard_map s k' = Some v'" if at: "shard_map s' k' = Some v'" and ne: "\<not> cached \<or> k' \<noteq> k" for k' v'
  proof -
    obtain x f where x: "x \<in> cached_set s'" "sh_heap s' x = Some f" "lh_key f = k'" "lh_value f = v'"
      using shard_map_iff [OF inv', of k' v'] at by auto
    have "x \<noteq> ?e"
    proof
      assume "x = ?e"
      then have "f = g" using x(2) g by simp
      then show False using x(1,3) gv(2) ne out \<open>x = ?e\<close> by blast
    qed
    then have "x \<in> cached_set s" using x(1) sub by auto
    moreover obtain f' where "sh_heap s x = Some f'" "lh_key f' = k'" "lh_value f' = v'"
      using keeps_entriesD [OF keep x(2)] x(3,4) \<open>x \<noteq> ?e\<close> by (auto simp: s1_def)
    ultimately show ?thesis using shard_map_iff [OF assms(1), of k' v'] by blast
  qed
  have "shard_map s' \<subseteq>\<^sub>m (shard_map s)(k \<mapsto> v)" if cached using here [OF that] le by (auto simp: map_le_def)
  moreover have "shard_map s' \<subseteq>\<^sub>m shard_map s" if "\<not> cached" using le that by (auto simp: map_le_def)
  moreover have "map_option lh_value (sh_heap s x) = Some (lh_value f)" if "x \<noteq> ?e" "sh_heap s' x = Some f" for x f
    using keeps_entriesD [OF keep that(2)] that(1) by (auto simp: s1_def)
  ultimately show ?thesis using run(1) inv' cap ev g gv here by (simp add: cached_def)
qed

section \<open>The clients of the cache\<close>

text \<open>
  A run of the cache: its state, the handles the clients hold, each with the key and the value
  it stands for, and the map of the values that were inserted last and not erased since.
  Handles are taken only while there are less than \<open>2 ^ 31\<close>, so that no reference count wraps,
  and entries inserted only into a shard that has less than \<open>2 ^ 31\<close>.
\<close>

type_synonym 'v lru_run = "'v ldb_lru \<times> (ldb_entry \<times> bytes \<times> 'v) list \<times> (bytes \<rightharpoonup> 'v)"

definition lru_room :: "'v ldb_lru \<Rightarrow> bytes \<Rightarrow> (ldb_entry \<times> bytes \<times> 'v) list \<Rightarrow> bool" where
  "lru_room lru k hs \<longleftrightarrow>
     length hs < 2 ^ 31 \<and> lt_elems (sh_table (lr_shard lru ! ldb_lru_shard (ldb_lru_hash k))) < 2 ^ 31"

inductive lru_step :: "'v lru_run \<Rightarrow> 'v lru_run \<Rightarrow> bool" where
  insert: "lru_room lru k hs \<Longrightarrow> ldb_lru_insert lru k v n = (h, lru') \<Longrightarrow> lru_step (lru, hs, m) (lru', (h, k, v) # hs, m(k \<mapsto> v))"
| hit: "length hs < 2 ^ 31 \<Longrightarrow> ldb_lru_lookup lru k = (Some h, lru') \<Longrightarrow> ldb_lru_value lru' h = Some v \<Longrightarrow>
    lru_step (lru, hs, m) (lru', (h, k, v) # hs, m)"
| miss: "ldb_lru_lookup lru k = (None, lru') \<Longrightarrow> lru_step (lru, hs, m) (lru', hs, m)"
| release: "(h, k, v) \<in> set hs \<Longrightarrow> lru_step (lru, hs, m) (ldb_lru_release lru h, remove1 (h, k, v) hs, m)"
| erase: "lru_step (lru, hs, m) (ldb_lru_erase lru k, hs, m(k := None))"
| prune: "lru_step (lru, hs, m) (ldb_lru_prune lru, hs, m)"
| new_id: "ldb_lru_id lru = (i, lru') \<Longrightarrow> lru_step (lru, hs, m) (lru', hs, m)"

definition holds :: "(ldb_entry \<times> bytes \<times> 'v) list \<Rightarrow> nat \<Rightarrow> nat \<Rightarrow> nat" where
  "holds hs i e = length (filter (\<lambda>((hash, e'), _). ldb_lru_shard hash = i \<and> e' = e) hs)"

definition cache_map :: "'v ldb_lru \<Rightarrow> bytes \<rightharpoonup> 'v" where
  "cache_map lru k = shard_map (lr_shard lru ! ldb_lru_shard (ldb_lru_hash k)) k"

definition shard_ok :: "'v lru_shard \<Rightarrow> (nat \<Rightarrow> nat) \<Rightarrow> bool" where
  "shard_ok s cl \<longleftrightarrow> shard_inv s cl \<and> (sh_capacity s = 0 \<longrightarrow> shard_map s = Map.empty)"

definition shards_inv :: "'v ldb_lru \<Rightarrow> (nat \<Rightarrow> nat \<Rightarrow> nat) \<Rightarrow> bool" where
  "shards_inv lru cl \<longleftrightarrow> length (lr_shard lru) = LDB_SHARDS \<and> (\<forall>i < LDB_SHARDS. shard_ok (lr_shard lru ! i) (cl i))"

definition run_inv :: "'v lru_run \<Rightarrow> bool" where
  "run_inv r = (case r of (lru, hs, m) \<Rightarrow> shards_inv lru (holds hs) \<and> cache_map lru \<subseteq>\<^sub>m m \<and>
     (\<forall>(h, k, v) \<in> set hs. ldb_lru_value lru h = Some v \<and> fst h = ldb_lru_hash k))"

lemma shard_less [simp]: "ldb_lru_shard hash < LDB_SHARDS"
proof -
  have "unat (drop_bit 28 hash) = drop_bit 28 (unat hash)" by (rule unat_drop_bit_eq)
  then have "unat (drop_bit 28 hash) = unat hash div 2 ^ 28" by (simp only: drop_bit_eq_div)
  moreover have "unat hash < 2 ^ 32" using unsigned_less [of hash] by simp
  ultimately show ?thesis by (simp add: ldb_lru_shard_def LDB_SHARDS_def LDB_SHARD_BITS_def)
qed

lemma shards_invD:
  assumes "shards_inv lru cl"
  shows "length (lr_shard lru) = LDB_SHARDS" "shard_ok (lr_shard lru ! ldb_lru_shard hash) (cl (ldb_lru_shard hash))"
  using assms by (simp_all add: shards_inv_def)

lemma cache_map_update:
  assumes "shards_inv lru cl"
  shows "cache_map (lru\<lparr>lr_shard := (lr_shard lru)[ldb_lru_shard (ldb_lru_hash k) := s']\<rparr>) k' =
    (if ldb_lru_shard (ldb_lru_hash k') = ldb_lru_shard (ldb_lru_hash k) then shard_map s' k' else cache_map lru k')"
  using shards_invD(1) [OF assms] by (simp add: cache_map_def nth_list_update)

lemma value_update:
  assumes "shards_inv lru cl"
  shows "ldb_lru_value (lru\<lparr>lr_shard := (lr_shard lru)[ldb_lru_shard hash := s']\<rparr>) h =
    (if ldb_lru_shard (fst h) = ldb_lru_shard hash then map_option lh_value (sh_heap s' (snd h)) else ldb_lru_value lru h)"
  using shards_invD(1) [OF assms] by (simp add: ldb_lru_value_def nth_list_update)

lemma holds_le: "holds hs i e \<le> length hs"
  by (simp add: holds_def)

lemma holds_Cons: "holds (((hash, e), kv) # hs) = (holds hs)(ldb_lru_shard hash := (holds hs (ldb_lru_shard hash))(e := holds hs (ldb_lru_shard hash) e + 1))"
  by (intro ext) (auto simp: holds_def)

lemma holds_pos: "((hash, e), kv) \<in> set hs \<Longrightarrow> 0 < holds hs (ldb_lru_shard hash) e"
  by (auto simp: holds_def filter_empty_conv)

lemma holds_remove1:
  assumes "((hash, e), kv) \<in> set hs"
  shows "holds (remove1 ((hash, e), kv) hs) = (holds hs)(ldb_lru_shard hash := (holds hs (ldb_lru_shard hash))(e := holds hs (ldb_lru_shard hash) e - 1))"
proof (intro ext)
  fix i x
  let ?P = "\<lambda>((hash, e'), _ :: bytes \<times> 'a). ldb_lru_shard hash = i \<and> e' = (x :: nat)"
  have "length (filter ?P (remove1 ((hash, e), kv) hs)) = length (filter ?P hs) - (if ?P ((hash, e), kv) then 1 else 0)"
    using assms by (auto simp: filter_remove1 length_remove1)
  then show "holds (remove1 ((hash, e), kv) hs) i x =
    ((holds hs)(ldb_lru_shard hash := (holds hs (ldb_lru_shard hash))(e := holds hs (ldb_lru_shard hash) e - 1))) i x"
    by (auto simp: holds_def)
qed

lemma map_le_none: "f \<subseteq>\<^sub>m (\<lambda>_. None) \<Longrightarrow> f = (\<lambda>_. None)"
  by (auto simp: map_le_def dom_def fun_eq_iff)

lemma shard_ok_less:
  assumes "shard_ok s cl" "shard_inv s' cl'" "sh_capacity s' = sh_capacity s" "shard_map s' \<subseteq>\<^sub>m shard_map s"
  shows "shard_ok s' cl'"
  using assms map_le_none by (auto simp: shard_ok_def)

text \<open>One shard changes: what has to be shown of it.\<close>

lemma run_update:
  assumes "run_inv (lru, hs, m)" "holds hs' = (holds hs)(ldb_lru_shard (ldb_lru_hash k) := cl')" "shard_ok s' cl'"
    and "\<And>k' v. ldb_lru_shard (ldb_lru_hash k') = ldb_lru_shard (ldb_lru_hash k) \<Longrightarrow> shard_map s' k' = Some v \<Longrightarrow> m' k' = Some v"
    and "\<And>k'. ldb_lru_shard (ldb_lru_hash k') \<noteq> ldb_lru_shard (ldb_lru_hash k) \<Longrightarrow> m' k' = m k'"
    and "\<And>h k' v. (h, k', v) \<in> set hs' \<Longrightarrow> (h, k', v) \<in> set hs \<or>
      fst h = ldb_lru_hash k' \<and> ldb_lru_shard (fst h) = ldb_lru_shard (ldb_lru_hash k) \<and> map_option lh_value (sh_heap s' (snd h)) = Some v"
    and "\<And>e f. sh_heap s' e = Some f \<Longrightarrow> 0 < holds hs (ldb_lru_shard (ldb_lru_hash k)) e \<Longrightarrow>
      map_option lh_value (sh_heap (lr_shard lru ! ldb_lru_shard (ldb_lru_hash k)) e) = Some (lh_value f)"
  shows "run_inv (lru\<lparr>lr_shard := (lr_shard lru)[ldb_lru_shard (ldb_lru_hash k) := s']\<rparr>, hs', m')"
proof -
  let ?i = "ldb_lru_shard (ldb_lru_hash k)" and ?lru = "lru\<lparr>lr_shard := (lr_shard lru)[ldb_lru_shard (ldb_lru_hash k) := s']\<rparr>"
  have inv: "shards_inv lru (holds hs)" "cache_map lru \<subseteq>\<^sub>m m" "\<And>h k v. (h, k, v) \<in> set hs \<Longrightarrow> ldb_lru_value lru h = Some v"
    using assms(1) by (auto simp: run_inv_def)
  have "shards_inv ?lru (holds hs')" using inv(1) assms(3) unfolding assms(2) by (simp add: shards_inv_def nth_list_update)
  moreover have "m' k' = Some v" if "cache_map ?lru k' = Some v" for k' v
  proof (cases "ldb_lru_shard (ldb_lru_hash k') = ?i")
    case True
    then show ?thesis using that assms(4) unfolding cache_map_update [OF inv(1)] by simp
  next
    case False
    then have "cache_map lru k' = Some v" using that unfolding cache_map_update [OF inv(1)] by simp
    then have "m k' = Some v" using inv(2) by (auto simp: map_le_def dom_def)
    then show ?thesis using assms(5) [OF False] by simp
  qed
  then have "cache_map ?lru \<subseteq>\<^sub>m m'" by (auto simp: map_le_def)
  moreover have "ldb_lru_value ?lru h = Some v" if h: "(h, k', v) \<in> set hs'" for h k' v
  proof (cases "ldb_lru_shard (fst h) = ?i")
    case True
    then have "0 < cl' (snd h)" using holds_pos [of "fst h" "snd h" "(k', v)" hs'] h assms(2) by simp
    then obtain f where f: "sh_heap s' (snd h) = Some f" using shard_coreD(11) [of s' cl'] assms(3) by (auto simp: shard_ok_def shard_inv_def)
    have "lh_value f = v" if "(h, k', v) \<in> set hs"
    proof -
      have "0 < holds hs ?i (snd h)" using holds_pos [of "fst h" "snd h" "(k', v)" hs] that True by simp
      then show ?thesis using assms(7) [OF f] inv(3) [OF that] True by (auto simp: ldb_lru_value_def)
    qed
    then show ?thesis using assms(6) [OF h] f True unfolding value_update [OF inv(1)] by auto
  next
    case False
    then show ?thesis using assms(6) [OF h] inv(3) unfolding value_update [OF inv(1)] by auto
  qed
  moreover have "fst h = ldb_lru_hash k'" if "(h, k', v) \<in> set hs'" for h k' v
    using assms(6) [OF that] assms(1) by (auto simp: run_inv_def)
  ultimately show ?thesis by (auto simp: run_inv_def)
qed

lemma insert_inv:
  assumes "run_inv (lru, hs, m)" "ldb_lru_insert lru k v n = (h, lru')"
  shows "run_inv (lru', (h, k, v) # hs, m(k \<mapsto> v))"
proof -
  let ?i = "ldb_lru_shard (ldb_lru_hash k)" let ?s = "lr_shard lru ! ?i" and ?cl = "holds hs ?i"
  have inv: "shards_inv lru (holds hs)" "cache_map lru \<subseteq>\<^sub>m m" using assms(1) by (simp_all add: run_inv_def)
  have s: "shard_ok ?s ?cl" using shards_invD(2) [OF inv(1)] by simp
  then have si: "shard_inv ?s ?cl" by (simp add: shard_ok_def)
  obtain e s' where ins: "lru_shard_insert ?s k (ldb_lru_hash k) v n = (e, s')" by fastforce
  then have r: "h = (ldb_lru_hash k, e)" "lru' = lru\<lparr>lr_shard := (lr_shard lru)[?i := s']\<rparr>"
    using assms(2) by (simp_all add: ldb_lru_insert_def Let_def)
  note ok = shard_insert_ok [OF si ins]
  have e: "e = sh_next ?s" and inv': "shard_inv s' (?cl(e := 1))" and cap: "sh_capacity s' = sh_capacity ?s"
    and at: "map_option lh_value (sh_heap s' e) = Some v" using ok by blast+
  have new: "?cl e = 0" using shard_coreD(9,11) [of ?s ?cl] si unfolding shard_inv_def e by (metis less_irrefl neq0_conv)
  have zero: "shard_map s' = (\<lambda>_. None)" if "sh_capacity ?s = 0" using ok s map_le_none that by (auto simp: shard_ok_def)
  then have le: "shard_map s' \<subseteq>\<^sub>m (shard_map ?s)(k \<mapsto> v)" using ok by (cases "sh_capacity ?s = 0") (simp_all add: map_le_def word_gt_0)
  show ?thesis
    unfolding r
  proof (rule run_update [OF assms(1), where cl' = "?cl(e := 1)"])
    show "holds (((ldb_lru_hash k, e), k, v) # hs) = (holds hs)(?i := ?cl(e := 1))" unfolding holds_Cons using new by simp
    show "shard_ok s' (?cl(e := 1))" using inv' cap zero by (auto simp: shard_ok_def)
    show "(m(k \<mapsto> v)) k' = Some v'" if "ldb_lru_shard (ldb_lru_hash k') = ?i" "shard_map s' k' = Some v'" for k' v'
    proof (cases "k' = k")
      case True
      then show ?thesis using le that(2) by (auto simp: map_le_def dom_def)
    next
      case False
      then have "cache_map lru k' = Some v'" using le that by (auto simp: map_le_def dom_def cache_map_def)
      then show ?thesis using inv(2) False by (auto simp: map_le_def dom_def)
    qed
    show "map_option lh_value (sh_heap ?s x) = Some (lh_value f)" if "sh_heap s' x = Some f" "0 < ?cl x" for x f
      using ok that new by (cases "x = e") auto
  qed (use at in auto)
qed

text \<open>The operations that insert nothing.\<close>

lemma update_less:
  assumes "run_inv (lru, hs, m)" "holds hs' = (holds hs)(ldb_lru_shard (ldb_lru_hash k) := cl')"
    and "shard_inv s' cl'" "keeps_entries (lr_shard lru ! ldb_lru_shard (ldb_lru_hash k)) s'"
    and "shard_map s' \<subseteq>\<^sub>m shard_map (lr_shard lru ! ldb_lru_shard (ldb_lru_hash k))"
    and "m' = m \<or> m' = m(k := None) \<and> shard_map s' k = None"
    and "\<And>h k' v. (h, k', v) \<in> set hs' \<Longrightarrow> (h, k', v) \<in> set hs \<or>
      fst h = ldb_lru_hash k' \<and> ldb_lru_shard (fst h) = ldb_lru_shard (ldb_lru_hash k) \<and> map_option lh_value (sh_heap s' (snd h)) = Some v"
  shows "run_inv (lru\<lparr>lr_shard := (lr_shard lru)[ldb_lru_shard (ldb_lru_hash k) := s']\<rparr>, hs', m')"
proof (rule run_update [OF assms(1,2)])
  let ?i = "ldb_lru_shard (ldb_lru_hash k)"
  have inv: "shards_inv lru (holds hs)" "cache_map lru \<subseteq>\<^sub>m m" using assms(1) by (simp_all add: run_inv_def)
  show "shard_ok s' cl'" using shard_ok_less [OF shards_invD(2) [OF inv(1)] assms(3) _ assms(5)] assms(4) by (simp add: keeps_entries_def)
  show "m' k' = Some v" if "ldb_lru_shard (ldb_lru_hash k') = ?i" "shard_map s' k' = Some v" for k' v
  proof -
    have "cache_map lru k' = Some v" using that assms(5) by (auto simp: map_le_def dom_def cache_map_def)
    then have "m k' = Some v" using inv(2) by (auto simp: map_le_def dom_def)
    then show ?thesis using assms(6) that(2) by auto
  qed
  show "m' k' = m k'" if "ldb_lru_shard (ldb_lru_hash k') \<noteq> ?i" for k' using assms(6) that by auto
  show "map_option lh_value (sh_heap (lr_shard lru ! ?i) x) = Some (lh_value f)" if "sh_heap s' x = Some f" for x f
    using keeps_entriesD [OF assms(4) that] by auto
qed (use assms(7) in auto)

lemma map_le_eq: "f = g \<Longrightarrow> f \<subseteq>\<^sub>m g"
  by simp

lemma lookup_miss:
  assumes "run_inv (lru, hs, m)" "ldb_lru_lookup lru k = (None, lru')"
  shows "lru' = lru \<and> cache_map lru k = None"
proof -
  let ?i = "ldb_lru_shard (ldb_lru_hash k)"
  have len: "length (lr_shard lru) = LDB_SHARDS" using assms(1) shards_invD(1) by (auto simp: run_inv_def)
  have "lru_table_lookup (sh_heap (lr_shard lru ! ?i)) (sh_table (lr_shard lru ! ?i)) k (ldb_lru_hash k) = None"
    "lru_shard_lookup (lr_shard lru ! ?i) k (ldb_lru_hash k) = (None, lr_shard lru ! ?i)"
    using assms(2) by (auto simp: ldb_lru_lookup_def Let_def lru_shard_lookup_def split: prod.splits option.splits)
  then show ?thesis using assms(2) len by (simp add: ldb_lru_lookup_def cache_map_def shard_map_def)
qed

lemma lookup_inv:
  assumes "run_inv (lru, hs, m)" "ldb_lru_lookup lru k = (r, lru')" "length hs \<le> 2 ^ 31"
  shows "case r of None \<Rightarrow> run_inv (lru', hs, m) \<and> cache_map lru k = None
    | Some h \<Rightarrow> \<exists>v. cache_map lru k = Some v \<and> ldb_lru_value lru' h = Some v \<and> run_inv (lru', (h, k, v) # hs, m)"
proof -
  let ?i = "ldb_lru_shard (ldb_lru_hash k)" let ?s = "lr_shard lru ! ?i" and ?cl = "holds hs ?i"
  have inv: "shards_inv lru (holds hs)" using assms(1) by (simp add: run_inv_def)
  have s: "shard_inv ?s ?cl" using shards_invD(2) [OF inv] by (simp add: shard_ok_def)
  obtain e s' where l: "lru_shard_lookup ?s k (ldb_lru_hash k) = (e, s')" by fastforce
  then have r: "r = map_option (Pair (ldb_lru_hash k)) e" "lru' = lru\<lparr>lr_shard := (lr_shard lru)[?i := s']\<rparr>"
    using assms(2) by (simp_all add: ldb_lru_lookup_def Let_def)
  have "holds hs ?i x + 2 < 2 ^ 32" for x using holds_le [of hs ?i x] assms(3) by (simp add: order.strict_trans1)
  note ok = shard_lookup_ok [OF s this, of k, unfolded l]
  show ?thesis
  proof (cases e)
    case None
    then have "lru' = lru" using ok r shards_invD(1) [OF inv] by simp
    then show ?thesis using ok r None assms(1) by (simp add: cache_map_def)
  next
    case (Some x)
    have ok': "shard_inv s' (?cl(x := ?cl x + 1))" "shard_map s' = shard_map ?s" "shard_map ?s k = map_option lh_value (sh_heap s' x)"
      "shard_map ?s k \<noteq> None" "keeps_entries ?s s'" using ok unfolding Some prod.case option.case by blast+
    then obtain v where v: "shard_map ?s k = Some v" "map_option lh_value (sh_heap s' x) = Some v" by auto
    have "run_inv (lru', ((ldb_lru_hash k, x), k, v) # hs, m)"
      unfolding r(2)
      by (rule update_less [OF assms(1) _ ok'(1,5) map_le_eq [OF ok'(2)]]) (use v in \<open>auto simp: holds_Cons\<close>)
    then show ?thesis using r Some v value_update [OF inv, of "ldb_lru_hash k"] by (simp add: cache_map_def)
  qed
qed

lemma release_inv:
  assumes "run_inv (lru, hs, m)" "(h, k, v) \<in> set hs"
  shows "run_inv (ldb_lru_release lru h, remove1 (h, k, v) hs, m)"
proof -
  let ?i = "ldb_lru_shard (ldb_lru_hash k)" let ?s = "lr_shard lru ! ?i" and ?cl = "holds hs ?i"
  obtain hash e where h: "h = (hash, e)" by fastforce
  have i: "ldb_lru_shard hash = ?i" using assms h by (auto simp: run_inv_def)
  have inv: "shards_inv lru (holds hs)" using assms(1) by (simp add: run_inv_def)
  have s: "shard_inv ?s ?cl" using shards_invD(2) [OF inv] by (simp add: shard_ok_def)
  have pos: "0 < ?cl e" using holds_pos [of hash e "(k, v)" hs] assms(2) h i by simp
  note ok = shard_release_ok [OF s pos]
  have r: "ldb_lru_release lru h = lru\<lparr>lr_shard := (lr_shard lru)[?i := lru_shard_release ?s e]\<rparr>"
    using i h by (simp add: ldb_lru_release_def Let_def)
  show ?thesis
    unfolding r
    by (rule update_less [OF assms(1), where cl' = "?cl(e := ?cl e - 1)"])
      (use ok holds_remove1 [of hash e "(k, v)" hs] assms(2) i h notin_set_remove1 in auto)
qed

lemma erase_inv:
  assumes "run_inv (lru, hs, m)"
  shows "run_inv (ldb_lru_erase lru k, hs, m(k := None))"
proof -
  let ?i = "ldb_lru_shard (ldb_lru_hash k)" let ?s = "lr_shard lru ! ?i" and ?cl = "holds hs ?i"
  let ?s' = "lru_shard_erase ?s k (ldb_lru_hash k)"
  have inv: "shards_inv lru (holds hs)" using assms(1) by (simp add: run_inv_def)
  have s: "shard_inv ?s ?cl" using shards_invD(2) [OF inv] by (simp add: shard_ok_def)
  note ok = shard_erase_ok [OF s, of k]
  have sub: "cached_set ?s' \<subseteq> cached_set ?s" using ok by (auto split: option.splits)
  have s': "shard_inv ?s' ?cl" and keep: "keeps_entries ?s ?s'" using ok by simp_all
  have "shard_map ?s' k = None"
  proof (cases "lru_table_lookup (sh_heap ?s) (sh_table ?s) k (ldb_lru_hash k)")
    case None
    then show ?thesis using ok by (simp add: shard_map_def)
  next
    case (Some e)
    have "lru_table_lookup (sh_heap ?s') (sh_table ?s') k (ldb_lru_hash k) \<noteq> Some x" for x
    proof
      assume "lru_table_lookup (sh_heap ?s') (sh_table ?s') k (ldb_lru_hash k) = Some x"
      then obtain f where x: "x \<in> cached_set ?s'" "sh_heap ?s' x = Some f" "lh_key f = k" using shard_lookup_iff [OF s'] by blast
      then have "lru_table_lookup (sh_heap ?s) (sh_table ?s) k (ldb_lru_hash k) = Some x"
        using keeps_entriesD [OF keep x(2)] sub shard_lookup_iff [OF s, of k x] by auto
      then show False using Some x(1) ok by simp
    qed
    then show ?thesis by (cases "lru_table_lookup (sh_heap ?s') (sh_table ?s') k (ldb_lru_hash k)") (auto simp: shard_map_def)
  qed
  then have "run_inv (lru\<lparr>lr_shard := (lr_shard lru)[?i := ?s']\<rparr>, hs, m(k := None))"
    by (intro update_less [OF assms(1) _ s' keep shard_map_kept(1) [OF s s' keep sub]]) auto
  then show ?thesis by (simp add: ldb_lru_erase_def Let_def)
qed

lemma prune_inv:
  assumes "run_inv (lru, hs, m)"
  shows "run_inv (ldb_lru_prune lru, hs, m)"
proof -
  have inv: "shards_inv lru (holds hs)" "cache_map lru \<subseteq>\<^sub>m m" using assms(1) by (simp_all add: run_inv_def)
  have len: "length (lr_shard lru) = LDB_SHARDS" using shards_invD(1) [OF inv(1)] .
  have one: "shard_ok (lru_shard_prune (lr_shard lru ! i)) (holds hs i)" "keeps_entries (lr_shard lru ! i) (lru_shard_prune (lr_shard lru ! i))"
    "shard_map (lru_shard_prune (lr_shard lru ! i)) \<subseteq>\<^sub>m shard_map (lr_shard lru ! i)" if i: "i < LDB_SHARDS" for i
  proof -
    let ?s = "lr_shard lru ! i"
    have ok: "shard_ok ?s (holds hs i)" and s: "shard_inv ?s (holds hs i)" using inv(1) i by (simp_all add: shards_inv_def shard_ok_def)
    have p: "shard_inv (lru_shard_prune ?s) (holds hs i)" "keeps_entries ?s (lru_shard_prune ?s)" "cached_set (lru_shard_prune ?s) \<subseteq> cached_set ?s"
      using prune_ok [OF s order.refl] unfolding lru_shard_prune_def by (auto simp: cached_set_def)
    then show "keeps_entries ?s (lru_shard_prune ?s)" by simp
    show le: "shard_map (lru_shard_prune ?s) \<subseteq>\<^sub>m shard_map ?s" by (rule shard_map_kept(1) [OF s p])
    show "shard_ok (lru_shard_prune ?s) (holds hs i)" using shard_ok_less [OF ok p(1) _ le] p(2) by (simp add: keeps_entries_def)
  qed
  have "shards_inv (ldb_lru_prune lru) (holds hs)" using one(1) len by (simp add: shards_inv_def ldb_lru_prune_def)
  moreover have "cache_map (ldb_lru_prune lru) \<subseteq>\<^sub>m cache_map lru"
    using one(3) [of "ldb_lru_shard (ldb_lru_hash _)"] len
    by (auto simp: map_le_def cache_map_def ldb_lru_prune_def dom_def)
  then have "cache_map (ldb_lru_prune lru) \<subseteq>\<^sub>m m" using inv(2) map_le_trans by blast
  moreover have "ldb_lru_value (ldb_lru_prune lru) h = Some v" if "(h, k, v) \<in> set hs" for h k v
  proof -
    let ?i = "ldb_lru_shard (fst h)"
    let ?s' = "lru_shard_prune (lr_shard lru ! ?i)"
    have "0 < holds hs ?i (snd h)" using holds_pos [of "fst h" "snd h"] that by simp
    then obtain f where f: "sh_heap ?s' (snd h) = Some f"
      using shard_coreD(11) [of ?s' "holds hs ?i" "snd h"] one(1) [of ?i] by (auto simp: shard_ok_def shard_inv_def)
    have "ldb_lru_value lru h = Some v" using assms that by (auto simp: run_inv_def)
    then show ?thesis using keeps_entriesD [OF one(2) f] f len by (auto simp: ldb_lru_value_def ldb_lru_prune_def)
  qed
  moreover have "fst h = ldb_lru_hash k" if "(h, k, v) \<in> set hs" for h k v using assms that by (auto simp: run_inv_def)
  ultimately show ?thesis by (auto simp: run_inv_def)
qed

lemma lru_step_inv: "lru_step r r' \<Longrightarrow> run_inv r \<Longrightarrow> run_inv r'"
proof (induction rule: lru_step.induct)
  case (hit hs lru k h lru' v m)
  then show ?case using lookup_inv [OF hit(4,2)] by auto
next
  case (miss lru k lru' hs m)
  then show ?case using lookup_miss [OF miss(2,1)] by simp
next
  case (new_id lru i lru' hs m)
  then show ?case
    by (auto simp: run_inv_def ldb_lru_id_def Let_def shards_inv_def ldb_lru_value_def cache_map_def [abs_def])
qed (blast intro: insert_inv release_inv erase_inv prune_inv)+

lemma shard_init_map: "shard_map (lru_shard_init capacity :: 'v lru_shard) = Map.empty"
proof
  fix k
  have "shard_map (lru_shard_init capacity :: 'v lru_shard) k \<noteq> Some v" for v
    using shard_map_iff [OF shard_init_inv] by (simp add: lru_shard_init_def cached_set_def)
  then show "shard_map (lru_shard_init capacity :: 'v lru_shard) k = None" by (metis not_Some_eq)
qed

lemma create_inv: "run_inv (ldb_lru_create capacity, [], Map.empty)"
proof -
  have len: "length (lr_shard (ldb_lru_create capacity :: 'a ldb_lru)) = LDB_SHARDS" by (simp add: ldb_lru_create_def Let_def)
  have shard: "lr_shard (ldb_lru_create capacity :: 'a ldb_lru) ! i = lru_shard_init ((capacity + word_of_nat LDB_SHARDS - 1) div word_of_nat LDB_SHARDS)" if "i < LDB_SHARDS" for i
    using that by (simp add: ldb_lru_create_def Let_def)
  have "shards_inv (ldb_lru_create capacity :: 'a ldb_lru) (\<lambda>_ _. 0)"
    unfolding shards_inv_def shard_ok_def using len shard by (simp add: shard_init_inv shard_init_map)
  moreover have "cache_map (ldb_lru_create capacity :: 'a ldb_lru) k = None" for k
    unfolding cache_map_def shard [OF shard_less] by (simp add: shard_init_map)
  moreover have "holds ([] :: (ldb_entry \<times> bytes \<times> 'a) list) = (\<lambda>_ _. 0)" by (intro ext) (simp add: holds_def)
  ultimately show ?thesis by (simp add: run_inv_def map_le_def dom_def)
qed

definition lru_reachable :: "u64 \<Rightarrow> 'v lru_run \<Rightarrow> bool" where
  "lru_reachable capacity r = lru_step\<^sup>*\<^sup>* (ldb_lru_create capacity, [], Map.empty) r"

lemma reachable_inv: "lru_reachable capacity r \<Longrightarrow> run_inv r"
  unfolding lru_reachable_def by (induction rule: rtranclp_induct) (use create_inv lru_step_inv in blast)+


text \<open>No operation changes a capacity.\<close>

lemma capacity_kept [simp]:
  "sh_capacity (lru_shard_remove s e) = sh_capacity s" "sh_capacity (put_entry s e h) = sh_capacity s"
  "sh_capacity (lru_assert b s) = sh_capacity s" "sh_capacity (append_list s e) = sh_capacity s" "sh_capacity (append_in_use s e) = sh_capacity s"
  by (simp_all add: lru_shard_remove_def put_entry_def append_list_def append_in_use_def lru_assert_def)

lemma capacity_unref [simp]: "sh_capacity (lru_shard_unref s e) = sh_capacity s"
  by (simp add: lru_shard_unref_def Let_def split: option.split)

lemma capacity_finish [simp]: "sh_capacity (snd (lru_shard_finish s x)) = sh_capacity s"
  by (simp add: lru_shard_finish_def Let_def split: option.split)

lemma capacity_erase [simp]: "sh_capacity (lru_shard_erase s k hash) = sh_capacity s"
  by (simp add: lru_shard_erase_def split: prod.split)

lemma capacity_oldest [simp]: "sh_capacity (remove_oldest s) = sh_capacity s"
  by (simp add: remove_oldest_def split: list.split option.split)

lemma capacity_loops [simp]: "sh_capacity (prune_loop n s) = sh_capacity s" "sh_capacity (evict_loop n s) = sh_capacity s"
  by (induction n arbitrary: s) simp_all

lemma capacity_shard:
  "sh_capacity (snd (lru_shard_insert s k hash v n)) = sh_capacity s" "sh_capacity (snd (lru_shard_lookup s k hash)) = sh_capacity s"
  by (simp_all add: lru_shard_insert_def Let_def lru_shard_lookup_def lru_shard_ref_def split: prod.split option.split)

lemma map_update_same: "f y = f (xs ! i) \<Longrightarrow> map f (xs[i := y]) = map f xs"
proof (rule nth_equalityI)
  fix j assume "f y = f (xs ! i)" "j < length (map f (xs[i := y]))"
  then show "map f (xs[i := y]) ! j = map f xs ! j" by (cases "j = i") simp_all
qed simp

lemma capacity_step: "lru_step r r' \<Longrightarrow> map sh_capacity (lr_shard (fst r')) = map sh_capacity (lr_shard (fst r))"
proof (induction rule: lru_step.induct)
  case (insert lru k hs v n h lru' m)
  then show ?case
    using capacity_shard(1) [of "lr_shard lru ! ldb_lru_shard (ldb_lru_hash k)" k "ldb_lru_hash k" v n]
    by (auto simp: ldb_lru_insert_def Let_def intro: map_update_same split: prod.splits)
next
  case (hit hs lru k h lru' v m)
  then show ?case
    using capacity_shard(2) [of "lr_shard lru ! ldb_lru_shard (ldb_lru_hash k)" k "ldb_lru_hash k"]
    by (auto simp: ldb_lru_lookup_def Let_def intro: map_update_same split: prod.splits)
next
  case (miss lru k lru' hs m)
  then show ?case
    using capacity_shard(2) [of "lr_shard lru ! ldb_lru_shard (ldb_lru_hash k)" k "ldb_lru_hash k"]
    by (auto simp: ldb_lru_lookup_def Let_def intro: map_update_same split: prod.splits)
qed (auto simp: ldb_lru_release_def lru_shard_release_def ldb_lru_erase_def ldb_lru_prune_def lru_shard_prune_def ldb_lru_id_def Let_def intro: map_update_same)

lemma reachable_capacity:
  assumes "lru_reachable capacity r" "i < LDB_SHARDS"
  shows "sh_capacity (lr_shard (fst r) ! i) = (capacity + word_of_nat LDB_SHARDS - 1) div word_of_nat LDB_SHARDS"
proof -
  have "map sh_capacity (lr_shard (fst r)) = replicate LDB_SHARDS ((capacity + word_of_nat LDB_SHARDS - 1) div word_of_nat LDB_SHARDS)"
    using assms(1) unfolding lru_reachable_def
  proof (induction rule: rtranclp_induct)
    case base
    then show ?case by (simp add: ldb_lru_create_def Let_def lru_shard_init_def)
  next
    case (step r r')
    then show ?case using capacity_step by metis
  qed
  then have "length (lr_shard (fst r)) = LDB_SHARDS \<and> map sh_capacity (lr_shard (fst r)) ! i = (capacity + word_of_nat LDB_SHARDS - 1) div word_of_nat LDB_SHARDS"
    using assms(2) by (metis length_map length_replicate nth_replicate)
  then show ?thesis using assms(2) by (metis nth_map)
qed

section \<open>The end of a cache\<close>

lemma clear_fold:
  assumes "distinct es" "\<And>e. e \<in> set es \<Longrightarrow> \<exists>h. sh_heap s e = Some h \<and> lh_refs h = 1 \<and> lh_in_cache h"
  shows "\<exists>s'. fold (\<lambda>e lru. case sh_heap lru e of
             None \<Rightarrow> lru_assert False lru
           | Some h \<Rightarrow> lru_shard_unref (put_entry (lru_assert (lh_in_cache h \<and> lh_refs h = 1) lru) e (h\<lparr>lh_in_cache := False\<rparr>)) e) es s = s' \<and>
    sh_next s' = sh_next s \<and> (\<forall>e. sh_heap s' e = (if e \<in> set es then None else sh_heap s e)) \<and>
    map fst (sh_deleted s') = map fst (sh_deleted s) @ es \<and> sh_fault s' = sh_fault s"
  using assms
proof (induction es arbitrary: s)
  case (Cons e es)
  obtain h where h: "sh_heap s e = Some h" "lh_refs h = 1" "lh_in_cache h" using Cons.prems(2) by auto
  let ?s = "lru_shard_unref (put_entry s e (h\<lparr>lh_in_cache := False\<rparr>)) e"
  have s: "sh_next ?s = sh_next s" "sh_heap ?s = (sh_heap s)(e := None)" "map fst (sh_deleted ?s) = map fst (sh_deleted s) @ [e]"
    "sh_fault ?s = sh_fault s"
    using h by (simp_all add: lru_shard_unref_def put_entry_def lru_assert_def)
  have "\<exists>h. sh_heap ?s x = Some h \<and> lh_refs h = 1 \<and> lh_in_cache h" if "x \<in> set es" for x
    using Cons.prems that s(2) by auto
  then show ?case using Cons.IH [of ?s] Cons.prems(1) s h by auto
qed simp

lemma clear_ok:
  assumes "shard_inv s (\<lambda>_. 0)"
  shows "sh_heap (lru_shard_clear s) = Map.empty" "distinct (map fst (sh_deleted (lru_shard_clear s)))"
    "fst ` set (sh_deleted (lru_shard_clear s)) = {..< sh_next s}"
    "\<not> sh_fault (lru_shard_clear s)"
proof -
  have core: "shard_core s (\<lambda>_. 0)" using assms by (simp add: shard_inv_def)
  note c = shard_coreD [OF core]
  have use: "sh_in_use s = []" using c(5) by (cases "sh_in_use s") auto
  have "\<exists>h. sh_heap s e = Some h \<and> lh_refs h = 1 \<and> lh_in_cache h" if "e \<in> set (sh_list s)" for e
    using c(10) [of e] c(6,7) [of e] that by (auto simp: cached_set_def refs_eq(1))
  then obtain s' where s': "lru_shard_clear s = s'" "sh_next s' = sh_next s"
    "\<And>e. sh_heap s' e = (if e \<in> set (sh_list s) then None else sh_heap s e)" "map fst (sh_deleted s') = map fst (sh_deleted s) @ sh_list s" "sh_fault s' = sh_fault s"
    using clear_fold [OF c(1)] use by (auto simp: lru_shard_clear_def)
  show "\<not> sh_fault (lru_shard_clear s)" using s'(1,5) c(16) by simp
  have out: "sh_heap s e = None" if "e \<notin> set (sh_list s)" for e
    using c(8) [of e] that use by (cases "sh_heap s e") (auto simp: cached_set_def)
  show "sh_heap (lru_shard_clear s) = Map.empty" using s'(1,3) out by auto
  have live: "e \<in> set (sh_list s) \<Longrightarrow> sh_heap s e \<noteq> None" for e using c(10) [of e] by (auto simp: cached_set_def)
  then have "set (sh_list s) \<inter> fst ` set (sh_deleted s) = {}" using c(14) by blast
  then show "distinct (map fst (sh_deleted (lru_shard_clear s)))" using s'(1,4) c(1,13) by (simp add: Int_commute)
  have all: "e \<in> {..< sh_next s} \<longleftrightarrow> e < sh_next s \<and> sh_heap s e = None \<or> e \<in> set (sh_list s)" for e
    using c(9) [of e] out [of e] live [of e] by auto
  have "fst ` set (sh_deleted s') = fst ` set (sh_deleted s) \<union> set (sh_list s)" using s'(4) by (metis set_append set_map)
  then show "fst ` set (sh_deleted (lru_shard_clear s)) = {..< sh_next s}"
    unfolding s'(1) by (intro set_eqI) (simp only: Un_iff c(14) all)
qed

section \<open>What the clients see\<close>





lemma created_room: "lru_room (ldb_lru_create capacity :: 'v ldb_lru) k []"
  using shard_less [of "ldb_lru_hash k"]
  by (simp add: lru_room_def ldb_lru_create_def Let_def lru_shard_init_def lru_table_init_def lru_table_resize_def)


text \<open>C14: In every reachable state of a cache that has some capacity, at most 2^64 - 16 so that the part of a
  shard does not wrap, an entry that is inserted while there are less than 2^31 handles and entries is
  found by the next lookup of its key, with its value, is not found after it is erased, and the
  shard that takes it is left either within its part of the capacity or with no entry but
  those in use.
\<close>

theorem lru_insert_found:
  assumes "lru_reachable capacity (lru, hs, m)" "0 < capacity" "unat capacity + 15 < 2 ^ 64"
    and "lru_room lru k hs" "ldb_lru_insert lru k v n = (h, lru')"
  shows "(\<exists>h' lru''. ldb_lru_lookup lru' k = (Some h', lru'') \<and> ldb_lru_value lru'' h' = Some v) \<and>
    fst (ldb_lru_lookup (ldb_lru_erase lru' k) k) = None \<and>
    (unat (sh_usage (lr_shard lru' ! ldb_lru_shard (ldb_lru_hash k))) \<le> (unat capacity + 15) div 16 \<or>
     sh_list (lr_shard lru' ! ldb_lru_shard (ldb_lru_hash k)) = [])"
proof -
  let ?i = "ldb_lru_shard (ldb_lru_hash k)" let ?s = "lr_shard lru ! ?i"
  have inv: "run_inv (lru, hs, m)" by (rule reachable_inv [OF assms(1)])
  then have sh: "shards_inv lru (holds hs)" by (simp add: run_inv_def)
  have si: "shard_inv ?s (holds hs ?i)" using shards_invD(2) [OF sh] by (simp add: shard_ok_def)
  have "sh_capacity ?s = (capacity + 15) div 16"
    using reachable_capacity [OF assms(1) shard_less, of "ldb_lru_hash k"] by (simp add: LDB_SHARDS_def LDB_SHARD_BITS_def add.commute)
  moreover have "unat (capacity + 15) = unat capacity + 15" using assms(3) by (simp add: unat_word_ariths)
  ultimately have cap: "unat (sh_capacity ?s) = (unat capacity + 15) div 16" by (simp add: unat_div_distrib)
  obtain e s' where ins: "lru_shard_insert ?s k (ldb_lru_hash k) v n = (e, s')" by fastforce
  then have r: "h = (ldb_lru_hash k, e)" "lru' = lru\<lparr>lr_shard := (lr_shard lru)[?i := s']\<rparr>"
    using assms(5) by (simp_all add: ldb_lru_insert_def Let_def)
  note ok = shard_insert_ok [OF si ins]
  have "0 < unat capacity" using assms(2) by (simp add: word_less_nat_alt)
  then have "0 < unat (sh_capacity ?s)" unfolding cap by simp
  then have pos: "0 < sh_capacity ?s" by (simp add: word_less_nat_alt)
  have at: "lr_shard lru' ! ?i = s'" using r(2) shards_invD(1) [OF sh] by simp
  have v: "cache_map lru' k = Some v" using ok pos at by (simp add: cache_map_def)
  have inv': "run_inv (lru', (h, k, v) # hs, m(k \<mapsto> v))" by (rule insert_inv [OF inv assms(5)])
  have room: "length ((h, k, v) # hs) \<le> 2 ^ 31" using assms(4) by (simp add: lru_room_def)
  obtain r1 lru1 where l1: "ldb_lru_lookup lru' k = (r1, lru1)" by fastforce
  have "\<exists>h'. r1 = Some h' \<and> ldb_lru_value lru1 h' = Some v" using lookup_inv [OF inv' l1 room] v by (cases r1) auto
  moreover obtain r2 lru2 where l2: "ldb_lru_lookup (ldb_lru_erase lru' k) k = (r2, lru2)" by fastforce
  have inv2: "run_inv (ldb_lru_erase lru' k, (h, k, v) # hs, m(k := None))" using erase_inv [OF inv', of k] by simp
  then have "cache_map (ldb_lru_erase lru' k) k = None" by (auto simp: run_inv_def map_le_def dom_def)
  then have "r2 = None" using lookup_inv [OF inv2 l2 room] by (cases r2) auto
  moreover have "unat (sh_usage s') \<le> (unat capacity + 15) div 16 \<or> sh_list s' = []" using ok cap word_le_nat_alt by metis
  ultimately show ?thesis using l1 l2 at by auto
qed

theorem lru_insert_found_witness:
  "\<exists>lru h. ldb_lru_insert (ldb_lru_create 32) [1] (5 :: nat) 1 = (h, lru) \<and> fst (ldb_lru_lookup (ldb_lru_erase lru [1]) [1]) = None \<and>
    (\<exists>h' lru'. ldb_lru_lookup lru [1] = (Some h', lru') \<and> ldb_lru_value lru' h' = Some 5)"
proof -
  obtain h lru where ins: "ldb_lru_insert (ldb_lru_create 32) [1] (5 :: nat) 1 = (h, lru)" by fastforce
  have "lru_reachable 32 (ldb_lru_create 32 :: nat ldb_lru, [], Map.empty)" by (simp add: lru_reachable_def)
  from lru_insert_found [OF this _ _ created_room ins] ins show ?thesis by auto
qed

text \<open>C15: When the clients have released every handle, after any run that takes handles only while there are
  less than 2^31, destroying the cache fails no assertion and frees every entry
  that was ever made: nothing is left in the store of a shard, and the deleter has run for
  each of its entries, and once.
\<close>

theorem lru_destroy_frees:
  assumes "lru_reachable capacity (lru, [], m)" "i < LDB_SHARDS"
  shows "\<not> sh_fault (lr_shard (ldb_lru_destroy lru) ! i) \<and> sh_heap (lr_shard (ldb_lru_destroy lru) ! i) = Map.empty \<and>
    distinct (map fst (sh_deleted (lr_shard (ldb_lru_destroy lru) ! i))) \<and>
    fst ` set (sh_deleted (lr_shard (ldb_lru_destroy lru) ! i)) = {..< sh_next (lr_shard lru ! i)}"
proof -
  have sh: "shards_inv lru (holds ([] :: (ldb_entry \<times> bytes \<times> 'a) list))" using reachable_inv [OF assms(1)] by (simp add: run_inv_def)
  moreover have "holds ([] :: (ldb_entry \<times> bytes \<times> 'a) list) i = (\<lambda>_. 0)" by (intro ext) (simp add: holds_def)
  ultimately have "shard_inv (lr_shard lru ! i) (\<lambda>_. 0)" using assms(2) unfolding shards_inv_def shard_ok_def by metis
  note ok = clear_ok [OF this]
  have "lr_shard (ldb_lru_destroy lru) ! i = lru_shard_clear (lr_shard lru ! i)"
    using assms(2) shards_invD(1) [OF sh] by (simp add: ldb_lru_destroy_def)
  then show ?thesis using ok by simp
qed

theorem lru_destroy_frees_witness:
  "\<exists>lru. lru_reachable 32 (lru, [], [[1] \<mapsto> 5 :: nat]) \<and> sh_heap (lr_shard (ldb_lru_destroy lru) ! 0) = Map.empty"
proof -
  obtain h lru where ins: "ldb_lru_insert (ldb_lru_create 32) [1] (5 :: nat) 1 = (h, lru)" by fastforce
  have "lru_reachable 32 (lru, [(h, [1], 5)], [[1] \<mapsto> 5])"
    unfolding lru_reachable_def by (rule r_into_rtranclp) (use lru_step.insert [OF created_room ins, of Map.empty] in simp)
  then have r: "lru_reachable 32 (ldb_lru_release lru h, [], [[1] \<mapsto> 5])"
    using lru_step.release [of h "[1]" 5 "[(h, [1], 5)]" lru "[[1] \<mapsto> 5]"] unfolding lru_reachable_def by simp
  show ?thesis using r lru_destroy_frees [OF r, of 0] by (auto simp: LDB_SHARDS_def)
qed

end
