(* ===== verification/Filename.thy ===== *)
theory Filename
  imports Prelude "HOL-Library.Char_ord"
begin

text \<open>
  The names of the files of a database: \<^verbatim>\<open>engine/src/filename.c\<close>, with the decimal codec
  and the path functions of \<^verbatim>\<open>engine/src/util/strutil.c\<close> that it uses.  A C string is the list
  of its characters without the final zero; a function that fills a buffer of a given size
  returns the string, or nothing when the buffer is too small.  Paths are those of a POSIX
  system.
\<close>

section \<open>Numbers in decimal\<close>

lemma unat_div10: "unat (x div 10 :: u64) = unat x div 10"
  by (simp add: unat_div)

function ldb_size_int :: "u64 \<Rightarrow> nat" where
  "ldb_size_int x = (if x div 10 \<noteq> 0 then ldb_size_int (x div 10) + 1 else 1)"
  by pat_completeness auto
termination
proof (relation "measure unat")
  fix x :: u64 assume "x div 10 \<noteq> 0"
  then have "unat x div 10 \<noteq> 0" by (metis unat_div10 unat_eq_zero)
  then show "(x div 10, x) \<in> measure unat" by (simp add: unat_div10)
qed simp

declare ldb_size_int.simps [simp del]

primrec encode_digits :: "nat \<Rightarrow> u64 \<Rightarrow> string" where
  "encode_digits 0 x = []"
| "encode_digits (Suc i) x = encode_digits i (x div 10) @ [char_of (48 + unat (x mod 10))]"

definition ldb_encode_int :: "u64 \<Rightarrow> nat \<Rightarrow> string" where
  "ldb_encode_int x pad = (let n = ldb_size_int x; n = (if n < pad then pad else n) in encode_digits n x)"

definition is_digit :: "char \<Rightarrow> bool" where
  "is_digit c \<longleftrightarrow> \<not> (of_char c < (48 :: nat) \<or> of_char c > (57 :: nat))"

definition digit_of :: "char \<Rightarrow> u64" where
  "digit_of c = word_of_nat (of_char c - 48)"

fun decode_digits :: "u64 \<Rightarrow> string \<Rightarrow> (u64 \<times> string) option" where
  "decode_digits x [] = Some (x, [])"
| "decode_digits x (c # cs) =
     (if \<not> is_digit c then Some (x, c # cs)
      else if x > - 1 div 10 \<or> (x = - 1 div 10 \<and> of_char c > (48 + unat (- 1 mod 10 :: u64) :: nat)) then None
      else decode_digits (x * 10 + digit_of c) cs)"

definition ldb_decode_int :: "string \<Rightarrow> (u64 \<times> string) option" where
  "ldb_decode_int s =
     (case decode_digits 0 s of
        None \<Rightarrow> None
      | Some (x, rest) \<Rightarrow> if length rest = length s then None else Some (x, rest))"

section \<open>Paths\<close>

fun ldb_starts_with :: "string \<Rightarrow> string \<Rightarrow> bool" where
  "ldb_starts_with _ [] = True"
| "ldb_starts_with [] (_ # _) = False"
| "ldb_starts_with (x # xp) (y # yp) = (if x = y then ldb_starts_with xp yp else False)"

definition ldb_join :: "nat \<Rightarrow> string \<Rightarrow> string \<Rightarrow> string option" where
  "ldb_join zn xp yp = (if length xp + length yp + 2 > zn then None else Some (xp @ ''/'' @ yp))"

definition ldb_basename :: "string \<Rightarrow> string" where
  "ldb_basename fname = rev (takeWhile (\<lambda>c. c \<noteq> CHR ''/'') (rev fname))"

section \<open>File names\<close>

text \<open>The result is \<open>None\<close> for 0, when the path does not fit.  The assertions that numbers are positive are
  the callers' part: the properties below assume them.\<close>

datatype ldb_filetype = FILE_LOG | FILE_LOCK | FILE_TABLE | FILE_DESC | FILE_CURRENT | FILE_TEMP | FILE_INFO

definition make_filename :: "nat \<Rightarrow> string \<Rightarrow> u64 \<Rightarrow> string \<Rightarrow> string option" where
  "make_filename sz dbname num ext = ldb_join sz dbname (ldb_encode_int num 6 @ ''.'' @ ext)"

definition ldb_log_filename :: "nat \<Rightarrow> string \<Rightarrow> u64 \<Rightarrow> string option" where
  "ldb_log_filename sz dbname num = make_filename sz dbname num ''log''"

definition ldb_table_filename :: "nat \<Rightarrow> string \<Rightarrow> u64 \<Rightarrow> string option" where
  "ldb_table_filename sz dbname num = make_filename sz dbname num ''ldb''"

definition ldb_sstable_filename :: "nat \<Rightarrow> string \<Rightarrow> u64 \<Rightarrow> string option" where
  "ldb_sstable_filename sz dbname num = make_filename sz dbname num ''sst''"

definition ldb_desc_filename :: "nat \<Rightarrow> string \<Rightarrow> u64 \<Rightarrow> string option" where
  "ldb_desc_filename sz dbname num = ldb_join sz dbname (''MANIFEST-'' @ ldb_encode_int num 6)"

definition ldb_current_filename :: "nat \<Rightarrow> string \<Rightarrow> string option" where
  "ldb_current_filename sz dbname = ldb_join sz dbname ''CURRENT''"

definition ldb_lock_filename :: "nat \<Rightarrow> string \<Rightarrow> string option" where
  "ldb_lock_filename sz dbname = ldb_join sz dbname ''LOCK''"

definition ldb_temp_filename :: "nat \<Rightarrow> string \<Rightarrow> u64 \<Rightarrow> string option" where
  "ldb_temp_filename sz dbname num = make_filename sz dbname num ''dbtmp''"

definition ldb_info_filename :: "nat \<Rightarrow> string \<Rightarrow> string option" where
  "ldb_info_filename sz dbname = ldb_join sz dbname ''LOG''"

definition ldb_oldinfo_filename :: "nat \<Rightarrow> string \<Rightarrow> string option" where
  "ldb_oldinfo_filename sz dbname = ldb_join sz dbname ''LOG.old''"

definition ldb_parse_filename :: "string \<Rightarrow> (ldb_filetype \<times> u64) option" where
  "ldb_parse_filename name =
     (if name = ''CURRENT'' then Some (FILE_CURRENT, 0)
      else if name = ''LOCK'' then Some (FILE_LOCK, 0)
      else if name = ''LOG'' \<or> name = ''LOG.old'' then Some (FILE_INFO, 0)
      else if ldb_starts_with name ''MANIFEST-'' then
        (case ldb_decode_int (drop 9 name) of
           None \<Rightarrow> None
         | Some (x, rest) \<Rightarrow> if rest \<noteq> [] then None else Some (FILE_DESC, x))
      else
        (case ldb_decode_int name of
           None \<Rightarrow> None
         | Some (x, rest) \<Rightarrow>
             if rest = ''.log'' then Some (FILE_LOG, x)
             else if rest = ''.sst'' \<or> rest = ''.ldb'' then Some (FILE_TABLE, x)
             else if rest = ''.dbtmp'' then Some (FILE_TEMP, x)
             else None))"

section \<open>The decimal codec\<close>

text \<open>The number a string of digits stands for.\<close>

definition digits_value :: "nat \<Rightarrow> string \<Rightarrow> nat" where
  "digits_value = foldl (\<lambda>n c. n * 10 + (of_char c - 48))"

lemma digits_value_simps [simp]:
  "digits_value n [] = n" "digits_value n (c # cs) = digits_value (n * 10 + (of_char c - 48)) cs"
  "digits_value n (xs @ ys) = digits_value (digits_value n xs) ys"
  by (simp_all add: digits_value_def)

lemma digits_value_mono: "n \<le> digits_value n cs"
proof (induction cs arbitrary: n)
  case (Cons c cs)
  have "n \<le> n * 10 + (of_char c - 48)" by simp
  also have "\<dots> \<le> digits_value \<dots> cs" by (rule Cons)
  finally show ?case by simp
qed simp

lemma unat_u64: "unat (x :: u64) < 2 ^ 64"
  using unsigned_less [of x] by simp

lemma limit_values: "(- 1 div 10 :: u64) = 1844674407370955161" "unat (- 1 mod 10 :: u64) = 5"
  by simp_all

lemma unat_word_of_nat: "n < 2 ^ 64 \<Longrightarrow> unat (word_of_nat n :: u64) = n"
  by (simp add: unsigned_of_nat take_bit_nat_eq_self)

lemma nat_check:
  fixes a k :: nat
  assumes "48 \<le> k" "k \<le> 57"
  shows "(1844674407370955161 < a \<or> a = 1844674407370955161 \<and> 48 + 5 < k) \<longleftrightarrow> 2 ^ 64 \<le> a * 10 + (k - 48)"
proof (cases a "1844674407370955161 :: nat" rule: linorder_cases)
  case less
  then show ?thesis using assms by simp
next
  case equal
  then show ?thesis using assms by auto
next
  case greater
  then show ?thesis by simp
qed

text \<open>The check before a digit is added is exact: it fails just when the new value does not fit.\<close>

lemma decode_check:
  assumes "is_digit c"
  shows "((x :: u64) > - 1 div 10 \<or> (x = - 1 div 10 \<and> of_char c > (48 + unat (- 1 mod 10 :: u64) :: nat))) \<longleftrightarrow>
    2 ^ 64 \<le> unat x * 10 + (of_char c - 48)"
proof -
  have d: "48 \<le> (of_char c :: nat)" "of_char c \<le> (57 :: nat)" using assms by (auto simp: is_digit_def)
  have "x > (1844674407370955161 :: u64) \<longleftrightarrow> 1844674407370955161 < unat x" for x by (simp add: word_less_nat_alt)
  moreover have "x = 1844674407370955161 \<longleftrightarrow> unat x = 1844674407370955161" unfolding word_unat_eq_iff by simp
  ultimately show ?thesis unfolding limit_values using nat_check [OF d] by (simp only:)
qed

lemma decode_digits_value:
  "decode_digits x s =
     (let ds = takeWhile is_digit s; n = digits_value (unat x) ds
      in if n < 2 ^ 64 then Some (word_of_nat n, dropWhile is_digit s) else None)"
proof (induction x s rule: decode_digits.induct)
  case (1 x)
  then show ?case using unat_u64 [of x] by (simp add: Let_def)
next
  case (2 x c cs)
  show ?case
  proof (cases "is_digit c")
    case False
    then show ?thesis using unat_u64 [of x] by (simp add: Let_def)
  next
    case True
    let ?n = "unat x * 10 + (of_char c - 48)"
    show ?thesis
    proof (cases "2 ^ 64 \<le> ?n")
      case over: True
      then have "decode_digits x (c # cs) = None" using True decode_check [OF True, of x] by simp
      moreover have "2 ^ 64 \<le> digits_value ?n (takeWhile is_digit cs)" using over digits_value_mono le_trans by blast
      ultimately show ?thesis using True by (simp add: Let_def del: decode_digits.simps)
    next
      case fits: False
      have "x * 10 + digit_of c = word_of_nat ?n" by (simp add: digit_of_def)
      moreover have "unat (word_of_nat ?n :: u64) = ?n" using fits by (intro unat_word_of_nat) simp
      ultimately have "unat (x * 10 + digit_of c) = ?n" by simp
      then show ?thesis using 2 True fits decode_check [OF True, of x] by (auto simp: Let_def)
    qed
  qed
qed

lemma size_int_fits: "unat x < 10 ^ ldb_size_int x"
proof (induction x rule: ldb_size_int.induct)
  case (1 x)
  show ?case
  proof (cases "x div 10 = 0")
    case True
    then have "unat x div 10 = 0" by (metis unat_div10 unat_eq_zero)
    then show ?thesis using True by (simp add: ldb_size_int.simps [of x] div_eq_0_iff)
  next
    case False
    then have "unat x div 10 < 10 ^ ldb_size_int (x div 10)" using 1 unat_div10 [of x] by simp
    then have "unat x < 10 * 10 ^ ldb_size_int (x div 10)" by (simp add: div_less_iff_less_mult mult.commute)
    then show ?thesis using False by (simp add: ldb_size_int.simps [of x])
  qed
qed

lemma digit_char: "is_digit (char_of (48 + unat (x mod 10 :: u64)))" "of_char (char_of (48 + unat (x mod 10 :: u64))) = (48 + unat (x mod 10) :: nat)"
proof -
  have "unat (x mod 10) = unat x mod 10" by (simp add: unat_mod)
  then have "unat (x mod 10) < 10" by simp
  then show "of_char (char_of (48 + unat (x mod 10 :: u64))) = (48 + unat (x mod 10) :: nat)" by simp
  then show "is_digit (char_of (48 + unat (x mod 10 :: u64)))" using \<open>unat (x mod 10) < 10\<close> by (simp add: is_digit_def)
qed

lemma encode_digits_digits: "set (encode_digits n x) \<subseteq> Collect is_digit" "length (encode_digits n x) = n"
  by (induction n arbitrary: x) (use digit_char(1) in auto)

lemma encode_digits_value: "unat x < 10 ^ n \<Longrightarrow> digits_value 0 (encode_digits n x) = unat x"
proof (induction n arbitrary: x)
  case (Suc n)
  have "unat (x div 10) < 10 ^ n" using Suc.prems unat_div10 [of x] by (simp add: div_less_iff_less_mult mult.commute)
  then show ?case using Suc.IH digit_char(2) [of x] by (simp add: unat_div unat_mod)
qed simp

lemma encode_int_ok:
  "set (ldb_encode_int x pad) \<subseteq> Collect is_digit" "ldb_encode_int x pad \<noteq> []" "digits_value 0 (ldb_encode_int x pad) = unat x"
proof -
  let ?n = "if ldb_size_int x < pad then pad else ldb_size_int x"
  have e: "ldb_encode_int x pad = encode_digits ?n x" by (simp add: ldb_encode_int_def Let_def)
  have pos: "0 < ldb_size_int x" by (simp add: ldb_size_int.simps [of x])
  have "10 ^ ldb_size_int x \<le> (10 :: nat) ^ ?n" by (intro power_increasing) auto
  then have "unat x < 10 ^ ?n" by (rule order.strict_trans2 [OF size_int_fits])
  then show "set (ldb_encode_int x pad) \<subseteq> Collect is_digit" "digits_value 0 (ldb_encode_int x pad) = unat x"
    unfolding e using encode_digits_digits encode_digits_value by blast+
  show "ldb_encode_int x pad \<noteq> []" unfolding e using encode_digits_digits(2) [of ?n x] pos by (metis gr_implies_not0 leI length_0_conv not_less0)
qed

lemma take_digits:
  assumes "set ds \<subseteq> Collect is_digit" "rest = [] \<or> \<not> is_digit (hd rest)"
  shows "takeWhile is_digit (ds @ rest) = ds" "dropWhile is_digit (ds @ rest) = rest"
proof -
  have "takeWhile is_digit rest = []" "dropWhile is_digit rest = rest" using assms(2) by (cases rest; auto)+
  then show "takeWhile is_digit (ds @ rest) = ds" "dropWhile is_digit (ds @ rest) = rest"
    using assms(1) by (auto simp: takeWhile_append2 dropWhile_append2 subset_iff)
qed

text \<open>A number that was written is read back, whatever the padding, and the rest is left.\<close>

lemma decode_encode:
  assumes "rest = [] \<or> \<not> is_digit (hd rest)"
  shows "ldb_decode_int (ldb_encode_int x pad @ rest) = Some (x, rest)"
  using encode_int_ok [of x pad] take_digits [OF encode_int_ok(1) assms, of x pad] unat_u64 [of x]
  by (simp add: ldb_decode_int_def decode_digits_value Let_def)

section \<open>Names and their meaning\<close>

lemma join_Some: "ldb_join sz db name = Some p \<longleftrightarrow> length db + length name + 2 \<le> sz \<and> p = db @ ''/'' @ name"
  by (auto simp: ldb_join_def)

lemma basename_join: "CHR ''/'' \<notin> set name \<Longrightarrow> ldb_basename (db @ ''/'' @ name) = name"
proof -
  assume "CHR ''/'' \<notin> set name"
  then have "takeWhile (\<lambda>c. c \<noteq> CHR ''/'') (rev name @ CHR ''/'' # rev db) = rev name @ takeWhile (\<lambda>c. c \<noteq> CHR ''/'') (CHR ''/'' # rev db)"
    by (intro takeWhile_append2) auto
  then show ?thesis by (simp add: ldb_basename_def)
qed

lemma digit_not_slash: "is_digit c \<Longrightarrow> c \<noteq> CHR ''/''"
  by (auto simp: is_digit_def)

lemma encode_no_slash: "CHR ''/'' \<notin> set (ldb_encode_int x pad)"
  using encode_int_ok(1) [of x pad] digit_not_slash by blast

lemma encode_first: "\<exists>d ds. ldb_encode_int x pad = d # ds \<and> is_digit d"
  using encode_int_ok(1,2) [of x pad] by (cases "ldb_encode_int x pad") auto

lemma starts_with_iff: "ldb_starts_with xp yp \<longleftrightarrow> (\<exists>zs. xp = yp @ zs)"
  by (induction xp yp rule: ldb_starts_with.induct) auto

text \<open>A name that starts with a digit is not one of the fixed names.\<close>

lemma parse_numbered:
  "ldb_parse_filename (ldb_encode_int num pad @ CHR ''.'' # ext) =
    (if ext = ''log'' then Some (FILE_LOG, num) else if ext = ''sst'' \<or> ext = ''ldb'' then Some (FILE_TABLE, num)
     else if ext = ''dbtmp'' then Some (FILE_TEMP, num) else None)"
proof -
  obtain d ds where d: "ldb_encode_int num pad = d # ds" "is_digit d" using encode_first by blast
  have "d \<noteq> CHR ''C''" "d \<noteq> CHR ''L''" "d \<noteq> CHR ''M''" using d(2) by (auto simp: is_digit_def)
  moreover have "\<not> is_digit (CHR ''.'')" by (simp add: is_digit_def)
  then have "ldb_decode_int (ldb_encode_int num pad @ CHR ''.'' # ext) = Some (num, CHR ''.'' # ext)" by (intro decode_encode) simp
  ultimately show ?thesis using d(1) by (simp add: ldb_parse_filename_def)
qed

lemma parse_manifest: "ldb_parse_filename (''MANIFEST-'' @ ldb_encode_int num pad) = Some (FILE_DESC, num)"
  using decode_encode [of "[]" num pad] by (simp add: ldb_parse_filename_def)

text \<open>C26: for every positive number and every directory, the path of a log, of a table under either
  extension, of a temporary file and of a descriptor, and the paths of the files with fixed names, are made
  exactly when they fit the buffer with their terminator, and are the directory, a slash and the name; the last part
  of each path is parsed as a file of the kind it was made for and with the very number it was made from, so that the
  kinds are told apart.\<close>

theorem filename_roundtrip:
  assumes "0 < num"
  shows "(\<forall>(f, name, type) \<in>
      {(ldb_log_filename, ldb_encode_int num 6 @ ''.log'', FILE_LOG), (ldb_table_filename, ldb_encode_int num 6 @ ''.ldb'', FILE_TABLE),
       (ldb_sstable_filename, ldb_encode_int num 6 @ ''.sst'', FILE_TABLE), (ldb_temp_filename, ldb_encode_int num 6 @ ''.dbtmp'', FILE_TEMP),
       (ldb_desc_filename, ''MANIFEST-'' @ ldb_encode_int num 6, FILE_DESC)}.
      let path = db @ ''/'' @ name
      in f sz db num = (if length path + 1 \<le> sz then Some path else None) \<and> ldb_parse_filename (ldb_basename path) = Some (type, num)) \<and>
    (\<forall>(f, name, type) \<in>
      {(ldb_current_filename, ''CURRENT'', FILE_CURRENT), (ldb_lock_filename, ''LOCK'', FILE_LOCK), (ldb_info_filename, ''LOG'', FILE_INFO),
       (ldb_oldinfo_filename, ''LOG.old'', FILE_INFO)}.
      let path = db @ ''/'' @ name
      in f sz db = (if length path + 1 \<le> sz then Some path else None) \<and> ldb_parse_filename (ldb_basename path) = Some (type, 0))"
proof -
  have base: "ldb_basename (db @ ''/'' @ name) = name" if "CHR ''/'' \<notin> set name" for name
    using that basename_join by simp
  have digits: "CHR ''/'' \<notin> set (ldb_encode_int num 6)" using encode_no_slash by simp
  have made: "make_filename sz db num ext = (if length (db @ ''/'' @ ldb_encode_int num 6 @ ''.'' @ ext) + 1 \<le> sz
      then Some (db @ ''/'' @ ldb_encode_int num 6 @ ''.'' @ ext) else None)" for ext
    by (simp add: make_filename_def ldb_join_def)
  have fixed: "ldb_join sz db name = (if length (db @ ''/'' @ name) + 1 \<le> sz then Some (db @ ''/'' @ name) else None)" for name
    by (simp add: ldb_join_def)
  have manifest: "ldb_parse_filename (''MANIFEST-'' @ ldb_encode_int num 6) = Some (FILE_DESC, num)" by (rule parse_manifest)
  have names: "ldb_parse_filename ''CURRENT'' = Some (FILE_CURRENT, 0)" "ldb_parse_filename ''LOCK'' = Some (FILE_LOCK, 0)"
    "ldb_parse_filename ''LOG'' = Some (FILE_INFO, 0)" "ldb_parse_filename ''LOG.old'' = Some (FILE_INFO, 0)"
    by (simp_all add: ldb_parse_filename_def)
  show ?thesis
    using digits made fixed parse_numbered [of num 6] manifest names base [of "ldb_encode_int num 6 @ ''.log''"]
      base [of "ldb_encode_int num 6 @ ''.ldb''"] base [of "ldb_encode_int num 6 @ ''.sst''"] base [of "ldb_encode_int num 6 @ ''.dbtmp''"]
      base [of "''MANIFEST-'' @ ldb_encode_int num 6"] base [of "''CURRENT''"] base [of "''LOCK''"] base [of "''LOG''"] base [of "''LOG.old''"]
    by (simp add: ldb_log_filename_def ldb_table_filename_def ldb_sstable_filename_def ldb_temp_filename_def ldb_desc_filename_def
        ldb_current_filename_def ldb_lock_filename_def ldb_info_filename_def ldb_oldinfo_filename_def)
qed

theorem filename_roundtrip_witness:
  "ldb_table_filename 1024 ''db'' 7 = Some ''db/000007.ldb'' \<and> ldb_parse_filename (ldb_basename ''db/000007.ldb'') = Some (FILE_TABLE, 7)"
proof -
  have "ldb_encode_int 7 6 = ''000007''" by code_simp
  then show ?thesis using filename_roundtrip [of 7 "''db''" 1024] by (simp add: Let_def)
qed

end
