(* ===== verification/Table_Cache.thy ===== *)
theory Table_Cache
  imports Table Lru_Cache Filename "HOL-Library.Multiset"
begin

text \<open>
  The two users of the LRU cache: the blocks of a table (\<^verbatim>\<open>engine/src/table/table.c\<close>) and the
  cache of open tables (\<^verbatim>\<open>engine/src/table_cache.c\<close>).  The LRU cache is shown to be a block store
  as the lookups of a table need it.
\<close>

section \<open>The block cache of a table\<close>

definition lru_block_cache :: "(ldb_block ldb_lru, ldb_entry) block_cache" where
  "lru_block_cache =
     \<lparr>bc_lookup = \<lambda>lru key.
        (case ldb_lru_lookup lru key of
           (None, lru) \<Rightarrow> (None, lru)
         | (Some h, lru) \<Rightarrow> (map_option (\<lambda>block. (block, h)) (ldb_lru_value lru h), lru)),
      bc_insert = \<lambda>lru key block charge. ldb_lru_insert lru key block (word_of_nat charge),
      bc_release = ldb_lru_release\<rparr>"

text \<open>
  A cache that its operations made, whose clients hold the handles \<open>H\<close> and maybe others, and that has
  room for \<open>n\<close> more handles.
\<close>

definition lru_cinv :: "nat \<Rightarrow> 'v ldb_lru \<Rightarrow> ldb_entry list \<Rightarrow> bool" where
  "lru_cinv n lru H \<longleftrightarrow> (\<exists>hs. run_inv (lru, hs, cache_map lru) \<and> length hs + n \<le> 2 ^ 31 \<and> mset H \<subseteq># mset (map fst hs))"

definition lru_fit :: "'v ldb_lru \<Rightarrow> bool" where
  "lru_fit lru \<longleftrightarrow> (\<exists>hs. run_inv (lru, hs, cache_map lru) \<and> length hs < 2 ^ 31)"

definition lru_held :: "'v ldb_lru \<Rightarrow> (bytes \<times> 'v) set" where
  "lru_held lru = {(k, v). cache_map lru k = Some v}"

lemma lru_fit_cinv: "lru_cinv 1 lru [] \<longleftrightarrow> lru_fit lru"
  by (auto simp: lru_cinv_def lru_fit_def Suc_le_eq)

lemma run_inv_self: "run_inv (lru, hs, m) \<Longrightarrow> run_inv (lru, hs, cache_map lru) \<and> lru_held lru \<subseteq> {(k, v). m k = Some v}"
  by (auto simp: lru_held_def run_inv_def map_le_def dom_def)

lemma run_inv_fit: "run_inv (lru, hs, m) \<Longrightarrow> length hs < 2 ^ 31 \<Longrightarrow> lru_fit lru \<and> lru_held lru \<subseteq> {(k, v). m k = Some v}"
  using run_inv_self by (auto simp: lru_fit_def)

lemma run_inv_cinv:
  "run_inv (lru, hs, m) \<Longrightarrow> length hs + n \<le> 2 ^ 31 \<Longrightarrow> mset H \<subseteq># mset (map fst hs) \<Longrightarrow>
   lru_cinv n lru H \<and> lru_held lru \<subseteq> {(k, v). m k = Some v}"
  using run_inv_self unfolding lru_cinv_def by blast

lemma release_first: "run_inv (lru, (h, k, v) # hs, m) \<Longrightarrow> run_inv (ldb_lru_release lru h, hs, m)"
  using release_inv [of lru "(h, k, v) # hs" m h k v] by simp

lemma lru_lookup_held:
  assumes "lru_cinv (Suc n) lru H" "bc_lookup lru_block_cache lru k = (r, lru')"
  shows "lru_held lru' \<subseteq> lru_held lru \<and>
    (case r of None \<Rightarrow> lru_cinv (Suc n) lru' H | Some (b, h) \<Rightarrow> lru_cinv n lru' (h # H) \<and> (k, b) \<in> lru_held lru)"
proof -
  obtain hs where inv: "run_inv (lru, hs, cache_map lru)" and room: "length hs + Suc n \<le> 2 ^ 31" and H: "mset H \<subseteq># mset (map fst hs)"
    using assms(1) by (auto simp: lru_cinv_def)
  obtain h lru1 where l1: "ldb_lru_lookup lru k = (h, lru1)" by fastforce
  have "length hs \<le> 2 ^ 31" using room by simp
  note look = lookup_inv [OF inv l1 this]
  show ?thesis
  proof (cases h)
    case None
    then have "run_inv (lru', hs, cache_map lru)" "r = None" using look assms(2) l1 by (auto simp: lru_block_cache_def)
    then show ?thesis using run_inv_cinv [OF _ room H, of lru' "cache_map lru"] by (auto simp: lru_held_def)
  next
    case (Some x)
    then obtain v where v: "cache_map lru k = Some v" "ldb_lru_value lru1 x = Some v" "run_inv (lru1, (x, k, v) # hs, cache_map lru)"
      using look by auto
    have "r = Some (v, x)" "lru' = lru1" using assms(2) l1 Some v(2) by (simp_all add: lru_block_cache_def)
    moreover have "length ((x, k, v) # hs) + n \<le> 2 ^ 31" "mset (x # H) \<subseteq># mset (map fst ((x, k, v) # hs))" using room H by simp_all
    ultimately show ?thesis using run_inv_cinv [OF v(3), of n "x # H"] v(1) by (auto simp: lru_held_def)
  qed
qed

lemma lru_insert_held:
  assumes "lru_cinv (Suc n) lru H" "bc_insert lru_block_cache lru k b charge = (h, lru')"
  shows "lru_cinv n lru' (h # H) \<and> lru_held lru' \<subseteq> insert (k, b) (lru_held lru)"
proof -
  obtain hs where inv: "run_inv (lru, hs, cache_map lru)" and room: "length hs + Suc n \<le> 2 ^ 31" and H: "mset H \<subseteq># mset (map fst hs)"
    using assms(1) by (auto simp: lru_cinv_def)
  have "ldb_lru_insert lru k b (word_of_nat charge) = (h, lru')" using assms(2) by (simp add: lru_block_cache_def)
  from insert_inv [OF inv this] have "run_inv (lru', (h, k, b) # hs, (cache_map lru)(k \<mapsto> b))" .
  from run_inv_cinv [OF this, of n "h # H"] show ?thesis
    using room H by (fastforce simp: lru_held_def split: if_splits)
qed

lemma lru_release_held:
  assumes "lru_cinv n lru H" "h \<in> set H"
  shows "lru_cinv (Suc n) (bc_release lru_block_cache lru h) (remove1 h H) \<and> lru_held (bc_release lru_block_cache lru h) \<subseteq> lru_held lru"
proof -
  obtain hs where inv: "run_inv (lru, hs, cache_map lru)" and room: "length hs + n \<le> 2 ^ 31" and H: "mset H \<subseteq># mset (map fst hs)"
    using assms(1) by (auto simp: lru_cinv_def)
  have "h \<in> set (map fst hs)" using set_mset_mono [OF H] assms(2) by auto
  then obtain k v where hkv: "(h, k, v) \<in> set hs" by auto
  have rel: "run_inv (ldb_lru_release lru h, remove1 (h, k, v) hs, cache_map lru)" by (rule release_inv [OF inv hkv])
  have "{#(h, k, v)#} \<subseteq># mset hs" using hkv by simp
  from image_mset_Diff [OF this, of fst] have "mset (map fst (remove1 (h, k, v) hs)) = mset (map fst hs) - {#h#}" by simp
  then have sub: "mset (remove1 h H) \<subseteq># mset (map fst (remove1 (h, k, v) hs))"
    using H by (simp add: subseteq_mset_def diff_le_mono)
  have len: "length (remove1 (h, k, v) hs) = length hs - 1" using hkv by (simp add: length_remove1)
  have "length (remove1 (h, k, v) hs) + Suc n \<le> 2 ^ 31"
    using room length_pos_if_in_set [OF hkv] unfolding len by linarith
  from run_inv_cinv [OF rel this sub] show ?thesis by (simp add: lru_block_cache_def lru_held_def)
qed

interpretation lru_blocks: block_store lru_block_cache lru_cinv lru_held
  by unfold_locales (rule lru_lookup_held lru_insert_held lru_release_held; assumption)+

text \<open>What the other users of the cache do: prune it, erase an entry, bring a block of another table.\<close>

lemma others_lru:
  assumes "\<And>lru hs. run_inv (lru, hs, cache_map lru) \<Longrightarrow> run_inv (f lru, hs, m lru)"
    and "\<And>lru off b. m lru (ldb_fixed64_write (case new_id of None \<Rightarrow> 0 | Some i \<Rightarrow> i) @ off) = Some b \<Longrightarrow>
      cache_map lru (ldb_fixed64_write (case new_id of None \<Rightarrow> 0 | Some i \<Rightarrow> i) @ off) = Some b"
  shows "others_ok lru_cinv lru_held new_id f"
  unfolding others_ok_def
proof (intro allI impI conjI)
  fix n H and c :: "ldb_block ldb_lru" assume "lru_cinv n c H"
  then obtain hs where hs: "run_inv (c, hs, cache_map c)" "length hs + n \<le> 2 ^ 31" "mset H \<subseteq># mset (map fst hs)" by (auto simp: lru_cinv_def)
  note ok = run_inv_cinv [OF assms(1) [OF hs(1)] hs(2,3)]
  then show "lru_cinv n (f c) H" by blast
  fix off b assume "(ldb_fixed64_write (case new_id of None \<Rightarrow> 0 | Some i \<Rightarrow> i) @ off, b) \<in> lru_held (f c)"
  then have "m c (ldb_fixed64_write (case new_id of None \<Rightarrow> 0 | Some i \<Rightarrow> i) @ off) = Some b" using ok by blast
  then show "(ldb_fixed64_write (case new_id of None \<Rightarrow> 0 | Some i \<Rightarrow> i) @ off, b) \<in> lru_held c"
    unfolding lru_held_def using assms(2) by blast
qed

lemma others_uses:
  "others_ok lru_cinv lru_held new_id ldb_lru_prune" "others_ok lru_cinv lru_held new_id (\<lambda>lru. ldb_lru_erase lru k)"
  "(\<And>off. k \<noteq> ldb_fixed64_write (case new_id of None \<Rightarrow> 0 | Some i \<Rightarrow> i) @ off) \<Longrightarrow>
   others_ok lru_cinv lru_held new_id (\<lambda>lru. case ldb_lru_insert lru k b n of (h, lru) \<Rightarrow> ldb_lru_release lru h)"
proof -
  show "others_ok lru_cinv lru_held new_id ldb_lru_prune" by (rule others_lru [where m = cache_map]) (rule prune_inv)
  show "others_ok lru_cinv lru_held new_id (\<lambda>lru. ldb_lru_erase lru k)"
    by (rule others_lru [where m = "\<lambda>lru. (cache_map lru)(k := None)"]) (rule erase_inv, auto split: if_splits)
  show "others_ok lru_cinv lru_held new_id (\<lambda>lru. case ldb_lru_insert lru k b n of (h, lru) \<Rightarrow> ldb_lru_release lru h)"
    if "\<And>off. k \<noteq> ldb_fixed64_write (case new_id of None \<Rightarrow> 0 | Some i \<Rightarrow> i) @ off"
    using that by (intro others_lru [where m = "\<lambda>lru. (cache_map lru)(k \<mapsto> b)"])
      (auto split: prod.split if_splits intro: release_first insert_inv)
qed

lemma created_fit: "lru_fit (ldb_lru_create capacity)" "lru_held (ldb_lru_create capacity) = {}"
  using run_inv_fit [OF create_inv [of capacity]] by auto

section \<open>The cache of open tables\<close>

text \<open>
  \<open>randfile\<close> opens a file for random access, or fails with a status; it stands for the
  environment, with the flag \<open>use_mmap\<close> of the options.  The id that opening a table draws
  from the block cache is an argument, as for \<open>ldb_table_open\<close>.
\<close>

definition LDB_PATH_MAX :: nat where
  "LDB_PATH_MAX = 1024"

record table_entry =
  te_file :: ldb_rfile
  te_table :: ldb_table

record ldb_tables =
  tc_dbname :: string
  tc_options :: ldb_dbopt
  tc_lru :: "table_entry ldb_lru"

definition ldb_tables_create :: "string \<Rightarrow> ldb_dbopt \<Rightarrow> u32 \<Rightarrow> ldb_tables" where
  "ldb_tables_create dbname options entries = \<lparr>tc_dbname = dbname, tc_options = options, tc_lru = ldb_lru_create (scast entries)\<rparr>"

definition ldb_tables_destroy :: "ldb_tables \<Rightarrow> table_entry ldb_lru" where
  "ldb_tables_destroy cache = ldb_lru_destroy (tc_lru cache)"

text \<open>The file of a table, under its new name or else under the old one; the error is the first one.\<close>

definition open_table_file :: "(string \<Rightarrow> status + ldb_rfile) \<Rightarrow> string \<Rightarrow> u64 \<Rightarrow> status + ldb_rfile" where
  "open_table_file randfile dbname file_number =
     (case ldb_table_filename LDB_PATH_MAX dbname file_number of
        None \<Rightarrow> Inl INVALID
      | Some fname \<Rightarrow>
          (case randfile fname of
             Inr file \<Rightarrow> Inr file
           | Inl rc \<Rightarrow>
               (case ldb_sstable_filename LDB_PATH_MAX dbname file_number of
                  None \<Rightarrow> Inl INVALID
                | Some fname \<Rightarrow> (case randfile fname of Inr file \<Rightarrow> Inr file | Inl _ \<Rightarrow> Inl rc))))"

definition find_table :: "(string \<Rightarrow> status + ldb_rfile) \<Rightarrow> ldb_tables \<Rightarrow> u64 \<Rightarrow> u64 \<Rightarrow> u64 option \<Rightarrow>
    ((status + ldb_entry) \<times> ldb_tables) option" where
  "find_table randfile cache file_number file_size new_id =
     (let key = ldb_fixed64_write file_number in
      case ldb_lru_lookup (tc_lru cache) key of
        (Some handle, lru) \<Rightarrow> Some (Inr handle, cache\<lparr>tc_lru := lru\<rparr>)
      | (None, lru) \<Rightarrow>
          (let cache = cache\<lparr>tc_lru := lru\<rparr> in
           case open_table_file randfile (tc_dbname cache) file_number of
             Inl rc \<Rightarrow> Some (Inl rc, cache)
           | Inr file \<Rightarrow>
               Option.bind (ldb_table_open (tc_options cache) file (unat file_size) new_id) (\<lambda>r.
                 case r of
                   Inl rc \<Rightarrow> Some (Inl rc, cache)
                 | Inr table \<Rightarrow>
                     (case ldb_lru_insert (tc_lru cache) key \<lparr>te_file = file, te_table = table\<rparr> 1 of
                        (handle, lru) \<Rightarrow> Some (Inr handle, cache\<lparr>tc_lru := lru\<rparr>)))))"

text \<open>
  The iterator, and the handle that its cleanup releases.  A handle always has a value: were it
  dangling, the model would stop.
\<close>

definition ldb_tables_iterate :: "(string \<Rightarrow> status + ldb_rfile) \<Rightarrow> ('c, 'h) block_cache \<Rightarrow> ldb_tables \<Rightarrow> ldb_readopt \<Rightarrow> u64 \<Rightarrow> u64 \<Rightarrow>
    u64 option \<Rightarrow> 'c option \<Rightarrow> ((ldb_emptyiter + ('c, 'h) ldb_tableiter) \<times> ldb_entry option \<times> ldb_tables) option" where
  "ldb_tables_iterate randfile ops cache options file_number file_size new_id block_cache =
     Option.bind (find_table randfile cache file_number file_size new_id) (\<lambda>(r, cache).
       case r of
         Inl rc \<Rightarrow> Some (Inl (ldb_emptyiter_create rc), None, cache)
       | Inr handle \<Rightarrow>
           map_option (\<lambda>entry. (Inr (ldb_tableiter_create ops (te_table entry) options block_cache), Some handle, cache))
             (ldb_lru_value (tc_lru cache) handle))"

definition ldb_tables_get :: "(string \<Rightarrow> status + ldb_rfile) \<Rightarrow> ('c, 'h) block_cache \<Rightarrow> ldb_tables \<Rightarrow> ldb_readopt \<Rightarrow> u64 \<Rightarrow> u64 \<Rightarrow> u64 option \<Rightarrow>
    'c option \<Rightarrow> bytes \<Rightarrow> (status \<times> (bytes \<times> bytes) option \<times> 'c option \<times> ldb_tables) option" where
  "ldb_tables_get randfile ops cache options file_number file_size new_id block_cache k =
     Option.bind (find_table randfile cache file_number file_size new_id) (\<lambda>(r, cache).
       case r of
         Inl rc \<Rightarrow> Some (rc, None, block_cache, cache)
       | Inr handle \<Rightarrow>
           Option.bind (ldb_lru_value (tc_lru cache) handle) (\<lambda>entry.
           Option.bind (ldb_table_internal_get ops (te_table entry) options block_cache k) (\<lambda>(rc, result, block_cache).
             Some (rc, result, block_cache, cache\<lparr>tc_lru := ldb_lru_release (tc_lru cache) handle\<rparr>))))"

definition ldb_tables_evict :: "ldb_tables \<Rightarrow> u64 \<Rightarrow> ldb_tables" where
  "ldb_tables_evict cache file_number = cache\<lparr>tc_lru := ldb_lru_erase (tc_lru cache) (ldb_fixed64_write file_number)\<rparr>"

section \<open>Iterators through the block cache\<close>

text \<open>C11: a table that is built from sorted entries, with any block size, compression and filter, is
  finished without error; opened from a file with its bytes, its iterator, under any program
  of moves that starts with one that positions it, shows the entry that a cursor in the list of entries shows.
  So it is without a block cache, and with the LRU block cache, which holds whatever it holds of other
  tables but nothing under the fresh id of this one and has room for two handles, also when others use the cache
  between the moves, as long as they leave this iterator's handles and room and put nothing new under its id; and
  when the iterator is destroyed it has released its handles.\<close>

theorem table_iterator_refines_cursor:
  assumes "reliable_file ops content" "table_order c" "op_comparator options = c" "name_fits options"
    and "0 < op_block_restart_interval options" "content file = []"
    and "sorted_wrt (\<lambda>x y. ldb_compare c (fst x) (fst y) < 0) es" "\<forall>e \<in> set es. table_key c (fst e)"
    and "entries_size es + 8 < 2 ^ 30" "\<forall>(_, mv) \<in> set steps. move_ok (table_key c) mv"
  shows "\<exists>tb tb'. tablegen_add_all ops (ldb_tablegen_create options file) es = Some tb \<and>
    ldb_tablegen_finish ops tb = Some (OK, tb') \<and> ldb_tablegen_entries tb' = length es \<and>
    ldb_tablegen_size tb' = length (content (tg_file tb')) \<and>
    (op_filter_policy options = None \<longrightarrow> ldb_tablegen_size tb' \<le> 3 * entries_size es + 100) \<and>
    (\<forall>rf new_id ro cache k. file_holds rf (content (tg_file tb')) \<longrightarrow> ldb_tablegen_size tb' < 2 ^ 64 \<longrightarrow>
       fresh_cache (lru_cinv 2) lru_held new_id cache \<longrightarrow> (\<forall>(others, _) \<in> set steps. others_ok lru_cinv lru_held new_id others) \<longrightarrow>
       run_moves (cursor_move (\<lambda>x y. ldb_compare c x y < 0) es) (map snd steps) (length es) = Some k \<longrightarrow>
       (\<exists>table it. ldb_table_open options rf (ldb_tablegen_size tb') new_id = Some (Inr table) \<and>
          tableiter_run steps (ldb_tableiter_create lru_block_cache table ro cache) = Some it \<and>
          tableiter_entry it = cursor_entry es k \<and> (\<forall>lru. ldb_twoiter_clear it = Some lru \<longrightarrow> lru_cinv 2 lru [])))"
proof -
  obtain tb tb' ps ks m x where b: "tablegen_add_all ops (ldb_tablegen_create options file) es = Some tb"
    "ldb_tablegen_finish ops tb = Some (OK, tb')" "concat (map fst ps) = es"
    "table_layout options (content (tg_file tb')) ps ks m x" "ldb_tablegen_size tb' = length (content (tg_file tb'))"
    "ldb_tablegen_entries tb' = length es"
    using reliable_file.build_ok [OF assms(1-4,6-9)] by blast
  have reads: "\<exists>table it. ldb_table_open options rf (ldb_tablegen_size tb') new_id = Some (Inr table) \<and>
          tableiter_run steps (ldb_tableiter_create lru_block_cache table ro cache) = Some it \<and>
          tableiter_entry it = cursor_entry es k \<and> (\<forall>lru. ldb_twoiter_clear it = Some lru \<longrightarrow> lru_cinv 2 lru [])"
    if "file_holds rf (content (tg_file tb'))" "ldb_tablegen_size tb' < 2 ^ 64" "fresh_cache (lru_cinv 2) lru_held new_id cache"
      "\<forall>(others, _) \<in> set steps. others_ok lru_cinv lru_held new_id others"
      "run_moves (cursor_move (\<lambda>x y. ldb_compare c x y < 0) es) (map snd steps) (length es) = Some k" for rf new_id ro cache k
  proof -
    have tf: "table_file options rf (content (tg_file tb')) es ps ks m x"
      using table_file_built [OF b(4,3)] that assms(3,5,7-9) b(5) by simp
    have world: "world_ok lru_cinv lru_held (opened options rf new_id ps ks m) ps 2 [] cache"
      by (rule fresh_world [where cinv = lru_cinv and n = 2, OF that(3)])
    have others: "\<forall>f \<in> fst ` set steps. others_ok lru_cinv lru_held new_id f" "\<forall>mv \<in> snd ` set steps. move_ok (table_key c) mv"
      using that(4) assms(10) by auto
    note at = table_order.tableiter_at [OF assms(2) tf assms(3) lru_blocks.block_store_axioms world, of ro]
    show ?thesis
      using table_opened [OF tf assms(4), of new_id] b(5)
        table_order.tableiter_run_at [OF assms(2) tf assms(3) lru_blocks.block_store_axioms others(1) that(5) others(2) at]
      by (auto simp: world_ok_def)
  qed
  have "op_filter_policy options = None \<longrightarrow> ldb_tablegen_size tb' \<le> 3 * entries_size es + 100"
    using finished_size [OF b(4)] b(3,5) by simp
  then show ?thesis
    using b reads by (intro exI [of _ tb] exI [of _ tb'] conjI allI impI) simp_all
qed

lemma created_cinv: "n \<le> 2 ^ 31 \<Longrightarrow> lru_cinv n (ldb_lru_create capacity) []"
  using create_inv [of capacity] run_inv_cinv by fastforce

theorem table_iterator_refines_cursor_witness:
  "\<exists>tb tb' table it.
     tablegen_add_all \<lparr>wf_append = \<lambda>f d. (OK, f @ d), wf_flush = \<lambda>f. (OK, f)\<rparr>
       (ldb_tablegen_create (small_blocks bytewise_comparator) []) [([97], [1]), ([98], [2])] = Some tb \<and>
     ldb_tablegen_finish \<lparr>wf_append = \<lambda>f d. (OK, f @ d), wf_flush = \<lambda>f. (OK, f)\<rparr> tb = Some (OK, tb') \<and>
     ldb_table_open (small_blocks bytewise_comparator) (file_of (tg_file tb')) (ldb_tablegen_size tb') (Some 1) = Some (Inr table) \<and>
     tableiter_run [(id, To_First), (ldb_lru_prune, To_Next)]
       (ldb_tableiter_create lru_block_cache table ldb_readopt_default (Some (ldb_lru_create 1024))) = Some it \<and>
     tableiter_entry it = Some ([98], [2])"
proof -
  let ?ops = "\<lparr>wf_append = \<lambda>f d. (OK, f @ d), wf_flush = \<lambda>f. (OK, f)\<rparr> :: bytes wfile_ops"
  let ?es = "[([97], [1]), ([98], [2])] :: (bytes \<times> bytes) list"
  let ?steps = "[(id, To_First), (ldb_lru_prune, To_Next)] :: ((ldb_block ldb_lru \<Rightarrow> ldb_block ldb_lru) \<times> iter_move) list"
  let ?lru = "ldb_lru_create 1024 :: ldb_block ldb_lru"
  have others: "\<forall>(others, _) \<in> set ?steps. others_ok lru_cinv lru_held (Some 1) others"
    using others_uses(1) [of "Some 1"] by (simp add: others_ok_def)
  have fresh: "fresh_cache (lru_cinv 2) lru_held (Some 1) (Some ?lru)"
    using created_cinv [of 2 1024] by (simp add: fresh_cache_def created_fit(2))
  obtain tb tb' where t: "tablegen_add_all ?ops (ldb_tablegen_create (small_blocks bytewise_comparator) []) ?es = Some tb"
    "ldb_tablegen_finish ?ops tb = Some (OK, tb')" "ldb_tablegen_size tb' = length (tg_file tb')" "length (tg_file tb') < 2 ^ 64"
    and reads: "\<forall>rf new_id ro cache k. file_holds rf (tg_file tb') \<longrightarrow> ldb_tablegen_size tb' < 2 ^ 64 \<longrightarrow>
       fresh_cache (lru_cinv 2) lru_held new_id cache \<longrightarrow> (\<forall>(others, _) \<in> set ?steps. others_ok lru_cinv lru_held new_id others) \<longrightarrow>
       run_moves (cursor_move (\<lambda>x y. ldb_compare bytewise_comparator x y < 0) ?es) (map snd ?steps) (length ?es) = Some k \<longrightarrow>
       (\<exists>table it. ldb_table_open (small_blocks bytewise_comparator) rf (ldb_tablegen_size tb') new_id = Some (Inr table) \<and>
          tableiter_run ?steps (ldb_tableiter_create lru_block_cache table ro cache) = Some it \<and>
          tableiter_entry it = cursor_entry ?es k \<and> (\<forall>lru. ldb_twoiter_clear it = Some lru \<longrightarrow> lru_cinv 2 lru []))"
    using table_iterator_refines_cursor [OF buffer_file.reliable_file_axioms bytewise_table.table_order_axioms,
        of "small_blocks bytewise_comparator" "[]" ?es ?steps] two_keys by auto
  have step: "run_moves (cursor_move (\<lambda>x y. ldb_compare bytewise_comparator x y < 0) ?es) (map snd ?steps) (length ?es) = Some (Suc 0)"
    by simp
  have sz: "ldb_tablegen_size tb' < 2 ^ 64" using t(3,4) by simp
  obtain table it where "ldb_table_open (small_blocks bytewise_comparator) (file_of (tg_file tb')) (ldb_tablegen_size tb') (Some 1) = Some (Inr table)"
    "tableiter_run ?steps (ldb_tableiter_create lru_block_cache table ldb_readopt_default (Some ?lru)) = Some it"
    "tableiter_entry it = cursor_entry ?es (Suc 0)"
    using reads [THEN spec [of _ "file_of (tg_file tb')"], THEN spec [of _ "Some 1"], THEN spec [of _ ldb_readopt_default],
      THEN spec [of _ "Some ?lru"], THEN spec [of _ "Suc 0"], THEN mp [OF _ file_holds_file_of], THEN mp [OF _ sz], THEN mp [OF _ fresh],
      THEN mp [OF _ others], THEN mp [OF _ step]] by blast
  then show ?thesis using t by (auto simp: cursor_entry_def)
qed

section \<open>Lookups through both caches\<close>

text \<open>C12: lookups in a table, one after the other and through the LRU cache, which holds whatever it
  holds of other tables but nothing under the id of this one before, and of which its clients hold less than
  2^31 handles, all return without error;
  each finds nothing but the first entry not before its key, and finds it whenever it is for the
  same record: neither the filter, nor the index keys, nor the blocks that the cache keeps or
  evicts hide an entry.\<close>

theorem table_get_answers:
  assumes "reliable_file ops content" "table_order c" "op_comparator options = c" "name_fits options"
    and "0 < op_block_restart_interval options" "content file = []"
    and "sorted_wrt (\<lambda>x y. ldb_compare c (fst x) (fst y) < 0) es" "\<forall>e \<in> set es. table_key c (fst e)"
    and "entries_size es + 8 < 2 ^ 30"
    and "\<forall>policy. op_filter_policy options = Some policy \<longrightarrow> filter_policy policy keys_ok \<and> policy_respects c policy \<and> keys_ok (map fst es)"
    and "\<forall>k \<in> set qs. table_key c k"
  shows "\<exists>tb tb'. tablegen_add_all ops (ldb_tablegen_create options file) es = Some tb \<and>
    ldb_tablegen_finish ops tb = Some (OK, tb') \<and>
    (op_filter_policy options = None \<longrightarrow> ldb_tablegen_size tb' \<le> 3 * entries_size es + 100) \<and>
    (\<forall>rf id ro lru. file_holds rf (content (tg_file tb')) \<longrightarrow> ldb_tablegen_size tb' < 2 ^ 32 \<longrightarrow> lru_fit lru \<longrightarrow>
       (\<forall>off block. (ldb_fixed64_write id @ off, block) \<notin> lru_held lru) \<longrightarrow>
       (\<exists>table rs. ldb_table_open options rf (ldb_tablegen_size tb') (Some id) = Some (Inr table) \<and>
          table_gets lru_block_cache table ro (Some lru) qs = Some rs \<and> list_all2 (\<lambda>k (rc, r). rc = OK \<and> answers c es k r) qs rs))"
proof -
  obtain tb tb' where t: "tablegen_add_all ops (ldb_tablegen_create options file) es = Some tb"
    "ldb_tablegen_finish ops tb = Some (OK, tb')" "op_filter_policy options = None \<longrightarrow> ldb_tablegen_size tb' \<le> 3 * entries_size es + 100"
    and reads: "\<forall>rf new_id ro cache. file_holds rf (content (tg_file tb')) \<longrightarrow> ldb_tablegen_size tb' < 2 ^ 32 \<longrightarrow>
       fresh_cache (lru_cinv 1) lru_held new_id cache \<longrightarrow>
       (\<exists>table rs. ldb_table_open options rf (ldb_tablegen_size tb') new_id = Some (Inr table) \<and>
          table_gets lru_block_cache table ro cache qs = Some rs \<and> list_all2 (\<lambda>k (rc, r). rc = OK \<and> answers c es k r) qs rs)"
    using finished_gets [OF assms(1-10) lru_blocks.block_store_axioms assms(11)] by (elim exE conjE) (rule that)
  show ?thesis
    using t reads by (intro exI [of _ tb] exI [of _ tb'] conjI allI impI) (simp_all add: fresh_cache_def lru_fit_cinv [simplified])
qed

theorem table_get_answers_witness:
  "\<exists>tb tb' table.
     tablegen_add_all \<lparr>wf_append = \<lambda>f d. (OK, f @ d), wf_flush = \<lambda>f. (OK, f)\<rparr>
       (ldb_tablegen_create (small_blocks bytewise_comparator) []) [([97], [1]), ([98], [2])] = Some tb \<and>
     ldb_tablegen_finish \<lparr>wf_append = \<lambda>f d. (OK, f @ d), wf_flush = \<lambda>f. (OK, f)\<rparr> tb = Some (OK, tb') \<and>
     ldb_table_open (small_blocks bytewise_comparator) (file_of (tg_file tb')) (ldb_tablegen_size tb') (Some 1) = Some (Inr table) \<and>
     table_gets lru_block_cache table ldb_readopt_default (Some (ldb_lru_create 1024)) [[98], [98]] =
       Some [(OK, Some ([98], [2])), (OK, Some ([98], [2]))]"
proof -
  let ?ops = "\<lparr>wf_append = \<lambda>f d. (OK, f @ d), wf_flush = \<lambda>f. (OK, f)\<rparr> :: bytes wfile_ops"
  let ?es = "[([97], [1]), ([98], [2])] :: (bytes \<times> bytes) list"
  have h: "op_comparator (small_blocks bytewise_comparator) = bytewise_comparator" "name_fits (small_blocks bytewise_comparator)"
    "0 < op_block_restart_interval (small_blocks bytewise_comparator)" "[] = ([] :: bytes)"
    "sorted_wrt (\<lambda>x y. ldb_compare bytewise_comparator (fst x) (fst y) < 0) ?es" "\<forall>e \<in> set ?es. table_key bytewise_comparator (fst e)"
    "entries_size ?es + 8 < 2 ^ 30"
    "\<forall>policy. op_filter_policy (small_blocks bytewise_comparator) = Some policy \<longrightarrow>
       filter_policy policy (\<lambda>_. True) \<and> policy_respects bytewise_comparator policy \<and> True"
    "\<forall>k \<in> set [[98], [98]]. table_key bytewise_comparator k"
    using two_keys by (simp_all add: small_blocks_def name_fits_def)
  obtain tb tb' where t: "tablegen_add_all ?ops (ldb_tablegen_create (small_blocks bytewise_comparator) []) ?es = Some tb"
    "ldb_tablegen_finish ?ops tb = Some (OK, tb')"
    "op_filter_policy (small_blocks bytewise_comparator) = None \<longrightarrow> ldb_tablegen_size tb' \<le> 3 * entries_size ?es + 100"
    and reads: "\<forall>rf id ro lru. file_holds rf (tg_file tb') \<longrightarrow> ldb_tablegen_size tb' < 2 ^ 32 \<longrightarrow> lru_fit lru \<longrightarrow>
       (\<forall>off block. (ldb_fixed64_write id @ off, block) \<notin> lru_held lru) \<longrightarrow>
       (\<exists>table rs. ldb_table_open (small_blocks bytewise_comparator) rf (ldb_tablegen_size tb') (Some id) = Some (Inr table) \<and>
          table_gets lru_block_cache table ro (Some lru) [[98], [98]] = Some rs \<and>
          list_all2 (\<lambda>k (rc, r). rc = OK \<and> answers bytewise_comparator ?es k r) [[98], [98]] rs)"
    using table_get_answers [OF buffer_file.reliable_file_axioms bytewise_table.table_order_axioms h] by (elim exE conjE) (rule that)
  have c: "lru_fit (ldb_lru_create 1024 :: ldb_block ldb_lru)" "lru_held (ldb_lru_create 1024 :: ldb_block ldb_lru) = {}" by (rule created_fit)+
  have "ldb_tablegen_size tb' < 2 ^ 32" using t(3) by (simp add: small_blocks_def)
  then obtain table rs where tt: "ldb_table_open (small_blocks bytewise_comparator) (file_of (tg_file tb')) (ldb_tablegen_size tb') (Some 1) = Some (Inr table)"
    "table_gets lru_block_cache table ldb_readopt_default (Some (ldb_lru_create 1024)) [[98], [98]] = Some rs"
    "list_all2 (\<lambda>k (rc, r). rc = OK \<and> answers bytewise_comparator ?es k r) [[98], [98]] rs"
    using reads [rule_format, of "file_of (tg_file tb')" "ldb_lru_create 1024" 1 ldb_readopt_default] c by (auto simp del: table_gets.simps)
  have "r = Some ([98], [2])" if "answers bytewise_comparator ?es [98] r" for r
  proof -
    have "ldb_compare bytewise_comparator [97] [98] < 0" "ldb_compare bytewise_comparator [98] [98] = 0" "cmp_user bytewise_comparator = None"
      by (simp_all add: bytewise_comparator_def ldb_compare_def)
    then have "find (\<lambda>e. \<not> ldb_compare bytewise_comparator (fst e) [98] < 0) ?es = Some ([98], [2])" "same_key bytewise_comparator [98] (fst ([98], [2] :: bytes))"
      by (simp_all add: same_key_def)
    then show ?thesis using that unfolding answers_def by blast
  qed
  then have "rs = [(OK, Some ([98], [2])), (OK, Some ([98], [2]))]" using tt(3) by (auto simp: list_all2_Cons1)
  then show ?thesis using t tt by auto
qed

section \<open>What the cache of tables promises\<close>

text \<open>
  The interface that the versions of a database use: a lookup in the table of a file, given by its
  number and size, answers from the entries of the file.
\<close>

locale table_reader =
  fixes c :: ldb_comparator
    and get :: "'s \<Rightarrow> u64 \<Rightarrow> u64 \<Rightarrow> bytes \<Rightarrow> (status \<times> (bytes \<times> bytes) option \<times> 's) option"
    and cinv :: "'s \<Rightarrow> bool"
    and files :: "u64 \<Rightarrow> (u64 \<times> (bytes \<times> bytes) list) option"
  assumes get_answers: "cinv s \<Longrightarrow> files n = Some (sz, es) \<Longrightarrow> table_key c k \<Longrightarrow>
      \<exists>r s'. get s n sz k = Some (OK, r, s') \<and> cinv s' \<and> answers c es k r"

definition filter_fits :: "ldb_dbopt \<Rightarrow> (bytes \<times> bytes) list \<Rightarrow> table_part list \<Rightarrow> bool" where
  "filter_fits options es ps \<longleftrightarrow>
     (\<forall>policy. op_filter_policy options = Some policy \<longrightarrow>
        (\<exists>keys_ok. filter_policy policy keys_ok \<and> policy_respects (op_comparator options) policy \<and> keys_ok (map fst es) \<and>
           length (filter_data policy ps) < 2 ^ 32))"

text \<open>An entry of the cache for a table with the entries \<open>es\<close>.\<close>

definition right_entry :: "ldb_dbopt \<Rightarrow> (bytes \<times> bytes) list \<Rightarrow> table_entry \<Rightarrow> bool" where
  "right_entry options es e \<longleftrightarrow>
     (\<exists>rf content ps ks m x. te_table e = opened options rf None ps ks m \<and> table_file options rf content es ps ks m x \<and>
        filter_fits options es ps)"

text \<open>The files are tables with these entries, and the cache has nothing but right entries for them.\<close>

definition tables_hold :: "(string \<Rightarrow> status + ldb_rfile) \<Rightarrow> ldb_dbopt \<Rightarrow> string \<Rightarrow> (u64 \<Rightarrow> (u64 \<times> (bytes \<times> bytes) list) option) \<Rightarrow> bool" where
  "tables_hold randfile options db files \<longleftrightarrow>
     table_order (op_comparator options) \<and> name_fits options \<and>
     (\<forall>n sz es. files n = Some (sz, es) \<longrightarrow>
        (\<exists>rf content ps ks m x. open_table_file randfile db n = Inr rf \<and> unat sz = length content \<and>
           table_file options rf content es ps ks m x \<and> filter_fits options es ps))"

definition tables_ok :: "(string \<Rightarrow> status + ldb_rfile) \<Rightarrow> ldb_dbopt \<Rightarrow> string \<Rightarrow> (u64 \<Rightarrow> (u64 \<times> (bytes \<times> bytes) list) option) \<Rightarrow>
    ldb_tables \<Rightarrow> bool" where
  "tables_ok randfile options db files cache \<longleftrightarrow>
     tables_hold randfile options db files \<and> tc_options cache = options \<and> tc_dbname cache = db \<and>
     (\<exists>hs m. run_inv (tc_lru cache, hs, m) \<and> length hs < 2 ^ 31 \<and>
        (\<forall>n e sz es. m (ldb_fixed64_write n) = Some e \<longrightarrow> files n = Some (sz, es) \<longrightarrow> right_entry options es e))"

lemma tables_created:
  "tables_hold randfile options db files \<Longrightarrow> tables_ok randfile options db files (ldb_tables_create db options entries)"
  using create_inv [of "scast entries"] by (fastforce simp: tables_ok_def ldb_tables_create_def)

text \<open>A table is found, in the cache or on disk, and what is found is right.\<close>

lemma find_table_ok:
  assumes "tables_hold randfile options db files" "tc_options cache = options" "tc_dbname cache = db"
    and "run_inv (tc_lru cache, hs, m)" "files n = Some (sz, es)"
    and "\<forall>n e sz es. m (ldb_fixed64_write n) = Some e \<longrightarrow> files n = Some (sz, es) \<longrightarrow> right_entry options es e"
    and "length hs < 2 ^ 31"
  shows "\<exists>h cache' e m'. find_table randfile cache n sz None = Some (Inr h, cache') \<and>
    run_inv (tc_lru cache', (h, ldb_fixed64_write n, e) # hs, m') \<and> right_entry options es e \<and>
    tc_options cache' = options \<and> tc_dbname cache' = db \<and>
    (\<forall>n e sz es. m' (ldb_fixed64_write n) = Some e \<longrightarrow> files n = Some (sz, es) \<longrightarrow> right_entry options es e)"
proof -
  let ?key = "ldb_fixed64_write n"
  obtain r lru where l: "ldb_lru_lookup (tc_lru cache) ?key = (r, lru)" by fastforce
  note look = lookup_inv [OF assms(4) l order.strict_implies_order [OF assms(7)]]
  show ?thesis
  proof (cases r)
    case (Some h)
    then obtain e where e: "cache_map (tc_lru cache) ?key = Some e" "run_inv (lru, (h, ?key, e) # hs, m)" using look by auto
    then have "m ?key = Some e" using assms(4) by (auto simp: run_inv_def map_le_def dom_def)
    then have "right_entry options es e" using assms(5,6) by blast
    moreover have "find_table randfile cache n sz None = Some (Inr h, cache\<lparr>tc_lru := lru\<rparr>)" using l Some by (simp add: find_table_def)
    ultimately show ?thesis using e(2) assms(2,3,6) by fastforce
  next
    case None
    then have inv: "run_inv (lru, hs, m)" using look by simp
    obtain rf content ps ks mm x where f: "open_table_file randfile db n = Inr rf" "unat sz = length content"
      "table_file options rf content es ps ks mm x" "filter_fits options es ps"
      using assms(1,5) unfolding tables_hold_def by blast
    let ?e = "\<lparr>te_file = rf, te_table = opened options rf None ps ks mm\<rparr>"
    obtain h lru' where i: "ldb_lru_insert lru ?key ?e 1 = (h, lru')" by fastforce
    have op: "ldb_table_open options rf (length content) None = Some (Inr (opened options rf None ps ks mm))"
      using table_opened [OF f(3)] assms(1) by (simp add: tables_hold_def)
    have "find_table randfile cache n sz None = Some (Inr h, cache\<lparr>tc_lru := lru'\<rparr>)"
      using l None f(1,2) op i assms(2,3) by (simp add: find_table_def)
    moreover have right: "right_entry options es ?e" using f(3,4) unfolding right_entry_def table_entry.simps by blast
    moreover have "run_inv (lru', (h, ?key, ?e) # hs, m(?key \<mapsto> ?e))" by (rule insert_inv [OF inv i])
    moreover have "right_entry options es' e'" if "(m(?key \<mapsto> ?e)) (ldb_fixed64_write n') = Some e'" "files n' = Some (sz', es')" for n' e' sz' es'
    proof (cases "ldb_fixed64_write n' = ?key")
      case True
      then have "n' = n" using fixed64.enc_prefix_free [of n' "[]" n "[]"] by simp
      then show ?thesis using that right assms(5) by auto
    next
      case False
      then show ?thesis using that assms(6) by auto
    qed
    ultimately show ?thesis using assms(2,3) by fastforce
  qed
qed

interpretation open_tables: table_reader "op_comparator options"
    "\<lambda>cache n sz k. map_option (\<lambda>(rc, r, _, cache). (rc, r, cache)) (ldb_tables_get randfile no_cache cache ro n sz None None k)"
    "tables_ok randfile options db files" files
  for randfile options ro db files
proof
  fix cache n sz es k
  assume ok: "tables_ok randfile options db files cache" and f: "files n = Some (sz, es)" and k: "table_key (op_comparator options) k"
  let ?right = "\<lambda>m. \<forall>n e sz es. m (ldb_fixed64_write n) = Some e \<longrightarrow> files n = Some (sz, es) \<longrightarrow> right_entry options es e"
  obtain hs m where c: "tables_hold randfile options db files" "tc_options cache = options" "tc_dbname cache = db"
    "run_inv (tc_lru cache, hs, m)" "?right m" "length hs < 2 ^ 31" using ok unfolding tables_ok_def by blast
  obtain h cache' e m' where t: "find_table randfile cache n sz None = Some (Inr h, cache')"
    "run_inv (tc_lru cache', (h, ldb_fixed64_write n, e) # hs, m')" "right_entry options es e"
    "tc_options cache' = options" "tc_dbname cache' = db" "?right m'"
    using find_table_ok [OF c(1-4) f c(5,6)] by blast
  have v: "ldb_lru_value (tc_lru cache') h = Some e" using t(2) by (auto simp: run_inv_def)
  obtain rf content ps ks mm x where r: "te_table e = opened options rf None ps ks mm" "table_file options rf content es ps ks mm x"
    "filter_fits options es ps" using t(3) unfolding right_entry_def by blast
  have order: "table_order (op_comparator options)" using c(1) by (simp add: tables_hold_def)
  have "\<exists>rs. table_gets no_cache (opened options rf None ps ks mm) ro None [k] = Some rs \<and>
      list_all2 (\<lambda>k (rc, r). rc = OK \<and> answers (op_comparator options) es k r) [k] rs"
  proof (cases "op_filter_policy options")
    case None
    then show ?thesis
      using table_order.gets_answered [OF order r(2) refl _ no_cache_store, of "\<lambda>_. True" None None "[k]" ro] k by (auto simp: world_ok_def)
  next
    case (Some policy)
    then obtain keys_ok where "filter_policy policy keys_ok" "policy_respects (op_comparator options) policy" "keys_ok (map fst es)"
      "length (filter_data policy ps) < 2 ^ 32" using r(3) unfolding filter_fits_def by blast
    then show ?thesis
      using table_order.gets_answered [OF order r(2) refl _ no_cache_store, of keys_ok None None "[k]" ro] k Some by (auto simp: world_ok_def)
  qed
  then obtain res bc where g: "ldb_table_internal_get no_cache (te_table e) ro None k = Some (OK, res, bc)" "answers (op_comparator options) es k res"
    using r(1) by (auto simp: bind_eq_Some_conv list_all2_Cons1)
  have "tables_ok randfile options db files (cache'\<lparr>tc_lru := ldb_lru_release (tc_lru cache') h\<rparr>)"
    unfolding tables_ok_def using c(1) t(4-6) c(6) release_first [OF t(2)] by auto
  then show "\<exists>r s'. map_option (\<lambda>(rc, r, _, cache). (rc, r, cache)) (ldb_tables_get randfile no_cache cache ro n sz None None k) = Some (OK, r, s') \<and>
      tables_ok randfile options db files s' \<and> answers (op_comparator options) es k r"
    using t(1) v g by (simp add: ldb_tables_get_def)
qed

lemma tables_evict_ok: "tables_ok randfile options db files cache \<Longrightarrow> tables_ok randfile options db (files(n := None)) (ldb_tables_evict cache n)"
proof -
  assume "tables_ok randfile options db files cache"
  then obtain hs m where c: "tables_hold randfile options db files" "tc_options cache = options" "tc_dbname cache = db"
    "run_inv (tc_lru cache, hs, m)" "\<forall>n e sz es. m (ldb_fixed64_write n) = Some e \<longrightarrow> files n = Some (sz, es) \<longrightarrow> right_entry options es e"
    "length hs < 2 ^ 31"
    unfolding tables_ok_def by blast
  have "tables_hold randfile options db (files(n := None))" using c(1) unfolding tables_hold_def by simp
  moreover have "run_inv (tc_lru (ldb_tables_evict cache n), hs, m(ldb_fixed64_write n := None))"
    using erase_inv [OF c(4)] by (simp add: ldb_tables_evict_def)
  moreover have "tc_options (ldb_tables_evict cache n) = options" "tc_dbname (ldb_tables_evict cache n) = db"
    using c(2,3) by (simp_all add: ldb_tables_evict_def)
  moreover have "\<forall>n' e sz es. (m(ldb_fixed64_write n := None)) (ldb_fixed64_write n') = Some e \<longrightarrow> (files(n := None)) n' = Some (sz, es) \<longrightarrow>
      right_entry options es e" using c(5) by (auto split: if_splits)
  ultimately show ?thesis using c(6) unfolding tables_ok_def by blast
qed

end
