(* ===== verification/Version_Edit.thy ===== *)
theory Version_Edit
  imports Dbformat
begin

text \<open>
  Version edits, \<^verbatim>\<open>engine/src/version_edit.c\<close>: the records the manifest log is made of, with
  the metadata of table files.  The set \<open>deleted_files\<close> is the in-order contents of the
  red-black tree the code keeps (\<^verbatim>\<open>util/rbt.c\<close>), a list sorted by \<open>file_entry_compare\<close>.
  The theory shows that what \<open>ldb_edit_export\<close> writes \<open>ldb_edit_import\<close> reads back, and
  that only well-formed edits are read.
\<close>

section \<open>Tags and entries\<close>

definition TAG_COMPARATOR :: u32 where "TAG_COMPARATOR = 1"
definition TAG_LOG_NUMBER :: u32 where "TAG_LOG_NUMBER = 2"
definition TAG_NEXT_FILE_NUMBER :: u32 where "TAG_NEXT_FILE_NUMBER = 3"
definition TAG_LAST_SEQUENCE :: u32 where "TAG_LAST_SEQUENCE = 4"
definition TAG_COMPACT_POINTER :: u32 where "TAG_COMPACT_POINTER = 5"
definition TAG_DELETED_FILE :: u32 where "TAG_DELETED_FILE = 6"
definition TAG_NEW_FILE :: u32 where "TAG_NEW_FILE = 7"
definition TAG_PREV_LOG_NUMBER :: u32 where "TAG_PREV_LOG_NUMBER = 9"

lemmas tag_defs = TAG_COMPARATOR_def TAG_LOG_NUMBER_def TAG_NEXT_FILE_NUMBER_def TAG_LAST_SEQUENCE_def
  TAG_COMPACT_POINTER_def TAG_DELETED_FILE_def TAG_NEW_FILE_def TAG_PREV_LOG_NUMBER_def

definition LDB_NUM_LEVELS :: nat where "LDB_NUM_LEVELS = 7"

record ldb_filemeta =
  fm_refs :: int
  fm_allowed_seeks :: int
  fm_number :: u64
  fm_file_size :: u64
  fm_smallest :: bytes
  fm_largest :: bytes

record ikey_entry =
  ke_level :: nat
  ke_key :: bytes

record file_entry =
  fe_level :: nat
  fe_number :: u64

record meta_entry =
  me_level :: nat
  me_meta :: ldb_filemeta

definition ikey_entry_create :: "nat \<Rightarrow> bytes \<Rightarrow> ikey_entry" where
  "ikey_entry_create level key = \<lparr>ke_level = level, ke_key = key\<rparr>"

definition file_entry_create :: "nat \<Rightarrow> u64 \<Rightarrow> file_entry" where
  "file_entry_create level number = \<lparr>fe_level = level, fe_number = number\<rparr>"

definition file_entry_compare :: "file_entry \<Rightarrow> file_entry \<Rightarrow> int" where
  "file_entry_compare x y =
     (if fe_level x \<noteq> fe_level y then int (fe_level x) - int (fe_level y)
      else if fe_number x < fe_number y then -1 else if fe_number x > fe_number y then 1 else 0)"

definition ldb_filemeta_init :: ldb_filemeta where
  "ldb_filemeta_init =
     \<lparr>fm_refs = 0, fm_allowed_seeks = 2 ^ 30, fm_number = 0, fm_file_size = 0, fm_smallest = [], fm_largest = []\<rparr>"

definition meta_entry_create :: "nat \<Rightarrow> u64 \<Rightarrow> u64 \<Rightarrow> bytes \<Rightarrow> bytes \<Rightarrow> meta_entry" where
  "meta_entry_create level number file_size smallest largest =
     (let meta = ldb_filemeta_init;
          meta = meta\<lparr>fm_number := number, fm_file_size := file_size\<rparr>;
          meta = meta\<lparr>fm_smallest := smallest, fm_largest := largest\<rparr>
      in \<lparr>me_level = level, me_meta = meta\<rparr>)"

definition ldb_filemeta_copy :: "ldb_filemeta \<Rightarrow> ldb_filemeta \<Rightarrow> ldb_filemeta" where
  "ldb_filemeta_copy z x =
     z\<lparr>fm_refs := fm_refs x, fm_allowed_seeks := fm_allowed_seeks x, fm_number := fm_number x,
       fm_file_size := fm_file_size x, fm_smallest := fm_smallest x, fm_largest := fm_largest x\<rparr>"

definition ldb_filemeta_clone :: "ldb_filemeta \<Rightarrow> ldb_filemeta" where
  "ldb_filemeta_clone meta = ldb_filemeta_copy ldb_filemeta_init meta"

definition ldb_filemeta_ref :: "ldb_filemeta \<Rightarrow> ldb_filemeta" where
  "ldb_filemeta_ref z = z\<lparr>fm_refs := fm_refs z + 1\<rparr>"

text \<open>The outer \<open>None\<close> is the failed assertion, the inner one the destroyed object.\<close>

definition ldb_filemeta_unref :: "ldb_filemeta \<Rightarrow> ldb_filemeta option option" where
  "ldb_filemeta_unref z =
     (if fm_refs z > 0 then
        (let z = z\<lparr>fm_refs := fm_refs z - 1\<rparr> in Some (if fm_refs z \<le> 0 then None else Some z))
      else None)"

section \<open>Edits\<close>

record ldb_edit =
  ed_comparator :: bytes
  ed_log_number :: u64
  ed_prev_log_number :: u64
  ed_next_file_number :: u64
  ed_last_sequence :: u64
  ed_has_comparator :: bool
  ed_has_log_number :: bool
  ed_has_prev_log_number :: bool
  ed_has_next_file_number :: bool
  ed_has_last_sequence :: bool
  ed_compact_pointers :: "ikey_entry list"
  ed_deleted_files :: "file_entry list"
  ed_new_files :: "meta_entry list"

definition ldb_edit_init :: ldb_edit where
  "ldb_edit_init =
     \<lparr>ed_comparator = [], ed_log_number = 0, ed_prev_log_number = 0, ed_next_file_number = 0, ed_last_sequence = 0,
      ed_has_comparator = False, ed_has_log_number = False, ed_has_prev_log_number = False,
      ed_has_next_file_number = False, ed_has_last_sequence = False,
      ed_compact_pointers = [], ed_deleted_files = [], ed_new_files = []\<rparr>"

definition ldb_edit_reset :: "ldb_edit \<Rightarrow> ldb_edit" where
  "ldb_edit_reset edit = ldb_edit_init"

definition ldb_edit_set_comparator_name :: "ldb_edit \<Rightarrow> bytes \<Rightarrow> ldb_edit" where
  "ldb_edit_set_comparator_name edit name = edit\<lparr>ed_has_comparator := True, ed_comparator := name\<rparr>"

definition ldb_edit_set_log_number :: "ldb_edit \<Rightarrow> u64 \<Rightarrow> ldb_edit" where
  "ldb_edit_set_log_number edit num = edit\<lparr>ed_has_log_number := True, ed_log_number := num\<rparr>"

definition ldb_edit_set_prev_log_number :: "ldb_edit \<Rightarrow> u64 \<Rightarrow> ldb_edit" where
  "ldb_edit_set_prev_log_number edit num = edit\<lparr>ed_has_prev_log_number := True, ed_prev_log_number := num\<rparr>"

definition ldb_edit_set_next_file :: "ldb_edit \<Rightarrow> u64 \<Rightarrow> ldb_edit" where
  "ldb_edit_set_next_file edit num = edit\<lparr>ed_has_next_file_number := True, ed_next_file_number := num\<rparr>"

definition ldb_edit_set_last_sequence :: "ldb_edit \<Rightarrow> u64 \<Rightarrow> ldb_edit" where
  "ldb_edit_set_last_sequence edit seq = edit\<lparr>ed_has_last_sequence := True, ed_last_sequence := seq\<rparr>"

definition ldb_edit_set_compact_pointer :: "ldb_edit \<Rightarrow> nat \<Rightarrow> bytes \<Rightarrow> ldb_edit" where
  "ldb_edit_set_compact_pointer edit level key =
     edit\<lparr>ed_compact_pointers := ed_compact_pointers edit @ [ikey_entry_create level key]\<rparr>"

definition ldb_edit_add_file :: "ldb_edit \<Rightarrow> nat \<Rightarrow> u64 \<Rightarrow> u64 \<Rightarrow> bytes \<Rightarrow> bytes \<Rightarrow> ldb_edit" where
  "ldb_edit_add_file edit level number file_size smallest largest =
     edit\<lparr>ed_new_files := ed_new_files edit @ [meta_entry_create level number file_size smallest largest]\<rparr>"

text \<open>The ordered set: an equal element stays and the new one is dropped.\<close>

fun set_put :: "('a \<Rightarrow> 'a \<Rightarrow> int) \<Rightarrow> 'a \<Rightarrow> 'a list \<Rightarrow> 'a list" where
  "set_put cmp x [] = [x]"
| "set_put cmp x (y # ys) =
     (if cmp x y = 0 then y # ys else if cmp x y < 0 then x # y # ys else y # set_put cmp x ys)"

definition ldb_edit_remove_file :: "ldb_edit \<Rightarrow> nat \<Rightarrow> u64 \<Rightarrow> ldb_edit" where
  "ldb_edit_remove_file edit level number =
     edit\<lparr>ed_deleted_files := set_put file_entry_compare (file_entry_create level number) (ed_deleted_files edit)\<rparr>"

section \<open>Export\<close>

definition export_pointer :: "bytes \<Rightarrow> ikey_entry \<Rightarrow> bytes" where
  "export_pointer dst entry =
     ldb_slice_export (dst @ ldb_varint32_write TAG_COMPACT_POINTER
       @ ldb_varint32_write (word_of_nat (ke_level entry))) (ke_key entry)"

definition export_deleted :: "bytes \<Rightarrow> file_entry \<Rightarrow> bytes" where
  "export_deleted dst entry =
     dst @ ldb_varint32_write TAG_DELETED_FILE @ ldb_varint32_write (word_of_nat (fe_level entry))
       @ ldb_varint64_write (fe_number entry)"

definition export_new :: "bytes \<Rightarrow> meta_entry \<Rightarrow> bytes" where
  "export_new dst entry =
     (let meta = me_meta entry;
          dst = dst @ ldb_varint32_write TAG_NEW_FILE @ ldb_varint32_write (word_of_nat (me_level entry))
                  @ ldb_varint64_write (fm_number meta) @ ldb_varint64_write (fm_file_size meta)
      in ldb_slice_export (ldb_slice_export dst (fm_smallest meta)) (fm_largest meta))"

definition ldb_edit_export :: "bytes \<Rightarrow> ldb_edit \<Rightarrow> bytes" where
  "ldb_edit_export dst edit =
     (let dst = (if ed_has_comparator edit
                 then ldb_slice_export (dst @ ldb_varint32_write TAG_COMPARATOR) (ed_comparator edit) else dst);
          dst = (if ed_has_log_number edit
                 then dst @ ldb_varint32_write TAG_LOG_NUMBER @ ldb_varint64_write (ed_log_number edit) else dst);
          dst = (if ed_has_prev_log_number edit
                 then dst @ ldb_varint32_write TAG_PREV_LOG_NUMBER @ ldb_varint64_write (ed_prev_log_number edit) else dst);
          dst = (if ed_has_next_file_number edit
                 then dst @ ldb_varint32_write TAG_NEXT_FILE_NUMBER @ ldb_varint64_write (ed_next_file_number edit) else dst);
          dst = (if ed_has_last_sequence edit
                 then dst @ ldb_varint32_write TAG_LAST_SEQUENCE @ ldb_varint64_write (ed_last_sequence edit) else dst);
          dst = foldl export_pointer dst (ed_compact_pointers edit);
          dst = foldl export_deleted dst (ed_deleted_files edit)
      in foldl export_new dst (ed_new_files edit))"

section \<open>Import\<close>

definition ldb_level_slurp :: "bytes \<Rightarrow> (nat \<times> bytes) option" where
  "ldb_level_slurp input =
     (case ldb_varint32_read input of None \<Rightarrow> None
      | Some (val, input) \<Rightarrow> if unat val \<ge> LDB_NUM_LEVELS then None else Some (unat val, input))"

text \<open>
  The cases of the switch that read into local variables or into the comparator's buffer: \<open>None\<close> is \<open>return 0\<close>, which leaves
  the edit as it was.
\<close>

definition import_entry :: "ldb_edit \<Rightarrow> u32 \<Rightarrow> bytes \<Rightarrow> (ldb_edit \<times> bytes) option" where
  "import_entry edit tag input =
     (if tag = TAG_COMPARATOR then
        Option.bind (ldb_slice_slurp input) (\<lambda>(name, input).
          Some (edit\<lparr>ed_comparator := name, ed_has_comparator := True\<rparr>, input))
      else if tag = TAG_COMPACT_POINTER then
        Option.bind (ldb_level_slurp input) (\<lambda>(level, input).
        Option.bind (ldb_slice_slurp input) (\<lambda>(key, input).
          if length key < 8 then None else Some (ldb_edit_set_compact_pointer edit level key, input)))
      else if tag = TAG_DELETED_FILE then
        Option.bind (ldb_level_slurp input) (\<lambda>(level, input).
        Option.bind (ldb_varint64_read input) (\<lambda>(number, input).
          Some (ldb_edit_remove_file edit level number, input)))
      else if tag = TAG_NEW_FILE then
        Option.bind (ldb_level_slurp input) (\<lambda>(level, input).
        Option.bind (ldb_varint64_read input) (\<lambda>(number, input).
        Option.bind (ldb_varint64_read input) (\<lambda>(file_size, input).
        Option.bind (ldb_slice_slurp input) (\<lambda>(smallest, input).
        Option.bind (ldb_slice_slurp input) (\<lambda>(largest, input).
          if length smallest < 8 \<or> length largest < 8 then None
          else Some (ldb_edit_add_file edit level number file_size smallest largest, input))))))
      else None)"

text \<open>
  A number is read into its field, which gets 0 when that fails, and then its flag is set.  \<open>Inl\<close> is \<open>return 0\<close>, with the edit that
  it leaves.
\<close>

definition import_number :: "(u64 \<Rightarrow> ldb_edit) \<Rightarrow> (ldb_edit \<Rightarrow> ldb_edit) \<Rightarrow> bytes \<Rightarrow> ldb_edit + ldb_edit \<times> bytes" where
  "import_number set_number set_flag input =
     (case ldb_varint64_read input of
        None \<Rightarrow> Inl (set_number 0)
      | Some (num, input) \<Rightarrow> Inr (set_flag (set_number num), input))"

definition import_tag :: "ldb_edit \<Rightarrow> u32 \<Rightarrow> bytes \<Rightarrow> ldb_edit + ldb_edit \<times> bytes" where
  "import_tag edit tag input =
     (if tag = TAG_LOG_NUMBER then
        import_number (\<lambda>num. edit\<lparr>ed_log_number := num\<rparr>) (ed_has_log_number_update (\<lambda>_. True)) input
      else if tag = TAG_PREV_LOG_NUMBER then
        import_number (\<lambda>num. edit\<lparr>ed_prev_log_number := num\<rparr>) (ed_has_prev_log_number_update (\<lambda>_. True)) input
      else if tag = TAG_NEXT_FILE_NUMBER then
        import_number (\<lambda>num. edit\<lparr>ed_next_file_number := num\<rparr>) (ed_has_next_file_number_update (\<lambda>_. True)) input
      else if tag = TAG_LAST_SEQUENCE then
        import_number (\<lambda>num. edit\<lparr>ed_last_sequence := num\<rparr>) (ed_has_last_sequence_update (\<lambda>_. True)) input
      else (case import_entry edit tag input of None \<Rightarrow> Inl edit | Some r \<Rightarrow> Inr r))"

lemmas import_defs = import_tag_def import_number_def import_entry_def

lemma level_slurp_shrinks: "ldb_level_slurp xs = Some (l, ys) \<Longrightarrow> length ys < length xs"
  by (auto simp: ldb_level_slurp_def split: option.splits if_splits dest: varint32.dec_shrinks)

lemma import_tag_shrinks:
  assumes "import_tag edit tag xs = Inr (edit', ys)"
  shows "length ys < length xs"
  using assms
  by (auto simp: import_defs ldb_slice_slurp_def split: if_splits option.splits bind_splits
      dest!: level_slurp_shrinks varint64.dec_shrinks slice.dec_shrinks)

function import_loop :: "ldb_edit \<Rightarrow> bytes \<Rightarrow> bool \<times> ldb_edit" where
  "import_loop edit input =
     (if length input > 0 then
        (case ldb_varint32_read input of
           None \<Rightarrow> (False, edit)
         | Some (tag, input') \<Rightarrow>
             (case import_tag edit tag input' of
                Inl edit' \<Rightarrow> (False, edit')
              | Inr (edit', input'') \<Rightarrow> import_loop edit' input''))
      else (True, edit))"
  by pat_completeness auto
termination
  by (relation "measure (\<lambda>(edit, input). length input)")
    (auto dest: varint32.dec_shrinks import_tag_shrinks intro: less_trans)

declare import_loop.simps [simp del]

definition ldb_edit_import :: "ldb_edit \<Rightarrow> bytes \<Rightarrow> bool \<times> ldb_edit" where
  "ldb_edit_import edit src = import_loop (ldb_edit_reset edit) src"

section \<open>The set of deleted files\<close>

interpretation file_order: strict_comparator file_entry_compare "\<lambda>_. True"
  by unfold_locales (auto simp: file_entry_compare_def sgn_if split: if_splits)

context strict_comparator
begin

lemma set_put_set: "valid x \<Longrightarrow> \<forall>y \<in> set ys. valid y \<Longrightarrow> set (set_put cmp x ys) = insert x (set ys)"
  using cmp_eq_imp_eq by (induction ys) auto

lemma set_put_sorted:
  assumes "valid x" "\<forall>y \<in> set ys. valid y" "sorted_wrt (\<lambda>a b. cmp a b < 0) ys"
  shows "sorted_wrt (\<lambda>a b. cmp a b < 0) (set_put cmp x ys)"
  using assms(2,3)
proof (induction ys)
  case (Cons y ys)
  have "cmp y x < 0" if "\<not> cmp x y < 0" "cmp x y \<noteq> 0" using cmp_antisym [of x y] that Cons.prems(1) assms(1) by (simp add: sgn_if split: if_splits)
  moreover have "\<forall>z \<in> set ys. cmp x z < 0" if "cmp x y < 0"
    using Cons.prems cmp_less_trans [of x y] that assms(1) by auto
  ultimately show ?case using Cons set_put_set [OF assms(1), of ys] by auto
qed simp

lemma set_put_last: "\<forall>y \<in> set ys. cmp y x < 0 \<Longrightarrow> valid x \<Longrightarrow> \<forall>y \<in> set ys. valid y \<Longrightarrow> set_put cmp x ys = ys @ [x]"
proof (induction ys)
  case (Cons y ys)
  then have "0 < cmp x y" using cmp_antisym [of x y] by (auto simp: sgn_if split: if_splits)
  then show ?case using Cons by simp
qed simp

end

section \<open>Well-formed edits\<close>

definition ikey_ok :: "bytes \<Rightarrow> bool" where
  "ikey_ok k \<longleftrightarrow> 8 \<le> length k \<and> length k < 2 ^ 32"

definition meta_entry_ok :: "meta_entry \<Rightarrow> bool" where
  "meta_entry_ok m \<longleftrightarrow> me_level m < LDB_NUM_LEVELS \<and> ikey_ok (fm_smallest (me_meta m)) \<and> ikey_ok (fm_largest (me_meta m)) \<and>
     fm_refs (me_meta m) = 0 \<and> fm_allowed_seeks (me_meta m) = 2 ^ 30"

definition edit_ok :: "ldb_edit \<Rightarrow> bool" where
  "edit_ok e \<longleftrightarrow>
     length (ed_comparator e) < 2 ^ 32 \<and> (\<not> ed_has_comparator e \<longrightarrow> ed_comparator e = []) \<and>
     (\<not> ed_has_log_number e \<longrightarrow> ed_log_number e = 0) \<and> (\<not> ed_has_prev_log_number e \<longrightarrow> ed_prev_log_number e = 0) \<and>
     (\<not> ed_has_next_file_number e \<longrightarrow> ed_next_file_number e = 0) \<and> (\<not> ed_has_last_sequence e \<longrightarrow> ed_last_sequence e = 0) \<and>
     (\<forall>p \<in> set (ed_compact_pointers e). ke_level p < LDB_NUM_LEVELS \<and> ikey_ok (ke_key p)) \<and>
     sorted_wrt (\<lambda>x y. file_entry_compare x y < 0) (ed_deleted_files e) \<and>
     (\<forall>d \<in> set (ed_deleted_files e). fe_level d < LDB_NUM_LEVELS) \<and>
     (\<forall>m \<in> set (ed_new_files e). meta_entry_ok m)"

lemma edit_ok_init: "edit_ok ldb_edit_init"
  by (simp add: edit_ok_def ldb_edit_init_def)

lemma edit_ok_setters:
  assumes "edit_ok e"
  shows "length name < 2 ^ 32 \<Longrightarrow> edit_ok (ldb_edit_set_comparator_name e name)"
    "edit_ok (ldb_edit_set_log_number e n)" "edit_ok (ldb_edit_set_prev_log_number e n)"
    "edit_ok (ldb_edit_set_next_file e n)" "edit_ok (ldb_edit_set_last_sequence e n)"
    "level < LDB_NUM_LEVELS \<Longrightarrow> ikey_ok key \<Longrightarrow> edit_ok (ldb_edit_set_compact_pointer e level key)"
    "level < LDB_NUM_LEVELS \<Longrightarrow> edit_ok (ldb_edit_remove_file e level n)"
    "level < LDB_NUM_LEVELS \<Longrightarrow> ikey_ok smallest \<Longrightarrow> ikey_ok largest \<Longrightarrow> edit_ok (ldb_edit_add_file e level n sz smallest largest)"
  using assms file_order.set_put_set file_order.set_put_sorted
  by (auto simp: edit_ok_def ldb_edit_set_comparator_name_def ldb_edit_set_log_number_def
      ldb_edit_set_prev_log_number_def ldb_edit_set_next_file_def ldb_edit_set_last_sequence_def
      ldb_edit_set_compact_pointer_def ldb_edit_remove_file_def ldb_edit_add_file_def ikey_entry_create_def
      file_entry_create_def meta_entry_create_def meta_entry_ok_def ldb_filemeta_init_def Let_def)

text \<open>The edits that the setters build.\<close>

inductive edit_built :: "ldb_edit \<Rightarrow> bool" where
  built_init: "edit_built ldb_edit_init"
| built_comparator: "edit_built e \<Longrightarrow> length name < 2 ^ 32 \<Longrightarrow> edit_built (ldb_edit_set_comparator_name e name)"
| built_log: "edit_built e \<Longrightarrow> edit_built (ldb_edit_set_log_number e n)"
| built_prev: "edit_built e \<Longrightarrow> edit_built (ldb_edit_set_prev_log_number e n)"
| built_next: "edit_built e \<Longrightarrow> edit_built (ldb_edit_set_next_file e n)"
| built_sequence: "edit_built e \<Longrightarrow> edit_built (ldb_edit_set_last_sequence e n)"
| built_pointer: "edit_built e \<Longrightarrow> level < LDB_NUM_LEVELS \<Longrightarrow> ikey_ok key \<Longrightarrow>
    edit_built (ldb_edit_set_compact_pointer e level key)"
| built_remove: "edit_built e \<Longrightarrow> level < LDB_NUM_LEVELS \<Longrightarrow> edit_built (ldb_edit_remove_file e level n)"
| built_add: "edit_built e \<Longrightarrow> level < LDB_NUM_LEVELS \<Longrightarrow> ikey_ok smallest \<Longrightarrow> ikey_ok largest \<Longrightarrow>
    edit_built (ldb_edit_add_file e level n sz smallest largest)"

lemma edit_built_ok: "edit_built e \<Longrightarrow> edit_ok e"
  by (induction rule: edit_built.induct) (simp_all add: edit_ok_init edit_ok_setters)

section \<open>Reading back\<close>

interpretation level: wire_codec "\<lambda>l. l < LDB_NUM_LEVELS" "\<lambda>l. ldb_varint32_write (word_of_nat l)" ldb_level_slurp
proof unfold_locales
  fix l rest assume "l < LDB_NUM_LEVELS"
  then have "unat (word_of_nat l :: u32) = l" by (intro unat_of_nat_small) (simp add: LDB_NUM_LEVELS_def)
  then show "ldb_level_slurp (ldb_varint32_write (word_of_nat l) @ rest) = Some (l, rest)"
    using \<open>l < LDB_NUM_LEVELS\<close> by (simp add: ldb_level_slurp_def varint32.dec_enc)
next
  fix xs l ys q assume "ldb_level_slurp xs = Some (l, ys)"
  then obtain v where v: "ldb_varint32_read xs = Some (v, ys)" "unat v < LDB_NUM_LEVELS" "l = unat v"
    by (auto simp: ldb_level_slurp_def split: option.splits if_splits)
  show "\<exists>p. xs = p @ ys \<and> p \<noteq> []" using varint32.dec_consumes [OF v(1)] .
  show "ldb_level_slurp (xs @ q) = Some (l, ys @ q)"
    using varint32.dec_extend [OF v(1), of q] v(2,3) by (simp add: ldb_level_slurp_def)
qed

lemmas edit_codecs = varint32.dec_enc varint64.dec_enc slice.dec_enc level.dec_enc

lemma import_step:
  assumes "import_tag e tag xs = Inr (e', ys)"
  shows "import_loop e (ldb_varint32_write tag @ xs) = import_loop e' ys"
proof -
  have "ldb_varint32_write tag \<noteq> []" by (rule varint32.enc_not_Nil) simp
  then show ?thesis using assms by (subst import_loop.simps) (simp add: varint32.dec_enc)
qed

lemma export_folds:
  "foldl export_pointer dst ps = dst @ concat (map (export_pointer []) ps)"
  "foldl export_deleted dst ds = dst @ concat (map (export_deleted []) ds)"
  "foldl export_new dst ms = dst @ concat (map (export_new []) ms)"
proof -
  have *: "export_pointer dst p = dst @ export_pointer [] p" "export_deleted dst d = dst @ export_deleted [] d"
    "export_new dst m = dst @ export_new [] m" for dst p d m
    by (simp_all add: export_pointer_def export_deleted_def export_new_def ldb_slice_export_def Let_def)
  show "foldl export_pointer dst ps = dst @ concat (map (export_pointer []) ps)"
    by (induction ps arbitrary: dst) (simp, subst foldl_Cons, subst *(1), simp)
  show "foldl export_deleted dst ds = dst @ concat (map (export_deleted []) ds)"
    by (induction ds arbitrary: dst) (simp, subst foldl_Cons, subst *(2), simp)
  show "foldl export_new dst ms = dst @ concat (map (export_new []) ms)"
    by (induction ms arbitrary: dst) (simp, subst foldl_Cons, subst *(3), simp)
qed

lemma import_pointers:
  "\<forall>p \<in> set ps. ke_level p < LDB_NUM_LEVELS \<and> ikey_ok (ke_key p) \<Longrightarrow>
   import_loop e (concat (map (export_pointer []) ps) @ rest) =
     import_loop (e\<lparr>ed_compact_pointers := ed_compact_pointers e @ ps\<rparr>) rest"
proof (induction ps arbitrary: e)
  case (Cons p ps)
  have "import_tag e TAG_COMPACT_POINTER (ldb_varint32_write (word_of_nat (ke_level p)) @ ldb_slice_write (ke_key p) @ r) =
      Inr (e\<lparr>ed_compact_pointers := ed_compact_pointers e @ [p]\<rparr>, r)" for r
    using Cons.prems by (simp add: import_defs tag_defs edit_codecs ldb_slice_slurp_def ikey_ok_def
        ldb_edit_set_compact_pointer_def ikey_entry_create_def)
  then show ?case
    using Cons by (simp add: export_pointer_def ldb_slice_export_def import_step)
qed simp

lemma import_deleted:
  "sorted_wrt (\<lambda>x y. file_entry_compare x y < 0) (ed_deleted_files e @ ds) \<Longrightarrow>
   \<forall>d \<in> set ds. fe_level d < LDB_NUM_LEVELS \<Longrightarrow>
   import_loop e (concat (map (export_deleted []) ds) @ rest) =
     import_loop (e\<lparr>ed_deleted_files := ed_deleted_files e @ ds\<rparr>) rest"
proof (induction ds arbitrary: e)
  case (Cons d ds)
  have c: "file_entry_create (fe_level d) (fe_number d) = d" by (simp add: file_entry_create_def)
  have "set_put file_entry_compare d (ed_deleted_files e) = ed_deleted_files e @ [d]"
    using Cons.prems(1) by (intro file_order.set_put_last) (auto simp: sorted_wrt_append)
  then have "import_tag e TAG_DELETED_FILE (ldb_varint32_write (word_of_nat (fe_level d)) @ ldb_varint64_write (fe_number d) @ r) =
      Inr (e\<lparr>ed_deleted_files := ed_deleted_files e @ [d]\<rparr>, r)" for r
    using Cons.prems(2) by (simp add: import_defs tag_defs edit_codecs ldb_edit_remove_file_def c)
  then show ?case
    using Cons.prems Cons.IH [of "e\<lparr>ed_deleted_files := ed_deleted_files e @ [d]\<rparr>"]
    by (simp add: export_deleted_def import_step)
qed simp

lemma import_new:
  "\<forall>m \<in> set ms. meta_entry_ok m \<Longrightarrow>
   import_loop e (concat (map (export_new []) ms) @ rest) =
     import_loop (e\<lparr>ed_new_files := ed_new_files e @ ms\<rparr>) rest"
proof (induction ms arbitrary: e)
  case (Cons m ms)
  have "meta_entry_create (me_level m) (fm_number (me_meta m)) (fm_file_size (me_meta m)) (fm_smallest (me_meta m))
      (fm_largest (me_meta m)) = m"
    using Cons.prems by (cases m, cases "me_meta m") (simp add: meta_entry_create_def ldb_filemeta_init_def meta_entry_ok_def)
  then have "import_tag e TAG_NEW_FILE (ldb_varint32_write (word_of_nat (me_level m)) @
        ldb_varint64_write (fm_number (me_meta m)) @ ldb_varint64_write (fm_file_size (me_meta m)) @
        ldb_slice_write (fm_smallest (me_meta m)) @ ldb_slice_write (fm_largest (me_meta m)) @ r) =
      Inr (e\<lparr>ed_new_files := ed_new_files e @ [m]\<rparr>, r)" for r
    using Cons.prems by (simp add: import_defs tag_defs edit_codecs ldb_slice_slurp_def ldb_edit_add_file_def
        meta_entry_ok_def ikey_ok_def)
  then show ?case
    using Cons by (simp add: export_new_def ldb_slice_export_def Let_def import_step)
qed simp

lemma import_numbers:
  "length name < 2 ^ 32 \<Longrightarrow> import_loop e (ldb_varint32_write TAG_COMPARATOR @ ldb_slice_write name @ rest) =
     import_loop (e\<lparr>ed_comparator := name, ed_has_comparator := True\<rparr>) rest"
  "import_loop e (ldb_varint32_write TAG_LOG_NUMBER @ ldb_varint64_write n @ rest) =
     import_loop (e\<lparr>ed_log_number := n, ed_has_log_number := True\<rparr>) rest"
  "import_loop e (ldb_varint32_write TAG_PREV_LOG_NUMBER @ ldb_varint64_write n @ rest) =
     import_loop (e\<lparr>ed_prev_log_number := n, ed_has_prev_log_number := True\<rparr>) rest"
  "import_loop e (ldb_varint32_write TAG_NEXT_FILE_NUMBER @ ldb_varint64_write n @ rest) =
     import_loop (e\<lparr>ed_next_file_number := n, ed_has_next_file_number := True\<rparr>) rest"
  "import_loop e (ldb_varint32_write TAG_LAST_SEQUENCE @ ldb_varint64_write n @ rest) =
     import_loop (e\<lparr>ed_last_sequence := n, ed_has_last_sequence := True\<rparr>) rest"
  by (simp_all add: import_step import_defs tag_defs edit_codecs ldb_slice_slurp_def)

lemma import_export:
  assumes "edit_ok e"
  shows "ldb_edit_import e0 (ldb_edit_export [] e) = (True, e)"
proof -
  let ?i = "ldb_edit_init"
  let ?c = "if ed_has_comparator e then ldb_varint32_write TAG_COMPARATOR @ ldb_slice_write (ed_comparator e) else []"
    and ?l = "if ed_has_log_number e then ldb_varint32_write TAG_LOG_NUMBER @ ldb_varint64_write (ed_log_number e) else []"
    and ?p = "if ed_has_prev_log_number e then ldb_varint32_write TAG_PREV_LOG_NUMBER @ ldb_varint64_write (ed_prev_log_number e) else []"
    and ?n = "if ed_has_next_file_number e then ldb_varint32_write TAG_NEXT_FILE_NUMBER @ ldb_varint64_write (ed_next_file_number e) else []"
    and ?s = "if ed_has_last_sequence e then ldb_varint32_write TAG_LAST_SEQUENCE @ ldb_varint64_write (ed_last_sequence e) else []"
  have exp: "ldb_edit_export [] e = ?c @ ?l @ ?p @ ?n @ ?s @ concat (map (export_pointer []) (ed_compact_pointers e)) @
      concat (map (export_deleted []) (ed_deleted_files e)) @ concat (map (export_new []) (ed_new_files e)) @ []"
    unfolding ldb_edit_export_def Let_def export_folds ldb_slice_export_def by simp
  note ok = assms [unfolded edit_ok_def]
  have step: "import_loop x (?c @ r) = import_loop (x\<lparr>ed_comparator := ed_comparator e, ed_has_comparator := ed_has_comparator e\<rparr>) r"
    if "ed_comparator x = []" "\<not> ed_has_comparator x" for x r
    using ok that by (cases x) (simp add: import_numbers)
  have step2: "import_loop x (?l @ r) = import_loop (x\<lparr>ed_log_number := ed_log_number e, ed_has_log_number := ed_has_log_number e\<rparr>) r"
    if "ed_log_number x = 0" "\<not> ed_has_log_number x" for x r
    using ok that by (cases x) (simp add: import_numbers)
  have step3: "import_loop x (?p @ r) = import_loop (x\<lparr>ed_prev_log_number := ed_prev_log_number e, ed_has_prev_log_number := ed_has_prev_log_number e\<rparr>) r"
    if "ed_prev_log_number x = 0" "\<not> ed_has_prev_log_number x" for x r
    using ok that by (cases x) (simp add: import_numbers)
  have step4: "import_loop x (?n @ r) = import_loop (x\<lparr>ed_next_file_number := ed_next_file_number e, ed_has_next_file_number := ed_has_next_file_number e\<rparr>) r"
    if "ed_next_file_number x = 0" "\<not> ed_has_next_file_number x" for x r
    using ok that by (cases x) (simp add: import_numbers)
  have step5: "import_loop x (?s @ r) = import_loop (x\<lparr>ed_last_sequence := ed_last_sequence e, ed_has_last_sequence := ed_has_last_sequence e\<rparr>) r"
    if "ed_last_sequence x = 0" "\<not> ed_has_last_sequence x" for x r
    using ok that by (cases x) (simp add: import_numbers)
  have "ldb_edit_import e0 (ldb_edit_export [] e) = import_loop e []"
    unfolding ldb_edit_import_def ldb_edit_reset_def exp
    using ok by (simp only: step step2 step3 step4 step5 ldb_edit_init_def ldb_edit.simps simp_thms)
      (simp add: import_pointers import_deleted import_new [where rest = "[]", simplified], cases e, simp)
  then show ?thesis by (simp add: import_loop.simps)
qed

lemma slice_read_bound: "ldb_slice_read xs = Some (z, ys) \<Longrightarrow> length z < 2 ^ 32"
  using unat_u32_bound by (auto simp: ldb_slice_read_def ldb_zraw_read_def split: option.splits if_splits)

lemma level_slurp_bound: "ldb_level_slurp xs = Some (l, ys) \<Longrightarrow> l < LDB_NUM_LEVELS"
  by (auto simp: ldb_level_slurp_def split: option.splits if_splits)

lemma import_tag_ok:
  assumes "edit_ok e"
  shows "import_tag e tag xs = Inl e' \<Longrightarrow> edit_ok e'" "import_tag e tag xs = Inr (e', ys) \<Longrightarrow> edit_ok e'"
proof -
  note set = edit_ok_setters [OF assms]
  have name: "edit_ok (e\<lparr>ed_comparator := name, ed_has_comparator := True\<rparr>)" if "length name < 2 ^ 32" for name
    using assms that by (simp add: edit_ok_def)
  have num: "edit_ok (e\<lparr>ed_log_number := n, ed_has_log_number := True\<rparr>)"
    "edit_ok (e\<lparr>ed_prev_log_number := n, ed_has_prev_log_number := True\<rparr>)"
    "edit_ok (e\<lparr>ed_next_file_number := n, ed_has_next_file_number := True\<rparr>)"
    "edit_ok (e\<lparr>ed_last_sequence := n, ed_has_last_sequence := True\<rparr>)" for n
    using assms by (simp_all add: edit_ok_def)
  have zero: "edit_ok (e\<lparr>ed_log_number := 0\<rparr>)" "edit_ok (e\<lparr>ed_prev_log_number := 0\<rparr>)" "edit_ok (e\<lparr>ed_next_file_number := 0\<rparr>)"
    "edit_ok (e\<lparr>ed_last_sequence := 0\<rparr>)"
    using assms by (simp_all add: edit_ok_def)
  show "edit_ok e'" if "import_tag e tag xs = Inl e'"
    using that zero assms by (auto simp: import_tag_def import_number_def split: if_splits option.splits)
  have entry: "edit_ok e'" if "import_entry e tag xs = Some (e', ys)" for e'
    using that name
    by (auto simp: import_entry_def ldb_slice_slurp_def ikey_ok_def split: if_splits bind_splits
        dest!: slice_read_bound level_slurp_bound intro!: set)
  show "edit_ok e'" if "import_tag e tag xs = Inr (e', ys)"
  proof (cases "tag \<in> {TAG_LOG_NUMBER, TAG_PREV_LOG_NUMBER, TAG_NEXT_FILE_NUMBER, TAG_LAST_SEQUENCE}")
    case True
    then show ?thesis using that by (auto simp: import_tag_def import_number_def num split: if_splits option.splits)
  next
    case False
    then have "import_entry e tag xs = Some (e', ys)" using that by (simp add: import_tag_def split: option.splits)
    then show ?thesis by (rule entry)
  qed
qed

lemma import_loop_ok: "edit_ok e \<Longrightarrow> edit_ok (snd (import_loop e xs))"
proof (induction e xs rule: import_loop.induct)
  case (1 e xs)
  note tag = import_tag_ok [OF "1.prems"]
  show ?case
    using "1.prems" "1.IH" tag by (subst import_loop.simps) (simp split: option.split sum.split)
qed

section \<open>Properties\<close>

text \<open>C27: an edit that the setters built, with levels below 7 and internal keys of at least 8 and
  fewer than 2^32 bytes, is written by export and read back by import as itself, into
  whatever edit was there.\<close>

theorem edit_roundtrip:
  assumes "edit_built e"
  shows "ldb_edit_import e0 (ldb_edit_export [] e) = (True, e)"
  using import_export [OF edit_built_ok [OF assms]] .

theorem edit_roundtrip_witness:
  "ldb_edit_import ldb_edit_init (ldb_edit_export []
     (ldb_edit_remove_file (ldb_edit_add_file ldb_edit_init 1 5 100 (replicate 8 0) (replicate 9 1)) 0 3)) =
   (True, ldb_edit_remove_file (ldb_edit_add_file ldb_edit_init 1 5 100 (replicate 8 0) (replicate 9 1)) 0 3)"
  by (rule edit_roundtrip) (intro edit_built.intros; simp add: LDB_NUM_LEVELS_def ikey_ok_def)

text \<open>C30: whatever bytes import is given, accepted or not, the edit it leaves is well-formed: levels below 7,
  keys with their 8 byte tag, deleted files without duplicates in order, and no number without its flag but 0; it
  is exported and imported again as itself.\<close>

theorem edit_import_wellformed:
  "edit_ok (snd (ldb_edit_import e0 src)) \<and>
   ldb_edit_import e1 (ldb_edit_export [] (snd (ldb_edit_import e0 src))) = (True, snd (ldb_edit_import e0 src))"
proof -
  have "edit_ok (snd (ldb_edit_import e0 src))"
    unfolding ldb_edit_import_def ldb_edit_reset_def by (rule import_loop_ok [OF edit_ok_init])
  then show ?thesis using import_export by blast
qed

end
