(* ===== verification/Vector.thy ===== *)
theory Vector
  imports Comparator "HOL-Library.Multiset"
begin

text \<open>
  The growable arrays of \<^verbatim>\<open>engine/src/util/vector.c\<close> and \<^verbatim>\<open>engine/src/util/array.c\<close>, with their
  quicksort.  The two files have the same code, one on pointers and one on 64-bit words; an
  array is the list of its items, and its capacity.  The indices of the quicksort are C \<open>int\<close>s: the last one is
  narrowed from a \<open>size_t\<close>, and a sum that does not fit is \<open>None\<close>, as is an access outside of the array.
\<close>

section \<open>Arrays\<close>

record 'a ldb_vector =
  vc_items :: "'a list"
  vc_alloc :: nat

definition ldb_vector_init :: "'a ldb_vector" where
  "ldb_vector_init = \<lparr>vc_items = [], vc_alloc = 0\<rparr>"

definition ldb_vector_clear :: "'a ldb_vector \<Rightarrow> 'a ldb_vector" where
  "ldb_vector_clear z = \<lparr>vc_items = [], vc_alloc = 0\<rparr>"

definition ldb_vector_reset :: "'a ldb_vector \<Rightarrow> 'a ldb_vector" where
  "ldb_vector_reset z = z\<lparr>vc_items := []\<rparr>"

definition ldb_vector_grow :: "'a ldb_vector \<Rightarrow> nat \<Rightarrow> 'a ldb_vector" where
  "ldb_vector_grow z zn = (if zn > vc_alloc z then z\<lparr>vc_alloc := zn\<rparr> else z)"

text \<open>The write of the new item is past the end of the memory when the array is full.\<close>

definition ldb_vector_push :: "'a ldb_vector \<Rightarrow> 'a \<Rightarrow> 'a ldb_vector option" where
  "ldb_vector_push z x =
     (let z = (if length (vc_items z) = vc_alloc z
               then ldb_vector_grow z (vc_alloc z * 3 div 2 + (if vc_alloc z \<le> 1 then 1 else 0)) else z)
      in if length (vc_items z) < vc_alloc z then Some (z\<lparr>vc_items := vc_items z @ [x]\<rparr>) else None)"

definition ldb_vector_pop :: "'a ldb_vector \<Rightarrow> ('a \<times> 'a ldb_vector) option" where
  "ldb_vector_pop z = (if vc_items z = [] then None else Some (last (vc_items z), z\<lparr>vc_items := butlast (vc_items z)\<rparr>))"

definition ldb_vector_top :: "'a ldb_vector \<Rightarrow> 'a option" where
  "ldb_vector_top z = (if vc_items z = [] then None else Some (last (vc_items z)))"

definition ldb_vector_copy :: "'a ldb_vector \<Rightarrow> 'a ldb_vector \<Rightarrow> 'a ldb_vector" where
  "ldb_vector_copy z x = (ldb_vector_grow z (length (vc_items x)))\<lparr>vc_items := vc_items x\<rparr>"

definition ldb_vector_swap :: "'a ldb_vector \<Rightarrow> 'a ldb_vector \<Rightarrow> 'a ldb_vector \<times> 'a ldb_vector" where
  "ldb_vector_swap x y = (y, x)"

section \<open>Quicksort\<close>

definition item_at :: "'a list \<Rightarrow> int \<Rightarrow> 'a option" where
  "item_at items i = (if 0 \<le> i \<and> i < int (length items) then Some (items ! nat i) else None)"

definition ldb_swap :: "'a list \<Rightarrow> int \<Rightarrow> int \<Rightarrow> 'a list" where
  "ldb_swap items i j = items[nat i := items ! nat j, nat j := items ! nat i]"

text \<open>The two inner loops of the partition; \<open>i\<close> and \<open>j\<close> are the values before the first step.\<close>

function scan_up :: "('a \<Rightarrow> 'a \<Rightarrow> int) \<Rightarrow> 'a \<Rightarrow> 'a list \<Rightarrow> int \<Rightarrow> int option" where
  "scan_up cmp pivot items i =
     (case item_at items (i + 1) of
        None \<Rightarrow> None
      | Some x \<Rightarrow> if cmp x pivot < 0 then scan_up cmp pivot items (i + 1) else Some (i + 1))"
  by pat_completeness auto
termination
  by (relation "measure (\<lambda>(_, _, items, i). nat (int (length items) - i))") (auto simp: item_at_def split: if_splits)

function scan_down :: "('a \<Rightarrow> 'a \<Rightarrow> int) \<Rightarrow> 'a \<Rightarrow> 'a list \<Rightarrow> int \<Rightarrow> int option" where
  "scan_down cmp pivot items j =
     (case item_at items (j - 1) of
        None \<Rightarrow> None
      | Some x \<Rightarrow> if cmp x pivot > 0 then scan_down cmp pivot items (j - 1) else Some (j - 1))"
  by pat_completeness auto
termination
  by (relation "measure (\<lambda>(_, _, _, j). nat j)") (auto simp: item_at_def split: if_splits)

declare scan_up.simps [simp del] scan_down.simps [simp del]

lemma scan_up_after: "scan_up cmp pivot items i = Some i' \<Longrightarrow> i < i'"
  by (induction cmp pivot items i rule: scan_up.induct) (subst (asm) scan_up.simps, auto split: option.splits if_splits)

lemma scan_down_before: "scan_down cmp pivot items j = Some j' \<Longrightarrow> j' < j"
  by (induction cmp pivot items j rule: scan_down.induct) (subst (asm) scan_down.simps, auto split: option.splits if_splits)

function partition_loop :: "('a \<Rightarrow> 'a \<Rightarrow> int) \<Rightarrow> 'a \<Rightarrow> 'a list \<Rightarrow> int \<Rightarrow> int \<Rightarrow> (int \<times> 'a list) option" where
  "partition_loop cmp pivot items i j =
     (case (scan_up cmp pivot items i, scan_down cmp pivot items j) of
        (Some i, Some j) \<Rightarrow> if i \<ge> j then Some (j, items) else partition_loop cmp pivot (ldb_swap items i j) i j
      | _ \<Rightarrow> None)"
  by pat_completeness auto
termination
  by (relation "measure (\<lambda>(_, _, _, i, j). nat (j - i))") (auto dest!: scan_up_after [OF sym] scan_down_before [OF sym])

declare partition_loop.simps [simp del]

definition ldb_partition :: "'a list \<Rightarrow> int \<Rightarrow> int \<Rightarrow> ('a \<Rightarrow> 'a \<Rightarrow> int) \<Rightarrow> (int \<times> 'a list) option" where
  "ldb_partition items lo hi cmp =
     (if hi + lo \<ge> 2 ^ 31 then None
      else
        (case item_at items ((hi + lo) div 2) of
           None \<Rightarrow> None
         | Some pivot \<Rightarrow> partition_loop cmp pivot items (lo - 1) (hi + 1)))"

partial_function (option) ldb_qsort :: "'a list \<Rightarrow> int \<Rightarrow> int \<Rightarrow> ('a \<Rightarrow> 'a \<Rightarrow> int) \<Rightarrow> 'a list option" where
  "ldb_qsort items lo hi cmp =
     (if lo \<ge> 0 \<and> hi \<ge> 0 \<and> lo < hi then
        Option.bind (ldb_partition items lo hi cmp) (\<lambda>(p, items).
        Option.bind (ldb_qsort items lo p cmp) (\<lambda>items. ldb_qsort items (p + 1) hi cmp))
      else Some items)"

definition ldb_vector_sort :: "'a ldb_vector \<Rightarrow> ('a \<Rightarrow> 'a \<Rightarrow> int) \<Rightarrow> 'a ldb_vector option" where
  "ldb_vector_sort z cmp =
     (if length (vc_items z) > 1
      then map_option (\<lambda>items. z\<lparr>vc_items := items\<rparr>) (ldb_qsort (vc_items z) 0 (sint (word_of_nat (length (vc_items z) - 1) :: 32 word)) cmp)
      else Some z)"

section \<open>The arrays keep what is pushed\<close>

lemma vector_push_ok:
  assumes "length (vc_items z) \<le> vc_alloc z"
  shows "\<exists>z'. ldb_vector_push z x = Some z' \<and> vc_items z' = vc_items z @ [x] \<and> length (vc_items z') \<le> vc_alloc z'"
proof (cases "vc_alloc z \<le> 1")
  case True
  then have "vc_alloc z = 0 \<or> vc_alloc z = 1" by auto
  then show ?thesis using assms by (auto simp: ldb_vector_push_def ldb_vector_grow_def Let_def)
next
  case False
  then have "vc_alloc z < vc_alloc z * 3 div 2" by simp
  then show ?thesis using False assms by (auto simp: ldb_vector_push_def ldb_vector_grow_def Let_def)
qed

section \<open>Quicksort sorts\<close>

text \<open>The items of a range are rearranged, and the others stay.\<close>

definition moved :: "int \<Rightarrow> int \<Rightarrow> 'a list \<Rightarrow> 'a list \<Rightarrow> bool" where
  "moved lo hi xs ys \<longleftrightarrow> mset ys = mset xs \<and> length ys = length xs \<and>
     (\<forall>m. 0 \<le> m \<longrightarrow> m < lo \<or> hi < m \<longrightarrow> ys ! nat m = xs ! nat m) \<and>
     (\<lambda>m. ys ! nat m) ` {lo..hi} \<subseteq> (\<lambda>m. xs ! nat m) ` {lo..hi}"

lemma moved_refl [simp]: "moved lo hi xs xs"
  by (simp add: moved_def)

lemma moved_trans: "moved lo hi xs ys \<Longrightarrow> moved lo hi ys zs \<Longrightarrow> moved lo hi xs zs"
  unfolding moved_def by (elim conjE) (intro conjI; simp)

lemma moved_in:
  assumes "moved lo hi xs ys" "\<And>m. lo \<le> m \<Longrightarrow> m \<le> hi \<Longrightarrow> P (xs ! nat m)" "lo \<le> m" "m \<le> hi"
  shows "P (ys ! nat m)"
proof -
  have "ys ! nat m \<in> (\<lambda>m. xs ! nat m) ` {lo..hi}" using assms(1,3,4) by (auto simp: moved_def)
  then show ?thesis using assms(2) by auto
qed

lemma moved_out: "moved lo hi xs ys \<Longrightarrow> 0 \<le> m \<Longrightarrow> m < lo \<or> hi < m \<Longrightarrow> ys ! nat m = xs ! nat m"
  unfolding moved_def by blast

lemma moved_wider:
  assumes "moved lo' hi' xs ys" "0 \<le> lo" "lo \<le> lo'" "hi' \<le> hi"
  shows "moved lo hi xs ys"
proof -
  have "ys ! nat m \<in> (\<lambda>m. xs ! nat m) ` {lo..hi}" if m: "lo \<le> m" "m \<le> hi" for m
  proof (cases "lo' \<le> m \<and> m \<le> hi'")
    case True
    then show ?thesis using moved_in [OF assms(1), of "\<lambda>y. y \<in> (\<lambda>m. xs ! nat m) ` {lo..hi}" m] assms(3,4) by auto
  next
    case False
    then show ?thesis using moved_out [OF assms(1), of m] m assms(2) by auto
  qed
  then show ?thesis using assms unfolding moved_def by auto
qed

lemma swap_at:
  assumes "0 \<le> i" "0 \<le> j" "i < int (length xs)" "j < int (length xs)" "0 \<le> m"
  shows "ldb_swap xs i j ! nat m = (if m = i then xs ! nat j else if m = j then xs ! nat i else xs ! nat m)"
  using assms by (auto simp: ldb_swap_def nth_list_update)

lemma swap_moved:
  assumes "0 \<le> lo" "lo \<le> i" "i \<le> hi" "lo \<le> j" "j \<le> hi" "hi < int (length xs)"
  shows "moved lo hi xs (ldb_swap xs i j)"
proof -
  have "mset (ldb_swap xs i j) = mset xs" using assms unfolding ldb_swap_def by (intro mset_swap) auto
  moreover have "ldb_swap xs i j ! nat m \<in> (\<lambda>m. xs ! nat m) ` {lo..hi}" if "lo \<le> m" "m \<le> hi" for m
    using that assms swap_at [of i j xs m] by auto
  moreover have "ldb_swap xs i j ! nat m = xs ! nat m" if "0 \<le> m" "m < lo \<or> hi < m" for m
    using that assms swap_at [of i j xs m] by auto
  moreover have "length (ldb_swap xs i j) = length xs" by (simp add: ldb_swap_def)
  ultimately show ?thesis unfolding moved_def by auto
qed

lemma scan_up_stops:
  assumes "- 1 \<le> i" "i < k" "k < int (length items)" "\<not> cmp (items ! nat k) pivot < 0"
  shows "\<exists>i'. scan_up cmp pivot items i = Some i' \<and> i < i' \<and> i' \<le> k \<and> \<not> cmp (items ! nat i') pivot < 0 \<and>
    (\<forall>m. i < m \<longrightarrow> m < i' \<longrightarrow> cmp (items ! nat m) pivot < 0)"
  using assms
proof (induction cmp pivot items i rule: scan_up.induct)
  case (1 cmp pivot items i)
  have at: "item_at items (i + 1) = Some (items ! nat (i + 1))" using 1(2-4) by (simp add: item_at_def)
  show ?case
  proof (cases "cmp (items ! nat (i + 1)) pivot < 0")
    case True
    then have ne: "i + 1 \<noteq> k" using 1(5) by auto
    obtain i' where i': "scan_up cmp pivot items (i + 1) = Some i'" "i + 1 < i'" "i' \<le> k" "\<not> cmp (items ! nat i') pivot < 0"
      "\<forall>m. i + 1 < m \<longrightarrow> m < i' \<longrightarrow> cmp (items ! nat m) pivot < 0"
      using 1(1) [OF at True] 1(2-5) ne by auto
    have "cmp (items ! nat m) pivot < 0" if "i < m" "m < i'" for m
      using that i'(5) True by (cases "m = i + 1") auto
    then show ?thesis using i' True at by (subst scan_up.simps) auto
  next
    case False
    then show ?thesis using at 1(3) by (subst scan_up.simps) auto
  qed
qed

lemma scan_down_stops:
  assumes "j \<le> int (length items)" "k < j" "0 \<le> k" "\<not> cmp (items ! nat k) pivot > 0"
  shows "\<exists>j'. scan_down cmp pivot items j = Some j' \<and> j' < j \<and> k \<le> j' \<and> \<not> cmp (items ! nat j') pivot > 0 \<and>
    (\<forall>m. j' < m \<longrightarrow> m < j \<longrightarrow> cmp (items ! nat m) pivot > 0)"
  using assms
proof (induction cmp pivot items j rule: scan_down.induct)
  case (1 cmp pivot items j)
  have at: "item_at items (j - 1) = Some (items ! nat (j - 1))" using 1(2-4) by (simp add: item_at_def)
  show ?case
  proof (cases "cmp (items ! nat (j - 1)) pivot > 0")
    case True
    then have ne: "j - 1 \<noteq> k" using 1(5) by auto
    obtain j' where j': "scan_down cmp pivot items (j - 1) = Some j'" "j' < j - 1" "k \<le> j'" "\<not> cmp (items ! nat j') pivot > 0"
      "\<forall>m. j' < m \<longrightarrow> m < j - 1 \<longrightarrow> cmp (items ! nat m) pivot > 0"
      using 1(1) [OF at True] 1(2-5) ne by auto
    have "cmp (items ! nat m) pivot > 0" if "j' < m" "m < j" for m
      using that j'(5) True by (cases "m = j - 1") auto
    then show ?thesis using j' True at by (subst scan_down.simps) auto
  next
    case False
    then show ?thesis using at 1(3) by (subst scan_down.simps) auto
  qed
qed

text \<open>The partition: the two scans stay within the range, because each meets an item that stops it.\<close>

lemma partition_loop_ok:
  fixes cmp :: "'a \<Rightarrow> 'a \<Rightarrow> int"
  assumes "0 \<le> lo" "hi < int (length items)" "lo - 1 \<le> i" "j \<le> hi + 1"
    and "\<forall>m. lo \<le> m \<longrightarrow> m \<le> i \<longrightarrow> cmp (items ! nat m) pivot \<le> 0" "\<forall>m. j \<le> m \<longrightarrow> m \<le> hi \<longrightarrow> cmp (items ! nat m) pivot \<ge> 0"
    and "\<exists>k. i < k \<and> k \<le> hi \<and> (k < hi \<or> j \<le> hi) \<and> \<not> cmp (items ! nat k) pivot < 0"
    and "\<exists>k. lo \<le> k \<and> k < j \<and> \<not> cmp (items ! nat k) pivot > 0"
  shows "\<exists>p items'. partition_loop cmp pivot items i j = Some (p, items') \<and> lo \<le> p \<and> p < hi \<and> moved lo hi items items' \<and>
    (\<forall>m. lo \<le> m \<longrightarrow> m \<le> p \<longrightarrow> cmp (items' ! nat m) pivot \<le> 0) \<and> (\<forall>m. p < m \<longrightarrow> m \<le> hi \<longrightarrow> cmp (items' ! nat m) pivot \<ge> 0)"
  using assms
proof (induction cmp pivot items i j rule: partition_loop.induct)
  case (1 cmp pivot items i j)
  obtain k where k: "i < k" "k \<le> hi" "k < hi \<or> j \<le> hi" "\<not> cmp (items ! nat k) pivot < 0" using 1(8) by blast
  obtain l where l: "lo \<le> l" "l < j" "\<not> cmp (items ! nat l) pivot > 0" using 1(9) by blast
  obtain i' where i': "scan_up cmp pivot items i = Some i'" "i < i'" "i' \<le> k" "\<not> cmp (items ! nat i') pivot < 0"
    "\<forall>m. i < m \<longrightarrow> m < i' \<longrightarrow> cmp (items ! nat m) pivot < 0"
    using scan_up_stops [of i k items cmp pivot] k 1(2-4) by auto
  obtain j' where j': "scan_down cmp pivot items j = Some j'" "j' < j" "l \<le> j'" "\<not> cmp (items ! nat j') pivot > 0"
    "\<forall>m. j' < m \<longrightarrow> m < j \<longrightarrow> cmp (items ! nat m) pivot > 0"
    using scan_down_stops [of j items l cmp pivot] l 1(2,3,5) by auto
  have low: "cmp (items ! nat m) pivot \<le> 0" if "lo \<le> m" "m < i'" for m
    using 1(6) i'(5) that by (cases "m \<le> i") (auto simp: less_imp_le)
  have high: "cmp (items ! nat m) pivot \<ge> 0" if "j' < m" "m \<le> hi" for m
    using 1(7) j'(5) that by (cases "j \<le> m") (auto simp: less_imp_le)
  show ?case
  proof (cases "i' \<ge> j'")
    case True
    have "cmp (items ! nat m) pivot \<le> 0" if "lo \<le> m" "m \<le> j'" for m
      using that low [of m] True j'(4) by (cases "m = j'") auto
    moreover have "j' < hi" using True i'(3) k(2,3) j'(2) by auto
    ultimately show ?thesis using i'(1) j'(1,3) l(1) True high by (subst partition_loop.simps) auto
  next
    case False
    let ?items = "ldb_swap items i' j'"
    have b: "lo \<le> i'" "i' \<le> hi" "lo \<le> j'" "j' \<le> hi" using i'(2,3) k(2) 1(4,5) j'(2,3) l(1) by auto
    have sw: "?items ! nat m = (if m = i' then items ! nat j' else if m = j' then items ! nat i' else items ! nat m)" if "0 \<le> m" for m
      using swap_at [of i' j' items m] b 1(2,3) that by simp
    have mv: "moved lo hi items ?items" using swap_moved [of lo i' hi j' items] b 1(2,3) by simp
    have "\<exists>p items'. partition_loop cmp pivot ?items i' j' = Some (p, items') \<and> lo \<le> p \<and> p < hi \<and> moved lo hi ?items items' \<and>
      (\<forall>m. lo \<le> m \<longrightarrow> m \<le> p \<longrightarrow> cmp (items' ! nat m) pivot \<le> 0) \<and> (\<forall>m. p < m \<longrightarrow> m \<le> hi \<longrightarrow> cmp (items' ! nat m) pivot \<ge> 0)"
    proof (rule 1(1) [OF refl i'(1) j'(1) False])
      show "hi < int (length ?items)" using 1(3) by (simp add: ldb_swap_def)
      show "\<forall>m. lo \<le> m \<longrightarrow> m \<le> i' \<longrightarrow> cmp (?items ! nat m) pivot \<le> 0" using sw low j'(4) False 1(2) by auto
      show "\<forall>m. j' \<le> m \<longrightarrow> m \<le> hi \<longrightarrow> cmp (?items ! nat m) pivot \<ge> 0" using sw high i'(4) False 1(2) b by auto
      show "\<exists>k. i' < k \<and> k \<le> hi \<and> (k < hi \<or> j' \<le> hi) \<and> \<not> cmp (?items ! nat k) pivot < 0"
        using sw [of j'] False b 1(2) i'(4) by (intro exI [of _ j']) auto
      show "\<exists>k. lo \<le> k \<and> k < j' \<and> \<not> cmp (?items ! nat k) pivot > 0"
        using sw [of i'] False b 1(2) j'(4) by (intro exI [of _ i']) auto
    qed (use 1(2) b in auto)
    then show ?thesis using mv moved_trans i'(1) j'(1) False by (subst partition_loop.simps) fastforce
  qed
qed

lemma moved_valid: "moved lo hi xs ys \<Longrightarrow> set ys = set xs"
  unfolding moved_def by (metis set_mset_mset)

lemma moved_length: "moved lo hi xs ys \<Longrightarrow> length ys = length xs"
  by (simp add: moved_def)

context comparator
begin

lemma partition_ok:
  assumes "\<forall>x \<in> set items. valid x" "0 \<le> lo" "lo < hi" "hi < int (length items)" "length items \<le> 2 ^ 30"
  shows "\<exists>p items' pivot. ldb_partition items lo hi cmp = Some (p, items') \<and> lo \<le> p \<and> p < hi \<and> moved lo hi items items' \<and> valid pivot \<and>
    (\<forall>m. lo \<le> m \<longrightarrow> m \<le> p \<longrightarrow> cmp (items' ! nat m) pivot \<le> 0) \<and> (\<forall>m. p < m \<longrightarrow> m \<le> hi \<longrightarrow> cmp (items' ! nat m) pivot \<ge> 0)"
proof -
  let ?mid = "(hi + lo) div 2" let ?pivot = "items ! nat ?mid"
  have mid: "lo \<le> ?mid" "?mid < hi" using assms(2,3) by auto
  have v: "valid ?pivot" using assms(1,2,4) mid by simp
  have "\<exists>p items'. partition_loop cmp ?pivot items (lo - 1) (hi + 1) = Some (p, items') \<and> lo \<le> p \<and> p < hi \<and> moved lo hi items items' \<and>
    (\<forall>m. lo \<le> m \<longrightarrow> m \<le> p \<longrightarrow> cmp (items' ! nat m) ?pivot \<le> 0) \<and> (\<forall>m. p < m \<longrightarrow> m \<le> hi \<longrightarrow> cmp (items' ! nat m) ?pivot \<ge> 0)"
  proof (rule partition_loop_ok)
    show "\<exists>k. lo - 1 < k \<and> k \<le> hi \<and> (k < hi \<or> hi + 1 \<le> hi) \<and> \<not> cmp (items ! nat k) ?pivot < 0"
      using mid cmp_refl [OF v] by (intro exI [of _ ?mid]) auto
    show "\<exists>k. lo \<le> k \<and> k < hi + 1 \<and> \<not> 0 < cmp (items ! nat k) ?pivot"
      using mid cmp_refl [OF v] by (intro exI [of _ ?mid]) auto
  qed (use assms(2,4) in auto)
  moreover have "ldb_partition items lo hi cmp = partition_loop cmp ?pivot items (lo - 1) (hi + 1)"
    using assms(2,4,5) mid by (simp add: ldb_partition_def item_at_def)
  ultimately show ?thesis using v by auto
qed

lemma qsort_ok:
  assumes "\<forall>x \<in> set items. valid x" "0 \<le> lo" "hi < int (length items)" "length items \<le> 2 ^ 30"
  shows "\<exists>items'. ldb_qsort items lo hi cmp = Some items' \<and> moved lo hi items items' \<and>
    (\<forall>a b. lo \<le> a \<longrightarrow> a \<le> b \<longrightarrow> b \<le> hi \<longrightarrow> cmp (items' ! nat a) (items' ! nat b) \<le> 0)"
  using assms
proof (induction "nat (hi - lo)" arbitrary: items lo hi rule: less_induct)
  case less
  show ?case
  proof (cases "lo < hi")
    case False
    have "cmp (items ! nat a) (items ! nat b) \<le> 0" if "lo \<le> a" "a \<le> b" "b \<le> hi" for a b
    proof -
      have "a = b" "valid (items ! nat a)" using that False less.prems by auto
      then show ?thesis using cmp_refl by simp
    qed
    then show ?thesis using False by (subst ldb_qsort.simps) auto
  next
    case True
    obtain p xs pivot where p: "ldb_partition items lo hi cmp = Some (p, xs)" "lo \<le> p" "p < hi" "moved lo hi items xs" "valid pivot"
      "\<And>m. lo \<le> m \<Longrightarrow> m \<le> p \<Longrightarrow> cmp (xs ! nat m) pivot \<le> 0" "\<And>m. p < m \<Longrightarrow> m \<le> hi \<Longrightarrow> cmp (xs ! nat m) pivot \<ge> 0"
      using partition_ok [OF less.prems(1,2) True less.prems(3,4)] by blast
    have xs: "\<forall>x \<in> set xs. valid x" "length xs = length items" using moved_valid [OF p(4)] moved_length [OF p(4)] less.prems(1) by auto
    obtain ys where ys: "ldb_qsort xs lo p cmp = Some ys" "moved lo p xs ys"
      "\<And>a b. lo \<le> a \<Longrightarrow> a \<le> b \<Longrightarrow> b \<le> p \<Longrightarrow> cmp (ys ! nat a) (ys ! nat b) \<le> 0"
      using less.hyps [of p lo xs] p(2,3) True xs less.prems(2,3,4) by auto
    have ysv: "\<forall>x \<in> set ys. valid x" "length ys = length items" using moved_valid [OF ys(2)] moved_length [OF ys(2)] xs by auto
    obtain zs where zs: "ldb_qsort ys (p + 1) hi cmp = Some zs" "moved (p + 1) hi ys zs"
      "\<And>a b. p + 1 \<le> a \<Longrightarrow> a \<le> b \<Longrightarrow> b \<le> hi \<Longrightarrow> cmp (zs ! nat a) (zs ! nat b) \<le> 0"
      using less.hyps [of hi "p + 1" ys] p(2,3) True ysv less.prems(2,3,4) by auto
    have zsv: "\<forall>x \<in> set zs. valid x" "length zs = length items" using moved_valid [OF zs(2)] moved_length [OF zs(2)] ysv by auto
    have low: "zs ! nat m = ys ! nat m" if "lo \<le> m" "m \<le> p" for m using moved_out [OF zs(2), of m] that less.prems(2) by auto
    have lowp: "cmp (zs ! nat m) pivot \<le> 0" if "lo \<le> m" "m \<le> p" for m
      using moved_in [OF ys(2), of "\<lambda>x. cmp x pivot \<le> 0" m] p(6) that low [OF that] by auto
    have highy: "cmp (ys ! nat m) pivot \<ge> 0" if "p + 1 \<le> m" "m \<le> hi" for m
      using moved_out [OF ys(2), of m] p(2,7) that less.prems(2) by auto
    have highp: "cmp (zs ! nat m) pivot \<ge> 0" if "p + 1 \<le> m" "m \<le> hi" for m
      using moved_in [OF zs(2), of "\<lambda>x. cmp x pivot \<ge> 0" m] highy that by auto
    have "cmp (zs ! nat a) (zs ! nat b) \<le> 0" if ab: "lo \<le> a" "a \<le> b" "b \<le> hi" for a b
    proof (cases "b \<le> p \<or> p + 1 \<le> a")
      case True
      then show ?thesis using ys(3) [of a b] zs(3) [of a b] low [of a] low [of b] ab by auto
    next
      case False
      have v: "valid (zs ! nat a)" "valid (zs ! nat b)" using zsv ab less.prems(2,3) by auto
      have "cmp pivot (zs ! nat b) \<le> 0" using highp [of b] False ab cmp_ge_iff [OF v(2) p(5)] cmp_ge_iff [OF p(5) v(2)] by auto
      then show ?thesis using lowp [of a] False ab cmp_trans [OF v(1) p(5) v(2)] by auto
    qed
    moreover have "moved lo hi items zs"
    proof -
      have "moved lo hi xs ys" using moved_wider [OF ys(2), of lo hi] p(3) less.prems(2) by simp
      moreover have "moved lo hi ys zs" using moved_wider [OF zs(2), of lo hi] p(2) less.prems(2) by simp
      ultimately show ?thesis using p(4) moved_trans by blast
    qed
    ultimately show ?thesis using p(1) ys(1) zs(1) True less.prems(2) by (subst ldb_qsort.simps) auto
  qed
qed

lemma vector_sort_ok:
  assumes "\<forall>x \<in> set (vc_items z). valid x" "length (vc_items z) \<le> 2 ^ 30"
  shows "\<exists>items. ldb_vector_sort z cmp = Some (z\<lparr>vc_items := items\<rparr>) \<and> mset items = mset (vc_items z) \<and> sorted_wrt (\<lambda>x y. cmp x y \<le> 0) items"
proof (cases "length (vc_items z) > 1")
  case True
  let ?n = "int (length (vc_items z)) - 1"
  obtain ys where ys: "ldb_qsort (vc_items z) 0 ?n cmp = Some ys" "moved 0 ?n (vc_items z) ys"
    "\<And>a b. 0 \<le> a \<Longrightarrow> a \<le> b \<Longrightarrow> b \<le> ?n \<Longrightarrow> cmp (ys ! nat a) (ys ! nat b) \<le> 0"
    using qsort_ok [OF assms(1), of 0 ?n] assms(2) by auto
  have "sint (word_of_nat m :: 32 word) = int m" if "m < 2 ^ 31" for m
    using that by (simp add: signed_of_nat signed_take_bit_int_eq_self)
  moreover have "length (vc_items z) - 1 < 2 ^ 31" "int (length (vc_items z) - 1) = ?n" using True assms(2) by simp_all
  ultimately have "sint (word_of_nat (length (vc_items z) - 1) :: 32 word) = ?n" by metis
  moreover have len: "length ys = length (vc_items z)" "mset ys = mset (vc_items z)" using ys(2) by (simp_all add: moved_def)
  moreover have "sorted_wrt (\<lambda>x y. cmp x y \<le> 0) ys"
    unfolding sorted_wrt_iff_nth_less using ys(3) [of "int _" "int _"] len(1) by auto
  ultimately show ?thesis using True ys(1) by (auto simp: ldb_vector_sort_def)
next
  case False
  then have "sorted_wrt (\<lambda>x y. cmp x y \<le> 0) (vc_items z)" by (cases "vc_items z") auto
  then show ?thesis using False by (auto simp: ldb_vector_sort_def intro!: exI [of _ "vc_items z"])
qed

end

text \<open>C29: for every comparison function with the laws of an order, the quicksort of an array of up to
  \<open>2 ^ 30\<close> items, the range in which the sum of two indices is a C \<open>int\<close>, returns, never reads outside of
  the array, and leaves the same items in sorted order.\<close>

theorem vector_sort_sorts:
  assumes "comparator cmp valid" "\<forall>x \<in> set (vc_items z). valid x" "length (vc_items z) \<le> 2 ^ 30"
  shows "\<exists>items. ldb_vector_sort z cmp = Some (z\<lparr>vc_items := items\<rparr>) \<and> mset items = mset (vc_items z) \<and> sorted_wrt (\<lambda>x y. cmp x y \<le> 0) items"
  by (rule comparator.vector_sort_ok [OF assms])

theorem vector_sort_sorts_witness:
  "\<exists>items. ldb_vector_sort \<lparr>vc_items = [[3], [1], [2]], vc_alloc = 3\<rparr> slice_compare = Some \<lparr>vc_items = items, vc_alloc = 3\<rparr> \<and>
    mset items = {#[1], [2], [3]#}"
  using vector_sort_sorts [OF bytewise.comparator_axioms, of "\<lparr>vc_items = [[3], [1], [2]], vc_alloc = 3\<rparr>"] by (auto simp: add_mset_commute)

end
