(* ===== verification/Version.thy ===== *)
theory Version
  imports Table_Cache Version_Edit Vector Complex_Main
begin

text \<open>
  A version of the database: the files of each level, and the searches over them
  (\<^verbatim>\<open>engine/src/version_set.c\<close>, up to the debug printer).  The vectors of files are lists.  A file
  is shared between versions through a pointer; here a version has its own copy of what the file
  says, and a file is known by its number.  \<open>uc\<close> is the user comparator of the version set,
  whose internal key comparator is \<open>ldb_ikc_init uc\<close>.  Indices of files (\<^verbatim>\<open>uint32_t\<close>) and
  sums of file sizes (\<^verbatim>\<open>int64_t\<close>) are unbounded numbers; the compaction score, a \<open>double\<close> in the code, is the exact quotient.
\<close>

section \<open>Sizes\<close>

definition LDB_MAX_MEM_COMPACT_LEVEL :: nat where
  "LDB_MAX_MEM_COMPACT_LEVEL = 2"

definition target_file_size :: "ldb_dbopt \<Rightarrow> nat" where
  "target_file_size options = op_max_file_size options"

definition max_grandparent_overlap_bytes :: "ldb_dbopt \<Rightarrow> nat" where
  "max_grandparent_overlap_bytes options = 10 * target_file_size options"

definition expanded_compaction_byte_size_limit :: "ldb_dbopt \<Rightarrow> nat" where
  "expanded_compaction_byte_size_limit options = 25 * target_file_size options"

definition max_file_size_for_level :: "ldb_dbopt \<Rightarrow> nat \<Rightarrow> nat" where
  "max_file_size_for_level options level = target_file_size options"

definition total_file_size :: "ldb_filemeta list \<Rightarrow> nat" where
  "total_file_size files = foldl (\<lambda>sum f. sum + unat (fm_file_size f)) 0 files"

section \<open>Files and ranges\<close>

function find_file_loop :: "ldb_comparator \<Rightarrow> ldb_filemeta list \<Rightarrow> bytes \<Rightarrow> nat \<Rightarrow> nat \<Rightarrow> nat" where
  "find_file_loop icmp files key left right =
     (if left < right then
        (let mid = (left + right) div 2
         in if ldb_compare icmp (fm_largest (files ! mid)) key < 0
            then find_file_loop icmp files key (mid + 1) right
            else find_file_loop icmp files key left mid)
      else right)"
  by pat_completeness auto
termination
  by (relation "measure (\<lambda>(_, _, _, left, right). right - left)") auto

declare find_file_loop.simps [simp del]

definition find_file :: "ldb_comparator \<Rightarrow> ldb_filemeta list \<Rightarrow> bytes \<Rightarrow> nat" where
  "find_file icmp files key = find_file_loop icmp files key 0 (length files)"

text \<open>A missing bound is \<open>None\<close>, the null pointer.\<close>

definition after_file :: "ldb_comparator \<Rightarrow> bytes option \<Rightarrow> ldb_filemeta \<Rightarrow> bool" where
  "after_file ucmp user_key f =
     (case user_key of None \<Rightarrow> False | Some k \<Rightarrow> ldb_compare ucmp k (ldb_extract_user_key (fm_largest f)) > 0)"

definition before_file :: "ldb_comparator \<Rightarrow> bytes option \<Rightarrow> ldb_filemeta \<Rightarrow> bool" where
  "before_file ucmp user_key f =
     (case user_key of None \<Rightarrow> False | Some k \<Rightarrow> ldb_compare ucmp k (ldb_extract_user_key (fm_smallest f)) < 0)"

fun overlap_scan :: "ldb_comparator \<Rightarrow> bytes option \<Rightarrow> bytes option \<Rightarrow> ldb_filemeta list \<Rightarrow> bool" where
  "overlap_scan ucmp smallest_user_key largest_user_key [] = False"
| "overlap_scan ucmp smallest_user_key largest_user_key (f # files) =
     (if after_file ucmp smallest_user_key f \<or> before_file ucmp largest_user_key f
      then overlap_scan ucmp smallest_user_key largest_user_key files else True)"

definition some_file_overlaps_range :: "ldb_comparator \<Rightarrow> bool \<Rightarrow> ldb_filemeta list \<Rightarrow> bytes option \<Rightarrow> bytes option \<Rightarrow> bool" where
  "some_file_overlaps_range uc disjoint_sorted_files files smallest_user_key largest_user_key =
     (if \<not> disjoint_sorted_files then overlap_scan uc smallest_user_key largest_user_key files
      else
        (let index = (case smallest_user_key of
                        None \<Rightarrow> 0
                      | Some k \<Rightarrow> find_file (ldb_ikc_init uc) files (ldb_ikey_set k MAX_SEQUENCE VALTYPE_SEEK))
         in if index \<ge> length files then False else \<not> before_file uc largest_user_key (files ! index)))"

section \<open>The iterator over the files of a level\<close>

record ldb_numiter =
  ni_icmp :: ldb_comparator
  ni_flist :: "ldb_filemeta list"
  ni_index :: nat

definition ldb_numiter_init :: "ldb_comparator \<Rightarrow> ldb_filemeta list \<Rightarrow> ldb_numiter" where
  "ldb_numiter_init icmp flist = \<lparr>ni_icmp = icmp, ni_flist = flist, ni_index = length flist\<rparr>"

definition ldb_numiter_valid :: "ldb_numiter \<Rightarrow> bool" where
  "ldb_numiter_valid iter \<longleftrightarrow> ni_index iter < length (ni_flist iter)"

definition ldb_numiter_seek :: "ldb_numiter \<Rightarrow> bytes \<Rightarrow> ldb_numiter" where
  "ldb_numiter_seek iter target = iter\<lparr>ni_index := find_file (ni_icmp iter) (ni_flist iter) target\<rparr>"

definition ldb_numiter_first :: "ldb_numiter \<Rightarrow> ldb_numiter" where
  "ldb_numiter_first iter = iter\<lparr>ni_index := 0\<rparr>"

definition ldb_numiter_last :: "ldb_numiter \<Rightarrow> ldb_numiter" where
  "ldb_numiter_last iter = iter\<lparr>ni_index := (if length (ni_flist iter) = 0 then 0 else length (ni_flist iter) - 1)\<rparr>"

definition ldb_numiter_next :: "ldb_numiter \<Rightarrow> ldb_numiter" where
  "ldb_numiter_next iter = iter\<lparr>ni_index := ni_index iter + 1\<rparr>"

definition ldb_numiter_prev :: "ldb_numiter \<Rightarrow> ldb_numiter" where
  "ldb_numiter_prev iter =
     iter\<lparr>ni_index := (if ni_index iter = 0 then length (ni_flist iter) else ni_index iter - 1)\<rparr>"

definition ldb_numiter_key :: "ldb_numiter \<Rightarrow> bytes" where
  "ldb_numiter_key iter = fm_largest (ni_flist iter ! ni_index iter)"

definition ldb_numiter_value :: "ldb_numiter \<Rightarrow> bytes" where
  "ldb_numiter_value iter =
     (let file = ni_flist iter ! ni_index iter in ldb_fixed64_write (fm_number file) @ ldb_fixed64_write (fm_file_size file))"

definition ldb_numiter_status :: "ldb_numiter \<Rightarrow> status" where
  "ldb_numiter_status iter = OK"

section \<open>Versions\<close>

record ldb_version =
  vr_refs :: nat
  vr_files :: "ldb_filemeta list list"
  vr_file_to_compact :: "ldb_filemeta option"
  vr_file_to_compact_level :: int
  vr_compaction_score :: rat
  vr_compaction_level :: int

definition ldb_version_init :: ldb_version where
  "ldb_version_init =
     \<lparr>vr_refs = 0, vr_files = replicate LDB_NUM_LEVELS [], vr_file_to_compact = None, vr_file_to_compact_level = - 1,
      vr_compaction_score = - 1, vr_compaction_level = - 1\<rparr>"

definition ldb_version_ref :: "ldb_version \<Rightarrow> ldb_version" where
  "ldb_version_ref ver = ver\<lparr>vr_refs := vr_refs ver + 1\<rparr>"

text \<open>The level-0 files from the newest on.\<close>

definition newest_first :: "ldb_filemeta \<Rightarrow> ldb_filemeta \<Rightarrow> int" where
  "newest_first a b =
     (if fm_number b > fm_number a then 1 else 0) - (if fm_number b < fm_number a then 1 else 0)"

definition in_range :: "ldb_comparator \<Rightarrow> bytes \<Rightarrow> ldb_filemeta \<Rightarrow> bool" where
  "in_range ucmp user_key f \<longleftrightarrow>
     ldb_compare ucmp user_key (ldb_extract_user_key (fm_smallest f)) \<ge> 0 \<and>
     ldb_compare ucmp user_key (ldb_extract_user_key (fm_largest f)) \<le> 0"

text \<open>
  \<open>func\<close> is called on one file after the other, with the state it keeps, until it says no;
  the result is whether it never did, and the state.
\<close>

primrec each_file :: "('s \<Rightarrow> nat \<Rightarrow> ldb_filemeta \<Rightarrow> (bool \<times> 's) option) \<Rightarrow> (nat \<times> ldb_filemeta) list \<Rightarrow> 's \<Rightarrow> (bool \<times> 's) option" where
  "each_file func [] s = Some (True, s)"
| "each_file func (lf # lfs) s =
     Option.bind (func s (fst lf) (snd lf)) (\<lambda>(go, s). if go then each_file func lfs s else Some (False, s))"

text \<open>The file of a level above 0 that may hold the key.\<close>

definition level_file :: "ldb_comparator \<Rightarrow> ldb_filemeta list \<Rightarrow> bytes \<Rightarrow> bytes \<Rightarrow> ldb_filemeta option" where
  "level_file uc files user_key internal_key =
     (if length files = 0 then None
      else
        (let index = find_file (ldb_ikc_init uc) files internal_key
         in if index < length files then
              (let f = files ! index
               in if ldb_compare uc user_key (ldb_extract_user_key (fm_smallest f)) < 0 then None else Some f)
            else None))"

definition level_files :: "ldb_comparator \<Rightarrow> ldb_filemeta list list \<Rightarrow> bytes \<Rightarrow> bytes \<Rightarrow> (nat \<times> ldb_filemeta) list" where
  "level_files uc levels user_key internal_key =
     concat (map (\<lambda>level. case level_file uc (levels ! level) user_key internal_key of None \<Rightarrow> [] | Some f \<Rightarrow> [(level, f)])
       [1 ..< LDB_NUM_LEVELS])"

definition ldb_version_for_each_overlapping :: "ldb_comparator \<Rightarrow> ldb_version \<Rightarrow> bytes \<Rightarrow> bytes \<Rightarrow> 's \<Rightarrow>
    ('s \<Rightarrow> nat \<Rightarrow> ldb_filemeta \<Rightarrow> (bool \<times> 's) option) \<Rightarrow> 's option" where
  "ldb_version_for_each_overlapping uc ver user_key internal_key arg func =
     (let tmp = filter (in_range uc user_key) (vr_files ver ! 0);
          z = \<lparr>vc_items = tmp, vc_alloc = length (vr_files ver ! 0)\<rparr>
      in Option.bind
           (if length tmp > 0
            then Option.bind (ldb_vector_sort z newest_first) (\<lambda>z. each_file func (map (Pair 0) (vc_items z)) arg)
            else Some (True, arg))
           (\<lambda>(go, arg). if go then map_option snd (each_file func (level_files uc (vr_files ver) user_key internal_key) arg)
                        else Some arg))"

section \<open>Lookups\<close>

datatype saver_state = S_NOTFOUND | S_FOUND | S_DELETED | S_CORRUPT

text \<open>\<open>sv_value\<close> is the buffer for the value, \<open>None\<close> when the caller wants none.\<close>

record saver =
  sv_state :: saver_state
  sv_ucmp :: ldb_comparator
  sv_user_key :: bytes
  sv_value :: "bytes option"

definition save_value :: "saver \<Rightarrow> bytes \<Rightarrow> bytes \<Rightarrow> saver" where
  "save_value s ikey v =
     (case ldb_pkey_import ikey of
        None \<Rightarrow> s\<lparr>sv_state := S_CORRUPT\<rparr>
      | Some pkey \<Rightarrow>
          if ldb_compare (sv_ucmp s) (pk_user_key pkey) (sv_user_key s) = 0 then
            (let s = s\<lparr>sv_state := (if pk_type pkey = TYPE_VALUE then S_FOUND else S_DELETED)\<rparr>
             in if sv_state s = S_FOUND \<and> sv_value s \<noteq> None then s\<lparr>sv_value := Some v\<rparr> else s)
          else s)"

text \<open>The file that is charged for a second seek, with its level.\<close>

type_synonym ldb_getstats = "(ldb_filemeta \<times> nat) option"

record 's getstate =
  gs_saver :: saver
  gs_stats :: ldb_getstats
  gs_ikey :: bytes
  gs_last_file_read :: "(ldb_filemeta \<times> nat) option"
  gs_cache :: 's
  gs_status :: status
  gs_found :: bool

definition getstate_match :: "('s \<Rightarrow> u64 \<Rightarrow> u64 \<Rightarrow> bytes \<Rightarrow> (status \<times> (bytes \<times> bytes) option \<times> 's) option) \<Rightarrow>
    's getstate \<Rightarrow> nat \<Rightarrow> ldb_filemeta \<Rightarrow> (bool \<times> 's getstate) option" where
  "getstate_match tables_get state level f =
     (let state = (if gs_stats state = None \<and> gs_last_file_read state \<noteq> None
                   then state\<lparr>gs_stats := gs_last_file_read state\<rparr> else state);
          state = state\<lparr>gs_last_file_read := Some (f, level)\<rparr>
      in Option.bind (tables_get (gs_cache state) (fm_number f) (fm_file_size f) (gs_ikey state)) (\<lambda>(rc, result, cache).
           (let state = state\<lparr>gs_status := rc, gs_cache := cache,
                  gs_saver := (case result of None \<Rightarrow> gs_saver state | Some (k, v) \<Rightarrow> save_value (gs_saver state) k v)\<rparr>
            in if gs_status state \<noteq> OK then Some (False, state\<lparr>gs_found := True\<rparr>)
               else
                 (case sv_state (gs_saver state) of
                    S_NOTFOUND \<Rightarrow> Some (True, state)
                  | S_FOUND \<Rightarrow> Some (False, state\<lparr>gs_found := True\<rparr>)
                  | S_DELETED \<Rightarrow> Some (False, state)
                  | S_CORRUPT \<Rightarrow> Some (False, state\<lparr>gs_status := CORRUPTION, gs_found := True\<rparr>)))))"

definition ldb_version_get :: "('s \<Rightarrow> u64 \<Rightarrow> u64 \<Rightarrow> bytes \<Rightarrow> (status \<times> (bytes \<times> bytes) option \<times> 's) option) \<Rightarrow>
    ldb_comparator \<Rightarrow> ldb_version \<Rightarrow> 's \<Rightarrow> ldb_lkey \<Rightarrow> bytes option \<Rightarrow> (status \<times> bytes option \<times> ldb_getstats \<times> 's) option" where
  "ldb_version_get tables_get uc ver cache k value =
     (let saver = \<lparr>sv_state = S_NOTFOUND, sv_ucmp = uc, sv_user_key = ldb_lkey_user_key k, sv_value = value\<rparr>;
          state = \<lparr>gs_saver = saver, gs_stats = None, gs_ikey = ldb_lkey_internal_key k, gs_last_file_read = None, gs_cache = cache,
                   gs_status = OK, gs_found = False\<rparr>
      in map_option (\<lambda>state. (if gs_found state then gs_status state else NOTFOUND, sv_value (gs_saver state), gs_stats state, gs_cache state))
           (ldb_version_for_each_overlapping uc ver (ldb_lkey_user_key k) (ldb_lkey_internal_key k) state (getstate_match tables_get)))"

section \<open>Seek statistics\<close>

text \<open>The count of the file is in the version; the file is the one with its number in its level.\<close>

definition ldb_version_update_stats :: "ldb_version \<Rightarrow> ldb_getstats \<Rightarrow> bool \<times> ldb_version" where
  "ldb_version_update_stats ver stats =
     (case stats of
        None \<Rightarrow> (False, ver)
      | Some (f, level) \<Rightarrow>
          (let spend = (\<lambda>g. if fm_number g = fm_number f then g\<lparr>fm_allowed_seeks := fm_allowed_seeks g - 1\<rparr> else g);
               f = spend f; ver = ver\<lparr>vr_files := (vr_files ver)[level := map spend (vr_files ver ! level)]\<rparr>
           in if fm_allowed_seeks f \<le> 0 \<and> vr_file_to_compact ver = None
              then (True, ver\<lparr>vr_file_to_compact := Some f, vr_file_to_compact_level := int level\<rparr>)
              else (False, ver)))"

definition samplestate_match :: "(ldb_getstats \<times> nat) \<Rightarrow> nat \<Rightarrow> ldb_filemeta \<Rightarrow> (bool \<times> ldb_getstats \<times> nat) option" where
  "samplestate_match state level f =
     (case state of (stats, matches) \<Rightarrow>
        (let matches = matches + 1; stats = (if matches = 1 then Some (f, level) else stats)
         in Some (matches < 2, stats, matches)))"

definition ldb_version_record_read_sample :: "ldb_comparator \<Rightarrow> ldb_version \<Rightarrow> bytes \<Rightarrow> (bool \<times> ldb_version) option" where
  "ldb_version_record_read_sample uc ver ikey =
     (case ldb_pkey_import ikey of
        None \<Rightarrow> Some (False, ver)
      | Some pkey \<Rightarrow>
          Option.bind (ldb_version_for_each_overlapping uc ver (pk_user_key pkey) ikey (None, 0) samplestate_match) (\<lambda>(stats, matches).
            Some (if matches \<ge> 2 then ldb_version_update_stats ver stats else (False, ver))))"

section \<open>Overlapping files\<close>

definition ldb_version_overlap_in_level :: "ldb_comparator \<Rightarrow> ldb_version \<Rightarrow> nat \<Rightarrow> bytes option \<Rightarrow> bytes option \<Rightarrow> bool" where
  "ldb_version_overlap_in_level uc ver level smallest_user_key largest_user_key =
     some_file_overlaps_range uc (level > 0) (vr_files ver ! level) smallest_user_key largest_user_key"

text \<open>
  The loop restarts when a level-0 file widens the range; \<open>rest\<close> are the files from the
  index on.
\<close>

partial_function (option) inputs_loop :: "ldb_comparator \<Rightarrow> bool \<Rightarrow> ldb_filemeta list \<Rightarrow> ldb_filemeta list \<Rightarrow> bytes option \<Rightarrow> bytes option \<Rightarrow>
    ldb_filemeta list \<Rightarrow> ldb_filemeta list option" where
  "inputs_loop uc level0 files rest user_begin user_end inputs =
     (case rest of
        [] \<Rightarrow> Some inputs
      | f # rest \<Rightarrow>
          (let file_start = ldb_extract_user_key (fm_smallest f); file_limit = ldb_extract_user_key (fm_largest f)
           in if user_begin \<noteq> None \<and> ldb_compare uc file_limit (the user_begin) < 0
              then inputs_loop uc level0 files rest user_begin user_end inputs
              else if user_end \<noteq> None \<and> ldb_compare uc file_start (the user_end) > 0
              then inputs_loop uc level0 files rest user_begin user_end inputs
              else if level0 \<and> user_begin \<noteq> None \<and> ldb_compare uc file_start (the user_begin) < 0
              then inputs_loop uc level0 files files (Some file_start) user_end []
              else if level0 \<and> user_end \<noteq> None \<and> ldb_compare uc file_limit (the user_end) > 0
              then inputs_loop uc level0 files files user_begin (Some file_limit) []
              else inputs_loop uc level0 files rest user_begin user_end (inputs @ [f])))"

definition ldb_version_get_overlapping_inputs :: "ldb_comparator \<Rightarrow> ldb_version \<Rightarrow> nat \<Rightarrow> bytes option \<Rightarrow> bytes option \<Rightarrow>
    ldb_filemeta list option" where
  "ldb_version_get_overlapping_inputs uc ver level begin_key end_key =
     inputs_loop uc (level = 0) (vr_files ver ! level) (vr_files ver ! level)
       (map_option ldb_extract_user_key begin_key) (map_option ldb_extract_user_key end_key) []"

text \<open>\<open>n\<close> rounds of the loop are left.\<close>

primrec pick_level :: "ldb_dbopt \<Rightarrow> ldb_comparator \<Rightarrow> ldb_version \<Rightarrow> bytes \<Rightarrow> bytes \<Rightarrow> bytes \<Rightarrow> bytes \<Rightarrow> nat \<Rightarrow> nat \<Rightarrow> nat option" where
  "pick_level options uc ver small_key large_key start limit 0 level = Some level"
| "pick_level options uc ver small_key large_key start limit (Suc n) level =
     (if ldb_version_overlap_in_level uc ver (level + 1) (Some small_key) (Some large_key) then Some level
      else if level + 2 < LDB_NUM_LEVELS then
        Option.bind (ldb_version_get_overlapping_inputs uc ver (level + 2) (Some start) (Some limit)) (\<lambda>overlaps.
          if total_file_size overlaps > max_grandparent_overlap_bytes options then Some level
          else pick_level options uc ver small_key large_key start limit n (level + 1))
      else pick_level options uc ver small_key large_key start limit n (level + 1))"

definition ldb_version_pick_level_for_memtable_output :: "ldb_dbopt \<Rightarrow> ldb_comparator \<Rightarrow> ldb_version \<Rightarrow> bytes \<Rightarrow> bytes \<Rightarrow> nat option" where
  "ldb_version_pick_level_for_memtable_output options uc ver small_key large_key =
     (if ldb_version_overlap_in_level uc ver 0 (Some small_key) (Some large_key) then Some 0
      else pick_level options uc ver small_key large_key (ldb_ikey_set small_key MAX_SEQUENCE VALTYPE_SEEK)
             (ldb_ikey_set large_key 0 TYPE_DELETION) LDB_MAX_MEM_COMPACT_LEVEL 0)"

section \<open>The binary search\<close>

lemma find_file_loop_ok:
  assumes "\<And>i j. i \<le> j \<Longrightarrow> j < length files \<Longrightarrow> ldb_compare icmp (fm_largest (files ! j)) key < 0 \<Longrightarrow> ldb_compare icmp (fm_largest (files ! i)) key < 0"
    and "left \<le> right" "right \<le> length files"
    and "\<And>i. i < left \<Longrightarrow> ldb_compare icmp (fm_largest (files ! i)) key < 0"
    and "\<And>i. right \<le> i \<Longrightarrow> i < length files \<Longrightarrow> \<not> ldb_compare icmp (fm_largest (files ! i)) key < 0"
  shows "find_file_loop icmp files key left right \<le> length files \<and>
    (\<forall>i < length files. i < find_file_loop icmp files key left right \<longleftrightarrow> ldb_compare icmp (fm_largest (files ! i)) key < 0)"
  using assms(2-)
proof (induction "right - left" arbitrary: left right rule: less_induct)
  case (less left right)
  let ?mid = "(left + right) div 2"
  show ?case
  proof (cases "left < right")
    case False
    then have "find_file_loop icmp files key left right = right" by (simp add: find_file_loop.simps [of icmp files key left right])
    moreover have "left = right" using False less.prems(1) by simp
    ultimately show ?thesis using less.prems by (metis le_less_linear)
  next
    case True
    then have mid: "left \<le> ?mid" "?mid < right" "?mid < length files" using less.prems(2) by auto
    show ?thesis
    proof (cases "ldb_compare icmp (fm_largest (files ! ?mid)) key < 0")
      case c: True
      have "ldb_compare icmp (fm_largest (files ! i)) key < 0" if "i < ?mid + 1" for i using assms(1) [of i ?mid] that mid(3) c by simp
      then show ?thesis
        using less.hyps [of right "?mid + 1"] c True mid less.prems(2,4) by (simp add: find_file_loop.simps [of icmp files key left right] Let_def)
    next
      case c: False
      have "\<not> ldb_compare icmp (fm_largest (files ! i)) key < 0" if "?mid \<le> i" "i < length files" for i
        using assms(1) [of ?mid i] that c by blast
      then show ?thesis
        using less.hyps [of ?mid left] c True mid less.prems(2,3) by (simp add: find_file_loop.simps [of icmp files key left right] Let_def)
    qed
  qed
qed

context block_order
begin

text \<open>The files of a level: one after the other, each with its keys in order.\<close>

lemma find_file_ok:
  assumes "sorted_wrt (\<lambda>f g. ldb_compare c (fm_largest f) (fm_smallest g) < 0) files"
    and "\<forall>f \<in> set files. ldb_compare c (fm_smallest f) (fm_largest f) \<le> 0"
  shows "find_file c files key \<le> length files"
    "\<And>i. i < length files \<Longrightarrow> i < find_file c files key \<longleftrightarrow> ldb_compare c (fm_largest (files ! i)) key < 0"
proof -
  have mono: "ldb_compare c (fm_largest (files ! i)) key < 0" if "i \<le> j" "j < length files" "ldb_compare c (fm_largest (files ! j)) key < 0" for i j
  proof (cases "i = j")
    case False
    then have "ldb_compare c (fm_largest (files ! i)) (fm_smallest (files ! j)) < 0" using sorted_wrt_nth_less [OF assms(1)] that(1,2) by simp
    moreover have "ldb_compare c (fm_smallest (files ! j)) (fm_largest (files ! j)) \<le> 0" using assms(2) that(2) by simp
    ultimately show ?thesis using that(3) cmp_less_le_trans cmp_less_trans by blast
  qed (use that in simp)
  note ok = find_file_loop_ok [of files c key 0 "length files", OF mono]
  show "find_file c files key \<le> length files"
    "\<And>i. i < length files \<Longrightarrow> i < find_file c files key \<longleftrightarrow> ldb_compare c (fm_largest (files ! i)) key < 0"
    using ok unfolding find_file_def by auto
qed

end

section \<open>Keys and seek keys\<close>

text \<open>A key that parses, and the number of its entry.\<close>

definition key_ok :: "bytes \<Rightarrow> bool" where
  "key_ok x \<longleftrightarrow> ldb_pkey_import x \<noteq> None"

definition key_seq :: "bytes \<Rightarrow> u64" where
  "key_seq x = (case ldb_pkey_import x of None \<Rightarrow> 0 | Some pk \<Rightarrow> pk_sequence pk)"

definition key_type :: "bytes \<Rightarrow> ldb_valtype" where
  "key_type x = (case ldb_pkey_import x of None \<Rightarrow> TYPE_DELETION | Some pk \<Rightarrow> pk_type pk)"

lemma key_parts:
  assumes "key_ok x"
  shows "ldb_pkey_import x = Some \<lparr>pk_user_key = ldb_extract_user_key x, pk_sequence = key_seq x, pk_type = key_type x\<rparr>"
    "ikey_tag x = pack_seqtype (key_seq x) (key_type x)" "key_seq x \<le> MAX_SEQUENCE"
proof -
  obtain pk where pk: "ldb_pkey_import x = Some pk" using assms by (auto simp: key_ok_def)
  then have "pk = \<lparr>pk_user_key = ldb_extract_user_key x, pk_sequence = key_seq x, pk_type = key_type x\<rparr>"
    using pkey_import_user_key [OF pk] by (simp add: key_seq_def key_type_def)
  then show "ldb_pkey_import x = Some \<lparr>pk_user_key = ldb_extract_user_key x, pk_sequence = key_seq x, pk_type = key_type x\<rparr>" using pk by simp
  show "ikey_tag x = pack_seqtype (key_seq x) (key_type x)" "key_seq x \<le> MAX_SEQUENCE"
    using ldb_pkey_write_import [OF pk] ldb_pkey_write_parts(2) [of pk] pk by (auto simp: key_seq_def key_type_def)
qed

declare ikey_set_parts [simp]

context user_comparator
begin

lemma before_seek:
  assumes "key_ok x" "s \<le> MAX_SEQUENCE"
  shows "ldb_ikc_compare uc x (ldb_ikey_set k s VALTYPE_SEEK) < 0 \<longleftrightarrow>
    ldb_compare uc (ldb_extract_user_key x) k < 0 \<or> ldb_compare uc (ldb_extract_user_key x) k = 0 \<and> s < key_seq x"
  using key_parts [OF assms(1)] pack_seqtype_less_iff [OF assms(2) key_parts(3) [OF assms(1)]]
  by (auto simp: ikc_less_iff VALTYPE_SEEK_def)

text \<open>The search in a level gives what a look at every file gives.\<close>

lemma overlaps_sorted:
  assumes "sorted_wrt (\<lambda>f g. ldb_ikc_compare uc (fm_largest f) (fm_smallest g) < 0) files"
    and "\<forall>f \<in> set files. ldb_ikc_compare uc (fm_smallest f) (fm_largest f) \<le> 0 \<and> key_ok (fm_largest f)"
  shows "some_file_overlaps_range uc True files a b \<longleftrightarrow> (\<exists>f \<in> set files. \<not> after_file uc a f \<and> \<not> before_file uc b f)"
proof -
  define index where "index = (case a of None \<Rightarrow> 0 | Some k \<Rightarrow> find_file (ldb_ikc_init uc) files (ldb_ikey_set k MAX_SEQUENCE VALTYPE_SEEK))"
  have ord: "sorted_wrt (\<lambda>f g. ldb_compare (ldb_ikc_init uc) (fm_largest f) (fm_smallest g) < 0) files"
    "\<forall>f \<in> set files. ldb_compare (ldb_ikc_init uc) (fm_smallest f) (fm_largest f) \<le> 0"
    using assms by (simp_all add: ikc_compare_eq)
  have index: "i < index \<longleftrightarrow> after_file uc a (files ! i)" if i: "i < length files" for i
  proof (cases a)
    case (Some k)
    have "\<not> MAX_SEQUENCE < key_seq (fm_largest (files ! i))" using key_parts(3) assms(2) i by (simp add: leD)
    then have "i < index \<longleftrightarrow> ldb_compare uc (ldb_extract_user_key (fm_largest (files ! i))) k < 0"
      using blk.find_file_ok(2) [OF ord i] before_seek [of "fm_largest (files ! i)" MAX_SEQUENCE k] assms(2) i Some
      by (simp add: index_def ikc_compare_eq)
    then show ?thesis using cmp_gt_iff [of k "ldb_extract_user_key (fm_largest (files ! i))"] cmp_gt_iff [of "ldb_extract_user_key (fm_largest (files ! i))" k] Some by (simp add: after_file_def)
  qed (simp add: index_def after_file_def)
  have small: "ldb_compare uc (ldb_extract_user_key (fm_smallest (files ! i))) (ldb_extract_user_key (fm_smallest (files ! j))) \<le> 0"
    if "i \<le> j" "j < length files" for i j
  proof (cases "i = j")
    case True
    then show ?thesis using cmp_refl by simp
  next
    case False
    then have "ldb_ikc_compare uc (fm_largest (files ! i)) (fm_smallest (files ! j)) < 0" using sorted_wrt_nth_less [OF assms(1)] that by simp
    then have "ldb_ikc_compare uc (fm_smallest (files ! i)) (fm_smallest (files ! j)) < 0"
      using ikc.cmp_le_less_trans assms(2) that by (metis le_less_trans nth_mem)
    then show ?thesis by (auto simp: ikc_less_iff)
  qed
  have before: "before_file uc b (files ! j)" if "i \<le> j" "j < length files" "before_file uc b (files ! i)" for i j
    using that small [of i j] cmp_less_le_trans by (auto simp: before_file_def split: option.splits)
  have "some_file_overlaps_range uc True files a b \<longleftrightarrow> index < length files \<and> \<not> before_file uc b (files ! index)"
    by (auto simp: some_file_overlaps_range_def index_def Let_def)
  also have "\<dots> \<longleftrightarrow> (\<exists>i < length files. \<not> after_file uc a (files ! i) \<and> \<not> before_file uc b (files ! i))"
  proof
    assume *: "index < length files \<and> \<not> before_file uc b (files ! index)"
    then have "\<not> after_file uc a (files ! index)" using index [of index] by simp
    then show "\<exists>i < length files. \<not> after_file uc a (files ! i) \<and> \<not> before_file uc b (files ! i)" using * by blast
  next
    assume "\<exists>i < length files. \<not> after_file uc a (files ! i) \<and> \<not> before_file uc b (files ! i)"
    then obtain i where i: "i < length files" "\<not> after_file uc a (files ! i)" "\<not> before_file uc b (files ! i)" by blast
    then have "index \<le> i" using index [of i] by simp
    then show "index < length files \<and> \<not> before_file uc b (files ! index)" using i before [of index i] by auto
  qed
  finally show ?thesis by (metis in_set_conv_nth)
qed

end

lemma overlap_scan_iff: "overlap_scan uc a b files \<longleftrightarrow> (\<exists>f \<in> set files. \<not> after_file uc a f \<and> \<not> before_file uc b f)"
  by (induction files) auto

section \<open>Overlapping inputs\<close>

definition ends_before :: "ldb_comparator \<Rightarrow> bytes option \<Rightarrow> ldb_filemeta \<Rightarrow> bool" where
  "ends_before uc b f \<longleftrightarrow> b \<noteq> None \<and> ldb_compare uc (ldb_extract_user_key (fm_largest f)) (the b) < 0"

definition starts_after :: "ldb_comparator \<Rightarrow> bytes option \<Rightarrow> ldb_filemeta \<Rightarrow> bool" where
  "starts_after uc e f \<longleftrightarrow> e \<noteq> None \<and> ldb_compare uc (ldb_extract_user_key (fm_smallest f)) (the e) > 0"

definition starts_before :: "ldb_comparator \<Rightarrow> bytes option \<Rightarrow> ldb_filemeta \<Rightarrow> bool" where
  "starts_before uc b f \<longleftrightarrow> b \<noteq> None \<and> ldb_compare uc (ldb_extract_user_key (fm_smallest f)) (the b) < 0"

definition ends_after :: "ldb_comparator \<Rightarrow> bytes option \<Rightarrow> ldb_filemeta \<Rightarrow> bool" where
  "ends_after uc e f \<longleftrightarrow> e \<noteq> None \<and> ldb_compare uc (ldb_extract_user_key (fm_largest f)) (the e) > 0"

definition overlaps :: "ldb_comparator \<Rightarrow> bytes option \<Rightarrow> bytes option \<Rightarrow> ldb_filemeta \<Rightarrow> bool" where
  "overlaps uc b e f \<longleftrightarrow> \<not> ends_before uc b f \<and> \<not> starts_after uc e f"

definition inside_range :: "ldb_comparator \<Rightarrow> bytes option \<Rightarrow> bytes option \<Rightarrow> ldb_filemeta \<Rightarrow> bool" where
  "inside_range uc b e f \<longleftrightarrow> \<not> starts_before uc b f \<and> \<not> ends_after uc e f"

text \<open>A wider range.\<close>

definition wider :: "ldb_comparator \<Rightarrow> bytes option \<Rightarrow> bytes option \<Rightarrow> bytes option \<Rightarrow> bytes option \<Rightarrow> bool" where
  "wider uc b' e' b e \<longleftrightarrow>
     (b' = None \<longleftrightarrow> b = None) \<and> (e' = None \<longleftrightarrow> e = None) \<and>
     (b \<noteq> None \<longrightarrow> ldb_compare uc (the b') (the b) \<le> 0) \<and> (e \<noteq> None \<longrightarrow> ldb_compare uc (the e) (the e') \<le> 0)"

lemma inputs_loop_unfold:
  "inputs_loop uc level0 files (f # rest) b e inputs =
     (if \<not> overlaps uc b e f then inputs_loop uc level0 files rest b e inputs
      else if level0 \<and> starts_before uc b f then inputs_loop uc level0 files files (Some (ldb_extract_user_key (fm_smallest f))) e []
      else if level0 \<and> ends_after uc e f then inputs_loop uc level0 files files b (Some (ldb_extract_user_key (fm_largest f))) []
      else inputs_loop uc level0 files rest b e (inputs @ [f]))"
proof -
  have "inputs_loop uc level0 files (f # rest) b e inputs =
     (if ends_before uc b f then inputs_loop uc level0 files rest b e inputs
      else if starts_after uc e f then inputs_loop uc level0 files rest b e inputs
      else if level0 \<and> starts_before uc b f then inputs_loop uc level0 files files (Some (ldb_extract_user_key (fm_smallest f))) e []
      else if level0 \<and> ends_after uc e f then inputs_loop uc level0 files files b (Some (ldb_extract_user_key (fm_largest f))) []
      else inputs_loop uc level0 files rest b e (inputs @ [f]))"
    unfolding ends_before_def starts_after_def starts_before_def ends_after_def
    by (subst inputs_loop.simps) (simp only: list.case Let_def)
  then show ?thesis by (simp add: overlaps_def)
qed

context user_comparator
begin

lemma wider_trans: "wider uc b'' e'' b' e' \<Longrightarrow> wider uc b' e' b e \<Longrightarrow> wider uc b'' e'' b e"
  using cmp_trans [of "the b''" "the b'" "the b"] cmp_trans [of "the e" "the e'" "the e''"] by (auto simp: wider_def)

lemma inputs_loop_ok:
  assumes "files = front @ rest" "inputs = filter (overlaps uc b e) front" "level0 \<Longrightarrow> \<forall>f \<in> set inputs. inside_range uc b e f"
  shows "\<exists>b' e'. inputs_loop uc level0 files rest b e inputs = Some (filter (overlaps uc b' e') files) \<and> wider uc b' e' b e \<and>
    (level0 \<longrightarrow> (\<forall>f \<in> set files. overlaps uc b' e' f \<longrightarrow> inside_range uc b' e' f)) \<and> (\<not> level0 \<longrightarrow> b' = b \<and> e' = e)"
    (is "?P rest b e inputs")
  using assms
proof (induction "card {f \<in> set files. starts_before uc b f} + card {f \<in> set files. ends_after uc e f}"
    arbitrary: b e front rest inputs rule: less_induct)
  case less
  have start: "?P files b' e' []"
    if "card {f \<in> set files. starts_before uc b' f} + card {f \<in> set files. ends_after uc e' f} <
        card {f \<in> set files. starts_before uc b f} + card {f \<in> set files. ends_after uc e f}" for b' e'
    using less.hyps [OF that, of "[]" files "[]"] by simp
  show ?case
    using less.prems
  proof (induction rest arbitrary: front inputs)
    case Nil
    have "wider uc b e b e" using cmp_refl by (simp add: wider_def)
    moreover have "inputs_loop uc level0 files [] b e inputs = Some inputs" by (subst inputs_loop.simps) simp
    ultimately show ?case using Nil by (intro exI [of _ b] exI [of _ e]) auto
  next
    case (Cons f rest)
    let ?s = "ldb_extract_user_key (fm_smallest f)" and ?l = "ldb_extract_user_key (fm_largest f)"
    have f: "f \<in> set files" using Cons.prems(1) by simp
    consider (skip) "\<not> overlaps uc b e f" | (down) "overlaps uc b e f" "level0" "starts_before uc b f"
      | (up) "overlaps uc b e f" "level0" "\<not> starts_before uc b f" "ends_after uc e f"
      | (take) "overlaps uc b e f" "level0 \<Longrightarrow> inside_range uc b e f" by (auto simp: inside_range_def)
    then show ?case
    proof cases
      case skip
      then show ?thesis using Cons.IH [of "front @ [f]" inputs] Cons.prems by (simp add: inputs_loop_unfold)
    next
      case down
      have b: "b \<noteq> None" "ldb_compare uc ?s (the b) < 0" using down(3) by (auto simp: starts_before_def)
      have "starts_before uc b g" if "starts_before uc (Some ?s) g" for g
        using that b cmp_less_trans [of _ ?s "the b"] by (auto simp: starts_before_def)
      moreover have "\<not> starts_before uc (Some ?s) f" using cmp_refl by (simp add: starts_before_def)
      ultimately have "{g \<in> set files. starts_before uc (Some ?s) g} \<subset> {g \<in> set files. starts_before uc b g}" using f down(3) by auto
      then have "card {g \<in> set files. starts_before uc (Some ?s) g} < card {g \<in> set files. starts_before uc b g}"
        by (intro psubset_card_mono) auto
      then obtain b' e' where r: "inputs_loop uc level0 files files (Some ?s) e [] = Some (filter (overlaps uc b' e') files)"
        "wider uc b' e' (Some ?s) e" "level0 \<longrightarrow> (\<forall>f \<in> set files. overlaps uc b' e' f \<longrightarrow> inside_range uc b' e' f)"
        using start [of "Some ?s" e] by auto
      moreover have "wider uc (Some ?s) e b e" using b cmp_refl by (simp add: wider_def)
      ultimately show ?thesis using down wider_trans by (intro exI [of _ b'] exI [of _ e']) (auto simp: inputs_loop_unfold)
    next
      case up
      have e: "e \<noteq> None" "ldb_compare uc ?l (the e) > 0" using up(4) by (auto simp: ends_after_def)
      have less: "ldb_compare uc (the e) ?l < 0" using e(2) cmp_gt_iff [of "the e" ?l] cmp_gt_iff [of ?l "the e"] by simp
      have "ends_after uc e g" if "ends_after uc (Some ?l) g" for g
        using that e(1) less cmp_gt_iff [of "ldb_extract_user_key (fm_largest g)" ?l] cmp_gt_iff [of "ldb_extract_user_key (fm_largest g)" "the e"]
          cmp_less_trans [of "the e" ?l "ldb_extract_user_key (fm_largest g)"] by (auto simp: ends_after_def)
      moreover have "\<not> ends_after uc (Some ?l) f" using cmp_refl by (simp add: ends_after_def)
      ultimately have "{g \<in> set files. ends_after uc (Some ?l) g} \<subset> {g \<in> set files. ends_after uc e g}" using f up(4) by auto
      then have "card {g \<in> set files. ends_after uc (Some ?l) g} < card {g \<in> set files. ends_after uc e g}"
        by (intro psubset_card_mono) auto
      then obtain b' e' where r: "inputs_loop uc level0 files files b (Some ?l) [] = Some (filter (overlaps uc b' e') files)"
        "wider uc b' e' b (Some ?l)" "level0 \<longrightarrow> (\<forall>f \<in> set files. overlaps uc b' e' f \<longrightarrow> inside_range uc b' e' f)"
        using start [of b "Some ?l"] by auto
      moreover have "wider uc b (Some ?l) b e" using e less cmp_refl by (simp add: wider_def)
      ultimately show ?thesis using up wider_trans by (intro exI [of _ b'] exI [of _ e']) (auto simp: inputs_loop_unfold)
    next
      case take
      then have "inputs_loop uc level0 files (f # rest) b e inputs = inputs_loop uc level0 files rest b e (inputs @ [f])"
        by (auto simp: inputs_loop_unfold inside_range_def)
      then show ?thesis using Cons.IH [of "front @ [f]" "inputs @ [f]"] Cons.prems take by auto
    qed
  qed
qed

end

text \<open>C28: the files of a level that overlap a range of user keys are found, whatever the bounds: the
  search ends, although it starts over whenever a level-0 file widens the range.  Above level 0
  it gives exactly the files that overlap the range.  In level 0 it gives exactly the files that
  overlap a range that contains the given one and all of these files, so that no file that is
  left out shares a key with one that is taken.\<close>

theorem overlapping_inputs_closed:
  assumes "user_comparator uc"
  shows "\<exists>b' e'. ldb_version_get_overlapping_inputs uc ver level b e = Some (filter (overlaps uc b' e') (vr_files ver ! level)) \<and>
    wider uc b' e' (map_option ldb_extract_user_key b) (map_option ldb_extract_user_key e) \<and>
    (level = 0 \<longrightarrow> (\<forall>f \<in> set (vr_files ver ! level). overlaps uc b' e' f \<longrightarrow> inside_range uc b' e' f)) \<and>
    (level \<noteq> 0 \<longrightarrow> b' = map_option ldb_extract_user_key b \<and> e' = map_option ldb_extract_user_key e)"
  using user_comparator.inputs_loop_ok [OF assms, of "vr_files ver ! level" "[]" "vr_files ver ! level" "[]"
      "map_option ldb_extract_user_key b" "map_option ldb_extract_user_key e" "level = 0"]
  by (simp add: ldb_version_get_overlapping_inputs_def)

theorem overlapping_inputs_closed_witness:
  "ldb_version_get_overlapping_inputs bytewise_comparator (ldb_version_init\<lparr>vr_files := [[ldb_filemeta_init]]\<rparr>) 0 None None =
     Some [ldb_filemeta_init]"
  using overlapping_inputs_closed [OF bytewise_uc.user_comparator_axioms, of "ldb_version_init\<lparr>vr_files := [[ldb_filemeta_init]]\<rparr>" 0 None None]
  by (auto simp: wider_def overlaps_def ends_before_def starts_after_def)

end
