(* ===== verification/Version_Get.thy ===== *)
theory Version_Get
  imports Version
begin

text \<open>
  Lookups in a version.  The entries of the files are lists sorted by internal key; a lookup at a
  snapshot finds the newest entry that the snapshot sees.
\<close>

section \<open>The newest entry of a sorted run\<close>

definition visible :: "ldb_comparator \<Rightarrow> bytes \<Rightarrow> u64 \<Rightarrow> bytes \<times> bytes \<Rightarrow> bool" where
  "visible uc k s e \<longleftrightarrow> ldb_compare uc (ldb_extract_user_key (fst e)) k = 0 \<and> key_seq (fst e) \<le> s"

definition run_ok :: "ldb_comparator \<Rightarrow> (bytes \<times> bytes) list \<Rightarrow> bool" where
  "run_ok uc es \<longleftrightarrow> sorted_wrt (\<lambda>x y. ldb_ikc_compare uc (fst x) (fst y) < 0) es \<and> (\<forall>e \<in> set es. key_ok (fst e))"

definition run_lookup :: "ldb_comparator \<Rightarrow> bytes \<Rightarrow> u64 \<Rightarrow> (bytes \<times> bytes) list \<Rightarrow> (bytes \<times> bytes) option" where
  "run_lookup uc k s es =
     (case find (\<lambda>e. \<not> ldb_ikc_compare uc (fst e) (ldb_ikey_set k s VALTYPE_SEEK) < 0) es of
        None \<Rightarrow> None
      | Some e \<Rightarrow> if ldb_compare uc (ldb_extract_user_key (fst e)) k = 0 then Some e else None)"

definition newest_in :: "ldb_comparator \<Rightarrow> bytes \<Rightarrow> u64 \<Rightarrow> (bytes \<times> bytes) set \<Rightarrow> bytes \<times> bytes \<Rightarrow> bool" where
  "newest_in uc k s E e \<longleftrightarrow> e \<in> E \<and> visible uc k s e \<and> (\<forall>e' \<in> E. visible uc k s e' \<longrightarrow> key_seq (fst e') \<le> key_seq (fst e))"

lemma newest_in_union: "\<forall>e \<in> A. \<not> visible uc k s e \<Longrightarrow> newest_in uc k s (A \<union> B) e \<longleftrightarrow> newest_in uc k s B e"
  unfolding newest_in_def by blast

lemma newest_in_subset:
  "newest_in uc k s B e \<Longrightarrow> B \<subseteq> A \<Longrightarrow> (\<And>e. e \<in> A \<Longrightarrow> visible uc k s e \<Longrightarrow> e \<in> B) \<Longrightarrow> newest_in uc k s A e"
  unfolding newest_in_def by blast

lemma find_append: "find P (xs @ ys) = (case find P xs of None \<Rightarrow> find P ys | Some x \<Rightarrow> Some x)"
  by (induction xs) auto

lemma find_split:
  assumes "find P xs = Some x"
  shows "\<exists>ys zs. xs = ys @ x # zs \<and> (\<forall>y \<in> set ys. \<not> P y) \<and> P x"
  using assms
proof (induction xs)
  case (Cons y xs)
  show ?case
  proof (cases "P y")
    case True
    then show ?thesis using Cons.prems by (intro exI [of _ "[]"] exI [of _ xs]) auto
  next
    case False
    then obtain ys zs where "xs = ys @ x # zs" "\<forall>y \<in> set ys. \<not> P y" "P x" using Cons by auto
    then show ?thesis using False by (intro exI [of _ "y # ys"] exI [of _ zs]) auto
  qed
qed simp

context user_comparator
begin

lemma visible_after_seek:
  assumes "key_ok (fst e)" "s \<le> MAX_SEQUENCE" "visible uc k s e"
  shows "\<not> ldb_ikc_compare uc (fst e) (ldb_ikey_set k s VALTYPE_SEEK) < 0"
  using assms(3) unfolding before_seek [OF assms(1,2)] visible_def by auto

lemma run_lookup_newest:
  assumes "run_ok uc es" "s \<le> MAX_SEQUENCE"
  shows "run_lookup uc k s es = Some e \<Longrightarrow> newest_in uc k s (set es) e"
    and "run_lookup uc k s es = None \<Longrightarrow> e \<in> set es \<Longrightarrow> \<not> visible uc k s e"
proof -
  let ?t = "ldb_ikey_set k s VALTYPE_SEEK"
  let ?P = "\<lambda>e :: bytes \<times> bytes. \<not> ldb_ikc_compare uc (fst e) ?t < 0"
  have ok: "key_ok (fst e)" if "e \<in> set es" for e using assms(1) that by (simp add: run_ok_def)
  show "newest_in uc k s (set es) e" if l: "run_lookup uc k s es = Some e"
  proof -
    have f: "find ?P es = Some e" and u: "ldb_compare uc (ldb_extract_user_key (fst e)) k = 0"
      using l by (auto simp: run_lookup_def split: option.splits if_splits)
    obtain ys zs where es: "es = ys @ e # zs" "\<forall>y \<in> set ys. \<not> ?P y" "?P e" using find_split [OF f] by blast
    have oke: "key_ok (fst e)" using ok es(1) by simp
    have v: "visible uc k s e" using es(3) u before_seek [OF ok assms(2), of e k] es(1) by (auto simp: visible_def)
    have "key_seq (fst e') \<le> key_seq (fst e)" if e': "e' \<in> set es" "visible uc k s e'" for e'
    proof -
      have "e' \<notin> set ys" using es(2) visible_after_seek [OF ok [OF e'(1)] assms(2) e'(2)] by blast
      moreover have "key_seq (fst e') \<le> key_seq (fst e)" if "e' \<in> set zs"
      proof -
        have "ldb_ikc_compare uc (fst e) (fst e') < 0" using assms(1) es(1) that by (auto simp: run_ok_def sorted_wrt_append)
        moreover have "ldb_compare uc (ldb_extract_user_key (fst e)) (ldb_extract_user_key (fst e')) = 0"
        proof -
          have "ldb_compare uc k (ldb_extract_user_key (fst e')) = 0" using e'(2) cmp_eq_sym [of k "ldb_extract_user_key (fst e')"] by (simp add: visible_def)
          then show ?thesis using cmp_eq_cong(2) [OF TrueI TrueI TrueI u] by blast
        qed
        ultimately have "ikey_tag (fst e') < ikey_tag (fst e)" by (simp add: ikc_less_iff)
        then show ?thesis
          using pack_seqtype_less_iff [OF key_parts(3) [OF ok [OF e'(1)]] key_parts(3) [OF oke]]
          unfolding key_parts(2) [OF ok [OF e'(1)]] key_parts(2) [OF oke] by auto
      qed
      ultimately show ?thesis using e'(1) es(1) by auto
    qed
    then show ?thesis using v es(1) by (simp add: newest_in_def)
  qed
  show "\<not> visible uc k s e" if l: "run_lookup uc k s es = None" and e: "e \<in> set es"
  proof
    assume v: "visible uc k s e"
    have "?P e" by (rule visible_after_seek [OF ok [OF e] assms(2) v])
    then have "find ?P es \<noteq> None" using e unfolding find_None_iff by blast
    then obtain x where f: "find ?P es = Some x" by blast
    then have u: "ldb_compare uc (ldb_extract_user_key (fst x)) k \<noteq> 0" using l by (auto simp: run_lookup_def split: if_splits)
    obtain ys zs where es: "es = ys @ x # zs" "\<forall>y \<in> set ys. \<not> ?P y" "?P x" using find_split [OF f] by blast
    have gt: "ldb_compare uc k (ldb_extract_user_key (fst x)) < 0"
      using es(3) u before_seek [OF ok assms(2), of x k] es(1) cmp_gt_iff [of "ldb_extract_user_key (fst x)" k] by auto
    have "e \<in> set (x # zs)" using e es(1,2) \<open>?P e\<close> by auto
    then have "ldb_ikc_compare uc (fst x) (fst e) \<le> 0"
      using assms(1) es(1) ikc.cmp_refl by (auto simp: run_ok_def sorted_wrt_append)
    then have "ldb_compare uc (ldb_extract_user_key (fst x)) (ldb_extract_user_key (fst e)) \<le> 0" by (auto simp: ikc_le_iff)
    then have "ldb_compare uc k (ldb_extract_user_key (fst e)) < 0" using gt cmp_less_le_trans by blast
    then show False using v cmp_eq_sym [of k "ldb_extract_user_key (fst e)"] by (auto simp: visible_def)
  qed
qed

end

section \<open>A version over files with known entries\<close>

definition file_entries :: "(u64 \<Rightarrow> (u64 \<times> (bytes \<times> bytes) list) option) \<Rightarrow> ldb_filemeta \<Rightarrow> (bytes \<times> bytes) list" where
  "file_entries files f = (case files (fm_number f) of None \<Rightarrow> [] | Some (_, es) \<Rightarrow> es)"

text \<open>What a version says about a file is right.\<close>

definition file_ok :: "ldb_comparator \<Rightarrow> (u64 \<Rightarrow> (u64 \<times> (bytes \<times> bytes) list) option) \<Rightarrow> ldb_filemeta \<Rightarrow> bool" where
  "file_ok uc files f \<longleftrightarrow> files (fm_number f) = Some (fm_file_size f, file_entries files f) \<and> run_ok uc (file_entries files f) \<and>
     file_entries files f \<noteq> [] \<and> fm_smallest f = fst (hd (file_entries files f)) \<and> fm_largest f = fst (last (file_entries files f))"

text \<open>The files of a version; above level 0 they follow each other.\<close>

definition version_ok :: "ldb_comparator \<Rightarrow> (u64 \<Rightarrow> (u64 \<times> (bytes \<times> bytes) list) option) \<Rightarrow> ldb_version \<Rightarrow> bool" where
  "version_ok uc files ver \<longleftrightarrow> length (vr_files ver) = LDB_NUM_LEVELS \<and>
     (\<forall>fs \<in> set (vr_files ver). \<forall>f \<in> set fs. file_ok uc files f) \<and> distinct (map fm_number (vr_files ver ! 0)) \<and>
     (\<forall>level. 1 \<le> level \<longrightarrow> level < LDB_NUM_LEVELS \<longrightarrow>
        sorted_wrt (\<lambda>f g. ldb_ikc_compare uc (fm_largest f) (fm_smallest g) < 0) (vr_files ver ! level))"

definition version_entries :: "(u64 \<Rightarrow> (u64 \<times> (bytes \<times> bytes) list) option) \<Rightarrow> ldb_version \<Rightarrow> (bytes \<times> bytes) set" where
  "version_entries files ver = (\<Union>fs \<in> set (vr_files ver). \<Union>f \<in> set fs. set (file_entries files f))"

text \<open>The entries of a user key in one list are all newer than those in another.\<close>

definition newer :: "ldb_comparator \<Rightarrow> (bytes \<times> bytes) set \<Rightarrow> (bytes \<times> bytes) set \<Rightarrow> bool" where
  "newer uc E E' \<longleftrightarrow> (\<forall>e \<in> E. \<forall>e' \<in> E'. ldb_compare uc (ldb_extract_user_key (fst e)) (ldb_extract_user_key (fst e')) = 0 \<longrightarrow>
     key_seq (fst e') < key_seq (fst e))"

text \<open>Newer entries of a key are in level-0 files with higher numbers, and in lower levels.\<close>

definition version_recent :: "ldb_comparator \<Rightarrow> (u64 \<Rightarrow> (u64 \<times> (bytes \<times> bytes) list) option) \<Rightarrow> ldb_version \<Rightarrow> bool" where
  "version_recent uc files ver \<longleftrightarrow>
     (\<forall>f \<in> set (vr_files ver ! 0). \<forall>g \<in> set (vr_files ver ! 0). fm_number g < fm_number f \<longrightarrow>
        newer uc (set (file_entries files f)) (set (file_entries files g))) \<and>
     (\<forall>i j. i < j \<longrightarrow> j < LDB_NUM_LEVELS \<longrightarrow> (\<forall>f \<in> set (vr_files ver ! i). \<forall>g \<in> set (vr_files ver ! j).
        newer uc (set (file_entries files f)) (set (file_entries files g))))"

context user_comparator
begin

lemma file_bounds:
  assumes "file_ok uc files f" "e \<in> set (file_entries files f)"
  shows "ldb_ikc_compare uc (fm_smallest f) (fst e) \<le> 0" "ldb_ikc_compare uc (fst e) (fm_largest f) \<le> 0"
proof -
  let ?es = "file_entries files f"
  have s: "sorted_wrt (\<lambda>x y. ldb_ikc_compare uc (fst x) (fst y) < 0) ?es" and ne: "?es \<noteq> []" using assms(1) by (auto simp: file_ok_def run_ok_def)
  have h: "?es = hd ?es # tl ?es" and l: "?es = butlast ?es @ [last ?es]" using ne by simp_all
  have "e = hd ?es \<or> ldb_ikc_compare uc (fst (hd ?es)) (fst e) < 0" using s assms(2) by (subst (asm) h, subst (asm) h) auto
  then show "ldb_ikc_compare uc (fm_smallest f) (fst e) \<le> 0" using assms(1) ikc.cmp_refl by (auto simp: file_ok_def)
  have "e = last ?es \<or> ldb_ikc_compare uc (fst e) (fst (last ?es)) < 0"
    using s assms(2) by (subst (asm) l, subst (asm) l) (auto simp: sorted_wrt_append)
  then show "ldb_ikc_compare uc (fst e) (fm_largest f) \<le> 0" using assms(1) ikc.cmp_refl by (auto simp: file_ok_def)
qed

lemma file_ok_order: "file_ok uc files f \<Longrightarrow> ldb_ikc_compare uc (fm_smallest f) (fm_largest f) \<le> 0"
  using file_bounds [of files f "last (file_entries files f)"] by (auto simp: file_ok_def)

text \<open>A file that the search passes over has nothing for the key.\<close>

lemma out_of_range:
  assumes "file_ok uc files f" "\<not> in_range uc k f" "e \<in> set (file_entries files f)"
  shows "\<not> visible uc k s e"
proof
  assume "visible uc k s e"
  then have v: "ldb_compare uc (ldb_extract_user_key (fst e)) k = 0" by (simp add: visible_def)
  have "ldb_compare uc (ldb_extract_user_key (fm_smallest f)) (ldb_extract_user_key (fst e)) \<le> 0"
    "ldb_compare uc (ldb_extract_user_key (fst e)) (ldb_extract_user_key (fm_largest f)) \<le> 0"
    using file_bounds [OF assms(1,3)] by (auto simp: ikc_le_iff)
  then have "ldb_compare uc (ldb_extract_user_key (fm_smallest f)) k \<le> 0" "ldb_compare uc k (ldb_extract_user_key (fm_largest f)) \<le> 0"
    using v cmp_trans cmp_eq_sym [of k "ldb_extract_user_key (fst e)"] by (metis order.refl)+
  then show False using assms(2) cmp_ge_iff [of k "ldb_extract_user_key (fm_smallest f)"] by (simp add: in_range_def)
qed

text \<open>A level above 0 is one sorted run.\<close>

lemma level_run_ok:
  assumes "\<forall>f \<in> set fs. file_ok uc files f" "sorted_wrt (\<lambda>f g. ldb_ikc_compare uc (fm_largest f) (fm_smallest g) < 0) fs"
  shows "run_ok uc (concat (map (file_entries files) fs))"
  using assms
proof (induction fs)
  case (Cons f fs)
  have "ldb_ikc_compare uc (fst x) (fst y) < 0" if x: "x \<in> set (file_entries files f)" and g: "g \<in> set fs" "y \<in> set (file_entries files g)" for x y g
  proof -
    have "ldb_ikc_compare uc (fst x) (fm_largest f) \<le> 0" using file_bounds(2) [of files f x] Cons.prems(1) x by simp
    moreover have "ldb_ikc_compare uc (fm_largest f) (fm_smallest g) < 0" using Cons.prems(2) g(1) by simp
    moreover have "ldb_ikc_compare uc (fm_smallest g) (fst y) \<le> 0" using file_bounds(1) [of files g y] Cons.prems(1) g by simp
    ultimately show ?thesis using ikc.cmp_le_less_trans ikc.cmp_less_le_trans by blast
  qed
  then show ?case using Cons by (auto simp: run_ok_def sorted_wrt_append file_ok_def)
qed (simp add: run_ok_def)

lemma level_lookup:
  assumes "\<forall>f \<in> set fs. file_ok uc files f" "sorted_wrt (\<lambda>f g. ldb_ikc_compare uc (fm_largest f) (fm_smallest g) < 0) fs"
  shows "run_lookup uc k s (concat (map (file_entries files) fs)) =
      (case level_file uc fs k (ldb_ikey_set k s VALTYPE_SEEK) of None \<Rightarrow> None | Some f \<Rightarrow> run_lookup uc k s (file_entries files f))"
    and "level_file uc fs k (ldb_ikey_set k s VALTYPE_SEEK) = Some f \<Longrightarrow> f \<in> set fs"
proof -
  let ?t = "ldb_ikey_set k s VALTYPE_SEEK" and ?E = "file_entries files"
  let ?P = "\<lambda>e :: bytes \<times> bytes. \<not> ldb_ikc_compare uc (fst e) ?t < 0"
  define i where "i = find_file (ldb_ikc_init uc) fs ?t"
  have ord: "sorted_wrt (\<lambda>f g. ldb_compare (ldb_ikc_init uc) (fm_largest f) (fm_smallest g) < 0) fs"
    "\<forall>f \<in> set fs. ldb_compare (ldb_ikc_init uc) (fm_smallest f) (fm_largest f) \<le> 0"
    using assms file_ok_order by (auto simp: ikc_compare_eq)
  have i: "i \<le> length fs" "\<And>j. j < length fs \<Longrightarrow> j < i \<longleftrightarrow> ldb_ikc_compare uc (fm_largest (fs ! j)) ?t < 0"
    using blk.find_file_ok [OF ord] by (simp_all add: i_def ikc_compare_eq)
  have "\<not> ?P e" if e: "e \<in> set (concat (map ?E (take i fs)))" for e
  proof -
    obtain g where g: "g \<in> set (take i fs)" "e \<in> set (?E g)" using e by auto
    then obtain j where j: "j < i" "j < length fs" "e \<in> set (?E (fs ! j))" using i(1) by (auto simp: in_set_conv_nth [of g])
    then have "ldb_ikc_compare uc (fst e) (fm_largest (fs ! j)) \<le> 0" using file_bounds(2) [of files "fs ! j" e] assms(1) by simp
    then show ?thesis using i(2) [OF j(2)] j(1) ikc.cmp_le_less_trans by blast
  qed
  then have before: "find ?P (concat (map ?E (take i fs))) = None" unfolding find_None_iff by blast
  have split: "concat (map ?E fs) = concat (map ?E (take i fs)) @ concat (map ?E (drop i fs))"
    by (metis append_take_drop_id concat_append map_append)
  show "level_file uc fs k ?t = Some f \<Longrightarrow> f \<in> set fs"
    by (auto simp: level_file_def Let_def split: if_splits)
  show "run_lookup uc k s (concat (map ?E fs)) = (case level_file uc fs k ?t of None \<Rightarrow> None | Some f \<Rightarrow> run_lookup uc k s (?E f))"
  proof (cases "i < length fs")
    case False
    then have "find ?P (concat (map ?E fs)) = None" using before i(1) by simp
    then show ?thesis using False by (simp add: run_lookup_def level_file_def i_def [symmetric])
  next
    case True
    let ?f = "fs ! i"
    have f: "file_ok uc files ?f" using assms(1) True by simp
    have "?P (last (?E ?f))" "last (?E ?f) \<in> set (?E ?f)" using i(2) [OF True] f by (auto simp: file_ok_def)
    then have "find ?P (?E ?f) \<noteq> None" unfolding find_None_iff by blast
    then obtain e where e: "find ?P (?E ?f) = Some e" by blast
    have "concat (map ?E (drop i fs)) = ?E ?f @ concat (map ?E (drop (Suc i) fs))" using Cons_nth_drop_Suc [OF True] by (metis concat.simps(2) list.simps(9))
    then have "find ?P (concat (map ?E fs)) = Some e" using split before e by (simp add: find_append)
    then have same: "run_lookup uc k s (concat (map ?E fs)) = run_lookup uc k s (?E ?f)" using e by (simp add: run_lookup_def)
    have "run_lookup uc k s (?E ?f) = None" if "ldb_compare uc k (ldb_extract_user_key (fm_smallest ?f)) < 0"
    proof -
      have "e \<in> set (?E ?f)" using find_split [OF e] by auto
      then have "ldb_compare uc (ldb_extract_user_key (fm_smallest ?f)) (ldb_extract_user_key (fst e)) \<le> 0"
        using file_bounds(1) [OF f, of e] by (auto simp: ikc_le_iff)
      then have "ldb_compare uc k (ldb_extract_user_key (fst e)) < 0" using that cmp_less_le_trans by blast
      then show ?thesis using e cmp_eq_sym [of k "ldb_extract_user_key (fst e)"] by (auto simp: run_lookup_def)
    qed
    then show ?thesis using same True by (auto simp: level_file_def i_def [symmetric] Let_def)
  qed
qed

end

section \<open>The search through the tables\<close>

locale version_reader = user_comparator uc + table_reader "ldb_ikc_init uc" get cinv files
  for uc :: ldb_comparator
    and get :: "'s \<Rightarrow> u64 \<Rightarrow> u64 \<Rightarrow> bytes \<Rightarrow> (status \<times> (bytes \<times> bytes) option \<times> 's) option"
    and cinv :: "'s \<Rightarrow> bool" and files

definition searching :: "ldb_comparator \<Rightarrow> bytes \<Rightarrow> u64 \<Rightarrow> bytes option \<Rightarrow> 's getstate \<Rightarrow> bool" where
  "searching uc k s value st \<longleftrightarrow> gs_saver st = \<lparr>sv_state = S_NOTFOUND, sv_ucmp = uc, sv_user_key = k, sv_value = value\<rparr> \<and>
     gs_ikey st = ldb_ikey_set k s VALTYPE_SEEK \<and> \<not> gs_found st"

definition ended :: "bytes option \<Rightarrow> bytes \<times> bytes \<Rightarrow> 's getstate \<Rightarrow> bool" where
  "ended value e st \<longleftrightarrow>
     (if key_type (fst e) = TYPE_VALUE then gs_found st \<and> gs_status st = OK \<and> sv_value (gs_saver st) = map_option (\<lambda>_. snd e) value
      else \<not> gs_found st \<and> sv_value (gs_saver st) = value)"

definition search_at :: "ldb_comparator \<Rightarrow> bytes \<Rightarrow> u64 \<Rightarrow> bytes option \<Rightarrow> (bytes \<times> bytes) option \<Rightarrow> 's getstate \<Rightarrow> bool" where
  "search_at uc k s value r st = (case r of None \<Rightarrow> searching uc k s value st | Some e \<Rightarrow> ended value e st)"

lemma match_result:
  assumes "tables_get (gs_cache st) (fm_number f) (fm_file_size f) (gs_ikey st) = Some (OK, r, c')"
  shows "\<exists>st'. getstate_match tables_get st level f =
      (let st' = st'\<lparr>gs_found := (gs_found st \<or> sv_state (gs_saver st') \<in> {S_FOUND, S_CORRUPT}),
                gs_status := (if sv_state (gs_saver st') = S_CORRUPT then CORRUPTION else OK)\<rparr>
       in Some (sv_state (gs_saver st') = S_NOTFOUND, st')) \<and>
    gs_saver st' = (case r of None \<Rightarrow> gs_saver st | Some (k, v) \<Rightarrow> save_value (gs_saver st) k v) \<and> gs_cache st' = c' \<and> gs_ikey st' = gs_ikey st"
proof -
  define st0 where "st0 = (if gs_stats st = None \<and> gs_last_file_read st \<noteq> None then st\<lparr>gs_stats := gs_last_file_read st\<rparr> else st)\<lparr>gs_last_file_read := Some (f, level)\<rparr>"
  define st1 where "st1 = st0\<lparr>gs_status := OK, gs_cache := c', gs_saver := (case r of None \<Rightarrow> gs_saver st0 | Some (k, v) \<Rightarrow> save_value (gs_saver st0) k v)\<rparr>"
  have st0: "gs_saver st0 = gs_saver st" "gs_cache st0 = gs_cache st" "gs_ikey st0 = gs_ikey st" "gs_found st0 = gs_found st"
    by (simp_all add: st0_def)
  have "getstate_match tables_get st level f =
      (case sv_state (gs_saver st1) of
         S_NOTFOUND \<Rightarrow> Some (True, st1)
       | S_FOUND \<Rightarrow> Some (False, st1\<lparr>gs_found := True\<rparr>)
       | S_DELETED \<Rightarrow> Some (False, st1)
       | S_CORRUPT \<Rightarrow> Some (False, st1\<lparr>gs_status := CORRUPTION, gs_found := True\<rparr>))"
    unfolding getstate_match_def Let_def st0_def [symmetric] using assms st0(2,3)
    by (cases "sv_state (case r of None \<Rightarrow> gs_saver st0 | Some (k, v) \<Rightarrow> save_value (gs_saver st0) k v)") (simp_all add: st1_def)
  moreover have "gs_status st1 = OK" "gs_found st1 = gs_found st" "gs_saver st1 = (case r of None \<Rightarrow> gs_saver st | Some (k, v) \<Rightarrow> save_value (gs_saver st) k v)"
    "gs_cache st1 = c'" "gs_ikey st1 = gs_ikey st" using st0 by (simp_all add: st1_def split: option.split)
  ultimately show ?thesis by (intro exI [of _ st1]) (cases "sv_state (gs_saver st1)"; cases st1; simp)
qed

primrec first_hit :: "('a \<Rightarrow> 'b option) \<Rightarrow> 'a list \<Rightarrow> 'b option" where
  "first_hit g [] = None"
| "first_hit g (x # xs) = (case g x of None \<Rightarrow> first_hit g xs | Some y \<Rightarrow> Some y)"

context version_reader
begin

lemma match_ok:
  assumes "searching uc k s value st" "cinv (gs_cache st)" "file_ok uc files f"
  shows "\<exists>st'. getstate_match get st level f = Some (run_lookup uc k s (file_entries files f) = None, st') \<and> cinv (gs_cache st') \<and>
    search_at uc k s value (run_lookup uc k s (file_entries files f)) st'"
proof -
  let ?t = "ldb_ikey_set k s VALTYPE_SEEK" and ?es = "file_entries files f"
  let ?P = "\<lambda>e :: bytes \<times> bytes. \<not> ldb_ikc_compare uc (fst e) ?t < 0"
  have st: "gs_saver st = \<lparr>sv_state = S_NOTFOUND, sv_ucmp = uc, sv_user_key = k, sv_value = value\<rparr>" "gs_ikey st = ?t" "\<not> gs_found st"
    using assms(1) by (simp_all add: searching_def)
  have "table_key (ldb_ikc_init uc) ?t" by (simp add: table_key_def)
  then obtain r c' where g: "get (gs_cache st) (fm_number f) (fm_file_size f) ?t = Some (OK, r, c')" "cinv c'" "answers (ldb_ikc_init uc) ?es ?t r"
    using get_answers [OF assms(2), of "fm_number f" "fm_file_size f" ?es ?t] assms(3) by (auto simp: file_ok_def)
  have sk: "same_key (ldb_ikc_init uc) ?t y \<longleftrightarrow> ldb_compare uc k (ldb_extract_user_key y) = 0" for y
    by (simp add: same_key_def ldb_ikc_init_def)
  have a: "\<And>e. r = Some e \<Longrightarrow> find ?P ?es = Some e" "\<And>e. find ?P ?es = Some e \<Longrightarrow> ldb_compare uc k (ldb_extract_user_key (fst e)) = 0 \<Longrightarrow> r = Some e"
    using g(3) unfolding answers_def sk ikc_compare_eq by blast+
  obtain st' where m: "getstate_match get st level f =
      (let st' = st'\<lparr>gs_found := (gs_found st \<or> sv_state (gs_saver st') \<in> {S_FOUND, S_CORRUPT}),
                gs_status := (if sv_state (gs_saver st') = S_CORRUPT then CORRUPTION else OK)\<rparr>
       in Some (sv_state (gs_saver st') = S_NOTFOUND, st'))"
    "gs_saver st' = (case r of None \<Rightarrow> gs_saver st | Some (k, v) \<Rightarrow> save_value (gs_saver st) k v)" "gs_cache st' = c'" "gs_ikey st' = gs_ikey st"
    using match_result [of get st f r c' level] g(1) st(2) by auto
  have e: "e \<in> set ?es" "key_ok (fst e)" if "find ?P ?es = Some e" for e
    using find_split [OF that] assms(3) by (auto simp: file_ok_def run_ok_def)
  show ?thesis
  proof (cases "run_lookup uc k s ?es")
    case None
    have "gs_saver st' = gs_saver st"
    proof (cases r)
      case (Some e)
      then have "ldb_compare uc (ldb_extract_user_key (fst e)) k \<noteq> 0" using a(1) None by (auto simp: run_lookup_def split: if_splits)
      then show ?thesis using m(2) Some key_parts(1) [OF e(2), OF a(1), OF Some] st(1) by (cases e) (simp add: save_value_def)
    qed (use m(2) in simp)
    then show ?thesis using None m g(2) st by (simp add: Let_def search_at_def searching_def)
  next
    case (Some e)
    then have f: "find ?P ?es = Some e" "ldb_compare uc (ldb_extract_user_key (fst e)) k = 0"
      by (auto simp: run_lookup_def split: option.splits if_splits)
    then have r: "r = Some e" using a(2) cmp_eq_sym [of k "ldb_extract_user_key (fst e)"] by simp
    show ?thesis
      using r m f(2) g(2) st Some key_parts(1) [OF e(2) [OF f(1)]]
      by (cases "key_type (fst e)"; cases e; cases "value") (simp_all add: Let_def save_value_def search_at_def ended_def)
  qed
qed

lemma each_ok:
  assumes "searching uc k s value st" "cinv (gs_cache st)" "\<forall>lf \<in> set lfs. file_ok uc files (snd lf)"
  shows "\<exists>st'. each_file (getstate_match get) lfs st = Some (first_hit (\<lambda>lf. run_lookup uc k s (file_entries files (snd lf))) lfs = None, st') \<and>
    cinv (gs_cache st') \<and> search_at uc k s value (first_hit (\<lambda>lf. run_lookup uc k s (file_entries files (snd lf))) lfs) st'"
  using assms
proof (induction lfs arbitrary: st)
  case Nil
  then show ?case by (simp add: search_at_def)
next
  case (Cons lf lfs)
  let ?r = "run_lookup uc k s (file_entries files (snd lf))"
  obtain st1 where m: "getstate_match get st (fst lf) (snd lf) = Some (?r = None, st1)" "cinv (gs_cache st1)" "search_at uc k s value ?r st1"
    using match_ok [OF Cons.prems(1,2), of "snd lf" "fst lf"] Cons.prems(3) by auto
  show ?case
  proof (cases ?r)
    case None
    then have "searching uc k s value st1" using m(3) by (simp add: search_at_def)
    then show ?thesis using Cons.IH [of st1] m None Cons.prems(3) by simp
  next
    case (Some e)
    then show ?thesis using m by (simp add: search_at_def)
  qed
qed

end

section \<open>The order of the search\<close>

lemma each_file_append:
  "each_file func (xs @ ys) s = Option.bind (each_file func xs s) (\<lambda>(go, s). if go then each_file func ys s else Some (False, s))"
  by (induction xs arbitrary: s) (auto split: option.splits simp: bind_eq_None_conv Option.bind_assoc intro!: Option.bind_cong)

interpretation by_number: comparator newest_first "\<lambda>_. True"
  by unfold_locales (auto simp: newest_first_def sgn_if split: if_splits)

lemma for_each_files:
  assumes "length (vr_files ver ! 0) \<le> 2 ^ 30"
  shows "\<exists>items. mset items = mset (filter (in_range uc k) (vr_files ver ! 0)) \<and> sorted_wrt (\<lambda>f g. fm_number g \<le> fm_number f) items \<and>
    ldb_version_for_each_overlapping uc ver k t arg func =
      map_option snd (each_file func (map (Pair 0) items @ level_files uc (vr_files ver) k t) arg)"
proof -
  let ?tmp = "filter (in_range uc k) (vr_files ver ! 0)"
  let ?z = "\<lparr>vc_items = ?tmp, vc_alloc = length (vr_files ver ! 0)\<rparr>"
  obtain items where i: "ldb_vector_sort ?z newest_first = Some (?z\<lparr>vc_items := items\<rparr>)" "mset items = mset ?tmp"
    "sorted_wrt (\<lambda>x y. newest_first x y \<le> 0) items" using by_number.vector_sort_ok [of ?z] order_trans [OF length_filter_le assms] by auto
  have "sorted_wrt (\<lambda>f g. fm_number g \<le> fm_number f) items"
    using i(3) by (rule sorted_wrt_mono_rel [rotated]) (auto simp: newest_first_def split: if_splits)
  moreover have "ldb_version_for_each_overlapping uc ver k t arg func =
      map_option snd (each_file func (map (Pair 0) items @ level_files uc (vr_files ver) k t) arg)"
  proof (cases "?tmp = []")
    case True
    then have "items = []" using i(2) by simp
    then show ?thesis using True by (simp add: ldb_version_for_each_overlapping_def Let_def)
  next
    case False
    then show ?thesis using i(1)
      by (auto simp: ldb_version_for_each_overlapping_def Let_def each_file_append split: option.splits Option.bind_splits)
  qed
  ultimately show ?thesis using i(2) by blast
qed

lemma first_hit_append: "first_hit g (xs @ ys) = (case first_hit g xs of None \<Rightarrow> first_hit g ys | Some y \<Rightarrow> Some y)"
  by (induction xs) (auto split: option.split)

lemma first_hit_map: "first_hit g (map h xs) = first_hit (\<lambda>x. g (h x)) xs"
  by (induction xs) (auto split: option.split)

lemma first_hit_cong: "(\<And>x. x \<in> set xs \<Longrightarrow> g x = h x) \<Longrightarrow> first_hit g xs = first_hit h xs"
  by (induction xs) (auto split: option.split)

lemma first_hit_concat: "first_hit g (concat (map h xs)) = first_hit (\<lambda>x. first_hit g (h x)) xs"
  by (induction xs) (auto simp: first_hit_append split: option.split)

definition level_runs :: "(u64 \<Rightarrow> (u64 \<times> (bytes \<times> bytes) list) option) \<Rightarrow> ldb_version \<Rightarrow> (bytes \<times> bytes) list list" where
  "level_runs files ver = map (\<lambda>level. concat (map (file_entries files) (vr_files ver ! level))) [1 ..< LDB_NUM_LEVELS]"

context user_comparator
begin

lemma version_levelD:
  assumes "version_ok uc files ver" "level < LDB_NUM_LEVELS"
  shows "\<forall>f \<in> set (vr_files ver ! level). file_ok uc files f"
    "1 \<le> level \<Longrightarrow> sorted_wrt (\<lambda>f g. ldb_ikc_compare uc (fm_largest f) (fm_smallest g) < 0) (vr_files ver ! level)"
  using assms by (auto simp: version_ok_def)

lemma level_files_hit:
  assumes "version_ok uc files ver"
  shows "first_hit (\<lambda>lf. run_lookup uc k s (file_entries files (snd lf))) (level_files uc (vr_files ver) k (ldb_ikey_set k s VALTYPE_SEEK)) =
      first_hit (run_lookup uc k s) (level_runs files ver)"
    and "\<forall>lf \<in> set (level_files uc (vr_files ver) k (ldb_ikey_set k s VALTYPE_SEEK)). file_ok uc files (snd lf)"
proof -
  let ?t = "ldb_ikey_set k s VALTYPE_SEEK"
  show "first_hit (\<lambda>lf. run_lookup uc k s (file_entries files (snd lf))) (level_files uc (vr_files ver) k ?t) =
      first_hit (run_lookup uc k s) (level_runs files ver)"
    unfolding level_files_def level_runs_def first_hit_concat first_hit_map
  proof (rule first_hit_cong)
    fix level assume "level \<in> set [1 ..< LDB_NUM_LEVELS]"
    then have l: "level < LDB_NUM_LEVELS" "1 \<le> level" by simp_all
    show "first_hit (\<lambda>lf. run_lookup uc k s (file_entries files (snd lf)))
        (case level_file uc (vr_files ver ! level) k ?t of None \<Rightarrow> [] | Some f \<Rightarrow> [(level, f)]) =
      run_lookup uc k s (concat (map (file_entries files) (vr_files ver ! level)))"
      using level_lookup(1) [OF version_levelD(1) [OF assms l(1)] version_levelD(2) [OF assms l], of k s] by (simp split: option.split)
  qed
  show "\<forall>lf \<in> set (level_files uc (vr_files ver) k ?t). file_ok uc files (snd lf)"
  proof
    fix lf assume "lf \<in> set (level_files uc (vr_files ver) k ?t)"
    then obtain level where l: "1 \<le> level" "level < LDB_NUM_LEVELS" "level_file uc (vr_files ver ! level) k ?t = Some (snd lf)"
      by (auto simp: level_files_def split: option.splits)
    then show "file_ok uc files (snd lf)"
      using level_lookup(2) [OF version_levelD(1) [OF assms l(2)] version_levelD(2) [OF assms l(2,1)] l(3)] version_levelD(1) [OF assms l(2)] by blast
  qed
qed

lemma first_hit_newest:
  assumes "sorted_wrt (\<lambda>es es'. newer uc (set es) (set es')) R" "\<forall>es \<in> set R. run_ok uc es" "s \<le> MAX_SEQUENCE"
  shows "case first_hit (run_lookup uc k s) R of
      None \<Rightarrow> \<forall>e \<in> \<Union> (set ` set R). \<not> visible uc k s e
    | Some e \<Rightarrow> newest_in uc k s (\<Union> (set ` set R)) e"
  using assms(1,2)
proof (induction R)
  case (Cons es R)
  have ok: "run_ok uc es" using Cons.prems(2) by simp
  show ?case
  proof (cases "run_lookup uc k s es")
    case None
    have no: "\<not> visible uc k s e" if "e \<in> set es" for e using run_lookup_newest(2) [OF ok assms(3) None that] .
    show ?thesis
    proof (cases "first_hit (run_lookup uc k s) R")
      case None
      then have "\<forall>e \<in> \<Union> (set ` set R). \<not> visible uc k s e" using Cons by simp
      then have "\<forall>e \<in> \<Union> (set ` set (es # R)). \<not> visible uc k s e" using no by auto
      then show ?thesis using \<open>run_lookup uc k s es = None\<close> None by simp
    next
      case (Some e)
      then have "newest_in uc k s (\<Union> (set ` set R)) e" using Cons by simp
      then show ?thesis using \<open>run_lookup uc k s es = None\<close> Some no newest_in_union [of "set es"] by simp
    qed
  next
    case (Some e)
    note n = run_lookup_newest(1) [OF ok assms(3) Some]
    have "key_seq (fst e') \<le> key_seq (fst e)" if e': "e' \<in> set es'" "es' \<in> set R" "visible uc k s e'" for e' es'
    proof -
      have "ldb_compare uc (ldb_extract_user_key (fst e)) k = 0" "ldb_compare uc (ldb_extract_user_key (fst e')) k = 0"
        using n e'(3) by (simp_all add: newest_in_def visible_def)
      then have "ldb_compare uc (ldb_extract_user_key (fst e)) (ldb_extract_user_key (fst e')) = 0"
        using cmp_eq_cong(2) [of "ldb_extract_user_key (fst e)" k "ldb_extract_user_key (fst e')"] cmp_eq_sym [of k "ldb_extract_user_key (fst e')"] by simp
      then have "key_seq (fst e') < key_seq (fst e)" using Cons.prems(1) e'(1,2) n by (auto simp: newer_def newest_in_def)
      then show ?thesis by simp
    qed
    then show ?thesis using Some n by (auto simp: newest_in_def)
  qed
qed simp

text \<open>The runs in the order of the search hold every entry that the lookup may see.\<close>

lemma search_runs:
  assumes "version_ok uc files ver" "version_recent uc files ver"
    and "mset items = mset (filter (in_range uc k) (vr_files ver ! 0))" "sorted_wrt (\<lambda>f g. fm_number g \<le> fm_number f) items"
  defines "R \<equiv> map (file_entries files) items @ level_runs files ver"
  shows "sorted_wrt (\<lambda>es es'. newer uc (set es) (set es')) R" "\<forall>es \<in> set R. run_ok uc es"
    "\<Union> (set ` set R) \<subseteq> version_entries files ver"
    "e \<in> version_entries files ver \<Longrightarrow> visible uc k s e \<Longrightarrow> e \<in> \<Union> (set ` set R)"
proof -
  have len: "length (vr_files ver) = LDB_NUM_LEVELS" "0 < LDB_NUM_LEVELS" using assms(1) by (simp_all add: version_ok_def LDB_NUM_LEVELS_def)
  have items: "set items = {f \<in> set (vr_files ver ! 0). in_range uc k f}" using assms(3) by (metis mset_eq_setD set_filter)
  have rec: "newer uc (set (file_entries files f)) (set (file_entries files g))" if "i < j" "j < LDB_NUM_LEVELS" "f \<in> set (vr_files ver ! i)" "g \<in> set (vr_files ver ! j)" for i j f g
    using assms(2) that unfolding version_recent_def by blast
  have level: "newer uc (set (file_entries files f)) (set (concat (map (file_entries files) (vr_files ver ! j))))"
    if "i < j" "j < LDB_NUM_LEVELS" "f \<in> set (vr_files ver ! i)" for i j f
    using rec [OF that] by (auto simp: newer_def)
  have levels: "newer uc (set (concat (map (file_entries files) (vr_files ver ! i)))) (set (concat (map (file_entries files) (vr_files ver ! j))))"
    if "i < j" "j < LDB_NUM_LEVELS" for i j
    using level [OF that] by (auto simp: newer_def)
  have "distinct (map fm_number (filter (in_range uc k) (vr_files ver ! 0)))" using assms(1) by (simp add: version_ok_def distinct_map_filter)
  then have dist: "distinct (map fm_number items)" using assms(3) mset_eq_imp_distinct_iff by (metis mset_map)
  have "sorted_wrt (\<lambda>f g. newer uc (set (file_entries files f)) (set (file_entries files g))) items"
    unfolding sorted_wrt_iff_nth_less
  proof (intro allI impI)
    fix i j assume ij: "i < j" "j < length items"
    have "fm_number (items ! j) \<le> fm_number (items ! i)" using sorted_wrt_nth_less [OF assms(4)] ij by simp
    moreover have "fm_number (items ! j) \<noteq> fm_number (items ! i)" using dist ij by (simp add: distinct_conv_nth)
    moreover have "items ! i \<in> set (vr_files ver ! 0)" "items ! j \<in> set (vr_files ver ! 0)" using items ij nth_mem [of _ items] by auto
    ultimately show "newer uc (set (file_entries files (items ! i))) (set (file_entries files (items ! j)))"
      using assms(2) unfolding version_recent_def by (metis order.not_eq_order_implies_strict)
  qed
  moreover have "sorted_wrt (\<lambda>es es'. newer uc (set es) (set es')) (level_runs files ver)"
    unfolding level_runs_def sorted_wrt_map sorted_wrt_iff_nth_less using levels by simp
  moreover have "newer uc (set (file_entries files f)) (set es)" if f: "f \<in> set items" and es: "es \<in> set (level_runs files ver)" for f es
  proof -
    obtain j where j: "1 \<le> j" "j < LDB_NUM_LEVELS" "es = concat (map (file_entries files) (vr_files ver ! j))" using es by (auto simp: level_runs_def)
    show ?thesis unfolding j(3) by (rule level [of 0]) (use j(1,2) f items in auto)
  qed
  ultimately show "sorted_wrt (\<lambda>es es'. newer uc (set es) (set es')) R"
    by (auto simp: R_def sorted_wrt_append sorted_wrt_map)
  show "\<forall>es \<in> set R. run_ok uc es"
    using items version_levelD [OF assms(1)] level_run_ok len by (auto simp: R_def level_runs_def file_ok_def)
  show "\<Union> (set ` set R) \<subseteq> version_entries files ver"
  proof
    have mem: "e \<in> version_entries files ver" if "level < LDB_NUM_LEVELS" "f \<in> set (vr_files ver ! level)" "e \<in> set (file_entries files f)" for e f level
      unfolding version_entries_def by (rule UN_I [of "vr_files ver ! level"], use that len in simp, rule UN_I [of f]) (use that in simp_all)
    fix e assume "e \<in> \<Union> (set ` set R)"
    then consider f where "f \<in> set items" "e \<in> set (file_entries files f)"
      | level f where "level < LDB_NUM_LEVELS" "f \<in> set (vr_files ver ! level)" "e \<in> set (file_entries files f)"
      by (auto simp: R_def level_runs_def)
    then show "e \<in> version_entries files ver" using mem items len(2) by cases blast+
  qed
  show "e \<in> \<Union> (set ` set R)" if e: "e \<in> version_entries files ver" "visible uc k s e"
  proof -
    obtain level f where f: "level < LDB_NUM_LEVELS" "f \<in> set (vr_files ver ! level)" "e \<in> set (file_entries files f)"
      using e(1) len by (auto simp: version_entries_def in_set_conv_nth [of _ "vr_files ver"])
    show ?thesis
    proof (cases "level = 0")
      case True
      then have "in_range uc k f" using out_of_range [of files f k e s] f e(2) version_levelD(1) [OF assms(1) f(1)] by blast
      then show ?thesis using f True items by (auto simp: R_def)
    next
      case False
      then show ?thesis using f by (auto simp: R_def level_runs_def)
    qed
  qed
qed

end

context version_reader
begin

lemma version_get_ok:
  assumes "cinv cache" "version_ok uc files ver" "version_recent uc files ver" "s \<le> MAX_SEQUENCE" "length (vr_files ver ! 0) \<le> 2 ^ 30"
  shows "\<exists>rc v stats cache'. ldb_version_get get uc ver cache (ldb_lkey_init k s) value = Some (rc, v, stats, cache') \<and> cinv cache' \<and>
    ((\<forall>e \<in> version_entries files ver. \<not> visible uc k s e) \<and> rc = NOTFOUND \<and> v = value \<or>
     (\<exists>e. newest_in uc k s (version_entries files ver) e \<and>
        (if key_type (fst e) = TYPE_VALUE then rc = OK \<and> v = map_option (\<lambda>_. snd e) value else rc = NOTFOUND \<and> v = value)))"
proof -
  let ?t = "ldb_ikey_set k s VALTYPE_SEEK"
  define st where "st = \<lparr>gs_saver = \<lparr>sv_state = S_NOTFOUND, sv_ucmp = uc, sv_user_key = k, sv_value = value\<rparr>, gs_stats = None, gs_ikey = ?t,
    gs_last_file_read = None, gs_cache = cache, gs_status = OK, gs_found = False\<rparr>"
  obtain items where items: "mset items = mset (filter (in_range uc k) (vr_files ver ! 0))" "sorted_wrt (\<lambda>f g. fm_number g \<le> fm_number f) items"
    "ldb_version_for_each_overlapping uc ver k ?t st (getstate_match get) =
      map_option snd (each_file (getstate_match get) (map (Pair 0) items @ level_files uc (vr_files ver) k ?t) st)"
    using for_each_files [OF assms(5), of uc k ?t st "getstate_match get"] by blast
  let ?lfs = "map (Pair 0) items @ level_files uc (vr_files ver) k ?t"
  define R where "R = map (file_entries files) items @ level_runs files ver"
  note runs = search_runs [OF assms(2,3) items(1,2), folded R_def]
  have hit: "first_hit (\<lambda>lf. run_lookup uc k s (file_entries files (snd lf))) ?lfs = first_hit (run_lookup uc k s) R"
    unfolding R_def first_hit_append level_files_hit(1) [OF assms(2)] first_hit_map by simp
  have "set items \<subseteq> set (vr_files ver ! 0)" using items(1) by (metis filter_is_subset mset_eq_setD)
  then have ok: "\<forall>lf \<in> set ?lfs. file_ok uc files (snd lf)"
    using level_files_hit(2) [OF assms(2), of k s] version_levelD(1) [OF assms(2), of 0] by (auto simp: LDB_NUM_LEVELS_def)
  have "searching uc k s value st" "cinv (gs_cache st)" using assms(1) by (simp_all add: st_def searching_def)
  then obtain go st' where e: "each_file (getstate_match get) ?lfs st = Some (go, st')" "cinv (gs_cache st')"
    "search_at uc k s value (first_hit (run_lookup uc k s) R) st'"
    using each_ok [OF _ _ ok, of k s "value" st] unfolding hit by blast
  have get: "ldb_version_get get uc ver cache (ldb_lkey_init k s) value =
      Some (if gs_found st' then gs_status st' else NOTFOUND, sv_value (gs_saver st'), gs_stats st', gs_cache st')"
    unfolding ldb_version_get_def Let_def ldb_lkey_parts using items(3) e(1) by (simp add: st_def)
  show ?thesis
  proof (cases "first_hit (run_lookup uc k s) R")
    case None
    then have "\<forall>e \<in> \<Union> (set ` set R). \<not> visible uc k s e" using first_hit_newest [OF runs(1,2) assms(4), of k] by simp
    then have "\<forall>e \<in> version_entries files ver. \<not> visible uc k s e" using runs(4) by blast
    then show ?thesis using get e(2,3) None by (auto simp: search_at_def searching_def)
  next
    case (Some x)
    then have "newest_in uc k s (\<Union> (set ` set R)) x" using first_hit_newest [OF runs(1,2) assms(4), of k] by simp
    then have "newest_in uc k s (version_entries files ver) x" using newest_in_subset [OF _ runs(3)] runs(4) by metis
    moreover have "if key_type (fst x) = TYPE_VALUE then (if gs_found st' then gs_status st' else NOTFOUND) = OK \<and> sv_value (gs_saver st') = map_option (\<lambda>_. snd x) value
        else (if gs_found st' then gs_status st' else NOTFOUND) = NOTFOUND \<and> sv_value (gs_saver st') = value"
      using e(3) Some by (simp add: search_at_def ended_def split: if_splits)
    ultimately show ?thesis using get e(2) by blast
  qed
qed

end

interpretation bytewise_versions: version_reader bytewise_comparator
    "\<lambda>cache n sz k. map_option (\<lambda>(rc, r, _, cache). (rc, r, cache)) (ldb_tables_get randfile no_cache cache ro n sz None None k)"
    "tables_ok randfile (options\<lparr>op_comparator := ldb_ikc_init bytewise_comparator\<rparr>) db files" files
  for randfile ro options db files
  using bytewise_uc.user_comparator_axioms open_tables.table_reader_axioms [where options = "options\<lparr>op_comparator := ldb_ikc_init bytewise_comparator\<rparr>"]
  by (simp add: version_reader_def)

section \<open>Property\<close>

text \<open>C3: a lookup in a version at a snapshot returns, and decides by the newest entry of the key
  that the snapshot sees, among the entries of all files of all levels: it gives the value of that
  entry, or not found when the entry is a deletion or when there is none.  The files are found
  through the table cache, opened or not, and their blocks are read without a block cache (the
  option is null; lookups through a block cache are the subject of Table_Cache).  There are at most
  2^30 files on level 0; newer entries of a key are in level-0 files with higher numbers and in
  lower levels, and a file's range of keys is what its metadata says.\<close>

theorem version_get_newest:
  assumes "user_comparator uc" "op_comparator options = ldb_ikc_init uc" "tables_ok randfile options db files cache"
    and "version_ok uc files ver" "version_recent uc files ver" "s \<le> MAX_SEQUENCE" "length (vr_files ver ! 0) \<le> 2 ^ 30"
  shows "\<exists>rc v stats cache'.
    ldb_version_get (\<lambda>cache n sz k. map_option (\<lambda>(rc, r, _, cache). (rc, r, cache)) (ldb_tables_get randfile no_cache cache ro n sz None None k))
      uc ver cache (ldb_lkey_init k s) value = Some (rc, v, stats, cache') \<and>
    tables_ok randfile options db files cache' \<and>
    ((\<forall>e \<in> version_entries files ver. \<not> visible uc k s e) \<and> rc = NOTFOUND \<and> v = value \<or>
     (\<exists>e. newest_in uc k s (version_entries files ver) e \<and>
        (if key_type (fst e) = TYPE_VALUE then rc = OK \<and> v = map_option (\<lambda>_. snd e) value else rc = NOTFOUND \<and> v = value)))"
proof -
  have reader: "version_reader uc (\<lambda>cache n sz k. map_option (\<lambda>(rc, r, _, cache). (rc, r, cache)) (ldb_tables_get randfile no_cache cache ro n sz None None k))
      (tables_ok randfile options db files) files"
    unfolding version_reader_def using assms(1,2) open_tables.table_reader_axioms [of options randfile ro db files] by simp
  show ?thesis by (rule version_reader.version_get_ok [OF reader assms(3-7)])
qed

text \<open>A database with one table.\<close>

lemma one_table:
  assumes "es = [(ldb_ikey_set [97] 5 TYPE_VALUE, [1])]" "options = small_blocks (ldb_ikc_init bytewise_comparator)"
  shows "\<exists>rf sz. tables_hold (\<lambda>_. Inr rf) options ''db'' ((\<lambda>_. None)(5 \<mapsto> (sz, es)))"
proof -
  let ?ops = "\<lparr>wf_append = \<lambda>f d. (OK, f @ d), wf_flush = \<lambda>f. (OK, f)\<rparr> :: bytes wfile_ops"
  have h: "op_comparator options = ldb_ikc_init bytewise_comparator" "name_fits options" "[] = ([] :: bytes)" "op_filter_policy options = None"
    "0 < op_block_restart_interval options"
    "sorted_wrt (\<lambda>x y. ldb_compare (ldb_ikc_init bytewise_comparator) (fst x) (fst y) < 0) es"
    "\<forall>e \<in> set es. table_key (ldb_ikc_init bytewise_comparator) (fst e)" "entries_size es + 8 < 2 ^ 30" "entries_size es \<le> 1000"
    using assms by (simp_all add: small_blocks_def name_fits_def table_key_def ldb_ikey_set_def ldb_pkey_export_def ldb_pkey_init_def ldb_pkey_size_def)
  obtain tb tb' ps ks m x where b: "tablegen_add_all ?ops (ldb_tablegen_create options []) es = Some tb"
    "ldb_tablegen_finish ?ops tb = Some (OK, tb')" "concat (map fst ps) = es"
    "table_layout options (tg_file tb') ps ks m x" "ldb_tablegen_size tb' = length (tg_file tb')"
    using reliable_file.build_ok [OF buffer_file.reliable_file_axioms bytewise_uc.ikt.table_order_axioms h(1-3,6-8)] by blast
  have len: "length (tg_file tb') < 2 ^ 64" using finished_size [OF b(4)] b(3) h(4,9) by simp
  have t: "table_file options (file_of (tg_file tb')) (tg_file tb') es ps ks m x"
    by (rule table_file_built [OF b(4,3)]) (use h len in simp_all)
  have "ldb_table_filename LDB_PATH_MAX ''db'' 5 = Some ''db/000005.ldb''" by code_simp
  then have "open_table_file (\<lambda>_. Inr (file_of (tg_file tb'))) ''db'' 5 = Inr (file_of (tg_file tb'))" by (simp add: open_table_file_def)
  moreover have "unat (word_of_nat (length (tg_file tb')) :: u64) = length (tg_file tb')" using len by (rule unat_word_of_nat)
  moreover have "filter_fits options es ps" using h(4) by (simp add: filter_fits_def)
  ultimately have ex: "\<exists>rf content ps ks m x. open_table_file (\<lambda>_. Inr (file_of (tg_file tb'))) ''db'' 5 = Inr rf \<and>
      unat (word_of_nat (length (tg_file tb')) :: u64) = length content \<and> table_file options rf content es ps ks m x \<and> filter_fits options es ps"
    using t by blast
  have "tables_hold (\<lambda>_. Inr (file_of (tg_file tb'))) options ''db'' ((\<lambda>_. None)(5 \<mapsto> (word_of_nat (length (tg_file tb')), es)))"
    unfolding tables_hold_def
  proof (intro conjI allI impI)
    fix n sz' :: u64 and es' assume "((\<lambda>_. None)(5 \<mapsto> (word_of_nat (length (tg_file tb')), es))) n = Some (sz', es')"
    then have "n = 5" "sz' = word_of_nat (length (tg_file tb'))" "es' = es" by (auto split: if_splits)
    then show "\<exists>rf content ps ks m x. open_table_file (\<lambda>_. Inr (file_of (tg_file tb'))) ''db'' n = Inr rf \<and>
      unat sz' = length content \<and> table_file options rf content es' ps ks m x \<and> filter_fits options es' ps" using ex by (simp only:)
  qed (use h(1,2) bytewise_uc.ikt.table_order_axioms in simp_all)
  then show ?thesis by blast
qed

theorem version_get_newest_witness:
  "\<exists>randfile ver stats cache'.
    ldb_version_get (\<lambda>cache n sz k. map_option (\<lambda>(rc, r, _, cache). (rc, r, cache))
        (ldb_tables_get randfile no_cache cache ldb_readopt_default n sz None None k))
      bytewise_comparator ver (ldb_tables_create ''db'' (small_blocks (ldb_ikc_init bytewise_comparator)) 100) (ldb_lkey_init [97] 9) (Some []) =
    Some (OK, Some [1], stats, cache')"
proof -
  let ?ik = "ldb_ikey_set [97] 5 TYPE_VALUE" and ?options = "small_blocks (ldb_ikc_init bytewise_comparator)"
  obtain rf sz where hold: "tables_hold (\<lambda>_. Inr rf) ?options ''db'' ((\<lambda>_. None)(5 \<mapsto> (sz, [(?ik, [1])])))" using one_table by blast
  define files :: "u64 \<Rightarrow> (u64 \<times> (bytes \<times> bytes) list) option" where "files = (\<lambda>_. None)(5 \<mapsto> (sz, [(?ik, [1])]))"
  define f where "f = \<lparr>fm_refs = 1, fm_allowed_seeks = 100, fm_number = 5, fm_file_size = sz, fm_smallest = ?ik, fm_largest = ?ik\<rparr>"
  define ver where "ver = ldb_version_init\<lparr>vr_files := [f] # replicate 6 []\<rparr>"
  have es: "file_entries files f = [(?ik, [1])]" by (simp add: file_entries_def files_def f_def)
  have imp: "ldb_pkey_import ?ik = Some \<lparr>pk_user_key = [97], pk_sequence = 5, pk_type = TYPE_VALUE\<rparr>"
    using ldb_pkey_import_write [of "\<lparr>pk_user_key = [97], pk_sequence = 5, pk_type = TYPE_VALUE\<rparr>"]
    by (simp add: ldb_ikey_set_def ldb_pkey_export_def ldb_pkey_init_def MAX_SEQUENCE_def)
  have "file_ok bytewise_comparator files f" using es imp by (simp add: file_ok_def run_ok_def key_ok_def files_def f_def)
  then have vok: "version_ok bytewise_comparator files ver"
    by (auto simp: version_ok_def ver_def LDB_NUM_LEVELS_def nth_Cons split: nat.splits)
  have vrec: "version_recent bytewise_comparator files ver"
    by (auto simp: version_recent_def ver_def LDB_NUM_LEVELS_def nth_Cons split: nat.splits)
  have entries: "version_entries files ver = {(?ik, [1])}" using es by (auto simp: version_entries_def ver_def)
  have ok: "tables_ok (\<lambda>_. Inr rf) ?options ''db'' files (ldb_tables_create ''db'' ?options 100)"
    using tables_created hold unfolding files_def by blast
  have type: "key_type ?ik = TYPE_VALUE" "visible bytewise_comparator [97] 9 (?ik, [1])"
    using imp by (simp_all add: key_type_def visible_def key_seq_def bytewise.cmp_refl)
  have "op_comparator ?options = ldb_ikc_init bytewise_comparator" "(9 :: u64) \<le> MAX_SEQUENCE" "length (vr_files ver ! 0) \<le> 2 ^ 30"
    by (simp_all add: small_blocks_def MAX_SEQUENCE_def ver_def)
  from version_get_newest [OF bytewise_uc.user_comparator_axioms this(1) ok vok vrec this(2,3), of ldb_readopt_default "[97]" "Some []"]
  show ?thesis unfolding entries using type by (auto simp: newest_in_def)
qed

end
