(* ===== verification/Version_Builder.thy ===== *)
theory Version_Builder
  imports Version_Get
begin

text \<open>
  The builder of versions (\<^verbatim>\<open>engine/src/version_set.c\<close>): a base version and a sequence of edits
  give a new version, without the versions in between.  The sets are the in-order contents of
  the red-black trees of \<^verbatim>\<open>util/rbt.c\<close>.  A failed assertion is \<open>None\<close>.  The theory shows that the
  builder gives the version that the edits describe one after the other.
\<close>

section \<open>Sets of numbers\<close>

definition rb_set64_compare :: "u64 \<Rightarrow> u64 \<Rightarrow> int" where
  "rb_set64_compare x y = (if x > y then 1 else 0) - (if x < y then 1 else 0)"

definition rb_set64_put :: "u64 list \<Rightarrow> u64 \<Rightarrow> u64 list" where
  "rb_set64_put tree item = set_put rb_set64_compare item tree"

definition rb_set64_del :: "u64 list \<Rightarrow> u64 \<Rightarrow> u64 list" where
  "rb_set64_del tree item = filter (\<lambda>x. rb_set64_compare item x \<noteq> 0) tree"

definition rb_set64_has :: "u64 list \<Rightarrow> u64 \<Rightarrow> bool" where
  "rb_set64_has tree item \<longleftrightarrow> list_ex (\<lambda>x. rb_set64_compare item x = 0) tree"

interpretation numbers: strict_comparator rb_set64_compare "\<lambda>_. True"
  by unfold_locales (auto simp: rb_set64_compare_def sgn_if split: if_splits)

lemma rb_set64_simps [simp]:
  "set (rb_set64_put tree item) = insert item (set tree)"
  "set (rb_set64_del tree item) = set tree - {item}"
  "rb_set64_has tree item \<longleftrightarrow> item \<in> set tree"
proof -
  have eq: "rb_set64_compare item x = 0 \<longleftrightarrow> x = item" for x by (auto simp: rb_set64_compare_def)
  show "set (rb_set64_put tree item) = insert item (set tree)" by (simp add: rb_set64_put_def numbers.set_put_set)
  show "set (rb_set64_del tree item) = set tree - {item}" "rb_set64_has tree item \<longleftrightarrow> item \<in> set tree"
    by (auto simp: rb_set64_del_def rb_set64_has_def list_ex_iff eq)
qed

section \<open>The builder\<close>

record level_state =
  ls_deleted_files :: "u64 list"
  ls_added_files :: "ldb_filemeta list"

record builder =
  bd_base :: ldb_version
  bd_levels :: "level_state list"

definition by_smallest_key :: "ldb_comparator \<Rightarrow> ldb_filemeta \<Rightarrow> ldb_filemeta \<Rightarrow> int" where
  "by_smallest_key cmp f1 f2 =
     (let r = ldb_compare cmp (fm_smallest f1) (fm_smallest f2)
      in if r \<noteq> 0 then r
         else (if fm_number f1 > fm_number f2 then 1 else 0) - (if fm_number f1 < fm_number f2 then 1 else 0))"

definition builder_init :: "ldb_version \<Rightarrow> builder" where
  "builder_init base =
     \<lparr>bd_base = ldb_version_ref base, bd_levels = replicate LDB_NUM_LEVELS \<lparr>ls_deleted_files = [], ls_added_files = []\<rparr>\<rparr>"

text \<open>The three loops of \<open>builder_apply\<close>; \<open>uc\<close> is the user comparator of the version set.\<close>

definition apply_pointer :: "bytes list \<Rightarrow> ikey_entry \<Rightarrow> bytes list" where
  "apply_pointer pointers entry = pointers[ke_level entry := ke_key entry]"

definition apply_deleted :: "level_state list \<Rightarrow> file_entry \<Rightarrow> level_state list" where
  "apply_deleted levels entry =
     levels[fe_level entry :=
       (levels ! fe_level entry)\<lparr>ls_deleted_files := rb_set64_put (ls_deleted_files (levels ! fe_level entry)) (fe_number entry)\<rparr>]"

definition new_file :: "ldb_filemeta \<Rightarrow> ldb_filemeta" where
  "new_file meta =
     (let f = (ldb_filemeta_clone meta)\<lparr>fm_refs := 1\<rparr>;
          f = f\<lparr>fm_allowed_seeks := sint (ucast (fm_file_size f div 16384) :: 32 word)\<rparr>
      in if fm_allowed_seeks f < 100 then f\<lparr>fm_allowed_seeks := 100\<rparr> else f)"

definition apply_new :: "ldb_comparator \<Rightarrow> level_state list \<Rightarrow> meta_entry \<Rightarrow> level_state list" where
  "apply_new uc levels entry =
     (let state = levels ! me_level entry; f = new_file (me_meta entry)
      in levels[me_level entry :=
           \<lparr>ls_deleted_files = rb_set64_del (ls_deleted_files state) (fm_number f),
            ls_added_files = set_put (by_smallest_key (ldb_ikc_init uc)) f (ls_added_files state)\<rparr>])"

definition builder_apply :: "ldb_comparator \<Rightarrow> bytes list \<times> builder \<Rightarrow> ldb_edit \<Rightarrow> bytes list \<times> builder" where
  "builder_apply uc vb edit =
     (foldl apply_pointer (fst vb) (ed_compact_pointers edit),
      (snd vb)\<lparr>bd_levels := foldl (apply_new uc) (foldl apply_deleted (bd_levels (snd vb)) (ed_deleted_files edit)) (ed_new_files edit)\<rparr>)"

definition builder_maybe_add_file :: "ldb_comparator \<Rightarrow> builder \<Rightarrow> ldb_filemeta list \<Rightarrow> nat \<Rightarrow> ldb_filemeta \<Rightarrow> ldb_filemeta list option" where
  "builder_maybe_add_file uc b files level f =
     (if rb_set64_has (ls_deleted_files (bd_levels b ! level)) (fm_number f) then Some files
      else if level > 0 \<and> length files > 0 \<and> \<not> ldb_compare (ldb_ikc_init uc) (fm_largest (last files)) (fm_smallest f) < 0 then None
      else Some (files @ [ldb_filemeta_ref f]))"

text \<open>One level of \<open>builder_save_to\<close>: the added files are left, and the base files from the index on.\<close>

fun save_level :: "ldb_comparator \<Rightarrow> builder \<Rightarrow> nat \<Rightarrow> ldb_filemeta list \<Rightarrow> ldb_filemeta list \<Rightarrow> ldb_filemeta list \<Rightarrow> ldb_filemeta list option" where
  "save_level uc b level [] [] files = Some files"
| "save_level uc b level [] (base_file # base_files) files =
     Option.bind (builder_maybe_add_file uc b files level base_file) (save_level uc b level [] base_files)"
| "save_level uc b level (added_file # added_files) [] files =
     Option.bind (builder_maybe_add_file uc b files level added_file) (save_level uc b level added_files [])"
| "save_level uc b level (added_file # added_files) (base_file # base_files) files =
     (if by_smallest_key (ldb_ikc_init uc) base_file added_file \<ge> 0
      then Option.bind (builder_maybe_add_file uc b files level added_file) (save_level uc b level added_files (base_file # base_files))
      else Option.bind (builder_maybe_add_file uc b files level base_file) (save_level uc b level (added_file # added_files) base_files))"

fun no_overlap :: "ldb_comparator \<Rightarrow> ldb_filemeta list \<Rightarrow> bool" where
  "no_overlap icmp (x # y # files) \<longleftrightarrow> \<not> ldb_compare icmp (fm_largest x) (fm_smallest y) \<ge> 0 \<and> no_overlap icmp (y # files)"
| "no_overlap icmp files \<longleftrightarrow> True"

definition builder_save_to :: "ldb_comparator \<Rightarrow> builder \<Rightarrow> ldb_version \<Rightarrow> ldb_version option" where
  "builder_save_to uc b v =
     map_option (\<lambda>files. v\<lparr>vr_files := files\<rparr>)
       (those (map (\<lambda>level. Option.bind (save_level uc b level (ls_added_files (bd_levels b ! level)) (vr_files (bd_base b) ! level) (vr_files v ! level))
           (\<lambda>files. if level > 0 \<and> \<not> no_overlap (ldb_ikc_init uc) files then None else Some files)) [0 ..< LDB_NUM_LEVELS]))"

section \<open>The order of the files\<close>

text \<open>What an edit does to the files of a level, as sets of files without their reference counts.\<close>

definition settled :: "ldb_filemeta \<Rightarrow> ldb_filemeta" where
  "settled f = f\<lparr>fm_refs := 0\<rparr>"

definition edit_level :: "nat \<Rightarrow> ldb_edit \<Rightarrow> ldb_filemeta set \<Rightarrow> ldb_filemeta set" where
  "edit_level level e F =
     {f \<in> F. \<lparr>fe_level = level, fe_number = fm_number f\<rparr> \<notin> set (ed_deleted_files e)} \<union>
     {settled (new_file (me_meta m)) |m. m \<in> set (ed_new_files e) \<and> me_level m = level}"

text \<open>The numbers of the new files of a level, and edits that never add a number twice.\<close>

definition new_numbers :: "nat \<Rightarrow> ldb_edit \<Rightarrow> u64 list" where
  "new_numbers level e = map (fm_number \<circ> me_meta) (filter (\<lambda>m. me_level m = level) (ed_new_files e))"

primrec edits_fresh :: "nat \<Rightarrow> u64 set \<Rightarrow> ldb_edit list \<Rightarrow> bool" where
  "edits_fresh level N [] \<longleftrightarrow> True"
| "edits_fresh level N (e # es) \<longleftrightarrow> distinct (new_numbers level e) \<and> set (new_numbers level e) \<inter> N = {} \<and>
     edits_fresh level (N \<union> set (new_numbers level e)) es"

lemma settled_simps [simp]:
  "fm_number (settled f) = fm_number f" "fm_smallest (settled f) = fm_smallest f" "fm_largest (settled f) = fm_largest f"
  "fm_file_size (settled f) = fm_file_size f" "settled (ldb_filemeta_ref f) = settled f" "settled (settled f) = settled f"
  by (simp_all add: settled_def ldb_filemeta_ref_def)

lemma filemeta_ref_simps [simp]:
  "fm_number (ldb_filemeta_ref f) = fm_number f" "fm_smallest (ldb_filemeta_ref f) = fm_smallest f"
  "fm_largest (ldb_filemeta_ref f) = fm_largest f" "fm_file_size (ldb_filemeta_ref f) = fm_file_size f"
  by (simp_all add: ldb_filemeta_ref_def)

lemma new_file_simps [simp]:
  "fm_number (new_file f) = fm_number f" "fm_smallest (new_file f) = fm_smallest f" "fm_largest (new_file f) = fm_largest f"
  "fm_file_size (new_file f) = fm_file_size f"
  by (simp_all add: new_file_def ldb_filemeta_clone_def ldb_filemeta_copy_def Let_def)


lemma set_put_new: "\<forall>y \<in> set ys. cmp x y \<noteq> 0 \<Longrightarrow> set (set_put cmp x ys) = insert x (set ys)"
  by (induction ys) auto

context comparator
begin

lemma set_put_order:
  assumes "\<forall>y \<in> set ys. cmp x y \<noteq> 0" "valid x" "\<forall>y \<in> set ys. valid y" "sorted_wrt (\<lambda>a b. cmp a b < 0) ys"
  shows "sorted_wrt (\<lambda>a b. cmp a b < 0) (set_put cmp x ys)"
  using assms(1,3,4)
proof (induction ys)
  case (Cons y ys)
  have "cmp y x < 0" if "\<not> cmp x y < 0" using cmp_gt_iff [of y x] that Cons.prems assms(2) by auto
  moreover have "\<forall>z \<in> set ys. cmp x z < 0" if "cmp x y < 0" using Cons.prems cmp_less_trans [of x y] that assms(2) by auto
  ultimately show ?case using Cons set_put_new [of ys cmp x] by auto
qed simp

end

context user_comparator
begin

lemma by_smallest_key_simps:
  "by_smallest_key (ldb_ikc_init uc) f g < 0 \<longleftrightarrow> ldb_ikc_compare uc (fm_smallest f) (fm_smallest g) < 0 \<or>
     ldb_ikc_compare uc (fm_smallest f) (fm_smallest g) = 0 \<and> fm_number f < fm_number g"
  "by_smallest_key (ldb_ikc_init uc) f g = 0 \<longleftrightarrow> ldb_ikc_compare uc (fm_smallest f) (fm_smallest g) = 0 \<and> fm_number f = fm_number g"
  by (auto simp: by_smallest_key_def Let_def ikc_compare_eq)

lemma by_smallest_key_antisym: "sgn (by_smallest_key (ldb_ikc_init uc) g f) = - sgn (by_smallest_key (ldb_ikc_init uc) f g)"
  using ikc_antisym [of "fm_smallest f" "fm_smallest g"] by (auto simp: by_smallest_key_def Let_def ikc_compare_eq sgn_if split: if_splits)

lemma by_smallest_key_trans:
  assumes "by_smallest_key (ldb_ikc_init uc) f g \<le> 0" "by_smallest_key (ldb_ikc_init uc) g h \<le> 0"
  shows "by_smallest_key (ldb_ikc_init uc) f h \<le> 0"
proof -
  have le: "by_smallest_key (ldb_ikc_init uc) a b \<le> 0 \<longleftrightarrow> ldb_ikc_compare uc (fm_smallest a) (fm_smallest b) < 0 \<or>
     ldb_ikc_compare uc (fm_smallest a) (fm_smallest b) = 0 \<and> fm_number a \<le> fm_number b" for a b
    using by_smallest_key_simps [of a b] by (auto simp: order.order_iff_strict)
  show ?thesis
    using assms ikc.cmp_less_trans [of "fm_smallest f" "fm_smallest g" "fm_smallest h"]
      ikc.cmp_eq_cong [of "fm_smallest f" "fm_smallest g" "fm_smallest h"] ikc.cmp_eq_cong(3) [of "fm_smallest g" "fm_smallest h" "fm_smallest f"]
    by (auto simp: le)
qed

end

sublocale user_comparator \<subseteq> bsk: comparator "by_smallest_key (ldb_ikc_init uc)" "\<lambda>_. True"
  by unfold_locales (use by_smallest_key_antisym by_smallest_key_trans in blast)+

section \<open>Saving a level\<close>

text \<open>The files in the order in which they are offered, and the offers.\<close>

fun merge_files :: "ldb_comparator \<Rightarrow> ldb_filemeta list \<Rightarrow> ldb_filemeta list \<Rightarrow> ldb_filemeta list" where
  "merge_files uc [] base = base"
| "merge_files uc (a # added) [] = a # added"
| "merge_files uc (a # added) (f # base) =
     (if by_smallest_key (ldb_ikc_init uc) f a \<ge> 0 then a # merge_files uc added (f # base) else f # merge_files uc (a # added) base)"

primrec add_files :: "ldb_comparator \<Rightarrow> builder \<Rightarrow> nat \<Rightarrow> ldb_filemeta list \<Rightarrow> ldb_filemeta list \<Rightarrow> ldb_filemeta list option" where
  "add_files uc b level [] files = Some files"
| "add_files uc b level (f # fs) files = Option.bind (builder_maybe_add_file uc b files level f) (add_files uc b level fs)"

definition follows :: "ldb_comparator \<Rightarrow> ldb_filemeta \<Rightarrow> ldb_filemeta \<Rightarrow> bool" where
  "follows uc f g \<longleftrightarrow> ldb_ikc_compare uc (fm_largest f) (fm_smallest g) < 0"

lemma save_level_eq: "save_level uc b level added base files = add_files uc b level (merge_files uc added base) files"
proof (induction uc added base arbitrary: files rule: merge_files.induct)
  case (1 uc base)
  then show ?case by (induction base arbitrary: files) (auto intro: Option.bind_cong)
next
  case (2 uc a added)
  have "save_level uc b level xs [] files = add_files uc b level xs files" for xs files
    by (induction xs arbitrary: files) (auto intro: Option.bind_cong)
  from this [of "a # added"] show ?case by simp
next
  case (3 uc a added f base)
  then show ?case by (auto intro!: Option.bind_cong)
qed

lemma set_merge_files: "set (merge_files uc added base) = set added \<union> set base"
  by (induction uc added base rule: merge_files.induct) auto

lemma follows_ref [simp]: "follows uc (ldb_filemeta_ref f) g = follows uc f g" "follows uc f (ldb_filemeta_ref g) = follows uc f g"
  by (simp_all add: follows_def ldb_filemeta_ref_def)

lemma add_files_ok:
  assumes "level > 0 \<Longrightarrow> sorted_wrt (follows uc) (files @ filter (\<lambda>f. fm_number f \<notin> set (ls_deleted_files (bd_levels b ! level))) fs)"
  shows "add_files uc b level fs files =
    Some (files @ map ldb_filemeta_ref (filter (\<lambda>f. fm_number f \<notin> set (ls_deleted_files (bd_levels b ! level))) fs))"
  using assms
proof (induction fs arbitrary: files)
  case (Cons f fs)
  show ?case
  proof (cases "fm_number f \<in> set (ls_deleted_files (bd_levels b ! level))")
    case True
    then show ?thesis using Cons by (simp add: builder_maybe_add_file_def)
  next
    case False
    have "follows uc (last files) f" if "level > 0" "files \<noteq> []"
      using Cons.prems [OF that(1)] that(2) False by (simp add: sorted_wrt_append)
    then have "builder_maybe_add_file uc b files level f = Some (files @ [ldb_filemeta_ref f])"
      using False by (auto simp: builder_maybe_add_file_def follows_def ikc_compare_eq)
    then show ?thesis using Cons.IH [of "files @ [ldb_filemeta_ref f]"] Cons.prems False by (simp add: sorted_wrt_append)
  qed
qed simp

lemma no_overlap_sorted: "sorted_wrt (follows uc) files \<Longrightarrow> no_overlap (ldb_ikc_init uc) files"
  by (induction "ldb_ikc_init uc" files rule: no_overlap.induct) (auto simp: follows_def ikc_compare_eq)

context user_comparator
begin

lemma merge_files_sorted:
  assumes "u = uc" "sorted_wrt (\<lambda>f g. by_smallest_key (ldb_ikc_init uc) f g < 0) added"
    and "sorted_wrt (\<lambda>f g. by_smallest_key (ldb_ikc_init uc) f g < 0) base" "\<forall>f \<in> set added. \<forall>g \<in> set base. fm_number f \<noteq> fm_number g"
  shows "sorted_wrt (\<lambda>f g. by_smallest_key (ldb_ikc_init uc) f g < 0) (merge_files u added base)"
  using assms
proof (induction u added base rule: merge_files.induct)
  case (3 u a added f base)
  have ne: "by_smallest_key (ldb_ikc_init uc) f a \<noteq> 0" using 3(6) by (auto simp: by_smallest_key_simps)
  show ?case
  proof (cases "by_smallest_key (ldb_ikc_init uc) f a \<ge> 0")
    case True
    then have "by_smallest_key (ldb_ikc_init uc) a f < 0" using ne bsk.cmp_gt_iff [of a f] bsk.cmp_gt_iff [of f a] by simp
    then have "by_smallest_key (ldb_ikc_init uc) a g < 0" if "g \<in> set added \<union> set (f # base)" for g
      using that 3(4,5) bsk.cmp_less_trans [of a f g] by auto
    then show ?thesis using 3 True by (simp add: set_merge_files)
  next
    case False
    then have "by_smallest_key (ldb_ikc_init uc) f g < 0" if "g \<in> set (a # added) \<union> set base" for g
      using that 3(4,5) bsk.cmp_less_trans [of f a g] by auto
    then show ?thesis using 3 False by (simp add: set_merge_files)
  qed
qed simp_all

text \<open>Files that are in order and pairwise apart follow each other.\<close>

lemma apart_follows:
  assumes "sorted_wrt (\<lambda>f g. by_smallest_key (ldb_ikc_init uc) f g < 0) fs"
    and "\<forall>f \<in> set fs. ldb_ikc_compare uc (fm_smallest f) (fm_largest f) \<le> 0"
    and "\<forall>f \<in> set fs. \<forall>g \<in> set fs. f \<noteq> g \<longrightarrow> follows uc f g \<or> follows uc g f"
  shows "sorted_wrt (follows uc) fs"
proof (rule sorted_wrt_mono_rel [OF _ assms(1)])
  fix f g assume f: "f \<in> set fs" and g: "g \<in> set fs" and less: "by_smallest_key (ldb_ikc_init uc) f g < 0"
  have "f \<noteq> g" using less bsk.cmp_refl [of f] by auto
  then consider "follows uc f g" | "follows uc g f" using assms(3) f g by blast
  then show "follows uc f g"
  proof cases
    case 2
    have "ldb_ikc_compare uc (fm_smallest f) (fm_smallest g) \<le> 0" using less by (auto simp: by_smallest_key_simps)
    then have "ldb_ikc_compare uc (fm_smallest f) (fm_largest g) \<le> 0" using assms(2) g ikc.cmp_trans by blast
    then have "ldb_ikc_compare uc (fm_smallest f) (fm_smallest f) < 0" using 2 ikc.cmp_le_less_trans by (auto simp: follows_def)
    then show ?thesis using ikc.cmp_refl by simp
  qed
qed

end


section \<open>Applying edits\<close>

definition level_holds :: "ldb_comparator \<Rightarrow> ldb_filemeta list \<Rightarrow> u64 set \<Rightarrow> ldb_filemeta set \<Rightarrow> level_state \<Rightarrow> bool" where
  "level_holds uc base N F state \<longleftrightarrow>
     sorted_wrt (\<lambda>f g. by_smallest_key (ldb_ikc_init uc) f g < 0) (ls_added_files state) \<and>
     fm_number ` (set base \<union> set (ls_added_files state)) \<subseteq> N \<and>
     (\<forall>f \<in> set (ls_added_files state). \<forall>g \<in> set base. fm_number f \<noteq> fm_number g) \<and>
     F = settled ` {f \<in> set base \<union> set (ls_added_files state). fm_number f \<notin> set (ls_deleted_files state)}"

lemma apply_deleted_fold:
  assumes "\<forall>d \<in> set ds. fe_level d < length levels" "level < length levels"
  shows "length (foldl apply_deleted levels ds) = length levels \<and>
    ls_added_files (foldl apply_deleted levels ds ! level) = ls_added_files (levels ! level) \<and>
    set (ls_deleted_files (foldl apply_deleted levels ds ! level)) =
      set (ls_deleted_files (levels ! level)) \<union> {n. \<lparr>fe_level = level, fe_number = n\<rparr> \<in> set ds}"
  using assms
proof (induction ds arbitrary: levels)
  case (Cons d ds)
  have "d = \<lparr>fe_level = fe_level d, fe_number = fe_number d\<rparr>" by simp
  then have eq: "\<lparr>fe_level = level, fe_number = n\<rparr> = d \<longleftrightarrow> fe_level d = level \<and> n = fe_number d" for n by (metis file_entry.ext_inject)
  show ?case
    using Cons.IH [of "apply_deleted levels d"] Cons.prems
    by (cases "fe_level d = level") (auto simp: apply_deleted_def eq nth_list_update)
qed simp

context user_comparator
begin

lemma apply_new_fold:
  assumes "\<forall>m \<in> set ms. me_level m < length levels" "level < length levels"
    and "distinct (map (fm_number \<circ> me_meta) (filter (\<lambda>m. me_level m = level) ms))"
    and "\<forall>m \<in> set ms. me_level m = level \<longrightarrow> fm_number (me_meta m) \<notin> fm_number ` set (ls_added_files (levels ! level))"
    and "sorted_wrt (\<lambda>f g. by_smallest_key (ldb_ikc_init uc) f g < 0) (ls_added_files (levels ! level))"
  shows "length (foldl (apply_new uc) levels ms) = length levels \<and>
    sorted_wrt (\<lambda>f g. by_smallest_key (ldb_ikc_init uc) f g < 0) (ls_added_files (foldl (apply_new uc) levels ms ! level)) \<and>
    set (ls_added_files (foldl (apply_new uc) levels ms ! level)) =
      set (ls_added_files (levels ! level)) \<union> {new_file (me_meta m) |m. m \<in> set ms \<and> me_level m = level} \<and>
    set (ls_deleted_files (foldl (apply_new uc) levels ms ! level)) =
      set (ls_deleted_files (levels ! level)) - fm_number ` me_meta ` {m \<in> set ms. me_level m = level}"
  using assms
proof (induction ms arbitrary: levels)
  case (Cons m ms)
  let ?l = "apply_new uc levels m" and ?f = "new_file (me_meta m)" and ?A = "ls_added_files (levels ! level)"
  have new: "\<forall>g \<in> set ?A. by_smallest_key (ldb_ikc_init uc) ?f g \<noteq> 0" if "me_level m = level"
    using Cons.prems(4) that by (auto simp: by_smallest_key_simps image_iff)
  have added: "set (ls_added_files (?l ! level)) = (if me_level m = level then insert ?f (set ?A) else set ?A)"
    "sorted_wrt (\<lambda>f g. by_smallest_key (ldb_ikc_init uc) f g < 0) (ls_added_files (?l ! level))"
    "set (ls_deleted_files (?l ! level)) =
      (if me_level m = level then set (ls_deleted_files (levels ! level)) - {fm_number (me_meta m)} else set (ls_deleted_files (levels ! level)))"
    "length ?l = length levels"
    using Cons.prems(1,2,5) new set_put_new [of ?A "by_smallest_key (ldb_ikc_init uc)" ?f] bsk.set_put_order [of ?A ?f]
    by (auto simp: apply_new_def Let_def nth_list_update)
  have "fm_number (me_meta x) \<notin> fm_number ` set (ls_added_files (?l ! level))" if "x \<in> set ms" "me_level x = level" for x
    using Cons.prems(3,4) that unfolding added(1) by (auto split: if_splits simp: image_iff)
  then show ?case
    using Cons.IH [of ?l] Cons.prems(1,2,3) added by (auto split: if_splits)
qed simp

end

lemma builder_apply_holds:
  assumes "user_comparator uc" "edit_ok e" "length (bd_levels b) = LDB_NUM_LEVELS" "level < LDB_NUM_LEVELS"
    and "level_holds uc base N F (bd_levels b ! level)" "distinct (new_numbers level e)" "set (new_numbers level e) \<inter> N = {}"
  shows "level_holds uc base (N \<union> set (new_numbers level e)) (edit_level level e F) (bd_levels (snd (builder_apply uc (p, b) e)) ! level)"
    and "length (bd_levels (snd (builder_apply uc (p, b) e))) = LDB_NUM_LEVELS"
    and "bd_base (snd (builder_apply uc (p, b) e)) = bd_base b"
proof -
  let ?l0 = "bd_levels b" let ?l1 = "foldl apply_deleted ?l0 (ed_deleted_files e)"
  let ?D = "{n. \<lparr>fe_level = level, fe_number = n\<rparr> \<in> set (ed_deleted_files e)}"
  let ?M = "{m \<in> set (ed_new_files e). me_level m = level}"
  have ok: "\<forall>d \<in> set (ed_deleted_files e). fe_level d < length ?l0" "\<forall>m \<in> set (ed_new_files e). me_level m < length ?l0"
    using assms(2,3) by (auto simp: edit_ok_def meta_entry_ok_def)
  have l1: "length ?l1 = length ?l0" "ls_added_files (?l1 ! level) = ls_added_files (?l0 ! level)"
    "set (ls_deleted_files (?l1 ! level)) = set (ls_deleted_files (?l0 ! level)) \<union> ?D"
    using apply_deleted_fold [OF ok(1), of level] assms(3,4) by simp_all
  have N: "fm_number (me_meta m) \<notin> N" "fm_number (me_meta m) \<in> set (new_numbers level e)" if "m \<in> ?M" for m
    using assms(7) that by (auto simp: new_numbers_def)
  have fresh: "\<forall>m \<in> set (ed_new_files e). me_level m = level \<longrightarrow> fm_number (me_meta m) \<notin> fm_number ` set (ls_added_files (?l1 ! level))"
    using N(1) assms(5) l1(2) by (fastforce simp: level_holds_def)
  have l2: "length (foldl (apply_new uc) ?l1 (ed_new_files e)) = LDB_NUM_LEVELS"
    "sorted_wrt (\<lambda>f g. by_smallest_key (ldb_ikc_init uc) f g < 0) (ls_added_files (foldl (apply_new uc) ?l1 (ed_new_files e) ! level))"
    "set (ls_added_files (foldl (apply_new uc) ?l1 (ed_new_files e) ! level)) = set (ls_added_files (?l0 ! level)) \<union> {new_file (me_meta m) |m. m \<in> ?M}"
    "set (ls_deleted_files (foldl (apply_new uc) ?l1 (ed_new_files e) ! level)) = (set (ls_deleted_files (?l0 ! level)) \<union> ?D) - fm_number ` me_meta ` ?M"
    using user_comparator.apply_new_fold [OF assms(1), of "ed_new_files e" ?l1 level] ok(2) l1 fresh assms(3,4,5,6)
    by (auto simp: new_numbers_def level_holds_def)
  have numbers: "fm_number ` me_meta ` ?M = set (new_numbers level e)" by (auto simp: new_numbers_def)
  have F: "F = settled ` {f \<in> set base \<union> set (ls_added_files (?l0 ! level)). fm_number f \<notin> set (ls_deleted_files (?l0 ! level))}"
    and sub: "fm_number ` (set base \<union> set (ls_added_files (?l0 ! level))) \<subseteq> N"
    and ne: "\<forall>f \<in> set (ls_added_files (?l0 ! level)). \<forall>g \<in> set base. fm_number f \<noteq> fm_number g"
    using assms(5) by (simp_all add: level_holds_def)
  let ?A' = "set (ls_added_files (?l0 ! level)) \<union> {new_file (me_meta m) |m. m \<in> ?M}"
  let ?D' = "(set (ls_deleted_files (?l0 ! level)) \<union> ?D) - set (new_numbers level e)"
  have "{f \<in> set base \<union> ?A'. fm_number f \<notin> ?D'} =
      {f \<in> set base \<union> set (ls_added_files (?l0 ! level)). fm_number f \<notin> set (ls_deleted_files (?l0 ! level)) \<and> fm_number f \<notin> ?D} \<union>
      {new_file (me_meta m) |m. m \<in> ?M}"
    using sub assms(7) N(2) by (auto simp: image_iff)
  then have "settled ` {f \<in> set base \<union> ?A'. fm_number f \<notin> ?D'} = edit_level level e F"
    unfolding F edit_level_def by (auto simp: image_iff)
  moreover have "\<forall>f \<in> ?A'. \<forall>g \<in> set base. fm_number f \<noteq> fm_number g"
    using ne N(1) sub by (fastforce simp: image_iff)
  moreover have "fm_number ` (set base \<union> ?A') \<subseteq> N \<union> set (new_numbers level e)" using sub N(2) by auto
  ultimately show "level_holds uc base (N \<union> set (new_numbers level e)) (edit_level level e F) (bd_levels (snd (builder_apply uc (p, b) e)) ! level)"
    unfolding level_holds_def using l2 by (simp add: builder_apply_def numbers)
  show "length (bd_levels (snd (builder_apply uc (p, b) e))) = LDB_NUM_LEVELS" "bd_base (snd (builder_apply uc (p, b) e)) = bd_base b"
    using l2(1) by (simp_all add: builder_apply_def)
qed


definition edited_level :: "ldb_version \<Rightarrow> ldb_edit list \<Rightarrow> nat \<Rightarrow> ldb_filemeta set" where
  "edited_level base es level = fold (edit_level level) es (settled ` set (vr_files base ! level))"

lemma builder_fold_holds:
  assumes "user_comparator uc" "\<forall>e \<in> set es. edit_ok e" "length (bd_levels b) = LDB_NUM_LEVELS" "level < LDB_NUM_LEVELS"
    and "level_holds uc base N F (bd_levels b ! level)" "edits_fresh level N es"
  shows "\<exists>p' b' N'. foldl (builder_apply uc) (p, b) es = (p', b') \<and> level_holds uc base N' (fold (edit_level level) es F) (bd_levels b' ! level) \<and>
    length (bd_levels b') = LDB_NUM_LEVELS \<and> bd_base b' = bd_base b"
  using assms(2-)
proof (induction es arbitrary: p b N F)
  case (Cons e es)
  obtain p1 b1 where b1: "builder_apply uc (p, b) e = (p1, b1)" by fastforce
  note step = builder_apply_holds [OF assms(1) _ Cons.prems(2,3,4), of e p, unfolded b1 snd_conv]
  show ?case
    using Cons.IH [of b1 "N \<union> set (new_numbers level e)" "edit_level level e F" p1] step Cons.prems b1 by auto
qed auto

context user_comparator
begin

lemma sorted_not_equal:
  assumes "sorted_wrt (\<lambda>f g. by_smallest_key (ldb_ikc_init uc) f g < 0) fs" "f \<in> set fs" "g \<in> set fs" "f \<noteq> g"
  shows "by_smallest_key (ldb_ikc_init uc) f g \<noteq> 0"
proof -
  obtain i j where "i < length fs" "j < length fs" "f = fs ! i" "g = fs ! j" "i \<noteq> j" using assms(2-4) by (metis in_set_conv_nth)
  then have "by_smallest_key (ldb_ikc_init uc) f g < 0 \<or> by_smallest_key (ldb_ikc_init uc) g f < 0"
    using sorted_wrt_nth_less [OF assms(1)] by (metis nat_neq_iff)
  then show ?thesis using bsk.cmp_eq_sym [of f g] by auto
qed

lemma save_level_holds:
  assumes "level_holds uc base N F (bd_levels b ! level)" "sorted_wrt (\<lambda>f g. by_smallest_key (ldb_ikc_init uc) f g < 0) base"
    and "0 < level \<Longrightarrow> \<forall>f \<in> F. ldb_ikc_compare uc (fm_smallest f) (fm_largest f) \<le> 0 \<and> (\<forall>g \<in> F. f \<noteq> g \<longrightarrow> follows uc f g \<or> follows uc g f)"
  shows "\<exists>files. save_level uc b level (ls_added_files (bd_levels b ! level)) base [] = Some files \<and> settled ` set files = F \<and>
    sorted_wrt (\<lambda>f g. by_smallest_key (ldb_ikc_init uc) f g < 0) files \<and> (0 < level \<longrightarrow> sorted_wrt (follows uc) files)"
proof -
  let ?A = "ls_added_files (bd_levels b ! level)"
  let ?fs = "filter (\<lambda>f. fm_number f \<notin> set (ls_deleted_files (bd_levels b ! level))) (merge_files uc ?A base)"
  have set: "settled ` set ?fs = F" using assms(1) by (auto simp: level_holds_def set_merge_files)
  have sorted: "sorted_wrt (\<lambda>f g. by_smallest_key (ldb_ikc_init uc) f g < 0) ?fs"
    using assms(1) merge_files_sorted [OF refl, of ?A base] assms(2) by (auto simp: level_holds_def intro: sorted_wrt_filter)
  have F: "settled f \<in> F" if "f \<in> set ?fs" for f using that set by blast
  have "sorted_wrt (follows uc) ?fs" if "0 < level"
  proof (rule apart_follows [OF sorted])
    show "\<forall>f \<in> set ?fs. ldb_ikc_compare uc (fm_smallest f) (fm_largest f) \<le> 0"
      using assms(3) [OF that] F by (metis settled_simps(2,3))
    show "\<forall>f \<in> set ?fs. \<forall>g \<in> set ?fs. f \<noteq> g \<longrightarrow> follows uc f g \<or> follows uc g f"
    proof (intro ballI impI)
      fix f g assume fg: "f \<in> set ?fs" "g \<in> set ?fs" "f \<noteq> g"
      have "by_smallest_key (ldb_ikc_init uc) f g \<noteq> 0" by (rule sorted_not_equal [OF sorted fg])
      then have "\<not> (fm_smallest f = fm_smallest g \<and> fm_number f = fm_number g)" using ikc.cmp_refl [of "fm_smallest g"] by (auto simp: by_smallest_key_simps)
      then have "settled f \<noteq> settled g" using settled_simps(1,2) [of f] settled_simps(1,2) [of g] by metis
      then have "follows uc (settled f) (settled g) \<or> follows uc (settled g) (settled f)" using assms(3) [OF that] F fg by blast
      then show "follows uc f g \<or> follows uc g f" by (simp add: follows_def)
    qed
  qed
  moreover from this have "save_level uc b level ?A base [] = Some (map ldb_filemeta_ref ?fs)"
    using add_files_ok [of level uc "[]" b "merge_files uc ?A base"] by (simp add: save_level_eq)
  moreover have "by_smallest_key (ldb_ikc_init uc) (ldb_filemeta_ref f) (ldb_filemeta_ref g) = by_smallest_key (ldb_ikc_init uc) f g" for f g
    by (simp only: by_smallest_key_def filemeta_ref_simps)
  moreover have "settled ` set (map ldb_filemeta_ref ?fs) = F" using set by (simp add: image_image)
  ultimately show ?thesis using sorted by (intro exI [of _ "map ldb_filemeta_ref ?fs"]) (simp add: sorted_wrt_map)
qed

lemma edits_built:
  assumes "length (vr_files base) = LDB_NUM_LEVELS" "\<forall>e \<in> set es. edit_ok e"
    and "\<forall>level < LDB_NUM_LEVELS. sorted_wrt (\<lambda>f g. by_smallest_key (ldb_ikc_init uc) f g < 0) (vr_files base ! level) \<and>
      edits_fresh level (fm_number ` set (vr_files base ! level)) es"
    and "\<forall>level < LDB_NUM_LEVELS. 0 < level \<longrightarrow> (\<forall>f \<in> edited_level base es level. ldb_ikc_compare uc (fm_smallest f) (fm_largest f) \<le> 0 \<and>
      (\<forall>g \<in> edited_level base es level. f \<noteq> g \<longrightarrow> follows uc f g \<or> follows uc g f))"
  shows "\<exists>v. builder_save_to uc (snd (foldl (builder_apply uc) (pointers, builder_init base) es)) ldb_version_init = Some v \<and>
    length (vr_files v) = LDB_NUM_LEVELS \<and>
    (\<forall>level < LDB_NUM_LEVELS. settled ` set (vr_files v ! level) = edited_level base es level \<and>
      sorted_wrt (\<lambda>f g. by_smallest_key (ldb_ikc_init uc) f g < 0) (vr_files v ! level) \<and>
      (0 < level \<longrightarrow> sorted_wrt (follows uc) (vr_files v ! level)))"
proof -
  obtain p b where b: "foldl (builder_apply uc) (pointers, builder_init base) es = (p, b)" by fastforce
  let ?save = "\<lambda>level. Option.bind (save_level uc b level (ls_added_files (bd_levels b ! level)) (vr_files (bd_base b) ! level)
      (vr_files ldb_version_init ! level)) (\<lambda>files. if level > 0 \<and> \<not> no_overlap (ldb_ikc_init uc) files then None else Some files)"
  define good where "good level files \<longleftrightarrow> ?save level = Some files \<and> settled ` set files = edited_level base es level \<and>
    sorted_wrt (\<lambda>f g. by_smallest_key (ldb_ikc_init uc) f g < 0) files \<and> (0 < level \<longrightarrow> sorted_wrt (follows uc) files)" for level files
  have good: "\<exists>files. good level files"
    if level: "level < LDB_NUM_LEVELS" for level
  proof -
    have "level_holds uc (vr_files base ! level) (fm_number ` set (vr_files base ! level)) (settled ` set (vr_files base ! level))
        (bd_levels (builder_init base) ! level)"
      using level by (auto simp: level_holds_def builder_init_def)
    from builder_fold_holds [OF user_comparator_axioms assms(2) _ level this, of pointers] b assms(3) level
    have "\<exists>N'. level_holds uc (vr_files base ! level) N' (edited_level base es level) (bd_levels b ! level)" and "bd_base b = ldb_version_ref base"
      by (auto simp: builder_init_def edited_level_def)
    then obtain N' where N': "level_holds uc (vr_files base ! level) N' (edited_level base es level) (bd_levels b ! level)"
      and base: "vr_files (bd_base b) = vr_files base" by (auto simp: ldb_version_ref_def)
    obtain files where files: "save_level uc b level (ls_added_files (bd_levels b ! level)) (vr_files base ! level) [] = Some files"
      "settled ` set files = edited_level base es level" "sorted_wrt (\<lambda>f g. by_smallest_key (ldb_ikc_init uc) f g < 0) files"
      "0 < level \<longrightarrow> sorted_wrt (follows uc) files"
      using save_level_holds [OF N'] assms(3,4) level by blast
    moreover have "vr_files ldb_version_init ! level = []" using level by (simp add: ldb_version_init_def)
    ultimately have "?save level = Some files" using no_overlap_sorted [of uc files] base by auto
    then show ?thesis unfolding good_def using files by blast
  qed
  define F where "F level = (SOME files. good level files)" for level
  have F: "good level (F level)" if "level < LDB_NUM_LEVELS" for level unfolding F_def using good [OF that] by (rule someI_ex)
  have "those (map ?save xs) = Some (map F xs)" if "\<forall>x \<in> set xs. x < LDB_NUM_LEVELS" for xs
    using that F by (induction xs) (auto simp: good_def)
  then have "those (map ?save [0 ..< LDB_NUM_LEVELS]) = Some (map F [0 ..< LDB_NUM_LEVELS])" by simp
  then show ?thesis using b F by (simp add: builder_save_to_def good_def)
qed

end

section \<open>Properties\<close>

text \<open>C6: applying a sequence of edits to a version and saving the result once gives, level by level, the files
  that the edits describe one after the other (each first deletes files, then adds some), whatever
  the edits delete, provided no edit adds a number to a level that has had it: sorted by smallest key, with
  their numbers as ties, and above level 0 one after the other, so that no assertion of the builder
  fails when the described files do not overlap.\<close>

theorem builder_refines_edits:
  assumes "user_comparator uc" "length (vr_files base) = LDB_NUM_LEVELS" "\<forall>e \<in> set es. edit_ok e"
    and "\<forall>level < LDB_NUM_LEVELS. sorted_wrt (\<lambda>f g. by_smallest_key (ldb_ikc_init uc) f g < 0) (vr_files base ! level) \<and>
      edits_fresh level (fm_number ` set (vr_files base ! level)) es"
    and "\<forall>level < LDB_NUM_LEVELS. 0 < level \<longrightarrow> (\<forall>f \<in> edited_level base es level. ldb_ikc_compare uc (fm_smallest f) (fm_largest f) \<le> 0 \<and>
      (\<forall>g \<in> edited_level base es level. f \<noteq> g \<longrightarrow> follows uc f g \<or> follows uc g f))"
  shows "\<exists>v. builder_save_to uc (snd (foldl (builder_apply uc) (pointers, builder_init base) es)) ldb_version_init = Some v \<and>
    length (vr_files v) = LDB_NUM_LEVELS \<and>
    (\<forall>level < LDB_NUM_LEVELS. settled ` set (vr_files v ! level) = edited_level base es level \<and>
      sorted_wrt (\<lambda>f g. by_smallest_key (ldb_ikc_init uc) f g < 0) (vr_files v ! level) \<and>
      (0 < level \<longrightarrow> sorted_wrt (follows uc) (vr_files v ! level)))"
  by (rule user_comparator.edits_built [OF assms])

theorem builder_refines_edits_witness:
  "\<exists>v. builder_save_to bytewise_comparator (snd (foldl (builder_apply bytewise_comparator) ([], builder_init ldb_version_init)
      [ldb_edit_add_file ldb_edit_init 1 5 100 (replicate 9 0) (replicate 9 0),
       ldb_edit_add_file (ldb_edit_remove_file ldb_edit_init 1 5) 1 6 200 (replicate 9 0) (replicate 9 0)])) ldb_version_init = Some v \<and>
    fm_number ` set (vr_files v ! 1) = {6}"
proof -
  define k :: bytes where "k = replicate 9 0"
  define e where "e = ldb_edit_add_file ldb_edit_init 1 5 100 k k"
  define e' where "e' = ldb_edit_add_file (ldb_edit_remove_file ldb_edit_init 1 5) 1 6 200 k k"
  have news: "ed_new_files e = [meta_entry_create 1 5 100 k k]" "ed_new_files e' = [meta_entry_create 1 6 200 k k]"
    "ed_deleted_files e = []" "ed_deleted_files e' = [\<lparr>fe_level = 1, fe_number = 5\<rparr>]"
    by (simp_all add: e_def e'_def ldb_edit_add_file_def ldb_edit_remove_file_def ldb_edit_init_def file_entry_create_def)
  have meta: "me_level (meta_entry_create l n s k k) = l" "fm_number (me_meta (meta_entry_create l n s k k)) = n"
    "fm_smallest (me_meta (meta_entry_create l n s k k)) = k" "fm_largest (me_meta (meta_entry_create l n s k k)) = k" for l n s
    by (simp_all add: meta_entry_create_def Let_def)
  have k: "ikey_ok k" by (simp add: ikey_ok_def k_def)
  have ok: "edit_ok e" "edit_ok e'"
    using edit_ok_setters edit_ok_init k by (auto simp: LDB_NUM_LEVELS_def e_def e'_def)
  have lv: "edited_level ldb_version_init [e, e'] level =
      (if level = 1 then {settled (new_file (me_meta (meta_entry_create 1 6 200 k k)))} else {})" if "level < LDB_NUM_LEVELS" for level
    using that by (auto simp: edited_level_def edit_level_def news meta ldb_version_init_def)
  have fresh: "edits_fresh level (fm_number ` set (vr_files ldb_version_init ! level)) [e, e']" if "level < LDB_NUM_LEVELS" for level
    using that by (auto simp: new_numbers_def news meta ldb_version_init_def)
  obtain v where v: "builder_save_to bytewise_comparator (snd (foldl (builder_apply bytewise_comparator) ([], builder_init ldb_version_init) [e, e']))
      ldb_version_init = Some v" "\<forall>level < LDB_NUM_LEVELS. settled ` set (vr_files v ! level) = edited_level ldb_version_init [e, e'] level"
  proof -
    have len: "length (vr_files ldb_version_init) = LDB_NUM_LEVELS" by (simp add: ldb_version_init_def)
    have sorted: "sorted_wrt (\<lambda>f g. by_smallest_key (ldb_ikc_init bytewise_comparator) f g < 0) (vr_files ldb_version_init ! level)"
      if "level < LDB_NUM_LEVELS" for level using that by (simp add: ldb_version_init_def)
    have "ldb_ikc_compare bytewise_comparator k k \<le> 0" using bytewise_ikc.cmp_refl [of k] k by (simp add: ikey_ok_def)
    then have apart: "\<forall>f \<in> edited_level ldb_version_init [e, e'] level. ldb_ikc_compare bytewise_comparator (fm_smallest f) (fm_largest f) \<le> 0 \<and>
      (\<forall>g \<in> edited_level ldb_version_init [e, e'] level. f \<noteq> g \<longrightarrow> follows bytewise_comparator f g \<or> follows bytewise_comparator g f)"
      if "level < LDB_NUM_LEVELS" for level using lv [OF that] by (simp add: meta)
    show thesis
      using builder_refines_edits [OF bytewise_uc.user_comparator_axioms len, of "[e, e']" "[]"] ok fresh sorted apart that by auto
  qed
  have "fm_number ` set (vr_files v ! 1) = fm_number ` settled ` set (vr_files v ! 1)" by (simp add: image_image)
  also have "\<dots> = {6}" using v(2) lv [of 1] by (simp add: LDB_NUM_LEVELS_def meta)
  finally show ?thesis using v(1) by (auto simp: k_def e_def e'_def)
qed

end
