(* ===== verification/Version_Set.thy ===== *)
theory Version_Set
  imports Version_Builder
begin

text \<open>
  The set of versions and the choice of what to compact (\<^verbatim>\<open>engine/src/version_set.c\<close>): scores,
  file numbers, boundary files, the inputs of a compaction and the questions a running compaction
  asks.  The list of versions that readers still hold is not part of the model; the current one is.
  \<open>'w\<close> is the log writer of the manifest.  The theory shows that the inputs of a level are closed:
  no file that stays behind has an older entry for a key that moves down.
\<close>

section \<open>The version set\<close>

record 'w ldb_versions =
  vs_dbname :: string
  vs_options :: ldb_dbopt
  vs_uc :: ldb_comparator
  vs_next_file_number :: u64
  vs_manifest_file_number :: u64
  vs_last_sequence :: u64
  vs_log_number :: u64
  vs_prev_log_number :: u64
  vs_descriptor_log :: "'w option"
  vs_current :: ldb_version
  vs_compact_pointer :: "bytes list"

definition ldb_versions_append_version :: "'w ldb_versions \<Rightarrow> ldb_version \<Rightarrow> 'w ldb_versions" where
  "ldb_versions_append_version vset v = vset\<lparr>vs_current := ldb_version_ref v\<rparr>"

definition ldb_versions_init :: "string \<Rightarrow> ldb_dbopt \<Rightarrow> ldb_comparator \<Rightarrow> 'w ldb_versions" where
  "ldb_versions_init dbname options uc =
     ldb_versions_append_version
       \<lparr>vs_dbname = dbname, vs_options = options, vs_uc = uc, vs_next_file_number = 2, vs_manifest_file_number = 0,
        vs_last_sequence = 0, vs_log_number = 0, vs_prev_log_number = 0, vs_descriptor_log = None,
        vs_current = ldb_version_init, vs_compact_pointer = replicate LDB_NUM_LEVELS []\<rparr> ldb_version_init"

definition ldb_versions_new_file_number :: "'w ldb_versions \<Rightarrow> u64 \<times> 'w ldb_versions" where
  "ldb_versions_new_file_number vset = (vs_next_file_number vset, vset\<lparr>vs_next_file_number := vs_next_file_number vset + 1\<rparr>)"

definition ldb_versions_reuse_file_number :: "'w ldb_versions \<Rightarrow> u64 \<Rightarrow> 'w ldb_versions" where
  "ldb_versions_reuse_file_number vset file_number =
     (if vs_next_file_number vset = file_number + 1 then vset\<lparr>vs_next_file_number := file_number\<rparr> else vset)"

definition ldb_versions_mark_file_number :: "'w ldb_versions \<Rightarrow> u64 \<Rightarrow> 'w ldb_versions" where
  "ldb_versions_mark_file_number vset number =
     (if vs_next_file_number vset \<le> number then vset\<lparr>vs_next_file_number := number + 1\<rparr> else vset)"

definition ldb_versions_files :: "'w ldb_versions \<Rightarrow> nat \<Rightarrow> nat" where
  "ldb_versions_files vset level = length (vr_files (vs_current vset) ! level)"

definition ldb_versions_bytes :: "'w ldb_versions \<Rightarrow> nat \<Rightarrow> nat" where
  "ldb_versions_bytes vset level = total_file_size (vr_files (vs_current vset) ! level)"

section \<open>Scores\<close>

definition LDB_L0_COMPACTION_TRIGGER :: nat where
  "LDB_L0_COMPACTION_TRIGGER = 4"

primrec scaled_bytes :: "nat \<Rightarrow> rat \<Rightarrow> rat" where
  "scaled_bytes 0 result = result"
| "scaled_bytes (Suc n) result = scaled_bytes n (result * 10)"

definition max_bytes_for_level :: "ldb_dbopt \<Rightarrow> nat \<Rightarrow> rat" where
  "max_bytes_for_level options level = scaled_bytes (level - 1) (10 * 1048576)"

definition level_score :: "ldb_dbopt \<Rightarrow> ldb_version \<Rightarrow> nat \<Rightarrow> rat" where
  "level_score options v level =
     (if level = 0 then of_nat (length (vr_files v ! level)) / of_nat LDB_L0_COMPACTION_TRIGGER
      else of_nat (total_file_size (vr_files v ! level)) / max_bytes_for_level options level)"

definition ldb_versions_finalize :: "ldb_dbopt \<Rightarrow> ldb_version \<Rightarrow> ldb_version" where
  "ldb_versions_finalize options v =
     (let (best_level, best_score) =
        foldl (\<lambda>(best_level, best_score) level.
            let score = level_score options v level
            in if score > best_score then (int level, score) else (best_level, best_score))
          (- 1, - 1) [0 ..< LDB_NUM_LEVELS - 1]
      in v\<lparr>vr_compaction_level := best_level, vr_compaction_score := best_score\<rparr>)"

definition ldb_versions_needs_compaction :: "'w ldb_versions \<Rightarrow> bool" where
  "ldb_versions_needs_compaction vset \<longleftrightarrow> vr_compaction_score (vs_current vset) \<ge> 1 \<or> vr_file_to_compact (vs_current vset) \<noteq> None"

definition ldb_versions_max_next_level_overlapping_bytes :: "'w ldb_versions \<Rightarrow> nat option" where
  "ldb_versions_max_next_level_overlapping_bytes vset =
     foldl (\<lambda>result (level, f). Option.bind result (\<lambda>result.
         map_option (\<lambda>overlaps. max result (total_file_size overlaps))
           (ldb_version_get_overlapping_inputs (vs_uc vset) (vs_current vset) (level + 1) (Some (fm_smallest f)) (Some (fm_largest f)))))
       (Some 0) (concat (map (\<lambda>level. map (Pair level) (vr_files (vs_current vset) ! level)) [1 ..< LDB_NUM_LEVELS - 1]))"

section \<open>Ranges and boundary files\<close>

text \<open>No input is the failed assertion.\<close>

definition ldb_versions_get_range :: "ldb_comparator \<Rightarrow> ldb_filemeta list \<Rightarrow> (bytes \<times> bytes) option" where
  "ldb_versions_get_range uc inputs =
     (case inputs of
        [] \<Rightarrow> None
      | f # fs \<Rightarrow>
          Some (foldl (\<lambda>(small, large) f.
              (if ldb_compare (ldb_ikc_init uc) (fm_smallest f) small < 0 then fm_smallest f else small,
               if ldb_compare (ldb_ikc_init uc) (fm_largest f) large > 0 then fm_largest f else large))
            (fm_smallest f, fm_largest f) fs))"

definition ldb_versions_get_range2 :: "ldb_comparator \<Rightarrow> ldb_filemeta list \<Rightarrow> ldb_filemeta list \<Rightarrow> (bytes \<times> bytes) option" where
  "ldb_versions_get_range2 uc inputs1 inputs2 = ldb_versions_get_range uc (inputs1 @ inputs2)"

definition find_largest_key :: "ldb_comparator \<Rightarrow> ldb_filemeta list \<Rightarrow> bytes option" where
  "find_largest_key icmp files =
     (case files of
        [] \<Rightarrow> None
      | f # fs \<Rightarrow> Some (foldl (\<lambda>large f. if ldb_compare icmp (fm_largest f) large > 0 then fm_largest f else large) (fm_largest f) fs))"

definition find_smallest_boundary_file :: "ldb_comparator \<Rightarrow> ldb_filemeta list \<Rightarrow> bytes \<Rightarrow> ldb_filemeta option" where
  "find_smallest_boundary_file uc files_of_level largest_key =
     foldl (\<lambda>res f.
         if ldb_compare (ldb_ikc_init uc) (fm_smallest f) largest_key \<le> 0 then res
         else if ldb_compare uc (ldb_extract_user_key (fm_smallest f)) (ldb_extract_user_key largest_key) = 0 then
           (case res of
              None \<Rightarrow> Some f
            | Some r \<Rightarrow> if ldb_compare (ldb_ikc_init uc) (fm_smallest f) (fm_smallest r) < 0 then Some f else res)
         else res)
       None files_of_level"

partial_function (option) boundary_loop :: "ldb_comparator \<Rightarrow> ldb_filemeta list \<Rightarrow> bytes \<Rightarrow> ldb_filemeta list \<Rightarrow> ldb_filemeta list option" where
  "boundary_loop uc files_of_level largest_key compaction_files =
     (case find_smallest_boundary_file uc files_of_level largest_key of
        None \<Rightarrow> Some compaction_files
      | Some file \<Rightarrow> boundary_loop uc files_of_level (fm_largest file) (compaction_files @ [file]))"

definition add_boundary_inputs :: "ldb_comparator \<Rightarrow> ldb_filemeta list \<Rightarrow> ldb_filemeta list \<Rightarrow> ldb_filemeta list option" where
  "add_boundary_inputs uc files_of_level compaction_files =
     (case find_largest_key (ldb_ikc_init uc) compaction_files of
        None \<Rightarrow> Some compaction_files
      | Some largest_key \<Rightarrow> boundary_loop uc files_of_level largest_key compaction_files)"

section \<open>Compactions\<close>

record ldb_compaction =
  co_level :: nat
  co_max_output_file_size :: nat
  co_input_version :: "ldb_version option"
  co_edit :: ldb_edit
  co_inputs0 :: "ldb_filemeta list"
  co_inputs1 :: "ldb_filemeta list"
  co_grandparents :: "ldb_filemeta list"
  co_grandparent_index :: nat
  co_seen_key :: bool
  co_overlapped_bytes :: nat
  co_level_ptrs :: "nat list"

definition ldb_compaction_init :: "ldb_dbopt \<Rightarrow> nat \<Rightarrow> ldb_compaction" where
  "ldb_compaction_init options level =
     \<lparr>co_level = level, co_max_output_file_size = max_file_size_for_level options level, co_input_version = None,
      co_edit = ldb_edit_init, co_inputs0 = [], co_inputs1 = [], co_grandparents = [], co_grandparent_index = 0,
      co_seen_key = False, co_overlapped_bytes = 0, co_level_ptrs = replicate LDB_NUM_LEVELS 0\<rparr>"

text \<open>The inputs of the level can grow when that adds nothing to the level below.\<close>

definition expand_inputs :: "'w ldb_versions \<Rightarrow> ldb_compaction \<Rightarrow> bytes \<Rightarrow> bytes \<Rightarrow> bytes \<times> bytes \<Rightarrow>
    (ldb_compaction \<times> bytes \<times> bytes \<times> bytes) option" where
  "expand_inputs vset c smallest largest all_range =
     (let uc = vs_uc vset; ver = vs_current vset; level = co_level c
      in if length (co_inputs1 c) > 0 then
           Option.bind (ldb_version_get_overlapping_inputs uc ver level (Some (fst all_range)) (Some (snd all_range))) (\<lambda>expanded0.
           Option.bind (add_boundary_inputs uc (vr_files ver ! level) expanded0) (\<lambda>expanded0.
             if length expanded0 > length (co_inputs0 c) \<and>
                total_file_size (co_inputs1 c) + total_file_size expanded0 < expanded_compaction_byte_size_limit (vs_options vset)
             then
               Option.bind (ldb_versions_get_range uc expanded0) (\<lambda>(new_start, new_limit).
               Option.bind (ldb_version_get_overlapping_inputs uc ver (level + 1) (Some new_start) (Some new_limit)) (\<lambda>expanded1.
               Option.bind (add_boundary_inputs uc (vr_files ver ! (level + 1)) expanded1) (\<lambda>expanded1.
                 if length expanded1 = length (co_inputs1 c) then
                   map_option (\<lambda>all_range. (c\<lparr>co_inputs0 := expanded0, co_inputs1 := expanded1\<rparr>, new_limit, all_range))
                     (ldb_versions_get_range2 uc expanded0 expanded1)
                 else Some (c, largest, all_range))))
             else Some (c, largest, all_range)))
         else Some (c, largest, all_range))"

definition ldb_versions_setup_other_inputs :: "'w ldb_versions \<Rightarrow> ldb_compaction \<Rightarrow> ('w ldb_versions \<times> ldb_compaction) option" where
  "ldb_versions_setup_other_inputs vset c =
     (let uc = vs_uc vset; ver = vs_current vset; level = co_level c
      in Option.bind (add_boundary_inputs uc (vr_files ver ! level) (co_inputs0 c)) (\<lambda>inputs0.
         Option.bind (ldb_versions_get_range uc inputs0) (\<lambda>(smallest, largest).
         Option.bind (ldb_version_get_overlapping_inputs uc ver (level + 1) (Some smallest) (Some largest)) (\<lambda>inputs1.
         Option.bind (add_boundary_inputs uc (vr_files ver ! (level + 1)) inputs1) (\<lambda>inputs1.
         Option.bind (ldb_versions_get_range2 uc inputs0 inputs1) (\<lambda>all_range.
         Option.bind (expand_inputs vset (c\<lparr>co_inputs0 := inputs0, co_inputs1 := inputs1\<rparr>) smallest largest all_range)
           (\<lambda>(c, largest, all_range).
         Option.bind (if level + 2 < LDB_NUM_LEVELS
                      then ldb_version_get_overlapping_inputs uc ver (level + 2) (Some (fst all_range)) (Some (snd all_range))
                      else Some (co_grandparents c)) (\<lambda>grandparents.
           Some (vset\<lparr>vs_compact_pointer := (vs_compact_pointer vset)[level := largest]\<rparr>,
                 c\<lparr>co_grandparents := grandparents, co_edit := ldb_edit_set_compact_pointer (co_edit c) level largest\<rparr>)))))))))"

text \<open>The first file after the compaction pointer, or the first file; no file is an access out of range.\<close>

definition pick_file :: "'w ldb_versions \<Rightarrow> nat \<Rightarrow> ldb_filemeta option" where
  "pick_file vset level =
     (let files = vr_files (vs_current vset) ! level; pointer = vs_compact_pointer vset ! level
      in case find (\<lambda>f. pointer = [] \<or> ldb_compare (ldb_ikc_init (vs_uc vset)) (fm_largest f) pointer > 0) files of
           Some f \<Rightarrow> Some f
         | None \<Rightarrow> (case files of [] \<Rightarrow> None | f # _ \<Rightarrow> Some f))"

text \<open>
  The outer \<open>None\<close> is a failed assertion, the inner one the null pointer: nothing to compact.  The
  file to compact is the one of the version with its number.
\<close>

definition ldb_versions_pick_compaction :: "'w ldb_versions \<Rightarrow> ('w ldb_versions \<times> ldb_compaction) option option" where
  "ldb_versions_pick_compaction vset =
     (let uc = vs_uc vset; ver = vs_current vset;
          start = (\<lambda>level f.
            (let c = (ldb_compaction_init (vs_options vset) level)\<lparr>co_inputs0 := [f], co_input_version := Some ver\<rparr>
             in Option.bind
                  (if level = 0 then
                     Option.bind (ldb_versions_get_range uc (co_inputs0 c)) (\<lambda>(smallest, largest).
                     Option.bind (ldb_version_get_overlapping_inputs uc ver 0 (Some smallest) (Some largest)) (\<lambda>inputs.
                       if length inputs > 0 then Some (c\<lparr>co_inputs0 := inputs\<rparr>) else None))
                   else Some c)
                  (\<lambda>c. map_option Some (ldb_versions_setup_other_inputs vset c))))
      in if vr_compaction_score ver \<ge> 1 then
           (let level = nat (vr_compaction_level ver)
            in if 0 \<le> vr_compaction_level ver \<and> level + 1 < LDB_NUM_LEVELS
               then Option.bind (pick_file vset level) (start level) else None)
         else
           (case vr_file_to_compact ver of
              Some f \<Rightarrow>
                (let level = nat (vr_file_to_compact_level ver)
                 in Option.bind (find (\<lambda>g. fm_number g = fm_number f) (vr_files ver ! level)) (start level))
            | None \<Rightarrow> Some None))"

text \<open>The files whose sizes first reach the limit.\<close>

fun take_limit :: "nat \<Rightarrow> nat \<Rightarrow> ldb_filemeta list \<Rightarrow> ldb_filemeta list" where
  "take_limit limit acc [] = []"
| "take_limit limit acc (f # fs) =
     (let acc = acc + unat (fm_file_size f) in if acc \<ge> limit then [f] else f # take_limit limit acc fs)"

definition ldb_versions_compact_range :: "'w ldb_versions \<Rightarrow> nat \<Rightarrow> bytes option \<Rightarrow> bytes option \<Rightarrow>
    ('w ldb_versions \<times> ldb_compaction) option option" where
  "ldb_versions_compact_range vset level begin_key end_key =
     Option.bind (ldb_version_get_overlapping_inputs (vs_uc vset) (vs_current vset) level begin_key end_key) (\<lambda>inputs.
       if length inputs = 0 then Some None
       else
         (let inputs = (if level > 0 then take_limit (max_file_size_for_level (vs_options vset) level) 0 inputs else inputs);
              c = (ldb_compaction_init (vs_options vset) level)\<lparr>co_input_version := Some (vs_current vset), co_inputs0 := inputs\<rparr>
          in map_option Some (ldb_versions_setup_other_inputs vset c)))"

section \<open>What a running compaction asks\<close>

definition ldb_compaction_is_trivial_move :: "ldb_dbopt \<Rightarrow> ldb_compaction \<Rightarrow> bool" where
  "ldb_compaction_is_trivial_move options c \<longleftrightarrow>
     length (co_inputs0 c) = 1 \<and> length (co_inputs1 c) = 0 \<and> total_file_size (co_grandparents c) \<le> max_grandparent_overlap_bytes options"

definition ldb_compaction_add_input_deletions :: "ldb_compaction \<Rightarrow> ldb_edit \<Rightarrow> ldb_edit" where
  "ldb_compaction_add_input_deletions c edit =
     foldl (\<lambda>edit file. ldb_edit_remove_file edit (co_level c + 1) (fm_number file))
       (foldl (\<lambda>edit file. ldb_edit_remove_file edit (co_level c) (fm_number file)) edit (co_inputs0 c)) (co_inputs1 c)"

text \<open>
  One level of \<open>ldb_compaction_is_base_level_for_key\<close>: the files from the pointer on; the result is
  whether a file may hold the key, and how far the pointer advances.
\<close>

fun advance_ptr :: "ldb_comparator \<Rightarrow> bytes \<Rightarrow> ldb_filemeta list \<Rightarrow> bool \<times> nat" where
  "advance_ptr uc user_key [] = (False, 0)"
| "advance_ptr uc user_key (f # files) =
     (if ldb_compare uc user_key (ldb_extract_user_key (fm_largest f)) \<le> 0
      then (ldb_compare uc user_key (ldb_extract_user_key (fm_smallest f)) \<ge> 0, 0)
      else (let (hit, n) = advance_ptr uc user_key files in (hit, Suc n)))"

fun base_levels :: "ldb_comparator \<Rightarrow> ldb_version \<Rightarrow> bytes \<Rightarrow> nat list \<Rightarrow> nat list \<Rightarrow> bool \<times> nat list" where
  "base_levels uc ver user_key [] ptrs = (True, ptrs)"
| "base_levels uc ver user_key (lvl # lvls) ptrs =
     (let (hit, n) = advance_ptr uc user_key (drop (ptrs ! lvl) (vr_files ver ! lvl)); ptrs = ptrs[lvl := ptrs ! lvl + n]
      in if hit then (False, ptrs) else base_levels uc ver user_key lvls ptrs)"

definition ldb_compaction_is_base_level_for_key :: "ldb_comparator \<Rightarrow> ldb_compaction \<Rightarrow> bytes \<Rightarrow> (bool \<times> ldb_compaction) option" where
  "ldb_compaction_is_base_level_for_key uc c user_key =
     map_option (\<lambda>ver. let (base, ptrs) = base_levels uc ver user_key [co_level c + 2 ..< LDB_NUM_LEVELS] (co_level_ptrs c)
                       in (base, c\<lparr>co_level_ptrs := ptrs\<rparr>))
       (co_input_version c)"

function skip_grandparents :: "ldb_comparator \<Rightarrow> bytes \<Rightarrow> ldb_compaction \<Rightarrow> ldb_compaction" where
  "skip_grandparents icmp ikey c =
     (if co_grandparent_index c < length (co_grandparents c) \<and>
         \<not> ldb_compare icmp ikey (fm_largest (co_grandparents c ! co_grandparent_index c)) \<le> 0
      then skip_grandparents icmp ikey
             (let f = co_grandparents c ! co_grandparent_index c;
                  c = (if co_seen_key c then c\<lparr>co_overlapped_bytes := co_overlapped_bytes c + unat (fm_file_size f)\<rparr> else c)
              in c\<lparr>co_grandparent_index := co_grandparent_index c + 1\<rparr>)
      else c)"
  by pat_completeness auto
termination
  by (relation "measure (\<lambda>(_, _, c). length (co_grandparents c) - co_grandparent_index c)") (auto simp: Let_def)

declare skip_grandparents.simps [simp del]

definition ldb_compaction_should_stop_before :: "ldb_dbopt \<Rightarrow> ldb_comparator \<Rightarrow> ldb_compaction \<Rightarrow> bytes \<Rightarrow> bool \<times> ldb_compaction" where
  "ldb_compaction_should_stop_before options icmp c ikey =
     (let c = (skip_grandparents icmp ikey c)\<lparr>co_seen_key := True\<rparr>
      in if co_overlapped_bytes c > max_grandparent_overlap_bytes options then (True, c\<lparr>co_overlapped_bytes := 0\<rparr>) else (False, c))"

definition ldb_compaction_release_inputs :: "ldb_compaction \<Rightarrow> ldb_compaction" where
  "ldb_compaction_release_inputs c = c\<lparr>co_input_version := None\<rparr>"


section \<open>Boundary files\<close>

abbreviation ukey :: "bytes \<Rightarrow> bytes" where
  "ukey \<equiv> ldb_extract_user_key"

text \<open>Files whose keys are in order, and lists of files that follow each other.\<close>

definition chain :: "ldb_comparator \<Rightarrow> ldb_filemeta list \<Rightarrow> bool" where
  "chain uc fs \<longleftrightarrow> sorted_wrt (follows uc) fs \<and> (\<forall>f \<in> set fs. ldb_ikc_compare uc (fm_smallest f) (fm_largest f) \<le> 0)"

text \<open>Taken files that no file behind them shares a user key with.\<close>

definition cut_clean :: "ldb_comparator \<Rightarrow> ldb_filemeta list \<Rightarrow> ldb_filemeta list \<Rightarrow> bool" where
  "cut_clean uc taken rest \<longleftrightarrow>
     (taken \<noteq> [] \<longrightarrow> rest \<noteq> [] \<longrightarrow> ldb_compare uc (ukey (fm_smallest (hd rest))) (ukey (fm_largest (last taken))) \<noteq> 0)"

context user_comparator
begin

lemma chain_append:
  "chain uc (xs @ ys) \<longleftrightarrow> chain uc xs \<and> chain uc ys \<and> (\<forall>f \<in> set xs. \<forall>g \<in> set ys. follows uc f g)"
  by (auto simp: chain_def sorted_wrt_append)

lemma chain_largest:
  assumes "chain uc fs" "f \<in> set fs"
  shows "ldb_ikc_compare uc (fm_largest f) (fm_largest (last fs)) \<le> 0" "ldb_ikc_compare uc (fm_smallest f) (fm_largest (last fs)) \<le> 0"
    "ldb_ikc_compare uc (fm_smallest (hd fs)) (fm_smallest f) \<le> 0"
proof -
  have fs: "fs = butlast fs @ [last fs]" "fs = hd fs # tl fs" using assms(2) by (cases fs; simp)+
  have le: "ldb_ikc_compare uc (fm_smallest g) (fm_largest g) \<le> 0" if "g \<in> set fs" for g using assms(1) that by (simp add: chain_def)
  have last: "last fs \<in> set fs" "hd fs \<in> set fs" using assms(2) by (cases fs; simp)+
  have "f = last fs \<or> follows uc f (last fs)" using assms fs(1) by (metis Un_iff chain_append empty_iff empty_set insert_iff list.simps(15) set_append)
  then show 1: "ldb_ikc_compare uc (fm_largest f) (fm_largest (last fs)) \<le> 0"
    using ikc.cmp_refl [of "fm_largest f"] le [OF last(1)] ikc.cmp_less_le_trans [of "fm_largest f" "fm_smallest (last fs)" "fm_largest (last fs)"]
    by (auto simp: follows_def)
  then show "ldb_ikc_compare uc (fm_smallest f) (fm_largest (last fs)) \<le> 0" using le [OF assms(2)] ikc.cmp_trans by blast
  have "f = hd fs \<or> follows uc (hd fs) f" using assms fs(2) unfolding chain_def by (metis set_ConsD sorted_wrt.simps(2))
  then show "ldb_ikc_compare uc (fm_smallest (hd fs)) (fm_smallest f) \<le> 0"
    using ikc.cmp_refl [of "fm_smallest f"] le [OF last(2)] ikc.cmp_le_less_trans [of "fm_smallest (hd fs)" "fm_largest (hd fs)" "fm_smallest f"]
    by (auto simp: follows_def)
qed

lemma follows_smallest:
  assumes "chain uc (f # fs)" "g \<in> set fs"
  shows "ldb_ikc_compare uc (fm_smallest f) (fm_smallest g) < 0"
proof -
  have "ldb_ikc_compare uc (fm_smallest f) (fm_largest f) \<le> 0" "ldb_ikc_compare uc (fm_largest f) (fm_smallest g) < 0"
    using assms by (auto simp: chain_def follows_def)
  then show ?thesis using ikc.cmp_le_less_trans by blast
qed

lemma boundary_skip:
  assumes "\<forall>f \<in> set fs. ldb_ikc_compare uc (fm_smallest f) L \<le> 0 \<or> ldb_compare uc (ukey (fm_smallest f)) (ukey L) \<noteq> 0 \<or>
      (\<exists>r. res = Some r \<and> \<not> ldb_ikc_compare uc (fm_smallest f) (fm_smallest r) < 0)"
  shows "foldl (\<lambda>res f.
         if ldb_compare (ldb_ikc_init uc) (fm_smallest f) L \<le> 0 then res
         else if ldb_compare uc (ukey (fm_smallest f)) (ukey L) = 0 then
           (case res of None \<Rightarrow> Some f
            | Some r \<Rightarrow> if ldb_compare (ldb_ikc_init uc) (fm_smallest f) (fm_smallest r) < 0 then Some f else res)
         else res) res fs = res"
  using assms by (induction fs) (auto simp: ikc_compare_eq)

lemma boundary_file_chain:
  assumes "chain uc (xs @ y # ys)" "xs \<noteq> []" "L = fm_largest (last xs)"
  shows "find_smallest_boundary_file uc (xs @ y # ys) L = (if ldb_compare uc (ukey (fm_smallest y)) (ukey L) = 0 then Some y else None)"
proof -
  have ch: "chain uc xs" "chain uc (y # ys)" "\<forall>f \<in> set xs. \<forall>g \<in> set (y # ys). follows uc f g" using assms(1) by (auto simp: chain_append)
  have xs: "\<forall>f \<in> set xs. ldb_ikc_compare uc (fm_smallest f) L \<le> 0" using chain_largest(2) [OF ch(1)] assms(3) by blast
  have gt: "ldb_ikc_compare uc L (fm_smallest g) < 0" if "g \<in> set (y # ys)" for g
    using ch(3) that assms(2,3) by (auto simp: follows_def)
  then have y: "\<not> ldb_ikc_compare uc (fm_smallest y) L \<le> 0" using ikc.cmp_gt_iff [of L "fm_smallest y"] ikc.cmp_gt_iff [of "fm_smallest y" L] by auto
  show ?thesis
  proof (cases "ldb_compare uc (ukey (fm_smallest y)) (ukey L) = 0")
    case True
    have "\<not> ldb_ikc_compare uc (fm_smallest f) (fm_smallest y) < 0" if "f \<in> set ys" for f
      using follows_smallest [OF ch(2) that] ikc.cmp_gt_iff [of "fm_smallest f" "fm_smallest y"] by auto
    then show ?thesis
      using boundary_skip [of xs L None] boundary_skip [of ys L "Some y"] xs y True by (simp add: find_smallest_boundary_file_def ikc_compare_eq)
  next
    case False
    have "ldb_compare uc (ukey (fm_smallest f)) (ukey L) \<noteq> 0" if f: "f \<in> set (y # ys)" for f
    proof
      assume eq: "ldb_compare uc (ukey (fm_smallest f)) (ukey L) = 0"
      have "ldb_ikc_compare uc (fm_smallest y) (fm_smallest f) \<le> 0" using chain_largest(3) [OF ch(2) f] by simp
      then have "ldb_compare uc (ukey (fm_smallest y)) (ukey (fm_smallest f)) \<le> 0" by (auto simp: ikc_le_iff)
      moreover have "ldb_compare uc (ukey L) (ukey (fm_smallest y)) \<le> 0" using gt [of y] by (auto simp: ikc_less_iff)
      ultimately have "ldb_compare uc (ukey (fm_smallest y)) (ukey L) \<le> 0" "ldb_compare uc (ukey L) (ukey (fm_smallest y)) \<le> 0"
        using eq cmp_trans [of "ukey (fm_smallest y)" "ukey (fm_smallest f)" "ukey L"] by auto
      then show False using False cmp_ge_iff [of "ukey (fm_smallest y)" "ukey L"] by auto
    qed
    then show ?thesis
      using boundary_skip [of xs L None] boundary_skip [of "y # ys" L None] xs False by (simp add: find_smallest_boundary_file_def)
  qed
qed

lemma boundary_file_end:
  assumes "chain uc xs" "L = fm_largest (last xs)"
  shows "find_smallest_boundary_file uc xs L = None"
  unfolding find_smallest_boundary_file_def by (rule boundary_skip) (use chain_largest(2) [OF assms(1)] assms(2) in blast)

text \<open>The boundary files of a segment of a level are the files behind it, up to a clean cut.\<close>

lemma boundary_segment:
  assumes "chain uc (xs @ taken @ ys)" "taken \<noteq> []"
  shows "\<exists>zs ys'. ys = zs @ ys' \<and> boundary_loop uc (xs @ taken @ ys) (fm_largest (last taken)) taken = Some (taken @ zs) \<and>
    cut_clean uc (taken @ zs) ys'"
  using assms
proof (induction ys arbitrary: taken)
  case Nil
  have "boundary_loop uc (xs @ taken) (fm_largest (last taken)) taken = Some taken"
    using boundary_file_end [of "xs @ taken" "fm_largest (last taken)"] Nil by (subst boundary_loop.simps) simp
  then show ?case by (simp add: cut_clean_def)
next
  case (Cons y ys)
  have eq: "find_smallest_boundary_file uc (xs @ taken @ y # ys) (fm_largest (last taken)) =
      (if ldb_compare uc (ukey (fm_smallest y)) (ukey (fm_largest (last taken))) = 0 then Some y else None)"
    using boundary_file_chain [of "xs @ taken" y ys] Cons.prems by simp
  show ?case
  proof (cases "ldb_compare uc (ukey (fm_smallest y)) (ukey (fm_largest (last taken))) = 0")
    case True
    then have "boundary_loop uc (xs @ taken @ y # ys) (fm_largest (last taken)) taken =
        boundary_loop uc (xs @ (taken @ [y]) @ ys) (fm_largest (last (taken @ [y]))) (taken @ [y])"
      using eq by (subst boundary_loop.simps) simp
    moreover obtain zs ys' where "ys = zs @ ys'"
      "boundary_loop uc (xs @ (taken @ [y]) @ ys) (fm_largest (last (taken @ [y]))) (taken @ [y]) = Some ((taken @ [y]) @ zs)"
      "cut_clean uc ((taken @ [y]) @ zs) ys'"
      using Cons.IH [of "taken @ [y]"] Cons.prems by auto
    ultimately show ?thesis by (intro exI [of _ "y # zs"] exI [of _ ys']) simp
  next
    case False
    then have "boundary_loop uc (xs @ taken @ y # ys) (fm_largest (last taken)) taken = Some taken"
      using eq by (subst boundary_loop.simps) simp
    then show ?thesis using False by (intro exI [of _ "[]"] exI [of _ "y # ys"]) (simp add: cut_clean_def)
  qed
qed


lemma get_range_segment:
  assumes "chain uc fs" "fs \<noteq> []"
  shows "ldb_versions_get_range uc fs = Some (fm_smallest (hd fs), fm_largest (last fs))"
proof -
  define step where "step = (\<lambda>(small, large) (f :: ldb_filemeta).
      (if ldb_compare (ldb_ikc_init uc) (fm_smallest f) small < 0 then fm_smallest f else small,
       if ldb_compare (ldb_ikc_init uc) (fm_largest f) large > 0 then fm_largest f else large))"
  have "foldl step (s, fm_largest f) gs = (s, fm_largest (last (f # gs)))"
    if "chain uc (f # gs)" "\<forall>g \<in> set gs. ldb_ikc_compare uc s (fm_smallest g) \<le> 0" for s f gs
    using that
  proof (induction gs arbitrary: f)
    case (Cons g gs)
    have ch: "chain uc (g # gs)" "follows uc f g" using Cons.prems(1) by (auto simp: chain_def)
    have "ldb_ikc_compare uc (fm_largest f) (fm_largest g) < 0"
      using ch ikc.cmp_less_le_trans [of "fm_largest f" "fm_smallest g" "fm_largest g"] by (auto simp: follows_def chain_def)
    then have "ldb_ikc_compare uc (fm_largest g) (fm_largest f) > 0" using ikc.cmp_gt_iff [of "fm_largest g" "fm_largest f"] by simp
    moreover have "\<not> ldb_ikc_compare uc (fm_smallest g) s < 0" using Cons.prems(2) ikc.cmp_gt_iff [of s "fm_smallest g"] by auto
    ultimately have "step (s, fm_largest f) g = (s, fm_largest g)" by (simp add: step_def ikc_compare_eq)
    then show ?case using Cons.IH [OF ch(1)] Cons.prems(2) by simp
  qed simp
  from this [of "hd fs" "tl fs" "fm_smallest (hd fs)"] assms chain_largest(3) [OF assms(1)]
  show ?thesis by (cases fs) (auto simp: ldb_versions_get_range_def step_def [symmetric])
qed

lemma largest_key_segment:
  assumes "chain uc fs" "fs \<noteq> []"
  shows "find_largest_key (ldb_ikc_init uc) fs = Some (fm_largest (last fs))"
proof -
  have "foldl (\<lambda>large f. if ldb_compare (ldb_ikc_init uc) (fm_largest f) large > 0 then fm_largest f else large) (fm_largest f) gs = fm_largest (last (f # gs))"
    if "chain uc (f # gs)" for f gs
    using that
  proof (induction gs arbitrary: f)
    case (Cons g gs)
    have ch: "chain uc (g # gs)" "follows uc f g" using Cons.prems(1) by (auto simp: chain_def)
    have "ldb_ikc_compare uc (fm_largest f) (fm_largest g) < 0"
      using ch ikc.cmp_less_le_trans [of "fm_largest f" "fm_smallest g" "fm_largest g"] by (auto simp: follows_def chain_def)
    then have "ldb_ikc_compare uc (fm_largest g) (fm_largest f) > 0" using ikc.cmp_gt_iff [of "fm_largest g" "fm_largest f"] by simp
    then show ?case using Cons.IH [OF ch(1)] by (simp add: ikc_compare_eq)
  qed simp
  from this [of "hd fs" "tl fs"] assms show ?thesis by (cases fs) (auto simp: find_largest_key_def)
qed

lemma boundary_inputs_segment:
  assumes "chain uc (xs @ taken @ ys)" "taken \<noteq> []"
  shows "\<exists>zs ys'. ys = zs @ ys' \<and> add_boundary_inputs uc (xs @ taken @ ys) taken = Some (taken @ zs) \<and> cut_clean uc (taken @ zs) ys'"
proof -
  have "chain uc taken" using assms(1) by (simp add: chain_append)
  then show ?thesis using boundary_segment [OF assms] largest_key_segment assms(2) by (simp add: add_boundary_inputs_def)
qed

text \<open>The files that overlap a range are a segment of their level.\<close>

lemma overlapping_segment:
  assumes "chain uc fs"
  shows "\<exists>xs ys. fs = xs @ filter (overlaps uc b e) fs @ ys"
  using assms
proof (induction fs)
  case (Cons f fs)
  have ch: "chain uc fs" "\<forall>g \<in> set fs. follows uc f g" "ldb_ikc_compare uc (fm_smallest f) (fm_largest f) \<le> 0"
    using Cons.prems by (auto simp: chain_def)
  obtain xs ys where fs: "fs = xs @ filter (overlaps uc b e) fs @ ys" using Cons.IH [OF ch(1)] by blast
  show ?case
  proof (cases "overlaps uc b e f")
    case False
    then show ?thesis using fs by (intro exI [of _ "f # xs"] exI [of _ ys]) simp
  next
    case True
    have small: "ldb_compare uc (ukey (fm_smallest g)) (ukey (fm_smallest h)) \<le> 0" if "chain uc (g # hs)" "h \<in> set hs" for g h hs
      using follows_smallest [OF that] by (auto simp: ikc_less_iff)
    have "\<not> ends_before uc b g" if g: "g \<in> set fs" for g
    proof
      assume "ends_before uc b g"
      then have b: "b \<noteq> None" "ldb_compare uc (ukey (fm_largest g)) (the b) < 0" by (auto simp: ends_before_def)
      have "ldb_ikc_compare uc (fm_largest f) (fm_largest g) < 0"
        using ch(1,2) g ikc.cmp_less_le_trans [of "fm_largest f" "fm_smallest g" "fm_largest g"] by (auto simp: follows_def chain_def)
      then have "ldb_compare uc (ukey (fm_largest f)) (ukey (fm_largest g)) \<le> 0" by (auto simp: ikc_less_iff)
      then have "ldb_compare uc (ukey (fm_largest f)) (the b) < 0" using b(2) cmp_le_less_trans by blast
      then show False using True b(1) by (simp add: overlaps_def ends_before_def)
    qed
    then have ov: "overlaps uc b e g \<longleftrightarrow> \<not> starts_after uc e g" if "g \<in> set fs" for g using that by (simp add: overlaps_def)
    have mono: "starts_after uc e h" if "chain uc (g # hs)" "h \<in> set hs" "starts_after uc e g" for g h hs
    proof -
      have e: "e \<noteq> None" "ldb_compare uc (the e) (ukey (fm_smallest g)) < 0"
        using that(3) cmp_gt_iff [of "ukey (fm_smallest g)" "the e"] by (auto simp: starts_after_def)
      then have "ldb_compare uc (the e) (ukey (fm_smallest h)) < 0" using small [OF that(1,2)] cmp_less_le_trans by blast
      then show ?thesis using e(1) cmp_gt_iff [of "ukey (fm_smallest h)" "the e"] by (simp add: starts_after_def)
    qed
    have "filter (overlaps uc b e) fs = takeWhile (\<lambda>g. \<not> starts_after uc e g) fs"
      using ov ch(1)
    proof (induction fs)
      case (Cons g gs)
      have "chain uc gs" using Cons.prems(2) by (auto simp: chain_def)
      moreover have "\<forall>h \<in> set gs. starts_after uc e h" if "starts_after uc e g" using mono [OF Cons.prems(2) _ that] by blast
      ultimately show ?case using Cons by (auto simp: filter_empty_conv)
    qed simp
    then have "fs = filter (overlaps uc b e) fs @ dropWhile (\<lambda>g. \<not> starts_after uc e g) fs" by simp
    then show ?thesis using True by (intro exI [of _ "[]"] exI [of _ "dropWhile (\<lambda>g. \<not> starts_after uc e g) fs"]) simp
  qed
qed simp

end


section \<open>Closed inputs\<close>

text \<open>
  A file that stays on the level comes before every file that is taken, or all its user keys are larger;
  a file that stays on the next level comes before all files that are taken, or all its user keys are larger.
\<close>

definition inputs_closed :: "ldb_comparator \<Rightarrow> ldb_filemeta list \<Rightarrow> ldb_filemeta list \<Rightarrow> ldb_filemeta list \<Rightarrow> ldb_filemeta list \<Rightarrow> bool" where
  "inputs_closed uc fs0 fs1 I0 I1 \<longleftrightarrow> I0 \<noteq> [] \<and> set I0 \<subseteq> set fs0 \<and> set I1 \<subseteq> set fs1 \<and>
     (\<forall>f \<in> set fs0 - set I0. \<forall>g \<in> set I0. follows uc f g \<or> ldb_compare uc (ukey (fm_largest g)) (ukey (fm_smallest f)) < 0) \<and>
     (\<forall>f \<in> set fs1 - set I1. (\<forall>g \<in> set I0 \<union> set I1. follows uc f g) \<or>
        (\<forall>g \<in> set I0 \<union> set I1. ldb_compare uc (ukey (fm_largest g)) (ukey (fm_smallest f)) < 0))"

text \<open>What the choice of the first inputs gives: all level-0 files of a closed range, or a segment.\<close>

definition first_inputs :: "ldb_comparator \<Rightarrow> nat \<Rightarrow> ldb_filemeta list \<Rightarrow> ldb_filemeta list \<Rightarrow> bool" where
  "first_inputs uc level fs I \<longleftrightarrow> I \<noteq> [] \<and>
     (if level = 0 then \<exists>b e. I = filter (overlaps uc b e) fs \<and> (\<forall>f \<in> set I. inside_range uc b e f)
      else \<exists>xs ys. fs = xs @ I @ ys)"

definition inputs_end :: "ldb_comparator \<Rightarrow> nat \<Rightarrow> ldb_filemeta list \<Rightarrow> ldb_filemeta list \<Rightarrow> bool" where
  "inputs_end uc level fs I \<longleftrightarrow> first_inputs uc level fs I \<and> (level \<noteq> 0 \<longrightarrow> (\<exists>xs ys. fs = xs @ I @ ys \<and> cut_clean uc I ys))"

definition ranged :: "ldb_comparator \<Rightarrow> bytes \<Rightarrow> bytes \<Rightarrow> ldb_filemeta list \<Rightarrow> bool" where
  "ranged uc s l I \<longleftrightarrow> (\<forall>g \<in> set I. ldb_compare uc (ukey s) (ukey (fm_smallest g)) \<le> 0 \<and> ldb_compare uc (ukey (fm_largest g)) (ukey l) \<le> 0)"

context user_comparator
begin

lemma follows_ukey: "ldb_compare uc (ukey (fm_largest f)) (ukey (fm_smallest g)) < 0 \<Longrightarrow> follows uc f g"
  by (simp add: follows_def ikc_less_iff)

lemma get_range_ok:
  assumes "I \<noteq> []"
  shows "\<exists>s l. ldb_versions_get_range uc I = Some (s, l) \<and> ranged uc s l I"
proof -
  define step where "step = (\<lambda>(small, large) (f :: ldb_filemeta).
      (if ldb_compare (ldb_ikc_init uc) (fm_smallest f) small < 0 then fm_smallest f else small,
       if ldb_compare (ldb_ikc_init uc) (fm_largest f) large > 0 then fm_largest f else large))"
  have "\<exists>s' l'. foldl step (s, l) gs = (s', l') \<and> ldb_ikc_compare uc s' s \<le> 0 \<and> ldb_ikc_compare uc l l' \<le> 0 \<and>
      (\<forall>g \<in> set gs. ldb_ikc_compare uc s' (fm_smallest g) \<le> 0 \<and> ldb_ikc_compare uc (fm_largest g) l' \<le> 0)" for s l gs
  proof (induction gs arbitrary: s l)
    case Nil
    then show ?case using ikc.cmp_refl by simp
  next
    case (Cons g gs)
    obtain s1 l1 where 1: "step (s, l) g = (s1, l1)" by fastforce
    have le: "ldb_ikc_compare uc s1 s \<le> 0" "ldb_ikc_compare uc s1 (fm_smallest g) \<le> 0" "ldb_ikc_compare uc l l1 \<le> 0"
      "ldb_ikc_compare uc (fm_largest g) l1 \<le> 0"
      using 1 ikc.cmp_refl [of s] ikc.cmp_refl [of l] ikc.cmp_refl [of "fm_smallest g"] ikc.cmp_refl [of "fm_largest g"]
        ikc.cmp_gt_iff [of s "fm_smallest g"] ikc.cmp_gt_iff [of "fm_largest g" l]
      by (auto simp: step_def ikc_compare_eq split: if_splits)
    obtain s' l' where "foldl step (s1, l1) gs = (s', l')" "ldb_ikc_compare uc s' s1 \<le> 0" "ldb_ikc_compare uc l1 l' \<le> 0"
      "\<forall>g \<in> set gs. ldb_ikc_compare uc s' (fm_smallest g) \<le> 0 \<and> ldb_ikc_compare uc (fm_largest g) l' \<le> 0"
      using Cons.IH [of s1 l1] by blast
    then show ?case
      using 1 le ikc.cmp_trans [of s' s1 s] ikc.cmp_trans [of s' s1 "fm_smallest g"] ikc.cmp_trans [of l l1 l']
        ikc.cmp_trans [of "fm_largest g" l1 l'] by simp
  qed
  from this [of "fm_smallest (hd I)" "fm_largest (hd I)" "tl I"]
  obtain s l where "foldl step (fm_smallest (hd I), fm_largest (hd I)) (tl I) = (s, l)"
    "\<forall>g \<in> set I. ldb_ikc_compare uc s (fm_smallest g) \<le> 0 \<and> ldb_ikc_compare uc (fm_largest g) l \<le> 0"
    using assms by (cases I) auto
  then show ?thesis using assms
    by (cases I) (auto simp: ldb_versions_get_range_def step_def [symmetric] ranged_def ikc_le_iff)
qed

lemma ranged_append: "ranged uc s l (I @ J) \<longleftrightarrow> ranged uc s l I \<and> ranged uc s l J"
  by (auto simp: ranged_def)

lemma largest_key_ok:
  assumes "I \<noteq> []"
  shows "\<exists>L. find_largest_key (ldb_ikc_init uc) I = Some L \<and> L \<in> fm_largest ` set I \<and> (\<forall>f \<in> set I. ldb_ikc_compare uc (fm_largest f) L \<le> 0)"
proof -
  define up where "up = (\<lambda>large (f :: ldb_filemeta). if ldb_compare (ldb_ikc_init uc) (fm_largest f) large > 0 then fm_largest f else large)"
  have up: "ldb_ikc_compare uc l (up l g) \<le> 0" "ldb_ikc_compare uc (fm_largest g) (up l g) \<le> 0" "up l g \<in> {l, fm_largest g}" for l g
    using ikc.cmp_refl [of l] ikc.cmp_refl [of "fm_largest g"] ikc.cmp_gt_iff [of "fm_largest g" l] by (auto simp: ikc_compare_eq up_def)
  have fold: "foldl up l gs \<in> insert l (fm_largest ` set gs) \<and> ldb_ikc_compare uc l (foldl up l gs) \<le> 0 \<and>
      (\<forall>g \<in> set gs. ldb_ikc_compare uc (fm_largest g) (foldl up l gs) \<le> 0)" for l gs
  proof (induction gs arbitrary: l)
    case (Cons g gs)
    note IH = Cons.IH [of "up l g"]
    have "ldb_ikc_compare uc l (foldl up (up l g) gs) \<le> 0" "ldb_ikc_compare uc (fm_largest g) (foldl up (up l g) gs) \<le> 0"
      using IH up(1,2) ikc.cmp_trans by blast+
    moreover have "foldl up (up l g) gs \<in> insert l (fm_largest ` set (g # gs))" using IH up(3) [of l g] by auto
    ultimately show ?case using IH by simp
  qed (use ikc.cmp_refl in simp)
  obtain f fs where I: "I = f # fs" using assms by (cases I) auto
  have "foldl up (fm_largest f) fs \<in> fm_largest ` set I" "\<forall>g \<in> set I. ldb_ikc_compare uc (fm_largest g) (foldl up (fm_largest f) fs) \<le> 0"
    using fold [of "fm_largest f" fs] I by auto
  then show ?thesis using I by (intro exI [of _ "foldl up (fm_largest f) fs"]) (auto simp: find_largest_key_def up_def)
qed

text \<open>Adding the boundary files ends the inputs.\<close>

lemma boundary_inputs_end:
  assumes "first_inputs uc level fs I" "level \<noteq> 0 \<Longrightarrow> chain uc fs"
    and "\<forall>f \<in> set fs. ldb_ikc_compare uc (fm_smallest f) (fm_largest f) \<le> 0"
  shows "\<exists>I'. add_boundary_inputs uc fs I = Some I' \<and> inputs_end uc level fs I' \<and> set I \<subseteq> set I'"
proof (cases "level = 0")
  case False
  then obtain xs ys where fs: "fs = xs @ I @ ys" "I \<noteq> []" using assms(1) by (auto simp: first_inputs_def)
  obtain zs ys' where "ys = zs @ ys'" "add_boundary_inputs uc fs I = Some (I @ zs)" "cut_clean uc (I @ zs) ys'"
    using boundary_inputs_segment [of xs I ys] assms(2) False fs by blast
  moreover from this have "fs = xs @ (I @ zs) @ ys'" using fs by simp
  ultimately show ?thesis using False fs(2) by (auto simp: inputs_end_def first_inputs_def)
next
  case True
  then obtain b e where I: "I = filter (overlaps uc b e) fs" "\<forall>f \<in> set I. inside_range uc b e f" "I \<noteq> []" using assms(1) by (auto simp: first_inputs_def)
  obtain L where L: "find_largest_key (ldb_ikc_init uc) I = Some L" "L \<in> fm_largest ` set I" "\<forall>f \<in> set I. ldb_ikc_compare uc (fm_largest f) L \<le> 0"
    using largest_key_ok [OF I(3)] by blast
  have "find_smallest_boundary_file uc fs L = None"
    unfolding find_smallest_boundary_file_def
  proof (rule boundary_skip, intro ballI)
    fix f assume f: "f \<in> set fs"
    show "ldb_ikc_compare uc (fm_smallest f) L \<le> 0 \<or> ldb_compare uc (ukey (fm_smallest f)) (ukey L) \<noteq> 0 \<or>
        (\<exists>r. None = Some r \<and> \<not> ldb_ikc_compare uc (fm_smallest f) (fm_smallest r) < 0)"
    proof (rule disjCI)
      assume no: "\<not> (ldb_compare uc (ukey (fm_smallest f)) (ukey L) \<noteq> 0 \<or> (\<exists>r. None = Some r \<and> \<not> ldb_ikc_compare uc (fm_smallest f) (fm_smallest r) < 0))"
      obtain g where g: "g \<in> set I" "L = fm_largest g" using L(2) by blast
      have eq: "ldb_compare uc (ukey (fm_smallest f)) (ukey L) = 0" using no by blast
      have "\<not> starts_after uc e f"
        using g I(1,2) eq cmp_eq_cong(1) [of "ukey L" "ukey (fm_smallest f)" "the e"] cmp_eq_sym [of "ukey L" "ukey (fm_smallest f)"]
          cmp_gt_iff [of "ukey (fm_smallest f)" "the e"] cmp_gt_iff [of "ukey L" "the e"] cmp_eq_cong(3) [of "ukey (fm_smallest f)" "ukey L" "the e"]
        by (auto simp: starts_after_def inside_range_def ends_after_def)
      moreover have "\<not> ends_before uc b f"
      proof
        assume "ends_before uc b f"
        then have b: "b \<noteq> None" "ldb_compare uc (ukey (fm_largest f)) (the b) < 0" by (auto simp: ends_before_def)
        have "ldb_compare uc (ukey (fm_smallest f)) (ukey (fm_largest f)) \<le> 0" using assms(3) f by (auto simp: ikc_le_iff)
        then have "ldb_compare uc (ukey L) (the b) < 0"
          using b(2) eq cmp_le_less_trans cmp_eq_cong(1) by blast
        moreover have "\<not> ldb_compare uc (ukey L) (the b) < 0" using g I(1) b(1) by (auto simp: overlaps_def ends_before_def)
        ultimately show False by blast
      qed
      ultimately have "f \<in> set I" using I(1) f by (simp add: overlaps_def)
      then have "ldb_ikc_compare uc (fm_largest f) L \<le> 0" using L(3) by blast
      then show "ldb_ikc_compare uc (fm_smallest f) L \<le> 0" using assms(3) f ikc.cmp_trans by blast
    qed
  qed
  then have "add_boundary_inputs uc fs I = Some I"
    using L(1) by (simp add: add_boundary_inputs_def) (subst boundary_loop.simps, simp)
  then show ?thesis using True assms(1) by (auto simp: inputs_end_def)
qed


text \<open>Behind a clean cut all user keys are larger.\<close>

lemma cut_clean_after:
  assumes "chain uc (taken @ ys)" "cut_clean uc taken ys" "f \<in> set ys" "g \<in> set taken"
  shows "ldb_compare uc (ukey (fm_largest g)) (ukey (fm_smallest f)) < 0"
proof -
  have y: "hd ys \<in> set ys" "ys \<noteq> []" "taken \<noteq> []" "last taken \<in> set taken" using assms(3,4) by (auto intro: hd_in_set last_in_set)
  have I: "chain uc taken" "chain uc ys" "follows uc (last taken) (hd ys)" using assms(1) y by (auto simp: chain_append)
  have 1: "ldb_compare uc (ukey (fm_largest g)) (ukey (fm_largest (last taken))) \<le> 0"
    using chain_largest(1) [OF I(1) assms(4)] by (auto simp: ikc_le_iff)
  have "ldb_compare uc (ukey (fm_largest (last taken))) (ukey (fm_smallest (hd ys))) \<noteq> 0"
    using assms(2) y cmp_eq_sym [of "ukey (fm_smallest (hd ys))" "ukey (fm_largest (last taken))"] by (auto simp: cut_clean_def)
  then have 2: "ldb_compare uc (ukey (fm_largest (last taken))) (ukey (fm_smallest (hd ys))) < 0"
    using I(3) by (auto simp: follows_def ikc_less_iff)
  have 3: "ldb_compare uc (ukey (fm_smallest (hd ys))) (ukey (fm_smallest f)) \<le> 0"
    using chain_largest(3) [OF I(2) assms(3)] by (auto simp: ikc_le_iff)
  show ?thesis using cmp_less_le_trans [OF _ _ _ cmp_le_less_trans [OF _ _ _ 1 2] 3] by simp
qed

text \<open>The files taken from the next level, for inputs within a range.\<close>

lemma next_inputs:
  assumes "chain uc fs" "I \<noteq> []" "ranged uc s l I"
  shows "\<exists>J. add_boundary_inputs uc fs (filter (overlaps uc (Some (ukey s)) (Some (ukey l))) fs) = Some J \<and> set J \<subseteq> set fs \<and>
    (\<forall>f \<in> set fs - set J. (\<forall>g \<in> set I \<union> set J. follows uc f g) \<or> (\<forall>g \<in> set I \<union> set J. ldb_compare uc (ukey (fm_largest g)) (ukey (fm_smallest f)) < 0))"
proof -
  let ?ov = "overlaps uc (Some (ukey s)) (Some (ukey l))" let ?J = "filter ?ov fs"
  have ends: "ldb_compare uc (ukey (fm_largest f)) (ukey s) < 0 \<longleftrightarrow> ends_before uc (Some (ukey s)) f"
    and starts: "ldb_compare uc (ukey l) (ukey (fm_smallest f)) < 0 \<longleftrightarrow> starts_after uc (Some (ukey l)) f" for f
    using cmp_gt_iff [of "ukey (fm_smallest f)" "ukey l"] by (simp_all add: ends_before_def starts_after_def)
  have before: "follows uc f g" if "ends_before uc (Some (ukey s)) f" "g \<in> set I" for f g
    using that assms(3) ends cmp_less_le_trans [of "ukey (fm_largest f)" "ukey s" "ukey (fm_smallest g)"] by (intro follows_ukey) (auto simp: ranged_def)
  have after: "ldb_compare uc (ukey (fm_largest g)) (ukey (fm_smallest f)) < 0" if "starts_after uc (Some (ukey l)) f" "g \<in> set I" for f g
    using that assms(3) starts cmp_le_less_trans [of "ukey (fm_largest g)" "ukey l" "ukey (fm_smallest f)"] by (auto simp: ranged_def)
  have side: "ends_before uc (Some (ukey s)) f \<or> starts_after uc (Some (ukey l)) f" if "f \<in> set fs - set ?J" for f
    using that by (auto simp: overlaps_def)
  show ?thesis
  proof (cases "?J = []")
    case True
    then have "add_boundary_inputs uc fs ?J = Some []" by (simp add: add_boundary_inputs_def find_largest_key_def)
    moreover have "(\<forall>g \<in> set I. follows uc f g) \<or> (\<forall>g \<in> set I. ldb_compare uc (ukey (fm_largest g)) (ukey (fm_smallest f)) < 0)" if "f \<in> set fs" for f
      using side [of f] that True before after by fastforce
    ultimately show ?thesis by auto
  next
    case False
    obtain xs ys where fs: "fs = xs @ ?J @ ys" using overlapping_segment [OF assms(1)] by blast
    obtain zs ys' where zs: "ys = zs @ ys'" "add_boundary_inputs uc fs ?J = Some (?J @ zs)" and cut: "cut_clean uc (?J @ zs) ys'"
      using boundary_inputs_segment [of xs ?J ys] assms(1) False fs by auto
    have ch: "chain uc (xs @ (?J @ zs) @ ys')" using assms(1) fs zs(1) by simp
    have ord: "\<forall>f \<in> set xs. \<forall>g \<in> set (?J @ zs). follows uc f g" "\<forall>f \<in> set (?J @ zs). \<forall>g \<in> set ys'. follows uc f g"
      using ch unfolding chain_append [of xs "(?J @ zs) @ ys'"] chain_append [of "?J @ zs" ys'] set_append [of "?J @ zs" ys'] by blast+
    obtain x where x: "x \<in> set ?J" using False by fastforce
    then have ov: "\<not> ends_before uc (Some (ukey s)) x" "\<not> starts_after uc (Some (ukey l)) x" by (auto simp: overlaps_def)
    have le: "ldb_ikc_compare uc (fm_smallest f) (fm_largest f) \<le> 0" if "f \<in> set fs" for f using assms(1) that by (simp add: chain_def)
    have "(\<forall>g \<in> set I \<union> set (?J @ zs). follows uc f g) \<or>
      (\<forall>g \<in> set I \<union> set (?J @ zs). ldb_compare uc (ukey (fm_largest g)) (ukey (fm_smallest f)) < 0)" if f: "f \<in> set fs - set (?J @ zs)" for f
    proof -
      have s: "ends_before uc (Some (ukey s)) f \<or> starts_after uc (Some (ukey l)) f" using side [of f] f by auto
      have "f \<in> set xs \<or> f \<in> set ys'" using f fs zs(1) by (metis Diff_iff Un_iff set_append)
      then show ?thesis
      proof
        assume "f \<in> set xs"
        then have fg: "\<forall>g \<in> set (?J @ zs). follows uc f g" using ord(1) by blast
        then have "follows uc f x" using x by simp
        then have "ldb_ikc_compare uc (fm_smallest f) (fm_smallest x) < 0"
          using le [of f] f ikc.cmp_le_less_trans by (auto simp: follows_def)
        then have "ldb_compare uc (ukey (fm_smallest f)) (ukey (fm_smallest x)) \<le> 0" by (auto simp: ikc_less_iff)
        then have "\<not> starts_after uc (Some (ukey l)) f"
          using ov(2) starts cmp_less_le_trans [of "ukey l" "ukey (fm_smallest f)" "ukey (fm_smallest x)"] by blast
        then show ?thesis using s before fg by blast
      next
        assume "f \<in> set ys'"
        then have "follows uc x f" using ord(2) x by simp
        then have "ldb_ikc_compare uc (fm_largest x) (fm_largest f) < 0"
          using le [of f] f ikc.cmp_less_le_trans by (auto simp: follows_def)
        then have "ldb_compare uc (ukey (fm_largest x)) (ukey (fm_largest f)) \<le> 0" by (auto simp: ikc_less_iff)
        then have "\<not> ends_before uc (Some (ukey s)) f"
          using ov(1) ends cmp_le_less_trans [of "ukey (fm_largest x)" "ukey (fm_largest f)" "ukey s"] by blast
        moreover have "ldb_compare uc (ukey (fm_largest g)) (ukey (fm_smallest f)) < 0" if "g \<in> set (?J @ zs)" for g
          using ch unfolding chain_append [of xs "(?J @ zs) @ ys'"] by (intro cut_clean_after [OF _ cut \<open>f \<in> set ys'\<close> that]) blast
        ultimately show ?thesis using s after by blast
      qed
    qed
    moreover have "set (?J @ zs) \<subseteq> set fs" using fs zs(1) by (metis Un_iff set_append subsetI)
    ultimately show ?thesis using zs(2) by blast
  qed
qed

text \<open>What stays on the level.\<close>

lemma inputs_end_stay:
  assumes "inputs_end uc level fs I" "level \<noteq> 0 \<Longrightarrow> chain uc fs" "f \<in> set fs - set I" "g \<in> set I"
  shows "follows uc f g \<or> ldb_compare uc (ukey (fm_largest g)) (ukey (fm_smallest f)) < 0"
proof (cases "level = 0")
  case True
  then obtain b e where I: "I = filter (overlaps uc b e) fs" "\<forall>f \<in> set I. inside_range uc b e f"
    using assms(1) by (auto simp: inputs_end_def first_inputs_def)
  have g: "\<not> starts_before uc b g" "\<not> ends_after uc e g" using I(2) assms(4) by (auto simp: inside_range_def)
  have "ends_before uc b f \<or> starts_after uc e f" using I(1) assms(3) by (auto simp: overlaps_def)
  then show ?thesis
  proof
    assume "ends_before uc b f"
    then have b: "b \<noteq> None" "ldb_compare uc (ukey (fm_largest f)) (the b) < 0" by (auto simp: ends_before_def)
    then have "ldb_compare uc (the b) (ukey (fm_smallest g)) \<le> 0"
      using g(1) cmp_gt_iff [of "the b" "ukey (fm_smallest g)"] by (auto simp: starts_before_def)
    then show ?thesis using b(2) cmp_less_le_trans follows_ukey by blast
  next
    assume "starts_after uc e f"
    then have e: "e \<noteq> None" "ldb_compare uc (the e) (ukey (fm_smallest f)) < 0"
      using cmp_gt_iff [of "ukey (fm_smallest f)" "the e"] by (auto simp: starts_after_def)
    then have "ldb_compare uc (ukey (fm_largest g)) (the e) \<le> 0" using g(2) by (auto simp: ends_after_def)
    then show ?thesis using e(2) cmp_le_less_trans by blast
  qed
next
  case False
  then obtain xs ys where fs: "fs = xs @ I @ ys" "cut_clean uc I ys" using assms(1) by (auto simp: inputs_end_def)
  have ch: "chain uc (xs @ I @ ys)" using assms(2) False fs(1) by simp
  have "f \<in> set xs \<or> f \<in> set ys" using assms(3) fs(1) by (metis Diff_iff Un_iff set_append)
  then show ?thesis
  proof
    assume "f \<in> set xs"
    then show ?thesis using ch assms(4) by (simp add: chain_append)
  next
    assume "f \<in> set ys"
    then show ?thesis using cut_clean_after [of I ys f g] ch fs(2) assms(4) by (simp add: chain_append)
  qed
qed


lemma version_ok_chain:
  assumes "version_ok uc files ver" "level < LDB_NUM_LEVELS"
  shows "level \<noteq> 0 \<Longrightarrow> chain uc (vr_files ver ! level)"
    "\<forall>f \<in> set (vr_files ver ! level). ldb_ikc_compare uc (fm_smallest f) (fm_largest f) \<le> 0"
proof -
  have "vr_files ver ! level \<in> set (vr_files ver)" using assms by (simp add: version_ok_def)
  then show ord: "\<forall>f \<in> set (vr_files ver ! level). ldb_ikc_compare uc (fm_smallest f) (fm_largest f) \<le> 0"
    using assms(1) file_ok_order by (auto simp: version_ok_def)
  show "chain uc (vr_files ver ! level)" if "level \<noteq> 0"
    using assms ord that by (auto simp: chain_def version_ok_def follows_def [abs_def])
qed

lemma get_overlapping:
  "\<exists>b' e'. ldb_version_get_overlapping_inputs uc ver level b e = Some (filter (overlaps uc b' e') (vr_files ver ! level)) \<and>
    wider uc b' e' (map_option ukey b) (map_option ukey e) \<and>
    (level = 0 \<longrightarrow> (\<forall>f \<in> set (vr_files ver ! level). overlaps uc b' e' f \<longrightarrow> inside_range uc b' e' f)) \<and>
    (level \<noteq> 0 \<longrightarrow> b' = map_option ukey b \<and> e' = map_option ukey e)"
  using inputs_loop_ok [of "vr_files ver ! level" "[]" "vr_files ver ! level" "[]" "map_option ukey b" "map_option ukey e" "level = 0"]
  by (simp add: ldb_version_get_overlapping_inputs_def)

lemma overlapping_first:
  assumes "version_ok uc files ver" "level < LDB_NUM_LEVELS" "ldb_version_get_overlapping_inputs uc ver level b e = Some I" "I \<noteq> []"
  shows "first_inputs uc level (vr_files ver ! level) I"
proof -
  obtain b' e' where I: "I = filter (overlaps uc b' e') (vr_files ver ! level)"
    "level = 0 \<longrightarrow> (\<forall>f \<in> set (vr_files ver ! level). overlaps uc b' e' f \<longrightarrow> inside_range uc b' e' f)"
    using get_overlapping [of ver level b e] assms(3) by auto
  show ?thesis
  proof (cases "level = 0")
    case True
    then have "\<exists>b e. I = filter (overlaps uc b e) (vr_files ver ! level) \<and> (\<forall>f \<in> set I. inside_range uc b e f)"
      using I by (intro exI [of _ b'] exI [of _ e']) simp
    then show ?thesis using True assms(4) by (simp add: first_inputs_def)
  next
    case False
    then show ?thesis using I(1) assms(4) overlapping_segment [OF version_ok_chain(1) [OF assms(1,2)]] by (auto simp: first_inputs_def)
  qed
qed

lemma next_level:
  assumes "version_ok uc files ver" "level + 1 < LDB_NUM_LEVELS" "inputs_end uc level (vr_files ver ! level) I"
    and "ranged uc s l I"
  shows "\<exists>J. Option.bind (ldb_version_get_overlapping_inputs uc ver (level + 1) (Some s) (Some l)) (add_boundary_inputs uc (vr_files ver ! (level + 1))) = Some J \<and>
    inputs_closed uc (vr_files ver ! level) (vr_files ver ! (level + 1)) I J"
proof -
  have ne: "I \<noteq> []" and sub: "set I \<subseteq> set (vr_files ver ! level)"
    using assms(3) by (auto simp: inputs_end_def first_inputs_def split: if_splits)
  have "ldb_version_get_overlapping_inputs uc ver (level + 1) (Some s) (Some l) =
      Some (filter (overlaps uc (Some (ukey s)) (Some (ukey l))) (vr_files ver ! (level + 1)))"
    using get_overlapping [of ver "level + 1" "Some s" "Some l"] by auto
  moreover obtain J where "add_boundary_inputs uc (vr_files ver ! (level + 1))
      (filter (overlaps uc (Some (ukey s)) (Some (ukey l))) (vr_files ver ! (level + 1))) = Some J" "set J \<subseteq> set (vr_files ver ! (level + 1))"
    "\<forall>f \<in> set (vr_files ver ! (level + 1)) - set J. (\<forall>g \<in> set I \<union> set J. follows uc f g) \<or>
      (\<forall>g \<in> set I \<union> set J. ldb_compare uc (ukey (fm_largest g)) (ukey (fm_smallest f)) < 0)"
    using next_inputs [OF version_ok_chain(1) [OF assms(1), of "level + 1"] ne assms(4)] assms(2) by auto
  ultimately show ?thesis
    using ne sub inputs_end_stay [OF assms(3) version_ok_chain(1) [OF assms(1)]] assms(2) by (auto simp: inputs_closed_def)
qed

lemma expand_ok:
  assumes "version_ok uc files (vs_current vset)" "vs_uc vset = uc" "co_level c + 1 < LDB_NUM_LEVELS"
    and "inputs_closed uc (vr_files (vs_current vset) ! co_level c) (vr_files (vs_current vset) ! (co_level c + 1)) (co_inputs0 c) (co_inputs1 c)"
  shows "\<exists>c' l all. expand_inputs vset c s0 l0 all0 = Some (c', l, all) \<and> co_level c' = co_level c \<and> co_input_version c' = co_input_version c \<and>
    inputs_closed uc (vr_files (vs_current vset) ! co_level c) (vr_files (vs_current vset) ! (co_level c + 1)) (co_inputs0 c') (co_inputs1 c')"
proof -
  let ?ver = "vs_current vset" and ?level = "co_level c"
  have same: ?thesis if "expand_inputs vset c s0 l0 all0 = Some (c, l0, all0)" using that assms(4) by blast
  show ?thesis
  proof (cases "length (co_inputs1 c) > 0")
    case False
    then show ?thesis using same by (simp add: expand_inputs_def)
  next
    case True
    obtain E where E: "ldb_version_get_overlapping_inputs uc ?ver ?level (Some (fst all0)) (Some (snd all0)) = Some E"
      using get_overlapping by blast
    show ?thesis
    proof (cases "E = []")
      case empty: True
      then show ?thesis using same True E by (simp add: expand_inputs_def assms(2) add_boundary_inputs_def find_largest_key_def)
    next
      case False
      obtain E0 where E0: "add_boundary_inputs uc (vr_files ?ver ! ?level) E = Some E0" "inputs_end uc ?level (vr_files ?ver ! ?level) E0"
        using boundary_inputs_end [OF overlapping_first [OF assms(1) _ E False] version_ok_chain [OF assms(1)]] assms(3) by fastforce
      then have "E0 \<noteq> []" by (simp add: inputs_end_def first_inputs_def)
      then obtain s l where r: "ldb_versions_get_range uc E0 = Some (s, l)" "ranged uc s l E0" using get_range_ok by blast
      obtain J where J: "Option.bind (ldb_version_get_overlapping_inputs uc ?ver (?level + 1) (Some s) (Some l)) (add_boundary_inputs uc (vr_files ?ver ! (?level + 1))) = Some J"
        "inputs_closed uc (vr_files ?ver ! ?level) (vr_files ?ver ! (?level + 1)) E0 J"
        using next_level [OF assms(1,3) E0(2) r(2)] by blast
      obtain K where K: "ldb_version_get_overlapping_inputs uc ?ver (?level + 1) (Some s) (Some l) = Some K" "add_boundary_inputs uc (vr_files ?ver ! (?level + 1)) K = Some J"
        using J(1) by (auto simp: bind_eq_Some_conv)
      obtain all where all: "ldb_versions_get_range2 uc E0 J = Some all"
        using get_range_ok [of "E0 @ J"] \<open>E0 \<noteq> []\<close> by (auto simp: ldb_versions_get_range2_def)
      have "expand_inputs vset c s0 l0 all0 =
          (if length E0 > length (co_inputs0 c) \<and> total_file_size (co_inputs1 c) + total_file_size E0 < expanded_compaction_byte_size_limit (vs_options vset) \<and>
              length J = length (co_inputs1 c)
           then Some (c\<lparr>co_inputs0 := E0, co_inputs1 := J\<rparr>, l, all) else Some (c, l0, all0))"
        using True E E0(1) r(1) K all by (simp add: expand_inputs_def assms(2) Let_def)
      then show ?thesis using same J(2) by (auto split: if_splits)
    qed
  qed
qed

lemma setup_ok:
  assumes "version_ok uc files (vs_current vset)" "vs_uc vset = uc" "co_level c + 1 < LDB_NUM_LEVELS"
    and "first_inputs uc (co_level c) (vr_files (vs_current vset) ! co_level c) (co_inputs0 c)"
  shows "\<exists>vset' c'. ldb_versions_setup_other_inputs vset c = Some (vset', c') \<and> co_level c' = co_level c \<and> co_input_version c' = co_input_version c \<and>
    inputs_closed uc (vr_files (vs_current vset) ! co_level c) (vr_files (vs_current vset) ! (co_level c + 1)) (co_inputs0 c') (co_inputs1 c')"
proof -
  let ?ver = "vs_current vset" and ?level = "co_level c"
  obtain I where I: "add_boundary_inputs uc (vr_files ?ver ! ?level) (co_inputs0 c) = Some I" "inputs_end uc ?level (vr_files ?ver ! ?level) I"
    using boundary_inputs_end [OF assms(4) version_ok_chain [OF assms(1)]] assms(3) by fastforce
  then have "I \<noteq> []" by (simp add: inputs_end_def first_inputs_def)
  then obtain s l where r: "ldb_versions_get_range uc I = Some (s, l)" "ranged uc s l I" using get_range_ok by blast
  obtain J where J: "Option.bind (ldb_version_get_overlapping_inputs uc ?ver (?level + 1) (Some s) (Some l)) (add_boundary_inputs uc (vr_files ?ver ! (?level + 1))) = Some J"
    "inputs_closed uc (vr_files ?ver ! ?level) (vr_files ?ver ! (?level + 1)) I J"
    using next_level [OF assms(1,3) I(2) r(2)] by blast
  obtain K where K: "ldb_version_get_overlapping_inputs uc ?ver (?level + 1) (Some s) (Some l) = Some K" "add_boundary_inputs uc (vr_files ?ver ! (?level + 1)) K = Some J"
    using J(1) by (auto simp: bind_eq_Some_conv)
  obtain all where all: "ldb_versions_get_range2 uc I J = Some all"
    using get_range_ok [of "I @ J"] \<open>I \<noteq> []\<close> by (auto simp: ldb_versions_get_range2_def)
  obtain c' l' all' where c': "expand_inputs vset (c\<lparr>co_inputs0 := I, co_inputs1 := J\<rparr>) s l all = Some (c', l', all')" "co_level c' = ?level"
    "co_input_version c' = co_input_version c"
    "inputs_closed uc (vr_files ?ver ! ?level) (vr_files ?ver ! (?level + 1)) (co_inputs0 c') (co_inputs1 c')"
    using expand_ok [OF assms(1,2), of "c\<lparr>co_inputs0 := I, co_inputs1 := J\<rparr>" s l all] assms(3) J(2) by auto
  obtain g where "ldb_version_get_overlapping_inputs uc ?ver (?level + 2) (Some (fst all')) (Some (snd all')) = Some g"
    using get_overlapping by blast
  then have gp: "(if ?level + 2 < LDB_NUM_LEVELS then ldb_version_get_overlapping_inputs uc ?ver (?level + 2) (Some (fst all')) (Some (snd all'))
      else Some (co_grandparents c')) = Some (if ?level + 2 < LDB_NUM_LEVELS then g else co_grandparents c')" by simp
  have "ldb_versions_setup_other_inputs vset c =
      Some (vset\<lparr>vs_compact_pointer := (vs_compact_pointer vset)[?level := l']\<rparr>,
        c'\<lparr>co_grandparents := (if ?level + 2 < LDB_NUM_LEVELS then g else co_grandparents c'), co_edit := ldb_edit_set_compact_pointer (co_edit c') ?level l'\<rparr>)"
    using I(1) r(1) K all c'(1,2) gp by (simp only: ldb_compaction.simps ldb_compaction.select_convs ldb_versions_setup_other_inputs_def assms(2) Let_def Option.bind.simps prod.case)
  then show ?thesis using c'(2-) by simp
qed


lemma take_limit_prefix: "\<exists>ys. fs = take_limit limit t fs @ ys \<and> (fs \<noteq> [] \<longrightarrow> take_limit limit t fs \<noteq> [])"
proof (induction limit t fs rule: take_limit.induct)
  case (2 limit t f fs)
  then show ?case by (auto simp: Let_def)
qed simp

end

text \<open>
  A compaction of a version: its inputs are closed, and an entry that stays on the level is newer than every
  entry of the same key that moves down.
\<close>

definition compaction_ok :: "ldb_comparator \<Rightarrow> (u64 \<Rightarrow> (u64 \<times> (bytes \<times> bytes) list) option) \<Rightarrow> ldb_version \<Rightarrow> ldb_compaction \<Rightarrow> bool" where
  "compaction_ok uc files ver c \<longleftrightarrow> co_level c + 1 < LDB_NUM_LEVELS \<and> co_input_version c = Some ver \<and>
     inputs_closed uc (vr_files ver ! co_level c) (vr_files ver ! (co_level c + 1)) (co_inputs0 c) (co_inputs1 c) \<and>
     (\<forall>f \<in> set (vr_files ver ! co_level c) - set (co_inputs0 c). \<forall>g \<in> set (co_inputs0 c).
        \<forall>e \<in> set (file_entries files f). \<forall>e' \<in> set (file_entries files g).
          ldb_compare uc (ukey (fst e)) (ukey (fst e')) = 0 \<longrightarrow> ldb_ikc_compare uc (fst e) (fst e') < 0)"

context user_comparator
begin

lemma stay_newer:
  assumes "file_ok uc files f" "file_ok uc files g" "e \<in> set (file_entries files f)" "e' \<in> set (file_entries files g)"
    and "follows uc f g \<or> ldb_compare uc (ukey (fm_largest g)) (ukey (fm_smallest f)) < 0"
    and "ldb_compare uc (ukey (fst e)) (ukey (fst e')) = 0"
  shows "ldb_ikc_compare uc (fst e) (fst e') < 0"
  using assms(5)
proof
  assume "follows uc f g"
  then have "ldb_ikc_compare uc (fst e) (fm_smallest g) < 0"
    using ikc.cmp_le_less_trans [OF _ _ _ file_bounds(2) [OF assms(1,3)], of "fm_smallest g"] by (simp add: follows_def)
  then show ?thesis using ikc.cmp_less_le_trans [OF _ _ _ _ file_bounds(1) [OF assms(2,4)]] by simp
next
  assume less: "ldb_compare uc (ukey (fm_largest g)) (ukey (fm_smallest f)) < 0"
  have "ldb_compare uc (ukey (fst e')) (ukey (fm_largest g)) \<le> 0" "ldb_compare uc (ukey (fm_smallest f)) (ukey (fst e)) \<le> 0"
    using file_bounds(2) [OF assms(2,4)] file_bounds(1) [OF assms(1,3)] by (auto simp: ikc_le_iff)
  then have "ldb_compare uc (ukey (fst e')) (ukey (fst e)) < 0"
    using less cmp_le_less_trans cmp_less_le_trans by blast
  then show ?thesis using assms(6) cmp_eq_sym [of "ukey (fst e)" "ukey (fst e')"] by simp
qed

lemma setup_compaction_ok:
  assumes "version_ok uc files (vs_current vset)" "vs_uc vset = uc" "co_level c + 1 < LDB_NUM_LEVELS" "co_input_version c = Some (vs_current vset)"
    and "first_inputs uc (co_level c) (vr_files (vs_current vset) ! co_level c) (co_inputs0 c)"
  shows "\<exists>vset' c'. ldb_versions_setup_other_inputs vset c = Some (vset', c') \<and> compaction_ok uc files (vs_current vset) c'"
proof -
  obtain vset' c' where s: "ldb_versions_setup_other_inputs vset c = Some (vset', c')" "co_level c' = co_level c" "co_input_version c' = co_input_version c"
    and closed: "inputs_closed uc (vr_files (vs_current vset) ! co_level c) (vr_files (vs_current vset) ! (co_level c + 1)) (co_inputs0 c') (co_inputs1 c')"
    using setup_ok [OF assms(1,2,3,5)] by blast
  have ok: "file_ok uc files f" if "f \<in> set (vr_files (vs_current vset) ! co_level c)" for f
    using assms(1,3) that by (auto simp: version_ok_def)
  have "ldb_ikc_compare uc (fst e) (fst e') < 0"
    if "f \<in> set (vr_files (vs_current vset) ! co_level c) - set (co_inputs0 c')" "g \<in> set (co_inputs0 c')"
      "e \<in> set (file_entries files f)" "e' \<in> set (file_entries files g)" "ldb_compare uc (ukey (fst e)) (ukey (fst e')) = 0" for f g e e'
    using stay_newer [OF ok ok that(3,4)] closed that by (auto simp: inputs_closed_def)
  then show ?thesis using s closed assms(3,4) by (auto simp: compaction_ok_def)
qed

lemma pick_start_ok:
  assumes "version_ok uc files (vs_current vset)" "vs_uc vset = uc" "level + 1 < LDB_NUM_LEVELS" "f \<in> set (vr_files (vs_current vset) ! level)"
    and "c = (ldb_compaction_init (vs_options vset) level)\<lparr>co_inputs0 := [f], co_input_version := Some (vs_current vset)\<rparr>"
  shows "\<exists>vset' c'. Option.bind
      (if level = 0 then
         Option.bind (ldb_versions_get_range uc (co_inputs0 c)) (\<lambda>(smallest, largest).
         Option.bind (ldb_version_get_overlapping_inputs uc (vs_current vset) 0 (Some smallest) (Some largest)) (\<lambda>inputs.
           if length inputs > 0 then Some (c\<lparr>co_inputs0 := inputs\<rparr>) else None))
       else Some c)
      (\<lambda>c. map_option Some (ldb_versions_setup_other_inputs vset c)) = Some (Some (vset', c')) \<and> compaction_ok uc files (vs_current vset) c'"
proof (cases "level = 0")
  case False
  have "\<exists>xs ys. vr_files (vs_current vset) ! level = xs @ [f] @ ys" using assms(4) by (metis append_Cons append_Nil split_list)
  then have "first_inputs uc level (vr_files (vs_current vset) ! level) [f]" using False by (simp add: first_inputs_def)
  then show ?thesis
    using setup_compaction_ok [OF assms(1,2), of c] assms(3,5) False by (auto simp: ldb_compaction_init_def)
next
  case True
  have range: "ldb_versions_get_range uc (co_inputs0 c) = Some (fm_smallest f, fm_largest f)" using assms(5) by (simp add: ldb_versions_get_range_def)
  obtain b' e' where I: "ldb_version_get_overlapping_inputs uc (vs_current vset) 0 (Some (fm_smallest f)) (Some (fm_largest f)) =
      Some (filter (overlaps uc b' e') (vr_files (vs_current vset) ! 0))" "wider uc b' e' (Some (ukey (fm_smallest f))) (Some (ukey (fm_largest f)))"
    using get_overlapping [of "vs_current vset" 0 "Some (fm_smallest f)" "Some (fm_largest f)"] by auto
  have ord: "ldb_compare uc (ukey (fm_smallest f)) (ukey (fm_largest f)) \<le> 0"
    using version_ok_chain(2) [OF assms(1), of level] assms(3,4) by (auto simp: ikc_le_iff)
  have "\<not> ends_before uc b' f"
    using I(2) ord cmp_trans [of "the b'" "ukey (fm_smallest f)" "ukey (fm_largest f)"] cmp_gt_iff [of "the b'" "ukey (fm_largest f)"]
    by (auto simp: ends_before_def wider_def)
  moreover have "\<not> starts_after uc e' f"
    using I(2) ord cmp_trans [of "ukey (fm_smallest f)" "ukey (fm_largest f)" "the e'"] by (auto simp: starts_after_def wider_def)
  ultimately have "f \<in> set (filter (overlaps uc b' e') (vr_files (vs_current vset) ! 0))" using assms(4) True by (simp add: overlaps_def)
  then have ne: "filter (overlaps uc b' e') (vr_files (vs_current vset) ! 0) \<noteq> []" by (metis empty_iff empty_set)
  have "first_inputs uc 0 (vr_files (vs_current vset) ! 0) (filter (overlaps uc b' e') (vr_files (vs_current vset) ! 0))"
    using overlapping_first [OF assms(1) _ I(1) ne] assms(3) by simp
  then show ?thesis
    using setup_compaction_ok [OF assms(1,2), of "c\<lparr>co_inputs0 := filter (overlaps uc b' e') (vr_files (vs_current vset) ! 0)\<rparr>"] assms(3,5) True range I(1) ne
    by (auto simp: ldb_compaction_init_def)
qed

end

text \<open>The score of a finalized version.\<close>

lemma scaled_bytes_pos: "0 < r \<Longrightarrow> 0 < scaled_bytes n r"
  by (induction n arbitrary: r) simp_all

lemma finalize_level:
  assumes "ldb_versions_finalize options v = v" "vr_compaction_score v \<ge> 1"
  shows "0 \<le> vr_compaction_level v" "nat (vr_compaction_level v) + 1 < LDB_NUM_LEVELS" "vr_files v ! nat (vr_compaction_level v) \<noteq> []"
proof -
  define step where "step = (\<lambda>(best_level, best_score) level.
      let score = level_score options v level in if score > best_score then (int level, score) else (best_level, best_score))"
  have fold: "(case foldl step bs levels of (bl, b) \<Rightarrow> (bl, b) = bs \<or> (\<exists>l \<in> set levels. bl = int l \<and> b = level_score options v l))" for bs levels
    by (induction levels arbitrary: bs) (fastforce simp: step_def Let_def split: prod.splits if_splits)+
  obtain bl b where r: "foldl step (- 1, - 1) [0 ..< LDB_NUM_LEVELS - 1] = (bl, b)" by fastforce
  have "vr_compaction_level (ldb_versions_finalize options v) = bl" "vr_compaction_score (ldb_versions_finalize options v) = b"
    using r by (simp_all add: ldb_versions_finalize_def step_def)
  then have v: "vr_compaction_level v = bl" "vr_compaction_score v = b" using assms(1) by simp_all
  then have "(bl, b) \<noteq> (- 1, - 1)" using assms(2) by auto
  then obtain l where l: "l \<in> set [0 ..< LDB_NUM_LEVELS - 1]" "bl = int l" "b = level_score options v l"
    using fold [of "(- 1, - 1)" "[0 ..< LDB_NUM_LEVELS - 1]"] r by auto
  have "vr_files v ! l \<noteq> []"
  proof
    assume "vr_files v ! l = []"
    then have "level_score options v l = 0" by (cases "l = 0") (simp_all add: level_score_def total_file_size_def)
    then show False using l v assms(2) by simp
  qed
  then show "0 \<le> vr_compaction_level v" "nat (vr_compaction_level v) + 1 < LDB_NUM_LEVELS" "vr_files v ! nat (vr_compaction_level v) \<noteq> []"
    using l v by auto
qed

context user_comparator
begin

lemma pick_compaction_ok:
  assumes "vs_uc vset = uc" "version_ok uc files (vs_current vset)"
    and "ldb_versions_finalize (vs_options vset) (vs_current vset) = vs_current vset"
    and "\<forall>f. vr_file_to_compact (vs_current vset) = Some f \<longrightarrow> nat (vr_file_to_compact_level (vs_current vset)) + 1 < LDB_NUM_LEVELS \<and>
      fm_number f \<in> fm_number ` set (vr_files (vs_current vset) ! nat (vr_file_to_compact_level (vs_current vset)))"
  shows "\<exists>r. ldb_versions_pick_compaction vset = Some r \<and> (r = None \<longleftrightarrow> \<not> ldb_versions_needs_compaction vset) \<and>
      (\<forall>vset' c. r = Some (vset', c) \<longrightarrow> compaction_ok uc files (vs_current vset) c)"
proof (cases "vr_compaction_score (vs_current vset) \<ge> 1")
  case True
  let ?level = "nat (vr_compaction_level (vs_current vset))"
  note fin = finalize_level [OF assms(3) True]
  obtain f where f: "pick_file vset ?level = Some f" "f \<in> set (vr_files (vs_current vset) ! ?level)"
    using fin(3) by (fastforce simp: pick_file_def Let_def find_Some_iff split: option.splits list.splits)
  obtain vset' c' where "ldb_versions_pick_compaction vset = Some (Some (vset', c'))" "compaction_ok uc files (vs_current vset) c'"
    using pick_start_ok [OF assms(2,1) fin(2) f(2) refl] True fin(1,2) f(1) by (auto simp: ldb_versions_pick_compaction_def assms(1) Let_def)
  then show ?thesis using True by (auto simp: ldb_versions_needs_compaction_def)
next
  case False
  show ?thesis
  proof (cases "vr_file_to_compact (vs_current vset)")
    case None
    then show ?thesis using False by (simp add: ldb_versions_pick_compaction_def ldb_versions_needs_compaction_def Let_def)
  next
    case (Some f)
    let ?level = "nat (vr_file_to_compact_level (vs_current vset))"
    have lv: "?level + 1 < LDB_NUM_LEVELS" "fm_number f \<in> fm_number ` set (vr_files (vs_current vset) ! ?level)" using assms(4) Some by blast+
    then obtain g where g: "find (\<lambda>g. fm_number g = fm_number f) (vr_files (vs_current vset) ! ?level) = Some g" "g \<in> set (vr_files (vs_current vset) ! ?level)"
      by (cases "find (\<lambda>g. fm_number g = fm_number f) (vr_files (vs_current vset) ! ?level)") (auto simp: find_None_iff find_Some_iff)
    obtain vset' c' where "ldb_versions_pick_compaction vset = Some (Some (vset', c'))" "compaction_ok uc files (vs_current vset) c'"
      using pick_start_ok [OF assms(2,1) lv(1) g(2) refl] False Some g(1) by (auto simp: ldb_versions_pick_compaction_def assms(1) Let_def)
    then show ?thesis using Some by (auto simp: ldb_versions_needs_compaction_def)
  qed
qed

lemma compact_range_ok:
  assumes "vs_uc vset = uc" "version_ok uc files (vs_current vset)" and level: "level + 1 < LDB_NUM_LEVELS"
  shows "\<exists>r. ldb_versions_compact_range vset level b e = Some r \<and> (\<forall>vset' c. r = Some (vset', c) \<longrightarrow> compaction_ok uc files (vs_current vset) c)"
proof -
  obtain I where I: "ldb_version_get_overlapping_inputs uc (vs_current vset) level b e = Some I" using get_overlapping by blast
  show ?thesis
  proof (cases "I = []")
    case True
    then show ?thesis using I by (simp add: ldb_versions_compact_range_def assms(1))
  next
    case False
    let ?I = "if level > 0 then take_limit (max_file_size_for_level (vs_options vset) level) 0 I else I"
    have "first_inputs uc level (vr_files (vs_current vset) ! level) I" using overlapping_first [OF assms(2) _ I False] level by simp
    then have first: "first_inputs uc level (vr_files (vs_current vset) ! level) ?I"
      using take_limit_prefix [of I "max_file_size_for_level (vs_options vset) level" 0] by (auto simp: first_inputs_def) (metis append.assoc)
    let ?c = "(ldb_compaction_init (vs_options vset) level)\<lparr>co_input_version := Some (vs_current vset), co_inputs0 := ?I\<rparr>"
    obtain vset' c' where "ldb_versions_setup_other_inputs vset ?c = Some (vset', c')" "compaction_ok uc files (vs_current vset) c'"
      using setup_compaction_ok [OF assms(2,1), of ?c] first level by (auto simp: ldb_compaction_init_def)
    then show ?thesis using I False by (simp add: ldb_versions_compact_range_def assms(1) Let_def)
  qed
qed

end

text \<open>A version with one file.\<close>

lemma finalize_again: "ldb_versions_finalize options (ldb_versions_finalize options v) = ldb_versions_finalize options v"
proof -
  have "level_score options (ldb_versions_finalize options v) = level_score options v"
    by (simp add: fun_eq_iff level_score_def ldb_versions_finalize_def split: prod.splits)
  then show ?thesis by (simp add: ldb_versions_finalize_def Let_def split: prod.splits)
qed

lemma one_file_version:
  assumes "f = \<lparr>fm_refs = 1, fm_allowed_seeks = 100, fm_number = 5, fm_file_size = 9, fm_smallest = ldb_ikey_set [97] 5 TYPE_VALUE,
      fm_largest = ldb_ikey_set [97] 5 TYPE_VALUE\<rparr>"
    and "files = (\<lambda>_. None)(5 \<mapsto> (9, [(ldb_ikey_set [97] 5 TYPE_VALUE, [1])]))"
  shows "version_ok bytewise_comparator files (ldb_version_init\<lparr>vr_files := [f] # replicate 6 []\<rparr>)"
proof -
  let ?ik = "ldb_ikey_set [97] 5 TYPE_VALUE"
  have es: "file_entries files f = [(?ik, [1])]" by (simp add: file_entries_def assms)
  have imp: "ldb_pkey_import ?ik = Some \<lparr>pk_user_key = [97], pk_sequence = 5, pk_type = TYPE_VALUE\<rparr>"
    using ldb_pkey_import_write [of "\<lparr>pk_user_key = [97], pk_sequence = 5, pk_type = TYPE_VALUE\<rparr>"]
    by (simp add: ldb_ikey_set_def ldb_pkey_export_def ldb_pkey_init_def MAX_SEQUENCE_def)
  have "file_ok bytewise_comparator files f" using es imp by (simp add: file_ok_def run_ok_def key_ok_def assms)
  then show ?thesis by (auto simp: version_ok_def LDB_NUM_LEVELS_def nth_Cons split: nat.splits)
qed

section \<open>Properties\<close>

text \<open>C5: a compaction that is picked, by size, by seeks or for a range of keys, never meets a failed assertion and has closed
  inputs: the files of the level that stay behind have, for every user key, only entries newer than those that
  move down, even where the entries of one user key lie in several files, and the files of the next level
  that are left out come before all the inputs, or have larger user keys than all of them, so that the output fits between
  them.  A compaction is picked exactly when one is needed.\<close>

theorem compaction_inputs_closed:
  assumes "user_comparator uc" "vs_uc vset = uc" "version_ok uc files (vs_current vset)"
    and "ldb_versions_finalize (vs_options vset) (vs_current vset) = vs_current vset"
    and "\<forall>f. vr_file_to_compact (vs_current vset) = Some f \<longrightarrow> nat (vr_file_to_compact_level (vs_current vset)) + 1 < LDB_NUM_LEVELS \<and>
      fm_number f \<in> fm_number ` set (vr_files (vs_current vset) ! nat (vr_file_to_compact_level (vs_current vset)))"
  shows "(\<exists>r. ldb_versions_pick_compaction vset = Some r \<and> (r = None \<longleftrightarrow> \<not> ldb_versions_needs_compaction vset) \<and>
      (\<forall>vset' c. r = Some (vset', c) \<longrightarrow> compaction_ok uc files (vs_current vset) c)) \<and>
    (\<forall>level b e. level + 1 < LDB_NUM_LEVELS \<longrightarrow> (\<exists>r. ldb_versions_compact_range vset level b e = Some r \<and>
      (\<forall>vset' c. r = Some (vset', c) \<longrightarrow> compaction_ok uc files (vs_current vset) c)))"
  using user_comparator.pick_compaction_ok [OF assms] user_comparator.compact_range_ok [OF assms(1-3)] by blast

theorem compaction_inputs_closed_witness:
  "\<exists>vset :: unit ldb_versions. vs_uc vset = bytewise_comparator \<and> map fm_number (vr_files (vs_current vset) ! 0) = [5] \<and>
    (\<exists>vset' c. ldb_versions_pick_compaction vset = Some (Some (vset', c)) \<and> co_inputs0 c \<noteq> [])"
proof -
  define f where "f = \<lparr>fm_refs = 1, fm_allowed_seeks = 100, fm_number = 5, fm_file_size = 9, fm_smallest = ldb_ikey_set [97] 5 TYPE_VALUE,
      fm_largest = ldb_ikey_set [97] 5 TYPE_VALUE\<rparr>"
  define options where "options = small_blocks (ldb_ikc_init bytewise_comparator)"
  define ver where "ver = ldb_versions_finalize options (ldb_version_init\<lparr>vr_files := [f] # replicate 6 [], vr_file_to_compact := Some f, vr_file_to_compact_level := 0\<rparr>)"
  define vset :: "unit ldb_versions" where "vset = (ldb_versions_init ''db'' options bytewise_comparator)\<lparr>vs_current := ver\<rparr>"
  have vs: "vs_uc vset = bytewise_comparator" "vs_options vset = options" "vs_current vset = ver"
    by (simp_all add: vset_def ldb_versions_init_def ldb_versions_append_version_def)
  have ver: "vr_files ver = [f] # replicate 6 []" "vr_file_to_compact ver = Some f" "vr_file_to_compact_level ver = 0"
    by (simp_all add: ver_def ldb_versions_finalize_def split: prod.splits)
  have ok: "version_ok bytewise_comparator ((\<lambda>_. None)(5 \<mapsto> (9, [(ldb_ikey_set [97] 5 TYPE_VALUE, [1])]))) (vs_current vset)"
    using one_file_version [OF f_def refl] by (simp add: version_ok_def vs ver)
  have "ldb_versions_finalize (vs_options vset) (vs_current vset) = vs_current vset" by (simp add: vs ver_def finalize_again)
  then obtain r where r: "ldb_versions_pick_compaction vset = Some r" "r = None \<longleftrightarrow> \<not> ldb_versions_needs_compaction vset"
    "\<forall>vset' c. r = Some (vset', c) \<longrightarrow> compaction_ok bytewise_comparator ((\<lambda>_. None)(5 \<mapsto> (9, [(ldb_ikey_set [97] 5 TYPE_VALUE, [1])]))) (vs_current vset) c"
    using compaction_inputs_closed [OF bytewise_uc.user_comparator_axioms vs(1) ok] ver by (auto simp: vs LDB_NUM_LEVELS_def)
  have "ldb_versions_needs_compaction vset" by (simp add: ldb_versions_needs_compaction_def vs ver)
  then obtain vset' c where c: "r = Some (vset', c)" using r(2) by (cases r) auto
  then have "co_inputs0 c \<noteq> []" using r(3) by (auto simp: compaction_ok_def inputs_closed_def)
  then show ?thesis using r(1) c vs ver by (intro exI [of _ vset]) (simp add: f_def)
qed

end
