(* ===== verification/Compaction.thy ===== *)
theory Compaction
  imports Version_Set
begin

text \<open>
  A compaction at work (\<^verbatim>\<open>ldb_do_compaction_work\<close> of \<^verbatim>\<open>engine/src/db_impl.c\<close>): the entries of the
  inputs come merged from an iterator, what no reader can see any more is dropped, the rest goes to new table
  files.  The files are an environment of functions.  Other threads act between two rounds of the loop; what they
  may change for it, the shutdown flag and the next file number, is indexed by the round.  The theory
  shows that no reader at the oldest snapshot or a newer one can tell the outputs from the inputs.
\<close>

section \<open>The state of a compaction\<close>

record ldb_output =
  ou_number :: u64
  ou_file_size :: nat
  ou_smallest :: bytes
  ou_largest :: bytes

definition ldb_output_create :: "u64 \<Rightarrow> ldb_output" where
  "ldb_output_create number = \<lparr>ou_number = number, ou_file_size = 0, ou_smallest = [], ou_largest = []\<rparr>"

text \<open>
  The output file is in the table builder; \<open>cs_files\<close> are the files that were written and closed, which
  the code leaves to the file system.  The table cache of the database is carried along, \<open>cs_tables\<close>.
\<close>

record 'f ldb_cstate =
  cs_compaction :: ldb_compaction
  cs_smallest_snapshot :: u64
  cs_outputs :: "ldb_output list"
  cs_builder :: "'f ldb_tablegen option"
  cs_total_bytes :: nat
  cs_files :: "(u64 \<times> 'f) list"
  cs_tables :: ldb_tables

definition ldb_cstate_create :: "ldb_compaction \<Rightarrow> ldb_tables \<Rightarrow> 'f ldb_cstate" where
  "ldb_cstate_create c tables =
     \<lparr>cs_compaction = c, cs_smallest_snapshot = 0, cs_outputs = [], cs_builder = None, cs_total_bytes = 0, cs_files = [],
      cs_tables = tables\<rparr>"

text \<open>An update of the last output, \<open>ldb_cstate_top\<close>.\<close>

definition update_top :: "(ldb_output \<Rightarrow> ldb_output) \<Rightarrow> 'f ldb_cstate \<Rightarrow> 'f ldb_cstate" where
  "update_top f state = state\<lparr>cs_outputs := butlast (cs_outputs state) @ [f (last (cs_outputs state))]\<rparr>"

text \<open>
  \<open>ce_open fs\<close> opens a file for reading when the files \<open>fs\<close> were written, \<open>ce_id n\<close> is the id that the
  table of file \<open>n\<close> draws from the block cache, \<open>ce_number n\<close> the number that the \<open>n\<close>-th output gets,
  \<open>ce_shutdown n\<close> the flag in round \<open>n\<close>.
\<close>

record 'f compaction_env =
  ce_ops :: "'f wfile_ops"
  ce_create :: "string \<Rightarrow> status + 'f"
  ce_sync :: "'f \<Rightarrow> status \<times> 'f"
  ce_close :: "'f \<Rightarrow> status \<times> 'f"
  ce_open :: "(u64 \<times> 'f) list \<Rightarrow> string \<Rightarrow> status + ldb_rfile"
  ce_id :: "u64 \<Rightarrow> u64 option"
  ce_number :: "nat \<Rightarrow> u64"
  ce_shutdown :: "nat \<Rightarrow> bool"

section \<open>Output files\<close>

text \<open>\<open>None\<close> is a failed assertion.\<close>

definition ldb_open_compaction_output_file :: "ldb_dbopt \<Rightarrow> string \<Rightarrow> 'f compaction_env \<Rightarrow> 'f ldb_cstate \<Rightarrow>
    (status \<times> 'f ldb_cstate) option" where
  "ldb_open_compaction_output_file options dbname env state =
     (if cs_builder state \<noteq> None then None
      else
        (let file_number = ce_number env (length (cs_outputs state));
             state = state\<lparr>cs_outputs := cs_outputs state @ [ldb_output_create file_number]\<rparr>
         in case ldb_table_filename LDB_PATH_MAX dbname file_number of
              None \<Rightarrow> Some (INVALID, state)
            | Some fname \<Rightarrow>
                (case ce_create env fname of
                   Inl rc \<Rightarrow> Some (rc, state)
                 | Inr f \<Rightarrow> Some (OK, state\<lparr>cs_builder := Some (ldb_tablegen_create options f)\<rparr>))))"

text \<open>
  The status of the iterator that the table cache opens on a file.  The iterator is destroyed before it reads a
  block, so that no use is made of the block cache here.
\<close>

definition verify_output :: "'f compaction_env \<Rightarrow> (u64 \<times> 'f) list \<Rightarrow> ldb_tables \<Rightarrow> u64 \<Rightarrow> nat \<Rightarrow> (status \<times> ldb_tables) option" where
  "verify_output env fs tables output_number current_bytes =
     map_option (\<lambda>(iter, handle, tables).
         (case iter of Inl it \<Rightarrow> ldb_emptyiter_status it | Inr it \<Rightarrow> ldb_twoiter_status biter_table biter_table it,
          case handle of None \<Rightarrow> tables | Some h \<Rightarrow> tables\<lparr>tc_lru := ldb_lru_release (tc_lru tables) h\<rparr>))
       (ldb_tables_iterate (ce_open env fs) no_cache tables ldb_readopt_default output_number (word_of_nat current_bytes)
         (ce_id env output_number) None)"

definition ldb_finish_compaction_output_file :: "'f compaction_env \<Rightarrow> 'f ldb_cstate \<Rightarrow> status \<Rightarrow> (status \<times> 'f ldb_cstate) option" where
  "ldb_finish_compaction_output_file env state input_status =
     (case cs_builder state of
        None \<Rightarrow> None
      | Some tb \<Rightarrow>
          (let output_number = ou_number (last (cs_outputs state)); rc = input_status; current_entries = ldb_tablegen_entries tb
           in if cs_outputs state = [] \<or> output_number = 0 then None
              else
                Option.bind (if rc = OK then ldb_tablegen_finish (ce_ops env) tb else Some (rc, ldb_tablegen_abandon tb)) (\<lambda>(rc, tb).
                  let current_bytes = ldb_tablegen_size tb;
                      state = update_top (\<lambda>out. out\<lparr>ou_file_size := current_bytes\<rparr>) state;
                      state = state\<lparr>cs_total_bytes := cs_total_bytes state + current_bytes, cs_builder := None\<rparr>;
                      f = tg_file tb;
                      (rc, f) = (if rc = OK then ce_sync env f else (rc, f));
                      (rc, f) = (if rc = OK then ce_close env f else (rc, f));
                      state = state\<lparr>cs_files := cs_files state @ [(output_number, f)]\<rparr>
                  in if rc = OK \<and> current_entries > 0
                     then map_option (\<lambda>(rc, tables). (rc, state\<lparr>cs_tables := tables\<rparr>))
                            (verify_output env (cs_files state) (cs_tables state) output_number current_bytes)
                     else Some (rc, state))))"

section \<open>One entry\<close>

text \<open>The user key whose entries are coming, if any, and the number of its last entry.\<close>

record 'f work =
  wk_state :: "'f ldb_cstate"
  wk_user_key :: "bytes option"
  wk_last_sequence :: u64

definition drop_entry :: "ldb_comparator \<Rightarrow> 'f work \<Rightarrow> bytes \<Rightarrow> (bool \<times> 'f work) option" where
  "drop_entry uc wk key =
     (case ldb_pkey_import key of
        None \<Rightarrow> Some (False, wk\<lparr>wk_user_key := None, wk_last_sequence := MAX_SEQUENCE\<rparr>)
      | Some ikey \<Rightarrow>
          (let fresh = (case wk_user_key wk of None \<Rightarrow> True | Some u \<Rightarrow> ldb_compare uc (pk_user_key ikey) u \<noteq> 0);
               wk = (if fresh then wk\<lparr>wk_user_key := Some (pk_user_key ikey), wk_last_sequence := MAX_SEQUENCE\<rparr> else wk);
               state = wk_state wk
           in Option.bind
                (if wk_last_sequence wk \<le> cs_smallest_snapshot state then Some (True, state)
                 else if pk_type ikey = TYPE_DELETION \<and> pk_sequence ikey \<le> cs_smallest_snapshot state then
                   map_option (\<lambda>(base, c). (base, state\<lparr>cs_compaction := c\<rparr>))
                     (ldb_compaction_is_base_level_for_key uc (cs_compaction state) (pk_user_key ikey))
                 else Some (False, state))
                (\<lambda>(drp, state). Some (drp, wk\<lparr>wk_state := state, wk_last_sequence := pk_sequence ikey\<rparr>))))"

definition add_entry :: "ldb_dbopt \<Rightarrow> string \<Rightarrow> 'f compaction_env \<Rightarrow> 'f ldb_cstate \<Rightarrow> status \<Rightarrow> bytes \<Rightarrow> bytes \<Rightarrow>
    (status \<times> 'f ldb_cstate) option" where
  "add_entry options dbname env state input_status key v =
     Option.bind (if cs_builder state = None then ldb_open_compaction_output_file options dbname env state else Some (OK, state))
       (\<lambda>(rc, state).
         if rc \<noteq> OK then Some (rc, state)
         else
           (case cs_builder state of
              None \<Rightarrow> None
            | Some tb \<Rightarrow>
                (let state = (if ldb_tablegen_entries tb = 0 then update_top (\<lambda>out. out\<lparr>ou_smallest := key\<rparr>) state else state);
                     state = update_top (\<lambda>out. out\<lparr>ou_largest := key\<rparr>) state
                 in Option.bind (ldb_tablegen_add (ce_ops env) tb key v) (\<lambda>tb.
                      let state = state\<lparr>cs_builder := Some tb\<rparr>
                      in if ldb_tablegen_size tb \<ge> co_max_output_file_size (cs_compaction state)
                         then ldb_finish_compaction_output_file env state input_status
                         else Some (OK, state)))))"

section \<open>The loop\<close>

text \<open>
  A full memtable that another thread leaves behind is flushed in between
  (\<^verbatim>\<open>ldb_compact_memtable\<close>); that touches nothing of this state.
\<close>

partial_function (option) compaction_loop :: "ldb_dbopt \<Rightarrow> string \<Rightarrow> ldb_comparator \<Rightarrow> 'f compaction_env \<Rightarrow> 'i ldb_itertbl \<Rightarrow>
    nat \<Rightarrow> 'i \<Rightarrow> 'f work \<Rightarrow> (status \<times> 'i \<times> 'f work) option" where
  "compaction_loop options dbname uc env T n input wk =
     (if tb_valid T input \<and> \<not> ce_shutdown env n then
        (let key = tb_key T input; state = wk_state wk;
             (stop, c) = ldb_compaction_should_stop_before options (ldb_ikc_init uc) (cs_compaction state) key;
             state = state\<lparr>cs_compaction := c\<rparr>
         in Option.bind (if stop \<and> cs_builder state \<noteq> None then ldb_finish_compaction_output_file env state (tb_status T input)
                         else Some (OK, state)) (\<lambda>(rc, state).
            let wk = wk\<lparr>wk_state := state\<rparr>
            in if rc \<noteq> OK then Some (rc, input, wk)
               else
                 Option.bind (drop_entry uc wk key) (\<lambda>(drp, wk).
                 Option.bind (if \<not> drp then add_entry options dbname env (wk_state wk) (tb_status T input) key (tb_value T input)
                              else Some (OK, wk_state wk)) (\<lambda>(rc, state).
                   let wk = wk\<lparr>wk_state := state\<rparr>
                   in if rc \<noteq> OK then Some (rc, input, wk)
                      else Option.bind (tb_next T input) (\<lambda>input. compaction_loop options dbname uc env T (Suc n) input wk)))))
      else Some (if ce_shutdown env n then IOERR else OK, input, wk))"

text \<open>The edit of the outputs, \<open>ldb_install_compaction_results\<close>, which \<open>ldb_versions_apply\<close> gets.\<close>

definition ldb_install_compaction_results :: "'f ldb_cstate \<Rightarrow> ldb_edit" where
  "ldb_install_compaction_results state =
     (let c = cs_compaction state
      in foldl (\<lambda>edit out. ldb_edit_add_file edit (co_level c + 1) (ou_number out) (word_of_nat (ou_file_size out)) (ou_smallest out) (ou_largest out))
           (ldb_compaction_add_input_deletions c (co_edit c)) (cs_outputs state))"

text \<open>The bytes read and written, which the statistics of the level below count.\<close>

definition compaction_bytes :: "'f ldb_cstate \<Rightarrow> nat \<times> nat" where
  "compaction_bytes state =
     (total_file_size (co_inputs0 (cs_compaction state)) + total_file_size (co_inputs1 (cs_compaction state)),
      foldl (\<lambda>acc out. acc + ou_file_size out) 0 (cs_outputs state))"

definition ldb_do_compaction_work :: "ldb_dbopt \<Rightarrow> string \<Rightarrow> ldb_comparator \<Rightarrow> 'f compaction_env \<Rightarrow> 'i ldb_itertbl \<Rightarrow> 'i \<Rightarrow> 'w ldb_versions \<Rightarrow>
    u64 option \<Rightarrow> 'f ldb_cstate \<Rightarrow> (status \<times> 'f ldb_cstate) option" where
  "ldb_do_compaction_work options dbname uc env T input vset oldest state =
     (let filled = ldb_versions_files vset (co_level (cs_compaction state)) > 0;
          state = state\<lparr>cs_smallest_snapshot := (case oldest of None \<Rightarrow> vs_last_sequence vset | Some s \<Rightarrow> s)\<rparr>
      in if \<not> filled \<or> cs_builder state \<noteq> None then None
         else
           Option.bind (tb_first T input) (\<lambda>input.
           Option.bind (compaction_loop options dbname uc env T 0 input \<lparr>wk_state = state, wk_user_key = None, wk_last_sequence = MAX_SEQUENCE\<rparr>)
             (\<lambda>(rc, input, wk).
           Option.bind (if rc = OK \<and> cs_builder (wk_state wk) \<noteq> None
                        then ldb_finish_compaction_output_file env (wk_state wk) (tb_status T input) else Some (rc, wk_state wk))
             (\<lambda>(rc, state). Some (if rc = OK then tb_status T input else rc, state)))))"


section \<open>Keys that no deeper level may hold\<close>

definition base_key :: "ldb_comparator \<Rightarrow> ldb_version \<Rightarrow> nat \<Rightarrow> bytes \<Rightarrow> bool" where
  "base_key uc ver level u \<longleftrightarrow> (\<forall>lvl \<in> {level + 2 ..< LDB_NUM_LEVELS}. \<forall>f \<in> set (vr_files ver ! lvl). \<not> in_range uc u f)"

text \<open>The files before the pointers end before the key.\<close>

definition ptrs_ok :: "ldb_comparator \<Rightarrow> ldb_version \<Rightarrow> nat list \<Rightarrow> bytes \<Rightarrow> bool" where
  "ptrs_ok uc ver ptrs u \<longleftrightarrow> length ptrs = LDB_NUM_LEVELS \<and>
     (\<forall>lvl < LDB_NUM_LEVELS. \<forall>f \<in> set (take (ptrs ! lvl) (vr_files ver ! lvl)). ldb_compare uc (ukey (fm_largest f)) u < 0)"

context user_comparator
begin

lemma advance_ptr_ok:
  assumes "chain uc fs" "advance_ptr uc u fs = (hit, n)"
  shows "hit \<longleftrightarrow> (\<exists>f \<in> set fs. in_range uc u f)" "\<forall>f \<in> set (take n fs). ldb_compare uc (ukey (fm_largest f)) u < 0"
proof -
  have "(hit \<longleftrightarrow> (\<exists>f \<in> set fs. in_range uc u f)) \<and> (\<forall>f \<in> set (take n fs). ldb_compare uc (ukey (fm_largest f)) u < 0)"
    using assms
  proof (induction fs arbitrary: hit n)
    case (Cons f fs)
    have ch: "chain uc fs" using Cons.prems(1) by (simp add: chain_def)
    show ?case
    proof (cases "ldb_compare uc u (ukey (fm_largest f)) \<le> 0")
      case True
      have later: "in_range uc u f" if g: "g \<in> set fs" "in_range uc u g" for g
      proof -
        have "follows uc f g" using Cons.prems(1) g(1) by (simp add: chain_def)
        then have "ldb_compare uc (ukey (fm_largest f)) (ukey (fm_smallest g)) \<le> 0" by (auto simp: follows_def ikc_less_iff)
        moreover have "ldb_compare uc (ukey (fm_smallest g)) u \<le> 0" using g(2) cmp_ge_iff [of u "ukey (fm_smallest g)"] by (auto simp: in_range_def)
        ultimately have "ldb_compare uc (ukey (fm_largest f)) u \<le> 0" using cmp_trans by blast
        moreover have "ldb_compare uc (ukey (fm_smallest f)) (ukey (fm_largest f)) \<le> 0" using Cons.prems(1) by (auto simp: chain_def ikc_le_iff)
        ultimately have "ldb_compare uc (ukey (fm_smallest f)) u \<le> 0" using cmp_trans by blast
        then show ?thesis using True cmp_ge_iff [of u "ukey (fm_smallest f)"] by (auto simp: in_range_def)
      qed
      have "hit \<longleftrightarrow> in_range uc u f" "n = 0" using Cons.prems(2) True by (auto simp: in_range_def)
      then show ?thesis using later by auto
    next
      case False
      obtain h m where m: "advance_ptr uc u fs = (h, m)" by fastforce
      then have "hit = h" "n = Suc m" using Cons.prems(2) False by auto
      moreover have "ldb_compare uc (ukey (fm_largest f)) u < 0" using False cmp_gt_iff [of u "ukey (fm_largest f)"] by simp
      moreover have "\<not> in_range uc u f" using False by (simp add: in_range_def)
      ultimately show ?thesis using Cons.IH [OF ch m] by auto
    qed
  qed simp
  then show "hit \<longleftrightarrow> (\<exists>f \<in> set fs. in_range uc u f)" "\<forall>f \<in> set (take n fs). ldb_compare uc (ukey (fm_largest f)) u < 0" by blast+
qed

lemma base_levels_ok:
  assumes "ptrs_ok uc ver ptrs u" "\<forall>lvl \<in> set lvls. lvl < LDB_NUM_LEVELS \<and> chain uc (vr_files ver ! lvl)"
    and "base_levels uc ver u lvls ptrs = (base, ptrs')"
  shows "(base \<longleftrightarrow> (\<forall>lvl \<in> set lvls. \<forall>f \<in> set (vr_files ver ! lvl). \<not> in_range uc u f)) \<and> ptrs_ok uc ver ptrs' u"
  using assms
proof (induction lvls arbitrary: ptrs)
  case (Cons lvl lvls)
  let ?fs = "vr_files ver ! lvl" and ?p = "ptrs ! lvl"
  obtain hit n where h: "advance_ptr uc u (drop ?p ?fs) = (hit, n)" by fastforce
  have lvl: "lvl < LDB_NUM_LEVELS" "chain uc ?fs" using Cons.prems(2) by auto
  have split: "chain uc (take ?p ?fs @ drop ?p ?fs)" using lvl(2) by simp
  then have d: "chain uc (drop ?p ?fs)" unfolding chain_append by blast
  have out: "\<not> in_range uc u f" if "f \<in> set (take ?p ?fs)" for f
    using Cons.prems(1) lvl(1) that cmp_gt_iff [of u "ukey (fm_largest f)"] by (fastforce simp: ptrs_ok_def in_range_def)
  have hit: "hit \<longleftrightarrow> (\<exists>f \<in> set ?fs. in_range uc u f)"
    using advance_ptr_ok(1) [OF d h] out by (metis Un_iff append_take_drop_id set_append)
  have "take (?p + n) ?fs = take ?p ?fs @ take n (drop ?p ?fs)" by (simp add: take_add)
  then have ptrs: "ptrs_ok uc ver (ptrs[lvl := ?p + n]) u"
    using Cons.prems(1) advance_ptr_ok(2) [OF d h] lvl(1) by (auto simp: ptrs_ok_def nth_list_update)
  show ?case
  proof (cases hit)
    case True
    then show ?thesis using Cons.prems(3) h ptrs hit by auto
  next
    case False
    then show ?thesis using Cons.IH [OF ptrs] Cons.prems(2,3) h hit by auto
  qed
qed simp

lemma ptrs_ok_mono:
  assumes "ptrs_ok uc ver ptrs u" "ldb_compare uc u u' \<le> 0"
  shows "ptrs_ok uc ver ptrs u'"
  using assms cmp_less_le_trans unfolding ptrs_ok_def by blast

lemma is_base_level_ok:
  assumes "co_input_version c = Some ver" "ptrs_ok uc ver (co_level_ptrs c) u" "\<forall>lvl < LDB_NUM_LEVELS. 0 < lvl \<longrightarrow> chain uc (vr_files ver ! lvl)"
  shows "\<exists>ptrs'. ldb_compaction_is_base_level_for_key uc c u = Some (base_key uc ver (co_level c) u, c\<lparr>co_level_ptrs := ptrs'\<rparr>) \<and> ptrs_ok uc ver ptrs' u"
proof -
  obtain base ptrs' where b: "base_levels uc ver u [co_level c + 2 ..< LDB_NUM_LEVELS] (co_level_ptrs c) = (base, ptrs')" by fastforce
  have "(base \<longleftrightarrow> (\<forall>lvl \<in> set [co_level c + 2 ..< LDB_NUM_LEVELS]. \<forall>f \<in> set (vr_files ver ! lvl). \<not> in_range uc u f)) \<and> ptrs_ok uc ver ptrs' u"
    by (rule base_levels_ok [OF assms(2) _ b]) (use assms(3) in auto)
  then show ?thesis using assms(1) b by (auto simp: ldb_compaction_is_base_level_for_key_def base_key_def)
qed

end

section \<open>What is kept\<close>

definition fresh_key :: "ldb_comparator \<Rightarrow> bytes option \<Rightarrow> bytes \<Rightarrow> bool" where
  "fresh_key uc uk u \<longleftrightarrow> (case uk of None \<Rightarrow> True | Some u' \<Rightarrow> ldb_compare uc u u' \<noteq> 0)"

definition dropped :: "ldb_comparator \<Rightarrow> u64 \<Rightarrow> (bytes \<Rightarrow> bool) \<Rightarrow> bytes option \<Rightarrow> u64 \<Rightarrow> bytes \<Rightarrow> bool" where
  "dropped uc smallest base uk prev key \<longleftrightarrow>
     (if fresh_key uc uk (ukey key) then MAX_SEQUENCE else prev) \<le> smallest \<or>
     key_type key = TYPE_DELETION \<and> key_seq key \<le> smallest \<and> base (ukey key)"

primrec keep_entries :: "ldb_comparator \<Rightarrow> u64 \<Rightarrow> (bytes \<Rightarrow> bool) \<Rightarrow> bytes option \<Rightarrow> u64 \<Rightarrow> (bytes \<times> bytes) list \<Rightarrow> (bytes \<times> bytes) list" where
  "keep_entries uc smallest base uk prev [] = []"
| "keep_entries uc smallest base uk prev (e # es) =
     (if dropped uc smallest base uk prev (fst e) then [] else [e]) @
     keep_entries uc smallest base (Some (ukey (fst e))) (key_seq (fst e)) es"

lemma keep_entries_subset: "set (keep_entries uc smallest base uk prev es) \<subseteq> set es"
  by (induction es arbitrary: uk prev) auto

lemma keep_entries_sorted: "sorted_wrt P es \<Longrightarrow> sorted_wrt P (keep_entries uc smallest base uk prev es)"
proof (induction es arbitrary: uk prev)
  case (Cons e es)
  then show ?case using keep_entries_subset [of uc smallest base "Some (ukey (fst e))" "key_seq (fst e)" es] by auto
qed simp

text \<open>What a reader of a key at a snapshot is told: by the newest entry that it sees.\<close>

definition told :: "ldb_comparator \<Rightarrow> bytes \<Rightarrow> u64 \<Rightarrow> (bytes \<times> bytes) set \<Rightarrow> bytes option \<Rightarrow> bool" where
  "told uc k s E v \<longleftrightarrow> (\<forall>e \<in> E. \<not> visible uc k s e) \<and> v = None \<or>
     (\<exists>e. newest_in uc k s E e \<and> v = (if key_type (fst e) = TYPE_VALUE then Some (snd e) else None))"

text \<open>The entries of a user key have different numbers.\<close>

definition seqs_fall :: "ldb_comparator \<Rightarrow> (bytes \<times> bytes) list \<Rightarrow> bool" where
  "seqs_fall uc es \<longleftrightarrow> sorted_wrt (\<lambda>x y. ldb_compare uc (ukey (fst x)) (ukey (fst y)) = 0 \<longrightarrow> key_seq (fst y) < key_seq (fst x)) es"

lemma keep_entries_append:
  "keep_entries uc smallest base uk prev (xs @ ys) =
   keep_entries uc smallest base uk prev xs @
   (if xs = [] then keep_entries uc smallest base uk prev ys
    else keep_entries uc smallest base (Some (ukey (fst (last xs)))) (key_seq (fst (last xs))) ys)"
  by (induction xs arbitrary: uk prev) auto

context user_comparator
begin

lemma keep_hides:
  assumes "run_ok uc es" "prev \<le> smallest" "\<forall>e \<in> set es. ldb_compare uc u (ukey (fst e)) \<le> 0"
    and "\<forall>e \<in> set es. ldb_compare uc (ukey (fst e)) u = 0 \<longrightarrow> key_seq (fst e) \<le> smallest"
    and "e \<in> set (keep_entries uc smallest base (Some u) prev es)"
  shows "ldb_compare uc (ukey (fst e)) u \<noteq> 0"
  using assms
proof (induction es arbitrary: u prev)
  case (Cons h es)
  have run: "run_ok uc es" "\<forall>g \<in> set es. ldb_ikc_compare uc (fst h) (fst g) < 0" using Cons.prems(1) by (auto simp: run_ok_def)
  have le: "\<forall>g \<in> set es. ldb_compare uc (ukey (fst h)) (ukey (fst g)) \<le> 0" using run(2) by (auto simp: ikc_less_iff)
  show ?case
  proof (cases "ldb_compare uc (ukey (fst h)) u = 0")
    case True
    have drp: "dropped uc smallest base (Some u) prev (fst h)" using True Cons.prems(2) by (simp add: dropped_def fresh_key_def)
    have "\<forall>g \<in> set es. ldb_compare uc (ukey (fst g)) (ukey (fst h)) = 0 \<longrightarrow> key_seq (fst g) \<le> smallest"
      using Cons.prems(4) True cmp_eq_cong(2) cmp_eq_sym by (metis list.set_intros(2))
    moreover have "key_seq (fst h) \<le> smallest" using Cons.prems(4) True by simp
    moreover have "e \<in> set (keep_entries uc smallest base (Some (ukey (fst h))) (key_seq (fst h)) es)"
      using Cons.prems(5) drp by simp
    ultimately have "ldb_compare uc (ukey (fst e)) (ukey (fst h)) \<noteq> 0"
      using Cons.IH [OF run(1), of "key_seq (fst h)" "ukey (fst h)"] le by blast
    then show ?thesis using True cmp_eq_cong(2) cmp_eq_sym by metis
  next
    case False
    then have less: "ldb_compare uc u (ukey (fst h)) < 0" using Cons.prems(3) cmp_eq_sym [of u "ukey (fst h)"] by fastforce
    have "e = h \<or> e \<in> set es"
      using Cons.prems(5) keep_entries_subset [of uc smallest base "Some u" prev "h # es"] by auto
    then have "ldb_compare uc u (ukey (fst e)) < 0" using less le cmp_less_le_trans by blast
    then show ?thesis using cmp_eq_sym [of u "ukey (fst e)"] by auto
  qed
qed simp

lemma told_newest:
  assumes "newest_in uc k s E e" "\<And>e'. e' \<in> E \<Longrightarrow> visible uc k s e' \<Longrightarrow> key_seq (fst e') = key_seq (fst e) \<Longrightarrow> e' = e"
  shows "told uc k s E v \<longleftrightarrow> v = (if key_type (fst e) = TYPE_VALUE then Some (snd e) else None)"
proof -
  have one: "e' = e" if "newest_in uc k s E e'" for e'
  proof (rule assms(2))
    show "e' \<in> E" "visible uc k s e'" using that by (simp_all add: newest_in_def)
    show "key_seq (fst e') = key_seq (fst e)" using that assms(1) by (intro order.antisym) (auto simp: newest_in_def)
  qed
  have "\<not> (\<forall>e \<in> E. \<not> visible uc k s e)" using assms(1) unfolding newest_in_def by blast
  then show ?thesis using one assms(1) unfolding told_def by metis
qed

text \<open>No reader at the snapshot or a newer one can tell what is kept from what there was.\<close>

lemma keep_told:
  assumes "run_ok uc es" "seqs_fall uc es" "newer uc (set es) B" "smallest < MAX_SEQUENCE" "smallest \<le> s"
    and "\<And>e b. e \<in> set es \<Longrightarrow> base (ukey (fst e)) \<Longrightarrow> b \<in> B \<Longrightarrow> ldb_compare uc (ukey (fst b)) (ukey (fst e)) \<noteq> 0"
  shows "told uc k s (set (keep_entries uc smallest base None MAX_SEQUENCE es) \<union> B) v \<longleftrightarrow> told uc k s (set es \<union> B) v"
proof -
  let ?K = "keep_entries uc smallest base None MAX_SEQUENCE es"
  have sub: "set ?K \<subseteq> set es" by (rule keep_entries_subset)
  show ?thesis
  proof (cases "\<exists>e \<in> set es. visible uc k s e")
    case False
    then have no: "\<forall>e \<in> set es. \<not> visible uc k s e" "\<forall>e \<in> set ?K. \<not> visible uc k s e" using sub by blast+
    show ?thesis
      unfolding told_def newest_in_union [OF no(1)] newest_in_union [OF no(2)] using no by blast
  next
    case True
    then obtain e where e: "find (visible uc k s) es = Some e" by (cases "find (visible uc k s) es") (auto simp: find_None_iff)
    obtain xs ys where es: "es = xs @ e # ys" "\<forall>x \<in> set xs. \<not> visible uc k s x" "visible uc k s e" using find_split [OF e] by blast
    have key: "ldb_compare uc (ukey (fst e)) k = 0" "key_seq (fst e) \<le> s" using es(3) by (auto simp: visible_def)
    have same: "ldb_compare uc (ukey (fst e)) (ukey (fst x)) = 0" if "visible uc k s x" for x
      using that key(1) cmp_eq_cong(2) cmp_eq_sym by (metis visible_def)
    have ys: "key_seq (fst x) < key_seq (fst e)" if "x \<in> set ys" "visible uc k s x" for x
      using assms(2) es(1) same [OF that(2)] that(1) by (auto simp: seqs_fall_def sorted_wrt_append)
    have B: "key_seq (fst b) < key_seq (fst e)" if "b \<in> B" "visible uc k s b" for b
      using assms(3) es(1) same [OF that(2)] that(1) by (auto simp: newer_def)
    have new: "newest_in uc k s E e" and only: "x = e" if "E \<subseteq> set es \<union> B" "e \<in> E" "x \<in> E" "visible uc k s x" "key_seq (fst x) = key_seq (fst e)" for E x
    proof -
      have "y = e \<or> key_seq (fst y) < key_seq (fst e)" if "y \<in> E" "visible uc k s y" for y
      proof -
        have "y \<in> set xs \<or> y = e \<or> y \<in> set ys \<or> y \<in> B" using subsetD [OF \<open>E \<subseteq> set es \<union> B\<close> that(1)] unfolding es(1) by (simp only: Un_iff set_append set_simps insert_iff) blast
        then show ?thesis using es(2) ys B that(2) by blast
      qed
      then show "newest_in uc k s E e" "x = e" using that es(3) by (fastforce simp: newest_in_def)+
    qed
    define uk where "uk = (if xs = [] then None else Some (ukey (fst (last xs))))"
    define prev where "prev = (if xs = [] then MAX_SEQUENCE else key_seq (fst (last xs)))"
    have K: "?K = keep_entries uc smallest base None MAX_SEQUENCE xs @ keep_entries uc smallest base uk prev (e # ys)"
      unfolding es(1) uk_def prev_def by (simp add: keep_entries_append)
    have "\<not> (if fresh_key uc uk (ukey (fst e)) then MAX_SEQUENCE else prev) \<le> smallest"
    proof (cases "fresh_key uc uk (ukey (fst e))")
      case False
      then have "xs \<noteq> []" "ldb_compare uc (ukey (fst e)) (ukey (fst (last xs))) = 0" by (auto simp: fresh_key_def uk_def split: if_splits)
      have "ldb_compare uc (ukey (fst (last xs))) k = 0"
        using \<open>ldb_compare uc (ukey (fst e)) (ukey (fst (last xs))) = 0\<close> key(1)
          cmp_eq_cong(2) [of "ukey (fst e)" "ukey (fst (last xs))" k] by simp
      moreover have "last xs \<in> set xs" using \<open>xs \<noteq> []\<close> by simp
      ultimately have "\<not> key_seq (fst (last xs)) \<le> s" using es(2) by (auto simp: visible_def)
      then show ?thesis using False \<open>xs \<noteq> []\<close> assms(5) by (simp add: prev_def)
    qed (use assms(4) in simp)
    then have drp: "dropped uc smallest base uk prev (fst e) \<longleftrightarrow>
        key_type (fst e) = TYPE_DELETION \<and> key_seq (fst e) \<le> smallest \<and> base (ukey (fst e))" by (simp add: dropped_def)
    have all: "told uc k s (set es \<union> B) v \<longleftrightarrow> v = (if key_type (fst e) = TYPE_VALUE then Some (snd e) else None)"
      by (rule told_newest [OF new [of _ e]]) (use es(1,3) only in auto)
    show ?thesis
    proof (cases "dropped uc smallest base uk prev (fst e)")
      case False
      then have "e \<in> set ?K \<union> B" using K by simp
      then have "told uc k s (set ?K \<union> B) v \<longleftrightarrow> v = (if key_type (fst e) = TYPE_VALUE then Some (snd e) else None)"
        by (intro told_newest [OF new [of _ e]]) (use es(3) only sub in auto)
      then show ?thesis using all by simp
    next
      case True
      have run: "run_ok uc ys" "\<forall>g \<in> set ys. ldb_ikc_compare uc (fst e) (fst g) < 0" using assms(1) es(1) by (auto simp: run_ok_def sorted_wrt_append)
      have "\<not> visible uc k s x" if "x \<in> set ?K" for x
      proof
        assume v: "visible uc k s x"
        then have "x \<in> set (keep_entries uc smallest base (Some (ukey (fst e))) (key_seq (fst e)) ys)"
          using that True K es(2) keep_entries_subset [of uc smallest base None MAX_SEQUENCE xs] by auto
        moreover have "\<forall>g \<in> set ys. ldb_compare uc (ukey (fst g)) (ukey (fst e)) = 0 \<longrightarrow> key_seq (fst g) \<le> smallest"
        proof (intro ballI impI)
          fix g assume "g \<in> set ys" "ldb_compare uc (ukey (fst g)) (ukey (fst e)) = 0"
          then have "key_seq (fst g) < key_seq (fst e)"
            using assms(2) es(1) cmp_eq_sym [of "ukey (fst e)" "ukey (fst g)"] by (auto simp: seqs_fall_def sorted_wrt_append)
          then show "key_seq (fst g) \<le> smallest" using True drp order.trans [OF order.strict_implies_order] by blast
        qed
        moreover have "\<forall>g \<in> set ys. ldb_compare uc (ukey (fst e)) (ukey (fst g)) \<le> 0" using run(2) by (auto simp: ikc_less_iff)
        ultimately have "ldb_compare uc (ukey (fst x)) (ukey (fst e)) \<noteq> 0"
          using keep_hides [OF run(1), of "key_seq (fst e)" smallest "ukey (fst e)" x base] True drp by blast
        then show False using same [OF v] cmp_eq_sym [of "ukey (fst e)" "ukey (fst x)"] by simp
      qed
      moreover have "\<not> visible uc k s b" if "b \<in> B" for b
        using assms(6) [of e b] es(1) True drp that same [of b] cmp_eq_sym [of "ukey (fst e)" "ukey (fst b)"] by auto
      ultimately have "told uc k s (set ?K \<union> B) v \<longleftrightarrow> v = None" by (auto simp: told_def newest_in_def)
      then show ?thesis using all True drp by simp
    qed
  qed
qed

text \<open>Newer entries elsewhere do not matter.\<close>

lemma told_above:
  assumes "newer uc A X" "newer uc A Y" "told uc k s X v \<longleftrightarrow> told uc k s Y v"
  shows "told uc k s (A \<union> X) v \<longleftrightarrow> told uc k s (A \<union> Y) v"
proof (cases "\<exists>a \<in> A. visible uc k s a")
  case False
  then have no: "\<forall>a \<in> A. \<not> visible uc k s a" by blast
  show ?thesis using assms(3) by (simp add: told_def newest_in_union [OF no] ball_Un no)
next
  case True
  have same: "ldb_compare uc (ukey (fst a)) (ukey (fst x)) = 0" if "visible uc k s a" "visible uc k s x" for a x
    using that cmp_eq_cong(2) cmp_eq_sym by (metis visible_def)
  have "newest_in uc k s (A \<union> Z) e \<longleftrightarrow> newest_in uc k s A e" if "newer uc A Z" for Z e
  proof -
    have less: "key_seq (fst z) < key_seq (fst a)" if "a \<in> A" "visible uc k s a" "z \<in> Z" "visible uc k s z" for a z
      using \<open>newer uc A Z\<close> same that by (auto simp: newer_def)
    show ?thesis
    proof
      assume n: "newest_in uc k s (A \<union> Z) e"
      then have "e \<notin> Z \<or> e \<in> A" using True less by (fastforce simp: newest_in_def)
      then show "newest_in uc k s A e" using n by (auto simp: newest_in_def)
    next
      assume "newest_in uc k s A e"
      then show "newest_in uc k s (A \<union> Z) e" using less order.strict_implies_order unfolding newest_in_def by blast
    qed
  qed
  then show ?thesis using assms(1,2) True by (auto simp: told_def)
qed

end

section \<open>The cache of tables verifies an output\<close>

definition table_usable :: "ldb_table \<Rightarrow> bool" where
  "table_usable table \<longleftrightarrow> ldb_twoiter_status biter_table biter_table (ldb_tableiter_create no_cache table ldb_readopt_default None) = OK"

text \<open>A cache of tables none of which failed.\<close>

definition tables_usable :: "ldb_dbopt \<Rightarrow> string \<Rightarrow> ldb_tables \<Rightarrow> bool" where
  "tables_usable options dbname tables \<longleftrightarrow> tc_options tables = options \<and> tc_dbname tables = dbname \<and> lru_fit (tc_lru tables) \<and>
     (\<forall>(k, e) \<in> lru_held (tc_lru tables). table_usable (te_table e))"

lemma created_usable: "tables_usable options dbname (ldb_tables_create dbname options entries)"
  by (simp add: tables_usable_def ldb_tables_create_def created_fit)

context table_order
begin

lemma opened_usable:
  assumes "table_file options file content es ps ks m x" "op_comparator options = c"
  shows "table_usable (opened options file new_id ps ks m)"
proof -
  have "tb_status biter_table (ldb_blockiter_create (tt_index_block (opened options file new_id ps ks m)) c) = OK"
    using biter_status [OF index_at [OF assms]] by (simp add: opened_def)
  then show ?thesis
    using assms(2) by (simp add: table_usable_def ldb_tableiter_create_def ldb_twoiter_init_def ldb_twoiter_status_def
        ldb_wrapiter_init_def ldb_wrapiter_update_def ldb_wrapiter_status_def opened_def Let_def)
qed

lemma verify_ok:
  assumes "table_file options rf content es ps ks m x" "op_comparator options = c" "name_fits options"
    and "tables_usable options dbname tables" "ldb_table_filename LDB_PATH_MAX dbname number = Some fname"
    and "ce_open env fs fname = Inr rf"
  shows "\<exists>tables'. verify_output env fs tables number (length content) = Some (OK, tables') \<and> tables_usable options dbname tables'"
proof -
  let ?key = "ldb_fixed64_write number" and ?sz = "word_of_nat (length content) :: u64"
  note t = assms(4) [unfolded tables_usable_def]
  obtain hs where inv: "run_inv (tc_lru tables, hs, cache_map (tc_lru tables))" and room: "length hs < 2 ^ 31" using t by (auto simp: lru_fit_def)
  have "\<exists>h tables' e m'. find_table (ce_open env fs) tables number ?sz (ce_id env number) = Some (Inr h, tables') \<and>
     run_inv (tc_lru tables', (h, ?key, e) # hs, m') \<and> table_usable (te_table e) \<and> tc_options tables' = options \<and>
     tc_dbname tables' = dbname \<and> (\<forall>k e. m' k = Some e \<longrightarrow> table_usable (te_table e))"
  proof -
    have held: "\<forall>k e. cache_map (tc_lru tables) k = Some e \<longrightarrow> table_usable (te_table e)"
      using t by (auto simp: lru_held_def)
    obtain r lru where l: "ldb_lru_lookup (tc_lru tables) ?key = (r, lru)" by fastforce
    note look = lookup_inv [OF inv l order.strict_implies_order [OF room]]
    show ?thesis
    proof (cases r)
      case (Some h)
      then obtain e where e: "cache_map (tc_lru tables) ?key = Some e" "run_inv (lru, (h, ?key, e) # hs, cache_map (tc_lru tables))"
        using look by auto
      then show ?thesis using held l Some t
        by (intro exI [of _ h] exI [of _ "tables\<lparr>tc_lru := lru\<rparr>"] exI [of _ e] exI [of _ "cache_map (tc_lru tables)"])
          (simp add: find_table_def)
    next
      case None
      let ?table = "opened options rf (ce_id env number) ps ks m"
      let ?e = "\<lparr>te_file = rf, te_table = ?table\<rparr>"
      obtain h lru' where i: "ldb_lru_insert lru ?key ?e 1 = (h, lru')" by fastforce
      have inv': "run_inv (lru', (h, ?key, ?e) # hs, (cache_map (tc_lru tables))(?key \<mapsto> ?e))"
        using insert_inv [OF _ i] look None by simp
      have size: "unat ?sz = length content" using table_fileD(3) [OF assms(1)] by (simp add: unsigned_of_nat take_bit_nat_eq_self)
      have "find_table (ce_open env fs) tables number ?sz (ce_id env number) = Some (Inr h, tables\<lparr>tc_lru := lru'\<rparr>)"
        using l None i t assms(5,6) size table_opened [OF assms(1,3)] by (simp add: find_table_def open_table_file_def)
      then show ?thesis using inv' held t opened_usable [OF assms(1,2)]
        by (intro exI [of _ h] exI [of _ "tables\<lparr>tc_lru := lru'\<rparr>"] exI [of _ ?e] exI [of _ "(cache_map (tc_lru tables))(?key \<mapsto> ?e)"]) simp
    qed
  qed
  then obtain h tables' e m' where f: "find_table (ce_open env fs) tables number ?sz (ce_id env number) = Some (Inr h, tables')"
    "run_inv (tc_lru tables', (h, ?key, e) # hs, m')" "table_usable (te_table e)" "tc_options tables' = options" "tc_dbname tables' = dbname"
    "\<forall>k e. m' k = Some e \<longrightarrow> table_usable (te_table e)" by blast
  have val: "ldb_lru_value (tc_lru tables') h = Some e" using f(2) by (simp add: run_inv_def)
  have rel: "run_inv (ldb_lru_release (tc_lru tables') h, hs, m')" by (rule release_first [OF f(2)])
  have "verify_output env fs tables number (length content) = Some (OK, tables'\<lparr>tc_lru := ldb_lru_release (tc_lru tables') h\<rparr>)"
    using f(1,3) val by (simp add: verify_output_def ldb_tables_iterate_def table_usable_def)
  moreover have "tables_usable options dbname (tables'\<lparr>tc_lru := ldb_lru_release (tc_lru tables') h\<rparr>)"
    using run_inv_fit [OF rel room] f(4-6) by (auto simp: tables_usable_def)
  ultimately show ?thesis by blast
qed

end

section \<open>Outputs\<close>

text \<open>An output, with its file, for a list of entries.\<close>

definition output_ok :: "ldb_dbopt \<Rightarrow> ('f \<Rightarrow> bytes) \<Rightarrow> ldb_output \<times> u64 \<times> 'f \<Rightarrow> (bytes \<times> bytes) list \<Rightarrow> bool" where
  "output_ok options content x es \<longleftrightarrow>
     (case x of (out, number, f) \<Rightarrow>
        es \<noteq> [] \<and> ou_number out = number \<and> ou_file_size out = length (content f) \<and>
        ou_smallest out = fst (hd es) \<and> ou_largest out = fst (last es) \<and>
        (\<exists>ps ks m x. table_layout options (content f) ps ks m x \<and> concat (map fst ps) = es))"

definition outputs_ok :: "ldb_dbopt \<Rightarrow> ('f \<Rightarrow> bytes) \<Rightarrow> ldb_output list \<Rightarrow> (u64 \<times> 'f) list \<Rightarrow> (bytes \<times> bytes) list list \<Rightarrow> bool" where
  "outputs_ok options content outs fs parts \<longleftrightarrow>
     length outs = length fs \<and> list_all2 (output_ok options content) (zip outs fs) parts"

lemma outputs_ok_snoc:
  "outputs_ok options content outs fs parts \<Longrightarrow> output_ok options content (out, f) part \<Longrightarrow>
   outputs_ok options content (outs @ [out]) (fs @ [f]) (parts @ [part])"
  by (simp add: outputs_ok_def list_all2_appendI)

text \<open>
  The files that were closed and the file that is being written hold what was kept so far; the numbers
  are the ones that were drawn.
\<close>

definition writing :: "ldb_dbopt \<Rightarrow> ('f \<Rightarrow> bytes) \<Rightarrow> 'f compaction_env \<Rightarrow> 'f ldb_cstate \<Rightarrow> (bytes \<times> bytes) list list \<Rightarrow>
    (bytes \<times> bytes) list \<Rightarrow> bool" where
  "writing options content env st parts cur \<longleftrightarrow>
     tables_usable options (tc_dbname (cs_tables st)) (cs_tables st) \<and>
     map ou_number (cs_outputs st) = map (ce_number env) [0..<length (cs_outputs st)] \<and>
     (case cs_builder st of
        None \<Rightarrow> cur = [] \<and> outputs_ok options content (cs_outputs st) (cs_files st) parts
      | Some tb \<Rightarrow> cur \<noteq> [] \<and>
          (\<exists>outs out f0. cs_outputs st = outs @ [out] \<and> outputs_ok options content outs (cs_files st) parts \<and> content f0 = [] \<and>
             tablegen_add_all (ce_ops env) (ldb_tablegen_create options f0) cur = Some tb \<and>
             ou_smallest out = fst (hd cur) \<and> ou_largest out = fst (last cur)))"

text \<open>An environment in which nothing fails, for a database of this name.\<close>

definition env_ok :: "ldb_dbopt \<Rightarrow> string \<Rightarrow> ('f \<Rightarrow> bytes) \<Rightarrow> 'f compaction_env \<Rightarrow> bool" where
  "env_ok options dbname content env \<longleftrightarrow>
     reliable_file (ce_ops env) content \<and> (\<forall>n. \<not> ce_shutdown env n) \<and>
     (\<forall>f. \<exists>f'. ce_sync env f = (OK, f') \<and> content f' = content f) \<and>
     (\<forall>f. \<exists>f'. ce_close env f = (OK, f') \<and> content f' = content f) \<and>
     (\<forall>n. ce_number env n \<noteq> 0 \<and>
        (\<exists>fname. ldb_table_filename LDB_PATH_MAX dbname (ce_number env n) = Some fname \<and>
           (\<exists>f. ce_create env fname = Inr f \<and> content f = []) \<and>
           (\<forall>fs f. \<exists>rf. ce_open env (fs @ [(ce_number env n, f)]) fname = Inr rf \<and> file_holds rf (content f))))"

text \<open>Tables of entries that fit into memory fit into a file; without a filter they always do.\<close>

definition tables_fit :: "ldb_dbopt \<Rightarrow> bool" where
  "tables_fit options \<longleftrightarrow> (\<forall>content ps ks m x. table_layout options content ps ks m x \<longrightarrow>
     entries_size (concat (map fst ps)) + 8 < 2 ^ 30 \<longrightarrow> length content < 2 ^ 64)"

lemma no_filter_fits: "op_filter_policy options = None \<Longrightarrow> tables_fit options"
  using finished_size by (fastforce simp: tables_fit_def)

lemma update_top_snoc [simp]:
  "cs_outputs st = outs @ [out] \<Longrightarrow> update_top g st = st\<lparr>cs_outputs := outs @ [g out]\<rparr>"
  by (simp add: update_top_def)

context table_order
begin

lemma created_entries:
  assumes "reliable_file ops content" "op_comparator options = c" "content file = []"
    and "sorted_wrt (\<lambda>x y. ldb_compare c (fst x) (fst y) < 0) es" "\<forall>e \<in> set es. table_key c (fst e)" "entries_size es + 8 < 2 ^ 30"
    and "tablegen_add_all ops (ldb_tablegen_create options file) es = Some tb"
  shows "tg_num_entries tb = length es"
proof -
  have "tablegen_holds options content (ldb_tablegen_create options file) [] [] []"
    using tablegen_init_holds [where content = content, OF assms(3)] by (simp add: ldb_tablegen_create_def)
  moreover have "tg_num_entries (ldb_tablegen_create options file) = 0" by (simp add: ldb_tablegen_create_def ldb_tablegen_init_def)
  ultimately obtain tb' where "tablegen_add_all ops (ldb_tablegen_create options file) es = Some tb'" "tg_num_entries tb' = length es"
    using reliable_file.add_all_holds [OF assms(1) table_order_axioms assms(2) _ _ assms(4-6), of "ldb_tablegen_create options file"] by blast
  then show ?thesis using assms(7) by simp
qed

lemma finish_output_ok:
  assumes env: "env_ok options dbname content env" and opts: "op_comparator options = c" "name_fits options" "tables_fit options"
      "0 < op_block_restart_interval options"
    and st: "writing options content env st parts cur" "cs_builder st \<noteq> None" "tc_dbname (cs_tables st) = dbname"
    and cur: "sorted_wrt (\<lambda>x y. ldb_compare c (fst x) (fst y) < 0) cur" "\<forall>e \<in> set cur. table_key c (fst e)" "entries_size cur + 8 < 2 ^ 30"
  shows "\<exists>st'. ldb_finish_compaction_output_file env st OK = Some (OK, st') \<and> writing options content env st' (parts @ [cur]) [] \<and>
    cs_builder st' = None \<and> tc_dbname (cs_tables st') = dbname \<and> cs_compaction st' = cs_compaction st \<and>
    cs_smallest_snapshot st' = cs_smallest_snapshot st"
proof -
  have rel: "reliable_file (ce_ops env) content" using env by (simp add: env_ok_def)
  obtain tb where tb: "cs_builder st = Some tb" using st(2) by blast
  obtain outs out f0 where o: "cs_outputs st = outs @ [out]" "outputs_ok options content outs (cs_files st) parts" "content f0 = []"
    "tablegen_add_all (ce_ops env) (ldb_tablegen_create options f0) cur = Some tb" "ou_smallest out = fst (hd cur)"
    "ou_largest out = fst (last cur)" "cur \<noteq> []"
    using st(1) tb by (auto simp: writing_def)
  obtain tb' ps ks m x where t: "ldb_tablegen_finish (ce_ops env) tb = Some (OK, tb')" "concat (map fst ps) = cur"
    "table_layout options (content (tg_file tb')) ps ks m x" "ldb_tablegen_size tb' = length (content (tg_file tb'))"
    using reliable_file.build_ok [OF rel table_order_axioms opts(1,2) o(3) cur] o(4) by auto
  have "tg_num_entries tb = length cur" using created_entries [OF rel opts(1) o(3) cur o(4)] .
  then have entries: "ldb_tablegen_entries tb > 0" using o(7) by (simp add: ldb_tablegen_entries_def)
  have num: "map ou_number (outs @ [out]) = map (ce_number env) [0..<Suc (length outs)]" using st(1) o(1) by (simp add: writing_def)
  then have n: "ou_number out = ce_number env (length outs)" by simp
  obtain fname where fname: "ou_number out \<noteq> 0" "ldb_table_filename LDB_PATH_MAX dbname (ou_number out) = Some fname"
    "\<And>fs f. \<exists>rf. ce_open env (fs @ [(ou_number out, f)]) fname = Inr rf \<and> file_holds rf (content f)"
    using env unfolding n env_ok_def by blast
  obtain f1 where f1: "ce_sync env (tg_file tb') = (OK, f1)" "content f1 = content (tg_file tb')" using env unfolding env_ok_def by blast
  obtain f2 where f2: "ce_close env f1 = (OK, f2)" "content f2 = content (tg_file tb')" using env f1(2) unfolding env_ok_def by metis
  obtain rf where rf: "ce_open env (cs_files st @ [(ou_number out, f2)]) fname = Inr rf" "file_holds rf (content (tg_file tb'))"
    using fname(3) [of "cs_files st" f2] f2(2) by auto
  have "length (content (tg_file tb')) < 2 ^ 64" using opts(3) [unfolded tables_fit_def, rule_format, OF t(3)] t(2) cur(3) by simp
  then have tf: "table_file options rf (content (tg_file tb')) cur ps ks m x"
    using table_file_built [OF t(3,2) rf(2)] opts cur by simp
  obtain tables where v: "verify_output env (cs_files st @ [(ou_number out, f2)]) (cs_tables st) (ou_number out) (ldb_tablegen_size tb') =
      Some (OK, tables)" "tables_usable options dbname tables"
    using verify_ok [OF tf opts(1,2) _ fname(2) rf(1)] st(1,3) t(4) by (auto simp: writing_def)
  let ?out = "out\<lparr>ou_file_size := ldb_tablegen_size tb'\<rparr>"
  let ?st = "st\<lparr>cs_outputs := outs @ [?out], cs_total_bytes := cs_total_bytes st + ldb_tablegen_size tb', cs_builder := None,
      cs_files := cs_files st @ [(ou_number out, f2)], cs_tables := tables\<rparr>"
  have "ldb_finish_compaction_output_file env st OK = Some (OK, ?st)"
    using tb o(1) fname(1) t(1) f1(1) f2(1) entries v(1) by (simp add: ldb_finish_compaction_output_file_def Let_def)
  moreover have "output_ok options content (?out, ou_number out, f2) cur"
    unfolding output_ok_def prod.case using o(5-7) t(2-4) f2(2)
    by (intro conjI exI [of _ ps] exI [of _ ks] exI [of _ m] exI [of _ x]) simp_all
  then have "outputs_ok options content (outs @ [?out]) (cs_files st @ [(ou_number out, f2)]) (parts @ [cur])"
    by (rule outputs_ok_snoc [OF o(2)])
  then have "writing options content env ?st (parts @ [cur]) []"
    using v(2) num by (auto simp: writing_def tables_usable_def)
  ultimately show ?thesis using v(2) by (intro exI [of _ ?st]) (simp add: tables_usable_def)
qed

lemma output_started:
  assumes env: "env_ok options dbname content env" and st: "writing options content env st parts cur" "tc_dbname (cs_tables st) = dbname"
  shows "\<exists>st' tb outs out f0.
    (if cs_builder st = None then ldb_open_compaction_output_file options dbname env st else Some (OK, st)) = Some (OK, st') \<and>
    cs_builder st' = Some tb \<and> cs_outputs st' = outs @ [out] \<and> outputs_ok options content outs (cs_files st') parts \<and> content f0 = [] \<and>
    tablegen_add_all (ce_ops env) (ldb_tablegen_create options f0) cur = Some tb \<and>
    (cur \<noteq> [] \<longrightarrow> ou_smallest out = fst (hd cur) \<and> ou_largest out = fst (last cur)) \<and>
    map ou_number (outs @ [out]) = map (ce_number env) [0..<Suc (length outs)] \<and> cs_tables st' = cs_tables st \<and>
    cs_compaction st' = cs_compaction st \<and> cs_smallest_snapshot st' = cs_smallest_snapshot st"
proof (cases "cs_builder st")
  case None
  let ?n = "ce_number env (length (cs_outputs st))"
  obtain fname f where f: "ldb_table_filename LDB_PATH_MAX dbname ?n = Some fname" "ce_create env fname = Inr f" "content f = []"
    using env unfolding env_ok_def by blast
  have w: "cur = []" "outputs_ok options content (cs_outputs st) (cs_files st) parts"
    "map ou_number (cs_outputs st) = map (ce_number env) [0..<length (cs_outputs st)]" using st(1) None by (auto simp: writing_def)
  let ?st = "st\<lparr>cs_outputs := cs_outputs st @ [ldb_output_create ?n], cs_builder := Some (ldb_tablegen_create options f)\<rparr>"
  have "ldb_open_compaction_output_file options dbname env st = Some (OK, ?st)"
    using None f by (simp add: ldb_open_compaction_output_file_def Let_def)
  then show ?thesis using None w f(3)
    by (intro exI [of _ ?st] exI [of _ "ldb_tablegen_create options f"] exI [of _ "cs_outputs st"] exI [of _ "ldb_output_create ?n"] exI [of _ f])
      (simp add: tablegen_add_all_def ldb_output_create_def)
next
  case (Some tb)
  obtain outs out f0 where "cs_outputs st = outs @ [out]" "outputs_ok options content outs (cs_files st) parts" "content f0 = []"
    "tablegen_add_all (ce_ops env) (ldb_tablegen_create options f0) cur = Some tb" "ou_smallest out = fst (hd cur)"
    "ou_largest out = fst (last cur)" "map ou_number (outs @ [out]) = map (ce_number env) [0..<Suc (length outs)]"
    using st(1) Some by (auto simp: writing_def)
  then show ?thesis using Some
    by (intro exI [of _ st] exI [of _ tb] exI [of _ outs] exI [of _ out] exI [of _ f0]) simp
qed

lemma add_entry_ok:
  assumes env: "env_ok options dbname content env" and opts: "op_comparator options = c" "name_fits options" "tables_fit options"
      "0 < op_block_restart_interval options"
    and st: "writing options content env st parts cur" "tc_dbname (cs_tables st) = dbname"
    and cur: "sorted_wrt (\<lambda>x y. ldb_compare c (fst x) (fst y) < 0) (cur @ [(k, v)])" "\<forall>e \<in> set (cur @ [(k, v)]). table_key c (fst e)"
      "entries_size (cur @ [(k, v)]) + 8 < 2 ^ 30"
  shows "\<exists>st' parts' cur'. add_entry options dbname env st OK k v = Some (OK, st') \<and> writing options content env st' parts' cur' \<and>
    concat parts' @ cur' = concat parts @ cur @ [(k, v)] \<and>
    tc_dbname (cs_tables st') = dbname \<and> cs_compaction st' = cs_compaction st \<and> cs_smallest_snapshot st' = cs_smallest_snapshot st"
proof -
  have rel: "reliable_file (ce_ops env) content" using env by (simp add: env_ok_def)
  obtain st1 tb outs out f0 where o:
    "(if cs_builder st = None then ldb_open_compaction_output_file options dbname env st else Some (OK, st)) = Some (OK, st1)"
    "cs_builder st1 = Some tb" "cs_outputs st1 = outs @ [out]" "outputs_ok options content outs (cs_files st1) parts" "content f0 = []"
    "tablegen_add_all (ce_ops env) (ldb_tablegen_create options f0) cur = Some tb"
    "cur \<noteq> [] \<longrightarrow> ou_smallest out = fst (hd cur) \<and> ou_largest out = fst (last cur)"
    "map ou_number (outs @ [out]) = map (ce_number env) [0..<Suc (length outs)]" "cs_tables st1 = cs_tables st"
    "cs_compaction st1 = cs_compaction st" "cs_smallest_snapshot st1 = cs_smallest_snapshot st"
    using output_started [OF env st] by blast
  obtain tb' where tb': "tablegen_add_all (ce_ops env) (ldb_tablegen_create options f0) (cur @ [(k, v)]) = Some tb'"
    using reliable_file.build_ok [OF rel table_order_axioms opts(1,2) o(5) cur] by blast
  then have add: "ldb_tablegen_add (ce_ops env) tb k v = Some tb'" using o(6) by (simp add: tablegen_add_all_snoc)
  have cur0: "sorted_wrt (\<lambda>x y. ldb_compare c (fst x) (fst y) < 0) cur" "\<forall>e \<in> set cur. table_key c (fst e)" "entries_size cur + 8 < 2 ^ 30"
    using cur by (auto simp: sorted_wrt_append)
  have entries: "ldb_tablegen_entries tb = 0 \<longleftrightarrow> cur = []"
    using created_entries [OF rel opts(1) o(5) cur0 o(6)] by (simp add: ldb_tablegen_entries_def)
  let ?out = "(if cur = [] then out\<lparr>ou_smallest := k\<rparr> else out)\<lparr>ou_largest := k\<rparr>"
  let ?st = "st1\<lparr>cs_outputs := outs @ [?out], cs_builder := Some tb'\<rparr>"
  have eq: "add_entry options dbname env st OK k v =
      (if ldb_tablegen_size tb' \<ge> co_max_output_file_size (cs_compaction st) then ldb_finish_compaction_output_file env ?st OK else Some (OK, ?st))"
    unfolding add_entry_def o(1) using o(2,3,10) add entries by (cases "cur = []") (simp_all add: Let_def)
  have w: "writing options content env ?st parts (cur @ [(k, v)])"
    using o(3-5,7-9) tb' st(1) by (cases cur) (auto simp: writing_def)
  show ?thesis
  proof (cases "ldb_tablegen_size tb' \<ge> co_max_output_file_size (cs_compaction st)")
    case True
    obtain st' where "ldb_finish_compaction_output_file env ?st OK = Some (OK, st')" "writing options content env st' (parts @ [cur @ [(k, v)]]) []"
      "tc_dbname (cs_tables st') = dbname" "cs_compaction st' = cs_compaction ?st" "cs_smallest_snapshot st' = cs_smallest_snapshot ?st"
      using finish_output_ok [OF env opts w _ _ cur] o(9) st(2) by auto
    then show ?thesis using True eq o(10,11) by (intro exI [of _ st'] exI [of _ "parts @ [cur @ [(k, v)]]"] exI [of _ "[]"]) simp
  next
    case False
    then show ?thesis using eq w o(9-11) st(2) by (intro exI [of _ ?st] exI [of _ parts] exI [of _ "cur @ [(k, v)]"]) simp
  qed
qed

end

section \<open>The loop keeps what is to be kept\<close>

lemma skip_grandparents_same:
  "co_level (skip_grandparents icmp ikey c) = co_level c \<and> co_input_version (skip_grandparents icmp ikey c) = co_input_version c \<and>
   co_edit (skip_grandparents icmp ikey c) = co_edit c \<and> co_inputs0 (skip_grandparents icmp ikey c) = co_inputs0 c \<and>
   co_inputs1 (skip_grandparents icmp ikey c) = co_inputs1 c \<and> co_level_ptrs (skip_grandparents icmp ikey c) = co_level_ptrs c"
  by (induction icmp ikey c rule: skip_grandparents.induct) (subst (1 2 3 4 5 6) skip_grandparents.simps, simp add: Let_def)

text \<open>The loop changes nothing of a compaction but its progress.\<close>

definition same_task :: "ldb_compaction \<Rightarrow> ldb_compaction \<Rightarrow> bool" where
  "same_task c c' \<longleftrightarrow> co_level c' = co_level c \<and> co_input_version c' = co_input_version c \<and> co_edit c' = co_edit c \<and>
     co_inputs0 c' = co_inputs0 c \<and> co_inputs1 c' = co_inputs1 c"

lemma should_stop_same:
  "ldb_compaction_should_stop_before options icmp c ikey = (stop, c') \<Longrightarrow> same_task c c' \<and> co_level_ptrs c' = co_level_ptrs c"
  using skip_grandparents_same [of icmp ikey c]
  by (auto simp: ldb_compaction_should_stop_before_def same_task_def Let_def split: if_splits)

text \<open>A user key as good as the last one.\<close>

definition key_follows :: "ldb_comparator \<Rightarrow> 'f work \<Rightarrow> bytes option \<Rightarrow> u64 \<Rightarrow> bool" where
  "key_follows uc wk uk prev \<longleftrightarrow>
     (\<forall>u. fresh_key uc (wk_user_key wk) u \<longleftrightarrow> fresh_key uc uk u) \<and> (uk \<noteq> None \<longrightarrow> wk_last_sequence wk = prev)"

context user_comparator
begin

lemma drop_entry_ok:
  assumes "key_ok key" "key_follows uc wk uk prev" "co_input_version (cs_compaction (wk_state wk)) = Some ver"
    and "ptrs_ok uc ver (co_level_ptrs (cs_compaction (wk_state wk))) (ukey key)" "\<forall>lvl < LDB_NUM_LEVELS. 0 < lvl \<longrightarrow> chain uc (vr_files ver ! lvl)"
  shows "\<exists>wk' ptrs'. drop_entry uc wk key =
      Some (dropped uc (cs_smallest_snapshot (wk_state wk)) (base_key uc ver (co_level (cs_compaction (wk_state wk)))) uk prev key, wk') \<and>
    wk_state wk' = (wk_state wk)\<lparr>cs_compaction := (cs_compaction (wk_state wk))\<lparr>co_level_ptrs := ptrs'\<rparr>\<rparr> \<and>
    ptrs_ok uc ver ptrs' (ukey key) \<and> key_follows uc wk' (Some (ukey key)) (key_seq key)"
proof -
  let ?c = "cs_compaction (wk_state wk)" and ?u = "ukey key"
  define fresh where "fresh = fresh_key uc uk ?u"
  have fresh: "(case wk_user_key wk of None \<Rightarrow> True | Some u \<Rightarrow> ldb_compare uc ?u u \<noteq> 0) = fresh"
    using assms(2) by (simp add: key_follows_def fresh_def fresh_key_def)
  define wk1 where "wk1 = (if fresh then wk\<lparr>wk_user_key := Some ?u, wk_last_sequence := MAX_SEQUENCE\<rparr> else wk)"
  have st1: "wk_state wk1 = wk_state wk" by (simp add: wk1_def)
  have last1: "wk_last_sequence wk1 = (if fresh then MAX_SEQUENCE else prev)"
    using assms(2) by (auto simp: wk1_def key_follows_def fresh_def fresh_key_def)
  have same: "fresh_key uc (wk_user_key wk1) u \<longleftrightarrow> fresh_key uc (Some ?u) u" for u
  proof (cases fresh)
    case False
    then obtain u' where u': "wk_user_key wk = Some u'" "ldb_compare uc ?u u' = 0" using fresh by (cases "wk_user_key wk") auto
    then show ?thesis
      using False cmp_eq_cong(2) [of ?u u' u] cmp_eq_sym [of u ?u] cmp_eq_sym [of u u'] by (auto simp: wk1_def fresh_key_def)
  qed (simp add: wk1_def)
  obtain ptrs' where b: "ldb_compaction_is_base_level_for_key uc ?c ?u = Some (base_key uc ver (co_level ?c) ?u, ?c\<lparr>co_level_ptrs := ptrs'\<rparr>)"
    "ptrs_ok uc ver ptrs' ?u" using is_base_level_ok [OF assms(3-5)] by blast
  define drp where "drp = dropped uc (cs_smallest_snapshot (wk_state wk)) (base_key uc ver (co_level ?c)) uk prev key"
  define st where "st = (if wk_last_sequence wk1 \<le> cs_smallest_snapshot (wk_state wk) then wk_state wk
      else if key_type key = TYPE_DELETION \<and> key_seq key \<le> cs_smallest_snapshot (wk_state wk)
      then (wk_state wk)\<lparr>cs_compaction := ?c\<lparr>co_level_ptrs := ptrs'\<rparr>\<rparr> else wk_state wk)"
  have eq: "drop_entry uc wk key = Some (drp, wk1\<lparr>wk_state := st, wk_last_sequence := key_seq key\<rparr>)"
  proof -
    have "drop_entry uc wk key = Option.bind
        (if wk_last_sequence wk1 \<le> cs_smallest_snapshot (wk_state wk1) then Some (True, wk_state wk1)
         else if key_type key = TYPE_DELETION \<and> key_seq key \<le> cs_smallest_snapshot (wk_state wk1) then
           map_option (\<lambda>(base, c). (base, (wk_state wk1)\<lparr>cs_compaction := c\<rparr>))
             (ldb_compaction_is_base_level_for_key uc (cs_compaction (wk_state wk1)) ?u)
         else Some (False, wk_state wk1))
        (\<lambda>(drp, state). Some (drp, wk1\<lparr>wk_state := state, wk_last_sequence := key_seq key\<rparr>))"
      unfolding drop_entry_def key_parts [OF assms(1)] option.case ldb_pkey.select_convs Let_def fresh wk1_def ..
    then show ?thesis
      unfolding st1 b(1) using last1 by (simp add: drp_def st_def dropped_def fresh_def) blast
  qed
  have "st = (wk_state wk)\<lparr>cs_compaction := ?c\<lparr>co_level_ptrs := ptrs'\<rparr>\<rparr> \<or>
      st = (wk_state wk)\<lparr>cs_compaction := ?c\<lparr>co_level_ptrs := co_level_ptrs ?c\<rparr>\<rparr>" by (simp add: st_def)
  then obtain ptrs where "st = (wk_state wk)\<lparr>cs_compaction := ?c\<lparr>co_level_ptrs := ptrs\<rparr>\<rparr>" "ptrs_ok uc ver ptrs ?u"
    using b(2) assms(4) by blast
  moreover have "key_follows uc (wk1\<lparr>wk_state := st, wk_last_sequence := key_seq key\<rparr>) (Some ?u) (key_seq key)"
    using same by (simp add: key_follows_def)
  ultimately show ?thesis using eq unfolding drp_def
    by (intro exI [of _ "wk1\<lparr>wk_state := st, wk_last_sequence := key_seq key\<rparr>"] exI [of _ ptrs]) simp
qed

lemma run_table_key: "run_ok uc es \<Longrightarrow> e \<in> set es \<Longrightarrow> table_key c (fst e)"
proof -
  assume "run_ok uc es" "e \<in> set es"
  then have "ldb_pkey_import (fst e) \<noteq> None" by (auto simp: run_ok_def key_ok_def)
  then show ?thesis by (auto simp: table_key_def ldb_pkey_import_def Let_def split: if_splits)
qed

lemma kept_fits:
  assumes "run_ok uc (xs @ ys)" "zs @ ws = keep_entries uc smallest base uk prev xs" "entries_size (xs @ ys) + 8 < 2 ^ 30"
  shows "sorted_wrt (\<lambda>x y. ldb_compare (ldb_ikc_init uc) (fst x) (fst y) < 0) ws \<and> (\<forall>e \<in> set ws. table_key (ldb_ikc_init uc) (fst e)) \<and>
    entries_size ws + 8 < 2 ^ 30"
proof -
  have "sorted_wrt (\<lambda>x y. ldb_ikc_compare uc (fst x) (fst y) < 0) xs" using assms(1) by (auto simp: run_ok_def sorted_wrt_append)
  then have "sorted_wrt (\<lambda>x y. ldb_ikc_compare uc (fst x) (fst y) < 0) (zs @ ws)" using assms(2) keep_entries_sorted by metis
  moreover have "entries_size (keep_entries uc smallest base uk prev xs) \<le> entries_size xs" for uk prev
    by (induction xs arbitrary: uk prev) (auto intro: trans_le_add2)
  then have "entries_size (zs @ ws) \<le> entries_size xs" using assms(2) by simp
  moreover have "set ws \<subseteq> set (xs @ ys)" using assms(2) [symmetric] keep_entries_subset [of uc smallest base uk prev xs] by auto
  ultimately show ?thesis using assms(3) run_table_key [OF assms(1)] by (auto simp: ikc_compare_eq sorted_wrt_append)
qed

end

definition last_key :: "(bytes \<times> bytes) list \<Rightarrow> bytes option" where
  "last_key ds = (if ds = [] then None else Some (ukey (fst (last ds))))"

definition last_seq :: "(bytes \<times> bytes) list \<Rightarrow> u64" where
  "last_seq ds = (if ds = [] then MAX_SEQUENCE else key_seq (fst (last ds)))"

lemma keep_entries_snoc:
  "keep_entries uc smallest base None MAX_SEQUENCE (ds @ [e]) =
   keep_entries uc smallest base None MAX_SEQUENCE ds @ (if dropped uc smallest base (last_key ds) (last_seq ds) (fst e) then [] else [e])"
  by (auto simp: keep_entries_append last_key_def last_seq_def)

text \<open>After the entries \<open>ds\<close>, with \<open>rest\<close> to come.\<close>

definition compacted :: "ldb_comparator \<Rightarrow> ldb_dbopt \<Rightarrow> string \<Rightarrow> ('f \<Rightarrow> bytes) \<Rightarrow> 'f compaction_env \<Rightarrow> u64 \<Rightarrow> ldb_version \<Rightarrow> ldb_compaction \<Rightarrow>
    (bytes \<times> bytes) list \<Rightarrow> (bytes \<times> bytes) list \<Rightarrow> 'f work \<Rightarrow> (bytes \<times> bytes) list list \<Rightarrow> (bytes \<times> bytes) list \<Rightarrow> bool" where
  "compacted uc options dbname content env smallest ver c0 ds rest wk parts cur \<longleftrightarrow>
     writing options content env (wk_state wk) parts cur \<and> tc_dbname (cs_tables (wk_state wk)) = dbname \<and>
     cs_smallest_snapshot (wk_state wk) = smallest \<and> same_task c0 (cs_compaction (wk_state wk)) \<and>
     (\<forall>e \<in> set rest. ptrs_ok uc ver (co_level_ptrs (cs_compaction (wk_state wk))) (ukey (fst e))) \<and>
     key_follows uc wk (last_key ds) (last_seq ds) \<and>
     concat parts @ cur = keep_entries uc smallest (base_key uc ver (co_level c0)) None MAX_SEQUENCE ds"

text \<open>The output is closed before an entry when it would overlap too much two levels below.\<close>

definition close_before :: "ldb_dbopt \<Rightarrow> ldb_comparator \<Rightarrow> 'f compaction_env \<Rightarrow> status \<Rightarrow> bytes \<Rightarrow> 'f ldb_cstate \<Rightarrow> (status \<times> 'f ldb_cstate) option" where
  "close_before options uc env rc key state =
     (case ldb_compaction_should_stop_before options (ldb_ikc_init uc) (cs_compaction state) key of (stop, c) \<Rightarrow>
        if stop \<and> cs_builder state \<noteq> None then ldb_finish_compaction_output_file env (state\<lparr>cs_compaction := c\<rparr>) rc
        else Some (OK, state\<lparr>cs_compaction := c\<rparr>))"

lemma writing_task [simp]: "writing options content env (st\<lparr>cs_compaction := c\<rparr>) parts cur = writing options content env st parts cur"
  by (cases "cs_builder st") (simp_all add: writing_def)

lemma compaction_loop_round:
  assumes "tb_valid T input" "\<not> ce_shutdown env n"
    and "close_before options uc env (tb_status T input) (tb_key T input) (wk_state wk) = Some (OK, st1)"
    and "drop_entry uc (wk\<lparr>wk_state := st1\<rparr>) (tb_key T input) = Some (drp, wk2)"
    and "(if \<not> drp then add_entry options dbname env (wk_state wk2) (tb_status T input) (tb_key T input) (tb_value T input)
          else Some (OK, wk_state wk2)) = Some (OK, st3)"
    and "tb_next T input = Some input'"
  shows "compaction_loop options dbname uc env T n input wk = compaction_loop options dbname uc env T (Suc n) input' (wk2\<lparr>wk_state := st3\<rparr>)"
proof -
  obtain stop c where s: "ldb_compaction_should_stop_before options (ldb_ikc_init uc) (cs_compaction (wk_state wk)) (tb_key T input) = (stop, c)"
    by fastforce
  have 1: "(if stop \<and> cs_builder (wk_state wk) \<noteq> None
      then ldb_finish_compaction_output_file env ((wk_state wk)\<lparr>cs_compaction := c\<rparr>) (tb_status T input)
      else Some (OK, (wk_state wk)\<lparr>cs_compaction := c\<rparr>)) = Some (OK, st1)"
    using assms(3) unfolding close_before_def s by simp
  show ?thesis
    by (subst compaction_loop.simps) (use 1 assms(1,2,4-6) s in \<open>simp add: Let_def del: if_split_eq2\<close>)
qed

context user_comparator
begin

lemma close_before_ok:
  assumes "table_order (ldb_ikc_init uc)" "env_ok options dbname content env" "op_comparator options = ldb_ikc_init uc" "name_fits options"
      "tables_fit options" "0 < op_block_restart_interval options"
    and "writing options content env st parts cur" "tc_dbname (cs_tables st) = dbname"
    and "sorted_wrt (\<lambda>x y. ldb_compare (ldb_ikc_init uc) (fst x) (fst y) < 0) cur" "\<forall>e \<in> set cur. table_key (ldb_ikc_init uc) (fst e)"
      "entries_size cur + 8 < 2 ^ 30"
  shows "\<exists>st' parts' cur'. close_before options uc env OK key st = Some (OK, st') \<and> writing options content env st' parts' cur' \<and>
    concat parts' @ cur' = concat parts @ cur \<and> tc_dbname (cs_tables st') = dbname \<and> same_task (cs_compaction st) (cs_compaction st') \<and>
    co_level_ptrs (cs_compaction st') = co_level_ptrs (cs_compaction st) \<and> cs_smallest_snapshot st' = cs_smallest_snapshot st"
proof -
  obtain stop c where s: "ldb_compaction_should_stop_before options (ldb_ikc_init uc) (cs_compaction st) key = (stop, c)" by fastforce
  note same = should_stop_same [OF s]
  let ?st = "st\<lparr>cs_compaction := c\<rparr>"
  show ?thesis
  proof (cases "stop \<and> cs_builder st \<noteq> None")
    case False
    then show ?thesis using assms(7,8) same s
      by (intro exI [of _ ?st] exI [of _ parts] exI [of _ cur]) (auto simp: close_before_def)
  next
    case True
    obtain st' where "ldb_finish_compaction_output_file env ?st OK = Some (OK, st')" "writing options content env st' (parts @ [cur]) []"
      "tc_dbname (cs_tables st') = dbname" "cs_compaction st' = c" "cs_smallest_snapshot st' = cs_smallest_snapshot st"
      using table_order.finish_output_ok [OF assms(1-6), of ?st parts cur] assms(7-11) True by auto
    then show ?thesis using True same s
      by (intro exI [of _ st'] exI [of _ "parts @ [cur]"] exI [of _ "[]"]) (simp add: close_before_def)
  qed
qed

text \<open>One round, for any iterator table that is at an entry.\<close>

lemma round_ok:
  assumes order: "table_order (ldb_ikc_init uc)" and env: "env_ok options dbname content env"
    and opts: "op_comparator options = ldb_ikc_init uc" "name_fits options" "tables_fit options" "0 < op_block_restart_interval options"
    and ver: "co_input_version c0 = Some ver" "\<forall>lvl < LDB_NUM_LEVELS. 0 < lvl \<longrightarrow> chain uc (vr_files ver ! lvl)"
    and run: "run_ok uc (ds @ e # rest)" "entries_size (ds @ e # rest) + 8 < 2 ^ 30"
    and inv: "compacted uc options dbname content env smallest ver c0 ds (e # rest) wk parts cur"
  shows "\<exists>st1 drp wk2 st3 parts' cur'. close_before options uc env OK (fst e) (wk_state wk) = Some (OK, st1) \<and>
    drop_entry uc (wk\<lparr>wk_state := st1\<rparr>) (fst e) = Some (drp, wk2) \<and>
    (if \<not> drp then add_entry options dbname env (wk_state wk2) OK (fst e) (snd e) else Some (OK, wk_state wk2)) = Some (OK, st3) \<and>
    compacted uc options dbname content env smallest ver c0 (ds @ [e]) rest (wk2\<lparr>wk_state := st3\<rparr>) parts' cur'"
proof -
  note i = inv [unfolded compacted_def]
  let ?base = "base_key uc ver (co_level c0)"
  obtain st1 parts1 cur1 where 1: "close_before options uc env OK (fst e) (wk_state wk) = Some (OK, st1)"
    "writing options content env st1 parts1 cur1" "concat parts1 @ cur1 = concat parts @ cur" "tc_dbname (cs_tables st1) = dbname"
    "same_task (cs_compaction (wk_state wk)) (cs_compaction st1)" "cs_smallest_snapshot st1 = smallest"
    "co_level_ptrs (cs_compaction st1) = co_level_ptrs (cs_compaction (wk_state wk))"
    using close_before_ok [OF order env opts, of "wk_state wk" parts cur "fst e"] kept_fits [OF run(1) _ run(2), of "concat parts" cur] i by metis
  have task: "same_task c0 (cs_compaction st1)" using 1(5) i by (simp add: same_task_def)
  have key: "key_ok (fst e)" using run(1) by (auto simp: run_ok_def)
  obtain wk2 ptrs drp where 2: "drp = dropped uc smallest ?base (last_key ds) (last_seq ds) (fst e)"
    "drop_entry uc (wk\<lparr>wk_state := st1\<rparr>) (fst e) = Some (drp, wk2)"
    "wk_state wk2 = st1\<lparr>cs_compaction := (cs_compaction st1)\<lparr>co_level_ptrs := ptrs\<rparr>\<rparr>" "ptrs_ok uc ver ptrs (ukey (fst e))"
    "key_follows uc wk2 (Some (ukey (fst e))) (key_seq (fst e))"
    using drop_entry_ok [OF key, of "wk\<lparr>wk_state := st1\<rparr>" "last_key ds" "last_seq ds" ver] ver task 1(6,7) i
    by (auto simp: key_follows_def same_task_def)
  have ptrs: "\<forall>g \<in> set rest. ptrs_ok uc ver ptrs (ukey (fst g))"
  proof
    fix g assume "g \<in> set rest"
    then have "ldb_ikc_compare uc (fst e) (fst g) < 0" using run(1) by (auto simp: run_ok_def sorted_wrt_append)
    then show "ptrs_ok uc ver ptrs (ukey (fst g))" using ptrs_ok_mono [OF 2(4)] by (auto simp: ikc_less_iff)
  qed
  have w2: "writing options content env (wk_state wk2) parts1 cur1" using 1(2) by (simp add: 2(3))
  have kept: "concat parts1 @ cur1 @ (if drp then [] else [e]) = keep_entries uc smallest ?base None MAX_SEQUENCE (ds @ [e])"
    using i 1(3) by (simp add: keep_entries_snoc 2(1) flip: append_assoc)
  obtain st3 parts' cur' where 3:
    "(if \<not> drp then add_entry options dbname env (wk_state wk2) OK (fst e) (snd e) else Some (OK, wk_state wk2)) = Some (OK, st3)"
    "writing options content env st3 parts' cur'" "concat parts' @ cur' = concat parts1 @ cur1 @ (if drp then [] else [e])"
    "tc_dbname (cs_tables st3) = dbname" "cs_compaction st3 = cs_compaction (wk_state wk2)" "cs_smallest_snapshot st3 = smallest"
  proof (cases drp)
    case True
    then show thesis using w2 1(4,6) by (intro that [of "wk_state wk2" parts1 cur1]) (simp_all add: 2(3))
  next
    case False
    have "run_ok uc ((ds @ [e]) @ rest)" "entries_size ((ds @ [e]) @ rest) + 8 < 2 ^ 30" using run by simp_all
    then have "sorted_wrt (\<lambda>x y. ldb_compare (ldb_ikc_init uc) (fst x) (fst y) < 0) (cur1 @ [e]) \<and>
        (\<forall>e \<in> set (cur1 @ [e]). table_key (ldb_ikc_init uc) (fst e)) \<and> entries_size (cur1 @ [e]) + 8 < 2 ^ 30"
      using kept_fits [of "ds @ [e]" rest "concat parts1" "cur1 @ [e]"] kept False by simp
    then show thesis
      using table_order.add_entry_ok [OF order env opts w2, of "fst e" "snd e"] 1(4,6) False that by (auto simp: 2(3))
  qed
  have "compacted uc options dbname content env smallest ver c0 (ds @ [e]) rest (wk2\<lparr>wk_state := st3\<rparr>) parts' cur'"
    using 3(2-6) 2(3,5) ptrs kept task by (simp add: compacted_def last_key_def last_seq_def key_follows_def same_task_def)
  then show ?thesis using 1(1) 2(2) 3(1) by blast
qed

lemma loop_ok:
  assumes tab: "iter_table before pos target T" and ok: "\<forall>it k. pos it es k \<longrightarrow> tb_status T it = OK"
    and order: "table_order (ldb_ikc_init uc)" and env: "env_ok options dbname content env"
    and opts: "op_comparator options = ldb_ikc_init uc" "name_fits options" "tables_fit options" "0 < op_block_restart_interval options"
    and ver: "co_input_version c0 = Some ver" "\<forall>lvl < LDB_NUM_LEVELS. 0 < lvl \<longrightarrow> chain uc (vr_files ver ! lvl)"
    and run: "run_ok uc es" "entries_size es + 8 < 2 ^ 30"
    and start: "es = ds @ rest" "pos input es (length ds)" "compacted uc options dbname content env smallest ver c0 ds rest wk parts cur"
  shows "\<exists>input' wk' parts' cur'. compaction_loop options dbname uc env T n input wk = Some (OK, input', wk') \<and>
    tb_status T input' = OK \<and> compacted uc options dbname content env smallest ver c0 es [] wk' parts' cur'"
  using start
proof (induction rest arbitrary: ds input wk parts cur n)
  case Nil
  note con = iter_table.axioms [OF tab]
  have "\<not> tb_valid T input" using iter_contract.at_valid [OF con Nil.prems(2)] Nil.prems(1) by simp
  moreover have "\<not> ce_shutdown env n" using env by (simp add: env_ok_def)
  ultimately have "compaction_loop options dbname uc env T n input wk = Some (OK, input, wk)" by (subst compaction_loop.simps) simp
  then show ?case using ok [rule_format, OF Nil.prems(2)] Nil.prems(1,3) by (metis append_Nil2)
next
  case (Cons e rest)
  note con = iter_table.axioms [OF tab]
  have k: "length ds < length es" "es ! length ds = e" using Cons.prems(1) by simp_all
  have valid: "tb_valid T input" "(tb_key T input, tb_value T input) = e" "tb_status T input = OK" "\<not> ce_shutdown env n"
    using iter_contract.at_valid [OF con Cons.prems(2)] iter_contract.at_entry [OF con Cons.prems(2)] k ok [rule_format, OF Cons.prems(2)] env
    by (simp_all add: env_ok_def)
  then have kv: "tb_key T input = fst e" "tb_value T input = snd e" by auto
  obtain input' where next': "tb_next T input = Some input'" "pos input' es (Suc (length ds))"
    using iter_contract.at_step [OF con Cons.prems(2) k(1)] by blast
  obtain st1 drp wk2 st3 parts' cur' where r: "close_before options uc env OK (fst e) (wk_state wk) = Some (OK, st1)"
    "drop_entry uc (wk\<lparr>wk_state := st1\<rparr>) (fst e) = Some (drp, wk2)"
    "(if \<not> drp then add_entry options dbname env (wk_state wk2) OK (fst e) (snd e) else Some (OK, wk_state wk2)) = Some (OK, st3)"
    "compacted uc options dbname content env smallest ver c0 (ds @ [e]) rest (wk2\<lparr>wk_state := st3\<rparr>) parts' cur'"
    using round_ok [OF order env opts ver _ _ Cons.prems(3)] run Cons.prems(1) by blast
  have "compaction_loop options dbname uc env T n input wk = compaction_loop options dbname uc env T (Suc n) input' (wk2\<lparr>wk_state := st3\<rparr>)"
    by (rule compaction_loop_round [OF valid(1,4)]; use valid(3) kv r(1-3) next'(1) in \<open>simp only:\<close>)
  then show ?case using Cons.IH [of "ds @ [e]" input' "wk2\<lparr>wk_state := st3\<rparr>" parts' cur' "Suc n"] Cons.prems(1) next'(2) r(4) by simp
qed

lemma work_ok:
  assumes tab: "iter_table before pos target T" and ok: "\<forall>it k. pos it es k \<longrightarrow> tb_status T it = OK"
    and order: "table_order (ldb_ikc_init uc)" and env: "env_ok options dbname content env"
    and opts: "op_comparator options = ldb_ikc_init uc" "name_fits options" "tables_fit options" "0 < op_block_restart_interval options"
    and ver: "co_input_version c0 = Some ver" "\<forall>lvl < LDB_NUM_LEVELS. 0 < lvl \<longrightarrow> chain uc (vr_files ver ! lvl)"
      "co_level_ptrs c0 = replicate LDB_NUM_LEVELS 0"
    and run: "run_ok uc es" "entries_size es + 8 < 2 ^ 30"
    and start: "pos input es k" "tables_usable options dbname tables"
    and s: "smallest = (case oldest of None \<Rightarrow> vs_last_sequence vset | Some s \<Rightarrow> s)" and filled: "0 < ldb_versions_files vset (co_level c0)"
  shows "\<exists>st' parts. ldb_do_compaction_work options dbname uc env T input vset oldest (ldb_cstate_create c0 tables) = Some (OK, st') \<and>
    cs_builder st' = None \<and> outputs_ok options content (cs_outputs st') (cs_files st') parts \<and>
    map ou_number (cs_outputs st') = map (ce_number env) [0..<length (cs_outputs st')] \<and> same_task c0 (cs_compaction st') \<and>
    concat parts = keep_entries uc smallest (base_key uc ver (co_level c0)) None MAX_SEQUENCE es"
proof -
  note con = iter_table.axioms [OF tab]
  let ?st0 = "(ldb_cstate_create c0 tables)\<lparr>cs_smallest_snapshot := smallest\<rparr>"
  let ?wk = "\<lparr>wk_state = ?st0, wk_user_key = None, wk_last_sequence = MAX_SEQUENCE\<rparr>"
  obtain input0 where f: "tb_first T input = Some input0" "pos input0 es 0" using iter_contract.at_first [OF con start(1)] by blast
  have c: "compacted uc options dbname content env smallest ver c0 [] es ?wk [] []"
    using ver(3) start(2) by (auto simp: compacted_def writing_def ldb_cstate_create_def outputs_ok_def same_task_def ptrs_ok_def
        key_follows_def last_key_def last_seq_def tables_usable_def)
  have at0: "pos input0 es (length ([] :: (bytes \<times> bytes) list))" using f(2) by simp
  obtain input' wk' parts cur where l: "compaction_loop options dbname uc env T 0 input0 ?wk = Some (OK, input', wk')"
    "tb_status T input' = OK" "compacted uc options dbname content env smallest ver c0 es [] wk' parts cur"
    using loop_ok [OF tab ok order env opts ver(1,2) run append_Nil [symmetric] at0 c] by blast
  note i = l(3) [unfolded compacted_def]
  have work: "ldb_do_compaction_work options dbname uc env T input vset oldest (ldb_cstate_create c0 tables) =
      Option.bind (if cs_builder (wk_state wk') \<noteq> None then ldb_finish_compaction_output_file env (wk_state wk') OK else Some (OK, wk_state wk'))
        (\<lambda>(rc, state). Some (if rc = OK then tb_status T input' else rc, state))"
    using f(1) l(1,2) filled by (simp add: ldb_do_compaction_work_def s ldb_cstate_create_def Let_def)
  show ?thesis
  proof (cases "cs_builder (wk_state wk')")
    case None
    then have "cur = []" "outputs_ok options content (cs_outputs (wk_state wk')) (cs_files (wk_state wk')) parts"
      using i by (auto simp: writing_def)
    then show ?thesis using work None i l(2) by (intro exI [of _ "wk_state wk'"] exI [of _ parts]) (simp add: writing_def)
  next
    case (Some tb)
    have fits: "sorted_wrt (\<lambda>x y. ldb_compare (ldb_ikc_init uc) (fst x) (fst y) < 0) cur" "\<forall>e \<in> set cur. table_key (ldb_ikc_init uc) (fst e)"
      "entries_size cur + 8 < 2 ^ 30" using kept_fits [of es "[]" "concat parts" cur] run i by auto
    obtain st' where "ldb_finish_compaction_output_file env (wk_state wk') OK = Some (OK, st')"
      "writing options content env st' (parts @ [cur]) []" "cs_builder st' = None" "cs_compaction st' = cs_compaction (wk_state wk')"
      using table_order.finish_output_ok [OF order env opts, of "wk_state wk'" parts cur] i Some fits by auto
    then show ?thesis using work Some i l(2) by (intro exI [of _ st'] exI [of _ "parts @ [cur]"]) (simp add: writing_def)
  qed
qed

lemma in_range_cong: "ldb_compare uc u u' = 0 \<Longrightarrow> in_range uc u f \<longleftrightarrow> in_range uc u' f"
  using cmp_eq_cong [of u u' "ukey (fm_smallest f)"] cmp_eq_cong [of u u' "ukey (fm_largest f)"] by (auto simp: in_range_def)

end

text \<open>
  Older entries: in the range of a file more than one level below the compaction, or of other keys.  By
  \<open>Version_Set\<close> the entries of the compaction's levels that are not among its inputs are of other keys or newer.
\<close>

definition beneath :: "ldb_comparator \<Rightarrow> ldb_version \<Rightarrow> nat \<Rightarrow> (bytes \<times> bytes) list \<Rightarrow> (bytes \<times> bytes) set \<Rightarrow> bool" where
  "beneath uc ver level es B \<longleftrightarrow> newer uc (set es) B \<and>
     (\<forall>b \<in> B. (\<exists>lvl \<in> {level + 2 ..< LDB_NUM_LEVELS}. \<exists>f \<in> set (vr_files ver ! lvl). in_range uc (ukey (fst b)) f) \<or>
       (\<forall>e \<in> set es. ldb_compare uc (ukey (fst b)) (ukey (fst e)) \<noteq> 0))"

text \<open>C4: a compaction of a level that has files, whose files do not fail and whose inputs come merged from an
  iterator, ends without error; its outputs are tables, with the sizes and the smallest and largest keys of what they hold, and
  whoever reads a key at the oldest snapshot or a newer one is told the same value or absence whether
  the inputs or the outputs are between the newer and the older entries of the database: of the
  versions of a key only those are dropped that such a reader cannot see, and a deletion only when there
  is nothing older that it hides.\<close>

theorem compaction_preserves_reads:
  assumes "user_comparator uc" "table_order (ldb_ikc_init uc)" "iter_table before pos target T" "\<forall>it k. pos it es k \<longrightarrow> tb_status T it = OK"
    and "env_ok options dbname content env" "op_comparator options = ldb_ikc_init uc" "name_fits options" "tables_fit options"
    and "0 < op_block_restart_interval options" "co_input_version c = Some ver" "co_level_ptrs c = replicate LDB_NUM_LEVELS 0"
    and "\<forall>lvl < LDB_NUM_LEVELS. 0 < lvl \<longrightarrow> chain uc (vr_files ver ! lvl)"
    and "run_ok uc es" "seqs_fall uc es" "entries_size es + 8 < 2 ^ 30" "pos input es k" "tables_usable options dbname tables"
    and "smallest = (case oldest of None \<Rightarrow> vs_last_sequence vset | Some s \<Rightarrow> s)" "smallest < MAX_SEQUENCE"
    and "beneath uc ver (co_level c) es B" "newer uc A (set es \<union> B)" "0 < ldb_versions_files vset (co_level c)"
  shows "\<exists>st' parts. ldb_do_compaction_work options dbname uc env T input vset oldest (ldb_cstate_create c tables) = Some (OK, st') \<and>
    outputs_ok options content (cs_outputs st') (cs_files st') parts \<and> set (concat parts) \<subseteq> set es \<and> run_ok uc (concat parts) \<and>
    (\<forall>u s v. smallest \<le> s \<longrightarrow>
       (told uc u s (A \<union> (set (concat parts) \<union> B)) v \<longleftrightarrow> told uc u s (A \<union> (set es \<union> B)) v))"
proof -
  let ?base = "base_key uc ver (co_level c)" and ?K = "keep_entries uc smallest (base_key uc ver (co_level c)) None MAX_SEQUENCE es"
  obtain st' parts where w: "ldb_do_compaction_work options dbname uc env T input vset oldest (ldb_cstate_create c tables) = Some (OK, st')"
    "outputs_ok options content (cs_outputs st') (cs_files st') parts" "concat parts = ?K"
    using user_comparator.work_ok [OF assms(1,3,4,2,5-10,12,11,13,15-18,22)] by blast
  have sub: "set ?K \<subseteq> set es" by (rule keep_entries_subset)
  have run: "run_ok uc ?K" using assms(13) sub keep_entries_sorted by (auto simp: run_ok_def)
  have new: "newer uc (set es) B" "newer uc A (set ?K \<union> B)" using assms(20,21) sub by (auto simp: beneath_def newer_def)
  have deep: "ldb_compare uc (ukey (fst b)) (ukey (fst e)) \<noteq> 0" if "e \<in> set es" "?base (ukey (fst e))" "b \<in> B" for e b
    using assms(20) that user_comparator.in_range_cong [OF assms(1), of "ukey (fst b)" "ukey (fst e)"]
    unfolding beneath_def base_key_def by blast
  have "told uc u s (set ?K \<union> B) v \<longleftrightarrow> told uc u s (set es \<union> B) v" if "smallest \<le> s" for u s v
    by (rule user_comparator.keep_told [OF assms(1,13,14) new(1) assms(19) that deep])
  then have "told uc u s (A \<union> (set ?K \<union> B)) v \<longleftrightarrow> told uc u s (A \<union> (set es \<union> B)) v" if "smallest \<le> s" for u s v
    using user_comparator.told_above [OF assms(1) new(2) assms(21)] that by blast
  then show ?thesis using w sub run by (intro exI [of _ st'] exI [of _ parts]) simp
qed

theorem compaction_preserves_reads_witness:
  "\<exists>vset input st' parts. ldb_versions_files (vset :: unit ldb_versions) 0 = 1 \<and> ldb_do_compaction_work (small_blocks (ldb_ikc_init bytewise_comparator)) ''db'' bytewise_comparator
      \<lparr>ce_ops = \<lparr>wf_append = \<lambda>f d. (OK, f @ d), wf_flush = \<lambda>f. (OK, f)\<rparr>, ce_create = \<lambda>_. Inr [], ce_sync = Pair OK, ce_close = Pair OK,
       ce_open = \<lambda>fs _. Inr (file_of (snd (last fs))), ce_id = \<lambda>_. None, ce_number = \<lambda>_. 7, ce_shutdown = \<lambda>_. False\<rparr>
      biter_table input vset (Some 5)
      (ldb_cstate_create ((ldb_compaction_init (small_blocks (ldb_ikc_init bytewise_comparator)) 0)\<lparr>co_input_version := Some (vs_current vset)\<rparr>)
         (ldb_tables_create ''db'' (small_blocks (ldb_ikc_init bytewise_comparator)) 100)) = Some (OK, st') \<and>
    outputs_ok (small_blocks (ldb_ikc_init bytewise_comparator)) id (cs_outputs st') (cs_files st') parts \<and>
    (\<forall>v. told bytewise_comparator [97] 5 (set (concat parts)) v \<longleftrightarrow> v = None) \<and>
    (\<forall>v. told bytewise_comparator [97] 6 (set (concat parts)) v \<longleftrightarrow> v = Some [1])"
proof -
  let ?uc = bytewise_comparator and ?opts = "small_blocks (ldb_ikc_init bytewise_comparator)"
  define x where "x = (ldb_ikey_set [97] 6 TYPE_VALUE, [1 :: byte])"
  define y where "y = (ldb_ikey_set [97] 5 TYPE_DELETION, [] :: bytes)"
  define env :: "bytes compaction_env" where "env =
      \<lparr>ce_ops = \<lparr>wf_append = \<lambda>f d. (OK, f @ d), wf_flush = \<lambda>f. (OK, f)\<rparr>, ce_create = \<lambda>_. Inr [], ce_sync = Pair OK, ce_close = Pair OK,
       ce_open = \<lambda>fs _. Inr (file_of (snd (last fs))), ce_id = \<lambda>_. None, ce_number = \<lambda>_. 7, ce_shutdown = \<lambda>_. False\<rparr>"
  define f where "f = \<lparr>fm_refs = 1, fm_allowed_seeks = 100, fm_number = 5, fm_file_size = 9, fm_smallest = fst x, fm_largest = fst y\<rparr>"
  define vset :: "unit ldb_versions" where "vset = (ldb_versions_init ''db'' ?opts ?uc)
      \<lparr>vs_last_sequence := 6, vs_current := ldb_version_init\<lparr>vr_files := [f] # replicate 6 []\<rparr>\<rparr>"
  define c where "c = (ldb_compaction_init ?opts 0)\<lparr>co_input_version := Some (vs_current vset)\<rparr>"
  have ver: "vr_files (vs_current vset) = [f] # replicate 6 []" "vs_last_sequence vset = 6" "co_level c = 0"
    by (simp_all add: vset_def c_def ldb_compaction_init_def)
  have one: "ldb_versions_files vset 0 = 1" "0 < ldb_versions_files vset (co_level c)" by (simp_all add: ldb_versions_files_def ver)
  have empty: "vr_files (vs_current vset) ! lvl = []" if "lvl < LDB_NUM_LEVELS" "0 < lvl" for lvl
    using that by (simp add: ver nth_Cons' LDB_NUM_LEVELS_def)
  have imp: "ldb_pkey_import (fst x) = Some \<lparr>pk_user_key = [97], pk_sequence = 6, pk_type = TYPE_VALUE\<rparr>"
    "ldb_pkey_import (fst y) = Some \<lparr>pk_user_key = [97], pk_sequence = 5, pk_type = TYPE_DELETION\<rparr>"
    using ldb_pkey_import_write [of "\<lparr>pk_user_key = [97], pk_sequence = 6, pk_type = TYPE_VALUE\<rparr>"]
      ldb_pkey_import_write [of "\<lparr>pk_user_key = [97], pk_sequence = 5, pk_type = TYPE_DELETION\<rparr>"]
    by (simp_all add: x_def y_def ldb_ikey_set_def ldb_pkey_export_def ldb_pkey_init_def MAX_SEQUENCE_def)
  have key: "key_ok (fst x)" "key_ok (fst y)" "key_seq (fst x) = 6" "key_seq (fst y) = 5" "key_type (fst x) = TYPE_VALUE"
    "key_type (fst y) = TYPE_DELETION" by (simp_all add: key_ok_def key_seq_def key_type_def imp)
  have user: "ukey (fst x) = [97]" "ukey (fst y) = [97]" using key_parts [OF key(1)] key_parts [OF key(2)] imp by simp_all
  have len: "length (fst x) = 9" "length (fst y) = 9" unfolding x_def y_def fst_conv by code_simp+
  have less: "ldb_ikc_compare ?uc (fst x) (fst y) < 0" unfolding x_def y_def fst_conv by code_simp
  then have run: "run_ok ?uc [x, y]" "seqs_fall ?uc [x, y]" using key by (simp_all add: run_ok_def seqs_fall_def)
  have size: "entries_size [x, y] + 8 < 2 ^ 30" using len by (simp add: x_def y_def)
  have "sorted_wrt (\<lambda>x y. ldb_compare (ldb_ikc_init ?uc) (fst x) (fst y) < 0) [x, y]" using less by (simp add: ikc_compare_eq)
  moreover have "\<forall>e \<in> set [x, y]. table_key (ldb_ikc_init ?uc) (fst e)" using len by (simp add: table_key_def)
  ultimately obtain input where input: "biter_at (ldb_ikc_init ?uc) input [x, y] (length [x, y])"
    using bytewise_uc.ikt.block_at_entries [of 16 "[x, y]"] size by fastforce
  have env: "env_ok ?opts ''db'' id env"
  proof -
    have "reliable_file (ce_ops env) id" by unfold_locales (simp_all add: env_def)
    moreover have "ldb_table_filename LDB_PATH_MAX ''db'' 7 = Some ''db/000007.ldb''" by code_simp
    ultimately show ?thesis by (simp add: env_ok_def env_def)
  qed
  have c: "co_input_version c = Some (vs_current vset)" "co_level_ptrs c = replicate LDB_NUM_LEVELS 0" "op_comparator ?opts = ldb_ikc_init ?uc"
    "0 < op_block_restart_interval ?opts" "\<forall>lvl < LDB_NUM_LEVELS. 0 < lvl \<longrightarrow> chain ?uc (vr_files (vs_current vset) ! lvl)"
    "5 = (case Some 5 of None \<Rightarrow> vs_last_sequence vset | Some s \<Rightarrow> s)" "(5 :: u64) < MAX_SEQUENCE"
    by (simp_all add: c_def ldb_compaction_init_def empty chain_def MAX_SEQUENCE_def)
  have none: "beneath ?uc (vs_current vset) (co_level c) [x, y] {}" "newer ?uc {} (set [x, y] \<union> {})" by (simp_all add: beneath_def newer_def)
  have ok: "\<forall>it k. biter_at (ldb_ikc_init ?uc) it [x, y] k \<longrightarrow> tb_status biter_table it = OK" using biter_status by blast
  obtain st' parts where w: "ldb_do_compaction_work ?opts ''db'' ?uc env biter_table input vset (Some 5)
      (ldb_cstate_create c (ldb_tables_create ''db'' ?opts 100)) = Some (OK, st')"
    "outputs_ok ?opts id (cs_outputs st') (cs_files st') parts"
    "\<forall>u s v. 5 \<le> s \<longrightarrow> told ?uc u s ({} \<union> (set (concat parts) \<union> {})) v \<longleftrightarrow> told ?uc u s ({} \<union> (set [x, y] \<union> {})) v"
    using compaction_preserves_reads [OF bytewise_uc.user_comparator_axioms bytewise_uc.ikt.table_order_axioms bytewise_uc.blk.biter_iter_table
        ok env c(3) small_blocks_simps(4) no_filter_fits [OF small_blocks_simps(2)] c(4,1,2,5) run size input created_usable [of ?opts "''db''" 100]
        c(6,7) none one(2)] by blast
  have vis: "visible ?uc [97] s x \<longleftrightarrow> 6 \<le> s" "visible ?uc [97] s y \<longleftrightarrow> 5 \<le> s" for s
    using user key bytewise.cmp_refl by (simp_all add: visible_def)
  have new: "newest_in ?uc [97] 5 {x, y} y" "newest_in ?uc [97] 6 {x, y} x" using vis key by (simp_all add: newest_in_def)
  have "told ?uc [97] 5 {x, y} v \<longleftrightarrow> v = None" "told ?uc [97] 6 {x, y} v \<longleftrightarrow> v = Some [1]" for v
  proof -
    have one: "e' = e" if "e' \<in> {x, y}" "e \<in> {x, y}" "key_seq (fst e') = key_seq (fst e)" for e e' using that key(3,4) by (elim insertE) simp_all
    have val: "snd x = [1]" by (simp add: x_def)
    show "told ?uc [97] 5 {x, y} v \<longleftrightarrow> v = None" by (subst bytewise_uc.told_newest [OF new(1) one]) (simp_all add: key(6))
    show "told ?uc [97] 6 {x, y} v \<longleftrightarrow> v = Some [1]" by (subst bytewise_uc.told_newest [OF new(2) one]) (simp_all add: key(5) val)
  qed
  then show ?thesis using w one(1) unfolding env_def c_def by (intro exI [of _ vset] exI [of _ input] exI [of _ st'] exI [of _ parts]) simp
qed

end
