(* ===== verification/Spec2Isabelle.thy ===== *)
theory Spec2Isabelle
  imports Write_Batch Log Db_Read Compaction
begin

text \<open>
  Verification of the storage engine of kedis, \<^verbatim>\<open>engine/src\<close>: an ordered key-value store of the
  log-structured merge kind, in C.

  \<^bold>\<open>The program.\<close>  A write is a batch (\<^verbatim>\<open>write_batch.c\<close>) that gets a sequence number, is appended
  as one record to a log (\<^verbatim>\<open>log_writer.c\<close>) and inserted into a memtable (\<^verbatim>\<open>memtable.c\<close>), a skip list
  (\<^verbatim>\<open>skiplist.c\<close>) sorted by internal key: the user key, then the sequence number downwards
  (\<^verbatim>\<open>dbformat.c\<close>).  A full memtable becomes a table file (\<^verbatim>\<open>table/table_builder.c\<close>): prefix-compressed
  blocks (\<^verbatim>\<open>table/block_builder.c\<close>), compressed (\<^verbatim>\<open>util/snappy.c\<close>) and checksummed
  (\<^verbatim>\<open>util/crc32c.c\<close>), with a filter block (\<^verbatim>\<open>table/filter_block.c\<close>, \<^verbatim>\<open>util/bloom.c\<close>) and an index.
  A version (\<^verbatim>\<open>version_set.c\<close>) says which files are on which level; edits of versions
  (\<^verbatim>\<open>version_edit.c\<close>) are logged in the manifest.  A read looks in the memtables, then in the
  files of the current version through the table cache (\<^verbatim>\<open>table_cache.c\<close>, \<^verbatim>\<open>util/cache.c\<close>); a
  scan merges the iterators of all of them (\<^verbatim>\<open>table/merger.c\<close>, \<^verbatim>\<open>table/two_level_iterator.c\<close>) and
  hides what a snapshot does not see (\<^verbatim>\<open>db_iter.c\<close>).

  \<^bold>\<open>The theories.\<close>  File names are under \<^verbatim>\<open>engine/src\<close>; a definition has the name of the C function or
  struct it translates, and parts of a long function, or of a loop, have names of their own.

  \<^bold>\<open>1. Bytes.\<close>  Prelude: the machine types (\<open>u8\<close>, \<open>u32\<close>, \<open>u64\<close> as words), byte strings as lists, the
  status codes, lemmas on lists, options and words.  Coding (\<^verbatim>\<open>util/coding.h\<close>, \<^verbatim>\<open>util/slice.c\<close>): fixed and
  varint encodings and slices, each an interpretation of the locale \<open>wire_codec\<close>: a reader gets back what
  was written, whatever follows.  Comparator (\<^verbatim>\<open>util/comparator.c\<close>): the locales \<open>comparator\<close>,
  \<open>strict_comparator\<close> and \<open>separating_comparator\<close>, interpreted on the bytewise comparator, whose order is
  the lexicographic one.  Dbformat (\<^verbatim>\<open>dbformat.c\<close>): internal and lookup keys and the internal comparator;
  \<open>user_comparator\<close> and \<open>user_separators\<close> are the contracts of a user comparator.  Crc32c, Snappy, Bloom
  (\<^verbatim>\<open>util/crc32c.c\<close>, \<^verbatim>\<open>util/snappy.c\<close>, \<^verbatim>\<open>util/bloom.c\<close>, \<^verbatim>\<open>util/hash.c\<close>): the table-driven checksum is the
  bitwise one and tells every change of one byte, the compressor and the decompressor are inverse and within
  their bounds, a filter is characterised by its probes; \<open>filter_policy\<close> is the contract of a policy.
  Random_Gen (\<^verbatim>\<open>util/random.c\<close>), Vector (\<^verbatim>\<open>util/vector.c\<close>, \<^verbatim>\<open>util/array.c\<close>: the quicksort sorts) and
  Filename (\<^verbatim>\<open>filename.c\<close>, \<^verbatim>\<open>util/strutil.c\<close>: names are made when they fit and parse back).

  \<^bold>\<open>2. Memory and log.\<close>  Skiplist (\<^verbatim>\<open>skiplist.c\<close>): nodes in an arena, a map from addresses; \<open>skip_repr\<close>
  says which sorted list the linked levels hold, and the locale \<open>skip_order\<close> shows search and insertion for
  every lawful comparator, an instance of the abstract \<open>ordered_store\<close>.  Memtable (\<^verbatim>\<open>memtable.c\<close>) on it,
  with \<open>mem_holds\<close> the set of updates a memtable holds, and Write_Batch (\<^verbatim>\<open>write_batch.c\<close>) with
  \<open>batch_repr\<close> the operations a batch stands for.  Log (\<^verbatim>\<open>log_writer.c\<close>, \<^verbatim>\<open>log_reader.c\<close>): the locales
  \<open>reliable_file\<close> and \<open>sequential_file\<close> are the contracts of the files of the environment; what the
  writer appended the reader reads back, also from a file that was cut.

  \<^bold>\<open>3. Iterators.\<close>  Iterator: the locale \<open>iter_contract\<close>, a cursor over a sorted list, and programs of
  moves.  Iter_Wrapper, Iter_Tables (\<^verbatim>\<open>table/iterator.h\<close>, \<^verbatim>\<open>table/iterator_wrapper.h\<close>): the function table
  and the caching wrapper; the locale \<open>iter_table\<close> is the contract of a table of functions, \<open>two_tables\<close>
  the dispatch between two implementations.  Every iterator of the engine is shown to meet the contract by a
  sublocale: memtables, blocks, \<open>merging\<close> for Merger (\<^verbatim>\<open>table/merger.c\<close>), \<open>two_level\<close> for Two_Level
  (\<^verbatim>\<open>table/two_level_iterator.c\<close>) and \<open>snapshot\<close> for Db_Iter (\<^verbatim>\<open>db_iter.c\<close>).  Db_Read composes
  memtables, the merging iterator and the database iterator.

  \<^bold>\<open>4. Tables.\<close>  Block (\<^verbatim>\<open>table/block_builder.c\<close>, \<^verbatim>\<open>table/block.c\<close>, locale \<open>block_order\<close>), Filter_Block
  (\<^verbatim>\<open>table/filter_block.c\<close>), Table_Format (\<^verbatim>\<open>table/format.c\<close>), Table_Builder (\<^verbatim>\<open>table/table_builder.c\<close>,
  locale \<open>table_order\<close>) and Table (\<^verbatim>\<open>table/table.c\<close>).  Table takes the block cache as an argument of type
  \<open>block_cache\<close>; the locale \<open>block_store\<close> is what it needs of one: what is inserted under a key is found
  under it or not at all, and a block stays until its handle is released.  Lru_Cache (\<^verbatim>\<open>util/cache.c\<close>): the
  shards are states with a store of entries, an \<open>inductive\<close> relation \<open>lru_step\<close> of the operations clients
  may do, and an invariant by rule induction.  Table_Cache (\<^verbatim>\<open>table_cache.c\<close>) interprets \<open>block_store\<close> on
  the LRU cache, and the locale \<open>table_reader\<close>, what a version needs of the table cache, on
  \<^verbatim>\<open>ldb_tables_get\<close>.

  \<^bold>\<open>5. Versions.\<close>  Version_Edit (\<^verbatim>\<open>version_edit.c\<close>), and of \<^verbatim>\<open>version_set.c\<close>: Version (searches, overlaps),
  Version_Get (lookups and seek statistics, locale \<open>version_reader\<close>), Version_Builder (edits applied to a
  version), Version_Set (scores, the choice of what to compact).  Compaction (\<^verbatim>\<open>ldb_do_compaction_work\<close> and
  its helpers in \<^verbatim>\<open>db_impl.c\<close>): what a compaction writes and drops.

  \<^bold>\<open>Reading the models.\<close>  A function that changes a struct returns the changed record.  A status or a C
  boolean is returned beside it; \<open>status + 'a\<close> is a result with an error.  \<open>None\<close> is an access outside of an
  array, a failed assertion or a call the code excludes; a property whose conclusion is \<open>Some\<close> excludes
  it.  Pointers to shared mutable objects are addresses in a store (skip list nodes, cache entries); other
  structs are values.  Loops are recursive functions with a measure; none needs fuel, and none is shown
  only under the condition that it ends.  \<open>partial_function\<close> is used where a loop may not end on data
  that is not well-formed, or asks an iterator that is a parameter; the properties show that the result
  is \<open>Some\<close>.

  \<^bold>\<open>Bounds.\<close>  Words have their width where the code computes with them.  Where an index or an offset is a
  number, the property bounds the data so that the C type does not wrap: a block has less than
  \<open>2 ^ 32\<close> bytes, an array to be sorted at most \<open>2 ^ 30\<close> items (the sum of two indices is a C \<^verbatim>\<open>int\<close>), a
  level 0 that is sorted for a lookup at most \<open>2 ^ 30\<close> files, a shard of the cache less than \<open>2 ^ 31\<close> entries
  and an entry less than \<open>2 ^ 31\<close> handles (its count has 32 bits), a capacity at most \<open>2 ^ 64 - 16\<close>.

  \<^bold>\<open>Abstractions.\<close>  A red-black tree (\<^verbatim>\<open>util/rbt.c\<close>) is the sorted list it iterates over.  The score of a level,
  a \<^verbatim>\<open>double\<close>, is an exact quotient, and sums of file sizes (\<^verbatim>\<open>int64_t\<close>) and indices of files
  (\<^verbatim>\<open>uint32_t\<close>) are unbounded; the properties do not depend on the scores and sums.  Growable buffers are
  lists, allocation succeeds, and memory that only has to be freed is not followed, apart from the
  entries of the cache.  An operation under a mutex is atomic; what other threads do in between
  is an argument: the changes of others to the block cache between the moves of an iterator, the
  environment of a running compaction.

  \<^bold>\<open>Not modelled.\<close>  The environments and the loggers (system calls; files are parameters with their
  contracts), threads, locks and the thread pool, the CPU-specific checksums, the debug printers.  Of
  \<^verbatim>\<open>db_impl.c\<close>: opening, recovery, the writer queue, the flush of a memtable (\<^verbatim>\<open>builder.c\<close>), the
  scheduling of background work and the list of snapshots (\<^verbatim>\<open>snapshot.h\<close>); of \<^verbatim>\<open>version_set.c\<close>: the manifest, the list of live versions, the iterators of a
  version.  The C interface (\<^verbatim>\<open>c.c\<close>), the utilities (\<^verbatim>\<open>dbutil.c\<close>, \<^verbatim>\<open>repair.c\<close>, \<^verbatim>\<open>dumpfile.c\<close>), the arena
  and the internals of the red-black tree, and outside of the engine the servers, the containers of
  \<^verbatim>\<open>stl\<close> and the benchmarks.
\<close>

end
